(* ===== verification/Prelude.thy ===== *)
theory Prelude
  imports Main "HOL-Library.Word" "HOL-Library.Signed_Division"
begin

text \<open>
  What every component theory shares: the machine integers of the i386 kernel, the error
  numbers of \<^verbatim>\<open>errno.h\<close> that the system calls return negated, the memory faults a C program
  can run into (a value of \<open>fault\<close> on the left of a sum, so that an undefined access is a
  branch of the model and not an unspecified value), and the contract of a machine whose
  operations keep an invariant and never fault.
\<close>

subsection \<open>Machine types\<close>

type_synonym u32 = "32 word"
type_synonym pid = int

subsection \<open>Error numbers\<close>

abbreviation (input) EPERM :: int where "EPERM \<equiv> 1"
abbreviation (input) ENOENT :: int where "ENOENT \<equiv> 2"
abbreviation (input) ESRCH :: int where "ESRCH \<equiv> 3"
abbreviation (input) EAGAIN :: int where "EAGAIN \<equiv> 11"
abbreviation (input) ENOMEM :: int where "ENOMEM \<equiv> 12"
abbreviation (input) EACCES :: int where "EACCES \<equiv> 13"
abbreviation (input) EFAULT :: int where "EFAULT \<equiv> 14"
abbreviation (input) EINVAL :: int where "EINVAL \<equiv> 22"
abbreviation (input) ENOSYS :: int where "ENOSYS \<equiv> 38"

subsection \<open>Memory faults and kernel pointers\<close>

datatype fault =
    Null_Deref
  | Use_After_Free
  | Double_Free
  | Out_Of_Bounds
  | Buffer_Overflow
  | Uninitialised
  | Bad_Address
  | Div_By_Zero
  | Kernel_Bug

text \<open>A computation that gives no result: it faulted, or it runs for ever.\<close>

datatype stuck = Faulted fault | Diverged

text \<open>
  A pointer to an array obtained from \<^verbatim>\<open>kmalloc\<close>: null, dangling (the block was freed and the
  pointer was kept), or a live block with its elements.
\<close>

datatype 'a kptr = KNull | KFreed | KBlock "'a list"

fun kread :: "'a kptr \<Rightarrow> int \<Rightarrow> fault + 'a" where
  "kread KNull i = Inl Null_Deref"
| "kread KFreed i = Inl Use_After_Free"
| "kread (KBlock xs) i =
     (if 0 \<le> i \<and> i < int (length xs) then Inr (xs ! nat i) else Inl Out_Of_Bounds)"

fun kwrite :: "'a kptr \<Rightarrow> int \<Rightarrow> 'a \<Rightarrow> fault + 'a kptr" where
  "kwrite KNull i v = Inl Null_Deref"
| "kwrite KFreed i v = Inl Use_After_Free"
| "kwrite (KBlock xs) i v =
     (if 0 \<le> i \<and> i < int (length xs) then Inr (KBlock (xs[nat i := v])) else Inl Out_Of_Bounds)"

text \<open>\<open>kfree\<close> of the null pointer does nothing; of a dangling one it is a double free.\<close>

fun kfree :: "'a kptr \<Rightarrow> fault + 'a kptr" where
  "kfree KNull = Inr KNull"
| "kfree KFreed = Inl Double_Free"
| "kfree (KBlock xs) = Inr KFreed"

text \<open>A pointer passed from user space: null, bad (a copy through it fails), or valid with its value.\<close>

datatype 'a uptr = U_Null | U_Bad | U_Val 'a

definition sbind :: "'e + 'a \<Rightarrow> ('a \<Rightarrow> 'e + 'b) \<Rightarrow> 'e + 'b" where
  "sbind m f = (case m of Inl e \<Rightarrow> Inl e | Inr a \<Rightarrow> f a)"

lemma sbind_simps [simp]:
  "sbind (Inl e) f = Inl e"
  "sbind (Inr a) f = f a"
  by (simp_all add: sbind_def)

lemma sbind_Inr_iff: "sbind m f = Inr b \<longleftrightarrow> (\<exists>a. m = Inr a \<and> f a = Inr b)"
  by (cases m) simp_all

lemma kread_Inr_iff:
  "kread p i = Inr v \<longleftrightarrow>
    (\<exists>xs. p = KBlock xs \<and> 0 \<le> i \<and> i < int (length xs) \<and> v = xs ! nat i)"
  by (cases p) auto

subsection \<open>Machines whose operations keep an invariant\<close>

text \<open>
  \<open>run_ops\<close> executes a list of operations from a state and stops at the first error, as a
  kernel that faults does.
\<close>

fun run_ops :: "('op \<Rightarrow> 's \<Rightarrow> 'e + 's) \<Rightarrow> 'op list \<Rightarrow> 's \<Rightarrow> 'e + 's" where
  "run_ops step [] s = Inr s"
| "run_ops step (x # xs) s = sbind (step x s) (run_ops step xs)"

lemma run_ops_append:
  "run_ops step (xs @ ys) s = sbind (run_ops step xs s) (run_ops step ys)"
proof (induction xs arbitrary: s)
  case (Cons x xs)
  then show ?case by (cases "step x s") simp_all
qed simp

text \<open>
  The contract: from a state that satisfies the invariant an allowed operation returns, and the
  invariant holds again. Every component that promises such a contract interprets the locale
  and gets the statement about whole runs. \<open>ops_allowed\<close> asks each operation's guard in the
  state the operation is executed in.
\<close>

fun ops_allowed ::
  "('op \<Rightarrow> 's \<Rightarrow> 'e + 's) \<Rightarrow> ('op \<Rightarrow> 's \<Rightarrow> bool) \<Rightarrow> 'op list \<Rightarrow> 's \<Rightarrow> bool" where
  "ops_allowed step ok [] s = True"
| "ops_allowed step ok (x # xs) s =
     (ok x s \<and> (case step x s of Inl _ \<Rightarrow> True | Inr s' \<Rightarrow> ops_allowed step ok xs s'))"

locale safe_machine =
  fixes step :: "'op \<Rightarrow> 's \<Rightarrow> 'e + 's"
    and allowed :: "'op \<Rightarrow> 's \<Rightarrow> bool"
    and inv :: "'s \<Rightarrow> bool"
  assumes step_safe: "inv s \<Longrightarrow> allowed x s \<Longrightarrow> \<exists>s'. step x s = Inr s' \<and> inv s'"
begin

lemma run_safe:
  "inv s \<Longrightarrow> ops_allowed step allowed xs s \<Longrightarrow> \<exists>s'. run_ops step xs s = Inr s' \<and> inv s'"
proof (induction xs arbitrary: s)
  case (Cons x xs)
  from Cons.prems obtain s' where "step x s = Inr s'" "inv s'"
    using step_safe [of s x] by auto
  with Cons.prems Cons.IH [of s'] show ?case by simp
qed simp

lemma run_safe_static:
  assumes "inv s" and "\<And>x t. x \<in> set xs \<Longrightarrow> inv t \<Longrightarrow> allowed x t"
  shows "\<exists>s'. run_ops step xs s = Inr s' \<and> inv s'"
  using assms
proof (induction xs arbitrary: s)
  case (Cons x xs)
  then obtain s' where "step x s = Inr s'" "inv s'"
    using step_safe [of s x] by (meson list.set_intros(1))
  with Cons show ?case by simp
qed simp

end

text \<open>The same for a machine given by a relation: what every step keeps holds in every state it reaches.\<close>

locale invariant_relation =
  fixes step :: "'s \<Rightarrow> 's \<Rightarrow> bool" and inv :: "'s \<Rightarrow> bool"
  assumes step_inv: "step s s' \<Longrightarrow> inv s \<Longrightarrow> inv s'"
begin

lemma run_inv: "step\<^sup>*\<^sup>* s s' \<Longrightarrow> inv s \<Longrightarrow> inv s'"
  by (induction rule: rtranclp_induct) (auto intro: step_inv)

lemma run_next: "step\<^sup>*\<^sup>* s s' \<Longrightarrow> inv s \<Longrightarrow> step s' s'' \<Longrightarrow> inv s' \<and> inv s''"
  using run_inv step_inv by blast

end

subsection \<open>Division and words\<close>

text \<open>The division of C agrees with \<open>div\<close> on non-negative operands.\<close>

lemma sdiv_nonneg: "0 \<le> (a :: int) \<Longrightarrow> 0 < b \<Longrightarrow> a sdiv b = a div b"
  by (cases "a = 0") (simp_all add: signed_divide_int_def sgn_if)

lemma u32_of_int: "0 \<le> k \<Longrightarrow> k < 2 ^ 32 \<Longrightarrow> unat (of_int k :: u32) = nat k"
proof -
  assume k: "0 \<le> k" "k < 2 ^ 32"
  have "uint (word_of_int k :: 32 word) = k"
    using k by (simp only: uint_word_of_int len_num1 len_bit0) simp
  then show ?thesis by (simp only: unat_eq_nat_uint)
qed

lemma u32_ge_1: "(w :: u32) \<noteq> 0 \<Longrightarrow> 1 \<le> w"
  using unat_eq_0 [of w] by (auto simp: word_le_nat_alt Suc_le_eq)

lemma u32_of_nat: "n < 2 ^ 32 \<Longrightarrow> unat (of_nat n :: u32) = n"
  by (simp only: unat_of_nat len_num1 len_bit0) simp

lemma u32_of_nat_0: "n < 2 ^ 32 \<Longrightarrow> (of_nat n :: u32) = 0 \<longleftrightarrow> n = 0"
  using u32_of_nat [of n] unat_eq_0 [of "of_nat n :: u32"] by linarith

subsection \<open>Lists\<close>

lemma distinct_remove1_eq_filter: "distinct xs \<Longrightarrow> remove1 x xs = filter (\<lambda>y. y \<noteq> x) xs"
  by (simp add: distinct_remove1_removeAll removeAll_filter_not_eq) (metis (lifting) ext)

lemma upt_split: "i \<le> j \<Longrightarrow> j \<le> k \<Longrightarrow> [i..<j] @ [j..<k] = [i..<k]"
  by (metis le_Suc_ex upt_add_eq_append)

subsection \<open>Counting threads\<close>

definition one_if :: "bool \<Rightarrow> int" where "one_if b = (if b then 1 else 0)"

lemma one_if_simps [simp]: "one_if True = 1" "one_if False = 0"
  by (simp_all add: one_if_def)

text \<open>How the number of threads at a place changes when thread \<open>t\<close> moves.\<close>

lemma count_upd:
  assumes "finite {t. P (f t)}"
  shows "finite {u. P ((f(t := p)) u)}"
    "int (card {u. P ((f(t := p)) u)}) = int (card {u. P (f u)}) - one_if (P (f t)) + one_if (P p)"
proof -
  have e: "{u. P ((f(t := p)) u)} = {u. P (f u)} - {t} \<union> (if P p then {t} else {})" by auto
  have f: "finite ({u. P (f u)} - {t})" using assms by simp
  show "finite {u. P ((f(t := p)) u)}" unfolding e using assms by simp
  have c: "int (card ({u. P (f u)} - {t})) = int (card {u. P (f u)}) - one_if (P (f t))"
  proof (cases "P (f t)")
    case True
    with assms have "0 < card {u. P (f u)}" by (auto simp: card_gt_0_iff)
    with True assms show ?thesis by (simp add: one_if_def of_nat_diff)
  qed simp
  show "int (card {u. P ((f(t := p)) u)}) = int (card {u. P (f u)}) - one_if (P (f t)) + one_if (P p)"
  proof (cases "P p")
    case True
    then have "int (card ({u. P (f u)} - {t} \<union> {t})) = int (card ({u. P (f u)} - {t})) + 1"
      using f by (subst card_Un_disjoint) auto
    with True c show ?thesis unfolding e by simp
  qed (use c e in simp)
qed

end
