(* ===== verification/Restrict.thy ===== *)
theory Restrict
  imports Prelude
begin

text \<open>
  HW1, system call restriction. Models \<^verbatim>\<open>HW1/arch/i386/kernel/hw1_syscalls.c\<close> (the three system
  calls), \<^verbatim>\<open>HW1/kernel/restrict.c\<close> (the check on every system call), the gate of
  \<^verbatim>\<open>HW1/arch/i386/kernel/entry.S\<close> that calls it, and the lines of \<^verbatim>\<open>fork.c\<close> and \<^verbatim>\<open>exit.c\<close>
  that set up and tear down the two lists of a process.

  The fields of \<open>task_struct\<close> that the code uses are a record; the two arrays are kernel pointers
  (\<open>kptr\<close>), so that freeing, leaking and overrunning them are visible. The environment is passed
  in: an element of the log block is \<open>None\<close> until it is written, so that a read of uninitialised
  kernel memory is a fault; \<open>kmalloc k n\<close> is the number of usable bytes of the block the \<open>k\<close>-th allocation of a
  handler returns for a request of \<open>n\<close> bytes, or \<open>None\<close> when it fails; \<open>ubuf\<close> is what
  \<^verbatim>\<open>copy_from_user\<close> leaves in the kernel buffer. \<^verbatim>\<open>int\<close> is a mathematical integer: its overflow
  is undefined in C and needs \<open>2 ^ 31\<close> log entries.
\<close>

subsection \<open>Data\<close>

record scr =
  scr_syscall_num :: int
  restriction_threshold :: int

record fai =
  fai_syscall_num :: int
  syscall_restriction_threshold :: int
  fai_restriction_level :: int
  fai_time :: int

record rtask =
  proc_restriction_level :: int
  restrictions_list :: "scr kptr"
  restrictions_list_size :: int
  log_list :: "fai option kptr"
  log_list_size :: int

record rkernel =
  rtasks :: "pid \<Rightarrow> rtask option"
  errno :: int
  rjiffies :: int

type_synonym allocator = "nat \<Rightarrow> nat \<Rightarrow> nat option"

definition REST_LIST_SIZE :: nat where "REST_LIST_SIZE = 100"
definition sizeof_scr :: nat where "sizeof_scr = 8"
definition sizeof_fai :: nat where "sizeof_fai = 16"

text \<open>\<^verbatim>\<open>list_size*sizeof(scr)\<close> is computed in 32-bit unsigned arithmetic.\<close>

definition scr_bytes :: "int \<Rightarrow> nat" where
  "scr_bytes list_size = nat ((list_size * int sizeof_scr) mod 2 ^ 32)"

subsection \<open>The system calls\<close>

definition put_task :: "pid \<Rightarrow> rtask \<Rightarrow> rkernel \<Rightarrow> rkernel" where
  "put_task pid t k = k\<lparr>rtasks := (rtasks k)(pid := Some t)\<rparr>"

text \<open>
  The part of \<open>sys_sc_restrict\<close> after its argument checks (lines 30 to 52), on the task found.
  The old list is freed first; a failed allocation returns with the pointers as they are then.
\<close>

definition install_restrictions ::
  "allocator \<Rightarrow> int \<Rightarrow> scr list \<Rightarrow> int \<Rightarrow> rtask \<Rightarrow> fault + (rtask \<times> int)" where
  "install_restrictions kmalloc level ubuf list_size t =
     sbind (kfree (restrictions_list t)) (\<lambda>_.
       case kmalloc 0 (scr_bytes list_size) of
         None \<Rightarrow> Inr (t\<lparr>restrictions_list := KNull\<rparr>, - ENOMEM)
       | Some _ \<Rightarrow>
           (let rl = KBlock (take (scr_bytes list_size div sizeof_scr) ubuf);
                finish = (\<lambda>u. Inr (u\<lparr>restrictions_list := rl, proc_restriction_level := level,
                                    restrictions_list_size := list_size\<rparr>, 0))
            in case log_list t of
                 KNull \<Rightarrow>
                   (case kmalloc 1 (REST_LIST_SIZE * sizeof_fai) of
                      None \<Rightarrow> Inr (t\<lparr>restrictions_list := KFreed\<rparr>, - ENOMEM)
                    | Some _ \<Rightarrow> finish (t\<lparr>log_list := KBlock (replicate REST_LIST_SIZE None)\<rparr>))
               | _ \<Rightarrow> finish t))"

definition sys_sc_restrict ::
  "allocator \<Rightarrow> pid \<Rightarrow> int \<Rightarrow> scr list \<Rightarrow> int \<Rightarrow> rkernel \<Rightarrow> fault + (rkernel \<times> int)" where
  "sys_sc_restrict kmalloc pid level ubuf list_size k =
     (let temp = errno k; k1 = k\<lparr>errno := EINVAL\<rparr>
      in if pid < 0 then Inr (k1, - ESRCH)
         else case rtasks k1 pid of
           None \<Rightarrow> Inr (k1, - ESRCH)
         | Some curp \<Rightarrow>
             if level < 0 \<or> level > 2 then Inr (k1, - EINVAL)
             else if list_size < 0 then Inr (k1, - EINVAL)
             else sbind (install_restrictions kmalloc level ubuf list_size curp) (\<lambda>(curp', r).
               Inr ((put_task pid curp' k1)\<lparr>errno := (if r = 0 then temp else EINVAL)\<rparr>, r)))"

definition sys_set_proc_restriction :: "pid \<Rightarrow> int \<Rightarrow> rkernel \<Rightarrow> fault + (rkernel \<times> int)" where
  "sys_set_proc_restriction pid level k =
     (let temp = errno k; k1 = k\<lparr>errno := EINVAL\<rparr>
      in if pid < 0 then Inr (k1, - ESRCH)
         else case rtasks k1 pid of
           None \<Rightarrow> Inr (k1, - ESRCH)
         | Some curp \<Rightarrow>
             if level < 0 \<or> level > 2 then Inr (k1, - EINVAL)
             else Inr ((put_task pid (curp\<lparr>proc_restriction_level := level\<rparr>) k1)\<lparr>errno := temp\<rparr>, 0))"

text \<open>
  The two copy loops of \<open>sys_get_process_log\<close> (lines 99 to 105 and 108 to 114). \<open>to_usr\<close> is the
  list of entries written so far, of which the block has room for \<open>cap\<close>; \<open>count\<close> and \<open>j\<close> both
  equal its length.
\<close>

definition log_emit :: "fai option kptr \<Rightarrow> nat \<Rightarrow> int \<Rightarrow> fai list \<Rightarrow> fault + fai list" where
  "log_emit log cap i to_usr =
     sbind (kread log i) (\<lambda>v.
       case v of
         None \<Rightarrow> Inl Uninitialised
       | Some e \<Rightarrow> if length to_usr < cap then Inr (to_usr @ [e]) else Inl Buffer_Overflow)"

function copy_to_end :: "fai option kptr \<Rightarrow> nat \<Rightarrow> int \<Rightarrow> int \<Rightarrow> fai list \<Rightarrow> fault + fai list" where
  "copy_to_end log cap i end_of_log to_usr =
     (if i < end_of_log
      then (case log_emit log cap i to_usr of
              Inl e \<Rightarrow> Inl e
            | Inr to_usr' \<Rightarrow> copy_to_end log cap (i + 1) end_of_log to_usr')
      else Inr to_usr)"
  by pat_completeness auto
termination
  by (relation "measure (\<lambda>(log, cap, i, e, to_usr). nat (e - i))") auto

function copy_wrapped ::
  "fai option kptr \<Rightarrow> nat \<Rightarrow> int \<Rightarrow> int \<Rightarrow> int \<Rightarrow> fai list \<Rightarrow> fault + fai list" where
  "copy_wrapped log cap i log_size sz to_usr =
     (if i < log_size \<and> int (length to_usr) \<le> sz
      then (case log_emit log cap i to_usr of
              Inl e \<Rightarrow> Inl e
            | Inr to_usr' \<Rightarrow> copy_wrapped log cap (i + 1) log_size sz to_usr')
      else Inr to_usr)"
  by pat_completeness auto
termination
  by (relation "measure (\<lambda>(log, cap, i, n, sz, to_usr). nat (n - i))") auto

declare copy_to_end.simps [simp del] copy_wrapped.simps [simp del]

text \<open>Lines 96 to 115: where the copy starts, and the entries the two loops write.\<close>

definition gather_log :: "fai option kptr \<Rightarrow> int \<Rightarrow> nat \<Rightarrow> int \<Rightarrow> fault + fai list" where
  "gather_log log log_size cap sz =
     (let index = (if log_size < 100 then log_size - sz
                   else int REST_LIST_SIZE - (sz - log_size smod 100));
          end_of_log = (if log_size < 100 then log_size else int REST_LIST_SIZE)
      in sbind (copy_to_end log cap index end_of_log []) (\<lambda>to_usr.
           if int (length to_usr) < sz then copy_wrapped log cap 0 log_size sz to_usr
           else Inr to_usr))"

text \<open>
  The result is the return value with what is copied to user memory: \<open>sz\<close> entries when the
  call succeeds.
\<close>

definition sys_get_process_log ::
  "allocator \<Rightarrow> pid \<Rightarrow> int \<Rightarrow> rkernel \<Rightarrow> fault + (rkernel \<times> int \<times> fai list)" where
  "sys_get_process_log kmalloc pid sz k =
     (let temp = errno k; k1 = k\<lparr>errno := EINVAL\<rparr>
      in if pid < 0 then Inr (k1, - ESRCH, [])
         else case rtasks k1 pid of
           None \<Rightarrow> Inr (k1, - ESRCH, [])
         | Some curp \<Rightarrow>
             if sz > log_list_size curp \<or> sz < 0 then Inr (k1, - EINVAL, [])
             else case kmalloc 0 (nat sz * sizeof_fai) of
               None \<Rightarrow> Inr (k1, - ENOMEM, [])
             | Some usable \<Rightarrow>
                 sbind (gather_log (log_list curp) (log_list_size curp) (usable div sizeof_fai) sz)
                   (\<lambda>to_usr. Inr (k1\<lparr>errno := temp\<rparr>, 0, take (nat sz) to_usr)))"

subsection \<open>The check on every system call\<close>

text \<open>The loop of \<open>syscall_check\<close> from index \<open>i\<close> on (lines 12 to 34).\<close>

function check_from :: "int \<Rightarrow> int \<Rightarrow> int \<Rightarrow> rtask \<Rightarrow> fault + (rtask \<times> int)" where
  "check_from jiffies num i t =
     (if i < restrictions_list_size t
      then (case kread (restrictions_list t) i of
              Inl e \<Rightarrow> Inl e
            | Inr r \<Rightarrow>
                if scr_syscall_num r = num then
                  if restriction_threshold r \<le> proc_restriction_level t then Inr (t, 0)
                  else if log_list t \<noteq> KNull then
                    sbind (kwrite (log_list t) (log_list_size t smod 100)
                       (Some \<lparr>fai_syscall_num = num,
                        syscall_restriction_threshold = restriction_threshold r,
                        fai_restriction_level = proc_restriction_level t,
                        fai_time = jiffies\<rparr>)) (\<lambda>l.
                     Inr (t\<lparr>log_list := l, log_list_size := log_list_size t + 1\<rparr>, -1))
                  else check_from jiffies num (i + 1) t
                else check_from jiffies num (i + 1) t)
      else Inr (t, 0))"
  by pat_completeness auto
termination
  by (relation "measure (\<lambda>(j, num, i, t). nat (restrictions_list_size t - i))") auto

declare check_from.simps [simp del]

definition syscall_check :: "int \<Rightarrow> int \<Rightarrow> rtask option \<Rightarrow> fault + (rtask option \<times> int)" where
  "syscall_check jiffies num curp =
     (case curp of
        None \<Rightarrow> Inr (None, 0)
      | Some t \<Rightarrow>
          if restrictions_list_size t < 1 then Inr (Some t, 0)
          else sbind (check_from jiffies num 0 t) (\<lambda>(t', r). Inr (Some t', r)))"

text \<open>
  The untraced path of \<open>system_call\<close> in \<^verbatim>\<open>entry.S\<close>: a forbidden call, and one whose number is out
  of the table (compared unsigned), end in \<open>badsys\<close>; any other is dispatched. \<open>handler\<close> is the
  entry of \<^verbatim>\<open>sys_call_table\<close>, applied to the state the check leaves.
\<close>

definition system_call ::
  "int \<Rightarrow> (int \<Rightarrow> rkernel \<Rightarrow> fault + (rkernel \<times> int)) \<Rightarrow> pid \<Rightarrow> int \<Rightarrow> rkernel
    \<Rightarrow> fault + (rkernel \<times> int)" where
  "system_call NR_syscalls handler cur num k =
     sbind (syscall_check (rjiffies k) num (rtasks k cur)) (\<lambda>(t', r).
       let k' = k\<lparr>rtasks := (rtasks k)(cur := t')\<rparr>
       in if r = -1 then Inr (k', - ENOSYS)
          else if num < 0 \<or> num \<ge> NR_syscalls then Inr (k', - ENOSYS)
          else handler num k')"

subsection \<open>Fork and exit\<close>

text \<open>\<open>do_fork\<close>: the child is a copy of the parent with the restriction fields reset.\<close>

definition fork_restrictions :: "rtask \<Rightarrow> rtask" where
  "fork_restrictions p =
     p\<lparr>proc_restriction_level := 0, log_list_size := 0, restrictions_list := KNull,
       log_list := KNull, restrictions_list_size := 0\<rparr>"

text \<open>\<open>release_task\<close>: the two lists of a dead process are freed, with its \<open>task_struct\<close>.\<close>

definition release_restrictions :: "rtask \<Rightarrow> fault + unit" where
  "release_restrictions p =
     sbind (if log_list p \<noteq> KNull then kfree (log_list p) else Inr KNull) (\<lambda>_.
     sbind (if restrictions_list p \<noteq> KNull then kfree (restrictions_list p) else Inr KNull) (\<lambda>_.
     Inr ()))"


subsection \<open>Well-formed processes\<close>

text \<open>
  What the code keeps true of a process: the restriction list is a block of the recorded size, a
  restricted process has a log, and the log is a ring of 100 entries of which the first
  \<open>log_list_size\<close> are written.
\<close>

definition wf_rtask :: "rtask \<Rightarrow> bool" where
  "wf_rtask t \<longleftrightarrow>
     0 \<le> restrictions_list_size t \<and> 0 \<le> log_list_size t \<and>
     restrictions_list t \<noteq> KFreed \<and>
     (restrictions_list_size t > 0 \<longrightarrow>
        (\<exists>rs. restrictions_list t = KBlock rs \<and> int (length rs) = restrictions_list_size t) \<and>
        log_list t \<noteq> KNull) \<and>
     (log_list t = KNull \<and> log_list_size t = 0 \<or>
        (\<exists>xs. log_list t = KBlock xs \<and> length xs = REST_LIST_SIZE \<and>
              (\<forall>i < REST_LIST_SIZE. int i < log_list_size t \<longrightarrow> xs ! i \<noteq> None)))"

definition wf_rkernel :: "rkernel \<Rightarrow> bool" where
  "wf_rkernel k \<longleftrightarrow> (\<forall>pid t. rtasks k pid = Some t \<longrightarrow> wf_rtask t)"

text \<open>What \<^verbatim>\<open>kmalloc\<close> promises: a block it returns has at least the size asked for. It may fail.\<close>

definition kmalloc_ok :: "allocator \<Rightarrow> bool" where
  "kmalloc_ok kmalloc \<longleftrightarrow> (\<forall>k n u. kmalloc k n = Some u \<longrightarrow> n \<le> u)"

text \<open>
  The two places where the code itself breaks a well-formed process. A failed allocation of
  \<open>sys_sc_restrict\<close> does harm when it is the first one and the process has restrictions (their number
  is kept, the list is gone), or the second one (the freed list is kept). A read of the log does harm when it
  is of more than 100 entries, or of a log that has wrapped and is not at a multiple of 100 and the block has no
  spare entry behind it. \<open>usable\<close> is the size of the block of the read, if it was granted.
\<close>

definition alloc_hazard :: "allocator \<Rightarrow> int \<Rightarrow> rtask \<Rightarrow> bool" where
  "alloc_hazard kmalloc n t =
     (if kmalloc 0 (scr_bytes n) = None then 0 < restrictions_list_size t
      else log_list t = KNull \<and> kmalloc 1 (REST_LIST_SIZE * sizeof_fai) = None)"

definition read_hazard :: "nat option \<Rightarrow> int \<Rightarrow> int \<Rightarrow> bool" where
  "read_hazard usable logged n = (case usable of None \<Rightarrow> False
     | Some u \<Rightarrow> 100 < n \<or> 0 < n \<and> 100 \<le> logged \<and> logged mod 100 \<noteq> 0 \<and> u < nat n * sizeof_fai + sizeof_fai)"

lemma scr_bytes_small: "0 \<le> n \<Longrightarrow> n < 2 ^ 29 \<Longrightarrow> scr_bytes n div sizeof_scr = nat n"
  by (simp add: scr_bytes_def sizeof_scr_def)

lemma spare_entry:
  "nat sz * sizeof_fai + sizeof_fai \<le> u \<Longrightarrow> nat sz < u div sizeof_fai"
  by (simp add: sizeof_fai_def)

lemma wf_fork_restrictions [simp]: "wf_rtask (fork_restrictions p)"
  by (simp add: wf_rtask_def fork_restrictions_def)

lemma wf_release: "wf_rtask t \<Longrightarrow> release_restrictions t = Inr ()"
  by (cases "restrictions_list t")
     (auto simp: wf_rtask_def release_restrictions_def)

lemma wf_install:
  assumes "wf_rtask t" "0 \<le> n" "n < 2 ^ 29" "int (length ubuf) = n"
    and "install_restrictions kmalloc level ubuf n t = Inr (t', 0)"
  shows "wf_rtask t'" "restrictions_list t' = KBlock ubuf" "restrictions_list_size t' = n"
    "proc_restriction_level t' = level"
proof -
  have u: "take (scr_bytes n div sizeof_scr) ubuf = ubuf"
    using assms(2-4) by (simp add: scr_bytes_small)
  have "t' = (if log_list t = KNull then t\<lparr>log_list := KBlock (replicate REST_LIST_SIZE None)\<rparr> else t)
      \<lparr>restrictions_list := KBlock ubuf, proc_restriction_level := level, restrictions_list_size := n\<rparr>"
    using assms(5) u
    by (cases "log_list t") (auto simp: install_restrictions_def sbind_Inr_iff split: option.splits)
  then show "wf_rtask t'" "restrictions_list t' = KBlock ubuf" "restrictions_list_size t' = n"
    "proc_restriction_level t' = level"
    using assms(1,2,4) by (cases "log_list t"; auto simp: wf_rtask_def)+
qed

lemma install_safe:
  assumes "wf_rtask t" "0 \<le> n" "n < 2 ^ 29" "int (length ubuf) = n" "\<not> alloc_hazard kmalloc n t"
  shows "\<exists>t' r. install_restrictions kmalloc level ubuf n t = Inr (t', r) \<and> wf_rtask t'"
proof -
  obtain q where kf: "kfree (restrictions_list t) = Inr q"
    using assms(1) by (cases "restrictions_list t") (auto simp: wf_rtask_def)
  show ?thesis
  proof (cases "kmalloc 0 (scr_bytes n)")
    case None
    then have "restrictions_list_size t = 0" using assms(1,5) by (simp add: alloc_hazard_def wf_rtask_def)
    then have "wf_rtask (t\<lparr>restrictions_list := KNull\<rparr>)" using assms(1) by (simp add: wf_rtask_def)
    then show ?thesis using None kf by (simp add: install_restrictions_def)
  next
    case (Some u)
    then have "\<exists>t'. install_restrictions kmalloc level ubuf n t = Inr (t', 0)"
      using kf assms(5) by (cases "log_list t") (auto simp: install_restrictions_def alloc_hazard_def split: option.split)
    then show ?thesis using wf_install(1) [OF assms(1-4)] by blast
  qed
qed

subsection \<open>The check\<close>

text \<open>What the check promises: the first entry for the call decides.\<close>

definition first_rule :: "int \<Rightarrow> scr list \<Rightarrow> scr option" where
  "first_rule num rs = find (\<lambda>r. scr_syscall_num r = num) rs"

definition log_entry :: "int \<Rightarrow> int \<Rightarrow> int \<Rightarrow> scr \<Rightarrow> fai" where
  "log_entry jiffies num level r =
     \<lparr>fai_syscall_num = num, syscall_restriction_threshold = restriction_threshold r,
      fai_restriction_level = level, fai_time = jiffies\<rparr>"

definition log_put :: "fai \<Rightarrow> rtask \<Rightarrow> rtask" where
  "log_put e t = (case log_list t of
     KBlock xs \<Rightarrow> t\<lparr>log_list := KBlock (xs[nat (log_list_size t mod 100) := Some e]),
                    log_list_size := log_list_size t + 1\<rparr>
   | _ \<Rightarrow> t)"

lemma smod_nonneg: "0 \<le> (n::int) \<Longrightarrow> n smod 100 = n mod 100"
  by (simp add: signed_modulo_int_def signed_divide_int_def sgn_if minus_div_mult_eq_mod)

lemma log_put_frame [simp]:
  "restrictions_list (log_put e t) = restrictions_list t"
  "restrictions_list_size (log_put e t) = restrictions_list_size t"
  "proc_restriction_level (log_put e t) = proc_restriction_level t"
  by (simp_all add: log_put_def split: kptr.split)

lemma ring_slot_fresh:
  fixes n :: int
  assumes "i < 100" "int i < n + 1" "int i \<noteq> n mod 100"
  shows "int i < n"
proof (rule ccontr)
  assume "\<not> int i < n"
  with assms(2) have "n = int i" by simp
  with assms(1,3) show False by simp
qed

lemma wf_log_put:
  assumes "wf_rtask t"
  shows "wf_rtask (log_put e t)"
proof (cases "log_list t")
  case (KBlock xs)
  have "length xs = 100" "\<forall>i < 100. int i < log_list_size t \<longrightarrow> xs ! i \<noteq> None"
    using assms KBlock by (simp_all add: wf_rtask_def REST_LIST_SIZE_def)
  then have "\<forall>i < 100. int i < log_list_size t + 1 \<longrightarrow>
      xs[nat (log_list_size t mod 100) := Some e] ! i \<noteq> None"
    using ring_slot_fresh [of _ "log_list_size t"] by (simp add: nth_list_update)
  with assms KBlock \<open>length xs = 100\<close> show ?thesis
    by (simp add: wf_rtask_def log_put_def REST_LIST_SIZE_def)
qed (use assms in \<open>simp_all add: log_put_def\<close>)

lemma check_from_spec:
  assumes "wf_rtask t" "restrictions_list t = KBlock rs" "restrictions_list_size t = int (length rs)"
    and "0 \<le> i" "log_list t \<noteq> KNull"
  shows "check_from j num i t =
    (case first_rule num (drop (nat i) rs) of
       None \<Rightarrow> Inr (t, 0)
     | Some r \<Rightarrow> if restriction_threshold r \<le> proc_restriction_level t then Inr (t, 0)
                 else Inr (log_put (log_entry j num (proc_restriction_level t) r) t, -1))"
  using assms
proof (induction j num i t rule: check_from.induct)
  case (1 j num i t)
  obtain xs where xs: "log_list t = KBlock xs" "length xs = 100"
    using "1.prems"(1,5) by (auto simp: wf_rtask_def REST_LIST_SIZE_def)
  have n: "0 \<le> log_list_size t" using "1.prems"(1) by (simp add: wf_rtask_def)
  show ?case
  proof (cases "i < int (length rs)")
    case False
    then show ?thesis using "1.prems"
      by (subst check_from.simps) (simp add: first_rule_def)
  next
    case True
    then have d: "drop (nat i) rs = rs ! nat i # drop (nat (i + 1)) rs"
      using "1.prems"(4) by (simp add: Cons_nth_drop_Suc nat_add_distrib)
    show ?thesis
    proof (cases "scr_syscall_num (rs ! nat i) = num")
      case True
      with \<open>i < int (length rs)\<close> d "1.prems" xs n show ?thesis
        by (subst check_from.simps)
           (auto simp: first_rule_def log_put_def log_entry_def smod_nonneg)
    next
      case False
      have "check_from j num (i + 1) t =
        (case first_rule num (drop (nat (i + 1)) rs) of
           None \<Rightarrow> Inr (t, 0)
         | Some r \<Rightarrow> if restriction_threshold r \<le> proc_restriction_level t then Inr (t, 0)
                 else Inr (log_put (log_entry j num (proc_restriction_level t) r) t, -1))"
        using "1.IH"(2) [of "rs ! nat i"] "1.prems" True False by auto
      with True False d "1.prems" show ?thesis
        by (subst check_from.simps) (simp add: first_rule_def)
    qed
  qed
qed


lemma syscall_check_spec:
  assumes "wf_rtask t" "restrictions_list_size t > 0"
  obtains rs where "restrictions_list t = KBlock rs" "int (length rs) = restrictions_list_size t"
    "syscall_check j num (Some t) =
      (case first_rule num rs of
         None \<Rightarrow> Inr (Some t, 0)
       | Some r \<Rightarrow> if restriction_threshold r \<le> proc_restriction_level t then Inr (Some t, 0)
                   else Inr (Some (log_put (log_entry j num (proc_restriction_level t) r) t), -1))"
proof -
  obtain rs where rs: "restrictions_list t = KBlock rs" "int (length rs) = restrictions_list_size t"
    using assms by (auto simp: wf_rtask_def)
  have "log_list t \<noteq> KNull" using assms by (simp add: wf_rtask_def)
  with assms rs check_from_spec [of t rs 0 j num] show ?thesis
    by (intro that [OF rs]) (simp add: syscall_check_def split: option.split)
qed

lemma syscall_check_unrestricted:
  "restrictions_list_size t < 1 \<Longrightarrow> syscall_check j num (Some t) = Inr (Some t, 0)"
  by (simp add: syscall_check_def)

lemma syscall_check_wf:
  assumes "wf_rtask t"
  shows "\<exists>t' r. syscall_check j num (Some t) = Inr (Some t', r) \<and> wf_rtask t' \<and>
    restrictions_list t' = restrictions_list t \<and>
    proc_restriction_level t' = proc_restriction_level t"
proof (cases "restrictions_list_size t > 0")
  case True
  from assms True show ?thesis
    by (rule syscall_check_spec [where j = j and num = num])
       (auto simp: wf_log_put assms split: option.split)
next
  case False
  then show ?thesis by (simp add: syscall_check_unrestricted assms)
qed

subsection \<open>The log as a ring\<close>

text \<open>
  The abstract log is the list of every forbidden activity since the fork. The ring holds its
  last hundred entries, entry \<open>k\<close> in slot \<open>k mod 100\<close>.
\<close>

definition ring_holds :: "fai option list \<Rightarrow> fai list \<Rightarrow> bool" where
  "ring_holds xs hist \<longleftrightarrow> length xs = 100 \<and>
     (\<forall>k < length hist. length hist \<le> k + 100 \<longrightarrow> xs ! (k mod 100) = Some (hist ! k))"

definition task_logs :: "rtask \<Rightarrow> fai list \<Rightarrow> bool" where
  "task_logs t hist \<longleftrightarrow>
     (\<exists>xs. log_list t = KBlock xs \<and> log_list_size t = int (length hist) \<and> ring_holds xs hist)"

lemma mod_100_inj:
  fixes a b :: nat
  assumes "a mod 100 = b mod 100" "a \<le> b" "b < a + 100"
  shows "a = b"
proof -
  have "100 dvd b - a"
    using assms by (metis mod_eq_dvd_iff_nat)
  moreover have "b - a < 100" using assms by linarith
  ultimately have "b - a = 0" by (meson nat_dvd_not_less neq0_conv)
  with assms(2) show ?thesis by simp
qed

lemma ring_holds_put:
  assumes "ring_holds xs hist"
  shows "ring_holds (xs[length hist mod 100 := Some e]) (hist @ [e])"
  unfolding ring_holds_def
proof (intro conjI allI impI)
  show "length (xs[length hist mod 100 := Some e]) = 100"
    using assms by (simp add: ring_holds_def)
next
  fix k
  assume k: "k < length (hist @ [e])" "length (hist @ [e]) \<le> k + 100"
  show "xs[length hist mod 100 := Some e] ! (k mod 100) = Some ((hist @ [e]) ! k)"
  proof (cases "k = length hist")
    case True
    with assms show ?thesis by (simp add: ring_holds_def)
  next
    case False
    with k mod_100_inj [of k "length hist"] have "length hist mod 100 \<noteq> k mod 100"
      by fastforce
    with False k assms show ?thesis by (simp add: ring_holds_def nth_append)
  qed
qed

text \<open>The contract of an event log: what is put in is found at the end of the history.\<close>

locale event_log =
  fixes put :: "'e \<Rightarrow> 's \<Rightarrow> 's"
    and holds :: "'s \<Rightarrow> 'e list \<Rightarrow> bool"
  assumes holds_put: "holds s h \<Longrightarrow> holds (put e s) (h @ [e])"
begin

lemma holds_puts: "holds s h \<Longrightarrow> holds (fold put es s) (h @ es)"
proof (induction es arbitrary: s h)
  case (Cons e es)
  from holds_put [OF Cons.prems] have "holds (fold put es (put e s)) ((h @ [e]) @ es)"
    by (rule Cons.IH)
  then show ?case by simp
qed simp

end

lemma task_logs_put: "task_logs t hist \<Longrightarrow> task_logs (log_put e t) (hist @ [e])"
  by (auto simp: task_logs_def log_put_def ring_holds_put nat_mod_distrib)

interpretation hw1_log: event_log log_put task_logs
  by unfold_locales (rule task_logs_put)

lemma task_logs_fresh:
  "log_list t = KBlock (replicate REST_LIST_SIZE None) \<Longrightarrow> log_list_size t = 0 \<Longrightarrow> task_logs t []"
  by (simp add: task_logs_def ring_holds_def REST_LIST_SIZE_def)


subsection \<open>Reading the log\<close>

lemma log_emit_ok:
  assumes "0 \<le> i" "i < int (length xs)" "xs ! nat i = Some e" "length to_usr < cap"
  shows "log_emit (KBlock xs) cap i to_usr = Inr (to_usr @ [e])"
  using assms by (simp add: log_emit_def)

lemma upt_nat_step:
  "0 \<le> i \<Longrightarrow> i < e \<Longrightarrow> map f [nat i..<nat e] = f (nat i) # map f [nat (i + 1)..<nat e]"
  by (simp add: upt_conv_Cons nat_add_distrib)

lemma copy_to_end_spec:
  assumes "0 \<le> i" "e \<le> int (length xs)" "length to_usr + nat (e - i) \<le> cap"
    and "\<And>k. i \<le> int k \<Longrightarrow> int k < e \<Longrightarrow> xs ! k = Some (f k)"
  shows "copy_to_end (KBlock xs) cap i e to_usr = Inr (to_usr @ map f [nat i..<nat e])"
  using assms
proof (induction "nat (e - i)" arbitrary: i to_usr)
  case 0
  then show ?case by (subst copy_to_end.simps) simp
next
  case (Suc d)
  from Suc.hyps(2) have lt: "i < e" by simp
  have em: "log_emit (KBlock xs) cap i to_usr = Inr (to_usr @ [f (nat i)])"
    using Suc.prems(1-3) lt Suc.prems(4) [of "nat i"] by (intro log_emit_ok) auto
  have "copy_to_end (KBlock xs) cap (i + 1) e (to_usr @ [f (nat i)]) =
      Inr ((to_usr @ [f (nat i)]) @ map f [nat (i + 1)..<nat e])"
    by (rule Suc.hyps(1)) (use Suc.hyps(2) Suc.prems lt in auto)
  with lt em show ?case
    using Suc.prems(1) by (subst copy_to_end.simps) (simp add: upt_nat_step)
qed

text \<open>The second loop stops one entry late: \<open>count <= size\<close> lets it write entry number \<open>size\<close>.\<close>

lemma copy_wrapped_spec:
  assumes "0 \<le> i" "i \<le> e" "e = min n (i + sz + 1 - int (length to_usr))"
    and "e \<le> int (length xs)" "length to_usr + nat (e - i) \<le> cap"
    and "\<And>k. i \<le> int k \<Longrightarrow> int k < e \<Longrightarrow> xs ! k = Some (f k)"
  shows "copy_wrapped (KBlock xs) cap i n sz to_usr = Inr (to_usr @ map f [nat i..<nat e])"
  using assms
proof (induction "nat (e - i)" arbitrary: i to_usr)
  case 0
  from 0(1,3) have "i = e" by simp
  with 0 have "\<not> (i < n \<and> int (length to_usr) \<le> sz)" by linarith
  with \<open>i = e\<close> show ?case by (subst copy_wrapped.simps) auto
next
  case (Suc d)
  from Suc.hyps(2) have lt: "i < e" by simp
  with Suc.prems(3) have go: "i < n \<and> int (length to_usr) \<le> sz" by linarith
  have em: "log_emit (KBlock xs) cap i to_usr = Inr (to_usr @ [f (nat i)])"
    using Suc.prems(1,4,5) lt Suc.prems(6) [of "nat i"] by (intro log_emit_ok) auto
  have "copy_wrapped (KBlock xs) cap (i + 1) n sz (to_usr @ [f (nat i)]) =
      Inr ((to_usr @ [f (nat i)]) @ map f [nat (i + 1)..<nat e])"
    by (rule Suc.hyps(1)) (use Suc.hyps(2) Suc.prems lt in auto)
  with lt go em show ?case
    using Suc.prems(1) by (subst copy_wrapped.simps) (simp add: upt_nat_step)
qed

lemma copy_wrapped_overflow:
  assumes "0 \<le> i" "int (length to_usr) \<le> int cap" "i + int cap - int (length to_usr) < n"
    and "i + int cap - int (length to_usr) < int (length xs)"
    and "\<And>k. i \<le> int k \<Longrightarrow> int k \<le> i + int cap - int (length to_usr) \<Longrightarrow> xs ! k \<noteq> None"
  shows "copy_wrapped (KBlock xs) cap i n (int cap) to_usr = Inl Buffer_Overflow"
  using assms
proof (induction "cap - length to_usr" arbitrary: i to_usr)
  case 0
  then have "int cap = int (length to_usr)" by linarith
  with "0.prems"(1) "0.prems"(5) [of "nat i"] obtain v where "xs ! nat i = Some v" by auto
  with 0 show ?case by (subst copy_wrapped.simps) (simp add: log_emit_def)
next
  case (Suc d)
  then have lt: "length to_usr < cap" by simp
  obtain v where v: "xs ! nat i = Some v" using Suc.prems(1,2) Suc.prems(5) [of "nat i"] by auto
  have em: "log_emit (KBlock xs) cap i to_usr = Inr (to_usr @ [v])"
    using Suc.prems(1,4) lt v by (intro log_emit_ok) auto
  have "copy_wrapped (KBlock xs) cap (i + 1) n (int cap) (to_usr @ [v]) = Inl Buffer_Overflow"
    by (rule Suc.hyps(1)) (use Suc.hyps(2) Suc.prems lt in auto)
  with lt em Suc.prems show ?case by (subst copy_wrapped.simps) simp
qed

text \<open>Where an entry of the history sits in a full ring.\<close>

lemma ring_slot_new:
  assumes "ring_holds xs hist" "i < length hist mod 100"
  shows "xs ! i = Some (hist ! (length hist - length hist mod 100 + i))"
proof -
  let ?k = "length hist - length hist mod 100 + i"
  have "?k mod 100 = i"
    using assms(2) by (metis minus_mod_eq_mult_div mod_less mod_less_divisor mod_mult_self4
      order.strict_trans zero_less_numeral add.commute)
  moreover have "?k < length hist" "length hist \<le> ?k + 100"
    using assms(2) by (simp_all add: less_diff_conv2)
  ultimately show ?thesis using assms(1) by (metis ring_holds_def)
qed


lemma ring_slot_old:
  assumes "ring_holds xs hist" "100 \<le> length hist" "length hist mod 100 \<le> i" "i < 100"
  shows "xs ! i = Some (hist ! (length hist - 100 - length hist mod 100 + i))"
proof -
  define q where "q = length hist div 100"
  have n: "length hist = 100 * q + length hist mod 100" by (simp add: q_def)
  with assms(2) have q: "1 \<le> q"
    by (metis One_nat_def Suc_leI add_0 bot_nat_0.not_eq_extremum linorder_not_le
        mod_less_divisor mult_0_right zero_less_numeral)
  let ?k = "length hist - 100 - length hist mod 100 + i"
  have k: "?k = 100 * (q - 1) + i" using n q by (simp add: diff_mult_distrib2)
  then have "?k mod 100 = i" using assms(4) by simp
  moreover have "?k < length hist" "length hist \<le> ?k + 100"
    using k n q assms(3,4) by (simp_all add: diff_mult_distrib2)
  ultimately show ?thesis using assms(1) by (metis ring_holds_def)
qed


lemma map_nth_drop: "map ((!) xs) [i..<length xs] = drop i xs"
  by (rule nth_equalityI) auto

lemma map_nth_shift: "i + d = j \<Longrightarrow> map (\<lambda>k. xs ! (d + k)) [i..<m] = map ((!) xs) [j..<m + d]"
  by (rule nth_equalityI) (auto simp: algebra_simps)

lemma int_length_smod: "int (length xs) smod 100 = int (length xs mod 100)"
  by (simp add: smod_nonneg zmod_int)

lemma gather_small:
  assumes "ring_holds xs hist" "length hist < 100" "0 \<le> sz" "sz \<le> int (length hist)" "nat sz \<le> cap"
  shows "gather_log (KBlock xs) (int (length hist)) cap sz = Inr (drop (length hist - nat sz) hist)"
proof -
  have "copy_to_end (KBlock xs) cap (int (length hist) - sz) (int (length hist)) [] =
      Inr ([] @ map ((!) hist) [nat (int (length hist) - sz)..<nat (int (length hist))])"
    by (rule copy_to_end_spec) (use assms in \<open>auto simp: ring_holds_def\<close>)
  also have "nat (int (length hist) - sz) = length hist - nat sz"
    using assms(3,4) by (simp add: nat_diff_distrib)
  finally show ?thesis
    using assms by (simp add: gather_log_def map_nth_drop)
qed

lemma copy_to_end_full:
  assumes "ring_holds xs hist" "100 \<le> length hist" "int (length hist mod 100) \<le> sz" "sz \<le> 100"
    and "nat sz \<le> cap"
  shows "copy_to_end (KBlock xs) cap (100 - (sz - int (length hist mod 100))) 100 [] =
    Inr (map ((!) hist) [length hist - nat sz..<length hist - length hist mod 100])"
proof -
  let ?r = "length hist mod 100"
  let ?d = "length hist - 100 - ?r"
  have d: "?d + 100 + ?r = length hist"
  proof -
    have "?r < 100" by simp
    moreover have "100 + ?r \<le> length hist"
    proof -
      obtain q where q: "length hist = 100 * q + ?r" by (metis mult_div_mod_eq)
      with assms(2) have "1 \<le> q" by (cases q) (use \<open>?r < 100\<close> in auto)
      then show ?thesis using q by linarith
    qed
    ultimately show ?thesis by linarith
  qed
  have "copy_to_end (KBlock xs) cap (100 - (sz - int ?r)) 100 [] =
      Inr ([] @ map (\<lambda>i. hist ! (?d + i)) [nat (100 - (sz - int ?r))..<nat 100])"
  proof (rule copy_to_end_spec)
    fix k assume "100 - (sz - int ?r) \<le> int k" "int k < 100"
    then show "xs ! k = Some (hist ! (?d + k))"
      using assms by (intro ring_slot_old) auto
  qed (use assms in \<open>auto simp: ring_holds_def\<close>)
  also have "map (\<lambda>i. hist ! (?d + i)) [nat (100 - (sz - int ?r))..<nat 100] =
      map ((!) hist) [length hist - nat sz..<100 + ?d]"
    using assms(3,4) d by (intro map_nth_shift [THEN trans]) (auto simp: nat_diff_distrib)
  finally show ?thesis using d by (simp add: add.commute)
qed


definition slot_val :: "fai option list \<Rightarrow> nat \<Rightarrow> fai" where
  "slot_val xs i = the (xs ! i)"

lemma ring_slot_written:
  assumes "ring_holds xs hist" "100 \<le> length hist" "i < 100"
  shows "xs ! i = Some (slot_val xs i)"
  using ring_slot_new [OF assms(1)] ring_slot_old [OF assms(1,2)] assms(3)
  by (cases "i < length hist mod 100") (simp_all add: slot_val_def)

lemma slots_new:
  assumes "ring_holds xs hist" "m \<le> length hist mod 100"
  shows "map (slot_val xs) [0..<m] =
    map ((!) hist) [length hist - length hist mod 100..<length hist - length hist mod 100 + m]"
  using ring_slot_new [OF assms(1)] assms(2)
  by (intro nth_equalityI) (simp_all add: slot_val_def)

text \<open>The second loop, started after \<open>sz - r\<close> entries, writes slots \<open>0\<close> to \<open>r\<close>.\<close>

lemma copy_wrapped_ring:
  assumes "ring_holds xs hist" "100 \<le> length hist" "int (length l1) \<le> sz"
    and "sz - int (length l1) < 100" "nat sz < cap"
  shows "copy_wrapped (KBlock xs) cap 0 (int (length hist)) sz l1 =
    Inr (l1 @ map (slot_val xs) [0..<nat (sz - int (length l1)) + 1])"
proof -
  have "copy_wrapped (KBlock xs) cap 0 (int (length hist)) sz l1 =
      Inr (l1 @ map (slot_val xs) [nat 0..<nat (sz - int (length l1) + 1)])"
  proof (rule copy_wrapped_spec)
    fix k assume "0 \<le> int k" "int k < sz - int (length l1) + 1"
    then show "xs ! k = Some (slot_val xs k)"
      using assms by (intro ring_slot_written) auto
  qed (use assms in \<open>auto simp: ring_holds_def\<close>)
  also have "nat (sz - int (length l1) + 1) = nat (sz - int (length l1)) + 1"
    using assms(3) by linarith
  finally show ?thesis by simp
qed

lemma gather_even:
  assumes "ring_holds xs hist" "100 \<le> length hist" "length hist mod 100 = 0" "0 \<le> sz" "sz \<le> 100"
    and "nat sz \<le> cap"
  shows "gather_log (KBlock xs) (int (length hist)) cap sz = Inr (drop (length hist - nat sz) hist)"
proof -
  have "copy_to_end (KBlock xs) cap (100 - (sz - int (length hist mod 100))) 100 [] =
      Inr (map ((!) hist) [length hist - nat sz..<length hist - length hist mod 100])"
    by (rule copy_to_end_full) (use assms in simp_all)
  then show ?thesis using assms
    by (simp add: gather_log_def int_length_smod REST_LIST_SIZE_def map_nth_drop)
qed

lemma gather_none:
  assumes "100 \<le> length hist"
  shows "gather_log (KBlock xs) (int (length hist)) cap 0 = Inr []"
proof -
  have "copy_to_end (KBlock xs) cap (100 + int (length hist mod 100)) 100 [] = Inr []"
    by (subst copy_to_end.simps) simp
  then show ?thesis using assms by (simp add: gather_log_def int_length_smod REST_LIST_SIZE_def)
qed

text \<open>What a read of \<open>n\<close> entries finds: where the ring has wrapped and is not at a multiple of 100, the code needs
  a spare entry, and with fewer entries than were logged since the wrap it starts at the wrap.\<close>

definition log_window :: "fai list \<Rightarrow> nat \<Rightarrow> bool \<Rightarrow> fault + fai list" where
  "log_window h n spare =
     (let r = length h mod 100 in
      if n = 0 \<or> length h < 100 \<or> r = 0 then Inr (drop (length h - n) h)
      else if \<not> spare then Inl Buffer_Overflow
      else if n < r then Inr (take n (drop (length h - r) h)) else Inr (drop (length h - n) h))"

lemma gather_full:
  assumes "ring_holds xs hist" "100 \<le> length hist" "int (length hist mod 100) \<le> sz" "sz \<le> 100"
    and "nat sz < cap"
  shows "\<exists>rest. gather_log (KBlock xs) (int (length hist)) cap sz =
    Inr (drop (length hist - nat sz) hist @ rest)"
proof -
  define n r where "n = length hist" and "r = length hist mod 100"
  define l1 where "l1 = map ((!) hist) [n - nat sz..<n - r]"
  have sz: "r \<le> nat sz" "nat sz \<le> n" "r < 100"
    using assms(2-4) by (simp_all add: n_def r_def)
  have one: "copy_to_end (KBlock xs) cap (100 - (sz - int r)) 100 [] = Inr l1"
    unfolding l1_def n_def r_def using assms by (intro copy_to_end_full) simp_all
  have len: "int (length l1) = sz - int r"
    using sz(1,2) assms(3) by (simp add: l1_def r_def of_nat_diff)
  have "l1 @ map ((!) hist) [n - r..<n] = map ((!) hist) [n - nat sz..<n]"
    using sz(1) by (simp add: l1_def upt_split flip: map_append)
  then have last: "l1 @ map ((!) hist) [n - r..<n] = drop (n - nat sz) hist"
    by (simp add: n_def map_nth_drop)
  have start: "gather_log (KBlock xs) (int n) cap sz =
      (if r = 0 then Inr l1 else copy_wrapped (KBlock xs) cap 0 (int n) sz l1)"
    using one assms(2) len
    by (simp add: gather_log_def int_length_smod REST_LIST_SIZE_def n_def r_def)
  show ?thesis
  proof (cases "r = 0")
    case True
    with start last show ?thesis by (simp add: n_def)
  next
    case False
    have "copy_wrapped (KBlock xs) cap 0 (int n) sz l1 =
        Inr (l1 @ map (slot_val xs) [0..<nat (sz - int (length l1)) + 1])"
      unfolding n_def using len sz(3) by (intro copy_wrapped_ring assms) simp_all
    also have "nat (sz - int (length l1)) + 1 = r + 1" using len by simp
    also have "map (slot_val xs) [0..<r + 1] = map ((!) hist) [n - r..<n] @ [slot_val xs r]"
      using slots_new [OF assms(1), of r] by (simp add: n_def r_def)
    finally have "copy_wrapped (KBlock xs) cap 0 (int n) sz l1 =
        Inr (drop (n - nat sz) hist @ [slot_val xs r])"
      by (simp add: last [symmetric])
    with start False show ?thesis by (simp add: n_def)
  qed
qed

lemma gather_short:
  assumes "ring_holds xs hist" "100 \<le> length hist" "0 < sz" "sz < int (length hist mod 100)"
    and "nat sz < cap"
  shows "\<exists>rest. gather_log (KBlock xs) (int (length hist)) cap sz =
    Inr (take (nat sz) (drop (length hist - length hist mod 100) hist) @ rest)"
proof -
  define n r where "n = length hist" and "r = length hist mod 100"
  have r: "r < 100" "r \<le> n" "sz < int r" using assms(4) by (simp_all add: r_def n_def)
  have "copy_to_end (KBlock xs) cap (100 - (sz - int r)) 100 [] = Inr []"
    using r(3) by (subst copy_to_end.simps) simp
  then have "gather_log (KBlock xs) (int n) cap sz = copy_wrapped (KBlock xs) cap 0 (int n) sz []"
    using assms(2,3)
    by (simp add: gather_log_def int_length_smod REST_LIST_SIZE_def n_def r_def)
  also have "\<dots> = Inr ([] @ map (slot_val xs) [0..<nat (sz - int (length ([] :: fai list))) + 1])"
    unfolding n_def using r(1,3) assms(3) by (intro copy_wrapped_ring assms) simp_all
  also have "map (slot_val xs) [0..<nat (sz - int (length ([] :: fai list))) + 1] =
      map (slot_val xs) [0..<nat sz] @ [slot_val xs (nat sz)]"
    by simp
  also have "map (slot_val xs) [0..<nat sz] = take (nat sz) (drop (n - r) hist)"
    using ring_slot_new [OF assms(1), folded r_def n_def] assms(3) r
    by (intro nth_equalityI) (simp_all add: slot_val_def nat_less_iff n_def [symmetric])
  finally show ?thesis by (simp add: n_def r_def)
qed


text \<open>A block of exactly \<open>sz\<close> entries is one too small as soon as the second loop runs.\<close>

lemma gather_overflow:
  assumes "ring_holds xs hist" "100 \<le> length hist" "0 < length hist mod 100" "0 < sz" "sz \<le> 100"
  shows "gather_log (KBlock xs) (int (length hist)) (nat sz) sz = Inl Buffer_Overflow"
proof -
  define n r where "n = length hist" and "r = length hist mod 100"
  have r: "0 < r" "r < 100" "100 \<le> n" using assms(2,3) by (simp_all add: r_def n_def)
  have wrap: "copy_wrapped (KBlock xs) (nat sz) 0 (int n) sz l = Inl Buffer_Overflow"
    if "length l \<le> nat sz" "nat sz - length l < 100" for l
  proof -
    have "copy_wrapped (KBlock xs) (nat sz) 0 (int n) (int (nat sz)) l = Inl Buffer_Overflow"
    proof (rule copy_wrapped_overflow)
      fix k assume "int k \<le> 0 + int (nat sz) - int (length l)"
      with that have "k < 100" by linarith
      with ring_slot_written [OF assms(1,2)] show "xs ! k \<noteq> None" by simp
    qed (use that r(3) assms(1) in \<open>auto simp: ring_holds_def\<close>)
    with assms(4) show ?thesis by simp
  qed
  show ?thesis
  proof (cases "int r \<le> sz")
    case True
    define l1 where "l1 = map ((!) hist) [n - nat sz..<n - r]"
    have "copy_to_end (KBlock xs) (nat sz) (100 - (sz - int r)) 100 [] = Inr l1"
      unfolding l1_def n_def r_def using assms True by (intro copy_to_end_full) (simp_all add: r_def)
    moreover have "length l1 = nat sz - r"
      using True r assms(5) by (simp add: l1_def)
    ultimately show ?thesis
      using wrap [of l1] r assms(2,4,5) True
      by (simp add: gather_log_def int_length_smod REST_LIST_SIZE_def n_def r_def)
  next
    case False
    then have "copy_to_end (KBlock xs) (nat sz) (100 - (sz - int r)) 100 [] = Inr []"
      by (subst copy_to_end.simps) simp
    moreover have "nat sz < 100" using False r by linarith
    ultimately show ?thesis
      using wrap [of "[]"] assms(2,4)
      by (simp add: gather_log_def int_length_smod REST_LIST_SIZE_def n_def r_def)
  qed
qed

lemma gather_window:
  assumes ring: "ring_holds xs h" and n: "0 \<le> n" "n \<le> int (length h)" "n \<le> 100" and cap: "nat n \<le> cap"
  shows "map_sum id (take (nat n)) (gather_log (KBlock xs) (int (length h)) cap n) = log_window h (nat n) (nat n < cap)"
proof -
  let ?r = "length h mod 100"
  consider (short) "length h < 100" | (even) "100 \<le> length h" "?r = 0" | (zero) "100 \<le> length h" "n = 0"
    | (over) "100 \<le> length h" "0 < ?r" "0 < n" "nat n = cap"
    | (stale) "100 \<le> length h" "0 < n" "n < int ?r" "nat n < cap"
    | (full) "100 \<le> length h" "0 < ?r" "0 < n" "int ?r \<le> n" "nat n < cap"
    using n(1) cap by linarith
  then show ?thesis
  proof cases
    case short
    then show ?thesis using gather_small [OF ring short n(1,2) cap] by (simp add: log_window_def Let_def)
  next
    case even
    then show ?thesis using gather_even [OF ring even n(1,3) cap] by (simp add: log_window_def Let_def)
  next
    case zero
    then show ?thesis using gather_none [OF zero(1)] by (simp add: log_window_def)
  next
    case over
    then show ?thesis using gather_overflow [OF ring over(1-3) n(3)] by (simp add: log_window_def Let_def)
  next
    case stale
    obtain rest where "gather_log (KBlock xs) (int (length h)) cap n = Inr (take (nat n) (drop (length h - ?r) h) @ rest)"
      using gather_short [OF ring stale] by blast
    moreover have "nat n < ?r" using stale(2,3) by linarith
    ultimately show ?thesis using stale n(2) by (simp add: log_window_def Let_def nat_less_iff)
  next
    case full
    obtain rest where "gather_log (KBlock xs) (int (length h)) cap n = Inr (drop (length h - nat n) h @ rest)"
      using gather_full [OF ring full(1,4) n(3) full(5)] by blast
    moreover have "\<not> nat n < ?r" using full(4) by linarith
    ultimately show ?thesis using full n(2) by (simp add: log_window_def Let_def)
  qed
qed

subsection \<open>Machine\<close>

text \<open>Everything that can happen to the restriction state, as one machine.\<close>

datatype rop =
    Restrict pid int "scr list" int
  | Set_Level pid int
  | Get_Log pid int
  | Syscall pid int
  | Fork pid pid
  | Exit pid

fun restrict_step :: "allocator \<Rightarrow> rop \<Rightarrow> rkernel \<Rightarrow> fault + rkernel" where
  "restrict_step kmalloc (Restrict p lv ub n) k =
     sbind (sys_sc_restrict kmalloc p lv ub n k) (\<lambda>(k', _). Inr k')"
| "restrict_step kmalloc (Set_Level p lv) k =
     sbind (sys_set_proc_restriction p lv k) (\<lambda>(k', _). Inr k')"
| "restrict_step kmalloc (Get_Log p n) k =
     sbind (sys_get_process_log kmalloc p n k) (\<lambda>(k', _). Inr k')"
| "restrict_step kmalloc (Syscall p num) k =
     sbind (syscall_check (rjiffies k) num (rtasks k p)) (\<lambda>(t, _).
       Inr (k\<lparr>rtasks := (rtasks k)(p := t)\<rparr>))"
| "restrict_step kmalloc (Fork p c) k =
     (case rtasks k p of None \<Rightarrow> Inr k | Some t \<Rightarrow> Inr (put_task c (fork_restrictions t) k))"
| "restrict_step kmalloc (Exit p) k =
     (case rtasks k p of None \<Rightarrow> Inr k
      | Some t \<Rightarrow> sbind (release_restrictions t) (\<lambda>_. Inr (k\<lparr>rtasks := (rtasks k)(p := None)\<rparr>)))"

text \<open>The list handed in has the size claimed, fewer than \<open>2 ^ 29\<close> rules and a read asks for fewer than \<open>2 ^ 28\<close>
  entries (so that their bytes do not wrap), a log can still count its next entry in an \<^verbatim>\<open>int\<close>, a fork gets a
  fresh id, and the two hazards are kept clear of.\<close>

fun restrict_allowed :: "allocator \<Rightarrow> rop \<Rightarrow> rkernel \<Rightarrow> bool" where
  "restrict_allowed kmalloc (Restrict p lv ub n) k =
     ((0 \<le> n \<longrightarrow> n < 2 ^ 29 \<and> int (length ub) = n) \<and>
      (case rtasks k p of None \<Rightarrow> True | Some t \<Rightarrow> \<not> alloc_hazard kmalloc n t))"
| "restrict_allowed kmalloc (Get_Log p n) k =
     (n < 2 ^ 28 \<and> (case rtasks k p of None \<Rightarrow> True
      | Some t \<Rightarrow> \<not> read_hazard (kmalloc 0 (nat n * sizeof_fai)) (log_list_size t) n))"
| "restrict_allowed kmalloc (Syscall p num) k =
     (case rtasks k p of None \<Rightarrow> True | Some t \<Rightarrow> log_list_size t < 2 ^ 31 - 1)"
| "restrict_allowed kmalloc (Fork p c) k = (rtasks k c = None)"
| "restrict_allowed kmalloc _ k = True"


lemma wf_has_history:
  assumes "wf_rtask t" "log_list t = KBlock xs"
  shows "\<exists>hist. log_list_size t = int (length hist) \<and> ring_holds xs hist"
proof -
  define hist where "hist = map (\<lambda>k. the (xs ! (k mod 100))) [0..<nat (log_list_size t)]"
  have xs: "length xs = 100" "\<And>i. i < 100 \<Longrightarrow> int i < log_list_size t \<Longrightarrow> xs ! i \<noteq> None"
    using assms by (auto simp: wf_rtask_def REST_LIST_SIZE_def)
  have "xs ! (k mod 100) = Some (hist ! k)" if "k < length hist" for k
  proof -
    have "int (k mod 100) \<le> int k" by simp
    also have "int k < log_list_size t" using that by (simp add: hist_def)
    finally show ?thesis using that xs(2) [of "k mod 100"] by (auto simp: hist_def)
  qed
  then have "ring_holds xs hist" using xs(1) by (simp add: ring_holds_def)
  moreover have "log_list_size t = int (length hist)"
    using assms(1) by (simp add: hist_def wf_rtask_def)
  ultimately show ?thesis by blast
qed

lemma gather_total:
  assumes wf: "wf_rtask t" and n: "0 \<le> n" "n \<le> log_list_size t" and u: "nat n * sizeof_fai \<le> u"
    and safe: "\<not> read_hazard (Some u) (log_list_size t) n"
  shows "\<exists>l. gather_log (log_list t) (log_list_size t) (u div sizeof_fai) n = Inr l"
proof (cases "log_list t")
  case KNull
  with wf n have "log_list_size t = 0" "n = 0" by (auto simp: wf_rtask_def)
  then show ?thesis by (simp add: gather_log_def copy_to_end.simps)
next
  case KFreed
  with wf show ?thesis by (simp add: wf_rtask_def)
next
  case (KBlock xs)
  then obtain h where h: "log_list_size t = int (length h)" "ring_holds xs h"
    using wf_has_history [OF wf] by blast
  have cap: "nat n \<le> u div sizeof_fai" using u by (simp add: sizeof_fai_def less_eq_div_iff_mult_less_eq)
  have "n \<le> 100" using safe by (simp add: read_hazard_def)
  note w = gather_window [OF h(2) n(1) n(2) [unfolded h(1)] this cap]
  have "nat n < u div sizeof_fai" if "nat n \<noteq> 0" "100 \<le> length h" "length h mod 100 \<noteq> 0"
  proof -
    have "int (length h) mod 100 \<noteq> 0" using that(3) by presburger
    then have "nat n * sizeof_fai + sizeof_fai \<le> u" using safe that(1,2) by (simp add: read_hazard_def h(1))
    then show ?thesis by (rule spare_entry)
  qed
  then have "\<exists>l. log_window h (nat n) (nat n < u div sizeof_fai) = Inr l" by (auto simp: log_window_def Let_def)
  then show ?thesis using w KBlock h(1)
    by (cases "gather_log (KBlock xs) (int (length h)) (u div sizeof_fai) n") auto
qed

lemma wf_rkernel_errno [simp]: "wf_rkernel (k\<lparr>errno := e\<rparr>) = wf_rkernel k"
  by (simp add: wf_rkernel_def)

lemma wf_put_task [simp]: "wf_rkernel k \<Longrightarrow> wf_rtask t \<Longrightarrow> wf_rkernel (put_task p t k)"
  by (simp add: wf_rkernel_def put_task_def)

lemma wf_rkernelD: "wf_rkernel k \<Longrightarrow> rtasks k p = Some t \<Longrightarrow> wf_rtask t"
  by (simp add: wf_rkernel_def)

lemma restrict_call_safe:
  assumes "wf_rkernel k" "restrict_allowed kmalloc (Restrict p lv ub n) k"
  shows "\<exists>k' r. sys_sc_restrict kmalloc p lv ub n k = Inr (k', r) \<and> wf_rkernel k'"
proof (cases "p < 0 \<or> rtasks k p = None \<or> lv < 0 \<or> lv > 2 \<or> n < 0")
  case True
  with assms(1) show ?thesis by (auto simp: sys_sc_restrict_def Let_def split: option.split)
next
  case False
  then obtain t where t: "rtasks k p = Some t" by auto
  obtain t' r where "install_restrictions kmalloc lv ub n t = Inr (t', r)" "wf_rtask t'"
    using install_safe [OF wf_rkernelD [OF assms(1) t], of n ub kmalloc lv] assms(2) t False by auto
  with False t assms(1) show ?thesis
    by (auto simp: sys_sc_restrict_def Let_def put_task_def wf_rkernel_def)
qed

lemma get_log_call_safe:
  assumes ok: "kmalloc_ok kmalloc" and wf: "wf_rkernel k" and al: "restrict_allowed kmalloc (Get_Log p n) k"
  shows "\<exists>k' r l. sys_get_process_log kmalloc p n k = Inr (k', r, l) \<and> wf_rkernel k'"
proof (cases "p < 0 \<or> rtasks k p = None \<or> n < 0 \<or> (\<exists>t. rtasks k p = Some t \<and> n > log_list_size t)")
  case True
  with wf show ?thesis by (auto simp: sys_get_process_log_def Let_def split: option.split)
next
  case False
  then obtain t where t: "rtasks k p = Some t" "n \<le> log_list_size t" "0 \<le> n" by auto
  show ?thesis
  proof (cases "kmalloc 0 (nat n * sizeof_fai)")
    case None
    with False t wf show ?thesis by (auto simp: sys_get_process_log_def Let_def)
  next
    case (Some u)
    then have "nat n * sizeof_fai \<le> u" using ok unfolding kmalloc_ok_def by blast
    moreover have "\<not> read_hazard (Some u) (log_list_size t) n" using al t(1) Some by simp
    ultimately obtain l where "gather_log (log_list t) (log_list_size t) (u div sizeof_fai) n = Inr l"
      using gather_total [OF wf_rkernelD [OF wf t(1)] t(3,2)] by blast
    with False t Some wf show ?thesis by (auto simp: sys_get_process_log_def Let_def)
  qed
qed

lemma restrict_step_safe:
  assumes "wf_rkernel k" "restrict_allowed kmalloc x k" "kmalloc_ok kmalloc"
  shows "\<exists>k'. restrict_step kmalloc x k = Inr k' \<and> wf_rkernel k'"
proof (cases x)
  case (Restrict p lv ub n)
  with assms restrict_call_safe [OF assms(1), of kmalloc p lv ub n] show ?thesis by auto
next
  case (Set_Level p lv)
  with assms(1) show ?thesis
    by (auto simp: sys_set_proc_restriction_def Let_def wf_rkernel_def put_task_def wf_rtask_def
             split: option.split)
next
  case (Get_Log p n)
  with assms get_log_call_safe [OF assms(3,1), of p n] show ?thesis by auto
next
  case (Syscall p num)
  show ?thesis
  proof (cases "rtasks k p")
    case None
    then show ?thesis using Syscall assms(1) by (simp add: syscall_check_def wf_rkernel_def)
  next
    case (Some t)
    with Syscall assms(1) syscall_check_wf [OF wf_rkernelD [OF assms(1) Some], of "rjiffies k" num]
    show ?thesis by (auto simp: wf_rkernel_def)
  qed
next
  case (Fork p c)
  with assms(1) show ?thesis by (auto split: option.split)
next
  case (Exit p)
  with assms(1) show ?thesis
    by (auto simp: wf_release wf_rkernelD wf_rkernel_def split: option.split)
qed

interpretation hw1: safe_machine "restrict_step kmalloc" "restrict_allowed kmalloc" "\<lambda>k. wf_rkernel k \<and> kmalloc_ok kmalloc"
  for kmalloc
  by unfold_locales (use restrict_step_safe in blast)


subsection \<open>Properties\<close>

lemma fresh_task_logs:
  assumes "wf_rtask t" "log_list t = KNull"
  shows "log_list_size t = 0"
  using assms by (auto simp: wf_rtask_def)

text \<open>C2: A restricted process that makes a system call whose first rule has a threshold above its
  level gets \<^verbatim>\<open>-ENOSYS\<close>: the handler is not run, and the only change to the kernel is one new
  entry in the process's log with the call, the threshold, the level and the time.\<close>

theorem forbidden_call_blocked:
  assumes "rtasks k cur = Some t" "wf_rtask t" "0 < restrictions_list_size t"
    and "restrictions_list t = KBlock rs" "first_rule num rs = Some r"
    and "proc_restriction_level t < restriction_threshold r"
  shows "system_call NR_syscalls handler cur num k =
    Inr (put_task cur (log_put (log_entry (rjiffies k) num (proc_restriction_level t) r) t) k, - ENOSYS)"
  using assms(2,3)
  by (rule syscall_check_spec [where j = "rjiffies k" and num = num])
     (use assms in \<open>simp add: system_call_def put_task_def\<close>)

definition demo_task :: rtask where
  "demo_task = \<lparr>proc_restriction_level = 1,
     restrictions_list = KBlock [\<lparr>scr_syscall_num = 7, restriction_threshold = 2\<rparr>],
     restrictions_list_size = 1, log_list = KBlock (replicate 100 None), log_list_size = 0\<rparr>"

definition demo_kernel :: rkernel where
  "demo_kernel = \<lparr>rtasks = (\<lambda>p. if p = 5 then Some demo_task else None), errno = 0, rjiffies = 77\<rparr>"

lemma wf_demo_task: "wf_rtask demo_task"
  by (simp add: wf_rtask_def demo_task_def REST_LIST_SIZE_def)

theorem forbidden_call_blocked_witness:
  "system_call 250 (\<lambda>n k. Inr (k, n)) 5 7 demo_kernel =
    Inr (put_task 5 (log_put (log_entry 77 7 1 \<lparr>scr_syscall_num = 7, restriction_threshold = 2\<rparr>)
           demo_task) demo_kernel, - ENOSYS)"
  using forbidden_call_blocked [of demo_kernel 5 demo_task
      "[\<lparr>scr_syscall_num = 7, restriction_threshold = 2\<rparr>]" 7
      "\<lparr>scr_syscall_num = 7, restriction_threshold = 2\<rparr>" 250 "\<lambda>n k. Inr (k, n)"]
    wf_demo_task
  by (simp add: demo_kernel_def demo_task_def first_rule_def)

text \<open>C3: After \<open>sys_sc_restrict\<close> has returned 0 for a list of 1 to \<open>2 ^ 29 - 1\<close> rules, the check of every call
  is decided by the installed list and level alone: allowed when the list has no rule for the call or its first
  rule's threshold is within the level, and denied with one log entry otherwise. Nothing is assumed of the allocator.\<close>

theorem restrict_then_check:
  assumes "wf_rkernel k" "0 < n" "n < 2 ^ 29" "int (length ubuf) = n"
    and "sys_sc_restrict kmalloc p level ubuf n k = Inr (k', 0)"
  shows "\<exists>t'. rtasks k' p = Some t' \<and> syscall_check j num (Some t') =
    (case first_rule num ubuf of
       None \<Rightarrow> Inr (Some t', 0)
     | Some r \<Rightarrow> if restriction_threshold r \<le> level then Inr (Some t', 0)
                 else Inr (Some (log_put (log_entry j num level r) t'), -1))"
proof -
  obtain t where t: "rtasks k p = Some t" "wf_rtask t"
    using assms(5) wf_rkernelD [OF assms(1)]
    by (auto simp: sys_sc_restrict_def Let_def split: if_splits option.splits)
  obtain t' where i: "install_restrictions kmalloc level ubuf n t = Inr (t', 0)" and r: "rtasks k' p = Some t'"
    using assms(5) t by (auto simp: sys_sc_restrict_def Let_def put_task_def sbind_Inr_iff split: if_splits)
  have n: "0 \<le> n" using assms(2) by simp
  note t' = wf_install [OF t(2) n assms(3,4) i]
  have "syscall_check j num (Some t') =
    (case first_rule num ubuf of
       None \<Rightarrow> Inr (Some t', 0)
     | Some r \<Rightarrow> if restriction_threshold r \<le> level then Inr (Some t', 0)
                 else Inr (Some (log_put (log_entry j num level r) t'), -1))"
    by (rule syscall_check_spec [where j = j and num = num, OF t'(1)]) (use t' assms(2) in auto)
  with r show ?thesis by blast
qed

lemma kmalloc_ok_demo: "kmalloc_ok (\<lambda>k n. Some (n + 16))"
  by (simp add: kmalloc_ok_def)

lemma wf_demo_kernel: "wf_rkernel demo_kernel"
  using wf_demo_task by (simp add: wf_rkernel_def demo_kernel_def)

definition demo_rules :: "scr list" where
  "demo_rules = [\<lparr>scr_syscall_num = 3, restriction_threshold = 1\<rparr>]"

theorem restrict_then_check_witness:
  "\<exists>k' t'. sys_sc_restrict (\<lambda>k n. Some (n + 16)) 5 0 demo_rules 1 demo_kernel = Inr (k', 0) \<and>
    rtasks k' 5 = Some t' \<and> syscall_check 9 3 (Some t') =
      Inr (Some (log_put (log_entry 9 3 0 \<lparr>scr_syscall_num = 3, restriction_threshold = 1\<rparr>) t'), -1)"
proof -
  obtain k' where k': "sys_sc_restrict (\<lambda>k n. Some (n + 16)) 5 0 demo_rules 1 demo_kernel = Inr (k', 0)"
    by (simp add: sys_sc_restrict_def demo_kernel_def demo_task_def install_restrictions_def)
  with restrict_then_check [OF wf_demo_kernel _ _ _ k', of 9 3]
  show ?thesis by (auto simp: first_rule_def demo_rules_def)
qed

text \<open>C1: What \<open>sys_get_process_log\<close> returns for \<open>n\<close> entries, at most 100 and at most as many as were ever logged
  (fewer than \<open>2 ^ 31\<close>, as their counter is an \<^verbatim>\<open>int\<close>), when the block for them is granted. \<open>r\<close> is the number of entries logged since the ring last wrapped. If the ring
  has not wrapped, or \<open>r\<close> is 0, or \<open>n\<close> is 0, it returns the last \<open>n\<close> entries of the history, in order. Otherwise
  the code needs room for one entry more than it asked for: without it the write behind the block is reached;
  with it, the last \<open>n\<close> entries are returned if \<open>r \<le> n\<close>, and the \<open>n\<close> first of the entries since the wrap, which are
  not the last ones, if \<open>n < r\<close>.\<close>

theorem get_log_exact:
  assumes "rtasks k p = Some (fold log_put es t)" "task_logs t h0" "h = h0 @ es" "0 \<le> p"
    and "0 \<le> n" "n \<le> int (length h)" "n \<le> 100"
    and "kmalloc 0 (nat n * sizeof_fai) = Some u" "nat n * sizeof_fai \<le> u"
    and "length h < 2 ^ 31"
  shows "sys_get_process_log kmalloc p n k =
    (let r = length h mod 100; spare = (nat n * sizeof_fai + sizeof_fai \<le> u) in
     if n = 0 \<or> length h < 100 \<or> r = 0 then Inr (k, 0, drop (length h - nat n) h)
     else if \<not> spare then Inl Buffer_Overflow
     else if nat n < r then Inr (k, 0, take (nat n) (drop (length h - r) h))
     else Inr (k, 0, drop (length h - nat n) h))"
proof -
  obtain xs where xs: "log_list (fold log_put es t) = KBlock xs"
      "log_list_size (fold log_put es t) = int (length h)" "ring_holds xs h"
    using hw1_log.holds_puts [OF assms(2), of es] by (auto simp: task_logs_def assms(3))
  have cap: "nat n \<le> u div sizeof_fai" "nat n < u div sizeof_fai \<longleftrightarrow> nat n * sizeof_fai + sizeof_fai \<le> u"
    using assms(9) by (auto simp: sizeof_fai_def)
  have "sys_get_process_log kmalloc p n k = map_sum id (\<lambda>l. (k, 0, l)) (log_window h (nat n) (nat n < u div sizeof_fai))"
    unfolding gather_window [OF xs(3) assms(5-7) cap(1), symmetric]
    using assms(1,4-6,8) xs(1,2)
    by (cases "gather_log (KBlock xs) (int (length h)) (u div sizeof_fai) n") (simp_all add: sys_get_process_log_def Let_def)
  moreover have "nat n = 0 \<longleftrightarrow> n = 0" using assms(5) by linarith
  ultimately show ?thesis unfolding cap(2) by (cases "n = 0") (simp_all add: log_window_def Let_def)
qed

definition demo_entry :: "nat \<Rightarrow> fai" where
  "demo_entry i = \<lparr>fai_syscall_num = int i, syscall_restriction_threshold = 2,
     fai_restriction_level = 1, fai_time = int i\<rparr>"

definition demo_logged :: "nat \<Rightarrow> rkernel" where
  "demo_logged n = demo_kernel\<lparr>rtasks :=
     (\<lambda>p. if p = 5 then Some (fold log_put (map demo_entry [0..<n]) demo_task) else None)\<rparr>"

lemma demo_task_logs: "task_logs demo_task []"
  by (rule task_logs_fresh) (simp_all add: demo_task_def REST_LIST_SIZE_def)

theorem get_log_exact_witness:
  "sys_get_process_log (\<lambda>k n. Some (n + 16)) 5 60 (demo_logged 130) =
     Inr (demo_logged 130, 0, map demo_entry [70..<130])"
  using get_log_exact [of "demo_logged 130" 5 "map demo_entry [0..<130]" demo_task "[]" _ 60
      "\<lambda>k n. Some (n + 16)"] demo_task_logs
  by (simp add: demo_logged_def sizeof_fai_def drop_map)

text \<open>The buffer of \<open>sys_get_process_log\<close> is one entry too small: with a wrapped log whose size is
  not a multiple of 100 and a block of exactly the requested size, the second loop
  (\<^verbatim>\<open>count <= size\<close>) writes past the end of \<^verbatim>\<open>to_usr\<close>, whatever number of entries is asked for.\<close>

theorem get_log_overflows:
  assumes "rtasks k p = Some t" "task_logs t h" "0 \<le> p"
    and "100 \<le> length h" "0 < length h mod 100" "0 < n" "n \<le> 100"
    and "kmalloc 0 (nat n * sizeof_fai) = Some (nat n * sizeof_fai)"
  shows "sys_get_process_log kmalloc p n k = Inl Buffer_Overflow"
proof -
  obtain xs where xs: "log_list t = KBlock xs" "log_list_size t = int (length h)" "ring_holds xs h"
    using assms(2) by (auto simp: task_logs_def)
  have "nat n * sizeof_fai div sizeof_fai = nat n" by (simp add: sizeof_fai_def)
  moreover have "gather_log (KBlock xs) (int (length h)) (nat n) n = Inl Buffer_Overflow"
    by (rule gather_overflow) (use xs assms in auto)
  ultimately show ?thesis
    using assms xs by (auto simp: sys_get_process_log_def Let_def)
qed

theorem get_log_overflows_witness:
  "sys_get_process_log (\<lambda>k n. Some n) 5 64 (demo_logged 130) = Inl Buffer_Overflow"
  using get_log_overflows [of "demo_logged 130" 5 "fold log_put (map demo_entry [0..<130]) demo_task"
      "map demo_entry [0..<130]" 64 "\<lambda>k n. Some n"]
    hw1_log.holds_puts [OF demo_task_logs, of "map demo_entry [0..<130]"]
  by (simp add: demo_logged_def)

text \<open>When fewer entries are asked for than were written since the ring wrapped, the code starts at
  slot 0: it returns the first \<open>n\<close> entries after the wrap point, not the last \<open>n\<close> of the log.\<close>

theorem get_log_stale:
  assumes "rtasks k p = Some t" "task_logs t h" "0 \<le> p"
    and "100 \<le> length h" "0 < n" "n < int (length h mod 100)"
    and "kmalloc 0 (nat n * sizeof_fai) = Some u" "nat n * sizeof_fai + sizeof_fai \<le> u"
  shows "sys_get_process_log kmalloc p n k =
      Inr (k, 0, take (nat n) (drop (length h - length h mod 100) h)) \<and>
    (distinct h \<longrightarrow>
      take (nat n) (drop (length h - length h mod 100) h) \<noteq> drop (length h - nat n) h)"
proof (intro conjI impI)
  define r where "r = length h mod 100"
  have r: "nat n < r" "r \<le> length h" using assms(5,6) by (simp_all add: r_def nat_less_iff)
  obtain xs where xs: "log_list t = KBlock xs" "log_list_size t = int (length h)" "ring_holds xs h"
    using assms(2) by (auto simp: task_logs_def)
  have cap: "nat n < u div sizeof_fai" using assms(8) by (rule spare_entry)
  obtain rest where "gather_log (KBlock xs) (int (length h)) (u div sizeof_fai) n =
      Inr (take (nat n) (drop (length h - r) h) @ rest)"
    using gather_short [OF xs(3) assms(4-6) cap] by (auto simp: r_def)
  moreover have "n \<le> int (length h)" using r assms(5) by linarith
  ultimately show "sys_get_process_log kmalloc p n k =
      Inr (k, 0, take (nat n) (drop (length h - length h mod 100) h))"
    using assms xs r by (auto simp: sys_get_process_log_def Let_def r_def [symmetric])
next
  define r where "r = length h mod 100"
  have r: "nat n < r" "r \<le> length h" using assms(5,6) by (simp_all add: r_def nat_less_iff)
  assume d: "distinct h"
  show "take (nat n) (drop (length h - length h mod 100) h) \<noteq> drop (length h - nat n) h"
  proof
    assume "take (nat n) (drop (length h - length h mod 100) h) = drop (length h - nat n) h"
    then have "take (nat n) (drop (length h - r) h) ! 0 = drop (length h - nat n) h ! 0"
      by (simp add: r_def)
    then have "h ! (length h - r) = h ! (length h - nat n)"
      using r assms(5) by simp
    with d have "length h - r = length h - nat n"
      using r assms(5) by (subst (asm) nth_eq_iff_index_eq) auto
    with r show False by linarith
  qed
qed

theorem get_log_stale_witness:
  "sys_get_process_log (\<lambda>k n. Some (n + 16)) 5 10 (demo_logged 130) =
     Inr (demo_logged 130, 0, map demo_entry [100..<110])"
  using get_log_stale [of "demo_logged 130" 5
      "fold log_put (map demo_entry [0..<130]) demo_task" "map demo_entry [0..<130]" 10
      "\<lambda>k n. Some (n + 16)"]
    hw1_log.holds_puts [OF demo_task_logs, of "map demo_entry [0..<130]"]
  by (simp add: demo_logged_def sizeof_fai_def drop_map take_map take_upt)

text \<open>C4: Apart from two hazards, the restriction code is safe in every run. An allocator whose blocks have the size
  asked for may refuse any request; the run is any sequence of restriction calls (with lists of the claimed size,
  under \<open>2 ^ 29\<close> rules), level changes, log reads (of under \<open>2 ^ 28\<close> entries), checked system calls (the log below
  \<open>2 ^ 31 - 1\<close> entries, where its \<^verbatim>\<open>int\<close> counter ends), forks and exits in which no call meets a hazard: \<open>sys_sc_restrict\<close> on a process that has restrictions whose first allocation fails, or on one that has no
  log whose second allocation fails; a granted read of more than 100 entries, or of a wrapped log not at a
  multiple of 100 into a block without a spare entry. Then nothing reads freed or uninitialised memory, runs out
  of a block or frees twice, and every process stays well formed.\<close>

theorem restrict_run_safe:
  assumes "kmalloc_ok kmalloc" "wf_rkernel k" "ops_allowed (restrict_step kmalloc) (restrict_allowed kmalloc) ops k"
  shows "\<exists>k'. run_ops (restrict_step kmalloc) ops k = Inr k' \<and> wf_rkernel k'"
  using hw1.run_safe [of k kmalloc ops] assms by blast

theorem restrict_run_safe_witness:
  "\<exists>k'. run_ops (restrict_step (\<lambda>k n. Some (n + 16)))
     [Restrict 5 0 demo_rules 1, Syscall 5 3, Fork 5 6, Get_Log 5 1, Exit 6] demo_kernel = Inr k' \<and>
     wf_rkernel k'"
proof (rule restrict_run_safe [OF kmalloc_ok_demo wf_demo_kernel])
  show "ops_allowed (restrict_step (\<lambda>k n. Some (n + 16))) (restrict_allowed (\<lambda>k n. Some (n + 16)))
     [Restrict 5 0 demo_rules 1, Syscall 5 3, Fork 5 6, Get_Log 5 1, Exit 6] demo_kernel"
    by (simp add: alloc_hazard_def read_hazard_def demo_rules_def demo_kernel_def demo_task_def sys_sc_restrict_def
        install_restrictions_def scr_bytes_def sizeof_scr_def put_task_def syscall_check_def
        check_from.simps Let_def split: sum.split option.split)
qed


text \<open>The argument checks of \<open>sys_sc_restrict\<close>: an unknown process is reported first
  (\<^verbatim>\<open>ESRCH\<close>, whatever the other arguments), then a level out of 0 to 2 or a negative size
  (\<^verbatim>\<open>EINVAL\<close>); in each case no process changes and only the kernel's \<^verbatim>\<open>errno\<close> is overwritten.
  Conversely those two results are only returned in these cases.\<close>

theorem restrict_errors:
  "(sys_sc_restrict kmalloc p level ubuf n k = Inr (k\<lparr>errno := EINVAL\<rparr>, - ESRCH)
            \<longleftrightarrow> p < 0 \<or> rtasks k p = None) \<and>
    (sys_sc_restrict kmalloc p level ubuf n k = Inr (k\<lparr>errno := EINVAL\<rparr>, - EINVAL)
            \<longleftrightarrow> 0 \<le> p \<and> rtasks k p \<noteq> None \<and> (level < 0 \<or> level > 2 \<or> n < 0))"
proof (cases "p < 0 \<or> rtasks k p = None")
  case True
  then show ?thesis by (auto simp: sys_sc_restrict_def Let_def)
next
  case False
  then obtain t where t: "rtasks k p = Some t" by auto
  have "install_restrictions kmalloc level ubuf n t \<noteq> Inr (t', r)" if "r \<notin> {0, - ENOMEM}" for t' r
    using that
    by (cases "restrictions_list t")
       (auto simp: install_restrictions_def Let_def split: option.split kptr.split)
  then have "sys_sc_restrict kmalloc p level ubuf n k = Inr (k', r) \<Longrightarrow>
      0 \<le> level \<Longrightarrow> level \<le> 2 \<Longrightarrow> 0 \<le> n \<Longrightarrow> r = 0 \<or> r = - ENOMEM" for k' r
    using False t by (fastforce simp: sys_sc_restrict_def Let_def sbind_Inr_iff)
  with False t show ?thesis
    by (auto simp: sys_sc_restrict_def Let_def not_less)
qed

text \<open>When the first allocation fails, \<open>sys_sc_restrict\<close> returns \<^verbatim>\<open>-ENOMEM\<close> with the old list
  freed, its pointer null and its old size kept, so the next system call of a process that had
  restrictions dereferences null inside the check.\<close>

theorem restrict_enomem_breaks_check:
  assumes "wf_rtask t" "0 < restrictions_list_size t" "kmalloc 0 (scr_bytes n) = None"
  shows "\<exists>t'. install_restrictions kmalloc level ubuf n t = Inr (t', - ENOMEM) \<and>
    syscall_check j num (Some t') = Inl Null_Deref"
proof -
  obtain rs where "restrictions_list t = KBlock rs" using assms(1,2) by (auto simp: wf_rtask_def)
  then show ?thesis
    using assms(2,3)
    by (auto simp: install_restrictions_def syscall_check_def check_from.simps)
qed

theorem restrict_enomem_breaks_check_witness:
  "\<exists>t'. install_restrictions (\<lambda>k n. None) 0 demo_rules 1 demo_task = Inr (t', - ENOMEM) \<and>
    syscall_check 9 3 (Some t') = Inl Null_Deref"
  by (rule restrict_enomem_breaks_check [OF wf_demo_task]) (simp_all add: demo_task_def)

end
