(* ===== verification/Sched_Data.thy ===== *)
theory Sched_Data
  imports Prelude
begin

text \<open>
  HW2, the data of the O(1) scheduler of \<^verbatim>\<open>HW2/kernel/sched.c\<close> with the SCHED_SHORT class: the
  scheduling fields of \<open>task_struct\<close> (\<^verbatim>\<open>include/linux/sched.h\<close>), the priority array, the run queue,
  \<open>enqueue_task\<close> and \<open>dequeue_task\<close>, and what they promise, as the contract \<open>placement_queue\<close>.

  The uniprocessor build is modelled (\<^verbatim>\<open>CONFIG_SMP\<close> unset): one run queue, locks and memory barriers
  are no-ops; \<open>Sched_Smp\<close> adds the fields for several processors. A task is named by a number; the three priority arrays of the run queue are numbered
  0, 1, 2 and the pointers \<open>active\<close>, \<open>expired\<close>, \<open>short_pr\<close> and \<open>p->array\<close> are such numbers. A
  \<^verbatim>\<open>list_t\<close> is the list of the tasks linked on it, front first: \<^verbatim>\<open>list_add_tail\<close> appends,
  \<^verbatim>\<open>list_add\<close> inserts behind the given position, and \<^verbatim>\<open>list_del\<close> unlinks the task from whatever
  queue it is on. Unsigned fields are 32-bit words, the \<^verbatim>\<open>unsigned long\<close> of i386. What the source
  takes from headers that are not in the repository is a field of \<open>arch\<close>: the tick rate \<^verbatim>\<open>HZ\<close> and the
  search for the first set bit of a bitmap.
\<close>

subsection \<open>Constants\<close>

definition SCHED_OTHER :: int where "SCHED_OTHER = 0"
definition SCHED_FIFO :: int where "SCHED_FIFO = 1"
definition SCHED_RR :: int where "SCHED_RR = 2"
definition SCHED_SHORT :: int where "SCHED_SHORT = 5"

definition TASK_RUNNING :: int where "TASK_RUNNING = 0"
definition TASK_INTERRUPTIBLE :: int where "TASK_INTERRUPTIBLE = 1"
definition TASK_UNINTERRUPTIBLE :: int where "TASK_UNINTERRUPTIBLE = 2"
definition TASK_ZOMBIE :: int where "TASK_ZOMBIE = 4"
definition TASK_STOPPED :: int where "TASK_STOPPED = 8"

definition MAX_USER_RT_PRIO :: int where "MAX_USER_RT_PRIO = 100"
definition MAX_RT_PRIO :: int where "MAX_RT_PRIO = MAX_USER_RT_PRIO"
definition MAX_PRIO :: int where "MAX_PRIO = MAX_RT_PRIO + 40"

lemmas policy_defs [simp] = SCHED_OTHER_def SCHED_FIFO_def SCHED_RR_def SCHED_SHORT_def
lemmas state_defs [simp] = TASK_RUNNING_def TASK_INTERRUPTIBLE_def TASK_UNINTERRUPTIBLE_def
  TASK_ZOMBIE_def TASK_STOPPED_def
lemmas prio_defs [simp] = MAX_USER_RT_PRIO_def MAX_RT_PRIO_def MAX_PRIO_def

subsection \<open>Tasks, priority arrays, run queue\<close>

type_synonym tid = nat

record task =
  state :: int
  sigpending :: bool
  need_resched :: bool
  cpu :: nat
  prio :: int
  static_prio :: int
  array :: "nat option"
  sleep_avg :: u32
  sleep_timestamp :: u32
  policy :: int
  cpus_allowed :: u32
  cpus_allowed_mask :: u32
  time_slice :: u32
  first_time_slice :: u32
  tpid :: pid
  pgrp :: pid
  uid :: int
  euid :: int
  cap_sys_nice :: bool
  rt_priority :: int
  requested_time :: u32
  time_left :: u32
  short_prio :: int
  mm :: "nat option"
  active_mm :: "nat option"

record prio_array =
  nr_active :: int
  bitmap :: "nat \<Rightarrow> bool"
  queue :: "nat \<Rightarrow> tid list"

record runqueue =
  nr_running :: u32
  nr_switches :: u32
  expired_timestamp :: u32
  nr_uninterruptible :: int
  curr :: tid
  idle :: tid
  active :: nat
  expired :: nat
  short_pr :: nat
  arrays :: "nat \<Rightarrow> prio_array"

record sched =
  tasks :: "tid \<Rightarrow> task"
  rq :: runqueue
  current :: tid
  jiffies :: u32
  kstat_user :: u32
  kstat_nice :: u32
  kstat_system :: u32
  mm_count :: "nat \<Rightarrow> int"
  pidhash :: "nat \<Rightarrow> tid list"
  kerrno :: int

record arch =
  HZ :: int
  sched_find_first_bit :: "(nat \<Rightarrow> bool) \<Rightarrow> nat"

text \<open>
  What the code relies on: the tick rate gives a minimal time slice of at least one tick and small
  products, and the search returns the least set bit of a bitmap that has one (the delimiter bit
  \<open>MAX_PRIO\<close> is always set).
\<close>

definition first_bit_ok :: "((nat \<Rightarrow> bool) \<Rightarrow> nat) \<Rightarrow> bool" where
  "first_bit_ok f \<longleftrightarrow> (\<forall>b k. b k \<longrightarrow> b (f b) \<and> f b \<le> k)"

definition arch_ok :: "arch \<Rightarrow> bool" where
  "arch_ok A \<longleftrightarrow> 100 \<le> HZ A \<and> HZ A \<le> 1024 \<and> first_bit_ok (sched_find_first_bit A)"

text \<open>A concrete search over the 141 bits, to instantiate the parameter in examples.\<close>

definition scan_bits :: "(nat \<Rightarrow> bool) \<Rightarrow> nat" where
  "scan_bits b = (case find b [0..<141] of Some k \<Rightarrow> k | None \<Rightarrow> LEAST k. b k)"

definition demo_arch :: arch where
  "demo_arch = \<lparr>HZ = 512, sched_find_first_bit = scan_bits\<rparr>"

lemma find_upt_least: "find b [i..<n] = Some k \<Longrightarrow> b k \<and> (\<forall>j. i \<le> j \<longrightarrow> j < k \<longrightarrow> \<not> b j)"
  by (auto simp: find_Some_iff nth_append)
     (metis add_diff_cancel_left' le_add_diff_inverse length_upt less_diff_conv2 nth_upt
       diff_less_mono less_imp_le_nat order.strict_trans1)

lemma scan_bits_ok: "first_bit_ok scan_bits"
  unfolding first_bit_ok_def
proof (intro allI impI)
  fix b :: "nat \<Rightarrow> bool" and k
  assume b: "b k"
  show "b (scan_bits b) \<and> scan_bits b \<le> k"
  proof (cases "find b [0..<141]")
    case None
    with b show ?thesis by (simp add: scan_bits_def LeastI Least_le)
  next
    case (Some m)
    with find_upt_least [OF Some] b show ?thesis
      by (simp add: scan_bits_def) (meson not_le_imp_less)
  qed
qed

lemma demo_arch_ok: "arch_ok demo_arch"
  by (simp add: arch_ok_def demo_arch_def scan_bits_ok)

definition rt_task :: "task \<Rightarrow> bool" where
  "rt_task p \<longleftrightarrow> policy p \<noteq> SCHED_SHORT \<and> prio p < MAX_RT_PRIO"

text \<open>The queue of an array a task belongs in: by \<open>short_prio\<close> in the SHORT class, else by \<open>prio\<close>.\<close>

definition qkey :: "task \<Rightarrow> nat" where
  "qkey p = nat (if policy p = SCHED_SHORT then short_prio p else prio p)"

definition upd_task :: "tid \<Rightarrow> (task \<Rightarrow> task) \<Rightarrow> sched \<Rightarrow> sched" where
  "upd_task p f s = s\<lparr>tasks := (tasks s)(p := f (tasks s p))\<rparr>"

definition upd_array :: "nat \<Rightarrow> (prio_array \<Rightarrow> prio_array) \<Rightarrow> runqueue \<Rightarrow> runqueue" where
  "upd_array a f r = r\<lparr>arrays := (arrays r)(a := f (arrays r a))\<rparr>"

subsection \<open>Queue operations\<close>

definition list_del :: "tid \<Rightarrow> runqueue \<Rightarrow> runqueue" where
  "list_del p r = r\<lparr>arrays := \<lambda>a. (arrays r a)\<lparr>queue := \<lambda>k. remove1 p (queue (arrays r a) k)\<rparr>\<rparr>"

definition rq_dequeue :: "tid \<Rightarrow> nat \<Rightarrow> nat \<Rightarrow> runqueue \<Rightarrow> runqueue" where
  "rq_dequeue p k a r =
     (let r1 = list_del p (upd_array a (\<lambda>x. x\<lparr>nr_active := nr_active x - 1\<rparr>) r)
      in if queue (arrays r1 a) k = []
         then upd_array a (\<lambda>x. x\<lparr>bitmap := (bitmap x)(k := False)\<rparr>) r1 else r1)"

definition rq_enqueue :: "tid \<Rightarrow> nat \<Rightarrow> nat \<Rightarrow> runqueue \<Rightarrow> runqueue" where
  "rq_enqueue p k a r =
     upd_array a (\<lambda>x. x\<lparr>queue := (queue x)(k := queue x k @ [p]),
                        bitmap := (bitmap x)(k := True),
                        nr_active := nr_active x + 1\<rparr>) r"

definition dequeue_task :: "tid \<Rightarrow> nat \<Rightarrow> sched \<Rightarrow> sched" where
  "dequeue_task p a s = s\<lparr>rq := rq_dequeue p (qkey (tasks s p)) a (rq s)\<rparr>"

definition enqueue_task :: "tid \<Rightarrow> nat \<Rightarrow> sched \<Rightarrow> sched" where
  "enqueue_task p a s =
     upd_task p (\<lambda>t. t\<lparr>array := Some a\<rparr>)
       (s\<lparr>rq := rq_enqueue p (qkey (tasks s p)) a (rq s)\<rparr>)"

subsection \<open>What the queues promise\<close>

text \<open>
  A placement says of every task on which queue it is. \<open>rq_ok loc r\<close> says that the run queue \<open>r\<close>
  represents the placement \<open>loc\<close>: each queue holds exactly its tasks, once each, a bitmap bit is set
  exactly when its queue is not empty (the delimiter bit always), and \<open>nr_active\<close> counts the tasks of
  the array. \<open>TID_MAX\<close> bounds the number of tasks.
\<close>

type_synonym placement = "tid \<Rightarrow> (nat \<times> nat) option"

definition TID_MAX :: nat where "TID_MAX = 32768"

definition placement_range :: "placement \<Rightarrow> bool" where
  "placement_range loc \<longleftrightarrow> (\<forall>p a k. loc p = Some (a, k) \<longrightarrow> a < 3 \<and> k < 140 \<and> p < TID_MAX)"

definition queues_ok :: "placement \<Rightarrow> runqueue \<Rightarrow> bool" where
  "queues_ok loc r \<longleftrightarrow> (\<forall>a<3. \<forall>k<140. distinct (queue (arrays r a) k) \<and>
     (\<forall>p. p \<in> set (queue (arrays r a) k) \<longleftrightarrow> loc p = Some (a, k)))"

definition bitmaps_ok :: "runqueue \<Rightarrow> bool" where
  "bitmaps_ok r \<longleftrightarrow> (\<forall>a<3. bitmap (arrays r a) 140 \<and>
     (\<forall>k<140. bitmap (arrays r a) k \<longleftrightarrow> queue (arrays r a) k \<noteq> []))"

definition on_array :: "placement \<Rightarrow> nat \<Rightarrow> tid set" where
  "on_array loc a = {p. \<exists>k. loc p = Some (a, k)}"

definition counts_ok :: "placement \<Rightarrow> runqueue \<Rightarrow> bool" where
  "counts_ok loc r \<longleftrightarrow> (\<forall>a<3. nr_active (arrays r a) = int (card (on_array loc a)))"

definition arrays_ok :: "runqueue \<Rightarrow> bool" where
  "arrays_ok r \<longleftrightarrow> active r < 3 \<and> expired r < 3 \<and> short_pr r < 3 \<and>
     active r \<noteq> expired r \<and> active r \<noteq> short_pr r \<and> expired r \<noteq> short_pr r"

definition rq_ok :: "placement \<Rightarrow> runqueue \<Rightarrow> bool" where
  "rq_ok loc r \<longleftrightarrow> placement_range loc \<and> queues_ok loc r \<and> bitmaps_ok r \<and> counts_ok loc r"

text \<open>
  The contract of the two queue operations as their callers use it: taking a task off the queue it is
  on, and putting a task that is on no queue onto one.
\<close>

locale placement_queue =
  fixes enq :: "tid \<Rightarrow> nat \<Rightarrow> nat \<Rightarrow> 'r \<Rightarrow> 'r"
    and deq :: "tid \<Rightarrow> nat \<Rightarrow> nat \<Rightarrow> 'r \<Rightarrow> 'r"
    and ok :: "placement \<Rightarrow> 'r \<Rightarrow> bool"
  assumes deq_ok: "ok loc r \<Longrightarrow> loc p = Some (a, k) \<Longrightarrow> ok (loc(p := None)) (deq p k a r)"
    and enq_ok: "ok loc r \<Longrightarrow> loc p = None \<Longrightarrow> a < 3 \<Longrightarrow> k < 140 \<Longrightarrow> p < TID_MAX
      \<Longrightarrow> ok (loc(p \<mapsto> (a, k))) (enq p k a r)"
begin

lemma move_ok:
  assumes "ok loc r" "loc p = Some (a, k)" "b < 3" "j < 140" "p < TID_MAX"
  shows "ok (loc(p \<mapsto> (b, j))) (enq p j b (deq p k a r))"
  using enq_ok [OF deq_ok [OF assms(1,2)], of p b j] assms(3-5) by simp

lemma requeue_same_ok:
  assumes "ok loc r" "loc p = Some (a, k)" "a < 3" "k < 140" "p < TID_MAX"
  shows "ok loc (enq p k a (deq p k a r))"
  using move_ok [OF assms] assms(2) by (simp add: fun_upd_idem)

end

lemma finite_on_array: "placement_range loc \<Longrightarrow> finite (on_array loc a)"
  by (rule finite_subset [of _ "{..<TID_MAX}"]) (auto simp: on_array_def placement_range_def)

lemma finite_dom_placement: "placement_range loc \<Longrightarrow> finite (dom loc)"
  by (rule finite_subset [of _ "{..<TID_MAX}"]) (auto simp: placement_range_def)

lemma card_dom_placement: "placement_range loc \<Longrightarrow> card (dom loc) \<le> TID_MAX"
  using card_mono [of "{..<TID_MAX}" "dom loc"] by (fastforce simp: placement_range_def)

lemma on_array_upd:
  "on_array (loc(p := None)) a = on_array loc a - {p}"
  "on_array (loc(p \<mapsto> (b, k))) a = (if a = b then insert p (on_array loc a) else on_array loc a - {p})"
  by (auto simp: on_array_def)

lemma placement_range_upd:
  "placement_range loc \<Longrightarrow> placement_range (loc(p := None))"
  "placement_range loc \<Longrightarrow> a < 3 \<Longrightarrow> k < 140 \<Longrightarrow> p < TID_MAX \<Longrightarrow> placement_range (loc(p \<mapsto> (a, k)))"
  by (auto simp: placement_range_def)

lemma remove1_notin: "x \<notin> set xs \<Longrightarrow> remove1 x xs = xs"
  by (induction xs) auto

lemma rq_dequeue_queue:
  "queue (arrays (rq_dequeue p k a r) b) j = remove1 p (queue (arrays r b) j)"
  by (simp add: rq_dequeue_def list_del_def upd_array_def Let_def)

lemma rq_dequeue_bitmap:
  "bitmap (arrays (rq_dequeue p k a r) b) j =
     (if b = a \<and> j = k \<and> remove1 p (queue (arrays r a) k) = [] then False
      else bitmap (arrays r b) j)"
  by (simp add: rq_dequeue_def list_del_def upd_array_def Let_def)

lemma rq_dequeue_nr:
  "nr_active (arrays (rq_dequeue p k a r) b) = nr_active (arrays r b) - (if b = a then 1 else 0)"
  by (simp add: rq_dequeue_def list_del_def upd_array_def Let_def)

lemma rq_enqueue_queue:
  "queue (arrays (rq_enqueue p k a r) b) j =
     (if b = a \<and> j = k then queue (arrays r b) j @ [p] else queue (arrays r b) j)"
  by (simp add: rq_enqueue_def upd_array_def)

lemma rq_enqueue_bitmap:
  "bitmap (arrays (rq_enqueue p k a r) b) j = (b = a \<and> j = k \<or> bitmap (arrays r b) j)"
  by (simp add: rq_enqueue_def upd_array_def)

lemma rq_enqueue_nr:
  "nr_active (arrays (rq_enqueue p k a r) b) = nr_active (arrays r b) + (if b = a then 1 else 0)"
  by (simp add: rq_enqueue_def upd_array_def)

lemmas rq_deq_enq = rq_dequeue_queue rq_dequeue_bitmap rq_dequeue_nr
  rq_enqueue_queue rq_enqueue_bitmap rq_enqueue_nr

lemma queues_okD:
  assumes "queues_ok loc r" "a < 3" "k < 140"
  shows "distinct (queue (arrays r a) k)"
    and "p \<in> set (queue (arrays r a) k) \<longleftrightarrow> loc p = Some (a, k)"
  using assms by (auto simp: queues_ok_def)

lemma rq_dequeue_ok:
  assumes ok: "rq_ok loc r" and p: "loc p = Some (a, k)"
  shows "rq_ok (loc(p := None)) (rq_dequeue p k a r)"
proof -
  from ok have R: "placement_range loc" and Q: "queues_ok loc r" and B: "bitmaps_ok r"
    and C: "counts_ok loc r" by (simp_all add: rq_ok_def)
  from R p have ak: "a < 3" "k < 140" by (auto simp: placement_range_def)
  have other: "remove1 p (queue (arrays r b) j) = queue (arrays r b) j"
    if "b < 3" "j < 140" "(b, j) \<noteq> (a, k)" for b j
    using that queues_okD(2) [OF Q, of b j p] p by (intro remove1_notin) auto
  have "queues_ok (loc(p := None)) (rq_dequeue p k a r)"
    unfolding queues_ok_def
    using queues_okD [OF Q] by (auto simp: rq_dequeue_queue)
  moreover have "bitmaps_ok (rq_dequeue p k a r)"
    unfolding bitmaps_ok_def
  proof (intro allI impI conjI)
    fix b :: nat and j :: nat assume b: "b < 3"
    show "bitmap (arrays (rq_dequeue p k a r) b) 140"
      using B b ak by (simp add: rq_dequeue_bitmap bitmaps_ok_def)
    assume j: "j < 140"
    show "bitmap (arrays (rq_dequeue p k a r) b) j \<longleftrightarrow> queue (arrays (rq_dequeue p k a r) b) j \<noteq> []"
    proof (cases "(b, j) = (a, k)")
      case True
      with B b j p Q queues_okD(2) [OF Q b j, of p] show ?thesis
        by (auto simp: rq_dequeue_bitmap rq_dequeue_queue bitmaps_ok_def)
    next
      case False
      with B b j other [OF b j] show ?thesis
        by (auto simp: rq_dequeue_bitmap rq_dequeue_queue bitmaps_ok_def)
    qed
  qed
  moreover have "counts_ok (loc(p := None)) (rq_dequeue p k a r)"
    unfolding counts_ok_def
  proof (intro allI impI)
    fix b :: nat assume b: "b < 3"
    have f: "finite (on_array loc b)" using R by (rule finite_on_array)
    show "nr_active (arrays (rq_dequeue p k a r) b) = int (card (on_array (loc(p := None)) b))"
    proof (cases "b = a")
      case True
      with p have "p \<in> on_array loc b" by (auto simp: on_array_def)
      with f C b True card_Suc_Diff1 [OF f, of p] show ?thesis
        by (simp add: rq_dequeue_nr on_array_upd counts_ok_def)
    next
      case False
      with p have "p \<notin> on_array loc b" by (auto simp: on_array_def)
      with C b False show ?thesis by (simp add: rq_dequeue_nr on_array_upd counts_ok_def)
    qed
  qed
  ultimately show ?thesis using placement_range_upd(1) [OF R] by (simp add: rq_ok_def)
qed

lemma rq_enqueue_ok:
  assumes ok: "rq_ok loc r" and p: "loc p = None" and ak: "a < 3" "k < 140" and pm: "p < TID_MAX"
  shows "rq_ok (loc(p \<mapsto> (a, k))) (rq_enqueue p k a r)"
proof -
  from ok have R: "placement_range loc" and Q: "queues_ok loc r" and B: "bitmaps_ok r"
    and C: "counts_ok loc r" by (simp_all add: rq_ok_def)
  have "queues_ok (loc(p \<mapsto> (a, k))) (rq_enqueue p k a r)"
    unfolding queues_ok_def using queues_okD [OF Q] p by (auto simp: rq_enqueue_queue)
  moreover have "bitmaps_ok (rq_enqueue p k a r)"
    using B by (auto simp: bitmaps_ok_def rq_enqueue_bitmap rq_enqueue_queue)
  moreover have "counts_ok (loc(p \<mapsto> (a, k))) (rq_enqueue p k a r)"
    unfolding counts_ok_def
  proof (intro allI impI)
    fix b :: nat assume b: "b < 3"
    have f: "finite (on_array loc b)" using R by (rule finite_on_array)
    have "p \<notin> on_array loc b" using p by (auto simp: on_array_def)
    with f C b show "nr_active (arrays (rq_enqueue p k a r) b) = int (card (on_array (loc(p \<mapsto> (a, k))) b))"
      by (cases "b = a") (simp_all add: rq_enqueue_nr on_array_upd counts_ok_def)
  qed
  ultimately show ?thesis using placement_range_upd(2) [OF R ak pm] by (simp add: rq_ok_def)
qed

interpretation pq: placement_queue rq_enqueue rq_dequeue rq_ok
  by unfold_locales (simp_all add: rq_dequeue_ok rq_enqueue_ok)

end
