(* ===== verification/Sched_Core.thy ===== *)
theory Sched_Core
  imports Sched_Data
begin

text \<open>
  HW2, the core of \<^verbatim>\<open>HW2/kernel/sched.c\<close>: dynamic priorities and time slices, putting tasks on and off
  the run queue, waking, the timer tick with the expiry of a SCHED_SHORT task, \<open>schedule\<close> with its
  choice of the next task and the context switch, and yielding. The invariant \<open>sched_wf\<close> and its
  preservation are in \<open>Sched_Inv\<close>.

  A dereference of a null \<open>p->array\<close> or \<open>active_mm\<close> and a \<open>list_entry\<close> of an empty queue are faults
  on the left of a sum. \<open>schedule\<close> loops while the task it switched to wants to be rescheduled; it
  is a partial function, so that a schedule that never returns is the value \<open>None\<close>.
\<close>

unbundle bit_operations_syntax

subsection \<open>Priorities and time slices\<close>

definition NICE_TO_PRIO :: "int \<Rightarrow> int" where "NICE_TO_PRIO nice = MAX_RT_PRIO + nice + 20"
definition PRIO_TO_NICE :: "int \<Rightarrow> int" where "PRIO_TO_NICE pr = pr - MAX_RT_PRIO - 20"
definition TASK_NICE :: "task \<Rightarrow> int" where "TASK_NICE p = PRIO_TO_NICE (static_prio p)"

definition USER_PRIO :: "int \<Rightarrow> int" where "USER_PRIO pr = pr - MAX_RT_PRIO"
definition MAX_USER_PRIO :: int where "MAX_USER_PRIO = USER_PRIO MAX_PRIO"

definition MIN_TIMESLICE :: "arch \<Rightarrow> int" where "MIN_TIMESLICE A = 10 * HZ A div 1000"
definition MAX_TIMESLICE :: "arch \<Rightarrow> int" where "MAX_TIMESLICE A = 300 * HZ A div 1000"
definition CHILD_PENALTY :: u32 where "CHILD_PENALTY = 95"
definition PARENT_PENALTY :: u32 where "PARENT_PENALTY = 100"
definition EXIT_WEIGHT :: u32 where "EXIT_WEIGHT = 3"
definition PRIO_BONUS_RATIO :: int where "PRIO_BONUS_RATIO = 25"
definition INTERACTIVE_DELTA :: int where "INTERACTIVE_DELTA = 2"
definition MAX_SLEEP_AVG :: "arch \<Rightarrow> int" where "MAX_SLEEP_AVG A = 2 * HZ A"
definition STARVATION_LIMIT :: "arch \<Rightarrow> int" where "STARVATION_LIMIT A = 2 * HZ A"

definition TASK_TIMESLICE :: "arch \<Rightarrow> task \<Rightarrow> int" where
  "TASK_TIMESLICE A p =
     MIN_TIMESLICE A + ((MAX_TIMESLICE A - MIN_TIMESLICE A) * (MAX_PRIO - 1 - static_prio p)) sdiv 39"

definition DELTA :: "task \<Rightarrow> int" where
  "DELTA p = (TASK_NICE p * ((MAX_USER_PRIO * PRIO_BONUS_RATIO) div 100)) sdiv 40 + INTERACTIVE_DELTA"

definition TASK_INTERACTIVE :: "task \<Rightarrow> bool" where
  "TASK_INTERACTIVE p \<longleftrightarrow> prio p \<le> static_prio p - DELTA p"

definition EXPIRED_STARVING :: "arch \<Rightarrow> u32 \<Rightarrow> runqueue \<Rightarrow> bool" where
  "EXPIRED_STARVING A now r \<longleftrightarrow> expired_timestamp r \<noteq> 0 \<and>
     now - expired_timestamp r \<ge> of_int (STARVATION_LIMIT A) * nr_running r + 1"

text \<open>The bonus is computed in \<open>unsigned long\<close> and converted to \<open>int\<close>.\<close>

definition effective_prio :: "arch \<Rightarrow> task \<Rightarrow> int" where
  "effective_prio A p =
     (if policy p = SCHED_SHORT then short_prio p
      else let bonus = sint (of_int (MAX_USER_PRIO * PRIO_BONUS_RATIO) * sleep_avg p
                               div of_int (MAX_SLEEP_AVG A) div 100
                             - of_int (MAX_USER_PRIO * PRIO_BONUS_RATIO div 100 div 2));
               pr = static_prio p - bonus;
               pr = (if pr < MAX_RT_PRIO then MAX_RT_PRIO else pr)
           in if pr > MAX_PRIO - 1 then MAX_PRIO - 1 else pr)"

subsection \<open>On and off the run queue\<close>

definition set_tsk_need_resched :: "tid \<Rightarrow> sched \<Rightarrow> sched" where
  "set_tsk_need_resched p = upd_task p (\<lambda>t. t\<lparr>need_resched := True\<rparr>)"

definition clear_tsk_need_resched :: "tid \<Rightarrow> sched \<Rightarrow> sched" where
  "clear_tsk_need_resched p = upd_task p (\<lambda>t. t\<lparr>need_resched := False\<rparr>)"

definition upd_rq :: "(runqueue \<Rightarrow> runqueue) \<Rightarrow> sched \<Rightarrow> sched" where
  "upd_rq f s = s\<lparr>rq := f (rq s)\<rparr>"

definition sleep_bonus :: "arch \<Rightarrow> u32 \<Rightarrow> task \<Rightarrow> task" where
  "sleep_bonus A sleep_time t =
     (let avg = sleep_avg t + sleep_time;
          t1 = t\<lparr>sleep_avg := if avg > of_int (MAX_SLEEP_AVG A) then of_int (MAX_SLEEP_AVG A) else avg\<rparr>
      in t1\<lparr>prio := effective_prio A t1\<rparr>)"

definition activate_task :: "arch \<Rightarrow> tid \<Rightarrow> sched \<Rightarrow> sched" where
  "activate_task A p s =
     (let t = tasks s p;
          sleep_time = jiffies s - sleep_timestamp t;
          a = (if policy t = SCHED_SHORT then short_pr (rq s) else active (rq s));
          s1 = (if \<not> rt_task t \<and> sleep_time \<noteq> 0 \<and> policy t \<noteq> SCHED_SHORT
                then upd_task p (sleep_bonus A sleep_time) s else s)
      in upd_rq (\<lambda>r. r\<lparr>nr_running := nr_running r + 1\<rparr>) (enqueue_task p a s1))"

definition deactivate_task :: "tid \<Rightarrow> sched \<Rightarrow> fault + sched" where
  "deactivate_task p s =
     (let s1 = upd_rq (\<lambda>r. r\<lparr>nr_running := nr_running r - 1,
                  nr_uninterruptible := (if state (tasks s p) = TASK_UNINTERRUPTIBLE
                    then nr_uninterruptible r + 1 else nr_uninterruptible r)\<rparr>) s
      in case array (tasks s p) of
           None \<Rightarrow> Inl Null_Deref
         | Some a \<Rightarrow> Inr (upd_task p (\<lambda>t. t\<lparr>array := None\<rparr>) (dequeue_task p a s1)))"

definition resched_task :: "tid \<Rightarrow> sched \<Rightarrow> sched" where
  "resched_task p s = set_tsk_need_resched p s"

subsection \<open>Waking\<close>

text \<open>The only processor is number 0; the fast migration retries with the task moved to it.\<close>

definition wake_preempts :: "task \<Rightarrow> task \<Rightarrow> bool" where
  "wake_preempts p c \<longleftrightarrow>
     policy p = SCHED_SHORT \<and> policy c = SCHED_OTHER \<or>
     policy p = SCHED_SHORT \<and> policy c = SCHED_SHORT \<and> short_prio p < short_prio c \<or>
     rt_task p \<and> policy c = SCHED_SHORT \<or>
     prio p < prio c"

definition try_to_wake_up :: "arch \<Rightarrow> tid \<Rightarrow> bool \<Rightarrow> sched \<Rightarrow> sched \<times> bool" where
  "try_to_wake_up A p sync s =
     (if array (tasks s p) = None
      then let s1 = (if sync \<and> curr (rq s) \<noteq> p \<and> cpu (tasks s p) \<noteq> 0 \<and> cpus_allowed (tasks s p) AND 1 \<noteq> 0
                     then upd_task p (\<lambda>t. t\<lparr>cpu := 0\<rparr>) s else s);
               s2 = (if state (tasks s p) = TASK_UNINTERRUPTIBLE
                     then upd_rq (\<lambda>r. r\<lparr>nr_uninterruptible := nr_uninterruptible r - 1\<rparr>) s1 else s1);
               s3 = activate_task A p s2;
               s4 = (if wake_preempts (tasks s3 p) (tasks s3 (curr (rq s3)))
                     then resched_task (curr (rq s3)) s3 else s3)
           in (upd_task p (\<lambda>t. t\<lparr>state := TASK_RUNNING\<rparr>) s4, True)
      else (upd_task p (\<lambda>t. t\<lparr>state := TASK_RUNNING\<rparr>) s, False))"

definition wake_up_process :: "arch \<Rightarrow> tid \<Rightarrow> sched \<Rightarrow> sched \<times> bool" where
  "wake_up_process A p s = try_to_wake_up A p False s"

definition wake_up_forked_process :: "arch \<Rightarrow> tid \<Rightarrow> sched \<Rightarrow> sched" where
  "wake_up_forked_process A p s =
     (let s1 = upd_task p (\<lambda>t. t\<lparr>state := TASK_RUNNING\<rparr>) s;
          s2 = (if \<not> rt_task (tasks s1 p)
                then let s2a = upd_task (current s1) (\<lambda>t. t\<lparr>sleep_avg := sleep_avg t * PARENT_PENALTY div 100\<rparr>) s1
                     in upd_task p (\<lambda>t. let t1 = t\<lparr>sleep_avg := sleep_avg t * CHILD_PENALTY div 100\<rparr>
                                        in t1\<lparr>prio := effective_prio A t1\<rparr>) s2a
                else s1);
          s3 = upd_task p (\<lambda>t. t\<lparr>cpu := 0\<rparr>) s2
      in activate_task A p s3)"

text \<open>\<open>sched_exit\<close>: the time slice an exiting child has not used goes back to the current task.\<close>

definition sched_exit :: "arch \<Rightarrow> tid \<Rightarrow> sched \<Rightarrow> sched" where
  "sched_exit A p s =
     (let c = current s;
          s1 = (if first_time_slice (tasks s p) \<noteq> 0 \<and> policy (tasks s p) \<noteq> SCHED_SHORT
                then upd_task c (\<lambda>t. let ts = time_slice t + time_slice (tasks s p)
                       in t\<lparr>time_slice := if ts > of_int (MAX_TIMESLICE A) then of_int (MAX_TIMESLICE A) else ts\<rparr>) s
                else s)
      in if sleep_avg (tasks s1 p) < sleep_avg (tasks s1 c)
         then upd_task c (\<lambda>t. t\<lparr>sleep_avg :=
                (sleep_avg t * EXIT_WEIGHT + sleep_avg (tasks s1 p)) div (EXIT_WEIGHT + 1)\<rparr>) s1
         else s1)"

definition nr_running_total :: "sched \<Rightarrow> u32" where
  "nr_running_total s = sum_list (map (\<lambda>i. nr_running (rq s)) [0..<1])"

definition nr_uninterruptible_total :: "sched \<Rightarrow> u32" where
  "nr_uninterruptible_total s = sum_list (map (\<lambda>i. of_int (nr_uninterruptible (rq s))) [0..<1])"

definition nr_context_switches :: "sched \<Rightarrow> u32" where
  "nr_context_switches s = sum_list (map (\<lambda>i. nr_switches (rq s)) [0..<1])"

subsection \<open>The timer tick\<close>

text \<open>
  One definition per branch: the FIFO and RR branch, the ordinary branch, and the branch of the SHORT
  class, which turns a task that has used up its time into an ordinary one.
\<close>

definition tick_rt :: "arch \<Rightarrow> tid \<Rightarrow> sched \<Rightarrow> sched" where
  "tick_rt A p s =
     (if policy (tasks s p) = SCHED_RR
      then let s1 = upd_task p (\<lambda>t. t\<lparr>time_slice := time_slice t - 1\<rparr>) s
           in if time_slice (tasks s1 p) = 0
              then let s2 = upd_task p (\<lambda>t. t\<lparr>time_slice := of_int (TASK_TIMESLICE A t), first_time_slice := 0\<rparr>) s1;
                       s3 = set_tsk_need_resched p s2
                   in enqueue_task p (active (rq s)) (dequeue_task p (active (rq s)) s3)
              else s1
      else s)"

definition tick_refill :: "arch \<Rightarrow> task \<Rightarrow> task" where
  "tick_refill A t =
     (let t1 = t\<lparr>prio := effective_prio A t\<rparr>
      in t1\<lparr>first_time_slice := 0, time_slice := of_int (TASK_TIMESLICE A t1)\<rparr>)"

definition tick_other :: "arch \<Rightarrow> tid \<Rightarrow> sched \<Rightarrow> sched" where
  "tick_other A p s =
     (let s1 = upd_task p (\<lambda>t. t\<lparr>sleep_avg := if sleep_avg t \<noteq> 0 then sleep_avg t - 1 else sleep_avg t,
                               time_slice := time_slice t - 1\<rparr>) s
      in if time_slice (tasks s1 p) = 0
         then let s2 = upd_task p (tick_refill A) (set_tsk_need_resched p (dequeue_task p (active (rq s)) s1))
              in if \<not> TASK_INTERACTIVE (tasks s2 p) \<or> EXPIRED_STARVING A (jiffies s2) (rq s2)
                 then let s3 = (if expired_timestamp (rq s2) = 0
                                then upd_rq (\<lambda>r. r\<lparr>expired_timestamp := jiffies s2\<rparr>) s2 else s2)
                      in enqueue_task p (expired (rq s)) s3
                 else enqueue_task p (active (rq s)) s2
         else s1)"

definition short_expire :: "arch \<Rightarrow> task \<Rightarrow> task" where
  "short_expire A t =
     (let t1 = t\<lparr>policy := SCHED_OTHER,
                 static_prio := (if static_prio t + 7 < MAX_PRIO - 1 then static_prio t + 7 else MAX_PRIO - 1),
                 sleep_avg := of_int (MAX_SLEEP_AVG A div 2)\<rparr>
      in tick_refill A (t1\<lparr>need_resched := True\<rparr>))"

definition tick_short :: "arch \<Rightarrow> tid \<Rightarrow> sched \<Rightarrow> sched" where
  "tick_short A p s =
     (let s1 = upd_task p (\<lambda>t. t\<lparr>time_left := time_left t - 1\<rparr>) s
      in if time_left (tasks s1 p) = 0
         then enqueue_task p (active (rq s))
                (upd_task p (short_expire A) (dequeue_task p (short_pr (rq s)) s1))
         else s1)"

text \<open>\<open>bh\<close> says that the tick interrupted a bottom half or another interrupt on the idle task.\<close>

definition scheduler_tick :: "arch \<Rightarrow> bool \<Rightarrow> u32 \<Rightarrow> u32 \<Rightarrow> sched \<Rightarrow> sched" where
  "scheduler_tick A bh user_tick system s =
     (let p = current s in
      if p = idle (rq s)
      then (if bh then s\<lparr>kstat_system := kstat_system s + system\<rparr> else s)
      else let s1 = (if TASK_NICE (tasks s p) > 0 then s\<lparr>kstat_nice := kstat_nice s + user_tick\<rparr>
                     else s\<lparr>kstat_user := kstat_user s + user_tick\<rparr>);
               s2 = s1\<lparr>kstat_system := kstat_system s1 + system\<rparr>
           in if array (tasks s2 p) \<noteq> Some (active (rq s2)) \<and> array (tasks s2 p) \<noteq> Some (short_pr (rq s2))
              then set_tsk_need_resched p s2
              else if rt_task (tasks s2 p) then tick_rt A p s2
              else if policy (tasks s2 p) = SCHED_SHORT then tick_short A p s2
              else tick_other A p s2)"

subsection \<open>Choosing the next task\<close>

text \<open>\<open>list_entry (queue->next)\<close>: only the head of a non-empty queue of the array is a task.\<close>

definition queue_head :: "prio_array \<Rightarrow> nat \<Rightarrow> fault + tid" where
  "queue_head x k =
     (if k < 140 then case queue x k of [] \<Rightarrow> Inl Out_Of_Bounds | p # ps \<Rightarrow> Inr p else Inl Out_Of_Bounds)"

definition switch_arrays :: "runqueue \<Rightarrow> runqueue" where
  "switch_arrays r =
     (if nr_active (arrays r (active r)) = 0
      then r\<lparr>active := expired r, expired := active r, expired_timestamp := 0\<rparr> else r)"

definition pick_next :: "arch \<Rightarrow> runqueue \<Rightarrow> fault + (tid \<times> runqueue)" where
  "pick_next A r =
     (if nr_running r = 0 then Inr (idle r, r\<lparr>expired_timestamp := 0\<rparr>)
      else let r1 = switch_arrays r;
               array = arrays r1 (active r1);
               idx = sched_find_first_bit A (bitmap array);
               idx_short = sched_find_first_bit A (bitmap (arrays r1 (short_pr r1)))
           in sbind (if int idx \<ge> MAX_RT_PRIO \<and> int idx_short < MAX_PRIO
                     then queue_head (arrays r1 (short_pr r1)) idx_short
                     else queue_head array idx)
                (\<lambda>next. Inr (next, r1)))"

subsection \<open>Switching\<close>

text \<open>
  The address spaces: a kernel thread (\<open>mm\<close> null) borrows the active one of the task before it and
  gives it back when it is switched away. \<^verbatim>\<open>switch_mm\<close>, \<^verbatim>\<open>enter_lazy_tlb\<close> and \<^verbatim>\<open>switch_to\<close> change the
  hardware only; the new task is current after \<^verbatim>\<open>switch_to\<close>.
\<close>

definition context_switch :: "tid \<Rightarrow> tid \<Rightarrow> sched \<Rightarrow> fault + sched" where
  "context_switch prev next s =
     (let oldmm = active_mm (tasks s prev) in
      sbind (if mm (tasks s next) = None
             then case oldmm of None \<Rightarrow> Inl Null_Deref
                  | Some m \<Rightarrow> Inr ((upd_task next (\<lambda>t. t\<lparr>active_mm := oldmm\<rparr>) s)
                                   \<lparr>mm_count := (mm_count s)(m := mm_count s m + 1)\<rparr>)
             else Inr s)
      (\<lambda>s1. sbind (if mm (tasks s1 prev) = None
             then case oldmm of None \<Rightarrow> Inl Null_Deref
                  | Some m \<Rightarrow> Inr ((upd_task prev (\<lambda>t. t\<lparr>active_mm := None\<rparr>) s1)
                                   \<lparr>mm_count := (mm_count s1)(m := mm_count s1 m - 1)\<rparr>)
             else Inr s1)
      (\<lambda>s2. Inr (s2\<lparr>current := next\<rparr>))))"

definition switch_tasks :: "tid \<Rightarrow> tid \<Rightarrow> sched \<Rightarrow> fault + sched" where
  "switch_tasks prev next s =
     (let s1 = clear_tsk_need_resched prev s in
      if prev \<noteq> next
      then context_switch prev next
             (upd_rq (\<lambda>r. r\<lparr>nr_switches := nr_switches r + 1, curr := next\<rparr>) s1)
      else Inr s1)"

definition schedule_prev :: "sched \<Rightarrow> fault + sched" where
  "schedule_prev s =
     (let prev = current s;
          s1 = upd_task prev (\<lambda>t. t\<lparr>sleep_timestamp := jiffies s\<rparr>) s
      in if state (tasks s1 prev) = TASK_INTERRUPTIBLE \<and> sigpending (tasks s1 prev)
         then Inr (upd_task prev (\<lambda>t. t\<lparr>state := TASK_RUNNING\<rparr>) s1)
         else if state (tasks s1 prev) = TASK_RUNNING then Inr s1
         else deactivate_task prev s1)"

definition schedule_once :: "arch \<Rightarrow> sched \<Rightarrow> fault + sched" where
  "schedule_once A s =
     sbind (schedule_prev s) (\<lambda>s1.
     sbind (pick_next A (rq s1)) (\<lambda>(next, r).
       switch_tasks (current s) next (s1\<lparr>rq := r\<rparr>)))"

partial_function (option) schedule :: "arch \<Rightarrow> sched \<Rightarrow> (fault + sched) option" where
  "schedule A s =
     (case schedule_once A s of
        Inl e \<Rightarrow> Some (Inl e)
      | Inr s1 \<Rightarrow> if need_resched (tasks s1 (current s1)) then schedule A s1 else Some (Inr s1))"

subsection \<open>Yielding\<close>

definition list_add_tail :: "tid \<Rightarrow> nat \<Rightarrow> nat \<Rightarrow> runqueue \<Rightarrow> runqueue" where
  "list_add_tail p a k r = upd_array a (\<lambda>x. x\<lparr>queue := (queue x)(k := queue x k @ [p])\<rparr>) r"

text \<open>\<open>list_add (p, queue[k].next)\<close> links the task behind the first one of the queue.\<close>

fun insert_second :: "tid \<Rightarrow> tid list \<Rightarrow> tid list" where
  "insert_second p [] = [p]"
| "insert_second p (q # qs) = q # p # qs"

definition list_add_second :: "tid \<Rightarrow> nat \<Rightarrow> nat \<Rightarrow> runqueue \<Rightarrow> runqueue" where
  "list_add_second p a k r =
     upd_array a (\<lambda>x. x\<lparr>queue := (queue x)(k := insert_second p (queue x k))\<rparr>) r"

definition yield_other :: "arch \<Rightarrow> tid \<Rightarrow> nat \<Rightarrow> sched \<Rightarrow> sched" where
  "yield_other A p a s =
     (let k = nat (prio (tasks s p));
          s1 = upd_rq (list_del p) s
      in if queue (arrays (rq s1) a) k \<noteq> [] then upd_rq (list_add_second p a k) s1
         else let s2 = upd_rq (upd_array a (\<lambda>x. x\<lparr>bitmap := (bitmap x)(k := False)\<rparr>)) s1;
                  i = sched_find_first_bit A (bitmap (arrays (rq s2) a));
                  j = (if int i = MAX_PRIO \<or> int i \<le> prio (tasks s2 p) then k else i);
                  s3 = (if int i = MAX_PRIO \<or> int i \<le> prio (tasks s2 p) then s2
                        else upd_task p (\<lambda>t. t\<lparr>prio := int i\<rparr>) s2)
              in upd_rq (\<lambda>r. upd_array a (\<lambda>x. x\<lparr>bitmap := (bitmap x)(j := True)\<rparr>) (list_add_second p a j r)) s3)"

definition yield_queue :: "arch \<Rightarrow> sched \<Rightarrow> fault + sched" where
  "yield_queue A s =
     (let p = current s; t = tasks s p in
      case array t of None \<Rightarrow> Inl Null_Deref
      | Some a \<Rightarrow>
          if rt_task t then Inr (upd_rq (\<lambda>r. list_add_tail p a (nat (prio t)) (list_del p r)) s)
          else if policy t = SCHED_SHORT
          then Inr (upd_rq (\<lambda>r. list_add_tail p a (nat (short_prio t)) (list_del p r)) s)
          else Inr (yield_other A p a s))"

definition sys_sched_yield :: "arch \<Rightarrow> sched \<Rightarrow> (fault + sched) option" where
  "sys_sched_yield A s = (case yield_queue A s of Inl e \<Rightarrow> Some (Inl e) | Inr s1 \<Rightarrow> schedule A s1)"

end
