(* ===== verification/Sched_Inv.thy ===== *)
theory Sched_Inv
  imports Sched_Core
begin

text \<open>
  HW2, the invariant \<open>sched_wf\<close> of the scheduler and its preservation by the operations of
  \<open>Sched_Core\<close>: the run queue represents exactly the tasks whose \<open>array\<close> is set, every task is in the
  array of its class (SHORT tasks in \<open>short_pr\<close>, real-time tasks never in \<open>expired\<close>), the priorities
  are in the range of the class, and the current task is queued or is the idle task. With it
  \<open>schedule\<close> never faults and always returns, and what it picks is the least task in the order of
  the classes.
\<close>

subsection \<open>The invariant\<close>

definition tplace :: "task \<Rightarrow> (nat \<times> nat) option" where
  "tplace t = map_option (\<lambda>a. (a, qkey t)) (array t)"

definition tloc :: "sched \<Rightarrow> placement" where
  "tloc s p = tplace (tasks s p)"

definition task_wf :: "arch \<Rightarrow> task \<Rightarrow> bool" where
  "task_wf A t \<longleftrightarrow>
     100 \<le> static_prio t \<and> static_prio t \<le> 139 \<and> sleep_avg t \<le> of_int (MAX_SLEEP_AVG A) \<and>
     time_slice t \<noteq> 0 \<and> time_slice t \<le> of_int (HZ A) \<and>
     (policy t = SCHED_OTHER \<and> 100 \<le> prio t \<and> prio t \<le> 139 \<or>
      (policy t = SCHED_FIFO \<or> policy t = SCHED_RR) \<and> 0 \<le> prio t \<and> prio t \<le> 98 \<or>
      policy t = SCHED_SHORT \<and> 0 \<le> short_prio t \<and> short_prio t \<le> 139 \<and> time_left t \<noteq> 0)"

definition place_wf :: "runqueue \<Rightarrow> task \<Rightarrow> bool" where
  "place_wf r t \<longleftrightarrow> (\<forall>a. array t = Some a \<longrightarrow>
     (policy t = SCHED_SHORT \<longleftrightarrow> a = short_pr r) \<and> (rt_task t \<longrightarrow> a \<noteq> expired r))"

definition nr_ok :: "sched \<Rightarrow> bool" where
  "nr_ok s \<longleftrightarrow> nr_running (rq s) = of_nat (card (dom (tloc s)))"

definition mm_wf :: "sched \<Rightarrow> bool" where
  "mm_wf s \<longleftrightarrow> active_mm (tasks s (current s)) \<noteq> None \<and>
     (\<forall>p. mm (tasks s p) \<noteq> None \<longrightarrow> active_mm (tasks s p) \<noteq> None)"

definition idle_wf :: "sched \<Rightarrow> bool" where
  "idle_wf s \<longleftrightarrow> array (tasks s (idle (rq s))) = None \<and> state (tasks s (idle (rq s))) = TASK_RUNNING"

text \<open>The process table has no idle task.\<close>

definition hash_wf :: "sched \<Rightarrow> bool" where
  "hash_wf s \<longleftrightarrow> (\<forall>h. \<forall>p\<in>set (pidhash s h). p \<noteq> idle (rq s) \<and> p < TID_MAX)"

definition queues_wf :: "arch \<Rightarrow> sched \<Rightarrow> bool" where
  "queues_wf A s \<longleftrightarrow>
     arrays_ok (rq s) \<and> rq_ok (tloc s) (rq s) \<and> nr_ok s \<and> mm_wf s \<and> idle_wf s \<and>
     (\<forall>p. p \<noteq> idle (rq s) \<longrightarrow> task_wf A (tasks s p) \<and> place_wf (rq s) (tasks s p)) \<and>
     curr (rq s) = current s \<and> hash_wf s"

text \<open>While the current task is being taken off the queue only \<open>queues_wf\<close> holds.\<close>

definition sched_wf :: "arch \<Rightarrow> sched \<Rightarrow> bool" where
  "sched_wf A s \<longleftrightarrow>
     queues_wf A s \<and> (current s = idle (rq s) \<or> array (tasks s (current s)) \<noteq> None)"

subsection \<open>Selectors of the updated states\<close>

named_theorems sched_sel \<open>selectors of updated scheduler states\<close>

lemma upd_task_sel [sched_sel, simp]:
  "tasks (upd_task p f s) = (tasks s)(p := f (tasks s p))"
  "rq (upd_task p f s) = rq s"
  "current (upd_task p f s) = current s"
  "jiffies (upd_task p f s) = jiffies s"
  "kstat_user (upd_task p f s) = kstat_user s"
  "kstat_nice (upd_task p f s) = kstat_nice s"
  "kstat_system (upd_task p f s) = kstat_system s"
  "mm_count (upd_task p f s) = mm_count s"
  "pidhash (upd_task p f s) = pidhash s"
  "kerrno (upd_task p f s) = kerrno s"
  by (simp_all add: upd_task_def)

lemma upd_rq_sel [sched_sel, simp]:
  "tasks (upd_rq g s) = tasks s"
  "rq (upd_rq g s) = g (rq s)"
  "current (upd_rq g s) = current s"
  "jiffies (upd_rq g s) = jiffies s"
  "kstat_user (upd_rq g s) = kstat_user s"
  "kstat_nice (upd_rq g s) = kstat_nice s"
  "kstat_system (upd_rq g s) = kstat_system s"
  "mm_count (upd_rq g s) = mm_count s"
  "pidhash (upd_rq g s) = pidhash s"
  "kerrno (upd_rq g s) = kerrno s"
  by (simp_all add: upd_rq_def)

lemma dequeue_task_sel [sched_sel, simp]:
  "tasks (dequeue_task p a s) = tasks s"
  "rq (dequeue_task p a s) = rq_dequeue p (qkey (tasks s p)) a (rq s)"
  "current (dequeue_task p a s) = current s"
  "jiffies (dequeue_task p a s) = jiffies s"
  "mm_count (dequeue_task p a s) = mm_count s"
  "pidhash (dequeue_task p a s) = pidhash s"
  "kerrno (dequeue_task p a s) = kerrno s"
  by (simp_all add: dequeue_task_def)

lemma enqueue_task_sel [sched_sel, simp]:
  "tasks (enqueue_task p a s) = (tasks s)(p := (tasks s p)\<lparr>array := Some a\<rparr>)"
  "rq (enqueue_task p a s) = rq_enqueue p (qkey (tasks s p)) a (rq s)"
  "current (enqueue_task p a s) = current s"
  "jiffies (enqueue_task p a s) = jiffies s"
  "mm_count (enqueue_task p a s) = mm_count s"
  "pidhash (enqueue_task p a s) = pidhash s"
  "kerrno (enqueue_task p a s) = kerrno s"
  by (simp_all add: enqueue_task_def)

lemma rq_pointers [sched_sel, simp]:
  "active (rq_dequeue p k a r) = active r" "active (rq_enqueue p k a r) = active r"
  "expired (rq_dequeue p k a r) = expired r" "expired (rq_enqueue p k a r) = expired r"
  "short_pr (rq_dequeue p k a r) = short_pr r" "short_pr (rq_enqueue p k a r) = short_pr r"
  "idle (rq_dequeue p k a r) = idle r" "idle (rq_enqueue p k a r) = idle r"
  "curr (rq_dequeue p k a r) = curr r" "curr (rq_enqueue p k a r) = curr r"
  "nr_running (rq_dequeue p k a r) = nr_running r" "nr_running (rq_enqueue p k a r) = nr_running r"
  "nr_switches (rq_dequeue p k a r) = nr_switches r" "nr_switches (rq_enqueue p k a r) = nr_switches r"
  "nr_uninterruptible (rq_dequeue p k a r) = nr_uninterruptible r"
  "nr_uninterruptible (rq_enqueue p k a r) = nr_uninterruptible r"
  "expired_timestamp (rq_dequeue p k a r) = expired_timestamp r"
  "expired_timestamp (rq_enqueue p k a r) = expired_timestamp r"
  by (simp_all add: rq_dequeue_def rq_enqueue_def list_del_def upd_array_def Let_def)

text \<open>\<open>rq_ok\<close> and \<open>arrays_ok\<close> look at the arrays and their pointers only.\<close>

lemma rq_ok_cong:
  "arrays r' = arrays r \<Longrightarrow> rq_ok loc r' = rq_ok loc r"
  by (simp add: rq_ok_def queues_ok_def bitmaps_ok_def counts_ok_def)

lemma rq_ok_fields [simp]:
  "rq_ok loc (r\<lparr>nr_running := n\<rparr>) = rq_ok loc r"
  "rq_ok loc (r\<lparr>nr_uninterruptible := u\<rparr>) = rq_ok loc r"
  "rq_ok loc (r\<lparr>expired_timestamp := t\<rparr>) = rq_ok loc r"
  "rq_ok loc (r\<lparr>active := a\<rparr>) = rq_ok loc r"
  "rq_ok loc (r\<lparr>expired := b\<rparr>) = rq_ok loc r"
  "rq_ok loc (r\<lparr>nr_switches := m\<rparr>) = rq_ok loc r"
  "rq_ok loc (r\<lparr>curr := c\<rparr>) = rq_ok loc r"
  by (rule rq_ok_cong, simp)+

lemma rq_fields_commute [simp]:
  "rq_dequeue p k a (r\<lparr>nr_running := n\<rparr>) = (rq_dequeue p k a r)\<lparr>nr_running := n\<rparr>"
  "rq_enqueue p k a (r\<lparr>nr_running := n\<rparr>) = (rq_enqueue p k a r)\<lparr>nr_running := n\<rparr>"
  "rq_dequeue p k a (r\<lparr>nr_uninterruptible := u\<rparr>) = (rq_dequeue p k a r)\<lparr>nr_uninterruptible := u\<rparr>"
  "rq_enqueue p k a (r\<lparr>nr_uninterruptible := u\<rparr>) = (rq_enqueue p k a r)\<lparr>nr_uninterruptible := u\<rparr>"
  "rq_enqueue p k a (r\<lparr>expired_timestamp := e\<rparr>) = (rq_enqueue p k a r)\<lparr>expired_timestamp := e\<rparr>"
  by (simp_all add: rq_dequeue_def rq_enqueue_def list_del_def upd_array_def Let_def)

subsection \<open>Placement of the updated states\<close>

lemma tloc_upd_task [simp]: "tloc (upd_task p f s) = (tloc s)(p := tplace (f (tasks s p)))"
  by (auto simp: tloc_def)

lemma tloc_of_tasks: "tasks s' = (tasks s)(p := t) \<Longrightarrow> tloc s' = (tloc s)(p := tplace t)"
  by (auto simp: tloc_def)

lemma tloc_same_tasks: "tasks s' = tasks s \<Longrightarrow> tloc s' = tloc s"
  by (auto simp: tloc_def)

lemma tplace_array [simp]: "tplace (t\<lparr>array := Some a\<rparr>) = Some (a, qkey t)"
  "tplace (t\<lparr>array := None\<rparr>) = None"
  by (simp_all add: tplace_def qkey_def)

lemma tplace_fields [simp]:
  "tplace (t\<lparr>need_resched := b\<rparr>) = tplace t"
  "tplace (t\<lparr>state := st\<rparr>) = tplace t"
  "tplace (t\<lparr>cpu := c\<rparr>) = tplace t"
  "tplace (t\<lparr>sleep_avg := v\<rparr>) = tplace t"
  "tplace (t\<lparr>sleep_timestamp := w\<rparr>) = tplace t"
  "tplace (t\<lparr>time_slice := v\<rparr>) = tplace t"
  "tplace (t\<lparr>first_time_slice := v\<rparr>) = tplace t"
  "tplace (t\<lparr>time_left := v\<rparr>) = tplace t"
  "tplace (t\<lparr>static_prio := i\<rparr>) = tplace t"
  "tplace (t\<lparr>active_mm := m\<rparr>) = tplace t"
  by (simp_all add: tplace_def qkey_def)

lemma qkey_range: "task_wf A t \<Longrightarrow> qkey t < 140"
  by (auto simp: task_wf_def qkey_def)

lemma queues_wfD:
  assumes "queues_wf A s"
  shows "arrays_ok (rq s)" "rq_ok (tloc s) (rq s)" "nr_ok s" "mm_wf s" "idle_wf s"
    "p \<noteq> idle (rq s) \<Longrightarrow> task_wf A (tasks s p)"
    "p \<noteq> idle (rq s) \<Longrightarrow> place_wf (rq s) (tasks s p)"
    "curr (rq s) = current s" "hash_wf s"
  using assms by (auto simp: queues_wf_def)

lemma sched_wfD:
  assumes "sched_wf A s"
  shows "queues_wf A s" "current s \<noteq> idle (rq s) \<Longrightarrow> array (tasks s (current s)) \<noteq> None"
  using assms by (auto simp: sched_wf_def)

lemma place_range:
  assumes "queues_wf A s" "array (tasks s p) = Some a"
  shows "a < 3" "qkey (tasks s p) < 140" "p < TID_MAX" "p \<noteq> idle (rq s)"
  using queues_wfD(2,5) [OF assms(1)] assms(2)
  by (auto simp: rq_ok_def placement_range_def tloc_def tplace_def idle_wf_def)

text \<open>
  One operation on one task: what is left to show of a state that differs from a well-formed one in
  the task \<open>p\<close> and in the queues.
\<close>

lemma queues_wf_update:
  assumes wf: "queues_wf A s"
    and tasks: "tasks s' = (tasks s)(p := t')" and cur: "current s' = current s"
    and ptr: "active (rq s') = active (rq s)" "expired (rq s') = expired (rq s)"
      "short_pr (rq s') = short_pr (rq s)" "idle (rq s') = idle (rq s)" "curr (rq s') = curr (rq s)"
    and ok: "rq_ok ((tloc s)(p := tplace t')) (rq s')"
    and nr: "nr_running (rq s') = of_nat (card (dom ((tloc s)(p := tplace t'))))"
    and mm: "mm t' = mm (tasks s p)" "active_mm t' = active_mm (tasks s p)"
    and p: "p \<noteq> idle (rq s)"
    and t: "task_wf A t'" "place_wf (rq s) t'"
    and hash: "pidhash s' = pidhash s"
  shows "queues_wf A s'"
proof -
  have loc: "tloc s' = (tloc s)(p := tplace t')" by (rule tloc_of_tasks [OF tasks])
  have ts: "task_wf A (tasks s' q) \<and> place_wf (rq s') (tasks s' q)" if "q \<noteq> idle (rq s)" for q
    using queues_wfD(6,7) [OF wf that] t by (cases "q = p") (simp_all add: tasks place_wf_def ptr)
  have "mm_wf s'"
    using queues_wfD(4) [OF wf] mm by (auto simp: mm_wf_def tasks cur)
  moreover have "idle_wf s'"
    using queues_wfD(5) [OF wf] p by (simp add: idle_wf_def tasks ptr)
  ultimately show ?thesis
    using queues_wfD(1,8,9) [OF wf] ts ok nr
    by (simp add: queues_wf_def nr_ok_def arrays_ok_def hash_wf_def hash loc cur ptr)
qed

text \<open>An update of fields the queues do not depend on.\<close>

lemma queues_wf_fields:
  assumes wf: "queues_wf A s"
    and tasks: "tasks s' = (tasks s)(p := t')" and cur: "current s' = current s" and rq: "rq s' = rq s"
    and pl: "tplace t' = tplace (tasks s p)" "array t' = array (tasks s p)"
    and mm: "mm t' = mm (tasks s p)" "active_mm t' = active_mm (tasks s p)"
    and t: "p \<noteq> idle (rq s) \<Longrightarrow> task_wf A t'" "p \<noteq> idle (rq s) \<Longrightarrow> place_wf (rq s) t'"
      "p = idle (rq s) \<Longrightarrow> state t' = TASK_RUNNING"
    and hash: "pidhash s' = pidhash s"
  shows "queues_wf A s'"
proof -
  have loc: "tloc s' = tloc s"
    using tloc_of_tasks [OF tasks] pl by (simp add: tloc_def [of s p, symmetric] fun_upd_idem)
  have ts: "task_wf A (tasks s' q) \<and> place_wf (rq s) (tasks s' q)" if "q \<noteq> idle (rq s)" for q
    using queues_wfD(6,7) [OF wf that] t(1,2) that by (cases "q = p") (simp_all add: tasks)
  have "mm_wf s'"
    using queues_wfD(4) [OF wf] mm by (auto simp: mm_wf_def tasks cur)
  moreover have "idle_wf s'"
    using queues_wfD(5) [OF wf] pl t(3) by (auto simp: idle_wf_def tasks rq)
  ultimately show ?thesis
    using queues_wfD(1-3,8,9) [OF wf] ts
    by (simp add: queues_wf_def nr_ok_def hash_wf_def hash rq loc cur)
qed

lemma queues_wf_cong:
  assumes "queues_wf A s" "tasks s' = tasks s" "rq s' = rq s" "current s' = current s"
    "pidhash s' = pidhash s"
  shows "queues_wf A s'"
  using assms tloc_same_tasks [OF assms(2)]
  by (simp add: queues_wf_def nr_ok_def mm_wf_def idle_wf_def hash_wf_def)

text \<open>The invariant of a task looks at some of its fields only.\<close>

lemma task_wf_fields [simp]:
  "task_wf A (t\<lparr>need_resched := b\<rparr>) = task_wf A t"
  "task_wf A (t\<lparr>state := st\<rparr>) = task_wf A t"
  "task_wf A (t\<lparr>cpu := c\<rparr>) = task_wf A t"
  "task_wf A (t\<lparr>array := a\<rparr>) = task_wf A t"
  "task_wf A (t\<lparr>sleep_timestamp := w\<rparr>) = task_wf A t"
  "task_wf A (t\<lparr>time_slice := time_slice t\<rparr>) = task_wf A t"
  "task_wf A (t\<lparr>first_time_slice := v\<rparr>) = task_wf A t"
  "task_wf A (t\<lparr>active_mm := m\<rparr>) = task_wf A t"
  by (simp_all add: task_wf_def)

lemma place_wf_fields [simp]:
  "place_wf r (t\<lparr>need_resched := b\<rparr>) = place_wf r t"
  "place_wf r (t\<lparr>state := st\<rparr>) = place_wf r t"
  "place_wf r (t\<lparr>cpu := c\<rparr>) = place_wf r t"
  "place_wf r (t\<lparr>sleep_avg := v\<rparr>) = place_wf r t"
  "place_wf r (t\<lparr>sleep_timestamp := w\<rparr>) = place_wf r t"
  "place_wf r (t\<lparr>time_slice := v\<rparr>) = place_wf r t"
  "place_wf r (t\<lparr>first_time_slice := v\<rparr>) = place_wf r t"
  "place_wf r (t\<lparr>time_left := v\<rparr>) = place_wf r t"
  "place_wf r (t\<lparr>static_prio := i\<rparr>) = place_wf r t"
  "place_wf r (t\<lparr>active_mm := m\<rparr>) = place_wf r t"
  "place_wf r (t\<lparr>array := None\<rparr>)"
  by (simp_all add: place_wf_def rt_task_def)

lemma queues_wf_upd_task:
  assumes wf: "queues_wf A s"
    and pl: "tplace (f (tasks s p)) = tplace (tasks s p)" "array (f (tasks s p)) = array (tasks s p)"
    and mm: "mm (f (tasks s p)) = mm (tasks s p)" "active_mm (f (tasks s p)) = active_mm (tasks s p)"
    and t: "p \<noteq> idle (rq s) \<Longrightarrow> task_wf A (tasks s p) \<Longrightarrow> task_wf A (f (tasks s p))"
      "p \<noteq> idle (rq s) \<Longrightarrow> place_wf (rq s) (tasks s p) \<Longrightarrow> place_wf (rq s) (f (tasks s p))"
      "p = idle (rq s) \<Longrightarrow> state (tasks s p) = TASK_RUNNING \<Longrightarrow> state (f (tasks s p)) = TASK_RUNNING"
  shows "queues_wf A (upd_task p f s)"
  by (rule queues_wf_fields [where p = p and t' = "f (tasks s p)", OF wf _ _ _ pl mm])
     (use queues_wfD(5-7) [OF wf] t in \<open>simp_all add: idle_wf_def\<close>)

lemma set_need_resched_wf:
  "queues_wf A s \<Longrightarrow> queues_wf A (upd_task p (\<lambda>t. t\<lparr>need_resched := b\<rparr>) s)"
  by (rule queues_wf_upd_task) simp_all

lemma set_state_wf:
  "queues_wf A s \<Longrightarrow> p \<noteq> idle (rq s) \<or> st = TASK_RUNNING \<Longrightarrow>
   queues_wf A (upd_task p (\<lambda>t. t\<lparr>state := st\<rparr>) s)"
  by (rule queues_wf_upd_task) auto

lemma set_timestamp_wf:
  "queues_wf A s \<Longrightarrow> queues_wf A (upd_task p (\<lambda>t. t\<lparr>sleep_timestamp := w\<rparr>) s)"
  by (rule queues_wf_upd_task) simp_all

subsection \<open>Taking tasks off and putting them on\<close>

lemma dequeue_ok:
  assumes "queues_wf A s" "array (tasks s p) = Some a"
  shows "rq_ok ((tloc s)(p := None)) (rq_dequeue p (qkey (tasks s p)) a (rq s))"
  using pq.deq_ok [OF queues_wfD(2) [OF assms(1)], of p a "qkey (tasks s p)"] assms(2)
  by (simp add: tloc_def tplace_def)

lemma enqueue_ok:
  assumes "rq_ok (loc(p := None)) r" "a < 3" "k < 140" "p < TID_MAX"
  shows "rq_ok (loc(p \<mapsto> (a, k))) (rq_enqueue p k a r)"
  using pq.enq_ok [OF assms(1), of p a k] assms(2-4) by simp

lemma dom_placed: "queues_wf A s \<Longrightarrow> finite (dom (tloc s))"
  using queues_wfD(2) [of A s] by (simp add: rq_ok_def finite_dom_placement)

lemma dom_tloc: "p \<in> dom (tloc s) \<longleftrightarrow> array (tasks s p) \<noteq> None"
  by (auto simp: tloc_def tplace_def)

lemma card_requeue:
  "loc p \<noteq> None \<Longrightarrow> card (dom (loc(p \<mapsto> x))) = card (dom loc)"
  by (simp add: insert_absorb domIff)

lemma deactivate_task_wf:
  assumes wf: "queues_wf A s" and a: "array (tasks s p) = Some a"
  shows "\<exists>s'. deactivate_task p s = Inr s' \<and> queues_wf A s' \<and>
    tasks s' = (tasks s)(p := (tasks s p)\<lparr>array := None\<rparr>) \<and> current s' = current s \<and>
    idle (rq s') = idle (rq s) \<and> active (rq s') = active (rq s) \<and> expired (rq s') = expired (rq s) \<and>
    short_pr (rq s') = short_pr (rq s) \<and> curr (rq s') = curr (rq s) \<and> pidhash s' = pidhash s \<and>
    jiffies s' = jiffies s"
proof -
  let ?t = "(tasks s p)\<lparr>array := None\<rparr>"
  define s' where "s' = upd_task p (\<lambda>t. t\<lparr>array := None\<rparr>) (dequeue_task p a
    (upd_rq (\<lambda>r. r\<lparr>nr_running := nr_running r - 1,
                  nr_uninterruptible := (if state (tasks s p) = TASK_UNINTERRUPTIBLE
                    then nr_uninterruptible r + 1 else nr_uninterruptible r)\<rparr>) s))"
  have pd: "p \<in> dom (tloc s)" using a by (simp add: dom_tloc)
  then have pos: "0 < card (dom (tloc s))" using dom_placed [OF wf] card_gt_0_iff by blast
  have ok: "rq_ok ((tloc s)(p := tplace ?t)) (rq s')"
    using dequeue_ok [OF wf a] by (simp add: s'_def)
  have nr: "nr_running (rq s') = of_nat (card (dom ((tloc s)(p := tplace ?t))))"
    using queues_wfD(3) [OF wf] pd pos dom_placed [OF wf]
    by (simp add: s'_def nr_ok_def of_nat_diff)
  have t: "task_wf A ?t" "place_wf (rq s) ?t"
    using queues_wfD(6) [OF wf place_range(4) [OF wf a]] by simp_all
  have "queues_wf A s'"
    by (rule queues_wf_update [OF wf _ _ _ _ _ _ _ ok nr _ _ place_range(4) [OF wf a] t])
       (simp_all add: s'_def)
  moreover have "deactivate_task p s = Inr s'"
    using a by (simp add: deactivate_task_def Let_def s'_def)
  ultimately show ?thesis by (simp add: s'_def)
qed


lemma MAX_TIMESLICE_range:
  "arch_ok A \<Longrightarrow> 1 \<le> MIN_TIMESLICE A \<and> MIN_TIMESLICE A \<le> MAX_TIMESLICE A \<and>
    30 \<le> MAX_TIMESLICE A \<and> MAX_TIMESLICE A \<le> HZ A"
  unfolding arch_ok_def MIN_TIMESLICE_def MAX_TIMESLICE_def by linarith

lemma TASK_TIMESLICE_range:
  assumes A: "arch_ok A" and t: "100 \<le> static_prio t" "static_prio t \<le> 139"
  shows "MIN_TIMESLICE A \<le> TASK_TIMESLICE A t \<and> TASK_TIMESLICE A t \<le> MAX_TIMESLICE A"
proof -
  define d where "d = MAX_TIMESLICE A - MIN_TIMESLICE A"
  define j where "j = 139 - static_prio t"
  have d: "0 \<le> d" using MAX_TIMESLICE_range [OF A] by (simp add: d_def)
  have j: "0 \<le> j" "j \<le> 39" using t by (simp_all add: j_def)
  have "0 \<le> d * j" "d * j \<le> d * 39" using d j by (simp_all add: mult_left_mono)
  then have "0 \<le> d * j div 39" "d * j div 39 \<le> d" by simp_all
  moreover have "TASK_TIMESLICE A t = MIN_TIMESLICE A + d * j div 39"
    using \<open>0 \<le> d * j\<close> by (simp add: TASK_TIMESLICE_def d_def j_def sdiv_nonneg)
  ultimately show ?thesis by (simp add: d_def)
qed

lemma HZ_word: "arch_ok A \<Longrightarrow> unat (of_int (HZ A) :: u32) = nat (HZ A)"
  unfolding arch_ok_def by (rule u32_of_int) auto

lemma slice_word:
  assumes A: "arch_ok A" and k: "1 \<le> k" "k \<le> HZ A"
  shows "(of_int k :: u32) \<noteq> 0 \<and> (of_int k :: u32) \<le> of_int (HZ A)"
proof -
  have k32: "0 \<le> k" "k < 2 ^ 32" using A k by (simp_all add: arch_ok_def)
  have "unat (of_int k :: u32) = nat k" by (rule u32_of_int [OF k32])
  moreover have "nat k \<le> nat (HZ A)" "nat k \<noteq> 0" using k by simp_all
  ultimately show ?thesis
    using HZ_word [OF A] unat_eq_0 [of "of_int k :: u32"] by (auto simp: word_le_nat_alt)
qed

lemma refill_slice:
  assumes "arch_ok A" "100 \<le> static_prio t" "static_prio t \<le> 139"
  shows "(of_int (TASK_TIMESLICE A t) :: u32) \<noteq> 0 \<and> (of_int (TASK_TIMESLICE A t) :: u32) \<le> of_int (HZ A)"
  using TASK_TIMESLICE_range [OF assms] MAX_TIMESLICE_range [OF assms(1)]
  by (intro slice_word [OF assms(1)]) auto

lemma effective_prio_range:
  "policy t \<noteq> SCHED_SHORT \<Longrightarrow> 100 \<le> effective_prio A t \<and> effective_prio A t \<le> 139"
  by (simp add: effective_prio_def Let_def)

lemma sleep_bonus_wf:
  assumes "task_wf A t" "policy t \<noteq> SCHED_SHORT" "\<not> rt_task t"
  shows "task_wf A (sleep_bonus A w t)"
  using assms effective_prio_range [of "t\<lparr>sleep_avg := v\<rparr>" A for v]
  by (auto simp: task_wf_def sleep_bonus_def Let_def rt_task_def)

lemma sleep_bonus_fields [simp]:
  "policy (sleep_bonus A w t) = policy t" "array (sleep_bonus A w t) = array t"
  "state (sleep_bonus A w t) = state t" "mm (sleep_bonus A w t) = mm t"
  "active_mm (sleep_bonus A w t) = active_mm t" "static_prio (sleep_bonus A w t) = static_prio t"
  "short_prio (sleep_bonus A w t) = short_prio t" "tpid (sleep_bonus A w t) = tpid t"
  "need_resched (sleep_bonus A w t) = need_resched t"
  by (simp_all add: sleep_bonus_def Let_def)

text \<open>The task as \<open>activate_task\<close> puts it on the queue, and the queue it goes to.\<close>

definition activated :: "arch \<Rightarrow> sched \<Rightarrow> task \<Rightarrow> task" where
  "activated A s t = (if \<not> rt_task t \<and> jiffies s - sleep_timestamp t \<noteq> 0 \<and> policy t \<noteq> SCHED_SHORT
                      then sleep_bonus A (jiffies s - sleep_timestamp t) t else t)"

definition class_array :: "runqueue \<Rightarrow> task \<Rightarrow> nat" where
  "class_array r t = (if policy t = SCHED_SHORT then short_pr r else active r)"

lemma activate_task_eq:
  "activate_task A p s = upd_rq (\<lambda>r. r\<lparr>nr_running := nr_running r + 1\<rparr>)
     (enqueue_task p (class_array (rq s) (tasks s p)) (upd_task p (activated A s) s))"
  by (simp add: activate_task_def activated_def class_array_def Let_def upd_task_def)

lemma activated_fields [simp]:
  "policy (activated A s t) = policy t" "array (activated A s t) = array t"
  "state (activated A s t) = state t" "mm (activated A s t) = mm t"
  "active_mm (activated A s t) = active_mm t" "static_prio (activated A s t) = static_prio t"
  "short_prio (activated A s t) = short_prio t" "tpid (activated A s t) = tpid t"
  "need_resched (activated A s t) = need_resched t"
  by (simp_all add: activated_def)

lemma activated_wf: "task_wf A t \<Longrightarrow> task_wf A (activated A s t)"
  by (simp add: activated_def sleep_bonus_wf)

lemma class_array_lt: "arrays_ok r \<Longrightarrow> class_array r t < 3"
  by (simp add: class_array_def arrays_ok_def)

lemma class_array_place_wf:
  "arrays_ok r \<Longrightarrow> policy t = policy u \<Longrightarrow> place_wf r (t\<lparr>array := Some (class_array r u)\<rparr>)"
  by (auto simp: place_wf_def class_array_def arrays_ok_def rt_task_def)

lemma activate_task_sel:
  "tasks (activate_task A p s) =
     (tasks s)(p := (activated A s (tasks s p))\<lparr>array := Some (class_array (rq s) (tasks s p))\<rparr>)"
  "current (activate_task A p s) = current s" "jiffies (activate_task A p s) = jiffies s"
  "idle (rq (activate_task A p s)) = idle (rq s)" "curr (rq (activate_task A p s)) = curr (rq s)"
  "active (rq (activate_task A p s)) = active (rq s)"
  "expired (rq (activate_task A p s)) = expired (rq s)"
  "short_pr (rq (activate_task A p s)) = short_pr (rq s)"
  "pidhash (activate_task A p s) = pidhash s"
  by (simp_all add: activate_task_eq)

lemma activate_task_wf:
  assumes wf: "queues_wf A s" and off: "array (tasks s p) = None" and p: "p \<noteq> idle (rq s)" "p < TID_MAX"
  shows "queues_wf A (activate_task A p s)"
proof -
  let ?a = "class_array (rq s) (tasks s p)"
  let ?t = "(activated A s (tasks s p))\<lparr>array := Some ?a\<rparr>"
  have t: "task_wf A ?t" "place_wf (rq s) ?t"
    using queues_wfD(6) [OF wf p(1)] class_array_place_wf [OF queues_wfD(1) [OF wf]]
    by (simp_all add: activated_wf)
  have k: "qkey (activated A s (tasks s p)) < 140"
    using queues_wfD(6) [OF wf p(1)] by (intro qkey_range [of A] activated_wf)
  have pd: "tloc s p = None" using off by (simp add: tloc_def tplace_def)
  have ok: "rq_ok ((tloc s)(p := tplace ?t)) (rq (activate_task A p s))"
    using pq.enq_ok [OF queues_wfD(2) [OF wf] pd class_array_lt [OF queues_wfD(1) [OF wf]] k p(2)]
    by (simp add: activate_task_eq)
  have nr: "nr_running (rq (activate_task A p s)) = of_nat (card (dom ((tloc s)(p := tplace ?t))))"
    using queues_wfD(3) [OF wf] dom_placed [OF wf] pd
    by (simp add: activate_task_eq nr_ok_def domIff)
  show ?thesis
    by (rule queues_wf_update [OF wf _ _ _ _ _ _ _ ok nr _ _ p(1) t]) (simp_all add: activate_task_sel)
qed

lemma activate_task_sched_wf:
  "sched_wf A s \<Longrightarrow> array (tasks s p) = None \<Longrightarrow> p \<noteq> idle (rq s) \<Longrightarrow> p < TID_MAX \<Longrightarrow>
   sched_wf A (activate_task A p s)"
  by (auto simp: sched_wf_def activate_task_wf activate_task_sel)


subsection \<open>Waking\<close>

lemma sched_wf_upd_queues:
  assumes "sched_wf A s" "queues_wf A s'" "current s' = current s" "idle (rq s') = idle (rq s)"
    "array (tasks s' (current s)) = None \<Longrightarrow> array (tasks s (current s)) = None"
  shows "sched_wf A s'"
  using assms by (auto simp: sched_wf_def)

lemma upd_rq_uninterruptible_wf:
  "queues_wf A s \<Longrightarrow> queues_wf A (upd_rq (\<lambda>r. r\<lparr>nr_uninterruptible := u r\<rparr>) s)"
  by (simp add: queues_wf_def nr_ok_def mm_wf_def idle_wf_def arrays_ok_def place_wf_def hash_wf_def
      tloc_same_tasks [of "upd_rq _ s" s])

lemma upd_cpu_wf: "queues_wf A s \<Longrightarrow> queues_wf A (upd_task p (\<lambda>t. t\<lparr>cpu := c\<rparr>) s)"
  by (rule queues_wf_upd_task) simp_all

lemma try_to_wake_up_wf:
  assumes wf: "sched_wf A s" and p: "p \<noteq> idle (rq s)" "p < TID_MAX"
  shows "sched_wf A (fst (try_to_wake_up A p sync s))"
proof (cases "array (tasks s p)")
  case (Some a)
  have "queues_wf A (upd_task p (\<lambda>t. t\<lparr>state := TASK_RUNNING\<rparr>) s)"
    using sched_wfD(1) [OF wf] by (rule set_state_wf) simp
  with Some show ?thesis
    by (simp add: try_to_wake_up_def) (rule sched_wf_upd_queues [OF wf], auto split: if_splits)
next
  case None
  define s1 where "s1 = (if sync \<and> curr (rq s) \<noteq> p \<and> cpu (tasks s p) \<noteq> 0 \<and> cpus_allowed (tasks s p) AND 1 \<noteq> 0
                     then upd_task p (\<lambda>t. t\<lparr>cpu := 0\<rparr>) s else s)"
  define s2 where "s2 = (if state (tasks s p) = TASK_UNINTERRUPTIBLE
                     then upd_rq (\<lambda>r. r\<lparr>nr_uninterruptible := nr_uninterruptible r - 1\<rparr>) s1 else s1)"
  have q2: "queues_wf A s2"
    using sched_wfD(1) [OF wf] by (simp add: s1_def s2_def upd_cpu_wf upd_rq_uninterruptible_wf)
  have w2: "sched_wf A s2"
    by (rule sched_wf_upd_queues [OF wf q2]) (auto simp: s1_def s2_def split: if_splits)
  define s3 where "s3 = activate_task A p s2"
  have w3: "sched_wf A s3"
    unfolding s3_def using w2 None p
    by (intro activate_task_sched_wf) (auto simp: s1_def s2_def)
  define s4 where "s4 = (if wake_preempts (tasks s3 p) (tasks s3 (curr (rq s3)))
                     then resched_task (curr (rq s3)) s3 else s3)"
  have q4: "queues_wf A s4"
    using sched_wfD(1) [OF w3] by (simp add: s4_def resched_task_def set_tsk_need_resched_def set_need_resched_wf)
  have q5: "queues_wf A (upd_task p (\<lambda>t. t\<lparr>state := TASK_RUNNING\<rparr>) s4)"
    by (rule set_state_wf [OF q4]) simp
  have "sched_wf A (upd_task p (\<lambda>t. t\<lparr>state := TASK_RUNNING\<rparr>) s4)"
    by (rule sched_wf_upd_queues [OF w3 q5])
       (auto simp: s4_def resched_task_def set_tsk_need_resched_def split: if_splits)
  moreover have "fst (try_to_wake_up A p sync s) = upd_task p (\<lambda>t. t\<lparr>state := TASK_RUNNING\<rparr>) s4"
    using None by (simp add: try_to_wake_up_def Let_def s1_def s2_def s3_def s4_def)
  ultimately show ?thesis by simp
qed

text \<open>The sleep averages only shrink when processes fork or exit.\<close>

lemma arch_sleep_avg:
  "arch_ok A \<Longrightarrow> unat (of_int (MAX_SLEEP_AVG A) :: u32) = nat (2 * HZ A)"
  unfolding MAX_SLEEP_AVG_def arch_ok_def by (rule u32_of_int) auto

lemma word_div_scale:
  fixes w c d :: u32
  assumes "unat w * unat c < 2 ^ 32" "c \<le> d" "d \<noteq> 0"
  shows "w * c div d \<le> w"
proof -
  have "unat (w * c div d) = unat w * unat c div unat d"
    using assms(1) by (simp add: unat_div_distrib unat_word_ariths)
  also have "\<dots> \<le> unat w * unat d div unat d"
    using assms(2) by (intro div_le_mono mult_le_mono2) (simp add: word_le_nat_alt)
  also have "\<dots> = unat w" using assms(3) by (simp add: unat_eq_0)
  finally show ?thesis by (simp add: word_le_nat_alt)
qed

lemma sleep_avg_scale:
  assumes A: "arch_ok A" and w: "w \<le> of_int (MAX_SLEEP_AVG A)" and c: "c = 95 \<or> c = 100"
  shows "w * c div 100 \<le> (of_int (MAX_SLEEP_AVG A) :: u32)"
proof -
  have "unat w \<le> nat (2 * HZ A)"
    using w arch_sleep_avg [OF A] by (simp add: word_le_nat_alt)
  moreover have "nat (2 * HZ A) \<le> 2048" using A by (simp add: arch_ok_def nat_le_iff)
  ultimately have "unat w \<le> 2048" by linarith
  then have "w * c div 100 \<le> w"
    using c by (intro word_div_scale) auto
  with w show ?thesis by simp
qed

lemma wake_up_forked_process_wf:
  assumes A: "arch_ok A" and wf: "sched_wf A s" and off: "array (tasks s p) = None"
    and p: "p \<noteq> idle (rq s)" "p < TID_MAX" and c: "current s \<noteq> idle (rq s)"
  shows "sched_wf A (wake_up_forked_process A p s)"
proof -
  define s1 where "s1 = upd_task p (\<lambda>t. t\<lparr>state := TASK_RUNNING\<rparr>) s"
  define s2a where "s2a = upd_task (current s1) (\<lambda>t. t\<lparr>sleep_avg := sleep_avg t * PARENT_PENALTY div 100\<rparr>) s1"
  define f where "f = (\<lambda>t. let t1 = t\<lparr>sleep_avg := sleep_avg t * CHILD_PENALTY div 100\<rparr>
                                        in t1\<lparr>prio := effective_prio A t1\<rparr>)"
  define s2 where "s2 = (if \<not> rt_task (tasks s1 p) then upd_task p f s2a else s1)"
  define s3 where "s3 = upd_task p (\<lambda>t. t\<lparr>cpu := 0\<rparr>) s2"
  have q1: "queues_wf A s1"
    unfolding s1_def by (rule set_state_wf [OF sched_wfD(1) [OF wf]]) simp
  have q2a: "queues_wf A s2a"
    unfolding s2a_def
    by (rule queues_wf_upd_task [OF q1])
       (use c in \<open>auto simp: s1_def task_wf_def PARENT_PENALTY_def intro: sleep_avg_scale [OF A]\<close>)
  have q2: "queues_wf A (upd_task p f s2a)" if "\<not> rt_task (tasks s1 p)"
  proof -
    have pc: "p \<noteq> current s" using off sched_wfD(2) [OF wf c] by auto
    let ?t = "tasks s2a p"
    have t: "task_wf A ?t" using queues_wfD(6) [OF q2a, of p] p by (simp add: s2a_def s1_def)
    have "\<not> rt_task ?t" using that pc by (simp add: s2a_def s1_def)
    with t have "task_wf A (f ?t)"
      using effective_prio_range [of "?t\<lparr>sleep_avg := sleep_avg ?t * CHILD_PENALTY div 100\<rparr>" A]
        sleep_avg_scale [OF A, of "sleep_avg ?t" 95]
      by (auto simp: task_wf_def rt_task_def f_def Let_def CHILD_PENALTY_def)
    moreover have "array ?t = None" using off pc by (simp add: s2a_def s1_def)
    moreover have "p \<noteq> idle (rq s2a)" using p by (simp add: s2a_def s1_def)
    ultimately show ?thesis
      by (intro queues_wf_upd_task [OF q2a]) (auto simp: f_def Let_def tplace_def place_wf_def)
  qed
  have q3: "queues_wf A s3"
    unfolding s3_def using q1 q2 by (intro upd_cpu_wf) (simp add: s2_def)
  have w3: "sched_wf A s3"
    by (rule sched_wf_upd_queues [OF wf q3])
       (auto simp: s3_def s2_def s2a_def s1_def f_def Let_def split: if_splits)
  have "sched_wf A (activate_task A p s3)"
    by (rule activate_task_sched_wf [OF w3])
       (use off p in \<open>auto simp: s3_def s2_def s2a_def s1_def f_def Let_def split: if_splits\<close>)
  then show ?thesis
    by (simp only: wake_up_forked_process_def Let_def s1_def s2_def s2a_def s3_def f_def)
qed


lemma word_avg3:
  fixes a b :: u32
  assumes "unat a \<le> 2048" "b < a"
  shows "(a * 3 + b) div 4 \<le> a"
proof -
  have b: "unat b < unat a" using assms(2) by (simp add: word_less_nat_alt)
  have "unat (a * 3 + b) = unat a * 3 + unat b"
    using assms(1) b by (simp add: unat_word_ariths)
  then have "unat ((a * 3 + b) div 4) = (unat a * 3 + unat b) div 4"
    by (simp add: unat_div_distrib)
  also have "\<dots> \<le> unat a" using b by linarith
  finally show ?thesis by (simp add: word_le_nat_alt)
qed

lemma exit_slice:
  fixes a b :: u32
  assumes A: "arch_ok A" and a: "a \<noteq> 0" "a \<le> of_int (HZ A)" and b: "b \<le> of_int (HZ A)"
  shows "(if a + b > of_int (MAX_TIMESLICE A) then of_int (MAX_TIMESLICE A) else a + b) \<noteq> 0 \<and>
    (if a + b > of_int (MAX_TIMESLICE A) then of_int (MAX_TIMESLICE A) else a + b) \<le> of_int (HZ A)"
proof -
  have m: "(of_int (MAX_TIMESLICE A) :: u32) \<noteq> 0 \<and> (of_int (MAX_TIMESLICE A) :: u32) \<le> of_int (HZ A)"
    using MAX_TIMESLICE_range [OF A] by (intro slice_word [OF A]) auto
  have "nat (HZ A) \<le> 1024" using A by (simp add: arch_ok_def nat_le_iff)
  then have "unat a \<le> 1024" "unat b \<le> 1024"
    using a(2) b HZ_word [OF A] by (simp_all only: word_le_nat_alt)
  then have "unat (a + b) = unat a + unat b" by (simp add: unat_word_ariths)
  then have "a + b \<noteq> 0" using a(1) by (metis add_is_0 unat_0 unat_eq_0)
  with m show ?thesis by (auto intro: order.trans)
qed

lemma sched_exit_wf:
  assumes A: "arch_ok A" and wf: "sched_wf A s" and p: "p \<noteq> idle (rq s)"
  shows "sched_wf A (sched_exit A p s)"
proof -
  define s1 where "s1 = (if first_time_slice (tasks s p) \<noteq> 0 \<and> policy (tasks s p) \<noteq> SCHED_SHORT
                then upd_task (current s) (\<lambda>t. let ts = time_slice t + time_slice (tasks s p)
                       in t\<lparr>time_slice := if ts > of_int (MAX_TIMESLICE A) then of_int (MAX_TIMESLICE A) else ts\<rparr>) s
                else s)"
  have q1: "queues_wf A s1"
  proof -
    define g where "g = (\<lambda>t. let ts = time_slice t + time_slice (tasks s p)
                       in (t :: task)\<lparr>time_slice := if ts > of_int (MAX_TIMESLICE A) then of_int (MAX_TIMESLICE A) else ts\<rparr>)"
    have "queues_wf A (upd_task (current s) g s)"
      if p: "p \<noteq> idle (rq s)"
    proof (rule queues_wf_upd_task [OF sched_wfD(1) [OF wf]])
      assume t: "task_wf A (tasks s (current s))"
      then show "task_wf A (g (tasks s (current s)))"
        using exit_slice [OF A, of "time_slice (tasks s (current s))" "time_slice (tasks s p)"]
          queues_wfD(6) [OF sched_wfD(1) [OF wf] p]
        by (auto simp: task_wf_def g_def Let_def)
    qed (simp_all add: g_def Let_def)
    then show ?thesis using p sched_wfD(1) [OF wf] by (simp add: s1_def g_def)
  qed
  define f where "f = (\<lambda>t :: task. t\<lparr>sleep_avg :=
                (sleep_avg t * EXIT_WEIGHT + sleep_avg (tasks s1 p)) div (EXIT_WEIGHT + 1)\<rparr>)"
  have q2: "queues_wf A (upd_task (current s) f s1)" if lt: "sleep_avg (tasks s1 p) < sleep_avg (tasks s1 (current s))"
  proof (rule queues_wf_upd_task [OF q1])
    let ?t = "tasks s1 (current s)"
    assume t: "task_wf A ?t"
    then have le: "sleep_avg ?t \<le> of_int (MAX_SLEEP_AVG A)" by (simp add: task_wf_def)
    then have "unat (sleep_avg ?t) \<le> nat (2 * HZ A)"
      using arch_sleep_avg [OF A] by (simp add: word_le_nat_alt)
    moreover have "nat (2 * HZ A) \<le> 2048" using A by (simp add: arch_ok_def nat_le_iff)
    ultimately have "sleep_avg (f ?t) \<le> sleep_avg ?t"
      using word_avg3 [OF _ lt] by (simp add: f_def EXIT_WEIGHT_def)
    with le t show "task_wf A (f ?t)" by (auto simp: task_wf_def f_def)
  qed (simp_all add: f_def)
  have eq: "sched_exit A p s =
      (if sleep_avg (tasks s1 p) < sleep_avg (tasks s1 (current s)) then upd_task (current s) f s1 else s1)"
    by (simp only: sched_exit_def Let_def s1_def f_def)
  have "queues_wf A (sched_exit A p s)" using q1 q2 by (simp add: eq)
  then show ?thesis
    by (rule sched_wf_upd_queues [OF wf]) (auto simp: eq s1_def f_def Let_def split: if_splits)
qed

subsection \<open>The timer tick\<close>

lemma requeue_wf:
  assumes wf: "queues_wf A s" and a: "array (tasks s p) = Some a"
    and tasks: "tasks s' = (tasks s)(p := t'\<lparr>array := Some b\<rparr>)"
    and rq: "rq s' = (rq_enqueue p (qkey t') b (rq_dequeue p (qkey (tasks s p)) a (rq s)))
              \<lparr>expired_timestamp := e\<rparr>"
    and cur: "current s' = current s" and hash: "pidhash s' = pidhash s"
    and t: "task_wf A t'" "b < 3" "place_wf (rq s) (t'\<lparr>array := Some b\<rparr>)"
    and mm: "mm t' = mm (tasks s p)" "active_mm t' = active_mm (tasks s p)"
  shows "queues_wf A s'"
proof -
  note r = place_range [OF wf a]
  have p: "tloc s p = Some (a, qkey (tasks s p))" using a by (simp add: tloc_def tplace_def)
  have ok: "rq_ok ((tloc s)(p := tplace (t'\<lparr>array := Some b\<rparr>))) (rq s')"
    using pq.move_ok [OF queues_wfD(2) [OF wf] p t(2) qkey_range [OF t(1)] r(3)]
    by (simp add: rq)
  have nr: "nr_running (rq s') = of_nat (card (dom ((tloc s)(p := tplace (t'\<lparr>array := Some b\<rparr>)))))"
    using queues_wfD(3) [OF wf] p card_requeue [of "tloc s" p "(b, qkey t')"]
    by (simp add: rq nr_ok_def)
  show ?thesis
    by (rule queues_wf_update [OF wf tasks cur _ _ _ _ _ ok nr _ _ r(4)])
       (simp_all add: rq mm t hash)
qed

lemma expired_timestamp_same [simp]: "r\<lparr>expired_timestamp := expired_timestamp r\<rparr> = r"
  by simp

lemma tick_refill_fields [simp]:
  "policy (tick_refill A t) = policy t" "array (tick_refill A t) = array t"
  "mm (tick_refill A t) = mm t" "active_mm (tick_refill A t) = active_mm t"
  "static_prio (tick_refill A t) = static_prio t" "prio (tick_refill A t) = effective_prio A t"
  "sleep_avg (tick_refill A t) = sleep_avg t" "state (tick_refill A t) = state t"
  "need_resched (tick_refill A t) = need_resched t" "first_time_slice (tick_refill A t) = 0"
  "short_prio (tick_refill A t) = short_prio t" "time_left (tick_refill A t) = time_left t"
  by (simp_all add: tick_refill_def Let_def)

lemma tick_refill_wf:
  "arch_ok A \<Longrightarrow> 100 \<le> static_prio t \<Longrightarrow> static_prio t \<le> 139 \<Longrightarrow> sleep_avg t \<le> of_int (MAX_SLEEP_AVG A) \<Longrightarrow>
   policy t = SCHED_OTHER \<Longrightarrow> task_wf A (tick_refill A t)"
  using effective_prio_range [of t A] refill_slice [of A "t\<lparr>prio := effective_prio A t\<rparr>"]
  by (simp add: task_wf_def tick_refill_def Let_def)

lemma task_wf_common:
  assumes "task_wf A t"
  shows "100 \<le> static_prio t" "static_prio t \<le> 139" "sleep_avg t \<le> of_int (MAX_SLEEP_AVG A)"
    "time_slice t \<noteq> 0" "time_slice t \<le> of_int (HZ A)"
  using assms by (auto simp: task_wf_def)

lemma dec_sleep_avg:
  fixes w m :: u32
  shows "w \<le> m \<Longrightarrow> w \<noteq> 0 \<Longrightarrow> w - 1 \<le> m"
  by (simp add: word_le_nat_alt unat_minus_one)

lemma tick_rt_wf:
  assumes A: "arch_ok A" and wf: "queues_wf A s" and p: "array (tasks s p) = Some (active (rq s))"
  shows "queues_wf A (tick_rt A p s)"
proof (cases "policy (tasks s p) = SCHED_RR")
  case True
  define t' where "t' = (tasks s p)\<lparr>time_slice := of_int (TASK_TIMESLICE A ((tasks s p)\<lparr>time_slice := time_slice (tasks s p) - 1\<rparr>)),
    first_time_slice := 0, need_resched := True\<rparr>"
  note nid = place_range(4) [OF wf p]
  have q1: "queues_wf A (upd_task p (\<lambda>t. t\<lparr>time_slice := time_slice t - 1\<rparr>) s)"
    if "time_slice (tasks s p) - 1 \<noteq> 0"
    by (rule queues_wf_upd_task [OF wf]) (use that in \<open>auto simp: task_wf_def intro: dec_sleep_avg\<close>)
  have tw: "task_wf A t'"
    using queues_wfD(6) [OF wf nid] task_wf_common [OF queues_wfD(6) [OF wf nid]]
      refill_slice [OF A, of "(tasks s p)\<lparr>time_slice := time_slice (tasks s p) - 1\<rparr>"]
    by (auto simp: t'_def task_wf_def)
  have "queues_wf A (tick_rt A p s)" if z: "time_slice (tasks s p) = 1"
    by (rule requeue_wf [OF wf p, where t' = t' and b = "active (rq s)"])
       (use True z p tw queues_wfD(1) [OF wf] queues_wfD(7) [OF wf nid] in
         \<open>auto simp: tick_rt_def t'_def set_tsk_need_resched_def qkey_def arrays_ok_def
            place_wf_def rt_task_def Let_def intro: expired_timestamp_same [symmetric]\<close>)
  then show ?thesis using True q1 by (auto simp: tick_rt_def Let_def)
next
  case False
  then show ?thesis using wf by (simp add: tick_rt_def)
qed


lemma active_place_wf: "arrays_ok r \<Longrightarrow> policy t \<noteq> SCHED_SHORT \<Longrightarrow> place_wf r (t\<lparr>array := Some (active r)\<rparr>)"
  by (auto simp: place_wf_def arrays_ok_def)

lemma expired_place_wf:
  "arrays_ok r \<Longrightarrow> policy t \<noteq> SCHED_SHORT \<Longrightarrow> 100 \<le> prio t \<Longrightarrow> place_wf r (t\<lparr>array := Some (expired r)\<rparr>)"
  by (auto simp: place_wf_def arrays_ok_def rt_task_def)

lemma tick_other_wf:
  assumes A: "arch_ok A" and wf: "queues_wf A s" and a: "array (tasks s p) = Some (active (rq s))"
    and pol: "policy (tasks s p) = SCHED_OTHER"
  shows "queues_wf A (tick_other A p s)"
proof -
  let ?f = "\<lambda>t. t\<lparr>sleep_avg := if sleep_avg t \<noteq> 0 then sleep_avg t - 1 else sleep_avg t,
                               time_slice := time_slice t - 1\<rparr>"
  define s1 where "s1 = upd_task p ?f s"
  note nid = place_range(4) [OF wf a]
  note tw = queues_wfD(6) [OF wf nid]
  have q1: "queues_wf A s1" if "time_slice (tasks s p) - 1 \<noteq> 0"
    unfolding s1_def
    by (rule queues_wf_upd_task [OF wf]) (use that in \<open>auto simp: task_wf_def intro: dec_sleep_avg\<close>)
  define t' where "t' = tick_refill A ((?f (tasks s p))\<lparr>need_resched := True\<rparr>)"
  define s2 where "s2 = upd_task p (tick_refill A) (set_tsk_need_resched p (dequeue_task p (active (rq s)) s1))"
  define s3 where "s3 = (if expired_timestamp (rq s2) = 0
                                then upd_rq (\<lambda>r. r\<lparr>expired_timestamp := jiffies s2\<rparr>) s2 else s2)"
  have t: "task_wf A t'" unfolding t'_def
    using task_wf_common [OF tw] pol by (intro tick_refill_wf [OF A]) (auto intro: dec_sleep_avg)
  have ok: "arrays_ok (rq s)" by (rule queues_wfD(1) [OF wf])
  have eq: "tick_other A p s =
     (if time_slice (tasks s1 p) = 0
      then if \<not> TASK_INTERACTIVE (tasks s2 p) \<or> EXPIRED_STARVING A (jiffies s2) (rq s2)
           then enqueue_task p (expired (rq s)) s3 else enqueue_task p (active (rq s)) s2
      else s1)"
    by (simp only: tick_other_def Let_def s1_def s2_def s3_def)
  have e2: "tasks s2 = (tasks s)(p := t')" "pidhash s2 = pidhash s"
    "rq s2 = rq_dequeue p (qkey (tasks s p)) (active (rq s)) (rq s)" "current s2 = current s"
    by (simp_all add: s2_def s1_def set_tsk_need_resched_def t'_def qkey_def)
  have e3: "tasks s3 = (tasks s)(p := t')" "current s3 = current s" "pidhash s3 = pidhash s"
    by (simp_all add: s3_def e2)
  have e3r: "rq s3 = (rq_dequeue p (qkey (tasks s p)) (active (rq s)) (rq s))
      \<lparr>expired_timestamp := (if expired_timestamp (rq s) = 0 then jiffies s2 else expired_timestamp (rq s))\<rparr>"
    by (simp add: s3_def e2)
  have lt: "expired (rq s) < 3" "active (rq s) < 3" using ok by (simp_all add: arrays_ok_def)
  have mm: "mm t' = mm (tasks s p)" "active_mm t' = active_mm (tasks s p)" by (simp_all add: t'_def)
  have pr: "policy t' = SCHED_OTHER" "100 \<le> prio t'"
    using t pol by (auto simp: task_wf_def t'_def)
  note pe = expired_place_wf [OF ok, of t'] and pa = active_place_wf [OF ok, of t']
  have "queues_wf A (enqueue_task p (expired (rq s)) s3)"
    by (rule requeue_wf [OF wf a _ _ _ _ t lt(1) _ mm]) (use pe pr in \<open>simp_all add: e3 e3r\<close>)
  moreover have "queues_wf A (enqueue_task p (active (rq s)) s2)"
    by (rule requeue_wf [OF wf a _ _ _ _ t lt(2) _ mm, where e = "expired_timestamp (rq s)"])
       (use pa pr in \<open>simp_all add: e2\<close>)
  ultimately show ?thesis using q1 by (auto simp: eq s1_def)
qed

lemma short_expire_fields [simp]:
  "policy (short_expire A t) = SCHED_OTHER" "mm (short_expire A t) = mm t"
  "active_mm (short_expire A t) = active_mm t" "need_resched (short_expire A t)"
  "first_time_slice (short_expire A t) = 0"
  by (simp_all add: short_expire_def Let_def)

lemma short_expire_wf:
  assumes A: "arch_ok A" and t: "100 \<le> static_prio t" "static_prio t \<le> 139"
  shows "task_wf A (short_expire A t)"
proof -
  have "nat (HZ A) \<le> nat (2 * HZ A)" using A by (simp add: arch_ok_def)
  then have "of_int (HZ A) \<le> (of_int (2 * HZ A) :: u32)"
    using A by (simp only: word_le_nat_alt) (simp add: u32_of_int arch_ok_def del: of_int_mult)
  then show ?thesis
    unfolding short_expire_def Let_def
    by (intro tick_refill_wf)
       (use A t in \<open>auto simp: MAX_SLEEP_AVG_def simp del: of_int_mult\<close>)
qed


lemma tick_short_wf:
  assumes A: "arch_ok A" and wf: "queues_wf A s" and a: "array (tasks s p) = Some (short_pr (rq s))"
    and pol: "policy (tasks s p) = SCHED_SHORT"
  shows "queues_wf A (tick_short A p s)"
proof -
  let ?f = "\<lambda>t. t\<lparr>time_left := time_left t - 1\<rparr>"
  note nid = place_range(4) [OF wf a]
  note tw = queues_wfD(6) [OF wf nid]
  have pw: "place_wf (rq s) (tasks s p)" by (rule queues_wfD(7) [OF wf nid])
  define t' where "t' = short_expire A (?f (tasks s p))"
  have t: "task_wf A t'"
    unfolding t'_def using task_wf_common [OF tw] by (intro short_expire_wf [OF A]) simp_all
  have ok: "arrays_ok (rq s)" by (rule queues_wfD(1) [OF wf])
  have "queues_wf A (enqueue_task p (active (rq s))
                (upd_task p (short_expire A) (dequeue_task p (short_pr (rq s)) (upd_task p ?f s))))"
    by (rule requeue_wf [OF wf a, where t' = t' and b = "active (rq s)" and e = "expired_timestamp (rq s)"])
       (use t active_place_wf [OF ok, of t'] ok in \<open>simp_all add: t'_def qkey_def arrays_ok_def\<close>)
  moreover have "queues_wf A (upd_task p ?f s)" if "time_left (tasks s p) - 1 \<noteq> 0"
    by (rule queues_wf_upd_task [OF wf]) (use that in \<open>auto simp: task_wf_def\<close>)
  ultimately show ?thesis by (simp add: tick_short_def Let_def)
qed

lemma tick_current:
  "current (tick_rt A p s) = current s" "idle (rq (tick_rt A p s)) = idle (rq s)"
  "array (tasks (tick_rt A p s) q) = None \<Longrightarrow> array (tasks s q) = None"
  "current (tick_other A p s) = current s" "idle (rq (tick_other A p s)) = idle (rq s)"
  "array (tasks (tick_other A p s) q) = None \<Longrightarrow> array (tasks s q) = None"
  "current (tick_short A p s) = current s" "idle (rq (tick_short A p s)) = idle (rq s)"
  "array (tasks (tick_short A p s) q) = None \<Longrightarrow> array (tasks s q) = None"
  by (auto simp: tick_rt_def tick_other_def tick_short_def set_tsk_need_resched_def Let_def
      split: if_splits)

lemma scheduler_tick_wf:
  assumes A: "arch_ok A" and wf: "sched_wf A s"
  shows "sched_wf A (scheduler_tick A bh user system s)"
proof (cases "current s = idle (rq s)")
  case True
  have "queues_wf A (s\<lparr>kstat_system := kstat_system s + system\<rparr>)"
    by (rule queues_wf_cong [OF sched_wfD(1) [OF wf]]) simp_all
  with True wf show ?thesis by (auto simp: scheduler_tick_def sched_wf_def)
next
  case False
  define s2 where "s2 = (let s1 = (if TASK_NICE (tasks s (current s)) > 0 then s\<lparr>kstat_nice := kstat_nice s + user\<rparr>
                     else s\<lparr>kstat_user := kstat_user s + user\<rparr>) in s1\<lparr>kstat_system := kstat_system s1 + system\<rparr>)"
  have s2: "tasks s2 = tasks s" "rq s2 = rq s" "current s2 = current s" "pidhash s2 = pidhash s" by (simp_all add: s2_def Let_def)
  have q2: "queues_wf A s2" by (rule queues_wf_cong [OF sched_wfD(1) [OF wf] s2])
  let ?p = "current s"
  note nid = False
  have pw: "place_wf (rq s) (tasks s ?p)" "task_wf A (tasks s ?p)"
    using queues_wfD(6,7) [OF sched_wfD(1) [OF wf] nid] by simp_all
  have eq: "scheduler_tick A bh user system s =
    (if array (tasks s2 ?p) \<noteq> Some (active (rq s2)) \<and> array (tasks s2 ?p) \<noteq> Some (short_pr (rq s2))
              then set_tsk_need_resched ?p s2
              else if rt_task (tasks s2 ?p) then tick_rt A ?p s2
              else if policy (tasks s2 ?p) = SCHED_SHORT then tick_short A ?p s2
              else tick_other A ?p s2)"
    using False by (simp add: scheduler_tick_def s2_def Let_def)
  have rt: "queues_wf A (tick_rt A ?p s2)" if "rt_task (tasks s ?p)"
    "array (tasks s ?p) = Some (active (rq s)) \<or> array (tasks s ?p) = Some (short_pr (rq s))"
    using that pw(1) by (intro tick_rt_wf A q2) (auto simp: s2 place_wf_def rt_task_def)
  have sh: "queues_wf A (tick_short A ?p s2)" if "policy (tasks s ?p) = SCHED_SHORT"
    "array (tasks s ?p) = Some (active (rq s)) \<or> array (tasks s ?p) = Some (short_pr (rq s))"
    using that pw(1) queues_wfD(1) [OF q2]
    by (intro tick_short_wf [OF A q2]) (auto simp: s2 place_wf_def arrays_ok_def)
  have ot: "queues_wf A (tick_other A ?p s2)" if "\<not> rt_task (tasks s ?p)" "policy (tasks s ?p) \<noteq> SCHED_SHORT"
    "array (tasks s ?p) = Some (active (rq s)) \<or> array (tasks s ?p) = Some (short_pr (rq s))"
    using that pw by (intro tick_other_wf A q2) (auto simp: s2 place_wf_def rt_task_def task_wf_def)
  have "queues_wf A (scheduler_tick A bh user system s)"
    using rt sh ot q2 by (auto simp: eq s2 set_tsk_need_resched_def set_need_resched_wf)
  moreover have "current (scheduler_tick A bh user system s) = current s"
    "idle (rq (scheduler_tick A bh user system s)) = idle (rq s)"
    by (simp_all add: eq tick_current(1,2,4,5,7,8) s2 set_tsk_need_resched_def)
  moreover have "array (tasks (scheduler_tick A bh user system s) ?p) \<noteq> None"
  proof -
    have n: "array (tasks s2 ?p) \<noteq> None" using sched_wfD(2) [OF wf False] by (simp add: s2)
    note m = tick_current(3,6,9) [of A ?p s2 ?p]
    have "array (tasks (tick_rt A ?p s2) ?p) \<noteq> None" "array (tasks (tick_other A ?p s2) ?p) \<noteq> None"
      "array (tasks (tick_short A ?p s2) ?p) \<noteq> None" using m n by blast+
    with n show ?thesis by (simp add: eq set_tsk_need_resched_def del: not_None_eq)
  qed
  ultimately show ?thesis by (intro sched_wf_upd_queues [OF wf]) simp_all
qed

end
