(* ===== verification/Sched_Pick.thy ===== *)
theory Sched_Pick
  imports Sched_Inv
begin

text \<open>
  HW2, what \<open>schedule\<close> does: the task it picks is the least one in the order of the classes (real-time
  tasks by priority, then SHORT tasks by \<open>short_prio\<close>, then ordinary tasks of the active array, then
  those of the expired one) and the first of its queue; a call of \<open>schedule\<close> on a well-formed state
  returns, without a fault and to a well-formed state; and the same for \<open>sched_yield\<close>.
\<close>

subsection \<open>The order of the classes\<close>

definition sched_rank :: "runqueue \<Rightarrow> task \<Rightarrow> nat" where
  "sched_rank r t =
     (if rt_task t then 0 else if policy t = SCHED_SHORT then 200
      else if array t = Some (active r) then 400 else 600) + qkey t"

definition head_of_queue :: "runqueue \<Rightarrow> task \<Rightarrow> tid \<Rightarrow> bool" where
  "head_of_queue r t p \<longleftrightarrow>
     (case array t of None \<Rightarrow> False
      | Some a \<Rightarrow> (case queue (arrays r a) (qkey t) of [] \<Rightarrow> False | q # qs \<Rightarrow> q = p))"

lemma class_cases:
  assumes "queues_wf A s" "array (tasks s q) = Some b"
  obtains (rt) "rt_task (tasks s q)" "b = active (rq s)" "qkey (tasks s q) < 100"
      "sched_rank (rq s) (tasks s q) = qkey (tasks s q)"
  | (short) "policy (tasks s q) = SCHED_SHORT" "b = short_pr (rq s)"
      "sched_rank (rq s) (tasks s q) = 200 + qkey (tasks s q)"
  | (active) "policy (tasks s q) = SCHED_OTHER" "b = active (rq s)" "100 \<le> qkey (tasks s q)"
      "sched_rank (rq s) (tasks s q) = 400 + qkey (tasks s q)"
  | (expired) "policy (tasks s q) = SCHED_OTHER" "b = expired (rq s)" "100 \<le> qkey (tasks s q)"
      "sched_rank (rq s) (tasks s q) = 600 + qkey (tasks s q)"
proof -
  note r = place_range [OF assms]
  note t = queues_wfD(6) [OF assms(1) r(4)]
  note pl = queues_wfD(7) [OF assms(1) r(4)]
  have "b = active (rq s) \<or> b = expired (rq s) \<or> b = short_pr (rq s)"
    using queues_wfD(1) [OF assms(1)] r(1) by (auto simp: arrays_ok_def)
  with that t pl assms(2) queues_wfD(1) [OF assms(1)] show ?thesis
    by (auto simp: task_wf_def place_wf_def rt_task_def qkey_def sched_rank_def arrays_ok_def le_nat_iff)
qed

subsection \<open>The first set bit\<close>

definition first_queue :: "arch \<Rightarrow> runqueue \<Rightarrow> nat \<Rightarrow> nat" where
  "first_queue A r a = sched_find_first_bit A (bitmap (arrays r a))"

lemma first_queue_facts:
  assumes A: "arch_ok A" and r: "bitmaps_ok r" "a < 3"
  shows "first_queue A r a \<le> 140"
    and "first_queue A r a < 140 \<Longrightarrow> queue (arrays r a) (first_queue A r a) \<noteq> []"
    and "k < 140 \<Longrightarrow> queue (arrays r a) k \<noteq> [] \<Longrightarrow> first_queue A r a \<le> k"
proof -
  have F: "b k \<Longrightarrow> b (sched_find_first_bit A b) \<and> sched_find_first_bit A b \<le> k" for b k
    using A unfolding arch_ok_def first_bit_ok_def by blast
  have d: "bitmap (arrays r a) 140" using r by (simp add: bitmaps_ok_def)
  from F [where b = "bitmap (arrays r a)", OF d] show "first_queue A r a \<le> 140" by (simp add: first_queue_def)
  from F [where b = "bitmap (arrays r a)", OF d]
  show "first_queue A r a < 140 \<Longrightarrow> queue (arrays r a) (first_queue A r a) \<noteq> []"
    using r by (auto simp: first_queue_def bitmaps_ok_def)
  assume "k < 140" "queue (arrays r a) k \<noteq> []"
  then have "bitmap (arrays r a) k" using r by (auto simp: bitmaps_ok_def)
  from F [where b = "bitmap (arrays r a)", OF this] show "first_queue A r a \<le> k" by (simp add: first_queue_def)
qed

lemma in_queue:
  assumes "queues_wf A s" "array (tasks s q) = Some b"
  shows "q \<in> set (queue (arrays (rq s) b) (qkey (tasks s q)))"
  using queues_wfD(2) [OF assms(1)] place_range [OF assms] assms(2)
  by (auto simp: rq_ok_def queues_ok_def tloc_def tplace_def)

lemma queue_member:
  assumes "queues_wf A s" "q \<in> set (queue (arrays (rq s) b) k)" "b < 3" "k < 140"
  shows "array (tasks s q) = Some b \<and> qkey (tasks s q) = k"
  using queues_wfD(2) [OF assms(1)] assms(2-4)
  by (auto simp: rq_ok_def queues_ok_def tloc_def tplace_def)

lemma queue_head_ok:
  assumes wf: "queues_wf A s" and b: "b < 3" "k < 140" and ne: "queue (arrays (rq s) b) k \<noteq> []"
  obtains n where "queue_head (arrays (rq s) b) k = Inr n" "array (tasks s n) = Some b"
    "qkey (tasks s n) = k" "head_of_queue (rq s) (tasks s n) n"
proof -
  from ne obtain n ns where q: "queue (arrays (rq s) b) k = n # ns" by (auto simp: neq_Nil_conv)
  then have "array (tasks s n) = Some b \<and> qkey (tasks s n) = k"
    using queue_member [OF wf _ b, of n] by simp
  with that [of n] q b show ?thesis by (simp add: queue_head_def head_of_queue_def)
qed

subsection \<open>The switch of the arrays\<close>

lemma switch_arrays_sel [simp]:
  "arrays (switch_arrays r) = arrays r" "short_pr (switch_arrays r) = short_pr r"
  "idle (switch_arrays r) = idle r" "curr (switch_arrays r) = curr r"
  "nr_running (switch_arrays r) = nr_running r" "nr_switches (switch_arrays r) = nr_switches r"
  by (simp_all add: switch_arrays_def)

lemma active_empty:
  assumes "queues_wf A s" "a < 3" "nr_active (arrays (rq s) a) = 0"
  shows "array (tasks s q) \<noteq> Some a"
proof -
  have "placement_range (tloc s)" "counts_ok (tloc s) (rq s)"
    using queues_wfD(2) [OF assms(1)] by (simp_all add: rq_ok_def)
  with assms(2,3) finite_on_array [of "tloc s" a] have "on_array (tloc s) a = {}"
    by (simp add: counts_ok_def)
  then show ?thesis by (auto simp: on_array_def tloc_def tplace_def)
qed

lemma rq_ok_switch [simp]: "rq_ok loc (switch_arrays r) = rq_ok loc r"
  by (rule rq_ok_cong) simp

lemma switch_arrays_wf:
  assumes wf: "queues_wf A s"
  shows "queues_wf A (s\<lparr>rq := switch_arrays (rq s)\<rparr>)"
proof -
  have pl: "place_wf (switch_arrays (rq s)) (tasks s p)" if "p \<noteq> idle (rq s)" for p
    using queues_wfD(7) [OF wf that] active_empty [OF wf, of "active (rq s)" p] queues_wfD(1) [OF wf]
    by (auto simp: place_wf_def switch_arrays_def arrays_ok_def)
  have ar: "arrays_ok (switch_arrays (rq s))"
    using queues_wfD(1) [OF wf] by (simp add: arrays_ok_def switch_arrays_def)
  have loc: "tloc (s\<lparr>rq := switch_arrays (rq s)\<rparr>) = tloc s" by (rule tloc_same_tasks) simp
  show ?thesis
    using queues_wfD(2-6,8,9) [OF wf] pl ar loc
    by (simp add: queues_wf_def nr_ok_def mm_wf_def idle_wf_def hash_wf_def)
qed

text \<open>After the switch the active array or the SHORT array has a task whenever any task is queued.\<close>

lemma switch_arrays_nonempty:
  assumes wf: "queues_wf A s" and q: "array (tasks s q) = Some b"
    and s1: "s1 = s\<lparr>rq := switch_arrays (rq s)\<rparr>"
  shows "\<exists>p c. array (tasks s p) = Some c \<and> (c = active (rq s1) \<or> c = short_pr (rq s1))"
proof (cases "nr_active (arrays (rq s) (active (rq s))) = 0")
  case True
  have "active (rq s) < 3" using queues_wfD(1) [OF wf] by (simp add: arrays_ok_def)
  then have "b \<noteq> active (rq s)" using active_empty [OF wf _ True, of q] q by auto
  then show ?thesis
    using q queues_wfD(1) [OF wf] place_range(1) [OF wf q] True
    by (intro exI [of _ q] exI [of _ b]) (auto simp: s1 switch_arrays_def arrays_ok_def)
next
  case False
  have "active (rq s) < 3" "placement_range (tloc s)" "counts_ok (tloc s) (rq s)"
    using queues_wfD(1,2) [OF wf] by (simp_all add: rq_ok_def arrays_ok_def)
  with False have "on_array (tloc s) (active (rq s)) \<noteq> {}" by (auto simp: counts_ok_def)
  then obtain p where "array (tasks s p) = Some (active (rq s))"
    by (auto simp: on_array_def tloc_def tplace_def)
  with False show ?thesis
    by (intro exI [of _ p] exI [of _ "active (rq s)"]) (simp add: s1 switch_arrays_def)
qed


subsection \<open>The choice\<close>

lemma pick_next_least:
  assumes A: "arch_ok A" and wf: "queues_wf A s" and q0: "array (tasks s q0) = Some b0"
  shows "\<exists>n. pick_next A (rq s) = Inr (n, switch_arrays (rq s)) \<and> array (tasks s n) \<noteq> None \<and>
    head_of_queue (rq s) (tasks s n) n \<and>
    (\<forall>q. array (tasks s q) \<noteq> None \<longrightarrow> sched_rank (rq s) (tasks s n) \<le> sched_rank (rq s) (tasks s q))"
proof -
  define s1 where "s1 = s\<lparr>rq := switch_arrays (rq s)\<rparr>"
  let ?act = "active (rq s1)" and ?sh = "short_pr (rq s1)"
  have w1: "queues_wf A s1" unfolding s1_def by (rule switch_arrays_wf [OF wf])
  have t1 [simp]: "tasks s1 = tasks s" and a1 [simp]: "arrays (rq s1) = arrays (rq s)"
    and sh1: "?sh = short_pr (rq s)" by (simp_all add: s1_def)
  have lt: "?act < 3" "?sh < 3" using queues_wfD(1) [OF w1] by (simp_all add: arrays_ok_def)
  have bm: "bitmaps_ok (rq s1)" using queues_wfD(2) [OF w1] by (simp add: rq_ok_def)
  define i where "i = first_queue A (rq s1) ?act"
  define j where "j = first_queue A (rq s1) ?sh"
  note fi = first_queue_facts [OF A bm lt(1), folded i_def]
  note fj = first_queue_facts [OF A bm lt(2), folded j_def]
  have key_i: "i \<le> qkey (tasks s q)" if "array (tasks s q) = Some ?act" for q
    using in_queue [OF w1, of q ?act] place_range(2) [OF w1, of q ?act] that by (intro fi(3)) auto
  have key_j: "j \<le> qkey (tasks s q)" if "array (tasks s q) = Some ?sh" for q
    using in_queue [OF w1, of q ?sh] place_range(2) [OF w1, of q ?sh] that by (intro fj(3)) auto
  have some: "i < 140 \<or> j < 140"
    using switch_arrays_nonempty [OF wf q0 s1_def] place_range(2) [OF wf] key_i key_j
    by (meson le_less_trans)
  have nr: "nr_running (rq s) \<noteq> 0"
  proof -
    have f: "finite (dom (tloc s))" by (rule dom_placed [OF wf])
    have "q0 \<in> dom (tloc s)" using q0 by (simp add: dom_tloc)
    then have "0 < card (dom (tloc s))" using f card_gt_0_iff by blast
    moreover have "card (dom (tloc s)) \<le> TID_MAX"
      using queues_wfD(2) [OF wf] by (simp add: rq_ok_def card_dom_placement)
    ultimately show ?thesis
      using queues_wfD(3) [OF wf]
      by (simp add: nr_ok_def TID_MAX_def u32_of_nat_0)
  qed
  define c where "c = (if 100 \<le> i \<and> j < 140 then ?sh else ?act)"
  define k where "k = (if 100 \<le> i \<and> j < 140 then j else i)"
  have ck: "c < 3" "k < 140" "queue (arrays (rq s1) c) k \<noteq> []"
    using lt some fi(2) fj(2) by (auto simp: c_def k_def)
  obtain n where n: "queue_head (arrays (rq s1) c) k = Inr n" "array (tasks s1 n) = Some c"
    "qkey (tasks s1 n) = k" "head_of_queue (rq s1) (tasks s1 n) n"
    using queue_head_ok [OF w1 ck] .
  have pick: "pick_next A (rq s) = Inr (n, switch_arrays (rq s))"
    using nr n(1) i_def [symmetric, unfolded first_queue_def] j_def [symmetric, unfolded first_queue_def]
    by (cases "100 \<le> i \<and> j < 140") (auto simp: pick_next_def Let_def c_def k_def s1_def)
  have a: "switch_arrays (rq s) = rq s1" by (simp add: s1_def)
  have k1: "sched_rank (rq s) (tasks s n) \<le> sched_rank (rq s) (tasks s q)"
    if q: "array (tasks s q) \<noteq> None" for q
  proof -
    from q obtain b where qb: "array (tasks s q) = Some b" by auto
    have nb: "array (tasks s n) = Some c" and nk: "qkey (tasks s n) = k" using n(2,3) by simp_all
    have act: "?act = active (rq s) \<or>
        (?act = expired (rq s) \<and> (\<forall>p. array (tasks s p) \<noteq> Some (active (rq s))))"
      using active_empty [OF wf, of "active (rq s)"] queues_wfD(1) [OF wf]
      by (auto simp: s1_def switch_arrays_def arrays_ok_def)
    have ok: "active (rq s) \<noteq> expired (rq s)" "active (rq s) \<noteq> short_pr (rq s)"
      "expired (rq s) \<noteq> short_pr (rq s)"
      using queues_wfD(1) [OF wf] by (simp_all add: arrays_ok_def)
    note ki = key_i [of q] and kj = key_j [of q]
    have q140: "qkey (tasks s q) < 140" using place_range(2) [OF wf qb] .
    have n140: "qkey (tasks s n) < 140" using place_range(2) [OF wf nb] .
    show ?thesis
      by (rule class_cases [OF wf qb]; rule class_cases [OF wf nb])
        (use qb nb nk act ok ki kj q140 n140 sh1 in \<open>auto simp: c_def k_def split: if_splits\<close>)
  qed
  show ?thesis using pick n(2,4) k1 by (intro exI [of _ n]) (simp add: head_of_queue_def)
qed


lemma pick_next_idle:
  assumes "queues_wf A s" "\<And>q. array (tasks s q) = None"
  shows "pick_next A (rq s) = Inr (idle (rq s), (rq s)\<lparr>expired_timestamp := 0\<rparr>)"
proof -
  have "dom (tloc s) = {}" using assms(2) by (auto simp: tloc_def tplace_def)
  then have "nr_running (rq s) = 0" using queues_wfD(3) [OF assms(1)] by (simp add: nr_ok_def)
  then show ?thesis by (simp add: pick_next_def)
qed

lemma expired_timestamp_wf: "queues_wf A s \<Longrightarrow> queues_wf A (s\<lparr>rq := (rq s)\<lparr>expired_timestamp := e\<rparr>\<rparr>)"
  by (simp add: queues_wf_def nr_ok_def mm_wf_def idle_wf_def arrays_ok_def place_wf_def hash_wf_def
      tloc_same_tasks [of "s\<lparr>rq := _\<rparr>" s])

lemma pick_next_ok:
  assumes A: "arch_ok A" and wf: "queues_wf A s"
  shows "\<exists>n r. pick_next A (rq s) = Inr (n, r) \<and> queues_wf A (s\<lparr>rq := r\<rparr>) \<and> idle r = idle (rq s) \<and>
    (n = idle r \<or> array (tasks s n) \<noteq> None)"
proof (cases "\<exists>q. array (tasks s q) \<noteq> None")
  case True
  then obtain q b where "array (tasks s q) = Some b" by auto
  from pick_next_least [OF A wf this] switch_arrays_wf [OF wf] show ?thesis
    by (metis switch_arrays_sel(3))
next
  case False
  then show ?thesis using pick_next_idle [OF wf] expired_timestamp_wf [OF wf, of 0] by auto
qed

subsection \<open>The switch to the next task\<close>

definition resched_set :: "sched \<Rightarrow> tid set" where
  "resched_set s = {q. need_resched (tasks s q) \<and> (q = idle (rq s) \<or> array (tasks s q) \<noteq> None)}"

lemma finite_resched_set: "queues_wf A s \<Longrightarrow> finite (resched_set s)"
  using dom_placed [of A s]
  by (rule_tac finite_subset [of _ "insert (idle (rq s)) (dom (tloc s))"])
     (auto simp: resched_set_def tloc_def tplace_def)

lemma active_mm_wf:
  assumes "queues_wf A s" "current s' = next" "rq s' = (rq s)\<lparr>nr_switches := m, curr := next\<rparr>"
    "\<And>q. \<exists>x b. tasks s' q = (tasks s q)\<lparr>active_mm := x, need_resched := b\<rparr>" "mm_wf s'"
    "pidhash s' = pidhash s"
  shows "queues_wf A s'"
proof -
  have f: "array (tasks s' q) = array (tasks s q)" "state (tasks s' q) = state (tasks s q)"
    "tplace (tasks s' q) = tplace (tasks s q)"
    "task_wf A (tasks s' q) = task_wf A (tasks s q)"
    "policy (tasks s' q) = policy (tasks s q)" "rt_task (tasks s' q) = rt_task (tasks s q)" for q
    using assms(4) [of q] by (auto simp: rt_task_def)
  have "tloc s' = tloc s" by (rule ext) (simp add: tloc_def f)
  with assms(1-3,5,6) show ?thesis
    by (simp add: queues_wf_def nr_ok_def idle_wf_def arrays_ok_def f place_wf_def hash_wf_def)
qed

lemma switch_tasks_ok:
  assumes wf: "queues_wf A s" and cur: "current s = prev" and nx: "next = idle (rq s) \<or> array (tasks s next) \<noteq> None"
  shows "\<exists>s'. switch_tasks prev next s = Inr s' \<and> sched_wf A s' \<and> current s' = next \<and>
    resched_set s' \<subseteq> resched_set s - {prev}"
proof (cases "prev = next")
  case True
  let ?s' = "clear_tsk_need_resched prev s"
  have "queues_wf A ?s'"
    unfolding clear_tsk_need_resched_def by (rule set_need_resched_wf [OF wf])
  with True nx cur show ?thesis
    by (auto simp: switch_tasks_def sched_wf_def resched_set_def clear_tsk_need_resched_def)
next
  case False
  obtain m where m: "active_mm (tasks s prev) = Some m"
    using queues_wfD(4) [OF wf] cur by (auto simp: mm_wf_def)
  define s1 where "s1 = upd_rq (\<lambda>r. r\<lparr>nr_switches := nr_switches r + 1, curr := next\<rparr>) (clear_tsk_need_resched prev s)"
  define s2 where "s2 = (if mm (tasks s next) = None
    then (upd_task next (\<lambda>t. t\<lparr>active_mm := Some m\<rparr>) s1)\<lparr>mm_count := (mm_count s1)(m := mm_count s1 m + 1)\<rparr> else s1)"
  define s3 where "s3 = (if mm (tasks s prev) = None
    then (upd_task prev (\<lambda>t. t\<lparr>active_mm := None\<rparr>) s2)\<lparr>mm_count := (mm_count s2)(m := mm_count s2 m - 1)\<rparr> else s2)"
  define s' where "s' = s3\<lparr>current := next\<rparr>"
  note d = s'_def s3_def s2_def s1_def clear_tsk_need_resched_def
  have eq: "switch_tasks prev next s = Inr s'"
    using False m by (simp add: switch_tasks_def Let_def context_switch_def d)
  have t: "\<exists>x b. tasks s' q = (tasks s q)\<lparr>active_mm := x, need_resched := b\<rparr>" for q
    by (cases "tasks s q") (auto simp: d)
  have r: "rq s' = (rq s)\<lparr>nr_switches := nr_switches (rq s) + 1, curr := next\<rparr>" by (simp add: d)
  have c: "current s' = next" by (simp add: d)
  have "mm_wf s'"
    using queues_wfD(4) [OF wf] False m by (auto simp: mm_wf_def d)
  from active_mm_wf [OF wf c r t this] have q0: "pidhash s' = pidhash s \<Longrightarrow> queues_wf A s'" .
  have q: "queues_wf A s'" by (rule q0) (simp add: d)
  have a: "array (tasks s' p) = array (tasks s p)" for p using t [of p] by auto
  have nr: "need_resched (tasks s' p) \<longleftrightarrow> need_resched (tasks s p) \<and> p \<noteq> prev" for p
    using False by (auto simp: d)
  have "sched_wf A s'" using q nx by (simp add: sched_wf_def c a r)
  moreover have "resched_set s' \<subseteq> resched_set s - {prev}"
    by (auto simp: resched_set_def a r nr)
  ultimately show ?thesis using eq c by auto
qed

lemma schedule_prev_ok:
  assumes wf: "sched_wf A s"
  shows "\<exists>s1. schedule_prev s = Inr s1 \<and> queues_wf A s1 \<and> current s1 = current s \<and>
    resched_set s1 \<subseteq> resched_set s"
proof -
  define s1 where "s1 = upd_task (current s) (\<lambda>t. t\<lparr>sleep_timestamp := jiffies s\<rparr>) s"
  have q1: "queues_wf A s1" unfolding s1_def by (rule set_timestamp_wf [OF sched_wfD(1) [OF wf]])
  have eq: "schedule_prev s =
      (if state (tasks s1 (current s)) = TASK_INTERRUPTIBLE \<and> sigpending (tasks s1 (current s))
         then Inr (upd_task (current s) (\<lambda>t. t\<lparr>state := TASK_RUNNING\<rparr>) s1)
         else if state (tasks s1 (current s)) = TASK_RUNNING then Inr s1
         else deactivate_task (current s) s1)"
    by (simp only: schedule_prev_def Let_def s1_def)
  have i: "current s = idle (rq s) \<Longrightarrow> state (tasks s1 (current s)) = TASK_RUNNING"
    using queues_wfD(5) [OF sched_wfD(1) [OF wf]] by (simp add: idle_wf_def s1_def)
  have w: "resched_set s1 \<subseteq> resched_set s" by (auto simp: resched_set_def s1_def split: if_splits)
  consider (sig) "state (tasks s1 (current s)) = TASK_INTERRUPTIBLE" "sigpending (tasks s1 (current s))"
    | (run) "state (tasks s1 (current s)) = TASK_RUNNING"
    | (sleep) "state (tasks s1 (current s)) \<noteq> TASK_RUNNING"
        "\<not> (state (tasks s1 (current s)) = TASK_INTERRUPTIBLE \<and> sigpending (tasks s1 (current s)))"
    by auto
  then show ?thesis
  proof cases
    case sig
    have "queues_wf A (upd_task (current s) (\<lambda>t. t\<lparr>state := TASK_RUNNING\<rparr>) s1)"
      by (rule set_state_wf [OF q1]) simp
    with sig w show ?thesis
      by (auto simp: eq) (auto simp: s1_def resched_set_def split: if_splits)
  next
    case run
    with q1 w show ?thesis by (simp add: eq) (simp add: s1_def)
  next
    case sleep
    then have "current s \<noteq> idle (rq s)" using i by auto
    then obtain a where a: "array (tasks s1 (current s)) = Some a"
      using sched_wfD(2) [OF wf] by (auto simp: s1_def)
    from deactivate_task_wf [OF q1 a] obtain s2 where s2: "deactivate_task (current s) s1 = Inr s2"
      "queues_wf A s2" "tasks s2 = (tasks s1)(current s := (tasks s1 (current s))\<lparr>array := None\<rparr>)"
      "current s2 = current s1" "idle (rq s2) = idle (rq s1)" by blast
    have "schedule_prev s = Inr s2"
      using sleep s2(1) by (auto simp: eq)
    moreover have "resched_set s2 \<subseteq> resched_set s1"
      by (auto simp: resched_set_def s2(3,5) split: if_splits)
    ultimately show ?thesis using s2 w by (auto simp: s1_def)
  qed
qed

lemma schedule_once_ok:
  assumes A: "arch_ok A" and wf: "sched_wf A s"
  shows "\<exists>s'. schedule_once A s = Inr s' \<and> sched_wf A s' \<and> resched_set s' \<subseteq> resched_set s - {current s}"
proof -
  obtain s1 where s1: "schedule_prev s = Inr s1" "queues_wf A s1" "current s1 = current s"
    "resched_set s1 \<subseteq> resched_set s" using schedule_prev_ok [OF wf] by blast
  obtain n r where r: "pick_next A (rq s1) = Inr (n, r)" "queues_wf A (s1\<lparr>rq := r\<rparr>)"
    "idle r = idle (rq s1)" "n = idle r \<or> array (tasks s1 n) \<noteq> None"
    using pick_next_ok [OF A s1(2)] by blast
  obtain s' where s': "switch_tasks (current s) n (s1\<lparr>rq := r\<rparr>) = Inr s'" "sched_wf A s'"
    "resched_set s' \<subseteq> resched_set (s1\<lparr>rq := r\<rparr>) - {current s}"
    using switch_tasks_ok [OF r(2), of "current s" n] s1(3) r(3,4) by auto
  moreover have "resched_set (s1\<lparr>rq := r\<rparr>) = resched_set s1" by (simp add: resched_set_def r(3))
  ultimately show ?thesis using s1 r(1) by (auto simp: schedule_once_def)
qed

text \<open>A round started by a task that wants to be rescheduled leaves one such task fewer.\<close>

lemma schedule_returns_resched:
  assumes A: "arch_ok A"
  shows "sched_wf A s \<Longrightarrow> need_resched (tasks s (current s)) \<Longrightarrow>
    \<exists>s'. schedule A s = Some (Inr s') \<and> sched_wf A s' \<and> \<not> need_resched (tasks s' (current s'))"
proof (induction "card (resched_set s)" arbitrary: s rule: less_induct)
  case less
  obtain s1 where s1: "schedule_once A s = Inr s1" "sched_wf A s1"
    "resched_set s1 \<subseteq> resched_set s - {current s}"
    using schedule_once_ok [OF A less.prems(1)] by blast
  have "current s \<in> resched_set s"
    using less.prems sched_wfD(2) [OF less.prems(1)] by (auto simp: resched_set_def)
  then have "resched_set s1 \<subset> resched_set s" using s1(3) by auto
  then have lt: "card (resched_set s1) < card (resched_set s)"
    using psubset_card_mono [OF finite_resched_set [OF sched_wfD(1) [OF less.prems(1)]]] by blast
  show ?case
  proof (cases "need_resched (tasks s1 (current s1))")
    case True
    with less.hyps [OF lt s1(2)] s1(1) show ?thesis by (subst schedule.simps) simp
  next
    case False
    with s1 show ?thesis by (subst schedule.simps) simp
  qed
qed

lemma schedule_ok:
  assumes A: "arch_ok A" and wf: "sched_wf A s"
  shows "\<exists>s'. schedule A s = Some (Inr s') \<and> sched_wf A s' \<and> \<not> need_resched (tasks s' (current s'))"
proof -
  obtain s1 where s1: "schedule_once A s = Inr s1" "sched_wf A s1"
    using schedule_once_ok [OF A wf] by blast
  show ?thesis
  proof (cases "need_resched (tasks s1 (current s1))")
    case True
    with schedule_returns_resched [OF A s1(2)] s1(1) show ?thesis by (subst schedule.simps) simp
  next
    case False
    with s1 show ?thesis by (subst schedule.simps) simp
  qed
qed


subsection \<open>Yielding\<close>

lemma rq_ok_reorder:
  assumes ok: "rq_ok loc r"
    and q: "\<And>a k. a < 3 \<Longrightarrow> k < 140 \<Longrightarrow>
      set (queue (arrays r' a) k) = set (queue (arrays r a) k) \<and> distinct (queue (arrays r' a) k)"
    and b: "\<And>a k. bitmap (arrays r' a) k = bitmap (arrays r a) k"
    and n: "\<And>a. nr_active (arrays r' a) = nr_active (arrays r a)"
  shows "rq_ok loc r'"
proof -
  have "queue (arrays r' a) k = [] \<longleftrightarrow> queue (arrays r a) k = []" if "a < 3" "k < 140" for a k
    using q [OF that] by (metis set_empty)
  with assms show ?thesis
    by (simp add: rq_ok_def queues_ok_def bitmaps_ok_def counts_ok_def)
qed

lemma queue_distinct: "rq_ok loc r \<Longrightarrow> a < 3 \<Longrightarrow> k < 140 \<Longrightarrow> distinct (queue (arrays r a) k)"
  by (simp add: rq_ok_def queues_ok_def)

lemma queue_set: "rq_ok loc r \<Longrightarrow> a < 3 \<Longrightarrow> k < 140 \<Longrightarrow> p \<in> set (queue (arrays r a) k) \<longleftrightarrow> loc p = Some (a, k)"
  by (simp add: rq_ok_def queues_ok_def)

lemma list_del_queue [simp]:
  "queue (arrays (list_del p r) b) j = remove1 p (queue (arrays r b) j)"
  "bitmap (arrays (list_del p r) b) = bitmap (arrays r b)"
  "nr_active (arrays (list_del p r) b) = nr_active (arrays r b)"
  by (simp_all add: list_del_def)

lemma insert_second_set [simp]:
  "set (insert_second p qs) = insert p (set qs)"
  "distinct (insert_second p qs) \<longleftrightarrow> p \<notin> set qs \<and> distinct qs"
  "insert_second p qs \<noteq> []"
  by (cases qs; auto)+

lemma list_add_second_queue [simp]:
  "queue (arrays (list_add_second p a k r) b) j =
     (if b = a \<and> j = k then insert_second p (queue (arrays r b) j) else queue (arrays r b) j)"
  "bitmap (arrays (list_add_second p a k r) b) = bitmap (arrays r b)"
  "nr_active (arrays (list_add_second p a k r) b) = nr_active (arrays r b)"
  by (simp_all add: list_add_second_def upd_array_def)

lemma list_add_tail_queue [simp]:
  "queue (arrays (list_add_tail p a k r) b) j =
     (if b = a \<and> j = k then queue (arrays r b) j @ [p] else queue (arrays r b) j)"
  "bitmap (arrays (list_add_tail p a k r) b) = bitmap (arrays r b)"
  "nr_active (arrays (list_add_tail p a k r) b) = nr_active (arrays r b)"
  by (simp_all add: list_add_tail_def upd_array_def)

lemma set_bit_queue [simp]:
  "queue (arrays (upd_array a (\<lambda>x. x\<lparr>bitmap := f x\<rparr>) r) b) j = queue (arrays r b) j"
  "bitmap (arrays (upd_array a (\<lambda>x. x\<lparr>bitmap := f x\<rparr>) r) b) = (if b = a then f (arrays r a) else bitmap (arrays r b))"
  "nr_active (arrays (upd_array a (\<lambda>x. x\<lparr>bitmap := f x\<rparr>) r) b) = nr_active (arrays r b)"
  by (simp_all add: upd_array_def)

lemma list_ops_pointers [simp]:
  "active (list_del p r) = active r" "expired (list_del p r) = expired r" "short_pr (list_del p r) = short_pr r"
  "idle (list_del p r) = idle r" "curr (list_del p r) = curr r" "nr_running (list_del p r) = nr_running r"
  "active (upd_array a f r) = active r" "expired (upd_array a f r) = expired r" "short_pr (upd_array a f r) = short_pr r"
  "idle (upd_array a f r) = idle r" "curr (upd_array a f r) = curr r" "nr_running (upd_array a f r) = nr_running r"
  "active (list_add_tail p a k r) = active r" "expired (list_add_tail p a k r) = expired r"
  "short_pr (list_add_tail p a k r) = short_pr r" "idle (list_add_tail p a k r) = idle r"
  "curr (list_add_tail p a k r) = curr r" "nr_running (list_add_tail p a k r) = nr_running r"
  "active (list_add_second p a k r) = active r" "expired (list_add_second p a k r) = expired r"
  "short_pr (list_add_second p a k r) = short_pr r" "idle (list_add_second p a k r) = idle r"
  "curr (list_add_second p a k r) = curr r" "nr_running (list_add_second p a k r) = nr_running r"
  by (simp_all add: list_del_def upd_array_def list_add_tail_def list_add_second_def)

lemma queues_wf_reorder:
  assumes wf: "queues_wf A s" and ok: "rq_ok (tloc s) r"
    and p: "active r = active (rq s)" "expired r = expired (rq s)" "short_pr r = short_pr (rq s)"
      "idle r = idle (rq s)" "curr r = curr (rq s)" "nr_running r = nr_running (rq s)"
  shows "queues_wf A (upd_rq (\<lambda>_. r) s)"
  using queues_wfD [OF wf] ok p
  by (simp add: queues_wf_def nr_ok_def mm_wf_def idle_wf_def arrays_ok_def place_wf_def hash_wf_def
      tloc_same_tasks [of "upd_rq _ s" s])

lemma upd_rq_const: "upd_rq f s = upd_rq (\<lambda>_. f (rq s)) s"
  by (simp add: upd_rq_def)

lemma requeue_tail_wf:
  assumes wf: "queues_wf A s" and a: "array (tasks s p) = Some a" and k: "k = qkey (tasks s p)"
  shows "queues_wf A (upd_rq (\<lambda>r. list_add_tail p a k (list_del p r)) s)"
proof (subst upd_rq_const, rule queues_wf_reorder [OF wf])
  note ok = queues_wfD(2) [OF wf]
  have loc: "tloc s p = Some (a, k)" using a k by (simp add: tloc_def tplace_def)
  show "rq_ok (tloc s) (list_add_tail p a k (list_del p (rq s)))"
    using queue_distinct [OF ok] queue_set [OF ok] loc
    by (intro rq_ok_reorder [OF ok]) (auto simp: set_remove1_eq)
qed simp_all

lemma yield_other_wf:
  assumes A: "arch_ok A" and wf: "queues_wf A s" and a: "array (tasks s p) = Some a"
    and pol: "policy (tasks s p) = SCHED_OTHER"
  shows "queues_wf A (yield_other A p a s)"
proof -
  define k where "k = nat (prio (tasks s p))"
  note ok = queues_wfD(2) [OF wf]
  note rg = place_range [OF wf a]
  note tw = queues_wfD(6) [OF wf rg(4)]
  have k: "k = qkey (tasks s p)" "100 \<le> k" "k < 140" "prio (tasks s p) = int k"
    using pol tw by (auto simp: k_def qkey_def task_wf_def le_nat_iff)
  have loc: "tloc s p = Some (a, k)" using a k(1) by (simp add: tloc_def tplace_def)
  define r1 where "r1 = list_del p (rq s)"
  define r2 where "r2 = upd_array a (\<lambda>x. x\<lparr>bitmap := (bitmap x)(k := False)\<rparr>) r1"
  define i where "i = first_queue A r2 a"
  define stay where "stay \<longleftrightarrow> i = 140 \<or> i \<le> k"
  define j where "j = (if stay then k else i)"
  define r3 where "r3 = upd_array a (\<lambda>x. x\<lparr>bitmap := (bitmap x)(j := True)\<rparr>) (list_add_second p a j r2)"
  show ?thesis
  proof (cases "queue (arrays r1 a) k = []")
    case False
    have "rq_ok (tloc s) (list_add_second p a k r1)"
      using queue_distinct [OF ok] queue_set [OF ok] loc False
      by (intro rq_ok_reorder [OF ok]) (auto simp: r1_def set_remove1_eq)
    then have "queues_wf A (upd_rq (\<lambda>_. list_add_second p a k r1) s)"
      by (rule queues_wf_reorder [OF wf]) (simp_all add: r1_def)
    moreover have "yield_other A p a s = upd_rq (\<lambda>_. list_add_second p a k r1) s"
      using False by (simp add: yield_other_def Let_def k_def r1_def upd_rq_def)
    ultimately show ?thesis by simp
  next
    case True
    have "bitmaps_ok (rq_dequeue p k a (rq s))" using pq.deq_ok [OF ok loc] by (simp add: rq_ok_def)
    moreover have "bitmap (arrays r2 b) l = bitmap (arrays (rq_dequeue p k a (rq s)) b) l"
      "queue (arrays r2 b) l = queue (arrays (rq_dequeue p k a (rq s)) b) l" for b l
      using True by (auto simp: r2_def r1_def rq_deq_enq)
    ultimately have bm: "bitmaps_ok r2" by (simp add: bitmaps_ok_def)
    have i: "i \<le> 140" using first_queue_facts(1) [OF A bm rg(1)] by (simp add: i_def)
    have j: "j < 140" "100 \<le> j" using i k by (auto simp: j_def stay_def)
    define t' where "t' = (if stay then tasks s p else (tasks s p)\<lparr>prio := int i\<rparr>)"
    have t': "array t' = Some a" "qkey t' = j" "task_wf A t'" "place_wf (rq s) t'"
      using a k tw pol j queues_wfD(7) [OF wf rg(4)]
      by (auto simp: t'_def j_def qkey_def task_wf_def place_wf_def rt_task_def split: if_splits)
    have pl: "tplace t' = Some (a, j)" using t' by (simp add: tplace_def)
    have e: "yield_other A p a s = upd_rq (\<lambda>_. r3) (upd_task p (\<lambda>_. t') s)"
    proof -
      have "int i = MAX_PRIO \<or> int i \<le> prio (tasks s p) \<longleftrightarrow> stay" using k by (simp add: stay_def)
      then show ?thesis
        using True k_def [symmetric] i_def [unfolded first_queue_def, symmetric]
        by (simp add: yield_other_def Let_def upd_rq_def upd_task_def r1_def [symmetric]
            r2_def [symmetric] r3_def j_def t'_def)
    qed
    have "rq_ok ((tloc s)(p \<mapsto> (a, j))) (rq_enqueue p j a (rq_dequeue p k a (rq s)))"
      by (rule pq.move_ok [OF ok loc rg(1) j(1) rg(3)])
    moreover have "queue (arrays r3 b) l = (if b = a \<and> l = j then insert_second p (remove1 p (queue (arrays (rq s) b) l))
        else remove1 p (queue (arrays (rq s) b) l))" for b l
      by (simp add: r3_def r2_def r1_def)
    moreover have "bitmap (arrays r3 b) l = bitmap (arrays (rq_enqueue p j a (rq_dequeue p k a (rq s))) b) l" for b l
      using True by (auto simp: r3_def r2_def r1_def rq_deq_enq)
    moreover have "nr_active (arrays r3 b) = nr_active (arrays (rq_enqueue p j a (rq_dequeue p k a (rq s))) b)" for b
      by (simp add: r3_def r2_def r1_def rq_deq_enq)
    ultimately have ok3: "rq_ok ((tloc s)(p := tplace t')) r3"
      using queue_distinct [OF ok]
      by (subst pl, intro rq_ok_reorder [of "(tloc s)(p \<mapsto> (a, j))" "rq_enqueue p j a (rq_dequeue p k a (rq s))" r3])
        (auto simp: rq_deq_enq set_remove1_eq)
    have nr: "nr_running r3 = of_nat (card (dom ((tloc s)(p := tplace t'))))"
      using queues_wfD(3) [OF wf] loc card_requeue [of "tloc s" p "(a, j)"]
      by (simp add: nr_ok_def pl r3_def r2_def r1_def)
    show ?thesis
      unfolding e by (rule queues_wf_update [where p = p and t' = t', OF wf _ _ _ _ _ _ _ _ _ _ _ rg(4) t'(3,4)])
        (use ok3 nr in \<open>simp_all add: r3_def r2_def r1_def t'_def\<close>)
  qed
qed

text \<open>A task that yields is a task: the idle task does not.\<close>

lemma yield_queue_ok:
  assumes A: "arch_ok A" and wf: "sched_wf A s" and c: "current s \<noteq> idle (rq s)"
  shows "\<exists>s'. yield_queue A s = Inr s' \<and> sched_wf A s'"
proof -
  let ?p = "current s"
  note q = sched_wfD(1) [OF wf]
  obtain a where a: "array (tasks s ?p) = Some a" using sched_wfD(2) [OF wf c] by auto
  note tw = queues_wfD(6) [OF q c]
  define s' where "s' = (if rt_task (tasks s ?p) \<or> policy (tasks s ?p) = SCHED_SHORT
    then upd_rq (\<lambda>r. list_add_tail ?p a (qkey (tasks s ?p)) (list_del ?p r)) s else yield_other A ?p a s)"
  have "yield_queue A s = Inr s'"
    using a by (auto simp: yield_queue_def Let_def s'_def qkey_def rt_task_def)
  moreover have "queues_wf A s'"
    unfolding s'_def using requeue_tail_wf [OF q a refl] yield_other_wf [OF A q a] tw
    by (auto simp: task_wf_def rt_task_def)
  moreover have "current s' = current s" "idle (rq s') = idle (rq s)" "array (tasks s' ?p) = Some a"
    using a by (auto simp: s'_def yield_other_def Let_def)
  ultimately show ?thesis by (auto simp: sched_wf_def)
qed

lemma sys_sched_yield_ok:
  assumes "arch_ok A" "sched_wf A s" "current s \<noteq> idle (rq s)"
  shows "\<exists>s'. sys_sched_yield A s = Some (Inr s') \<and> sched_wf A s' \<and> \<not> need_resched (tasks s' (current s'))"
  using yield_queue_ok [OF assms] schedule_ok [OF assms(1)] by (fastforce simp: sys_sched_yield_def)

end
