(* ===== verification/Pid_Hash.thy ===== *)
theory Pid_Hash
  imports Prelude
begin

text \<open>
  The process table of \<^verbatim>\<open>include/linux/sched.h\<close>: the hash chains \<open>pidhash\<close> with \<open>hash_pid\<close>,
  \<open>unhash_pid\<close> and \<open>find_task_by_pid\<close>. A chain (\<open>pidhash_next\<close>) is the list of its tasks, newest
  first; \<open>pids\<close> gives the pid of a task. The contract \<open>pid_table\<close> says what a lookup finds after an
  insertion and a removal; it is interpreted on the hash chains.
\<close>

unbundle bit_operations_syntax

definition PIDHASH_SZ :: int where "PIDHASH_SZ = 4096 div 4"

definition pid_hashfn :: "pid \<Rightarrow> nat" where
  "pid_hashfn x = nat ((drop_bit 8 x XOR x) AND (PIDHASH_SZ - 1))"

definition hash_pid :: "(nat \<Rightarrow> pid) \<Rightarrow> nat \<Rightarrow> (nat \<Rightarrow> nat list) \<Rightarrow> nat \<Rightarrow> nat list" where
  "hash_pid pids p h = h(pid_hashfn (pids p) := p # h (pid_hashfn (pids p)))"

definition unhash_pid :: "(nat \<Rightarrow> pid) \<Rightarrow> nat \<Rightarrow> (nat \<Rightarrow> nat list) \<Rightarrow> nat \<Rightarrow> nat list" where
  "unhash_pid pids p h = h(pid_hashfn (pids p) := remove1 p (h (pid_hashfn (pids p))))"

definition find_task_by_pid :: "(nat \<Rightarrow> pid) \<Rightarrow> pid \<Rightarrow> (nat \<Rightarrow> nat list) \<Rightarrow> nat option" where
  "find_task_by_pid pids pid h = find (\<lambda>p. pids p = pid) (h (pid_hashfn pid))"

text \<open>
  What the table holds: \<open>hash_holds pids S h\<close> says that the chains are exactly the tasks of \<open>S\<close>, each on
  the chain of its pid, and that no two of them have the same pid.
\<close>

definition hash_holds :: "(nat \<Rightarrow> pid) \<Rightarrow> nat set \<Rightarrow> (nat \<Rightarrow> nat list) \<Rightarrow> bool" where
  "hash_holds pids S h \<longleftrightarrow> inj_on pids S \<and>
     (\<forall>i. distinct (h i) \<and> (\<forall>p. p \<in> set (h i) \<longleftrightarrow> p \<in> S \<and> pid_hashfn (pids p) = i))"

locale pid_table =
  fixes ins :: "'t \<Rightarrow> 'h \<Rightarrow> 'h" and del :: "'t \<Rightarrow> 'h \<Rightarrow> 'h" and find :: "pid \<Rightarrow> 'h \<Rightarrow> 't option"
    and pid_of :: "'t \<Rightarrow> pid" and holds :: "'t set \<Rightarrow> 'h \<Rightarrow> bool"
  assumes ins_holds: "holds S h \<Longrightarrow> pid_of p \<notin> pid_of ` S \<Longrightarrow> holds (insert p S) (ins p h)"
    and del_holds: "holds S h \<Longrightarrow> p \<in> S \<Longrightarrow> holds (S - {p}) (del p h)"
    and find_iff: "holds S h \<Longrightarrow> find x h = Some p \<longleftrightarrow> p \<in> S \<and> pid_of p = x"
begin

lemma find_None: "holds S h \<Longrightarrow> find x h = None \<longleftrightarrow> x \<notin> pid_of ` S"
  using find_iff [of S h x] by (cases "find x h") force+

lemma find_ins:
  assumes "holds S h" "pid_of p \<notin> pid_of ` S"
  shows "find x (ins p h) = (if x = pid_of p then Some p else find x h)"
proof (cases "x = pid_of p")
  case True
  then show ?thesis using find_iff [OF ins_holds [OF assms], of x p] by simp
next
  case False
  have "find x (ins p h) = Some q \<longleftrightarrow> find x h = Some q" for q
    using find_iff [OF ins_holds [OF assms], of x q] find_iff [OF assms(1), of x q] False by auto
  then have "find x (ins p h) = find x h" by (metis not_None_eq)
  with False show ?thesis by simp
qed

lemma find_del:
  assumes "holds S h" "p \<in> S"
  shows "find x (del p h) = (if x = pid_of p then None else find x h)"
proof (cases "x = pid_of p")
  case True
  have "find x h = Some p" using find_iff [OF assms(1)] assms(2) True by simp
  then have "q \<in> S \<Longrightarrow> pid_of q = x \<Longrightarrow> q = p" for q
    using find_iff [OF assms(1), of x q] by simp
  then have "x \<notin> pid_of ` (S - {p})" by auto
  with True find_None [OF del_holds [OF assms], of x] show ?thesis by simp
next
  case False
  have "find x (del p h) = Some q \<longleftrightarrow> find x h = Some q" for q
    using find_iff [OF del_holds [OF assms], of x q] find_iff [OF assms(1), of x q] False by auto
  then have "find x (del p h) = find x h" by (metis not_None_eq)
  with False show ?thesis by simp
qed

lemma ins_del_find:
  assumes "holds S h" "pid_of p \<notin> pid_of ` S"
  shows "find x (del p (ins p h)) = find x h"
proof -
  have "find (pid_of p) h = None" using find_None [OF assms(1)] assms(2) by simp
  then show ?thesis
    using find_del [OF ins_holds [OF assms], of p x] find_ins [OF assms, of x] by auto
qed

end

lemma hash_pid_holds:
  "hash_holds pids S h \<Longrightarrow> pids p \<notin> pids ` S \<Longrightarrow> hash_holds pids (insert p S) (hash_pid pids p h)"
  by (auto simp: hash_holds_def hash_pid_def)

lemma unhash_pid_holds:
  "hash_holds pids S h \<Longrightarrow> p \<in> S \<Longrightarrow> hash_holds pids (S - {p}) (unhash_pid pids p h)"
  by (auto simp: hash_holds_def unhash_pid_def set_remove1_eq inj_on_diff)

lemma find_task_by_pid_iff:
  assumes "hash_holds pids S h"
  shows "find_task_by_pid pids x h = Some p \<longleftrightarrow> p \<in> S \<and> pids p = x"
proof
  assume "find_task_by_pid pids x h = Some p"
  then have "p \<in> set (h (pid_hashfn x)) \<and> pids p = x"
    by (auto simp: find_task_by_pid_def find_Some_iff)
  with assms show "p \<in> S \<and> pids p = x" by (auto simp: hash_holds_def)
next
  assume p: "p \<in> S \<and> pids p = x"
  then have "p \<in> set (h (pid_hashfn x))" using assms by (auto simp: hash_holds_def)
  with p obtain q where q: "find_task_by_pid pids x h = Some q"
    by (cases "find_task_by_pid pids x h") (auto simp: find_task_by_pid_def find_None_iff)
  then have "q \<in> set (h (pid_hashfn x)) \<and> pids q = x"
    by (auto simp: find_task_by_pid_def find_Some_iff)
  with p assms have "q = p" by (auto simp: hash_holds_def inj_on_def)
  with q show "find_task_by_pid pids x h = Some p" by simp
qed

interpretation ph: pid_table "hash_pid pids" "unhash_pid pids" "find_task_by_pid pids" pids "hash_holds pids"
  for pids
  by unfold_locales (auto simp: hash_pid_holds unhash_pid_holds find_task_by_pid_iff)

text \<open>After \<open>hash_pid\<close> of a task with a fresh pid, a lookup of that pid finds the task and every
  other lookup gives what it gave before; \<open>unhash_pid\<close> of the task makes its pid unknown again and
  restores every lookup.\<close>
theorem pid_hash_roundtrip:
  assumes "hash_holds pids S h" and "pids p \<notin> pids ` S"
  shows "find_task_by_pid pids (pids p) (hash_pid pids p h) = Some p \<and>
    (\<forall>x. x \<noteq> pids p \<longrightarrow> find_task_by_pid pids x (hash_pid pids p h) = find_task_by_pid pids x h) \<and>
    (\<forall>x. find_task_by_pid pids x (unhash_pid pids p (hash_pid pids p h)) = find_task_by_pid pids x h)"
  using ph.find_ins [OF assms] ph.ins_del_find [OF assms] by simp

text \<open>Two tasks whose pids, 7 and 1027, hash to the same chain.\<close>

definition demo_pids :: "nat \<Rightarrow> pid" where "demo_pids p = (if p = 0 then 7 else 1027)"

theorem pid_hash_roundtrip_witness:
  "pid_hashfn 7 = pid_hashfn 1027 \<and>
    find_task_by_pid demo_pids 1027 (hash_pid demo_pids 1 (hash_pid demo_pids 0 (\<lambda>_. []))) = Some 1 \<and>
    find_task_by_pid demo_pids 7 (hash_pid demo_pids 1 (hash_pid demo_pids 0 (\<lambda>_. []))) = Some 0"
proof -
  have e: "hash_holds demo_pids {} (\<lambda>_. [])" by (simp add: hash_holds_def)
  have "hash_holds demo_pids {0} (hash_pid demo_pids 0 (\<lambda>_. []))" using ph.ins_holds [OF e, of 0] by simp
  from pid_hash_roundtrip [OF this, of 1] have
    "find_task_by_pid demo_pids 1027 (hash_pid demo_pids 1 (hash_pid demo_pids 0 (\<lambda>_. []))) = Some 1"
    "find_task_by_pid demo_pids 7 (hash_pid demo_pids 1 (hash_pid demo_pids 0 (\<lambda>_. [])))
      = find_task_by_pid demo_pids 7 (hash_pid demo_pids 0 (\<lambda>_. []))"
    by (auto simp: demo_pids_def)
  moreover have "pid_hashfn 7 = pid_hashfn 1027" by (simp add: pid_hashfn_def PIDHASH_SZ_def)
  moreover have "find_task_by_pid demo_pids 7 (hash_pid demo_pids 0 (\<lambda>_. [])) = Some 0"
    by (simp add: find_task_by_pid_def hash_pid_def demo_pids_def)
  ultimately show ?thesis by simp
qed

end
