(* ===== verification/Sched_Policy.thy ===== *)
theory Sched_Policy
  imports Sched_Pick Pid_Hash
begin

text \<open>
  HW2, the system calls of \<^verbatim>\<open>HW2/kernel/sched.c\<close> that set and report scheduling parameters: \<open>nice\<close>, the
  \<open>sched_setscheduler\<close> family with the SHORT policy, affinity, priority ranges and the round-robin
  interval, the three SHORT queries, the wake-up of wait queues, and the boot code. What a copy to user space
  writes is part of the result, with \<open>None\<close> for a field of the local buffer that was never set.
  The system calls change \<open>errno\<close> of the kernel as the source does (field \<open>kerrno\<close>).
\<close>

subsection \<open>nice\<close>

text \<open>\<^verbatim>\<open>capable(CAP_SYS_NICE)\<close>: the capability of the current task.\<close>

definition capable_nice :: "sched \<Rightarrow> bool" where
  "capable_nice s \<longleftrightarrow> cap_sys_nice (tasks s (current s))"

definition set_user_nice :: "tid \<Rightarrow> int \<Rightarrow> sched \<Rightarrow> sched" where
  "set_user_nice p nice s =
     (let t = tasks s p in
      if policy t = SCHED_SHORT then s
      else if TASK_NICE t = nice \<or> nice < -20 \<or> nice > 19 then s
      else if rt_task t then upd_task p (\<lambda>t. t\<lparr>static_prio := NICE_TO_PRIO nice\<rparr>) s
      else let s1 = (case array t of None \<Rightarrow> s | Some a \<Rightarrow> dequeue_task p a s);
               s2 = upd_task p (\<lambda>t. t\<lparr>static_prio := NICE_TO_PRIO nice, prio := NICE_TO_PRIO nice\<rparr>) s1
           in case array t of None \<Rightarrow> s2
              | Some a \<Rightarrow>
                  let s3 = enqueue_task p a s2
                  in if NICE_TO_PRIO nice < static_prio (tasks s3 p) \<or> p = curr (rq s3)
                     then resched_task (curr (rq s3)) s3 else s3)"

definition clamp_int :: "int \<Rightarrow> int \<Rightarrow> int \<Rightarrow> int" where
  "clamp_int lo hi x = (if x < lo then lo else if x > hi then hi else x)"

definition sys_nice :: "int \<Rightarrow> sched \<Rightarrow> sched \<times> int" where
  "sys_nice increment s =
     (let c = tasks s (current s) in
      if policy c = SCHED_SHORT then (s, - EPERM)
      else if increment < 0 \<and> \<not> capable_nice s then (s, - EPERM)
      else let inc = clamp_int (-40) 40 increment;
               nice = clamp_int (-20) 19 (PRIO_TO_NICE (static_prio c) + inc)
           in (set_user_nice (current s) nice s, 0))"

definition task_prio :: "task \<Rightarrow> int" where
  "task_prio p = (if policy p = SCHED_SHORT then short_prio p else prio p - MAX_USER_RT_PRIO)"

definition task_nice :: "task \<Rightarrow> int" where "task_nice p = TASK_NICE p"

definition idle_cpu :: "sched \<Rightarrow> bool" where "idle_cpu s \<longleftrightarrow> curr (rq s) = idle (rq s)"

definition find_process_by_pid :: "pid \<Rightarrow> sched \<Rightarrow> tid option" where
  "find_process_by_pid pid s =
     (if pid \<noteq> 0 then find_task_by_pid (\<lambda>t. tpid (tasks s t)) pid (pidhash s) else Some (current s))"

subsection \<open>setscheduler\<close>

record sched_param =
  sched_priority :: int
  sp_requested_time :: int
  sched_short_prio :: int

text \<open>The checks, in the order of the source: the error, or the policy to set.\<close>

definition setsched_short_check :: "task \<Rightarrow> int \<Rightarrow> sched_param \<Rightarrow> int option" where
  "setsched_short_check p pol lp =
     (if pol = SCHED_SHORT \<and> (sp_requested_time lp < 1 \<or> sp_requested_time lp > 3000 \<or>
           sched_short_prio lp < 0 \<or> sched_short_prio lp > 139)
      then Some (- EINVAL)
      else if policy p = SCHED_SHORT \<or> policy p \<noteq> SCHED_OTHER \<and> pol = SCHED_SHORT
      then Some (- EPERM)
      else None)"

definition setsched_check :: "sched \<Rightarrow> task \<Rightarrow> int \<Rightarrow> sched_param \<Rightarrow> int + int" where
  "setsched_check s p policy0 lp =
     (let c = tasks s (current s) in
      if policy0 \<ge> 0 \<and> policy0 \<noteq> SCHED_FIFO \<and> policy0 \<noteq> SCHED_RR \<and>
              policy0 \<noteq> SCHED_OTHER \<and> policy0 \<noteq> SCHED_SHORT
      then Inl (- EINVAL)
      else let pol = (if policy0 < 0 then policy p else policy0) in
        if pol \<noteq> SCHED_SHORT \<and> (sched_priority lp < 0 \<or> sched_priority lp > MAX_USER_RT_PRIO - 1)
        then Inl (- EINVAL)
        else if pol \<noteq> SCHED_SHORT \<and> (pol = SCHED_OTHER) \<noteq> (sched_priority lp = 0)
        then Inl (- EINVAL)
        else if (pol = SCHED_FIFO \<or> pol = SCHED_RR) \<and> \<not> capable_nice s
        then Inl (- EPERM)
        else if euid c \<noteq> euid p \<and> euid c \<noteq> uid p \<and> \<not> capable_nice s
        then Inl (- EPERM)
        else Inr pol)"

definition short_ticks :: "arch \<Rightarrow> int \<Rightarrow> int" where
  "short_ticks A req = (if (req * HZ A) div 1000 = 0 then 1 else (req * HZ A) div 1000)"

definition setsched_task :: "arch \<Rightarrow> int \<Rightarrow> sched_param \<Rightarrow> task \<Rightarrow> task" where
  "setsched_task A pol lp t =
     (let t1 = t\<lparr>policy := pol, rt_priority := sched_priority lp\<rparr> in
      if pol \<noteq> SCHED_OTHER \<and> policy t1 \<noteq> SCHED_SHORT
      then t1\<lparr>prio := MAX_USER_RT_PRIO - 1 - rt_priority t1\<rparr>
      else if pol = SCHED_SHORT
      then t1\<lparr>short_prio := sched_short_prio lp,
              requested_time := of_int (sp_requested_time lp),
              time_left := of_int (short_ticks A (sp_requested_time lp))\<rparr>
      else t1\<lparr>prio := static_prio t1\<rparr>)"

definition setsched_apply :: "arch \<Rightarrow> tid \<Rightarrow> int \<Rightarrow> sched_param \<Rightarrow> sched \<Rightarrow> fault + sched" where
  "setsched_apply A p pol lp s =
     (let on = (array (tasks s p) \<noteq> None) in
      sbind (if on then deactivate_task p s else Inr s) (\<lambda>s1.
        let s2 = upd_task p (setsched_task A pol lp) s1;
            s3 = (if on then activate_task A p s2 else s2)
        in Inr (if policy (tasks s3 p) = SCHED_SHORT then resched_task (current s3) s3 else s3)))"

definition setscheduler ::
  "arch \<Rightarrow> pid \<Rightarrow> int \<Rightarrow> sched_param uptr \<Rightarrow> sched \<Rightarrow> fault + (sched \<times> int)" where
  "setscheduler A pid policy0 param s =
     (if param = U_Null \<or> pid < 0 then Inr (s, - EINVAL)
      else case param of
        U_Val lp \<Rightarrow>
          (case find_process_by_pid pid s of
             None \<Rightarrow> Inr (s, - ESRCH)
           | Some p \<Rightarrow>
               (case setsched_short_check (tasks s p) policy0 lp of
                  Some e \<Rightarrow> Inr (s, e)
                | None \<Rightarrow>
                   (case setsched_check s (tasks s p) policy0 lp of
                      Inl e \<Rightarrow> Inr (s, e)
                    | Inr pol \<Rightarrow> sbind (setsched_apply A p pol lp s) (\<lambda>s1. Inr (s1, 0)))))
      | _ \<Rightarrow> Inr (s, - EFAULT))"

definition sys_sched_setscheduler ::
  "arch \<Rightarrow> pid \<Rightarrow> int \<Rightarrow> sched_param uptr \<Rightarrow> sched \<Rightarrow> fault + (sched \<times> int)" where
  "sys_sched_setscheduler A pid pol param s = setscheduler A pid pol param s"

definition sys_sched_setparam ::
  "arch \<Rightarrow> pid \<Rightarrow> sched_param uptr \<Rightarrow> sched \<Rightarrow> fault + (sched \<times> int)" where
  "sys_sched_setparam A pid param s = setscheduler A pid (-1) param s"

subsection \<open>The getters\<close>

definition sys_sched_getscheduler :: "pid \<Rightarrow> sched \<Rightarrow> int" where
  "sys_sched_getscheduler pid s =
     (if pid < 0 then - EINVAL
      else case find_process_by_pid pid s of None \<Rightarrow> - ESRCH | Some p \<Rightarrow> policy (tasks s p))"

record param_out =
  out_priority :: int
  out_requested_time :: "int option"
  out_short_prio :: "int option"

text \<open>The result and what is written to the user: fields that were not assigned are stack garbage.\<close>

definition sys_sched_getparam :: "pid \<Rightarrow> 'a uptr \<Rightarrow> sched \<Rightarrow> int \<times> param_out option" where
  "sys_sched_getparam pid param s =
     (if param = U_Null \<or> pid < 0 then (- EINVAL, None)
      else case find_process_by_pid pid s of
        None \<Rightarrow> (- ESRCH, None)
      | Some p \<Rightarrow>
          let t = tasks s p; short = (policy t = SCHED_SHORT);
              out = \<lparr>out_priority = rt_priority t,
                     out_requested_time = (if short then Some (uint (requested_time t)) else None),
                     out_short_prio = (if short then Some (short_prio t) else None)\<rparr>
          in if param = U_Bad then (- EFAULT, None) else (0, Some out))"

text \<open>Affinity. \<open>set_cpus_allowed\<close> is a no-op on a uniprocessor; \<open>online\<close> is \<open>cpu_online_map\<close>.\<close>

definition sys_sched_setaffinity :: "u32 \<Rightarrow> pid \<Rightarrow> int \<Rightarrow> u32 uptr \<Rightarrow> sched \<Rightarrow> sched \<times> int" where
  "sys_sched_setaffinity online pid len user_mask s =
     (if len < 4 then (s, - EINVAL)
      else case user_mask of
        U_Val m \<Rightarrow>
          (let new_mask = m AND online in
           if new_mask = 0 then (s, - EINVAL)
           else case find_process_by_pid pid s of
             None \<Rightarrow> (s, - ESRCH)
           | Some p \<Rightarrow>
               let c = tasks s (current s); t = tasks s p;
                   mask1 = (if \<not> capable_nice s then new_mask AND cpus_allowed_mask t else new_mask);
                   s1 = (if capable_nice s
                         then upd_task p (\<lambda>t. t\<lparr>cpus_allowed_mask := cpus_allowed_mask t OR mask1\<rparr>) s else s)
               in if mask1 = 0 then (s1, - EINVAL)
                  else if euid c \<noteq> euid t \<and> euid c \<noteq> uid t \<and> \<not> capable_nice s then (s1, - EPERM)
                  else (s1, 0))
      | _ \<Rightarrow> (s, - EFAULT))"

definition sys_sched_getaffinity :: "u32 \<Rightarrow> pid \<Rightarrow> int \<Rightarrow> bool \<Rightarrow> sched \<Rightarrow> int \<times> u32 option" where
  "sys_sched_getaffinity online pid len user_ok s =
     (if len < 4 then (- EINVAL, None)
      else case find_process_by_pid pid s of
        None \<Rightarrow> (- ESRCH, None)
      | Some p \<Rightarrow>
          let mask = cpus_allowed (tasks s p) AND online
          in if \<not> user_ok then (- EFAULT, None) else (4, Some mask))"

definition sys_sched_get_priority_max :: "int \<Rightarrow> int" where
  "sys_sched_get_priority_max pol =
     (if pol = SCHED_FIFO \<or> pol = SCHED_RR then MAX_USER_RT_PRIO - 1
      else if pol = SCHED_OTHER then 0 else - EINVAL)"

definition sys_sched_get_priority_min :: "int \<Rightarrow> int" where
  "sys_sched_get_priority_min pol =
     (if pol = SCHED_FIFO \<or> pol = SCHED_RR then 1
      else if pol = SCHED_OTHER then 0 else - EINVAL)"

text \<open>\<open>to_timespec\<close> is the kernel's \<^verbatim>\<open>jiffies_to_timespec\<close>.\<close>

definition sys_sched_rr_get_interval ::
  "arch \<Rightarrow> (int \<Rightarrow> 't) \<Rightarrow> pid \<Rightarrow> bool \<Rightarrow> sched \<Rightarrow> int \<times> 't option" where
  "sys_sched_rr_get_interval A to_timespec pid user_ok s =
     (if pid < 0 then (- EINVAL, None)
      else case find_process_by_pid pid s of
        None \<Rightarrow> (- ESRCH, None)
      | Some p \<Rightarrow>
          let t = to_timespec (if policy (tasks s p) AND SCHED_FIFO \<noteq> 0 then 0 else TASK_TIMESLICE A (tasks s p))
          in if user_ok then (0, Some t) else (- EFAULT, None))"

subsection \<open>The SHORT queries\<close>

definition sys_is_short :: "pid \<Rightarrow> sched \<Rightarrow> sched \<times> int" where
  "sys_is_short pid s =
     (let temp = kerrno s; s1 = s\<lparr>kerrno := ESRCH\<rparr> in
      if pid < 0 then (s1, - ESRCH)
      else case find_task_by_pid (\<lambda>t. tpid (tasks s t)) pid (pidhash s) of
        None \<Rightarrow> (s1, - ESRCH)
      | Some p \<Rightarrow> (s1\<lparr>kerrno := temp\<rparr>, if policy (tasks s p) = SCHED_SHORT then 1 else 0))"

definition sys_short_remaining_time :: "arch \<Rightarrow> pid \<Rightarrow> sched \<Rightarrow> int" where
  "sys_short_remaining_time A pid s =
     (if pid < 0 then - ESRCH
      else case find_task_by_pid (\<lambda>t. tpid (tasks s t)) pid (pidhash s) of
        None \<Rightarrow> - ESRCH
      | Some p \<Rightarrow> if policy (tasks s p) \<noteq> SCHED_SHORT then - EINVAL
                  else sint (time_left (tasks s p) * 1000 div of_int (HZ A)))"

text \<open>The scan of one queue, and of the queues of rising \<open>short_prio\<close>: \<open>Inl\<close> when the task was met.\<close>

fun place_scan :: "(tid \<Rightarrow> pid) \<Rightarrow> pid \<Rightarrow> tid list \<Rightarrow> int \<Rightarrow> int + int" where
  "place_scan pids x [] counter = Inr counter"
| "place_scan pids x (t # ts) counter =
     (if pids t = x then Inl counter else place_scan pids x ts (counter + 1))"

fun place_prios :: "(tid \<Rightarrow> pid) \<Rightarrow> pid \<Rightarrow> (nat \<Rightarrow> tid list) \<Rightarrow> nat list \<Rightarrow> int \<Rightarrow> int + int" where
  "place_prios pids x q [] counter = Inr counter"
| "place_prios pids x q (k # ks) counter =
     (case place_scan pids x (q k) counter of
        Inl c \<Rightarrow> Inl c
      | Inr c \<Rightarrow> place_prios pids x q ks c)"

definition sys_short_place_in_queue :: "pid \<Rightarrow> sched \<Rightarrow> sched \<times> int" where
  "sys_short_place_in_queue pid s =
     (let temp = kerrno s; s1 = s\<lparr>kerrno := ESRCH\<rparr>; pids = (\<lambda>t. tpid (tasks s t)) in
      if pid < 0 then (s1, - ESRCH)
      else case find_task_by_pid pids pid (pidhash s) of
        None \<Rightarrow> (s1, - ESRCH)
      | Some p \<Rightarrow>
          if policy (tasks s p) \<noteq> SCHED_SHORT then (s1, - EINVAL)
          else if tpid (tasks s (current s)) = pid then (s1, 0)
          else (case place_prios pids (tpid (tasks s p)) (queue (arrays (rq s) (short_pr (rq s))))
                       [0..<nat (short_prio (tasks s p) + 1)] 0 of
                  Inl c \<Rightarrow> (s1, c)
                | Inr c \<Rightarrow> (s1\<lparr>kerrno := temp\<rparr>, c)))"

subsection \<open>The calls keep the invariant\<close>

lemma find_process_range:
  assumes wf: "sched_wf A s" and c: "current s \<noteq> idle (rq s)" and f: "find_process_by_pid x s = Some p"
  shows "p \<noteq> idle (rq s)" "p < TID_MAX"
proof -
  have "p \<noteq> idle (rq s) \<and> p < TID_MAX"
  proof (cases "x = 0")
    case True
    then show ?thesis
      using f c sched_wfD(2) [OF wf c] place_range(3) [OF sched_wfD(1) [OF wf], of p]
      by (auto simp: find_process_by_pid_def)
  next
    case False
    then have "\<exists>h. p \<in> set (pidhash s h)"
      using f by (auto simp: find_process_by_pid_def find_task_by_pid_def find_Some_iff) (meson nth_mem)
    with queues_wfD(9) [OF sched_wfD(1) [OF wf]] show ?thesis by (auto simp: hash_wf_def)
  qed
  then show "p \<noteq> idle (rq s)" "p < TID_MAX" by simp_all
qed

lemma set_user_nice_wf:
  assumes wf: "sched_wf A s" and p: "p \<noteq> idle (rq s)"
  shows "sched_wf A (set_user_nice p nice s)"
proof (cases "policy (tasks s p) = SCHED_SHORT \<or> TASK_NICE (tasks s p) = nice \<or> nice < -20 \<or> nice > 19")
  case True
  then show ?thesis using wf by (auto simp: set_user_nice_def Let_def)
next
  case False
  let ?f = "\<lambda>t. t\<lparr>static_prio := NICE_TO_PRIO nice, prio := NICE_TO_PRIO nice\<rparr>"
  have r: "100 \<le> NICE_TO_PRIO nice" "NICE_TO_PRIO nice \<le> 139" using False by (simp_all add: NICE_TO_PRIO_def)
  note q = sched_wfD(1) [OF wf]
  note tw = queues_wfD(6) [OF q p]
  show ?thesis
  proof (cases "rt_task (tasks s p)")
    case True
    have "queues_wf A (upd_task p (\<lambda>t. t\<lparr>static_prio := NICE_TO_PRIO nice\<rparr>) s)"
      by (rule queues_wf_upd_task [OF q]) (use r in \<open>auto simp: task_wf_def\<close>)
    then have "sched_wf A (upd_task p (\<lambda>t. t\<lparr>static_prio := NICE_TO_PRIO nice\<rparr>) s)"
      by (rule sched_wf_upd_queues [OF wf]) (auto split: if_splits)
    then show ?thesis using False True by (simp add: set_user_nice_def Let_def)
  next
    case nrt: False
    have pol: "policy (tasks s p) = SCHED_OTHER" using tw nrt False by (auto simp: task_wf_def rt_task_def)
    have t: "task_wf A (?f (tasks s p))" using tw r pol by (simp add: task_wf_def)
    show ?thesis
    proof (cases "array (tasks s p)")
      case None
      have "queues_wf A (upd_task p ?f s)"
        by (rule queues_wf_upd_task [OF q])
          (use None t in \<open>auto simp: tplace_def place_wf_def\<close>)
      then have "sched_wf A (upd_task p ?f s)"
        by (rule sched_wf_upd_queues [OF wf]) (auto split: if_splits)
      then show ?thesis using None False nrt by (simp add: set_user_nice_def Let_def)
    next
      case (Some a)
      define s3 where "s3 = enqueue_task p a (upd_task p ?f (dequeue_task p a s))"
      have "place_wf (rq s) ((?f (tasks s p))\<lparr>array := Some a\<rparr>)"
        using queues_wfD(7) [OF q p] Some pol r(1) by (auto simp: place_wf_def rt_task_def)
      then have q3: "queues_wf A s3"
        by (intro requeue_wf [where s' = s3 and b = a and t' = "?f (tasks s p)" and e = "expired_timestamp (rq s)",
              OF q Some _ _ _ _ t place_range(1) [OF q Some]])
           (simp_all add: s3_def qkey_def)
      have eq: "set_user_nice p nice s = (if NICE_TO_PRIO nice < static_prio (tasks s3 p) \<or> p = curr (rq s3)
                     then resched_task (curr (rq s3)) s3 else s3)"
        using False nrt Some by (simp add: set_user_nice_def Let_def s3_def)
      have "queues_wf A (set_user_nice p nice s)"
        using q3 by (simp add: eq resched_task_def set_tsk_need_resched_def set_need_resched_wf)
      then show ?thesis
        by (rule sched_wf_upd_queues [OF wf])
          (auto simp: eq s3_def resched_task_def set_tsk_need_resched_def split: if_splits)
    qed
  qed
qed

lemma sys_nice_wf:
  "sched_wf A s \<Longrightarrow> current s \<noteq> idle (rq s) \<Longrightarrow> sched_wf A (fst (sys_nice inc s))"
  by (simp add: sys_nice_def Let_def set_user_nice_wf)

lemma short_ticks_range:
  assumes A: "arch_ok A" and r: "1 \<le> req" "req \<le> 3000"
  shows "1 \<le> short_ticks A req" "short_ticks A req \<le> 3072"
proof -
  have HZ: "100 \<le> HZ A" "HZ A \<le> 1024" using A by (simp_all add: arch_ok_def)
  have "0 \<le> req * HZ A" "req * HZ A \<le> 3000 * 1024" using r HZ mult_mono [of req 3000 "HZ A" 1024] by simp_all
  then have "0 \<le> req * HZ A div 1000" "req * HZ A div 1000 \<le> 3072" by simp_all
  then show "1 \<le> short_ticks A req" "short_ticks A req \<le> 3072" by (auto simp: short_ticks_def)
qed

lemma u32_of_int_0: "0 \<le> k \<Longrightarrow> k < 2 ^ 32 \<Longrightarrow> (of_int k :: u32) = 0 \<longleftrightarrow> k = 0"
  using u32_of_int [of k] unat_eq_0 [of "of_int k :: u32"] by linarith

lemma setsched_task_wf:
  assumes A: "arch_ok A" and t: "task_wf A t"
    and c1: "setsched_short_check t pol0 lp = None" and c2: "setsched_check s t pol0 lp = Inr pol"
  shows "task_wf A (setsched_task A pol lp t)"
proof -
  have range: "pol \<noteq> SCHED_SHORT \<Longrightarrow> 0 \<le> sched_priority lp \<and> sched_priority lp \<le> 99 \<and>
      (pol = SCHED_OTHER \<longleftrightarrow> sched_priority lp = 0)"
    and kind: "pol = SCHED_FIFO \<or> pol = SCHED_RR \<or> pol = SCHED_OTHER \<or> pol = SCHED_SHORT"
    and short: "pol = SCHED_SHORT \<Longrightarrow> pol0 = SCHED_SHORT"
    using c1 c2 t
    by (auto simp: setsched_check_def setsched_short_check_def task_wf_def Let_def split: if_splits)
  have sp: "pol = SCHED_SHORT \<Longrightarrow> 1 \<le> sp_requested_time lp \<and> sp_requested_time lp \<le> 3000 \<and>
      0 \<le> sched_short_prio lp \<and> sched_short_prio lp \<le> 139"
    using c1 short by (auto simp: setsched_short_check_def split: if_splits)
  have "(of_int (short_ticks A (sp_requested_time lp)) :: u32) \<noteq> 0" if "pol = SCHED_SHORT"
    using short_ticks_range [OF A, of "sp_requested_time lp"] sp [OF that]
    by (subst u32_of_int_0) auto
  with range kind sp task_wf_common [OF t] show ?thesis
    by (auto simp: setsched_task_def Let_def task_wf_def)
qed

lemma setsched_task_fields [simp]:
  "array (setsched_task A pol lp t) = array t" "mm (setsched_task A pol lp t) = mm t"
  "active_mm (setsched_task A pol lp t) = active_mm t" "state (setsched_task A pol lp t) = state t"
  "policy (setsched_task A pol lp t) = pol" "tpid (setsched_task A pol lp t) = tpid t"
  "setsched_task A pol lp (t\<lparr>array := a\<rparr>) = (setsched_task A pol lp t)\<lparr>array := a\<rparr>"
  by (simp_all add: setsched_task_def Let_def)

lemma setsched_apply_wf:
  assumes A: "arch_ok A" and wf: "sched_wf A s" and p: "p \<noteq> idle (rq s)" "p < TID_MAX"
    and t: "task_wf A (setsched_task A pol lp (tasks s p))"
  shows "\<exists>s'. setsched_apply A p pol lp s = Inr s' \<and> sched_wf A s' \<and> current s' = current s \<and>
    policy (tasks s' p) = pol"
proof -
  let ?f = "setsched_task A pol lp"
  have fin: "sched_wf A (if b then resched_task c s3 else s3)" if "sched_wf A s3" for b c s3
  proof -
    have "queues_wf A (resched_task c s3)"
      unfolding resched_task_def set_tsk_need_resched_def by (rule set_need_resched_wf [OF sched_wfD(1) [OF that]])
    then have "sched_wf A (resched_task c s3)"
      by (rule sched_wf_upd_queues [OF that]) (auto simp: resched_task_def set_tsk_need_resched_def split: if_splits)
    with that show ?thesis by simp
  qed
  note q = sched_wfD(1) [OF wf]
  show ?thesis
  proof (cases "array (tasks s p)")
    case None
    have "queues_wf A (upd_task p ?f s)"
      by (rule queues_wf_upd_task [OF q]) (use None t in \<open>auto simp: tplace_def place_wf_def\<close>)
    then have "sched_wf A (upd_task p ?f s)"
      by (rule sched_wf_upd_queues [OF wf]) (auto split: if_splits)
    from fin [OF this, of "pol = SCHED_SHORT" "current s"] show ?thesis
      using None by (auto simp: setsched_apply_def Let_def resched_task_def set_tsk_need_resched_def)
  next
    case (Some a)
    obtain s1 where s1: "deactivate_task p s = Inr s1" "queues_wf A s1"
      "tasks s1 = (tasks s)(p := (tasks s p)\<lparr>array := None\<rparr>)" "current s1 = current s" "idle (rq s1) = idle (rq s)"
      using deactivate_task_wf [OF q Some] by blast
    have q2: "queues_wf A (upd_task p ?f s1)"
      by (rule queues_wf_upd_task [OF s1(2)]) (use t in \<open>simp_all add: s1(3) tplace_def\<close>)
    define s3 where "s3 = activate_task A p (upd_task p ?f s1)"
    have q3: "queues_wf A s3"
      unfolding s3_def by (rule activate_task_wf [OF q2]) (use p in \<open>simp_all add: s1\<close>)
    have "sched_wf A s3"
      using q3 wf by (auto simp: sched_wf_def s3_def activate_task_sel s1)
    from fin [OF this, of "pol = SCHED_SHORT" "current s"] show ?thesis
      using Some s1 by (auto simp: setsched_apply_def Let_def s3_def activate_task_sel
          resched_task_def set_tsk_need_resched_def)
  qed
qed

lemma setscheduler_wf:
  assumes A: "arch_ok A" and wf: "sched_wf A s" and c: "current s \<noteq> idle (rq s)"
  shows "\<exists>s' r. setscheduler A x pol0 param s = Inr (s', r) \<and> sched_wf A s' \<and> current s' = current s \<and>
    (r \<noteq> 0 \<longrightarrow> s' = s)"
proof -
  have "\<exists>s' r. setscheduler A x pol0 param s = Inr (s', r) \<and> sched_wf A s' \<and> current s' = current s \<and>
    (r \<noteq> 0 \<longrightarrow> s' = s)"
    if v: "param = U_Val lp" "\<not> x < 0" "find_process_by_pid x s = Some p"
      "setsched_short_check (tasks s p) pol0 lp = None"
      "setsched_check s (tasks s p) pol0 lp = Inr pol" for lp p pol
  proof -
    note r = find_process_range [OF wf c v(3)]
    have t: "task_wf A (setsched_task A pol lp (tasks s p))"
      by (rule setsched_task_wf [OF A queues_wfD(6) [OF sched_wfD(1) [OF wf] r(1)] v(4,5)])
    from setsched_apply_wf [OF A wf r t] show ?thesis
      using v by (auto simp: setscheduler_def)
  qed
  then show ?thesis
    using wf by (cases param) (auto simp: setscheduler_def split: option.splits sum.splits)
qed

lemma sys_sched_setaffinity_wf:
  assumes "sched_wf A s" "current s \<noteq> idle (rq s)"
  shows "sched_wf A (fst (sys_sched_setaffinity online x len m s))"
proof -
  have "sched_wf A (upd_task p (\<lambda>t. t\<lparr>cpus_allowed_mask := f t\<rparr>) s)" for p f
  proof -
    have "queues_wf A (upd_task p (\<lambda>t. t\<lparr>cpus_allowed_mask := f t\<rparr>) s)"
      by (rule queues_wf_upd_task [OF sched_wfD(1) [OF assms(1)]])
         (auto simp: tplace_def qkey_def task_wf_def place_wf_def rt_task_def)
    then show ?thesis by (rule sched_wf_upd_queues [OF assms(1)]) (auto split: if_splits)
  qed
  with assms(1) show ?thesis
    by (auto simp: sys_sched_setaffinity_def Let_def split: uptr.splits option.splits)
qed

lemma short_queries_wf:
  assumes "sched_wf A s"
  shows "sched_wf A (fst (sys_is_short x s))" "sched_wf A (fst (sys_short_place_in_queue x s))"
proof -
  have e: "sched_wf A (s\<lparr>kerrno := e\<rparr>)" for e
    using assms queues_wf_cong [OF sched_wfD(1) [OF assms], of "s\<lparr>kerrno := e\<rparr>"]
    by (simp add: sched_wf_def)
  show "sched_wf A (fst (sys_is_short x s))" "sched_wf A (fst (sys_short_place_in_queue x s))"
    using e assms by (auto simp: sys_is_short_def sys_short_place_in_queue_def Let_def
        split: option.splits sum.splits)
qed

end
