(* ===== verification/Wait_Queue.thy ===== *)
theory Wait_Queue
  imports Sched_Pick
begin

text \<open>
  HW2, sleeping and waking of \<^verbatim>\<open>HW2/kernel/sched.c\<close>: \<open>__wake_up_common\<close> with its wake-one rule for
  exclusive waiters, \<open>__wake_up\<close>, completions and \<open>sleep_on\<close>. A wait queue is the list of its
  entries, front first. A call that sleeps is two steps, up to the call of \<open>schedule\<close> and after it,
  since other tasks run in between.
\<close>

unbundle bit_operations_syntax

record wait_entry =
  wtask :: tid
  exclusive :: bool

fun wake_up_common :: "arch \<Rightarrow> wait_entry list \<Rightarrow> int \<Rightarrow> int \<Rightarrow> bool \<Rightarrow> sched \<Rightarrow> sched" where
  "wake_up_common A [] mode nr sync s = s"
| "wake_up_common A (w # ws) mode nr sync s =
     (if state (tasks s (wtask w)) AND mode \<noteq> 0
      then (case try_to_wake_up A (wtask w) sync s of
              (s1, success) \<Rightarrow>
                if success \<and> exclusive w
                then (if nr - 1 = 0 then s1 else wake_up_common A ws mode (nr - 1) sync s1)
                else wake_up_common A ws mode nr sync s1)
      else wake_up_common A ws mode nr sync s)"

definition wake_up :: "arch \<Rightarrow> wait_entry list option \<Rightarrow> int \<Rightarrow> int \<Rightarrow> sched \<Rightarrow> sched" where
  "wake_up A q mode nr s = (case q of None \<Rightarrow> s | Some ws \<Rightarrow> wake_up_common A ws mode nr False s)"

definition wake_up_sync :: "arch \<Rightarrow> wait_entry list option \<Rightarrow> int \<Rightarrow> int \<Rightarrow> sched \<Rightarrow> sched" where
  "wake_up_sync A q mode nr s =
     (case q of None \<Rightarrow> s
      | Some ws \<Rightarrow> if nr \<noteq> 0 then wake_up_common A ws mode nr True s else wake_up_common A ws mode nr False s)"

record completion =
  cdone :: u32
  cwait :: "wait_entry list"

definition complete :: "arch \<Rightarrow> completion \<Rightarrow> sched \<Rightarrow> completion \<times> sched" where
  "complete A x s =
     (let x1 = x\<lparr>cdone := cdone x + 1\<rparr>
      in (x1, wake_up_common A (cwait x1) (TASK_UNINTERRUPTIBLE OR TASK_INTERRUPTIBLE) 1 False s))"

text \<open>
  \<open>wait_for_completion\<close>: it returns at once when the completion is done, and otherwise queues the
  caller and sleeps. When the caller runs again it sleeps again unless the completion is done by then.
\<close>

definition wait_sleep :: "arch \<Rightarrow> completion \<Rightarrow> sched \<Rightarrow> completion \<times> (fault + sched) option" where
  "wait_sleep A x s =
     (x, schedule A (upd_task (current s) (\<lambda>t. t\<lparr>state := TASK_UNINTERRUPTIBLE\<rparr>) s))"

definition wait_for_completion_enter ::
  "arch \<Rightarrow> completion \<Rightarrow> sched \<Rightarrow> completion \<times> (fault + sched) option" where
  "wait_for_completion_enter A x s =
     (if cdone x = 0
      then wait_sleep A (x\<lparr>cwait := cwait x @ [\<lparr>wtask = current s, exclusive = True\<rparr>]\<rparr>) s
      else (x\<lparr>cdone := cdone x - 1\<rparr>, Some (Inr s)))"

definition remove_wait_task :: "tid \<Rightarrow> wait_entry list \<Rightarrow> wait_entry list" where
  "remove_wait_task p ws = filter (\<lambda>w. wtask w \<noteq> p) ws"

definition wait_for_completion_resume ::
  "arch \<Rightarrow> completion \<Rightarrow> sched \<Rightarrow> completion \<times> (fault + sched) option" where
  "wait_for_completion_resume A x s =
     (if cdone x = 0 then wait_sleep A x s
      else (x\<lparr>cwait := remove_wait_task (current s) (cwait x), cdone := cdone x - 1\<rparr>, Some (Inr s)))"

text \<open>\<open>sleep_on\<close> and \<open>interruptible_sleep_on\<close>: the state they sleep in, the queue, the sleep.\<close>

definition sleep_on_enter ::
  "arch \<Rightarrow> int \<Rightarrow> wait_entry list \<Rightarrow> sched \<Rightarrow> wait_entry list \<times> (fault + sched) option" where
  "sleep_on_enter A st q s =
     (let s1 = upd_task (current s) (\<lambda>t. t\<lparr>state := st\<rparr>) s
      in (\<lparr>wtask = current s, exclusive = False\<rparr> # q, schedule A s1))"

definition sleep_on_leave :: "wait_entry list \<Rightarrow> sched \<Rightarrow> wait_entry list" where
  "sleep_on_leave q s = remove_wait_task (current s) q"

definition interruptible_sleep_on ::
  "arch \<Rightarrow> wait_entry list \<Rightarrow> sched \<Rightarrow> wait_entry list \<times> (fault + sched) option" where
  "interruptible_sleep_on A q s = sleep_on_enter A TASK_INTERRUPTIBLE q s"

definition sleep_on ::
  "arch \<Rightarrow> wait_entry list \<Rightarrow> sched \<Rightarrow> wait_entry list \<times> (fault + sched) option" where
  "sleep_on A q s = sleep_on_enter A TASK_UNINTERRUPTIBLE q s"

text \<open>With a timeout \<^verbatim>\<open>schedule_timeout\<close>, which is not in the repository and an argument, takes the place of
  \<open>schedule\<close> and gives the time that is left, the result of the call.\<close>

definition timeout_enter ::
  "(int \<Rightarrow> sched \<Rightarrow> (fault + sched \<times> int) option) \<Rightarrow> int \<Rightarrow> int \<Rightarrow> wait_entry list \<Rightarrow> sched \<Rightarrow>
     wait_entry list \<times> (fault + sched \<times> int) option" where
  "timeout_enter schedule_timeout st timeout q s =
     (let s1 = upd_task (current s) (\<lambda>t. t\<lparr>state := st\<rparr>) s
      in (\<lparr>wtask = current s, exclusive = False\<rparr> # q, schedule_timeout timeout s1))"

definition interruptible_sleep_on_timeout ::
  "(int \<Rightarrow> sched \<Rightarrow> (fault + sched \<times> int) option) \<Rightarrow> int \<Rightarrow> wait_entry list \<Rightarrow> sched \<Rightarrow>
     wait_entry list \<times> (fault + sched \<times> int) option" where
  "interruptible_sleep_on_timeout schedule_timeout = timeout_enter schedule_timeout TASK_INTERRUPTIBLE"

definition sleep_on_timeout ::
  "(int \<Rightarrow> sched \<Rightarrow> (fault + sched \<times> int) option) \<Rightarrow> int \<Rightarrow> wait_entry list \<Rightarrow> sched \<Rightarrow>
     wait_entry list \<times> (fault + sched \<times> int) option" where
  "sleep_on_timeout schedule_timeout = timeout_enter schedule_timeout TASK_UNINTERRUPTIBLE"

text \<open>When it only sleeps, it does what the call without a timeout does.\<close>

lemma timeout_enter_schedule:
  "timeout_enter (\<lambda>n s. map_option (map_sum id (\<lambda>s1. (s1, n))) (schedule A s)) st n q s =
     map_prod id (map_option (map_sum id (\<lambda>s1. (s1, n)))) (sleep_on_enter A st q s)"
  by (simp add: timeout_enter_def sleep_on_enter_def Let_def)

subsection \<open>The wake-one rule\<close>

text \<open>
  \<open>sleeping\<close>: the task of the entry is in one of the states to wake and is on no queue. \<open>wake_list\<close> is
  what a wake-up of one exclusive waiter has to wake: all matching entries up to the first exclusive
  one that is asleep, and nothing behind it.
\<close>

definition matching :: "sched \<Rightarrow> int \<Rightarrow> wait_entry \<Rightarrow> bool" where
  "matching s mode w \<longleftrightarrow> state (tasks s (wtask w)) AND mode \<noteq> 0"

definition sleeping :: "sched \<Rightarrow> int \<Rightarrow> wait_entry \<Rightarrow> bool" where
  "sleeping s mode w \<longleftrightarrow> matching s mode w \<and> array (tasks s (wtask w)) = None"

fun wake_list :: "(wait_entry \<Rightarrow> bool) \<Rightarrow> (wait_entry \<Rightarrow> bool) \<Rightarrow> wait_entry list \<Rightarrow> wait_entry list" where
  "wake_list match sleep [] = []"
| "wake_list match sleep (w # ws) =
     (if sleep w \<and> exclusive w then [w]
      else if match w then w # wake_list match sleep ws else wake_list match sleep ws)"

definition wake_all :: "arch \<Rightarrow> bool \<Rightarrow> wait_entry list \<Rightarrow> sched \<Rightarrow> sched" where
  "wake_all A sync ws s = fold (\<lambda>w s. fst (try_to_wake_up A (wtask w) sync s)) ws s"

lemma try_to_wake_up_other:
  assumes "q \<noteq> p"
  shows "state (tasks (fst (try_to_wake_up A p sync s)) q) = state (tasks s q)"
    "array (tasks (fst (try_to_wake_up A p sync s)) q) = array (tasks s q)"
  using assms by (auto simp: try_to_wake_up_def Let_def resched_task_def set_tsk_need_resched_def
      activate_task_sel)

lemma try_to_wake_up_self:
  "state (tasks (fst (try_to_wake_up A p sync s)) p) = TASK_RUNNING"
  "array (tasks (fst (try_to_wake_up A p sync s)) p) \<noteq> None"
  by (auto simp: try_to_wake_up_def Let_def resched_task_def set_tsk_need_resched_def
      activate_task_sel)

lemma try_to_wake_up_success: "snd (try_to_wake_up A p sync s) \<longleftrightarrow> array (tasks s p) = None"
  by (simp add: try_to_wake_up_def Let_def)

lemma wake_list_cong:
  "(\<And>w. w \<in> set ws \<Longrightarrow> m w = m' w \<and> sl w = sl' w) \<Longrightarrow> wake_list m sl ws = wake_list m' sl' ws"
  by (induction ws) auto

text \<open>\<open>__wake_up_common\<close> for one exclusive waiter wakes exactly the tasks of the wake list.\<close>

lemma wake_one:
  assumes "distinct (map wtask ws)"
  shows "wake_up_common A ws mode 1 sync s =
    wake_all A sync (wake_list (matching s mode) (sleeping s mode) ws) s"
  using assms
proof (induction ws arbitrary: s)
  case Nil
  then show ?case by (simp add: wake_all_def)
next
  case (Cons w ws)
  let ?s1 = "fst (try_to_wake_up A (wtask w) sync s)"
  have same: "wake_list (matching ?s1 mode) (sleeping ?s1 mode) ws =
      wake_list (matching s mode) (sleeping s mode) ws"
    using Cons.prems
    by (intro wake_list_cong)
       (auto simp: matching_def sleeping_def try_to_wake_up_other image_iff)
  have sl: "sleeping s mode w \<longleftrightarrow> matching s mode w \<and> snd (try_to_wake_up A (wtask w) sync s)"
    by (simp add: sleeping_def try_to_wake_up_success)
  show ?case
    using Cons.IH [of s] Cons.IH [of ?s1] Cons.prems same sl
    by (auto simp: wake_all_def matching_def [of s mode w] split: prod.splits)
qed

subsection \<open>The invariant\<close>

lemma try_to_wake_up_idle [simp]: "idle (rq (fst (try_to_wake_up A p sync s))) = idle (rq s)"
  by (simp add: try_to_wake_up_def Let_def resched_task_def set_tsk_need_resched_def activate_task_sel)

lemma try_to_wake_up_current [simp]: "current (fst (try_to_wake_up A p sync s)) = current s"
  by (simp add: try_to_wake_up_def Let_def resched_task_def set_tsk_need_resched_def activate_task_sel)

lemma wake_up_common_wf:
  "sched_wf A s \<Longrightarrow> (\<And>w. w \<in> set ws \<Longrightarrow> wtask w \<noteq> idle (rq s) \<and> wtask w < TID_MAX) \<Longrightarrow>
   sched_wf A (wake_up_common A ws mode nr sync s) \<and>
   idle (rq (wake_up_common A ws mode nr sync s)) = idle (rq s) \<and>
   current (wake_up_common A ws mode nr sync s) = current s"
proof (induction ws arbitrary: s nr)
  case (Cons w ws)
  let ?s1 = "fst (try_to_wake_up A (wtask w) sync s)"
  have w: "sched_wf A ?s1" using Cons.prems by (intro try_to_wake_up_wf) auto
  have "sched_wf A (wake_up_common A ws mode n sync ?s1) \<and>
   idle (rq (wake_up_common A ws mode n sync ?s1)) = idle (rq s) \<and>
   current (wake_up_common A ws mode n sync ?s1) = current s" for n
    using Cons.IH [OF w, of n] Cons.prems by simp
  moreover have "sched_wf A (wake_up_common A ws mode nr sync s) \<and>
   idle (rq (wake_up_common A ws mode nr sync s)) = idle (rq s) \<and>
   current (wake_up_common A ws mode nr sync s) = current s"
    using Cons.IH [OF Cons.prems(1), of nr] Cons.prems by simp
  moreover obtain s1 b where e: "try_to_wake_up A (wtask w) sync s = (s1, b)" by fastforce
  moreover have "idle (rq s1) = idle (rq s)" "current s1 = current s"
    using try_to_wake_up_idle [of A "wtask w" sync s] try_to_wake_up_current [of A "wtask w" sync s]
    by (simp_all add: e)
  ultimately show ?case using w by auto
qed simp

end
