(* ===== verification/Sched_Machine.thy ===== *)
theory Sched_Machine
  imports Sched_Policy Wait_Queue
begin

text \<open>
  HW2, the scheduler as a machine: booting (\<open>sched_init\<close>, \<open>init_idle\<close>), the scheduling part of
  \<open>do_fork\<close> (\<^verbatim>\<open>HW2/kernel/fork.c\<close>), and the operations of the other theories as the steps of a
  machine, which interprets the contract \<open>safe_machine\<close>: no sequence of operations faults or
  diverges, and the invariant \<open>sched_wf\<close> holds all along. The properties of the scheduler follow.
\<close>

unbundle bit_operations_syntax

subsection \<open>Booting\<close>

definition init_array :: "prio_array \<Rightarrow> prio_array" where
  "init_array x = x\<lparr>queue := (\<lambda>k. if k < 140 then [] else queue x k),
                    bitmap := (\<lambda>k. if k < 140 then False else if k = 140 then True else bitmap x k)\<rparr>"

definition init_rq :: "runqueue \<Rightarrow> runqueue" where
  "init_rq r = r\<lparr>active := 0, expired := 1, short_pr := 2,
                arrays := (\<lambda>j. if j < 3 then init_array (arrays r j) else arrays r j)\<rparr>"

text \<open>\<^verbatim>\<open>init_mm\<close> is the address space 0.\<close>

definition sched_init :: "arch \<Rightarrow> sched \<Rightarrow> sched" where
  "sched_init A s =
     (let s1 = upd_rq (\<lambda>r. (init_rq r)\<lparr>curr := current s, idle := current s\<rparr>) s;
          s2 = fst (wake_up_process A (current s1) s1)
      in s2\<lparr>mm_count := (mm_count s2)(0 := mm_count s2 0 + 1)\<rparr>)"

definition init_idle :: "tid \<Rightarrow> sched \<Rightarrow> fault + sched" where
  "init_idle p s =
     (let s1 = upd_rq (\<lambda>r. r\<lparr>curr := p, idle := p\<rparr>) s
      in sbind (deactivate_task p s1) (\<lambda>s2.
         Inr (set_tsk_need_resched p
           (upd_task p (\<lambda>t. t\<lparr>array := None, prio := MAX_PRIO, state := TASK_RUNNING, cpu := 0\<rparr>) s2))))"

text \<open>Before \<open>sched_init\<close>: zeroed run queue, no task queued, the boot task is \<^verbatim>\<open>INIT_TASK\<close>.\<close>

definition boot_ok :: "arch \<Rightarrow> sched \<Rightarrow> bool" where
  "boot_ok A s \<longleftrightarrow>
     nr_running (rq s) = 0 \<and> (\<forall>a<3. nr_active (arrays (rq s) a) = 0) \<and> (\<forall>h. pidhash s h = []) \<and>
     (\<forall>p. array (tasks s p) = None \<and> task_wf A (tasks s p) \<and>
          (mm (tasks s p) \<noteq> None \<longrightarrow> active_mm (tasks s p) \<noteq> None)) \<and>
     policy (tasks s (current s)) = SCHED_OTHER \<and> state (tasks s (current s)) = TASK_RUNNING \<and>
     active_mm (tasks s (current s)) \<noteq> None \<and> current s < TID_MAX"

lemma init_rq_ok:
  assumes "\<forall>a<3. nr_active (arrays r a) = 0"
  shows "rq_ok (\<lambda>_. None) (init_rq r)"
  using assms by (simp add: rq_ok_def placement_range_def queues_ok_def bitmaps_ok_def counts_ok_def
      on_array_def init_rq_def init_array_def)

lemma boot_wf_state:
  assumes b: "boot_ok A s"
  shows "\<exists>s'. init_idle (current s) (sched_init A s) = Inr s' \<and> sched_wf A s' \<and> current s' = current s \<and>
    idle (rq s') = current s \<and> need_resched (tasks s' (current s'))"
proof -
  let ?p = "current s"
  define r0 where "r0 = (init_rq (rq s))\<lparr>curr := ?p, idle := ?p\<rparr>"
  define s1 where "s1 = upd_rq (\<lambda>r. (init_rq r)\<lparr>curr := ?p, idle := ?p\<rparr>) s"
  have r: "rq s1 = r0" "tasks s1 = tasks s" "current s1 = ?p" "jiffies s1 = jiffies s" "pidhash s1 = pidhash s"
    by (simp_all add: s1_def r0_def)
  have p: "array (tasks s ?p) = None" "task_wf A (tasks s ?p)" "policy (tasks s ?p) = SCHED_OTHER"
    "state (tasks s ?p) = TASK_RUNNING" "?p < TID_MAX"
    using b by (simp_all add: boot_ok_def)
  define t where "t = activated A s1 (tasks s ?p)"
  define k where "k = qkey t"
  have t: "task_wf A t" "policy t = SCHED_OTHER" "array t = None" "state t = TASK_RUNNING"
    using p by (simp_all add: t_def activated_wf)
  have k: "k < 140" using qkey_range [OF t(1)] by (simp add: k_def)
  have ok0: "rq_ok (\<lambda>_. None) r0"
    using init_rq_ok [of "rq s"] b
    by (simp add: r0_def boot_ok_def rq_ok_cong [of "(init_rq (rq s))\<lparr>curr := ?p, idle := ?p\<rparr>" "init_rq (rq s)"])
  have ok1: "rq_ok ((\<lambda>_. None)(?p \<mapsto> (0, k))) (rq_enqueue ?p k 0 r0)"
    by (rule pq.enq_ok [OF ok0]) (use k p(5) in auto)
  have ok2: "rq_ok (\<lambda>_. None) (rq_dequeue ?p k 0 (rq_enqueue ?p k 0 r0))"
  proof -
    have e: "((\<lambda>_. None)(?p \<mapsto> (0, k)))(?p := None) = (\<lambda>_. None)" by auto
    show ?thesis using pq.deq_ok [OF ok1, of ?p 0 k] by (simp only: e fun_upd_same)
  qed
  define si where "si = sched_init A s"
  have a0: "active r0 = 0" "expired r0 = 1" "short_pr r0 = 2" "nr_running r0 = 0" "curr r0 = ?p" "idle r0 = ?p"
    using b by (simp_all add: r0_def init_rq_def boot_ok_def)
  have ca: "class_array r0 (tasks s ?p) = 0" using p(3) a0 by (simp add: class_array_def)
  have si: "tasks si = (tasks s)(?p := t\<lparr>array := Some 0, state := TASK_RUNNING\<rparr>)"
    "rq si = (rq_enqueue ?p k 0 r0)\<lparr>nr_running := 1\<rparr>" "current si = ?p" "pidhash si = pidhash s"
    using p(1,3,4) a0 ca t(2)
    by (simp_all add: si_def sched_init_def Let_def s1_def [symmetric] wake_up_process_def try_to_wake_up_def
        r activate_task_eq t_def [symmetric] k_def wake_preempts_def rt_task_def)
  have qk: "qkey (t\<lparr>array := Some 0, state := 0\<rparr>) = k" by (simp add: k_def qkey_def)
  define si1 where "si1 = upd_rq (\<lambda>r. r\<lparr>curr := ?p, idle := ?p\<rparr>) si"
  define s2 where "s2 = upd_task ?p (\<lambda>t. t\<lparr>array := None\<rparr>) (dequeue_task ?p 0
     (upd_rq (\<lambda>r. r\<lparr>nr_running := nr_running r - 1,
                  nr_uninterruptible := (if state (tasks si1 ?p) = TASK_UNINTERRUPTIBLE
                    then nr_uninterruptible r + 1 else nr_uninterruptible r)\<rparr>) si1))"
  have d: "deactivate_task ?p si1 = Inr s2"
    by (simp add: deactivate_task_def Let_def si1_def si s2_def)
  define s' where "s' = set_tsk_need_resched ?p
           (upd_task ?p (\<lambda>t. t\<lparr>array := None, prio := MAX_PRIO, state := TASK_RUNNING, cpu := 0\<rparr>) s2)"
  have init: "init_idle ?p si = Inr s'"
    using d by (simp add: init_idle_def Let_def si1_def s'_def)
  have arr: "array (tasks s' q) = None" for q
    using b by (simp add: s'_def s2_def si1_def si set_tsk_need_resched_def boot_ok_def)
  have loc: "tloc s' = (\<lambda>_. None)" by (rule ext) (simp add: tloc_def tplace_def arr)
  have ars: "arrays (rq s') = arrays (rq_dequeue ?p k 0 (rq_enqueue ?p k 0 r0))"
    by (simp add: s'_def s2_def si1_def si set_tsk_need_resched_def rq_dequeue_def rq_enqueue_def
        list_del_def upd_array_def Let_def qk del: tplace_array)
  have ptr: "active (rq s') = 0" "expired (rq s') = 1" "short_pr (rq s') = 2" "nr_running (rq s') = 0"
    "curr (rq s') = ?p" "idle (rq s') = ?p" "current s' = ?p" "pidhash s' = pidhash s"
    by (simp_all add: s'_def s2_def si1_def si set_tsk_need_resched_def a0)
  have ts: "task_wf A (tasks s' q) \<and> place_wf (rq s') (tasks s' q)" if "q \<noteq> ?p" for q
    using that b by (simp add: s'_def s2_def si1_def si set_tsk_need_resched_def boot_ok_def place_wf_def)
  have mm: "mm_wf s'"
    using b by (auto simp: mm_wf_def s'_def s2_def si1_def si set_tsk_need_resched_def boot_ok_def t_def)
  have "idle_wf s'"
    using arr by (simp add: idle_wf_def ptr) (simp add: s'_def set_tsk_need_resched_def)
  moreover have "rq_ok (tloc s') (rq s')" using ok2 by (simp only: loc rq_ok_cong [OF ars])
  ultimately have "sched_wf A s'"
    using ts mm b by (simp add: sched_wf_def queues_wf_def ptr nr_ok_def loc arrays_ok_def hash_wf_def boot_ok_def)
  moreover have "need_resched (tasks s' (current s'))"
    by (simp add: ptr) (simp add: s'_def set_tsk_need_resched_def)
  ultimately show ?thesis using init ptr by (simp add: si_def)
qed


subsection \<open>Forking\<close>

text \<open>
  The scheduling part of \<open>do_fork\<close>: the refusal for SHORT tasks, the copied task record \<open>p\<close> with its
  fresh pid, the sharing of the time slice (with the tick of the rare case) and the wake-up. The
  address space that \<^verbatim>\<open>copy_mm\<close> gives the child is the argument \<open>m\<close>; the allocations of the other
  copies succeed.
\<close>

definition fork_copy :: "tid \<Rightarrow> pid \<Rightarrow> nat option \<Rightarrow> sched \<Rightarrow> sched" where
  "fork_copy p newpid m s =
     upd_task p (\<lambda>_. let c = tasks s (current s) in
       c\<lparr>cpus_allowed_mask := cpus_allowed_mask c AND cpus_allowed c, state := TASK_UNINTERRUPTIBLE,
         tpid := newpid, sigpending := False, array := None, mm := m, active_mm := m\<rparr>) s"

definition fork_share :: "arch \<Rightarrow> tid \<Rightarrow> sched \<Rightarrow> fault + sched" where
  "fork_share A p s =
     (let c = current s in
      if time_slice (tasks s c) = 0 then Inl Kernel_Bug
      else let s1 = upd_task p (\<lambda>t. t\<lparr>time_slice := drop_bit 1 (time_slice (tasks s c) + 1),
                                     first_time_slice := 1\<rparr>) s;
               s2 = upd_task c (\<lambda>t. t\<lparr>time_slice := drop_bit 1 (time_slice t)\<rparr>) s1;
               s3 = upd_task p (\<lambda>t. t\<lparr>sleep_timestamp := jiffies s2\<rparr>) s2
           in if time_slice (tasks s3 c) = 0
              then Inr (scheduler_tick A False 0 0 (upd_task c (\<lambda>t. t\<lparr>time_slice := 1\<rparr>) s3))
              else Inr s3)"

text \<open>The refusal at the head of the call, and its end without \<open>CLONE_VFORK\<close>: the child is found by its pid and woken,
  and the caller is asked to make room for it.\<close>

definition fork_refused :: "sched \<Rightarrow> bool" where
  "fork_refused s \<longleftrightarrow> policy (tasks s (current s)) = SCHED_SHORT"

definition fork_wake :: "arch \<Rightarrow> tid \<Rightarrow> sched \<Rightarrow> sched" where
  "fork_wake A p s =
     (let s2 = s\<lparr>pidhash := hash_pid (\<lambda>t. tpid (tasks s t)) p (pidhash s)\<rparr>;
          s3 = wake_up_forked_process A p s2
      in set_tsk_need_resched (current s3) s3)"

definition do_fork_sched :: "arch \<Rightarrow> tid \<Rightarrow> pid \<Rightarrow> nat option \<Rightarrow> sched \<Rightarrow> fault + (sched \<times> int)" where
  "do_fork_sched A p newpid m s =
     (if fork_refused s then Inr (s, - EPERM)
      else map_sum id (\<lambda>s1. (fork_wake A p s1, newpid)) (fork_share A p (fork_copy p newpid m s)))"

lemma new_task_wf:
  assumes wf: "queues_wf A s" and off: "array (tasks s p) = None" and p: "p \<noteq> idle (rq s)" "p \<noteq> current s"
    and t: "task_wf A t'" "array t' = None" "mm t' \<noteq> None \<Longrightarrow> active_mm t' \<noteq> None"
  shows "queues_wf A (upd_task p (\<lambda>_. t') s)"
proof -
  have loc: "tloc (upd_task p (\<lambda>_. t') s) = tloc s"
    using off t(2) by (auto simp: tloc_def tplace_def)
  have "mm_wf (upd_task p (\<lambda>_. t') s)"
    using queues_wfD(4) [OF wf] p(2) t(3) by (auto simp: mm_wf_def)
  then show ?thesis
    using queues_wfD(1-3,5-9) [OF wf] p(1) t(1,2)
    by (auto simp: queues_wf_def nr_ok_def loc idle_wf_def hash_wf_def place_wf_def simp del: tloc_upd_task)
qed

lemma half_word:
  fixes w :: u32
  assumes "w \<noteq> 0" "unat w \<le> 1024"
  shows "unat (drop_bit 1 (w + 1)) = (unat w + 1) div 2" "unat (drop_bit 1 w) = unat w div 2"
    "drop_bit 1 (w + 1) \<noteq> 0" "drop_bit 1 (w + 1) \<le> w" "drop_bit 1 w \<le> w"
proof -
  have w: "unat (w + 1) = unat w + 1" using assms(2) by (simp add: unat_word_ariths)
  show h: "unat (drop_bit 1 (w + 1)) = (unat w + 1) div 2" "unat (drop_bit 1 w) = unat w div 2"
    by (simp_all only: unat_drop_bit_eq w) (simp_all add: drop_bit_eq_div)
  have "unat w \<noteq> 0" using assms(1) unat_eq_0 by blast
  then have "1 \<le> unat w" by simp
  then have "(unat w + 1) div 2 \<noteq> 0" "(unat w + 1) div 2 \<le> unat w" by linarith+
  with h show "drop_bit 1 (w + 1) \<noteq> 0" "drop_bit 1 (w + 1) \<le> w" "drop_bit 1 w \<le> w"
    by (auto simp: word_le_nat_alt simp flip: unat_eq_0)
qed

lemma slice_small: "arch_ok A \<Longrightarrow> w \<le> of_int (HZ A) \<Longrightarrow> unat (w :: u32) \<le> 1024"
proof -
  assume A: "arch_ok A" and "w \<le> of_int (HZ A)"
  then have "unat w \<le> nat (HZ A)" using HZ_word by (simp add: word_le_nat_alt)
  moreover have "nat (HZ A) \<le> 1024" using A by (simp add: arch_ok_def nat_le_iff)
  ultimately show ?thesis by linarith
qed

lemma set_slice_wf:
  "queues_wf A s \<Longrightarrow> v \<noteq> 0 \<Longrightarrow> v \<le> of_int (HZ A) \<Longrightarrow> queues_wf A (upd_task p (\<lambda>t. t\<lparr>time_slice := v\<rparr>) s)"
  by (rule queues_wf_upd_task) (auto simp: task_wf_def)

lemma set_first_slice_wf:
  "queues_wf A s \<Longrightarrow> queues_wf A (upd_task p (\<lambda>t. t\<lparr>first_time_slice := v\<rparr>) s)"
  by (rule queues_wf_upd_task) simp_all

lemma fork_copy_wf:
  assumes wf: "sched_wf A s" and c: "current s \<noteq> idle (rq s)" and off: "array (tasks s p) = None"
    and p: "p \<noteq> idle (rq s)"
  shows "sched_wf A (fork_copy p newpid m s)"
proof -
  have pc: "p \<noteq> current s" using off sched_wfD(2) [OF wf c] by auto
  have "queues_wf A (fork_copy p newpid m s)"
    unfolding fork_copy_def Let_def
    using queues_wfD(6) [OF sched_wfD(1) [OF wf] c]
    by (intro new_task_wf [OF sched_wfD(1) [OF wf] off p pc]) (simp_all add: task_wf_def)
  with wf pc show ?thesis by (auto simp: sched_wf_def fork_copy_def)
qed

text \<open>The tick changes no task but the current one.\<close>

lemma tick_frame:
  "q \<noteq> p \<Longrightarrow> tasks (tick_rt A p s) q = tasks s q" "pidhash (tick_rt A p s) = pidhash s"
  "q \<noteq> p \<Longrightarrow> tasks (tick_other A p s) q = tasks s q" "pidhash (tick_other A p s) = pidhash s"
  "q \<noteq> p \<Longrightarrow> tasks (tick_short A p s) q = tasks s q" "pidhash (tick_short A p s) = pidhash s"
  by (simp_all add: tick_rt_def tick_other_def tick_short_def set_tsk_need_resched_def Let_def)

lemma scheduler_tick_frame:
  "q \<noteq> current s \<Longrightarrow> tasks (scheduler_tick A bh u sy s) q = tasks s q"
  "current (scheduler_tick A bh u sy s) = current s"
  "idle (rq (scheduler_tick A bh u sy s)) = idle (rq s)"
  "pidhash (scheduler_tick A bh u sy s) = pidhash s"
  by (simp_all add: scheduler_tick_def Let_def tick_frame tick_current(1,2,4,5,7,8) set_tsk_need_resched_def)

text \<open>The two halves of the parent's slice; the parent keeps at least one tick.\<close>

lemma fork_share_ok:
  assumes A: "arch_ok A" and wf: "sched_wf A s" and c: "current s \<noteq> idle (rq s)"
    and off: "array (tasks s p) = None" and p: "p \<noteq> idle (rq s)"
  shows "\<exists>s'. fork_share A p s = Inr s' \<and> sched_wf A s' \<and> array (tasks s' p) = None \<and>
    current s' = current s \<and> idle (rq s') = idle (rq s) \<and> pidhash s' = pidhash s \<and>
    tpid (tasks s' p) = tpid (tasks s p) \<and>
    unat (time_slice (tasks s' p)) = (unat (time_slice (tasks s (current s))) + 1) div 2 \<and>
    (2 \<le> unat (time_slice (tasks s (current s))) \<longrightarrow>
       unat (time_slice (tasks s' (current s))) = unat (time_slice (tasks s (current s))) div 2)"
proof -
  let ?c = "current s"
  note q = sched_wfD(1) [OF wf]
  note tc = task_wf_common [OF queues_wfD(6) [OF q c]]
  have pc: "p \<noteq> ?c" using off sched_wfD(2) [OF wf c] by auto
  define w where "w = time_slice (tasks s ?c)"
  have w: "w \<noteq> 0" "w \<le> of_int (HZ A)" "unat w \<le> 1024"
    using tc slice_small [OF A] by (simp_all add: w_def)
  note h = half_word [OF w(1,3)]
  define X where "X v = upd_task p (\<lambda>t. t\<lparr>sleep_timestamp := jiffies s\<rparr>)
     (upd_task ?c (\<lambda>t. t\<lparr>time_slice := v\<rparr>)
       (upd_task p (\<lambda>t. t\<lparr>first_time_slice := 1\<rparr>) (upd_task p (\<lambda>t. t\<lparr>time_slice := drop_bit 1 (w + 1)\<rparr>) s)))" for v
  have qX: "queues_wf A (X v)" if "v \<noteq> 0" "v \<le> w" for v
    unfolding X_def using that w(2) h
    by (intro set_timestamp_wf set_slice_wf set_first_slice_wf q) auto
  have wX: "sched_wf A (X v)" if "v \<noteq> 0" "v \<le> w" for v
    using qX [OF that] wf pc by (auto simp: sched_wf_def X_def)
  have X: "array (tasks (X v) p) = None" "current (X v) = ?c" "idle (rq (X v)) = idle (rq s)"
    "pidhash (X v) = pidhash s" "tpid (tasks (X v) p) = tpid (tasks s p)"
    "time_slice (tasks (X v) p) = drop_bit 1 (w + 1)" "time_slice (tasks (X v) ?c) = v" for v
    using off pc by (simp_all add: X_def)
  have e: "fork_share A p s = Inr (if drop_bit 1 w = 0 then scheduler_tick A False 0 0 (X 1) else X (drop_bit 1 w))"
    using w(1) pc by (simp add: fork_share_def Let_def X_def w_def upd_task_def fun_upd_twist)
  have tick: "array (tasks (scheduler_tick A False 0 0 (X 1)) p) = None"
    "current (scheduler_tick A False 0 0 (X 1)) = ?c" "idle (rq (scheduler_tick A False 0 0 (X 1))) = idle (rq s)"
    "pidhash (scheduler_tick A False 0 0 (X 1)) = pidhash s"
    "tpid (tasks (scheduler_tick A False 0 0 (X 1)) p) = tpid (tasks s p)"
    "time_slice (tasks (scheduler_tick A False 0 0 (X 1)) p) = drop_bit 1 (w + 1)"
    using X [of 1] pc by (simp_all add: scheduler_tick_frame)
  show ?thesis
  proof (cases "drop_bit 1 w = 0")
    case True
    have "sched_wf A (X 1)" using w(1) by (intro wX) (auto intro: u32_ge_1)
    moreover have "unat w div 2 = 0" using h(2) True by simp
    then have "\<not> 2 \<le> unat w" by (simp add: div_eq_0_iff)
    ultimately show ?thesis using scheduler_tick_wf [OF A] True tick h(1) e by (simp add: w_def)
  next
    case False
    with wX [OF this h(5)] X h(1,2) e show ?thesis by (simp add: w_def)
  qed
qed


lemma hash_pid_wf:
  assumes wf: "sched_wf A s" and p: "p \<noteq> idle (rq s)" "p < TID_MAX"
  shows "sched_wf A (s\<lparr>pidhash := hash_pid pids p (pidhash s)\<rparr>)"
proof -
  let ?s = "s\<lparr>pidhash := hash_pid pids p (pidhash s)\<rparr>"
  have "tloc ?s = tloc s" by (rule tloc_same_tasks) simp
  with assms show ?thesis
    by (auto simp: sched_wf_def queues_wf_def nr_ok_def mm_wf_def idle_wf_def hash_wf_def hash_pid_def)
qed

lemma fork_slices:
  "current (wake_up_forked_process A p s) = current s"
  "time_slice (tasks (wake_up_forked_process A p s) q) = time_slice (tasks s q)"
  by (simp_all add: wake_up_forked_process_def activate_task_def enqueue_task_def sleep_bonus_def upd_rq_def Let_def)

lemma do_fork_sched_ok:
  assumes A: "arch_ok A" and wf: "sched_wf A s" and c: "current s \<noteq> idle (rq s)"
    and off: "array (tasks s p) = None" and p: "p \<noteq> idle (rq s)" "p < TID_MAX"
  shows "\<exists>s' r. do_fork_sched A p newpid m s = Inr (s', r) \<and> sched_wf A s' \<and>
    (policy (tasks s (current s)) = SCHED_SHORT \<longrightarrow> s' = s \<and> r = - EPERM) \<and>
    (policy (tasks s (current s)) \<noteq> SCHED_SHORT \<longrightarrow> r = newpid \<and> array (tasks s' p) \<noteq> None \<and>
       need_resched (tasks s' (current s')) \<and> current s' = current s \<and>
       unat (time_slice (tasks s' p)) = (unat (time_slice (tasks s (current s))) + 1) div 2 \<and>
       (2 \<le> unat (time_slice (tasks s (current s))) \<longrightarrow>
          unat (time_slice (tasks s' (current s))) = unat (time_slice (tasks s (current s))) div 2))"
proof (cases "policy (tasks s (current s)) = SCHED_SHORT")
  case True
  with wf show ?thesis by (simp add: do_fork_sched_def fork_refused_def)
next
  case False
  define s0 where "s0 = fork_copy p newpid m s"
  have w0: "sched_wf A s0" unfolding s0_def by (rule fork_copy_wf [OF wf c off p(1)])
  have s0: "current s0 = current s" "idle (rq s0) = idle (rq s)" "array (tasks s0 p) = None"
    by (simp_all add: s0_def fork_copy_def Let_def)
  have pc: "p \<noteq> current s" using off sched_wfD(2) [OF wf c] by auto
  have t0: "time_slice (tasks s0 (current s)) = time_slice (tasks s (current s))"
    using pc by (simp add: s0_def fork_copy_def)
  obtain s1 where s1: "fork_share A p s0 = Inr s1" "sched_wf A s1" "array (tasks s1 p) = None"
    "current s1 = current s" "idle (rq s1) = idle (rq s)"
    "unat (time_slice (tasks s1 p)) = (unat (time_slice (tasks s (current s))) + 1) div 2"
    "2 \<le> unat (time_slice (tasks s (current s))) \<longrightarrow>
       unat (time_slice (tasks s1 (current s))) = unat (time_slice (tasks s (current s))) div 2"
    using fork_share_ok [OF A w0 _ s0(3)] c p(1) s0 t0 by auto
  define s2 where "s2 = s1\<lparr>pidhash := hash_pid (\<lambda>t. tpid (tasks s1 t)) p (pidhash s1)\<rparr>"
  have w2: "sched_wf A s2" unfolding s2_def by (rule hash_pid_wf [OF s1(2)]) (use p s1 in simp_all)
  define s3 where "s3 = wake_up_forked_process A p s2"
  have w3: "sched_wf A s3"
    unfolding s3_def by (rule wake_up_forked_process_wf [OF A w2]) (use p c s1 in \<open>simp_all add: s2_def\<close>)
  have a3: "array (tasks s3 p) \<noteq> None"
    by (simp add: s3_def wake_up_forked_process_def Let_def activate_task_sel)
  define s4 where "s4 = set_tsk_need_resched (current s3) s3"
  have "queues_wf A s4"
    unfolding s4_def set_tsk_need_resched_def by (rule set_need_resched_wf [OF sched_wfD(1) [OF w3]])
  then have "sched_wf A s4"
    by (rule sched_wf_upd_queues [OF w3]) (auto simp: s4_def set_tsk_need_resched_def split: if_splits)
  moreover have "do_fork_sched A p newpid m s = Inr (s4, newpid)"
    using False s1(1) by (simp add: do_fork_sched_def fork_refused_def fork_wake_def s0_def s2_def s3_def s4_def Let_def)
  moreover have "array (tasks s4 p) \<noteq> None" "need_resched (tasks s4 (current s4))"
    using a3 by (auto simp: s4_def set_tsk_need_resched_def)
  moreover have "current s4 = current s" "time_slice (tasks s4 q) = time_slice (tasks s1 q)" for q
    using s1(4) by (simp_all add: s4_def s3_def s2_def set_tsk_need_resched_def fork_slices)
  ultimately show ?thesis using False s1(6,7) by auto
qed


subsection \<open>The machine\<close>

text \<open>
  The operations the kernel performs on the scheduler. \<open>Op_sleep\<close> is a task that sets its state and
  calls \<open>schedule\<close>, \<open>Op_preempt\<close> a \<open>schedule\<close> on the way back to user mode, \<open>Op_signal\<close> a pending
  signal and \<open>Op_time\<close> the clock.
\<close>

datatype sched_op =
    Op_tick bool u32 u32
  | Op_time u32
  | Op_signal tid bool
  | Op_wake tid bool
  | Op_wake_queue "wait_entry list" int int bool
  | Op_sleep int
  | Op_preempt
  | Op_yield
  | Op_nice int
  | Op_user_nice tid int
  | Op_setscheduler pid int "sched_param uptr"
  | Op_setparam pid "sched_param uptr"
  | Op_setaffinity u32 pid int "u32 uptr"
  | Op_is_short pid
  | Op_place pid
  | Op_fork tid pid "nat option"
  | Op_reap tid

definition ran :: "(fault + sched) option \<Rightarrow> stuck + sched" where
  "ran r = (case r of None \<Rightarrow> Inl Diverged | Some (Inl e) \<Rightarrow> Inl (Faulted e) | Some (Inr s) \<Rightarrow> Inr s)"

definition called :: "fault + (sched \<times> int) \<Rightarrow> stuck + sched" where
  "called r = (case r of Inl e \<Rightarrow> Inl (Faulted e) | Inr (s, _) \<Rightarrow> Inr s)"

fun sched_step :: "arch \<Rightarrow> sched_op \<Rightarrow> sched \<Rightarrow> stuck + sched" where
  "sched_step A (Op_tick bh u sy) s = Inr (scheduler_tick A bh u sy s)"
| "sched_step A (Op_time d) s = Inr (s\<lparr>jiffies := jiffies s + d\<rparr>)"
| "sched_step A (Op_signal p b) s = Inr (upd_task p (\<lambda>t. t\<lparr>sigpending := b\<rparr>) s)"
| "sched_step A (Op_wake p sync) s = Inr (fst (try_to_wake_up A p sync s))"
| "sched_step A (Op_wake_queue ws mode nr sync) s = Inr (wake_up_common A ws mode nr sync s)"
| "sched_step A (Op_sleep st) s = ran (schedule A (upd_task (current s) (\<lambda>t. t\<lparr>state := st\<rparr>) s))"
| "sched_step A Op_preempt s = ran (schedule A s)"
| "sched_step A Op_yield s = ran (sys_sched_yield A s)"
| "sched_step A (Op_nice inc) s = Inr (fst (sys_nice inc s))"
| "sched_step A (Op_user_nice p n) s = Inr (set_user_nice p n s)"
| "sched_step A (Op_setscheduler x pol param) s = called (sys_sched_setscheduler A x pol param s)"
| "sched_step A (Op_setparam x param) s = called (sys_sched_setparam A x param s)"
| "sched_step A (Op_setaffinity online x len m) s = Inr (fst (sys_sched_setaffinity online x len m s))"
| "sched_step A (Op_is_short x) s = Inr (fst (sys_is_short x s))"
| "sched_step A (Op_place x) s = Inr (fst (sys_short_place_in_queue x s))"
| "sched_step A (Op_fork p newpid m) s = called (do_fork_sched A p newpid m s)"
| "sched_step A (Op_reap p) s = Inr (sched_exit A p s)"

text \<open>
  What the callers see to: system calls are made by a task and not by the idle task, only tasks other
  than the idle one are woken, reniced or reaped, and a fork uses a task record that is on no queue.
\<close>

fun op_ok :: "sched_op \<Rightarrow> sched \<Rightarrow> bool" where
  "op_ok (Op_wake p sync) s = (p \<noteq> idle (rq s) \<and> p < TID_MAX)"
| "op_ok (Op_wake_queue ws mode nr sync) s = (\<forall>w \<in> set ws. wtask w \<noteq> idle (rq s) \<and> wtask w < TID_MAX)"
| "op_ok (Op_sleep st) s = (current s \<noteq> idle (rq s))"
| "op_ok Op_yield s = (current s \<noteq> idle (rq s))"
| "op_ok (Op_nice inc) s = (current s \<noteq> idle (rq s))"
| "op_ok (Op_user_nice p n) s = (p \<noteq> idle (rq s))"
| "op_ok (Op_setscheduler x pol param) s = (current s \<noteq> idle (rq s))"
| "op_ok (Op_setparam x param) s = (current s \<noteq> idle (rq s))"
| "op_ok (Op_setaffinity online x len m) s = (current s \<noteq> idle (rq s))"
| "op_ok (Op_fork p newpid m) s =
     (current s \<noteq> idle (rq s) \<and> array (tasks s p) = None \<and> p \<noteq> idle (rq s) \<and> p < TID_MAX)"
| "op_ok (Op_reap p) s = (p \<noteq> idle (rq s))"
| "op_ok _ s = True"

lemma set_state_sched_wf:
  "sched_wf A s \<Longrightarrow> p \<noteq> idle (rq s) \<Longrightarrow> sched_wf A (upd_task p (\<lambda>t. t\<lparr>state := st\<rparr>) s)"
  using set_state_wf [of A s p st] by (auto simp: sched_wf_def)

lemma called_setscheduler:
  assumes "arch_ok A" "sched_wf A s" "current s \<noteq> idle (rq s)"
  shows "\<exists>s'. called (setscheduler A x pol param s) = Inr s' \<and> sched_wf A s'"
  using setscheduler_wf [OF assms, of x pol param] by (auto simp: called_def)

lemma sched_step_safe:
  assumes A: "arch_ok A" and wf: "sched_wf A s" and ok: "op_ok x s"
  shows "\<exists>s'. sched_step A x s = Inr s' \<and> sched_wf A s'"
proof (cases x)
  case (Op_time d)
  have "queues_wf A (s\<lparr>jiffies := jiffies s + d\<rparr>)"
    by (rule queues_wf_cong [OF sched_wfD(1) [OF wf]]) simp_all
  with wf Op_time show ?thesis by (simp add: sched_wf_def)
next
  case (Op_signal p b)
  have "queues_wf A (upd_task p (\<lambda>t. t\<lparr>sigpending := b\<rparr>) s)"
    by (rule queues_wf_upd_task [OF sched_wfD(1) [OF wf]])
       (auto simp: tplace_def qkey_def task_wf_def place_wf_def rt_task_def)
  with wf Op_signal show ?thesis by (auto simp: sched_wf_def)
next
  case (Op_wake_queue ws mode nr sync)
  with wake_up_common_wf [OF wf, of ws mode nr sync] ok show ?thesis by simp
next
  case (Op_sleep st)
  with schedule_ok [OF A set_state_sched_wf [OF wf, of "current s" st]] ok show ?thesis
    by (auto simp: ran_def)
next
  case Op_preempt
  with schedule_ok [OF A wf] show ?thesis by (auto simp: ran_def)
next
  case Op_yield
  with sys_sched_yield_ok [OF A wf] ok show ?thesis by (auto simp: ran_def)
next
  case (Op_fork p newpid m)
  with do_fork_sched_ok [OF A wf, of p newpid m] ok show ?thesis by (auto simp: called_def)
qed (use A wf ok called_setscheduler [OF A wf] in
  \<open>simp_all add: scheduler_tick_wf try_to_wake_up_wf sys_nice_wf set_user_nice_wf
     sys_sched_setscheduler_def sys_sched_setparam_def sys_sched_setaffinity_wf short_queries_wf sched_exit_wf\<close>)

interpretation hw2: safe_machine "sched_step A" op_ok "\<lambda>s. arch_ok A \<and> sched_wf A s"
  for A
  by unfold_locales (use sched_step_safe in auto)

end
