(* ===== verification/Sched_Props.thy ===== *)
theory Sched_Props
  imports Sched_Machine
begin

text \<open>
  HW2, the properties of the scheduler, each a few steps over the lemmas of the component theories,
  with their witnesses on one concrete state \<open>demo_sched\<close>: the idle task 0, an ordinary task 1, three
  SHORT tasks 2, 3 and 4 of which task 2 is running with one tick left, and a sleeping task 5.
\<close>

unbundle bit_operations_syntax

subsection \<open>The concrete state\<close>

definition base_task :: task where
  "base_task = \<lparr>state = 0, sigpending = False, need_resched = False, cpu = 0, prio = 120, static_prio = 120,
     array = None, sleep_avg = 0, sleep_timestamp = 0, policy = SCHED_OTHER, cpus_allowed = -1,
     cpus_allowed_mask = -1, time_slice = 80, first_time_slice = 0, tpid = 0, pgrp = 0, uid = 0, euid = 0,
     cap_sys_nice = True, rt_priority = 0, requested_time = 0, time_left = 0, short_prio = -1,
     mm = None, active_mm = None\<rparr>"

definition short_task :: "u32 \<Rightarrow> int \<Rightarrow> task" where
  "short_task left sp = base_task\<lparr>policy := SCHED_SHORT, array := Some 2, requested_time := 100,
     time_left := left, short_prio := sp, mm := Some 1, active_mm := Some 1\<rparr>"

definition demo_task :: "tid \<Rightarrow> task" where
  "demo_task p =
     (if p = 0 then base_task\<lparr>prio := 140\<rparr>
      else if p = 1 then base_task\<lparr>array := Some 0, mm := Some 1, active_mm := Some 1\<rparr>
      else if p = 2 then short_task 1 5
      else if p = 3 then short_task 40 5
      else if p = 4 then short_task 30 7
      else if p = 5 then base_task\<lparr>state := TASK_UNINTERRUPTIBLE\<rparr>
      else base_task)\<lparr>tpid := int p\<rparr>"

definition demo_queue :: "nat \<Rightarrow> nat \<Rightarrow> tid list" where
  "demo_queue a k = (if a = 0 \<and> k = 120 then [1] else if a = 2 \<and> k = 5 then [2, 3]
                     else if a = 2 \<and> k = 7 then [4] else [])"

definition demo_array :: "nat \<Rightarrow> prio_array" where
  "demo_array a = \<lparr>nr_active = (if a = 0 then 1 else if a = 2 then 3 else 0),
     bitmap = (\<lambda>k. demo_queue a k \<noteq> [] \<or> k = 140), queue = demo_queue a\<rparr>"

definition demo_rq :: runqueue where
  "demo_rq = \<lparr>nr_running = 4, nr_switches = 9, expired_timestamp = 0, nr_uninterruptible = 1, curr = 2,
     idle = 0, active = 0, expired = 1, short_pr = 2, arrays = demo_array\<rparr>"

definition demo_sched :: sched where
  "demo_sched = \<lparr>tasks = demo_task, rq = demo_rq, current = 2, jiffies = 7000, kstat_user = 0, kstat_nice = 0,
     kstat_system = 0, mm_count = (\<lambda>m. 1), pidhash = (\<lambda>h. if 1 \<le> h \<and> h \<le> 5 then [h] else []), kerrno = 0\<rparr>"

lemmas demo_defs = demo_sched_def demo_rq_def demo_array_def demo_queue_def demo_task_def short_task_def base_task_def

lemma demo_sel [simp]:
  "current demo_sched = 2" "rq demo_sched = demo_rq" "tasks demo_sched = demo_task"
  "active demo_rq = 0" "expired demo_rq = 1" "short_pr demo_rq = 2" "idle demo_rq = 0" "curr demo_rq = 2"
  "queue (arrays demo_rq a) = demo_queue a"
  "policy (demo_task 2) = SCHED_SHORT" "time_left (demo_task 2) = 1" "static_prio (demo_task 2) = 120"
  "short_prio (demo_task 2) = 5" "policy (demo_task (Suc 0)) = SCHED_OTHER" "policy (demo_task 4) = SCHED_SHORT"
  by (simp_all add: demo_defs)

lemma demo_tloc:
  "tloc demo_sched = (\<lambda>p. if p = 1 then Some (0, 120) else if p = 2 \<or> p = 3 then Some (2, 5)
     else if p = 4 then Some (2, 7) else None)"
  by (rule ext) (simp add: tloc_def tplace_def qkey_def demo_defs)

lemma demo_wf: "sched_wf demo_arch demo_sched"
proof -
  have "on_array (tloc demo_sched) 0 = {1}" "on_array (tloc demo_sched) 1 = {}"
    "on_array (tloc demo_sched) 2 = {2, 3, 4}"
    by (auto simp: on_array_def demo_tloc split: if_splits)
  then have "counts_ok (tloc demo_sched) demo_rq"
    by (simp add: counts_ok_def demo_rq_def demo_array_def numeral_3_eq_3 numeral_2_eq_2 less_Suc_eq)
  moreover have "queues_ok (tloc demo_sched) demo_rq"
    by (auto simp: queues_ok_def demo_tloc demo_rq_def demo_array_def demo_queue_def split: if_splits)
  moreover have "bitmaps_ok demo_rq" "placement_range (tloc demo_sched)"
    by (auto simp: bitmaps_ok_def demo_rq_def demo_array_def placement_range_def demo_tloc TID_MAX_def split: if_splits)
  ultimately have "rq_ok (tloc demo_sched) demo_rq" by (simp add: rq_ok_def)
  moreover have "dom (tloc demo_sched) = {1, 2, 3, 4}" by (auto simp: demo_tloc split: if_splits)
  then have "nr_ok demo_sched" by (simp add: nr_ok_def demo_sched_def demo_rq_def)
  moreover have "task_wf demo_arch (demo_task p) \<and> place_wf demo_rq (demo_task p)" if "p \<noteq> 0" for p
    using that by (auto simp: demo_task_def short_task_def base_task_def task_wf_def place_wf_def
        rt_task_def demo_rq_def MAX_SLEEP_AVG_def demo_arch_def)
  ultimately show ?thesis
    by (auto simp: sched_wf_def queues_wf_def demo_sched_def mm_wf_def idle_wf_def hash_wf_def arrays_ok_def
        demo_rq_def TID_MAX_def demo_task_def short_task_def base_task_def)
qed

subsection \<open>Safety of all runs\<close>

text \<open>C5: From a well-formed state every sequence of scheduler operations (ticks, wake-ups, sleeps,
  preemptions, yields, renicing, policy changes, forks, reaping, queries) that the kernel may perform
  runs to its end: no null pointer is dereferenced, no empty queue is read, no \<open>schedule\<close> loops for
  ever, and the run queue still represents exactly the queued tasks.\<close>
theorem sched_run_safe:
  assumes "arch_ok A" and "sched_wf A s" and "ops_allowed (sched_step A) op_ok xs s"
  shows "\<exists>s'. run_ops (sched_step A) xs s = Inr s' \<and> sched_wf A s'"
  using hw2.run_safe [of A s xs] assms by blast

theorem sched_run_safe_witness:
  "\<exists>s'. run_ops (sched_step demo_arch)
     [Op_tick False 1 0, Op_signal 5 True, Op_is_short 3, Op_preempt, Op_place 4, Op_time 10, Op_preempt] demo_sched
     = Inr s' \<and> sched_wf demo_arch s'"
  by (rule sched_run_safe [OF demo_arch_ok demo_wf]) (simp split: sum.split)

text \<open>Booting: from the zeroed run queue and the boot task \<open>sched_init\<close> followed by \<open>init_idle\<close> does
  not fault and establishes the invariant, with the boot task as the idle task that wants to be
  rescheduled.\<close>
theorem boot_establishes_invariant:
  assumes "boot_ok A s"
  shows "\<exists>s'. init_idle (current s) (sched_init A s) = Inr s' \<and> sched_wf A s' \<and>
    idle (rq s') = current s \<and> current s' = current s \<and> need_resched (tasks s' (current s'))"
  using boot_wf_state [OF assms] by blast

definition demo_boot :: sched where
  "demo_boot = \<lparr>tasks = (\<lambda>p. base_task\<lparr>active_mm := Some 0\<rparr>),
     rq = \<lparr>nr_running = 0, nr_switches = 0, expired_timestamp = 0, nr_uninterruptible = 0, curr = 0, idle = 0,
       active = 0, expired = 0, short_pr = 0,
       arrays = (\<lambda>a. \<lparr>nr_active = 0, bitmap = (\<lambda>k. False), queue = (\<lambda>k. [])\<rparr>)\<rparr>,
     current = 0, jiffies = 0, kstat_user = 0, kstat_nice = 0, kstat_system = 0, mm_count = (\<lambda>m. 0),
     pidhash = (\<lambda>h. []), kerrno = 0\<rparr>"

theorem boot_establishes_invariant_witness:
  "\<exists>s'. init_idle 0 (sched_init demo_arch demo_boot) = Inr s' \<and> sched_wf demo_arch s'"
proof -
  have "boot_ok demo_arch demo_boot"
    by (simp add: boot_ok_def demo_boot_def base_task_def task_wf_def MAX_SLEEP_AVG_def demo_arch_def TID_MAX_def)
  from boot_establishes_invariant [OF this] show ?thesis by (auto simp: demo_boot_def)
qed

subsection \<open>The choice and the termination of schedule\<close>

text \<open>C6: Whenever some task is queued, the task \<open>schedule\<close> picks is queued, is the first of its queue,
  and no queued task precedes it in the order of the classes: real-time tasks by \<open>prio\<close>, then SHORT tasks
  by \<open>short_prio\<close>, then the ordinary tasks of the active array by \<open>prio\<close>, then those of the expired one.\<close>
theorem schedule_picks_least:
  assumes "arch_ok A" and "sched_wf A s" and "array (tasks s q0) \<noteq> None"
  shows "\<exists>n r. pick_next A (rq s) = Inr (n, r) \<and> array (tasks s n) \<noteq> None \<and>
    head_of_queue (rq s) (tasks s n) n \<and>
    (\<forall>q. array (tasks s q) \<noteq> None \<longrightarrow> sched_rank (rq s) (tasks s n) \<le> sched_rank (rq s) (tasks s q))"
  using pick_next_least [OF assms(1) sched_wfD(1) [OF assms(2)]] assms(3) by fastforce

theorem schedule_picks_least_witness:
  "\<exists>n r. pick_next demo_arch demo_rq = Inr (n, r) \<and> head_of_queue demo_rq (demo_task n) n \<and>
    sched_rank demo_rq (demo_task n) \<le> sched_rank demo_rq (demo_task 2)"
proof -
  have "array (tasks demo_sched 2) \<noteq> None" by (simp add: demo_defs)
  from schedule_picks_least [OF demo_arch_ok demo_wf this] this show ?thesis by (auto simp: demo_sched_def)
qed

text \<open>C7: \<open>schedule\<close> returns: its loop over \<open>need_resched\<close> ends, without a fault, in a well-formed state
  whose current task does not want to be rescheduled.\<close>
theorem schedule_returns:
  assumes "arch_ok A" and "sched_wf A s"
  shows "\<exists>s'. schedule A s = Some (Inr s') \<and> sched_wf A s' \<and> \<not> need_resched (tasks s' (current s'))"
  by (rule schedule_ok [OF assms])

theorem schedule_returns_witness:
  "\<exists>s'. schedule demo_arch demo_sched = Some (Inr s') \<and> \<not> need_resched (tasks s' (current s'))"
  using schedule_returns [OF demo_arch_ok demo_wf] by auto

subsection \<open>The SHORT class\<close>

lemma half_sleep_avg:
  assumes "arch_ok A"
  shows "(1000 * of_int (HZ A) div (of_int (2 * HZ A) :: u32)) div 100 = 5"
proof -
  define h where "h = nat (HZ A)"
  have h: "100 \<le> h" "h \<le> 1024" using assms by (auto simp: arch_ok_def h_def le_nat_iff nat_le_iff)
  have 1: "unat (of_int (HZ A) :: u32) = h" using HZ_word [OF assms] by (simp add: h_def)
  have "unat (of_int (2 * HZ A) :: u32) = nat (2 * HZ A)"
    using arch_sleep_avg [OF assms] by (simp only: MAX_SLEEP_AVG_def)
  then have 2: "unat (of_int (2 * HZ A) :: u32) = 2 * h" using assms by (simp add: h_def arch_ok_def nat_mult_distrib)
  have 3: "unat (1000 * of_int (HZ A) :: u32) = 1000 * h" using h by (simp add: unat_word_ariths 1)
  have "unat ((1000 * of_int (HZ A) div (of_int (2 * HZ A) :: u32)) div 100) = 1000 * h div (2 * h) div 100"
    by (simp only: unat_div_distrib 2 3) simp
  also have "1000 * h div (2 * h) = 500" using h by (simp add: div_mult2_eq [symmetric])
  finally have "unat ((1000 * of_int (HZ A) div (of_int (2 * HZ A) :: u32)) div 100) = unat (5 :: u32)" by simp
  then show ?thesis by (simp only: word_unat_eq_iff)
qed

lemma short_expire_values:
  assumes A: "arch_ok A" and t: "100 \<le> static_prio t" "static_prio t \<le> 139"
  shows "static_prio (short_expire A t) = min (static_prio t + 7) 139"
    "prio (short_expire A t) = static_prio (short_expire A t)"
    "sleep_avg (short_expire A t) = of_int (HZ A)"
    "time_slice (short_expire A t) = of_int (TASK_TIMESLICE A (short_expire A t))"
proof -
  show sp: "static_prio (short_expire A t) = min (static_prio t + 7) 139"
    by (simp add: short_expire_def Let_def)
  show "sleep_avg (short_expire A t) = of_int (HZ A)"
    by (simp add: short_expire_def Let_def MAX_SLEEP_AVG_def)
  show "time_slice (short_expire A t) = of_int (TASK_TIMESLICE A (short_expire A t))"
    by (simp add: short_expire_def Let_def tick_refill_def TASK_TIMESLICE_def)
  have "(1000 * of_int (HZ A) div (of_int (2 * HZ A) :: u32)) div 100 - 5 = 0"
    using half_sleep_avg [OF A] by simp
  then show "prio (short_expire A t) = static_prio (short_expire A t)"
    using t by (simp add: short_expire_def Let_def effective_prio_def MAX_SLEEP_AVG_def MAX_USER_PRIO_def
        USER_PRIO_def PRIO_BONUS_RATIO_def del: of_int_mult)
qed

lemma short_current_array:
  assumes "sched_wf A s" "current s \<noteq> idle (rq s)" "policy (tasks s (current s)) = SCHED_SHORT"
  shows "array (tasks s (current s)) = Some (short_pr (rq s))"
  using sched_wfD(2) [OF assms(1,2)] queues_wfD(7) [OF sched_wfD(1) [OF assms(1)] assms(2)] assms(3)
  by (auto simp: place_wf_def)

lemma tick_short_current:
  assumes wf: "sched_wf A s" and c: "current s \<noteq> idle (rq s)"
    and sh: "policy (tasks s (current s)) = SCHED_SHORT"
  shows "\<exists>s2. tasks s2 = tasks s \<and> rq s2 = rq s \<and> current s2 = current s \<and>
    scheduler_tick A bh u sy s = tick_short A (current s) s2"
proof -
  define s2 where "s2 = (let s1 = (if TASK_NICE (tasks s (current s)) > 0 then s\<lparr>kstat_nice := kstat_nice s + u\<rparr>
                     else s\<lparr>kstat_user := kstat_user s + u\<rparr>) in s1\<lparr>kstat_system := kstat_system s1 + sy\<rparr>)"
  have s2: "tasks s2 = tasks s" "rq s2 = rq s" "current s2 = current s" by (simp_all add: s2_def Let_def)
  have "scheduler_tick A bh u sy s = tick_short A (current s) s2"
    using c sh short_current_array [OF wf c sh]
    by (simp add: scheduler_tick_def s2_def Let_def rt_task_def)
  with s2 show ?thesis by blast
qed

text \<open>C8: The end of the SHORT privilege: the tick in which the last of its time runs out turns the
  running SHORT task into an ordinary one, seven nice levels weaker (at most the weakest), with an
  average sleep that gives no bonus and so with \<open>prio\<close> equal to the new static priority, a full new time slice, in the
  active array and with \<open>need_resched\<close> set; before that a tick only takes one from its time and leaves
  the queues as they are. No other task is touched.\<close>
theorem short_task_expires:
  assumes "arch_ok A" and "sched_wf A s" and "current s \<noteq> idle (rq s)"
    and "policy (tasks s (current s)) = SCHED_SHORT"
  shows "let s' = scheduler_tick A bh u sy s; t = tasks s (current s); t' = tasks s' (current s) in
    (\<forall>q. q \<noteq> current s \<longrightarrow> tasks s' q = tasks s q) \<and>
    (if time_left t = 1
     then policy t' = SCHED_OTHER \<and> static_prio t' = min (static_prio t + 7) 139 \<and> prio t' = static_prio t' \<and>
          sleep_avg t' = of_int (HZ A) \<and> time_slice t' = of_int (TASK_TIMESLICE A t') \<and> need_resched t' \<and>
          array t' = Some (active (rq s)) \<and>
          queue (arrays (rq s') (active (rq s))) (nat (prio t'))
            = queue (arrays (rq s) (active (rq s))) (nat (prio t')) @ [current s]
     else t' = t\<lparr>time_left := time_left t - 1\<rparr> \<and> rq s' = rq s)"
proof -
  let ?c = "current s"
  obtain s2 where s2: "tasks s2 = tasks s" "rq s2 = rq s" "current s2 = ?c"
    "scheduler_tick A bh u sy s = tick_short A ?c s2"
    using tick_short_current [OF assms(2-4)] by blast
  note q = sched_wfD(1) [OF assms(2)]
  note tw = task_wf_common [OF queues_wfD(6) [OF q assms(3)]]
  let ?t1 = "(tasks s ?c)\<lparr>time_left := time_left (tasks s ?c) - 1\<rparr>"
  note v = short_expire_values [OF assms(1), of ?t1]
  have notin: "?c \<notin> set (queue (arrays (rq s) (active (rq s))) k)" if "k < 140" for k
    using queue_member [OF q _ _ that, of ?c "active (rq s)"] short_current_array [OF assms(2-4)]
      queues_wfD(1) [OF q] by (auto simp: arrays_ok_def)
  have k: "nat (min (static_prio (tasks s ?c) + 7) 139) < 140" by linarith
  have pol: "policy (short_expire A ?t1) \<noteq> SCHED_SHORT" by simp
  show ?thesis
    unfolding Let_def s2(4) tick_short_def
    using s2(1,2) v tw notin [OF k] k pol
    by (auto simp: rq_deq_enq qkey_def remove1_notin TASK_TIMESLICE_def)
qed

theorem short_task_expires_witness:
  "let s' = scheduler_tick demo_arch False 1 0 demo_sched in
     policy (tasks s' 2) = SCHED_OTHER \<and> prio (tasks s' 2) = 127 \<and> need_resched (tasks s' 2) \<and>
     queue (arrays (rq s') 0) 127 = [2]"
proof -
  have "current demo_sched \<noteq> idle (rq demo_sched)" "policy (tasks demo_sched (current demo_sched)) = SCHED_SHORT"
    by simp_all
  from short_task_expires [OF demo_arch_ok demo_wf this, of False 1 0] show ?thesis
    by (auto simp: Let_def demo_queue_def)
qed

text \<open>The SHORT class is left only by using up its time: whatever the arguments,
  \<open>sched_setscheduler\<close> and \<open>sched_setparam\<close> on a SHORT task return an error and change nothing, the task
  cannot renice itself or be reniced, and it cannot fork.\<close>
theorem short_is_irrevocable:
  assumes "find_process_by_pid x s = Some p" and "policy (tasks s p) = SCHED_SHORT"
  shows "(\<forall>pol param. \<exists>e < 0. sys_sched_setscheduler A x pol param s = Inr (s, e)) \<and>
    (\<forall>param. \<exists>e < 0. sys_sched_setparam A x param s = Inr (s, e)) \<and>
    (\<forall>n. set_user_nice p n s = s) \<and>
    (p = current s \<longrightarrow> (\<forall>inc. sys_nice inc s = (s, - EPERM)) \<and>
       (\<forall>c np m. do_fork_sched A c np m s = Inr (s, - EPERM)))"
proof -
  have "\<exists>e < 0. setscheduler A x pol param s = Inr (s, e)" for pol param
    using assms by (cases param) (auto simp: setscheduler_def setsched_short_check_def)
  with assms show ?thesis
    by (auto simp: sys_sched_setscheduler_def sys_sched_setparam_def set_user_nice_def sys_nice_def do_fork_sched_def fork_refused_def Let_def)
qed

theorem short_is_irrevocable_witness:
  "(\<exists>e < 0. sys_sched_setscheduler demo_arch 0 SCHED_OTHER
      (U_Val \<lparr>sched_priority = 0, sp_requested_time = 0, sched_short_prio = 0\<rparr>) demo_sched = Inr (demo_sched, e)) \<and>
   sys_nice 5 demo_sched = (demo_sched, - EPERM)"
proof -
  have "find_process_by_pid 0 demo_sched = Some 2" "policy (tasks demo_sched 2) = SCHED_SHORT"
    by (simp_all add: find_process_by_pid_def)
  from short_is_irrevocable [OF this, of demo_arch] show ?thesis by auto
qed

lemma setsched_apply_eq:
  assumes wf: "sched_wf A s" and a: "array (tasks s p) = Some a"
  shows "\<exists>s1. deactivate_task p s = Inr s1 \<and> rq_ok ((tloc s)(p := None)) (rq s1) \<and>
    queue (arrays (rq s1) b) k = remove1 p (queue (arrays (rq s) b) k) \<and>
    tasks s1 = (tasks s)(p := (tasks s p)\<lparr>array := None\<rparr>) \<and> current s1 = current s \<and>
    short_pr (rq s1) = short_pr (rq s) \<and> active (rq s1) = active (rq s) \<and> pidhash s1 = pidhash s"
proof -
  from deactivate_task_wf [OF sched_wfD(1) [OF wf] a] obtain s1 where s1: "deactivate_task p s = Inr s1"
    "queues_wf A s1" "tasks s1 = (tasks s)(p := (tasks s p)\<lparr>array := None\<rparr>)" "current s1 = current s"
    "short_pr (rq s1) = short_pr (rq s)" "active (rq s1) = active (rq s)" "pidhash s1 = pidhash s" by blast
  moreover have "queue (arrays (rq s1) b) k = remove1 p (queue (arrays (rq s) b) k)"
    using s1(1) a by (auto simp: deactivate_task_def Let_def rq_deq_enq)
  moreover have "rq_ok ((tloc s)(p := None)) (rq s1)"
    using queues_wfD(2) [OF s1(2)] tloc_of_tasks [OF s1(3)] by simp
  ultimately show ?thesis by blast
qed

definition may_set :: "sched \<Rightarrow> task \<Rightarrow> bool" where
  "may_set s t \<longleftrightarrow> euid (tasks s (current s)) = euid t \<or> euid (tasks s (current s)) = uid t \<or> capable_nice s"

lemma make_short_checks:
  assumes "policy t = SCHED_OTHER" "may_set s t"
    "1 \<le> sp_requested_time lp" "sp_requested_time lp \<le> 3000" "0 \<le> sched_short_prio lp" "sched_short_prio lp \<le> 139"
  shows "setsched_short_check t SCHED_SHORT lp = None" "setsched_check s t SCHED_SHORT lp = Inr SCHED_SHORT"
  using assms by (auto simp: setsched_short_check_def setsched_check_def may_set_def Let_def)

lemma becomes_short:
  assumes "arch_ok A" and "sched_wf A s" and "find_process_by_pid x s = Some p" and "0 \<le> x"
    and "policy (tasks s p) = SCHED_OTHER" and "array (tasks s p) \<noteq> None" and "may_set s (tasks s p)"
    and "1 \<le> sp_requested_time lp" and "sp_requested_time lp \<le> 3000"
    and "0 \<le> sched_short_prio lp" and "sched_short_prio lp \<le> 139"
  shows "\<exists>s'. sys_sched_setscheduler A x SCHED_SHORT (U_Val lp) s = Inr (s', 0) \<and>
    (let t' = tasks s' p; k = nat (sched_short_prio lp) in
       policy t' = SCHED_SHORT \<and> short_prio t' = sched_short_prio lp \<and>
       time_left t' = of_int (max 1 (sp_requested_time lp * HZ A div 1000)) \<and>
       array t' = Some (short_pr (rq s)) \<and>
       queue (arrays (rq s') (short_pr (rq s))) k = queue (arrays (rq s) (short_pr (rq s))) k @ [p]) \<and>
    need_resched (tasks s' (current s')) \<and> pidhash s' = pidhash s \<and> (\<forall>q. tpid (tasks s' q) = tpid (tasks s q))"
proof -
  let ?k = "nat (sched_short_prio lp)"
  note q = sched_wfD(1) [OF assms(2)]
  obtain a where a: "array (tasks s p) = Some a" using assms(6) by auto
  obtain s1 where s1: "deactivate_task p s = Inr s1"
    "queue (arrays (rq s1) (short_pr (rq s))) ?k = remove1 p (queue (arrays (rq s) (short_pr (rq s))) ?k)"
    "tasks s1 = (tasks s)(p := (tasks s p)\<lparr>array := None\<rparr>)" "current s1 = current s"
    "short_pr (rq s1) = short_pr (rq s)" "pidhash s1 = pidhash s"
    using setsched_apply_eq [OF assms(2) a, of "short_pr (rq s)" ?k] by blast
  have "a \<noteq> short_pr (rq s)"
    using queues_wfD(7) [OF q place_range(4) [OF q a]] a assms(5) by (auto simp: place_wf_def)
  then have "p \<notin> set (queue (arrays (rq s) (short_pr (rq s))) ?k)"
    using queue_member [OF q, of p "short_pr (rq s)" ?k] a queues_wfD(1) [OF q] assms(10,11)
    by (auto simp: arrays_ok_def nat_less_iff)
  then have qk: "queue (arrays (rq s1) (short_pr (rq s))) ?k = queue (arrays (rq s) (short_pr (rq s))) ?k"
    by (simp add: s1(2) remove1_notin)
  have st: "short_ticks A (sp_requested_time lp) = max 1 (sp_requested_time lp * HZ A div 1000)"
    using short_ticks_range(1) [OF assms(1,8,9)] by (auto simp: short_ticks_def max_def)
  let ?t = "(setsched_task A SCHED_SHORT lp (tasks s p))\<lparr>array := None\<rparr>"
  define s3 where "s3 = activate_task A p (upd_task p (setsched_task A SCHED_SHORT lp) s1)"
  note s3' = s3_def [unfolded SCHED_SHORT_def, symmetric]
  have t: "activated A s' ?t = ?t" for s' by (simp add: activated_def setsched_task_def Let_def)
  have s3: "tasks s3 = (tasks s)(p := ?t\<lparr>array := Some (short_pr (rq s))\<rparr>)" "current s3 = current s" "pidhash s3 = pidhash s"
    using t by (simp_all add: s3_def activate_task_sel s1 class_array_def)
  have q3: "queue (arrays (rq s3) (short_pr (rq s))) ?k = queue (arrays (rq s) (short_pr (rq s))) ?k @ [p]"
    using t qk by (simp add: s3_def activate_task_eq rq_deq_enq s1(3-6) class_array_def)
      (simp add: qkey_def setsched_task_def Let_def)
  note chk = make_short_checks [OF assms(5,7-11)]
  have res: "sys_sched_setscheduler A x SCHED_SHORT (U_Val lp) s = Inr (resched_task (current s3) s3, 0)"
    using assms(3,4) chk a s1(1)
    by (simp add: sys_sched_setscheduler_def setscheduler_def setsched_apply_def Let_def s3' s3)
  show ?thesis
    using q3 st res by (intro exI [of _ "resched_task (current s3) s3"])
      (auto simp: resched_task_def set_tsk_need_resched_def s3 Let_def setsched_task_def)
qed

text \<open>Becoming SHORT: \<open>sched_setscheduler\<close> with valid arguments on an ordinary queued task returns 0,
  stores the parameters, converts the requested milliseconds to ticks (at least one), moves the task to the end of
  its \<open>short_prio\<close> queue of the SHORT array, and asks the calling task to reschedule.\<close>
theorem setscheduler_makes_short:
  assumes "arch_ok A" and "sched_wf A s" and "find_process_by_pid x s = Some p" and "0 \<le> x"
    and "policy (tasks s p) = SCHED_OTHER" and "array (tasks s p) \<noteq> None" and "may_set s (tasks s p)"
    and "1 \<le> sp_requested_time lp" and "sp_requested_time lp \<le> 3000"
    and "0 \<le> sched_short_prio lp" and "sched_short_prio lp \<le> 139"
  shows "\<exists>s'. sys_sched_setscheduler A x SCHED_SHORT (U_Val lp) s = Inr (s', 0) \<and>
    (let t' = tasks s' p; k = nat (sched_short_prio lp) in
       policy t' = SCHED_SHORT \<and> short_prio t' = sched_short_prio lp \<and>
       time_left t' = of_int (max 1 (sp_requested_time lp * HZ A div 1000)) \<and>
       array t' = Some (short_pr (rq s)) \<and>
       queue (arrays (rq s') (short_pr (rq s))) k = queue (arrays (rq s) (short_pr (rq s))) k @ [p]) \<and>
    need_resched (tasks s' (current s')) \<and> pidhash s' = pidhash s \<and> (\<forall>q. tpid (tasks s' q) = tpid (tasks s q))"
  by (rule becomes_short [OF assms])

definition demo_other :: sched where
  "demo_other = demo_sched\<lparr>pidhash := (\<lambda>h. if h = 1 then [1] else [])\<rparr>"

lemma demo_other_wf: "sched_wf demo_arch demo_other"
proof -
  have "tloc demo_other = tloc demo_sched" by (rule tloc_same_tasks) (simp add: demo_other_def)
  then show ?thesis
    using demo_wf by (simp add: demo_other_def sched_wf_def queues_wf_def nr_ok_def mm_wf_def idle_wf_def
        hash_wf_def TID_MAX_def)
qed

lemma demo_other_sel [simp]:
  "current demo_other = 2" "rq demo_other = demo_rq" "tasks demo_other = demo_task"
  by (simp_all add: demo_other_def)

lemma demo_other_find: "find_task_by_pid (\<lambda>t. tpid (demo_task t)) 1 (pidhash demo_other) = Some 1"
  by (simp add: find_task_by_pid_def demo_other_def pid_hashfn_def PIDHASH_SZ_def demo_defs)

lemma demo_may_set: "may_set demo_other (demo_task 1)" "array (demo_task 1) = Some 0"
  by (simp_all add: may_set_def capable_nice_def demo_defs)

theorem setscheduler_makes_short_witness:
  "\<exists>s'. sys_sched_setscheduler demo_arch 1 SCHED_SHORT
      (U_Val \<lparr>sched_priority = 0, sp_requested_time = 100, sched_short_prio = 5\<rparr>) demo_other = Inr (s', 0) \<and>
    queue (arrays (rq s') 2) 5 = [2, 3, 1] \<and> time_left (tasks s' 1) = 51"
  using setscheduler_makes_short [OF demo_arch_ok demo_other_wf, of 1 1
      "\<lparr>sched_priority = 0, sp_requested_time = 100, sched_short_prio = 5\<rparr>"]
    demo_other_find demo_may_set
  by (auto simp: find_process_by_pid_def demo_queue_def Let_def demo_arch_def)

subsection \<open>The SHORT queries\<close>

text \<open>Milliseconds to ticks and back lose less than two ticks' worth of the request.\<close>

lemma ticks_back:
  assumes A: "arch_ok A" and r: "1 \<le> req" "req \<le> 3000"
  shows "sint ((of_int (short_ticks A req) :: u32) * 1000 div of_int (HZ A)) = short_ticks A req * 1000 div HZ A"
    and "short_ticks A req * 1000 div HZ A \<le> max req 10" and "req - 10 \<le> short_ticks A req * 1000 div HZ A"
proof -
  define t where "t = short_ticks A req"
  define h where "h = HZ A"
  have h: "100 \<le> h" "h \<le> 1024" using A by (simp_all add: h_def arch_ok_def)
  have t: "1 \<le> t" "t \<le> 3072" using short_ticks_range [OF A r] by (simp_all add: t_def)
  have ut: "unat (of_int t :: u32) = nat t" using t by (intro u32_of_int) auto
  have uh: "unat (of_int h :: u32) = nat h" using h by (intro u32_of_int) auto
  have m: "unat ((of_int t :: u32) * 1000) = nat t * 1000"
    using t ut by (simp add: unat_word_ariths)
  define q where "q = t * 1000 div h"
  have q: "0 \<le> q" "q \<le> 3072000" using t h
    by (auto simp: q_def pos_imp_zdiv_nonneg_iff intro: order.trans [OF zdiv_mono2 [of _ 1]])
  have u: "unat ((of_int t :: u32) * 1000 div of_int h) = nat q"
    using t h by (simp add: unat_div_distrib m uh q_def nat_div_distrib nat_mult_distrib)
  have "uint ((of_int t :: u32) * 1000 div of_int h) = q"
    using u q by (simp only: uint_nat)
  then show "sint ((of_int (short_ticks A req) :: u32) * 1000 div of_int (HZ A)) = short_ticks A req * 1000 div HZ A"
    using q by (simp add: t_def h_def q_def sint_uint signed_take_bit_int_eq_self)
  have qh: "q * h \<le> t * 1000" "t * 1000 < q * h + h"
    using h pos_mod_bound [of h "t * 1000"] div_mult_mod_eq [of "t * 1000" h] pos_mod_sign [of h "t * 1000"]
    by (simp_all only: q_def) linarith+
  have ten: "x < 10" if "x * h < 1000" for x
  proof (rule ccontr)
    assume "\<not> x < 10"
    then have "10 * 100 \<le> x * h" using h by (intro mult_mono) auto
    with that show False by simp
  qed
  have "q \<le> max req 10 \<and> req - 10 \<le> q"
  proof (cases "req * h < 1000")
    case True
    then have "req < 10" by (rule ten)
    moreover have "t = 1" using True r h by (simp add: t_def short_ticks_def h_def)
    then have "q * 100 \<le> 1000" using qh(1) h q(1) mult_left_mono [of 100 h q] by linarith
    ultimately show ?thesis using q(1) by simp
  next
    case False
    then have "1 \<le> req * h div 1000" by linarith
    then have tb: "t = req * h div 1000" by (simp add: t_def short_ticks_def h_def)
    have tl: "t * 1000 \<le> req * h" "req * h < t * 1000 + 1000" unfolding tb by linarith+
    have "q * h \<le> req * h" using qh(1) tl(1) by linarith
    then have 1: "q \<le> req" using h by (simp add: mult_le_cancel_right)
    have "(req - q - 1) * h = req * h - q * h - h" by (simp add: algebra_simps)
    then have "(req - q - 1) * h < 1000" using tl(2) qh(2) by linarith
    then have "req - q - 1 < 10" by (rule ten)
    with 1 show ?thesis by simp
  qed
  then show "short_ticks A req * 1000 div HZ A \<le> max req 10" "req - 10 \<le> short_ticks A req * 1000 div HZ A"
    by (simp_all add: q_def t_def h_def)
qed

text \<open>The round trip of the requested time: after a successful request of \<open>n\<close> milliseconds
  \<open>is_short\<close> answers 1 (and leaves \<open>errno\<close> alone) and \<open>short_remaining_time\<close> answers \<open>n\<close> up to 10 ms, never
  more than \<open>max n 10\<close>.\<close>
theorem short_time_roundtrip:
  assumes "arch_ok A" and "sched_wf A s" and "find_process_by_pid x s = Some p" and "1 \<le> x"
    and "policy (tasks s p) = SCHED_OTHER" and "array (tasks s p) \<noteq> None" and "may_set s (tasks s p)"
    and "1 \<le> sp_requested_time lp" and "sp_requested_time lp \<le> 3000"
    and "0 \<le> sched_short_prio lp" and "sched_short_prio lp \<le> 139"
  shows "\<exists>s'. sys_sched_setscheduler A x SCHED_SHORT (U_Val lp) s = Inr (s', 0) \<and>
    sys_is_short x s' = (s', 1) \<and>
    sys_short_remaining_time A x s' \<le> max (sp_requested_time lp) 10 \<and>
    sp_requested_time lp - 10 \<le> sys_short_remaining_time A x s'"
proof -
  obtain s' where s': "sys_sched_setscheduler A x SCHED_SHORT (U_Val lp) s = Inr (s', 0)"
    "policy (tasks s' p) = SCHED_SHORT"
    "time_left (tasks s' p) = of_int (max 1 (sp_requested_time lp * HZ A div 1000))"
    "pidhash s' = pidhash s" "\<forall>q. tpid (tasks s' q) = tpid (tasks s q)"
    using becomes_short [OF assms(1-3) _ assms(5-)] assms(4) by (auto simp: Let_def)
  have f: "find_task_by_pid (\<lambda>t. tpid (tasks s' t)) x (pidhash s') = Some p"
    using assms(3,4) s'(4,5) by (simp add: find_process_by_pid_def)
  have t: "time_left (tasks s' p) = of_int (short_ticks A (sp_requested_time lp))"
    using s'(3) short_ticks_range(1) [OF assms(1,8,9)] by (auto simp: short_ticks_def max_def)
  have "sys_short_remaining_time A x s' = short_ticks A (sp_requested_time lp) * 1000 div HZ A"
    using assms(4) f s'(2) t ticks_back(1) [OF assms(1,8,9)] by (simp add: sys_short_remaining_time_def)
  with ticks_back(2,3) [OF assms(1,8,9)] s'(1,2) f assms(4) show ?thesis
    by (intro exI [of _ s']) (simp add: sys_is_short_def Let_def)
qed

theorem short_time_roundtrip_witness:
  "\<exists>s'. sys_sched_setscheduler demo_arch 1 SCHED_SHORT
      (U_Val \<lparr>sched_priority = 0, sp_requested_time = 100, sched_short_prio = 5\<rparr>) demo_other = Inr (s', 0) \<and>
    90 \<le> sys_short_remaining_time demo_arch 1 s' \<and> sys_short_remaining_time demo_arch 1 s' \<le> 100"
  using short_time_roundtrip [OF demo_arch_ok demo_other_wf, of 1 1
      "\<lparr>sched_priority = 0, sp_requested_time = 100, sched_short_prio = 5\<rparr>"]
    demo_other_find demo_may_set
  by (auto simp: find_process_by_pid_def)

lemma place_scan_eq:
  "place_scan pids x ts c =
     (if x \<in> pids ` set ts then Inl (c + int (length (takeWhile (\<lambda>t. pids t \<noteq> x) ts))) else Inr (c + int (length ts)))"
  by (induction ts arbitrary: c) auto

lemma place_prios_eq: "place_prios pids x q ks c = place_scan pids x (concat (map q ks)) c"
proof (induction ks arbitrary: c)
  case (Cons k ks)
  have "place_scan pids x (ts @ us) c =
      (case place_scan pids x ts c of Inl d \<Rightarrow> Inl d | Inr d \<Rightarrow> place_scan pids x us d)" for ts us
    by (induction ts arbitrary: c) auto
  with Cons.IH show ?case by (auto split: sum.splits)
qed simp

text \<open>The tasks of the first queues, without repetition.\<close>

lemma queues_concat:
  assumes wf: "queues_wf A s" and a: "a < 3" and k: "n \<le> 140"
  shows "distinct (concat (map (queue (arrays (rq s) a)) [0..<n]))"
    "set (concat (map (queue (arrays (rq s) a)) [0..<n])) = {q. array (tasks s q) = Some a \<and> qkey (tasks s q) < n}"
proof -
  have mem: "q \<in> set (queue (arrays (rq s) a) j) \<longleftrightarrow> array (tasks s q) = Some a \<and> qkey (tasks s q) = j"
    if "j < 140" for q j
    using queue_member [OF wf _ a that, of q] in_queue [OF wf, of q a] by auto
  show "set (concat (map (queue (arrays (rq s) a)) [0..<n])) = {q. array (tasks s q) = Some a \<and> qkey (tasks s q) < n}"
    using mem k by auto
  show "distinct (concat (map (queue (arrays (rq s) a)) [0..<n]))"
    using k
  proof (induction n)
    case (Suc n)
    have "distinct (queue (arrays (rq s) a) n)"
      using queue_distinct [OF queues_wfD(2) [OF wf] a, of n] Suc.prems by simp
    with Suc mem show ?case by auto
  qed simp
qed

text \<open>C9: \<open>short_place_in_queue\<close> of a queued SHORT task that is not the running one is the number of SHORT tasks
  that are served before it: those with a smaller \<open>short_prio\<close> and those in front of it in its own queue.
  (The call leaves \<open>errno\<close> set to ESRCH although it succeeds.)\<close>
theorem short_place_counts_predecessors:
  assumes "sched_wf A s" and "find_task_by_pid (\<lambda>t. tpid (tasks s t)) x (pidhash s) = Some p" and "0 \<le> x"
    and "policy (tasks s p) = SCHED_SHORT" and "array (tasks s p) = Some (short_pr (rq s))"
    and "tpid (tasks s (current s)) \<noteq> x"
    and "\<And>q. array (tasks s q) = Some (short_pr (rq s)) \<Longrightarrow> tpid (tasks s q) = x \<Longrightarrow> q = p"
  shows "sys_short_place_in_queue x s = (s\<lparr>kerrno := ESRCH\<rparr>,
    int (card {q. array (tasks s q) = Some (short_pr (rq s)) \<and> short_prio (tasks s q) < short_prio (tasks s p)}
         + length (takeWhile (\<lambda>q. q \<noteq> p) (queue (arrays (rq s) (short_pr (rq s))) (nat (short_prio (tasks s p)))))))"
proof -
  let ?sh = "short_pr (rq s)" and ?Q = "queue (arrays (rq s) (short_pr (rq s)))"
  define n where "n = nat (short_prio (tasks s p))"
  note q = sched_wfD(1) [OF assms(1)]
  note r = place_range [OF q assms(5)]
  have tp: "tpid (tasks s p) = x" using assms(2) by (auto simp: find_task_by_pid_def find_Some_iff)
  have sp: "0 \<le> short_prio (tasks s p)" "qkey (tasks s p) = n"
    using queues_wfD(6) [OF q r(4)] assms(4) by (auto simp: task_wf_def qkey_def n_def)
  have n: "n < 140" using r(2) sp(2) by simp
  have pids: "tpid (tasks s y) = x \<longleftrightarrow> y = p" if "y \<in> set (?Q j)" "j < 140" for y j
    using assms(7) [of y] queue_member [OF q that(1) r(1) that(2)] tp by auto
  have key: "short_prio (tasks s y) < short_prio (tasks s p) \<longleftrightarrow> qkey (tasks s y) < n"
    if "array (tasks s y) = Some ?sh" for y
    using queues_wfD(6,7) [OF q place_range(4) [OF q that]] that sp(1)
    by (auto simp: task_wf_def place_wf_def qkey_def n_def)
  have front: "y \<noteq> p" if "y \<in> set (concat (map ?Q [0..<n]))" for y
    using that queues_concat(2) [OF q r(1), of n] n sp(2) by auto
  have pin: "p \<in> set (?Q n)" using in_queue [OF q assms(5)] sp(2) by simp
  have nf: "tpid (tasks s y) \<noteq> x" if "y \<in> set (concat (map ?Q [0..<n]))" for y
  proof -
    from that obtain j where "j < n" "y \<in> set (?Q j)" by auto
    with pids [of y j] front [OF that] n show ?thesis by auto
  qed
  have tw: "takeWhile (\<lambda>t. tpid (tasks s t) \<noteq> x) (?Q n) = takeWhile (\<lambda>q. q \<noteq> p) (?Q n)"
    using pids [of _ n] n by (intro takeWhile_cong) auto
  have "place_prios (\<lambda>t. tpid (tasks s t)) x ?Q [0..<Suc n] 0
      = Inl (int (length (takeWhile (\<lambda>t. tpid (tasks s t) \<noteq> x) (concat (map ?Q [0..<n]) @ ?Q n))))"
    using pin tp by (auto simp: place_prios_eq place_scan_eq)
  also have "takeWhile (\<lambda>t. tpid (tasks s t) \<noteq> x) (concat (map ?Q [0..<n]) @ ?Q n)
      = concat (map ?Q [0..<n]) @ takeWhile (\<lambda>q. q \<noteq> p) (?Q n)"
    using nf by (subst takeWhile_append2) (blast, simp only: tw)
  also have "length (concat (map ?Q [0..<n]) @ takeWhile (\<lambda>q. q \<noteq> p) (?Q n))
      = card {y. array (tasks s y) = Some ?sh \<and> qkey (tasks s y) < n} + length (takeWhile (\<lambda>q. q \<noteq> p) (?Q n))"
    using distinct_card [OF queues_concat(1) [OF q r(1), of n]] queues_concat(2) [OF q r(1), of n] n
    by (simp del: length_concat set_concat)
  also have "{y. array (tasks s y) = Some ?sh \<and> qkey (tasks s y) < n}
      = {y. array (tasks s y) = Some ?sh \<and> short_prio (tasks s y) < short_prio (tasks s p)}"
    using key by auto
  finally have pl: "place_prios (\<lambda>t. tpid (tasks s t)) x ?Q [0..<Suc n] 0 = Inl (int (
      card {y. array (tasks s y) = Some ?sh \<and> short_prio (tasks s y) < short_prio (tasks s p)}
      + length (takeWhile (\<lambda>q. q \<noteq> p) (?Q n))))" .
  have "nat (short_prio (tasks s p) + 1) = Suc n" using sp(1) by (simp add: n_def nat_add_distrib)
  with pl assms(2-4,6) tp show ?thesis
    by (simp add: sys_short_place_in_queue_def Let_def n_def [symmetric] del: upt_Suc)
qed

theorem short_place_counts_predecessors_witness:
  "snd (sys_short_place_in_queue 4 demo_sched) = 2"
proof -
  have f: "find_task_by_pid (\<lambda>t. tpid (tasks demo_sched t)) 4 (pidhash demo_sched) = Some 4"
    by (simp add: find_task_by_pid_def pid_hashfn_def PIDHASH_SZ_def demo_defs)
  have c: "{q. array (demo_task q) = Some 2 \<and> short_prio (demo_task q) < 7} = {2, 3}"
    by (auto simp: demo_task_def short_task_def base_task_def split: if_splits)
  have 4: "array (demo_task 4) = Some 2" "short_prio (demo_task 4) = 7" "tpid (demo_task q) = int q" for q
    by (simp_all add: demo_task_def short_task_def)
  have "sys_short_place_in_queue 4 demo_sched = (demo_sched\<lparr>kerrno := ESRCH\<rparr>,
    int (card {q. array (tasks demo_sched q) = Some (short_pr (rq demo_sched)) \<and>
          short_prio (tasks demo_sched q) < short_prio (tasks demo_sched 4)}
         + length (takeWhile (\<lambda>q. q \<noteq> 4) (queue (arrays (rq demo_sched) (short_pr (rq demo_sched)))
             (nat (short_prio (tasks demo_sched 4)))))))"
    by (rule short_place_counts_predecessors [OF demo_wf f]) (simp_all add: 4)
  then show ?thesis by (simp add: 4 c demo_queue_def)
qed

subsection \<open>Waking\<close>

text \<open>Wake-one: a wake-up of one exclusive waiter of a queue of different tasks wakes exactly the
  waiters in a state of the mask up to and including the first exclusive one that is asleep, in queue order, and
  none behind it; an exclusive waiter that is already on a run queue does not count.\<close>
theorem wake_one_exclusive:
  assumes "distinct (map wtask ws)"
  shows "wake_up_common A ws mode 1 sync s =
    wake_all A sync (wake_list (matching s mode) (sleeping s mode) ws) s"
  by (rule wake_one [OF assms])

text \<open>Task 5 sleeps uninterruptibly; task 6, in state 0, is not to be woken.\<close>

theorem wake_one_exclusive_witness:
  "wake_up_common demo_arch [\<lparr>wtask = 6, exclusive = True\<rparr>, \<lparr>wtask = 5, exclusive = True\<rparr>] 3 1 False demo_sched
    = fst (try_to_wake_up demo_arch 5 False demo_sched)"
proof -
  have "state (demo_task 5) = 2" "array (demo_task 5) = None" "state (demo_task 6) = 0"
    by (simp_all add: demo_task_def base_task_def)
  then show ?thesis
    using wake_one_exclusive [of "[\<lparr>wtask = 6, exclusive = True\<rparr>, \<lparr>wtask = 5, exclusive = True\<rparr>]" demo_arch 3 False
        demo_sched]
    by (simp add: wake_all_def sleeping_def matching_def)
qed

subsection \<open>Priorities\<close>

text \<open>The dynamic priority: in the SHORT class it is \<open>short_prio\<close>; otherwise it lies in the range of the
  ordinary tasks and differs from the static priority by the bonus, at most 5 either way, which grows
  with the average sleep.\<close>
theorem effective_prio_bonus:
  assumes "arch_ok A" and "task_wf A t"
  shows "if policy t = SCHED_SHORT then effective_prio A t = short_prio t
    else 100 \<le> effective_prio A t \<and> effective_prio A t \<le> 139 \<and>
      effective_prio A t = max 100 (min 139
        (static_prio t + 5 - int (1000 * unat (sleep_avg t) div nat (2 * HZ A) div 100))) \<and>
      int (1000 * unat (sleep_avg t) div nat (2 * HZ A) div 100) \<le> 10"
proof (cases "policy t = SCHED_SHORT")
  case True
  then show ?thesis by (simp add: effective_prio_def)
next
  case False
  define m where "m = nat (2 * HZ A)"
  define v where "v = unat (sleep_avg t)"
  have m: "200 \<le> m" "m \<le> 2048" using assms(1) by (auto simp: m_def arch_ok_def nat_le_iff le_nat_iff)
  have um: "unat (of_int (MAX_SLEEP_AVG A) :: u32) = m" using arch_sleep_avg [OF assms(1)] by (simp add: m_def)
  have v: "v \<le> m" using task_wf_common(3) [OF assms(2)] um by (simp add: v_def word_le_nat_alt)
  define b where "b = 1000 * v div m div 100"
  have "1000 * v div m \<le> 1000 * m div m" using v by (intro div_le_mono) simp
  then have b: "b \<le> 10" using m by (simp add: b_def div_le_mono [of _ 1000 100, simplified])
  have "unat ((1000 :: u32) * sleep_avg t) = 1000 * v"
    using v m by (simp add: unat_word_ariths v_def)
  then have "unat ((1000 :: u32) * sleep_avg t div of_int (MAX_SLEEP_AVG A) div 100) = b"
    by (simp add: unat_div_distrib um b_def)
  then have w: "(1000 :: u32) * sleep_avg t div of_int (MAX_SLEEP_AVG A) div 100 = of_nat b"
    by (metis of_nat_unat ucast_id)
  have "sint (of_nat b - 5 :: u32) = int b - 5"
  proof -
    have "(of_nat b - 5 :: u32) = of_int (int b - 5)" by simp
    moreover have "sint (of_int (int b - 5) :: u32) = int b - 5"
      using b by (simp only: int_word_sint) simp
    ultimately show ?thesis by simp
  qed
  with w False b show ?thesis
    by (simp add: effective_prio_def Let_def MAX_USER_PRIO_def USER_PRIO_def PRIO_BONUS_RATIO_def
        m_def [symmetric] v_def [symmetric] b_def [symmetric] max_def min_def)
qed

theorem effective_prio_bonus_witness:
  "effective_prio demo_arch base_task = 125 \<and> effective_prio demo_arch (base_task\<lparr>sleep_avg := 1024\<rparr>) = 115"
proof -
  have "task_wf demo_arch base_task" "task_wf demo_arch (base_task\<lparr>sleep_avg := 1024\<rparr>)"
    by (simp_all add: task_wf_def base_task_def MAX_SLEEP_AVG_def demo_arch_def)
  from this [THEN effective_prio_bonus [OF demo_arch_ok]] show ?thesis
    by (simp add: base_task_def demo_arch_def)
qed

text \<open>Renicing another queued ordinary task: its static and dynamic priority become the new one and it
  goes to the end of its new queue, but no task is ever asked to reschedule, even when the reniced
  task now precedes the running one: the test for a raised priority compares with the value that was
  just stored.\<close>
theorem renice_never_preempts:
  assumes "sched_wf A s" and "array (tasks s p) = Some a" and "policy (tasks s p) = SCHED_OTHER"
    and "p \<noteq> curr (rq s)" and "-20 \<le> nice" and "nice \<le> 19" and "nice \<noteq> TASK_NICE (tasks s p)"
  shows "let s' = set_user_nice p nice s; k = nat (120 + nice) in
    prio (tasks s' p) = 120 + nice \<and> static_prio (tasks s' p) = 120 + nice \<and>
    queue (arrays (rq s') a) k = remove1 p (queue (arrays (rq s) a) k) @ [p] \<and>
    (\<forall>q. need_resched (tasks s' q) = need_resched (tasks s q))"
proof -
  note q = sched_wfD(1) [OF assms(1)]
  have "\<not> rt_task (tasks s p)"
    using queues_wfD(6) [OF q place_range(4) [OF q assms(2)]] assms(3) by (auto simp: task_wf_def rt_task_def)
  then show ?thesis
    using assms(2-7) by (simp add: set_user_nice_def Let_def NICE_TO_PRIO_def rq_deq_enq qkey_def)
qed

text \<open>Task 1, reniced to -20, precedes every ordinary task, but the running one is not asked to yield.\<close>

theorem renice_never_preempts_witness:
  "let s' = set_user_nice 1 (-20) demo_sched in
     prio (tasks s' 1) = 100 \<and> queue (arrays (rq s') 0) 100 = [1] \<and> \<not> need_resched (tasks s' 2)"
proof -
  have "array (tasks demo_sched 1) = Some 0" "policy (tasks demo_sched 1) = SCHED_OTHER"
    "(1 :: nat) \<noteq> curr (rq demo_sched)" "-20 \<noteq> TASK_NICE (tasks demo_sched 1)"
    by (simp_all add: demo_defs TASK_NICE_def PRIO_TO_NICE_def)
  from renice_never_preempts [OF demo_wf this(1-3) _ _ this(4)] show ?thesis
    by (simp add: Let_def demo_queue_def) (simp add: demo_task_def short_task_def base_task_def)
qed

subsection \<open>Forking\<close>

text \<open>Forking conserves the time slices: an ordinary task with at least two ticks left and its child
  together own exactly the ticks the parent had, the child gets the larger half, is put on a queue,
  can be found by its pid, and the parent is asked to reschedule; a SHORT task is refused with EPERM and nothing
  changes; the kernel's BUG check on an empty slice is never reached.\<close>
theorem fork_shares_slice:
  assumes "arch_ok A" and "sched_wf A s" and "current s \<noteq> idle (rq s)" and "array (tasks s p) = None"
    and "p \<noteq> idle (rq s)" and "p < TID_MAX" and "2 \<le> unat (time_slice (tasks s (current s)))"
  shows "\<exists>s' r. do_fork_sched A p newpid m s = Inr (s', r) \<and> sched_wf A s' \<and>
    (if policy (tasks s (current s)) = SCHED_SHORT then s' = s \<and> r = - EPERM
     else r = newpid \<and> array (tasks s' p) \<noteq> None \<and> need_resched (tasks s' (current s')) \<and>
       unat (time_slice (tasks s' p)) = (unat (time_slice (tasks s (current s))) + 1) div 2 \<and>
       unat (time_slice (tasks s' p)) + unat (time_slice (tasks s' (current s)))
         = unat (time_slice (tasks s (current s))))"
proof -
  obtain s' r where f: "do_fork_sched A p newpid m s = Inr (s', r)" "sched_wf A s'"
    "policy (tasks s (current s)) = SCHED_SHORT \<longrightarrow> s' = s \<and> r = - EPERM"
    "policy (tasks s (current s)) \<noteq> SCHED_SHORT \<longrightarrow> r = newpid \<and> array (tasks s' p) \<noteq> None \<and>
       need_resched (tasks s' (current s')) \<and> current s' = current s \<and>
       unat (time_slice (tasks s' p)) = (unat (time_slice (tasks s (current s))) + 1) div 2 \<and>
       unat (time_slice (tasks s' (current s))) = unat (time_slice (tasks s (current s))) div 2"
    using do_fork_sched_ok [OF assms(1-6), of newpid m] assms(7) by blast
  have "(n + 1) div 2 + n div 2 = n" for n :: nat by presburger
  with f show ?thesis by (intro exI [of _ s'] exI [of _ r]) auto
qed

text \<open>The demonstration state with task 1 running.\<close>

definition demo_ordinary :: sched where
  "demo_ordinary = demo_sched\<lparr>current := 1, rq := demo_rq\<lparr>curr := 1\<rparr>\<rparr>"

lemma demo_ordinary_wf: "sched_wf demo_arch demo_ordinary"
proof -
  have "tloc demo_ordinary = tloc demo_sched" by (rule tloc_same_tasks) (simp add: demo_ordinary_def)
  moreover have "active_mm (demo_task (Suc 0)) = Some 1" "array (demo_task (Suc 0)) = Some 0"
    by (simp_all add: demo_task_def)
  ultimately show ?thesis
    using demo_wf by (simp add: demo_ordinary_def sched_wf_def queues_wf_def nr_ok_def mm_wf_def idle_wf_def
      hash_wf_def rq_ok_def queues_ok_def bitmaps_ok_def counts_ok_def arrays_ok_def place_wf_def)
qed

text \<open>Task 1 with 80 ticks forks task 6: forty ticks each.\<close>

theorem fork_shares_slice_witness:
  "\<exists>s'. do_fork_sched demo_arch 6 6 (Some 1) demo_ordinary = Inr (s', 6) \<and> unat (time_slice (tasks s' 6)) = 40 \<and>
     array (tasks s' 6) \<noteq> None"
proof -
  have "array (tasks demo_ordinary 6) = None" "policy (tasks demo_ordinary (current demo_ordinary)) = SCHED_OTHER"
    "time_slice (tasks demo_ordinary (current demo_ordinary)) = 80"
    "current demo_ordinary \<noteq> idle (rq demo_ordinary)"
    "(6 :: nat) \<noteq> idle (rq demo_ordinary)" "(6 :: nat) < TID_MAX"
    by (simp_all add: demo_ordinary_def demo_defs TID_MAX_def)
  from fork_shares_slice [OF demo_arch_ok demo_ordinary_wf this(4,1,5,6), of 6 "Some 1"] this(2,3)
  show ?thesis by (auto simp: SCHED_SHORT_def)
qed

end
