(* ===== verification/Sched_Smp.thy ===== *)
theory Sched_Smp
  imports Sched_Inv
begin

text \<open>
  HW2, the multiprocessor part of \<^verbatim>\<open>HW2/kernel/sched.c\<close> (\<^verbatim>\<open>CONFIG_SMP\<close>): balancing the load between the run
  queues (\<open>CAN_MIGRATE_TASK\<close> to \<open>idle_tick\<close>) and moving a task whose affinity changed (\<open>set_cpus_allowed\<close>,
  \<open>migration_round\<close>). There is a run queue for every processor; an operation on one of them is an operation of
  the uniprocessor model on the view of that processor (\<open>on_cpu\<close>). A function runs with its locks held, so it
  is atomic; where the code lets go of a lock, what the other processors do meanwhile is an argument.

  The addresses of the run queues are in the order of the processors. The numbering of the processors and their
  number, \<^verbatim>\<open>cache_decay_ticks\<close>, the search in a bitmap and \<^verbatim>\<open>__ffs\<close> are fields of \<open>smp_arch\<close>.
\<close>

record smp =
  stasks :: "tid \<Rightarrow> task"
  rqs :: "nat \<Rightarrow> runqueue"
  prev_nr_running :: "nat \<Rightarrow> nat \<Rightarrow> int"
  migration_threads :: "nat \<Rightarrow> tid option"
  migration_queue :: "nat \<Rightarrow> tid list"
  migrated :: "tid list"
  sjiffies :: u32

record smp_arch =
  uni :: arch
  smp_num_cpus :: nat
  cpu_logical_map :: "nat \<Rightarrow> nat"
  cpu_online_map :: u32
  cache_decay_ticks :: u32
  find_next_bit :: "(nat \<Rightarrow> bool) \<Rightarrow> nat \<Rightarrow> nat \<Rightarrow> nat"
  ffs :: "u32 \<Rightarrow> nat"

text \<open>The run queue of one processor, as the uniprocessor model has it.\<close>

definition cpu_view :: "nat \<Rightarrow> smp \<Rightarrow> sched" where
  "cpu_view c s = \<lparr>tasks = stasks s, rq = rqs s c, current = curr (rqs s c), jiffies = sjiffies s, kstat_user = 0,
     kstat_nice = 0, kstat_system = 0, mm_count = (\<lambda>_. 0), pidhash = (\<lambda>_. []), kerrno = 0\<rparr>"

definition put_view :: "nat \<Rightarrow> sched \<Rightarrow> smp \<Rightarrow> smp" where
  "put_view c v s = s\<lparr>stasks := tasks v, rqs := (rqs s)(c := rq v)\<rparr>"

definition on_cpu :: "nat \<Rightarrow> (sched \<Rightarrow> sched) \<Rightarrow> smp \<Rightarrow> smp" where
  "on_cpu c f s = put_view c (f (cpu_view c s)) s"

definition upd_stask :: "tid \<Rightarrow> (task \<Rightarrow> task) \<Rightarrow> smp \<Rightarrow> smp" where
  "upd_stask p f s = s\<lparr>stasks := (stasks s)(p := f (stasks s p))\<rparr>"

definition cpu_bit :: "nat \<Rightarrow> u32" where
  "cpu_bit c = push_bit c 1"

subsection \<open>Balancing the load\<close>

text \<open>The length of the own queue: the longer one of now and of the last time, unless the processor is idle.\<close>

definition own_load :: "nat \<Rightarrow> bool \<Rightarrow> smp \<Rightarrow> int" where
  "own_load c idl s =
     (if idl \<or> nr_running (rqs s c) > of_int (prev_nr_running s c c) then sint (nr_running (rqs s c))
      else prev_nr_running s c c)"

text \<open>\<open>double_lock_balance\<close>: when the other lock is taken, the processors run on (\<open>others\<close>), and if the locks must be
  taken in the other order, so does the rest of the own queue.\<close>

definition double_lock_balance :: "(smp \<Rightarrow> smp) option \<Rightarrow> nat \<Rightarrow> nat \<Rightarrow> bool \<Rightarrow> int \<Rightarrow> smp \<Rightarrow> smp \<times> int" where
  "double_lock_balance others busiest c idl nr s =
     (case others of
        None \<Rightarrow> (s, nr)
      | Some f \<Rightarrow> let s1 = f s in (s1, if busiest < c then own_load c idl s1 else nr))"

definition busiest_step :: "nat \<Rightarrow> bool \<Rightarrow> nat \<Rightarrow> smp \<times> nat option \<times> int \<Rightarrow> smp \<times> nat option \<times> int" where
  "busiest_step c idl l = (\<lambda>(s, busiest, max_load).
     (let n = nr_running (rqs s l);
          load = (if idl \<or> n < of_int (prev_nr_running s c l) then sint n else prev_nr_running s c l);
          s1 = s\<lparr>prev_nr_running := (prev_nr_running s)(c := (prev_nr_running s c)(l := sint n))\<rparr>
      in if load > max_load \<and> l \<noteq> c then (s1, Some l, load) else (s1, busiest, max_load)))"

definition find_busiest :: "smp_arch \<Rightarrow> nat \<Rightarrow> bool \<Rightarrow> smp \<Rightarrow> smp \<times> nat option \<times> int" where
  "find_busiest A c idl s =
     fold (\<lambda>i. busiest_step c idl (cpu_logical_map A i)) [0..<smp_num_cpus A] (s, None, 1)"

definition CAN_MIGRATE_TASK :: "smp_arch \<Rightarrow> tid \<Rightarrow> nat \<Rightarrow> nat \<Rightarrow> smp \<Rightarrow> bool" where
  "CAN_MIGRATE_TASK A p b c s \<longleftrightarrow>
     sjiffies s - sleep_timestamp (stasks s p) > cache_decay_ticks A \<and> p \<noteq> curr (rqs s b) \<and>
     cpus_allowed (stasks s p) AND cpu_bit c \<noteq> 0"

text \<open>The task goes from the array \<open>a\<close> of the processor \<open>b\<close> to the active array of the processor \<open>c\<close>.\<close>

definition pull_task :: "nat \<Rightarrow> nat \<Rightarrow> nat \<Rightarrow> tid \<Rightarrow> smp \<Rightarrow> smp" where
  "pull_task c b a p s =
     (let s1 = on_cpu b (dequeue_task p a) s;
          s2 = on_cpu b (upd_rq (\<lambda>r. r\<lparr>nr_running := nr_running r - 1\<rparr>)) s1;
          s3 = upd_stask p (\<lambda>t. t\<lparr>cpu := c\<rparr>) s2;
          s4 = on_cpu c (upd_rq (\<lambda>r. r\<lparr>nr_running := nr_running r + 1\<rparr>)) s3;
          s5 = on_cpu c (enqueue_task p (active (rqs s4 c))) s4;
          cur = curr (rqs s5 c)
      in if prio (stasks s5 p) < prio (stasks s5 cur) then upd_stask cur (\<lambda>t. t\<lparr>need_resched := True\<rparr>) s5 else s5)"

text \<open>The tasks of one queue, from its end to its head. The result says whether the balancing is over.\<close>

fun skip_queue :: "smp_arch \<Rightarrow> nat \<Rightarrow> nat \<Rightarrow> nat \<Rightarrow> bool \<Rightarrow> tid list \<Rightarrow> smp \<Rightarrow> int \<Rightarrow> smp \<times> int \<times> bool" where
  "skip_queue A c b a idl [] s imbalance = (s, imbalance, False)"
| "skip_queue A c b a idl (p # ps) s imbalance =
     (if \<not> CAN_MIGRATE_TASK A p b c s then skip_queue A c b a idl ps s imbalance
      else let s1 = pull_task c b a p s in
        if idl then (s1, imbalance, True)
        else if imbalance - 1 \<noteq> 0 then skip_queue A c b a idl ps s1 (imbalance - 1)
        else (s1, imbalance - 1, True))"

text \<open>The queues of an array, in the order of the priorities; after the expired array the active one.\<close>

partial_function (option) skip_bitmap ::
  "smp_arch \<Rightarrow> nat \<Rightarrow> nat \<Rightarrow> bool \<Rightarrow> nat \<Rightarrow> nat \<Rightarrow> smp \<Rightarrow> int \<Rightarrow> (fault + smp) option" where
  "skip_bitmap A c b idl a i s imbalance =
     (let x = arrays (rqs s b) a;
          idx = (if i = 0 then sched_find_first_bit (uni A) (bitmap x) else find_next_bit A (bitmap x) (nat MAX_PRIO) i)
      in if idx = nat MAX_PRIO then
           (if a = expired (rqs s b) then skip_bitmap A c b idl (active (rqs s b)) 0 s imbalance else Some (Inr s))
         else if queue x idx = [] then Some (Inl Bad_Address)
         else
           let r = skip_queue A c b a idl (rev (queue x idx)) s imbalance in
           if snd (snd r) then Some (Inr (fst r))
           else skip_bitmap A c b idl a (idx + 1) (fst r) (fst (snd r)))"

definition load_balance :: "smp_arch \<Rightarrow> (smp \<Rightarrow> smp) option \<Rightarrow> nat \<Rightarrow> bool \<Rightarrow> smp \<Rightarrow> (fault + smp) option" where
  "load_balance A others c idl s =
     (let nr = own_load c idl s in
      case find_busiest A c idl s of
        (s1, None, max_load) \<Rightarrow> Some (Inr s1)
      | (s1, Some busiest, max_load) \<Rightarrow>
          let imbalance = (max_load - nr) sdiv 2 in
          if \<not> idl \<and> imbalance < (max_load + 3) sdiv 4 then Some (Inr s1)
          else case double_lock_balance others busiest c idl nr s1 of
            (s2, nr2) \<Rightarrow>
              if nr_running (rqs s2 busiest) \<le> of_int (nr2 + 1) then Some (Inr s2)
              else skip_bitmap A c busiest idl
                (if nr_active (arrays (rqs s2 busiest) (expired (rqs s2 busiest))) \<noteq> 0 then expired (rqs s2 busiest)
                 else active (rqs s2 busiest)) 0 s2 imbalance)"

definition BUSY_REBALANCE_TICK :: "smp_arch \<Rightarrow> u32" where
  "BUSY_REBALANCE_TICK A = (let t = HZ (uni A) div 4 in of_int (if t \<noteq> 0 then t else 1))"

definition IDLE_REBALANCE_TICK :: "smp_arch \<Rightarrow> u32" where
  "IDLE_REBALANCE_TICK A = (let t = HZ (uni A) div 1000 in of_int (if t \<noteq> 0 then t else 1))"

definition idle_tick :: "smp_arch \<Rightarrow> (smp \<Rightarrow> smp) option \<Rightarrow> nat \<Rightarrow> smp \<Rightarrow> (fault + smp) option" where
  "idle_tick A others c s =
     (if sjiffies s mod IDLE_REBALANCE_TICK A \<noteq> 0 then Some (Inr s) else load_balance A others c True s)"

text \<open>The end of \<open>scheduler_tick\<close> on a processor that is not idle.\<close>

definition busy_tick :: "smp_arch \<Rightarrow> (smp \<Rightarrow> smp) option \<Rightarrow> nat \<Rightarrow> smp \<Rightarrow> (fault + smp) option" where
  "busy_tick A others c s =
     (if sjiffies s mod BUSY_REBALANCE_TICK A = 0 then load_balance A others c False s else Some (Inr s))"

definition kick_if_running :: "tid \<Rightarrow> smp \<Rightarrow> smp" where
  "kick_if_running p s =
     (let c = cpu (stasks s p) in if p = curr (rqs s c) then on_cpu c (resched_task p) s else s)"

subsection \<open>Changing the affinity of a task\<close>

text \<open>The result says whether the caller waits for the migration thread.\<close>

definition set_cpus_allowed :: "smp_arch \<Rightarrow> tid \<Rightarrow> u32 \<Rightarrow> smp \<Rightarrow> fault + (smp \<times> bool)" where
  "set_cpus_allowed A p new_mask s =
     (let m = new_mask AND cpu_online_map A; c = cpu (stasks s p); s1 = upd_stask p (\<lambda>t. t\<lparr>cpus_allowed := m\<rparr>) s in
      if m = 0 then Inl Kernel_Bug
      else if m AND cpu_bit c \<noteq> 0 then Inr (s1, False)
      else if array (stasks s p) = None \<and> p \<noteq> curr (rqs s c) then
        Inr (upd_stask p (\<lambda>t. t\<lparr>cpu := ffs A (cpus_allowed t)\<rparr>) s1, False)
      else
        let s2 = s1\<lparr>migration_queue := (migration_queue s1)(c := p # migration_queue s1 c)\<rparr> in
        case migration_threads s2 c of
          None \<Rightarrow> Inl Null_Deref
        | Some t \<Rightarrow> Inr (on_cpu (cpu (stasks s2 t)) (\<lambda>v. fst (wake_up_process (uni A) t v)) s2, True))"

text \<open>One round of the loop of \<open>migration_thread\<close> on the processor \<open>c\<close>; \<open>others\<close> is what the other processors do
  between the two locks. Without a request the thread goes to sleep.\<close>

definition migration_move :: "smp_arch \<Rightarrow> nat \<Rightarrow> tid \<Rightarrow> nat \<Rightarrow> smp \<Rightarrow> fault + smp" where
  "migration_move A c p dest s =
     (if cpu (stasks s p) \<noteq> c then Inr s
      else
        let s1 = upd_stask p (\<lambda>t. t\<lparr>cpu := dest\<rparr>) s in
        if array (stasks s1 p) = None then Inr s1
        else sbind (deactivate_task p (cpu_view c s1)) (\<lambda>v.
          Inr (on_cpu dest (activate_task (uni A) p) (put_view c v s1))))"

definition migration_round :: "smp_arch \<Rightarrow> (smp \<Rightarrow> smp) \<Rightarrow> nat \<Rightarrow> smp \<Rightarrow> fault + smp" where
  "migration_round A others c s =
     (case migration_queue s c of
        [] \<Rightarrow> Inr (upd_stask (curr (rqs s c)) (\<lambda>t. t\<lparr>state := TASK_INTERRUPTIBLE\<rparr>) s)
      | p # ps \<Rightarrow>
          let s1 = upd_stask (curr (rqs s c)) (\<lambda>t. t\<lparr>state := TASK_INTERRUPTIBLE\<rparr>) s;
              s2 = s1\<lparr>migration_queue := (migration_queue s1)(c := ps)\<rparr>;
              dest = ffs A (cpus_allowed (stasks s2 p)) in
          map_sum id (\<lambda>s3. s3\<lparr>migrated := migrated s3 @ [p]\<rparr>) (migration_move A c p dest (others s2)))"

end
