(* ===== verification/Sched_Smp_Inv.thy ===== *)
theory Sched_Smp_Inv
  imports Sched_Smp
begin

text \<open>
  HW2, the run queues of all processors: the invariant \<open>smp_wf\<close>, what pulling tasks from one processor to
  another does (\<open>moved\<close>), and that the search of \<open>load_balance\<close> ends, pulls at most what it is asked for, and
  stops early only when nothing is left that could move.
\<close>

subsection \<open>The invariant\<close>

definition cpus :: "smp_arch \<Rightarrow> nat set" where
  "cpus A = cpu_logical_map A ` {..<smp_num_cpus A}"

text \<open>Where the run queue of the processor \<open>c\<close> has the tasks.\<close>

definition cloc :: "smp \<Rightarrow> nat \<Rightarrow> placement" where
  "cloc s c p = (if cpu (stasks s p) = c then tplace (stasks s p) else None)"

definition load :: "smp \<Rightarrow> nat \<Rightarrow> nat" where
  "load s c = card (dom (cloc s c))"

definition cpu_wf :: "smp \<Rightarrow> nat \<Rightarrow> bool" where
  "cpu_wf s c \<longleftrightarrow> arrays_ok (rqs s c) \<and> rq_ok (cloc s c) (rqs s c) \<and> nr_running (rqs s c) = of_nat (load s c)"

definition stask_wf :: "smp_arch \<Rightarrow> smp \<Rightarrow> tid \<Rightarrow> bool" where
  "stask_wf A s p \<longleftrightarrow> (array (stasks s p) \<noteq> None \<longrightarrow>
     cpu (stasks s p) \<in> cpus A \<and> task_wf (uni A) (stasks s p) \<and> place_wf (rqs s (cpu (stasks s p))) (stasks s p))"

definition prev_wf :: "smp \<Rightarrow> bool" where
  "prev_wf s \<longleftrightarrow> (\<forall>c l. 0 \<le> prev_nr_running s c l \<and> prev_nr_running s c l \<le> int TID_MAX)"

definition smp_wf :: "smp_arch \<Rightarrow> smp \<Rightarrow> bool" where
  "smp_wf A s \<longleftrightarrow> (\<forall>c\<in>cpus A. cpu_wf s c) \<and> (\<forall>p. stask_wf A s p) \<and> prev_wf s"

lemma smp_wfD:
  assumes "smp_wf A s"
  shows "c \<in> cpus A \<Longrightarrow> arrays_ok (rqs s c)" "c \<in> cpus A \<Longrightarrow> rq_ok (cloc s c) (rqs s c)"
    "c \<in> cpus A \<Longrightarrow> nr_running (rqs s c) = of_nat (load s c)"
    "array (stasks s p) \<noteq> None \<Longrightarrow> cpu (stasks s p) \<in> cpus A" "array (stasks s p) \<noteq> None \<Longrightarrow> task_wf (uni A) (stasks s p)"
    "array (stasks s p) \<noteq> None \<Longrightarrow> place_wf (rqs s (cpu (stasks s p))) (stasks s p)"
    "0 \<le> prev_nr_running s c l" "prev_nr_running s c l \<le> int TID_MAX"
  using assms by (auto simp: smp_wf_def cpu_wf_def stask_wf_def prev_wf_def)

lemma cloc_Some: "cloc s c p = Some (a, k) \<longleftrightarrow> cpu (stasks s p) = c \<and> array (stasks s p) = Some a \<and> k = qkey (stasks s p)"
  by (auto simp: cloc_def tplace_def)

lemma cloc_range:
  assumes "smp_wf A s" "cloc s c p = Some (a, k)"
  shows "a < 3" "k < 140" "p < TID_MAX" "c \<in> cpus A"
proof -
  have "cpu (stasks s p) = c" "array (stasks s p) \<noteq> None" using assms(2) by (auto simp: cloc_Some)
  then show c: "c \<in> cpus A" using smp_wfD(4) [OF assms(1), of p] by simp
  show "a < 3" "k < 140" "p < TID_MAX"
    using smp_wfD(2) [OF assms(1) c] assms(2) by (auto simp: rq_ok_def placement_range_def)
qed

lemma load_max: "smp_wf A s \<Longrightarrow> c \<in> cpus A \<Longrightarrow> load s c \<le> TID_MAX"
  unfolding load_def using smp_wfD(2) [of A s c] by (simp add: rq_ok_def card_dom_placement)

lemma load_finite: "smp_wf A s \<Longrightarrow> c \<in> cpus A \<Longrightarrow> finite (dom (cloc s c))"
  using smp_wfD(2) [of A s c] by (simp add: rq_ok_def finite_dom_placement)

text \<open>Lengths of queues are small numbers, so the words count them.\<close>

lemma small_word:
  assumes "m \<le> TID_MAX" "n \<le> TID_MAX + 1"
  shows "sint (of_nat m :: u32) = int m" "(of_nat m :: u32) < of_nat n \<longleftrightarrow> m < n" "(of_nat m :: u32) \<le> of_nat n \<longleftrightarrow> m \<le> n"
    "(of_nat n :: u32) < of_nat m \<longleftrightarrow> n < m"
proof -
  have b: "m < 2 ^ 31" "n < 2 ^ 31" using assms by (simp_all add: TID_MAX_def)
  then have u: "uint (of_nat m :: u32) = int m" "uint (of_nat n :: u32) = int n"
    by (simp_all add: unsigned_of_nat take_bit_nat_eq_self)
  then show "(of_nat m :: u32) < of_nat n \<longleftrightarrow> m < n" "(of_nat m :: u32) \<le> of_nat n \<longleftrightarrow> m \<le> n" "(of_nat n :: u32) < of_nat m \<longleftrightarrow> n < m"
    by (simp_all add: word_less_def word_le_def)
  have "signed_take_bit 31 (int m) = int m" using b(1) by (intro signed_take_bit_int_eq_self) simp_all
  then show "sint (of_nat m :: u32) = int m" by (simp add: signed_of_nat)
qed

subsection \<open>Pulling one task\<close>

definition same_sched :: "task \<Rightarrow> task \<Rightarrow> bool" where
  "same_sched t t' \<longleftrightarrow> (\<exists>n. t' = t\<lparr>need_resched := n\<rparr>)"

lemma same_schedI [simp]: "same_sched t t" "same_sched t (t\<lparr>need_resched := n\<rparr>)"
  unfolding same_sched_def by (rule exI [of _ "need_resched t"], simp) blast

lemma same_sched_trans: "same_sched t u \<Longrightarrow> same_sched u v \<Longrightarrow> same_sched t v"
  by (auto simp: same_sched_def)

lemma same_schedD:
  assumes "same_sched t t'"
  shows "cpu t' = cpu t" "array t' = array t" "tplace t' = tplace t" "policy t' = policy t" "cpus_allowed t' = cpus_allowed t"
    "sleep_timestamp t' = sleep_timestamp t" "qkey t' = qkey t" "task_wf A t' = task_wf A t" "place_wf r t' = place_wf r t"
  using assms by (auto simp: same_sched_def qkey_def)

lemma same_sched_move: "same_sched t u \<Longrightarrow> same_sched (t\<lparr>cpu := c, array := a\<rparr>) (u\<lparr>cpu := c, array := a\<rparr>)"
  by (cases t) (auto simp: same_sched_def)

lemma view_sel [simp]:
  "stasks (on_cpu c f s) = tasks (f (cpu_view c s))" "rqs (on_cpu c f s) = (rqs s)(c := rq (f (cpu_view c s)))"
  "prev_nr_running (on_cpu c f s) = prev_nr_running s" "sjiffies (on_cpu c f s) = sjiffies s"
  "migration_queue (on_cpu c f s) = migration_queue s" "migration_threads (on_cpu c f s) = migration_threads s"
  "migrated (on_cpu c f s) = migrated s"
  "tasks (cpu_view c s) = stasks s" "rq (cpu_view c s) = rqs s c" "current (cpu_view c s) = curr (rqs s c)"
  "jiffies (cpu_view c s) = sjiffies s"
  "stasks (upd_stask p g s) = (stasks s)(p := g (stasks s p))" "rqs (upd_stask p g s) = rqs s"
  "prev_nr_running (upd_stask p g s) = prev_nr_running s" "sjiffies (upd_stask p g s) = sjiffies s"
  "migration_queue (upd_stask p g s) = migration_queue s" "migration_threads (upd_stask p g s) = migration_threads s"
  "migrated (upd_stask p g s) = migrated s"
  by (simp_all add: on_cpu_def put_view_def cpu_view_def upd_stask_def)

lemma pull_task_rest:
  "prev_nr_running (pull_task c b a p s) = prev_nr_running s" "sjiffies (pull_task c b a p s) = sjiffies s"
  "migration_queue (pull_task c b a p s) = migration_queue s" "migration_threads (pull_task c b a p s) = migration_threads s"
  "migrated (pull_task c b a p s) = migrated s"
  by (simp_all add: pull_task_def Let_def)

text \<open>The state before the test for preemption.\<close>

lemma pull_task_steps:
  assumes "b \<noteq> c"
  obtains s5 where
    "rqs s5 = (rqs s)
      (b := (rq_dequeue p (qkey (stasks s p)) a (rqs s b))\<lparr>nr_running := nr_running (rqs s b) - 1\<rparr>,
       c := (rq_enqueue p (qkey (stasks s p)) (active (rqs s c)) (rqs s c))\<lparr>nr_running := nr_running (rqs s c) + 1\<rparr>)"
    "stasks s5 = (stasks s)(p := (stasks s p)\<lparr>cpu := c, array := Some (active (rqs s c))\<rparr>)"
    "pull_task c b a p s = s5 \<or> (\<exists>q. pull_task c b a p s = upd_stask q (\<lambda>t. t\<lparr>need_resched := True\<rparr>) s5)"
proof -
  define s1 where "s1 = on_cpu b (dequeue_task p a) s"
  define s2 where "s2 = on_cpu b (upd_rq (\<lambda>r. r\<lparr>nr_running := nr_running r - 1\<rparr>)) s1"
  define s3 where "s3 = upd_stask p (\<lambda>t. t\<lparr>cpu := c\<rparr>) s2"
  define s4 where "s4 = on_cpu c (upd_rq (\<lambda>r. r\<lparr>nr_running := nr_running r + 1\<rparr>)) s3"
  define s5 where "s5 = on_cpu c (enqueue_task p (active (rqs s4 c))) s4"
  have 3: "rqs s3 = (rqs s)(b := (rq_dequeue p (qkey (stasks s p)) a (rqs s b))\<lparr>nr_running := nr_running (rqs s b) - 1\<rparr>)"
    "stasks s3 = (stasks s)(p := (stasks s p)\<lparr>cpu := c\<rparr>)"
    by (simp_all add: s3_def s2_def s1_def)
  have 5: "rqs s5 = (rqs s3)(c := (rq_enqueue p (qkey (stasks s p)) (active (rqs s3 c)) (rqs s3 c))\<lparr>nr_running := nr_running (rqs s3 c) + 1\<rparr>)"
    "stasks s5 = (stasks s3)(p := (stasks s3 p)\<lparr>array := Some (active (rqs s3 c))\<rparr>)"
    by (simp_all add: s5_def s4_def 3(2) qkey_def)
  show thesis
  proof (rule that)
    show "rqs s5 = (rqs s)
      (b := (rq_dequeue p (qkey (stasks s p)) a (rqs s b))\<lparr>nr_running := nr_running (rqs s b) - 1\<rparr>,
       c := (rq_enqueue p (qkey (stasks s p)) (active (rqs s c)) (rqs s c))\<lparr>nr_running := nr_running (rqs s c) + 1\<rparr>)"
      using assms by (simp add: 5(1) 3(1))
    show "stasks s5 = (stasks s)(p := (stasks s p)\<lparr>cpu := c, array := Some (active (rqs s c))\<rparr>)"
      using assms by (simp add: 5(2) 3)
    show "pull_task c b a p s = s5 \<or> (\<exists>q. pull_task c b a p s = upd_stask q (\<lambda>t. t\<lparr>need_resched := True\<rparr>) s5)"
      unfolding pull_task_def Let_def s1_def [symmetric] s2_def [symmetric] s3_def [symmetric] s4_def [symmetric] s5_def [symmetric]
      by (cases "prio (stasks s5 p) < prio (stasks s5 (curr (rqs s5 c)))") (simp_all only: if_True if_False, blast+)
  qed
qed

lemma pull_task_rqs:
  assumes "b \<noteq> c"
  shows "rqs (pull_task c b a p s) = (rqs s)
    (b := (rq_dequeue p (qkey (stasks s p)) a (rqs s b))\<lparr>nr_running := nr_running (rqs s b) - 1\<rparr>,
     c := (rq_enqueue p (qkey (stasks s p)) (active (rqs s c)) (rqs s c))\<lparr>nr_running := nr_running (rqs s c) + 1\<rparr>)"
  by (rule pull_task_steps [OF assms, of s p a]) (elim disjE exE, simp_all)

lemma pull_task_tasks:
  assumes "b \<noteq> c"
  shows "same_sched (if q = p then (stasks s p)\<lparr>cpu := c, array := Some (active (rqs s c))\<rparr> else stasks s q)
    (stasks (pull_task c b a p s) q)"
  by (rule pull_task_steps [OF assms, of s p a]) (elim disjE exE, simp_all)

text \<open>Pulling keeps the invariant: both queues represent the new places, and both counts are right.\<close>

lemma pull_task_loc:
  assumes p: "cloc s b p = Some (a, k)" and bc: "b \<noteq> c"
  shows "cloc (pull_task c b a p s) d = (if d = b then (cloc s b)(p := None)
    else if d = c then (cloc s c)(p \<mapsto> (active (rqs s c), k)) else cloc s d)"
proof (rule ext)
  fix q
  have k: "k = qkey (stasks s p)" "cpu (stasks s p) = b" using p by (auto simp: cloc_Some)
  show "cloc (pull_task c b a p s) d q = (if d = b then (cloc s b)(p := None)
    else if d = c then (cloc s c)(p \<mapsto> (active (rqs s c), k)) else cloc s d) q"
  proof (cases "q = p")
    case True
    have "same_sched ((stasks s p)\<lparr>cpu := c, array := Some (active (rqs s c))\<rparr>) (stasks (pull_task c b a p s) p)"
      using pull_task_tasks [OF bc, of p p s a] by simp
    note t = same_schedD [OF this]
    have "tplace (stasks (pull_task c b a p s) p) = Some (active (rqs s c), k)" unfolding t(3) by (simp add: tplace_def qkey_def k)
    then show ?thesis using True bc k(2) by (simp add: cloc_def t(1))
  next
    case False
    have "same_sched (stasks s q) (stasks (pull_task c b a p s) q)" using pull_task_tasks [OF bc, of q p s a] False by simp
    note t = same_schedD [OF this]
    show ?thesis using False bc by (simp add: cloc_def t(1,3))
  qed
qed

lemma pull_task_wf:
  assumes wf: "smp_wf A s" and p: "cloc s b p = Some (a, k)" and bc: "b \<noteq> c" "c \<in> cpus A" and a: "a \<noteq> short_pr (rqs s b)"
  shows "smp_wf A (pull_task c b a p s)"
    and "load s b = load (pull_task c b a p s) b + 1" and "load (pull_task c b a p s) c = load s c + 1"
    and "policy (stasks s p) \<noteq> SCHED_SHORT"
proof -
  let ?s = "pull_task c b a p s"
  note R = pull_task_rqs [OF bc(1), of a p s] and T = pull_task_tasks [OF bc(1), of _ p s a] and L = pull_task_loc [OF p bc(1)]
  have b: "b \<in> cpus A" and r: "a < 3" "k < 140" "p < TID_MAX" using cloc_range [OF wf p] by simp_all
  have pp: "cpu (stasks s p) = b" "array (stasks s p) = Some a" "k = qkey (stasks s p)" using p by (auto simp: cloc_Some)
  have n: "cloc s c p = None" using pp(1) bc(1) by (simp add: cloc_def)
  have fin: "finite (dom (cloc s b))" "finite (dom (cloc s c))" using load_finite [OF wf] b bc(2) by simp_all
  have pd: "p \<in> dom (cloc s b)" using p by blast
  show lb: "load s b = load ?s b + 1"
    unfolding load_def L using fin(1) pd card_gt_0_iff [of "dom (cloc s b)"] by auto
  show lc: "load ?s c = load s c + 1"
    unfolding load_def L using fin(2) n bc(1) by (simp add: domIff)
  have pw: "task_wf (uni A) (stasks s p)" "place_wf (rqs s b) (stasks s p)"
    using smp_wfD(5,6) [OF wf, of p] pp(1,2) by simp_all
  show pol: "policy (stasks s p) \<noteq> SCHED_SHORT" using pw(2) pp(2) a by (simp add: place_wf_def)
  have act: "active (rqs s c) < 3" "active (rqs s c) \<noteq> expired (rqs s c)" "active (rqs s c) \<noteq> short_pr (rqs s c)"
    using smp_wfD(1) [OF wf bc(2)] by (simp_all add: arrays_ok_def)
  have "cpu_wf ?s d" if d: "d \<in> cpus A" for d
  proof -
    consider "d = b" | "d = c" "d \<noteq> b" | "d \<noteq> b" "d \<noteq> c" by blast
    then show ?thesis
    proof cases
      case 1
      have "rq_ok ((cloc s b)(p := None)) (rq_dequeue p k a (rqs s b))" by (rule pq.deq_ok [OF smp_wfD(2) [OF wf b] p])
      then show ?thesis
        using smp_wfD(1,3) [OF wf b] lb bc(1) 1 by (simp add: cpu_wf_def R L pp(3) arrays_ok_def)
    next
      case 2
      have "rq_ok ((cloc s c)(p \<mapsto> (active (rqs s c), k))) (rq_enqueue p k (active (rqs s c)) (rqs s c))"
        by (rule pq.enq_ok [OF smp_wfD(2) [OF wf bc(2)] n act(1) r(2,3)])
      then show ?thesis
        using smp_wfD(1,3) [OF wf bc(2)] lc bc(1) 2 by (simp add: cpu_wf_def R L pp(3) arrays_ok_def)
    next
      case 3
      then show ?thesis using smp_wfD(1-3) [OF wf d] by (simp add: cpu_wf_def R L load_def)
    qed
  qed
  moreover have "stask_wf A ?s q" for q
  proof (cases "q = p")
    case True
    have "same_sched ((stasks s p)\<lparr>cpu := c, array := Some (active (rqs s c))\<rparr>) (stasks ?s p)" using T [of p] by simp
    note t = same_schedD [OF this]
    show ?thesis using True bc pw(1) pol act by (simp add: stask_wf_def t place_wf_def R)
  next
    case False
    have "same_sched (stasks s q) (stasks ?s q)" using T [of q] False by simp
    note t = same_schedD [OF this]
    have "place_wf (rqs ?s d) u = place_wf (rqs s d) u" for d u using bc(1) by (simp add: R place_wf_def)
    then show ?thesis using smp_wfD(4-6) [OF wf, of q] by (simp add: stask_wf_def t)
  qed
  moreover have "prev_wf ?s" using smp_wfD(7,8) [OF wf] by (simp add: prev_wf_def pull_task_rest)
  ultimately show "smp_wf A ?s" by (simp add: smp_wf_def)
qed

subsection \<open>Pulling several tasks\<close>

text \<open>The tasks \<open>M\<close> went from \<open>b\<close> to \<open>c\<close>; nothing else happened but a request to reschedule.\<close>

definition same_pointers :: "runqueue \<Rightarrow> runqueue \<Rightarrow> bool" where
  "same_pointers r r' \<longleftrightarrow> active r' = active r \<and> expired r' = expired r \<and> short_pr r' = short_pr r \<and> curr r' = curr r"

definition movable :: "smp_arch \<Rightarrow> nat \<Rightarrow> nat \<Rightarrow> smp \<Rightarrow> tid \<Rightarrow> bool" where
  "movable A b c s p \<longleftrightarrow> cpu (stasks s p) = b \<and> array (stasks s p) \<in> {Some (active (rqs s b)), Some (expired (rqs s b))} \<and>
     CAN_MIGRATE_TASK A p b c s"

definition moved :: "smp_arch \<Rightarrow> nat \<Rightarrow> nat \<Rightarrow> smp \<Rightarrow> smp \<Rightarrow> tid set \<Rightarrow> bool" where
  "moved A b c s s' M \<longleftrightarrow> smp_wf A s' \<and> finite M \<and>
     (\<forall>p\<in>M. movable A b c s p \<and> policy (stasks s p) \<noteq> SCHED_SHORT \<and>
       same_sched ((stasks s p)\<lparr>cpu := c, array := Some (active (rqs s c))\<rparr>) (stasks s' p)) \<and>
     (\<forall>p. p \<notin> M \<longrightarrow> same_sched (stasks s p) (stasks s' p)) \<and>
     load s b = load s' b + card M \<and> load s' c = load s c + card M \<and>
     (\<forall>d. same_pointers (rqs s d) (rqs s' d)) \<and> (\<forall>d. d \<noteq> b \<longrightarrow> d \<noteq> c \<longrightarrow> rqs s' d = rqs s d) \<and>
     prev_nr_running s' = prev_nr_running s \<and> sjiffies s' = sjiffies s"

lemma movedD:
  assumes "moved A b c s s' M"
  shows "smp_wf A s'" "finite M" "p \<in> M \<Longrightarrow> movable A b c s p" "p \<in> M \<Longrightarrow> policy (stasks s p) \<noteq> SCHED_SHORT"
    "p \<in> M \<Longrightarrow> same_sched ((stasks s p)\<lparr>cpu := c, array := Some (active (rqs s c))\<rparr>) (stasks s' p)"
    "p \<notin> M \<Longrightarrow> same_sched (stasks s p) (stasks s' p)" "load s b = load s' b + card M" "load s' c = load s c + card M"
    "active (rqs s' d) = active (rqs s d)" "expired (rqs s' d) = expired (rqs s d)" "short_pr (rqs s' d) = short_pr (rqs s d)"
    "curr (rqs s' d) = curr (rqs s d)" "d \<noteq> b \<Longrightarrow> d \<noteq> c \<Longrightarrow> rqs s' d = rqs s d"
    "prev_nr_running s' = prev_nr_running s" "sjiffies s' = sjiffies s"
  using assms by (auto simp: moved_def same_pointers_def)

lemma moved_refl: "smp_wf A s \<Longrightarrow> moved A b c s s {}"
  by (simp add: moved_def same_pointers_def)

lemma moved_movable:
  assumes m: "moved A b c s s' M" and bc: "b \<noteq> c"
  shows "movable A b c s' p \<longleftrightarrow> movable A b c s p \<and> p \<notin> M"
proof (cases "p \<in> M")
  case True
  then show ?thesis using same_schedD(1) [OF movedD(5) [OF m True]] bc by (simp add: movable_def)
next
  case False
  note t = same_schedD [OF movedD(6) [OF m False]]
  show ?thesis using False by (simp add: movable_def CAN_MIGRATE_TASK_def t movedD(9,10,12,15) [OF m])
qed

lemma moved_trans:
  assumes 1: "moved A b c s s1 M" and 2: "moved A b c s1 s2 N" and bc: "b \<noteq> c"
  shows "moved A b c s s2 (M \<union> N)" "M \<inter> N = {}"
proof -
  note D = movedD [OF 1] and E = movedD [OF 2] and V = moved_movable [OF 1 bc]
  show d: "M \<inter> N = {}" using E(3) V by blast
  then have card: "card (M \<union> N) = card M + card N" using D(2) E(2) by (simp add: card_Un_disjoint)
  have "movable A b c s p \<and> policy (stasks s p) \<noteq> SCHED_SHORT \<and>
      same_sched ((stasks s p)\<lparr>cpu := c, array := Some (active (rqs s c))\<rparr>) (stasks s2 p)" if "p \<in> M \<union> N" for p
  proof (cases "p \<in> M")
    case True
    then have "p \<notin> N" using d by blast
    then show ?thesis using True D(3,4) same_sched_trans [OF D(5) [OF True] E(6)] by simp
  next
    case False
    then have p: "p \<in> N" using that by blast
    have u: "same_sched (stasks s p) (stasks s1 p)" by (rule D(6) [OF False])
    then have "same_sched ((stasks s p)\<lparr>cpu := c, array := Some (active (rqs s c))\<rparr>)
        ((stasks s1 p)\<lparr>cpu := c, array := Some (active (rqs s1 c))\<rparr>)"
      using same_sched_move [OF u] by (simp add: D(9))
    then show ?thesis using E(3-5) [OF p] V same_schedD(4) [OF u] by (auto intro: same_sched_trans)
  qed
  then show "moved A b c s s2 (M \<union> N)"
    using D E card unfolding moved_def same_pointers_def by (simp, blast intro: same_sched_trans)
qed

lemma moved_one:
  assumes wf: "smp_wf A s" and p: "cloc s b p = Some (a, k)" and can: "CAN_MIGRATE_TASK A p b c s"
    and bc: "b \<noteq> c" "c \<in> cpus A" and a: "a \<in> {active (rqs s b), expired (rqs s b)}"
  shows "moved A b c s (pull_task c b a p s) {p}"
proof -
  have "b \<in> cpus A" using cloc_range [OF wf p] by simp
  then have sh: "a \<noteq> short_pr (rqs s b)" using smp_wfD(1) [OF wf, of b] a by (auto simp: arrays_ok_def)
  have "movable A b c s p" using p can a by (auto simp: movable_def cloc_Some)
  moreover have "same_sched (if q = p then (stasks s p)\<lparr>cpu := c, array := Some (active (rqs s c))\<rparr> else stasks s q)
    (stasks (pull_task c b a p s) q)" for q by (rule pull_task_tasks [OF bc(1)])
  from this [of p] have "same_sched ((stasks s p)\<lparr>cpu := c, array := Some (active (rqs s c))\<rparr>) (stasks (pull_task c b a p s) p)"
    by simp
  moreover have "same_sched (stasks s q) (stasks (pull_task c b a p s) q)" if "q \<noteq> p" for q
    using pull_task_tasks [OF bc(1), of q p s a] that by simp
  moreover have "same_pointers (rqs s d) (rqs (pull_task c b a p s) d)" for d
    by (simp add: same_pointers_def pull_task_rqs [OF bc(1)])
  moreover have "d \<noteq> b \<Longrightarrow> d \<noteq> c \<Longrightarrow> rqs (pull_task c b a p s) d = rqs s d" for d
    by (simp add: pull_task_rqs [OF bc(1)])
  ultimately show ?thesis using pull_task_wf [OF wf p bc sh] by (simp add: moved_def pull_task_rest)
qed

subsection \<open>The search\<close>

text \<open>How many tasks are still wanted.\<close>

definition wanted :: "bool \<Rightarrow> int \<Rightarrow> int" where
  "wanted idl imbalance = (if idl then 1 else imbalance)"

lemma skip_queue_moved:
  assumes "smp_wf A s" "b \<noteq> c" "c \<in> cpus A" "a \<in> {active (rqs s b), expired (rqs s b)}" "distinct ps"
    "\<And>p. p \<in> set ps \<Longrightarrow> cloc s b p = Some (a, k)" "0 < wanted idl n"
    and r: "skip_queue A c b a idl ps s n = (s', n', stop)"
  shows "\<exists>M\<subseteq>set ps. moved A b c s s' M \<and> wanted idl n = (if stop then 0 else wanted idl n') + int (card M) \<and>
    (\<not> stop \<longrightarrow> 0 < wanted idl n' \<and> (\<forall>p\<in>set ps. CAN_MIGRATE_TASK A p b c s \<longrightarrow> p \<in> M))"
  using assms
proof (induction ps arbitrary: s n)
  case Nil
  then show ?case using moved_refl [OF Nil(1)] by auto
next
  case (Cons p ps)
  show ?case
  proof (cases "CAN_MIGRATE_TASK A p b c s")
    case False
    have "skip_queue A c b a idl ps s n = (s', n', stop)" using Cons.prems(8) False by simp
    from Cons.IH [OF Cons.prems(1-4) _ _ Cons.prems(7) this] Cons.prems(5,6) obtain M where
      "M \<subseteq> set ps" "moved A b c s s' M" "wanted idl n = (if stop then 0 else wanted idl n') + int (card M)"
      "\<not> stop \<longrightarrow> 0 < wanted idl n' \<and> (\<forall>p\<in>set ps. CAN_MIGRATE_TASK A p b c s \<longrightarrow> p \<in> M)" by auto
    then show ?thesis using False by (intro exI [of _ M]) auto
  next
    case True
    let ?s = "pull_task c b a p s"
    have p: "cloc s b p = Some (a, k)" using Cons.prems(6) by simp
    have m1: "moved A b c s ?s {p}" by (rule moved_one [OF Cons.prems(1) p True Cons.prems(2-4)])
    note D = movedD [OF m1]
    consider (stop) "idl \<or> n = 1" "s' = ?s" "stop" | (more) "\<not> idl" "n \<noteq> 1" "skip_queue A c b a idl ps ?s (n - 1) = (s', n', stop)"
      using Cons.prems(8) True by (auto simp: Let_def split: if_splits)
    then show ?thesis
    proof cases
      case stop
      then show ?thesis using m1 by (intro exI [of _ "{p}"]) (auto simp: wanted_def)
    next
      case more
      have "cloc ?s b q = Some (a, k)" if "q \<in> set ps" for q
      proof -
        have "q \<noteq> p" using that Cons.prems(5) by auto
        then show ?thesis using pull_task_loc [OF p Cons.prems(2), of b] Cons.prems(6) [of q] that by simp
      qed
      moreover have "0 < wanted idl (n - 1)" using more Cons.prems(7) by (simp add: wanted_def)
      ultimately obtain M where M: "M \<subseteq> set ps" "moved A b c ?s s' M"
        "wanted idl (n - 1) = (if stop then 0 else wanted idl n') + int (card M)"
        "\<not> stop \<longrightarrow> 0 < wanted idl n' \<and> (\<forall>q\<in>set ps. CAN_MIGRATE_TASK A q b c ?s \<longrightarrow> q \<in> M)"
        using Cons.IH [OF D(1) Cons.prems(2,3) _ _ _ _ more(3)] Cons.prems(4,5) by (auto simp: D(9,10))
      have can: "CAN_MIGRATE_TASK A q b c ?s = CAN_MIGRATE_TASK A q b c s" if "q \<noteq> p" for q
        using same_schedD [OF D(6) [of q]] that D(12,15) by (simp add: CAN_MIGRATE_TASK_def)
      note t = moved_trans [OF m1 M(2) Cons.prems(2)]
      have "card ({p} \<union> M) = card M + 1" using t(2) movedD(2) [OF M(2)] by simp
      then have "wanted idl n = (if stop then 0 else wanted idl n') + int (card ({p} \<union> M))"
        using M(3) more(1) by (simp add: wanted_def)
      then show ?thesis using t(1) M(1,4) can by (intro exI [of _ "{p} \<union> M"]) auto
    qed
  qed
qed

text \<open>The searches in a bitmap: \<^verbatim>\<open>find_next_bit\<close> gives the least set bit from a place on, or the size.\<close>

definition next_bit_ok :: "((nat \<Rightarrow> bool) \<Rightarrow> nat \<Rightarrow> nat \<Rightarrow> nat) \<Rightarrow> bool" where
  "next_bit_ok f \<longleftrightarrow> (\<forall>b n i. i \<le> n \<longrightarrow> i \<le> f b n i \<and> f b n i \<le> n \<and> (f b n i < n \<longrightarrow> b (f b n i)) \<and>
     (\<forall>k. i \<le> k \<longrightarrow> k < f b n i \<longrightarrow> \<not> b k))"

definition smp_arch_ok :: "smp_arch \<Rightarrow> bool" where
  "smp_arch_ok A \<longleftrightarrow> arch_ok (uni A) \<and> next_bit_ok (find_next_bit A)"

definition next_queue :: "smp_arch \<Rightarrow> (nat \<Rightarrow> bool) \<Rightarrow> nat \<Rightarrow> nat" where
  "next_queue A x i = (if i = 0 then sched_find_first_bit (uni A) x else find_next_bit A x 140 i)"

lemma next_queue_bits:
  assumes A: "smp_arch_ok A" and x: "x 140" and i: "i \<le> 140"
  shows "i \<le> next_queue A x i" "next_queue A x i \<le> 140" "x (next_queue A x i)"
    "i \<le> k \<Longrightarrow> k < next_queue A x i \<Longrightarrow> \<not> x k"
proof -
  have f: "y k \<Longrightarrow> y (sched_find_first_bit (uni A) y) \<and> sched_find_first_bit (uni A) y \<le> k" for y k
    using A unfolding smp_arch_ok_def arch_ok_def first_bit_ok_def by blast
  have n: "i \<le> find_next_bit A x 140 i \<and> find_next_bit A x 140 i \<le> 140 \<and>
      (find_next_bit A x 140 i < 140 \<longrightarrow> x (find_next_bit A x 140 i)) \<and> (\<forall>k. i \<le> k \<longrightarrow> k < find_next_bit A x 140 i \<longrightarrow> \<not> x k)"
    using A i unfolding smp_arch_ok_def next_bit_ok_def by blast
  show "i \<le> next_queue A x i" "next_queue A x i \<le> 140" using f [of x 140] n x by (auto simp: next_queue_def)
  show "x (next_queue A x i)"
    using f [of x 140] n x by (cases "find_next_bit A x 140 i = 140") (auto simp: next_queue_def)
  show "i \<le> k \<Longrightarrow> k < next_queue A x i \<Longrightarrow> \<not> x k"
    using f [of x k] n unfolding next_queue_def by (cases "i = 0") (force, simp)
qed

text \<open>What is still to be looked at from the queue \<open>i\<close> of the array \<open>a\<close> on.\<close>

definition ahead :: "smp \<Rightarrow> nat \<Rightarrow> nat \<Rightarrow> nat \<Rightarrow> tid \<Rightarrow> bool" where
  "ahead s b a i p \<longleftrightarrow> cpu (stasks s p) = b \<and>
     (array (stasks s p) = Some a \<and> i \<le> qkey (stasks s p) \<or>
      a = expired (rqs s b) \<and> array (stasks s p) = Some (active (rqs s b)))"

lemma queue_of:
  assumes "smp_wf A s" "b \<in> cpus A" "a < 3" "k < 140"
  shows "distinct (queue (arrays (rqs s b) a) k)" "p \<in> set (queue (arrays (rqs s b) a) k) \<longleftrightarrow> cloc s b p = Some (a, k)"
    "bitmap (arrays (rqs s b) a) k \<longleftrightarrow> queue (arrays (rqs s b) a) k \<noteq> []" "bitmap (arrays (rqs s b) a) 140"
  using smp_wfD(2) [OF assms(1,2)] assms(3,4) by (auto simp: rq_ok_def queues_ok_def bitmaps_ok_def)

lemma not_ahead:
  assumes wf: "smp_wf A s" and b: "b \<in> cpus A" "a < 3"
    and none: "\<And>k. i \<le> k \<Longrightarrow> k < j \<Longrightarrow> \<not> bitmap (arrays (rqs s b) a) k" and p: "ahead s b a i p"
  shows "array (stasks s p) = Some a \<and> j \<le> qkey (stasks s p) \<or> a = expired (rqs s b) \<and> array (stasks s p) = Some (active (rqs s b))"
proof (rule ccontr)
  assume "\<not> ?thesis"
  then have q: "array (stasks s p) = Some a" "i \<le> qkey (stasks s p)" "qkey (stasks s p) < j" "cpu (stasks s p) = b"
    using p by (auto simp: ahead_def)
  then have l: "cloc s b p = Some (a, qkey (stasks s p))" by (simp add: cloc_Some)
  have k: "qkey (stasks s p) < 140" using cloc_range [OF wf l] by simp
  have "queue (arrays (rqs s b) a) (qkey (stasks s p)) \<noteq> []" using queue_of(2) [OF wf b k, of p] l by auto
  then show False using none [OF q(2,3)] queue_of(3) [OF wf b k] by simp
qed

lemma skip_bitmap_moved:
  assumes A: "smp_arch_ok A" and bc: "b \<noteq> c" "b \<in> cpus A" "c \<in> cpus A"
  shows "smp_wf A s \<Longrightarrow> a \<in> {active (rqs s b), expired (rqs s b)} \<Longrightarrow> i \<le> 140 \<Longrightarrow> 0 < wanted idl n \<Longrightarrow>
    \<exists>s' M. skip_bitmap A c b idl a i s n = Some (Inr s') \<and> moved A b c s s' M \<and> int (card M) \<le> wanted idl n \<and>
      (int (card M) < wanted idl n \<longrightarrow> (\<forall>p. ahead s b a i p \<and> CAN_MIGRATE_TASK A p b c s \<longrightarrow> p \<in> M))"
proof (induction "(if a = expired (rqs s b) then 141 else 0) + (140 - i)" arbitrary: a i s n rule: less_induct)
  case less
  note wf = less.prems(1) and ar = smp_wfD(1) [OF less.prems(1) bc(2), unfolded arrays_ok_def]
  have a: "a < 3" using less.prems(2) ar by auto
  let ?x = "arrays (rqs s b) a"
  let ?j = "next_queue A (bitmap ?x) i"
  have x: "bitmap ?x 140" using queue_of(4) [OF wf bc(2) a, of 0] by simp
  note nb = next_queue_bits [where x = "bitmap ?x", OF A x less.prems(3)]
  have rest: "array (stasks s p) = Some a \<and> ?j \<le> qkey (stasks s p) \<or> a = expired (rqs s b) \<and> array (stasks s p) = Some (active (rqs s b))"
    if "ahead s b a i p" for p by (rule not_ahead [OF wf bc(2) a _ that]) (rule nb(4))
  have unfold: "skip_bitmap A c b idl a i s n =
     (if ?j = 140 then
        (if a = expired (rqs s b) then skip_bitmap A c b idl (active (rqs s b)) 0 s n else Some (Inr s))
      else if queue ?x ?j = [] then Some (Inl Bad_Address)
      else let r = skip_queue A c b a idl (rev (queue ?x ?j)) s n in
        if snd (snd r) then Some (Inr (fst r)) else skip_bitmap A c b idl a (?j + 1) (fst r) (fst (snd r)))"
    by (subst skip_bitmap.simps) (simp add: next_queue_def Let_def)
  show ?case
  proof (cases "?j = 140")
    case True
    have none: "a = expired (rqs s b) \<and> array (stasks s p) = Some (active (rqs s b))" if "ahead s b a i p" for p
    proof -
      have "cloc s b p = Some (a, qkey (stasks s p))" if "array (stasks s p) = Some a"
        using that \<open>ahead s b a i p\<close> by (simp add: cloc_Some ahead_def)
      then show ?thesis using rest [OF that] True cloc_range(2) [OF wf, of b p a] by fastforce
    qed
    show ?thesis
    proof (cases "a = expired (rqs s b)")
      case e: True
      have "\<exists>s' M. skip_bitmap A c b idl (active (rqs s b)) 0 s n = Some (Inr s') \<and> moved A b c s s' M \<and>
          int (card M) \<le> wanted idl n \<and>
          (int (card M) < wanted idl n \<longrightarrow> (\<forall>p. ahead s b (active (rqs s b)) 0 p \<and> CAN_MIGRATE_TASK A p b c s \<longrightarrow> p \<in> M))"
        by (rule less.hyps) (use e ar wf less.prems(4) in auto)
      moreover have "ahead s b (active (rqs s b)) 0 p" if "ahead s b a i p" for p
        using none [OF that] that by (simp add: ahead_def)
      ultimately show ?thesis using True e unfolding unfold by (simp, blast)
    next
      case False
      then show ?thesis using True none moved_refl [OF wf] less.prems(4) unfolding unfold by (intro exI [of _ s] exI [of _ "{}"]) auto
    qed
  next
    case False
    then have j: "?j < 140" using nb(2) by simp
    note Q = queue_of [OF wf bc(2) a j]
    obtain s1 n1 stop where r: "skip_queue A c b a idl (rev (queue ?x ?j)) s n = (s1, n1, stop)" by (metis prod_cases3)
    obtain M where M: "M \<subseteq> set (rev (queue ?x ?j))" "moved A b c s s1 M" "wanted idl n = (if stop then 0 else wanted idl n1) + int (card M)"
      "\<not> stop \<longrightarrow> 0 < wanted idl n1 \<and> (\<forall>p\<in>set (rev (queue ?x ?j)). CAN_MIGRATE_TASK A p b c s \<longrightarrow> p \<in> M)"
      using skip_queue_moved [OF wf bc(1,3) less.prems(2) _ _ less.prems(4) r, of ?j] Q(1,2) by auto
    note D = movedD [OF M(2)]
    have e: "skip_bitmap A c b idl a i s n = (if stop then Some (Inr s1) else skip_bitmap A c b idl a (?j + 1) s1 n1)"
      using False Q(3) nb(3) unfolding unfold r by (simp add: Let_def)
    show ?thesis
    proof (cases stop)
      case True
      then show ?thesis using e M(2,3) by (intro exI [of _ s1] exI [of _ M]) simp
    next
      case more: False
      have "\<exists>s' N. skip_bitmap A c b idl a (?j + 1) s1 n1 = Some (Inr s') \<and> moved A b c s1 s' N \<and> int (card N) \<le> wanted idl n1 \<and>
          (int (card N) < wanted idl n1 \<longrightarrow> (\<forall>p. ahead s1 b a (?j + 1) p \<and> CAN_MIGRATE_TASK A p b c s1 \<longrightarrow> p \<in> N))"
        by (rule less.hyps) (use less.prems(2,3) nb(1) j more M(4) D(1) in \<open>auto simp: D(9,10)\<close>)
      then obtain s' N where N: "skip_bitmap A c b idl a (?j + 1) s1 n1 = Some (Inr s')" "moved A b c s1 s' N" "int (card N) \<le> wanted idl n1"
        "int (card N) < wanted idl n1 \<longrightarrow> (\<forall>p. ahead s1 b a (?j + 1) p \<and> CAN_MIGRATE_TASK A p b c s1 \<longrightarrow> p \<in> N)" by blast
      note t = moved_trans [OF M(2) N(2) bc(1)]
      have card: "card (M \<union> N) = card M + card N" using t(2) D(2) movedD(2) [OF N(2)] by (simp add: card_Un_disjoint)
      have "p \<in> M \<union> N" if "int (card N) < wanted idl n1" "ahead s b a i p" "CAN_MIGRATE_TASK A p b c s" for p
      proof (cases "p \<in> M")
        case False
        note u = same_schedD [OF D(6) [OF False]]
        have can: "CAN_MIGRATE_TASK A p b c s1" using that(3) by (simp add: CAN_MIGRATE_TASK_def u D(12,15))
        have "\<not> (array (stasks s p) = Some a \<and> qkey (stasks s p) = ?j)"
          using M(4) more False that(2,3) Q(2) [of p] by (auto simp: cloc_Some ahead_def)
        then have "ahead s1 b a (?j + 1) p" using rest [OF that(2)] that(2) by (auto simp: ahead_def u D(9,10))
        then show ?thesis using N(4) that(1) can by blast
      qed blast
      then show ?thesis using N(1,3) t(1) M(3) card more unfolding e by (intro exI [of _ s'] exI [of _ "M \<union> N"]) auto
    qed
  qed
qed

end
