(* ===== verification/Sched_Smp_Props.thy ===== *)
theory Sched_Smp_Props
  imports Sched_Smp_Inv
begin

text \<open>
  HW2, properties of the multiprocessor scheduler: balancing always ends and keeps every run queue right, takes
  only tasks that may move and never so many that the queues change places, and leaves tasks of the SHORT
  class where they are; a task whose affinity changed reaches a processor it is allowed on.
\<close>

subsection \<open>Lengths of queues\<close>

lemma prev_word: "smp_wf A s \<Longrightarrow> (of_int (prev_nr_running s c l) :: u32) = of_nat (nat (prev_nr_running s c l))"
  using smp_wfD(7) [of A s c l] by (metis int_nat_eq of_int_of_nat_eq)

lemma nr_running_int: "smp_wf A s \<Longrightarrow> c \<in> cpus A \<Longrightarrow> sint (nr_running (rqs s c)) = int (load s c)"
  using small_word(1) [OF load_max, of A s c 0] smp_wfD(3) [of A s c] by simp

lemma own_load_ge:
  assumes "smp_wf A s" "c \<in> cpus A"
  shows "int (load s c) \<le> own_load c idl s" "own_load c idl s \<le> int TID_MAX" "idl \<Longrightarrow> own_load c idl s = int (load s c)"
proof -
  let ?p = "prev_nr_running s c c"
  have p: "nat ?p \<le> TID_MAX + 1" "0 \<le> ?p" "?p \<le> int TID_MAX" using smp_wfD(7,8) [OF assms(1), of c c] by simp_all
  have w: "nr_running (rqs s c) > of_int ?p \<longleftrightarrow> nat ?p < load s c"
    unfolding prev_word [OF assms(1)] smp_wfD(3) [OF assms] by (rule small_word(4) [OF load_max [OF assms] p(1)])
  have l: "load s c \<le> TID_MAX" by (rule load_max [OF assms])
  show "int (load s c) \<le> own_load c idl s" "own_load c idl s \<le> int TID_MAX" "idl \<Longrightarrow> own_load c idl s = int (load s c)"
    unfolding own_load_def w nr_running_int [OF assms] using p l by auto
qed

text \<open>The state of the search for the busiest processor after some of them.\<close>

definition best :: "smp_arch \<Rightarrow> nat \<Rightarrow> bool \<Rightarrow> smp \<Rightarrow> nat set \<Rightarrow> smp \<times> nat option \<times> int \<Rightarrow> bool" where
  "best A c idl s L = (\<lambda>(s1, r, m).
     (\<exists>P. s1 = s\<lparr>prev_nr_running := P\<rparr>) \<and> smp_wf A s1 \<and>
     (case r of None \<Rightarrow> m = 1 | Some b \<Rightarrow> b \<in> cpus A \<and> b \<noteq> c \<and> 2 \<le> m \<and> m \<le> int (load s b) \<and> (idl \<longrightarrow> m = int (load s b))) \<and>
     (idl \<longrightarrow> (\<forall>l\<in>L. l \<noteq> c \<longrightarrow> int (load s l) \<le> m)))"

lemma cloc_prev [simp]: "cloc (s\<lparr>prev_nr_running := P\<rparr>) = cloc s"
  by (simp add: fun_eq_iff cloc_def)

lemma load_prev [simp]: "load (s\<lparr>prev_nr_running := P\<rparr>) = load s"
  by (simp add: fun_eq_iff load_def)

lemma smp_wf_prev:
  assumes "smp_wf A s" "\<And>c l. 0 \<le> P c l \<and> P c l \<le> int TID_MAX"
  shows "smp_wf A (s\<lparr>prev_nr_running := P\<rparr>)"
  using assms by (simp add: smp_wf_def cpu_wf_def stask_wf_def prev_wf_def)

lemma busiest_step_best:
  assumes b: "best A c idl s L x" and l: "l \<in> cpus A"
  shows "best A c idl s (insert l L) (busiest_step c idl l x)"
proof -
  obtain s1 r m where x: "x = (s1, r, m)" by (metis prod_cases3)
  obtain P where s1: "s1 = s\<lparr>prev_nr_running := P\<rparr>" and wf: "smp_wf A s1" using b by (auto simp: x best_def)
  let ?n = "nr_running (rqs s1 l)"
  define v where "v = (if idl \<or> ?n < of_int (prev_nr_running s1 c l) then sint ?n else prev_nr_running s1 c l)"
  define t where "t = s1\<lparr>prev_nr_running := (prev_nr_running s1)(c := (prev_nr_running s1 c)(l := sint ?n))\<rparr>"
  have n: "sint ?n = int (load s l)" using nr_running_int [OF wf l] by (simp add: s1)
  let ?p = "prev_nr_running s1 c l"
  have p: "nat ?p \<le> TID_MAX + 1" "0 \<le> ?p" using smp_wfD(7,8) [OF wf, of c l] by simp_all
  have w: "?n < of_int ?p \<longleftrightarrow> load s l < nat ?p"
    using small_word(2) [OF load_max [OF wf l] p(1)] smp_wfD(3) [OF wf l] prev_word [OF wf, of c l] by (simp add: s1)
  have ld: "v \<le> int (load s l)" "idl \<Longrightarrow> v = int (load s l)" unfolding v_def w n using p(2) by auto
  have t: "smp_wf A t" "\<exists>P. t = s\<lparr>prev_nr_running := P\<rparr>"
    using smp_wfD(7,8) [OF wf] load_max [OF wf l] n unfolding t_def
    by (intro smp_wf_prev [OF wf], auto simp: s1) 
  have step: "busiest_step c idl l x = (if v > m \<and> l \<noteq> c then (t, Some l, v) else (t, r, m))"
    by (simp add: x busiest_step_def Let_def t_def v_def)
  have m: "1 \<le> m" "idl \<Longrightarrow> q \<in> L \<Longrightarrow> q \<noteq> c \<Longrightarrow> int (load s q) \<le> m" for q
    using b by (auto simp: x best_def split: option.splits)
  show ?thesis
  proof (cases "v > m \<and> l \<noteq> c")
    case True
    have "int (load s q) \<le> v" if "idl" "q \<in> insert l L" "q \<noteq> c" for q
      using m(2) [OF that(1), of q] that ld True by auto
    then show ?thesis using True ld l m(1) t unfolding step by (simp add: best_def)
  next
    case False
    have "int (load s q) \<le> m" if "idl" "q \<in> insert l L" "q \<noteq> c" for q
      using m(2) [OF that(1), of q] that ld False by auto
    then show ?thesis using b t unfolding step if_not_P [OF False] by (simp add: x best_def)
  qed
qed

lemma find_busiest_best:
  assumes "smp_wf A s"
  shows "best A c idl s (cpus A) (find_busiest A c idl s)"
proof -
  have "best A c idl s (cpu_logical_map A ` set is \<union> L) (fold (\<lambda>i. busiest_step c idl (cpu_logical_map A i)) is x)"
    if "best A c idl s L x" "set is \<subseteq> {..<smp_num_cpus A}" for L x "is"
    using that
  proof (induction "is" arbitrary: L x)
    case (Cons i "is")
    have "cpu_logical_map A i \<in> cpus A" using Cons.prems(2) by (simp add: cpus_def)
    from Cons.IH [OF busiest_step_best [OF Cons.prems(1) this]] Cons.prems(2) show ?case by simp
  qed simp
  from this [of "{}" "(s, None, 1)" "[0..<smp_num_cpus A]"] assms show ?thesis
    by (simp add: find_busiest_def best_def cpus_def lessThan_atLeast0) (metis (no_types) smp.surjective smp.update_convs(3))
qed

subsection \<open>The whole call\<close>

definition first_array :: "smp \<Rightarrow> nat \<Rightarrow> nat" where
  "first_array s b = (if nr_active (arrays (rqs s b) (expired (rqs s b))) \<noteq> 0 then expired (rqs s b) else active (rqs s b))"

lemma search_moves:
  assumes A: "smp_arch_ok A" and wf: "smp_wf A s" and bc: "b \<noteq> c" "b \<in> cpus A" "c \<in> cpus A" and n: "0 < wanted idl n"
  obtains s' M where "skip_bitmap A c b idl (first_array s b) 0 s n = Some (Inr s')" "moved A b c s s' M" "int (card M) \<le> wanted idl n"
    "int (card M) < wanted idl n \<longrightarrow> (\<forall>p. movable A b c s p \<longrightarrow> p \<in> M)"
proof -
  note ar = smp_wfD(1) [OF wf bc(2), unfolded arrays_ok_def]
  have f: "first_array s b \<in> {active (rqs s b), expired (rqs s b)}" by (simp add: first_array_def)
  obtain s' M where m: "skip_bitmap A c b idl (first_array s b) 0 s n = Some (Inr s')" "moved A b c s s' M" "int (card M) \<le> wanted idl n"
    "int (card M) < wanted idl n \<longrightarrow> (\<forall>p. ahead s b (first_array s b) 0 p \<and> CAN_MIGRATE_TASK A p b c s \<longrightarrow> p \<in> M)"
    using skip_bitmap_moved [OF A bc wf f _ n, of 0] by auto
  have "ahead s b (first_array s b) 0 p" if "movable A b c s p" for p
  proof (cases "nr_active (arrays (rqs s b) (expired (rqs s b))) = 0")
    case True
    have r: "rq_ok (cloc s b) (rqs s b)" by (rule smp_wfD(2) [OF wf bc(2)])
    then have "card (on_array (cloc s b) (expired (rqs s b))) = 0" using True ar by (simp add: rq_ok_def counts_ok_def)
    then have "on_array (cloc s b) (expired (rqs s b)) = {}" using r finite_on_array by (auto simp: rq_ok_def)
    then have "cloc s b p \<noteq> Some (expired (rqs s b), qkey (stasks s p))" by (auto simp: on_array_def)
    then have "array (stasks s p) \<noteq> Some (expired (rqs s b))" using that by (simp add: movable_def cloc_Some)
    then show ?thesis using that True by (simp add: ahead_def movable_def first_array_def)
  next
    case False
    then show ?thesis using that by (auto simp: ahead_def movable_def first_array_def)
  qed
  then show thesis using that m by (auto simp: movable_def)
qed

lemma load_balance_eq:
  assumes "find_busiest A c idl s = (s1, r, m)"
  shows "load_balance A others c idl s = (case r of None \<Rightarrow> Some (Inr s1) | Some b \<Rightarrow>
    (let n = (m - own_load c idl s) sdiv 2 in
      if \<not> idl \<and> n < (m + 3) sdiv 4 then Some (Inr s1)
      else case double_lock_balance others b c idl (own_load c idl s) s1 of (s2, nr2) \<Rightarrow>
        if nr_running (rqs s2 b) \<le> of_int (nr2 + 1) then Some (Inr s2)
        else skip_bitmap A c b idl (first_array s2 b) 0 s2 n))"
  unfolding load_balance_def assms Let_def first_array_def by (cases r) (simp_all only: prod.case option.case)

lemma imbalance_wanted:
  assumes "2 \<le> m" "\<not> (\<not> idl \<and> (m - nr) sdiv 2 < (m + 3) sdiv 4)"
  shows "0 < wanted idl ((m - nr) sdiv 2)" "\<not> idl \<Longrightarrow> 2 * wanted idl ((m - nr) sdiv 2) \<le> m - nr"
proof -
  have q: "1 \<le> (m + 3) sdiv 4" using assms(1) by (simp add: sdiv_nonneg)
  show w: "0 < wanted idl ((m - nr) sdiv 2)" using q assms(2) by (auto simp: wanted_def)
  show "2 * wanted idl ((m - nr) sdiv 2) \<le> m - nr" if "\<not> idl"
  proof (cases "0 \<le> m - nr")
    case True
    then show ?thesis using that by (simp add: wanted_def sdiv_nonneg)
  next
    case False
    then have "(m - nr) sdiv 2 \<le> 0" by (simp add: signed_divide_int_def sgn_if)
    then show ?thesis using w that by (simp add: wanted_def)
  qed
qed

text \<open>What the other processors do while they can keeps the run queues right.\<close>

definition keeps_wf :: "smp_arch \<Rightarrow> (smp \<Rightarrow> smp) option \<Rightarrow> bool" where
  "keeps_wf A others \<longleftrightarrow> (\<forall>f. others = Some f \<longrightarrow> (\<forall>t. smp_wf A t \<longrightarrow> smp_wf A (f t)))"

lemma load_balance_returns:
  assumes "smp_arch_ok A" and "smp_wf A s" and "c \<in> cpus A"
    and "keeps_wf A others"
  shows "\<exists>s'. load_balance A others c idl s = Some (Inr s') \<and> smp_wf A s'"
proof -
  obtain s1 r m where f: "find_busiest A c idl s = (s1, r, m)" by (metis prod_cases3)
  have B: "best A c idl s (cpus A) (s1, r, m)" using find_busiest_best [OF assms(2), of c idl] f by simp
  have wf1: "smp_wf A s1" using B by (simp add: best_def)
  show ?thesis
  proof (cases r)
    case None
    then show ?thesis using wf1 by (simp add: load_balance_eq [OF f])
  next
    case (Some b)
    have b: "b \<in> cpus A" "b \<noteq> c" "2 \<le> m" using B Some by (simp_all add: best_def)
    obtain s2 nr2 where d: "double_lock_balance others b c idl (own_load c idl s) s1 = (s2, nr2)" by fastforce
    have wf2: "smp_wf A s2" using d wf1 assms(4) by (auto simp: keeps_wf_def double_lock_balance_def Let_def split: option.splits)
    have "\<exists>s'. skip_bitmap A c b idl (first_array s2 b) 0 s2 n = Some (Inr s') \<and> smp_wf A s'" if "0 < wanted idl n" for n
      by (rule search_moves [OF assms(1) wf2 b(2,1) assms(3) that]) (auto dest: movedD(1))
    then show ?thesis
      using wf1 wf2 imbalance_wanted(1) [OF b(3), of idl "own_load c idl s"] by (auto simp: load_balance_eq [OF f] Some d Let_def)
  qed
qed

lemma moved_cpus:
  assumes "moved A b c s s' M" "b \<noteq> c"
  shows "{p. cpu (stasks s' p) \<noteq> cpu (stasks s p)} = M" "p \<in> M \<Longrightarrow> cpu (stasks s' p) = c" "p \<in> M \<Longrightarrow> cpu (stasks s p) = b"
    "d \<noteq> b \<Longrightarrow> d \<noteq> c \<Longrightarrow> load s' d = load s d"
proof -
  note D = movedD [OF assms(1)]
  show c: "p \<in> M \<Longrightarrow> cpu (stasks s' p) = c" "p \<in> M \<Longrightarrow> cpu (stasks s p) = b" for p
    using same_schedD(1) [OF D(5)] D(3) by (simp_all add: movable_def)
  show "{p. cpu (stasks s' p) \<noteq> cpu (stasks s p)} = M" using c assms(2) same_schedD(1) [OF D(6)] by (auto; metis)
  assume d: "d \<noteq> b" "d \<noteq> c"
  have "cloc s' d p = cloc s d p" for p
    using c [of p] d same_schedD(1,3) [OF D(6), of p] by (cases "p \<in> M") (simp_all add: cloc_def)
  then have "cloc s' d = cloc s d" by (rule ext)
  then show "load s' d = load s d" by (simp add: load_def)
qed

text \<open>Who went where, and why not more. \<open>blocked\<close> says when an idle processor takes nothing: only the queue of the busiest
  other processor is searched.\<close>

definition blocked :: "smp_arch \<Rightarrow> nat \<Rightarrow> smp \<Rightarrow> bool" where
  "blocked A c s \<longleftrightarrow> (\<forall>d\<in>cpus A - {c}. load s d \<le> 1) \<or>
     (\<exists>b\<in>cpus A - {c}. (\<forall>d\<in>cpus A - {c}. load s d \<le> load s b) \<and> (load s b \<le> load s c + 1 \<or> (\<forall>p. \<not> movable A b c s p)))"

definition pulled :: "smp_arch \<Rightarrow> nat \<Rightarrow> nat \<Rightarrow> bool \<Rightarrow> smp \<Rightarrow> smp \<Rightarrow> tid set \<Rightarrow> bool" where
  "pulled A b c idl s s' M \<longleftrightarrow> (\<forall>p\<in>M. movable A b c s p \<and> policy (stasks s p) \<noteq> SCHED_SHORT \<and> cpu (stasks s' p) = c) \<and>
     load s' b + card M = load s b \<and> load s' c = load s c + card M \<and> load s' c \<le> load s' b \<and>
     (\<forall>d. d \<noteq> b \<longrightarrow> d \<noteq> c \<longrightarrow> load s' d = load s d) \<and> (idl \<longrightarrow> card M = 1)"

lemma load_balance_result:
  assumes "smp_arch_ok A" and wf: "smp_wf A s" and c: "c \<in> cpus A" and r: "load_balance A None c idl s = Some (Inr s')"
  shows "(\<exists>b\<in>cpus A - {c}. pulled A b c idl s s' {p. cpu (stasks s' p) \<noteq> cpu (stasks s p)}) \<or>
    (\<forall>p. cpu (stasks s' p) = cpu (stasks s p)) \<and> (\<forall>d. load s' d = load s d) \<and> (idl \<longrightarrow> blocked A c s)"
proof -
  obtain s1 q m where f: "find_busiest A c idl s = (s1, q, m)" by (metis prod_cases3)
  have B: "best A c idl s (cpus A) (s1, q, m)" using find_busiest_best [OF wf, of c idl] f by simp
  obtain P where s1: "s1 = s\<lparr>prev_nr_running := P\<rparr>" and wf1: "smp_wf A s1" using B by (auto simp: best_def)
  have mv: "movable A b c s1 p = movable A b c s p" for b p by (simp add: s1 movable_def CAN_MIGRATE_TASK_def)
  have same: "s' = s1 \<Longrightarrow> (\<forall>p. cpu (stasks s' p) = cpu (stasks s p)) \<and> (\<forall>d. load s' d = load s d)" by (simp add: s1)
  show ?thesis
  proof (cases q)
    case None
    then have "s' = s1" using r by (simp add: load_balance_eq [OF f])
    moreover have "idl \<Longrightarrow> blocked A c s" using B None by (auto simp: best_def blocked_def)
    ultimately show ?thesis using same by blast
  next
    case (Some b)
    have b: "b \<in> cpus A" "b \<noteq> c" "2 \<le> m" "m \<le> int (load s b)" using B Some by (simp_all add: best_def)
    have top: "idl \<Longrightarrow> d \<in> cpus A - {c} \<Longrightarrow> load s d \<le> load s b" for d using B Some by (auto simp: best_def)
    let ?nr = "own_load c idl s"
    let ?n = "(m - ?nr) sdiv 2"
    note o = own_load_ge [OF wf c]
    have nr: "(of_int (?nr + 1) :: u32) = of_nat (nat (?nr + 1))" "nat (?nr + 1) \<le> TID_MAX + 1"
      using o(1,2) [of idl] by (simp_all add: of_nat_nat)
    have few: "nr_running (rqs s1 b) \<le> of_int (?nr + 1) \<longleftrightarrow> int (load s b) \<le> ?nr + 1"
      using small_word(3) [OF load_max [OF wf b(1)] nr(2)] smp_wfD(3) [OF wf b(1)] o(1) [of idl] unfolding nr(1) by (simp add: s1) linarith
    have "(if \<not> idl \<and> ?n < (m + 3) sdiv 4 then Some (Inr s1) else if int (load s b) \<le> ?nr + 1 then Some (Inr s1)
        else skip_bitmap A c b idl (first_array s1 b) 0 s1 ?n) = Some (Inr s')"
      using r unfolding load_balance_eq [OF f] Some option.case double_lock_balance_def Let_def prod.case few .
    then consider (balanced) "\<not> idl" "s' = s1" | (short) "\<not> (\<not> idl \<and> ?n < (m + 3) sdiv 4)" "int (load s b) \<le> ?nr + 1" "s' = s1"
      | (search) "\<not> (\<not> idl \<and> ?n < (m + 3) sdiv 4)" "\<not> int (load s b) \<le> ?nr + 1"
          "skip_bitmap A c b idl (first_array s1 b) 0 s1 ?n = Some (Inr s')"
      by (auto split: if_splits)
    then show ?thesis
    proof cases
      case balanced
      then show ?thesis using same by blast
    next
      case short
      have "idl \<Longrightarrow> blocked A c s" using short(2) top b o(3) unfolding blocked_def by (auto intro!: bexI [of _ b])
      then show ?thesis using same short(3) by blast
    next
      case search
      note w = imbalance_wanted [OF b(3) search(1)]
      obtain s2 M where "skip_bitmap A c b idl (first_array s1 b) 0 s1 ?n = Some (Inr s2)" and m: "moved A b c s1 s2 M"
        "int (card M) \<le> wanted idl ?n" "int (card M) < wanted idl ?n \<longrightarrow> (\<forall>p. movable A b c s1 p \<longrightarrow> p \<in> M)"
        by (rule search_moves [OF assms(1) wf1 b(2,1) c w(1)]) blast
      then have "s2 = s'" using search(3) by simp
      note m = m [unfolded this] and D = movedD [OF m(1) [unfolded this]] and C = moved_cpus [OF m(1) [unfolded this] b(2)]
      have M: "{p. cpu (stasks s' p) \<noteq> cpu (stasks s p)} = M" using C(1) by (simp add: s1)
      have l: "load s b = load s' b + card M" "load s' c = load s c + card M" using D(7,8) by (simp_all add: s1)
      have oth: "d \<noteq> b \<Longrightarrow> d \<noteq> c \<Longrightarrow> load s' d = load s d" for d using C(4) by (simp add: s1)
      have le: "load s' c \<le> load s' b"
      proof (cases idl)
        case True
        then show ?thesis using l search(2) m(2) o(3) by (simp add: wanted_def)
      next
        case False
        then have "2 * int (card M) \<le> int (load s b) - int (load s c)" using w(2) m(2) b(4) o(1) [of idl] by simp
        then show ?thesis using l by simp
      qed
      show ?thesis
      proof (cases "idl \<and> M = {}")
        case True
        then have "\<not> movable A b c s p" for p using m(3) by (auto simp: wanted_def mv)
        then have "blocked A c s" using top b True unfolding blocked_def by (auto intro!: bexI [of _ b])
        then show ?thesis using True M l oth by (metis (mono_tags, lifting) add.right_neutral card.empty empty_iff mem_Collect_eq)
      next
        case False
        have "finite M" by (rule D(2))
        then have "idl \<longrightarrow> card M = 1" using False m(2) by (cases "card M") (auto simp: wanted_def)
        then have "pulled A b c idl s s' M" using D(3,4) C(2) l le oth by (simp add: pulled_def mv) (simp add: s1)
        then show ?thesis unfolding M using b by blast
      qed
    qed
  qed
qed

subsection \<open>Two processors\<close>

text \<open>Processor 0 has nothing to run, processor 1 runs task 2, with 3 and 4 behind it in the queue \<open>a\<close>, 120.\<close>

definition demo_stask :: "int \<Rightarrow> nat \<Rightarrow> nat option \<Rightarrow> task" where
  "demo_stask pol c a = \<lparr>state = TASK_RUNNING, sigpending = False, need_resched = False, cpu = c, prio = 120, static_prio = 120,
     array = a, sleep_avg = 0, sleep_timestamp = 0, policy = pol, cpus_allowed = 3, cpus_allowed_mask = 3, time_slice = 10,
     first_time_slice = 0, tpid = 1, pgrp = 1, uid = 0, euid = 0, cap_sys_nice = False, rt_priority = 0,
     requested_time = 100, time_left = 5, short_prio = 120, mm = None, active_mm = Some 0\<rparr>"

definition demo_srq :: "tid list \<Rightarrow> nat \<Rightarrow> runqueue" where
  "demo_srq ps a = \<lparr>nr_running = of_nat (length ps), nr_switches = 0, expired_timestamp = 0, nr_uninterruptible = 0,
     curr = (case ps of [] \<Rightarrow> 0 | p # _ \<Rightarrow> p), idle = 0, active = 0, expired = 1, short_pr = 2,
     arrays = (\<lambda>b. \<lparr>nr_active = (if b = a then int (length ps) else 0),
       bitmap = (\<lambda>k. k = 140 \<or> b = a \<and> k = 120 \<and> ps \<noteq> []), queue = (\<lambda>k. if b = a \<and> k = 120 then ps else [])\<rparr>)\<rparr>"

definition demo_smp :: "int \<Rightarrow> smp" where
  "demo_smp pol = (let a = (if pol = SCHED_SHORT then 2 else 0) in
    \<lparr>stasks = (\<lambda>p. if p \<in> {2, 3, 4} then demo_stask pol 1 (Some a) else demo_stask SCHED_OTHER 0 None),
     rqs = (\<lambda>c. demo_srq (if c = 1 then [2, 3, 4] else []) a), prev_nr_running = (\<lambda>_ _. 0),
     migration_threads = (\<lambda>c. Some (7 + c)), migration_queue = (\<lambda>_. []), migrated = [], sjiffies = 100\<rparr>)"

definition demo_smp_arch :: smp_arch where
  "demo_smp_arch = \<lparr>uni = demo_arch, smp_num_cpus = 2, cpu_logical_map = id, cpu_online_map = 3, cache_decay_ticks = 10,
     find_next_bit = (\<lambda>b n i. case find b [i..<n] of Some k \<Rightarrow> k | None \<Rightarrow> n),
     ffs = (\<lambda>m. case find (bit m) [0..<32] of Some k \<Rightarrow> k | None \<Rightarrow> 0)\<rparr>"

lemma demo_smp_arch_ok: "smp_arch_ok demo_smp_arch" "cpus demo_smp_arch = {0, 1}" "uni demo_smp_arch = demo_arch"
proof -
  have "next_bit_ok (\<lambda>b n i. case find b [i..<n] of Some k \<Rightarrow> k | None \<Rightarrow> n)"
    unfolding next_bit_ok_def
  proof (intro allI impI)
    fix b and n i :: nat
    assume i: "i \<le> n"
    show "i \<le> (case find b [i..<n] of Some k \<Rightarrow> k | None \<Rightarrow> n) \<and> (case find b [i..<n] of Some k \<Rightarrow> k | None \<Rightarrow> n) \<le> n \<and>
      ((case find b [i..<n] of Some k \<Rightarrow> k | None \<Rightarrow> n) < n \<longrightarrow> b (case find b [i..<n] of Some k \<Rightarrow> k | None \<Rightarrow> n)) \<and>
      (\<forall>k\<ge>i. k < (case find b [i..<n] of Some k \<Rightarrow> k | None \<Rightarrow> n) \<longrightarrow> \<not> b k)"
    proof (cases "find b [i..<n]")
      case None
      then have "\<not> b x" if "i \<le> x" "x < n" for x using that by (auto simp: find_None_iff)
      then show ?thesis using i by (simp add: None)
    next
      case (Some k)
      have "k \<in> set [i..<n]" using Some by (metis find_Some_iff nth_mem)
      then show ?thesis using find_upt_least [OF Some] Some by auto
    qed
  qed
  then show "smp_arch_ok demo_smp_arch" by (simp add: smp_arch_ok_def demo_smp_arch_def demo_arch_ok)
  have "{..<2 :: nat} = {0, 1}" by auto
  then show "cpus demo_smp_arch = {0, 1}" "uni demo_smp_arch = demo_arch" by (simp_all add: cpus_def demo_smp_arch_def)
qed

lemma demo_cloc:
  assumes "pol \<in> {SCHED_OTHER, SCHED_SHORT}"
  shows "cloc (demo_smp pol) c p = (if c = 1 \<and> p \<in> {2, 3, 4} then Some (if pol = SCHED_SHORT then 2 else 0, 120) else None)"
  using assms by (auto simp: cloc_def tplace_def demo_smp_def demo_stask_def qkey_def Let_def)

lemma demo_load:
  assumes "pol \<in> {SCHED_OTHER, SCHED_SHORT}"
  shows "load (demo_smp pol) c = (if c = 1 then 3 else 0)"
proof -
  have "dom (cloc (demo_smp pol) c) = (if c = 1 then {2, 3, 4} else {})"
    by (auto simp: demo_cloc [OF assms] split: if_splits)
  then show ?thesis by (simp add: load_def)
qed

lemma demo_smp_wf:
  assumes "pol \<in> {SCHED_OTHER, SCHED_SHORT}"
  shows "smp_wf demo_smp_arch (demo_smp pol)"
proof -
  let ?s = "demo_smp pol" and ?a = "if pol = SCHED_SHORT then 2 else 0 :: nat"
  note l = demo_cloc [OF assms]
  have r: "rqs ?s c = demo_srq (if c = 1 then [2, 3, 4] else []) ?a" for c by (simp add: demo_smp_def Let_def)
  have "on_array (cloc ?s c) b = (if c = 1 \<and> b = ?a then {2, 3, 4} else {})" for c b by (auto simp: on_array_def l)
  then have "counts_ok (cloc ?s c) (rqs ?s c)" for c by (simp add: counts_ok_def r demo_srq_def)
  moreover have "placement_range (cloc ?s c)" for c by (auto simp: placement_range_def l TID_MAX_def split: if_splits)
  moreover have "queues_ok (cloc ?s c) (rqs ?s c)" for c by (auto simp: queues_ok_def l r demo_srq_def)
  moreover have "bitmaps_ok (rqs ?s c)" for c by (auto simp: bitmaps_ok_def r demo_srq_def)
  moreover have "arrays_ok (rqs ?s c)" "nr_running (rqs ?s c) = of_nat (load ?s c)" for c
    by (simp_all add: arrays_ok_def r demo_srq_def demo_load [OF assms])
  moreover have "stask_wf demo_smp_arch ?s p" for p
    using assms by (auto simp: stask_wf_def demo_smp_arch_ok task_wf_def place_wf_def demo_smp_def demo_stask_def demo_srq_def
        demo_arch_def Let_def rt_task_def)
  moreover have "prev_wf ?s" by (simp add: prev_wf_def demo_smp_def Let_def)
  ultimately show ?thesis by (simp add: smp_wf_def cpu_wf_def rq_ok_def)
qed

subsection \<open>Properties\<close>

text \<open>C10: Balancing always ends and keeps every run queue right, whatever happens when it must wait for a lock. On
  a processor of a well-formed machine, with other processors that keep the run queues right while the locks
  are free, \<open>load_balance\<close> returns without a fault, and on every processor each queue holds
  exactly its tasks, the bitmaps and counters agree with the queues and \<open>nr_running\<close> is the number of queued tasks.\<close>
theorem load_balance_safe:
  assumes "smp_arch_ok A" and "smp_wf A s" and "c \<in> cpus A"
    and "keeps_wf A others"
  shows "\<exists>s'. load_balance A others c idl s = Some (Inr s') \<and> smp_wf A s'"
  by (rule load_balance_returns [OF assms])

theorem load_balance_safe_witness:
  "\<exists>s'. load_balance demo_smp_arch (Some (upd_stask 3 (\<lambda>t. t\<lparr>need_resched := True\<rparr>))) 0 True (demo_smp SCHED_OTHER) = Some (Inr s') \<and>
    smp_wf demo_smp_arch s'"
proof -
  have "smp_wf demo_smp_arch (upd_stask 3 (\<lambda>t. t\<lparr>need_resched := True\<rparr>) t)" if "smp_wf demo_smp_arch t" for t
  proof -
    let ?t = "upd_stask 3 (\<lambda>t. t\<lparr>need_resched := True\<rparr>) t"
    have u: "same_sched (stasks t p) (stasks ?t p)" for p by simp
    have "cloc ?t c = cloc t c" for c using same_schedD(1,3) [OF u] by (simp add: fun_eq_iff cloc_def)
    then show ?thesis using that same_schedD(1,2,8,9) [OF u]
      by (simp add: smp_wf_def cpu_wf_def stask_wf_def prev_wf_def load_def)
  qed
  then have "keeps_wf demo_smp_arch (Some (upd_stask 3 (\<lambda>t. t\<lparr>need_resched := True\<rparr>)))" by (simp add: keeps_wf_def)
  then show ?thesis using load_balance_safe [OF demo_smp_arch_ok(1) demo_smp_wf, of SCHED_OTHER 0]
    by (simp add: demo_smp_arch_ok)
qed

text \<open>C11: What one balancing moves when no lock is contended. Either the tasks that changed processors all went
  from one other processor to the caller's, each of them was in the active or expired array there, not running,
  allowed on the new processor, not recently run, and not of the SHORT class, the queue they left is afterwards not
  shorter than the one they joined, and a caller that is idle took exactly one; or no task moved at all. An idle
  caller moves none only when every other processor has at most one task, or a busiest other one has at most one
  task more than the caller, or has no task that may move (tasks on the queues after the busiest are not looked at).\<close>
theorem load_balance_pulls:
  assumes "smp_arch_ok A" and "smp_wf A s" and "c \<in> cpus A" and "load_balance A None c idl s = Some (Inr s')"
  shows "(\<exists>b\<in>cpus A - {c}. pulled A b c idl s s' {p. cpu (stasks s' p) \<noteq> cpu (stasks s p)}) \<or>
    (\<forall>p. cpu (stasks s' p) = cpu (stasks s p)) \<and> (\<forall>d. load s' d = load s d) \<and> (idl \<longrightarrow> blocked A c s)"
  by (rule load_balance_result [OF assms])

lemma demo_balance:
  assumes "pol \<in> {SCHED_OTHER, SCHED_SHORT}"
  obtains s' where "load_balance demo_smp_arch None 0 True (demo_smp pol) = Some (Inr s')"
  using load_balance_returns [OF demo_smp_arch_ok(1) demo_smp_wf [OF assms], of 0 None True] by (auto simp: demo_smp_arch_ok keeps_wf_def)

lemma demo_not_blocked: "\<not> blocked demo_smp_arch 0 (demo_smp SCHED_OTHER)"
proof -
  let ?s = "demo_smp SCHED_OTHER"
  have "cpu_bit 0 = 1" by (simp add: cpu_bit_def)
  then have "movable demo_smp_arch 1 0 ?s 4"
    by (simp add: movable_def CAN_MIGRATE_TASK_def demo_smp_def demo_smp_arch_def demo_stask_def demo_srq_def Let_def)
  then show ?thesis by (auto simp: blocked_def demo_smp_arch_ok demo_load)
qed

theorem load_balance_pulls_witness:
  "\<exists>s'. load_balance demo_smp_arch None 0 True (demo_smp SCHED_OTHER) = Some (Inr s') \<and> load s' 0 = 1 \<and> load s' 1 = 2"
proof -
  let ?s = "demo_smp SCHED_OTHER"
  obtain s' where r: "load_balance demo_smp_arch None 0 True ?s = Some (Inr s')" using demo_balance [of SCHED_OTHER] by auto
  then show ?thesis
    using load_balance_pulls [OF demo_smp_arch_ok(1) demo_smp_wf _ r] r demo_not_blocked by (auto simp: demo_smp_arch_ok demo_load pulled_def)
qed

text \<open>Tasks of the SHORT class are never balanced. When all tasks queued on the other processors are SHORT,
  \<open>load_balance\<close> moves none of them, however many there are, even to an idle processor: the search looks at the
  active and the expired array only, and \<open>short_pr\<close> is neither.\<close>
theorem short_tasks_never_balanced:
  assumes "smp_arch_ok A" and "smp_wf A s" and "c \<in> cpus A" and "load_balance A None c idl s = Some (Inr s')"
    and "\<And>p. array (stasks s p) \<noteq> None \<Longrightarrow> cpu (stasks s p) \<noteq> c \<Longrightarrow> policy (stasks s p) = SCHED_SHORT"
  shows "cpu (stasks s' p) = cpu (stasks s p) \<and> load s' d = load s d"
proof -
  let ?M = "{q. cpu (stasks s' q) \<noteq> cpu (stasks s q)}"
  consider b where "b \<noteq> c" "pulled A b c idl s s' ?M" | "\<forall>q. cpu (stasks s' q) = cpu (stasks s q)" "\<forall>e. load s' e = load s e"
    using load_balance_result [OF assms(1-4)] by blast
  then show ?thesis
  proof cases
    case (1 b)
    have "q \<notin> ?M" for q
      using 1 assms(5) [of q] unfolding pulled_def movable_def by blast
    then have M: "?M = {}" by blast
    have "load s' b = load s b" "load s' c = load s c" "\<forall>e. e \<noteq> b \<longrightarrow> e \<noteq> c \<longrightarrow> load s' e = load s e"
      using 1(2) unfolding M pulled_def by simp_all
    then show ?thesis using M by auto
  qed simp
qed

theorem short_tasks_never_balanced_witness:
  "\<exists>s'. load_balance demo_smp_arch None 0 True (demo_smp SCHED_SHORT) = Some (Inr s') \<and> load s' 0 = 0 \<and> load s' 1 = 3"
proof -
  let ?s = "demo_smp SCHED_SHORT"
  obtain s' where r: "load_balance demo_smp_arch None 0 True ?s = Some (Inr s')" using demo_balance [of SCHED_SHORT] by auto
  have "policy (stasks ?s p) = SCHED_SHORT" if "array (stasks ?s p) \<noteq> None" for p
    using that by (auto simp: demo_smp_def demo_stask_def Let_def split: if_splits)
  then show ?thesis
    using short_tasks_never_balanced [OF demo_smp_arch_ok(1) demo_smp_wf _ r] r by (auto simp: demo_smp_arch_ok demo_load)
qed

end
