(* ===== verification/Sched_Smp_Migrate.thy ===== *)
theory Sched_Smp_Migrate
  imports Sched_Smp_Props
begin

text \<open>
  HW2, moving a task whose affinity changed: \<open>set_cpus_allowed\<close> and the round of the migration thread keep the
  run queues of all processors right, and the task ends on a processor it is allowed on.
\<close>

subsection \<open>Changes of one task\<close>

lemma smp_wf_field:
  assumes wf: "smp_wf A s" and s': "stasks s' = (stasks s)(p := t)" "rqs s' = rqs s" "prev_nr_running s' = prev_nr_running s"
    and t: "cpu t = cpu (stasks s p)" "tplace t = tplace (stasks s p)" "array t = array (stasks s p)"
      "task_wf (uni A) (stasks s p) \<Longrightarrow> task_wf (uni A) t" "\<And>r. place_wf r (stasks s p) \<Longrightarrow> place_wf r t"
  shows "smp_wf A s'"
proof -
  have "cloc s' c = cloc s c" for c using t(1,2) by (auto simp: fun_eq_iff cloc_def s')
  moreover have "stask_wf A s' q" for q
    using smp_wfD(4-6) [OF wf, of q] t by (cases "q = p") (simp_all add: stask_wf_def s')
  ultimately show ?thesis using smp_wfD(1-3,7,8) [OF wf] by (simp add: smp_wf_def cpu_wf_def prev_wf_def load_def s')
qed

text \<open>A task on no queue may go to any processor.\<close>

lemma smp_wf_unqueued:
  assumes wf: "smp_wf A s" and s': "stasks s' = (stasks s)(p := t)" "rqs s' = rqs s" "prev_nr_running s' = prev_nr_running s"
    and t: "array (stasks s p) = None" "array t = None"
  shows "smp_wf A s'"
proof -
  have "cloc s' c = cloc s c" for c using t by (auto simp: fun_eq_iff cloc_def s' tplace_def)
  moreover have "stask_wf A s' q" for q
    using smp_wfD(4-6) [OF wf, of q] t by (cases "q = p") (simp_all add: stask_wf_def s')
  ultimately show ?thesis using smp_wfD(1-3,7,8) [OF wf] by (simp add: smp_wf_def cpu_wf_def prev_wf_def load_def s')
qed

lemma smp_wf_upd:
  assumes "smp_wf A s" "cpu (f (stasks s p)) = cpu (stasks s p)" "tplace (f (stasks s p)) = tplace (stasks s p)"
    "array (f (stasks s p)) = array (stasks s p)" "task_wf (uni A) (f (stasks s p)) = task_wf (uni A) (stasks s p)"
    "\<And>r. place_wf r (f (stasks s p)) = place_wf r (stasks s p)"
  shows "smp_wf A (upd_stask p f s)"
  by (rule smp_wf_field [OF assms(1), where p = p and t = "f (stasks s p)"]) (use assms(2-) in simp_all)

lemma smp_wf_upd_unqueued:
  assumes "smp_wf A s" "array (stasks s p) = None" "array (f (stasks s p)) = None"
  shows "smp_wf A (upd_stask p f s)"
  by (rule smp_wf_unqueued [OF assms(1), where p = p and t = "f (stasks s p)"]) (use assms(2-) in simp_all)

lemma smp_wf_requests [simp]:
  "smp_wf A (s\<lparr>migration_queue := q\<rparr>) = smp_wf A s" "smp_wf A (s\<lparr>migrated := l\<rparr>) = smp_wf A s"
proof -
  have "cloc (s\<lparr>migration_queue := q\<rparr>) c = cloc s c" "cloc (s\<lparr>migrated := l\<rparr>) c = cloc s c" for c by (simp_all add: fun_eq_iff cloc_def)
  then show "smp_wf A (s\<lparr>migration_queue := q\<rparr>) = smp_wf A s" "smp_wf A (s\<lparr>migrated := l\<rparr>) = smp_wf A s"
    by (simp_all add: smp_wf_def cpu_wf_def stask_wf_def prev_wf_def load_def)
qed

lemma affinity_field [simp]:
  "tplace (t\<lparr>cpus_allowed := m\<rparr>) = tplace t" "task_wf A (t\<lparr>cpus_allowed := m\<rparr>) = task_wf A t"
  "place_wf r (t\<lparr>cpus_allowed := m\<rparr>) = place_wf r t"
  by (simp_all add: tplace_def qkey_def task_wf_def place_wf_def rt_task_def)

lemma put_view_sel [simp]:
  "stasks (put_view c v s) = tasks v" "rqs (put_view c v s) = (rqs s)(c := rq v)" "prev_nr_running (put_view c v s) = prev_nr_running s"
  "migration_queue (put_view c v s) = migration_queue s" "migration_threads (put_view c v s) = migration_threads s"
  "migrated (put_view c v s) = migrated s"
  by (simp_all add: put_view_def)

text \<open>Off the queue and onto a queue.\<close>

lemma deactivate_put:
  assumes wf: "smp_wf A s" and p: "array (stasks s p) = Some a" "cpu (stasks s p) = c"
  obtains v where "deactivate_task p (cpu_view c s) = Inr v" "smp_wf A (put_view c v s)"
    "tasks v = (stasks s)(p := (stasks s p)\<lparr>array := None\<rparr>)"
proof -
  let ?k = "qkey (stasks s p)"
  have l: "cloc s c p = Some (a, ?k)" using p by (simp add: cloc_Some)
  have c: "c \<in> cpus A" using cloc_range [OF wf l] by simp
  define v where "v = upd_task p (\<lambda>t. t\<lparr>array := None\<rparr>) (dequeue_task p a
    (upd_rq (\<lambda>r. r\<lparr>nr_running := nr_running r - 1,
                  nr_uninterruptible := (if state (stasks s p) = TASK_UNINTERRUPTIBLE
                    then nr_uninterruptible r + 1 else nr_uninterruptible r)\<rparr>) (cpu_view c s)))"
  obtain u where R: "rq v = (rq_dequeue p ?k a (rqs s c))\<lparr>nr_running := nr_running (rqs s c) - 1, nr_uninterruptible := u\<rparr>"
    by (simp add: v_def)
  let ?s = "put_view c v s"
  have loc: "cloc ?s d = (if d = c then (cloc s c)(p := None) else cloc s d)" for d
    using p(2) by (auto simp: fun_eq_iff cloc_def v_def)
  have "p \<in> dom (cloc s c)" using l by blast
  then have ld: "load s c = load ?s c + 1"
    unfolding load_def loc using load_finite [OF wf c] card_gt_0_iff [of "dom (cloc s c)"] by auto
  have "rq_ok ((cloc s c)(p := None)) (rq_dequeue p ?k a (rqs s c))" by (rule pq.deq_ok [OF smp_wfD(2) [OF wf c] l])
  then have "cpu_wf ?s d" if "d \<in> cpus A" for d
  proof (cases "d = c")
    case True
    then show ?thesis using \<open>rq_ok _ _\<close> smp_wfD(1,3) [OF wf c] ld by (simp add: cpu_wf_def loc R arrays_ok_def)
  next
    case False
    then show ?thesis using smp_wfD(1-3) [OF wf that] by (simp add: cpu_wf_def loc load_def)
  qed
  moreover have "stask_wf A ?s q" for q
    using smp_wfD(4-6) [OF wf, of q] by (cases "cpu (stasks s q) = c") (auto simp: stask_wf_def v_def place_wf_def)
  ultimately have "smp_wf A ?s" using smp_wfD(7,8) [OF wf] by (simp add: smp_wf_def prev_wf_def)
  moreover have d: "deactivate_task p (cpu_view c s) = Inr v" using p(1) by (simp add: deactivate_task_def v_def Let_def)
  moreover have "tasks v = (stasks s)(p := (stasks s p)\<lparr>array := None\<rparr>)" by (simp add: v_def)
  ultimately show thesis by (intro that [OF d])
qed

lemma activate_put:
  assumes wf: "smp_wf A (put_view c v s)" and c: "c \<in> cpus A"
    and p: "array (tasks v p) = None" "cpu (tasks v p) = c" "task_wf (uni A) (tasks v p)" "p < TID_MAX"
  shows "smp_wf A (put_view c (activate_task (uni A) p v) s)"
    and "cpu (tasks (activate_task (uni A) p v) p) = c" "array (tasks (activate_task (uni A) p v) p) \<noteq> None"
    and "cpus_allowed (tasks (activate_task (uni A) p v) p) = cpus_allowed (tasks v p)"
proof -
  let ?s = "put_view c v s" and ?v = "activate_task (uni A) p v" and ?t = "activated (uni A) v (tasks v p)"
  let ?a = "class_array (rq v) (tasks v p)" and ?k = "qkey ?t"
  have f: "cpu ?t = c" "cpus_allowed ?t = cpus_allowed (tasks v p)" using p(2) by (simp_all add: activated_def sleep_bonus_def Let_def)
  have T: "tasks ?v = (tasks v)(p := ?t\<lparr>array := Some ?a\<rparr>)" by (rule activate_task_sel)
  show "cpu (tasks ?v p) = c" "array (tasks ?v p) \<noteq> None" "cpus_allowed (tasks ?v p) = cpus_allowed (tasks v p)"
    using f by (simp_all add: T)
  have R: "rq ?v = (rq_enqueue p ?k ?a (rq v))\<lparr>nr_running := nr_running (rq v) + 1\<rparr>" by (simp add: activate_task_eq)
  have ar: "arrays_ok (rq v)" using smp_wfD(1) [OF wf c] by simp
  have t: "task_wf (uni A) ?t" by (rule activated_wf [OF p(3)])
  have loc: "cloc (put_view c ?v s) d = (if d = c then (cloc ?s c)(p \<mapsto> (?a, ?k)) else cloc ?s d)" for d
    using f p(1,2) by (auto simp: fun_eq_iff cloc_def T tplace_def qkey_def)
  have n: "cloc ?s c p = None" using p(1) by (simp add: cloc_def tplace_def)
  then have ld: "load (put_view c ?v s) c = load ?s c + 1"
    unfolding load_def loc using load_finite [OF wf c] by (simp add: domIff)
  have "rq_ok (cloc ?s c) (rq v)" using smp_wfD(2) [OF wf c] by simp
  then have "rq_ok ((cloc ?s c)(p \<mapsto> (?a, ?k))) (rq_enqueue p ?k ?a (rq v))"
    using n class_array_lt [OF ar] qkey_range [OF t] p(4) by (rule pq.enq_ok)
  then have "cpu_wf (put_view c ?v s) d" if "d \<in> cpus A" for d
  proof (cases "d = c")
    case True
    then show ?thesis using \<open>rq_ok _ (rq_enqueue _ _ _ _)\<close> ar smp_wfD(3) [OF wf c] ld by (simp add: cpu_wf_def loc R arrays_ok_def)
  next
    case False
    then show ?thesis using smp_wfD(1-3) [OF wf that] by (simp add: cpu_wf_def loc load_def)
  qed
  moreover have "stask_wf A (put_view c ?v s) q" for q
  proof (cases "q = p")
    case True
    have "place_wf (rq v) (?t\<lparr>array := Some ?a\<rparr>)" by (rule class_array_place_wf [OF ar]) simp
    then show ?thesis using True c f t by (simp add: stask_wf_def T R place_wf_def)
  next
    case False
    then show ?thesis using smp_wfD(4-6) [OF wf, of q] by (auto simp: stask_wf_def T R place_wf_def)
  qed
  ultimately show "smp_wf A (put_view c ?v s)" using smp_wfD(7,8) [OF wf] by (simp add: smp_wf_def prev_wf_def)
qed

text \<open>Waking a task up, on its own processor.\<close>

lemma put_view_upd:
  assumes "smp_wf A (put_view c v s)"
    and "cpu (f (tasks v p)) = cpu (tasks v p)" "tplace (f (tasks v p)) = tplace (tasks v p)" "array (f (tasks v p)) = array (tasks v p)"
      "task_wf (uni A) (f (tasks v p)) = task_wf (uni A) (tasks v p)" "\<And>r. place_wf r (f (tasks v p)) = place_wf r (tasks v p)"
  shows "smp_wf A (put_view c (upd_task p f v) s)"
  by (rule smp_wf_field [OF assms(1), where p = p and t = "f (tasks v p)"]) (use assms(2-) in simp_all)

lemma put_view_rq:
  assumes wf: "smp_wf A (put_view c v s)" and "\<And>r. arrays (f r) = arrays r \<and> nr_running (f r) = nr_running r \<and> active (f r) = active r \<and>
      expired (f r) = expired r \<and> short_pr (f r) = short_pr r"
  shows "smp_wf A (put_view c (upd_rq f v) s)"
proof -
  have R: "rq_ok loc (f r) = rq_ok loc r" for loc r by (rule rq_ok_cong) (use assms(2) in simp_all)
  have C: "cloc (put_view c (upd_rq f v) s) d = cloc (put_view c v s) d" for d by (simp add: fun_eq_iff cloc_def)
  have P: "place_wf (f r) t = place_wf r t" for r t using assms(2) by (simp add: place_wf_def)
  have "cpu_wf (put_view c (upd_rq f v) s) d = cpu_wf (put_view c v s) d" for d
    unfolding cpu_wf_def load_def C using assms(2) by (cases "d = c") (simp_all add: R arrays_ok_def)
  moreover have "stask_wf A (put_view c (upd_rq f v) s) q = stask_wf A (put_view c v s) q" for q
    unfolding stask_wf_def by (cases "cpu (tasks v q) = c") (simp_all add: P)
  moreover have "prev_wf (put_view c (upd_rq f v) s) = prev_wf (put_view c v s)" unfolding prev_wf_def by simp
  ultimately show ?thesis using wf unfolding smp_wf_def by blast
qed

lemma wake_up_put:
  assumes wf: "smp_wf A s" and t: "cpu (stasks s t) \<in> cpus A" "task_wf (uni A) (stasks s t)" "t < TID_MAX"
  shows "smp_wf A (on_cpu (cpu (stasks s t)) (\<lambda>v. fst (wake_up_process (uni A) t v)) s)"
    and "cpu (stasks (on_cpu (cpu (stasks s t)) (\<lambda>v. fst (wake_up_process (uni A) t v)) s) q) = cpu (stasks s q)"
    and "cpus_allowed (stasks (on_cpu (cpu (stasks s t)) (\<lambda>v. fst (wake_up_process (uni A) t v)) s) q) = cpus_allowed (stasks s q)"
proof -
  let ?c = "cpu (stasks s t)"
  let ?v = "cpu_view ?c s"
  have v: "smp_wf A (put_view ?c ?v s)" using wf by (simp add: put_view_def)
  show "smp_wf A (on_cpu ?c (\<lambda>v. fst (wake_up_process (uni A) t v)) s)"
  proof (cases "array (stasks s t) = None")
    case True
    define v2 where "v2 = (if state (stasks s t) = TASK_UNINTERRUPTIBLE
      then upd_rq (\<lambda>r. r\<lparr>nr_uninterruptible := nr_uninterruptible r - 1\<rparr>) ?v else ?v)"
    define v3 where "v3 = activate_task (uni A) t v2"
    define v4 where "v4 = (if wake_preempts (tasks v3 t) (tasks v3 (curr (rq v3))) then resched_task (curr (rq v3)) v3 else v3)"
    have 2: "smp_wf A (put_view ?c v2 s)" "tasks v2 = stasks s" using v by (auto simp: v2_def intro: put_view_rq)
    have "smp_wf A (put_view ?c v3 s)"
      unfolding v3_def by (rule activate_put(1) [OF 2(1) t(1)]) (use 2(2) True t in simp_all)
    then have "smp_wf A (put_view ?c v4 s)"
      unfolding v4_def by (auto simp: resched_task_def set_tsk_need_resched_def intro!: put_view_upd)
    then have "smp_wf A (put_view ?c (upd_task t (\<lambda>t. t\<lparr>state := TASK_RUNNING\<rparr>) v4) s)" by (rule put_view_upd) simp_all
    moreover have "fst (wake_up_process (uni A) t ?v) = upd_task t (\<lambda>t. t\<lparr>state := TASK_RUNNING\<rparr>) v4"
      unfolding wake_up_process_def try_to_wake_up_def Let_def v4_def v3_def v2_def using True by simp
    ultimately show ?thesis by (simp only: on_cpu_def)
  next
    case False
    have "smp_wf A (put_view ?c (upd_task t (\<lambda>t. t\<lparr>state := TASK_RUNNING\<rparr>) ?v) s)" using v by (rule put_view_upd) simp_all
    moreover have "fst (wake_up_process (uni A) t ?v) = upd_task t (\<lambda>t. t\<lparr>state := TASK_RUNNING\<rparr>) ?v"
      unfolding wake_up_process_def try_to_wake_up_def using False by (simp del: not_None_eq)
    ultimately show ?thesis by (simp only: on_cpu_def)
  qed
  show "cpu (stasks (on_cpu ?c (\<lambda>v. fst (wake_up_process (uni A) t v)) s) q) = cpu (stasks s q)"
    "cpus_allowed (stasks (on_cpu ?c (\<lambda>v. fst (wake_up_process (uni A) t v)) s) q) = cpus_allowed (stasks s q)" for q
    by (simp_all add: wake_up_process_def try_to_wake_up_def Let_def resched_task_def set_tsk_need_resched_def activate_task_sel
        activated_def sleep_bonus_def)
qed

subsection \<open>The round of the migration thread\<close>

lemma deactivate_moved:
  "deactivate_task p (cpu_view c (upd_stask p (\<lambda>t. t\<lparr>cpu := d\<rparr>) s)) =
     map_sum id (upd_task p (\<lambda>t. t\<lparr>cpu := d\<rparr>)) (deactivate_task p (cpu_view c s))"
proof (cases "array (stasks s p)")
  case None
  then show ?thesis by (simp add: deactivate_task_def Let_def)
next
  case (Some a)
  have swap: "(stasks s p)\<lparr>cpu := d, array := None\<rparr> = (stasks s p)\<lparr>array := None, cpu := d\<rparr>" by (cases "stasks s p") simp
  show ?thesis
    by (simp add: Some deactivate_task_def Let_def cpu_view_def upd_stask_def upd_task_def upd_rq_def dequeue_task_def qkey_def)
      (simp only: swap)
qed

lemma put_view_moved: "put_view c (upd_task p f v) (upd_stask p g s) = upd_stask p f (put_view c v s)"
  by (simp add: put_view_def upd_task_def upd_stask_def)

text \<open>What the move keeps, and where the task is after it.\<close>

definition moved_to :: "tid \<Rightarrow> nat \<Rightarrow> smp \<Rightarrow> smp \<Rightarrow> bool" where
  "moved_to p d s s' \<longleftrightarrow> cpu (stasks s' p) = d \<and> cpus_allowed (stasks s' p) = cpus_allowed (stasks s p) \<and>
     (array (stasks s' p) = None \<longleftrightarrow> array (stasks s p) = None) \<and> migration_queue s' = migration_queue s \<and> migrated s' = migrated s"

lemma migration_move_ok:
  assumes wf: "smp_wf A s" and d: "d \<in> cpus A"
  obtains s' where "migration_move A c p d s = Inr s'" "smp_wf A s'"
    "moved_to p (if cpu (stasks s p) = c then d else cpu (stasks s p)) s s'"
proof (cases "cpu (stasks s p) = c")
  case False
  show thesis by (rule that [of s]) (use False wf in \<open>simp_all add: migration_move_def moved_to_def\<close>)
next
  case c: True
  define s1 where "s1 = upd_stask p (\<lambda>t. t\<lparr>cpu := d\<rparr>) s"
  show thesis
  proof (cases "array (stasks s p)")
    case None
    have "smp_wf A s1" unfolding s1_def by (rule smp_wf_upd_unqueued [OF wf]) (simp_all add: None)
    moreover have "migration_move A c p d s = Inr s1" by (simp add: migration_move_def c None s1_def)
    moreover have "moved_to p d s s1" unfolding moved_to_def s1_def view_sel by simp
    ultimately show thesis by (intro that) (simp_all add: c)
  next
    case (Some a)
    obtain v where v: "deactivate_task p (cpu_view c s) = Inr v" "smp_wf A (put_view c v s)"
      "tasks v = (stasks s)(p := (stasks s p)\<lparr>array := None\<rparr>)"
      by (rule deactivate_put [OF wf Some c])
    define s2 where "s2 = upd_stask p (\<lambda>t. t\<lparr>cpu := d\<rparr>) (put_view c v s)"
    have 2: "stasks s2 = (stasks s)(p := (stasks s p)\<lparr>array := None, cpu := d\<rparr>)" by (simp add: s2_def v(3))
    have "smp_wf A s2" unfolding s2_def by (rule smp_wf_upd_unqueued [OF v(2)]) (simp_all add: v(3))
    then have p2: "smp_wf A (put_view d (cpu_view d s2) s2)" by (simp add: put_view_def)
    define s3 where "s3 = put_view d (activate_task (uni A) p (cpu_view d s2)) s2"
    have "task_wf (uni A) (stasks s p)" "p < TID_MAX"
      using smp_wfD(5) [OF wf, of p] cloc_range(3) [OF wf, of c p] by (auto simp: Some c cloc_Some)
    then have t: "array (tasks (cpu_view d s2) p) = None" "cpu (tasks (cpu_view d s2) p) = d"
      "task_wf (uni A) (tasks (cpu_view d s2) p)" "p < TID_MAX"
      by (simp_all add: 2)
    note act = activate_put [OF p2 d t]
    have "migration_move A c p d s = Inr s3"
      unfolding migration_move_def s1_def [symmetric] Let_def
      by (simp add: c Some s1_def deactivate_moved v(1) put_view_moved s3_def on_cpu_def s2_def)
    moreover have "smp_wf A s3" unfolding s3_def by (rule act(1))
    moreover have "moved_to p d s s3"
      using act(2-4) by (simp add: moved_to_def s3_def 2 Some) (simp add: s2_def)
    ultimately show thesis by (intro that) (simp_all add: c)
  qed
qed

subsection \<open>From the call to the move\<close>

definition ffs_ok :: "smp_arch \<Rightarrow> bool" where
  "ffs_ok A \<longleftrightarrow> (\<forall>m. m \<noteq> 0 \<longrightarrow> m AND cpu_bit (ffs A m) \<noteq> 0)"

definition online_ok :: "smp_arch \<Rightarrow> bool" where
  "online_ok A \<longleftrightarrow> (\<forall>c. cpu_online_map A AND cpu_bit c \<noteq> 0 \<longrightarrow> c \<in> cpus A)"

definition threads_ok :: "smp_arch \<Rightarrow> smp \<Rightarrow> bool" where
  "threads_ok A s \<longleftrightarrow> (\<forall>c\<in>cpus A. \<exists>t. migration_threads s c = Some t \<and> cpu (stasks s t) \<in> cpus A \<and>
     task_wf (uni A) (stasks s t) \<and> t < TID_MAX)"

definition on_allowed_cpu :: "tid \<Rightarrow> smp \<Rightarrow> bool" where
  "on_allowed_cpu p s \<longleftrightarrow> cpus_allowed (stasks s p) AND cpu_bit (cpu (stasks s p)) \<noteq> 0"

text \<open>What the other processors do to the task in the meantime: they may move it, but only to a processor it is
  allowed on, and they file no further request.\<close>

definition spares :: "smp_arch \<Rightarrow> tid \<Rightarrow> (smp \<Rightarrow> smp) \<Rightarrow> bool" where
  "spares A p f \<longleftrightarrow> (\<forall>s. (smp_wf A s \<longrightarrow> smp_wf A (f s)) \<and> cpus_allowed (stasks (f s) p) = cpus_allowed (stasks s p) \<and>
     (cpu (stasks (f s) p) = cpu (stasks s p) \<or> on_allowed_cpu p (f s)) \<and> migration_queue (f s) = migration_queue s)"

lemma sparesD:
  assumes "spares A p f"
  shows "smp_wf A s \<Longrightarrow> smp_wf A (f s)" "cpus_allowed (stasks (f s) p) = cpus_allowed (stasks s p)"
    "cpu (stasks (f s) p) = cpu (stasks s p) \<or> on_allowed_cpu p (f s)" "migration_queue (f s) = migration_queue s"
  using assms unfolding spares_def by blast+

lemma set_cpus_allowed_ok:
  assumes wf: "smp_wf A s" and ok: "ffs_ok A" "threads_ok A s" and c: "cpu (stasks s p) \<in> cpus A" and m: "m AND cpu_online_map A \<noteq> 0"
  obtains s1 w where "set_cpus_allowed A p m s = Inr (s1, w)" "smp_wf A s1" "cpus_allowed (stasks s1 p) = m AND cpu_online_map A"
    "\<not> w \<longrightarrow> on_allowed_cpu p s1" "w \<longrightarrow> cpu (stasks s1 p) = cpu (stasks s p) \<and>
      migration_queue s1 (cpu (stasks s p)) = p # migration_queue s (cpu (stasks s p))"
proof -
  let ?c = "cpu (stasks s p)" and ?m = "m AND cpu_online_map A"
  define s0 where "s0 = upd_stask p (\<lambda>t. t\<lparr>cpus_allowed := ?m\<rparr>) s"
  have wf0: "smp_wf A s0" unfolding s0_def by (rule smp_wf_upd [OF wf]) simp_all
  consider (stays) "?m AND cpu_bit ?c \<noteq> 0" | (sets) "?m AND cpu_bit ?c = 0" "array (stasks s p) = None \<and> p \<noteq> curr (rqs s ?c)"
    | (files) "?m AND cpu_bit ?c = 0" "\<not> (array (stasks s p) = None \<and> p \<noteq> curr (rqs s ?c))" by blast
  then show thesis
  proof cases
    case stays
    show thesis
      by (rule that [of s0 False]) (use stays wf0 m in \<open>simp_all add: set_cpus_allowed_def s0_def Let_def on_allowed_cpu_def\<close>)
  next
    case sets
    define s1 where "s1 = upd_stask p (\<lambda>t. t\<lparr>cpu := ffs A (cpus_allowed t)\<rparr>) s0"
    have "smp_wf A s1" unfolding s1_def by (rule smp_wf_upd_unqueued [OF wf0]) (use sets in \<open>simp_all add: s0_def\<close>)
    moreover have "?m AND cpu_bit (ffs A ?m) \<noteq> 0" using ok(1) m unfolding ffs_ok_def by blast
    ultimately show thesis
      by (intro that [of s1 False]) (use sets m in \<open>simp_all add: set_cpus_allowed_def s1_def s0_def Let_def on_allowed_cpu_def\<close>)
  next
    case files
    obtain t where t: "migration_threads s ?c = Some t" "cpu (stasks s t) \<in> cpus A" "task_wf (uni A) (stasks s t)" "t < TID_MAX"
      using ok(2) c unfolding threads_ok_def by blast
    define s2 where "s2 = s0\<lparr>migration_queue := (migration_queue s0)(?c := p # migration_queue s0 ?c)\<rparr>"
    define s3 where "s3 = on_cpu (cpu (stasks s2 t)) (\<lambda>v. fst (wake_up_process (uni A) t v)) s2"
    have "smp_wf A s2" using wf0 by (simp add: s2_def)
    moreover have t2: "cpu (stasks s2 t) \<in> cpus A" "task_wf (uni A) (stasks s2 t)" using t(2,3) by (auto simp: s2_def s0_def)
    ultimately have w: "smp_wf A s3" "cpu (stasks s3 p) = cpu (stasks s2 p)" "cpus_allowed (stasks s3 p) = cpus_allowed (stasks s2 p)"
      unfolding s3_def using wake_up_put(1) [of A s2 t] wake_up_put(2,3) [of A s2 t p] t(4) by blast+
    have "migration_queue s3 ?c = p # migration_queue s ?c" by (simp add: s3_def s2_def s0_def)
    moreover have "set_cpus_allowed A p m s = Inr (s3, True)"
      unfolding set_cpus_allowed_def s0_def [symmetric] Let_def s2_def [symmetric]
      using files m t(1) by (simp add: s3_def) (simp add: s2_def s0_def)
    ultimately show thesis by (intro that [of s3 True]) (use w in \<open>simp_all add: s2_def s0_def\<close>)
  qed
qed

lemma migration_round_ok:
  assumes wf: "smp_wf A s" and ok: "ffs_ok A" "online_ok A" and sp: "spares A p others" and q: "migration_queue s c = p # ps"
    and m: "cpus_allowed (stasks s p) \<noteq> 0" "cpus_allowed (stasks s p) AND cpu_online_map A = cpus_allowed (stasks s p)"
    and p: "cpu (stasks s p) = c \<or> on_allowed_cpu p s"
  obtains s' where "migration_round A others c s = Inr s'" "smp_wf A s'" "on_allowed_cpu p s'"
    "cpus_allowed (stasks s' p) = cpus_allowed (stasks s p)" "migration_queue s' c = ps" "p \<in> set (migrated s')"
proof -
  define s2 where "s2 = (upd_stask (curr (rqs s c)) (\<lambda>t. t\<lparr>state := TASK_INTERRUPTIBLE\<rparr>) s)
    \<lparr>migration_queue := (migration_queue s)(c := ps)\<rparr>"
  let ?m = "cpus_allowed (stasks s p)" and ?d = "ffs A (cpus_allowed (stasks s p))"
  have "smp_wf A (upd_stask (curr (rqs s c)) (\<lambda>t. t\<lparr>state := TASK_INTERRUPTIBLE\<rparr>) s)"
    by (rule smp_wf_upd [OF wf]) simp_all
  then have wf2: "smp_wf A s2" by (simp add: s2_def)
  have 2: "cpus_allowed (stasks s2 p) = ?m" "cpu (stasks s2 p) = cpu (stasks s p)" "migration_queue s2 c = ps" by (simp_all add: s2_def)
  have d: "?m AND cpu_bit ?d \<noteq> 0" using ok(1) m(1) unfolding ffs_ok_def by blast
  have "?d \<in> cpus A"
  proof -
    have "cpu_online_map A AND cpu_bit ?d \<noteq> 0"
    proof
      assume "cpu_online_map A AND cpu_bit ?d = 0"
      then have "(?m AND cpu_online_map A) AND cpu_bit ?d = 0" by (simp only: and.assoc and_zero_eq)
      then show False using d m(2) by simp
    qed
    then show ?thesis using ok(2) unfolding online_ok_def by blast
  qed
  note o = sparesD [OF sp, of s2]
  obtain s3 where s3: "migration_move A c p ?d (others s2) = Inr s3" "smp_wf A s3"
    "moved_to p (if cpu (stasks (others s2) p) = c then ?d else cpu (stasks (others s2) p)) (others s2) s3"
    by (rule migration_move_ok [OF o(1) [OF wf2] \<open>?d \<in> cpus A\<close>])
  define s' where "s' = s3\<lparr>migrated := migrated s3 @ [p]\<rparr>"
  have m3: "cpus_allowed (stasks s3 p) = ?m" "migration_queue s3 c = ps" using s3(3) by (simp_all add: moved_to_def o 2)
  have "on_allowed_cpu p s3"
  proof (cases "cpu (stasks (others s2) p) = c")
    case True
    then show ?thesis using s3(3) d by (simp add: moved_to_def on_allowed_cpu_def o(2) 2)
  next
    case False
    have "on_allowed_cpu p (others s2)" using o(2,3) p False by (auto simp: 2 on_allowed_cpu_def)
    then show ?thesis using s3(3) False by (simp add: moved_to_def on_allowed_cpu_def)
  qed
  then have "on_allowed_cpu p s'" by (simp add: s'_def on_allowed_cpu_def)
  moreover have "smp_wf A s'" using s3(2) by (simp add: s'_def)
  moreover have "migration_round A others c s = Inr s'"
  proof -
    have "migration_round A others c s = map_sum id (\<lambda>s3. s3\<lparr>migrated := migrated s3 @ [p]\<rparr>) (migration_move A c p (ffs A (cpus_allowed (stasks s2 p))) (others s2))"
      unfolding migration_round_def q Let_def s2_def by simp
    then show ?thesis by (simp add: 2 s3(1) s'_def)
  qed
  ultimately show thesis by (intro that [of s']) (use m3 in \<open>simp_all add: s'_def\<close>)
qed

subsection \<open>The property\<close>

lemma cpu_bit_bit: "bit (cpu_bit c) i \<longleftrightarrow> i = c \<and> c < 32"
  by (auto simp: cpu_bit_def bit_exp_iff)

lemma cpu_bit_and: "c < 32 \<Longrightarrow> m AND cpu_bit c \<noteq> 0 \<longleftrightarrow> bit m c"
proof -
  assume "c < 32"
  moreover have "m AND cpu_bit c = 0 \<longleftrightarrow> (\<forall>i. \<not> bit (m AND cpu_bit c) i)"
    using bit_imp_le_length [of "m AND cpu_bit c"] by (auto simp: bit_eq_iff)
  ultimately show ?thesis by (auto simp: bit_and_iff cpu_bit_bit)
qed

lemma demo_migration_ok: "ffs_ok demo_smp_arch" "online_ok demo_smp_arch" "threads_ok demo_smp_arch (demo_smp SCHED_OTHER)"
proof -
  show "ffs_ok demo_smp_arch"
    unfolding ffs_ok_def
  proof (intro allI impI)
    fix m :: u32
    assume "m \<noteq> 0"
    then obtain n where n: "bit m n" by (auto simp: bit_eq_iff)
    then have "n < 32" using bit_imp_le_length [OF n] by simp
    then obtain k where k: "find (bit m) [0..<32] = Some k" using n by (cases "find (bit m) [0..<32]") (auto simp: find_None_iff)
    then have "bit m k" "k < 32" by (auto simp: find_Some_iff)
    then show "m AND cpu_bit (ffs demo_smp_arch m) \<noteq> 0" using k by (simp add: demo_smp_arch_def cpu_bit_and)
  qed
  show "online_ok demo_smp_arch"
    unfolding online_ok_def
  proof (intro allI impI)
    fix c
    assume c: "cpu_online_map demo_smp_arch AND cpu_bit c \<noteq> 0"
    have "bit (cpu_bit c) i \<Longrightarrow> i = c" for i by (simp add: cpu_bit_bit)
    moreover have "bit (3 :: u32) i \<longleftrightarrow> i < 2" for i
    proof -
      have "(3 :: u32) = Bit_Operations.mask 2" by (simp add: mask_eq_exp_minus_1)
      then show ?thesis by (simp only: bit_mask_iff) auto
    qed
    moreover obtain i where "bit (3 AND cpu_bit c) i" using c by (auto simp: bit_eq_iff demo_smp_arch_def)
    ultimately have "c < 2" by (auto simp: bit_and_iff)
    then show "c \<in> cpus demo_smp_arch" by (auto simp: demo_smp_arch_ok)
  qed
  show "threads_ok demo_smp_arch (demo_smp SCHED_OTHER)"
    by (auto simp: threads_ok_def demo_smp_arch_ok demo_smp_def demo_stask_def task_wf_def demo_arch_def TID_MAX_def Let_def)
qed

text \<open>C12: A change of the affinity is carried out. On a well-formed machine, for a task on one of its processors and a
  mask with a processor that is on-line, \<open>set_cpus_allowed\<close> returns with every run queue right and the mask, cut
  to the processors on-line, in force; and either the task is already on a processor of the mask, or the next
  round of the migration thread of its processor ends without a fault, with every run queue right, the caller
  woken and the task on a processor of the mask. Meanwhile the other processors may do what they like, as long as
  they keep the run queues right, move the task to allowed processors only and file no request of their own.\<close>
theorem affinity_reached:
  assumes "ffs_ok A" and "online_ok A" and "smp_wf A s" and "threads_ok A s"
    and "cpu (stasks s p) \<in> cpus A" and "m AND cpu_online_map A \<noteq> 0" and "spares A p others"
  shows "\<exists>s1 waits. set_cpus_allowed A p m s = Inr (s1, waits) \<and> smp_wf A s1 \<and>
    cpus_allowed (stasks s1 p) = m AND cpu_online_map A \<and>
    (if waits then \<exists>s2. migration_round A others (cpu (stasks s p)) (others s1) = Inr s2 \<and> smp_wf A s2 \<and>
         cpus_allowed (stasks s2 p) = m AND cpu_online_map A \<and> on_allowed_cpu p s2 \<and> p \<in> set (migrated s2)
     else on_allowed_cpu p s1)"
proof -
  let ?c = "cpu (stasks s p)" and ?m = "m AND cpu_online_map A"
  obtain s1 w where 1: "set_cpus_allowed A p m s = Inr (s1, w)" "smp_wf A s1" "cpus_allowed (stasks s1 p) = ?m"
    "\<not> w \<longrightarrow> on_allowed_cpu p s1" "w \<longrightarrow> cpu (stasks s1 p) = ?c \<and> migration_queue s1 ?c = p # migration_queue s ?c"
    by (rule set_cpus_allowed_ok [OF assms(3,1,4-6)])
  show ?thesis
  proof (cases w)
    case True
    note o = sparesD [OF assms(7), of s1]
    have mm: "cpus_allowed (stasks (others s1) p) = ?m" by (simp add: o(2) 1(3))
    have q: "migration_queue (others s1) ?c = p # migration_queue s ?c" using 1(5) True by (simp add: o(4))
    have p: "cpu (stasks (others s1) p) = ?c \<or> on_allowed_cpu p (others s1)" using o(3) 1(5) True by auto
    have m0: "cpus_allowed (stasks (others s1) p) \<noteq> 0" using mm assms(6) by simp
    have m1: "cpus_allowed (stasks (others s1) p) AND cpu_online_map A = cpus_allowed (stasks (others s1) p)"
      by (simp add: mm and.assoc)
    obtain s2 where 2: "migration_round A others ?c (others s1) = Inr s2" "smp_wf A s2" "on_allowed_cpu p s2"
      "cpus_allowed (stasks s2 p) = cpus_allowed (stasks (others s1) p)" "p \<in> set (migrated s2)"
      by (rule migration_round_ok [OF o(1) [OF 1(2)] assms(1,2,7) q m0 m1 p])
    then show ?thesis using 1 True mm by auto
  next
    case False
    then show ?thesis using 1 by auto
  qed
qed

theorem affinity_reached_witness:
  "\<exists>s1 waits. set_cpus_allowed demo_smp_arch 3 1 (demo_smp SCHED_OTHER) = Inr (s1, waits) \<and> smp_wf demo_smp_arch s1 \<and>
    cpus_allowed (stasks s1 3) = 1 AND cpu_online_map demo_smp_arch \<and>
    (if waits then \<exists>s2. migration_round demo_smp_arch id (cpu (stasks (demo_smp SCHED_OTHER) 3)) (id s1) = Inr s2 \<and>
         smp_wf demo_smp_arch s2 \<and> cpus_allowed (stasks s2 3) = 1 AND cpu_online_map demo_smp_arch \<and>
         on_allowed_cpu 3 s2 \<and> 3 \<in> set (migrated s2)
     else on_allowed_cpu 3 s1)"
proof (rule affinity_reached [OF demo_migration_ok(1,2) demo_smp_wf demo_migration_ok(3)])
  show "SCHED_OTHER \<in> {SCHED_OTHER, SCHED_SHORT}" by simp
  show "cpu (stasks (demo_smp SCHED_OTHER) 3) \<in> cpus demo_smp_arch" by (simp add: demo_smp_def demo_stask_def demo_smp_arch_ok Let_def)
  show "1 AND cpu_online_map demo_smp_arch \<noteq> 0" by (simp add: demo_smp_arch_def)
  show "spares demo_smp_arch 3 id" by (simp add: spares_def)
qed

end
