(* ===== verification/Sched_Smp_Pick.thy ===== *)
theory Sched_Smp_Pick
  imports Sched_Smp_Migrate Sched_Pick
begin

text \<open>
  HW2, the choice of the next task by \<open>schedule\<close> on several processors: a processor whose run queue is empty balances
  before it goes idle, and tries again. The choice is the one of the uniprocessor model on the tasks of the processor.
\<close>

definition pick_next_smp :: "smp_arch \<Rightarrow> (smp \<Rightarrow> smp) option \<Rightarrow> nat \<Rightarrow> smp \<Rightarrow> (fault + (tid \<times> smp)) option" where
  "pick_next_smp A others c s =
     map_option (\<lambda>r. sbind r (\<lambda>s1. sbind (pick_next (uni A) (rqs s1 c)) (\<lambda>(n, q). Inr (n, s1\<lparr>rqs := (rqs s1)(c := q)\<rparr>))))
       (if nr_running (rqs s c) = 0 then load_balance A others c True s else Some (Inr s))"

subsection \<open>The tasks of one processor\<close>

definition idle_task :: task where
  "idle_task = (demo_stask SCHED_OTHER 0 None)\<lparr>time_slice := 1\<rparr>"

definition own_view :: "nat \<Rightarrow> smp \<Rightarrow> sched" where
  "own_view c s = (cpu_view c s)\<lparr>
     tasks := (\<lambda>p. if cloc s c p = None then idle_task else (stasks s p)\<lparr>mm := None, active_mm := Some 0\<rparr>),
     rq := (rqs s c)\<lparr>idle := TID_MAX, curr := TID_MAX\<rparr>, current := TID_MAX, pidhash := (\<lambda>_. [])\<rparr>"

lemma own_view_sel:
  "tasks (own_view c s) p = (if cloc s c p = None then idle_task else (stasks s p)\<lparr>mm := None, active_mm := Some 0\<rparr>)"
  "rq (own_view c s) = (rqs s c)\<lparr>idle := TID_MAX, curr := TID_MAX\<rparr>" "current (own_view c s) = TID_MAX"
  "pidhash (own_view c s) h = []"
  by (simp_all add: own_view_def)

lemma own_view_task: "cloc s c p \<noteq> None \<Longrightarrow> tasks (own_view c s) p = (stasks s p)\<lparr>mm := None, active_mm := Some 0\<rparr>"
  by (cases "cloc s c p") (simp_all add: own_view_sel)

lemma mm_qkey: "qkey (t\<lparr>mm := m, active_mm := a\<rparr>) = qkey t"
  by (simp add: qkey_def)

lemma own_view_queued: "cloc s c p \<noteq> None \<longleftrightarrow> array (tasks (own_view c s) p) \<noteq> None"
  by (auto simp: own_view_sel cloc_def tplace_def idle_task_def demo_stask_def split: if_splits option.splits)

lemma own_view_tloc: "tloc (own_view c s) = cloc s c"
  by (rule ext) (auto simp: tloc_def own_view_sel cloc_def tplace_def qkey_def idle_task_def demo_stask_def split: option.splits)

lemma idle_task_wf: "arch_ok A \<Longrightarrow> task_wf A idle_task"
  using HZ_word [of A] by (simp add: task_wf_def idle_task_def demo_stask_def u32_ge_1 arch_ok_def unat_eq_zero [symmetric])

lemma own_view_wf:
  assumes A: "smp_arch_ok A" and wf: "smp_wf A s" and c: "c \<in> cpus A"
  shows "queues_wf (uni A) (own_view c s)"
proof -
  have a: "arch_ok (uni A)" using A by (simp add: smp_arch_ok_def)
  have "task_wf (uni A) (tasks (own_view c s) p) \<and> place_wf (rq (own_view c s)) (tasks (own_view c s) p)" for p
  proof (cases "cloc s c p")
    case None
    then show ?thesis using idle_task_wf [OF a] by (simp add: own_view_sel place_wf_def idle_task_def demo_stask_def)
  next
    case (Some x)
    then have "array (stasks s p) \<noteq> None" "cpu (stasks s p) = c" by (auto simp: cloc_def tplace_def split: if_splits)
    then show ?thesis using smp_wfD(5,6) [OF wf, of p] Some by (simp add: own_view_sel place_wf_def task_wf_def rt_task_def)
  qed
  moreover have "cloc s c TID_MAX = None" using cloc_range(3) [OF wf, of c TID_MAX] by (cases "cloc s c TID_MAX") auto
  moreover have "rq_ok loc ((rqs s c)\<lparr>idle := TID_MAX, curr := TID_MAX\<rparr>) = rq_ok loc (rqs s c)" for loc by (rule rq_ok_cong) simp
  ultimately show ?thesis using smp_wfD(1-3) [OF wf c]
    by (simp add: queues_wf_def own_view_tloc nr_ok_def mm_wf_def idle_wf_def hash_wf_def own_view_sel load_def arrays_ok_def
        idle_task_def demo_stask_def)
qed

lemma no_load: "smp_wf A s \<Longrightarrow> c \<in> cpus A \<Longrightarrow> nr_running (rqs s c) = 0 \<longleftrightarrow> load s c = 0"
  using smp_wfD(3) [of A s c] load_max [of A s c] by (simp add: u32_of_nat_0 TID_MAX_def)

lemma switch_smp_wf:
  assumes wf: "smp_wf A s" and c: "c \<in> cpus A"
  shows "smp_wf A (s\<lparr>rqs := (rqs s)(c := switch_arrays (rqs s c))\<rparr>)"
proof -
  let ?s = "s\<lparr>rqs := (rqs s)(c := switch_arrays (rqs s c))\<rparr>"
  have C: "cloc ?s d = cloc s d" for d by (simp add: fun_eq_iff cloc_def)
  have ar: "arrays_ok (switch_arrays (rqs s c))" using smp_wfD(1) [OF wf c] by (simp add: arrays_ok_def switch_arrays_def)
  have none: "cloc s c p \<noteq> Some (active (rqs s c), k)" if "nr_active (arrays (rqs s c) (active (rqs s c))) = 0" for p k
  proof -
    have "placement_range (cloc s c)" "counts_ok (cloc s c) (rqs s c)" "active (rqs s c) < 3"
      using smp_wfD(1,2) [OF wf c] by (simp_all add: rq_ok_def arrays_ok_def)
    with that finite_on_array [of "cloc s c" "active (rqs s c)"] have "on_array (cloc s c) (active (rqs s c)) = {}"
      by (simp add: counts_ok_def)
    then show ?thesis by (auto simp: on_array_def)
  qed
  have pl: "place_wf (switch_arrays (rqs s c)) (stasks s p)" if p: "array (stasks s p) \<noteq> None" "cpu (stasks s p) = c" for p
  proof -
    have "place_wf (rqs s c) (stasks s p)" using smp_wfD(6) [OF wf p(1)] p(2) by simp
    moreover have "array (stasks s p) \<noteq> Some (active (rqs s c))" if "nr_active (arrays (rqs s c) (active (rqs s c))) = 0"
      using none [OF that, of p "qkey (stasks s p)"] p(2) by (auto simp: cloc_Some)
    ultimately show ?thesis using p(1) by (auto simp: place_wf_def switch_arrays_def)
  qed
  have "cpu_wf ?s d" if "d \<in> cpus A" for d
    using smp_wfD(1-3) [OF wf that] ar unfolding cpu_wf_def load_def C by (cases "d = c") (simp_all add: switch_arrays_def)
  moreover have "stask_wf A ?s p" for p
    using smp_wfD(4-6) [OF wf, of p] pl [of p] by (cases "cpu (stasks s p) = c") (simp_all add: stask_wf_def)
  ultimately show ?thesis using smp_wfD(7,8) [OF wf] by (simp add: smp_wf_def prev_wf_def)
qed

text \<open>The choice from a queue that is not empty.\<close>

definition least_on :: "nat \<Rightarrow> smp \<Rightarrow> tid \<Rightarrow> bool" where
  "least_on c s n \<longleftrightarrow> cloc s c n \<noteq> None \<and> head_of_queue (rqs s c) (stasks s n) n \<and>
     (\<forall>q. cloc s c q \<noteq> None \<longrightarrow> sched_rank (rqs s c) (stasks s n) \<le> sched_rank (rqs s c) (stasks s q))"

lemma pick_next_own:
  assumes A: "smp_arch_ok A" and wf: "smp_wf A s" and c: "c \<in> cpus A" and l: "load s c \<noteq> 0"
  obtains n where "pick_next (uni A) (rqs s c) = Inr (n, switch_arrays (rqs s c))" "least_on c s n"
proof -
  let ?v = "own_view c s"
  have "dom (cloc s c) \<noteq> {}" using l by (auto simp: load_def)
  then obtain q0 b where q0: "array (tasks ?v q0) = Some b" using own_view_queued [of s c] by blast
  have a: "arch_ok (uni A)" using A by (simp add: smp_arch_ok_def)
  obtain n where n: "pick_next (uni A) (rq ?v) = Inr (n, switch_arrays (rq ?v))" "array (tasks ?v n) \<noteq> None"
    "head_of_queue (rq ?v) (tasks ?v n) n"
    "\<And>q. array (tasks ?v q) \<noteq> None \<Longrightarrow> sched_rank (rq ?v) (tasks ?v n) \<le> sched_rank (rq ?v) (tasks ?v q)"
    using pick_next_least [OF a own_view_wf [OF A wf c] q0] by blast
  have r: "sched_rank (rq ?v) (tasks ?v q) = sched_rank (rqs s c) (stasks s q)" if "cloc s c q \<noteq> None" for q
    unfolding own_view_task [OF that] by (simp add: own_view_sel(2) sched_rank_def qkey_def rt_task_def)
  have nn: "cloc s c n \<noteq> None" using n(2) own_view_queued by blast
  have "head_of_queue (rqs s c) (stasks s n) n" using n(3) unfolding own_view_task [OF nn]
    by (cases "array (stasks s n)") (simp_all add: own_view_sel(2) head_of_queue_def mm_qkey)
  then have "least_on c s n" unfolding least_on_def using nn n(4) r own_view_queued [of s c] by metis
  moreover have "nr_running (rqs s c) \<noteq> 0" using no_load [OF wf c] l by simp
  then have "pick_next (uni A) (rqs s c) = Inr (n, switch_arrays (rqs s c))"
    using n(1) by (auto simp: own_view_sel pick_next_def Let_def switch_arrays_def sbind_Inr_iff split: if_splits)
  ultimately show thesis using that by blast
qed

subsection \<open>The property\<close>

lemma pick_next_keeps:
  assumes A: "smp_arch_ok A" and wf: "smp_wf A s" and c: "c \<in> cpus A"
  obtains n q where "pick_next (uni A) (rqs s c) = Inr (n, q)" "smp_wf A (s\<lparr>rqs := (rqs s)(c := q)\<rparr>)"
    "if load s c = 0 then n = idle (rqs s c) else least_on c s n"
proof (cases "load s c = 0")
  case True
  let ?q = "(rqs s c)\<lparr>expired_timestamp := 0\<rparr>"
  have n: "nr_running (rqs s c) = 0" using no_load [OF wf c] True by simp
  have v: "smp_wf A (put_view c (cpu_view c s) s)" using wf by (simp add: put_view_def cpu_view_def)
  have "put_view c (upd_rq (\<lambda>r. r\<lparr>expired_timestamp := 0\<rparr>) (cpu_view c s)) s = s\<lparr>rqs := (rqs s)(c := ?q)\<rparr>"
    by (simp add: put_view_def)
  moreover have "smp_wf A (put_view c (upd_rq (\<lambda>r. r\<lparr>expired_timestamp := 0\<rparr>) (cpu_view c s)) s)"
    by (rule put_view_rq [OF v]) simp
  ultimately have "smp_wf A (s\<lparr>rqs := (rqs s)(c := ?q)\<rparr>)" by simp
  then show thesis using that [of "idle (rqs s c)" ?q] n True by (simp add: pick_next_def)
next
  case False
  obtain n where n: "pick_next (uni A) (rqs s c) = Inr (n, switch_arrays (rqs s c))" "least_on c s n"
    by (rule pick_next_own [OF A wf c False])
  show thesis by (rule that [OF n(1) switch_smp_wf [OF wf c]]) (use n(2) False in simp)
qed

lemma idle_blocked:
  assumes "c \<in> cpus A" "load s c = 0" "blocked A c s"
  shows "(\<forall>d\<in>cpus A - {c}. load s d \<le> 1) \<or>
    (\<exists>b\<in>cpus A - {c}. (\<forall>d\<in>cpus A - {c}. load s d \<le> load s b) \<and> (\<forall>p. \<not> movable A b c s p))"
proof (cases "\<forall>d\<in>cpus A - {c}. load s d \<le> 1")
  case False
  then obtain b where b: "b \<in> cpus A - {c}" "\<forall>d\<in>cpus A - {c}. load s d \<le> load s b"
    "load s b \<le> load s c + 1 \<or> (\<forall>p. \<not> movable A b c s p)"
    using assms(3) unfolding blocked_def by (elim disjE bexE conjE) blast+
  have "\<not> load s b \<le> 1"
  proof
    assume "load s b \<le> 1"
    then have "load s d \<le> 1" if "d \<in> cpus A - {c}" for d using bspec [OF b(2) that] by simp
    then show False using False by blast
  qed
  then have "\<forall>p. \<not> movable A b c s p" using b(3) assms(2) by simp
  then show ?thesis using b(1,2) by blast
qed blast

text \<open>C13: The choice of the next task on one of several processors. On a well-formed machine it returns without a
  fault and with every run queue right, whatever the others do to it, well-formedness kept, while a lock is awaited.
  It chooses the idle task when the own queue is empty, also after balancing, which is tried when it was empty
  before; else it chooses the task of the least rank queued here, the first of its queue, its own or one just taken
  from another processor. If no lock was contended, the idle task is chosen only when every other processor had at
  most one task, or when no task of the busiest other processor, the one balancing looks at, could be moved.\<close>
theorem idle_only_without_work:
  assumes "smp_arch_ok A" and "smp_wf A s" and "c \<in> cpus A" and "keeps_wf A others"
  shows "\<exists>n s1 s'. pick_next_smp A others c s = Some (Inr (n, s')) \<and> smp_wf A s' \<and>
    (if load s c = 0 then load_balance A others c True s = Some (Inr s1) else s1 = s) \<and>
    (if load s1 c = 0 then n = idle (rqs s1 c) \<and> load s c = 0 else least_on c s1 n) \<and>
    (others = None \<and> load s1 c = 0 \<longrightarrow>
      (\<forall>d\<in>cpus A - {c}. load s d \<le> 1) \<or>
      (\<exists>b\<in>cpus A - {c}. (\<forall>d\<in>cpus A - {c}. load s d \<le> load s b) \<and> (\<forall>p. \<not> movable A b c s p)))"
proof -
  obtain s1 where s1: "(if nr_running (rqs s c) = 0 then load_balance A others c True s else Some (Inr s)) = Some (Inr s1)"
    "smp_wf A s1" "others = None \<and> load s1 c = 0 \<longrightarrow> blocked A c s"
    "if load s c = 0 then load_balance A others c True s = Some (Inr s1) else s1 = s"
  proof (cases "load s c = 0")
    case True
    obtain t where t: "load_balance A others c True s = Some (Inr t)" "smp_wf A t"
      using load_balance_returns [OF assms, of True] by blast
    have "others = None \<and> load t c = 0 \<longrightarrow> blocked A c s"
      using load_balance_result [OF assms(1-3), of True t] t(1) by (auto simp: pulled_def)
    then show thesis using that [of t] t True no_load [OF assms(2,3)] by simp
  next
    case False
    then show thesis using that [of s] assms(2) no_load [OF assms(2,3)] by simp
  qed
  obtain n q where n: "pick_next (uni A) (rqs s1 c) = Inr (n, q)" "smp_wf A (s1\<lparr>rqs := (rqs s1)(c := q)\<rparr>)"
    "if load s1 c = 0 then n = idle (rqs s1 c) else least_on c s1 n"
    by (rule pick_next_keeps [OF assms(1) s1(2) assms(3)])
  define s' where "s' = s1\<lparr>rqs := (rqs s1)(c := q)\<rparr>"
  have "pick_next_smp A others c s = Some (Inr (n, s'))" unfolding pick_next_smp_def s1(1) by (simp add: n(1) s'_def)
  moreover have "smp_wf A s'" using n(2) by (simp only: s'_def)
  moreover have own: "load s1 c = 0 \<longrightarrow> load s c = 0" using s1(4) by (cases "load s c = 0") auto
  moreover have "if load s1 c = 0 then n = idle (rqs s1 c) \<and> load s c = 0 else least_on c s1 n"
    using n(3) own by (cases "load s1 c = 0") simp_all
  moreover have "others = None \<and> load s1 c = 0 \<longrightarrow>
      (\<forall>d\<in>cpus A - {c}. load s d \<le> 1) \<or>
      (\<exists>b\<in>cpus A - {c}. (\<forall>d\<in>cpus A - {c}. load s d \<le> load s b) \<and> (\<forall>p. \<not> movable A b c s p))"
    using idle_blocked [OF assms(3)] s1(3) own by presburger
  ultimately show ?thesis using s1(4) by (intro exI [of _ n] exI [of _ s1] exI [of _ s'] conjI)
qed

theorem idle_only_without_work_witness:
  "\<exists>n s1 s'. pick_next_smp demo_smp_arch None 0 (demo_smp SCHED_OTHER) = Some (Inr (n, s')) \<and>
    load (demo_smp SCHED_OTHER) 0 = 0 \<and> load s1 0 \<noteq> 0 \<and> least_on 0 s1 n"
proof -
  let ?s = "demo_smp SCHED_OTHER" and ?C = "cpus demo_smp_arch - {0}"
  have "smp_wf demo_smp_arch ?s" by (rule demo_smp_wf) simp
  moreover have "(0 :: nat) \<in> cpus demo_smp_arch" by (simp add: demo_smp_arch_ok)
  moreover have "keeps_wf demo_smp_arch None" by (simp add: keeps_wf_def)
  ultimately obtain n s1 s' where r: "pick_next_smp demo_smp_arch None 0 ?s = Some (Inr (n, s'))"
    "if load s1 0 = 0 then n = idle (rqs s1 0) \<and> load ?s 0 = 0 else least_on 0 s1 n"
    "load s1 0 = 0 \<longrightarrow> (\<forall>d\<in>?C. load ?s d \<le> 1) \<or>
      (\<exists>b\<in>?C. (\<forall>d\<in>?C. load ?s d \<le> load ?s b) \<and> (\<forall>p. \<not> movable demo_smp_arch b 0 ?s p))"
    using idle_only_without_work [OF demo_smp_arch_ok(1)] by blast
  have "load s1 0 \<noteq> 0" using r(3) demo_not_blocked unfolding blocked_def by blast
  moreover have "least_on 0 s1 n" using r(2) calculation by simp
  moreover have "load ?s 0 = 0" by (simp add: demo_load)
  ultimately show ?thesis using r(1) by blast
qed

end
