(* ===== verification/Sched_Locks.thy ===== *)
theory Sched_Locks
  imports Prelude
begin

text \<open>
  HW2, the spin locks of \<^verbatim>\<open>HW2/kernel/sched.c\<close> on several processors: \<open>task_rq_lock\<close>, \<open>this_rq_lock\<close>,
  \<open>double_rq_lock\<close> and \<open>double_lock_balance\<close>, and every function that takes them, cut down to its locks
  and to the sections that change a run queue (\<open>Change\<close>). The processors run such calls in any interleaving. The
  theory shows that the order in which the locks are taken excludes a deadlock. The marks are put in by hand, one
  for each section of the code that changes a run queue; what the code only reads without the lock has none (the
  first search of \<open>load_balance\<close> over the other queues, the counters, the tests of \<open>scheduler_tick\<close>
  before its lock), so nothing is claimed about those reads.
\<close>

subsection \<open>Locks and their order\<close>

datatype lock = Wq nat | Rq nat

text \<open>A wait queue is locked before a run queue, and run queues in the order of their addresses.\<close>

instantiation lock :: linorder
begin

fun less_eq_lock :: "lock \<Rightarrow> lock \<Rightarrow> bool" where
  "less_eq_lock (Wq a) (Wq b) = (a \<le> b)"
| "less_eq_lock (Wq _) (Rq _) = True"
| "less_eq_lock (Rq _) (Wq _) = False"
| "less_eq_lock (Rq a) (Rq b) = (a \<le> b)"

fun less_lock :: "lock \<Rightarrow> lock \<Rightarrow> bool" where
  "less_lock (Wq a) (Wq b) = (a < b)"
| "less_lock (Wq _) (Rq _) = True"
| "less_lock (Rq _) (Wq _) = False"
| "less_lock (Rq a) (Rq b) = (a < b)"

instance
proof
  fix x y z :: lock
  show "(x < y) = (x \<le> y \<and> \<not> y \<le> x)" by (cases x; cases y) auto
  show "x \<le> x" by (cases x) auto
  show "x \<le> y \<Longrightarrow> y \<le> z \<Longrightarrow> x \<le> z" by (cases x; cases y; cases z) auto
  show "x \<le> y \<Longrightarrow> y \<le> x \<Longrightarrow> x = y" by (cases x; cases y) auto
  show "x \<le> y \<or> y \<le> x" by (cases x; cases y) auto
qed

end

subsection \<open>The code, as far as locks go\<close>

text \<open>\<open>Double_lock_balance this busiest\<close> is the test of \<^verbatim>\<open>spin_trylock\<close> with what follows when it fails.\<close>

datatype stmt = Spin_lock lock | Spin_unlock lock | Change nat | Double_lock_balance nat nat

definition trylock_failed :: "nat \<Rightarrow> nat \<Rightarrow> stmt list" where
  "trylock_failed this busiest =
     (if busiest < this then [Spin_unlock (Rq this), Spin_lock (Rq busiest), Spin_lock (Rq this)] else [Spin_lock (Rq busiest)])"

text \<open>The task moves from one of the queues \<open>rs\<close> to the next while its lock is awaited, and stays on \<open>r\<close>.\<close>

definition task_rq_lock :: "nat list \<Rightarrow> nat \<Rightarrow> stmt list" where
  "task_rq_lock rs r = concat (map (\<lambda>q. [Spin_lock (Rq q), Spin_unlock (Rq q)]) rs) @ [Spin_lock (Rq r)]"

definition task_rq_unlock :: "nat \<Rightarrow> stmt list" where
  "task_rq_unlock r = [Spin_unlock (Rq r)]"

definition this_rq_lock :: "nat \<Rightarrow> stmt list" where
  "this_rq_lock c = [Spin_lock (Rq c)]"

definition rq_unlock :: "nat \<Rightarrow> stmt list" where
  "rq_unlock c = [Spin_unlock (Rq c)]"

definition double_rq_lock :: "nat \<Rightarrow> nat \<Rightarrow> stmt list" where
  "double_rq_lock a b =
     (if a = b then [Spin_lock (Rq a)]
      else if a < b then [Spin_lock (Rq a), Spin_lock (Rq b)] else [Spin_lock (Rq b), Spin_lock (Rq a)])"

definition double_rq_unlock :: "nat \<Rightarrow> nat \<Rightarrow> stmt list" where
  "double_rq_unlock a b = Spin_unlock (Rq a) # (if a \<noteq> b then [Spin_unlock (Rq b)] else [])"

text \<open>\<open>load_balance\<close> runs with the lock of its own queue; without a busiest queue it takes no other.\<close>

definition balance_locks :: "nat \<Rightarrow> nat option \<Rightarrow> stmt list" where
  "balance_locks this busiest =
     (case busiest of None \<Rightarrow> []
      | Some b \<Rightarrow> [Double_lock_balance this b, Change b, Change this, Spin_unlock (Rq b)])"

text \<open>The calls. A wake-up holds the lock of the wait queue while it wakes the tasks on it one after the other.\<close>

datatype call =
    On_task "nat list" nat
  | On_this
  | Schedule "nat option"
  | Idle_tick "nat option"
  | Busy_tick "nat option"
  | Take_request
  | Move_task "(nat \<times> nat) list" nat nat
  | Wake_up nat "(nat list \<times> nat) list"
  | Sleep_on nat

definition on_task :: "nat list \<Rightarrow> nat \<Rightarrow> stmt list" where
  "on_task rs r = task_rq_lock rs r @ [Change r] @ task_rq_unlock r"

definition move_task :: "nat \<Rightarrow> nat \<Rightarrow> stmt list" where
  "move_task src dest = double_rq_lock src dest @ [Change src, Change dest] @ double_rq_unlock src dest"

definition balance_section :: "nat \<Rightarrow> nat option \<Rightarrow> stmt list" where
  "balance_section c b = [Spin_lock (Rq c), Change c] @ balance_locks c b @ [Change c, Spin_unlock (Rq c)]"

fun call_code :: "nat \<Rightarrow> call \<Rightarrow> stmt list" where
  "call_code c (On_task rs r) = on_task rs r"
| "call_code c On_this = this_rq_lock c @ [Change c] @ rq_unlock c"
| "call_code c (Schedule b) = balance_section c b"
| "call_code c (Idle_tick b) = balance_section c b"
| "call_code c (Busy_tick b) = balance_section c b"
| "call_code c Take_request = [Spin_lock (Rq c), Change c, Spin_unlock (Rq c)]"
| "call_code c (Move_task retries src dest) =
     concat (map (\<lambda>(a, b). double_rq_lock a b @ double_rq_unlock a b) retries) @ move_task src dest"
| "call_code c (Wake_up q ts) = [Spin_lock (Wq q)] @ concat (map (\<lambda>(rs, r). on_task rs r) ts) @ [Spin_unlock (Wq q)]"
| "call_code c (Sleep_on q) = [Spin_lock (Wq q), Spin_unlock (Wq q)]"

text \<open>The busiest queue is never the own one, as \<open>find_busiest_best\<close> shows of the search.\<close>

fun call_ok :: "nat \<Rightarrow> call \<Rightarrow> bool" where
  "call_ok c (Schedule b) = (b \<noteq> Some c)"
| "call_ok c (Idle_tick b) = (b \<noteq> Some c)"
| "call_ok c (Busy_tick b) = (b \<noteq> Some c)"
| "call_ok c _ = True"

subsection \<open>The processors\<close>

record machine =
  owner :: "lock \<Rightarrow> nat option"
  code :: "nat \<Rightarrow> stmt list"

definition no_calls :: machine where
  "no_calls = \<lparr>owner = (\<lambda>_. None), code = (\<lambda>_. [])\<rparr>"

definition run_to :: "nat \<Rightarrow> stmt list \<Rightarrow> machine \<Rightarrow> machine" where
  "run_to c k s = s\<lparr>code := (code s)(c := k)\<rparr>"

inductive cpu_step :: "nat \<Rightarrow> machine \<Rightarrow> machine \<Rightarrow> bool" for c where
  spin_lock: "code s c = Spin_lock l # k \<Longrightarrow> owner s l = None \<Longrightarrow>
    cpu_step c s (run_to c k (s\<lparr>owner := (owner s)(l := Some c)\<rparr>))"
| spin_unlock: "code s c = Spin_unlock l # k \<Longrightarrow> cpu_step c s (run_to c k (s\<lparr>owner := (owner s)(l := None)\<rparr>))"
| change: "code s c = Change r # k \<Longrightarrow> cpu_step c s (run_to c k s)"
| trylock: "code s c = Double_lock_balance this b # k \<Longrightarrow> owner s (Rq b) = None \<Longrightarrow>
    cpu_step c s (run_to c k (s\<lparr>owner := (owner s)(Rq b := Some c)\<rparr>))"
| trylock_fails: "code s c = Double_lock_balance this b # k \<Longrightarrow> owner s (Rq b) \<noteq> None \<Longrightarrow>
    cpu_step c s (run_to c (trylock_failed this b @ k) s)"

inductive_cases cpu_stepE: "cpu_step c s s'"

inductive machine_step :: "nat \<Rightarrow> machine \<Rightarrow> machine \<Rightarrow> bool" for N where
  goes_on: "c < N \<Longrightarrow> cpu_step c s s' \<Longrightarrow> machine_step N s s'"
| calls: "c < N \<Longrightarrow> code s c = [] \<Longrightarrow> call_ok c x \<Longrightarrow> machine_step N s (run_to c (call_code c x) s)"

lemma run_to_sel [simp]: "owner (run_to c k s) = owner s" "code (run_to c k s) = (code s)(c := k)"
  by (simp_all add: run_to_def)

subsection \<open>What the code needs\<close>

text \<open>The locks held before a statement are given by the code that is left.\<close>

fun need :: "stmt list \<Rightarrow> lock set" where
  "need [] = {}"
| "need (Spin_lock l # k) = need k - {l}"
| "need (Spin_unlock l # k) = insert l (need k)"
| "need (Change r # k) = need k"
| "need (Double_lock_balance this b # k) = need k - {Rq b}"

text \<open>A lock is waited for only by one who holds smaller ones.\<close>

fun disciplined :: "stmt list \<Rightarrow> bool" where
  "disciplined [] = True"
| "disciplined (Spin_lock l # k) = (l \<in> need k \<and> (\<forall>h\<in>need k - {l}. h < l) \<and> disciplined k)"
| "disciplined (Spin_unlock l # k) = (l \<notin> need k \<and> disciplined k)"
| "disciplined (Change r # k) = (Rq r \<in> need k \<and> disciplined k)"
| "disciplined (Double_lock_balance this b # k) = (this \<noteq> b \<and> need k = {Rq this, Rq b} \<and> disciplined k)"

lemma trylock_failed_ok:
  assumes "disciplined (Double_lock_balance this b # k)"
  shows "disciplined (trylock_failed this b @ k)" "need (trylock_failed this b @ k) = need (Double_lock_balance this b # k)"
proof -
  have k: "this \<noteq> b" "need k = {Rq this, Rq b}" "disciplined k" using assms by simp_all
  show "disciplined (trylock_failed this b @ k)"
    using k(1,3) by (cases "b < this") (auto simp: trylock_failed_def k(2))
  show "need (trylock_failed this b @ k) = need (Double_lock_balance this b # k)"
    using k(1) by (cases "b < this") (auto simp: trylock_failed_def k(2))
qed

text \<open>A stretch of code that takes locks above all those held, and gives them back.\<close>

definition balanced :: "lock set \<Rightarrow> stmt list \<Rightarrow> bool" where
  "balanced H p \<longleftrightarrow> (\<forall>k. need k = H \<longrightarrow> disciplined k \<longrightarrow> need (p @ k) = H \<and> disciplined (p @ k))"

lemma balanced_Nil: "balanced H []"
  by (simp add: balanced_def)

lemma balanced_append: "balanced H p \<Longrightarrow> balanced H q \<Longrightarrow> balanced H (p @ q)"
  unfolding balanced_def by simp

lemma balanced_concat: "(\<And>p. p \<in> set ps \<Longrightarrow> balanced H p) \<Longrightarrow> balanced H (concat ps)"
  by (induction ps) (simp_all add: balanced_Nil balanced_append)

lemma balanced_pair: "Rq q \<notin> H \<Longrightarrow> \<forall>h\<in>H. h < Rq q \<Longrightarrow> balanced H [Spin_lock (Rq q), Spin_unlock (Rq q)]"
  by (simp add: balanced_def)

lemma balanced_one: "Rq q \<notin> H \<Longrightarrow> \<forall>h\<in>H. h < Rq q \<Longrightarrow> balanced H [Spin_lock (Rq q), Change q, Spin_unlock (Rq q)]"
  by (simp add: balanced_def)

lemma balanced_on_task:
  assumes "\<And>h r. h \<in> H \<Longrightarrow> h < Rq r"
  shows "balanced H (on_task rs r)"
proof -
  have a: "\<forall>h\<in>H. h < Rq q" for q using assms by blast
  have n: "Rq q \<notin> H" for q using a [of q] order.irrefl [of "Rq q"] by blast
  have "balanced H [Spin_lock (Rq q), Spin_unlock (Rq q)]" for q by (rule balanced_pair [OF n a])
  then have "balanced H (concat (map (\<lambda>q. [Spin_lock (Rq q), Spin_unlock (Rq q)]) rs))" by (intro balanced_concat) auto
  moreover have "balanced H [Spin_lock (Rq r), Change r, Spin_unlock (Rq r)]" by (rule balanced_one [OF n a])
  ultimately have "balanced H (concat (map (\<lambda>q. [Spin_lock (Rq q), Spin_unlock (Rq q)]) rs) @ [Spin_lock (Rq r), Change r, Spin_unlock (Rq r)])"
    by (rule balanced_append)
  then show ?thesis by (simp add: on_task_def task_rq_lock_def task_rq_unlock_def)
qed

lemma balanced_double:
  "balanced {} (double_rq_lock a b @ double_rq_unlock a b)" "balanced {} (move_task a b)"
  by (auto simp: balanced_def double_rq_lock_def double_rq_unlock_def move_task_def)

lemma balanced_balance: "b \<noteq> Some c \<Longrightarrow> balanced {} (balance_section c b)"
  by (auto simp: balanced_def balance_section_def balance_locks_def split: option.splits)

lemma balanced_wake_up: "balanced {} (call_code c (Wake_up q ts))"
proof -
  have "balanced {Wq q} (concat (map (\<lambda>(rs, r). on_task rs r) ts))" by (intro balanced_concat) (auto intro!: balanced_on_task)
  then show ?thesis unfolding balanced_def by simp
qed

lemma call_disciplined:
  assumes "call_ok c x"
  shows "disciplined (call_code c x)" "need (call_code c x) = {}"
proof -
  have "balanced {} (call_code c x)"
  proof (cases x)
    case (Move_task retries src dest)
    have "balanced {} (concat (map (\<lambda>(a, b). double_rq_lock a b @ double_rq_unlock a b) retries))"
      by (intro balanced_concat) (auto simp: balanced_double)
    then show ?thesis by (simp add: Move_task balanced_append balanced_double)
  next
    case (Wake_up q ts)
    show ?thesis unfolding Wake_up by (rule balanced_wake_up)
  next
    case (On_task rs r)
    have "balanced {} (on_task rs r)" by (rule balanced_on_task) simp
    then show ?thesis by (simp add: On_task)
  next
    case On_this
    show ?thesis by (simp add: On_this balanced_def this_rq_lock_def rq_unlock_def)
  next
    case Take_request
    show ?thesis by (simp add: Take_request balanced_def)
  next
    case (Sleep_on q)
    show ?thesis by (simp add: Sleep_on balanced_def)
  qed (use assms in \<open>simp_all add: balanced_balance\<close>)
  then have "\<forall>k. need k = {} \<longrightarrow> disciplined k \<longrightarrow> need (call_code c x @ k) = {} \<and> disciplined (call_code c x @ k)"
    unfolding balanced_def .
  from this [THEN spec, of "[]"] show "disciplined (call_code c x)" "need (call_code c x) = {}" by simp_all
qed

subsection \<open>The invariant\<close>

definition locks_ok :: "machine \<Rightarrow> bool" where
  "locks_ok s \<longleftrightarrow> (\<forall>c. disciplined (code s c) \<and> (\<forall>l. owner s l = Some c \<longleftrightarrow> l \<in> need (code s c)))"

lemma locks_okD:
  assumes "locks_ok s"
  shows "disciplined (code s c)" "owner s l = Some c \<longleftrightarrow> l \<in> need (code s c)"
  using assms unfolding locks_ok_def by blast+

lemma locks_ok_step:
  assumes ok: "locks_ok s" and st: "cpu_step c s s'"
  shows "locks_ok s'"
proof -
  note D = locks_okD [OF ok]
  have other: "code s' d = code s d" if "d \<noteq> c" for d using st that by cases simp_all
  have own: "disciplined (code s' c) \<and> (\<forall>l. owner s' l = Some c \<longleftrightarrow> l \<in> need (code s' c))"
    using st
  proof cases
    case (trylock_fails this b k)
    then show ?thesis using D(1) [of c] D(2) [of _ c] trylock_failed_ok [of this b k] by simp
  qed (use D(1) [of c] D(2) [of _ c] in \<open>auto split: if_splits\<close>)
  have rest: "owner s' l = Some d \<longleftrightarrow> owner s l = Some d" if "d \<noteq> c" for d l
    using st
  proof cases
    case (spin_unlock l' k)
    then have "owner s l' = Some c" using D(2) [of l' c] by simp
    then show ?thesis using spin_unlock that by auto
  qed (use that in auto)
  show ?thesis unfolding locks_ok_def
  proof
    fix d
    show "disciplined (code s' d) \<and> (\<forall>l. owner s' l = Some d \<longleftrightarrow> l \<in> need (code s' d))"
      using own other [of d] rest [of d] D by (cases "d = c") auto
  qed
qed

lemma locks_ok_call: "locks_ok s \<Longrightarrow> code s c = [] \<Longrightarrow> call_ok c x \<Longrightarrow> locks_ok (run_to c (call_code c x) s)"
  using call_disciplined [of c x] locks_okD(2) [of s _ c] by (auto simp: locks_ok_def)

definition lock_inv :: "nat \<Rightarrow> machine \<Rightarrow> bool" where
  "lock_inv N s \<longleftrightarrow> locks_ok s \<and> (\<forall>c\<ge>N. code s c = [])"

interpretation lk: invariant_relation "machine_step N" "lock_inv N" for N
proof
  fix s s'
  assume st: "machine_step N s s'" and inv: "lock_inv N s"
  then have ok: "locks_ok s" "\<And>c. N \<le> c \<Longrightarrow> code s c = []" by (auto simp: lock_inv_def)
  have "locks_ok s' \<and> (\<forall>c\<ge>N. code s' c = code s c)" using st
  proof cases
    case (goes_on c)
    then have "\<forall>d\<ge>N. code s' d = code s d" by (auto elim!: cpu_stepE)
    then show ?thesis using locks_ok_step [OF ok(1) goes_on(2)] by simp
  next
    case (calls c x)
    then show ?thesis using locks_ok_call [OF ok(1) calls(3,4)] by auto
  qed
  then show "lock_inv N s'" using ok(2) by (simp add: lock_inv_def)
qed

lemma lock_inv_no_calls: "lock_inv N no_calls"
  by (simp add: lock_inv_def locks_ok_def no_calls_def)

subsection \<open>No deadlock\<close>

text \<open>The lock a processor waits for, if it does.\<close>

definition waits_for :: "machine \<Rightarrow> nat \<Rightarrow> lock \<Rightarrow> bool" where
  "waits_for s c l \<longleftrightarrow> (\<exists>k. code s c = Spin_lock l # k) \<and> owner s l \<noteq> None"

lemma goes_or_waits: "code s c = [] \<or> (\<exists>s'. cpu_step c s s') \<or> (\<exists>l. waits_for s c l)"
proof (cases "code s c")
  case (Cons x k)
  show ?thesis
  proof (cases x)
    case (Spin_lock l)
    then show ?thesis using Cons by (cases "owner s l") (auto simp: waits_for_def intro: cpu_step.spin_lock)
  next
    case (Double_lock_balance this b)
    then show ?thesis using Cons
      by (cases "owner s (Rq b)") (metis cpu_step.trylock, metis cpu_step.trylock_fails option.distinct(1))
  qed (use Cons in \<open>metis cpu_step.spin_unlock cpu_step.change\<close>)+
qed simp

text \<open>Who waits for a lock waits for someone who holds it, and that one, if it waits, waits for a larger lock.\<close>

lemma waits_for_larger:
  assumes ok: "locks_ok s" and w: "waits_for s c l" and d: "owner s l = Some d"
  shows "code s d \<noteq> []" "d \<noteq> c" "waits_for s d l' \<Longrightarrow> l < l'"
proof -
  have n: "l \<in> need (code s d)" using locks_okD(2) [OF ok] d by simp
  then show "code s d \<noteq> []" by auto
  obtain k where k: "code s c = Spin_lock l # k" using w by (auto simp: waits_for_def)
  then show "d \<noteq> c" using n by auto
  assume "waits_for s d l'"
  then obtain k' where k': "code s d = Spin_lock l' # k'" by (auto simp: waits_for_def)
  then show "l < l'" using n locks_okD(1) [OF ok, of d] by simp
qed

lemma someone_goes_on:
  assumes inv: "lock_inv N s" and c: "code s c \<noteq> []"
  shows "\<exists>d<N. \<exists>s'. cpu_step d s s'"
proof (rule ccontr)
  assume none: "\<not> (\<exists>d<N. \<exists>s'. cpu_step d s s')"
  have ok: "locks_ok s" and N: "\<And>d. code s d \<noteq> [] \<Longrightarrow> d < N" using inv by (auto simp: lock_inv_def not_less [symmetric])
  have wait: "\<exists>l. waits_for s d l" if "code s d \<noteq> []" for d using goes_or_waits [of s d] that N [OF that] none by blast
  define L where "L = {l. \<exists>d. waits_for s d l}"
  have u: "l = l'" if "waits_for s d l" "waits_for s d l'" for d l l' using that by (auto simp: waits_for_def)
  have "L \<subseteq> (\<lambda>d. THE l. waits_for s d l) ` {..<N}"
  proof
    fix l assume "l \<in> L"
    then obtain d where d: "waits_for s d l" by (auto simp: L_def)
    then have "(THE l. waits_for s d l) = l" "d < N" using u N [of d] by (auto simp: waits_for_def)
    then show "l \<in> (\<lambda>d. THE l. waits_for s d l) ` {..<N}" by (metis image_eqI lessThan_iff)
  qed
  then have fin: "finite L" using finite_surj by blast
  obtain l0 where "l0 \<in> L" using wait [OF c] by (auto simp: L_def)
  then have "Max L \<in> L" using fin Max_in by blast
  then obtain d where d: "waits_for s d (Max L)" by (auto simp: L_def)
  then obtain e where e: "owner s (Max L) = Some e" by (auto simp: waits_for_def)
  obtain l' where l': "waits_for s e l'" using wait waits_for_larger(1) [OF ok d e] by blast
  then have "Max L < l'" by (rule waits_for_larger(3) [OF ok d e])
  moreover have "l' \<le> Max L" using l' fin by (intro Max_ge) (auto simp: L_def)
  ultimately show False by simp
qed

text \<open>Without new calls, every statement is work done.\<close>

fun stmt_work :: "stmt \<Rightarrow> nat" where
  "stmt_work (Double_lock_balance this b) = 4"
| "stmt_work _ = 1"

definition work :: "nat \<Rightarrow> machine \<Rightarrow> nat" where
  "work N s = (\<Sum>c<N. sum_list (map stmt_work (code s c)))"

lemma lock_work_decreases:
  assumes "cpu_step c s s'" "c < N"
  shows "work N s' < work N s"
proof -
  let ?w = "\<lambda>s c. sum_list (map stmt_work (code s c))"
  have "?w s' c < ?w s c" using assms(1) by cases (auto simp: trylock_failed_def)
  moreover have "?w s' d \<le> ?w s d" if "d \<noteq> c" for d using assms(1) that by cases simp_all
  ultimately show ?thesis unfolding work_def using assms(2)
    by (intro sum_strict_mono_ex1) (auto intro: less_imp_le, metis less_imp_le)
qed

lemma no_endless_work: "\<not> (\<exists>f. \<forall>i. \<exists>c<N. cpu_step c (f i) (f (Suc i)))"
proof
  assume "\<exists>f. \<forall>i. \<exists>c<N. cpu_step c (f i) (f (Suc i))"
  then obtain f where "\<And>i. \<exists>c<N. cpu_step c (f i) (f (Suc i))" by blast
  then have "\<And>i. work N (f (Suc i)) < work N (f i)" using lock_work_decreases by blast
  then have "\<forall>i. (f (Suc i), f i) \<in> measure (work N)" by simp
  then show False using wf_measure wf_iff_no_infinite_down_chain by metis
qed

subsection \<open>Properties\<close>

lemma reachable_inv: "(machine_step N)\<^sup>*\<^sup>* no_calls s \<Longrightarrow> lock_inv N s"
  by (rule lk.run_inv [OF _ lock_inv_no_calls])

definition two_calls :: machine where
  "two_calls = run_to 1 (call_code 1 (Move_task [] 1 0)) (run_to 0 (call_code 0 (Schedule (Some 1))) no_calls)"

lemma two_calls_reached: "(machine_step 2)\<^sup>*\<^sup>* no_calls two_calls"
proof -
  let ?s = "run_to 0 (call_code 0 (Schedule (Some 1))) no_calls"
  have "machine_step 2 no_calls ?s" by (rule machine_step.calls) (simp_all add: no_calls_def)
  moreover have "machine_step 2 ?s two_calls"
    unfolding two_calls_def by (rule machine_step.calls) (simp_all add: no_calls_def)
  ultimately show ?thesis by (meson rtranclp.rtrancl_into_rtrancl rtranclp.rtrancl_refl)
qed

text \<open>A processor is inside a marked section only with the lock of the run queue it changes, releases only locks it
  holds, never waits for a lock it holds itself, and holds none when it has left the scheduler.\<close>
lemma marked_sections_locked:
  assumes "(machine_step N)\<^sup>*\<^sup>* no_calls s"
  shows "(\<forall>c r k. code s c = Change r # k \<longrightarrow> owner s (Rq r) = Some c) \<and>
    (\<forall>c l k. code s c = Spin_unlock l # k \<longrightarrow> owner s l = Some c) \<and>
    (\<forall>c l k. code s c = Spin_lock l # k \<longrightarrow> owner s l \<noteq> Some c) \<and>
    (\<forall>c l. code s c = [] \<longrightarrow> owner s l \<noteq> Some c)"
proof -
  have "locks_ok s" using reachable_inv [OF assms] by (simp add: lock_inv_def)
  note D = locks_okD [OF this]
  have "owner s (Rq r) = Some c" if "code s c = Change r # k" for c r k using D(1) [of c] D(2) [of _ c] that by simp
  moreover have "owner s l = Some c" if "code s c = Spin_unlock l # k" for c l k using D(2) [of l c] that by simp
  moreover have "owner s l \<noteq> Some c" if "code s c = Spin_lock l # k" for c l k using D(2) [of l c] that by simp
  moreover have "owner s l \<noteq> Some c" if "code s c = []" for c l using D(2) [of l c] that by simp
  ultimately show ?thesis by blast
qed

theorem marked_sections_locked_witness:
  "\<exists>s. (machine_step 2)\<^sup>*\<^sup>* no_calls s \<and> hd (code s 0) = Change 0 \<and> hd (code s 1) = Spin_lock (Rq 0) \<and> owner s (Rq 0) = Some 0"
proof -
  obtain k where k: "code two_calls 0 = Spin_lock (Rq 0) # Change 0 # k"
    by (simp add: two_calls_def balance_section_def)
  define s where "s = run_to 0 (Change 0 # k) (two_calls\<lparr>owner := (owner two_calls)(Rq 0 := Some 0)\<rparr>)"
  have "owner two_calls (Rq 0) = None" by (simp add: two_calls_def no_calls_def)
  then have "machine_step 2 two_calls s"
    unfolding s_def by (intro machine_step.goes_on [where c = 0] cpu_step.spin_lock k) simp
  then have r: "(machine_step 2)\<^sup>*\<^sup>* no_calls s" using two_calls_reached by (rule rtranclp.rtrancl_into_rtrancl [rotated])
  have "code s 0 = Change 0 # k" by (simp add: s_def)
  then have "owner s (Rq 0) = Some 0" using marked_sections_locked [OF r] by blast
  moreover have "hd (code s 1) = Spin_lock (Rq 0)" by (simp add: s_def two_calls_def move_task_def double_rq_lock_def)
  ultimately show ?thesis using r \<open>code s 0 = Change 0 # k\<close> by auto
qed

text \<open>C14: The locks of the scheduler never deadlock. In every reachable state in which some processor is inside a
  call, one of them can go on; and no run goes on for ever without a new call. So all calls that were made return
  once the processors go on, and then every lock is free. The order of the locks in \<open>double_rq_lock\<close> and the
  release of the own lock in \<open>double_lock_balance\<close> are what makes this true.\<close>
theorem scheduler_never_deadlocks:
  assumes "(machine_step N)\<^sup>*\<^sup>* no_calls s"
  shows "((\<exists>c<N. \<exists>s'. cpu_step c s s') \<or> (\<forall>c. code s c = []) \<and> (\<forall>l. owner s l = None)) \<and>
    \<not> (\<exists>f. f 0 = s \<and> (\<forall>i. \<exists>c<N. cpu_step c (f i) (f (Suc i))))"
proof -
  have inv: "lock_inv N s" by (rule reachable_inv [OF assms])
  have "owner s l = None" if "\<forall>c. code s c = []" for l
    using locks_okD(2) [of s l] inv that by (cases "owner s l") (auto simp: lock_inv_def)
  then have "(\<exists>c<N. \<exists>s'. cpu_step c s s') \<or> (\<forall>c. code s c = []) \<and> (\<forall>l. owner s l = None)"
    using someone_goes_on [OF inv] by blast
  moreover have "\<not> (\<exists>f. f 0 = s \<and> (\<forall>i. \<exists>c<N. cpu_step c (f i) (f (Suc i))))" using no_endless_work by blast
  ultimately show ?thesis by blast
qed

theorem scheduler_never_deadlocks_witness:
  "((\<exists>c<2. \<exists>s'. cpu_step c two_calls s') \<or> (\<forall>c. code two_calls c = []) \<and> (\<forall>l. owner two_calls l = None)) \<and>
    \<not> (\<exists>f. f 0 = two_calls \<and> (\<forall>i. \<exists>c<2. cpu_step c (f i) (f (Suc i))))"
  by (rule scheduler_never_deadlocks [OF two_calls_reached])

end
