(* ===== verification/Sched_Latency.thy ===== *)
theory Sched_Latency
  imports Sched_Core
begin

text \<open>
  HW2, the low-latency part of \<^verbatim>\<open>HW2/kernel/sched.c\<close>: \<open>set_running_and_schedule\<close> (without debugging) and the
  copies in chunks, \<open>ll_copy_to_user\<close> and \<open>ll_copy_from_user\<close>, whose loops are the same. The copy of a chunk and
  \<^verbatim>\<open>conditional_schedule\<close> are not in the repository and are arguments, over a memory of any type.
\<close>

definition set_running :: "sched \<Rightarrow> sched" where
  "set_running s = (if state (tasks s (current s)) \<noteq> TASK_RUNNING
     then upd_task (current s) (\<lambda>t. t\<lparr>state := TASK_RUNNING\<rparr>) s else s)"

definition set_running_and_schedule :: "arch \<Rightarrow> sched \<Rightarrow> (fault + sched) option" where
  "set_running_and_schedule A s = schedule A (set_running s)"

type_synonym 'm user_copy = "u32 \<Rightarrow> u32 \<Rightarrow> u32 \<Rightarrow> 'm \<Rightarrow> u32 \<times> 'm"

definition chunk :: "u32 \<Rightarrow> u32" where
  "chunk len = (if len > 4096 then 4096 else len)"

lemma chunk_le: "chunk len \<le> len"
  by (auto simp: chunk_def)

lemma chunk_progress: "len \<noteq> 0 \<Longrightarrow> unat (len - chunk len) < unat len"
  using chunk_le [of len] by (simp add: unat_sub word_le_nat_alt) (simp add: chunk_def unat_gt_0 word_less_nat_alt)

function ll_copy :: "'m user_copy \<Rightarrow> ('m \<Rightarrow> 'm) \<Rightarrow> u32 \<Rightarrow> u32 \<Rightarrow> u32 \<Rightarrow> 'm \<Rightarrow> int \<times> 'm" where
  "ll_copy copy resched dst src len m =
     (if len = 0 then (0, m)
      else let n = chunk len; (r, m1) = copy dst src n m in
        if r \<noteq> 0 then (sint (r + len), m1) else ll_copy copy resched (dst + n) (src + n) (len - n) (resched m1))"
  by pat_completeness auto
termination by (relation "measure (\<lambda>(_, _, _, _, len, _). unat len)") (auto simp: chunk_progress)

declare ll_copy.simps [simp del]

definition ll_copy_to_user :: "'m user_copy \<Rightarrow> ('m \<Rightarrow> 'm) \<Rightarrow> u32 \<Rightarrow> u32 \<Rightarrow> u32 \<Rightarrow> 'm \<Rightarrow> int \<times> 'm" where
  "ll_copy_to_user copy_to_user = ll_copy copy_to_user"

definition ll_copy_from_user :: "'m user_copy \<Rightarrow> ('m \<Rightarrow> 'm) \<Rightarrow> u32 \<Rightarrow> u32 \<Rightarrow> u32 \<Rightarrow> 'm \<Rightarrow> int \<times> 'm" where
  "ll_copy_from_user copy_from_user = ll_copy copy_from_user"

text \<open>The same loop with a count that is right: the rest of the chunk and all that comes after it.\<close>

function left_over :: "'m user_copy \<Rightarrow> ('m \<Rightarrow> 'm) \<Rightarrow> u32 \<Rightarrow> u32 \<Rightarrow> u32 \<Rightarrow> 'm \<Rightarrow> int" where
  "left_over copy resched dst src len m =
     (if len = 0 then 0
      else let n = chunk len; (r, m1) = copy dst src n m in
        if r \<noteq> 0 then uint r + uint (len - n) else left_over copy resched (dst + n) (src + n) (len - n) (resched m1))"
  by pat_completeness auto
termination by (relation "measure (\<lambda>(_, _, _, _, len, _). unat len)") (auto simp: chunk_progress)

declare left_over.simps [simp del]

definition copy_ok :: "'m user_copy \<Rightarrow> bool" where
  "copy_ok copy \<longleftrightarrow> (\<forall>dst src n m. fst (copy dst src n m) \<le> n)"

lemma sint_sum:
  assumes "r \<le> chunk len" "uint len < 2 ^ 31 - 4096"
  shows "sint (r + len) = uint r + uint len"
proof -
  have "chunk len \<le> 4096" by (auto simp: chunk_def)
  then have "r \<le> 4096" using assms(1) by (rule order.trans [rotated])
  then have r: "uint r \<le> 4096" by (simp add: word_le_def)
  have nn: "0 \<le> uint r" "0 \<le> uint len" by simp_all
  have u: "uint (r + len) = uint r + uint len" using r nn assms(2) by (simp add: uint_word_ariths)
  have "uint (r + len) < 2 ^ 31" "0 \<le> uint (r + len)" unfolding u using r assms(2) by simp_all
  then have "signed_take_bit 31 (uint (r + len)) = uint (r + len)" by (intro signed_take_bit_int_eq_self) linarith+
  then show ?thesis using u by (simp add: sint_uint)
qed

text \<open>The result is zero exactly when nothing is left; otherwise it is more than what is left, because the chunk that
  failed is counted twice.\<close>

theorem ll_copy_counts_chunk_twice:
  "copy_ok copy \<Longrightarrow> uint len < 2 ^ 31 - 4096 \<Longrightarrow>
     left_over copy resched dst src len m = 0 \<and> fst (ll_copy copy resched dst src len m) = 0 \<or>
     0 < left_over copy resched dst src len m \<and> left_over copy resched dst src len m < fst (ll_copy copy resched dst src len m)"
proof (induction copy resched dst src len m rule: ll_copy.induct)
  case (1 copy resched dst src len m)
  show ?case
  proof (cases "len = 0")
    case True
    then show ?thesis by (simp add: ll_copy.simps [of _ _ _ _ 0] left_over.simps [of _ _ _ _ 0])
  next
    case False
    obtain r m1 where r: "copy dst src (chunk len) m = (r, m1)" by fastforce
    have le: "uint (len - chunk len) = uint len - uint (chunk len)" using chunk_le [of len] by (simp add: uint_sub_if_size word_le_def)
    have "chunk len \<noteq> 0" using False by (simp add: chunk_def)
    then have n: "0 < uint (chunk len)" by (simp add: word_neq_0_conv word_less_def)
    show ?thesis
    proof (cases "r = 0")
      case True
      have "uint (len - chunk len) < 2 ^ 31 - 4096" using 1(3) le n by simp
      then show ?thesis using 1(1) [OF False refl r [symmetric] refl] 1(2) False True r
        by (simp add: ll_copy.simps [of copy _ _ _ len] left_over.simps [of copy _ _ _ len] Let_def)
    next
      case r0: False
      have "r \<le> chunk len" using 1(2) r unfolding copy_ok_def by (metis fst_conv)
      then have "fst (ll_copy copy resched dst src len m) = uint r + uint len"
        using False r r0 sint_sum [OF _ 1(3)] by (simp add: ll_copy.simps [of copy _ _ _ len])
      moreover have "left_over copy resched dst src len m = uint r + uint (len - chunk len)"
        using False r r0 by (simp add: left_over.simps [of copy _ _ _ len])
      moreover have "0 < uint r" using r0 by (simp add: word_neq_0_conv word_less_def)
      moreover have "0 \<le> uint (len - chunk len)" by simp
      ultimately show ?thesis unfolding le using n by linarith
    qed
  qed
qed

end
