(* ===== verification/Sched_Show.thy ===== *)
theory Sched_Show
  imports Prelude
begin

text \<open>
  HW2, \<open>render_sigset_t\<close> of \<^verbatim>\<open>HW2/kernel/sched.c\<close>: a set of signals as hexadecimal digits. The set is the predicate
  \<^verbatim>\<open>sigismember\<close>, the buffer the text written into it (without the final null), and the number of signals
  \<^verbatim>\<open>_NSIG\<close>, at least 4, an argument.
\<close>

unbundle bit_operations_syntax

definition nibble :: "(nat \<Rightarrow> bool) \<Rightarrow> nat \<Rightarrow> nat" where
  "nibble member i = (let x0 = 0;
     x1 = (if member (i + 1) then x0 OR 1 else x0);
     x2 = (if member (i + 2) then x1 OR 2 else x1);
     x3 = (if member (i + 3) then x2 OR 4 else x2)
     in if member (i + 4) then x3 OR 8 else x3)"

definition hex_digit :: "nat \<Rightarrow> char" where
  "hex_digit x = char_of ((if x < 10 then 48 else 97 - 10) + x)"

function render_sigset_t :: "(nat \<Rightarrow> bool) \<Rightarrow> nat \<Rightarrow> string" where
  "render_sigset_t member i =
     (let i1 = i - 4 in hex_digit (nibble member i1) # (if i1 \<ge> 4 then render_sigset_t member i1 else []))"
  by pat_completeness auto
termination by (relation "measure snd") auto

declare render_sigset_t.simps [simp del]

lemma nibble_eq:
  "nibble s i = nibble t i \<longleftrightarrow> (\<forall>n\<in>{i<..i + 4}. s n = t n)"
proof -
  have "{i<..i + 4} = {i + 1, i + 2, i + 3, i + 4}" by auto
  then have "(\<forall>n\<in>{i<..i + 4}. s n = t n) \<longleftrightarrow>
      s (i + 1) = t (i + 1) \<and> s (i + 2) = t (i + 2) \<and> s (i + 3) = t (i + 3) \<and> s (i + 4) = t (i + 4)"
    by simp
  moreover have "nibble s i = nibble t i \<longleftrightarrow>
      s (i + 1) = t (i + 1) \<and> s (i + 2) = t (i + 2) \<and> s (i + 3) = t (i + 3) \<and> s (i + 4) = t (i + 4)"
    by (cases "s (i + 1)"; cases "s (i + 2)"; cases "s (i + 3)"; cases "s (i + 4)"; cases "t (i + 1)"; cases "t (i + 2)"; cases "t (i + 3)";
        cases "t (i + 4)") (simp_all add: nibble_def)
  ultimately show ?thesis by simp
qed

lemma nibble_lt: "nibble s i < 16"
  by (cases "s (i + 1)"; cases "s (i + 2)"; cases "s (i + 3)"; cases "s (i + 4)") (simp_all add: nibble_def)

lemma hex_digit_inj: "x < 16 \<Longrightarrow> y < 16 \<Longrightarrow> hex_digit x = hex_digit y \<longleftrightarrow> x = y"
proof -
  assume b: "x < 16" "y < 16"
  have "of_char (hex_digit z) = (if z < 10 then 48 else 87) + z" if "z < 16" for z
    using that by (simp add: hex_digit_def)
  then have "hex_digit x = hex_digit y \<Longrightarrow> (if x < 10 then 48 else 87) + x = (if y < 10 then 48 else 87) + y"
    using b by metis
  then show ?thesis using b by (auto split: if_splits)
qed

text \<open>The digits determine the set.\<close>

theorem render_sigset_faithful:
  "0 < k \<Longrightarrow> render_sigset_t s (4 * k) = render_sigset_t t (4 * k) \<longleftrightarrow> (\<forall>n\<in>{0<..4 * k}. s n = t n)"
proof (induction k)
  case (Suc k)
  have r: "render_sigset_t u (4 * Suc k) = hex_digit (nibble u (4 * k)) # (if 0 < k then render_sigset_t u (4 * k) else [])" for u
    by (subst render_sigset_t.simps) (auto simp: Let_def)
  have h: "hex_digit (nibble s (4 * k)) = hex_digit (nibble t (4 * k)) \<longleftrightarrow> (\<forall>n\<in>{4 * k<..4 * k + 4}. s n = t n)"
    by (simp add: hex_digit_inj nibble_lt nibble_eq)
  show ?case
  proof (cases "0 < k")
    case True
    have "render_sigset_t s (4 * Suc k) = render_sigset_t t (4 * Suc k) \<longleftrightarrow>
        (\<forall>n\<in>{4 * k<..4 * k + 4}. s n = t n) \<and> (\<forall>n\<in>{0<..4 * k}. s n = t n)"
      unfolding r using Suc.IH [OF True] True h by simp
    also have "\<dots> \<longleftrightarrow> (\<forall>n\<in>{4 * k<..4 * k + 4} \<union> {0<..4 * k}. s n = t n)" by blast
    also have "{4 * k<..4 * k + 4} \<union> {0<..4 * k} = {0<..4 * Suc k}" by auto
    finally show ?thesis .
  next
    case False
    then show ?thesis unfolding r using h by simp
  qed
qed simp

end
