(* ===== verification/Life_Text.thy ===== *)
theory Life_Text
  imports Prelude
begin

text \<open>
  HW3, the text side of the Game of Life: \<^verbatim>\<open>HW3/utils.cpp\<close> (reading lines, splitting them, repeating
  strings) and the conversion of tokens to cells of \<^verbatim>\<open>HW3/Game.cpp\<close>. Strings are character lists; a
  stream is the characters left in it. \<open>text_of\<close> is the format the program expects; reading it back
  gives the board.
\<close>

subsection \<open>getline\<close>

text \<open>
  \<^verbatim>\<open>getline\<close> of the standard library: the characters up to the delimiter, which is consumed; it fails
  when nothing is left.
\<close>

definition getline :: "char \<Rightarrow> string \<Rightarrow> (string \<times> string) option" where
  "getline d s = (if s = [] then None
     else Some (takeWhile (\<lambda>c. c \<noteq> d) s, drop 1 (dropWhile (\<lambda>c. c \<noteq> d) s)))"

lemma getline_shorter: "getline d s = Some (t, r) \<Longrightarrow> length r < length s"
proof -
  assume "getline d s = Some (t, r)"
  then have r: "r = drop 1 (dropWhile (\<lambda>c. c \<noteq> d) s)" and s: "s \<noteq> []" by (auto simp: getline_def split: if_splits)
  have "length (dropWhile (\<lambda>c. c \<noteq> d) s) \<le> length s" by (rule length_dropWhile_le)
  with r s show ?thesis by (cases s) auto
qed

text \<open>The loop \<^verbatim>\<open>while (getline(...)) push_back\<close>.\<close>

function getlines :: "char \<Rightarrow> string \<Rightarrow> string list" where
  "getlines d s = (case getline d s of None \<Rightarrow> [] | Some (t, r) \<Rightarrow> t # getlines d r)"
  by pat_completeness auto
termination by (relation "measure (\<lambda>(d, s). length s)") (auto dest: getline_shorter)

declare getlines.simps [simp del]

definition split_on :: "string \<Rightarrow> char \<Rightarrow> string list" where
  "split_on s delimiter = getlines delimiter s"

text \<open>\<open>read_lines\<close>: \<open>None\<close> when the file cannot be opened and the process exits.\<close>

definition read_lines :: "string option \<Rightarrow> string list option" where
  "read_lines file = (case file of None \<Rightarrow> None
     | Some text \<Rightarrow> Some (filter (\<lambda>curr. 0 < length curr) (getlines (CHR 0x0A) text)))"

definition vstring_to_vbool :: "string list \<Rightarrow> bool list" where
  "vstring_to_vbool arg = concat (map (\<lambda>it. if it = ''0'' then [False] else if it = ''1'' then [True] else []) arg)"

subsection \<open>repeat\<close>

text \<open>The doubling loop: \<open>str\<close> holds \<open>m / 2\<close> copies.\<close>

function repeat_loop :: "string \<Rightarrow> nat \<Rightarrow> nat \<Rightarrow> string \<times> nat" where
  "repeat_loop str m n = (if 0 < m \<and> m < n then repeat_loop (str @ str) (m * 2) n else (str, m))"
  by pat_completeness auto
termination by (relation "measure (\<lambda>(str, m, n). n - m)") auto

declare repeat_loop.simps [simp del]

definition repeat_str :: "string \<Rightarrow> nat \<Rightarrow> string" where
  "repeat_str str n =
     (if n = 0 then []
      else if n = 1 \<or> str = [] then str
      else let period = length str in
        if period = 1 then str @ replicate (n - 1) (hd str)
        else (case repeat_loop str 2 n of (str1, m) \<Rightarrow> str1 @ take ((n - m div 2) * period) str1))"

lemma repeat_loop_copies:
  assumes "0 < k" "k \<le> n"
  shows "\<exists>j. repeat_loop (concat (replicate k s)) (k * 2) n = (concat (replicate j s), j * 2) \<and> j \<le> n \<and> n \<le> j * 2"
  using assms
proof (induction "n - k" arbitrary: k rule: less_induct)
  case less
  show ?case
  proof (cases "k * 2 < n")
    case True
    have "concat (replicate k s) @ concat (replicate k s) = concat (replicate (k * 2) s)"
      by (simp add: mult_2_right replicate_add)
    with less.hyps [of "k * 2"] less.prems True show ?thesis by (subst repeat_loop.simps) auto
  next
    case False
    with less.prems show ?thesis by (subst repeat_loop.simps) (auto intro!: exI [of _ k])
  qed
qed

lemma concat_replicate_take: "r \<le> k \<Longrightarrow> take (r * length s) (concat (replicate k s)) = concat (replicate r s)"
proof (induction r arbitrary: k)
  case (Suc r)
  then show ?case by (cases k) auto
qed simp

text \<open>\<open>repeat\<close> is the plain repetition.\<close>

lemma repeat_str_eq: "repeat_str s n = concat (replicate n s)"
proof -
  have e: "concat (replicate n []) = ([] :: string)" by (induction n) auto
  consider "n = 0 \<or> n = 1 \<or> s = []" | (one) c where "1 < n" "s = [c]" | (many) "1 < n" "s \<noteq> []" "length s \<noteq> 1"
    by (metis One_nat_def length_Suc_conv length_0_conv less_one linorder_neqE_nat)
  then show ?thesis
  proof cases
    case one
    have "concat (replicate n [c]) = replicate n c" by (induction n) auto
    with one show ?thesis by (simp add: repeat_str_def flip: replicate_Suc)
  next
    case many
    obtain j where j: "repeat_loop s 2 n = (concat (replicate j s), j * 2)" "j \<le> n" "n \<le> j * 2"
      using repeat_loop_copies [of 1 n s] many by auto
    have "take ((n - j) * length s) (concat (replicate j s)) = concat (replicate (n - j) s)"
      by (rule concat_replicate_take) (use j in simp)
    moreover have "concat (replicate j s) @ concat (replicate (n - j) s) = concat (replicate n s)"
      using j(2) by (simp flip: concat_append replicate_add)
    ultimately show ?thesis using many j(1) by (auto simp: repeat_str_def Let_def)
  qed (auto simp: repeat_str_def e)
qed

subsection \<open>Reading a board back\<close>

text \<open>The format: cells \<^verbatim>\<open>0\<close> and \<^verbatim>\<open>1\<close> with one space between them, one line for each row.\<close>

fun line_of :: "bool list \<Rightarrow> string" where
  "line_of [] = []"
| "line_of [b] = (if b then ''1'' else ''0'')"
| "line_of (b # bs) = (if b then ''1'' else ''0'') @ CHR '' '' # line_of bs"

definition text_of :: "bool list list \<Rightarrow> string" where
  "text_of rows = concat (map (\<lambda>r. line_of r @ [CHR 0x0A]) rows)"

lemma getlines_Nil [simp]: "getlines d [] = []"
  by (subst getlines.simps) (simp add: getline_def)

lemma takeWhile_stop: "d \<notin> set t \<Longrightarrow> takeWhile (\<lambda>c. c \<noteq> d) t = t" "d \<notin> set t \<Longrightarrow> dropWhile (\<lambda>c. c \<noteq> d) t = []"
  by (auto simp: takeWhile_eq_all_conv)

lemma getlines_append: "d \<notin> set t \<Longrightarrow> getlines d (t @ d # r) = t # getlines d r"
proof -
  assume d: "d \<notin> set t"
  then have "takeWhile (\<lambda>c. c \<noteq> d) (t @ d # r) = t" "dropWhile (\<lambda>c. c \<noteq> d) (t @ d # r) = d # r"
    by (induction t) auto
  then show ?thesis by (subst getlines.simps) (simp add: getline_def)
qed

lemma getlines_last: "d \<notin> set t \<Longrightarrow> t \<noteq> [] \<Longrightarrow> getlines d t = [t]"
  by (subst getlines.simps) (simp add: getline_def takeWhile_stop)

lemma line_of_chars: "c \<in> set (line_of bs) \<Longrightarrow> c \<in> {CHR ''0'', CHR ''1'', CHR '' ''}"
  by (induction bs rule: line_of.induct) (auto split: if_splits)

lemma line_of_Nil [simp]: "line_of bs = [] \<longleftrightarrow> bs = []"
  by (cases bs rule: line_of.cases) auto

lemma split_line_of:
  "bs \<noteq> [] \<Longrightarrow> split_on (line_of bs) CHR '' '' = map (\<lambda>b. if b then ''1'' else ''0'') bs"
proof (induction bs rule: line_of.induct)
  case (2 b)
  show ?case by (auto simp: split_on_def getlines_last)
next
  case (3 b c cs)
  have "split_on (line_of (b # c # cs)) CHR '' '' = (if b then ''1'' else ''0'') # split_on (line_of (c # cs)) CHR '' ''"
    unfolding split_on_def line_of.simps(3) by (subst getlines_append) auto
  with 3 show ?case by simp
qed simp

lemma read_text_of:
  "\<forall>r \<in> set rows. r \<noteq> [] \<Longrightarrow> read_lines (Some (text_of rows)) = Some (map line_of rows)"
proof -
  assume n: "\<forall>r \<in> set rows. r \<noteq> []"
  have "getlines (CHR 0x0A) (text_of rows) = map line_of rows"
  proof (induction rows)
    case (Cons r rs)
    have "CHR 0x0A \<notin> set (line_of r)" using line_of_chars by fastforce
    with Cons show ?case by (simp add: text_of_def getlines_append)
  qed (simp add: text_of_def)
  moreover have "filter (\<lambda>curr. 0 < length curr) (map line_of rows) = map line_of rows" using n by (induction rows) auto
  ultimately show ?thesis by (simp add: read_lines_def)
qed

lemma vstring_cells: "vstring_to_vbool (map (\<lambda>b. if b then ''1'' else ''0'') bs) = bs"
  by (induction bs) (auto simp: vstring_to_vbool_def)

lemma parse_line: "bs \<noteq> [] \<Longrightarrow> vstring_to_vbool (split_on (line_of bs) CHR '' '') = bs"
  by (simp add: split_line_of vstring_cells)

end
