(* ===== verification/Life_Board.thy ===== *)
theory Life_Board
  imports Life_Text
begin

text \<open>
  HW3, the board of the Game of Life and its tiles: \<^verbatim>\<open>HW3/Job.cpp\<close>, the computation of
  \<^verbatim>\<open>HW3/Life_Thread.cpp\<close>, and the parts of \<^verbatim>\<open>HW3/Game.cpp\<close> that read the board and cut it into jobs.
  Matrices are lists of rows; an access outside of a row is the fault \<open>Out_Of_Bounds\<close>. The two
  matrices of a game are \<open>mats 0\<close> and \<open>mats 1\<close>; a pointer to a matrix is its index.
\<close>

type_synonym bool_mat = "bool list list"

definition cell :: "bool_mat \<Rightarrow> int \<Rightarrow> int \<Rightarrow> fault + bool" where
  "cell m i j =
     (if 0 \<le> i \<and> i < int (length m) \<and> 0 \<le> j \<and> j < int (length (m ! nat i)) then Inr (m ! nat i ! nat j)
      else Inl Out_Of_Bounds)"

definition set_cell :: "bool_mat \<Rightarrow> int \<Rightarrow> int \<Rightarrow> bool \<Rightarrow> fault + bool_mat" where
  "set_cell m i j v =
     (if 0 \<le> i \<and> i < int (length m) \<and> 0 \<le> j \<and> j < int (length (m ! nat i))
      then Inr (m[nat i := (m ! nat i)[nat j := v]]) else Inl Out_Of_Bounds)"

subsection \<open>Jobs\<close>

record job =
  starting_line :: int
  ending_line :: int
  input_width :: int
  input_height :: int
  current_matrix :: nat
  next_matrix :: nat
  current_generation :: int

definition new_job :: "nat \<Rightarrow> nat \<Rightarrow> int \<Rightarrow> int \<Rightarrow> int \<Rightarrow> int \<Rightarrow> job" where
  "new_job cur nxt s e w h = \<lparr>starting_line = s, ending_line = e, input_width = w, input_height = h,
     current_matrix = cur, next_matrix = nxt, current_generation = 0\<rparr>"

definition set_start_end :: "int \<Rightarrow> int \<Rightarrow> job \<Rightarrow> job" where
  "set_start_end s e j = j\<lparr>starting_line := s, ending_line := e\<rparr>"

definition set_generation :: "int \<Rightarrow> job \<Rightarrow> job" where "set_generation gen j = j\<lparr>current_generation := gen\<rparr>"

definition get_generation :: "job \<Rightarrow> int" where "get_generation j = current_generation j"

subsection \<open>The computation of a tile\<close>

definition count_cell :: "int \<Rightarrow> int \<Rightarrow> bool_mat \<Rightarrow> int \<times> int \<Rightarrow> int \<Rightarrow> fault + int" where
  "count_cell line num m ij n = (case ij of (i, j) \<Rightarrow>
     if i = line \<and> j = num then Inr n else sbind (cell m i j) (\<lambda>b. Inr (if b then n + 1 else n)))"

text \<open>\<open>rightest_neighbour\<close> is uninitialised (\<open>None\<close>) on one path.\<close>

definition calculate_live_neighbours :: "int \<Rightarrow> int \<Rightarrow> int \<Rightarrow> int \<Rightarrow> bool_mat \<Rightarrow> fault + int" where
  "calculate_live_neighbours line num w h m =
     (let highest = if line \<noteq> 0 then line - 1 else line;
          lowest = if line = h - 1 then line else line + 1;
          leftest = if num = 0 then 0 else num - 1;
          rightest = if num = 0 then (if w \<noteq> 1 then Some (num + 1) else None) else Some (num + 1);
          rightest = if num = w - 1 then Some num else rightest
      in case rightest of None \<Rightarrow> Inl Uninitialised
         | Some r \<Rightarrow> run_ops (count_cell line num m) [(i, j). i \<leftarrow> [highest..lowest], j \<leftarrow> [leftest..r]] 0)"

definition compute_cell :: "job \<Rightarrow> int \<times> int \<Rightarrow> (nat \<Rightarrow> bool_mat) \<Rightarrow> fault + (nat \<Rightarrow> bool_mat)" where
  "compute_cell jb lc mats = (case lc of (line, num) \<Rightarrow>
     sbind (calculate_live_neighbours line num (input_width jb) (input_height jb) (mats (current_matrix jb))) (\<lambda>n.
     sbind (cell (mats (current_matrix jb)) line num) (\<lambda>b.
     sbind (set_cell (mats (next_matrix jb)) line num (if b then n = 2 \<or> n = 3 else n = 3)) (\<lambda>m.
     Inr (mats(next_matrix jb := m))))))"

definition job_cells :: "job \<Rightarrow> (int \<times> int) list" where
  "job_cells jb = [(l, c). l \<leftarrow> [starting_line jb..ending_line jb], c \<leftarrow> [0..input_width jb - 1]]"

definition calculate_next_generation_matrix :: "job \<Rightarrow> (nat \<Rightarrow> bool_mat) \<Rightarrow> fault + (nat \<Rightarrow> bool_mat)" where
  "calculate_next_generation_matrix jb mats = run_ops (compute_cell jb) (job_cells jb) mats"

subsection \<open>The game: reading the board, cutting it into jobs\<close>

record board =
  bheight :: nat
  bwidth :: nat
  bthreads :: nat
  brows :: bool_mat

text \<open>\<open>_init_game\<close>: the width is the number of tokens of the last line.\<close>

definition init_board :: "string option \<Rightarrow> nat \<Rightarrow> board option" where
  "init_board file n_thread = (case read_lines file of None \<Rightarrow> None
     | Some ls \<Rightarrow> Some \<lparr>bheight = length ls,
         bwidth = (if ls = [] then 0 else length (split_on (last ls) CHR '' '')),
         bthreads = (if length ls \<le> n_thread then length ls else n_thread),
         brows = map (\<lambda>l. vstring_to_vbool (split_on l CHR '' '')) ls\<rparr>)"

text \<open>The loop of \<open>_step\<close> that creates the jobs: \<open>i\<close> counts down from the number of threads.\<close>

fun push_jobs :: "nat \<Rightarrow> nat \<Rightarrow> int \<Rightarrow> int \<Rightarrow> nat \<Rightarrow> int \<Rightarrow> int \<Rightarrow> job list" where
  "push_jobs cur nxt w h (Suc (Suc i)) divider line_counter =
     new_job cur nxt line_counter (line_counter + divider - 1) w h #
     push_jobs cur nxt w h (Suc i) divider (line_counter + divider)"
| "push_jobs cur nxt w h _ divider line_counter = [new_job cur nxt line_counter (h - 1) w h]"

definition step_jobs :: "nat \<Rightarrow> nat \<Rightarrow> nat \<Rightarrow> nat \<Rightarrow> nat \<Rightarrow> fault + job list" where
  "step_jobs cur nxt w h n =
     (if n = 0 then Inl Div_By_Zero
      else let divider = if h div n = 0 then 1 else h div n
      in Inr (push_jobs cur nxt (int w) (int h) n (int divider) 0))"

end
