(* ===== verification/Life_Show.thy ===== *)
theory Life_Show
  imports Life_Board
begin

text \<open>
  HW3, \<open>print_board\<close> of \<^verbatim>\<open>HW3/Game.cpp\<close>: what is written to the terminal, line by line, as bytes of UTF-8. The
  call of the shell that clears the screen and the pause are effects of their own.
\<close>

datatype effect = Clear_Screen | Write_Line string | Pause

definition utf8 :: "nat list \<Rightarrow> string" where
  "utf8 bs = map char_of bs"

definition alive_glyph :: string where "alive_glyph = utf8 [226, 150, 136]"
definition dead_glyph :: string where "dead_glyph = utf8 [226, 150, 145]"
definition wall :: string where "wall = utf8 [226, 149, 145]"
definition bar :: string where "bar = utf8 [226, 149, 144]"

definition header_line :: "string \<Rightarrow> string" where
  "header_line h = ''<------------'' @ h @ ''------------>''"

definition top_line :: "nat \<Rightarrow> string" where
  "top_line w = utf8 [226, 149, 148] @ repeat_str bar w @ utf8 [226, 149, 151]"

definition bottom_line :: "nat \<Rightarrow> string" where
  "bottom_line w = utf8 [226, 149, 154] @ repeat_str bar w @ utf8 [226, 149, 157]"

fun show_cells :: "bool_mat \<Rightarrow> nat \<Rightarrow> nat \<Rightarrow> nat \<Rightarrow> fault + string" where
  "show_cells m i j 0 = Inr []"
| "show_cells m i j (Suc n) =
     sbind (cell m (int i) (int j)) (\<lambda>b.
     sbind (show_cells m i (Suc j) n) (\<lambda>t. Inr ((if b then alive_glyph else dead_glyph) @ t)))"

fun show_rows :: "bool_mat \<Rightarrow> nat \<Rightarrow> nat \<Rightarrow> nat \<Rightarrow> fault + effect list" where
  "show_rows m w i 0 = Inr []"
| "show_rows m w i (Suc n) =
     sbind (show_cells m i 0 w) (\<lambda>t. sbind (show_rows m w (Suc i) n) (\<lambda>ls. Inr (Write_Line (wall @ t @ wall) # ls)))"

definition print_board :: "bool \<Rightarrow> bool \<Rightarrow> string option \<Rightarrow> board \<Rightarrow> fault + effect list" where
  "print_board print_on interactive_on header b =
     (if \<not> print_on then Inr []
      else sbind (show_rows (brows b) (bwidth b) 0 (bheight b)) (\<lambda>ls.
        Inr ((if interactive_on then [Clear_Screen] else []) @
             (case header of None \<Rightarrow> [] | Some h \<Rightarrow> [Write_Line (header_line h)]) @
             [Write_Line (top_line (bwidth b))] @ ls @ [Write_Line (bottom_line (bwidth b))] @
             (if interactive_on then [Pause] else []))))"

subsection \<open>What is shown\<close>

definition cells_text :: "bool list \<Rightarrow> string" where
  "cells_text r = concat (map (\<lambda>b. if b then alive_glyph else dead_glyph) r)"

definition rectangular :: "board \<Rightarrow> bool" where
  "rectangular b \<longleftrightarrow> length (brows b) = bheight b \<and> (\<forall>r\<in>set (brows b). length r = bwidth b)"

lemma show_cells_row:
  "i < length m \<Longrightarrow> j + n = length (m ! i) \<Longrightarrow> show_cells m i j n = Inr (cells_text (drop j (m ! i)))"
proof (induction n arbitrary: j)
  case 0
  then show ?case by (simp add: cells_text_def)
next
  case (Suc n)
  then have j: "j < length (m ! i)" by simp
  show ?case using Suc j by (simp add: cell_def cells_text_def Cons_nth_drop_Suc [OF j, symmetric])
qed

lemma show_rows_rows:
  assumes "\<And>r. r \<in> set m \<Longrightarrow> length r = w"
  shows "i + n = length m \<Longrightarrow> show_rows m w i n = Inr (map (\<lambda>r. Write_Line (wall @ cells_text r @ wall)) (drop i m))"
proof (induction n arbitrary: i)
  case (Suc n)
  then have i: "i < length m" by simp
  then have "show_cells m i 0 w = Inr (cells_text (m ! i))" using show_cells_row [OF i, of 0 w] assms [of "m ! i"] by simp
  then show ?case using Suc i by (simp add: Cons_nth_drop_Suc [OF i, symmetric])
qed simp

lemma cells_text_inj: "cells_text r = cells_text r' \<Longrightarrow> r = r'"
proof (induction r arbitrary: r')
  case Nil
  have "(if b then alive_glyph else dead_glyph) \<noteq> []" for b by (simp add: alive_glyph_def dead_glyph_def utf8_def)
  then show ?case using Nil by (cases r') (simp_all add: cells_text_def del: split_paired_All)
next
  case (Cons b r)
  then obtain b' t where r': "r' = b' # t"
    by (cases r') (auto simp: cells_text_def alive_glyph_def dead_glyph_def utf8_def split: if_splits)
  let ?g = "\<lambda>x. if x then alive_glyph else dead_glyph"
  have "length (?g b) = length (?g b')" by (simp add: alive_glyph_def dead_glyph_def utf8_def)
  moreover have "?g b @ cells_text r = ?g b' @ cells_text t"
    using Cons.prems unfolding r' cells_text_def by (simp only: list.map concat.simps)
  ultimately have "?g b = ?g b'" "cells_text r = cells_text t" using append_eq_append_conv by blast+
  moreover have "alive_glyph \<noteq> dead_glyph" by (simp add: alive_glyph_def dead_glyph_def utf8_def)
  ultimately show ?case using Cons.IH r' by (auto split: if_splits)
qed

lemma top_line_inj: "top_line w = top_line w' \<Longrightarrow> w = w'"
  by (drule arg_cong [where f = length]) (simp add: top_line_def repeat_str_eq length_concat sum_list_replicate bar_def utf8_def)

theorem print_board_shows:
  assumes "rectangular b"
  shows "print_board True False None b = Inr ([Write_Line (top_line (bwidth b))] @
    map (\<lambda>r. Write_Line (wall @ cells_text r @ wall)) (brows b) @ [Write_Line (bottom_line (bwidth b))])"
proof -
  have "show_rows (brows b) (bwidth b) 0 (bheight b) = Inr (map (\<lambda>r. Write_Line (wall @ cells_text r @ wall)) (drop 0 (brows b)))"
    by (rule show_rows_rows) (use assms in \<open>auto simp: rectangular_def\<close>)
  then show ?thesis by (simp add: print_board_def)
qed

text \<open>The picture determines the board.\<close>

theorem print_board_faithful:
  assumes "rectangular b" "rectangular b'" and p: "print_board True False None b = print_board True False None b'"
  shows "brows b = brows b' \<and> bwidth b = bwidth b' \<and> bheight b = bheight b'"
proof -
  let ?f = "\<lambda>r. Write_Line (wall @ cells_text r @ wall)"
  have e: "Write_Line (top_line (bwidth b)) # map ?f (brows b) @ [Write_Line (bottom_line (bwidth b))] =
      Write_Line (top_line (bwidth b')) # map ?f (brows b') @ [Write_Line (bottom_line (bwidth b'))]"
    using p unfolding print_board_shows [OF assms(1)] print_board_shows [OF assms(2)] by simp
  then have "map ?f (brows b) = map ?f (brows b')" "bwidth b = bwidth b'" using top_line_inj by auto
  moreover have "inj ?f" by (rule injI) (simp add: cells_text_inj)
  ultimately have "brows b = brows b'" by (simp only: inj_map_eq_map)
  then show ?thesis using assms \<open>bwidth b = bwidth b'\<close> by (simp add: rectangular_def)
qed

end
