(* ===== verification/Heap_Data.thy ===== *)
theory Heap_Data
  imports Prelude
begin

text \<open>
  HW4, what the three allocators share: the header of a block and the global counters
  (\<^verbatim>\<open>HW4/malloc_2.cpp\<close>, \<^verbatim>\<open>HW4/malloc_3.cpp\<close>), the memory the program sees, and the calls
  \<^verbatim>\<open>sbrk\<close>, \<^verbatim>\<open>memset\<close> and \<^verbatim>\<open>memcpy\<close>.

  Addresses are integers. Memory is a map of bytes together with a map of the addresses at which
  a header lies. Writing a header overwrites its bytes (the parameter \<open>enc\<close> is its
  representation) and destroys every header it overlaps; writing bytes destroys the headers they
  overlap. Reading a header where none lies is a fault. The parameters of the platform are the
  width of a pointer and of \<^verbatim>\<open>size_t\<close>, the size of a header, the representation of headers and
  which requests \<^verbatim>\<open>sbrk\<close> grants. Values of type \<^verbatim>\<open>size_t\<close> are reduced modulo their range by
  \<open>szt\<close>; \<^verbatim>\<open>long long\<close> values are integers (they stay far below its bounds), converted by \<open>conv\<close>
  when C compares them with a \<^verbatim>\<open>size_t\<close>: on a 32-bit platform \<^verbatim>\<open>size_t\<close> is converted to
  \<^verbatim>\<open>long long\<close>, on a 64-bit one the other way round.
\<close>

record node =
  is_freed :: bool
  allocation_start_ptr :: int
  size_of_allocation :: int
  next_node :: int
  prev_node :: int

record abi =
  ptr_bits :: nat
  hdr :: int
  enc :: "node \<Rightarrow> nat \<Rightarrow> 8 word"
  grants :: "int \<Rightarrow> int \<Rightarrow> bool"

record heap =
  nodes :: "int \<Rightarrow> node option"
  mem :: "int \<Rightarrow> 8 word"
  brk :: int
  first_alloc :: bool
  list_size :: int
  num_free_blocks :: int
  num_free_bytes :: int
  num_allocated_blocks :: int
  num_allocated_bytes :: int
  num_meta_data_bytes :: int
  num_meta_data_blocks :: int
  head :: int

definition MAX_SIZE :: int where "MAX_SIZE = 100000000"

text \<open>
  What the code relies on: a header has a positive size that is a multiple of 4, and \<^verbatim>\<open>size_t\<close> can
  hold the sizes it computes with.
\<close>

definition abi_ok :: "abi \<Rightarrow> bool" where
  "abi_ok M \<longleftrightarrow> 0 < hdr M \<and> hdr M mod 4 = 0 \<and> hdr M \<le> 1000 \<and> 31 \<le> ptr_bits M"

definition szt :: "abi \<Rightarrow> int \<Rightarrow> int" where
  "szt M x = x mod 2 ^ ptr_bits M"

definition conv :: "abi \<Rightarrow> int \<Rightarrow> int" where
  "conv M x = (if ptr_bits M < 64 then x else x mod 2 ^ 64)"

subsection \<open>Headers\<close>

definition get :: "int \<Rightarrow> heap \<Rightarrow> stuck + node" where
  "get p st = (case nodes st p of None \<Rightarrow> Inl (Faulted Uninitialised) | Some n \<Rightarrow> Inr n)"

definition put :: "abi \<Rightarrow> int \<Rightarrow> node \<Rightarrow> heap \<Rightarrow> heap" where
  "put M p n st = st\<lparr>
     nodes := (\<lambda>x. if x = p then Some n else if \<bar>x - p\<bar> < hdr M then None else nodes st x),
     mem := (\<lambda>x. if p \<le> x \<and> x < p + hdr M then enc M n (nat (x - p)) else mem st x)\<rparr>"

definition upd :: "abi \<Rightarrow> int \<Rightarrow> (node \<Rightarrow> node) \<Rightarrow> heap \<Rightarrow> stuck + heap" where
  "upd M p f st = sbind (get p st) (\<lambda>n. Inr (put M p (f n) st))"

subsection \<open>The statistics functions\<close>

definition stat_num_free_blocks :: "heap \<Rightarrow> int" where "stat_num_free_blocks st = num_free_blocks st"

definition stat_num_free_bytes :: "heap \<Rightarrow> int" where "stat_num_free_bytes st = num_free_bytes st"

definition stat_num_allocated_blocks :: "heap \<Rightarrow> int" where "stat_num_allocated_blocks st = num_allocated_blocks st"

definition stat_num_allocated_bytes :: "heap \<Rightarrow> int" where "stat_num_allocated_bytes st = num_allocated_bytes st"

definition stat_num_meta_data_bytes :: "abi \<Rightarrow> heap \<Rightarrow> int" where
  "stat_num_meta_data_bytes M st = szt M (num_meta_data_blocks st * hdr M)"

definition stat_size_meta_data :: "abi \<Rightarrow> int" where "stat_size_meta_data M = hdr M"

subsection \<open>The environment\<close>

text \<open>\<open>sbrk\<close> returns the old break and moves it, or returns -1.\<close>

definition sbrk :: "abi \<Rightarrow> int \<Rightarrow> heap \<Rightarrow> heap \<times> int" where
  "sbrk M inc st = (if grants M (brk st) inc then (st\<lparr>brk := brk st + inc\<rparr>, brk st) else (st, -1))"

text \<open>
  \<^verbatim>\<open>(*(int *)p) == -1\<close>: the address -1, which \<^verbatim>\<open>sbrk\<close> returns on failure, cannot be read.
\<close>

definition reads_minus_one :: "int \<Rightarrow> heap \<Rightarrow> stuck + bool" where
  "reads_minus_one p st =
     (if p = -1 then Inl (Faulted Bad_Address)
      else Inr (mem st p = 255 \<and> mem st (p + 1) = 255 \<and> mem st (p + 2) = 255 \<and> mem st (p + 3) = 255))"

definition write_bytes :: "abi \<Rightarrow> int \<Rightarrow> int \<Rightarrow> (int \<Rightarrow> 8 word) \<Rightarrow> heap \<Rightarrow> heap" where
  "write_bytes M p n f st = st\<lparr>
     nodes := (\<lambda>x. if x < p + n \<and> p < x + hdr M then None else nodes st x),
     mem := (\<lambda>x. if p \<le> x \<and> x < p + n then f x else mem st x)\<rparr>"

definition memset :: "abi \<Rightarrow> int \<Rightarrow> 8 word \<Rightarrow> int \<Rightarrow> heap \<Rightarrow> heap" where
  "memset M p v n st = write_bytes M p n (\<lambda>_. v) st"

definition memcpy :: "abi \<Rightarrow> int \<Rightarrow> int \<Rightarrow> int \<Rightarrow> heap \<Rightarrow> heap" where
  "memcpy M dst src n st = write_bytes M dst n (\<lambda>x. mem st (src + (x - dst))) st"

text \<open>The program starts with no memory of its own; pages the kernel hands out are zero.\<close>

definition heap0 :: "int \<Rightarrow> heap" where
  "heap0 b = \<lparr>nodes = (\<lambda>_. None), mem = (\<lambda>_. 0), brk = b, first_alloc = True, list_size = 0,
     num_free_blocks = 0, num_free_bytes = 0, num_allocated_blocks = 0, num_allocated_bytes = 0,
     num_meta_data_bytes = 0, num_meta_data_blocks = 0, head = 0\<rparr>"

end
