(* ===== verification/Heap_Blocks.thy ===== *)
theory Heap_Blocks
  imports Heap_Data
begin

text \<open>
  HW4, the abstract view of a heap: the list of its blocks in address order, headers and user
  areas lying back to back from the first header to the break. \<open>rep M st bs\<close> says that the circular
  doubly linked list of headers of the state represents the blocks \<open>bs\<close> and that the counters count
  them. The lemmas give the effect of the pointer operations on the represented list: changing a
  block, unlinking a block and linking a new one, whatever the position in the circle.
\<close>

record blk =
  baddr :: int
  bsize :: int
  bfree :: bool

definition node_of :: "abi \<Rightarrow> blk \<Rightarrow> int \<Rightarrow> int \<Rightarrow> node" where
  "node_of M b nx pv = \<lparr>is_freed = bfree b, allocation_start_ptr = baddr b + hdr M,
     size_of_allocation = bsize b, next_node = nx, prev_node = pv\<rparr>"

lemma node_of_sel [simp]:
  "is_freed (node_of M b nx pv) = bfree b" "allocation_start_ptr (node_of M b nx pv) = baddr b + hdr M"
  "size_of_allocation (node_of M b nx pv) = bsize b" "next_node (node_of M b nx pv) = nx"
  "prev_node (node_of M b nx pv) = pv"
  by (simp_all add: node_of_def)

lemma node_of_upd [simp]:
  "(node_of M b nx pv)\<lparr>is_freed := f\<rparr> = node_of M (b\<lparr>bfree := f\<rparr>) nx pv"
  "(node_of M b nx pv)\<lparr>size_of_allocation := k\<rparr> = node_of M (b\<lparr>bsize := k\<rparr>) nx pv"
  "(node_of M b nx pv)\<lparr>next_node := q\<rparr> = node_of M b q pv"
  "(node_of M b nx pv)\<lparr>prev_node := q\<rparr> = node_of M b nx q"
  by (simp_all add: node_of_def)

definition haddr :: "blk list \<Rightarrow> int \<Rightarrow> int" where
  "haddr bs nx = (case bs of [] \<Rightarrow> nx | b # _ \<Rightarrow> baddr b)"

definition laddr :: "int \<Rightarrow> blk list \<Rightarrow> int" where
  "laddr pv bs = (if bs = [] then pv else baddr (last bs))"

lemma haddr_simps [simp]: "haddr [] nx = nx" "haddr (b # bs) nx = baddr b"
  "haddr (xs @ ys) nx = haddr xs (haddr ys nx)"
  by (simp_all add: haddr_def split: list.splits)

lemma laddr_simps [simp]: "laddr pv [] = pv" "laddr pv (bs @ [b]) = baddr b"
  "laddr pv (b # bs) = laddr (baddr b) bs" "laddr pv (xs @ ys) = laddr (laddr pv xs) ys"
  by (simp_all add: laddr_def)

fun chain :: "abi \<Rightarrow> (int \<Rightarrow> node option) \<Rightarrow> int \<Rightarrow> blk list \<Rightarrow> int \<Rightarrow> bool" where
  "chain M h pv [] nx = True"
| "chain M h pv (b # bs) nx =
     (h (baddr b) = Some (node_of M b (haddr bs nx) pv) \<and> chain M h (baddr b) bs nx)"

lemma chain_append [simp]:
  "chain M h pv (xs @ ys) nx \<longleftrightarrow> chain M h pv xs (haddr ys nx) \<and> chain M h (laddr pv xs) ys nx"
  by (induction xs arbitrary: pv) auto

lemma chain_cong:
  "(\<And>b. b \<in> set bs \<Longrightarrow> h' (baddr b) = h (baddr b)) \<Longrightarrow> chain M h' pv bs nx = chain M h pv bs nx"
  by (induction bs arbitrary: pv) auto

definition linked :: "abi \<Rightarrow> (int \<Rightarrow> node option) \<Rightarrow> blk list \<Rightarrow> bool" where
  "linked M h bs \<longleftrightarrow> chain M h (laddr 0 bs) bs (haddr bs 0)"

text \<open>Headers do not overlap, in list order.\<close>

definition apart :: "abi \<Rightarrow> blk list \<Rightarrow> bool" where
  "apart M bs \<longleftrightarrow> sorted_wrt (\<lambda>a b. baddr a + hdr M \<le> baddr b) bs"

lemma apart_append:
  "apart M (xs @ ys) \<longleftrightarrow> apart M xs \<and> apart M ys \<and> (\<forall>a \<in> set xs. \<forall>b \<in> set ys. baddr a + hdr M \<le> baddr b)"
  by (auto simp: apart_def sorted_wrt_append)

lemma apart_Cons:
  "apart M (a # ys) \<longleftrightarrow> apart M ys \<and> (\<forall>b \<in> set ys. baddr a + hdr M \<le> baddr b)"
  by (auto simp: apart_def)

lemma apart_Nil [simp]: "apart M []" by (simp add: apart_def)

lemmas apart_simps = apart_append apart_Cons

fun contig :: "abi \<Rightarrow> int \<Rightarrow> blk list \<Rightarrow> int \<Rightarrow> bool" where
  "contig M a [] e = (e = a)"
| "contig M a (b # bs) e = (baddr b = a \<and> 0 < bsize b \<and> contig M (a + hdr M + bsize b) bs e)"

definition bend :: "abi \<Rightarrow> blk \<Rightarrow> int" where
  "bend M b = baddr b + hdr M + bsize b"

lemma contig_append:
  "contig M a (xs @ ys) e \<longleftrightarrow> (\<exists>m. contig M a xs m \<and> contig M m ys e)"
  by (induction xs arbitrary: a) auto

lemma contig_bounds:
  assumes "contig M a bs e" "0 < hdr M"
  shows "a \<le> e" "b \<in> set bs \<Longrightarrow> a \<le> baddr b \<and> bend M b \<le> e \<and> 0 < bsize b"
proof -
  have "a \<le> e \<and> (\<forall>b \<in> set bs. a \<le> baddr b \<and> bend M b \<le> e \<and> 0 < bsize b)"
    using assms
  proof (induction bs arbitrary: a)
    case (Cons c bs)
    from Cons.prems have c: "baddr c = a" "0 < bsize c" "contig M (a + hdr M + bsize c) bs e" by simp_all
    from Cons.IH [OF c(3) Cons.prems(2)] c Cons.prems(2) show ?case
      by (auto simp: bend_def)
  qed simp
  then show "a \<le> e" "b \<in> set bs \<Longrightarrow> a \<le> baddr b \<and> bend M b \<le> e \<and> 0 < bsize b" by auto
qed

lemma contig_middle:
  assumes "contig M a (xs @ b # ys) e" "0 < hdr M"
  shows "x \<in> set xs \<Longrightarrow> bend M x \<le> baddr b" "y \<in> set ys \<Longrightarrow> bend M b \<le> baddr y"
proof -
  from assms(1) obtain m where m: "contig M a xs m" "baddr b = m" "contig M (bend M b) ys e"
    by (auto simp: contig_append bend_def)
  show "x \<in> set xs \<Longrightarrow> bend M x \<le> baddr b" using contig_bounds(2) [OF m(1) assms(2)] m(2) by auto
  show "y \<in> set ys \<Longrightarrow> bend M b \<le> baddr y" using contig_bounds(2) [OF m(3) assms(2)] by auto
qed

lemma contig_apart: "contig M a bs e \<Longrightarrow> 0 < hdr M \<Longrightarrow> apart M bs"
proof (induction bs arbitrary: a)
  case (Cons b bs)
  then have "contig M (a + hdr M + bsize b) bs e" "0 < bsize b" "baddr b = a" by simp_all
  with Cons contig_bounds(2) [OF this(1) Cons.prems(2)] show ?case
    by (fastforce simp: apart_Cons)
qed simp

text \<open>The last block ends at the break.\<close>

lemma contig_last: "contig M a (xs @ [b]) e \<Longrightarrow> bend M b = e"
  by (auto simp: contig_append bend_def)

subsection \<open>Pointer operations on the circle\<close>

lemma nodes_put:
  "nodes (put M p n st) q = (if q = p then Some n else if \<bar>q - p\<bar> < hdr M then None else nodes st q)"
  by (simp add: put_def)

lemma put_sel [simp]:
  "brk (put M p n st) = brk st" "first_alloc (put M p n st) = first_alloc st" "head (put M p n st) = head st"
  "num_free_blocks (put M p n st) = num_free_blocks st" "num_free_bytes (put M p n st) = num_free_bytes st"
  "num_allocated_blocks (put M p n st) = num_allocated_blocks st"
  "num_allocated_bytes (put M p n st) = num_allocated_bytes st"
  "num_meta_data_blocks (put M p n st) = num_meta_data_blocks st"
  "num_meta_data_bytes (put M p n st) = num_meta_data_bytes st" "list_size (put M p n st) = list_size st"
  by (simp_all add: put_def)

lemma linked_get:
  "linked M (nodes st) (xs @ b # ys) \<Longrightarrow>
     get (baddr b) st = Inr (node_of M b (haddr ys (haddr xs (baddr b))) (laddr (laddr (baddr b) ys) xs))"
  by (simp add: linked_def get_def)

lemma chain_away:
  assumes "\<And>b. b \<in> set bs \<Longrightarrow> hdr M \<le> \<bar>baddr b - p\<bar>" and "0 < hdr M"
  shows "chain M (nodes (put M p n st)) pv bs nx = chain M (nodes st) pv bs nx"
  by (rule chain_cong) (use assms in \<open>fastforce simp: nodes_put\<close>)

lemma apart_middle:
  assumes "apart M (xs @ a # ys)"
  shows "b \<in> set xs \<Longrightarrow> hdr M \<le> \<bar>baddr b - baddr a\<bar>" "b \<in> set ys \<Longrightarrow> hdr M \<le> \<bar>baddr b - baddr a\<bar>"
  using assms by (fastforce simp: apart_simps)+

text \<open>\<open>quiet S\<close>: only headers at the addresses \<open>S\<close> were written.\<close>

definition quiet :: "abi \<Rightarrow> int set \<Rightarrow> heap \<Rightarrow> heap \<Rightarrow> bool" where
  "quiet M S st st' \<longleftrightarrow> st' = st\<lparr>nodes := nodes st', mem := mem st'\<rparr> \<and>
     (\<forall>x. (\<forall>q \<in> S. \<not> (q \<le> x \<and> x < q + hdr M)) \<longrightarrow> mem st' x = mem st x)"

lemma quiet_refl [simp]: "quiet M S st st"
  by (simp add: quiet_def)

lemma quiet_put: "p \<in> S \<Longrightarrow> quiet M S st (put M p n st)"
  by (auto simp: quiet_def put_def)

lemma quiet_trans: "quiet M S st st1 \<Longrightarrow> quiet M S st1 st2 \<Longrightarrow> quiet M S st st2"
  by (cases st; cases st1; cases st2) (simp add: quiet_def)

lemma quiet_mono: "quiet M S st st1 \<Longrightarrow> S \<subseteq> T \<Longrightarrow> quiet M T st st1"
  unfolding quiet_def by blast

lemma quiet_put_trans: "quiet M S st st1 \<Longrightarrow> p \<in> S \<Longrightarrow> quiet M S st (put M p n st1)"
  by (blast intro: quiet_trans quiet_put)

lemma quiet_sel:
  assumes "quiet M S st st'"
  shows "brk st' = brk st" "first_alloc st' = first_alloc st" "head st' = head st"
    "num_free_blocks st' = num_free_blocks st" "num_free_bytes st' = num_free_bytes st"
    "num_allocated_blocks st' = num_allocated_blocks st" "num_allocated_bytes st' = num_allocated_bytes st"
    "num_meta_data_blocks st' = num_meta_data_blocks st"
    "(\<And>q. q \<in> S \<Longrightarrow> \<not> (q \<le> x \<and> x < q + hdr M)) \<Longrightarrow> mem st' x = mem st x"
  using assms by (cases st; cases st'; simp add: quiet_def)+

text \<open>Changing a block in place.\<close>

lemma linked_change:
  assumes L: "linked M (nodes st) (xs @ b # ys)" and A: "apart M (xs @ b # ys)" and h: "0 < hdr M"
    and f: "\<And>nx pv. f (node_of M b nx pv) = node_of M b' nx pv" and a: "baddr b' = baddr b"
  shows "\<exists>st'. upd M (baddr b) f st = Inr st' \<and> linked M (nodes st') (xs @ b' # ys) \<and> quiet M {baddr b} st st' \<and>
    (\<forall>q. hdr M \<le> \<bar>q - baddr b\<bar> \<longrightarrow> nodes st' q = nodes st q)"
  using L f a chain_away [OF apart_middle(1) [OF A] h] chain_away [OF apart_middle(2) [OF A] h] h
  by (simp add: upd_def linked_get [OF L]) (auto simp add: linked_def nodes_put quiet_put)

text \<open>Taking the block after \<open>a\<close> out of the circle; its header stays in memory.\<close>

lemma linked_unlink:
  assumes L: "linked M (nodes st) (xs @ a # b # ys)" and A: "apart M (xs @ a # b # ys)" and h: "0 < hdr M"
  defines "n \<equiv> haddr ys (haddr xs (baddr a))"
  shows "\<exists>st1 st2. upd M (baddr a) (\<lambda>t. t\<lparr>next_node := n\<rparr>) st = Inr st1 \<and>
    upd M n (\<lambda>t. t\<lparr>prev_node := baddr a\<rparr>) st1 = Inr st2 \<and> linked M (nodes st2) (xs @ a # ys) \<and>
    nodes st1 (baddr b) = nodes st (baddr b) \<and> nodes st2 (baddr b) = nodes st (baddr b) \<and>
    quiet M (baddr ` set (xs @ a # ys)) st st2"
proof -
  have ab: "baddr a + hdr M \<le> baddr b" using A by (simp add: apart_simps)
  consider (tail) c ys' where "ys = c # ys'" | (head) x xs' where "ys = []" "xs = x # xs'" | (one) "ys = []" "xs = []"
    by (metis neq_Nil_conv)
  then show ?thesis
  proof cases
    case tail
    have c: "baddr b + hdr M \<le> baddr c" using A tail by (simp add: apart_simps)
    have d: "hdr M \<le> \<bar>baddr z - baddr c\<bar>" "hdr M \<le> \<bar>baddr z - baddr a\<bar>" if "z \<in> set xs \<union> set ys'" for z
      using A tail that h by (fastforce simp: apart_simps)+
    show ?thesis
      using L ab c h unfolding tail n_def
      by (simp add: upd_def get_def nodes_put linked_def chain_away d quiet_put_trans)
  next
    case head
    have x: "baddr x + hdr M \<le> baddr a" using A head by (simp add: apart_simps)
    have d: "hdr M \<le> \<bar>baddr z - baddr x\<bar>" "hdr M \<le> \<bar>baddr z - baddr a\<bar>" if "z \<in> set xs'" for z
      using A head that h by (fastforce simp: apart_simps)+
    show ?thesis
      using L ab x h unfolding head n_def
      by (simp add: upd_def get_def nodes_put linked_def chain_away d quiet_put_trans)
  next
    case one
    show ?thesis
      using L ab h unfolding one n_def
      by (simp add: upd_def get_def nodes_put linked_def quiet_put_trans)
  qed
qed

text \<open>Linking the block \<open>s\<close>, whose header is written, behind \<open>a\<close>.\<close>

lemma linked_link:
  assumes L: "linked M (nodes st) (xs @ a # ys)" and A: "apart M (xs @ a # s # ys)" and h: "0 < hdr M"
  defines "n \<equiv> haddr ys (haddr xs (baddr a))"
  assumes s: "nodes st (baddr s) = Some (node_of M s n (baddr a))"
  shows "\<exists>st1 st2. upd M n (\<lambda>t. t\<lparr>prev_node := baddr s\<rparr>) st = Inr st1 \<and>
    upd M (baddr a) (\<lambda>t. t\<lparr>next_node := baddr s\<rparr>) st1 = Inr st2 \<and> linked M (nodes st2) (xs @ a # s # ys) \<and>
    quiet M (baddr ` set (xs @ a # ys)) st st2"
    and "ys = [] \<Longrightarrow> \<exists>st1 st2. upd M (baddr a) (\<lambda>t. t\<lparr>next_node := baddr s\<rparr>) st = Inr st1 \<and>
    upd M n (\<lambda>t. t\<lparr>prev_node := baddr s\<rparr>) st1 = Inr st2 \<and> linked M (nodes st2) (xs @ a # s # ys) \<and>
    quiet M (baddr ` set (xs @ a # ys)) st st2"
proof -
  have as: "baddr a + hdr M \<le> baddr s" using A by (simp add: apart_simps)
  show "\<exists>st1 st2. upd M n (\<lambda>t. t\<lparr>prev_node := baddr s\<rparr>) st = Inr st1 \<and>
    upd M (baddr a) (\<lambda>t. t\<lparr>next_node := baddr s\<rparr>) st1 = Inr st2 \<and> linked M (nodes st2) (xs @ a # s # ys) \<and>
    quiet M (baddr ` set (xs @ a # ys)) st st2"
  proof (cases ys)
    case (Cons c ys')
    have c: "baddr s + hdr M \<le> baddr c" using A Cons by (simp add: apart_simps)
    have d: "hdr M \<le> \<bar>baddr z - baddr c\<bar>" "hdr M \<le> \<bar>baddr z - baddr a\<bar>" if "z \<in> set xs \<union> set ys'" for z
      using A Cons that h by (fastforce simp: apart_simps)+
    show ?thesis
      using L s as c h unfolding Cons n_def
      by (simp add: upd_def get_def nodes_put linked_def chain_away d quiet_put_trans)
  next
    case Nil
    have x: "baddr x + hdr M \<le> baddr a" if "x \<in> set xs" for x using A that by (simp add: apart_simps)
    show ?thesis
    proof (cases xs)
      case (Cons x xs')
      have d: "hdr M \<le> \<bar>baddr z - baddr x\<bar>" "hdr M \<le> \<bar>baddr z - baddr a\<bar>" if "z \<in> set xs'" for z
        using A Nil Cons that h by (fastforce simp: apart_simps)+
      show ?thesis
        using L s as x [of x] h unfolding Nil Cons n_def
        by (simp add: upd_def get_def nodes_put linked_def chain_away d quiet_put_trans)
    qed (use L s as h in \<open>simp add: Nil n_def upd_def get_def nodes_put linked_def quiet_put_trans\<close>)
  qed
  assume Nil: "ys = []"
  have x: "baddr x + hdr M \<le> baddr a" if "x \<in> set xs" for x using A that by (simp add: apart_simps)
  show "\<exists>st1 st2. upd M (baddr a) (\<lambda>t. t\<lparr>next_node := baddr s\<rparr>) st = Inr st1 \<and>
    upd M n (\<lambda>t. t\<lparr>prev_node := baddr s\<rparr>) st1 = Inr st2 \<and> linked M (nodes st2) (xs @ a # s # ys) \<and>
    quiet M (baddr ` set (xs @ a # ys)) st st2"
  proof (cases xs)
    case (Cons x xs')
    have d: "hdr M \<le> \<bar>baddr z - baddr x\<bar>" "hdr M \<le> \<bar>baddr z - baddr a\<bar>" if "z \<in> set xs'" for z
      using A Nil Cons that h by (fastforce simp: apart_simps)+
    show ?thesis
      using L s as x [of x] h unfolding Nil Cons n_def
      by (simp add: upd_def get_def nodes_put linked_def chain_away d quiet_put_trans)
  qed (use L s as h in \<open>simp add: Nil n_def upd_def get_def nodes_put linked_def quiet_put_trans\<close>)
qed

subsection \<open>The represented blocks\<close>

definition nfree :: "blk list \<Rightarrow> int" where "nfree bs = int (length (filter bfree bs))"
definition bfreed :: "blk list \<Rightarrow> int" where "bfreed bs = sum_list (map bsize (filter bfree bs))"
definition btotal :: "blk list \<Rightarrow> int" where "btotal bs = sum_list (map bsize bs)"

lemma nfree_simps [simp]:
  "nfree [] = 0" "nfree (b # bs) = (if bfree b then nfree bs + 1 else nfree bs)" "nfree (xs @ ys) = nfree xs + nfree ys"
  by (simp_all add: nfree_def)

lemma bfreed_simps [simp]:
  "bfreed [] = 0" "bfreed (b # bs) = (if bfree b then bsize b + bfreed bs else bfreed bs)"
  "bfreed (xs @ ys) = bfreed xs + bfreed ys"
  by (simp_all add: bfreed_def)

lemma btotal_simps [simp]:
  "btotal [] = 0" "btotal (b # bs) = bsize b + btotal bs" "btotal (xs @ ys) = btotal xs + btotal ys"
  by (simp_all add: btotal_def)

lemma contig_total: "contig M a bs e \<Longrightarrow> btotal bs + int (length bs) * hdr M = e - a"
  by (induction bs arbitrary: a) (fastforce simp: algebra_simps)+

lemma block_sums:
  assumes "\<forall>b \<in> set bs. 0 \<le> bsize b"
  shows "0 \<le> bfreed bs" "bfreed bs \<le> btotal bs" "0 \<le> nfree bs" "nfree bs \<le> int (length bs)"
  using assms by (induction bs) auto

definition counted :: "abi \<Rightarrow> heap \<Rightarrow> blk list \<Rightarrow> bool" where
  "counted M st bs \<longleftrightarrow> num_free_blocks st = szt M (nfree bs) \<and> num_free_bytes st = szt M (bfreed bs) \<and>
     num_allocated_blocks st = szt M (int (length bs)) \<and> num_allocated_bytes st = szt M (btotal bs) \<and>
     num_meta_data_blocks st = szt M (int (length bs))"

definition laid :: "abi \<Rightarrow> heap \<Rightarrow> blk list \<Rightarrow> bool" where
  "laid M st bs \<longleftrightarrow> bs \<noteq> [] \<and> \<not> first_alloc st \<and> 0 < head st \<and> contig M (head st) bs (brk st) \<and>
     (\<forall>x. brk st \<le> x \<longrightarrow> mem st x = 0)"

definition rep :: "abi \<Rightarrow> heap \<Rightarrow> blk list \<Rightarrow> bool" where
  "rep M st bs \<longleftrightarrow> laid M st bs \<and> linked M (nodes st) bs \<and> counted M st bs"

lemma szt_add:
  "szt M (szt M a + b) = szt M (a + b)" "szt M (b + szt M a) = szt M (b + a)" "szt M (szt M a - b) = szt M (a - b)"
  by (simp_all add: szt_def mod_simps)

lemma szt_add_diff:
  "szt M (a + szt M b - c) = szt M (a + b - c)" "szt M (szt M b + a - c) = szt M (b + a - c)"
  using szt_add(2) [of M "a - c" b] szt_add(2) [of M "a - c" b] by (simp_all add: algebra_simps)

lemmas szt_simps = szt_add szt_add_diff

lemma laid_head: "laid M st bs \<Longrightarrow> head st = haddr bs 0"
  by (cases bs) (auto simp: laid_def)

lemma counted_quiet: "quiet M S st st' \<Longrightarrow> counted M st' bs = counted M st bs"
  by (simp add: counted_def quiet_sel)

text \<open>Writing headers of the heap keeps the layout, and the memory outside the headers.\<close>

lemma laid_quiet:
  assumes "quiet M (baddr ` set cs) st st'" "contig M (head st) cs (brk st)" "laid M st bs" "0 < hdr M"
  shows "laid M st' bs"
proof -
  have "mem st' x = mem st x" if "brk st \<le> x" for x
    by (rule quiet_sel(9) [OF assms(1)])
       (use contig_bounds(2) [OF assms(2,4)] that in \<open>fastforce simp: bend_def\<close>)
  with assms(3) quiet_sel(1-3) [OF assms(1)] show ?thesis by (simp add: laid_def)
qed

text \<open>Every position of a block: what is before it, what is behind it.\<close>

lemma rep_get:
  assumes "rep M st (xs @ b # ys)"
  shows "get (baddr b) st = Inr (node_of M b (haddr ys (haddr xs (baddr b))) (laddr (laddr (baddr b) ys) xs))"
  using assms linked_get [of M st xs b ys] by (simp add: rep_def)

lemma rep_apart: "rep M st bs \<Longrightarrow> 0 < hdr M \<Longrightarrow> apart M bs"
  by (auto simp: rep_def laid_def intro: contig_apart)

lemma rep_head: "rep M st bs \<Longrightarrow> head st = haddr bs 0"
  by (auto simp: rep_def dest: laid_head)

lemma rep_addr:
  assumes "rep M st bs" "0 < hdr M" "b \<in> set bs"
  shows "0 < baddr b" "head st \<le> baddr b" "bend M b \<le> brk st" "0 < bsize b"
  using assms contig_bounds(2) [of M "head st" bs "brk st" b] by (auto simp: rep_def laid_def)

text \<open>A block is the first one exactly when its address is the head.\<close>

lemma rep_is_head:
  assumes "rep M st (xs @ b # ys)" "0 < hdr M"
  shows "baddr b = head st \<longleftrightarrow> xs = []"
proof (cases xs)
  case Nil
  with rep_head [OF assms(1)] show ?thesis by simp
next
  case (Cons x xs')
  with rep_head [OF assms(1)] rep_apart [OF assms] assms(2) show ?thesis
    by (simp add: apart_simps)
qed

subsection \<open>The view of the program\<close>

text \<open>The bytes a block lends to the program.\<close>

definition user :: "abi \<Rightarrow> blk \<Rightarrow> int set" where
  "user M b = {baddr b + hdr M..<bend M b}"

text \<open>\<open>bs'\<close> still has the blocks of \<open>bs\<close> that are in use, but possibly \<open>b\<close>.\<close>

definition keeps_used :: "blk list \<Rightarrow> blk set \<Rightarrow> blk list \<Rightarrow> bool" where
  "keeps_used bs X bs' \<longleftrightarrow> (\<forall>c \<in> set bs. \<not> bfree c \<longrightarrow> c \<notin> X \<longrightarrow> c \<in> set bs')"

text \<open>The kernel grants every request of the sizes the allocator can make.\<close>

definition granted :: "abi \<Rightarrow> heap \<Rightarrow> bool" where
  "granted M st \<longleftrightarrow> (\<forall>k. 0 \<le> k \<longrightarrow> k \<le> 2 * MAX_SIZE \<longrightarrow> grants M (brk st) k)"

end
