(* ===== verification/Malloc_3.thy ===== *)
theory Malloc_3
  imports Heap_Blocks
begin

text \<open>
  HW4, \<^verbatim>\<open>HW4/malloc_3.cpp\<close>: the allocator that splits large free blocks, merges adjacent free
  blocks and extends the last one (the wilderness). One definition per function of the file, with
  the reads and writes of headers in the order of the code; a header that is filled in field by
  field is written once. The loop of \<open>find_free_allocation_address\<close> is a partial function, since
  it need not end on a damaged list.
\<close>

definition REMAIN :: int where "REMAIN = 128"

definition round4 :: "int \<Rightarrow> int" where
  "round4 siz = (if siz mod 4 \<noteq> 0 then let offset = siz mod 4 in siz + (4 - offset) else siz)"

definition is_free_wilderness :: "int \<Rightarrow> heap \<Rightarrow> stuck + bool" where
  "is_free_wilderness it st = sbind (get it st) (\<lambda>n. Inr (next_node n = head st \<and> is_freed n))"

definition setFree :: "abi \<Rightarrow> int \<Rightarrow> heap \<Rightarrow> stuck + heap" where
  "setFree M p1 st = sbind (get p1 st) (\<lambda>n.
     if is_freed n then Inr st
     else sbind (upd M p1 (\<lambda>t. t\<lparr>is_freed := True\<rparr>) st) (\<lambda>st1.
       Inr (st1\<lparr>num_free_blocks := szt M (num_free_blocks st1 + 1),
                num_free_bytes := szt M (num_free_bytes st1 + size_of_allocation n)\<rparr>)))"

definition setUsed :: "abi \<Rightarrow> int \<Rightarrow> heap \<Rightarrow> stuck + heap" where
  "setUsed M p1 st = sbind (get p1 st) (\<lambda>n.
     if \<not> is_freed n then Inr st
     else sbind (upd M p1 (\<lambda>t. t\<lparr>is_freed := False\<rparr>) st) (\<lambda>st1.
       Inr (st1\<lparr>num_free_blocks := szt M (num_free_blocks st1 - 1),
                num_free_bytes := szt M (num_free_bytes st1 - size_of_allocation n)\<rparr>)))"

definition connect_counts :: "abi \<Rightarrow> node \<Rightarrow> node \<Rightarrow> heap \<Rightarrow> heap" where
  "connect_counts M n1 n2 st =
     (if is_freed n1
      then if is_freed n2
           then st\<lparr>num_free_blocks := szt M (num_free_blocks st - 1),
                   num_allocated_blocks := szt M (num_allocated_blocks st - 1),
                   num_allocated_bytes := szt M (num_allocated_bytes st + hdr M),
                   num_free_bytes := szt M (num_free_bytes st + hdr M),
                   num_meta_data_blocks := szt M (num_meta_data_blocks st - 1)\<rparr>
           else st
      else if is_freed n2
           then st\<lparr>num_free_blocks := szt M (num_free_blocks st - 1),
                   num_allocated_blocks := szt M (num_allocated_blocks st - 1),
                   num_allocated_bytes := szt M (num_allocated_bytes st + hdr M),
                   num_free_bytes := szt M (num_free_bytes st - size_of_allocation n2),
                   num_meta_data_blocks := szt M (num_meta_data_blocks st - 1)\<rparr>
           else st)"

definition connect :: "abi \<Rightarrow> int \<Rightarrow> int \<Rightarrow> heap \<Rightarrow> stuck + heap" where
  "connect M p1 p2 st =
     (if p1 = 0 \<or> p2 = 0 then Inr st
      else sbind (get p2 st) (\<lambda>n2.
           sbind (upd M p1 (\<lambda>t. t\<lparr>size_of_allocation := size_of_allocation t + (size_of_allocation n2 + hdr M)\<rparr>) st) (\<lambda>st1.
           sbind (get p2 st1) (\<lambda>n2.
           sbind (upd M p1 (\<lambda>t. t\<lparr>next_node := next_node n2\<rparr>) st1) (\<lambda>st2.
           sbind (get p2 st2) (\<lambda>n2.
           sbind (upd M (next_node n2) (\<lambda>t. t\<lparr>prev_node := p1\<rparr>) st2) (\<lambda>st3.
           sbind (get p1 st3) (\<lambda>n1.
           sbind (get p2 st3) (\<lambda>n2.
           Inr (connect_counts M n1 n2 st3))))))))))"

definition checkIfFreeAndConnect :: "abi \<Rightarrow> int \<Rightarrow> heap \<Rightarrow> stuck + heap" where
  "checkIfFreeAndConnect M p1 st =
     sbind (get p1 st) (\<lambda>n.
     let up = next_node n; down = prev_node n in
     if p1 = head st
     then sbind (get up st) (\<lambda>u. if up \<noteq> head st \<and> is_freed u then connect M p1 up st else Inr st)
     else sbind (get down st) (\<lambda>d.
       if down \<noteq> p1 \<and> is_freed d \<and> is_freed n
       then sbind (connect M down p1 st) (\<lambda>st1.
            sbind (get up st1) (\<lambda>u. if up \<noteq> head st \<and> is_freed u then connect M down up st1 else Inr st1))
       else sbind (get up st) (\<lambda>u.
            if up \<noteq> head st \<and> is_freed u \<and> is_freed n then connect M p1 up st else Inr st)))"

definition split_block :: "abi \<Rightarrow> int \<Rightarrow> int \<Rightarrow> heap \<Rightarrow> stuck + heap" where
  "split_block M p1 req_size st =
     sbind (get p1 st) (\<lambda>n.
     sbind (if is_freed n then setUsed M p1 st else Inr st) (\<lambda>st1.
     sbind (get p1 st1) (\<lambda>n.
     let split = allocation_start_ptr n + req_size;
         st2 = st1\<lparr>num_meta_data_blocks := szt M (num_meta_data_blocks st1 + 1),
                   num_allocated_blocks := szt M (num_allocated_blocks st1 + 1),
                   num_allocated_bytes := szt M (num_allocated_bytes st1 - hdr M)\<rparr>;
         st3 = put M split \<lparr>is_freed = False, allocation_start_ptr = split + hdr M,
                   size_of_allocation = size_of_allocation n - req_size - hdr M,
                   next_node = next_node n, prev_node = p1\<rparr> st2
     in sbind (setFree M split st3) (\<lambda>st4.
        sbind (upd M p1 (\<lambda>t. t\<lparr>size_of_allocation := req_size\<rparr>) st4) (\<lambda>st5.
        sbind (get p1 st5) (\<lambda>n.
        sbind (upd M (next_node n) (\<lambda>t. t\<lparr>prev_node := split\<rparr>) st5) (\<lambda>st6.
        sbind (upd M p1 (\<lambda>t. t\<lparr>next_node := split\<rparr>) st6) (\<lambda>st7.
        checkIfFreeAndConnect M split st7))))))))"

definition wilderness :: "abi \<Rightarrow> int \<Rightarrow> heap \<Rightarrow> stuck + (heap \<times> int)" where
  "wilderness M req_size st =
     sbind (get (head st) st) (\<lambda>h.
     let w = prev_node h in
     sbind (get w st) (\<lambda>n.
     if req_size < conv M (size_of_allocation n) then Inr (st, allocation_start_ptr n)
     else let offset = req_size - size_of_allocation n in
       (case sbrk M offset st of (st1, n_break) \<Rightarrow>
          sbind (reads_minus_one n_break st1) (\<lambda>b.
          if b then Inr (st1, n_break)
          else sbind (setUsed M w st1) (\<lambda>st2.
               sbind (upd M w (\<lambda>t. t\<lparr>size_of_allocation := size_of_allocation t + offset\<rparr>) st2) (\<lambda>st3.
               let st4 = st3\<lparr>num_allocated_bytes := szt M (num_allocated_bytes st3 + offset)\<rparr>
               in sbind (get w st4) (\<lambda>n. Inr (st4, allocation_start_ptr n))))))))"

text \<open>The header at the first break is fresh memory of the kernel, so its \<open>is_freed\<close> is false.\<close>

definition first_allocation :: "abi \<Rightarrow> int \<Rightarrow> heap \<Rightarrow> stuck + (heap \<times> int)" where
  "first_allocation M req_size st =
     (case sbrk M (req_size + hdr M) (st\<lparr>first_alloc := False\<rparr>) of (st1, n_break) \<Rightarrow>
        sbind (reads_minus_one n_break st1) (\<lambda>b.
        if b then Inr (st1\<lparr>first_alloc := True\<rparr>, 0)
        else Inr (put M n_break \<lparr>is_freed = False, allocation_start_ptr = n_break + hdr M,
                    size_of_allocation = req_size, next_node = n_break, prev_node = n_break\<rparr>
                 (st1\<lparr>head := n_break, list_size := 1, num_allocated_blocks := 1,
                    num_allocated_bytes := req_size, num_free_bytes := 0, num_meta_data_blocks := 1,
                    num_meta_data_bytes := hdr M\<rparr>), n_break + hdr M)))"

text \<open>The loop returns the pointer it found, if any.\<close>

partial_function (option) find_loop ::
  "abi \<Rightarrow> int \<Rightarrow> int \<Rightarrow> int \<Rightarrow> heap \<Rightarrow> (stuck + (heap \<times> int option)) option" where
  "find_loop M req_size list_head iterator st =
     (case get iterator st of Inl e \<Rightarrow> Some (Inl e)
      | Inr n \<Rightarrow>
        if conv M (size_of_allocation n) \<ge> req_size \<and> is_freed n
        then Some (sbind (if conv M (size_of_allocation n - req_size - hdr M) < REMAIN
                          then setUsed M iterator st else split_block M iterator req_size st) (\<lambda>st1.
                   sbind (get iterator st1) (\<lambda>n1. Inr (st1, Some (allocation_start_ptr n1)))))
        else if next_node n = list_head then Some (Inr (st, None))
        else find_loop M req_size list_head (next_node n) st)"

definition looped :: "(stuck + 'a) option \<Rightarrow> stuck + 'a" where
  "looped r = (case r of None \<Rightarrow> Inl Diverged | Some x \<Rightarrow> x)"

definition find_free_allocation_address :: "abi \<Rightarrow> int \<Rightarrow> heap \<Rightarrow> stuck + (heap \<times> int)" where
  "find_free_allocation_address M req_size st =
     sbind (looped (find_loop M req_size (head st) (head st) st)) (\<lambda>(st1, found).
     case found of
       Some p \<Rightarrow> Inr (st1, p)
     | None \<Rightarrow>
         sbind (get (head st1) st1) (\<lambda>h.
         sbind (is_free_wilderness (prev_node h) st1) (\<lambda>w.
         if w then wilderness M req_size st1 else Inr (st1, 0))))"

definition append_block :: "abi \<Rightarrow> int \<Rightarrow> int \<Rightarrow> heap \<Rightarrow> stuck + (heap \<times> int)" where
  "append_block M n_break siz st =
     (let st1 = st\<lparr>list_size := szt M (list_size st + 1),
            num_allocated_blocks := szt M (num_allocated_blocks st + 1),
            num_allocated_bytes := szt M (num_allocated_bytes st + siz),
            num_meta_data_blocks := szt M (num_meta_data_blocks st + 1)\<rparr>
      in sbind (get (head st1) st1) (\<lambda>h.
         let new = n_break;
             st2 = put M new \<lparr>is_freed = False, allocation_start_ptr = new + hdr M,
                     size_of_allocation = siz, next_node = head st1, prev_node = prev_node h\<rparr> st1
         in sbind (upd M (prev_node h) (\<lambda>t. t\<lparr>next_node := new\<rparr>) st2) (\<lambda>st3.
            sbind (upd M (head st1) (\<lambda>t. t\<lparr>prev_node := new\<rparr>) st3) (\<lambda>st4.
            Inr (st4, new + hdr M)))))"

definition malloc :: "abi \<Rightarrow> int \<Rightarrow> heap \<Rightarrow> stuck + (heap \<times> int)" where
  "malloc M siz st =
     (if siz > MAX_SIZE \<or> siz = 0 then Inr (st, 0)
      else let siz = round4 siz in
      if first_alloc st then first_allocation M siz st
      else sbind (find_free_allocation_address M siz st) (\<lambda>(st1, n_break).
        if n_break \<noteq> 0
        then sbind (reads_minus_one n_break st1) (\<lambda>b. Inr (st1, if b then 0 else n_break))
        else (case sbrk M (siz + hdr M) st1 of (st2, n_break) \<Rightarrow>
             sbind (reads_minus_one n_break st2) (\<lambda>b.
             if b then Inr (st2, 0) else append_block M n_break siz st2))))"

definition free :: "abi \<Rightarrow> int \<Rightarrow> heap \<Rightarrow> stuck + heap" where
  "free M p st =
     (if p = 0 then Inr st
      else let q = p - hdr M in
      sbind (get q st) (\<lambda>n.
      if is_freed n then Inr st
      else sbind (setFree M q st) (checkIfFreeAndConnect M q)))"

definition calloc :: "abi \<Rightarrow> int \<Rightarrow> int \<Rightarrow> heap \<Rightarrow> stuck + (heap \<times> int)" where
  "calloc M num siz st =
     sbind (malloc M (szt M (num * siz)) st) (\<lambda>(st1, new_ptr).
     if new_ptr = 0 then Inr (st1, 0)
     else sbind (get (new_ptr - hdr M) st1) (\<lambda>n.
          Inr (memset M (allocation_start_ptr n) 0 (szt M (num * siz)) st1, new_ptr)))"

text \<open>The last part of \<open>realloc\<close>: a new block, the copy, the old block freed.\<close>

definition realloc_move :: "abi \<Rightarrow> int \<Rightarrow> int \<Rightarrow> heap \<Rightarrow> stuck + (heap \<times> int)" where
  "realloc_move M oldp siz st =
     sbind (malloc M siz st) (\<lambda>(st1, temp_alloc).
     if temp_alloc = 0 then Inr (st1, 0)
     else sbind (get (temp_alloc - hdr M) st1) (\<lambda>t.
          sbind (get (oldp - hdr M) st1) (\<lambda>n.
          let st2 = memcpy M (allocation_start_ptr t) (allocation_start_ptr n) (size_of_allocation n) st1
          in sbind (free M oldp st2) (\<lambda>st3.
             sbind (get (temp_alloc - hdr M) st3) (\<lambda>t. Inr (st3, allocation_start_ptr t))))))"

definition realloc_last :: "abi \<Rightarrow> int \<Rightarrow> int \<Rightarrow> heap \<Rightarrow> stuck + (heap \<times> int)" where
  "realloc_last M oldp siz st =
     (let q = oldp - hdr M in
      sbind (get q st) (\<lambda>n.
      let prev_status = is_freed n in
      sbind (if \<not> is_freed n
             then sbind (upd M q (\<lambda>t. t\<lparr>is_freed := True\<rparr>) st) (setFree M q)
             else Inr st) (\<lambda>st1.
      sbind (get (head st1) st1) (\<lambda>h.
      sbind (is_free_wilderness (prev_node h) st1) (\<lambda>w.
      if w
      then sbind (if prev_status then Inr st1 else upd M q (\<lambda>t. t\<lparr>is_freed := False\<rparr>) st1)
             (wilderness M siz)
      else realloc_move M oldp siz st1)))))"

definition trim :: "abi \<Rightarrow> int \<Rightarrow> int \<Rightarrow> heap \<Rightarrow> stuck + heap" where
  "trim M q siz st =
     sbind (get q st) (\<lambda>n.
     if conv M (size_of_allocation n - siz - hdr M) \<ge> REMAIN then split_block M q siz st else Inr st)"

definition realloc :: "abi \<Rightarrow> int \<Rightarrow> int \<Rightarrow> heap \<Rightarrow> stuck + (heap \<times> int)" where
  "realloc M oldp siz st =
     (if oldp = 0 then malloc M siz st
      else if siz = 0 \<or> siz > MAX_SIZE then Inr (st, 0)
      else let siz = round4 siz; q = oldp - hdr M in
      sbind (get q st) (\<lambda>n.
      if conv M (size_of_allocation n) \<ge> siz
      then sbind (trim M q siz st) (\<lambda>st1. Inr (st1, oldp))
      else let up = next_node n in
      sbind (get up st) (\<lambda>u.
      if up \<noteq> head st \<and> is_freed u \<and>
         conv M (size_of_allocation n + size_of_allocation u + hdr M) \<ge> siz
      then sbind (connect M q up st) (\<lambda>st1. sbind (trim M q siz st1) (\<lambda>st2. Inr (st2, oldp)))
      else sbind (get (head st) st) (\<lambda>h.
           if prev_node h = q then realloc_last M oldp siz st else realloc_move M oldp siz st))))"

end
