(* ===== verification/Malloc_3_Steps.thy ===== *)
theory Malloc_3_Steps
  imports Malloc_3
begin

text \<open>
  HW4, the effect of each helper of \<^verbatim>\<open>HW4/malloc_3.cpp\<close> on the represented blocks: from a heap that
  represents \<open>bs\<close> the helper does not fault and leaves a heap that represents the changed list,
  and it writes no memory but headers of the old and the new list.
\<close>

text \<open>The bytes of the headers, and the rest of the memory being kept.\<close>

definition hdrs :: "abi \<Rightarrow> blk list \<Rightarrow> int set" where
  "hdrs M bs = {x. \<exists>b \<in> set bs. baddr b \<le> x \<and> x < baddr b + hdr M}"

definition kept :: "int set \<Rightarrow> heap \<Rightarrow> heap \<Rightarrow> bool" where
  "kept S st st' \<longleftrightarrow> (\<forall>x. x \<notin> S \<longrightarrow> mem st' x = mem st x)"

lemma hdrs_simps [simp]: "hdrs M [] = {}" "hdrs M (xs @ ys) = hdrs M xs \<union> hdrs M ys"
  "hdrs M (b # bs) = {baddr b..<baddr b + hdr M} \<union> hdrs M bs"
  by (auto simp: hdrs_def)

lemma kept_refl [simp]: "kept S st st" by (simp add: kept_def)

lemma kept_trans: "kept S st st1 \<Longrightarrow> kept T st1 st2 \<Longrightarrow> S \<subseteq> U \<Longrightarrow> T \<subseteq> U \<Longrightarrow> kept U st st2"
  by (fastforce simp: kept_def)

lemma kept_mono: "kept S st st1 \<Longrightarrow> S \<subseteq> U \<Longrightarrow> kept U st st1"
  by (auto simp: kept_def)

lemma quiet_kept: "quiet M (baddr ` set bs) st st' \<Longrightarrow> kept (hdrs M bs) st st'"
  unfolding kept_def
proof (intro allI impI)
  fix x
  assume "quiet M (baddr ` set bs) st st'" "x \<notin> hdrs M bs"
  then show "mem st' x = mem st x" by (intro quiet_sel(9)) (auto simp: hdrs_def)
qed

lemma bfree_same [simp]: "\<not> bfree b \<Longrightarrow> b\<lparr>bfree := False\<rparr> = b"
  by (cases b) simp

lemma contig_same:
  "baddr b' = baddr b \<Longrightarrow> bsize b' = bsize b \<Longrightarrow> contig M a (xs @ b' # ys) e = contig M a (xs @ b # ys) e"
  by (induction xs arbitrary: a) auto

lemma apart_same: "baddr b' = baddr b \<Longrightarrow> apart M (xs @ b' # ys) = apart M (xs @ b # ys)"
  by (auto simp: apart_simps)

lemma laid_same:
  "baddr b' = baddr b \<Longrightarrow> bsize b' = bsize b \<Longrightarrow> laid M st (xs @ b' # ys) = laid M st (xs @ b # ys)"
  using contig_same [of b' b M "head st" xs ys "brk st"] by (simp add: laid_def)

lemma laid_counters [simp]:
  "laid M (st\<lparr>num_free_blocks := v\<rparr>) bs = laid M st bs" "laid M (st\<lparr>num_free_bytes := v\<rparr>) bs = laid M st bs"
  "laid M (st\<lparr>num_allocated_blocks := v\<rparr>) bs = laid M st bs"
  "laid M (st\<lparr>num_allocated_bytes := v\<rparr>) bs = laid M st bs"
  "laid M (st\<lparr>num_meta_data_blocks := v\<rparr>) bs = laid M st bs" "laid M (st\<lparr>list_size := v\<rparr>) bs = laid M st bs"
  by (simp_all add: laid_def)

lemma kept_counters [simp]:
  "kept S st (st'\<lparr>num_free_blocks := v\<rparr>) = kept S st st'" "kept S st (st'\<lparr>num_free_bytes := v\<rparr>) = kept S st st'"
  "kept S st (st'\<lparr>num_allocated_blocks := v\<rparr>) = kept S st st'"
  "kept S st (st'\<lparr>num_allocated_bytes := v\<rparr>) = kept S st st'"
  "kept S st (st'\<lparr>num_meta_data_blocks := v\<rparr>) = kept S st st'" "kept S st (st'\<lparr>list_size := v\<rparr>) = kept S st st'"
  "kept S st (st'\<lparr>brk := b\<rparr>) = kept S st st'"
  by (simp_all add: kept_def)

text \<open>\<open>yields r st bs'\<close>: the computation returns a heap that represents \<open>bs'\<close>.\<close>

definition yields :: "abi \<Rightarrow> stuck + heap \<Rightarrow> heap \<Rightarrow> blk list \<Rightarrow> blk list \<Rightarrow> bool" where
  "yields M r st bs bs' \<longleftrightarrow> (\<exists>st'. r = Inr st' \<and> rep M st' bs' \<and> kept (hdrs M bs \<union> hdrs M bs') st st')"

subsection \<open>Marking\<close>

lemma setFree_linked:
  assumes "linked M (nodes st) (xs @ b # ys)" "apart M (xs @ b # ys)" "0 < hdr M" "\<not> bfree b"
  shows "\<exists>st1. setFree M (baddr b) st = Inr (st1\<lparr>num_free_blocks := szt M (num_free_blocks st1 + 1),
      num_free_bytes := szt M (num_free_bytes st1 + bsize b)\<rparr>) \<and>
    linked M (nodes st1) (xs @ b\<lparr>bfree := True\<rparr> # ys) \<and> quiet M {baddr b} st st1"
  using linked_change [OF assms(1-3), of "\<lambda>t. t\<lparr>is_freed := True\<rparr>" "b\<lparr>bfree := True\<rparr>"] assms(4)
  by (auto simp: setFree_def linked_get [OF assms(1)])

lemma setUsed_linked:
  assumes "linked M (nodes st) (xs @ b # ys)" "apart M (xs @ b # ys)" "0 < hdr M" "bfree b"
  shows "\<exists>st1. setUsed M (baddr b) st = Inr (st1\<lparr>num_free_blocks := szt M (num_free_blocks st1 - 1),
      num_free_bytes := szt M (num_free_bytes st1 - bsize b)\<rparr>) \<and>
    linked M (nodes st1) (xs @ b\<lparr>bfree := False\<rparr> # ys) \<and> quiet M {baddr b} st st1"
  using linked_change [OF assms(1-3), of "\<lambda>t. t\<lparr>is_freed := False\<rparr>" "b\<lparr>bfree := False\<rparr>"] assms(4)
  by (auto simp: setUsed_def linked_get [OF assms(1)])

lemma rep_parts:
  assumes "rep M st bs" "0 < hdr M"
  shows "laid M st bs" "linked M (nodes st) bs" "counted M st bs" "apart M bs" "contig M (head st) bs (brk st)"
  using assms rep_apart [OF assms] by (auto simp: rep_def laid_def)

lemma setFree_rep:
  assumes r: "rep M st (xs @ b # ys)" and h: "0 < hdr M" and b: "\<not> bfree b"
  shows "yields M (setFree M (baddr b) st) st (xs @ b # ys) (xs @ b\<lparr>bfree := True\<rparr> # ys)"
proof -
  note R = rep_parts [OF r h]
  obtain st1 where s: "setFree M (baddr b) st = Inr (st1\<lparr>num_free_blocks := szt M (num_free_blocks st1 + 1),
      num_free_bytes := szt M (num_free_bytes st1 + bsize b)\<rparr>)"
    "linked M (nodes st1) (xs @ b\<lparr>bfree := True\<rparr> # ys)" "quiet M {baddr b} st st1"
    using setFree_linked [OF R(2,4) h b] by blast
  have q: "quiet M (baddr ` set (xs @ b # ys)) st st1" by (rule quiet_mono [OF s(3)]) simp
  have "laid M st1 (xs @ b\<lparr>bfree := True\<rparr> # ys)"
    using laid_quiet [OF q R(5,1) h] laid_same [of "b\<lparr>bfree := True\<rparr>" b M st1 xs ys] by simp
  moreover have "kept (hdrs M (xs @ b # ys) \<union> hdrs M (xs @ b\<lparr>bfree := True\<rparr> # ys)) st st1"
    by (rule kept_mono [OF quiet_kept [OF q]]) simp
  moreover have "counted M st1 (xs @ b # ys)" using R(3) counted_quiet [OF q] by simp
  ultimately show ?thesis
    using s(1,2) b by (simp add: yields_def rep_def counted_def szt_simps algebra_simps del: hdrs_simps)
qed

lemma setUsed_rep:
  assumes r: "rep M st (xs @ b # ys)" and h: "0 < hdr M" and b: "bfree b"
  shows "yields M (setUsed M (baddr b) st) st (xs @ b # ys) (xs @ b\<lparr>bfree := False\<rparr> # ys)"
proof -
  note R = rep_parts [OF r h]
  obtain st1 where s: "setUsed M (baddr b) st = Inr (st1\<lparr>num_free_blocks := szt M (num_free_blocks st1 - 1),
      num_free_bytes := szt M (num_free_bytes st1 - bsize b)\<rparr>)"
    "linked M (nodes st1) (xs @ b\<lparr>bfree := False\<rparr> # ys)" "quiet M {baddr b} st st1"
    using setUsed_linked [OF R(2,4) h b] by blast
  have q: "quiet M (baddr ` set (xs @ b # ys)) st st1" by (rule quiet_mono [OF s(3)]) simp
  have "laid M st1 (xs @ b\<lparr>bfree := False\<rparr> # ys)"
    using laid_quiet [OF q R(5,1) h] laid_same [of "b\<lparr>bfree := False\<rparr>" b M st1 xs ys] by simp
  moreover have "kept (hdrs M (xs @ b # ys) \<union> hdrs M (xs @ b\<lparr>bfree := False\<rparr> # ys)) st st1"
    by (rule kept_mono [OF quiet_kept [OF q]]) simp
  moreover have "counted M st1 (xs @ b # ys)" using R(3) counted_quiet [OF q] by simp
  ultimately show ?thesis
    using s(1,2) b by (simp add: yields_def rep_def counted_def szt_simps algebra_simps del: hdrs_simps)
qed

subsection \<open>Merging\<close>

definition join :: "abi \<Rightarrow> blk \<Rightarrow> blk \<Rightarrow> blk" where
  "join M a b = a\<lparr>bsize := bsize a + (bsize b + hdr M)\<rparr>"

lemma join_sel [simp]: "baddr (join M a b) = baddr a" "bfree (join M a b) = bfree a"
  "bsize (join M a b) = bsize a + (bsize b + hdr M)"
  by (simp_all add: join_def)

lemma contig_join:
  "contig M s (xs @ a # b # ys) e \<Longrightarrow> 0 < hdr M \<Longrightarrow> contig M s (xs @ join M a b # ys) e"
  by (auto simp: contig_append algebra_simps)

lemma connect_rep:
  assumes r: "rep M st (xs @ a # b # ys)" and h: "0 < hdr M" and b: "bfree b"
  shows "yields M (connect M (baddr a) (baddr b) st) st (xs @ a # b # ys) (xs @ join M a b # ys)"
proof -
  note R = rep_parts [OF r h]
  have pos: "baddr a \<noteq> 0" "baddr b \<noteq> 0" using rep_addr(1) [OF r h, of a] rep_addr(1) [OF r h, of b] by auto
  have ab: "hdr M \<le> \<bar>baddr b - baddr a\<bar>" using R(4) by (auto simp: apart_simps)
  let ?n = "haddr ys (haddr xs (baddr a))" and ?j = "join M a b"
  have g0: "get (baddr b) st = Inr (node_of M b ?n (laddr (laddr (baddr b) ys) (xs @ [a])))"
    using rep_get [of M st "xs @ [a]" b ys] r by simp
  have f: "(\<lambda>t. t\<lparr>size_of_allocation := size_of_allocation t + (bsize b + hdr M)\<rparr>) (node_of M a nx pv) = node_of M ?j nx pv"
    for nx pv by (simp add: join_def)
  obtain st1 where s1: "upd M (baddr a) (\<lambda>t. t\<lparr>size_of_allocation := size_of_allocation t + (bsize b + hdr M)\<rparr>) st = Inr st1"
    "linked M (nodes st1) (xs @ ?j # b # ys)" "quiet M {baddr a} st st1" "nodes st1 (baddr b) = nodes st (baddr b)"
    using linked_change [OF R(2,4) h f] ab by auto
  have A1: "apart M (xs @ ?j # b # ys)" using R(4) by (simp add: apart_simps)
  obtain st2 st3 where s3: "upd M (baddr a) (\<lambda>t. t\<lparr>next_node := ?n\<rparr>) st1 = Inr st2"
    "upd M ?n (\<lambda>t. t\<lparr>prev_node := baddr a\<rparr>) st2 = Inr st3" "linked M (nodes st3) (xs @ ?j # ys)"
    "nodes st2 (baddr b) = nodes st1 (baddr b)" "nodes st3 (baddr b) = nodes st1 (baddr b)"
    "quiet M (baddr ` set (xs @ ?j # ys)) st1 st3"
    using linked_unlink [OF s1(2) A1 h] by auto
  have g: "get (baddr b) st1 = get (baddr b) st" "get (baddr b) st2 = get (baddr b) st"
    "get (baddr b) st3 = get (baddr b) st"
    using s1(4) s3(4,5) by (simp_all add: get_def)
  have q: "quiet M (baddr ` set (xs @ a # b # ys)) st st3"
    by (rule quiet_trans [OF quiet_mono [OF s1(3)] quiet_mono [OF s3(6)]]) auto
  have e: "connect M (baddr a) (baddr b) st =
      Inr (connect_counts M (node_of M ?j (haddr ys (haddr xs (baddr a))) (laddr (laddr (baddr a) ys) xs))
        (node_of M b ?n (laddr (laddr (baddr b) ys) (xs @ [a]))) st3)"
    using pos s1(1) s3(1,2) linked_get [OF s3(3)] by (simp add: connect_def g0 g)
  have "laid M st3 (xs @ a # b # ys)" by (rule laid_quiet [OF q R(5,1) h])
  then have "laid M st3 (xs @ ?j # ys)" using contig_join [OF _ h] by (auto simp: laid_def)
  moreover have "counted M st3 (xs @ a # b # ys)" using R(3) counted_quiet [OF q] by simp
  moreover have "kept (hdrs M (xs @ a # b # ys)) st st3" by (rule quiet_kept [OF q])
  ultimately show ?thesis
    using e s3(3) b
    by (auto simp: yields_def rep_def counted_def connect_counts_def szt_simps algebra_simps intro: kept_mono)
qed

lemma yields_bind:
  assumes "yields M r st bs bs1" and "\<And>st1. rep M st1 bs1 \<Longrightarrow> yields M (f st1) st1 bs1 bs2"
    and "hdrs M bs1 \<subseteq> hdrs M bs \<union> hdrs M bs2"
  shows "yields M (sbind r f) st bs bs2"
proof -
  obtain st1 where s: "r = Inr st1" "rep M st1 bs1" "kept (hdrs M bs \<union> hdrs M bs1) st st1"
    using assms(1) by (auto simp: yields_def)
  obtain st2 where t: "f st1 = Inr st2" "rep M st2 bs2" "kept (hdrs M bs1 \<union> hdrs M bs2) st1 st2"
    using assms(2) [OF s(2)] by (auto simp: yields_def)
  have "kept (hdrs M bs \<union> hdrs M bs2) st st2"
    by (rule kept_trans [OF s(3) t(3)]) (use assms(3) in auto)
  with s(1) t(1,2) show ?thesis by (simp add: yields_def)
qed

lemma yields_refl: "rep M st bs \<Longrightarrow> yields M (Inr st) st bs bs"
  by (simp add: yields_def)

text \<open>\<open>settle\<close>: a free block is merged with a free block before it and a free block behind it.\<close>

fun join_next :: "abi \<Rightarrow> blk \<Rightarrow> blk list \<Rightarrow> blk list" where
  "join_next M a [] = [a]"
| "join_next M a (c # ys) = (if bfree c then join M a c # ys else a # c # ys)"

fun settle :: "abi \<Rightarrow> blk list \<Rightarrow> blk \<Rightarrow> blk list \<Rightarrow> blk list" where
  "settle M [] b ys = join_next M b ys"
| "settle M [d] b ys = (if bfree d then join_next M (join M d b) ys else d # join_next M b ys)"
| "settle M (d # e # xs) b ys = d # settle M (e # xs) b ys"

lemma settle_snoc:
  "settle M (xs @ [d]) b ys = xs @ (if bfree d then join_next M (join M d b) ys else d # join_next M b ys)"
proof (induction xs)
  case (Cons x xs)
  then show ?case by (cases xs) simp_all
qed simp

lemma connect_next_rep:
  assumes r: "rep M st (xs @ b # ys)" and h: "0 < hdr M"
  defines "up \<equiv> haddr ys (haddr xs (baddr b))"
  shows "\<exists>u. get up st = Inr u"
    and "yields M (sbind (get up st) (\<lambda>u. if up \<noteq> head st \<and> is_freed u then connect M (baddr b) up st else Inr st))
      st (xs @ b # ys) (xs @ join_next M b ys)"
proof -
  have "(\<exists>u. get up st = Inr u) \<and>
    yields M (sbind (get up st) (\<lambda>u. if up \<noteq> head st \<and> is_freed u then connect M (baddr b) up st else Inr st))
      st (xs @ b # ys) (xs @ join_next M b ys)"
  proof (cases ys)
    case Nil
    have "up = head st" using rep_head [OF r] by (simp add: up_def Nil haddr_def split: list.split)
    moreover have "\<exists>u. get (head st) st = Inr u"
    proof (cases xs)
      case (Cons x xs')
      with rep_get [of M st "[]" x "xs' @ b # ys"] r rep_head [OF r] show ?thesis by simp
    qed (use rep_get [OF r] rep_head [OF r] in simp)
    ultimately show ?thesis using Nil r by (auto simp: yields_refl)
  next
    case (Cons c ys')
    have r': "rep M st ((xs @ [b]) @ c # ys')" using r Cons by simp
    have "up \<noteq> head st" using rep_is_head [OF r' h] by (simp add: up_def Cons)
    moreover have "get up st = Inr (node_of M c (haddr ys' (haddr (xs @ [b]) (baddr c))) (laddr (laddr (baddr c) ys') (xs @ [b])))"
      using rep_get [OF r'] by (simp add: up_def Cons)
    ultimately show ?thesis
      using connect_rep [OF r [unfolded Cons] h] yields_refl [OF r] by (simp add: Cons up_def)
  qed
  then show "\<exists>u. get up st = Inr u"
    and "yields M (sbind (get up st) (\<lambda>u. if up \<noteq> head st \<and> is_freed u then connect M (baddr b) up st else Inr st))
      st (xs @ b # ys) (xs @ join_next M b ys)" by auto
qed

lemma check_rep:
  assumes r: "rep M st (xs @ b # ys)" and h: "0 < hdr M" and b: "bfree b"
  shows "yields M (checkIfFreeAndConnect M (baddr b) st) st (xs @ b # ys) (settle M xs b ys)"
proof -
  note g = rep_get [OF r] and hd = rep_is_head [OF r h]
  show ?thesis
  proof (cases xs rule: rev_cases)
    case Nil
    with g hd connect_next_rep(2) [OF r h] show ?thesis
      by (simp add: checkIfFreeAndConnect_def Let_def cong: if_cong)
  next
    case (snoc zs d)
    have r': "rep M st (zs @ d # b # ys)" using r snoc by simp
    note gd = rep_get [OF r']
    have db: "baddr d \<noteq> baddr b" using rep_apart [OF r' h] h by (auto simp: apart_simps)
    let ?up = "haddr ys (haddr (zs @ [d]) (baddr b))"
    have up: "?up = haddr ys (haddr zs (baddr d))" by simp
    show ?thesis
    proof (cases "bfree d")
      case True
      have "yields M (sbind (connect M (baddr d) (baddr b) st) (\<lambda>st1. sbind (get ?up st1)
          (\<lambda>u. if ?up \<noteq> head st \<and> is_freed u then connect M (baddr d) ?up st1 else Inr st1)))
        st (zs @ d # b # ys) (zs @ join_next M (join M d b) ys)"
      proof (rule yields_bind [OF connect_rep [OF r' h b]])
        fix st1 assume r1: "rep M st1 (zs @ join M d b # ys)"
        have "head st1 = head st" using rep_head [OF r1] rep_head [OF r'] by simp
        with connect_next_rep(2) [OF r1 h]
        show "yields M (sbind (get ?up st1)
          (\<lambda>u. if ?up \<noteq> head st \<and> is_freed u then connect M (baddr d) ?up st1 else Inr st1))
          st1 (zs @ join M d b # ys) (zs @ join_next M (join M d b) ys)" by (simp cong: if_cong)
      qed auto
      with g gd hd db snoc b True show ?thesis
        by (simp add: checkIfFreeAndConnect_def Let_def settle_snoc cong: if_cong)
    next
      case False
      with g gd hd db snoc b connect_next_rep(2) [OF r h] show ?thesis
        by (simp add: checkIfFreeAndConnect_def Let_def settle_snoc cong: if_cong)
    qed
  qed
qed

subsection \<open>Splitting\<close>

definition used_part :: "int \<Rightarrow> blk \<Rightarrow> blk" where
  "used_part req b = b\<lparr>bsize := req, bfree := False\<rparr>"

definition rest_part :: "abi \<Rightarrow> int \<Rightarrow> blk \<Rightarrow> blk" where
  "rest_part M req b = \<lparr>baddr = baddr b + hdr M + req, bsize = bsize b - req - hdr M, bfree = True\<rparr>"

lemma part_sel [simp]:
  "baddr (used_part req b) = baddr b" "bsize (used_part req b) = req" "\<not> bfree (used_part req b)"
  "baddr (rest_part M req b) = baddr b + hdr M + req" "bsize (rest_part M req b) = bsize b - req - hdr M"
  "bfree (rest_part M req b)"
  by (simp_all add: used_part_def rest_part_def)

lemma contig_split:
  assumes "contig M a (xs @ b # ys) e" "0 < req" "0 < bsize b - req - hdr M"
  shows "contig M a (xs @ used_part req b # rest_part M req b # ys) e"
  using assms by (auto simp: contig_append algebra_simps)

lemma linked_away:
  assumes "linked M (nodes st) bs" "\<And>c. c \<in> set bs \<Longrightarrow> hdr M \<le> \<bar>baddr c - p\<bar>" "0 < hdr M"
  shows "linked M (nodes (put M p n st)) bs"
  using assms chain_away [of bs M p n st] by (simp add: linked_def)

text \<open>The part of \<open>split\<close> behind \<open>setUsed\<close>: the block \<open>b\<close> is in use.\<close>

lemma split_tail:
  assumes r: "rep M st1 (xs @ b # ys)" and h: "0 < hdr M" and b: "\<not> bfree b"
    and req: "0 < req" "0 < bsize b - req - hdr M"
  defines "s \<equiv> rest_part M req b" and "u \<equiv> used_part req b"
  shows "\<exists>n st4 st5 n1 st6 st7. get (baddr b) st1 = Inr n \<and> allocation_start_ptr n = baddr b + hdr M \<and>
    setFree M (baddr s) (put M (baddr s) \<lparr>is_freed = False, allocation_start_ptr = baddr s + hdr M,
        size_of_allocation = size_of_allocation n - req - hdr M, next_node = next_node n, prev_node = baddr b\<rparr>
      (st1\<lparr>num_meta_data_blocks := szt M (num_meta_data_blocks st1 + 1),
         num_allocated_blocks := szt M (num_allocated_blocks st1 + 1),
         num_allocated_bytes := szt M (num_allocated_bytes st1 - hdr M)\<rparr>)) = Inr st4 \<and>
    upd M (baddr b) (\<lambda>t. t\<lparr>size_of_allocation := req\<rparr>) st4 = Inr st5 \<and> get (baddr b) st5 = Inr n1 \<and>
    upd M (next_node n1) (\<lambda>t. t\<lparr>prev_node := baddr s\<rparr>) st5 = Inr st6 \<and>
    upd M (baddr b) (\<lambda>t. t\<lparr>next_node := baddr s\<rparr>) st6 = Inr st7 \<and>
    rep M st7 (xs @ u # s # ys) \<and> kept (hdrs M (xs @ u # s # ys)) st1 st7"
proof -
  note R = rep_parts [OF r h]
  have sel: "baddr u = baddr b" "bsize u = req" "\<not> bfree u" "baddr s = baddr b + hdr M + req"
    "bsize s = bsize b - req - hdr M" "bfree s"
    by (simp_all add: s_def u_def)
  have bb: "bsize b = req + (bsize s + hdr M)" using sel(5) by simp
  have C: "contig M (head st1) (xs @ u # s # ys) (brk st1)"
    unfolding s_def u_def by (rule contig_split [OF R(5) req])
  have A: "apart M (xs @ u # s # ys)" by (rule contig_apart [OF C h])
  have As: "apart M (xs @ b # s # ys)" using A sel(1) by (simp add: apart_simps)
  define st2 where "st2 = st1\<lparr>num_meta_data_blocks := szt M (num_meta_data_blocks st1 + 1),
         num_allocated_blocks := szt M (num_allocated_blocks st1 + 1),
         num_allocated_bytes := szt M (num_allocated_bytes st1 - hdr M)\<rparr>"
  define n where "n = haddr ys (haddr xs (baddr b))"
  define N where "N f = node_of M (s\<lparr>bfree := f\<rparr>) n (baddr b)" for f
  define st3 where "st3 = put M (baddr s) (N False) st2"
  have g: "get (baddr b) st1 = Inr (node_of M b n (laddr (laddr (baddr b) ys) xs))"
    using rep_get [OF r] by (simp add: n_def)
  have away: "hdr M \<le> \<bar>baddr c - baddr s\<bar>" if "c \<in> set (xs @ b # ys)" for c
    using that A sel h by (fastforce simp: apart_simps)
  have L3: "linked M (nodes (put M (baddr s) k st2)) (xs @ b # ys)" for k
    using R(2) away h by (intro linked_away) (simp_all add: st2_def)
  define st4 where "st4 = (put M (baddr s) (N True) st3)\<lparr>num_free_blocks := szt M (num_free_blocks st1 + 1),
      num_free_bytes := szt M (num_free_bytes st1 + bsize s)\<rparr>"
  have f4: "setFree M (baddr s) st3 = Inr st4"
    by (simp add: setFree_def st3_def N_def get_def upd_def nodes_put st4_def st2_def)
  have L4: "linked M (nodes st4) (xs @ b # ys)"
    using linked_away [OF L3 away h] by (simp add: st4_def st3_def)
  have s4: "nodes st4 (baddr s) = Some (node_of M s n (baddr b))"
    using sel(6) by (simp add: st4_def nodes_put N_def)
  have fu: "(\<lambda>t. t\<lparr>size_of_allocation := req\<rparr>) (node_of M b nx pv) = node_of M u nx pv" for nx pv
    using b by (simp add: u_def used_part_def node_of_def)
  obtain st5 where s5: "upd M (baddr b) (\<lambda>t. t\<lparr>size_of_allocation := req\<rparr>) st4 = Inr st5"
    "linked M (nodes st5) (xs @ u # ys)" "quiet M {baddr b} st4 st5"
    "nodes st5 (baddr s) = Some (node_of M s n (baddr b))"
    using linked_change [OF L4 R(4) h fu sel(1)] s4 sel(4) h req by auto
  have g5: "get (baddr b) st5 = Inr (node_of M u n (laddr (laddr (baddr b) ys) xs))"
    using linked_get [OF s5(2)] sel(1) by (simp add: n_def)
  obtain st6 st7 where s7: "upd M n (\<lambda>t. t\<lparr>prev_node := baddr s\<rparr>) st5 = Inr st6"
    "upd M (baddr b) (\<lambda>t. t\<lparr>next_node := baddr s\<rparr>) st6 = Inr st7" "linked M (nodes st7) (xs @ u # s # ys)"
    "quiet M (baddr ` set (xs @ u # ys)) st5 st7"
    using linked_link(1) [OF s5(2) A h] s5(4) sel(1) by (auto simp: n_def)
  have q: "quiet M (baddr ` set (xs @ u # s # ys)) st4 st7"
    by (rule quiet_trans [OF quiet_mono [OF s5(3)] quiet_mono [OF s7(4)]]) (use sel(1) in auto)
  have q1: "quiet M (baddr ` set (xs @ u # s # ys)) st2 (put M (baddr s) (N True) st3)"
    unfolding st3_def by (intro quiet_put_trans quiet_refl) auto
  have l1: "laid M st2 (xs @ u # s # ys)" using R(1) C by (simp add: st2_def laid_def)
  then have "laid M st4 (xs @ u # s # ys)"
    using laid_quiet [OF q1 _ l1 h] C by (simp add: st4_def st2_def)
  then have l: "laid M st7 (xs @ u # s # ys)"
    by (rule laid_quiet [OF q _ _ h, rotated]) (use C in \<open>simp add: st4_def st3_def st2_def\<close>)
  have c: "counted M st7 (xs @ u # s # ys)"
    using R(3) sel(2,3,6) bb b by (simp add: counted_quiet [OF q])
      (simp add: st4_def st3_def st2_def counted_def szt_simps algebra_simps)
  have "kept (hdrs M (xs @ u # s # ys)) st2 (put M (baddr s) (N True) st3)" by (rule quiet_kept [OF q1])
  then have "kept (hdrs M (xs @ u # s # ys)) st1 st4" by (simp add: st4_def st2_def kept_def)
  from kept_trans [OF this quiet_kept [OF q] subset_refl subset_refl]
  have k: "kept (hdrs M (xs @ u # s # ys)) st1 st7" .
  have "st3 = put M (baddr s) \<lparr>is_freed = False, allocation_start_ptr = baddr s + hdr M,
        size_of_allocation = bsize b - req - hdr M, next_node = n, prev_node = baddr b\<rparr> st2"
    using sel by (simp add: st3_def N_def node_of_def)
  with g f4 s5(1) g5 s7 l c k show ?thesis
    by (simp add: rep_def st2_def)
qed

lemma split_rep:
  assumes r: "rep M st (xs @ b # ys)" and h: "0 < hdr M"
    and req: "0 < req" "0 < bsize b - req - hdr M"
  shows "yields M (split_block M (baddr b) req st) st (xs @ b # ys)
    (xs @ used_part req b # join_next M (rest_part M req b) ys)"
proof -
  let ?b = "b\<lparr>bfree := False\<rparr>" and ?s = "rest_part M req b" and ?u = "used_part req b"
  have eq: "used_part req ?b = ?u" "rest_part M req ?b = ?s" by (simp_all add: used_part_def rest_part_def)
  define rest where "rest st1 = sbind (get (baddr b) st1) (\<lambda>n.
     let split = allocation_start_ptr n + req;
         st2 = st1\<lparr>num_meta_data_blocks := szt M (num_meta_data_blocks st1 + 1),
                   num_allocated_blocks := szt M (num_allocated_blocks st1 + 1),
                   num_allocated_bytes := szt M (num_allocated_bytes st1 - hdr M)\<rparr>;
         st3 = put M split \<lparr>is_freed = False, allocation_start_ptr = split + hdr M,
                   size_of_allocation = size_of_allocation n - req - hdr M,
                   next_node = next_node n, prev_node = baddr b\<rparr> st2
     in sbind (setFree M split st3) (\<lambda>st4.
        sbind (upd M (baddr b) (\<lambda>t. t\<lparr>size_of_allocation := req\<rparr>) st4) (\<lambda>st5.
        sbind (get (baddr b) st5) (\<lambda>n.
        sbind (upd M (next_node n) (\<lambda>t. t\<lparr>prev_node := split\<rparr>) st5) (\<lambda>st6.
        sbind (upd M (baddr b) (\<lambda>t. t\<lparr>next_node := split\<rparr>) st6) (\<lambda>st7.
        checkIfFreeAndConnect M split st7))))))" for st1
  have e: "split_block M (baddr b) req st = sbind (if bfree b then setUsed M (baddr b) st else Inr st) rest"
    using rep_get [OF r] by (simp add: split_block_def rest_def [abs_def])
  have y: "yields M (if bfree b then setUsed M (baddr b) st else Inr st) st (xs @ b # ys) (xs @ ?b # ys)"
  proof (cases "bfree b")
    case False
    with yields_refl [OF r] show ?thesis by simp
  qed (use setUsed_rep [OF r h] in simp)
  have z: "yields M (rest st1) st1 (xs @ ?b # ys) (xs @ ?u # join_next M ?s ys)"
    if r1: "rep M st1 (xs @ ?b # ys)" for st1
  proof -
    obtain n st4 st5 n1 st6 st7 where t: "get (baddr b) st1 = Inr n" "allocation_start_ptr n = baddr b + hdr M"
      "setFree M (baddr ?s) (put M (baddr ?s) \<lparr>is_freed = False, allocation_start_ptr = baddr ?s + hdr M,
        size_of_allocation = size_of_allocation n - req - hdr M, next_node = next_node n, prev_node = baddr b\<rparr>
      (st1\<lparr>num_meta_data_blocks := szt M (num_meta_data_blocks st1 + 1),
         num_allocated_blocks := szt M (num_allocated_blocks st1 + 1),
         num_allocated_bytes := szt M (num_allocated_bytes st1 - hdr M)\<rparr>)) = Inr st4"
      "upd M (baddr b) (\<lambda>t. t\<lparr>size_of_allocation := req\<rparr>) st4 = Inr st5" "get (baddr b) st5 = Inr n1"
      "upd M (next_node n1) (\<lambda>t. t\<lparr>prev_node := baddr ?s\<rparr>) st5 = Inr st6"
      "upd M (baddr b) (\<lambda>t. t\<lparr>next_node := baddr ?s\<rparr>) st6 = Inr st7"
      "rep M st7 (xs @ ?u # ?s # ys)" "kept (hdrs M (xs @ ?u # ?s # ys)) st1 st7"
      using split_tail [OF r1 h _ req(1)] req(2) unfolding eq by auto
    have rr: "rest st1 = checkIfFreeAndConnect M (baddr ?s) st7"
      using t(1-7) by (simp add: rest_def Let_def)
    have r7: "rep M st7 ((xs @ [?u]) @ ?s # ys)" using t(8) by simp
    obtain st8 where s8: "checkIfFreeAndConnect M (baddr ?s) st7 = Inr st8" "rep M st8 (xs @ ?u # join_next M ?s ys)"
      "kept (hdrs M (xs @ ?u # ?s # ys) \<union> hdrs M (xs @ ?u # join_next M ?s ys)) st7 st8"
      using check_rep [OF r7 h] by (auto simp: yields_def settle_snoc Un_assoc)
    have "hdrs M (xs @ ?u # ?s # ys) \<subseteq> hdrs M (xs @ ?b # ys) \<union> hdrs M (xs @ ?u # join_next M ?s ys)"
      by (cases ys) auto
    with kept_trans [OF t(9) s8(3)] have "kept (hdrs M (xs @ ?b # ys) \<union> hdrs M (xs @ ?u # join_next M ?s ys)) st1 st8"
      by blast
    with rr s8 show ?thesis by (simp add: yields_def)
  qed
  show ?thesis unfolding e by (rule yields_bind [OF y z]) simp_all
qed

subsection \<open>Growing\<close>

text \<open>Fresh memory is zero, so a read at the old break does not give -1.\<close>

lemma fresh_read:
  assumes "laid M st bs" "0 < hdr M" "mem st' = mem st"
  shows "reads_minus_one (brk st) st' = Inr False"
  using assms contig_bounds(1) [of M "head st" bs "brk st"] by (auto simp: laid_def reads_minus_one_def)

lemma rep_last:
  assumes "rep M st (xs @ [b])"
  shows "\<exists>h. get (head st) st = Inr h \<and> prev_node h = baddr b"
    and "get (baddr b) st = Inr (node_of M b (head st) (laddr (baddr b) xs))"
proof -
  show "\<exists>h. get (head st) st = Inr h \<and> prev_node h = baddr b"
  proof (cases xs)
    case Nil
    with rep_get [of M st "[]" b "[]"] rep_head [OF assms] assms show ?thesis by simp
  next
    case (Cons x xs')
    with rep_get [of M st "[]" x "xs' @ [b]"] rep_head [OF assms] assms show ?thesis by simp
  qed
  show "get (baddr b) st = Inr (node_of M b (head st) (laddr (baddr b) xs))"
    using rep_get [of M st xs b "[]"] rep_head [OF assms] assms by (cases xs) simp_all
qed

text \<open>
  Extending the last block, free or in use, by the missing bytes. The result is the state with the
  break moved; everything behind the old break is still zero.
\<close>

lemma wilderness_rep:
  assumes r: "rep M st (xs @ [b])" and h: "0 < hdr M" and req: "bsize b \<le> req"
    and conv: "conv M (bsize b) = bsize b" and g: "grants M (brk st) (req - bsize b)"
  shows "\<exists>st'. wilderness M req st = Inr (st', baddr b + hdr M) \<and>
    rep M st' (xs @ [used_part req b]) \<and> kept (hdrs M (xs @ [b])) st st'"
proof -
  note R = rep_parts [OF r h]
  define st1 where "st1 = st\<lparr>brk := brk st + (req - bsize b)\<rparr>"
  have brk: "bend M b = brk st" using contig_last R(5) by blast
  have b0: "0 < baddr b" "0 < bsize b" using rep_addr [OF r h, of b] by auto
  have rd: "reads_minus_one (brk st) st1 = Inr False"
    by (rule fresh_read [OF R(1) h]) (simp add: st1_def)
  have L1: "linked M (nodes st1) (xs @ b # [])" using R(2) by (simp add: st1_def)
  let ?b0 = "b\<lparr>bfree := False\<rparr>"
  obtain st2 where s2: "setUsed M (baddr b) st1 = Inr (st2\<lparr>num_free_blocks := szt M (num_free_blocks st1 - (if bfree b then 1 else 0)),
      num_free_bytes := szt M (num_free_bytes st1 - (if bfree b then bsize b else 0))\<rparr>)"
    "linked M (nodes st2) (xs @ [?b0])" "quiet M {baddr b} st1 st2"
  proof (cases "bfree b")
    case True
    obtain t where t: "setUsed M (baddr b) st1 = Inr (t\<lparr>num_free_blocks := szt M (num_free_blocks t - 1),
      num_free_bytes := szt M (num_free_bytes t - bsize b)\<rparr>)" "linked M (nodes t) (xs @ [?b0])" "quiet M {baddr b} st1 t"
      using setUsed_linked [OF L1 R(4) h True] by blast
    with True quiet_sel(4,5) [OF t(3)] show ?thesis by (intro that [of t]) simp_all
  next
    case False
    have "szt M (num_free_blocks st1) = num_free_blocks st1" "szt M (num_free_bytes st1) = num_free_bytes st1"
      using R(3) by (simp_all add: counted_def st1_def szt_def)
    with False L1 show ?thesis
      by (intro that [of st1]) (simp_all add: setUsed_def linked_get [OF L1])
  qed
  define st3 where "st3 = st2\<lparr>num_free_blocks := szt M (num_free_blocks st1 - (if bfree b then 1 else 0)),
      num_free_bytes := szt M (num_free_bytes st1 - (if bfree b then bsize b else 0))\<rparr>"
  have L3: "linked M (nodes st3) (xs @ ?b0 # [])" using s2(2) by (simp add: st3_def)
  have A3: "apart M (xs @ ?b0 # [])" using R(4) by (simp add: apart_simps)
  let ?u = "used_part req b"
  have fu: "(\<lambda>t. t\<lparr>size_of_allocation := size_of_allocation t + (req - bsize b)\<rparr>) (node_of M ?b0 nx pv) = node_of M ?u nx pv"
    for nx pv by (simp add: used_part_def node_of_def)
  obtain st4 where s4: "upd M (baddr b) (\<lambda>t. t\<lparr>size_of_allocation := size_of_allocation t + (req - bsize b)\<rparr>) st3 = Inr st4"
    "linked M (nodes st4) (xs @ [?u])" "quiet M {baddr b} st3 st4"
    using linked_change [OF L3 A3 h fu] by auto
  define st5 where "st5 = st4\<lparr>num_allocated_bytes := szt M (num_allocated_bytes st4 + (req - bsize b))\<rparr>"
  have L5: "linked M (nodes st5) (xs @ ?u # [])" using s4(2) by (simp add: st5_def)
  obtain hd where hd: "get (head st) st = Inr hd" "prev_node hd = baddr b" using rep_last(1) [OF r] by blast
  have e: "wilderness M req st = Inr (st5, baddr b + hdr M)"
    using hd rep_last(2) [OF r] req conv g rd s2(1) s4(1) linked_get [OF L5]
    by (simp add: wilderness_def Let_def sbrk_def st1_def [symmetric] st3_def [symmetric] st5_def)
  have m: "mem st5 x = mem st x" if "x \<notin> {baddr b..<baddr b + hdr M}" for x
    using quiet_sel(9) [OF s2(3), of x] quiet_sel(9) [OF s4(3), of x] that
    by (auto simp: st5_def st3_def st1_def)
  have sel: "brk st5 = brk st + (req - bsize b)" "head st5 = head st" "first_alloc st5 = first_alloc st"
    using quiet_sel(1-3) [OF s2(3)] quiet_sel(1-3) [OF s4(3)] by (simp_all add: st5_def st3_def st1_def)
  obtain m0 where m0: "contig M (head st) xs m0" "baddr b = m0"
    using R(5) by (auto simp: contig_append)
  have "laid M st5 (xs @ [?u])"
    unfolding laid_def
  proof (intro conjI allI impI)
    show "contig M (head st5) (xs @ [?u]) (brk st5)"
      using m0 b0 req brk by (auto simp: sel contig_append bend_def)
    show "mem st5 x = 0" if "brk st5 \<le> x" for x
    proof -
      have "brk st \<le> x" using that sel(1) req by simp
      then show ?thesis using m [of x] R(1) brk b0 by (simp add: laid_def bend_def)
    qed
  qed (use R(1) sel in \<open>simp_all add: laid_def\<close>)
  moreover have "counted M st5 (xs @ [?u])"
    using R(3) quiet_sel(4-8) [OF s2(3)] quiet_sel(4-8) [OF s4(3)]
    by (simp add: counted_def st5_def st3_def st1_def szt_simps algebra_simps)
  moreover have "kept (hdrs M (xs @ [b])) st st5" using m by (auto simp: kept_def)
  ultimately show ?thesis using e L5 by (auto simp: rep_def)
qed

end
