(* ===== verification/Malloc_3_Refine.thy ===== *)
theory Malloc_3_Refine
  imports Malloc_3_Steps
begin

text \<open>
  HW4, \<^verbatim>\<open>HW4/malloc_3.cpp\<close>: what \<open>malloc\<close>, \<open>free\<close> and \<open>realloc\<close> do to the list of blocks. The
  specifications are functions on the list: first fit, else extend a free last block, else a new
  block at the end; mark and coalesce; shrink, grow into the next block, extend or move. The
  statements hold on a 32-bit platform (\<open>ilp32\<close>), where the remainder of a block is computed in
  \<^verbatim>\<open>long long\<close>.
\<close>

definition ilp32 :: "abi \<Rightarrow> bool" where
  "ilp32 M \<longleftrightarrow> abi_ok M \<and> ptr_bits M < 64"

lemma ilp32_hdr: "ilp32 M \<Longrightarrow> 0 < hdr M" "ilp32 M \<Longrightarrow> hdr M mod 4 = 0" "ilp32 M \<Longrightarrow> hdr M \<le> 1000"
  by (simp_all add: ilp32_def abi_ok_def)

lemma ilp32_conv [simp]: "ilp32 M \<Longrightarrow> conv M x = x"
  by (simp add: ilp32_def conv_def)

subsection \<open>First fit\<close>

fun first_fit :: "int \<Rightarrow> blk list \<Rightarrow> (blk list \<times> blk \<times> blk list) option" where
  "first_fit req [] = None"
| "first_fit req (b # bs) =
     (if req \<le> bsize b \<and> bfree b then Some ([], b, bs)
      else map_option (\<lambda>(xs, c, ys). (b # xs, c, ys)) (first_fit req bs))"

lemma first_fit_Some:
  "first_fit req bs = Some (xs, c, ys) \<Longrightarrow> bs = xs @ c # ys \<and> req \<le> bsize c \<and> bfree c \<and>
     (\<forall>x \<in> set xs. \<not> (req \<le> bsize x \<and> bfree x))"
  by (induction bs arbitrary: xs) (auto split: if_splits)

lemma first_fit_None: "first_fit req bs = None \<longleftrightarrow> (\<forall>b \<in> set bs. \<not> (req \<le> bsize b \<and> bfree b))"
  by (induction bs) auto

definition occupy :: "abi \<Rightarrow> int \<Rightarrow> blk \<Rightarrow> heap \<Rightarrow> stuck + (heap \<times> int option)" where
  "occupy M req c st =
     sbind (if bsize c - req - hdr M < REMAIN then setUsed M (baddr c) st else split_block M (baddr c) req st)
       (\<lambda>st1. sbind (get (baddr c) st1) (\<lambda>n. Inr (st1, Some (allocation_start_ptr n))))"

text \<open>The loop visits the blocks in order, whatever they are: it ends at the first fit or at the head.\<close>

lemma find_loop_first_fit:
  assumes M: "ilp32 M" and r: "rep M st bs"
  shows "bs = us @ b # ys \<Longrightarrow> find_loop M req (head st) (baddr b) st =
    Some (case first_fit req (b # ys) of None \<Rightarrow> Inr (st, None) | Some (xs, c, zs) \<Rightarrow> occupy M req c st)"
proof (induction ys arbitrary: us b)
  case Nil
  have "get (baddr b) st = Inr (node_of M b (head st) (laddr (baddr b) us))"
    using rep_last(2) [of M st us b] r Nil by simp
  with M show ?case by (subst find_loop.simps) (simp add: occupy_def conj_commute)
next
  case (Cons c ys)
  have g: "get (baddr b) st = Inr (node_of M b (baddr c) (laddr (laddr (baddr b) (c # ys)) us))"
    using rep_get [of M st us b "c # ys"] r Cons.prems by simp
  have "baddr c \<noteq> head st"
    using rep_is_head [of M st "us @ [b]" c ys] r Cons.prems ilp32_hdr(1) [OF M] by simp
  with g M Cons.IH [of "us @ [b]" c] Cons.prems show ?case
    by (subst find_loop.simps) (auto simp: occupy_def conj_commute split: option.split)
qed

definition alloc_in :: "abi \<Rightarrow> int \<Rightarrow> blk list \<Rightarrow> blk \<Rightarrow> blk list \<Rightarrow> blk list" where
  "alloc_in M req xs b ys =
     (if bsize b - req - hdr M < REMAIN then xs @ b\<lparr>bfree := False\<rparr> # ys
      else xs @ used_part req b # join_next M (rest_part M req b) ys)"

lemma occupy_rep:
  assumes M: "ilp32 M" and r: "rep M st (xs @ b # ys)" and b: "bfree b" and req: "0 < req"
  shows "\<exists>st'. occupy M req b st = Inr (st', Some (baddr b + hdr M)) \<and> rep M st' (alloc_in M req xs b ys) \<and>
    kept (hdrs M (xs @ b # ys) \<union> hdrs M (alloc_in M req xs b ys)) st st'"
proof (cases "bsize b - req - hdr M < REMAIN")
  case True
  obtain st1 where s: "setUsed M (baddr b) st = Inr st1" "rep M st1 (xs @ b\<lparr>bfree := False\<rparr> # ys)"
    "kept (hdrs M (xs @ b # ys) \<union> hdrs M (xs @ b\<lparr>bfree := False\<rparr> # ys)) st st1"
    using setUsed_rep [OF r ilp32_hdr(1) [OF M] b] by (auto simp: yields_def)
  with True rep_get [OF s(2)] show ?thesis by (simp add: occupy_def alloc_in_def)
next
  case False
  then have "0 < bsize b - req - hdr M" by (simp add: REMAIN_def)
  from split_rep [OF r ilp32_hdr(1) [OF M] req this]
  obtain st1 where s: "split_block M (baddr b) req st = Inr st1"
    "rep M st1 (xs @ used_part req b # join_next M (rest_part M req b) ys)"
    "kept (hdrs M (xs @ b # ys) \<union> hdrs M (xs @ used_part req b # join_next M (rest_part M req b) ys)) st st1"
    by (auto simp: yields_def)
  with False rep_get [OF s(2)] show ?thesis by (simp add: occupy_def alloc_in_def)
qed

subsection \<open>A new block at the end\<close>

lemma append_rep:
  assumes M: "ilp32 M" and r: "rep M st (xs @ [b])" and req: "0 < req"
  defines "new \<equiv> \<lparr>baddr = brk st, bsize = req, bfree = False\<rparr>"
  shows "\<exists>st'. append_block M (brk st) req (st\<lparr>brk := brk st + (req + hdr M)\<rparr>) = Inr (st', brk st + hdr M) \<and>
    rep M st' (xs @ [b, new]) \<and> kept (hdrs M (xs @ [b, new])) st st'"
proof -
  note h = ilp32_hdr(1) [OF M]
  note R = rep_parts [OF r h]
  have sel: "baddr new = brk st" "bsize new = req" "\<not> bfree new" by (simp_all add: new_def)
  define st1 where "st1 = st\<lparr>brk := brk st + (req + hdr M), list_size := szt M (list_size st + 1),
            num_allocated_blocks := szt M (num_allocated_blocks st + 1),
            num_allocated_bytes := szt M (num_allocated_bytes st + req),
            num_meta_data_blocks := szt M (num_meta_data_blocks st + 1)\<rparr>"
  have C: "contig M (head st) (xs @ b # new # []) (brk st1)"
    using R(5) req by (auto simp: contig_append st1_def sel)
  have A: "apart M (xs @ b # new # [])" by (rule contig_apart [OF C h])
  have away: "hdr M \<le> \<bar>baddr c - brk st\<bar>" if "c \<in> set (xs @ [b])" for c
    using that A sel(1) h by (fastforce simp: apart_simps)
  obtain hd where hd: "get (head st) st = Inr hd" "prev_node hd = baddr b" using rep_last(1) [OF r] by blast
  define st2 where "st2 = put M (brk st) (node_of M new (head st) (baddr b)) st1"
  have L2: "linked M (nodes st2) (xs @ b # [])"
    unfolding st2_def by (rule linked_away) (use R(2) away h in \<open>simp_all add: st1_def\<close>)
  have s2: "nodes st2 (baddr new) = Some (node_of M new (haddr [] (haddr xs (baddr b))) (baddr b))"
    using rep_head [OF r] by (cases xs) (simp_all add: st2_def nodes_put sel)
  have hh: "haddr [] (haddr xs (baddr b)) = head st" using rep_head [OF r] by (cases xs) simp_all
  obtain st3 st4 where s4: "upd M (baddr b) (\<lambda>t. t\<lparr>next_node := brk st\<rparr>) st2 = Inr st3"
    "upd M (head st) (\<lambda>t. t\<lparr>prev_node := brk st\<rparr>) st3 = Inr st4" "linked M (nodes st4) (xs @ [b, new])"
    "quiet M (baddr ` set (xs @ [b])) st2 st4"
    using linked_link(2) [OF L2 A h s2 refl] unfolding hh sel by auto
  have q: "quiet M (baddr ` set (xs @ [b, new])) st1 st4"
    by (rule quiet_trans [OF _ quiet_mono [OF s4(4)]]) (auto simp: st2_def sel intro: quiet_put)
  have "\<lparr>is_freed = False, allocation_start_ptr = brk st + hdr M, size_of_allocation = req,
      next_node = head st, prev_node = prev_node hd\<rparr> = node_of M new (head st) (baddr b)"
    by (simp add: node_of_def sel hd(2))
  then have e: "append_block M (brk st) req (st\<lparr>brk := brk st + (req + hdr M)\<rparr>) = Inr (st4, brk st + hdr M)"
    using hd s4(1,2) by (simp add: append_block_def Let_def get_def st2_def st1_def)
  have "laid M st1 (xs @ [b, new])" using R(1) C req h by (auto simp: laid_def st1_def)
  then have "laid M st4 (xs @ [b, new])"
    by (rule laid_quiet [OF q _ _ h, rotated]) (use C in \<open>simp add: st1_def\<close>)
  moreover have "counted M st4 (xs @ [b, new])"
    using R(3) sel by (simp add: counted_quiet [OF q]) (simp add: counted_def st1_def szt_simps algebra_simps)
  moreover have "kept (hdrs M (xs @ [b, new])) st st4"
    using quiet_kept [OF q] by (simp add: kept_def st1_def)
  ultimately show ?thesis using e s4(3) by (simp add: rep_def)
qed

lemma first_allocation_rep:
  assumes M: "ilp32 M" and f: "first_alloc st" "nodes st = (\<lambda>_. None)" "num_free_blocks st = 0"
    and req: "0 < req" "req < 2 ^ 31" and b: "0 < brk st" "\<forall>x. brk st \<le> x \<longrightarrow> mem st x = 0"
    and g: "grants M (brk st) (req + hdr M)"
  defines "new \<equiv> \<lparr>baddr = brk st, bsize = req, bfree = False\<rparr>"
  shows "\<exists>st'. first_allocation M req st = Inr (st', brk st + hdr M) \<and> rep M st' [new] \<and> kept (hdrs M [new]) st st'"
proof -
  note h = ilp32_hdr(1) [OF M]
  have pos: "(1 :: int) mod 2 ^ ptr_bits M = 1" "req mod 2 ^ ptr_bits M = req"
  proof -
    have "(2 :: int) ^ 31 \<le> 2 ^ ptr_bits M" using M by (intro power_increasing) (simp_all add: ilp32_def abi_ok_def)
    moreover have "31 \<le> ptr_bits M" using M by (simp add: ilp32_def abi_ok_def)
    ultimately show "(1 :: int) mod 2 ^ ptr_bits M = 1" "req mod 2 ^ ptr_bits M = req" using req by simp_all
  qed
  have z: "mem st (brk st) = 0" using b(2) by simp
  let ?st = "put M (brk st) (node_of M new (brk st) (brk st)) (st\<lparr>first_alloc := False, brk := brk st + (req + hdr M),
      head := brk st, list_size := 1, num_allocated_blocks := 1, num_allocated_bytes := req, num_free_bytes := 0,
      num_meta_data_blocks := 1, num_meta_data_bytes := hdr M\<rparr>)"
  have "first_allocation M req st = Inr (?st, brk st + hdr M)"
    using g z b(1) by (simp add: first_allocation_def sbrk_def reads_minus_one_def node_of_def new_def)
  moreover have "laid M ?st [new]" using b h req by (simp add: laid_def new_def put_def)
  moreover have "linked M (nodes ?st) [new]" by (simp add: linked_def nodes_put new_def)
  moreover have "counted M ?st [new]" using f(3) pos by (simp add: counted_def szt_def new_def)
  moreover have "kept (hdrs M [new]) st ?st" by (auto simp: kept_def put_def new_def)
  ultimately show ?thesis by (auto simp: rep_def)
qed

subsection \<open>malloc\<close>

text \<open>
  The blocks after a \<open>malloc\<close> of \<open>req\<close> bytes, the address it finds, and whether the block is one that
  was in the heap before. A recycled block whose first four bytes are all ones is taken for a failed
  \<^verbatim>\<open>sbrk\<close>: the call returns null and the block stays in use.
\<close>

definition spec_malloc :: "abi \<Rightarrow> int \<Rightarrow> blk list \<Rightarrow> blk list \<times> int \<times> bool" where
  "spec_malloc M req bs =
     (case first_fit req bs of
        Some (xs, b, ys) \<Rightarrow> (alloc_in M req xs b ys, baddr b + hdr M, True)
      | None \<Rightarrow>
          let l = last bs in
          if bfree l then (butlast bs @ [used_part req l], baddr l + hdr M, True)
          else (bs @ [\<lparr>baddr = bend M l, bsize = req, bfree = False\<rparr>], bend M l + hdr M, False))"

definition all_ones :: "heap \<Rightarrow> int \<Rightarrow> bool" where
  "all_ones st p \<longleftrightarrow> mem st p = 255 \<and> mem st (p + 1) = 255 \<and> mem st (p + 2) = 255 \<and> mem st (p + 3) = 255"

lemma round4: "0 < k \<Longrightarrow> 0 < round4 k" "k \<le> round4 k" "round4 k < k + 4" "round4 k mod 4 = 0"
  unfolding round4_def Let_def by (simp_all, presburger+)

lemma used_part_snoc_fit:
  "first_fit req (xs @ [b]) = None \<Longrightarrow> bfree b \<Longrightarrow> bsize b < req"
  by (auto simp: first_fit_None)

theorem malloc_rep:
  assumes M: "ilp32 M" and r: "rep M st bs" and k: "0 < k" "k \<le> MAX_SIZE" and g: "granted M st"
    and sp: "spec_malloc M (round4 k) bs = (bs', p, reused)"
  shows "\<exists>st'. malloc M k st = Inr (st', if reused \<and> all_ones st' p then 0 else p) \<and> rep M st' bs' \<and>
    kept (hdrs M bs \<union> hdrs M bs') st st'"
proof -
  note h = ilp32_hdr [OF M]
  define req where "req = round4 k"
  have req: "0 < req" "req \<le> MAX_SIZE + 3" using round4(1,3) [of k] k by (simp_all add: req_def)
  have fa: "\<not> first_alloc st" using r by (simp add: rep_def laid_def)
  have m: "malloc M k st = sbind (find_free_allocation_address M req st) (\<lambda>(st1, n_break).
        if n_break \<noteq> 0
        then sbind (reads_minus_one n_break st1) (\<lambda>b. Inr (st1, if b then 0 else n_break))
        else (case sbrk M (req + hdr M) st1 of (st2, n_break) \<Rightarrow>
             sbind (reads_minus_one n_break st2) (\<lambda>b.
             if b then Inr (st2, 0) else append_block M n_break req st2)))"
    using k fa unfolding malloc_def Let_def req_def by simp
  obtain b0 bs0 where bs0: "bs = b0 # bs0" using r by (cases bs) (auto simp: rep_def laid_def)
  have hd: "head st = baddr b0" using rep_head [OF r] bs0 by simp
  have loop: "find_loop M req (head st) (head st) st =
      Some (case first_fit req bs of None \<Rightarrow> Inr (st, None) | Some (xs, c, zs) \<Rightarrow> occupy M req c st)"
    using find_loop_first_fit [OF M r, of "[]" b0 bs0 req] bs0 hd by simp
  show ?thesis
  proof (cases "first_fit req bs")
    case (Some t)
    obtain xs c ys where t: "t = (xs, c, ys)" by (cases t) auto
    from first_fit_Some [OF Some [unfolded t]] have c: "bs = xs @ c # ys" "bfree c" by auto
    obtain st' where s: "occupy M req c st = Inr (st', Some (baddr c + hdr M))" "rep M st' (alloc_in M req xs c ys)"
      "kept (hdrs M bs \<union> hdrs M (alloc_in M req xs c ys)) st st'"
      using occupy_rep [OF M r [unfolded c(1)] c(2) req(1)] c(1) by auto
    have "0 < baddr c" using rep_addr [OF r h(1)] c(1) by simp
    with s(1) loop Some t h(1) sp show ?thesis
      unfolding m
      by (intro exI [of _ st'])
         (auto simp: find_free_allocation_address_def looped_def reads_minus_one_def spec_malloc_def req_def
            all_ones_def s(2,3) [unfolded req_def])
  next
    case None
    obtain xs b where b: "bs = xs @ [b]" using bs0 by (metis append_butlast_last_id list.distinct(1))
    note R = rep_parts [OF r h(1)]
    have brk: "bend M b = brk st" using contig_last R(5) b by blast
    have b0: "0 < baddr b" "0 < bsize b" using rep_addr [OF r h(1), of b] b by auto
    obtain hh where hh: "get (head st) st = Inr hh" "prev_node hh = baddr b" using rep_last(1) r b by blast
    note gb = rep_last(2) [OF r [unfolded b]]
    show ?thesis
    proof (cases "bfree b")
      case True
      have bq: "bsize b < req" using used_part_snoc_fit None True b by blast
      have "grants M (brk st) (req - bsize b)"
        using g bq req b0 by (simp add: granted_def MAX_SIZE_def)
      from wilderness_rep [OF r [unfolded b] h(1) _ _ this] bq M obtain st' where s:
        "wilderness M req st = Inr (st', baddr b + hdr M)" "rep M st' (xs @ [used_part req b])" "kept (hdrs M bs) st st'"
        using b by auto
      have "find_free_allocation_address M req st = Inr (st', baddr b + hdr M)"
        using loop None hh gb True s(1)
        by (simp add: find_free_allocation_address_def looped_def is_free_wilderness_def)
      moreover have "bs' = xs @ [used_part req b] \<and> p = baddr b + hdr M \<and> reused"
        using sp None True b by (simp add: spec_malloc_def req_def)
      ultimately show ?thesis
        using s(2,3) b0 h(1) by (auto simp: m reads_minus_one_def all_ones_def intro: kept_mono)
    next
      case False
      let ?st1 = "st\<lparr>brk := brk st + (req + hdr M)\<rparr>"
      have "find_free_allocation_address M req st = Inr (st, 0)"
        using loop None hh gb False by (simp add: find_free_allocation_address_def looped_def is_free_wilderness_def)
      moreover have "grants M (brk st) (req + hdr M)"
        using g req h(1,3) by (simp add: granted_def MAX_SIZE_def)
      moreover have "reads_minus_one (brk st) ?st1 = Inr False" by (rule fresh_read [OF R(1) h(1)]) simp
      moreover obtain st' where s: "append_block M (brk st) req ?st1 = Inr (st', brk st + hdr M)"
        "rep M st' (xs @ [b, \<lparr>baddr = brk st, bsize = req, bfree = False\<rparr>])"
        "kept (hdrs M (xs @ [b, \<lparr>baddr = brk st, bsize = req, bfree = False\<rparr>])) st st'"
        using append_rep [OF M r [unfolded b] req(1)] by blast
      moreover have "bs' = xs @ [b, \<lparr>baddr = brk st, bsize = req, bfree = False\<rparr>] \<and> p = brk st + hdr M \<and> \<not> reused"
        using sp None False b brk by (simp add: spec_malloc_def req_def)
      ultimately show ?thesis by (simp add: m sbrk_def kept_mono)
    qed
  qed
qed

subsection \<open>free\<close>

definition no_adj :: "blk list \<Rightarrow> bool" where
  "no_adj bs \<longleftrightarrow> successively (\<lambda>a b. \<not> (bfree a \<and> bfree b)) bs"

lemma no_adj_simps [simp]:
  "no_adj []" "no_adj [a]" "no_adj (a # b # bs) \<longleftrightarrow> \<not> (bfree a \<and> bfree b) \<and> no_adj (b # bs)"
  by (simp_all add: no_adj_def)

lemma no_adj_append:
  "no_adj (xs @ ys) \<longleftrightarrow> no_adj xs \<and> no_adj ys \<and> (xs \<noteq> [] \<longrightarrow> ys \<noteq> [] \<longrightarrow> \<not> (bfree (last xs) \<and> bfree (hd ys)))"
  by (auto simp: no_adj_def successively_append_iff)

lemma no_adj_Cons: "no_adj (a # ys) \<longleftrightarrow> no_adj ys \<and> (ys \<noteq> [] \<longrightarrow> \<not> (bfree a \<and> bfree (hd ys)))"
  by (cases ys) auto

text \<open>The specification: mark the block, then merge every run of adjacent free blocks.\<close>

function coalesce :: "abi \<Rightarrow> blk list \<Rightarrow> blk list" where
  "coalesce M [] = []"
| "coalesce M [b] = [b]"
| "coalesce M (b # c # bs) =
     (if bfree b \<and> bfree c then coalesce M (join M b c # bs) else b # coalesce M (c # bs))"
  by pat_completeness auto
termination by (relation "measure (\<lambda>(M, bs). length bs)") auto

definition mark_free :: "abi \<Rightarrow> int \<Rightarrow> blk list \<Rightarrow> blk list" where
  "mark_free M p bs = map (\<lambda>b. if baddr b + hdr M = p then b\<lparr>bfree := True\<rparr> else b) bs"

lemma coalesce_no_adj: "no_adj bs \<Longrightarrow> coalesce M bs = bs"
  by (induction M bs rule: coalesce.induct) auto

lemma coalesce_free: "bfree b \<Longrightarrow> no_adj ys \<Longrightarrow> coalesce M (b # ys) = join_next M b ys"
proof (cases ys)
  case (Cons c zs)
  assume b: "bfree b" "no_adj ys"
  show ?thesis
  proof (cases "bfree c")
    case True
    with b Cons have "no_adj (join M b c # zs)" by (cases zs) auto
    with True b Cons show ?thesis by (simp add: coalesce_no_adj)
  qed (use b Cons in \<open>simp add: coalesce_no_adj\<close>)
qed simp

lemma coalesce_settle:
  assumes "no_adj xs" "no_adj ys" "bfree b"
  shows "coalesce M (xs @ b # ys) = settle M xs b ys"
  using assms
proof (induction M xs b ys rule: settle.induct)
  case (2 M d b ys)
  then show ?case by (simp add: coalesce_free)
next
  case (3 M d e xs b ys)
  then show ?case by auto
qed (simp_all add: coalesce_free)

lemma settle_no_adj:
  assumes "no_adj xs" "no_adj ys" "bfree b"
  shows "no_adj (settle M xs b ys)"
proof -
  have j: "no_adj (join_next M c ys) \<and> (bfree c \<longrightarrow> True) \<and> join_next M c ys \<noteq> [] \<and> bfree (hd (join_next M c ys)) = bfree c"
    if "bfree c" for c
    using that assms(2) by (cases ys; cases "tl ys") auto
  show ?thesis
  proof (cases xs rule: rev_cases)
    case Nil
    with j [OF assms(3)] assms(3) show ?thesis by simp
  next
    case (snoc zs d)
    with assms j [OF assms(3)] j [of "join M d b"] show ?thesis
      by (auto simp: settle_snoc no_adj_append no_adj_Cons)
  qed
qed

theorem free_rep:
  assumes M: "ilp32 M" and r: "rep M st bs" and n: "no_adj bs" and b: "b \<in> set bs" "\<not> bfree b"
  defines "p \<equiv> baddr b + hdr M"
  shows "\<exists>st'. free M p st = Inr st' \<and> rep M st' (coalesce M (mark_free M p bs)) \<and>
    no_adj (coalesce M (mark_free M p bs)) \<and> kept (hdrs M bs \<union> hdrs M (coalesce M (mark_free M p bs))) st st'"
proof -
  note h = ilp32_hdr(1) [OF M]
  obtain xs ys where bs: "bs = xs @ b # ys" using b(1) by (auto simp: in_set_conv_decomp)
  let ?b = "b\<lparr>bfree := True\<rparr>"
  have other: "baddr c \<noteq> baddr b" if "c \<in> set xs \<union> set ys" for c
    using that rep_apart [OF r h] bs h by (fastforce simp: apart_simps)
  have mf: "mark_free M p bs = xs @ ?b # ys"
    using other by (auto simp: mark_free_def p_def bs intro!: map_idI)
  have na: "no_adj xs" "no_adj ys" using n by (auto simp: bs no_adj_append no_adj_Cons)
  have c: "coalesce M (mark_free M p bs) = settle M xs ?b ys"
    unfolding mf by (rule coalesce_settle [OF na]) simp
  have p0: "p \<noteq> 0" using rep_addr(1) [OF r h b(1)] h by (simp add: p_def)
  have "yields M (sbind (setFree M (baddr b) st) (checkIfFreeAndConnect M (baddr b))) st bs (settle M xs ?b ys)"
    unfolding bs
  proof (rule yields_bind [OF setFree_rep [OF r [unfolded bs] h b(2)]])
    fix st1 assume "rep M st1 (xs @ ?b # ys)"
    from check_rep [OF this h] show "yields M (checkIfFreeAndConnect M (baddr b) st1) st1 (xs @ ?b # ys) (settle M xs ?b ys)"
      by simp
  qed auto
  then show ?thesis
    unfolding c using settle_no_adj [OF na, of ?b M] rep_get [OF r [unfolded bs]] b(2) p0
    by (auto simp: yields_def free_def p_def)
qed

end
