(* ===== verification/Heap_Client.thy ===== *)
theory Heap_Client
  imports Heap_Blocks
begin

text \<open>
  HW4, the contract between an allocator and the program that uses it. The program owns the pointers
  it was given and has not freed, passes only those to \<^verbatim>\<open>free\<close> and \<^verbatim>\<open>realloc\<close>, and writes only bytes
  it asked for. \<open>client\<close> is its view: the heap, what it owns, and what it last wrote where. The
  locale \<open>allocator\<close> has the laws an allocator promises; from them follows that no run of such a
  program faults, that what it owns never overlaps, and that it reads back what it wrote.
\<close>

record alloc_ops =
  op_malloc :: "int \<Rightarrow> heap \<Rightarrow> stuck + (heap \<times> int)"
  op_calloc :: "int \<Rightarrow> int \<Rightarrow> heap \<Rightarrow> stuck + (heap \<times> int)"
  op_free :: "int \<Rightarrow> heap \<Rightarrow> stuck + heap"
  op_realloc :: "int \<Rightarrow> int \<Rightarrow> heap \<Rightarrow> stuck + (heap \<times> int)"

record client =
  cheap :: heap
  owned :: "(int \<times> int) list"
  wrote :: "int \<Rightarrow> 8 word option"

datatype heap_op = C_malloc int | C_calloc int int | C_free int | C_realloc int int | C_write int int "8 word"

definition disown :: "int \<Rightarrow> (int \<times> int) list \<Rightarrow> (int \<times> int) list" where
  "disown p own = filter (\<lambda>(q, k). q \<noteq> p) own"

definition size_owned :: "int \<Rightarrow> (int \<times> int) list \<Rightarrow> int" where
  "size_owned p own = (case map_of own p of None \<Rightarrow> 0 | Some k \<Rightarrow> k)"

definition forget :: "int \<Rightarrow> int \<Rightarrow> (int \<Rightarrow> 8 word option) \<Rightarrow> int \<Rightarrow> 8 word option" where
  "forget p k w = (\<lambda>x. if p \<le> x \<and> x < p + k then None else w x)"

text \<open>What the program does: a pointer it gets is owned, \<open>w q\<close> is what it then knows of the bytes.\<close>

definition take_ptr ::
  "int \<Rightarrow> (int \<times> int) list \<Rightarrow> (int \<Rightarrow> int \<Rightarrow> 8 word option) \<Rightarrow> heap \<times> int \<Rightarrow> client \<Rightarrow> client" where
  "take_ptr k own w r c = (case r of (h, q) \<Rightarrow>
     if q = 0 then c\<lparr>cheap := h\<rparr> else \<lparr>cheap = h, owned = (q, k) # own, wrote = w q\<rparr>)"

fun heap_step :: "abi \<Rightarrow> alloc_ops \<Rightarrow> heap_op \<Rightarrow> client \<Rightarrow> stuck + client" where
  "heap_step M A (C_malloc k) c =
     sbind (op_malloc A k (cheap c)) (\<lambda>r. Inr (take_ptr k (owned c) (\<lambda>q. wrote c) r c))"
| "heap_step M A (C_calloc n k) c =
     sbind (op_calloc A n k (cheap c)) (\<lambda>r. Inr (take_ptr (szt M (n * k)) (owned c)
       (\<lambda>q x. if q \<le> x \<and> x < q + szt M (n * k) then Some 0 else wrote c x) r c))"
| "heap_step M A (C_free p) c =
     sbind (op_free A p (cheap c)) (\<lambda>h. Inr \<lparr>cheap = h, owned = disown p (owned c),
       wrote = forget p (size_owned p (owned c)) (wrote c)\<rparr>)"
| "heap_step M A (C_realloc p k) c =
     sbind (op_realloc A p k (cheap c)) (\<lambda>r. Inr (take_ptr k (disown p (owned c))
       (\<lambda>q x. let j = size_owned p (owned c) in
          if q \<le> x \<and> x < q + min j k then wrote c (p + (x - q)) else forget p j (wrote c) x) r c))"
| "heap_step M A (C_write p i v) c =
     Inr (c\<lparr>cheap := write_bytes M (p + i) 1 (\<lambda>_. v) (cheap c), wrote := (wrote c)(p + i \<mapsto> v)\<rparr>)"

text \<open>What the program sees to, which calls can ask the kernel for memory, and both together with the kernel
  having it: \<open>granted\<close> is that the kernel would grant, at the present break, any request of the sizes the allocator
  can make.\<close>

fun well_behaved :: "heap_op \<Rightarrow> client \<Rightarrow> bool" where
  "well_behaved (C_malloc k) c \<longleftrightarrow> 0 \<le> k"
| "well_behaved (C_calloc n k) c \<longleftrightarrow> True"
| "well_behaved (C_free p) c \<longleftrightarrow> p = 0 \<or> p \<in> fst ` set (owned c)"
| "well_behaved (C_realloc p k) c \<longleftrightarrow> 0 \<le> k \<and> (p = 0 \<or> p \<in> fst ` set (owned c))"
| "well_behaved (C_write p i v) c \<longleftrightarrow> (\<exists>(q, k) \<in> set (owned c). q = p \<and> 0 \<le> i \<and> i < k)"

fun asks_kernel :: "heap_op \<Rightarrow> bool" where
  "asks_kernel (C_free p) = False"
| "asks_kernel (C_write p i v) = False"
| "asks_kernel _ = True"

fun heap_ok :: "abi \<Rightarrow> heap_op \<Rightarrow> client \<Rightarrow> bool" where
  "heap_ok M (C_malloc k) c \<longleftrightarrow> 0 \<le> k \<and> granted M (cheap c)"
| "heap_ok M (C_calloc n k) c \<longleftrightarrow> granted M (cheap c)"
| "heap_ok M (C_free p) c \<longleftrightarrow> p = 0 \<or> p \<in> fst ` set (owned c)"
| "heap_ok M (C_realloc p k) c \<longleftrightarrow> 0 \<le> k \<and> granted M (cheap c) \<and> (p = 0 \<or> p \<in> fst ` set (owned c))"
| "heap_ok M (C_write p i v) c \<longleftrightarrow> (\<exists>(q, k) \<in> set (owned c). q = p \<and> 0 \<le> i \<and> i < k)"

lemma heap_ok_iff: "heap_ok M x c \<longleftrightarrow> well_behaved x c \<and> (asks_kernel x \<longrightarrow> granted M (cheap c))"
  by (cases x) auto

definition owns :: "abi \<Rightarrow> blk list \<Rightarrow> (int \<times> int) list \<Rightarrow> bool" where
  "owns M bs own \<longleftrightarrow> distinct (map fst own) \<and>
     (\<forall>(p, k) \<in> set own. \<exists>b \<in> set bs. \<not> bfree b \<and> p = baddr b + hdr M \<and> k \<le> bsize b)"

definition intact :: "heap \<Rightarrow> (int \<times> int) list \<Rightarrow> (int \<Rightarrow> 8 word option) \<Rightarrow> bool" where
  "intact h own w \<longleftrightarrow> (\<forall>x v. w x = Some v \<longrightarrow> mem h x = v \<and> (\<exists>(p, k) \<in> set own. p \<le> x \<and> x < p + k))"

definition client_inv :: "abi \<Rightarrow> (heap \<Rightarrow> blk list \<Rightarrow> bool) \<Rightarrow> client \<Rightarrow> bool" where
  "client_inv M ready c \<longleftrightarrow>
     (\<exists>bs. ready (cheap c) bs \<and> owns M bs (owned c)) \<and> intact (cheap c) (owned c) (wrote c)"

text \<open>What is owned does not overlap.\<close>

definition separate :: "(int \<times> int) list \<Rightarrow> bool" where
  "separate own \<longleftrightarrow> (\<forall>p k q l. (p, k) \<in> set own \<longrightarrow> (q, l) \<in> set own \<longrightarrow> (p, k) \<noteq> (q, l) \<longrightarrow>
     {p..<p + k} \<inter> {q..<q + l} = {})"

text \<open>
  \<open>serves\<close>: what every operation that returns a pointer guarantees. The block in use in \<open>X\<close> may be
  given up (by \<^verbatim>\<open>realloc\<close>) unless the call fails; the pointer, unless null, is a block in use with
  at least \<open>k\<close> bytes that no other block in use had; the bytes of the other blocks in use are unchanged.
\<close>

definition serves ::
  "abi \<Rightarrow> (heap \<Rightarrow> blk list \<Rightarrow> bool) \<Rightarrow> heap \<Rightarrow> blk list \<Rightarrow> blk set \<Rightarrow> int \<Rightarrow> heap \<Rightarrow> int \<Rightarrow> bool" where
  "serves M ready st bs X k st' q \<longleftrightarrow> (\<exists>bs'. ready st' bs' \<and>
     keeps_used bs (if q = 0 then {} else X) bs' \<and>
     (q \<noteq> 0 \<longrightarrow> (\<exists>b' \<in> set bs'. \<not> bfree b' \<and> q = baddr b' + hdr M \<and> k \<le> bsize b')) \<and>
     (\<forall>c \<in> set bs. \<not> bfree c \<longrightarrow> c \<notin> X \<longrightarrow> baddr c + hdr M \<noteq> q) \<and>
     (\<forall>c \<in> set bs. \<not> bfree c \<longrightarrow> c \<notin> (if q = 0 then {} else X) \<longrightarrow> (\<forall>x \<in> user M c. mem st' x = mem st x)))"

lemma serves_weaken:
  "serves M r st bs X k st' q \<Longrightarrow> (\<And>s b. r s b \<Longrightarrow> r' s b) \<Longrightarrow> serves M r' st bs X k st' q"
  unfolding serves_def by blast

lemma serves_refused:
  "ready st bs \<Longrightarrow> (\<And>b. b \<in> set bs \<Longrightarrow> baddr b + hdr M \<noteq> 0) \<Longrightarrow> serves M ready st bs X k st 0"
  unfolding serves_def by (auto simp: keeps_used_def)

lemma forget_none [simp]: "forget p 0 w = w"
  by (rule ext) (auto simp: forget_def)

lemma owns_disown: "owns M bs own \<Longrightarrow> owns M bs (disown p own)"
  by (auto simp: owns_def disown_def distinct_map_filter)

lemma owns_keep:
  assumes "owns M bs own" "keeps_used bs X bs'" "\<And>b. b \<in> X \<Longrightarrow> baddr b + hdr M \<notin> fst ` set own"
  shows "owns M bs' own"
  unfolding owns_def
proof (intro conjI ballI, unfold split_paired_all prod.case)
  fix p k assume pk: "(p, k) \<in> set own"
  then obtain b where b: "b \<in> set bs" "\<not> bfree b" "p = baddr b + hdr M" "k \<le> bsize b"
    using assms(1) by (auto simp: owns_def)
  moreover have "p \<in> fst ` set own" using pk by force
  ultimately show "\<exists>b \<in> set bs'. \<not> bfree b \<and> p = baddr b + hdr M \<and> k \<le> bsize b"
    using assms(2) assms(3) [of b] by (auto simp: keeps_used_def)
qed (use assms(1) in \<open>simp add: owns_def\<close>)

lemma size_owned: "distinct (map fst own) \<Longrightarrow> (p, k) \<in> set own \<Longrightarrow> size_owned p own = k"
  by (simp add: size_owned_def)

lemma disown_iff: "(q, k) \<in> set (disown p own) \<longleftrightarrow> (q, k) \<in> set own \<and> q \<noteq> p"
  by (auto simp: disown_def)

subsection \<open>The contract\<close>

locale allocator =
  fixes M :: abi and A :: alloc_ops and ready :: "heap \<Rightarrow> blk list \<Rightarrow> bool"
  assumes hdr_pos: "0 < hdr M"
    and malloc_law: "ready st bs \<Longrightarrow> granted M st \<Longrightarrow> 0 \<le> k \<Longrightarrow>
      \<exists>st' q. op_malloc A k st = Inr (st', q) \<and> serves M ready st bs {} k st' q"
    and calloc_law: "ready st bs \<Longrightarrow> granted M st \<Longrightarrow>
      \<exists>st' q. op_calloc A n k st = Inr (st', q) \<and> serves M ready st bs {} (szt M (n * k)) st' q \<and>
        (q \<noteq> 0 \<longrightarrow> (\<forall>i. 0 \<le> i \<longrightarrow> i < szt M (n * k) \<longrightarrow> mem st' (q + i) = 0))"
    and free_null: "op_free A 0 st = Inr st"
    and free_law: "ready st bs \<Longrightarrow> b \<in> set bs \<Longrightarrow> \<not> bfree b \<Longrightarrow>
      \<exists>st' bs'. op_free A (baddr b + hdr M) st = Inr st' \<and> ready st' bs' \<and> keeps_used bs {b} bs' \<and>
        (\<forall>c \<in> set bs. \<not> bfree c \<longrightarrow> c \<noteq> b \<longrightarrow> (\<forall>x \<in> user M c. mem st' x = mem st x))"
    and realloc_null: "op_realloc A 0 k st = op_malloc A k st"
    and realloc_law: "ready st bs \<Longrightarrow> granted M st \<Longrightarrow> 0 \<le> k \<Longrightarrow> b \<in> set bs \<Longrightarrow> \<not> bfree b \<Longrightarrow>
      \<exists>st' q. op_realloc A (baddr b + hdr M) k st = Inr (st', q) \<and> serves M ready st bs {b} k st' q \<and>
        (q \<noteq> 0 \<longrightarrow> (\<forall>i. 0 \<le> i \<longrightarrow> i < min k (bsize b) \<longrightarrow> mem st' (q + i) = mem st (baddr b + hdr M + i)))"
    and write_law: "ready st bs \<Longrightarrow> b \<in> set bs \<Longrightarrow> 0 \<le> i \<Longrightarrow> i < bsize b \<Longrightarrow>
      ready (write_bytes M (baddr b + hdr M + i) 1 f st) bs"
    and ready_pos: "ready st bs \<Longrightarrow> b \<in> set bs \<Longrightarrow> 0 < baddr b"
    and ready_disjoint: "ready st bs \<Longrightarrow> b \<in> set bs \<Longrightarrow> c \<in> set bs \<Longrightarrow> b \<noteq> c \<Longrightarrow> user M b \<inter> user M c = {}"
    and ready_inj: "ready st bs \<Longrightarrow> b \<in> set bs \<Longrightarrow> c \<in> set bs \<Longrightarrow> baddr b = baddr c \<Longrightarrow> b = c"
begin

text \<open>An owned byte lies in the block of its pointer.\<close>

lemma owned_byte:
  assumes "owns M bs own" "(p, k) \<in> set own" "p \<le> x" "x < p + k"
  shows "\<exists>b \<in> set bs. \<not> bfree b \<and> p = baddr b + hdr M \<and> x \<in> user M b"
  using assms by (fastforce simp: owns_def user_def bend_def)

lemma owned_separate:
  assumes r: "ready st bs" and o: "owns M bs own"
  shows "separate own"
  unfolding separate_def
proof (intro allI impI)
  fix p k q l
  assume a: "(p, k) \<in> set own" "(q, l) \<in> set own" "(p, k) \<noteq> (q, l)"
  have pq: "p \<noteq> q" using a o by (auto simp: owns_def dest: eq_key_imp_eq_value)
  show "{p..<p + k} \<inter> {q..<q + l} = {}"
  proof (rule equals0I)
    fix x assume "x \<in> {p..<p + k} \<inter> {q..<q + l}"
    then obtain b c where "b \<in> set bs" "c \<in> set bs" "p = baddr b + hdr M" "q = baddr c + hdr M" "x \<in> user M b" "x \<in> user M c"
      using owned_byte [OF o a(1)] owned_byte [OF o a(2)] by fastforce
    with ready_disjoint [OF r, of b c] pq show False by auto
  qed
qed

text \<open>A served pointer is new to the program.\<close>

lemma serves_owns:
  assumes s: "serves M ready st bs X k st' q" and q: "q \<noteq> 0" and o: "owns M bs own"
    and X: "\<And>b. b \<in> X \<Longrightarrow> baddr b + hdr M \<notin> fst ` set own"
  shows "\<exists>bs'. ready st' bs' \<and> owns M bs' ((q, k) # own)"
proof -
  obtain bs' where v: "ready st' bs'" "keeps_used bs X bs'"
    "\<exists>b' \<in> set bs'. \<not> bfree b' \<and> q = baddr b' + hdr M \<and> k \<le> bsize b'"
    "\<And>c. c \<in> set bs \<Longrightarrow> \<not> bfree c \<Longrightarrow> c \<notin> X \<Longrightarrow> baddr c + hdr M \<noteq> q"
    using s q by (auto simp: serves_def)
  have "owns M bs' own" by (rule owns_keep [OF o v(2) X])
  moreover have "q \<notin> fst ` set own"
  proof
    assume "q \<in> fst ` set own"
    then obtain j b where "(q, j) \<in> set own" "b \<in> set bs" "\<not> bfree b" "q = baddr b + hdr M"
      using o by (fastforce simp: owns_def)
    with v(4) [of b] X [of b] show False by force
  qed
  ultimately show ?thesis using v(1,3) by (auto simp: owns_def)
qed

text \<open>The bytes of what stays owned are as they were.\<close>

lemma serves_bytes:
  assumes s: "serves M ready st bs X k st' q" and o: "owns M bs own" and x: "(p, j) \<in> set own" "p \<le> x" "x < p + j"
    and X: "q = 0 \<or> (\<forall>b \<in> X. baddr b + hdr M \<noteq> p)"
  shows "mem st' x = mem st x"
proof -
  obtain b where b: "b \<in> set bs" "\<not> bfree b" "p = baddr b + hdr M" "x \<in> user M b"
    using owned_byte [OF o x] by auto
  have "b \<notin> (if q = 0 then {} else X)" using X b(3) by auto
  with s b show ?thesis by (auto simp: serves_def)
qed

lemma owned_pos: "ready st bs \<Longrightarrow> owns M bs own \<Longrightarrow> (p, k) \<in> set own \<Longrightarrow> p \<noteq> 0"
  using hdr_pos ready_pos [of st bs] by (fastforce simp: owns_def)

lemma disown_null: "ready st bs \<Longrightarrow> owns M bs own \<Longrightarrow> disown 0 own = own" "ready st bs \<Longrightarrow> owns M bs own \<Longrightarrow> size_owned 0 own = 0"
proof -
  assume a: "ready st bs" "owns M bs own"
  have n: "0 \<notin> fst ` set own" using owned_pos [OF a] by force
  then show "disown 0 own = own" by (force simp: disown_def intro!: filter_True)
  show "size_owned 0 own = 0" using n by (simp add: size_owned_def map_of_eq_None_iff [THEN iffD2])
qed

text \<open>A pointer served to the program: the invariant holds again.\<close>

lemma take_ptr_inv:
  assumes s: "serves M ready (cheap c) bs X k st' q" and r: "ready (cheap c) bs" and o: "owns M bs (owned c)"
    and t: "intact (cheap c) (owned c) (wrote c)"
    and own: "owns M bs own" "set own \<subseteq> set (owned c)" "\<And>b. b \<in> X \<Longrightarrow> baddr b + hdr M \<notin> fst ` set own"
    and w: "q \<noteq> 0 \<Longrightarrow> intact st' ((q, k) # own) (w q)"
  shows "client_inv M ready (take_ptr k own w (st', q) c)"
proof (cases "q = 0")
  case True
  obtain bs' where v: "ready st' bs'" "keeps_used bs {} bs'" using s True by (auto simp: serves_def)
  have "owns M bs' (owned c)" by (rule owns_keep [OF o v(2)]) simp
  moreover have "intact st' (owned c) (wrote c)"
    unfolding intact_def
  proof (intro allI impI)
    fix x v assume x: "wrote c x = Some v"
    with t obtain p j where p: "(p, j) \<in> set (owned c)" "p \<le> x" "x < p + j" "mem (cheap c) x = v"
      unfolding intact_def by blast
    have "mem st' x = mem (cheap c) x" using serves_bytes [OF s o p(1-3)] True by simp
    with p show "mem st' x = v \<and> (\<exists>(p, k)\<in>set (owned c). p \<le> x \<and> x < p + k)" by auto
  qed
  ultimately show ?thesis using True v(1) by (auto simp: take_ptr_def client_inv_def)
next
  case False
  with serves_owns [OF s False own(1,3)] w [OF False] show ?thesis by (auto simp: take_ptr_def client_inv_def)
qed

lemma kept_intact:
  assumes s: "serves M ready h bs X k st' q" and o: "owns M bs own" and t: "intact h own w"
    and X: "q = 0 \<or> (\<forall>b \<in> X. baddr b + hdr M \<notin> fst ` set own)"
  shows "intact st' own w"
  unfolding intact_def
proof (intro allI impI)
  fix x v assume x: "w x = Some v"
  with t obtain p j where p: "(p, j) \<in> set own" "p \<le> x" "x < p + j" "mem h x = v"
    unfolding intact_def by blast
  have "p \<in> fst ` set own" using p(1) by force
  then have "mem st' x = mem h x" using serves_bytes [OF s o p(1-3)] X by blast
  with p show "mem st' x = v \<and> (\<exists>(p, k)\<in>set own. p \<le> x \<and> x < p + k)" by auto
qed

lemma intact_Cons: "intact h own w \<Longrightarrow> intact h ((q, k) # own) w"
  unfolding intact_def by auto

lemma malloc_step:
  assumes inv: "client_inv M ready c" and g: "granted M (cheap c)" "0 \<le> k"
  shows "\<exists>r. op_malloc A k (cheap c) = Inr r \<and> client_inv M ready (take_ptr k (owned c) (\<lambda>q. wrote c) r c)"
proof -
  obtain bs where b: "ready (cheap c) bs" "owns M bs (owned c)" "intact (cheap c) (owned c) (wrote c)"
    using inv by (auto simp: client_inv_def)
  obtain st' q where s: "op_malloc A k (cheap c) = Inr (st', q)" "serves M ready (cheap c) bs {} k st' q"
    using malloc_law [OF b(1) g] by blast
  have "client_inv M ready (take_ptr k (owned c) (\<lambda>q. wrote c) (st', q) c)"
    by (rule take_ptr_inv [OF s(2) b b(2)]) (simp_all add: intact_Cons kept_intact [OF s(2) b(2,3)])
  with s(1) show ?thesis by blast
qed

lemma owned_ptr:
  assumes "client_inv M ready c" "p \<in> fst ` set (owned c)"
  obtains bs b j where "ready (cheap c) bs" "owns M bs (owned c)" "intact (cheap c) (owned c) (wrote c)"
    "(p, j) \<in> set (owned c)" "b \<in> set bs" "\<not> bfree b" "p = baddr b + hdr M" "j \<le> bsize b" "size_owned p (owned c) = j"
proof -
  obtain bs where b: "ready (cheap c) bs" "owns M bs (owned c)" "intact (cheap c) (owned c) (wrote c)"
    using assms(1) by (auto simp: client_inv_def)
  obtain j where j: "(p, j) \<in> set (owned c)" using assms(2) by auto
  with b(2) obtain d where "d \<in> set bs" "\<not> bfree d" "p = baddr d + hdr M" "j \<le> bsize d" by (auto simp: owns_def)
  moreover have "size_owned p (owned c) = j" using b(2) j by (auto simp: owns_def intro: size_owned)
  ultimately show ?thesis using that b j by blast
qed

text \<open>Forgetting what was written into a pointer that is given up.\<close>

lemma forget_intact:
  assumes r: "ready h bs" and o: "owns M bs own" and t: "intact h own w" and p: "(p, j) \<in> set own"
  shows "intact h (disown p own) (forget p j w)"
  unfolding intact_def
proof (intro allI impI)
  fix x v assume x: "forget p j w x = Some v"
  then have wx: "w x = Some v" "\<not> (p \<le> x \<and> x < p + j)" by (auto simp: forget_def split: if_splits)
  with t obtain q l where q: "(q, l) \<in> set own" "q \<le> x" "x < q + l" "mem h x = v" unfolding intact_def by blast
  have "q \<noteq> p"
  proof
    assume "q = p"
    with q(1) p o have "l = j" by (auto simp: owns_def dest: eq_key_imp_eq_value)
    with wx(2) q \<open>q = p\<close> show False by simp
  qed
  with q show "mem h x = v \<and> (\<exists>(p, k)\<in>set (disown p own). p \<le> x \<and> x < p + k)" by (auto simp: disown_iff)
qed

lemma disowned: "p \<notin> fst ` set (disown p own)"
  by (auto simp: disown_def)

lemma step_safe:
  assumes inv: "client_inv M ready c" and ok: "heap_ok M x c"
  shows "\<exists>c'. heap_step M A x c = Inr c' \<and> client_inv M ready c'"
proof (cases x)
  case (C_malloc k)
  with malloc_step [OF inv] ok show ?thesis by fastforce
next
  case (C_calloc n k)
  obtain bs where b: "ready (cheap c) bs" "owns M bs (owned c)" "intact (cheap c) (owned c) (wrote c)"
    using inv by (auto simp: client_inv_def)
  let ?k = "szt M (n * k)"
  obtain st' q where s: "op_calloc A n k (cheap c) = Inr (st', q)" "serves M ready (cheap c) bs {} ?k st' q"
    "q \<noteq> 0 \<longrightarrow> (\<forall>i. 0 \<le> i \<longrightarrow> i < ?k \<longrightarrow> mem st' (q + i) = 0)"
    using calloc_law [OF b(1), of n k] ok C_calloc by auto
  have "client_inv M ready (take_ptr ?k (owned c) (\<lambda>q x. if q \<le> x \<and> x < q + ?k then Some 0 else wrote c x) (st', q) c)"
  proof (rule take_ptr_inv [OF s(2) b b(2)])
    assume q: "q \<noteq> 0"
    have z: "mem st' x = 0" if "q \<le> x" "x < q + ?k" for x using s(3) q that by (force dest: spec [of _ "x - q"])
    have "intact st' (owned c) (wrote c)" by (rule kept_intact [OF s(2) b(2,3)]) simp
    then show "intact st' ((q, ?k) # owned c) (\<lambda>x. if q \<le> x \<and> x < q + ?k then Some 0 else wrote c x)"
      unfolding intact_def using z by auto
  qed simp_all
  with s(1) C_calloc show ?thesis by auto
next
  case (C_free p)
  show ?thesis
  proof (cases "p = 0")
    case True
    with inv disown_null C_free show ?thesis by (auto simp: free_null client_inv_def)
  next
    case False
    with ok C_free have "p \<in> fst ` set (owned c)" by simp
    from owned_ptr [OF inv this] obtain bs b j where o: "ready (cheap c) bs" "owns M bs (owned c)"
      "intact (cheap c) (owned c) (wrote c)" "(p, j) \<in> set (owned c)" "b \<in> set bs" "\<not> bfree b" "p = baddr b + hdr M"
      "size_owned p (owned c) = j" by metis
    obtain st' bs' where f: "op_free A p (cheap c) = Inr st'" "ready st' bs'" "keeps_used bs {b} bs'"
      "\<And>d x. d \<in> set bs \<Longrightarrow> \<not> bfree d \<Longrightarrow> d \<noteq> b \<Longrightarrow> x \<in> user M d \<Longrightarrow> mem st' x = mem (cheap c) x"
      using free_law [OF o(1,5,6)] o(7) by auto
    let ?own = "disown p (owned c)" and ?w = "forget p j (wrote c)"
    have "owns M bs' ?own"
      by (rule owns_keep [OF owns_disown [OF o(2)] f(3)]) (use disowned o(7) in auto)
    moreover have "intact st' ?own ?w"
      unfolding intact_def
    proof (intro allI impI)
      fix x v assume "?w x = Some v"
      with forget_intact [OF o(1-4)] obtain q l where q: "(q, l) \<in> set ?own" "q \<le> x" "x < q + l" "mem (cheap c) x = v"
        unfolding intact_def by blast
      obtain d where d: "d \<in> set bs" "\<not> bfree d" "q = baddr d + hdr M" "x \<in> user M d"
        using owned_byte [OF owns_disown [OF o(2)] q(1-3)] by blast
      have "d \<noteq> b" using q(1) d(3) o(7) by (auto simp: disown_iff)
      with f(4) [OF d(1,2) _ d(4)] q show "mem st' x = v \<and> (\<exists>(p, k)\<in>set ?own. p \<le> x \<and> x < p + k)" by auto
    qed
    ultimately show ?thesis using f(1,2) C_free o(8) by (auto simp: client_inv_def)
  qed
next
  case (C_realloc p k)
  show ?thesis
  proof (cases "p = 0")
    case True
    obtain bs where b: "ready (cheap c) bs" "owns M bs (owned c)" using inv by (auto simp: client_inv_def)
    have "take_ptr k (disown 0 (owned c)) (\<lambda>q x. let j = size_owned 0 (owned c) in
          if q \<le> x \<and> x < q + min j k then wrote c (0 + (x - q)) else forget 0 j (wrote c) x) r c =
        take_ptr k (owned c) (\<lambda>q. wrote c) r c" if "0 \<le> k" for r
      using that disown_null [OF b] by (auto simp: take_ptr_def fun_eq_iff split: prod.split)
    with malloc_step [OF inv, of k] ok C_realloc True show ?thesis by (auto simp: realloc_null)
  next
    case False
    with ok C_realloc have "p \<in> fst ` set (owned c)" "0 \<le> k" "granted M (cheap c)" by auto
    from owned_ptr [OF inv this(1)] obtain bs b j where o: "ready (cheap c) bs" "owns M bs (owned c)"
      "intact (cheap c) (owned c) (wrote c)" "(p, j) \<in> set (owned c)" "b \<in> set bs" "\<not> bfree b" "p = baddr b + hdr M"
      "j \<le> bsize b" "size_owned p (owned c) = j" by metis
    obtain st' q where s: "op_realloc A p k (cheap c) = Inr (st', q)" "serves M ready (cheap c) bs {b} k st' q"
      "q \<noteq> 0 \<longrightarrow> (\<forall>i. 0 \<le> i \<longrightarrow> i < min k (bsize b) \<longrightarrow> mem st' (q + i) = mem (cheap c) (p + i))"
      using realloc_law [OF o(1) \<open>granted M (cheap c)\<close> \<open>0 \<le> k\<close> o(5,6)] o(7) by auto
    let ?own = "disown p (owned c)"
    let ?w = "\<lambda>q x. if q \<le> x \<and> x < q + min j k then wrote c (p + (x - q)) else forget p j (wrote c) x"
    have nb: "baddr b + hdr M \<notin> fst ` set ?own" using disowned o(7) by auto
    have "client_inv M ready (take_ptr k ?own ?w (st', q) c)"
    proof (rule take_ptr_inv [OF s(2) o(1-3) owns_disown [OF o(2)]])
      assume q: "q \<noteq> 0"
      have mv: "mem st' x = mem (cheap c) (p + (x - q))" if "q \<le> x" "x < q + min j k" for x
        using s(3) q that o(8) by (auto dest: spec [of _ "x - q"])
      have old: "intact st' ?own (forget p j (wrote c))"
        by (rule kept_intact [OF s(2) owns_disown [OF o(2)] forget_intact [OF o(1-4)]]) (use nb in auto)
      show "intact st' ((q, k) # ?own) (?w q)"
        unfolding intact_def
      proof (intro allI impI)
        fix x v assume x: "?w q x = Some v"
        show "mem st' x = v \<and> (\<exists>(p, k)\<in>set ((q, k) # ?own). p \<le> x \<and> x < p + k)"
        proof (cases "q \<le> x \<and> x < q + min j k")
          case True
          with x have "wrote c (p + (x - q)) = Some v" by simp
          with o(3) have "mem (cheap c) (p + (x - q)) = v" unfolding intact_def by blast
          with mv True show ?thesis by auto
        next
          case False
          with x old show ?thesis unfolding intact_def by auto
        qed
      qed
    qed (use nb in \<open>auto simp: disown_iff\<close>)
    with s(1) o(9) C_realloc show ?thesis by (auto simp: Let_def)
  qed
next
  case (C_write p i v)
  with ok obtain k where k: "(p, k) \<in> set (owned c)" "0 \<le> i" "i < k" by auto
  then have "p \<in> fst ` set (owned c)" by force
  from owned_ptr [OF inv this] obtain bs b j where o: "ready (cheap c) bs" "owns M bs (owned c)"
    "intact (cheap c) (owned c) (wrote c)" "(p, j) \<in> set (owned c)" "b \<in> set bs" "p = baddr b + hdr M" "j \<le> bsize b"
    by metis
  have "k = j" using o(2,4) k(1) by (auto simp: owns_def dest: eq_key_imp_eq_value)
  then have "ready (write_bytes M (p + i) 1 (\<lambda>_. v) (cheap c)) bs"
    using write_law [OF o(1,5), of i] k o(6,7) by simp
  moreover have "intact (write_bytes M (p + i) 1 (\<lambda>_. v) (cheap c)) (owned c) ((wrote c)(p + i \<mapsto> v))"
    using o(3) k unfolding intact_def by (auto simp: write_bytes_def intro!: bexI [of _ "(p, k)"])
  ultimately show ?thesis using C_write o(2) by (auto simp: client_inv_def)
qed

text \<open>What the program last wrote into a byte it owns is what it reads.\<close>

lemma inv_promise:
  "client_inv M ready c \<Longrightarrow> separate (owned c) \<and> (\<forall>x v. wrote c x = Some v \<longrightarrow> mem (cheap c) x = v)"
  using owned_separate by (auto simp: client_inv_def intact_def)

end

sublocale allocator \<subseteq> run: safe_machine "heap_step M A" "heap_ok M" "client_inv M ready"
  by unfold_locales (rule step_safe)

text \<open>Nothing assumed of the kernel: the run is as promised up to its end, or up to a call at which the kernel would
  refuse a request.\<close>

context allocator
begin

lemma run_until_refused:
  assumes "client_inv M ready c" "ops_allowed (heap_step M A) well_behaved xs c"
  shows "\<exists>ys zs c'. xs = ys @ zs \<and> run_ops (heap_step M A) ys c = Inr c' \<and> client_inv M ready c' \<and>
    (zs = [] \<or> asks_kernel (hd zs) \<and> \<not> granted M (cheap c'))"
  using assms
proof (induction xs arbitrary: c)
  case (Cons x xs)
  show ?case
  proof (cases "heap_ok M x c")
    case True
    obtain c1 where c1: "heap_step M A x c = Inr c1" "client_inv M ready c1" using step_safe [OF Cons.prems(1) True] by blast
    then obtain ys zs c' where r: "xs = ys @ zs" "run_ops (heap_step M A) ys c1 = Inr c'" "client_inv M ready c'"
      "zs = [] \<or> asks_kernel (hd zs) \<and> \<not> granted M (cheap c')"
      using Cons.IH [of c1] Cons.prems(2) by auto
    then show ?thesis using c1(1) by (intro exI [of _ "x # ys"] exI [of _ zs] exI [of _ c']) simp
  next
    case False
    then have "asks_kernel x \<and> \<not> granted M (cheap c)" using Cons.prems(2) by (simp add: heap_ok_iff)
    then show ?thesis using Cons.prems(1) by (intro exI [of _ "[]"] exI [of _ "x # xs"] exI [of _ c]) simp
  qed
qed simp

end

end
