(* ===== verification/Malloc_3_Realloc.thy ===== *)
theory Malloc_3_Realloc
  imports Malloc_3_Refine Heap_Client
begin

text \<open>
  HW4, \<^verbatim>\<open>HW4/malloc_3.cpp\<close>: what the operations promise their callers. The blocks in use stay
  as they are, with their bytes; a returned pointer is the user area of a block in use that is large
  enough and was not in use before; \<open>realloc\<close> keeps the bytes up to the smaller of the two sizes.
\<close>

lemma user_not_hdrs:
  assumes "contig M a bs e" "0 < hdr M" "b \<in> set bs" "x \<in> user M b"
  shows "x \<notin> hdrs M bs"
proof
  assume "x \<in> hdrs M bs"
  then obtain c where c: "c \<in> set bs" "baddr c \<le> x" "x < baddr c + hdr M" by (auto simp: hdrs_def)
  obtain xs ys where bs: "bs = xs @ b # ys" using assms(3) by (auto simp: in_set_conv_decomp)
  note m = contig_middle [OF assms(1) [unfolded bs] assms(2)]
  have "0 < bsize c" using contig_bounds(2) [OF assms(1,2) c(1)] by simp
  then have "c = b"
    using c m(1) [of c] m(2) [of c] assms(4) bs by (fastforce simp: user_def bend_def)
  with c assms(4) show False by (auto simp: user_def)
qed

lemma rep_user:
  assumes "rep M st bs" "0 < hdr M" "b \<in> set bs" "x \<in> user M b"
  shows "x \<notin> hdrs M bs"
  using user_not_hdrs [OF rep_parts(5) [OF assms(1,2)] assms(2-4)] .

text \<open>User areas of different blocks are disjoint.\<close>

lemma user_disjoint:
  assumes "rep M st bs" "0 < hdr M" "b \<in> set bs" "c \<in> set bs" "b \<noteq> c"
  shows "user M b \<inter> user M c = {}"
proof -
  obtain xs ys where bs: "bs = xs @ b # ys" using assms(3) by (auto simp: in_set_conv_decomp)
  have "contig M (head st) (xs @ b # ys) (brk st)" using rep_parts(5) [OF assms(1,2)] bs by simp
  note m = contig_middle [OF this assms(2)]
  show ?thesis using m(1) [of c] m(2) [of c] assms(2,4,5) bs by (auto simp: user_def)
qed

lemma rep_addr_inj:
  assumes "rep M st bs" "0 < hdr M" "b \<in> set bs" "c \<in> set bs" "baddr b = baddr c"
  shows "b = c"
proof -
  obtain xs ys where bs: "bs = xs @ b # ys" using assms(3) by (auto simp: in_set_conv_decomp)
  show ?thesis using rep_apart [OF assms(1,2)] assms(2,4,5) bs by (fastforce simp: apart_simps)
qed

lemma join_next_used: "c \<in> set ys \<Longrightarrow> \<not> bfree c \<Longrightarrow> c \<in> set (join_next M b ys)"
  by (cases ys) auto

lemma settle_used: "c \<in> set xs \<union> set ys \<Longrightarrow> \<not> bfree c \<Longrightarrow> c \<in> set (settle M xs b ys)"
  by (cases xs rule: rev_cases) (auto simp: settle_snoc join_next_used)

lemma join_next_no_adj:
  assumes "no_adj xs" "no_adj ys" "\<not> bfree u" "bfree s"
  shows "no_adj (xs @ u # join_next M s ys)"
proof -
  have "no_adj (join_next M s ys)"
    using assms(2,4) by (cases ys; cases "tl ys") auto
  with assms(1,3) show ?thesis by (auto simp: no_adj_append no_adj_Cons)
qed

lemma middle_no_adj:
  "no_adj (xs @ b # ys) \<Longrightarrow> no_adj xs \<and> no_adj ys" "no_adj xs \<Longrightarrow> no_adj ys \<Longrightarrow> \<not> bfree u \<Longrightarrow> no_adj (xs @ u # ys)"
  by (auto simp: no_adj_append no_adj_Cons)

lemma alloc_in_no_adj: "no_adj (xs @ b # ys) \<Longrightarrow> no_adj (alloc_in M req xs b ys)"
  using middle_no_adj(1) [of xs b ys] by (auto simp: alloc_in_def middle_no_adj(2) join_next_no_adj)

subsection \<open>What malloc promises\<close>

lemma spec_malloc_promise:
  assumes M: "ilp32 M" and n: "no_adj bs" "bs \<noteq> []" and req: "0 < req"
    and sp: "spec_malloc M req bs = (bs', p, reused)"
  shows "no_adj bs'" "keeps_used bs {} bs'"
    and "\<exists>b \<in> set bs'. \<not> bfree b \<and> p = baddr b + hdr M \<and> req \<le> bsize b"
    and "\<forall>c \<in> set bs. \<not> bfree c \<longrightarrow> \<not> reused \<longrightarrow> contig M a bs e \<longrightarrow> baddr c + hdr M \<noteq> p"
    and "reused \<Longrightarrow> \<exists>b \<in> set bs. bfree b \<and> p = baddr b + hdr M"
proof -
  have "no_adj bs' \<and> keeps_used bs {} bs' \<and> (\<exists>b \<in> set bs'. \<not> bfree b \<and> p = baddr b + hdr M \<and> req \<le> bsize b) \<and>
    (\<forall>c \<in> set bs. \<not> bfree c \<longrightarrow> \<not> reused \<longrightarrow> contig M a bs e \<longrightarrow> baddr c + hdr M \<noteq> p) \<and>
    (reused \<longrightarrow> (\<exists>b \<in> set bs. bfree b \<and> p = baddr b + hdr M))"
  proof (cases "first_fit req bs")
    case (Some t)
    obtain xs c ys where t: "t = (xs, c, ys)" by (cases t) auto
    note c = first_fit_Some [OF Some [unfolded t]]
    have bs': "bs' = alloc_in M req xs c ys" "p = baddr c + hdr M" "reused"
      using sp Some t by (auto simp: spec_malloc_def)
    have "keeps_used bs {} bs'" using c by (auto simp: keeps_used_def bs'(1) alloc_in_def join_next_used)
    with alloc_in_no_adj [of xs c ys M req] n c bs' show ?thesis by (auto simp: alloc_in_def)
  next
    case None
    obtain xs l where l: "bs = xs @ [l]" using n(2) by (metis append_butlast_last_id)
    show ?thesis
    proof (cases "bfree l")
      case True
      then have "bs' = xs @ [used_part req l]" "p = baddr l + hdr M" reused
        using sp None l by (auto simp: spec_malloc_def)
      with n True l show ?thesis by (auto simp: keeps_used_def no_adj_append)
    next
      case False
      then have b: "bs' = xs @ [l, \<lparr>baddr = bend M l, bsize = req, bfree = False\<rparr>]" "p = bend M l + hdr M" "\<not> reused"
        using sp None l by (auto simp: spec_malloc_def)
      have "baddr c < bend M l" if "c \<in> set bs" "contig M a bs e" for c
        using contig_bounds(2) [OF that(2) ilp32_hdr(1) [OF M] that(1)] contig_last that(2) l ilp32_hdr(1) [OF M]
        by (fastforce simp: bend_def)
      with n False l b show ?thesis by (fastforce simp: keeps_used_def no_adj_append)
    qed
  qed
  then show "no_adj bs'" "keeps_used bs {} bs'"
    and "\<exists>b \<in> set bs'. \<not> bfree b \<and> p = baddr b + hdr M \<and> req \<le> bsize b"
    and "\<forall>c \<in> set bs. \<not> bfree c \<longrightarrow> \<not> reused \<longrightarrow> contig M a bs e \<longrightarrow> baddr c + hdr M \<noteq> p"
    and "reused \<Longrightarrow> \<exists>b \<in> set bs. bfree b \<and> p = baddr b + hdr M" by auto
qed

text \<open>The contract of \<open>Heap_Client\<close>, for heaps that represent blocks no two of which are free neighbours.\<close>

definition merged :: "abi \<Rightarrow> heap \<Rightarrow> blk list \<Rightarrow> bool" where
  "merged M st bs \<longleftrightarrow> rep M st bs \<and> no_adj bs"

abbreviation served :: "abi \<Rightarrow> heap \<Rightarrow> blk list \<Rightarrow> blk set \<Rightarrow> int \<Rightarrow> heap \<Rightarrow> int \<Rightarrow> bool" where
  "served M \<equiv> serves M (merged M)"

lemmas served_def = serves_def merged_def

lemma kept_user:
  assumes "kept (hdrs M bs \<union> hdrs M bs') st st'" "rep M st bs" "rep M st' bs'" "0 < hdr M"
    and "c \<in> set bs" "c \<in> set bs'" "x \<in> user M c"
  shows "mem st' x = mem st x"
  using assms(1) rep_user [OF assms(2,4,5,7)] rep_user [OF assms(3,4,6,7)] by (simp add: kept_def)

lemma malloc_served:
  assumes M: "ilp32 M" and r: "rep M st bs" and n: "no_adj bs" and k: "0 < k" "k \<le> MAX_SIZE" and g: "granted M st"
  shows "\<exists>st' q bs' p reused. malloc M k st = Inr (st', q) \<and> served M st bs {} (round4 k) st' q \<and>
    spec_malloc M (round4 k) bs = (bs', p, reused) \<and> rep M st' bs' \<and> kept (hdrs M bs \<union> hdrs M bs') st st' \<and>
    q = (if reused \<and> all_ones st' p then 0 else p)"
proof -
  note h = ilp32_hdr(1) [OF M]
  obtain bs' p reused where sp: "spec_malloc M (round4 k) bs = (bs', p, reused)" by (metis prod_cases3)
  obtain st' where s: "malloc M k st = Inr (st', if reused \<and> all_ones st' p then 0 else p)" "rep M st' bs'"
    "kept (hdrs M bs \<union> hdrs M bs') st st'"
    using malloc_rep [OF M r k g sp] by blast
  have ne: "bs \<noteq> []" using r by (simp add: rep_def laid_def)
  note pr = spec_malloc_promise [OF M n ne round4(1) [OF k(1)] sp]
  have ku: "c \<in> set bs'" if "c \<in> set bs" "\<not> bfree c" for c using pr(2) that by (simp add: keeps_used_def)
  have new: "baddr c + hdr M \<noteq> p" if c: "c \<in> set bs" "\<not> bfree c" for c
  proof (cases reused)
    case True
    with pr(5) obtain b where b: "b \<in> set bs" "bfree b" "p = baddr b + hdr M" by auto
    with c rep_addr_inj [OF r h b(1) c(1)] show ?thesis by (metis add_right_cancel)
  next
    case False
    with pr(4) c rep_parts(5) [OF r h] show ?thesis by auto
  qed
  have pos: "baddr c + hdr M \<noteq> 0" if "c \<in> set bs" for c using rep_addr(1) [OF r h that] h by simp
  let ?q = "if reused \<and> all_ones st' p then 0 else p"
  have "served M st bs {} (round4 k) st' ?q"
    unfolding served_def
  proof (intro exI [of _ bs'] conjI)
    show "\<forall>c \<in> set bs. \<not> bfree c \<longrightarrow> c \<notin> (if ?q = 0 then {} else {}) \<longrightarrow> (\<forall>x \<in> user M c. mem st' x = mem st x)"
      using kept_user [OF s(3) r s(2) h] ku by blast
  qed (use s(2) pr(1-3) new pos in \<open>auto simp: keeps_used_def\<close>)
  with s sp show ?thesis by blast
qed

subsection \<open>What realloc promises\<close>

text \<open>The block \<open>b\<close> stays where it is and becomes \<open>b'\<close>.\<close>

lemma in_place:
  assumes r: "rep M st (xs @ b # ys)" and h: "0 < hdr M" and b: "\<not> bfree b"
    and s: "rep M st' (xs @ b' # zs)" "kept (hdrs M (xs @ b # ys) \<union> hdrs M (xs @ b' # zs)) st st'"
    and n: "no_adj (xs @ b' # zs)" and b': "baddr b' = baddr b" "\<not> bfree b'" "k \<le> bsize b'"
    and u: "\<And>c. c \<in> set ys \<Longrightarrow> \<not> bfree c \<Longrightarrow> c \<in> set zs"
  shows "served M st (xs @ b # ys) {b} k st' (baddr b + hdr M)"
    and "0 \<le> i \<Longrightarrow> i < min k (bsize b) \<Longrightarrow> mem st' (baddr b + hdr M + i) = mem st (baddr b + hdr M + i)"
proof -
  have p: "baddr b + hdr M \<noteq> 0" using rep_addr(1) [OF r h, of b] h by simp
  have ku: "c \<in> set (xs @ b' # zs)" if "c \<in> set (xs @ b # ys)" "\<not> bfree c" "c \<noteq> b" for c
    using that u by auto
  show "served M st (xs @ b # ys) {b} k st' (baddr b + hdr M)"
    unfolding served_def
  proof (intro exI [of _ "xs @ b' # zs"] conjI)
    show "\<forall>c \<in> set (xs @ b # ys). \<not> bfree c \<longrightarrow> c \<notin> {b} \<longrightarrow> baddr c + hdr M \<noteq> baddr b + hdr M"
      using rep_addr_inj [OF r h, of b] by (metis add_right_cancel in_set_conv_decomp singletonI)
    show "\<forall>c \<in> set (xs @ b # ys). \<not> bfree c \<longrightarrow> c \<notin> (if baddr b + hdr M = 0 then {} else {b}) \<longrightarrow>
        (\<forall>x \<in> user M c. mem st' x = mem st x)"
      using kept_user [OF s(2) r s(1) h] ku p by (metis singletonI)
  qed (use s(1) n b' ku p in \<open>auto simp: keeps_used_def\<close>)
  assume i: "0 \<le> i" "i < min k (bsize b)"
  then have i: "baddr b + hdr M + i \<in> user M b" "baddr b + hdr M + i \<in> user M b'"
    using b' by (auto simp: user_def bend_def)
  have "baddr b + hdr M + i \<notin> hdrs M (xs @ b # ys)" by (rule rep_user [OF r h _ i(1)]) simp
  moreover have "baddr b + hdr M + i \<notin> hdrs M (xs @ b' # zs)" by (rule rep_user [OF s(1) h _ i(2)]) simp
  ultimately show "mem st' (baddr b + hdr M + i) = mem st (baddr b + hdr M + i)"
    using s(2) unfolding kept_def by blast
qed

definition trimmed :: "abi \<Rightarrow> int \<Rightarrow> blk \<Rightarrow> blk list \<Rightarrow> blk \<times> blk list" where
  "trimmed M req b ys =
     (if bsize b - req - hdr M \<ge> REMAIN then (used_part req b, join_next M (rest_part M req b) ys) else (b, ys))"

lemma trim_rep:
  assumes M: "ilp32 M" and r: "rep M st (xs @ b # ys)" and n: "no_adj xs" "no_adj ys" and b: "\<not> bfree b"
    and req: "0 < req" "req \<le> bsize b" and t: "trimmed M req b ys = (b', zs)"
  shows "yields M (trim M (baddr b) req st) st (xs @ b # ys) (xs @ b' # zs)"
    "no_adj (xs @ b' # zs)" "baddr b' = baddr b" "\<not> bfree b'" "req \<le> bsize b'"
    "\<And>c. c \<in> set ys \<Longrightarrow> \<not> bfree c \<Longrightarrow> c \<in> set zs"
proof -
  have "0 < bsize b - req - hdr M" if "bsize b - req - hdr M \<ge> REMAIN" using that by (simp add: REMAIN_def)
  from split_rep [OF r ilp32_hdr(1) [OF M] req(1) this]
  show "yields M (trim M (baddr b) req st) st (xs @ b # ys) (xs @ b' # zs)"
    using t M rep_get [OF r] yields_refl [OF r] by (auto simp: trim_def trimmed_def split: if_splits)
  show "no_adj (xs @ b' # zs)" "baddr b' = baddr b" "\<not> bfree b'" "req \<le> bsize b'"
    "\<And>c. c \<in> set ys \<Longrightarrow> \<not> bfree c \<Longrightarrow> c \<in> set zs"
    using t n b req by (auto simp: trimmed_def join_next_no_adj middle_no_adj(2) join_next_used split: if_splits)
qed

text \<open>Writing into the user area of a block changes no header.\<close>

lemma write_at_rep:
  assumes r: "rep M st bs" and h: "0 < hdr M" and b: "b \<in> set bs" and n: "0 \<le> i" "i + n \<le> bsize b"
  shows "rep M (write_bytes M (baddr b + hdr M + i) n f st) bs"
    "mem (write_bytes M (baddr b + hdr M + i) n f st) x =
       (if baddr b + hdr M + i \<le> x \<and> x < baddr b + hdr M + i + n then f x else mem st x)"
proof -
  let ?st = "write_bytes M (baddr b + hdr M + i) n f st"
  note R = rep_parts [OF r h]
  obtain xs ys where bs: "bs = xs @ b # ys" using b by (auto simp: in_set_conv_decomp)
  have "contig M (head st) (xs @ b # ys) (brk st)" using R(5) bs by simp
  note m = contig_middle [OF this h]
  have "nodes ?st (baddr c) = nodes st (baddr c)" if c: "c \<in> set bs" for c
  proof -
    have "0 < bsize c" using rep_addr(4) [OF r h c] .
    with m(1) [of c] m(2) [of c] c bs n h show ?thesis by (fastforce simp: write_bytes_def bend_def)
  qed
  then have "linked M (nodes ?st) bs"
    using R(2) chain_cong [of bs "nodes ?st" "nodes st"] by (simp add: linked_def)
  moreover have "bend M b \<le> brk st" using rep_addr(3) [OF r h b] .
  then have "laid M ?st bs" using R(1) n by (auto simp: laid_def write_bytes_def bend_def)
  ultimately show "rep M ?st bs" using R(3) by (simp add: rep_def counted_def write_bytes_def)
  show "mem ?st x = (if baddr b + hdr M + i \<le> x \<and> x < baddr b + hdr M + i + n then f x else mem st x)"
    by (simp add: write_bytes_def)
qed

lemmas write_rep = write_at_rep [where i = 0, simplified]

text \<open>Extending the last block: the marking before it is undone.\<close>

lemma realloc_last_rep:
  assumes M: "ilp32 M" and r: "rep M st (xs @ [b])" and b: "\<not> bfree b"
    and req: "bsize b < req" "req \<le> MAX_SIZE + 3" and g: "granted M st"
  shows "\<exists>st'. realloc_last M (baddr b + hdr M) req st = Inr (st', baddr b + hdr M) \<and>
    rep M st' (xs @ [used_part req b]) \<and> kept (hdrs M (xs @ [b])) st st'"
proof -
  note h = ilp32_hdr(1) [OF M]
  note R = rep_parts [OF r h]
  let ?b = "b\<lparr>bfree := True\<rparr>"
  have L: "linked M (nodes st) (xs @ b # [])" and A: "apart M (xs @ b # [])" and A1: "apart M (xs @ ?b # [])"
    using R(2,4) by (simp_all add: apart_simps)
  obtain st1 where s1: "upd M (baddr b) (\<lambda>t. t\<lparr>is_freed := True\<rparr>) st = Inr st1"
    "linked M (nodes st1) (xs @ ?b # [])" "quiet M {baddr b} st st1"
    using linked_change [OF L A h, of "\<lambda>t. t\<lparr>is_freed := True\<rparr>" ?b] by auto
  note g1 = linked_get [OF s1(2), simplified]
  have hs: "head st1 = head st" "haddr xs (baddr b) = head st"
    using quiet_sel(3) [OF s1(3)] rep_head [OF r] by (cases xs; simp)+
  have f: "setFree M (baddr b) st1 = Inr st1" using g1 by (simp add: setFree_def)
  obtain hn where hn: "get (head st1) st1 = Inr hn" "prev_node hn = baddr b"
  proof (cases xs)
    case Nil
    with g1 hs that show ?thesis by simp
  next
    case (Cons x xs')
    with linked_get [of M st1 "[]" x "xs' @ [?b]"] s1(2) hs that show ?thesis by simp
  qed
  have w: "is_free_wilderness (baddr b) st1 = Inr True" using g1 hs by (simp add: is_free_wilderness_def)
  have fb: "(\<lambda>t. t\<lparr>is_freed := False\<rparr>) (node_of M ?b nx pv) = node_of M b nx pv" for nx pv
    using b by simp
  obtain st2 where s2: "upd M (baddr b) (\<lambda>t. t\<lparr>is_freed := False\<rparr>) st1 = Inr st2"
    "linked M (nodes st2) (xs @ [b])" "quiet M {baddr b} st1 st2"
    using linked_change [OF s1(2) A1 h, of "\<lambda>t. t\<lparr>is_freed := False\<rparr>" b] fb by auto
  have q: "quiet M (baddr ` set (xs @ [b])) st st2"
    by (rule quiet_trans [OF quiet_mono [OF s1(3)] quiet_mono [OF s2(3)]]) auto
  have r2: "rep M st2 (xs @ [b])"
    using laid_quiet [OF q R(5,1) h] s2(2) R(3) counted_quiet [OF q] by (simp add: rep_def)
  have e: "realloc_last M (baddr b + hdr M) req st = wilderness M req st2"
    using rep_last(2) [OF r] b s1(1) f hn w s2(1) by (simp add: realloc_last_def)
  have "grants M (brk st2) (req - bsize b)"
    using g req quiet_sel(1) [OF q] rep_addr(4) [OF r h, of b] by (simp add: granted_def MAX_SIZE_def)
  from wilderness_rep [OF r2 h _ _ this] req(1) M obtain st' where
    "wilderness M req st2 = Inr (st', baddr b + hdr M)" "rep M st' (xs @ [used_part req b])"
    "kept (hdrs M (xs @ [b])) st2 st'" by auto
  with e kept_trans [OF quiet_kept [OF q] this(3) subset_refl subset_refl] show ?thesis
    by (intro exI [of _ st']) simp
qed

lemma round4_idem: "0 < k \<Longrightarrow> round4 (round4 k) = round4 k" "0 < k \<Longrightarrow> k \<le> MAX_SIZE \<Longrightarrow> round4 k \<le> MAX_SIZE"
proof -
  assume k: "0 < k"
  show "round4 (round4 k) = round4 k" using round4(4) [of k] by (simp add: round4_def [of "round4 k"])
  show "round4 k \<le> MAX_SIZE" if "k \<le> MAX_SIZE"
    using round4(3,4) [of k] that unfolding MAX_SIZE_def by presburger
qed

text \<open>The old block lies in the part that \<open>free\<close> leaves alone when it is another block.\<close>

lemma coalesce_used:
  assumes "no_adj bs" "b \<in> set bs" "c \<in> set bs" "\<not> bfree c" "\<not> bfree b" "c \<noteq> b"
    and inj: "\<And>x y. x \<in> set bs \<Longrightarrow> y \<in> set bs \<Longrightarrow> baddr x = baddr y \<Longrightarrow> x = y"
  shows "c \<in> set (coalesce M (mark_free M (baddr b + hdr M) bs))"
proof -
  have "c \<in> set (mark_free M (baddr b + hdr M) bs)"
    using assms(3,6) inj [OF assms(2,3)] by (force simp: mark_free_def)
  moreover have "c \<in> set ds \<Longrightarrow> \<not> bfree c \<Longrightarrow> c \<in> set (coalesce M ds)" for ds
    by (induction M ds rule: coalesce.induct) auto
  ultimately show ?thesis using assms(4) by blast
qed

lemma realloc_move_served:
  assumes M: "ilp32 M" and r: "rep M st bs" and n: "no_adj bs" and b: "b \<in> set bs" "\<not> bfree b"
    and k: "0 < k" "k \<le> MAX_SIZE" "bsize b < round4 k" and g: "granted M st"
  shows "\<exists>st' q. realloc_move M (baddr b + hdr M) (round4 k) st = Inr (st', q) \<and>
    served M st bs {b} k st' q \<and>
    (q \<noteq> 0 \<longrightarrow> (\<forall>i. 0 \<le> i \<longrightarrow> i < min k (bsize b) \<longrightarrow> mem st' (q + i) = mem st (baddr b + hdr M + i)))"
proof -
  note h = ilp32_hdr(1) [OF M]
  note rk = round4(1) [OF k(1)] round4(2) [of k] round4_idem(1) [OF k(1)] round4_idem(2) [OF k(1,2)]
  obtain st1 q where m: "malloc M (round4 k) st = Inr (st1, q)" "served M st bs {} (round4 k) st1 q"
    using malloc_served [OF M r n rk(1,4) g] unfolding rk(3) by blast
  obtain bs1 where v: "rep M st1 bs1" "no_adj bs1" "keeps_used bs {} bs1"
    "q \<noteq> 0 \<longrightarrow> (\<exists>b' \<in> set bs1. \<not> bfree b' \<and> q = baddr b' + hdr M \<and> round4 k \<le> bsize b')"
    "\<And>c. c \<in> set bs \<Longrightarrow> \<not> bfree c \<Longrightarrow> baddr c + hdr M \<noteq> q"
    "\<And>c x. c \<in> set bs \<Longrightarrow> \<not> bfree c \<Longrightarrow> x \<in> user M c \<Longrightarrow> mem st1 x = mem st x"
    using m(2) by (auto simp: served_def)
  show ?thesis
  proof (cases "q = 0")
    case True
    then have "served M st bs {b} k st1 0"
      using v unfolding served_def by (intro exI [of _ bs1]) (auto simp: keeps_used_def)
    with m(1) True show ?thesis by (simp add: realloc_move_def)
  next
    case False
    with v(4) obtain b' where b': "b' \<in> set bs1" "\<not> bfree b'" "q = baddr b' + hdr M" "round4 k \<le> bsize b'" by auto
    have b1: "b \<in> set bs1" using v(3) b by (simp add: keeps_used_def)
    have ne: "b' \<noteq> b" using v(5) [OF b] b'(3) by auto
    obtain us vs where bs1: "bs1 = us @ b # vs" using b1 by (auto simp: in_set_conv_decomp)
    obtain us' vs' where bs1': "bs1 = us' @ b' # vs'" using b'(1) by (auto simp: in_set_conv_decomp)
    have gb: "\<exists>nx pv. get (baddr b) st1 = Inr (node_of M b nx pv)" using rep_get [OF v(1) [unfolded bs1]] by blast
    have gb': "\<exists>nx pv. get (baddr b') st1 = Inr (node_of M b' nx pv)" using rep_get [OF v(1) [unfolded bs1']] by blast
    define st2 where "st2 = memcpy M q (baddr b + hdr M) (bsize b) st1"
    have le: "bsize b \<le> bsize b'" using k(3) b'(4) by simp
    note w = write_rep [OF v(1) h b'(1) le]
    have r2: "rep M st2 bs1" and m2: "mem st2 x = (if q \<le> x \<and> x < q + bsize b then mem st1 (baddr b + hdr M + (x - q)) else mem st1 x)" for x
      using w by (simp_all add: st2_def memcpy_def b'(3))
    let ?cs = "coalesce M (mark_free M (baddr b + hdr M) bs1)"
    obtain st3 where f: "free M (baddr b + hdr M) st2 = Inr st3" "rep M st3 ?cs" "no_adj ?cs" "kept (hdrs M bs1 \<union> hdrs M ?cs) st2 st3"
      using free_rep [OF M r2 v(2) b1 b(2)] by blast
    have cu: "c \<in> set ?cs" if "c \<in> set bs1" "\<not> bfree c" "c \<noteq> b" for c
      by (rule coalesce_used [OF v(2) b1 that(1,2) b(2) that(3)]) (rule rep_addr_inj [OF v(1) h])
    have b3: "b' \<in> set ?cs" by (rule cu [OF b'(1,2) ne])
    obtain us3 vs3 where cs: "?cs = us3 @ b' # vs3" using b3 by (auto simp: in_set_conv_decomp)
    have gb3: "\<exists>nx pv. get (baddr b') st3 = Inr (node_of M b' nx pv)" using rep_get [OF f(2) [unfolded cs]] by blast
    have e: "realloc_move M (baddr b + hdr M) (round4 k) st = Inr (st3, q)"
      using m(1) False gb gb' gb3 f(1) b'(3) by (auto simp: realloc_move_def st2_def)
    have away: "mem st2 x = mem st1 x" if "c \<in> set bs1" "c \<noteq> b'" "x \<in> user M c" for c x
    proof -
      have "x \<notin> user M b'" using user_disjoint [OF v(1) h that(1) b'(1) that(2)] that(3) by blast
      then show ?thesis using le by (auto simp: m2 user_def bend_def b'(3))
    qed
    have "served M st bs {b} k st3 q"
      unfolding served_def
    proof (intro exI [of _ ?cs] conjI ballI impI)
      show "q \<noteq> 0 \<Longrightarrow> \<exists>b'\<in>set ?cs. \<not> bfree b' \<and> q = baddr b' + hdr M \<and> k \<le> bsize b'"
        using b3 b' rk(2) by force
      show "keeps_used bs (if q = 0 then {} else {b}) ?cs"
        using v(3) cu False by (auto simp: keeps_used_def)
      fix c assume c: "c \<in> set bs" "\<not> bfree c"
      then have c1: "c \<in> set bs1" using v(3) by (simp add: keeps_used_def)
      show "baddr c + hdr M \<noteq> q" by (rule v(5) [OF c])
      fix x assume nb: "c \<notin> (if q = 0 then {} else {b})" and x: "x \<in> user M c"
      have "c \<noteq> b'" using v(5) [OF c] b'(3) by auto
      moreover have "c \<in> set ?cs" using cu [OF c1 c(2)] nb False by simp
      ultimately show "mem st3 x = mem st x"
        using kept_user [OF f(4) r2 f(2) h c1 _ x] away [OF c1 _ x] v(6) [OF c x] by simp
    qed (use f in auto)
    moreover have "mem st3 (q + i) = mem st (baddr b + hdr M + i)" if i: "0 \<le> i" "i < min k (bsize b)" for i
    proof -
      have "q + i \<in> user M b'" "baddr b + hdr M + i \<in> user M b" using i le by (auto simp: user_def bend_def b'(3))
      then show ?thesis
        using kept_user [OF f(4) r2 f(2) h b'(1) b3] v(6) [OF b] i by (simp add: m2)
    qed
    ultimately show ?thesis using e by blast
  qed
qed

lemma served_mono: "served M st bs X k st' q \<Longrightarrow> j \<le> k \<Longrightarrow> served M st bs X j st' q"
  unfolding served_def by fastforce

lemma realloc_keeps:
  assumes M: "ilp32 M" and r: "rep M st bs" and n: "no_adj bs" and b: "b \<in> set bs" "\<not> bfree b"
    and k: "0 < k" "k \<le> MAX_SIZE" and g: "granted M st"
  shows "\<exists>st' q. realloc M (baddr b + hdr M) k st = Inr (st', q) \<and> served M st bs {b} k st' q \<and>
    (q \<noteq> 0 \<longrightarrow> (\<forall>i. 0 \<le> i \<longrightarrow> i < min k (bsize b) \<longrightarrow> mem st' (q + i) = mem st (baddr b + hdr M + i)))"
proof -
  note h = ilp32_hdr(1) [OF M]
  define req where "req = round4 k"
  have rq: "0 < req" "k \<le> req" "req \<le> MAX_SIZE + 3"
    using round4(1) [OF k(1)] round4(2,3) [of k] k(2) by (simp_all add: req_def)
  obtain xs ys where bs: "bs = xs @ b # ys" using b(1) by (auto simp: in_set_conv_decomp)
  have r': "rep M st (xs @ b # ys)" using r bs by simp
  note na = middle_no_adj(1) [OF n [unfolded bs]]
  have p0: "baddr b + hdr M \<noteq> 0" using rep_addr(1) [OF r h b(1)] h by simp
  note gb = rep_get [OF r']
  have e: "realloc M (baddr b + hdr M) k st =
      (if bsize b \<ge> req then sbind (trim M (baddr b) req st) (\<lambda>st1. Inr (st1, baddr b + hdr M))
       else let up = haddr ys (haddr xs (baddr b)) in
       sbind (get up st) (\<lambda>u.
       if up \<noteq> head st \<and> is_freed u \<and> bsize b + size_of_allocation u + hdr M \<ge> req
       then sbind (connect M (baddr b) up st) (\<lambda>st1. sbind (trim M (baddr b) req st1) (\<lambda>st2. Inr (st2, baddr b + hdr M)))
       else sbind (get (head st) st) (\<lambda>hh.
            if prev_node hh = baddr b then realloc_last M (baddr b + hdr M) req st
            else realloc_move M (baddr b + hdr M) req st)))"
    unfolding realloc_def Let_def using p0 k gb M by (simp add: req_def [symmetric] cong: if_cong)
  have here: "\<exists>st' q. Inr (s', baddr b + hdr M) = Inr (st', q) \<and> served M st bs {b} k st' q \<and>
    (q \<noteq> 0 \<longrightarrow> (\<forall>i. 0 \<le> i \<longrightarrow> i < min k (bsize b) \<longrightarrow> mem st' (q + i) = mem st (baddr b + hdr M + i)))"
    if "rep M s' (xs @ b' # zs)" "kept (hdrs M bs \<union> hdrs M (xs @ b' # zs)) st s'" "no_adj (xs @ b' # zs)"
      "baddr b' = baddr b" "\<not> bfree b'" "req \<le> bsize b'" "\<And>c. c \<in> set ys \<Longrightarrow> \<not> bfree c \<Longrightarrow> c \<in> set zs"
    for s' b' zs
    using in_place [OF r' h b(2) that(1) that(2) [unfolded bs] that(3-5) order.trans [OF rq(2) that(6)] that(7)]
    unfolding bs by blast
  show ?thesis
  proof (cases "bsize b \<ge> req")
    case True
    obtain b' zs where t: "trimmed M req b ys = (b', zs)" by fastforce
    note tr = trim_rep [OF M r' conjunct1 [OF na] conjunct2 [OF na] b(2) rq(1) True t]
    obtain s' where "trim M (baddr b) req st = Inr s'" "rep M s' (xs @ b' # zs)" "kept (hdrs M bs \<union> hdrs M (xs @ b' # zs)) st s'"
      using tr(1) by (auto simp: yields_def bs)
    with here [OF this(2,3) tr(2-6)] True show ?thesis by (simp add: e)
  next
    case small: False
    obtain hh where hh: "get (head st) st = Inr hh" "prev_node hh = laddr (baddr b) ys"
    proof (cases xs)
      case Nil
      with gb rep_head [OF r'] that show ?thesis by simp
    next
      case (Cons x xs')
      with rep_get [of M st "[]" x "xs' @ b # ys"] r' rep_head [OF r'] that show ?thesis by simp
    qed
    show ?thesis
    proof (cases ys)
      case Nil
      have up: "haddr ys (haddr xs (baddr b)) = head st" using Nil rep_head [OF r'] by (cases xs) simp_all
      have last: "realloc M (baddr b + hdr M) k st = realloc_last M (baddr b + hdr M) req st"
        using small hh up Nil by (simp add: e Let_def)
      obtain s' where "realloc_last M (baddr b + hdr M) req st = Inr (s', baddr b + hdr M)"
        "rep M s' (xs @ [used_part req b])" "kept (hdrs M bs) st s'"
        using realloc_last_rep [OF M r [unfolded bs Nil] b(2) _ rq(3) g] small bs Nil by auto
      with here [of s' "used_part req b" "[]"] Nil na kept_mono [OF this(3)] show ?thesis
        by (simp add: last no_adj_append)
    next
      case (Cons c zs)
      have r2: "rep M st ((xs @ [b]) @ c # zs)" using r' Cons by simp
      have up: "baddr c \<noteq> head st" using rep_is_head [OF r2 h] by simp
      have gc: "\<exists>nx pv. get (baddr c) st = Inr (node_of M c nx pv)" using rep_get [OF r2] by blast
      show ?thesis
      proof (cases "bfree c \<and> bsize b + bsize c + hdr M \<ge> req")
        case True
        let ?j = "join M b c"
        obtain s1 where s1: "connect M (baddr b) (baddr c) st = Inr s1" "rep M s1 (xs @ ?j # zs)"
          "kept (hdrs M bs \<union> hdrs M (xs @ ?j # zs)) st s1"
          using connect_rep [of M st xs b c zs] r' Cons h True by (auto simp: yields_def bs)
        obtain b' vs where t: "trimmed M req ?j zs = (b', vs)" by fastforce
        have nz: "no_adj zs" using na Cons by (auto simp: no_adj_Cons)
        have "\<not> bfree ?j" "req \<le> bsize ?j" using b(2) True by simp_all
        note tr = trim_rep [OF M s1(2) conjunct1 [OF na] nz this(1) rq(1) this(2) t]
        obtain s2 where s2: "trim M (baddr b) req s1 = Inr s2" "rep M s2 (xs @ b' # vs)"
          "kept (hdrs M (xs @ ?j # zs) \<union> hdrs M (xs @ b' # vs)) s1 s2"
          using tr(1) by (auto simp: yields_def)
        have "kept (hdrs M bs \<union> hdrs M (xs @ b' # vs)) st s2"
          by (rule kept_trans [OF s1(3) s2(3)]) (auto simp: bs Cons)
        moreover have "d \<in> set vs" if "d \<in> set ys" "\<not> bfree d" for d
          using that tr(6) [of d] True by (auto simp: Cons)
        ultimately show ?thesis
          using here [OF s2(2) _ tr(2) _ tr(4,5)] tr(3) small Cons up gc True s1(1) s2(1)
          by (auto simp: e Let_def)
      next
        case False
        have "laddr (baddr c) zs \<noteq> baddr b"
        proof (cases zs rule: rev_cases)
          case Nil
          then show ?thesis using rep_apart [OF r' h] Cons h by (simp add: apart_simps)
        next
          case (snoc vs d)
          then show ?thesis using rep_apart [OF r' h] Cons h by (simp add: apart_simps)
        qed
        with small up gc False hh Cons
        have "realloc M (baddr b + hdr M) k st = realloc_move M (baddr b + hdr M) req st"
          by (auto simp: e Let_def)
        with realloc_move_served [OF M r n b k _ g] small show ?thesis by (simp add: req_def)
      qed
    qed
  qed
qed

end
