(* ===== verification/Malloc_3_Client.thy ===== *)
theory Malloc_3_Client
  imports Malloc_3_Realloc
begin

text \<open>
  HW4, \<^verbatim>\<open>HW4/malloc_3.cpp\<close> keeps the contract of \<open>Heap_Client\<close>: the interpretation \<open>m3\<close>.
  The properties of the allocator are in \<open>Malloc_3_Props\<close>.
\<close>

definition unborn :: "heap \<Rightarrow> bool" where
  "unborn st \<longleftrightarrow> first_alloc st \<and> nodes st = (\<lambda>_. None) \<and> num_free_blocks st = 0 \<and> num_free_bytes st = 0 \<and>
     num_allocated_blocks st = 0 \<and> num_allocated_bytes st = 0 \<and> num_meta_data_blocks st = 0 \<and> 0 < brk st \<and>
     (\<forall>x. brk st \<le> x \<longrightarrow> mem st x = 0)"

text \<open>A heap before its first allocation, or one that represents blocks.\<close>

definition ready :: "abi \<Rightarrow> heap \<Rightarrow> blk list \<Rightarrow> bool" where
  "ready M st bs \<longleftrightarrow> unborn st \<and> bs = [] \<or> merged M st bs"

lemma ready_rep: "ready M st bs \<Longrightarrow> b \<in> set bs \<Longrightarrow> rep M st bs \<and> no_adj bs"
  by (auto simp: ready_def merged_def)

lemma merged_ready: "merged M st bs \<Longrightarrow> ready M st bs"
  by (simp add: ready_def)

lemma ready_addr: "ilp32 M \<Longrightarrow> ready M st bs \<Longrightarrow> b \<in> set bs \<Longrightarrow> baddr b + hdr M \<noteq> 0"
  using ready_rep [of M st bs b] rep_addr(1) [of M st bs b] ilp32_hdr(1) [of M] by simp

lemma malloc_ready:
  assumes M: "ilp32 M" and r: "ready M st bs" and k: "0 < k" "k \<le> MAX_SIZE" and g: "granted M st"
  shows "\<exists>st' q. malloc M k st = Inr (st', q) \<and> served M st bs {} k st' q"
  using r unfolding ready_def
proof
  assume u: "unborn st \<and> bs = []"
  have rk: "0 < round4 k" "k \<le> round4 k" "round4 k \<le> MAX_SIZE + 3"
    using round4(1) [OF k(1)] round4(2,3) [of k] k(2) by simp_all
  have "grants M (brk st) (round4 k + hdr M)" "round4 k < 2 ^ 31"
    using g rk ilp32_hdr(1,3) [OF M] by (simp_all add: granted_def MAX_SIZE_def)
  with first_allocation_rep [OF M _ _ _ rk(1), of st] u obtain st' where
    s: "first_allocation M (round4 k) st = Inr (st', brk st + hdr M)"
      "rep M st' [\<lparr>baddr = brk st, bsize = round4 k, bfree = False\<rparr>]" by (auto simp: unborn_def)
  have "malloc M k st = Inr (st', brk st + hdr M)"
    unfolding malloc_def Let_def using u k s(1) by (simp add: unborn_def)
  moreover have "served M st bs {} k st' (brk st + hdr M)"
    unfolding served_def using s(2) u rk by (intro exI [of _ "[\<lparr>baddr = brk st, bsize = round4 k, bfree = False\<rparr>]"])
      (simp add: keeps_used_def)
  ultimately show ?thesis by blast
next
  assume "merged M st bs"
  then have R: "rep M st bs" "no_adj bs" by (simp_all add: merged_def)
  obtain st' q where "malloc M k st = Inr (st', q)" "served M st bs {} (round4 k) st' q"
    using malloc_served [OF M R k g] by blast
  with served_mono [OF this(2) round4(2) [of k]] show ?thesis by blast
qed

lemma malloc_refuses: "k = 0 \<or> MAX_SIZE < k \<Longrightarrow> malloc M k st = Inr (st, 0)"
  by (auto simp: malloc_def)

lemma malloc_serves:
  assumes M: "ilp32 M" and r: "ready M st bs" and k: "0 \<le> k" and g: "granted M st"
  shows "\<exists>st' q. malloc M k st = Inr (st', q) \<and> serves M (ready M) st bs {} k st' q"
proof (cases "0 < k \<and> k \<le> MAX_SIZE")
  case True
  with malloc_ready [OF M r _ _ g] show ?thesis using serves_weaken merged_ready by metis
next
  case False
  with k have "malloc M k st = Inr (st, 0)" by (intro malloc_refuses) auto
  with serves_refused [of "ready M" st bs M] ready_addr [OF M r] r show ?thesis by blast
qed

lemma calloc_served:
  assumes M: "ilp32 M" and r: "ready M st bs" and g: "granted M st"
    and k: "0 < szt M (num * sz)" "szt M (num * sz) \<le> MAX_SIZE"
  shows "\<exists>st' q. calloc M num sz st = Inr (st', q) \<and> served M st bs {} (szt M (num * sz)) st' q \<and>
    (q \<noteq> 0 \<longrightarrow> (\<forall>i. 0 \<le> i \<longrightarrow> i < szt M (num * sz) \<longrightarrow> mem st' (q + i) = 0))"
proof -
  note h = ilp32_hdr(1) [OF M]
  define k where "k = szt M (num * sz)"
  obtain st1 q where m: "malloc M k st = Inr (st1, q)" "served M st bs {} k st1 q"
    using malloc_ready [OF M r k g] by (auto simp: k_def)
  show ?thesis
  proof (cases "q = 0")
    case True
    with m show ?thesis by (auto simp: calloc_def k_def)
  next
    case False
    obtain bs1 where v: "rep M st1 bs1" "no_adj bs1" "keeps_used bs {} bs1"
      "\<exists>b' \<in> set bs1. \<not> bfree b' \<and> q = baddr b' + hdr M \<and> k \<le> bsize b'"
      "\<And>c. c \<in> set bs \<Longrightarrow> \<not> bfree c \<Longrightarrow> baddr c + hdr M \<noteq> q"
      "\<And>c x. c \<in> set bs \<Longrightarrow> \<not> bfree c \<Longrightarrow> x \<in> user M c \<Longrightarrow> mem st1 x = mem st x"
      using m(2) False by (auto simp: serves_def ready_def merged_def)
    then obtain b where b: "b \<in> set bs1" "\<not> bfree b" "q = baddr b + hdr M" "k \<le> bsize b" by auto
    obtain us vs where bs1: "bs1 = us @ b # vs" using b(1) by (auto simp: in_set_conv_decomp)
    define st2 where "st2 = memset M q 0 k st1"
    note w = write_rep [OF v(1) h b(1,4)]
    have r2: "rep M st2 bs1" and m2: "mem st2 x = (if q \<le> x \<and> x < q + k then 0 else mem st1 x)" for x
      using w by (simp_all add: st2_def memset_def b(3))
    have e: "calloc M num sz st = Inr (st2, q)"
      using m(1) False rep_get [OF v(1) [unfolded bs1]] b(3) by (simp add: calloc_def k_def [symmetric] st2_def)
    have "mem st2 x = mem st x" if c: "c \<in> set bs" "\<not> bfree c" "x \<in> user M c" for c x
    proof -
      have "c \<in> set bs1" "c \<noteq> b" using v(3) c(1,2) v(5) [OF c(1,2)] b(3) by (auto simp: keeps_used_def)
      with user_disjoint [OF v(1) h _ b(1), of c] c(3) have "x \<notin> user M b" by blast
      then show ?thesis using v(6) [OF c] b(4) by (auto simp: m2 user_def bend_def b(3))
    qed
    with r2 v(2,3,5) b have "served M st bs {} k st2 q"
      unfolding served_def by (intro exI [of _ bs1]) auto
    with e show ?thesis by (auto simp: k_def m2)
  qed
qed

lemma calloc_serves:
  assumes M: "ilp32 M" and r: "ready M st bs" and g: "granted M st"
  shows "\<exists>st' q. calloc M n sz st = Inr (st', q) \<and> serves M (ready M) st bs {} (szt M (n * sz)) st' q \<and>
    (q \<noteq> 0 \<longrightarrow> (\<forall>i. 0 \<le> i \<longrightarrow> i < szt M (n * sz) \<longrightarrow> mem st' (q + i) = 0))"
proof (cases "0 < szt M (n * sz) \<and> szt M (n * sz) \<le> MAX_SIZE")
  case True
  with calloc_served [OF M r g] show ?thesis using serves_weaken merged_ready by metis
next
  case False
  have "0 \<le> szt M (n * sz)" by (simp add: szt_def)
  with False have "malloc M (szt M (n * sz)) st = Inr (st, 0)" by (intro malloc_refuses) auto
  then have "calloc M n sz st = Inr (st, 0)" by (simp add: calloc_def)
  with serves_refused [of "ready M" st bs M] ready_addr [OF M r] r show ?thesis by blast
qed

lemma realloc_serves:
  assumes M: "ilp32 M" and r: "ready M st bs" and g: "granted M st" and k: "0 \<le> k" and b: "b \<in> set bs" "\<not> bfree b"
  shows "\<exists>st' q. realloc M (baddr b + hdr M) k st = Inr (st', q) \<and> serves M (ready M) st bs {b} k st' q \<and>
    (q \<noteq> 0 \<longrightarrow> (\<forall>i. 0 \<le> i \<longrightarrow> i < min k (bsize b) \<longrightarrow> mem st' (q + i) = mem st (baddr b + hdr M + i)))"
proof (cases "0 < k \<and> k \<le> MAX_SIZE")
  case True
  with realloc_keeps [OF M _ _ b _ _ g] ready_rep [OF r b(1)] show ?thesis using serves_weaken merged_ready by metis
next
  case False
  with k ready_addr [OF M r b(1)] have "realloc M (baddr b + hdr M) k st = Inr (st, 0)" by (auto simp: realloc_def)
  with serves_refused [of "ready M" st bs M] ready_addr [OF M r] r show ?thesis by blast
qed

lemma free_keeps:
  assumes M: "ilp32 M" and r: "ready M st bs" and b: "b \<in> set bs" "\<not> bfree b"
  shows "\<exists>st' bs'. free M (baddr b + hdr M) st = Inr st' \<and> ready M st' bs' \<and> keeps_used bs {b} bs' \<and>
    (\<forall>c \<in> set bs. \<not> bfree c \<longrightarrow> c \<noteq> b \<longrightarrow> (\<forall>x \<in> user M c. mem st' x = mem st x))"
proof -
  note h = ilp32_hdr(1) [OF M]
  from ready_rep [OF r b(1)] have R: "rep M st bs" "no_adj bs" by auto
  let ?cs = "coalesce M (mark_free M (baddr b + hdr M) bs)"
  obtain st' where f: "free M (baddr b + hdr M) st = Inr st'" "rep M st' ?cs" "no_adj ?cs"
    "kept (hdrs M bs \<union> hdrs M ?cs) st st'"
    using free_rep [OF M R b] by blast
  have cu: "c \<in> set ?cs" if "c \<in> set bs" "\<not> bfree c" "c \<noteq> b" for c
    by (rule coalesce_used [OF R(2) b(1) that(1,2) b(2) that(3)]) (rule rep_addr_inj [OF R(1) h])
  have "mem st' x = mem st x" if "c \<in> set bs" "\<not> bfree c" "c \<noteq> b" "x \<in> user M c" for c x
    by (rule kept_user [OF f(4) R(1) f(2) h that(1) cu [OF that(1-3)] that(4)])
  with f(1-3) cu show ?thesis by (auto simp: ready_def merged_def keeps_used_def)
qed

definition ops3 :: "abi \<Rightarrow> alloc_ops" where
  "ops3 M = \<lparr>op_malloc = malloc M, op_calloc = calloc M, op_free = free M, op_realloc = realloc M\<rparr>"

lemma ops3_sel [simp]:
  "op_malloc (ops3 M) = malloc M" "op_calloc (ops3 M) = calloc M" "op_free (ops3 M) = free M"
  "op_realloc (ops3 M) = realloc M"
  by (simp_all add: ops3_def)

lemma null3: "free M 0 st = Inr st" "realloc M 0 k st = malloc M k st"
  by (simp_all add: free_def realloc_def)

lemma allocator3: "ilp32 M \<Longrightarrow> allocator M (ops3 M) (ready M)"
proof
  fix st bs b and i :: int and f
  assume M: "ilp32 M" and r: "ready M st bs" and b: "b \<in> set bs" "0 \<le> i" "i < bsize b"
  from ready_rep [OF r b(1)] have R: "rep M st bs" "no_adj bs" by auto
  have "rep M (write_bytes M (baddr b + hdr M + i) 1 f st) bs"
    by (rule write_at_rep(1) [OF R(1) ilp32_hdr(1) [OF M] b(1)]) (use b in simp_all)
  with R(2) show "ready M (write_bytes M (baddr b + hdr M + i) 1 f st) bs" by (simp add: ready_def merged_def)
next
  fix st bs b c assume "ilp32 M" "ready M st bs" "b \<in> set bs" "c \<in> set bs" "b \<noteq> c"
  then show "user M b \<inter> user M c = {}" using user_disjoint ready_rep ilp32_hdr(1) by metis
next
  fix st bs b c assume "ilp32 M" "ready M st bs" "b \<in> set bs" "c \<in> set bs" "baddr b = baddr c"
  then show "b = c" using rep_addr_inj ready_rep ilp32_hdr(1) by metis
next
  fix st bs b assume "ilp32 M" "ready M st bs" "b \<in> set bs"
  then show "0 < baddr b" using rep_addr(1) ready_rep ilp32_hdr(1) by metis
qed (unfold ops3_sel, (rule null3 ilp32_hdr(1) malloc_serves calloc_serves realloc_serves free_keeps; assumption?)+)

text \<open>The i386 platform: pointers of 32 bits, headers of 24 bytes.\<close>

definition i386 :: "abi \<Rightarrow> abi" where "i386 M = M\<lparr>ptr_bits := 32, hdr := 24\<rparr>"

lemma i386_ilp32: "ilp32 (i386 M)"
  by (simp add: ilp32_def abi_ok_def i386_def)

interpretation m3: allocator "i386 M" "ops3 (i386 M)" "ready (i386 M)" for M
  by (rule allocator3 [OF i386_ilp32])

end
