(* ===== verification/Malloc_2.thy ===== *)
theory Malloc_2
  imports Malloc_3_Client
begin

text \<open>
  HW4, the simpler allocators. \<^verbatim>\<open>HW4/malloc_2.cpp\<close> keeps the same list of headers and counters as
  \<^verbatim>\<open>malloc_3.cpp\<close> but reuses whole blocks and never merges; its functions carry the suffix 2.
  \<^verbatim>\<open>HW4/malloc_1.cpp\<close> only moves the break; its \<open>free\<close> does nothing and its \<open>calloc\<close> and
  \<open>realloc\<close> have empty bodies (calling them is undefined). The contract of \<open>Heap_Client\<close> is
  interpreted for \<^verbatim>\<open>malloc_2.cpp\<close> as \<open>m2\<close>.
\<close>

subsection \<open>malloc\_1\<close>

definition malloc1 :: "abi \<Rightarrow> int \<Rightarrow> heap \<Rightarrow> stuck + (heap \<times> int)" where
  "malloc1 M sz st =
     (if sz > MAX_SIZE \<or> sz = 0 then Inr (st, 0)
      else case sbrk M sz st of (st1, n_break) \<Rightarrow>
        sbind (reads_minus_one n_break st1) (\<lambda>b. if b then Inr (st1, 0) else Inr (st1, n_break)))"

definition free1 :: "int \<Rightarrow> heap \<Rightarrow> heap" where "free1 p st = st"

subsection \<open>malloc\_2\<close>

definition first_allocation2 :: "abi \<Rightarrow> int \<Rightarrow> heap \<Rightarrow> stuck + (heap \<times> int)" where
  "first_allocation2 M req_size st =
     (case sbrk M (req_size + hdr M) (st\<lparr>first_alloc := False\<rparr>) of (st1, n_break) \<Rightarrow>
        sbind (reads_minus_one n_break st1) (\<lambda>b.
        if b then Inr (st1\<lparr>first_alloc := True\<rparr>, 0)
        else Inr (put M n_break \<lparr>is_freed = False, allocation_start_ptr = n_break + hdr M,
                    size_of_allocation = req_size, next_node = n_break, prev_node = n_break\<rparr>
                 (st1\<lparr>head := n_break, list_size := 1, num_allocated_blocks := 1,
                    num_allocated_bytes := req_size, num_free_bytes := 0, num_meta_data_blocks := 1,
                    num_meta_data_bytes := hdr M\<rparr>), n_break + hdr M)))"

definition take2 :: "abi \<Rightarrow> int \<Rightarrow> heap \<Rightarrow> stuck + heap" where
  "take2 M it st =
     sbind (upd M it (\<lambda>t. t\<lparr>is_freed := False\<rparr>) st) (\<lambda>st1.
     sbind (get it st1) (\<lambda>n.
     Inr (st1\<lparr>num_free_blocks := szt M (num_free_blocks st1 - 1),
              num_free_bytes := szt M (num_free_bytes st1 - size_of_allocation n)\<rparr>)))"

partial_function (option) find_loop2 ::
  "abi \<Rightarrow> int \<Rightarrow> int \<Rightarrow> int \<Rightarrow> heap \<Rightarrow> (stuck + (heap \<times> int)) option" where
  "find_loop2 M req_size list_head iterator st =
     (case get iterator st of Inl e \<Rightarrow> Some (Inl e)
      | Inr n \<Rightarrow>
        if size_of_allocation n \<ge> req_size \<and> is_freed n
        then Some (sbind (take2 M iterator st) (\<lambda>st1.
                   sbind (get iterator st1) (\<lambda>n1. Inr (st1, allocation_start_ptr n1))))
        else if next_node n = list_head then Some (Inr (st, 0))
        else find_loop2 M req_size list_head (next_node n) st)"

definition find_free_allocation_address2 :: "abi \<Rightarrow> int \<Rightarrow> heap \<Rightarrow> stuck + (heap \<times> int)" where
  "find_free_allocation_address2 M req_size st = looped (find_loop2 M req_size (head st) (head st) st)"

definition append_block2 :: "abi \<Rightarrow> int \<Rightarrow> int \<Rightarrow> heap \<Rightarrow> stuck + (heap \<times> int)" where
  "append_block2 M n_break sz st =
     (let st1 = st\<lparr>list_size := szt M (list_size st + 1),
            num_allocated_blocks := szt M (num_allocated_blocks st + 1),
            num_allocated_bytes := szt M (num_allocated_bytes st + sz),
            num_meta_data_blocks := szt M (num_meta_data_blocks st + 1),
            num_meta_data_bytes := szt M (num_meta_data_bytes st + hdr M)\<rparr>
      in sbind (get (head st1) st1) (\<lambda>h.
         let new = n_break;
             st2 = put M new \<lparr>is_freed = False, allocation_start_ptr = new + hdr M,
                     size_of_allocation = sz, next_node = head st1, prev_node = prev_node h\<rparr> st1
         in sbind (upd M (prev_node h) (\<lambda>t. t\<lparr>next_node := new\<rparr>) st2) (\<lambda>st3.
            sbind (upd M (head st1) (\<lambda>t. t\<lparr>prev_node := new\<rparr>) st3) (\<lambda>st4.
            Inr (st4, new + hdr M)))))"

definition malloc2 :: "abi \<Rightarrow> int \<Rightarrow> heap \<Rightarrow> stuck + (heap \<times> int)" where
  "malloc2 M sz st =
     (if sz > MAX_SIZE \<or> sz = 0 then Inr (st, 0)
      else if first_alloc st then first_allocation2 M sz st
      else sbind (find_free_allocation_address2 M sz st) (\<lambda>(st1, n_break).
        if n_break \<noteq> 0 then Inr (st1, n_break)
        else (case sbrk M (sz + hdr M) st1 of (st2, n_break) \<Rightarrow>
             sbind (reads_minus_one n_break st2) (\<lambda>b.
             if b then Inr (st2, 0) else append_block2 M n_break sz st2))))"

definition free2 :: "abi \<Rightarrow> int \<Rightarrow> heap \<Rightarrow> stuck + heap" where
  "free2 M p st =
     (if p = 0 then Inr st
      else let q = p - hdr M in
      sbind (get q st) (\<lambda>n.
      if is_freed n then Inr st
      else sbind (upd M q (\<lambda>t. t\<lparr>is_freed := True\<rparr>) st) (\<lambda>st1.
           Inr (st1\<lparr>num_free_blocks := szt M (num_free_blocks st1 + 1),
                    num_free_bytes := szt M (num_free_bytes st1 + size_of_allocation n)\<rparr>))))"

definition calloc2 :: "abi \<Rightarrow> int \<Rightarrow> int \<Rightarrow> heap \<Rightarrow> stuck + (heap \<times> int)" where
  "calloc2 M num sz st =
     sbind (malloc2 M (szt M (num * sz)) st) (\<lambda>(st1, new_ptr).
     if new_ptr = 0 then Inr (st1, 0)
     else sbind (get (new_ptr - hdr M) st1) (\<lambda>n.
          Inr (memset M (allocation_start_ptr n) 0 (szt M (num * sz)) st1, new_ptr)))"

definition realloc2 :: "abi \<Rightarrow> int \<Rightarrow> int \<Rightarrow> heap \<Rightarrow> stuck + (heap \<times> int)" where
  "realloc2 M oldp sz st =
     (if oldp = 0 then malloc2 M sz st
      else if sz = 0 \<or> sz > MAX_SIZE then Inr (st, 0)
      else let q = oldp - hdr M in
      sbind (get q st) (\<lambda>n.
      if size_of_allocation n \<ge> sz then Inr (st, oldp)
      else sbind (malloc2 M sz st) (\<lambda>(st1, temp_alloc).
           if temp_alloc = 0 then Inr (st1, 0)
           else sbind (get (temp_alloc - hdr M) st1) (\<lambda>t.
                sbind (get q st1) (\<lambda>n.
                let st2 = memcpy M (allocation_start_ptr t) (allocation_start_ptr n) (size_of_allocation n) st1
                in sbind (upd M q (\<lambda>t. t\<lparr>is_freed := True\<rparr>) st2) (\<lambda>st3.
                   let st4 = st3\<lparr>num_free_blocks := szt M (num_free_blocks st3 + 1),
                                 num_free_bytes := szt M (num_free_bytes st3 + size_of_allocation n)\<rparr>
                   in sbind (get (temp_alloc - hdr M) st4) (\<lambda>t. Inr (st4, allocation_start_ptr t))))))))"

subsection \<open>The effect on the blocks\<close>

lemma same_code: "first_allocation2 = first_allocation"
  by (simp add: fun_eq_iff first_allocation2_def first_allocation_def)

lemma take2_setUsed: "get p st = Inr (node_of M b nx pv) \<Longrightarrow> bfree b \<Longrightarrow> take2 M p st = setUsed M p st"
  by (simp add: take2_def setUsed_def upd_def get_def nodes_put)

lemma free2_setFree:
  "get p st = Inr (node_of M b nx pv) \<Longrightarrow> \<not> bfree b \<Longrightarrow> p + hdr M \<noteq> 0 \<Longrightarrow> free2 M (p + hdr M) st = setFree M p st"
  by (simp add: free2_def setFree_def)

lemma find_loop2_first_fit:
  assumes r: "rep M st bs" and h: "0 < hdr M"
  shows "bs = us @ b # ys \<Longrightarrow> find_loop2 M req (head st) (baddr b) st =
    Some (case first_fit req (b # ys) of None \<Rightarrow> Inr (st, 0)
          | Some (xs, c, zs) \<Rightarrow> sbind (setUsed M (baddr c) st) (\<lambda>st1.
              sbind (get (baddr c) st1) (\<lambda>n. Inr (st1, allocation_start_ptr n))))"
proof (induction ys arbitrary: us b)
  case Nil
  have g: "get (baddr b) st = Inr (node_of M b (head st) (laddr (baddr b) us))"
    using rep_last(2) [of M st us b] r Nil by simp
  then show ?case by (subst find_loop2.simps) (simp add: take2_setUsed [OF g])
next
  case (Cons c ys)
  have g: "get (baddr b) st = Inr (node_of M b (baddr c) (laddr (laddr (baddr b) (c # ys)) us))"
    using rep_get [of M st us b "c # ys"] r Cons.prems by simp
  have "baddr c \<noteq> head st"
    using rep_is_head [of M st "us @ [b]" c ys] r Cons.prems h by simp
  with g Cons.IH [of "us @ [b]" c] Cons.prems show ?case
    by (subst find_loop2.simps) (auto simp: take2_setUsed [OF g] split: option.split)
qed

definition ready2 :: "abi \<Rightarrow> heap \<Rightarrow> blk list \<Rightarrow> bool" where
  "ready2 M st bs \<longleftrightarrow> unborn st \<and> bs = [] \<or> rep M st bs"

lemma ready2_rep: "ready2 M st bs \<Longrightarrow> b \<in> set bs \<Longrightarrow> rep M st bs"
  by (auto simp: ready2_def)

text \<open>\<open>append_block2\<close> differs from \<open>append_block\<close> in a counter that is not represented.\<close>

lemma rep_meta [simp]: "rep M (st\<lparr>num_meta_data_bytes := v\<rparr>) bs = rep M st bs"
  by (simp add: rep_def laid_def counted_def)

lemma meta_get: "get p (st\<lparr>num_meta_data_bytes := v\<rparr>) = get p st"
  by (simp add: get_def)

lemma meta_put: "put M p n (st\<lparr>num_meta_data_bytes := v\<rparr>) = (put M p n st)\<lparr>num_meta_data_bytes := v\<rparr>"
  by (cases st) (simp only: put_def heap.select_convs heap.update_convs)

lemma meta_upd:
  "upd M p f (st\<lparr>num_meta_data_bytes := v\<rparr>) = sbind (upd M p f st) (\<lambda>s. Inr (s\<lparr>num_meta_data_bytes := v\<rparr>))"
  by (cases "get p st") (simp_all add: upd_def meta_get meta_put)

lemmas meta_moves = meta_get meta_put meta_upd

lemma sbind_assoc: "sbind (sbind m f) g = sbind m (\<lambda>a. sbind (f a) g)"
  by (cases m) simp_all

lemma append_block2_eq:
  "append_block2 M p k st =
     sbind (append_block M p k st) (\<lambda>(s, q). Inr (s\<lparr>num_meta_data_bytes := szt M (num_meta_data_bytes st + hdr M)\<rparr>, q))"
  by (simp add: append_block2_def append_block_def Let_def meta_moves sbind_assoc)

lemma unborn_first:
  assumes M: "ilp32 M" and u: "unborn st" and k: "0 < k" "k \<le> MAX_SIZE" and g: "granted M st"
  shows "\<exists>st'. first_allocation M k st = Inr (st', brk st + hdr M) \<and>
    rep M st' [\<lparr>baddr = brk st, bsize = k, bfree = False\<rparr>]"
proof -
  have "grants M (brk st) (k + hdr M)" "k < 2 ^ 31"
    using g k ilp32_hdr(1,3) [OF M] by (simp_all add: granted_def MAX_SIZE_def)
  with first_allocation_rep [OF M _ _ _ k(1), of st] u show ?thesis by (auto simp: unborn_def)
qed

text \<open>First fit without splitting, else a new block.\<close>

lemma malloc2_rep:
  assumes M: "ilp32 M" and r: "rep M st bs" and k: "0 < k" "k \<le> MAX_SIZE" and g: "granted M st"
  shows "\<exists>st'. case first_fit k bs of
      Some (xs, b, ys) \<Rightarrow> malloc2 M k st = Inr (st', baddr b + hdr M) \<and> rep M st' (xs @ b\<lparr>bfree := False\<rparr> # ys) \<and>
        kept (hdrs M bs) st st'
    | None \<Rightarrow> malloc2 M k st = Inr (st', brk st + hdr M) \<and> rep M st' (bs @ [\<lparr>baddr = brk st, bsize = k, bfree = False\<rparr>]) \<and>
        kept (hdrs M (bs @ [\<lparr>baddr = brk st, bsize = k, bfree = False\<rparr>])) st st'"
proof -
  note h = ilp32_hdr [OF M]
  have fa: "\<not> first_alloc st" using r by (simp add: rep_def laid_def)
  obtain xs0 l where l: "bs = xs0 @ [l]" using r by (metis append_butlast_last_id laid_def rep_def)
  obtain b0 bs0 where bs0: "bs = b0 # bs0" using l by (cases xs0) auto
  have loop: "find_loop2 M k (head st) (head st) st =
    Some (case first_fit k bs of None \<Rightarrow> Inr (st, 0)
          | Some (xs, c, zs) \<Rightarrow> sbind (setUsed M (baddr c) st) (\<lambda>st1.
              sbind (get (baddr c) st1) (\<lambda>n. Inr (st1, allocation_start_ptr n))))"
    using find_loop2_first_fit [OF r h(1), of "[]" b0 bs0 k] bs0 rep_head [OF r] by simp
  show ?thesis
  proof (cases "first_fit k bs")
    case None
    let ?st1 = "st\<lparr>brk := brk st + (k + hdr M)\<rparr>"
    have "grants M (brk st) (k + hdr M)" using g k h(1,3) by (simp add: granted_def MAX_SIZE_def)
    moreover have "reads_minus_one (brk st) ?st1 = Inr False" by (rule fresh_read [OF rep_parts(1) [OF r h(1)] h(1)]) simp
    moreover obtain st' where s: "append_block M (brk st) k ?st1 = Inr (st', brk st + hdr M)"
      "rep M st' (bs @ [\<lparr>baddr = brk st, bsize = k, bfree = False\<rparr>])"
      "kept (hdrs M (bs @ [\<lparr>baddr = brk st, bsize = k, bfree = False\<rparr>])) st st'"
      using append_rep [OF M r [unfolded l] k(1)] l by auto
    ultimately have "malloc2 M k st = Inr (st'\<lparr>num_meta_data_bytes := szt M (num_meta_data_bytes st + hdr M)\<rparr>, brk st + hdr M)"
      using loop None k fa
      by (simp add: malloc2_def find_free_allocation_address2_def looped_def sbrk_def append_block2_eq)
    with None s(2,3) show ?thesis by (auto simp: kept_def)
  next
    case (Some t)
    obtain xs c ys where t: "t = (xs, c, ys)" by (cases t) auto
    note c = first_fit_Some [OF Some [unfolded t]]
    obtain st1 where s: "setUsed M (baddr c) st = Inr st1" "rep M st1 (xs @ c\<lparr>bfree := False\<rparr> # ys)"
      "kept (hdrs M bs \<union> hdrs M (xs @ c\<lparr>bfree := False\<rparr> # ys)) st st1"
      using setUsed_rep [of M st xs c ys] r c h(1) by (auto simp: yields_def)
    have "0 < baddr c" using rep_addr(1) [OF r h(1), of c] c by simp
    then have "malloc2 M k st = Inr (st1, baddr c + hdr M)"
      using loop Some t k fa s(1) rep_get [OF s(2)] h(1)
      by (simp add: malloc2_def find_free_allocation_address2_def looped_def)
    moreover have "kept (hdrs M bs) st st1" using s(3) c by simp
    ultimately show ?thesis using s(2) Some t by auto
  qed
qed

end
