(* ===== verification/Malloc_2_Client.thy ===== *)
theory Malloc_2_Client
  imports Malloc_2
begin

text \<open>
  HW4, \<^verbatim>\<open>HW4/malloc_2.cpp\<close> keeps the contract of \<open>Heap_Client\<close>: the laws, their interpretation \<open>m2\<close>,
  and what follows for every run of a program that uses this allocator.
\<close>

abbreviation held :: "abi \<Rightarrow> heap \<Rightarrow> blk list \<Rightarrow> blk set \<Rightarrow> int \<Rightarrow> heap \<Rightarrow> int \<Rightarrow> bool" where
  "held M \<equiv> serves M (rep M)"

lemma rep_ready2: "rep M st bs \<Longrightarrow> ready2 M st bs"
  by (simp add: ready2_def)

lemma ready2_addr: "ilp32 M \<Longrightarrow> ready2 M st bs \<Longrightarrow> b \<in> set bs \<Longrightarrow> baddr b + hdr M \<noteq> 0"
  using ready2_rep [of M st bs b] rep_addr(1) [of M st bs b] ilp32_hdr(1) [of M] by simp

text \<open>A block that takes the place of a free one, or comes at the end, is new to the caller.\<close>

lemma held_new:
  assumes M: "ilp32 M" and r: "rep M st bs" and s: "rep M st' bs'" and q: "q = baddr b' + hdr M" "q \<noteq> 0"
    and b: "b' \<in> set bs'" "\<not> bfree b'" "k \<le> bsize b'" and u: "\<And>c. c \<in> set bs \<Longrightarrow> \<not> bfree c \<Longrightarrow> c \<in> set bs' \<and> baddr c \<noteq> baddr b'"
    and k: "kept (hdrs M bs \<union> hdrs M bs') st st'"
  shows "held M st bs {} k st' q"
  unfolding serves_def
proof (intro exI [of _ bs'] conjI)
  show "\<forall>c \<in> set bs. \<not> bfree c \<longrightarrow> c \<notin> (if q = 0 then {} else {}) \<longrightarrow> (\<forall>x \<in> user M c. mem st' x = mem st x)"
    using kept_user [OF k r s ilp32_hdr(1) [OF M]] u by blast
qed (use s q b u in \<open>auto simp: keeps_used_def\<close>)

lemma malloc2_held:
  assumes M: "ilp32 M" and r: "rep M st bs" and k: "0 < k" "k \<le> MAX_SIZE" and g: "granted M st"
  shows "\<exists>st' q. malloc2 M k st = Inr (st', q) \<and> held M st bs {} k st' q \<and> q \<noteq> 0"
proof -
  note h = ilp32_hdr(1) [OF M]
  note m = malloc2_rep [OF M r k g]
  show ?thesis
  proof (cases "first_fit k bs")
    case None
    let ?n = "\<lparr>baddr = brk st, bsize = k, bfree = False\<rparr>"
    from m None obtain st' where s: "malloc2 M k st = Inr (st', brk st + hdr M)" "rep M st' (bs @ [?n])"
      "kept (hdrs M (bs @ [?n])) st st'" by auto
    have q: "brk st + hdr M \<noteq> 0" using rep_addr(1) [OF s(2) h, of ?n] h by simp
    have "baddr c \<noteq> brk st" if "c \<in> set bs" for c using rep_addr(3,4) [OF r h that] h by (simp add: bend_def)
    then have "held M st bs {} k st' (brk st + hdr M)"
      by (intro held_new [OF M r s(2), of _ ?n] kept_mono [OF s(3)]) (use q in auto)
    with s(1) q show ?thesis by blast
  next
    case (Some t)
    obtain xs b ys where t: "t = (xs, b, ys)" by (cases t) auto
    note c = first_fit_Some [OF Some [unfolded t]]
    from m Some t obtain st' where s: "malloc2 M k st = Inr (st', baddr b + hdr M)"
      "rep M st' (xs @ b\<lparr>bfree := False\<rparr> # ys)" "kept (hdrs M bs) st st'" by auto
    have q: "baddr b + hdr M \<noteq> 0" using rep_addr(1) [OF r h, of b] c h by simp
    have "baddr d \<noteq> baddr b" if "d \<in> set bs" "\<not> bfree d" for d
      using rep_addr_inj [OF r h that(1), of b] that(2) c by auto
    then have "held M st bs {} k st' (baddr b + hdr M)"
      by (intro held_new [OF M r s(2), of _ "b\<lparr>bfree := False\<rparr>"] kept_mono [OF s(3)]) (use q c in auto)
    with s(1) q show ?thesis by blast
  qed
qed

lemma malloc2_ready:
  assumes M: "ilp32 M" and r: "ready2 M st bs" and k: "0 < k" "k \<le> MAX_SIZE" and g: "granted M st"
  shows "\<exists>st' q. malloc2 M k st = Inr (st', q) \<and> held M st bs {} k st' q"
  using r unfolding ready2_def
proof
  assume u: "unborn st \<and> bs = []"
  then obtain st' where s: "first_allocation M k st = Inr (st', brk st + hdr M)"
    "rep M st' [\<lparr>baddr = brk st, bsize = k, bfree = False\<rparr>]"
    using unborn_first [OF M _ k g] by blast
  have "malloc2 M k st = Inr (st', brk st + hdr M)"
    using u k s(1) by (simp add: malloc2_def same_code unborn_def)
  moreover have "held M st bs {} k st' (brk st + hdr M)"
    unfolding serves_def using s(2) u by (intro exI [of _ "[\<lparr>baddr = brk st, bsize = k, bfree = False\<rparr>]"])
      (simp add: keeps_used_def)
  ultimately show ?thesis by blast
qed (use malloc2_held [OF M _ k g] in blast)

lemma malloc2_refuses: "k = 0 \<or> MAX_SIZE < k \<Longrightarrow> malloc2 M k st = Inr (st, 0)"
  by (auto simp: malloc2_def)

lemma malloc2_serves:
  assumes M: "ilp32 M" and r: "ready2 M st bs" and k: "0 \<le> k" and g: "granted M st"
  shows "\<exists>st' q. malloc2 M k st = Inr (st', q) \<and> serves M (ready2 M) st bs {} k st' q"
proof (cases "0 < k \<and> k \<le> MAX_SIZE")
  case True
  with malloc2_ready [OF M r _ _ g] show ?thesis using serves_weaken rep_ready2 by metis
next
  case False
  with k have "malloc2 M k st = Inr (st, 0)" by (intro malloc2_refuses) auto
  with serves_refused [of "ready2 M" st bs M] ready2_addr [OF M r] r show ?thesis by blast
qed

subsection \<open>free\<close>

lemma free2_rep:
  assumes M: "ilp32 M" and r: "rep M st (xs @ b # ys)" and b: "\<not> bfree b"
  shows "yields M (free2 M (baddr b + hdr M) st) st (xs @ b # ys) (xs @ b\<lparr>bfree := True\<rparr> # ys)"
proof -
  have "baddr b + hdr M \<noteq> 0" using rep_addr(1) [OF r ilp32_hdr(1) [OF M], of b] ilp32_hdr(1) [OF M] by simp
  with free2_setFree [OF rep_get [OF r] b this] setFree_rep [OF r ilp32_hdr(1) [OF M] b] show ?thesis by simp
qed

lemma free2_keeps:
  assumes M: "ilp32 M" and r: "ready2 M st bs" and b: "b \<in> set bs" "\<not> bfree b"
  shows "\<exists>st' bs'. free2 M (baddr b + hdr M) st = Inr st' \<and> ready2 M st' bs' \<and> keeps_used bs {b} bs' \<and>
    (\<forall>c \<in> set bs. \<not> bfree c \<longrightarrow> c \<noteq> b \<longrightarrow> (\<forall>x \<in> user M c. mem st' x = mem st x))"
proof -
  obtain xs ys where bs: "bs = xs @ b # ys" using b(1) by (auto simp: in_set_conv_decomp)
  have R: "rep M st (xs @ b # ys)" using ready2_rep [OF r b(1)] bs by simp
  let ?bs = "xs @ b\<lparr>bfree := True\<rparr> # ys"
  obtain st' where s: "free2 M (baddr b + hdr M) st = Inr st'" "rep M st' ?bs" "kept (hdrs M bs \<union> hdrs M ?bs) st st'"
    using free2_rep [OF M R b(2)] bs by (auto simp: yields_def)
  have "mem st' x = mem st x" if "c \<in> set bs" "\<not> bfree c" "c \<noteq> b" "x \<in> user M c" for c x
    by (rule kept_user [OF s(3) R [folded bs] s(2) ilp32_hdr(1) [OF M] that(1) _ that(4)]) (use that bs in auto)
  moreover have "keeps_used bs {b} ?bs" by (auto simp: keeps_used_def bs)
  ultimately show ?thesis using s(1) rep_ready2 [OF s(2)] by blast
qed

subsection \<open>calloc and realloc\<close>

text \<open>The block of a pointer that was served, in terms of the blocks afterwards.\<close>

definition newly :: "abi \<Rightarrow> heap \<Rightarrow> blk list \<Rightarrow> heap \<Rightarrow> blk list \<Rightarrow> blk \<Rightarrow> bool" where
  "newly M st bs st1 bs1 b \<longleftrightarrow> rep M st1 bs1 \<and> b \<in> set bs1 \<and> \<not> bfree b \<and>
     (\<forall>c \<in> set bs. \<not> bfree c \<longrightarrow> c \<in> set bs1 \<and> c \<noteq> b \<and> (\<forall>x \<in> user M c. mem st1 x = mem st x))"

lemma held_block:
  assumes "held M st bs {} k st' q" "q \<noteq> 0"
  obtains bs' b where "newly M st bs st' bs' b" "q = baddr b + hdr M" "k \<le> bsize b"
proof -
  from assms obtain bs' b where v: "rep M st' bs'" "b \<in> set bs'" "\<not> bfree b" "q = baddr b + hdr M" "k \<le> bsize b"
    "\<forall>c \<in> set bs. \<not> bfree c \<longrightarrow> c \<in> set bs' \<and> baddr c + hdr M \<noteq> q \<and> (\<forall>x \<in> user M c. mem st' x = mem st x)"
    by (auto simp: serves_def keeps_used_def)
  then have "newly M st bs st' bs' b" by (auto simp: newly_def)
  with v(4,5) that show ?thesis by blast
qed

lemma newly_held:
  assumes M: "ilp32 M" and n: "newly M st bs st' bs' b" and q: "q = baddr b + hdr M" "q \<noteq> 0" and k: "k \<le> bsize b"
  shows "held M st bs {} k st' q"
proof -
  have s: "rep M st' bs'" "b \<in> set bs'" using n by (simp_all add: newly_def)
  have "baddr c + hdr M \<noteq> q" if "c \<in> set bs" "\<not> bfree c" for c
    using rep_addr_inj [OF s(1) ilp32_hdr(1) [OF M] _ s(2), of c] q(1) n that by (auto simp: newly_def)
  with n q k show ?thesis unfolding serves_def newly_def by (intro exI [of _ bs']) (auto simp: keeps_used_def)
qed

lemma get_block: "rep M st bs \<Longrightarrow> b \<in> set bs \<Longrightarrow> \<exists>nx pv. get (baddr b) st = Inr (node_of M b nx pv)"
  by (auto simp: in_set_conv_decomp dest: rep_get)

text \<open>Filling the block of a served pointer.\<close>

lemma fill_newly:
  fixes f :: "int \<Rightarrow> 8 word"
  assumes M: "ilp32 M" and v: "newly M st bs st1 bs1 b" and n: "n \<le> bsize b"
  defines "st2 \<equiv> write_bytes M (baddr b + hdr M) n f st1"
  shows "newly M st bs st2 bs1 b"
    and "mem st2 x = (if baddr b + hdr M \<le> x \<and> x < baddr b + hdr M + n then f x else mem st1 x)"
proof -
  note h = ilp32_hdr(1) [OF M]
  have s: "rep M st1 bs1" "b \<in> set bs1" using v by (simp_all add: newly_def)
  note w = write_rep [OF s(1) h s(2) n]
  show m2: "mem st2 x = (if baddr b + hdr M \<le> x \<and> x < baddr b + hdr M + n then f x else mem st1 x)" for x
    using w by (simp add: st2_def)
  have "mem st2 y = mem st1 y" if c: "c \<in> set bs1" "c \<noteq> b" "y \<in> user M c" for c y
  proof -
    have "y \<notin> user M b" using user_disjoint [OF s(1) h c(1) s(2) c(2)] c(3) by blast
    then show ?thesis using n by (auto simp: m2 user_def bend_def)
  qed
  then show "newly M st bs st2 bs1 b" using v w(1) by (auto simp: newly_def st2_def)
qed

lemma calloc2_held:
  assumes M: "ilp32 M" and r: "ready2 M st bs" and g: "granted M st"
    and k: "0 < szt M (num * sz)" "szt M (num * sz) \<le> MAX_SIZE"
  shows "\<exists>st' q. calloc2 M num sz st = Inr (st', q) \<and> held M st bs {} (szt M (num * sz)) st' q \<and>
    (q \<noteq> 0 \<longrightarrow> (\<forall>i. 0 \<le> i \<longrightarrow> i < szt M (num * sz) \<longrightarrow> mem st' (q + i) = 0))"
proof -
  define k where "k = szt M (num * sz)"
  obtain st1 q where m: "malloc2 M k st = Inr (st1, q)" "held M st bs {} k st1 q"
    using malloc2_ready [OF M r k g] by (auto simp: k_def)
  show ?thesis
  proof (cases "q = 0")
    case True
    with m show ?thesis by (auto simp: calloc2_def k_def)
  next
    case False
    from held_block [OF m(2) False] obtain bs1 b where v: "newly M st bs st1 bs1 b" "q = baddr b + hdr M" "k \<le> bsize b" .
    define st2 where "st2 = memset M q 0 k st1"
    note w = fill_newly [OF M v(1,3), of "\<lambda>_. 0", folded v(2), folded memset_def st2_def]
    have "calloc2 M num sz st = Inr (st2, q)"
      using m(1) False get_block [of M st1 bs1 b] v(1,2) by (auto simp: calloc2_def k_def [symmetric] st2_def newly_def)
    moreover have "held M st bs {} k st2 q" by (rule newly_held [OF M w(1) v(2) False v(3)])
    ultimately show ?thesis using w(2) by (auto simp: k_def)
  qed
qed

lemma calloc2_serves:
  assumes M: "ilp32 M" and r: "ready2 M st bs" and g: "granted M st"
  shows "\<exists>st' q. calloc2 M n sz st = Inr (st', q) \<and> serves M (ready2 M) st bs {} (szt M (n * sz)) st' q \<and>
    (q \<noteq> 0 \<longrightarrow> (\<forall>i. 0 \<le> i \<longrightarrow> i < szt M (n * sz) \<longrightarrow> mem st' (q + i) = 0))"
proof (cases "0 < szt M (n * sz) \<and> szt M (n * sz) \<le> MAX_SIZE")
  case True
  with calloc2_held [OF M r g] show ?thesis using serves_weaken rep_ready2 by metis
next
  case False
  have "0 \<le> szt M (n * sz)" by (simp add: szt_def)
  with False have "malloc2 M (szt M (n * sz)) st = Inr (st, 0)" by (intro malloc2_refuses) auto
  then have "calloc2 M n sz st = Inr (st, 0)" by (simp add: calloc2_def)
  with serves_refused [of "ready2 M" st bs M] ready2_addr [OF M r] r show ?thesis by blast
qed

text \<open>Moving to a larger block: the new block, the copy, the old block marked free.\<close>

lemma realloc2_move:
  assumes M: "ilp32 M" and r: "rep M st bs" and b: "b \<in> set bs" "\<not> bfree b"
    and k: "bsize b < k" "k \<le> MAX_SIZE" and g: "granted M st"
  shows "\<exists>st' q. realloc2 M (baddr b + hdr M) k st = Inr (st', q) \<and> held M st bs {b} k st' q \<and> q \<noteq> 0 \<and>
    (\<forall>i. 0 \<le> i \<longrightarrow> i < bsize b \<longrightarrow> mem st' (q + i) = mem st (baddr b + hdr M + i))"
proof -
  note h = ilp32_hdr(1) [OF M]
  have k0: "0 < k" using rep_addr(4) [OF r h b(1)] k(1) by simp
  obtain st1 q where m: "malloc2 M k st = Inr (st1, q)" "held M st bs {} k st1 q" "q \<noteq> 0"
    using malloc2_held [OF M r k0 k(2) g] by blast
  from held_block [OF m(2,3)] obtain bs1 b' where v: "newly M st bs st1 bs1 b'" "q = baddr b' + hdr M" "k \<le> bsize b'" .
  have s1: "rep M st1 bs1" "b' \<in> set bs1" "\<not> bfree b'" and b1: "b \<in> set bs1" "b \<noteq> b'"
    using v(1) b by (auto simp: newly_def)
  have le: "bsize b \<le> bsize b'" using k(1) v(3) by simp
  define st2 where "st2 = memcpy M q (baddr b + hdr M) (bsize b) st1"
  note w = fill_newly [OF M v(1) le, of "\<lambda>x. mem st1 (baddr b + hdr M + (x - q))", folded v(2), folded memcpy_def st2_def]
  have s2: "rep M st2 bs1" using w(1) by (simp add: newly_def)
  obtain us vs where bs1: "bs1 = us @ b # vs" using b1(1) by (auto simp: in_set_conv_decomp)
  let ?bs = "us @ b\<lparr>bfree := True\<rparr> # vs"
  obtain st3 where s: "setFree M (baddr b) st2 = Inr st3" "rep M st3 ?bs" "kept (hdrs M bs1 \<union> hdrs M ?bs) st2 st3"
    using setFree_rep [OF s2 [unfolded bs1] h b(2)] bs1 by (auto simp: yields_def)
  have inb: "b' \<in> set ?bs" using s1(2) b1(2) bs1 by auto
  have "baddr b + hdr M \<noteq> 0" "\<not> (k = 0 \<or> k > MAX_SIZE)"
    using rep_addr(1) [OF r h b(1)] h k0 k(2) by auto
  moreover obtain aa where "upd M (baddr b) (\<lambda>t. t\<lparr>is_freed := True\<rparr>) st2 = Inr aa"
    "st3 = aa\<lparr>num_free_blocks := szt M (num_free_blocks aa + 1), num_free_bytes := szt M (num_free_bytes aa + bsize b)\<rparr>"
    using s(1) get_block [OF s2 b1(1)] b(2) by (auto simp: setFree_def sbind_Inr_iff)
  ultimately have e: "realloc2 M (baddr b + hdr M) k st = Inr (st3, q)"
    using m get_block [OF r b(1)] get_block [OF s1(1) b1(1)] get_block [OF s1(1,2)]
      get_block [OF s(2) inb] k(1) v(2)
    by (auto simp: realloc2_def st2_def)
  have keep: "mem st3 x = mem st2 x" if "c \<in> set bs1" "c \<in> set ?bs" "x \<in> user M c" for c x
    by (rule kept_user [OF s(3) s2 s(2) h that])
  have "held M st bs {b} k st3 q"
    unfolding serves_def
  proof (intro exI [of _ ?bs] conjI ballI impI)
    show "keeps_used bs (if q = 0 then {} else {b}) ?bs" using v(1) m(3) bs1 by (auto simp: keeps_used_def newly_def)
    show "q \<noteq> 0 \<Longrightarrow> \<exists>b'\<in>set ?bs. \<not> bfree b' \<and> q = baddr b' + hdr M \<and> k \<le> bsize b'" using inb v(2,3) s1(3) by blast
    fix c assume c: "c \<in> set bs" "\<not> bfree c"
    then have c1: "c \<in> set bs1" "c \<noteq> b'" using v(1) by (auto simp: newly_def)
    show "baddr c + hdr M \<noteq> q" using rep_addr_inj [OF s1(1) h c1(1) s1(2)] v(2) c1(2) by auto
    fix x assume nb: "c \<notin> (if q = 0 then {} else {b})" and x: "x \<in> user M c"
    then have "c \<in> set ?bs" using c1 m(3) bs1 by auto
    then show "mem st3 x = mem st x" using keep [OF c1(1) _ x] w(1) c x by (simp add: newly_def)
  qed (rule s(2))
  moreover have "mem st3 (q + i) = mem st (baddr b + hdr M + i)" if i: "0 \<le> i" "i < bsize b" for i
  proof -
    have "q + i \<in> user M b'" "baddr b + hdr M + i \<in> user M b" using i le by (auto simp: user_def bend_def v(2))
    then show ?thesis using keep [OF s1(2) inb, of "q + i"] w(2) [of "q + i"] v(1) b i by (simp add: newly_def)
  qed
  ultimately show ?thesis using e m(3) by blast
qed

lemma realloc2_serves:
  assumes M: "ilp32 M" and r: "ready2 M st bs" and g: "granted M st" and k: "0 \<le> k" and b: "b \<in> set bs" "\<not> bfree b"
  shows "\<exists>st' q. realloc2 M (baddr b + hdr M) k st = Inr (st', q) \<and> serves M (ready2 M) st bs {b} k st' q \<and>
    (q \<noteq> 0 \<longrightarrow> (\<forall>i. 0 \<le> i \<longrightarrow> i < min k (bsize b) \<longrightarrow> mem st' (q + i) = mem st (baddr b + hdr M + i)))"
proof -
  have R: "rep M st bs" by (rule ready2_rep [OF r b(1)])
  have p: "baddr b + hdr M \<noteq> 0" by (rule ready2_addr [OF M r b(1)])
  consider (bad) "k = 0 \<or> k > MAX_SIZE" | (fits) "0 < k" "k \<le> MAX_SIZE" "k \<le> bsize b" | (move) "k \<le> MAX_SIZE" "bsize b < k"
    using k by fastforce
  then show ?thesis
  proof cases
    case bad
    then have "realloc2 M (baddr b + hdr M) k st = Inr (st, 0)" using p by (auto simp: realloc2_def)
    with serves_refused [of "ready2 M" st bs M] ready2_addr [OF M r] r show ?thesis by blast
  next
    case fits
    then have "realloc2 M (baddr b + hdr M) k st = Inr (st, baddr b + hdr M)"
      using p get_block [OF R b(1)] by (auto simp: realloc2_def Let_def)
    moreover have "baddr c \<noteq> baddr b" if "c \<in> set bs" "c \<noteq> b" for c
      using rep_addr_inj [OF R ilp32_hdr(1) [OF M] that(1) b(1)] that(2) by blast
    then have "serves M (ready2 M) st bs {b} k st (baddr b + hdr M)"
      unfolding serves_def using r p b fits by (intro exI [of _ bs]) (auto simp: keeps_used_def)
    ultimately show ?thesis by blast
  next
    case move
    with realloc2_move [OF M R b _ _ g] obtain st' q where "realloc2 M (baddr b + hdr M) k st = Inr (st', q)"
      "held M st bs {b} k st' q" "\<forall>i. 0 \<le> i \<longrightarrow> i < bsize b \<longrightarrow> mem st' (q + i) = mem st (baddr b + hdr M + i)" by blast
    with serves_weaken [OF this(2) rep_ready2] show ?thesis by auto
  qed
qed

subsection \<open>The contract\<close>

definition ops2 :: "abi \<Rightarrow> alloc_ops" where
  "ops2 M = \<lparr>op_malloc = malloc2 M, op_calloc = calloc2 M, op_free = free2 M, op_realloc = realloc2 M\<rparr>"

lemma ops2_sel [simp]:
  "op_malloc (ops2 M) = malloc2 M" "op_calloc (ops2 M) = calloc2 M" "op_free (ops2 M) = free2 M"
  "op_realloc (ops2 M) = realloc2 M"
  by (simp_all add: ops2_def)

lemma null2: "free2 M 0 st = Inr st" "realloc2 M 0 k st = malloc2 M k st"
  by (simp_all add: free2_def realloc2_def)

lemma allocator2: "ilp32 M \<Longrightarrow> allocator M (ops2 M) (ready2 M)"
proof
  fix st bs b and i :: int and f
  assume M: "ilp32 M" and r: "ready2 M st bs" and b: "b \<in> set bs" "0 \<le> i" "i < bsize b"
  have "rep M (write_bytes M (baddr b + hdr M + i) 1 f st) bs"
    by (rule write_at_rep(1) [OF ready2_rep [OF r b(1)] ilp32_hdr(1) [OF M] b(1)]) (use b in simp_all)
  then show "ready2 M (write_bytes M (baddr b + hdr M + i) 1 f st) bs" by (rule rep_ready2)
next
  fix st bs b c assume "ilp32 M" "ready2 M st bs" "b \<in> set bs" "c \<in> set bs" "b \<noteq> c"
  then show "user M b \<inter> user M c = {}" using user_disjoint ready2_rep ilp32_hdr(1) by metis
next
  fix st bs b c assume "ilp32 M" "ready2 M st bs" "b \<in> set bs" "c \<in> set bs" "baddr b = baddr c"
  then show "b = c" using rep_addr_inj ready2_rep ilp32_hdr(1) by metis
next
  fix st bs b assume "ilp32 M" "ready2 M st bs" "b \<in> set bs"
  then show "0 < baddr b" using rep_addr(1) ready2_rep ilp32_hdr(1) by metis
qed (unfold ops2_sel, (rule null2 ilp32_hdr(1) malloc2_serves calloc2_serves realloc2_serves free2_keeps; assumption?)+)

text \<open>The i386 platform: \<^verbatim>\<open>malloc_2.cpp\<close> has headers of 20 bytes.\<close>

definition i386_2 :: "abi \<Rightarrow> abi" where "i386_2 M = M\<lparr>ptr_bits := 32, hdr := 20\<rparr>"

lemma i386_2_ilp32: "ilp32 (i386_2 M)"
  by (simp add: ilp32_def abi_ok_def i386_2_def)

interpretation m2: allocator "i386_2 M" "ops2 (i386_2 M)" "ready2 (i386_2 M)" for M
  by (rule allocator2 [OF i386_2_ilp32])

end
