(* ===== verification/Malloc_3_Props.thy ===== *)
theory Malloc_3_Props
  imports Malloc_3_Client
begin

text \<open>
  HW4, the properties of \<^verbatim>\<open>HW4/malloc_3.cpp\<close>, each a few steps over the lemmas of the component
  theories, with witnesses on a heap that starts at address 4096.
\<close>

definition demo_abi :: abi where
  "demo_abi = \<lparr>ptr_bits = 32, hdr = 24, enc = (\<lambda>n i. 0), grants = (\<lambda>b k. True)\<rparr>"

definition demo32 :: abi where "demo32 = i386 demo_abi"

lemma demo32_sel [simp]: "hdr demo32 = 24" "ptr_bits demo32 = 32" "grants demo32 b k" "granted demo32 st"
  by (simp_all add: demo32_def demo_abi_def i386_def granted_def)

lemma demo32_ok [simp]: "ilp32 demo32"
  unfolding demo32_def by (rule i386_ilp32)

subsection \<open>Runs of a program\<close>

text \<open>C15: On the 32-bit platform, a program that frees, reallocates and writes only what it owns does not fault or
  hang in the allocator, whatever the order of its calls, before a call of \<open>malloc\<close>, \<open>calloc\<close> or \<open>realloc\<close> at which the
  kernel would refuse memory: each run is carried out to its end or up to such a call. So far the blocks are back to
  back with counters that count them, no two free blocks are neighbours, what the program owns does not overlap,
  and every byte it owns and wrote (or got zeroed from \<open>calloc\<close>) has the value it last wrote, also across
  \<open>realloc\<close>. When the kernel refuses, the code faults: \<open>malloc_out_of_memory_faults\<close>.\<close>
theorem heap_run_safe:
  assumes "client_inv (i386 M) (ready (i386 M)) c"
    and "ops_allowed (heap_step (i386 M) (ops3 (i386 M))) well_behaved xs c"
  shows "\<exists>ys zs c' bs. xs = ys @ zs \<and> run_ops (heap_step (i386 M) (ops3 (i386 M))) ys c = Inr c' \<and>
    (rep (i386 M) (cheap c') bs \<and> no_adj bs \<or> unborn (cheap c') \<and> bs = []) \<and>
    separate (owned c') \<and> (\<forall>x v. wrote c' x = Some v \<longrightarrow> mem (cheap c') x = v) \<and>
    (zs = [] \<or> asks_kernel (hd zs) \<and> \<not> granted (i386 M) (cheap c'))"
proof -
  obtain ys zs c' where c: "xs = ys @ zs" "run_ops (heap_step (i386 M) (ops3 (i386 M))) ys c = Inr c'"
    "client_inv (i386 M) (ready (i386 M)) c'" "zs = [] \<or> asks_kernel (hd zs) \<and> \<not> granted (i386 M) (cheap c')"
    using m3.run_until_refused [OF assms] by blast
  obtain bs where "rep (i386 M) (cheap c') bs \<and> no_adj bs \<or> unborn (cheap c') \<and> bs = []"
    using c(3) by (auto simp: client_inv_def ready_def merged_def)
  with c m3.inv_promise [OF c(3)] show ?thesis by blast
qed

definition client0 :: client where
  "client0 = \<lparr>cheap = heap0 4096, owned = [], wrote = (\<lambda>_. None)\<rparr>"

lemma client0_inv: "client_inv M (ready M) client0"
  by (auto simp: client_inv_def client0_def ready_def unborn_def heap0_def owns_def intact_def)

lemma first_malloc:
  "malloc demo32 10 (heap0 4096) = first_allocation demo32 12 (heap0 4096)"
  "\<exists>st. first_allocation demo32 12 (heap0 4096) = Inr (st, 4120) \<and> rep demo32 st [\<lparr>baddr = 4096, bsize = 12, bfree = False\<rparr>]"
proof -
  show "malloc demo32 10 (heap0 4096) = first_allocation demo32 12 (heap0 4096)"
    by (simp add: malloc_def heap0_def MAX_SIZE_def round4_def)
  show "\<exists>st. first_allocation demo32 12 (heap0 4096) = Inr (st, 4120) \<and> rep demo32 st [\<lparr>baddr = 4096, bsize = 12, bfree = False\<rparr>]"
    using first_allocation_rep [of demo32 "heap0 4096" 12] by (auto simp: heap0_def)
qed

theorem heap_run_safe_witness:
  "\<exists>c'. run_ops (heap_step demo32 (ops3 demo32))
     [C_malloc 10, C_write 4120 3 7, C_calloc 5 4, C_realloc 4120 200, C_free 0, C_malloc 300] client0 = Inr c' \<and>
   separate (owned c')"
proof -
  obtain st where st: "malloc demo32 10 (heap0 4096) = Inr (st, 4120)" using first_malloc by auto
  have z: "szt demo32 20 = 20" by (simp add: szt_def)
  have "ops_allowed (heap_step demo32 (ops3 demo32)) well_behaved
     [C_malloc 10, C_write 4120 3 7, C_calloc 5 4, C_realloc 4120 200, C_free 0, C_malloc 300] client0"
    using st by (simp add: client0_def take_ptr_def z null3 split: sum.split prod.split) (auto simp: sbind_Inr_iff)
  from heap_run_safe [of demo_abi client0, folded demo32_def, OF client0_inv this] show ?thesis by auto
qed

subsection \<open>malloc, free and realloc as functions on the blocks\<close>

text \<open>C16: \<open>malloc\<close> implements first fit on a 32-bit platform whose kernel grants memory: on a heap that represents the
  blocks \<open>bs\<close> a request of 1 to \<open>MAX_SIZE\<close> bytes is rounded up to a multiple of 4 and takes the first free block that is large enough,
  splitting off the rest when at least 128 bytes remain beside its header, else extends a free last block, else
  appends a block; the counters follow, and no byte outside the headers changes. The pointer is that of the
  block, but null when the block is recycled and its first four bytes are all ones.\<close>
theorem malloc_first_fit:
  assumes "ilp32 M" and "rep M st bs" and "0 < k" and "k \<le> MAX_SIZE" and "granted M st"
    and "spec_malloc M (round4 k) bs = (bs', p, reused)"
  shows "\<exists>st'. malloc M k st = Inr (st', if reused \<and> all_ones st' p then 0 else p) \<and> rep M st' bs' \<and>
    kept (hdrs M bs \<union> hdrs M bs') st st'"
  by (rule malloc_rep [OF assms])

theorem malloc_first_fit_witness:
  "\<exists>st1 st2. malloc demo32 10 (heap0 4096) = Inr (st1, 4120) \<and> malloc demo32 20 st1 = Inr (st2, 4156) \<and>
     rep demo32 st2 [\<lparr>baddr = 4096, bsize = 12, bfree = False\<rparr>, \<lparr>baddr = 4132, bsize = 20, bfree = False\<rparr>]"
proof -
  obtain st where st: "malloc demo32 10 (heap0 4096) = Inr (st, 4120)"
    "rep demo32 st [\<lparr>baddr = 4096, bsize = 12, bfree = False\<rparr>]" using first_malloc by auto
  have "spec_malloc demo32 (round4 20) [\<lparr>baddr = 4096, bsize = 12, bfree = False\<rparr>] =
      ([\<lparr>baddr = 4096, bsize = 12, bfree = False\<rparr>, \<lparr>baddr = 4132, bsize = 20, bfree = False\<rparr>], 4156, False)"
    by (simp add: spec_malloc_def round4_def bend_def)
  from malloc_first_fit [OF demo32_ok st(2) _ _ _ this] show ?thesis using st(1) by (auto simp: MAX_SIZE_def)
qed

text \<open>C17: \<open>free\<close> of a block in use marks it and merges every run of neighbouring free blocks: the result
  is the coalesced list, on which again no two free blocks are neighbours, and no byte outside the headers
  changes.\<close>
theorem free_coalesces:
  assumes "ilp32 M" and "rep M st bs" and "no_adj bs" and "b \<in> set bs" and "\<not> bfree b"
  shows "\<exists>st'. free M (baddr b + hdr M) st = Inr st' \<and>
    rep M st' (coalesce M (mark_free M (baddr b + hdr M) bs)) \<and>
    no_adj (coalesce M (mark_free M (baddr b + hdr M) bs)) \<and>
    kept (hdrs M bs \<union> hdrs M (coalesce M (mark_free M (baddr b + hdr M) bs))) st st'"
  by (rule free_rep [OF assms])

lemma second_malloc:
  "\<exists>st. rep demo32 st [\<lparr>baddr = 4096, bsize = 12, bfree = True\<rparr>, \<lparr>baddr = 4132, bsize = 20, bfree = False\<rparr>]"
proof -
  obtain st where st: "rep demo32 st [\<lparr>baddr = 4096, bsize = 12, bfree = False\<rparr>]" using first_malloc by auto
  have "spec_malloc demo32 (round4 20) [\<lparr>baddr = 4096, bsize = 12, bfree = False\<rparr>] =
      ([\<lparr>baddr = 4096, bsize = 12, bfree = False\<rparr>, \<lparr>baddr = 4132, bsize = 20, bfree = False\<rparr>], 4156, False)"
    by (simp add: spec_malloc_def round4_def bend_def)
  from malloc_rep [OF demo32_ok st _ _ _ this] obtain st2 where
    s: "rep demo32 st2 ([] @ \<lparr>baddr = 4096, bsize = 12, bfree = False\<rparr> # [\<lparr>baddr = 4132, bsize = 20, bfree = False\<rparr>])"
    by (auto simp: MAX_SIZE_def)
  from setFree_rep [OF s] show ?thesis by (auto simp: yields_def)
qed

theorem free_coalesces_witness:
  "\<exists>st st'. rep demo32 st [\<lparr>baddr = 4096, bsize = 12, bfree = True\<rparr>, \<lparr>baddr = 4132, bsize = 20, bfree = False\<rparr>] \<and>
     free demo32 4156 st = Inr st' \<and> rep demo32 st' [\<lparr>baddr = 4096, bsize = 56, bfree = True\<rparr>]"
proof -
  obtain st where st: "rep demo32 st [\<lparr>baddr = 4096, bsize = 12, bfree = True\<rparr>, \<lparr>baddr = 4132, bsize = 20, bfree = False\<rparr>]"
    using second_malloc by blast
  from free_coalesces [OF demo32_ok st, of "\<lparr>baddr = 4132, bsize = 20, bfree = False\<rparr>"]
  show ?thesis using st by (auto simp: mark_free_def join_def)
qed

text \<open>C18: On a 32-bit platform whose kernel grants memory, \<open>realloc\<close> of a block in use to 1 to \<open>MAX_SIZE\<close> bytes
  returns without a fault and keeps its bytes up to the smaller of the old and the new size, at a
  pointer with at least the new size that no other block in use has, and changes no byte of the other blocks in
  use; when it returns null the old block is still there with its bytes.\<close>
theorem realloc_preserves:
  assumes "ilp32 M" and "rep M st bs" and "no_adj bs" and "b \<in> set bs" and "\<not> bfree b"
    and "0 < k" and "k \<le> MAX_SIZE" and "granted M st"
  shows "\<exists>st' q. realloc M (baddr b + hdr M) k st = Inr (st', q) \<and> serves M (merged M) st bs {b} k st' q \<and>
    (q \<noteq> 0 \<longrightarrow> (\<forall>i. 0 \<le> i \<longrightarrow> i < min k (bsize b) \<longrightarrow> mem st' (q + i) = mem st (baddr b + hdr M + i)))"
  by (rule realloc_keeps [OF assms])

theorem realloc_preserves_witness:
  "\<exists>st st' q. rep demo32 st [\<lparr>baddr = 4096, bsize = 12, bfree = True\<rparr>, \<lparr>baddr = 4132, bsize = 20, bfree = False\<rparr>] \<and>
     realloc demo32 4156 100 st = Inr (st', q) \<and> (q \<noteq> 0 \<longrightarrow> mem st' (q + 19) = mem st 4175)"
proof -
  obtain st where st: "rep demo32 st [\<lparr>baddr = 4096, bsize = 12, bfree = True\<rparr>, \<lparr>baddr = 4132, bsize = 20, bfree = False\<rparr>]"
    using second_malloc by blast
  from realloc_preserves [OF demo32_ok st, of "\<lparr>baddr = 4132, bsize = 20, bfree = False\<rparr>" 100]
  obtain st' q where "realloc demo32 4156 100 st = Inr (st', q)"
    "q \<noteq> 0 \<longrightarrow> (\<forall>i. 0 \<le> i \<longrightarrow> i < 20 \<longrightarrow> mem st' (q + i) = mem st (4156 + i))"
    by (auto simp: MAX_SIZE_def)
  with st show ?thesis by (intro exI [of _ st] exI [of _ st'] exI [of _ q]) (auto dest: spec [of _ 19])
qed

text \<open>The headers found by following \<^verbatim>\<open>next_node\<close> from the head of the list until it comes round, at most \<open>n\<close>.\<close>

fun walk :: "nat \<Rightarrow> heap \<Rightarrow> int \<Rightarrow> node list" where
  "walk 0 st p = []"
| "walk (Suc n) st p = (case nodes st p of
     None \<Rightarrow> []
   | Some a \<Rightarrow> a # (if next_node a = head st then [] else walk n st (next_node a)))"

lemma walk_chain:
  assumes "chain M (nodes st) pv bs (head st)" "bs \<noteq> []" "\<forall>b\<in>set (tl bs). baddr b \<noteq> head st" "length bs \<le> n"
  shows "map (\<lambda>a. (is_freed a, size_of_allocation a)) (walk n st (haddr bs 0)) = map (\<lambda>b. (bfree b, bsize b)) bs"
  using assms
proof (induction bs arbitrary: pv n)
  case (Cons b bs)
  then obtain m where n: "n = Suc m" by (cases n) simp_all
  show ?case
  proof (cases bs)
    case Nil
    then show ?thesis using Cons.prems n by simp
  next
    case (Cons c cs)
    have "map (\<lambda>a. (is_freed a, size_of_allocation a)) (walk m st (haddr bs 0)) = map (\<lambda>b. (bfree b, bsize b)) bs"
      by (rule Cons.IH [of "baddr b"]) (use Cons.prems n Cons in auto)
    then show ?thesis using Cons.prems n Cons by simp
  qed
qed simp

lemma walk_rep:
  assumes "rep M st bs" "0 < hdr M"
  shows "map (\<lambda>a. (is_freed a, size_of_allocation a)) (walk (nat (brk st)) st (head st)) = map (\<lambda>b. (bfree b, bsize b)) bs"
proof -
  note R = rep_parts [OF assms]
  have l: "bs \<noteq> []" "0 < head st" "contig M (head st) bs (brk st)" using R(1) by (simp_all add: laid_def)
  then obtain b cs where bs: "bs = b # cs" "baddr b = head st" by (cases bs) auto
  have "chain M (nodes st) (laddr 0 bs) bs (head st)" using R(2) bs by (simp add: linked_def)
  moreover have "\<forall>c\<in>set (tl bs). baddr c \<noteq> head st" using contig_middle(2) [of M "head st" "[]" b cs] l bs assms(2)
    by (fastforce simp: bend_def)
  moreover have "int (length bs) \<le> brk st" using contig_total [OF l(3)] l(2) assms(2)
    block_sums [of bs] rep_addr(4) [OF assms]
    by (smt (verit) mult_le_cancel_left1 mult.commute of_nat_0_le_iff)
  ultimately show ?thesis using walk_chain [of M st "laddr 0 bs" bs "nat (brk st)"] l(1) bs by auto
qed

lemma counts_of_maps:
  assumes "map (\<lambda>a. (is_freed a, size_of_allocation a)) ns = map (\<lambda>b. (bfree b, bsize b)) bs"
  shows "int (length (filter is_freed ns)) = nfree bs" "sum_list (map size_of_allocation (filter is_freed ns)) = bfreed bs"
    "length ns = length bs" "sum_list (map size_of_allocation ns) = btotal bs"
proof -
  show "length ns = length bs" using arg_cong [OF assms, of length] by simp
  show "int (length (filter is_freed ns)) = nfree bs" "sum_list (map size_of_allocation (filter is_freed ns)) = bfreed bs"
    "sum_list (map size_of_allocation ns) = btotal bs"
    using assms by (induction ns bs rule: list_induct2') auto
qed

lemma stats_of_rep:
  assumes "ilp32 M" and "rep M st bs" and "brk st \<le> 2 ^ ptr_bits M"
  shows "stat_num_free_blocks st = nfree bs" "stat_num_free_bytes st = bfreed bs"
    "stat_num_allocated_blocks st = int (length bs)" "stat_num_allocated_bytes st = btotal bs"
    "stat_num_meta_data_bytes M st = int (length bs) * stat_size_meta_data M"
proof -
  note h = ilp32_hdr(1) [OF assms(1)]
  note R = rep_parts [OF assms(2) h]
  have hd: "0 < head st" using R(1) by (simp add: laid_def)
  have t: "btotal bs + int (length bs) * hdr M = brk st - head st" by (rule contig_total [OF R(5)])
  have "\<forall>b \<in> set bs. 0 \<le> bsize b" using rep_addr(4) [OF assms(2) h] by fastforce
  note b = block_sums [OF this]
  have l: "int (length bs) \<le> int (length bs) * hdr M" using h by (simp add: mult_le_cancel_left1)
  have "szt M x = x" if "0 \<le> x" "x \<le> brk st - head st" for x using that hd assms(3) by (simp add: szt_def)
  moreover have "0 \<le> nfree bs" "nfree bs \<le> brk st - head st" "0 \<le> bfreed bs" "bfreed bs \<le> brk st - head st"
    "int (length bs) \<le> brk st - head st" "0 \<le> btotal bs" "btotal bs \<le> brk st - head st"
    "0 \<le> int (length bs) * hdr M" "int (length bs) * hdr M \<le> brk st - head st"
    using b t l h by auto
  ultimately show "stat_num_free_blocks st = nfree bs" "stat_num_free_bytes st = bfreed bs"
    "stat_num_allocated_blocks st = int (length bs)" "stat_num_allocated_bytes st = btotal bs"
    "stat_num_meta_data_bytes M st = int (length bs) * stat_size_meta_data M"
    using R(3) by (simp_all add: counted_def stat_num_free_blocks_def stat_num_free_bytes_def stat_num_allocated_blocks_def
      stat_num_allocated_bytes_def stat_num_meta_data_bytes_def stat_size_meta_data_def)
qed

definition program_at :: "int \<Rightarrow> client" where
  "program_at b = \<lparr>cheap = heap0 b, owned = [], wrote = (\<lambda>_. None)\<rparr>"

text \<open>C19: The statistics are exact after every run. Take a program from its start, with no heap and the break at any
  address, that frees, reallocates and writes only what it owns, on the 32-bit platform, with a kernel that has
  memory at every call of \<open>malloc\<close>, \<open>calloc\<close> and \<open>realloc\<close>. After its run, if the break is within the 4 GB of the
  address space, the statistics functions return what a walk along the linked list of headers finds: the number
  and bytes of the free blocks, of all blocks, and of the headers (24 each).\<close>
theorem statistics_exact:
  assumes "0 < b" and "ops_allowed (heap_step (i386 M) (ops3 (i386 M)))
      (\<lambda>x c. well_behaved x c \<and> (asks_kernel x \<longrightarrow> granted (i386 M) (cheap c))) xs (program_at b)"
  shows "\<exists>c. run_ops (heap_step (i386 M) (ops3 (i386 M))) xs (program_at b) = Inr c \<and>
    (let st = cheap c; ns = walk (nat (brk st)) st (head st) in brk st \<le> 2 ^ 32 \<longrightarrow>
      stat_num_free_blocks st = int (length (filter is_freed ns)) \<and>
      stat_num_free_bytes st = sum_list (map size_of_allocation (filter is_freed ns)) \<and>
      stat_num_allocated_blocks st = int (length ns) \<and>
      stat_num_allocated_bytes st = sum_list (map size_of_allocation ns) \<and>
      stat_num_meta_data_bytes (i386 M) st = int (length ns) * 24)"
proof -
  let ?M = "i386 M"
  have "client_inv ?M (ready ?M) (program_at b)"
    using assms(1) by (auto simp: client_inv_def program_at_def ready_def unborn_def heap0_def owns_def intact_def)
  moreover have "ops_allowed (heap_step ?M (ops3 ?M)) (heap_ok ?M) xs (program_at b)"
    using assms(2) unfolding heap_ok_iff [abs_def] .
  ultimately obtain c where c: "run_ops (heap_step ?M (ops3 ?M)) xs (program_at b) = Inr c" "client_inv ?M (ready ?M) c"
    using m3.run.run_safe by blast
  obtain bs where bs: "rep ?M (cheap c) bs \<or> unborn (cheap c) \<and> bs = []"
    using c(2) by (auto simp: client_inv_def ready_def merged_def)
  define ns where "ns = walk (nat (brk (cheap c))) (cheap c) (head (cheap c))"
  have h: "hdr ?M = 24" "ptr_bits ?M = 32" by (simp_all add: i386_def)
  have "brk (cheap c) \<le> 2 ^ 32 \<longrightarrow>
      stat_num_free_blocks (cheap c) = int (length (filter is_freed ns)) \<and>
      stat_num_free_bytes (cheap c) = sum_list (map size_of_allocation (filter is_freed ns)) \<and>
      stat_num_allocated_blocks (cheap c) = int (length ns) \<and>
      stat_num_allocated_bytes (cheap c) = sum_list (map size_of_allocation ns) \<and>
      stat_num_meta_data_bytes ?M (cheap c) = int (length ns) * 24"
    using bs
  proof
    assume r: "rep ?M (cheap c) bs"
    have "map (\<lambda>a. (is_freed a, size_of_allocation a)) ns = map (\<lambda>b. (bfree b, bsize b)) bs"
      unfolding ns_def by (rule walk_rep [OF r]) (simp add: h)
    note k = counts_of_maps [OF this]
    show ?thesis using stats_of_rep [OF i386_ilp32 r] k h by (simp add: stat_size_meta_data_def)
  next
    assume u: "unborn (cheap c) \<and> bs = []"
    then have "ns = []" by (cases "nat (brk (cheap c))") (simp_all add: ns_def unborn_def)
    then show ?thesis using u by (simp add: unborn_def stat_num_free_blocks_def stat_num_free_bytes_def
      stat_num_allocated_blocks_def stat_num_allocated_bytes_def stat_num_meta_data_bytes_def szt_def)
  qed
  with c(1) show ?thesis by (auto simp: Let_def ns_def)
qed

lemma malloc_then_free:
  "\<exists>c. run_ops (heap_step demo32 (ops3 demo32)) [C_malloc 10, C_free 4120] (program_at 4096) = Inr c \<and>
    ops_allowed (heap_step demo32 (ops3 demo32))
      (\<lambda>x c. well_behaved x c \<and> (asks_kernel x \<longrightarrow> granted demo32 (cheap c))) [C_malloc 10, C_free 4120] (program_at 4096) \<and>
    rep demo32 (cheap c) [\<lparr>baddr = 4096, bsize = 12, bfree = True\<rparr>]"
proof -
  obtain st where st: "malloc demo32 10 (heap0 4096) = Inr (st, 4120)"
    "rep demo32 st [\<lparr>baddr = 4096, bsize = 12, bfree = False\<rparr>]" using first_malloc by auto
  obtain st2 where "free demo32 4120 st = Inr st2" "rep demo32 st2 [\<lparr>baddr = 4096, bsize = 12, bfree = True\<rparr>]"
    using free_rep [OF demo32_ok st(2), of "\<lparr>baddr = 4096, bsize = 12, bfree = False\<rparr>"] by (auto simp: mark_free_def)
  with st show ?thesis by (simp add: program_at_def ops3_def take_ptr_def)
qed

theorem statistics_exact_witness:
  "\<exists>c ns. run_ops (heap_step demo32 (ops3 demo32)) [C_malloc 10, C_free 4120] (program_at 4096) = Inr c \<and>
    ns = walk (nat (brk (cheap c))) (cheap c) (head (cheap c)) \<and> map size_of_allocation (filter is_freed ns) = [12] \<and>
    stat_num_free_bytes (cheap c) = 12 \<and> stat_num_meta_data_bytes demo32 (cheap c) = int (length ns) * 24"
proof -
  obtain c where c: "run_ops (heap_step demo32 (ops3 demo32)) [C_malloc 10, C_free 4120] (program_at 4096) = Inr c"
    "ops_allowed (heap_step demo32 (ops3 demo32))
      (\<lambda>x c. well_behaved x c \<and> (asks_kernel x \<longrightarrow> granted demo32 (cheap c))) [C_malloc 10, C_free 4120] (program_at 4096)"
    "rep demo32 (cheap c) [\<lparr>baddr = 4096, bsize = 12, bfree = True\<rparr>]" using malloc_then_free by blast
  define ns where "ns = walk (nat (brk (cheap c))) (cheap c) (head (cheap c))"
  have "brk (cheap c) = 4132" using c(3) by (auto simp: rep_def laid_def bend_def)
  moreover have "map (\<lambda>a. (is_freed a, size_of_allocation a)) ns = [(True, 12)]"
    using walk_rep [OF c(3)] by (simp add: ns_def)
  then have "map size_of_allocation (filter is_freed ns) = [12]" by auto
  moreover note statistics_exact [of 4096 demo_abi "[C_malloc 10, C_free 4120]", folded demo32_def, OF _ c(2)] c(1)
  ultimately show ?thesis by (intro exI [of _ c] exI [of _ ns]) (simp add: Let_def ns_def)
qed

subsection \<open>Where the allocator fails\<close>

text \<open>When the kernel refuses memory, \<open>malloc\<close> does not return null: it reads through the pointer -1
  that \<open>sbrk\<close> returned, which is a fault.\<close>
theorem malloc_out_of_memory_faults:
  assumes "ilp32 M" and "rep M st bs" and "0 < k" and "k \<le> MAX_SIZE"
    and "first_fit (round4 k) bs = None" and "\<not> bfree (last bs)" and "\<not> grants M (brk st) (round4 k + hdr M)"
  shows "malloc M k st = Inl (Faulted Bad_Address)"
proof -
  have fa: "\<not> first_alloc st" using assms(2) by (simp add: rep_def laid_def)
  obtain xs b where b: "bs = xs @ [b]" using assms(2) by (metis append_butlast_last_id laid_def rep_def)
  obtain b0 bs0 where bs0: "bs = b0 # bs0" using b by (cases xs) auto
  have "find_loop M (round4 k) (head st) (head st) st = Some (Inr (st, None))"
    using find_loop_first_fit [OF assms(1,2), of "[]" b0 bs0 "round4 k"] bs0 rep_head [OF assms(2)] assms(5) by simp
  moreover obtain hh where "get (head st) st = Inr hh" "prev_node hh = baddr b" using rep_last(1) assms(2) b by blast
  moreover have "get (baddr b) st = Inr (node_of M b (head st) (laddr (baddr b) xs))"
    using rep_last(2) [of M st xs b] assms(2) b by simp
  ultimately have "find_free_allocation_address M (round4 k) st = Inr (st, 0)"
    using assms(6) b by (simp add: find_free_allocation_address_def looped_def is_free_wilderness_def)
  then show ?thesis
    unfolding malloc_def Let_def using assms(3,4,7) fa by (simp add: sbrk_def reads_minus_one_def)
qed

text \<open>A kernel with memory up to address 4200 only.\<close>

definition tight32 :: abi where "tight32 = demo32\<lparr>grants := (\<lambda>b k. b + k \<le> 4200)\<rparr>"

theorem malloc_out_of_memory_faults_witness:
  "\<exists>st. first_allocation tight32 12 (heap0 4096) = Inr (st, 4120) \<and> malloc tight32 100 st = Inl (Faulted Bad_Address)"
proof -
  have t: "ilp32 tight32" "hdr tight32 = 24" by (simp_all add: tight32_def ilp32_def abi_ok_def)
  obtain st where st: "first_allocation tight32 12 (heap0 4096) = Inr (st, 4120)"
    "rep tight32 st [\<lparr>baddr = 4096, bsize = 12, bfree = False\<rparr>]"
    using first_allocation_rep [OF t(1), of "heap0 4096" 12] t(2) by (auto simp: heap0_def tight32_def)
  have "brk st = 4132" using contig_last [of tight32 _ "[]"] st(2) t(2) by (auto simp: rep_def laid_def bend_def)
  then have "\<not> grants tight32 (brk st) (round4 100 + hdr tight32)" by (simp add: tight32_def round4_def)
  with malloc_out_of_memory_faults [OF t(1) st(2), of 100] st(1) show ?thesis by (auto simp: MAX_SIZE_def)
qed

text \<open>A recycled block whose first four bytes are all ones is lost: \<open>malloc\<close> takes it out of the
  free blocks and returns null, although memory was available.\<close>
theorem malloc_loses_block:
  assumes "ilp32 M" and "rep M st bs" and "0 < k" and "k \<le> MAX_SIZE" and "granted M st"
    and "first_fit (round4 k) bs = Some (xs, b, ys)" and "bsize b - round4 k - hdr M < REMAIN"
    and "all_ones st (baddr b + hdr M)"
  shows "\<exists>st'. malloc M k st = Inr (st', 0) \<and> rep M st' (xs @ b\<lparr>bfree := False\<rparr> # ys)"
proof -
  note h = ilp32_hdr(1) [OF assms(1)]
  note f = first_fit_Some [OF assms(6)]
  let ?bs = "xs @ b\<lparr>bfree := False\<rparr> # ys"
  have sp: "spec_malloc M (round4 k) bs = (?bs, baddr b + hdr M, True)"
    using assms(6,7) by (simp add: spec_malloc_def alloc_in_def)
  obtain st' where s: "malloc M k st = Inr (st', if all_ones st' (baddr b + hdr M) then 0 else baddr b + hdr M)"
    "rep M st' ?bs" "kept (hdrs M bs \<union> hdrs M ?bs) st st'"
    using malloc_rep [OF assms(1-5) sp] by auto
  have "4 \<le> round4 k" using round4(1) [OF assms(3)] round4(4) [of k] by presburger
  with f have "4 \<le> bsize b" by simp
  then have u: "baddr b + hdr M + i \<in> user M b" if "0 \<le> i" "i < 4" for i using that by (auto simp: user_def bend_def)
  have "mem st' (baddr b + hdr M + i) = mem st (baddr b + hdr M + i)" if i: "0 \<le> i" "i < 4" for i
  proof -
    have "baddr b + hdr M + i \<notin> hdrs M bs" using rep_user [OF assms(2) h _ u [OF i]] f by simp
    then have "baddr b + hdr M + i \<notin> hdrs M bs \<union> hdrs M ?bs" using f by simp
    with s(3) show ?thesis unfolding kept_def by blast
  qed
  from this [of 0] this [of 1] this [of 2] this [of 3] assms(8) have "all_ones st' (baddr b + hdr M)"
    by (simp add: all_ones_def add.assoc)
  with s show ?thesis by auto
qed

theorem malloc_loses_block_witness:
  "\<exists>st st'. rep demo32 st [\<lparr>baddr = 4096, bsize = 12, bfree = True\<rparr>, \<lparr>baddr = 4132, bsize = 20, bfree = False\<rparr>] \<and>
     malloc demo32 10 st = Inr (st', 0) \<and>
     rep demo32 st' [\<lparr>baddr = 4096, bsize = 12, bfree = False\<rparr>, \<lparr>baddr = 4132, bsize = 20, bfree = False\<rparr>]"
proof -
  let ?b = "\<lparr>baddr = 4096, bsize = 12, bfree = True\<rparr>" and ?c = "\<lparr>baddr = 4132, bsize = 20, bfree = False\<rparr>"
  obtain st0 where st0: "rep demo32 st0 [?b, ?c]" using second_malloc by blast
  define st where "st = write_bytes demo32 (baddr ?b + hdr demo32) 4 (\<lambda>_. 255) st0"
  have st: "rep demo32 st [?b, ?c]" unfolding st_def by (rule write_rep(1) [OF st0]) simp_all
  have "all_ones st (baddr ?b + hdr demo32)" by (simp add: all_ones_def st_def write_bytes_def)
  from malloc_loses_block [OF demo32_ok st, of 10 "[]" ?b "[?c]"] this st show ?thesis
    by (auto simp: MAX_SIZE_def round4_def REMAIN_def)
qed

subsection \<open>A 64-bit platform\<close>

text \<open>On a 64-bit platform the remainder of a block is computed without sign: when a free first block is
  requested at exactly its size, \<open>malloc\<close> splits it nevertheless and writes the header of the rest over the header
  of the next block, which is in use. That block is then marked free, has a negative size and is its own
  neighbour, so that the blocks behind it can no longer be reached.\<close>
theorem exact_fit_destroys_header_64:
  assumes "abi_ok M" and "ptr_bits M = 64" and "rep M st (b # c # ys)" and "bfree b" and "\<not> bfree c"
    and "bsize b mod 4 = 0" and "bsize b \<le> MAX_SIZE"
  shows "\<exists>st' q. malloc M (bsize b) st = Inr (st', q) \<and> nodes st' (baddr c) =
    Some \<lparr>is_freed = True, allocation_start_ptr = baddr c + hdr M, size_of_allocation = - hdr M,
      next_node = baddr c, prev_node = baddr c\<rparr>"
proof -
  have h: "0 < hdr M" "hdr M \<le> 1000" using assms(1) by (simp_all add: abi_ok_def)
  note R = rep_parts [OF assms(3) h(1)]
  have k: "0 < bsize b" using rep_addr(4) [OF assms(3) h(1), of b] by simp
  have fa: "\<not> first_alloc st" and hd: "head st = baddr b" and c: "baddr c = baddr b + hdr M + bsize b" and b0: "0 < baddr b"
    using R(1) by (auto simp: laid_def)
  let ?b = "b\<lparr>bfree := False\<rparr>"
  obtain st1 where s1: "setUsed M (baddr b) st = Inr st1" "rep M st1 (?b # c # ys)"
    using setUsed_rep [of M st "[]" b "c # ys"] assms(3,4) h(1) by (auto simp: yields_def)
  obtain pv where g1: "nodes st1 (baddr b) = Some (node_of M ?b (baddr c) pv)"
    using rep_parts(2) [OF s1(2) h(1)] by (auto simp: linked_def)
  have hd1: "head st1 = baddr b" using rep_head [OF s1(2)] by simp
  have g: "get (baddr b) st = Inr (node_of M b (baddr c) (laddr (baddr c) ys))"
    using rep_get [of M st "[]" b "c # ys"] assms(3) by simp
  have cv: "conv M (bsize b) = bsize b" "128 \<le> conv M (- hdr M)"
  proof -
    show "conv M (bsize b) = bsize b" using assms(2,7) k by (simp add: conv_def MAX_SIZE_def)
    have "(- hdr M) mod 2 ^ 64 = 2 ^ 64 - hdr M" using h by (subst zmod_zminus1_eq_if) (simp add: mod_pos_pos_trivial)
    then show "128 \<le> conv M (- hdr M)" using assms(2) h by (simp add: conv_def)
  qed
  have d: "baddr c \<noteq> baddr b" "hdr M \<le> \<bar>baddr b - baddr c\<bar>" "hdr M \<le> \<bar>baddr c - baddr b\<bar>" "baddr c \<noteq> 0" "baddr b \<noteq> 0"
    using c k h b0 by auto
  have "\<exists>st'. split_block M (baddr b) (bsize b) st = Inr st' \<and> nodes st' (baddr c) =
    Some \<lparr>is_freed = True, allocation_start_ptr = baddr c + hdr M, size_of_allocation = - hdr M,
      next_node = baddr c, prev_node = baddr c\<rparr> \<and> nodes st' (baddr b) = Some (node_of M ?b (baddr c) pv)"
    using g s1(1) g1 assms(4) d h(1) c hd1
    by (simp add: split_block_def Let_def get_def upd_def nodes_put setFree_def checkIfFreeAndConnect_def
        connect_def connect_counts_def node_of_def)
  then obtain st' where s: "split_block M (baddr b) (bsize b) st = Inr st'" "nodes st' (baddr c) =
    Some \<lparr>is_freed = True, allocation_start_ptr = baddr c + hdr M, size_of_allocation = - hdr M,
      next_node = baddr c, prev_node = baddr c\<rparr>" "nodes st' (baddr b) = Some (node_of M ?b (baddr c) pv)" by blast
  have "find_loop M (bsize b) (head st) (head st) st = Some (Inr (st', Some (baddr b + hdr M)))"
    using g hd cv assms(4) s(1,3) by (subst find_loop.simps) (simp add: REMAIN_def get_def)
  then have "find_free_allocation_address M (bsize b) st = Inr (st', baddr b + hdr M)"
    by (simp add: find_free_allocation_address_def looped_def)
  moreover have "round4 (bsize b) = bsize b" using assms(6) by (simp add: round4_def)
  moreover have "baddr b + hdr M \<noteq> 0" "baddr b + hdr M \<noteq> -1" using b0 h(1) by auto
  ultimately have "\<exists>q. malloc M (bsize b) st = Inr (st', q)"
    unfolding malloc_def Let_def using fa k assms(7) by (simp add: reads_minus_one_def)
  with s(2) show ?thesis by blast
qed

definition demo64 :: abi where "demo64 = demo_abi\<lparr>ptr_bits := 64, hdr := 40\<rparr>"

definition heap64 :: heap where
  "heap64 = (heap0 4248)\<lparr>first_alloc := False, head := 4096, num_free_blocks := 1, num_free_bytes := 16,
     num_allocated_blocks := 2, num_allocated_bytes := 72, num_meta_data_blocks := 2,
     nodes := [4096 \<mapsto> \<lparr>is_freed = True, allocation_start_ptr = 4136, size_of_allocation = 16, next_node = 4152, prev_node = 4152\<rparr>,
               4152 \<mapsto> \<lparr>is_freed = False, allocation_start_ptr = 4192, size_of_allocation = 56, next_node = 4096, prev_node = 4096\<rparr>]\<rparr>"

theorem exact_fit_destroys_header_64_witness:
  "\<exists>st' q. malloc demo64 16 heap64 = Inr (st', q) \<and> map_option is_freed (nodes st' 4152) = Some True"
proof -
  let ?b = "\<lparr>baddr = 4096, bsize = 16, bfree = True\<rparr>" and ?c = "\<lparr>baddr = 4152, bsize = 56, bfree = False\<rparr>"
  have "abi_ok demo64" "ptr_bits demo64 = 64" "hdr demo64 = 40" by (simp_all add: demo64_def demo_abi_def abi_ok_def)
  moreover have "rep demo64 heap64 [?b, ?c]"
    by (simp add: rep_def laid_def linked_def counted_def heap64_def heap0_def node_of_def demo64_def demo_abi_def szt_def)
  ultimately have "\<exists>st' q. malloc demo64 (bsize ?b) heap64 = Inr (st', q) \<and> nodes st' (baddr ?c) =
    Some \<lparr>is_freed = True, allocation_start_ptr = baddr ?c + hdr demo64, size_of_allocation = - hdr demo64,
      next_node = baddr ?c, prev_node = baddr ?c\<rparr>"
    by (intro exact_fit_destroys_header_64) (simp_all add: MAX_SIZE_def)
  then show ?thesis by fastforce
qed

end
