(* ===== verification/Malloc_2_Props.thy ===== *)
theory Malloc_2_Props
  imports Malloc_2_Client Malloc_3_Props
begin

text \<open>
  HW4, the properties of \<^verbatim>\<open>HW4/malloc_2.cpp\<close> and \<^verbatim>\<open>HW4/malloc_1.cpp\<close>, with witnesses on a heap that
  starts at address 4096.
\<close>

definition demo20 :: abi where "demo20 = i386_2 demo_abi"

lemma demo20_sel [simp]: "hdr demo20 = 20" "ptr_bits demo20 = 32" "grants demo20 b k" "granted demo20 st"
  by (simp_all add: demo20_def demo_abi_def i386_2_def granted_def)

lemma demo20_ok [simp]: "ilp32 demo20"
  unfolding demo20_def by (rule i386_2_ilp32)

lemma client0_inv2: "client_inv M (ready2 M) client0"
  by (auto simp: client_inv_def client0_def ready2_def unborn_def heap0_def owns_def intact_def)

lemma first_malloc2:
  "\<exists>st. malloc2 demo20 10 (heap0 4096) = Inr (st, 4116) \<and> rep demo20 st [\<lparr>baddr = 4096, bsize = 10, bfree = False\<rparr>]"
  using unborn_first [of demo20 "heap0 4096" 10]
  by (auto simp: malloc2_def same_code unborn_def heap0_def MAX_SIZE_def)

text \<open>C20: On the 32-bit platform, a program that frees, reallocates and writes only what it owns does not fault or
  hang in \<open>malloc_2\<close> before a call of \<open>malloc\<close>, \<open>calloc\<close> or \<open>realloc\<close> at which the kernel would refuse memory: each run
  is carried out to its end or up to such a call. So far the blocks are back to back with counters that count
  them, what it owns does not overlap, and every byte it owns and wrote has the value it last wrote.\<close>
theorem heap2_run_safe:
  assumes "client_inv (i386_2 M) (ready2 (i386_2 M)) c"
    and "ops_allowed (heap_step (i386_2 M) (ops2 (i386_2 M))) well_behaved xs c"
  shows "\<exists>ys zs c' bs. xs = ys @ zs \<and> run_ops (heap_step (i386_2 M) (ops2 (i386_2 M))) ys c = Inr c' \<and>
    (rep (i386_2 M) (cheap c') bs \<or> unborn (cheap c') \<and> bs = []) \<and>
    separate (owned c') \<and> (\<forall>x v. wrote c' x = Some v \<longrightarrow> mem (cheap c') x = v) \<and>
    (zs = [] \<or> asks_kernel (hd zs) \<and> \<not> granted (i386_2 M) (cheap c'))"
proof -
  obtain ys zs c' where c: "xs = ys @ zs" "run_ops (heap_step (i386_2 M) (ops2 (i386_2 M))) ys c = Inr c'"
    "client_inv (i386_2 M) (ready2 (i386_2 M)) c'" "zs = [] \<or> asks_kernel (hd zs) \<and> \<not> granted (i386_2 M) (cheap c')"
    using m2.run_until_refused [OF assms] by blast
  obtain bs where "rep (i386_2 M) (cheap c') bs \<or> unborn (cheap c') \<and> bs = []"
    using c(3) by (auto simp: client_inv_def ready2_def)
  with c m2.inv_promise [OF c(3)] show ?thesis by blast
qed

theorem heap2_run_safe_witness:
  "\<exists>c'. run_ops (heap_step demo20 (ops2 demo20))
     [C_malloc 10, C_write 4116 3 7, C_realloc 4116 50, C_malloc 9] client0 = Inr c' \<and> separate (owned c')"
proof -
  obtain st where st: "malloc2 demo20 10 (heap0 4096) = Inr (st, 4116)" using first_malloc2 by auto
  have "ops_allowed (heap_step demo20 (ops2 demo20)) well_behaved
     [C_malloc 10, C_write 4116 3 7, C_realloc 4116 50, C_malloc 9] client0"
    using st by (simp add: client0_def take_ptr_def null2 split: sum.split prod.split)
  from heap2_run_safe [of demo_abi client0, folded demo20_def, OF client0_inv2 this] show ?thesis by auto
qed

text \<open>\<open>malloc_2\<close> is first fit on whole blocks: a request takes the first free block that is large enough
  and keeps its size, otherwise a new block of exactly the requested size is appended at the break; no byte
  outside the headers changes, and the result is never null.\<close>
theorem malloc2_first_fit:
  assumes "ilp32 M" and "rep M st bs" and "0 < k" and "k \<le> MAX_SIZE" and "granted M st"
  shows "\<exists>st'. case first_fit k bs of
      Some (xs, b, ys) \<Rightarrow> malloc2 M k st = Inr (st', baddr b + hdr M) \<and> rep M st' (xs @ b\<lparr>bfree := False\<rparr> # ys) \<and>
        kept (hdrs M bs) st st'
    | None \<Rightarrow> malloc2 M k st = Inr (st', brk st + hdr M) \<and> rep M st' (bs @ [\<lparr>baddr = brk st, bsize = k, bfree = False\<rparr>]) \<and>
        kept (hdrs M (bs @ [\<lparr>baddr = brk st, bsize = k, bfree = False\<rparr>])) st st'"
  by (rule malloc2_rep [OF assms])

theorem malloc2_first_fit_witness:
  "\<exists>st1 st2 st3. malloc2 demo20 10 (heap0 4096) = Inr (st1, 4116) \<and> free2 demo20 4116 st1 = Inr st2 \<and>
     malloc2 demo20 7 st2 = Inr (st3, 4116) \<and> rep demo20 st3 [\<lparr>baddr = 4096, bsize = 10, bfree = False\<rparr>]"
proof -
  obtain st1 where st1: "malloc2 demo20 10 (heap0 4096) = Inr (st1, 4116)"
    "rep demo20 st1 ([] @ \<lparr>baddr = 4096, bsize = 10, bfree = False\<rparr> # [])" using first_malloc2 by auto
  from free2_rep [OF demo20_ok this(2)] obtain st2 where st2: "free2 demo20 4116 st1 = Inr st2"
    "rep demo20 st2 [\<lparr>baddr = 4096, bsize = 10, bfree = True\<rparr>]" by (auto simp: yields_def)
  from malloc2_first_fit [OF demo20_ok this(2), of 7] st1(1) st2(1) show ?thesis by (auto simp: MAX_SIZE_def)
qed

text \<open>\<open>malloc_1\<close> hands out consecutive memory: when the kernel grants a request within bounds and the
  memory at the break is fresh, the result is the old break, the new break lies exactly the requested size
  above it and nothing else changes; a size of 0 or above the bound gives null; when the kernel refuses,
  the call reads through the pointer -1, a fault, instead of returning null.\<close>
theorem malloc1_moves_break:
  assumes "mem st (brk st) = 0"
  shows "malloc1 M sz st =
    (if sz > MAX_SIZE \<or> sz = 0 then Inr (st, 0)
     else if brk st = -1 \<or> \<not> grants M (brk st) sz then Inl (Faulted Bad_Address)
     else Inr (st\<lparr>brk := brk st + sz\<rparr>, brk st))"
  using assms by (simp add: malloc1_def sbrk_def reads_minus_one_def)

theorem malloc1_moves_break_witness:
  "malloc1 demo20 10 (heap0 4096) = Inr ((heap0 4096)\<lparr>brk := 4106\<rparr>, 4096)"
  using malloc1_moves_break [of "heap0 4096" demo20 10] by (simp add: heap0_def MAX_SIZE_def)

end
