(* ===== verification/Pc_Queue.thy ===== *)
theory Pc_Queue
  imports Prelude
begin

text \<open>
  HW3, the queue between the game and its threads: \<^verbatim>\<open>HW3/PCQueue.hpp\<close>. Any number of threads call
  \<open>push\<close> and \<open>pop\<close>; a step is one statement of one thread, in any interleaving (a test is one step with the
  branch it takes, and the test of a loop with the \<^verbatim>\<open>pthread_cond_wait\<close> that it leads to). The place of a thread
  in the code is its \<open>qpc\<close>. A thread in \<^verbatim>\<open>pthread_cond_wait\<close> has given up the lock; it is woken by a
  signal, a broadcast or spuriously, and then takes the lock again before it tests its condition again.
  \<open>pushed\<close> and \<open>popped\<close> are histories that no statement reads. Reading the front of an empty queue, or
  removing it, is the place \<open>Q_Fault\<close>.
\<close>

datatype 'a qpc =
    Q_Out
  | Push_Lock 'a | Push_Inc 'a | Push_Test 'a | Push_Blocked 'a | Push_Woken 'a | Push_Enter 'a | Push_Inside 'a
  | Push_Item 'a | Push_Leave | Push_Zero | Push_Broadcast | Push_Signal | Push_Unlock
  | Pop_Lock | Pop_Test | Pop_Blocked | Pop_Woken | Pop_Enter
  | Pop_Item | Pop_Remove 'a | Pop_Leave 'a | Pop_Zero 'a | Pop_Signal 'a | Pop_Unlock 'a
  | Q_Fault

record 'a pcq =
  items :: "'a list"
  queue_size :: int
  consumers_inside :: int
  producers_inside :: int
  producers_waiting :: int
  glock :: "nat option"
  pcs :: "nat \<Rightarrow> 'a qpc"
  pushed :: "'a list"
  popped :: "'a list"

definition pcq_new :: "'a pcq" where
  "pcq_new = \<lparr>items = [], queue_size = 0, consumers_inside = 0, producers_inside = 0, producers_waiting = 0,
     glock = None, pcs = (\<lambda>_. Q_Out), pushed = [], popped = []\<rparr>"

definition goto :: "nat \<Rightarrow> 'a qpc \<Rightarrow> 'a pcq \<Rightarrow> 'a pcq" where
  "goto t p s = s\<lparr>pcs := (pcs s)(t := p)\<rparr>"

lemma goto_sel [simp]:
  "items (goto t p s) = items s" "consumers_inside (goto t p s) = consumers_inside s"
  "producers_inside (goto t p s) = producers_inside s" "producers_waiting (goto t p s) = producers_waiting s"
  "glock (goto t p s) = glock s" "pcs (goto t p s) = (pcs s)(t := p)"
  "pushed (goto t p s) = pushed s" "popped (goto t p s) = popped s"
  by (simp_all add: goto_def)

subsection \<open>The statements\<close>

inductive producers_lock :: "nat \<Rightarrow> 'a pcq \<Rightarrow> 'a pcq \<Rightarrow> bool" for t where
  p_lock: "pcs s t = Push_Lock x \<Longrightarrow> glock s = None \<Longrightarrow> producers_lock t s (goto t (Push_Inc x) (s\<lparr>glock := Some t\<rparr>))"
| p_inc: "pcs s t = Push_Inc x \<Longrightarrow>
    producers_lock t s (goto t (Push_Test x) (s\<lparr>producers_waiting := producers_waiting s + 1\<rparr>))"
| p_wait: "pcs s t = Push_Test x \<Longrightarrow> producers_inside s + consumers_inside s > 0 \<Longrightarrow>
    producers_lock t s (goto t (Push_Blocked x) (s\<lparr>glock := None\<rparr>))"
| p_spurious: "pcs s t = Push_Blocked x \<Longrightarrow> producers_lock t s (goto t (Push_Woken x) s)"
| p_relock: "pcs s t = Push_Woken x \<Longrightarrow> glock s = None \<Longrightarrow> producers_lock t s (goto t (Push_Test x) (s\<lparr>glock := Some t\<rparr>))"
| p_pass: "pcs s t = Push_Test x \<Longrightarrow> \<not> producers_inside s + consumers_inside s > 0 \<Longrightarrow>
    producers_lock t s (goto t (Push_Enter x) s)"
| p_enter: "pcs s t = Push_Enter x \<Longrightarrow>
    producers_lock t s (goto t (Push_Inside x) (s\<lparr>producers_waiting := producers_waiting s - 1\<rparr>))"
| p_inside: "pcs s t = Push_Inside x \<Longrightarrow>
    producers_lock t s (goto t (Push_Item x) (s\<lparr>producers_inside := producers_inside s + 1\<rparr>))"

text \<open>A signal wakes one thread that waits, if there is one; a broadcast wakes all.\<close>

definition wake_readers :: "'a pcq \<Rightarrow> 'a pcq" where
  "wake_readers s = s\<lparr>pcs := (\<lambda>u. if pcs s u = Pop_Blocked then Pop_Woken else pcs s u)\<rparr>"

inductive signal_writer :: "'a pcq \<Rightarrow> 'a pcq \<Rightarrow> bool" where
  sw_one: "pcs s u = Push_Blocked x \<Longrightarrow> signal_writer s (goto u (Push_Woken x) s)"
| sw_none: "\<forall>u x. pcs s u \<noteq> Push_Blocked x \<Longrightarrow> signal_writer s s"

inductive producers_unlock :: "nat \<Rightarrow> 'a pcq \<Rightarrow> 'a pcq \<Rightarrow> bool" for t where
  u_leave: "pcs s t = Push_Leave \<Longrightarrow>
    producers_unlock t s (goto t Push_Zero (s\<lparr>producers_inside := producers_inside s - 1\<rparr>))"
| u_zero: "pcs s t = Push_Zero \<Longrightarrow>
    producers_unlock t s (goto t (if producers_inside s = 0 then Push_Broadcast else Push_Unlock) s)"
| u_broadcast: "pcs s t = Push_Broadcast \<Longrightarrow> producers_unlock t s (goto t Push_Signal (wake_readers s))"
| u_signal: "pcs s t = Push_Signal \<Longrightarrow> signal_writer s s' \<Longrightarrow> producers_unlock t s (goto t Push_Unlock s')"
| u_unlock: "pcs s t = Push_Unlock \<Longrightarrow> producers_unlock t s (goto t Q_Out (s\<lparr>glock := None\<rparr>))"

inductive consumers_lock :: "nat \<Rightarrow> 'a pcq \<Rightarrow> 'a pcq \<Rightarrow> bool" for t where
  c_lock: "pcs s t = Pop_Lock \<Longrightarrow> glock s = None \<Longrightarrow> consumers_lock t s (goto t Pop_Test (s\<lparr>glock := Some t\<rparr>))"
| c_wait: "pcs s t = Pop_Test \<Longrightarrow>
    producers_inside s \<noteq> 0 \<or> producers_waiting s \<noteq> 0 \<or> items s = [] \<or> consumers_inside s \<noteq> 0 \<Longrightarrow>
    consumers_lock t s (goto t Pop_Blocked (s\<lparr>glock := None\<rparr>))"
| c_spurious: "pcs s t = Pop_Blocked \<Longrightarrow> consumers_lock t s (goto t Pop_Woken s)"
| c_relock: "pcs s t = Pop_Woken \<Longrightarrow> glock s = None \<Longrightarrow> consumers_lock t s (goto t Pop_Test (s\<lparr>glock := Some t\<rparr>))"
| c_pass: "pcs s t = Pop_Test \<Longrightarrow>
    \<not> (producers_inside s \<noteq> 0 \<or> producers_waiting s \<noteq> 0 \<or> items s = [] \<or> consumers_inside s \<noteq> 0) \<Longrightarrow>
    consumers_lock t s (goto t Pop_Enter s)"
| c_enter: "pcs s t = Pop_Enter \<Longrightarrow>
    consumers_lock t s (goto t Pop_Item (s\<lparr>consumers_inside := consumers_inside s + 1\<rparr>))"

inductive consumers_unlock :: "nat \<Rightarrow> 'a pcq \<Rightarrow> 'a pcq \<Rightarrow> bool" for t where
  v_leave: "pcs s t = Pop_Leave x \<Longrightarrow>
    consumers_unlock t s (goto t (Pop_Zero x) (s\<lparr>consumers_inside := consumers_inside s - 1\<rparr>))"
| v_zero: "pcs s t = Pop_Zero x \<Longrightarrow>
    consumers_unlock t s (goto t (if consumers_inside s = 0 then Pop_Signal x else Pop_Unlock x) s)"
| v_signal: "pcs s t = Pop_Signal x \<Longrightarrow> signal_writer s s' \<Longrightarrow> consumers_unlock t s (goto t (Pop_Unlock x) s')"
| v_unlock: "pcs s t = Pop_Unlock x \<Longrightarrow> consumers_unlock t s (goto t Q_Out (s\<lparr>glock := None\<rparr>))"

text \<open>The bodies of \<open>push\<close> and \<open>pop\<close>, and the calls.\<close>

inductive push_step :: "nat \<Rightarrow> 'a pcq \<Rightarrow> 'a pcq \<Rightarrow> bool" for t where
  push_call: "pcs s t = Q_Out \<Longrightarrow> push_step t s (goto t (Push_Lock x) s)"
| push_lock: "producers_lock t s s' \<Longrightarrow> push_step t s s'"
| push_item: "pcs s t = Push_Item x \<Longrightarrow>
    push_step t s (goto t Push_Leave (s\<lparr>items := items s @ [x], pushed := pushed s @ [x]\<rparr>))"
| push_unlock: "producers_unlock t s s' \<Longrightarrow> push_step t s s'"

inductive pop_step :: "nat \<Rightarrow> 'a pcq \<Rightarrow> 'a pcq \<Rightarrow> bool" for t where
  pop_call: "pcs s t = Q_Out \<Longrightarrow> pop_step t s (goto t Pop_Lock s)"
| pop_lock: "consumers_lock t s s' \<Longrightarrow> pop_step t s s'"
| pop_front: "pcs s t = Pop_Item \<Longrightarrow> items s = x # xs \<Longrightarrow> pop_step t s (goto t (Pop_Remove x) s)"
| pop_item: "pcs s t = Pop_Remove x \<Longrightarrow> items s = y # xs \<Longrightarrow>
    pop_step t s (goto t (Pop_Leave x) (s\<lparr>items := xs, popped := popped s @ [x]\<rparr>))"
| pop_fault: "pcs s t = Pop_Item \<or> pcs s t = Pop_Remove x \<Longrightarrow> items s = [] \<Longrightarrow> pop_step t s (goto t Q_Fault s)"
| pop_unlock: "consumers_unlock t s s' \<Longrightarrow> pop_step t s s'"

definition qstep :: "nat \<Rightarrow> 'a pcq \<Rightarrow> 'a pcq \<Rightarrow> bool" where
  "qstep t s s' \<longleftrightarrow> push_step t s s' \<or> pop_step t s s'"

text \<open>\<open>queue_size\<close> has operations of its own, under another lock.\<close>

definition increase_size :: "'a pcq \<Rightarrow> 'a pcq" where "increase_size s = s\<lparr>queue_size := queue_size s + 1\<rparr>"
definition decrease_size :: "'a pcq \<Rightarrow> 'a pcq" where "decrease_size s = s\<lparr>queue_size := queue_size s - 1\<rparr>"
definition get_size :: "'a pcq \<Rightarrow> int" where "get_size s = queue_size s"

inductive qreach :: "'a pcq \<Rightarrow> bool" where
  qreach_new: "qreach pcq_new"
| qreach_step: "qreach s \<Longrightarrow> qstep t s s' \<Longrightarrow> qreach s'"

inductive_cases producers_lockE: "producers_lock t s s'"
inductive_cases producers_unlockE: "producers_unlock t s s'"
inductive_cases consumers_lockE: "consumers_lock t s s'"
inductive_cases consumers_unlockE: "consumers_unlock t s s'"
inductive_cases signal_writerE: "signal_writer s s'"
inductive_cases push_stepE: "push_step t s s'"
inductive_cases pop_stepE: "pop_step t s s'"

end
