(* ===== verification/Pc_Queue_Inv.thy ===== *)
theory Pc_Queue_Inv
  imports Pc_Queue
begin

text \<open>
  HW3, the invariant of the queue: the lock is held by the one thread that is between taking and releasing
  it, the counters say where that thread is, the items are what was pushed and not yet popped, and when
  items are there, a waiting reader is about to be woken. No writer ever waits on the condition.
\<close>

fun holds :: "'a qpc \<Rightarrow> bool" where
  "holds Q_Out = False" | "holds (Push_Lock x) = False" | "holds (Push_Blocked x) = False" | "holds (Push_Woken x) = False"
| "holds Pop_Lock = False" | "holds Pop_Blocked = False" | "holds Pop_Woken = False" | "holds p = True"

definition holder_pc :: "'a pcq \<Rightarrow> 'a qpc" where
  "holder_pc s = (case glock s of None \<Rightarrow> Q_Out | Some t \<Rightarrow> pcs s t)"

fun writer_waits :: "'a qpc \<Rightarrow> int" where
  "writer_waits (Push_Test x) = 1" | "writer_waits (Push_Enter x) = 1" | "writer_waits p = 0"

fun writer_in :: "'a qpc \<Rightarrow> int" where
  "writer_in (Push_Item x) = 1" | "writer_in Push_Leave = 1" | "writer_in p = 0"

fun reader_in :: "'a qpc \<Rightarrow> int" where
  "reader_in Pop_Item = 1" | "reader_in (Pop_Remove x) = 1" | "reader_in (Pop_Leave x) = 1" | "reader_in p = 0"

fun never :: "'a qpc \<Rightarrow> bool" where
  "never (Push_Blocked x) = True" | "never (Push_Woken x) = True" | "never Q_Fault = True" | "never p = False"

definition waking :: "'a qpc \<Rightarrow> bool" where "waking p \<longleftrightarrow> p = Push_Leave \<or> p = Push_Zero \<or> p = Push_Broadcast"

definition reading :: "'a qpc \<Rightarrow> bool" where "reading p \<longleftrightarrow> p = Pop_Enter \<or> p = Pop_Item"

text \<open>What a reader has read is still the first item when it removes it.\<close>

fun has_front :: "'a qpc \<Rightarrow> 'a list \<Rightarrow> bool" where
  "has_front (Pop_Remove x) xs = (\<exists>ys. xs = x # ys)" | "has_front p xs = True"

definition qinv :: "'a pcq \<Rightarrow> bool" where
  "qinv s \<longleftrightarrow> (\<forall>t. holds (pcs s t) \<longleftrightarrow> glock s = Some t) \<and>
     producers_waiting s = writer_waits (holder_pc s) \<and> producers_inside s = writer_in (holder_pc s) \<and>
     consumers_inside s = reader_in (holder_pc s) \<and> (\<forall>t. \<not> never (pcs s t)) \<and>
     pushed s = popped s @ items s \<and> (reading (holder_pc s) \<longrightarrow> items s \<noteq> []) \<and>
     has_front (holder_pc s) (items s) \<and>
     (items s \<noteq> [] \<longrightarrow> (\<exists>t. pcs s t = Pop_Blocked) \<longrightarrow> waking (holder_pc s))"

lemma qinv_new: "qinv pcq_new"
  by (simp add: qinv_def pcq_new_def holder_pc_def reading_def)

text \<open>The step of a thread that holds the lock, and of one that does not.\<close>

lemma qinv_holder: "qinv s \<Longrightarrow> holds (pcs s t) \<Longrightarrow> glock s = Some t \<and> holder_pc s = pcs s t"
  by (simp add: qinv_def holder_pc_def)

lemma qinv_not: "qinv s \<Longrightarrow> \<not> never (pcs s t)"
  by (simp add: qinv_def)

lemma signal_none:
  assumes "qinv s" "signal_writer s s'"
  shows "s' = s"
  using assms(2)
proof cases
  case (sw_one u x)
  with qinv_not [OF assms(1), of u] show ?thesis by simp
qed

text \<open>A thread outside the lock moves to another place outside the lock.\<close>

lemma qinv_outside:
  assumes "qinv s" "\<not> holds (pcs s t)" "\<not> holds p" "\<not> never p" "p = Pop_Blocked \<Longrightarrow> pcs s t = Pop_Blocked"
  shows "qinv (goto t p s)"
proof -
  have "glock s \<noteq> Some t" using assms(1,2) by (auto simp: qinv_def)
  then have "holder_pc (goto t p s) = holder_pc s" by (auto simp: holder_pc_def split: option.split)
  with assms show ?thesis by (auto simp: qinv_def)
qed

text \<open>A thread takes the lock.\<close>

lemma qinv_lock:
  assumes "qinv s" "glock s = None" "holds p" "\<not> reading p" "has_front p (items s)" "\<not> never p" "pcs s t \<noteq> Pop_Blocked"
    "writer_waits p = 0" "writer_in p = 0" "reader_in p = 0"
  shows "qinv (goto t p (s\<lparr>glock := Some t\<rparr>))"
proof -
  have "holder_pc s = Q_Out" using assms(2) by (simp add: holder_pc_def)
  moreover have "holder_pc (goto t p (s\<lparr>glock := Some t\<rparr>)) = p" by (simp add: holder_pc_def)
  ultimately show ?thesis using assms by (auto simp: qinv_def waking_def)
qed

text \<open>The thread that holds the lock moves on under it, to a state that agrees with its new place.\<close>

lemma qinv_inside:
  assumes "qinv s" "holds (pcs s t)" "holds p" "\<not> never p"
    and "pcs s' = (pcs r)(t := p)" "\<And>u. u \<noteq> t \<Longrightarrow> pcs r u = pcs s u \<or> pcs s u = Pop_Blocked \<and> pcs r u = Pop_Woken"
    and "glock s' = glock s" "producers_waiting s' = writer_waits p" "producers_inside s' = writer_in p"
    "consumers_inside s' = reader_in p" "pushed s' = popped s' @ items s'" "reading p \<Longrightarrow> items s' \<noteq> []" "has_front p (items s')"
    "items s' \<noteq> [] \<Longrightarrow> \<exists>u. u \<noteq> t \<and> pcs r u = Pop_Blocked \<Longrightarrow> waking p"
  shows "qinv s'"
proof -
  have g: "glock s = Some t" "holder_pc s = pcs s t" using qinv_holder [OF assms(1,2)] by simp_all
  then have "holder_pc s' = p" using assms(5,7) by (simp add: holder_pc_def)
  moreover have "holds (pcs r u) = holds (pcs s u)" "never (pcs r u) \<longrightarrow> never (pcs s u)" if "u \<noteq> t" for u
    using assms(6) [OF that] by auto
  moreover have "p \<noteq> Pop_Blocked" using assms(3) by auto
  ultimately show ?thesis using assms g by (auto simp: qinv_def split: if_splits)
qed

text \<open>It releases the lock.\<close>

lemma qinv_release:
  assumes "qinv s" "holds (pcs s t)" "\<not> holds p" "\<not> never p"
    "writer_waits (pcs s t) = 0" "writer_in (pcs s t) = 0" "reader_in (pcs s t) = 0" "\<not> waking (pcs s t)"
    "p = Pop_Blocked \<Longrightarrow> items s = []"
  shows "qinv (goto t p (s\<lparr>glock := None\<rparr>))"
proof -
  have g: "glock s = Some t" "holder_pc s = pcs s t" using qinv_holder [OF assms(1,2)] by simp_all
  have "holder_pc (goto t p (s\<lparr>glock := None\<rparr>)) = Q_Out" by (simp add: holder_pc_def)
  then show ?thesis using assms g by (auto simp: qinv_def reading_def)
qed

lemma qinv_counters:
  assumes "qinv s" "holds (pcs s t)"
  shows "producers_waiting s = writer_waits (pcs s t)" "producers_inside s = writer_in (pcs s t)"
    "consumers_inside s = reader_in (pcs s t)" "pushed s = popped s @ items s"
    "reading (pcs s t) \<Longrightarrow> items s \<noteq> []" "has_front (pcs s t) (items s)" "items s \<noteq> [] \<Longrightarrow> pcs s u = Pop_Blocked \<Longrightarrow> waking (pcs s t)"
  using assms(1) qinv_holder [OF assms] unfolding qinv_def by metis+

lemmas place_defs = waking_def reading_def

lemma producers_lock_qinv:
  assumes "qinv s" "producers_lock t s s'"
  shows "qinv s'"
  using assms(2)
proof cases
  case (p_lock x)
  with assms(1) show ?thesis by (auto simp: place_defs intro!: qinv_lock)
next
  case (p_inc x)
  with qinv_counters [OF assms(1), of t] show ?thesis
    by (auto simp: place_defs intro!: qinv_inside [OF assms(1), of t "Push_Test x" _ s])
next
  case (p_wait x)
  with qinv_counters [OF assms(1), of t] show ?thesis by simp
next
  case (p_spurious x)
  with qinv_not [OF assms(1), of t] show ?thesis by simp
next
  case (p_relock x)
  with qinv_not [OF assms(1), of t] show ?thesis by simp
next
  case (p_pass x)
  with qinv_counters [OF assms(1), of t] show ?thesis
    by (auto simp: place_defs intro!: qinv_inside [OF assms(1), of t "Push_Enter x" _ s])
next
  case (p_enter x)
  with qinv_counters [OF assms(1), of t] show ?thesis
    by (auto simp: place_defs intro!: qinv_inside [OF assms(1), of t "Push_Inside x" _ s])
next
  case (p_inside x)
  with qinv_counters [OF assms(1), of t] show ?thesis
    by (auto simp: place_defs intro!: qinv_inside [OF assms(1), of t "Push_Item x" _ s])
qed

lemma producers_unlock_qinv:
  assumes "qinv s" "producers_unlock t s s'"
  shows "qinv s'"
  using assms(2)
proof cases
  case u_leave
  with qinv_counters [OF assms(1), of t] show ?thesis
    by (auto simp: place_defs intro!: qinv_inside [OF assms(1), of t Push_Zero _ s])
next
  case u_zero
  with qinv_counters [OF assms(1), of t] show ?thesis
    by (auto simp: place_defs intro!: qinv_inside [OF assms(1), of t Push_Broadcast _ s])
next
  case u_broadcast
  with qinv_counters [OF assms(1), of t] show ?thesis
    by (auto simp: place_defs wake_readers_def split: if_splits intro!: qinv_inside [OF assms(1), of t Push_Signal _ "wake_readers s"])
next
  case (u_signal r)
  with signal_none [OF assms(1) u_signal(3)] qinv_counters [OF assms(1), of t] show ?thesis
    by (auto simp: place_defs intro!: qinv_inside [OF assms(1), of t Push_Unlock _ s])
next
  case u_unlock
  with assms(1) show ?thesis by (auto simp: place_defs intro!: qinv_release)
qed

lemma consumers_lock_qinv:
  assumes "qinv s" "consumers_lock t s s'"
  shows "qinv s'"
  using assms(2)
proof cases
  case c_lock
  with assms(1) show ?thesis by (auto simp: place_defs intro!: qinv_lock)
next
  case c_wait
  with qinv_counters [OF assms(1), of t] assms(1) show ?thesis by (auto simp: place_defs intro!: qinv_release)
next
  case c_spurious
  with assms(1) show ?thesis by (auto intro!: qinv_outside)
next
  case c_relock
  with assms(1) show ?thesis by (auto simp: place_defs intro!: qinv_lock)
next
  case c_pass
  with qinv_counters [OF assms(1), of t] show ?thesis
    by (auto simp: place_defs intro!: qinv_inside [OF assms(1), of t Pop_Enter _ s])
next
  case c_enter
  with qinv_counters [OF assms(1), of t] show ?thesis
    by (auto simp: place_defs intro!: qinv_inside [OF assms(1), of t Pop_Item _ s])
qed

lemma consumers_unlock_qinv:
  assumes "qinv s" "consumers_unlock t s s'"
  shows "qinv s'"
  using assms(2)
proof cases
  case (v_leave x)
  with qinv_counters [OF assms(1), of t] show ?thesis
    by (auto simp: place_defs intro!: qinv_inside [OF assms(1), of t "Pop_Zero x" _ s])
next
  case (v_zero x)
  with qinv_counters [OF assms(1), of t] show ?thesis
    by (auto simp: place_defs intro!: qinv_inside [OF assms(1), of t "Pop_Signal x" _ s])
next
  case (v_signal x r)
  with signal_none [OF assms(1) v_signal(3)] qinv_counters [OF assms(1), of t] show ?thesis
    by (auto simp: place_defs intro!: qinv_inside [OF assms(1), of t "Pop_Unlock x" _ s])
next
  case (v_unlock x)
  with assms(1) show ?thesis by (auto simp: place_defs intro!: qinv_release)
qed

lemma push_qinv:
  assumes "qinv s" "push_step t s s'"
  shows "qinv s'"
  using assms(2)
proof cases
  case (push_call x)
  with assms(1) show ?thesis by (auto intro!: qinv_outside)
next
  case (push_item x)
  with qinv_counters [OF assms(1), of t] show ?thesis
    by (auto simp: place_defs intro!: qinv_inside [OF assms(1), of t Push_Leave _ s])
qed (use assms(1) producers_lock_qinv producers_unlock_qinv in blast)+

lemma pop_qinv:
  assumes "qinv s" "pop_step t s s'"
  shows "qinv s'"
  using assms(2)
proof cases
  case pop_call
  with assms(1) show ?thesis by (auto intro!: qinv_outside)
next
  case (pop_front x xs)
  with qinv_counters [OF assms(1), of t] show ?thesis
    by (auto simp: place_defs intro!: qinv_inside [OF assms(1), of t "Pop_Remove x" _ s])
next
  case (pop_item x y xs)
  with qinv_counters [OF assms(1), of t] show ?thesis
    by (auto simp: place_defs intro!: qinv_inside [OF assms(1), of t "Pop_Leave x" _ s])
next
  case (pop_fault x)
  then have "holds (pcs s t)" by auto
  with pop_fault qinv_counters(5,6) [OF assms(1), of t] show ?thesis by (auto simp: place_defs)
qed (use assms(1) consumers_lock_qinv consumers_unlock_qinv in blast)+

lemma qstep_qinv: "qinv s \<Longrightarrow> qstep t s s' \<Longrightarrow> qinv s'"
  unfolding qstep_def using push_qinv pop_qinv by blast

lemma qreach_qinv: "qreach s \<Longrightarrow> qinv s"
  by (induction rule: qreach.induct) (auto intro: qinv_new qstep_qinv)

end
