(* ===== verification/Pc_Queue_Props.thy ===== *)
theory Pc_Queue_Props
  imports Pc_Queue_Inv
begin

text \<open>
  HW3, the queue as its callers see it: each \<open>push\<close> and each \<open>pop\<close> takes effect at one moment between
  its call and its return (\<open>astep\<close> is the queue with atomic operations), it is first in first out, and it
  has no deadlock and no lost wake-up.
\<close>

datatype 'a acall = A_None | A_Push 'a | A_Pushed | A_Pop | A_Popped 'a

record 'a aqueue =
  aitems :: "'a list"
  acalls :: "nat \<Rightarrow> 'a acall"

inductive astep :: "nat \<Rightarrow> 'a aqueue \<Rightarrow> 'a aqueue \<Rightarrow> bool" for t where
  a_call_push: "acalls a t = A_None \<Longrightarrow> astep t a (a\<lparr>acalls := (acalls a)(t := A_Push x)\<rparr>)"
| a_push: "acalls a t = A_Push x \<Longrightarrow> astep t a (a\<lparr>aitems := aitems a @ [x], acalls := (acalls a)(t := A_Pushed)\<rparr>)"
| a_return: "acalls a t = A_Pushed \<Longrightarrow> astep t a (a\<lparr>acalls := (acalls a)(t := A_None)\<rparr>)"
| a_call_pop: "acalls a t = A_None \<Longrightarrow> astep t a (a\<lparr>acalls := (acalls a)(t := A_Pop)\<rparr>)"
| a_pop: "acalls a t = A_Pop \<Longrightarrow> aitems a = x # xs \<Longrightarrow> astep t a (a\<lparr>aitems := xs, acalls := (acalls a)(t := A_Popped x)\<rparr>)"
| a_return_pop: "acalls a t = A_Popped x \<Longrightarrow> astep t a (a\<lparr>acalls := (acalls a)(t := A_None)\<rparr>)"

fun abs_pc :: "'a qpc \<Rightarrow> 'a acall" where
  "abs_pc Q_Out = A_None" | "abs_pc Q_Fault = A_None"
| "abs_pc (Push_Lock x) = A_Push x" | "abs_pc (Push_Inc x) = A_Push x" | "abs_pc (Push_Test x) = A_Push x"
| "abs_pc (Push_Blocked x) = A_Push x" | "abs_pc (Push_Woken x) = A_Push x" | "abs_pc (Push_Enter x) = A_Push x"
| "abs_pc (Push_Inside x) = A_Push x"
| "abs_pc (Push_Item x) = A_Push x"
| "abs_pc Push_Leave = A_Pushed" | "abs_pc Push_Zero = A_Pushed" | "abs_pc Push_Broadcast = A_Pushed" | "abs_pc Push_Signal = A_Pushed"
| "abs_pc Push_Unlock = A_Pushed"
| "abs_pc (Pop_Leave x) = A_Popped x" | "abs_pc (Pop_Zero x) = A_Popped x" | "abs_pc (Pop_Signal x) = A_Popped x" | "abs_pc (Pop_Unlock x) = A_Popped x"
| "abs_pc p = A_Pop"

definition abs_q :: "'a pcq \<Rightarrow> 'a aqueue" where
  "abs_q s = \<lparr>aitems = items s, acalls = (\<lambda>t. abs_pc (pcs s t))\<rparr>"

lemma abs_goto [simp]: "abs_q (goto t p s) = (abs_q s)\<lparr>acalls := (acalls (abs_q s))(t := abs_pc p)\<rparr>"
  by (auto simp: abs_q_def goto_def)

lemma abs_same: "abs_pc p = abs_pc (pcs s t) \<Longrightarrow> abs_q (goto t p s) = abs_q s"
  by (auto simp: abs_q_def goto_def)

lemma abs_sel [simp]: "acalls (abs_q s) t = abs_pc (pcs s t)" "aitems (abs_q s) = items s"
  by (simp_all add: abs_q_def)

lemma abs_fields [simp]:
  "abs_q (s\<lparr>glock := g\<rparr>) = abs_q s" "abs_q (s\<lparr>producers_waiting := n\<rparr>) = abs_q s"
  "abs_q (s\<lparr>producers_inside := n\<rparr>) = abs_q s" "abs_q (s\<lparr>consumers_inside := n\<rparr>) = abs_q s"
  "abs_q (s\<lparr>pushed := xs\<rparr>) = abs_q s" "abs_q (s\<lparr>popped := xs\<rparr>) = abs_q s"
  "abs_q (s\<lparr>items := xs\<rparr>) = (abs_q s)\<lparr>aitems := xs\<rparr>" "abs_q (wake_readers s) = abs_q s"
  by (auto simp: abs_q_def wake_readers_def)

lemma lock_abs:
  "producers_lock t s s' \<Longrightarrow> abs_q s' = abs_q s" "consumers_lock t s s' \<Longrightarrow> abs_q s' = abs_q s"
  by (erule producers_lockE consumers_lockE; simp add: abs_same del: abs_goto)+

lemma signal_abs: "qinv s \<Longrightarrow> signal_writer s s' \<Longrightarrow> abs_q s' = abs_q s"
  using signal_none by blast

lemma producers_unlock_abs:
  assumes "qinv s" "producers_unlock t s s'"
  shows "abs_q s' = abs_q s \<or> astep t (abs_q s) (abs_q s')"
  using assms(2)
proof cases
  case u_unlock
  then show ?thesis using a_return [of "abs_q s" t] by simp
next
  case (u_signal r)
  then show ?thesis using signal_none [OF assms(1) u_signal(3)] by (simp add: abs_same del: abs_goto)
qed (simp_all add: abs_same wake_readers_def abs_q_def goto_def fun_eq_iff)

lemma consumers_unlock_abs:
  assumes "qinv s" "consumers_unlock t s s'"
  shows "abs_q s' = abs_q s \<or> astep t (abs_q s) (abs_q s')"
  using assms(2)
proof cases
  case (v_unlock x)
  then show ?thesis using a_return_pop [of "abs_q s" t x] by simp
next
  case (v_signal x r)
  then show ?thesis using signal_none [OF assms(1) v_signal(3)] by (simp add: abs_same del: abs_goto)
qed (simp_all add: abs_same del: abs_goto)

lemma push_abs:
  assumes "qinv s" "push_step t s s'"
  shows "abs_q s' = abs_q s \<or> astep t (abs_q s) (abs_q s')"
  using assms(2)
proof cases
  case (push_call x)
  then show ?thesis using a_call_push [of "abs_q s" t x] by simp
next
  case (push_item x)
  then show ?thesis using a_push [of "abs_q s" t x] by simp
qed (use assms(1) lock_abs producers_unlock_abs in blast)+

lemma pop_abs:
  assumes "qinv s" "pop_step t s s'"
  shows "abs_q s' = abs_q s \<or> astep t (abs_q s) (abs_q s')"
  using assms(2)
proof cases
  case pop_call
  then show ?thesis using a_call_pop [of "abs_q s" t] by simp
next
  case (pop_front x xs)
  then show ?thesis by (simp add: abs_same del: abs_goto)
next
  case (pop_item x y xs)
  then have "y = x" using qinv_counters(6) [OF assms(1), of t] by simp
  with pop_item show ?thesis using a_pop [of "abs_q s" t x xs] by simp
next
  case (pop_fault x)
  then have "holds (pcs s t)" by auto
  with pop_fault qinv_counters(5,6) [OF assms(1), of t] show ?thesis by (auto simp: place_defs)
qed (use assms(1) lock_abs consumers_unlock_abs in blast)+

text \<open>A thread that is neither out of the queue nor in \<^verbatim>\<open>pthread_cond_wait\<close> moves by a statement of its own.\<close>

definition moves :: "'a qpc \<Rightarrow> bool" where "moves p \<longleftrightarrow> p \<noteq> Q_Out \<and> p \<noteq> Pop_Blocked"

lemma holder_moves:
  assumes i: "qinv s" and h: "holds (pcs s t)"
  shows "\<exists>s'. qstep t s s'"
proof -
  have sw: "signal_writer s s" using qinv_not [OF i] by (intro sw_none) (metis never.simps(1))
  show ?thesis
  proof (cases "pcs s t")
    case (Push_Test x)
    then show ?thesis using p_wait p_pass by (metis push_lock qstep_def)
  next
    case Pop_Test
    then show ?thesis using c_wait c_pass by (metis pop_lock qstep_def)
  next
    case Pop_Item
    then show ?thesis using pop_front pop_fault by (metis neq_Nil_conv qstep_def)
  next
    case (Pop_Remove x)
    then show ?thesis using pop_item pop_fault by (metis neq_Nil_conv qstep_def)
  next
    case Q_Fault
    with qinv_not [OF i, of t] show ?thesis by simp
  next
    case Push_Signal
    then show ?thesis using u_signal [OF _ sw] push_unlock by (metis qstep_def)
  next
    case (Pop_Signal x)
    then show ?thesis using v_signal [OF _ sw] pop_unlock by (metis qstep_def)
  qed (use h in \<open>auto simp: qstep_def intro: push_step.intros pop_step.intros producers_lock.intros
    producers_unlock.intros consumers_lock.intros consumers_unlock.intros\<close>)
qed

lemma free_lock_moves:
  assumes "qinv s" "glock s = None" "moves (pcs s t)"
  shows "\<exists>s'. qstep t s s'"
proof -
  have "\<not> holds (pcs s t)" "\<not> never (pcs s t)" using assms(1,2) by (simp_all add: qinv_def)
  with assms(2,3) show ?thesis
    by (cases "pcs s t") (auto simp: moves_def qstep_def intro: push_step.intros pop_step.intros producers_lock.intros
      consumers_lock.intros)
qed

lemma someone_moves:
  assumes i: "qinv s" and t: "pcs s t \<noteq> Q_Out" "pcs s t = Pop_Blocked \<Longrightarrow> items s \<noteq> []"
  shows "\<exists>u s'. moves (pcs s u) \<and> qstep u s s'"
proof (cases "glock s")
  case None
  then have "\<not> waking (holder_pc s)" by (simp add: holder_pc_def waking_def)
  with i t have "moves (pcs s t)" by (auto simp: qinv_def moves_def)
  with free_lock_moves [OF i None] show ?thesis by blast
next
  case (Some u)
  with i have "holds (pcs s u)" by (simp add: qinv_def)
  moreover from this have "moves (pcs s u)" by (auto simp: moves_def)
  ultimately show ?thesis using holder_moves [OF i] by blast
qed

subsection \<open>The properties\<close>

text \<open>C24: In every state that any number of threads calling \<open>push\<close> and \<open>pop\<close> can reach, in any interleaving of
  their statements and with spurious wake-ups: what was popped, followed by what is in the queue, is what was
  pushed, in that order; at most one thread is inside the lock; no thread reads the front of an empty queue; and
  no writer ever waits on the condition variable.\<close>
theorem queue_fifo_exclusive:
  assumes "qreach s"
  shows "pushed s = popped s @ items s \<and> (\<forall>t u. holds (pcs s t) \<longrightarrow> holds (pcs s u) \<longrightarrow> t = u) \<and>
    (\<forall>t. pcs s t \<noteq> Q_Fault \<and> (\<forall>x. pcs s t \<noteq> Push_Blocked x))"
proof -
  have i: "qinv s" by (rule qreach_qinv [OF assms])
  have "t = u" if "holds (pcs s t)" "holds (pcs s u)" for t u
    using qinv_holder [OF i that(1)] qinv_holder [OF i that(2)] by simp
  moreover have "pcs s t \<noteq> Q_Fault \<and> (\<forall>x. pcs s t \<noteq> Push_Blocked x)" for t using qinv_not [OF i, of t] by auto
  ultimately show ?thesis using i by (auto simp: qinv_def)
qed

text \<open>A run: thread 0 pushes 7, thread 1 is at \<open>pop\<close>.\<close>

lemma demo_queue:
  "\<exists>s :: nat pcq. qreach s \<and> items s = [7] \<and> pcs s 0 = Push_Leave \<and> pcs s 1 = Pop_Lock \<and> pushed s = [7]"
proof -
  note n = pcq_new_def goto_def
  let ?s1 = "goto 0 (Push_Lock (7 :: nat)) pcq_new"
  let ?s2 = "goto 0 (Push_Inc 7) (?s1\<lparr>glock := Some 0\<rparr>)"
  let ?s3 = "goto 0 (Push_Test 7) (?s2\<lparr>producers_waiting := producers_waiting ?s2 + 1\<rparr>)"
  let ?s4 = "goto 0 (Push_Enter 7) ?s3"
  let ?s4' = "goto 0 (Push_Inside 7) (?s4\<lparr>producers_waiting := producers_waiting ?s4 - 1\<rparr>)"
  let ?s5 = "goto 0 (Push_Item 7) (?s4'\<lparr>producers_inside := producers_inside ?s4' + 1\<rparr>)"
  let ?s6 = "goto 0 Push_Leave (?s5\<lparr>items := items ?s5 @ [7], pushed := pushed ?s5 @ [7]\<rparr>)"
  let ?s7 = "goto 1 Pop_Lock ?s6"
  have "qstep 0 pcq_new ?s1" unfolding qstep_def by (intro disjI1 push_call) (simp add: n)
  moreover have "qstep 0 ?s1 ?s2" unfolding qstep_def by (intro disjI1 push_lock p_lock) (simp_all add: n)
  moreover have "qstep 0 ?s2 ?s3" unfolding qstep_def by (intro disjI1 push_lock p_inc) (simp_all add: n)
  moreover have "qstep 0 ?s3 ?s4" unfolding qstep_def by (intro disjI1 push_lock p_pass) (simp_all add: n)
  moreover have "qstep 0 ?s4 ?s4'" unfolding qstep_def by (intro disjI1 push_lock p_enter) (simp_all add: n)
  moreover have "qstep 0 ?s4' ?s5" unfolding qstep_def by (intro disjI1 push_lock p_inside) (simp_all add: n)
  moreover have "qstep 0 ?s5 ?s6" unfolding qstep_def by (intro disjI1 push_item) (simp_all add: n)
  moreover have "qstep 1 ?s6 ?s7" unfolding qstep_def by (intro disjI2 pop_call) (simp_all add: n)
  ultimately have "qreach ?s7" using qreach_new qreach_step by meson
  then show ?thesis by (intro exI [of _ ?s7]) (simp add: n)
qed

theorem queue_fifo_exclusive_witness:
  "\<exists>s :: nat pcq. qreach s \<and> items s = [7] \<and> holds (pcs s 0) \<and> \<not> holds (pcs s 1) \<and> popped s = []"
proof -
  obtain s :: "nat pcq" where s: "qreach s" "items s = [7]" "pcs s 0 = Push_Leave" "pcs s 1 = Pop_Lock" "pushed s = [7]"
    using demo_queue by blast
  with queue_fifo_exclusive [OF s(1)] show ?thesis by (intro exI [of _ s]) auto
qed

text \<open>C23: The queue refines a queue with atomic operations: every statement of a thread either changes nothing
  its callers can see or is one step of the atomic queue by the same thread, that is a call, the moment at
  which the item is appended or taken from the front, or the return with that item.\<close>
theorem queue_linearizable:
  assumes "qreach s" and "qstep t s s'"
  shows "abs_q s' = abs_q s \<or> astep t (abs_q s) (abs_q s')"
  using assms(2) push_abs pop_abs qreach_qinv [OF assms(1)] unfolding qstep_def by blast

theorem queue_linearizable_witness:
  "\<exists>s s' :: nat pcq. qreach s \<and> qstep 2 s s' \<and> abs_q s' \<noteq> abs_q s \<and> astep 2 (abs_q s) (abs_q s')"
proof -
  let ?s' = "goto 2 (Push_Lock (5 :: nat)) pcq_new"
  have q: "qstep 2 pcq_new ?s'" unfolding qstep_def by (intro disjI1 push_call) (simp add: pcq_new_def)
  have "acalls (abs_q ?s') 2 \<noteq> acalls (abs_q pcq_new) 2" by (simp add: pcq_new_def)
  then have "abs_q ?s' \<noteq> abs_q pcq_new" by metis
  with queue_linearizable [OF qreach_new q] q qreach_new show ?thesis by blast
qed

text \<open>C25: No deadlock and no lost wake-up: whenever a thread is inside \<open>push\<close> or \<open>pop\<close>, and it is not a reader
  that waits while the queue is empty, some thread can execute a statement, without any spurious wake-up.\<close>
theorem queue_never_stuck:
  assumes "qreach s" and "pcs s t \<noteq> Q_Out" and "pcs s t = Pop_Blocked \<Longrightarrow> items s \<noteq> []"
  shows "\<exists>u s'. pcs s u \<noteq> Q_Out \<and> pcs s u \<noteq> Pop_Blocked \<and> qstep u s s'"
  using someone_moves [OF qreach_qinv [OF assms(1)] assms(2,3)] by (auto simp: moves_def)

theorem queue_never_stuck_witness:
  "\<exists>(s :: nat pcq) u s'. qreach s \<and> pcs s 1 = Pop_Lock \<and> pcs s u \<noteq> Q_Out \<and> qstep u s s'"
proof -
  obtain s :: "nat pcq" where s: "qreach s" "pcs s 1 = Pop_Lock" using demo_queue by blast
  with queue_never_stuck [OF s(1), of 1] show ?thesis by auto
qed

end
