(* ===== verification/Semaphores.thy ===== *)
theory Semaphores
  imports Prelude
begin

text \<open>
  HW3, \<^verbatim>\<open>HW3/Semaphore.cpp\<close>: a counting semaphore from a mutex and a condition variable, one step for one
  statement of one thread, as in \<open>Pc_Queue\<close>. \<open>sem_ready\<close> says whether the mutex and the condition variable
  of the object are initialised; the constructor with a value only initialises those of a temporary
  object. \<open>ups\<close> and \<open>downs\<close> count the increments and decrements; no statement reads them. The value is a C
  \<^verbatim>\<open>int\<close> that is incremented without a check: the increment of the largest \<^verbatim>\<open>int\<close> is undefined, and the thread
  that comes to it stops in \<open>S_Overflow\<close>, with the mutex.
\<close>

datatype spc =
    S_Out | Up_Lock | Up_Inc | Up_Signal | Up_Unlock
  | Down_Lock | Down_Test | Down_Blocked | Down_Woken | Down_Dec | Down_Unlock
  | S_Overflow | S_Fault

definition INT_MAX :: int where "INT_MAX = 2 ^ 31 - 1"

record sem =
  sem_value :: int
  sem_ready :: bool
  sem_lock :: "nat option"
  spcs :: "nat \<Rightarrow> spc"
  ups :: int
  downs :: int

definition Semaphore :: sem where
  "Semaphore = \<lparr>sem_value = 0, sem_ready = True, sem_lock = None, spcs = (\<lambda>_. S_Out), ups = 0, downs = 0\<rparr>"

text \<open>\<^verbatim>\<open>Semaphore();\<close> in the body builds and drops another object; only \<open>sem_value\<close> is set.\<close>

definition Semaphore_val :: "int \<Rightarrow> sem" where
  "Semaphore_val val = \<lparr>sem_value = val, sem_ready = False, sem_lock = None, spcs = (\<lambda>_. S_Out), ups = 0, downs = 0\<rparr>"

definition sgoto :: "nat \<Rightarrow> spc \<Rightarrow> sem \<Rightarrow> sem" where
  "sgoto t p s = s\<lparr>spcs := (spcs s)(t := p)\<rparr>"

lemma sgoto_sel [simp]:
  "sem_value (sgoto t p s) = sem_value s" "sem_ready (sgoto t p s) = sem_ready s" "sem_lock (sgoto t p s) = sem_lock s"
  "spcs (sgoto t p s) = (spcs s)(t := p)" "ups (sgoto t p s) = ups s" "downs (sgoto t p s) = downs s"
  by (simp_all add: sgoto_def)

inductive sem_up :: "nat \<Rightarrow> sem \<Rightarrow> sem \<Rightarrow> bool" for t where
  up_call: "spcs s t = S_Out \<Longrightarrow> sem_up t s (sgoto t Up_Lock s)"
| up_fault: "spcs s t = Up_Lock \<Longrightarrow> \<not> sem_ready s \<Longrightarrow> sem_up t s (sgoto t S_Fault s)"
| up_lock: "spcs s t = Up_Lock \<Longrightarrow> sem_ready s \<Longrightarrow> sem_lock s = None \<Longrightarrow>
    sem_up t s (sgoto t Up_Inc (s\<lparr>sem_lock := Some t\<rparr>))"
| up_overflow: "spcs s t = Up_Inc \<Longrightarrow> \<not> sem_value s < INT_MAX \<Longrightarrow> sem_up t s (sgoto t S_Overflow s)"
| up_inc: "spcs s t = Up_Inc \<Longrightarrow> sem_value s < INT_MAX \<Longrightarrow>
    sem_up t s (sgoto t Up_Signal (s\<lparr>sem_value := sem_value s + 1, ups := ups s + 1\<rparr>))"
| up_signal: "spcs s t = Up_Signal \<Longrightarrow> spcs s u = Down_Blocked \<Longrightarrow> sem_up t s (sgoto t Up_Unlock (sgoto u Down_Woken s))"
| up_signal_none: "spcs s t = Up_Signal \<Longrightarrow> \<forall>u. spcs s u \<noteq> Down_Blocked \<Longrightarrow> sem_up t s (sgoto t Up_Unlock s)"
| up_unlock: "spcs s t = Up_Unlock \<Longrightarrow> sem_up t s (sgoto t S_Out (s\<lparr>sem_lock := None\<rparr>))"

inductive sem_down :: "nat \<Rightarrow> sem \<Rightarrow> sem \<Rightarrow> bool" for t where
  down_call: "spcs s t = S_Out \<Longrightarrow> sem_down t s (sgoto t Down_Lock s)"
| down_fault: "spcs s t = Down_Lock \<Longrightarrow> \<not> sem_ready s \<Longrightarrow> sem_down t s (sgoto t S_Fault s)"
| down_lock: "spcs s t = Down_Lock \<Longrightarrow> sem_ready s \<Longrightarrow> sem_lock s = None \<Longrightarrow>
    sem_down t s (sgoto t Down_Test (s\<lparr>sem_lock := Some t\<rparr>))"
| down_wait: "spcs s t = Down_Test \<Longrightarrow> sem_value s = 0 \<Longrightarrow> sem_down t s (sgoto t Down_Blocked (s\<lparr>sem_lock := None\<rparr>))"
| down_spurious: "spcs s t = Down_Blocked \<Longrightarrow> sem_down t s (sgoto t Down_Woken s)"
| down_relock: "spcs s t = Down_Woken \<Longrightarrow> sem_lock s = None \<Longrightarrow> sem_down t s (sgoto t Down_Test (s\<lparr>sem_lock := Some t\<rparr>))"
| down_pass: "spcs s t = Down_Test \<Longrightarrow> sem_value s \<noteq> 0 \<Longrightarrow> sem_down t s (sgoto t Down_Dec s)"
| down_dec: "spcs s t = Down_Dec \<Longrightarrow>
    sem_down t s (sgoto t Down_Unlock (s\<lparr>sem_value := sem_value s - 1, downs := downs s + 1\<rparr>))"
| down_unlock: "spcs s t = Down_Unlock \<Longrightarrow> sem_down t s (sgoto t S_Out (s\<lparr>sem_lock := None\<rparr>))"

definition sem_step :: "nat \<Rightarrow> sem \<Rightarrow> sem \<Rightarrow> bool" where
  "sem_step t s s' \<longleftrightarrow> sem_up t s s' \<or> sem_down t s s'"

inductive sem_reach :: "sem \<Rightarrow> sem \<Rightarrow> bool" for s0 where
  sem_new: "sem_reach s0 s0"
| sem_next: "sem_reach s0 s \<Longrightarrow> sem_step t s s' \<Longrightarrow> sem_reach s0 s'"

subsection \<open>The invariant\<close>

fun sholds :: "spc \<Rightarrow> bool" where
  "sholds Up_Inc = True" | "sholds Up_Signal = True" | "sholds Up_Unlock = True" | "sholds Down_Test = True"
| "sholds Down_Dec = True" | "sholds Down_Unlock = True" | "sholds S_Overflow = True" | "sholds p = False"

text \<open>A thread that will take from the counter, or has a signal to give.\<close>

fun on_way :: "spc \<Rightarrow> bool" where
  "on_way Up_Signal = True" | "on_way Down_Woken = True" | "on_way Down_Test = True" | "on_way Down_Dec = True"
| "on_way p = False"

definition coming :: "sem \<Rightarrow> int" where "coming s = int (card {t. on_way (spcs s t)})"

definition sinv :: "sem \<Rightarrow> bool" where
  "sinv s \<longleftrightarrow> sem_ready s \<and> (\<forall>t. sholds (spcs s t) \<longleftrightarrow> sem_lock s = Some t) \<and> (\<forall>t. spcs s t \<noteq> S_Fault) \<and>
     sem_value s = ups s - downs s \<and> 0 \<le> sem_value s \<and> (\<forall>t. spcs s t = Down_Dec \<longrightarrow> 0 < sem_value s) \<and>
     sem_value s \<le> INT_MAX \<and> (\<forall>t. spcs s t = S_Overflow \<longrightarrow> sem_value s = INT_MAX) \<and>
     finite {t. on_way (spcs s t)} \<and> ((\<exists>t. spcs s t = Down_Blocked) \<longrightarrow> sem_value s \<le> coming s)"

lemmas coming_upd = count_upd [where P = on_way]

lemma sinv_new: "sinv Semaphore"
  by (simp add: sinv_def Semaphore_def coming_def INT_MAX_def)

lemma coming_goto:
  assumes "finite {t. on_way (spcs s t)}"
  shows "coming (sgoto t p s) = coming s - one_if (on_way (spcs s t)) + one_if (on_way p)"
  using coming_upd(2) [OF assms, of t p] by (simp add: coming_def)

text \<open>Thread \<open>t\<close> moves to \<open>p\<close>, taking or giving the lock as its places say.\<close>

lemma sinv_move:
  assumes i: "sinv s" and pc: "spcs s' = (spcs s)(t := p)" and r: "sem_ready s' = sem_ready s" "p \<noteq> S_Fault"
    and l: "sem_lock s' = (if sholds p then Some t else if sholds (spcs s t) then None else sem_lock s)"
      "sholds p \<Longrightarrow> sholds (spcs s t) \<or> sem_lock s = None"
    and v: "sem_value s' = ups s' - downs s'" "0 \<le> sem_value s'" "p = Down_Dec \<Longrightarrow> 0 < sem_value s'"
      "sem_value s' = sem_value s \<or> sholds (spcs s t)" "sem_value s' \<le> INT_MAX" "p = S_Overflow \<Longrightarrow> sem_value s' = INT_MAX"
    and n: "\<exists>u. u \<noteq> t \<and> spcs s u = Down_Blocked \<or> p = Down_Blocked \<Longrightarrow>
      sem_value s' \<le> coming s - one_if (on_way (spcs s t)) + one_if (on_way p)"
  shows "sinv s'"
proof -
  have f: "finite {u. on_way (spcs s u)}" and h: "sholds (spcs s u) \<longleftrightarrow> sem_lock s = Some u" for u
    using i by (simp_all add: sinv_def)
  have c: "coming s' = coming s - one_if (on_way (spcs s t)) + one_if (on_way p)"
    using coming_upd(2) [OF f, of t p] by (simp add: coming_def pc)
  have "sholds (spcs s' u) \<longleftrightarrow> sem_lock s' = Some u" for u
    using h [of u] h [of t] l by (auto simp: pc split: if_splits)
  moreover have "0 < sem_value s'" if "spcs s' u = Down_Dec" for u
  proof (cases "u = t")
    case True
    with that v(3) show ?thesis by (simp add: pc)
  next
    case False
    with that have u: "spcs s u = Down_Dec" by (simp add: pc)
    then have "sem_lock s = Some u" using h [of u] by simp
    with h [of t] False have "sem_value s' = sem_value s" using v(4) by auto
    with u i show ?thesis by (auto simp: sinv_def)
  qed
  moreover have "sem_value s' = INT_MAX" if "spcs s' u = S_Overflow" for u
  proof (cases "u = t")
    case True
    with that v(6) show ?thesis by (simp add: pc)
  next
    case False
    with that have u: "spcs s u = S_Overflow" by (simp add: pc)
    then have "sem_lock s = Some u" using h [of u] by simp
    with h [of t] False have "sem_value s' = sem_value s" using v(4) by auto
    with u i show ?thesis by (auto simp: sinv_def)
  qed
  moreover have "sem_value s' \<le> coming s'" if "spcs s' u = Down_Blocked" for u
    using n that by (auto simp: pc c split: if_splits)
  moreover have "finite {u. on_way (spcs s' u)}" using coming_upd(1) [OF f] by (simp add: pc)
  moreover have "spcs s' u \<noteq> S_Fault" for u using i r(2) by (simp add: sinv_def pc)
  moreover have "sem_ready s'" using i r(1) by (simp add: sinv_def)
  ultimately show ?thesis using v(1,2,5) unfolding sinv_def by blast
qed

lemma sinv_facts:
  assumes "sinv s"
  shows "sem_ready s" "sholds (spcs s t) \<Longrightarrow> sem_lock s = Some t" "sem_value s = ups s - downs s" "0 \<le> sem_value s"
    "spcs s t = Down_Dec \<Longrightarrow> 0 < sem_value s" "spcs s t = Down_Blocked \<Longrightarrow> sem_value s \<le> coming s" "0 \<le> coming s"
    "sem_value s \<le> INT_MAX" "spcs s t = S_Overflow \<Longrightarrow> sem_value s = INT_MAX"
  using assms by (auto simp: sinv_def coming_def)

lemma sem_up_sinv:
  assumes "sinv s" "sem_up t s s'"
  shows "sinv s'"
proof -
  note i = sinv_facts(1,3,4,7,8) [OF assms(1)] sinv_facts(2,5,6) [OF assms(1), of t] sinv_facts(6) [OF assms(1)]
  from assms(2) show ?thesis
  proof cases
    case up_call
    with i show ?thesis by (intro sinv_move [OF assms(1), of _ t Up_Lock]) auto
  next
    case up_fault
    with i show ?thesis by simp
  next
    case up_lock
    with i show ?thesis by (intro sinv_move [OF assms(1), of _ t Up_Inc]) auto
  next
    case up_overflow
    with i show ?thesis by (intro sinv_move [OF assms(1), of _ t S_Overflow]) force+
  next
    case up_inc
    with i show ?thesis by (intro sinv_move [OF assms(1), of _ t Up_Signal]) force+
  next
    case (up_signal u)
    then have tu: "t \<noteq> u" by auto
    let ?s1 = "sgoto u Down_Woken s"
    have s1: "sinv ?s1" using up_signal i by (intro sinv_move [OF assms(1), of _ u Down_Woken]) force+
    have "coming ?s1 = coming s + 1" using coming_goto [of s u Down_Woken] assms(1) up_signal by (simp add: sinv_def)
    moreover have "sem_value s \<le> coming s" using sinv_facts(6) [OF assms(1)] up_signal by blast
    ultimately show ?thesis
      using up_signal tu sinv_facts(1,3,4,8) [OF s1] sinv_facts(2) [OF s1, of t] unfolding up_signal(1)
      by (intro sinv_move [OF s1, of _ t Up_Unlock]) auto
  next
    case up_signal_none
    with i show ?thesis by (intro sinv_move [OF assms(1), of _ t Up_Unlock]) auto
  next
    case up_unlock
    with i show ?thesis by (intro sinv_move [OF assms(1), of _ t S_Out]) auto
  qed
qed

lemma sem_down_sinv:
  assumes "sinv s" "sem_down t s s'"
  shows "sinv s'"
proof -
  note i = sinv_facts(1,3,4,7,8) [OF assms(1)] sinv_facts(2,5,6) [OF assms(1), of t] sinv_facts(6) [OF assms(1)]
  from assms(2) show ?thesis
  proof cases
    case down_call
    with i show ?thesis by (intro sinv_move [OF assms(1), of _ t Down_Lock]) auto
  next
    case down_fault
    with i show ?thesis by simp
  next
    case down_lock
    with i show ?thesis by (intro sinv_move [OF assms(1), of _ t Down_Test]) force+
  next
    case down_wait
    have "one_if (on_way (spcs s t)) \<le> coming s"
    proof -
      have "0 < card {u. on_way (spcs s u)}" using down_wait assms(1) by (auto simp: card_gt_0_iff sinv_def intro: exI [of _ t])
      then show ?thesis by (simp add: coming_def one_if_def)
    qed
    with down_wait i show ?thesis by (intro sinv_move [OF assms(1), of _ t Down_Blocked]) auto
  next
    case down_spurious
    with i show ?thesis by (intro sinv_move [OF assms(1), of _ t Down_Woken]) force+
  next
    case down_relock
    with i show ?thesis by (intro sinv_move [OF assms(1), of _ t Down_Test]) force+
  next
    case down_pass
    with i show ?thesis by (intro sinv_move [OF assms(1), of _ t Down_Dec]) force+
  next
    case down_dec
    with i show ?thesis by (intro sinv_move [OF assms(1), of _ t Down_Unlock]) force+
  next
    case down_unlock
    with i show ?thesis by (intro sinv_move [OF assms(1), of _ t S_Out]) force+
  qed
qed

lemma sem_reach_sinv: "sem_reach Semaphore s \<Longrightarrow> sinv s"
proof (induction rule: sem_reach.induct)
  case (sem_next s t s')
  then show ?case unfolding sem_step_def using sem_up_sinv sem_down_sinv by blast
qed (rule sinv_new)

subsection \<open>Progress\<close>

lemma sem_holder_moves:
  assumes i: "sinv s" and h: "sholds (spcs s t)" and o: "spcs s t \<noteq> S_Overflow"
  shows "\<exists>s'. sem_step t s s'"
proof (cases "spcs s t")
  case Up_Signal
  then show ?thesis using up_signal up_signal_none by (metis sem_step_def)
next
  case Down_Test
  then show ?thesis using down_wait down_pass by (metis sem_step_def)
next
  case Up_Inc
  then show ?thesis using up_inc up_overflow by (metis sem_step_def)
qed (use h o in \<open>auto simp: sem_step_def intro: sem_up.intros sem_down.intros\<close>)

lemma sem_someone_moves:
  assumes i: "sinv s" and t: "spcs s t \<noteq> S_Out" "spcs s t = Down_Blocked \<Longrightarrow> 0 < sem_value s"
    and o: "\<And>u. spcs s u \<noteq> S_Overflow"
  shows "\<exists>u s'. spcs s u \<noteq> S_Out \<and> spcs s u \<noteq> Down_Blocked \<and> sem_step u s s'"
proof (cases "sem_lock s")
  case (Some u)
  with i have h: "sholds (spcs s u)" by (simp add: sinv_def)
  with sem_holder_moves [OF i h o] show ?thesis by (intro exI [of _ u]) auto
next
  case None
  have "\<exists>u. spcs s u \<noteq> S_Out \<and> spcs s u \<noteq> Down_Blocked"
  proof (cases "spcs s t = Down_Blocked")
    case True
    with t(2) sinv_facts(6) [OF i] have "0 < coming s" by force
    then have "0 < card {u. on_way (spcs s u)}" by (simp add: coming_def)
    then have "{u. on_way (spcs s u)} \<noteq> {}" by (metis card.empty less_irrefl)
    then obtain u where "on_way (spcs s u)" by blast
    then show ?thesis by (intro exI [of _ u]) auto
  qed (use t in blast)
  then obtain u where u: "spcs s u \<noteq> S_Out" "spcs s u \<noteq> Down_Blocked" by blast
  have "\<not> sholds (spcs s u)" "spcs s u \<noteq> S_Fault" "spcs s u \<noteq> S_Overflow" "sem_ready s" using i o None by (simp_all add: sinv_def)
  with u None have "\<exists>s'. sem_step u s s'"
    by (cases "spcs s u") (auto simp: sem_step_def intro: sem_up.intros sem_down.intros)
  with u show ?thesis by blast
qed

subsection \<open>The properties\<close>

text \<open>C26: A semaphore made by the default constructor counts: in every reachable state its value is the number of
  increments less the number of decrements and from 0 to the largest \<^verbatim>\<open>int\<close>, no thread uses an uninitialised mutex, at
  most one thread is inside, and a thread comes to the undefined increment only when the value is the largest
  \<^verbatim>\<open>int\<close>. As long as none has, a thread that is blocked while the value is positive does not wait for ever for a lost
  signal: some thread in the code can move.\<close>
theorem semaphore_counts:
  assumes "sem_reach Semaphore s"
  shows "sem_value s = ups s - downs s \<and> 0 \<le> sem_value s \<and> sem_value s \<le> INT_MAX \<and> (\<forall>t. spcs s t \<noteq> S_Fault) \<and>
    (\<forall>t. spcs s t = S_Overflow \<longrightarrow> sem_value s = INT_MAX) \<and>
    (\<forall>t u. sholds (spcs s t) \<longrightarrow> sholds (spcs s u) \<longrightarrow> t = u) \<and>
    (\<forall>t. spcs s t = Down_Blocked \<longrightarrow> 0 < sem_value s \<longrightarrow> (\<forall>u. spcs s u \<noteq> S_Overflow) \<longrightarrow>
      (\<exists>u s'. spcs s u \<noteq> S_Out \<and> spcs s u \<noteq> Down_Blocked \<and> sem_step u s s'))"
proof -
  have i: "sinv s" by (rule sem_reach_sinv [OF assms])
  have "t = u" if "sholds (spcs s t)" "sholds (spcs s u)" for t u
    using sinv_facts(2) [OF i that(1)] sinv_facts(2) [OF i that(2)] by simp
  moreover have "\<exists>u s'. spcs s u \<noteq> S_Out \<and> spcs s u \<noteq> Down_Blocked \<and> sem_step u s s'"
    if "spcs s t = Down_Blocked" "0 < sem_value s" "\<forall>u. spcs s u \<noteq> S_Overflow" for t
    using sem_someone_moves [OF i, of t] that by simp
  ultimately show ?thesis using i by (auto simp: sinv_def)
qed

theorem semaphore_counts_witness:
  "\<exists>s. sem_reach Semaphore s \<and> spcs s 3 = Down_Blocked \<and> sem_value s = ups s - downs s \<and> 0 \<le> sem_value s"
proof -
  let ?s1 = "sgoto 3 Down_Lock Semaphore"
  let ?s2 = "sgoto 3 Down_Test (?s1\<lparr>sem_lock := Some 3\<rparr>)"
  let ?s3 = "sgoto 3 Down_Blocked (?s2\<lparr>sem_lock := None\<rparr>)"
  have "sem_step 3 Semaphore ?s1" "sem_step 3 ?s1 ?s2" "sem_step 3 ?s2 ?s3"
    unfolding sem_step_def by (intro disjI2 down_call down_lock down_wait; simp add: Semaphore_def)+
  then have r: "sem_reach Semaphore ?s3" using sem_new sem_next by meson
  from semaphore_counts [OF this] r show ?thesis by (intro exI [of _ ?s3]) simp
qed

fun shut :: "spc \<Rightarrow> bool" where
  "shut S_Out = True" | "shut Up_Lock = True" | "shut Down_Lock = True" | "shut S_Fault = True" | "shut p = False"

lemma shut_iff: "shut p \<longleftrightarrow> p \<in> {S_Out, Up_Lock, Down_Lock, S_Fault}"
  by (cases p) auto

lemma broken_step:
  assumes "\<not> sem_ready s" "\<forall>t. shut (spcs s t)" "sem_step t s s'"
  shows "sem_value s' = sem_value s \<and> \<not> sem_ready s' \<and> (\<forall>t. shut (spcs s' t))"
proof -
  have "spcs s t \<in> {S_Out, Up_Lock, Down_Lock, S_Fault}" using assms(2) unfolding shut_iff by blast
  with assms show ?thesis unfolding sem_step_def by (auto elim!: sem_up.cases sem_down.cases)
qed

text \<open>A semaphore made by the constructor with a value is unusable: its mutex and its condition variable are
  never initialised, so that no thread ever gets inside \<open>up\<close> or \<open>down\<close>; every call uses an uninitialised
  mutex. The value it was given never changes.\<close>
theorem semaphore_val_broken:
  assumes "sem_reach (Semaphore_val v) s"
  shows "sem_value s = v \<and> \<not> sem_ready s \<and> (\<forall>t. spcs s t \<in> {S_Out, Up_Lock, Down_Lock, S_Fault})"
  unfolding shut_iff [symmetric] using assms
proof (induction rule: sem_reach.induct)
  case (sem_next s t s')
  with broken_step [of s t s'] show ?case by simp
qed (simp add: Semaphore_val_def)

theorem semaphore_val_broken_witness:
  "\<exists>s. sem_reach (Semaphore_val 3) s \<and> spcs s 0 = S_Fault \<and> sem_value s = 3"
proof -
  let ?s1 = "sgoto 0 Down_Lock (Semaphore_val 3)"
  let ?s2 = "sgoto 0 S_Fault ?s1"
  have "sem_step 0 (Semaphore_val 3) ?s1" "sem_step 0 ?s1 ?s2"
    unfolding sem_step_def by (intro disjI2 down_call down_fault; simp add: Semaphore_val_def)+
  then have r: "sem_reach (Semaphore_val 3) ?s2" using sem_new sem_next by meson
  from semaphore_val_broken [OF this] r show ?thesis by (intro exI [of _ ?s2]) simp
qed

end
