(* ===== verification/Life_Step.thy ===== *)
theory Life_Step
  imports Life_Board "HOL-Library.Multiset"
begin

text \<open>
  HW3, one generation: the computation of the tiles against a reference definition of the Game of Life.
  \<open>life_step\<close> is the reference. A cell is computed right (\<open>compute_cell_ok\<close>), the jobs of a step cover
  every cell of the board, each line once (\<open>step_jobs_lines\<close>), and since a cell is computed from the current matrix alone,
  every order of the cells gives the same board (\<open>cells_any_order\<close>).
\<close>

definition board_ok :: "nat \<Rightarrow> nat \<Rightarrow> bool_mat \<Rightarrow> bool" where
  "board_ok h w m \<longleftrightarrow> length m = h \<and> (\<forall>r \<in> set m. length r = w)"

definition inside :: "nat \<Rightarrow> nat \<Rightarrow> (int \<times> int) set" where
  "inside h w = {0..<int h} \<times> {0..<int w}"

definition alive :: "bool_mat \<Rightarrow> int \<times> int \<Rightarrow> bool" where
  "alive m p = (m ! nat (fst p) ! nat (snd p))"

definition around :: "int \<times> int \<Rightarrow> (int \<times> int) set" where
  "around p = {q. \<bar>fst q - fst p\<bar> \<le> 1 \<and> \<bar>snd q - snd p\<bar> \<le> 1 \<and> q \<noteq> p}"

definition neighbours :: "nat \<Rightarrow> nat \<Rightarrow> bool_mat \<Rightarrow> int \<times> int \<Rightarrow> nat" where
  "neighbours h w m p = card {q \<in> around p \<inter> inside h w. alive m q}"

definition rule :: "bool \<Rightarrow> nat \<Rightarrow> bool" where
  "rule b n = (if b then n = 2 \<or> n = 3 else n = 3)"

definition next_cell :: "nat \<Rightarrow> nat \<Rightarrow> bool_mat \<Rightarrow> int \<times> int \<Rightarrow> bool" where
  "next_cell h w m p = rule (alive m p) (neighbours h w m p)"

definition life_step :: "nat \<Rightarrow> nat \<Rightarrow> bool_mat \<Rightarrow> bool_mat" where
  "life_step h w m = map (\<lambda>i. map (\<lambda>j. next_cell h w m (int i, int j)) [0..<w]) [0..<h]"

lemma life_step_ok: "board_ok h w (life_step h w m)"
  by (auto simp: board_ok_def life_step_def)

subsection \<open>Cells\<close>

lemma board_row: "board_ok h w m \<Longrightarrow> i < h \<Longrightarrow> length (m ! i) = w"
  by (auto simp: board_ok_def)

lemma cell_ok: "board_ok h w m \<Longrightarrow> (i, j) \<in> inside h w \<Longrightarrow> cell m i j = Inr (alive m (i, j))"
  using board_row [of h w m "nat i"] by (auto simp: cell_def inside_def alive_def board_ok_def)

lemma set_cell_ok:
  assumes "board_ok h w m" "(i, j) \<in> inside h w"
  shows "\<exists>m'. set_cell m i j v = Inr m' \<and> board_ok h w m' \<and>
    (\<forall>q \<in> inside h w. alive m' q = (if q = (i, j) then v else alive m q))"
proof -
  have r: "length (m ! nat i) = w" "nat i < h" "nat j < w" "length m = h" "0 \<le> i" "0 \<le> j"
    using assms board_row [of h w m "nat i"] by (auto simp: inside_def board_ok_def)
  let ?m = "m[nat i := (m ! nat i)[nat j := v]]"
  have "board_ok h w ?m" using assms(1) r unfolding board_ok_def by (auto dest!: set_update_subset_insert [THEN subsetD])
  moreover have "alive ?m q = (if q = (i, j) then v else alive m q)" if "q \<in> inside h w" for q
    using that r by (auto simp: alive_def inside_def nth_list_update)
  moreover have "set_cell m i j v = Inr ?m" using assms(2) r by (simp add: set_cell_def inside_def)
  ultimately show ?thesis by blast
qed

text \<open>Counting over a list of cells.\<close>

lemma count_cells:
  assumes "board_ok h w m"
  shows "set ps \<subseteq> inside h w \<Longrightarrow> run_ops (count_cell l c m) ps n =
    Inr (n + int (length (filter (\<lambda>q. q \<noteq> (l, c) \<and> alive m q) ps)))"
proof (induction ps arbitrary: n)
  case (Cons p ps)
  obtain i j where p: "p = (i, j)" by fastforce
  show ?case using Cons by (simp add: p count_cell_def cell_ok [OF assms])
qed simp

lemma grid_set: "set [(i, j). i \<leftarrow> [a..b], j \<leftarrow> [c..d]] = {a..b} \<times> {c..d}"
  by auto

lemma grid_distinct: "distinct [(i, j). i \<leftarrow> [a..b :: int], j \<leftarrow> [c..d :: int]]"
proof -
  have "distinct (concat (map (\<lambda>i. map (Pair i) ys) xs))" if "distinct xs" "distinct ys" for xs ys :: "int list"
    using that by (induction xs) (auto simp: distinct_map inj_on_def)
  from this [of "[a..b]" "[c..d]"] show ?thesis by (simp add: map_concat comp_def cong: map_cong)
qed

text \<open>The window the code scans is the neighbourhood within the board.\<close>

lemma window_1d:
  assumes "0 \<le> (l :: int)" "l < n"
  shows "x \<in> {if l \<noteq> 0 then l - 1 else l..if l = n - 1 then l else l + 1} \<longleftrightarrow> \<bar>x - l\<bar> \<le> 1 \<and> 0 \<le> x \<and> x < n"
    "x \<in> {if l = 0 then 0 else l - 1..if l = n - 1 then l else l + 1} \<longleftrightarrow> \<bar>x - l\<bar> \<le> 1 \<and> 0 \<le> x \<and> x < n"
  using assms by (cases "l = 0"; cases "l = n - 1"; auto simp: abs_le_iff)+

lemma window:
  assumes "(l, c) \<in> inside h w"
  defines "hi \<equiv> (if l \<noteq> 0 then l - 1 else l)" and "lo \<equiv> (if l = int h - 1 then l else l + 1)"
    and "le \<equiv> (if c = 0 then 0 else c - 1)" and "ri \<equiv> (if c = int w - 1 then c else c + 1)"
  shows "{hi..lo} \<times> {le..ri} \<subseteq> inside h w" "{hi..lo} \<times> {le..ri} - {(l, c)} = around (l, c) \<inter> inside h w"
proof -
  have l: "0 \<le> l" "l < int h" and c: "0 \<le> c" "c < int w" using assms(1) by (auto simp: inside_def)
  have m: "q \<in> {hi..lo} \<times> {le..ri} \<longleftrightarrow> \<bar>fst q - l\<bar> \<le> 1 \<and> \<bar>snd q - c\<bar> \<le> 1 \<and> q \<in> inside h w" for q
    using window_1d(1) [OF l, of "fst q"] window_1d(2) [OF c, of "snd q"]
    by (cases q) (auto simp: inside_def hi_def lo_def le_def ri_def simp del: atLeastAtMost_iff)
  show "{hi..lo} \<times> {le..ri} \<subseteq> inside h w" using m by blast
  show "{hi..lo} \<times> {le..ri} - {(l, c)} = around (l, c) \<inter> inside h w"
    by (rule set_eqI) (simp only: Diff_iff Int_iff m around_def mem_Collect_eq singleton_iff fst_conv snd_conv, blast)
qed

lemma calculate_live_neighbours_ok:
  assumes b: "board_ok h w m" and p: "(l, c) \<in> inside h w"
  shows "calculate_live_neighbours l c (int w) (int h) m = Inr (int (neighbours h w m (l, c)))"
proof -
  let ?hi = "if l \<noteq> 0 then l - 1 else l" and ?lo = "if l = int h - 1 then l else l + 1"
    and ?le = "if c = 0 then 0 else c - 1" and ?ri = "if c = int w - 1 then c else c + 1"
  let ?ps = "[(i, j). i \<leftarrow> [?hi..?lo], j \<leftarrow> [?le..?ri]]"
  note W = window [OF p]
  have s: "set ?ps = {?hi..?lo} \<times> {?le..?ri}" by (rule grid_set)
  have "length (filter (\<lambda>q. q \<noteq> (l, c) \<and> alive m q) ?ps) = card (set (filter (\<lambda>q. q \<noteq> (l, c) \<and> alive m q) ?ps))"
    by (rule distinct_card [symmetric]) (rule distinct_filter, rule grid_distinct)
  also have "set (filter (\<lambda>q. q \<noteq> (l, c) \<and> alive m q) ?ps) = {q \<in> around (l, c) \<inter> inside h w. alive m q}"
    unfolding set_filter s W(2) [symmetric] by auto
  finally have len: "length (filter (\<lambda>q. q \<noteq> (l, c) \<and> alive m q) ?ps) = neighbours h w m (l, c)"
    by (simp only: neighbours_def)
  have "(if c = int w - 1 then Some c else if c = 0 then if int w \<noteq> 1 then Some (c + 1) else None else Some (c + 1)) = Some ?ri"
    using p by (auto simp: inside_def)
  then have "calculate_live_neighbours l c (int w) (int h) m = run_ops (count_cell l c m) ?ps 0"
    unfolding calculate_live_neighbours_def Let_def by (simp only: option.case)
  also have "\<dots> = Inr (int (neighbours h w m (l, c)))"
    using count_cells [OF b, of ?ps l c 0] W(1) unfolding s len by simp
  finally show ?thesis .
qed

text \<open>One cell of one job.\<close>

definition job_of :: "nat \<Rightarrow> nat \<Rightarrow> nat \<Rightarrow> nat \<Rightarrow> job \<Rightarrow> bool" where
  "job_of h w cur nxt jb \<longleftrightarrow> input_height jb = int h \<and> input_width jb = int w \<and>
     current_matrix jb = cur \<and> next_matrix jb = nxt \<and> set (job_cells jb) \<subseteq> inside h w"

definition boards :: "nat \<Rightarrow> nat \<Rightarrow> nat \<Rightarrow> nat \<Rightarrow> (nat \<Rightarrow> bool_mat) \<Rightarrow> bool" where
  "boards h w cur nxt mats \<longleftrightarrow> cur \<noteq> nxt \<and> board_ok h w (mats cur) \<and> board_ok h w (mats nxt)"

text \<open>\<open>mats'\<close> has the new cells \<open>S\<close> written.\<close>

definition wrote_cells ::
  "nat \<Rightarrow> nat \<Rightarrow> nat \<Rightarrow> nat \<Rightarrow> (int \<times> int) set \<Rightarrow> (nat \<Rightarrow> bool_mat) \<Rightarrow> (nat \<Rightarrow> bool_mat) \<Rightarrow> bool" where
  "wrote_cells h w cur nxt S mats mats' \<longleftrightarrow> boards h w cur nxt mats' \<and> (\<forall>k. k \<noteq> nxt \<longrightarrow> mats' k = mats k) \<and>
     (\<forall>q \<in> inside h w. alive (mats' nxt) q = (if q \<in> S then next_cell h w (mats cur) q else alive (mats nxt) q))"

lemma wrote_nothing: "boards h w cur nxt mats \<Longrightarrow> wrote_cells h w cur nxt {} mats mats"
  by (simp add: wrote_cells_def)

lemma wrote_trans:
  "wrote_cells h w cur nxt S m m1 \<Longrightarrow> wrote_cells h w cur nxt T m1 m2 \<Longrightarrow> wrote_cells h w cur nxt (S \<union> T) m m2"
  unfolding wrote_cells_def boards_def by (clarsimp split: if_splits)

lemma compute_cell_ok:
  assumes b: "boards h w cur nxt mats" and j: "job_of h w cur nxt jb" and p: "p \<in> inside h w"
  shows "\<exists>mats'. compute_cell jb p mats = Inr mats' \<and> wrote_cells h w cur nxt {p} mats mats'"
proof -
  obtain l c where p': "p = (l, c)" by fastforce
  have B: "board_ok h w (mats cur)" "board_ok h w (mats nxt)" "cur \<noteq> nxt" using b by (simp_all add: boards_def)
  obtain m' where m: "set_cell (mats nxt) l c (next_cell h w (mats cur) p) = Inr m'" "board_ok h w m'"
    "\<forall>q \<in> inside h w. alive m' q = (if q = p then next_cell h w (mats cur) p else alive (mats nxt) q)"
    using set_cell_ok [OF B(2), of l c "next_cell h w (mats cur) p"] p p' by auto
  have "compute_cell jb p mats = Inr (mats(nxt := m'))"
    using j m(1) calculate_live_neighbours_ok [OF B(1), of l c] cell_ok [OF B(1), of l c] p p'
    by (simp add: compute_cell_def job_of_def next_cell_def rule_def cong: if_cong)
  moreover have "wrote_cells h w cur nxt {p} mats (mats(nxt := m'))"
    using B m(2,3) by (simp add: wrote_cells_def boards_def)
  ultimately show ?thesis by blast
qed

definition cell_task :: "job \<times> int \<times> int \<Rightarrow> (nat \<Rightarrow> bool_mat) \<Rightarrow> fault + (nat \<Rightarrow> bool_mat)" where
  "cell_task t mats = compute_cell (fst t) (snd t) mats"

lemma cell_tasks_ok:
  "boards h w cur nxt mats \<Longrightarrow> \<forall>(jb, p) \<in> set ts. job_of h w cur nxt jb \<and> p \<in> inside h w \<Longrightarrow>
    \<exists>mats'. run_ops cell_task ts mats = Inr mats' \<and> wrote_cells h w cur nxt (snd ` set ts) mats mats'"
proof (induction ts arbitrary: mats)
  case (Cons t ts)
  obtain m1 where m1: "cell_task t mats = Inr m1" "wrote_cells h w cur nxt {snd t} mats m1"
    using compute_cell_ok [OF Cons.prems(1), of "fst t" "snd t"] Cons.prems(2) by (auto simp: cell_task_def)
  obtain m2 where m2: "run_ops cell_task ts m1 = Inr m2" "wrote_cells h w cur nxt (snd ` set ts) m1 m2"
    using Cons.IH [of m1] Cons.prems(2) m1(2) by (auto simp: wrote_cells_def)
  from wrote_trans [OF m1(2) m2(2)] m1(1) m2(1) show ?case by simp
qed (simp add: wrote_nothing)

text \<open>Boards with the same cells are equal.\<close>

lemma board_eqI:
  assumes "board_ok h w m" "board_ok h w m'" "\<And>q. q \<in> inside h w \<Longrightarrow> alive m q = alive m' q"
  shows "m = m'"
proof (rule nth_equalityI)
  show "length m = length m'" using assms(1,2) by (simp add: board_ok_def)
  fix i assume i: "i < length m"
  then have h: "i < h" using assms(1) by (simp add: board_ok_def)
  show "m ! i = m' ! i"
  proof (rule nth_equalityI)
    show "length (m ! i) = length (m' ! i)" using board_row [OF assms(1) h] board_row [OF assms(2) h] by simp
    fix j assume "j < length (m ! i)"
    with board_row [OF assms(1) h] have "(int i, int j) \<in> inside h w" using h by (simp add: inside_def)
    from assms(3) [OF this] show "m ! i ! j = m' ! i ! j" by (simp add: alive_def)
  qed
qed

lemma life_step_alive: "q \<in> inside h w \<Longrightarrow> alive (life_step h w m) q = next_cell h w m q"
  by (cases q) (auto simp: alive_def life_step_def inside_def)

lemma wrote_all:
  assumes "wrote_cells h w cur nxt S mats mats'" "inside h w \<subseteq> S"
  shows "mats' nxt = life_step h w (mats cur)"
proof (rule board_eqI [OF _ life_step_ok])
  show "board_ok h w (mats' nxt)" using assms(1) by (simp add: wrote_cells_def boards_def)
  show "alive (mats' nxt) q = alive (life_step h w (mats cur)) q" if "q \<in> inside h w" for q
    using assms that life_step_alive [OF that] by (auto simp: wrote_cells_def)
qed

subsection \<open>The jobs of a step\<close>

abbreviation job_lines :: "job \<Rightarrow> int list" where
  "job_lines jb \<equiv> [starting_line jb..ending_line jb]"

lemma set_job_cells: "set (job_cells jb) = {starting_line jb..ending_line jb} \<times> {0..input_width jb - 1}"
  by (auto simp: job_cells_def)

lemma distinct_job_cells: "distinct (job_cells jb)"
  unfolding job_cells_def by (rule grid_distinct)

lemma push_lines:
  "1 \<le> n \<Longrightarrow> 0 \<le> d \<Longrightarrow> line + d * (int n - 1) \<le> h \<Longrightarrow>
    concat (map job_lines (push_jobs cur nxt w h n d line)) = [line..h - 1]"
proof (induction cur nxt w h n d line rule: push_jobs.induct)
  case (1 cur nxt w h i d line)
  have "0 \<le> d * int i" using 1(3) by simp
  then have "line + d \<le> h" using 1(4) by (simp add: algebra_simps)
  then have "[line..line + d - 1] @ [line + d..h - 1] = [line..h - 1]"
    using 1(3) by (cases "line + d = h") (simp_all flip: upto_split1)
  moreover have "concat (map job_lines (push_jobs cur nxt w h (Suc i) d (line + d))) = [line + d..h - 1]"
    using 1 by (simp add: algebra_simps)
  ultimately show ?case by (simp add: new_job_def)
qed (simp_all add: new_job_def)

lemma push_fields:
  "jb \<in> set (push_jobs cur nxt w h n d line) \<Longrightarrow>
    current_matrix jb = cur \<and> next_matrix jb = nxt \<and> input_width jb = w \<and> input_height jb = h"
  by (induction cur nxt w h n d line rule: push_jobs.induct) (auto simp: new_job_def)

lemma push_length: "0 < n \<Longrightarrow> length (push_jobs cur nxt w h n d line) = n"
  by (induction cur nxt w h n d line rule: push_jobs.induct) simp_all

lemma step_jobs_lines:
  assumes "0 < n" "n \<le> h"
  obtains jobs where "step_jobs cur nxt w h n = Inr jobs" "length jobs = n"
    "concat (map job_lines jobs) = [0..int h - 1]" "\<forall>jb \<in> set jobs. job_of h w cur nxt jb"
    "inside h w \<subseteq> set (concat (map job_cells jobs))"
proof -
  let ?d = "h div n" and ?jobs = "push_jobs cur nxt (int w) (int h) n (int (h div n)) 0"
  have d: "0 < ?d" using assms by (simp add: div_greater_zero_iff)
  have "?d * (n - 1) \<le> h" using div_times_less_eq_dividend [of h n] by (meson diff_le_self le_trans mult_le_mono2)
  then have "int (?d * (n - 1)) \<le> int h" by (simp only: of_nat_le_iff)
  then have le: "0 + int ?d * (int n - 1) \<le> int h" using assms(1) by (simp add: of_nat_diff)
  have l: "concat (map job_lines ?jobs) = [0..int h - 1]" using push_lines [of n "int ?d" 0 "int h"] assms(1) le by simp
  have f: "current_matrix jb = cur \<and> next_matrix jb = nxt \<and> input_width jb = int w \<and> input_height jb = int h"
    if "jb \<in> set ?jobs" for jb using push_fields [OF that] .
  have "set (job_lines jb) \<subseteq> {0..int h - 1}" if "jb \<in> set ?jobs" for jb
  proof -
    have "set (job_lines jb) \<subseteq> set (concat (map job_lines ?jobs))" using that by auto
    then show ?thesis unfolding l by simp
  qed
  then have j: "\<forall>jb \<in> set ?jobs. job_of h w cur nxt jb"
    using f by (fastforce simp: job_of_def set_job_cells inside_def)
  have "p \<in> set (concat (map job_cells ?jobs))" if p: "p \<in> inside h w" for p
  proof -
    have "fst p \<in> set (concat (map job_lines ?jobs))" unfolding l using p by (auto simp: inside_def)
    then obtain jb where jb: "jb \<in> set ?jobs" "fst p \<in> set (job_lines jb)" by auto
    with f [OF jb(1)] p have "p \<in> set (job_cells jb)" by (cases p) (auto simp: set_job_cells inside_def)
    with jb(1) show ?thesis by auto
  qed
  moreover have "step_jobs cur nxt w h n = Inr ?jobs" using assms d by (simp add: step_jobs_def)
  ultimately show ?thesis using l j push_length [OF assms(1)] by (intro that [of ?jobs]) auto
qed

text \<open>Any order of all cells of all jobs computes the next generation.\<close>

lemma cells_any_order:
  assumes b: "boards h w cur nxt mats" and n: "0 < n" "n \<le> h" and j: "step_jobs cur nxt w h n = Inr jobs"
    and ts: "mset ts = mset (concat (map (\<lambda>jb. map (Pair jb) (job_cells jb)) jobs))"
  shows "\<exists>mats'. run_ops cell_task ts mats = Inr mats' \<and> mats' nxt = life_step h w (mats cur) \<and>
    (\<forall>k. k \<noteq> nxt \<longrightarrow> mats' k = mats k)"
proof -
  obtain J where "step_jobs cur nxt w h n = Inr J" "\<forall>jb \<in> set J. job_of h w cur nxt jb"
    "inside h w \<subseteq> set (concat (map job_cells J))"
    by (rule step_jobs_lines [OF n, of cur nxt w])
  with j have J: "\<forall>jb \<in> set jobs. job_of h w cur nxt jb" "inside h w \<subseteq> set (concat (map job_cells jobs))"
    by simp_all
  have s: "set ts = {(jb, p). jb \<in> set jobs \<and> p \<in> set (job_cells jb)}"
    unfolding mset_eq_setD [OF ts] by auto
  then have "\<forall>(jb, p) \<in> set ts. job_of h w cur nxt jb \<and> p \<in> inside h w"
    using J(1) by (auto simp: job_of_def)
  from cell_tasks_ok [OF b this] obtain mats' where
    m: "run_ops cell_task ts mats = Inr mats'" "wrote_cells h w cur nxt (snd ` set ts) mats mats'" by blast
  have "inside h w \<subseteq> snd ` set ts"
  proof
    fix p assume "p \<in> inside h w"
    with J(2) obtain jb where "jb \<in> set jobs" "p \<in> set (job_cells jb)" by auto
    then have "(jb, p) \<in> set ts" by (simp add: s)
    then show "p \<in> snd ` set ts" by (rule image_eqI [rotated]) simp
  qed
  from wrote_all [OF m(2) this] m show ?thesis by (auto simp: wrote_cells_def)
qed

end
