(* ===== verification/Life_Game.thy ===== *)
theory Life_Game
  imports Life_Step
begin

text \<open>
  HW3, the whole game: \<open>run\<close>, \<open>_step\<close> and \<open>_destroy_game\<close> of \<^verbatim>\<open>HW3/Game.cpp\<close> in the main thread, and
  \<open>thread_workload\<close> of \<^verbatim>\<open>HW3/Life_Thread.cpp\<close> in \<open>bthreads\<close> worker threads, in any interleaving. The queue between
  them is the atomic queue that \<open>Pc_Queue_Props\<close> shows \<^verbatim>\<open>PCQueue\<close> to refine: \<open>push\<close> appends, \<open>pop\<close> waits for
  an item and takes the first. A worker computes its tile cell by cell; \<open>None\<close> in the queue is the null
  pointer. The flags that the threads read without a lock are taken to be read and written atomically.
\<close>

datatype main_pc =
    M_Gen nat
  | M_Push "job list" nat
  | M_Reset nat
  | M_Swap nat
  | M_Time nat
  | M_Lock nat
  | M_Null nat
  | M_Join nat
  | M_Done
  | M_Fault fault

datatype work_pc =
    W_Pop
  | W_Check "job option"
  | W_Tile job "(int \<times> int) list"
  | W_Count
  | W_Record
  | W_Unlock
  | W_Exit
  | W_Ended
  | W_Fault fault

record game =
  gqueue :: "job option list"
  finished :: bool
  finished_thread_counter :: nat
  gmats :: "nat \<Rightarrow> bool_mat"
  curr_matrix :: nat
  next_mat :: nat
  tile_hist :: "nat list"
  gen_hist :: nat
  global_lock :: "nat option"
  gmain :: main_pc
  gwork :: "nat \<Rightarrow> work_pc"

text \<open>After \<open>_init_game\<close>: both matrices hold the board that was read, the threads are started.\<close>

definition game_start :: "board \<Rightarrow> game" where
  "game_start B = \<lparr>gqueue = [], finished = False, finished_thread_counter = 0, gmats = (\<lambda>_. brows B),
     curr_matrix = 0, next_mat = 1, tile_hist = [], gen_hist = 0, global_lock = None,
     gmain = M_Gen 0, gwork = (\<lambda>_. W_Pop)\<rparr>"

text \<open>The main thread: \<open>run\<close> with \<open>_step\<close>, then the null pointers and \<open>_destroy_game\<close>. After the jobs it waits for the
  workers in a loop with an empty body: \<open>m_spin\<close> is one more round of it, which changes nothing.\<close>

inductive main_step :: "nat \<Rightarrow> board \<Rightarrow> game \<Rightarrow> game \<Rightarrow> bool" for G B where
  m_jobs: "gmain s = M_Gen i \<Longrightarrow> i < G \<Longrightarrow>
    step_jobs (curr_matrix s) (next_mat s) (bwidth B) (bheight B) (bthreads B) = Inr js \<Longrightarrow>
    main_step G B s (s\<lparr>gmain := M_Push js i\<rparr>)"
| m_fault: "gmain s = M_Gen i \<Longrightarrow> i < G \<Longrightarrow>
    step_jobs (curr_matrix s) (next_mat s) (bwidth B) (bheight B) (bthreads B) = Inl f \<Longrightarrow>
    main_step G B s (s\<lparr>gmain := M_Fault f\<rparr>)"
| m_push: "gmain s = M_Push (j # js) i \<Longrightarrow>
    main_step G B s (s\<lparr>gqueue := gqueue s @ [Some j], gmain := M_Push js i\<rparr>)"
| m_spin: "gmain s = M_Push [] i \<Longrightarrow> finished_thread_counter s \<noteq> bthreads B \<Longrightarrow> main_step G B s s"
| m_counted: "gmain s = M_Push [] i \<Longrightarrow> finished_thread_counter s = bthreads B \<Longrightarrow>
    main_step G B s (s\<lparr>gmain := M_Reset i\<rparr>)"
| m_reset: "gmain s = M_Reset i \<Longrightarrow> main_step G B s (s\<lparr>finished_thread_counter := 0, gmain := M_Swap i\<rparr>)"
| m_swap: "gmain s = M_Swap i \<Longrightarrow>
    main_step G B s (s\<lparr>curr_matrix := next_mat s, next_mat := curr_matrix s, gmain := M_Time i\<rparr>)"
| m_time: "gmain s = M_Time i \<Longrightarrow> main_step G B s (s\<lparr>gen_hist := gen_hist s + 1, gmain := M_Lock i\<rparr>)"
| m_lock: "gmain s = M_Lock i \<Longrightarrow> global_lock s = None \<Longrightarrow> main_step G B s (s\<lparr>gmain := M_Gen (Suc i)\<rparr>)"
| m_finish: "gmain s = M_Gen i \<Longrightarrow> \<not> i < G \<Longrightarrow>
    main_step G B s (s\<lparr>finished := True, gmain := M_Null (bthreads B + 1)\<rparr>)"
| m_null: "gmain s = M_Null (Suc k) \<Longrightarrow> main_step G B s (s\<lparr>gqueue := gqueue s @ [None], gmain := M_Null k\<rparr>)"
| m_destroy: "gmain s = M_Null 0 \<Longrightarrow> main_step G B s (s\<lparr>gmain := M_Join 0\<rparr>)"
| m_join: "gmain s = M_Join k \<Longrightarrow> k < bthreads B \<Longrightarrow> gwork s k = W_Ended \<Longrightarrow>
    main_step G B s (s\<lparr>gmain := M_Join (Suc k)\<rparr>)"
| m_done: "gmain s = M_Join k \<Longrightarrow> \<not> k < bthreads B \<Longrightarrow> main_step G B s (s\<lparr>gmain := M_Done\<rparr>)"

definition wgoto :: "nat \<Rightarrow> work_pc \<Rightarrow> game \<Rightarrow> game" where
  "wgoto t p s = s\<lparr>gwork := (gwork s)(t := p)\<rparr>"

text \<open>Worker \<open>t\<close>: \<open>thread_workload\<close>.\<close>

inductive work_step :: "nat \<Rightarrow> game \<Rightarrow> game \<Rightarrow> bool" for t where
  w_pop: "gwork s t = W_Pop \<Longrightarrow> gqueue s = x # q \<Longrightarrow> work_step t s (wgoto t (W_Check x) (s\<lparr>gqueue := q\<rparr>))"
| w_break: "gwork s t = W_Check x \<Longrightarrow> finished s \<Longrightarrow> work_step t s (wgoto t W_Exit s)"
| w_tile: "gwork s t = W_Check (Some j) \<Longrightarrow> \<not> finished s \<Longrightarrow> work_step t s (wgoto t (W_Tile j (job_cells j)) s)"
| w_null: "gwork s t = W_Check None \<Longrightarrow> \<not> finished s \<Longrightarrow> work_step t s (wgoto t (W_Fault Null_Deref) s)"
| w_cell: "gwork s t = W_Tile j (p # ps) \<Longrightarrow> compute_cell j p (gmats s) = Inr m \<Longrightarrow>
    work_step t s (wgoto t (W_Tile j ps) (s\<lparr>gmats := m\<rparr>))"
| w_cell_fault: "gwork s t = W_Tile j (p # ps) \<Longrightarrow> compute_cell j p (gmats s) = Inl f \<Longrightarrow>
    work_step t s (wgoto t (W_Fault f) s)"
| w_lock: "gwork s t = W_Tile j [] \<Longrightarrow> global_lock s = None \<Longrightarrow>
    work_step t s (wgoto t W_Count (s\<lparr>global_lock := Some t\<rparr>))"
| w_count: "gwork s t = W_Count \<Longrightarrow>
    work_step t s (wgoto t W_Record (s\<lparr>finished_thread_counter := finished_thread_counter s + 1\<rparr>))"
| w_record: "gwork s t = W_Record \<Longrightarrow> work_step t s (wgoto t W_Unlock (s\<lparr>tile_hist := tile_hist s @ [t]\<rparr>))"
| w_unlock: "gwork s t = W_Unlock \<Longrightarrow> work_step t s (wgoto t W_Pop (s\<lparr>global_lock := None\<rparr>))"
| w_exit: "gwork s t = W_Exit \<Longrightarrow> global_lock s = None \<Longrightarrow> work_step t s (wgoto t W_Ended s)"

definition game_step :: "nat \<Rightarrow> board \<Rightarrow> game \<Rightarrow> game \<Rightarrow> bool" where
  "game_step G B s s' \<longleftrightarrow> main_step G B s s' \<or> (\<exists>t < bthreads B. work_step t s s')"

inductive game_reach :: "nat \<Rightarrow> board \<Rightarrow> game \<Rightarrow> bool" for G B where
  game_first: "game_reach G B (game_start B)"
| game_next: "game_reach G B s \<Longrightarrow> game_step G B s s' \<Longrightarrow> game_reach G B s'"

end
