(* ===== verification/Life_Game_Inv.thy ===== *)
theory Life_Game_Inv
  imports Life_Game
begin

text \<open>
  HW3, the invariant of the running game. While a generation is computed (\<open>busy\<close>), the jobs not yet pushed, in
  the queue or with a worker that has not counted them, and those counted make up the number of threads, and
  every cell that is not right yet belongs to one of them. Between generations (\<open>calm\<close>) no job is left. At
  the end (\<open>ending\<close>) there are more null pointers than workers that still have to leave.
\<close>

definition good_board :: "board \<Rightarrow> bool" where
  "good_board B \<longleftrightarrow> board_ok (bheight B) (bwidth B) (brows B) \<and> 0 < bthreads B \<and> bthreads B \<le> bheight B"

definition generation :: "board \<Rightarrow> nat \<Rightarrow> bool_mat" where
  "generation B i = (life_step (bheight B) (bwidth B) ^^ i) (brows B)"

fun work_cells :: "work_pc \<Rightarrow> (int \<times> int) set" where
  "work_cells (W_Check (Some j)) = set (job_cells j)" | "work_cells (W_Tile j ps) = set ps" | "work_cells p = {}"

fun uncounted :: "work_pc \<Rightarrow> bool" where
  "uncounted (W_Check (Some j)) = True" | "uncounted (W_Tile j ps) = True" | "uncounted W_Count = True" | "uncounted p = False"

fun in_lock :: "work_pc \<Rightarrow> bool" where
  "in_lock W_Count = True" | "in_lock W_Record = True" | "in_lock W_Unlock = True" | "in_lock p = False"

fun leaving :: "work_pc \<Rightarrow> bool" where
  "leaving (W_Check None) = True" | "leaving W_Exit = True" | "leaving W_Ended = True" | "leaving p = False"

fun resting :: "work_pc \<Rightarrow> bool" where
  "resting W_Pop = True" | "resting W_Record = True" | "resting W_Unlock = True" | "resting p = False"

abbreviation job_in :: "board \<Rightarrow> game \<Rightarrow> job \<Rightarrow> bool" where
  "job_in B s j \<equiv> job_of (bheight B) (bwidth B) (curr_matrix s) (next_mat s) j"

fun busy_pc :: "(job \<Rightarrow> bool) \<Rightarrow> nat \<Rightarrow> nat \<Rightarrow> work_pc \<Rightarrow> bool" where
  "busy_pc P h w (W_Check (Some j)) = P j" | "busy_pc P h w (W_Tile j ps) = (P j \<and> set ps \<subseteq> inside h w \<and> distinct ps)"
| "busy_pc P h w W_Count = True" | "busy_pc P h w p = resting p"

text \<open>What holds at all times.\<close>

definition settled :: "board \<Rightarrow> game \<Rightarrow> bool" where
  "settled B s \<longleftrightarrow> boards (bheight B) (bwidth B) (curr_matrix s) (next_mat s) (gmats s) \<and>
     (\<forall>t. in_lock (gwork s t) \<longleftrightarrow> global_lock s = Some t) \<and>
     (\<forall>t. bthreads B \<le> t \<longrightarrow> gwork s t = W_Pop) \<and> (\<forall>t f. gwork s t \<noteq> W_Fault f)"

definition calm :: "nat \<Rightarrow> bool_mat \<Rightarrow> game \<Rightarrow> bool" where
  "calm c m s \<longleftrightarrow> \<not> finished s \<and> gqueue s = [] \<and> (\<forall>t. resting (gwork s t)) \<and>
     finished_thread_counter s = c \<and> gmats s (curr_matrix s) = m"

definition still_to_do :: "job list \<Rightarrow> game \<Rightarrow> (int \<times> int) set" where
  "still_to_do js s = (\<Union>j \<in> set js. set (job_cells j)) \<union> (\<Union>j \<in> {j. Some j \<in> set (gqueue s)}. set (job_cells j)) \<union>
     (\<Union>t. work_cells (gwork s t))"

definition busy :: "board \<Rightarrow> job list \<Rightarrow> bool_mat \<Rightarrow> game \<Rightarrow> bool" where
  "busy B js m s \<longleftrightarrow> \<not> finished s \<and> gmats s (curr_matrix s) = m \<and>
     (\<forall>x \<in> set (gqueue s). \<exists>j. x = Some j \<and> job_in B s j) \<and> (\<forall>j \<in> set js. job_in B s j) \<and>
     (\<forall>t. busy_pc (job_in B s) (bheight B) (bwidth B) (gwork s t)) \<and>
     int (finished_thread_counter s) + int (length js) + int (length (gqueue s)) + int (card {t. uncounted (gwork s t)}) =
       int (bthreads B) \<and>
     (\<forall>q \<in> inside (bheight B) (bwidth B). q \<in> still_to_do js s \<or>
        alive (gmats s (next_mat s)) q = next_cell (bheight B) (bwidth B) m q)"

definition ending :: "board \<Rightarrow> nat \<Rightarrow> bool_mat \<Rightarrow> game \<Rightarrow> bool" where
  "ending B k m s \<longleftrightarrow> finished s \<and> gmats s (curr_matrix s) = m \<and> (\<forall>x \<in> set (gqueue s). x = None) \<and>
     (\<forall>t. resting (gwork s t) \<or> leaving (gwork s t)) \<and>
     int k + int (length (gqueue s)) + int (card {t. leaving (gwork s t)}) = int (bthreads B) + 1"

definition next_right :: "board \<Rightarrow> game \<Rightarrow> bool" where
  "next_right B s \<longleftrightarrow> gmats s (next_mat s) = life_step (bheight B) (bwidth B) (gmats s (curr_matrix s))"

fun phase :: "nat \<Rightarrow> board \<Rightarrow> main_pc \<Rightarrow> game \<Rightarrow> bool" where
  "phase G B (M_Gen i) s = (i \<le> G \<and> calm 0 (generation B i) s)"
| "phase G B (M_Push js i) s = (i < G \<and> busy B js (generation B i) s)"
| "phase G B (M_Reset i) s = (i < G \<and> calm (bthreads B) (generation B i) s \<and> next_right B s)"
| "phase G B (M_Swap i) s = (i < G \<and> calm 0 (generation B i) s \<and> next_right B s)"
| "phase G B (M_Time i) s = (i < G \<and> calm 0 (generation B (Suc i)) s)"
| "phase G B (M_Lock i) s = (i < G \<and> calm 0 (generation B (Suc i)) s)"
| "phase G B (M_Null k) s = ending B k (generation B G) s"
| "phase G B (M_Join k) s = (ending B 0 (generation B G) s \<and> k \<le> bthreads B \<and> (\<forall>t < k. gwork s t = W_Ended))"
| "phase G B M_Done s = (ending B 0 (generation B G) s \<and> (\<forall>t < bthreads B. gwork s t = W_Ended))"
| "phase G B (M_Fault f) s = False"

definition ginv :: "nat \<Rightarrow> board \<Rightarrow> game \<Rightarrow> bool" where
  "ginv G B s \<longleftrightarrow> settled B s \<and> phase G B (gmain s) s"

lemma ginv_start: "good_board B \<Longrightarrow> ginv G B (game_start B)"
  by (simp add: ginv_def settled_def game_start_def calm_def boards_def good_board_def generation_def)

subsection \<open>Threads\<close>

text \<open>Only the workers of the pool are anywhere but at \<open>pop\<close>.\<close>

lemma few_workers:
  assumes "settled B s" "\<not> P W_Pop"
  shows "finite {t. P (gwork s t)}" "card {t. P (gwork s t)} \<le> bthreads B"
proof -
  have sub: "{t. P (gwork s t)} \<subseteq> {..<bthreads B}"
  proof
    fix t assume "t \<in> {t. P (gwork s t)}"
    then have "gwork s t \<noteq> W_Pop" using assms(2) by auto
    then show "t \<in> {..<bthreads B}" using assms(1) unfolding settled_def lessThan_iff by (meson not_le)
  qed
  show "finite {t. P (gwork s t)}" using finite_subset [OF sub] by simp
  show "card {t. P (gwork s t)} \<le> bthreads B" using card_mono [OF _ sub] by simp
qed

lemma wgoto_sel [simp]:
  "gqueue (wgoto t p s) = gqueue s" "finished (wgoto t p s) = finished s"
  "finished_thread_counter (wgoto t p s) = finished_thread_counter s" "gmats (wgoto t p s) = gmats s"
  "curr_matrix (wgoto t p s) = curr_matrix s" "next_mat (wgoto t p s) = next_mat s" "tile_hist (wgoto t p s) = tile_hist s"
  "gen_hist (wgoto t p s) = gen_hist s" "global_lock (wgoto t p s) = global_lock s" "gmain (wgoto t p s) = gmain s"
  "gwork (wgoto t p s) = (gwork s)(t := p)"
  by (simp_all add: wgoto_def)

text \<open>A worker moves from its place to \<open>p\<close>.\<close>

lemma settled_move:
  assumes "settled B s" "t < bthreads B" "gwork s' = (gwork s)(t := p)"
    "global_lock s' = (if in_lock p then Some t else if in_lock (gwork s t) then None else global_lock s)"
    "in_lock p \<Longrightarrow> in_lock (gwork s t) \<or> global_lock s = None" "\<And>f. p \<noteq> W_Fault f"
    "curr_matrix s' = curr_matrix s" "next_mat s' = next_mat s"
    "boards (bheight B) (bwidth B) (curr_matrix s) (next_mat s) (gmats s')"
  shows "settled B s'"
proof -
  have l: "in_lock (gwork s u) \<longleftrightarrow> global_lock s = Some u" for u using assms(1) by (simp add: settled_def)
  have "in_lock (gwork s' u) \<longleftrightarrow> global_lock s' = Some u" for u
    using l [of u] l [of t] assms(3,4,5) by (auto split: if_splits)
  with assms show ?thesis by (auto simp: settled_def)
qed

lemma calm_work:
  assumes s: "settled B s" "calm c m s" and t: "t < bthreads B" and w: "work_step t s s'"
  shows "settled B s' \<and> calm c m s' \<and> gmats s' = gmats s \<and> curr_matrix s' = curr_matrix s \<and> next_mat s' = next_mat s \<and>
    gmain s' = gmain s"
proof -
  have r: "resting (gwork s t)" and b: "boards (bheight B) (bwidth B) (curr_matrix s) (next_mat s) (gmats s)"
    using s by (simp_all add: calm_def settled_def)
  from w show ?thesis
  proof cases
    case w_record
    with s b show ?thesis by (auto simp: calm_def intro!: settled_move [OF s(1) t, of _ W_Unlock] simp: settled_def)
  next
    case w_unlock
    with s b show ?thesis by (auto simp: calm_def intro!: settled_move [OF s(1) t, of _ W_Pop])
  qed (use r s in \<open>simp_all add: calm_def\<close>)
qed

lemma todo_move:
  assumes "gwork s' = (gwork s)(t := p)"
    and "\<And>j. Some j \<in> set (gqueue s) \<Longrightarrow> Some j \<in> set (gqueue s') \<or> set (job_cells j) \<subseteq> work_cells p"
    and "q \<in> still_to_do js s" "q \<notin> still_to_do js s'"
  shows "q \<in> work_cells (gwork s t)" "q \<notin> work_cells p"
proof -
  have W: "work_cells (gwork s' u) \<subseteq> still_to_do js s'" for u by (auto simp: still_to_do_def)
  then have p: "q \<notin> work_cells p" using W [of t] assms(1,4) by auto
  from assms(3) consider (job) j where "j \<in> set js" "q \<in> set (job_cells j)"
    | (queue) j where "Some j \<in> set (gqueue s)" "q \<in> set (job_cells j)" | (work) u where "q \<in> work_cells (gwork s u)"
    by (auto simp: still_to_do_def)
  then have "q \<in> work_cells (gwork s t)"
  proof cases
    case work
    then show ?thesis using assms(1,4) W [of u] by (cases "u = t") auto
  qed (use assms(2,4) p in \<open>auto simp: still_to_do_def\<close>)
  with p show "q \<in> work_cells (gwork s t)" "q \<notin> work_cells p" by simp_all
qed

text \<open>The step of a worker while the generation is computed: \<open>W\<close> are the cells it makes right.\<close>

lemma busy_move:
  assumes s: "settled B s" "busy B js m s" and t: "t < bthreads B" and g: "gwork s' = (gwork s)(t := p)"
    and l: "global_lock s' = (if in_lock p then Some t else if in_lock (gwork s t) then None else global_lock s)"
      "in_lock p \<Longrightarrow> in_lock (gwork s t) \<or> global_lock s = None"
    and f: "finished s' = finished s" "curr_matrix s' = curr_matrix s" "next_mat s' = next_mat s"
    and q: "set (gqueue s') \<subseteq> set (gqueue s)"
      "\<And>j. Some j \<in> set (gqueue s) \<Longrightarrow> Some j \<in> set (gqueue s') \<or> set (job_cells j) \<subseteq> work_cells p"
    and p: "busy_pc (job_in B s) (bheight B) (bwidth B) p"
    and n: "int (finished_thread_counter s') + int (length (gqueue s')) + one_if (uncounted p) =
      int (finished_thread_counter s) + int (length (gqueue s)) + one_if (uncounted (gwork s t))"
    and w: "wrote_cells (bheight B) (bwidth B) (curr_matrix s) (next_mat s) (work_cells (gwork s t) - work_cells p)
      (gmats s) (gmats s')"
  shows "settled B s' \<and> busy B js m s'"
proof
  have b: "boards (bheight B) (bwidth B) (curr_matrix s) (next_mat s) (gmats s)" using s(1) by (simp add: settled_def)
  have c: "gmats s' (curr_matrix s) = gmats s (curr_matrix s)" using w b by (simp add: wrote_cells_def boards_def)
  have nf: "p \<noteq> W_Fault e" for e using p by auto
  show "settled B s'"
    by (rule settled_move [OF s(1) t g l nf f(2,3)]) (use w in \<open>simp_all add: wrote_cells_def\<close>)
  have fin: "finite {u. uncounted (gwork s u)}" by (rule few_workers(1) [OF s(1)]) simp
  have "q \<in> still_to_do js s' \<or> alive (gmats s' (next_mat s')) q = next_cell (bheight B) (bwidth B) m q"
    if i: "q \<in> inside (bheight B) (bwidth B)" for q
  proof (cases "q \<in> still_to_do js s \<and> q \<notin> still_to_do js s'")
    case True
    with todo_move [OF g q(2)] have "q \<in> work_cells (gwork s t) - work_cells p" by blast
    with w i s(2) f show ?thesis by (auto simp: wrote_cells_def busy_def)
  next
    case False
    with s(2) i have "q \<in> still_to_do js s' \<or> alive (gmats s (next_mat s)) q = next_cell (bheight B) (bwidth B) m q"
      by (auto simp: busy_def)
    with w i s(2) f(3) show ?thesis by (auto simp: wrote_cells_def busy_def)
  qed
  moreover have "busy_pc (job_in B s') (bheight B) (bwidth B) (gwork s' u)" for u
    using s(2) p f(2,3) by (simp add: g busy_def)
  ultimately show "busy B js m s'"
    using s(2) n f c q(1) count_upd(2) [where P = uncounted, OF fin, of t p] unfolding busy_def g by auto
qed

lemma busy_work:
  assumes s: "settled B s" "busy B js m s" and t: "t < bthreads B" and w: "work_step t s s'"
  shows "settled B s' \<and> busy B js m s' \<and> gmain s' = gmain s"
proof -
  have nf: "\<not> finished s" and p: "busy_pc (job_in B s) (bheight B) (bwidth B) (gwork s t)"
    and b: "boards (bheight B) (bwidth B) (curr_matrix s) (next_mat s) (gmats s)"
    using s by (simp_all add: busy_def settled_def)
  have l: "in_lock (gwork s t) \<longleftrightarrow> global_lock s = Some t" using s(1) by (simp add: settled_def)
  note b0 = wrote_nothing [OF b]
  have "settled B s' \<and> busy B js m s'"
    using w
  proof cases
    case (w_pop x q)
    then obtain j where x: "x = Some j" "job_in B s j" using s(2) by (auto simp: busy_def)
    with w_pop b0 show ?thesis by (intro busy_move [OF s t, of _ "W_Check x"]) auto
  next
    case (w_tile j)
    with p b0 show ?thesis by (intro busy_move [OF s t, of _ "W_Tile j (job_cells j)"]) (auto simp: job_of_def distinct_job_cells)
  next
    case (w_cell j pp ps m')
    then have jb: "job_in B s j" "pp \<in> inside (bheight B) (bwidth B)" using p by auto
    from compute_cell_ok [OF b jb] w_cell(3)
    have wr: "wrote_cells (bheight B) (bwidth B) (curr_matrix s) (next_mat s) {pp} (gmats s) m'" by auto
    have "set (pp # ps) - set ps = {pp}" using w_cell(2) p by auto
    with w_cell p wr show ?thesis by (intro busy_move [OF s t, of _ "W_Tile j ps"]) auto
  next
    case (w_cell_fault j pp ps f)
    then have "job_in B s j" "pp \<in> inside (bheight B) (bwidth B)" using p by auto
    with compute_cell_ok [OF b this] w_cell_fault show ?thesis by auto
  next
    case (w_lock j)
    with b0 show ?thesis by (intro busy_move [OF s t, of _ W_Count]) auto
  next
    case w_count
    with b0 l show ?thesis by (intro busy_move [OF s t, of _ W_Record]) auto
  next
    case w_record
    with b0 l show ?thesis by (intro busy_move [OF s t, of _ W_Unlock]) auto
  next
    case w_unlock
    with b0 l show ?thesis by (intro busy_move [OF s t, of _ W_Pop]) auto
  qed (use nf p in simp_all)
  moreover have "gmain s' = gmain s" using w by cases simp_all
  ultimately show ?thesis by simp
qed

lemma ending_work:
  assumes s: "settled B s" "ending B k m s" and t: "t < bthreads B" and w: "work_step t s s'"
  shows "settled B s' \<and> ending B k m s' \<and> gmain s' = gmain s"
proof -
  have nf: "finished s" and p: "resting (gwork s t) \<or> leaving (gwork s t)"
    and b: "boards (bheight B) (bwidth B) (curr_matrix s) (next_mat s) (gmats s)"
    using s by (simp_all add: ending_def settled_def)
  have fin: "finite {u. leaving (gwork s u)}" by (rule few_workers(1) [OF s(1)]) simp
  have move: "settled B s' \<and> ending B k m s'"
    if "gwork s' = (gwork s)(t := q)" "resting q \<or> leaving q" "\<not> in_lock q \<or> in_lock (gwork s t)"
      "global_lock s' = (if in_lock q then Some t else if in_lock (gwork s t) then None else global_lock s)"
      "finished s' = finished s" "curr_matrix s' = curr_matrix s" "next_mat s' = next_mat s" "gmats s' = gmats s"
      "set (gqueue s') \<subseteq> set (gqueue s)"
      "int (length (gqueue s')) + one_if (leaving q) = int (length (gqueue s)) + one_if (leaving (gwork s t))" for q
  proof
    show "settled B s'" by (rule settled_move [OF s(1) t that(1,4)]) (use that b in auto)
    show "ending B k m s'"
      using s(2) that count_upd(2) [where P = leaving, OF fin, of t q] by (auto simp: ending_def)
  qed
  have l: "in_lock (gwork s t) \<longleftrightarrow> global_lock s = Some t" using s(1) by (simp add: settled_def)
  have "settled B s' \<and> ending B k m s'"
    using w
  proof cases
    case (w_pop x q)
    then have "x = None" using s(2) by (auto simp: ending_def)
    with w_pop show ?thesis by (intro move [of "W_Check None"]) auto
  next
    case (w_break x)
    then have "x = None" using p by (cases x) auto
    with w_break show ?thesis by (intro move [of W_Exit]) auto
  next
    case w_record
    with l show ?thesis by (intro move [of W_Unlock]) auto
  next
    case w_unlock
    with l show ?thesis by (intro move [of W_Pop]) auto
  next
    case w_exit
    then show ?thesis by (intro move [of W_Ended]) auto
  qed (use nf p in simp_all)
  moreover have "gmain s' = gmain s" using w by cases simp_all
  ultimately show ?thesis by simp
qed

lemma ended_stays: "work_step t s s' \<Longrightarrow> gwork s u = W_Ended \<Longrightarrow> gwork s' u = W_Ended"
  by (cases rule: work_step.cases) auto

lemma work_ginv:
  assumes i: "ginv G B s" and t: "t < bthreads B" and w: "work_step t s s'"
  shows "ginv G B s'"
proof -
  have s: "settled B s" and p: "phase G B (gmain s) s" using i by (simp_all add: ginv_def)
  have c: "calm c m s \<Longrightarrow> settled B s' \<and> calm c m s' \<and> gmain s' = gmain s \<and> (next_right B s \<longrightarrow> next_right B s')" for c m
    using calm_work [OF s _ t w] by (simp add: next_right_def)
  note b = busy_work [OF s _ t w] and e = ending_work [OF s _ t w]
  from p show ?thesis
    unfolding ginv_def by (cases "gmain s") (auto dest!: c b e simp: ended_stays [OF w])
qed

subsection \<open>The main thread\<close>

lemma settled_main:
  "settled B s \<Longrightarrow> settled B (s\<lparr>gmain := p\<rparr>)" "settled B s \<Longrightarrow> settled B (s\<lparr>gqueue := q\<rparr>)"
  "settled B s \<Longrightarrow> settled B (s\<lparr>finished_thread_counter := c\<rparr>)" "settled B s \<Longrightarrow> settled B (s\<lparr>finished := f\<rparr>)"
  "settled B s \<Longrightarrow> settled B (s\<lparr>gen_hist := g\<rparr>)"
  "settled B s \<Longrightarrow> settled B (s\<lparr>curr_matrix := next_mat s, next_mat := curr_matrix s\<rparr>)"
  by (auto simp: settled_def boards_def)

lemma calm_main [simp]:
  "calm c m (s\<lparr>gmain := p\<rparr>) = calm c m s" "calm c m (s\<lparr>gen_hist := g\<rparr>) = calm c m s"
  "busy B js m (s\<lparr>gmain := p\<rparr>) = busy B js m s" "ending B k m (s\<lparr>gmain := p\<rparr>) = ending B k m s"
  "next_right B (s\<lparr>gmain := p\<rparr>) = next_right B s" "still_to_do js (s\<lparr>gmain := p\<rparr>) = still_to_do js s"
  by (simp_all add: calm_def busy_def ending_def next_right_def still_to_do_def)

lemma rest_cells: "resting p \<Longrightarrow> work_cells p = {} \<and> \<not> uncounted p \<and> \<not> leaving p \<and> busy_pc P h w p"
  by (cases p) auto

lemma start_busy:
  assumes B: "good_board B" and s: "settled B s" "calm 0 m s"
  obtains js where "step_jobs (curr_matrix s) (next_mat s) (bwidth B) (bheight B) (bthreads B) = Inr js" "busy B js m s"
proof -
  have n: "0 < bthreads B" "bthreads B \<le> bheight B" using B by (simp_all add: good_board_def)
  obtain js where j: "step_jobs (curr_matrix s) (next_mat s) (bwidth B) (bheight B) (bthreads B) = Inr js"
    "length js = bthreads B" "\<forall>jb \<in> set js. job_in B s jb" "inside (bheight B) (bwidth B) \<subseteq> set (concat (map job_cells js))"
    by (rule step_jobs_lines [OF n, of "curr_matrix s" "next_mat s" "bwidth B"])
  have r: "resting (gwork s t)" for t using s(2) by (simp add: calm_def)
  have "busy B js m s"
    using s(2) j(2-4) rest_cells [OF r] unfolding busy_def calm_def still_to_do_def by auto
  with j(1) show ?thesis by (rule that)
qed

lemma all_counted:
  assumes s: "settled B s" "busy B [] m s" and c: "finished_thread_counter s = bthreads B"
  shows "calm (bthreads B) m s" "next_right B s"
proof -
  have fin: "finite {t. uncounted (gwork s t)}" by (rule few_workers(1) [OF s(1)]) simp
  have "int (length (gqueue s)) + int (card {t. uncounted (gwork s t)}) = 0" using s(2) c by (auto simp: busy_def)
  then have q: "gqueue s = []" and "card {t. uncounted (gwork s t)} = 0" by (simp_all flip: of_nat_add)
  then have "{t. uncounted (gwork s t)} = {}" using fin by simp
  then have u: "\<not> uncounted (gwork s t)" for t by blast
  have "busy_pc (job_in B s) (bheight B) (bwidth B) (gwork s t)" for t using s(2) by (simp add: busy_def)
  with u have r: "resting (gwork s t)" for t
    by (cases "(job_in B s, bheight B, bwidth B, gwork s t)" rule: busy_pc.cases) (metis busy_pc.simps uncounted.simps(1-3) prod.inject)+
  show "calm (bthreads B) m s" using s(2) q r c by (simp add: calm_def busy_def)
  have b: "boards (bheight B) (bwidth B) (curr_matrix s) (next_mat s) (gmats s)" using s(1) by (simp add: settled_def)
  have "still_to_do [] s = {}" using q rest_cells [OF r] by (simp add: still_to_do_def)
  then have "alive (gmats s (next_mat s)) p = next_cell (bheight B) (bwidth B) m p"
    if "p \<in> inside (bheight B) (bwidth B)" for p using s(2) that by (simp add: busy_def)
  then show "next_right B s"
    using s(2) b unfolding next_right_def by (intro board_eqI [OF _ life_step_ok]) (auto simp: boards_def life_step_alive busy_def)
qed

lemma main_ginv:
  assumes B: "good_board B" and i: "ginv G B s" and m: "main_step G B s s'"
  shows "ginv G B s'"
proof -
  have s: "settled B s" and p: "phase G B (gmain s) s" using i by (simp_all add: ginv_def)
  note S = settled_main [OF s]
  from m show ?thesis
  proof cases
    case (m_jobs i js)
    with p start_busy [OF B s, of "generation B i"] S show ?thesis by (auto simp: ginv_def)
  next
    case (m_fault i f)
    with p start_busy [OF B s, of "generation B i"] show ?thesis by auto
  next
    case (m_push j js i)
    have "still_to_do js (s\<lparr>gqueue := gqueue s @ [Some j]\<rparr>) = still_to_do (j # js) s" by (auto simp: still_to_do_def)
    then have "busy B js (generation B i) (s\<lparr>gqueue := gqueue s @ [Some j]\<rparr>)"
      using m_push p by (auto simp: busy_def)
    with m_push p S show ?thesis by (simp add: ginv_def settled_main)
  next
    case (m_spin i)
    with i show ?thesis by simp
  next
    case (m_counted i)
    with p all_counted [OF s, of "generation B i"] S show ?thesis by (simp add: ginv_def)
  next
    case (m_reset i)
    with p S show ?thesis by (simp add: ginv_def settled_main calm_def next_right_def)
  next
    case (m_swap i)
    with p S show ?thesis by (simp add: ginv_def settled_main calm_def next_right_def generation_def)
  next
    case (m_time i)
    with p S show ?thesis by (simp add: ginv_def settled_main)
  next
    case (m_lock i)
    with p S show ?thesis by (simp add: ginv_def)
  next
    case (m_finish i)
    then have "i = G" "calm 0 (generation B G) s" using p by auto
    then have "ending B (bthreads B + 1) (generation B G) (s\<lparr>finished := True\<rparr>)"
      using rest_cells by (auto simp: ending_def calm_def)
    with m_finish S show ?thesis by (simp add: ginv_def settled_main)
  next
    case (m_null k)
    with p S show ?thesis by (auto simp: ginv_def settled_main ending_def)
  next
    case m_destroy
    with p S show ?thesis by (simp add: ginv_def)
  next
    case (m_join k)
    with p S show ?thesis by (auto simp: ginv_def less_Suc_eq)
  next
    case (m_done k)
    with p S show ?thesis by (auto simp: ginv_def)
  qed
qed

lemma reach_ginv:
  assumes "game_reach G B s" "good_board B"
  shows "ginv G B s"
  using assms
proof (induction rule: game_reach.induct)
  case (game_next s s')
  then show ?case using main_ginv work_ginv unfolding game_step_def by blast
qed (rule ginv_start)

end
