(* ===== verification/Life_Game_Props.thy ===== *)
theory Life_Game_Props
  imports Life_Game_Inv
begin

text \<open>
  HW3, the game from the file to the last board: what is read, what every interleaving computes, and that no
  run goes on for ever unless the main thread spins while the workers are not let run. \<open>game_work\<close> is the work
  that is left; every step of every thread but a round of the waiting loop makes it smaller.
\<close>

fun item_w :: "job option \<Rightarrow> nat" where
  "item_w None = 3" | "item_w (Some j) = length (job_cells j) + 6"

fun work_w :: "work_pc \<Rightarrow> nat" where
  "work_w (W_Check None) = 2" | "work_w (W_Check (Some j)) = length (job_cells j) + 5"
| "work_w (W_Tile j ps) = length ps + 4" | "work_w W_Count = 3" | "work_w W_Record = 2" | "work_w W_Unlock = 1"
| "work_w W_Exit = 1" | "work_w p = 0"

definition end_w :: "board \<Rightarrow> nat" where "end_w B = 4 * (bthreads B + 1) + bthreads B + 3"
definition gen_w :: "board \<Rightarrow> nat" where "gen_w B = bheight B * bwidth B + 7 * bthreads B + 6"

fun main_w :: "nat \<Rightarrow> board \<Rightarrow> main_pc \<Rightarrow> nat" where
  "main_w G B (M_Gen i) = (G - i) * gen_w B + end_w B"
| "main_w G B (M_Push js i) = (G - Suc i) * gen_w B + sum_list (map (\<lambda>j. item_w (Some j) + 1) js) + 5 + end_w B"
| "main_w G B (M_Reset i) = (G - Suc i) * gen_w B + 4 + end_w B"
| "main_w G B (M_Swap i) = (G - Suc i) * gen_w B + 3 + end_w B"
| "main_w G B (M_Time i) = (G - Suc i) * gen_w B + 2 + end_w B"
| "main_w G B (M_Lock i) = (G - Suc i) * gen_w B + 1 + end_w B"
| "main_w G B (M_Null k) = 4 * k + bthreads B + 2"
| "main_w G B (M_Join k) = Suc (bthreads B - k)"
| "main_w G B M_Done = 0"
| "main_w G B (M_Fault f) = 0"

definition game_work :: "nat \<Rightarrow> board \<Rightarrow> game \<Rightarrow> nat" where
  "game_work G B s = main_w G B (gmain s) + sum_list (map item_w (gqueue s)) + (\<Sum>t < bthreads B. work_w (gwork s t))"

lemma work_upd: "(t :: nat) < n \<Longrightarrow> (\<Sum>u < n. g ((f(t := p)) u)) + g (f t) = (\<Sum>u < n. g (f u)) + (g p :: nat)"
proof -
  assume t: "t < n"
  have s: "(\<Sum>u < n. h u) = h t + (\<Sum>u \<in> {..<n} - {t}. h u)" for h :: "nat \<Rightarrow> nat"
    using t by (simp add: sum.remove)
  have "(\<Sum>u \<in> {..<n} - {t}. g ((f(t := p)) u)) = (\<Sum>u \<in> {..<n} - {t}. g (f u))" by (rule sum.cong) auto
  then show ?thesis using s [of "\<lambda>u. g ((f(t := p)) u)"] s [of "\<lambda>u. g (f u)"] by simp
qed

lemma work_decreases:
  assumes t: "t < bthreads B" and w: "work_step t s s'"
  shows "game_work G B s' < game_work G B s"
proof -
  have u: "(\<Sum>u < bthreads B. work_w ((if u = t then p else gwork s u))) + work_w (gwork s t) =
      (\<Sum>u < bthreads B. work_w (gwork s u)) + work_w p" for p
    using work_upd [OF t, of work_w "gwork s" p] by (simp add: fun_upd_def)
  from w show ?thesis
  proof cases
    case (w_pop x q)
    with u [of "W_Check x"] show ?thesis by (cases x) (auto simp: game_work_def)
  next
    case (w_break x)
    with u [of W_Exit] show ?thesis by (cases x) (auto simp: game_work_def)
  next
    case (w_tile j)
    with u [of "W_Tile j (job_cells j)"] show ?thesis by (auto simp: game_work_def)
  next
    case w_null
    with u [of "W_Fault Null_Deref"] show ?thesis by (auto simp: game_work_def)
  next
    case (w_cell j p ps m)
    with u [of "W_Tile j ps"] show ?thesis by (auto simp: game_work_def)
  next
    case (w_cell_fault j p ps f)
    with u [of "W_Fault f"] show ?thesis by (auto simp: game_work_def)
  next
    case (w_lock j)
    with u [of W_Count] show ?thesis by (auto simp: game_work_def)
  next
    case w_count
    with u [of W_Record] show ?thesis by (auto simp: game_work_def)
  next
    case w_record
    with u [of W_Unlock] show ?thesis by (auto simp: game_work_def)
  next
    case w_unlock
    with u [of W_Pop] show ?thesis by (auto simp: game_work_def)
  next
    case w_exit
    with u [of W_Ended] show ?thesis by (auto simp: game_work_def)
  qed
qed

lemma length_grid: "length [(i, j). i \<leftarrow> xs, j \<leftarrow> ys] = length xs * length ys"
  by (induction xs) auto

lemma job_cells_length: "length (job_cells jb) = length (job_lines jb) * nat (input_width jb)"
  by (simp add: job_cells_def length_grid)

lemma step_jobs_work:
  assumes B: "good_board B" and j: "step_jobs cur nxt (bwidth B) (bheight B) (bthreads B) = Inr js"
  shows "sum_list (map (\<lambda>j. item_w (Some j) + 1) js) + 5 < gen_w B"
proof -
  have n: "0 < bthreads B" "bthreads B \<le> bheight B" using B by (simp_all add: good_board_def)
  obtain J where J: "step_jobs cur nxt (bwidth B) (bheight B) (bthreads B) = Inr J" "length J = bthreads B"
    "concat (map job_lines J) = [0..int (bheight B) - 1]" "\<forall>jb \<in> set J. job_of (bheight B) (bwidth B) cur nxt jb"
    by (rule step_jobs_lines [OF n, of cur nxt "bwidth B"])
  have JJ: "js = J" using j J(1) by simp
  have "sum_list (map (\<lambda>j. item_w (Some j) + 1) xs) = length (concat (map job_lines xs)) * bwidth B + 7 * length xs"
    if "\<forall>jb \<in> set xs. job_of (bheight B) (bwidth B) cur nxt jb" for xs
    using that by (induction xs) (auto simp: job_cells_length job_of_def algebra_simps)
  from this [OF J(4)] show ?thesis unfolding JJ J(3) using J(2) by (simp add: gen_w_def)
qed

text \<open>The main thread is in its waiting loop and would go round again.\<close>

definition spinning :: "board \<Rightarrow> game \<Rightarrow> bool" where
  "spinning B s \<longleftrightarrow> (\<exists>i. gmain s = M_Push [] i) \<and> finished_thread_counter s \<noteq> bthreads B"

lemma spin_stays: "spinning B s \<Longrightarrow> main_step G B s s' \<longleftrightarrow> s' = s"
  unfolding spinning_def by (auto elim: main_step.cases intro: m_spin)

lemma main_decreases:
  assumes B: "good_board B" and m: "main_step G B s s'" and w: "\<not> spinning B s"
  shows "game_work G B s' < game_work G B s"
  using m
proof cases
  case (m_jobs i js)
  then have "G - i = Suc (G - Suc i)" by simp
  with m_jobs step_jobs_work [OF B m_jobs(4)] show ?thesis by (simp add: game_work_def)
next
  case (m_spin i)
  with w show ?thesis by (auto simp: spinning_def)
qed (auto simp: game_work_def end_w_def Suc_diff_le)

text \<open>A step that is not a round of the waiting loop.\<close>

definition advance :: "nat \<Rightarrow> board \<Rightarrow> game \<Rightarrow> game \<Rightarrow> bool" where
  "advance G B s s' \<longleftrightarrow> main_step G B s s' \<and> \<not> spinning B s \<or> (\<exists>t < bthreads B. work_step t s s')"

lemma step_split: "game_step G B s s' \<longleftrightarrow> advance G B s s' \<or> spinning B s \<and> s' = s"
  unfolding game_step_def advance_def using spin_stays by blast

lemma advance_decreases: "good_board B \<Longrightarrow> advance G B s s' \<Longrightarrow> game_work G B s' < game_work G B s"
  unfolding advance_def using main_decreases work_decreases by blast

subsection \<open>No state is stuck before the end\<close>

lemma worker_moves:
  assumes "settled B s" "gwork s t \<noteq> W_Pop" "gwork s t \<noteq> W_Ended" "global_lock s = None \<or> global_lock s = Some t"
  shows "\<exists>s'. advance G B s s'"
proof -
  have t: "t < bthreads B" using assms(1,2) unfolding settled_def by (meson not_le)
  have nf: "gwork s t \<noteq> W_Fault f" for f using assms(1) by (simp add: settled_def)
  have l: "in_lock (gwork s t) \<longleftrightarrow> global_lock s = Some t" using assms(1) by (simp add: settled_def)
  have "\<exists>s'. work_step t s s'"
  proof (cases "gwork s t")
    case (W_Check x)
    then show ?thesis using w_break w_tile w_null by (cases x; cases "finished s") blast+
  next
    case (W_Tile j ps)
    show ?thesis
    proof (cases ps)
      case Nil
      with W_Tile l assms(4) show ?thesis using w_lock by fastforce
    next
      case (Cons p qs)
      with W_Tile show ?thesis using w_cell w_cell_fault by (cases "compute_cell j p (gmats s)") blast+
    qed
  next
    case W_Exit
    with l assms(4) show ?thesis using w_exit by fastforce
  qed (use assms(2,3) nf in \<open>auto intro: work_step.intros\<close>)
  with t show ?thesis unfolding advance_def by blast
qed

lemma popper_moves: "t < bthreads B \<Longrightarrow> gwork s t = W_Pop \<Longrightarrow> gqueue s \<noteq> [] \<Longrightarrow> \<exists>s'. advance G B s s'"
  unfolding advance_def using w_pop by (metis neq_Nil_conv)

lemma spinning_moves:
  assumes B: "good_board B" and i: "ginv G B s" and w: "spinning B s" and l: "global_lock s = None"
  shows "\<exists>s'. advance G B s s'"
proof -
  obtain k where k: "gmain s = M_Push [] k" "finished_thread_counter s \<noteq> bthreads B" using w by (auto simp: spinning_def)
  have s: "settled B s" and b: "busy B [] (generation B k) s" using i k(1) by (simp_all add: ginv_def)
  show ?thesis
  proof (cases "\<exists>t. gwork s t \<noteq> W_Pop")
    case True
    then obtain t where t: "gwork s t \<noteq> W_Pop" by blast
    have "busy_pc (job_in B s) (bheight B) (bwidth B) (gwork s t)" using b by (simp add: busy_def)
    then have "gwork s t \<noteq> W_Ended" by auto
    with worker_moves [OF s t _ disjI1 [OF l]] show ?thesis by blast
  next
    case all: False
    then have "{t. uncounted (gwork s t)} = {}" by simp
    with b k(2) have "gqueue s \<noteq> []" by (auto simp: busy_def)
    moreover have "0 < bthreads B" using B by (simp add: good_board_def)
    ultimately show ?thesis using popper_moves all by blast
  qed
qed

lemma game_moves:
  assumes B: "good_board B" and i: "ginv G B s" and d: "gmain s \<noteq> M_Done"
  shows "\<exists>s'. advance G B s s'"
proof (cases "global_lock s")
  case (Some t)
  have s: "settled B s" using i by (simp add: ginv_def)
  with Some have "in_lock (gwork s t)" by (simp add: settled_def)
  then have "gwork s t \<noteq> W_Pop" "gwork s t \<noteq> W_Ended" by auto
  with worker_moves [OF s] Some show ?thesis by blast
next
  case None
  have s: "settled B s" and p: "phase G B (gmain s) s" using i by (simp_all add: ginv_def)
  note W = worker_moves [OF s _ _ disjI1 [OF None]]
  show ?thesis
  proof (cases "spinning B s")
    case True
    then show ?thesis by (rule spinning_moves [OF B i _ None])
  next
    case ns: False
    have M: "\<exists>s'. main_step G B s s' \<Longrightarrow> ?thesis" using ns unfolding advance_def by blast
    show ?thesis
    proof (cases "gmain s")
      case (M_Gen k)
      then show ?thesis using m_jobs m_fault m_finish
        by (cases "k < G"; cases "step_jobs (curr_matrix s) (next_mat s) (bwidth B) (bheight B) (bthreads B)") (blast intro!: M)+
    next
      case (M_Push js k)
      with ns have "js = [] \<Longrightarrow> finished_thread_counter s = bthreads B" by (auto simp: spinning_def)
      with M_Push show ?thesis using m_push m_counted by (cases js) (blast intro!: M)+
    next
      case (M_Null k)
      then show ?thesis using m_null m_destroy by (cases k) (blast intro!: M)+
    next
      case (M_Join k)
      then have e: "ending B 0 (generation B G) s" using p by simp
      show ?thesis
      proof (cases "k < bthreads B")
        case False
        with M_Join show ?thesis using m_done by (blast intro!: M)
      next
        case k: True
        have "card {t. leaving (gwork s t)} \<le> bthreads B" by (rule few_workers(2) [OF s]) simp
        with e have q: "gqueue s \<noteq> []" by (auto simp: ending_def)
        from k M_Join show ?thesis using m_join W popper_moves [OF k _ q] M by metis
      qed
    next
      case (M_Lock k)
      with None show ?thesis using m_lock by (blast intro!: M)
    next
      case (M_Fault f)
      with p show ?thesis by simp
    qed (use d in \<open>blast intro!: M intro: main_step.intros\<close>)+
  qed
qed

lemma done_stuck:
  assumes "ginv G B s" "gmain s = M_Done"
  shows "\<not> game_step G B s s'"
proof -
  have "gwork s t = W_Ended" if "t < bthreads B" for t using assms that by (simp add: ginv_def)
  then have "\<not> work_step t s s'" if "t < bthreads B" for t using that by (auto elim!: work_step.cases)
  moreover have "\<not> main_step G B s s'" using assms(2) by (auto elim!: main_step.cases)
  ultimately show ?thesis by (auto simp: game_step_def)
qed

lemma reaches_done:
  assumes "good_board B" "game_reach G B s"
  shows "\<exists>s'. game_reach G B s' \<and> gmain s' = M_Done"
  using assms(2)
proof (induction "game_work G B s" arbitrary: s rule: less_induct)
  case less
  show ?case
  proof (cases "gmain s = M_Done")
    case False
    obtain s' where s': "advance G B s s'" using game_moves [OF assms(1) reach_ginv [OF less.prems assms(1)] False] by blast
    then have "game_reach G B s'" using game_next [OF less.prems] by (simp add: step_split)
    then show ?thesis by (rule less.hyps [OF advance_decreases [OF assms(1) s']])
  qed (use less.prems in blast)
qed

text \<open>An infinite schedule comes to a state that it never leaves, with the main thread in its loop.\<close>

lemma nat_settles:
  fixes g :: "nat \<Rightarrow> nat"
  assumes "\<And>n. g (Suc n) \<le> g n"
  shows "\<exists>n. \<forall>m\<ge>n. g m = g n"
proof -
  obtain n where n: "\<And>m. g n \<le> g m" using ex_has_least_nat [of "\<lambda>_. True" 0 g] by auto
  have "g m \<le> g n" if "n \<le> m" for m using lift_Suc_antimono_le [of g, OF assms that] .
  then show ?thesis using n by (intro exI [of _ n]) (simp add: order_antisym)
qed

lemma infinite_spins:
  assumes B: "good_board B" and r: "game_reach G B (f 0)" and st: "\<And>n. game_step G B (f n) (f (Suc n))"
  shows "\<exists>n. spinning B (f n) \<and> (\<forall>m\<ge>n. f m = f n) \<and> (\<exists>t<bthreads B. \<exists>s'. work_step t (f n) s')"
proof -
  have d: "f (Suc n) = f n \<and> spinning B (f n) \<or> game_work G B (f (Suc n)) < game_work G B (f n)" for n
    using st [of n] advance_decreases [OF B] unfolding step_split by blast
  then have "game_work G B (f (Suc n)) \<le> game_work G B (f n)" for n by (metis less_imp_le order_refl)
  then obtain n where n: "\<And>m. n \<le> m \<Longrightarrow> game_work G B (f m) = game_work G B (f n)" using nat_settles [of "\<lambda>n. game_work G B (f n)"] by blast
  have s: "f (Suc m) = f m \<and> spinning B (f m)" if "n \<le> m" for m using d [of m] n [OF that] n [of "Suc m"] that by simp
  have c: "f m = f n" if "n \<le> m" for m using that by (induction m rule: dec_induct) (use s in auto)
  have "game_reach G B (f m)" for m using r st by (induction m) (auto intro: game_next)
  then have i: "ginv G B (f n)" by (rule reach_ginv [OF _ B])
  have sp: "spinning B (f n)" using s [of n] by simp
  then have "gmain (f n) \<noteq> M_Done" by (auto simp: spinning_def)
  then obtain s' where "advance G B (f n) s'" using game_moves [OF B i] by blast
  then show ?thesis using sp c unfolding advance_def by blast
qed

subsection \<open>From the file to the board\<close>

lemma read_board:
  assumes "board_ok h w rows" "0 < h" "0 < w"
  shows "init_board (Some (text_of rows)) n = Some \<lparr>bheight = h, bwidth = w, bthreads = min h n, brows = rows\<rparr>"
proof -
  have r: "length rows = h" "\<forall>r \<in> set rows. length r = w" using assms(1) by (simp_all add: board_ok_def)
  then have ne: "\<forall>r \<in> set rows. r \<noteq> []" "rows \<noteq> []" using assms(2,3) by auto
  have "map (\<lambda>l. vstring_to_vbool (split_on l CHR '' '')) (map line_of rows) = rows"
    using ne(1) parse_line by (simp add: map_idI)
  moreover have "length (split_on (last (map line_of rows)) CHR '' '') = w"
    using ne r(2) split_line_of [of "last rows"] by (simp add: last_map)
  ultimately show ?thesis
    using read_text_of [OF ne(1)] r(1) ne(2) by (simp add: init_board_def min_def)
qed

lemma read_good:
  assumes "board_ok h w rows" "0 < h" "0 < w" "0 < n" "init_board (Some (text_of rows)) n = Some B"
  shows "good_board B" "generation B i = (life_step h w ^^ i) rows" "brows B = rows"
  using assms(1,2,4,5) unfolding read_board [OF assms(1-3)] by (auto simp: good_board_def generation_def)

text \<open>C21: The whole game, from the file to the last board: for a file that holds a rectangular board and at least
  one thread, in every interleaving of the main thread and the workers no thread faults, the board at the
  start of each generation is the board of the file after that many steps of the Game of Life, and when the program is
  at its end the board is the one after the requested number of generations and every worker has ended.\<close>
theorem game_computes_life:
  assumes "board_ok h w rows" and "0 < h" and "0 < w" and "0 < n"
    and "init_board (Some (text_of rows)) n = Some B" and "game_reach G B s"
  shows "(\<forall>f. gmain s \<noteq> M_Fault f) \<and> (\<forall>t f. gwork s t \<noteq> W_Fault f) \<and>
    (\<forall>i. gmain s = M_Gen i \<longrightarrow> i \<le> G \<and> gmats s (curr_matrix s) = (life_step h w ^^ i) rows) \<and>
    (gmain s = M_Done \<longrightarrow> gmats s (curr_matrix s) = (life_step h w ^^ G) rows \<and> (\<forall>t < bthreads B. gwork s t = W_Ended))"
proof -
  note B = read_good [OF assms(1-5)]
  have i: "settled B s" "phase G B (gmain s) s" using reach_ginv [OF assms(6) B(1)] by (simp_all add: ginv_def)
  have "gmats s (curr_matrix s) = generation B k \<and> k \<le> G" if "gmain s = M_Gen k" for k
    using i(2) that by (simp add: calm_def)
  moreover have "gmats s (curr_matrix s) = generation B G \<and> (\<forall>t < bthreads B. gwork s t = W_Ended)" if "gmain s = M_Done"
    using i(2) that by (simp add: ending_def)
  moreover have "gmain s \<noteq> M_Fault f" for f using i(2) by auto
  ultimately show ?thesis using i(1) B(2) by (auto simp: settled_def)
qed

lemma lonely: "life_step (Suc 0) (Suc 0) [[True]] = [[False]]"
proof -
  have "{q \<in> around (0, 0) \<inter> inside (Suc 0) (Suc 0). alive [[True]] q} = {}"
    by (auto simp: around_def inside_def)
  then have "neighbours (Suc 0) (Suc 0) [[True]] (0, 0) = 0" unfolding neighbours_def by (metis card.empty)
  then show ?thesis by (simp add: life_step_def next_cell_def rule_def)
qed

theorem game_computes_life_witness:
  "\<exists>B s. init_board (Some (text_of [[True]])) 4 = Some B \<and> game_reach 1 B s \<and> gmain s = M_Done \<and>
     gmats s (curr_matrix s) = [[False]]"
proof -
  have ok: "board_ok 1 1 [[True]]" by (simp add: board_ok_def)
  obtain B where B: "init_board (Some (text_of [[True]])) 4 = Some B" using read_board [OF ok, of 4] by simp
  have "good_board B" by (rule read_good(1) [OF ok _ _ _ B]) simp_all
  from reaches_done [OF this game_first] obtain s where s: "game_reach 1 B s" "gmain s = M_Done" by blast
  from game_computes_life [OF ok _ _ _ B s(1)] s(2) have "gmats s (curr_matrix s) = [[False]]"
    using lonely by simp
  with B s show ?thesis by blast
qed

text \<open>C22: The game comes to its end under every schedule that lets the workers run. Every step of every thread, but a
  round of the loop in which the main thread waits for the workers, makes the measure \<open>game_work\<close> smaller; such a
  round changes nothing. There is no deadlock: as long as the main thread is not done, having joined all workers,
  some thread can do a step that is not such a round. So the only schedules that run for ever are those that from
  some point on let nothing but the waiting loop run, although a worker could move.\<close>
theorem game_terminates:
  assumes "board_ok h w rows" and "0 < h" and "0 < w" and "0 < n"
    and "init_board (Some (text_of rows)) n = Some B" and "game_reach G B s"
  shows "(\<forall>s'. game_step G B s s' \<longrightarrow> game_work G B s' < game_work G B s \<or> s' = s \<and> spinning B s) \<and>
    ((\<nexists>s'. game_step G B s s' \<and> game_work G B s' < game_work G B s) \<longleftrightarrow> gmain s = M_Done) \<and>
    (\<forall>f. f 0 = s \<longrightarrow> (\<forall>k. game_step G B (f k) (f (Suc k))) \<longrightarrow>
      (\<exists>k. spinning B (f k) \<and> (\<forall>m\<ge>k. f m = f k) \<and> (\<exists>t<bthreads B. \<exists>s'. work_step t (f k) s')))"
proof (intro conjI allI impI)
  have B: "good_board B" by (rule read_good(1) [OF assms(1-5)])
  have i: "ginv G B s" by (rule reach_ginv [OF assms(6) B])
  show "game_work G B s' < game_work G B s \<or> s' = s \<and> spinning B s" if "game_step G B s s'" for s'
    using that advance_decreases [OF B] unfolding step_split by blast
  show "(\<nexists>s'. game_step G B s s' \<and> game_work G B s' < game_work G B s) \<longleftrightarrow> gmain s = M_Done"
    using game_moves [OF B i] done_stuck [OF i] advance_decreases [OF B] unfolding step_split by blast
  show "\<exists>k. spinning B (f k) \<and> (\<forall>m\<ge>k. f m = f k) \<and> (\<exists>t<bthreads B. \<exists>s'. work_step t (f k) s')"
    if "f 0 = s" "\<forall>k. game_step G B (f k) (f (Suc k))" for f
    using infinite_spins [OF B, of G f] assms(6) that by simp
qed

theorem game_terminates_witness:
  "\<exists>B s. init_board (Some (text_of [[True, False], [False, True]])) 9 = Some B \<and> bthreads B = 2 \<and>
     game_step 3 B (game_start B) s \<and> game_work 3 B s < game_work 3 B (game_start B)"
proof -
  have ok: "board_ok 2 2 [[True, False], [False, True]]" by (simp add: board_ok_def)
  obtain B where B: "init_board (Some (text_of [[True, False], [False, True]])) 9 = Some B" "bthreads B = 2"
    using read_board [OF ok, of 9] by simp
  have "gmain (game_start B) \<noteq> M_Done" by (simp add: game_start_def)
  with game_terminates [OF ok _ _ _ B(1) game_first] B show ?thesis by fastforce
qed

subsection \<open>Files the program cannot play\<close>

lemma count_faults: "run_ops (count_cell l c m) ps n = Inl e \<Longrightarrow> e = Out_Of_Bounds"
  by (induction ps arbitrary: n) (auto simp: count_cell_def cell_def split: if_splits prod.splits)

text \<open>Without threads, or without a line in the file, the first generation divides by zero.\<close>

lemma no_threads_crash:
  assumes "bthreads B = 0" and "0 < G" and "gmain s = M_Gen 0"
  shows "main_step G B s s' \<longleftrightarrow> s' = s\<lparr>gmain := M_Fault Div_By_Zero\<rparr>"
proof -
  have "step_jobs (curr_matrix s) (next_mat s) (bwidth B) (bheight B) (bthreads B) = Inl Div_By_Zero"
    using assms(1) by (simp add: step_jobs_def)
  then show ?thesis using assms(2,3) by (auto elim: main_step.cases intro: m_fault)
qed

text \<open>A malformed file is not rejected but crashes the program: on a line with fewer cells than the last line has
  tokens (for instance with two spaces between cells, or a token other than 0 and 1) the worker that reaches a
  missing cell reads outside of the row.\<close>
theorem short_row_crashes:
  assumes "0 \<le> l" and "l < int (length (mats (current_matrix jb)))" and "0 \<le> c"
    and "int (length (mats (current_matrix jb) ! nat l)) \<le> c"
  shows "compute_cell jb (l, c) mats = Inl Out_Of_Bounds"
proof -
  let ?m = "mats (current_matrix jb)" and ?w = "input_width jb"
  have "(if c = ?w - 1 then Some c else if c = 0 then if ?w \<noteq> 1 then Some (c + 1) else None else Some (c + 1)) =
      Some (if c = ?w - 1 then c else c + 1)" by auto
  then obtain ps where ps: "calculate_live_neighbours l c ?w (input_height jb) ?m = run_ops (count_cell l c ?m) ps 0"
    unfolding calculate_live_neighbours_def Let_def by simp
  have "cell ?m l c = Inl Out_Of_Bounds" using assms(4) by (simp add: cell_def)
  then show ?thesis using count_faults [of l c ?m ps 0]
    by (cases "run_ops (count_cell l c ?m) ps 0") (auto simp: compute_cell_def ps)
qed

theorem short_row_crashes_witness:
  "\<exists>B. init_board (Some ''0  1'') 1 = Some B \<and> bwidth B = 3 \<and>
     compute_cell (new_job 0 1 0 0 3 1) (0, 2) (\<lambda>_. brows B) = Inl Out_Of_Bounds"
proof -
  have "init_board (Some ''0  1'') 1 = Some \<lparr>bheight = 1, bwidth = 3, bthreads = 1, brows = [[False, True]]\<rparr>"
    by code_simp
  with short_row_crashes [of 0 "\<lambda>_. [[False, True]]" "new_job 0 1 0 0 3 1" 2] show ?thesis by simp
qed

end
