(* ===== verification/Sys_Cred.thy ===== *)
theory Sys_Cred
  imports Prelude
begin

text \<open>
  HW2, the credentials of a process and the system calls of \<^verbatim>\<open>HW2/kernel/sys.c\<close> that change them:
  \<open>setregid\<close>, \<open>setgid\<close>, \<open>setreuid\<close>, \<open>setuid\<close>, \<open>setresuid\<close>, \<open>setresgid\<close>, \<open>setfsuid\<close>, \<open>setfsgid\<close>, the
  supplementary groups, and \<open>capable\<close> of \<^verbatim>\<open>include/linux/sched.h\<close>.

  The record \<open>proc\<close> holds the fields of \<^verbatim>\<open>task_struct\<close> of the calling process \<^verbatim>\<open>current\<close> that
  \<^verbatim>\<open>sys.c\<close> reads and writes. Identifiers are 32-bit words, \<open>-1\<close> among them; the memory map is absent
  for a kernel thread, and writing its \<open>dumpable\<close> flag is then a null dereference. A \<^verbatim>\<open>user_struct\<close>
  is named by its uid, with its number of processes. What the source takes from headers that are not
  in the repository (capability numbers, the test \<open>cap_raised\<close>, the security bits, \<open>NGROUPS\<close>) is a
  field of \<open>cap_env\<close>; whether \<open>alloc_uid\<close> finds memory is an argument of the call, and so is what a copy
  from user space leaves in the kernel buffer.
\<close>

unbundle bit_operations_syntax

subsection \<open>The process\<close>

record mm_limits =
  dumpable :: bool
  rlimit_rss :: u32

record rlimit =
  rlim_cur :: u32
  rlim_max :: u32

record proc =
  superpriv :: bool
  uid :: u32
  euid :: u32
  suid :: u32
  fsuid :: u32
  gid :: u32
  egid :: u32
  sgid :: u32
  fsgid :: u32
  ngroups :: int
  groups :: "u32 list"
  cap_effective :: u32
  cap_permitted :: u32
  keep_capabilities :: bool
  user :: u32
  processes :: "u32 \<Rightarrow> int"
  mm :: "mm_limits option"
  rlim :: "rlimit list"
  pdeath_signal :: int
  umask :: u32
  utime :: u32
  stime :: u32
  cutime :: u32
  cstime :: u32
  min_flt :: u32
  maj_flt :: u32
  nswap :: u32
  cmin_flt :: u32
  cmaj_flt :: u32
  cnswap :: u32

record cap_env =
  cap_raised :: "u32 \<Rightarrow> nat \<Rightarrow> bool"
  CAP_SETGID :: nat
  CAP_SETUID :: nat
  CAP_SYS_ADMIN :: nat
  CAP_SYS_BOOT :: nat
  CAP_SYS_RESOURCE :: nat
  CAP_FS_MASK :: u32
  NGROUPS :: nat
  secure_noroot :: bool
  secure_no_setuid_fixup :: bool

text \<open>What is relied on: an empty capability set has no capability raised.\<close>

definition cap_env_ok :: "cap_env \<Rightarrow> bool" where
  "cap_env_ok E \<longleftrightarrow> (\<forall>k. \<not> cap_raised E 0 k)"

type_synonym sysret = "fault + (proc \<times> int)"

text \<open>
  What \<open>copy_from_user\<close> leaves in the destination: everything that was asked for, or, when it meets
  a bad address, some contents of the same length.
\<close>

datatype 'a copied = Copied "'a list" | Copy_Failed "'a list"

fun copied_data :: "'a copied \<Rightarrow> 'a list" where
  "copied_data (Copied xs) = xs"
| "copied_data (Copy_Failed xs) = xs"

subsection \<open>Privilege tests\<close>

definition capable :: "cap_env \<Rightarrow> nat \<Rightarrow> proc \<Rightarrow> proc \<times> bool" where
  "capable E cap c =
     (if cap_raised E (cap_effective c) cap then (c\<lparr>superpriv := True\<rparr>, True) else (c, False))"

definition suser :: "cap_env \<Rightarrow> proc \<Rightarrow> proc \<times> bool" where
  "suser E c = (if \<not> secure_noroot E \<and> euid c = 0 then (c\<lparr>superpriv := True\<rparr>, True) else (c, False))"

definition fsuser :: "cap_env \<Rightarrow> proc \<Rightarrow> proc \<times> bool" where
  "fsuser E c = (if \<not> secure_noroot E \<and> fsuid c = 0 then (c\<lparr>superpriv := True\<rparr>, True) else (c, False))"

text \<open>
  The condition \<open>b || capable(cap)\<close>, evaluated only when \<open>asked\<close>; \<open>capable\<close> is not called, and its flag
  not set, when \<open>b\<close> holds.
\<close>

definition permit :: "cap_env \<Rightarrow> bool \<Rightarrow> bool \<Rightarrow> nat \<Rightarrow> proc \<Rightarrow> proc \<times> bool" where
  "permit E asked b cap c = (if asked \<and> \<not> b then capable E cap c else (c, True))"

definition undump :: "proc \<Rightarrow> fault + proc" where
  "undump c = (case mm c of None \<Rightarrow> Inl Null_Deref | Some m \<Rightarrow> Inr (c\<lparr>mm := Some (m\<lparr>dumpable := False\<rparr>)\<rparr>))"

definition undump_if :: "bool \<Rightarrow> proc \<Rightarrow> fault + proc" where
  "undump_if b c = (if b then undump c else Inr c)"

subsection \<open>Group identifiers\<close>

definition sys_setregid :: "cap_env \<Rightarrow> u32 \<Rightarrow> u32 \<Rightarrow> proc \<Rightarrow> sysret" where
  "sys_setregid E r e c =
     (let old_rgid = gid c; old_egid = egid c;
          (c1, ok1) = permit E (r \<noteq> -1) (old_rgid = r \<or> egid c = r) (CAP_SETGID E) c in
      if \<not> ok1 then Inr (c1, - EPERM)
      else let new_rgid = (if r \<noteq> -1 then r else old_rgid);
               (c2, ok2) = permit E (e \<noteq> -1) (old_rgid = e \<or> egid c1 = e \<or> sgid c1 = e) (CAP_SETGID E) c1 in
      if \<not> ok2 then Inr (c2, - EPERM)
      else let new_egid = (if e \<noteq> -1 then e else old_egid) in
           sbind (undump_if (new_egid \<noteq> old_egid) c2) (\<lambda>c3.
             let c4 = (if r \<noteq> -1 \<or> e \<noteq> -1 \<and> e \<noteq> old_rgid then c3\<lparr>sgid := new_egid\<rparr> else c3)
             in Inr (c4\<lparr>fsgid := new_egid, egid := new_egid, gid := new_rgid\<rparr>, 0)))"

definition sys_setgid :: "cap_env \<Rightarrow> u32 \<Rightarrow> proc \<Rightarrow> sysret" where
  "sys_setgid E g c =
     (let old_egid = egid c; (c1, ok) = capable E (CAP_SETGID E) c in
      if ok then sbind (undump_if (old_egid \<noteq> g) c1) (\<lambda>c2.
        Inr (c2\<lparr>gid := g, egid := g, sgid := g, fsgid := g\<rparr>, 0))
      else if g = gid c1 \<or> g = sgid c1 then sbind (undump_if (old_egid \<noteq> g) c1) (\<lambda>c2.
        Inr (c2\<lparr>egid := g, fsgid := g\<rparr>, 0))
      else Inr (c1, - EPERM))"

definition sys_setresgid :: "cap_env \<Rightarrow> u32 \<Rightarrow> u32 \<Rightarrow> u32 \<Rightarrow> proc \<Rightarrow> sysret" where
  "sys_setresgid E r e s c =
     (let (c1, ok) = capable E (CAP_SETGID E) c;
          denied = (\<lambda>x. x \<noteq> -1 \<and> x \<noteq> gid c1 \<and> x \<noteq> egid c1 \<and> x \<noteq> sgid c1) in
      if \<not> ok \<and> (denied r \<or> denied e \<or> denied s) then Inr (c1, - EPERM)
      else sbind (undump_if (e \<noteq> -1 \<and> e \<noteq> egid c1) c1) (\<lambda>c2.
        let c3 = (if e \<noteq> -1 then c2\<lparr>egid := e\<rparr> else c2);
            c4 = c3\<lparr>fsgid := egid c3\<rparr>;
            c5 = (if r \<noteq> -1 then c4\<lparr>gid := r\<rparr> else c4);
            c6 = (if s \<noteq> -1 then c5\<lparr>sgid := s\<rparr> else c5)
        in Inr (c6, 0)))"

definition sys_setfsgid :: "cap_env \<Rightarrow> u32 \<Rightarrow> proc \<Rightarrow> sysret" where
  "sys_setfsgid E g c =
     (let old_fsgid = fsgid c;
          (c1, ok) = permit E True (g = gid c \<or> g = egid c \<or> g = sgid c \<or> g = fsgid c) (CAP_SETGID E) c in
      if ok then sbind (undump_if (g \<noteq> old_fsgid) c1) (\<lambda>c2. Inr (c2\<lparr>fsgid := g\<rparr>, sint old_fsgid))
      else Inr (c1, sint old_fsgid))"

subsection \<open>User identifiers\<close>

text \<open>The three rules that adapt the capabilities to a change of the user identifiers.\<close>

definition cap_emulate_setxuid :: "u32 \<Rightarrow> u32 \<Rightarrow> u32 \<Rightarrow> proc \<Rightarrow> proc" where
  "cap_emulate_setxuid old_ruid old_euid old_suid c =
     (let c1 = (if (old_ruid = 0 \<or> old_euid = 0 \<or> old_suid = 0) \<and>
                   (uid c \<noteq> 0 \<and> euid c \<noteq> 0 \<and> suid c \<noteq> 0) \<and> \<not> keep_capabilities c
                then c\<lparr>cap_permitted := 0, cap_effective := 0\<rparr> else c);
          c2 = (if old_euid = 0 \<and> euid c1 \<noteq> 0 then c1\<lparr>cap_effective := 0\<rparr> else c1)
      in if old_euid \<noteq> 0 \<and> euid c2 = 0 then c2\<lparr>cap_effective := cap_permitted c2\<rparr> else c2)"

definition fixup :: "cap_env \<Rightarrow> u32 \<Rightarrow> u32 \<Rightarrow> u32 \<Rightarrow> proc \<Rightarrow> proc" where
  "fixup E r e s c = (if \<not> secure_no_setuid_fixup E then cap_emulate_setxuid r e s c else c)"

text \<open>\<open>mem\<close> says whether \<open>alloc_uid\<close> returns a \<open>user_struct\<close>.\<close>

definition set_user :: "bool \<Rightarrow> u32 \<Rightarrow> bool \<Rightarrow> proc \<Rightarrow> proc \<times> int" where
  "set_user mem new_ruid dumpclear c =
     (if \<not> mem then (c, - EAGAIN)
      else let pr = processes c;
               pr1 = pr(new_ruid := pr new_ruid + 1);
               c1 = c\<lparr>processes := pr1(user c := pr1 (user c) - 1)\<rparr>;
               c2 = (if dumpclear then c1\<lparr>mm := map_option (dumpable_update (\<lambda>_. False)) (mm c1)\<rparr> else c1)
           in (c2\<lparr>uid := new_ruid, user := new_ruid\<rparr>, 0))"

definition set_user_if :: "bool \<Rightarrow> bool \<Rightarrow> u32 \<Rightarrow> bool \<Rightarrow> proc \<Rightarrow> proc \<times> int" where
  "set_user_if b mem new_ruid dumpclear c = (if b then set_user mem new_ruid dumpclear c else (c, 0))"

definition sys_setreuid :: "cap_env \<Rightarrow> bool \<Rightarrow> u32 \<Rightarrow> u32 \<Rightarrow> proc \<Rightarrow> sysret" where
  "sys_setreuid E mem r e c =
     (let old_ruid = uid c; old_euid = euid c; old_suid = suid c;
          new_ruid = (if r \<noteq> -1 then r else old_ruid);
          (c1, ok1) = permit E (r \<noteq> -1) (old_ruid = r \<or> euid c = r) (CAP_SETUID E) c in
      if \<not> ok1 then Inr (c1, - EPERM)
      else let new_euid = (if e \<noteq> -1 then e else old_euid);
               (c2, ok2) = permit E (e \<noteq> -1) (old_ruid = e \<or> euid c1 = e \<or> suid c1 = e) (CAP_SETUID E) c1 in
      if \<not> ok2 then Inr (c2, - EPERM)
      else let (c3, err) = set_user_if (new_ruid \<noteq> old_ruid) mem new_ruid (new_euid \<noteq> old_euid) c2 in
      if err < 0 then Inr (c3, - EAGAIN)
      else sbind (undump_if (new_euid \<noteq> old_euid) c3) (\<lambda>c4.
        let c5 = c4\<lparr>euid := new_euid, fsuid := new_euid\<rparr>;
            c6 = (if r \<noteq> -1 \<or> e \<noteq> -1 \<and> e \<noteq> old_ruid then c5\<lparr>suid := euid c5\<rparr> else c5);
            c7 = c6\<lparr>fsuid := euid c6\<rparr>
        in Inr (fixup E old_ruid old_euid old_suid c7, 0)))"

definition sys_setuid :: "cap_env \<Rightarrow> bool \<Rightarrow> u32 \<Rightarrow> proc \<Rightarrow> sysret" where
  "sys_setuid E mem u c =
     (let old_euid = euid c; old_ruid = uid c; old_suid = suid c;
          (c1, ok) = capable E (CAP_SETUID E) c;
          (c2, err) = set_user_if (ok \<and> u \<noteq> old_ruid) mem u (old_euid \<noteq> u) c1;
          new_suid = (if ok then u else old_suid) in
      if err < 0 then Inr (c2, - EAGAIN)
      else if \<not> ok \<and> u \<noteq> uid c2 \<and> u \<noteq> new_suid then Inr (c2, - EPERM)
      else sbind (undump_if (old_euid \<noteq> u) c2) (\<lambda>c3.
        Inr (fixup E old_ruid old_euid old_suid (c3\<lparr>euid := u, fsuid := u, suid := new_suid\<rparr>), 0)))"

definition sys_setresuid :: "cap_env \<Rightarrow> bool \<Rightarrow> u32 \<Rightarrow> u32 \<Rightarrow> u32 \<Rightarrow> proc \<Rightarrow> sysret" where
  "sys_setresuid E mem r e s c =
     (let old_ruid = uid c; old_euid = euid c; old_suid = suid c;
          (c1, ok) = capable E (CAP_SETUID E) c;
          denied = (\<lambda>x. x \<noteq> -1 \<and> x \<noteq> uid c1 \<and> x \<noteq> euid c1 \<and> x \<noteq> suid c1) in
      if \<not> ok \<and> (denied r \<or> denied e \<or> denied s) then Inr (c1, - EPERM)
      else let (c2, err) = set_user_if (r \<noteq> -1 \<and> r \<noteq> uid c1) mem r (e \<noteq> euid c1) c1 in
      if err < 0 then Inr (c2, - EAGAIN)
      else sbind (undump_if (e \<noteq> -1 \<and> e \<noteq> euid c2) c2) (\<lambda>c3.
        let c4 = (if e \<noteq> -1 then c3\<lparr>euid := e\<rparr> else c3);
            c5 = c4\<lparr>fsuid := euid c4\<rparr>;
            c6 = (if s \<noteq> -1 then c5\<lparr>suid := s\<rparr> else c5)
        in Inr (fixup E old_ruid old_euid old_suid c6, 0)))"

definition sys_setfsuid :: "cap_env \<Rightarrow> u32 \<Rightarrow> proc \<Rightarrow> sysret" where
  "sys_setfsuid E u c =
     (let old_fsuid = fsuid c;
          (c1, ok) = permit E True (u = uid c \<or> u = euid c \<or> u = suid c \<or> u = fsuid c) (CAP_SETUID E) c in
      sbind (undump_if (ok \<and> u \<noteq> old_fsuid) c1) (\<lambda>c2.
        let c3 = (if ok then c2\<lparr>fsuid := u\<rparr> else c2);
            c4 = (if \<not> secure_no_setuid_fixup E \<and> old_fsuid = 0 \<and> fsuid c3 \<noteq> 0
                  then c3\<lparr>cap_effective := cap_effective c3 AND NOT (CAP_FS_MASK E)\<rparr> else c3);
            c5 = (if \<not> secure_no_setuid_fixup E \<and> old_fsuid \<noteq> 0 \<and> fsuid c4 = 0
                  then c4\<lparr>cap_effective := cap_effective c4 OR (cap_permitted c4 AND CAP_FS_MASK E)\<rparr> else c4)
        in Inr (c5, sint old_fsuid)))"

subsection \<open>Reading the identifiers\<close>

text \<open>
  The arguments say which of the three user pointers are writable; the result has the return value
  and the values written, in order. A failed \<open>put_user\<close> ends the call.
\<close>

definition put_three :: "u32 \<Rightarrow> u32 \<Rightarrow> u32 \<Rightarrow> bool \<Rightarrow> bool \<Rightarrow> bool \<Rightarrow> int \<times> u32 list" where
  "put_three x y z p q r =
     (if \<not> p then (- EFAULT, []) else if \<not> q then (- EFAULT, [x])
      else if \<not> r then (- EFAULT, [x, y]) else (0, [x, y, z]))"

definition sys_getresuid :: "bool \<Rightarrow> bool \<Rightarrow> bool \<Rightarrow> proc \<Rightarrow> int \<times> u32 list" where
  "sys_getresuid p q r c = put_three (uid c) (euid c) (suid c) p q r"

definition sys_getresgid :: "bool \<Rightarrow> bool \<Rightarrow> bool \<Rightarrow> proc \<Rightarrow> int \<times> u32 list" where
  "sys_getresgid p q r c = put_three (gid c) (egid c) (sgid c) p q r"

subsection \<open>Supplementary groups\<close>

definition sys_getgroups :: "int \<Rightarrow> bool \<Rightarrow> proc \<Rightarrow> int \<times> u32 list" where
  "sys_getgroups gidsetsize writable c =
     (if gidsetsize < 0 then (- EINVAL, [])
      else let i = ngroups c in
        if gidsetsize \<noteq> 0
        then if i > gidsetsize then (- EINVAL, [])
             else if i \<noteq> 0 \<and> \<not> writable then (- EFAULT, [])
             else (i, take (nat i) (groups c))
        else (i, []))"

definition sys_setgroups :: "cap_env \<Rightarrow> int \<Rightarrow> u32 copied \<Rightarrow> proc \<Rightarrow> sysret" where
  "sys_setgroups E gidsetsize grouplist c =
     (let (c1, ok) = capable E (CAP_SETGID E) c in
      if \<not> ok then Inr (c1, - EPERM)
      else if unat (of_int gidsetsize :: u32) > NGROUPS E then Inr (c1, - EINVAL)
      else let n = nat gidsetsize;
               c2 = c1\<lparr>groups := copied_data grouplist @ drop n (groups c1)\<rparr> in
           case grouplist of
             Copy_Failed _ \<Rightarrow> Inr (c2, - EFAULT)
           | Copied _ \<Rightarrow> Inr (c2\<lparr>ngroups := gidsetsize\<rparr>, 0))"

text \<open>The loop reads upwards from the first group, with \<open>i\<close> groups still to compare.\<close>

function sgm_loop :: "u32 list \<Rightarrow> u32 \<Rightarrow> nat \<Rightarrow> int \<Rightarrow> fault + int" where
  "sgm_loop gs grp pos i =
     (if length gs \<le> pos then Inl Out_Of_Bounds
      else if gs ! pos = grp then Inr 1
      else if i - 1 \<noteq> 0 then sgm_loop gs grp (pos + 1) (i - 1) else Inr 0)"
  by pat_completeness auto
termination by (relation "measure (\<lambda>(gs, grp, pos, i). length gs - pos)") auto

declare sgm_loop.simps [simp del]

definition supplemental_group_member :: "u32 \<Rightarrow> proc \<Rightarrow> fault + int" where
  "supplemental_group_member grp c =
     (let i = ngroups c in if i \<noteq> 0 then sgm_loop (groups c) grp 0 i else Inr 0)"

definition in_group_p :: "u32 \<Rightarrow> proc \<Rightarrow> fault + int" where
  "in_group_p grp c = (if grp \<noteq> fsgid c then supplemental_group_member grp c else Inr 1)"

definition in_egroup_p :: "u32 \<Rightarrow> proc \<Rightarrow> fault + int" where
  "in_egroup_p grp c = (if grp \<noteq> egid c then supplemental_group_member grp c else Inr 1)"

subsection \<open>Membership in a group\<close>

definition groups_ok :: "proc \<Rightarrow> bool" where
  "groups_ok c \<longleftrightarrow> 0 \<le> ngroups c \<and> ngroups c \<le> int (length (groups c))"

lemma sgm_loop_iff:
  assumes "0 < i" "int pos + i \<le> int (length gs)"
  shows "sgm_loop gs grp pos i = Inr (if grp \<in> set (take (nat i) (drop pos gs)) then 1 else 0)"
  using assms
proof (induction gs grp pos i rule: sgm_loop.induct)
  case (1 gs grp pos i)
  then have p: "pos < length gs" by simp
  then have d: "drop pos gs = gs ! pos # drop (pos + 1) gs" by (simp add: Cons_nth_drop_Suc)
  have n: "nat i = Suc (nat (i - 1))" using 1(2) by simp
  show ?case
  proof (cases "gs ! pos \<noteq> grp \<and> i - 1 \<noteq> 0")
    case True
    then have "sgm_loop gs grp (pos + 1) (i - 1) =
        Inr (if grp \<in> set (take (nat (i - 1)) (drop (pos + 1) gs)) then 1 else 0)"
      using p 1(2,3) by (intro 1(1)) auto
    with True p show ?thesis by (subst sgm_loop.simps) (auto simp: d n)
  next
    case False
    with p show ?thesis by (subst sgm_loop.simps) (auto simp: d n)
  qed
qed

lemma supplemental_group_member_iff:
  assumes "groups_ok c"
  shows "supplemental_group_member grp c =
    Inr (if grp \<in> set (take (nat (ngroups c)) (groups c)) then 1 else 0)"
  using assms sgm_loop_iff [of "ngroups c" 0 "groups c" grp]
  by (auto simp: supplemental_group_member_def groups_ok_def Let_def)

end
