(* ===== verification/Sys_Misc.thy ===== *)
theory Sys_Misc
  imports Sys_Cred
begin

text \<open>
  HW2, the remaining system calls of \<^verbatim>\<open>HW2/kernel/sys.c\<close> on the calling process and the system name:
  \<open>times\<close>, \<open>newuname\<close>, \<open>sethostname\<close>, \<open>gethostname\<close>, \<open>setdomainname\<close>, the resource limits, \<open>getrusage\<close>,
  \<open>umask\<close> and \<open>prctl\<close>. A name is an array of \<open>NEW_UTS_LEN + 1\<close> characters; \<^verbatim>\<open>strlen\<close> that finds no NUL in
  the array reads out of bounds. The numbers of \<^verbatim>\<open>linux/resource.h\<close>, \<^verbatim>\<open>linux/prctl.h\<close> and
  \<^verbatim>\<open>linux/utsname.h\<close>, which are not in the repository, are fields of \<open>sys_abi\<close>.
\<close>

record sys_abi =
  NEW_UTS_LEN :: nat
  RLIM_NLIMITS :: nat
  RLIMIT_NOFILE :: nat
  RLIMIT_RSS :: nat
  RLIM_INFINITY :: u32
  NR_OPEN :: u32
  PAGE_SHIFT :: nat
  RUSAGE_SELF :: int
  RUSAGE_CHILDREN :: int
  S_IRWXUGO :: u32
  NSIG :: int
  PR_SET_PDEATHSIG :: int
  PR_GET_PDEATHSIG :: int
  PR_GET_DUMPABLE :: int
  PR_SET_DUMPABLE :: int
  PR_GET_KEEPCAPS :: int
  PR_SET_KEEPCAPS :: int

definition sys_ni_syscall :: int where "sys_ni_syscall = - ENOSYS"

subsection \<open>Times\<close>

definition sys_times :: "(u32 \<Rightarrow> u32) \<Rightarrow> u32 \<Rightarrow> unit uptr \<Rightarrow> proc \<Rightarrow> int \<times> u32 list" where
  "sys_times hz_to_std jiffies tbuf c =
     (case tbuf of
        U_Null \<Rightarrow> (sint (hz_to_std jiffies), [])
      | U_Bad \<Rightarrow> (- EFAULT, [])
      | U_Val _ \<Rightarrow> (sint (hz_to_std jiffies),
          [hz_to_std (utime c), hz_to_std (stime c), hz_to_std (cutime c), hz_to_std (cstime c)]))"

subsection \<open>The system name\<close>

record utsname =
  sysname :: string
  nodename :: string
  release :: string
  version :: string
  machine :: string
  domainname :: string

abbreviation NUL :: char where "NUL \<equiv> CHR 0x00"

fun strlen :: "string \<Rightarrow> fault + nat" where
  "strlen [] = Inl Out_Of_Bounds"
| "strlen (x # xs) = (if x = NUL then Inr 0 else sbind (strlen xs) (\<lambda>n. Inr (Suc n)))"

definition sys_newuname :: "bool \<Rightarrow> utsname \<Rightarrow> int \<times> utsname option" where
  "sys_newuname writable u = (if writable then (0, Some u) else (- EFAULT, None))"

text \<open>
  The first \<open>len\<close> characters of the array are overwritten by the copy, and a complete copy is
  terminated.
\<close>

definition put_name :: "int \<Rightarrow> char copied \<Rightarrow> string \<Rightarrow> string \<times> int" where
  "put_name len name old =
     (let new = copied_data name @ drop (nat len) old in
      case name of Copied _ \<Rightarrow> (new[nat len := NUL], 0) | Copy_Failed _ \<Rightarrow> (new, - EFAULT))"

definition sys_sethostname ::
  "cap_env \<Rightarrow> sys_abi \<Rightarrow> char copied \<Rightarrow> int \<Rightarrow> proc \<times> utsname \<Rightarrow> (proc \<times> utsname) \<times> int" where
  "sys_sethostname E B name len cu =
     (let (c, ok) = capable E (CAP_SYS_ADMIN E) (fst cu); u = snd cu in
      if \<not> ok then ((c, u), - EPERM)
      else if len < 0 \<or> len > int (NEW_UTS_LEN B) then ((c, u), - EINVAL)
      else let (s, err) = put_name len name (nodename u) in ((c, u\<lparr>nodename := s\<rparr>), err))"

definition sys_setdomainname ::
  "cap_env \<Rightarrow> sys_abi \<Rightarrow> char copied \<Rightarrow> int \<Rightarrow> proc \<times> utsname \<Rightarrow> (proc \<times> utsname) \<times> int" where
  "sys_setdomainname E B name len cu =
     (let (c, ok) = capable E (CAP_SYS_ADMIN E) (fst cu); u = snd cu in
      if \<not> ok then ((c, u), - EPERM)
      else if len < 0 \<or> len > int (NEW_UTS_LEN B) then ((c, u), - EINVAL)
      else let (s, err) = put_name len name (domainname u) in ((c, u\<lparr>domainname := s\<rparr>), err))"

definition sys_gethostname :: "bool \<Rightarrow> int \<Rightarrow> utsname \<Rightarrow> fault + (int \<times> string)" where
  "sys_gethostname writable len u =
     (if len < 0 then Inr (- EINVAL, [])
      else sbind (strlen (nodename u)) (\<lambda>n.
        let i = (if 1 + int n > len then len else 1 + int n) in
        if i \<noteq> 0 \<and> \<not> writable then Inr (- EFAULT, []) else Inr (0, take (nat i) (nodename u))))"

subsection \<open>Resource limits\<close>

definition sys_getrlimit :: "sys_abi \<Rightarrow> u32 \<Rightarrow> bool \<Rightarrow> proc \<Rightarrow> fault + (int \<times> rlimit option)" where
  "sys_getrlimit B resource writable c =
     (if unat resource \<ge> RLIM_NLIMITS B then Inr (- EINVAL, None)
      else if unat resource \<ge> length (rlim c) then Inl Out_Of_Bounds
      else if writable then Inr (0, Some (rlim c ! unat resource)) else Inr (- EFAULT, None))"

definition sys_old_getrlimit :: "sys_abi \<Rightarrow> u32 \<Rightarrow> bool \<Rightarrow> proc \<Rightarrow> fault + (int \<times> rlimit option)" where
  "sys_old_getrlimit B resource writable c =
     (if unat resource \<ge> RLIM_NLIMITS B then Inr (- EINVAL, None)
      else if unat resource \<ge> length (rlim c) then Inl Out_Of_Bounds
      else let x = rlim c ! unat resource;
               x1 = (if rlim_cur x > 0x7FFFFFFF then x\<lparr>rlim_cur := 0x7FFFFFFF\<rparr> else x);
               x2 = (if rlim_max x1 > 0x7FFFFFFF then x1\<lparr>rlim_max := 0x7FFFFFFF\<rparr> else x1)
           in if writable then Inr (0, Some x2) else Inr (- EFAULT, None))"

definition sys_setrlimit :: "cap_env \<Rightarrow> sys_abi \<Rightarrow> u32 \<Rightarrow> rlimit uptr \<Rightarrow> proc \<Rightarrow> sysret" where
  "sys_setrlimit E B resource lim c =
     (if unat resource \<ge> RLIM_NLIMITS B then Inr (c, - EINVAL)
      else case lim of
        U_Val new_rlim \<Rightarrow>
          (if unat resource \<ge> length (rlim c) then Inl Out_Of_Bounds
           else let old = rlim c ! unat resource;
                    (c1, ok) = permit E (rlim_cur new_rlim > rlim_max old \<or> rlim_max new_rlim > rlim_max old)
                                 False (CAP_SYS_RESOURCE E) c in
                if \<not> ok then Inr (c1, - EPERM)
                else if unat resource = RLIMIT_NOFILE B \<and>
                        (rlim_cur new_rlim > NR_OPEN B \<or> rlim_max new_rlim > NR_OPEN B)
                then Inr (c1, - EPERM)
                else let pages = (if rlim_cur new_rlim \<noteq> RLIM_INFINITY B
                                  then drop_bit (PAGE_SHIFT B) (rlim_cur new_rlim) else RLIM_INFINITY B);
                         c2 = (if unat resource \<noteq> RLIMIT_NOFILE B \<and> unat resource = RLIMIT_RSS B
                               then c1\<lparr>mm := map_option (rlimit_rss_update (\<lambda>_. pages)) (mm c1)\<rparr> else c1)
                     in Inr (c2\<lparr>rlim := (rlim c2)[unat resource := new_rlim]\<rparr>, 0))
      | _ \<Rightarrow> Inr (c, - EFAULT))"

subsection \<open>Resource usage\<close>

definition CT_TO_SECS :: "u32 \<Rightarrow> u32 \<Rightarrow> u32" where "CT_TO_SECS hz x = x div hz"

definition CT_TO_USECS :: "u32 \<Rightarrow> u32 \<Rightarrow> u32" where
  "CT_TO_USECS hz x = (x mod hz) * 1000000 div hz"

record rusage =
  ru_utime :: "u32 \<times> u32"
  ru_stime :: "u32 \<times> u32"
  ru_minflt :: u32
  ru_majflt :: u32
  ru_nswap :: u32

definition timeval :: "u32 \<Rightarrow> u32 \<Rightarrow> u32 \<times> u32" where
  "timeval hz x = (CT_TO_SECS hz x, CT_TO_USECS hz x)"

definition getrusage :: "sys_abi \<Rightarrow> u32 \<Rightarrow> proc \<Rightarrow> int \<Rightarrow> bool \<Rightarrow> int \<times> rusage option" where
  "getrusage B hz p who writable =
     (let r = (if who = RUSAGE_SELF B then
                 \<lparr>ru_utime = timeval hz (utime p), ru_stime = timeval hz (stime p),
                  ru_minflt = min_flt p, ru_majflt = maj_flt p, ru_nswap = nswap p\<rparr>
               else if who = RUSAGE_CHILDREN B then
                 \<lparr>ru_utime = timeval hz (cutime p), ru_stime = timeval hz (cstime p),
                  ru_minflt = cmin_flt p, ru_majflt = cmaj_flt p, ru_nswap = cnswap p\<rparr>
               else
                 \<lparr>ru_utime = timeval hz (utime p + cutime p), ru_stime = timeval hz (stime p + cstime p),
                  ru_minflt = min_flt p + cmin_flt p, ru_majflt = maj_flt p + cmaj_flt p,
                  ru_nswap = nswap p + cnswap p\<rparr>)
      in if writable then (0, Some r) else (- EFAULT, None))"

definition sys_getrusage :: "sys_abi \<Rightarrow> u32 \<Rightarrow> int \<Rightarrow> bool \<Rightarrow> proc \<Rightarrow> int \<times> rusage option" where
  "sys_getrusage B hz who writable c =
     (if who \<noteq> RUSAGE_SELF B \<and> who \<noteq> RUSAGE_CHILDREN B then (- EINVAL, None)
      else getrusage B hz c who writable)"

subsection \<open>umask and prctl\<close>

definition sys_umask :: "sys_abi \<Rightarrow> int \<Rightarrow> proc \<Rightarrow> proc \<times> int" where
  "sys_umask B msk c = (c\<lparr>umask := of_int msk AND S_IRWXUGO B\<rparr>, sint (umask c))"

text \<open>
  The alignment and floating-point options are compiled to \<open>-EINVAL\<close> where the architecture defines no
  macro for them, as the default is. The result carries the value written through \<^verbatim>\<open>arg2\<close>, if any.
\<close>

definition sys_prctl :: "sys_abi \<Rightarrow> int \<Rightarrow> u32 \<Rightarrow> bool \<Rightarrow> proc \<Rightarrow> fault + (proc \<times> int \<times> int option)" where
  "sys_prctl B option arg2 writable c =
     (if option = PR_SET_PDEATHSIG B then
        (let sig = sint arg2 in
         if sig < 0 \<or> sig > NSIG B then Inr (c, - EINVAL, None)
         else Inr (c\<lparr>pdeath_signal := sig\<rparr>, 0, None))
      else if option = PR_GET_PDEATHSIG B then
        (if writable then Inr (c, 0, Some (pdeath_signal c)) else Inr (c, - EFAULT, None))
      else if option = PR_GET_DUMPABLE B then
        (case mm c of None \<Rightarrow> Inl Null_Deref | Some m \<Rightarrow> Inr (c, if dumpable m then 1 else 0, None))
      else if option = PR_SET_DUMPABLE B then
        (if arg2 \<noteq> 0 \<and> arg2 \<noteq> 1 then Inr (c, - EINVAL, None)
         else case mm c of None \<Rightarrow> Inl Null_Deref
           | Some m \<Rightarrow> Inr (c\<lparr>mm := Some (m\<lparr>dumpable := (arg2 \<noteq> 0)\<rparr>)\<rparr>, 0, None))
      else if option = PR_GET_KEEPCAPS B then Inr (c, if keep_capabilities c then 1 else 0, None)
      else if option = PR_SET_KEEPCAPS B then
        (if arg2 \<noteq> 0 \<and> arg2 \<noteq> 1 then Inr (c, - EINVAL, None)
         else Inr (c\<lparr>keep_capabilities := (arg2 \<noteq> 0)\<rparr>, 0, None))
      else Inr (c, - EINVAL, None))"

subsection \<open>Properties of the names\<close>

definition name_ok :: "sys_abi \<Rightarrow> string \<Rightarrow> bool" where
  "name_ok B s \<longleftrightarrow> length s = Suc (NEW_UTS_LEN B) \<and> s ! NEW_UTS_LEN B = NUL"

lemma strlen_at: "NUL \<in> set s \<Longrightarrow> strlen s = Inr (length (takeWhile (\<lambda>x. x \<noteq> NUL) s))"
  by (induction s) auto

lemma name_ok_strlen: "name_ok B s \<Longrightarrow> strlen s = Inr (length (takeWhile (\<lambda>x. x \<noteq> NUL) s))"
  by (rule strlen_at) (auto simp: name_ok_def in_set_conv_nth)

lemma put_name_ok:
  assumes "name_ok B s" "length (copied_data xs) = nat len" "0 \<le> len" "len \<le> int (NEW_UTS_LEN B)"
    "put_name len xs s = (t, r)"
  shows "name_ok B t"
proof -
  have "t = (copied_data xs @ drop (nat len) s) \<or> t = (copied_data xs @ drop (nat len) s)[nat len := NUL]"
    using assms(5) by (cases xs) (auto simp: put_name_def)
  moreover have "name_ok B (copied_data xs @ drop (nat len) s)"
    using assms(1-4) by (auto simp: name_ok_def nth_append)
  moreover have "name_ok B (a[i := NUL])" if "name_ok B a" for a i
    using that by (cases "i = NEW_UTS_LEN B") (simp_all add: name_ok_def)
  ultimately show ?thesis by blast
qed

lemma put_name_takeWhile:
  assumes "name_ok B s" "length xs = nat len" "0 \<le> len" "len \<le> int (NEW_UTS_LEN B)" "NUL \<notin> set xs"
    "put_name len (Copied xs) s = (t, r)"
  shows "r = 0 \<and> takeWhile (\<lambda>x. x \<noteq> NUL) t = xs \<and> take (Suc (nat len)) t = xs @ [NUL]"
proof -
  have l: "nat len < length s" using assms(1,3,4) by (simp add: name_ok_def)
  have "t = xs @ (drop (nat len) s)[0 := NUL]" "r = 0"
    using assms(2,6) by (auto simp: put_name_def list_update_append)
  moreover have "drop (nat len) s = s ! nat len # drop (Suc (nat len)) s"
    using l by (simp add: Cons_nth_drop_Suc)
  ultimately have t: "t = xs @ NUL # drop (Suc (nat len)) s" and r: "r = 0" by simp_all
  have "takeWhile (\<lambda>x. x \<noteq> NUL) t = xs"
    using assms(5) unfolding t by (subst takeWhile_append2) auto
  with t r assms(2) show ?thesis by simp
qed

subsection \<open>Microseconds\<close>

lemma CT_TO_USECS_bound:
  assumes "0 < hz" "hz \<le> 1024"
  shows "CT_TO_USECS hz x < 1000000"
proof -
  have h: "0 < unat hz" "unat hz \<le> 1024" using assms by (simp_all add: word_less_nat_alt word_le_nat_alt)
  have m: "unat (x mod hz) = unat x mod unat hz" by (rule unat_mod)
  then have l: "unat (x mod hz) < unat hz" using h by simp
  then have "unat (x mod hz) * 1000000 < 2 ^ 32" using h by simp
  then have "unat ((x mod hz) * 1000000) = unat (x mod hz) * 1000000"
    by (simp add: unat_word_ariths)
  then have "unat (CT_TO_USECS hz x) = unat (x mod hz) * 1000000 div unat hz"
    by (simp add: CT_TO_USECS_def unat_div)
  also have "\<dots> < 1000000" using l h by (simp add: div_less_iff_less_mult)
  finally show ?thesis by (simp add: word_less_nat_alt)
qed

end
