(* ===== verification/Sys_Confine.thy ===== *)
theory Sys_Confine
  imports Sys_Misc
begin

text \<open>
  HW2, what the calls of \<^verbatim>\<open>HW2/kernel/sys.c\<close> let a process do to itself. \<open>proc_step\<close> is one call of the
  process on its own \<^verbatim>\<open>task_struct\<close>. The invariant \<open>confined\<close> compares the process with an earlier
  state: no capability, no identifier that it did not have then, the same supplementary groups, no
  higher hard limit. It is kept by every call, which the contract \<open>safe_machine\<close> turns into a
  statement on all sequences of calls. The theorem on \<open>setuid\<close> shows how a privileged process gets
  into that state.
\<close>

datatype proc_call =
    Call_setregid u32 u32
  | Call_setgid u32
  | Call_setresgid u32 u32 u32
  | Call_setfsgid u32
  | Call_setreuid bool u32 u32
  | Call_setuid bool u32
  | Call_setresuid bool u32 u32 u32
  | Call_setfsuid u32
  | Call_setgroups int "u32 copied"
  | Call_setrlimit u32 "rlimit uptr"
  | Call_umask int
  | Call_prctl int u32 bool

fun proc_step :: "cap_env \<Rightarrow> sys_abi \<Rightarrow> proc_call \<Rightarrow> proc \<Rightarrow> fault + proc" where
  "proc_step E B (Call_setregid r e) c = map_sum id fst (sys_setregid E r e c)"
| "proc_step E B (Call_setgid g) c = map_sum id fst (sys_setgid E g c)"
| "proc_step E B (Call_setresgid r e s) c = map_sum id fst (sys_setresgid E r e s c)"
| "proc_step E B (Call_setfsgid g) c = map_sum id fst (sys_setfsgid E g c)"
| "proc_step E B (Call_setreuid m r e) c = map_sum id fst (sys_setreuid E m r e c)"
| "proc_step E B (Call_setuid m u) c = map_sum id fst (sys_setuid E m u c)"
| "proc_step E B (Call_setresuid m r e s) c = map_sum id fst (sys_setresuid E m r e s c)"
| "proc_step E B (Call_setfsuid u) c = map_sum id fst (sys_setfsuid E u c)"
| "proc_step E B (Call_setgroups n gs) c = map_sum id fst (sys_setgroups E n gs c)"
| "proc_step E B (Call_setrlimit r l) c = map_sum id fst (sys_setrlimit E B r l c)"
| "proc_step E B (Call_umask m) c = Inr (fst (sys_umask B m c))"
| "proc_step E B (Call_prctl opt a w) c = map_sum id fst (sys_prctl B opt a w c)"

subsection \<open>The confinement invariant\<close>

definition uids :: "proc \<Rightarrow> u32 set" where "uids c = {uid c, euid c, suid c}"
definition gids :: "proc \<Rightarrow> u32 set" where "gids c = {gid c, egid c, sgid c}"

definition same_groups :: "proc \<Rightarrow> proc \<Rightarrow> bool" where
  "same_groups c0 c \<longleftrightarrow> groups c = groups c0 \<and> ngroups c = ngroups c0"

definition limits_below :: "proc \<Rightarrow> proc \<Rightarrow> bool" where
  "limits_below c0 c \<longleftrightarrow> length (rlim c) = length (rlim c0) \<and>
     (\<forall>i<length (rlim c0). rlim_max (rlim c ! i) \<le> rlim_max (rlim c0 ! i) \<and>
        rlim_cur (rlim c ! i) \<le> max (rlim_cur (rlim c0 ! i)) (rlim_max (rlim c0 ! i)))"

definition powerless :: "proc \<Rightarrow> bool" where
  "powerless c \<longleftrightarrow> cap_effective c = 0 \<and> cap_permitted c = 0 \<and> mm c \<noteq> None"

definition own_ids :: "proc \<Rightarrow> proc \<Rightarrow> bool" where
  "own_ids c0 c \<longleftrightarrow>
     uid c \<in> uids c0 \<and> euid c \<in> uids c0 \<and> suid c \<in> uids c0 \<and> fsuid c \<in> insert (fsuid c0) (uids c0) \<and>
     gid c \<in> gids c0 \<and> egid c \<in> gids c0 \<and> sgid c \<in> gids c0 \<and> fsgid c \<in> insert (fsgid c0) (gids c0)"

definition confined :: "sys_abi \<Rightarrow> proc \<Rightarrow> proc \<Rightarrow> bool" where
  "confined B c0 c \<longleftrightarrow> powerless c \<and> superpriv c = superpriv c0 \<and> own_ids c0 c \<and>
     same_groups c0 c \<and> limits_below c0 c \<and> RLIM_NLIMITS B \<le> length (rlim c)"

lemma confined_powerless: "confined B c0 c \<Longrightarrow> powerless c"
  by (simp add: confined_def)

lemma confined_refl: "powerless c \<Longrightarrow> RLIM_NLIMITS B \<le> length (rlim c) \<Longrightarrow> confined B c c"
  by (simp add: confined_def own_ids_def uids_def gids_def same_groups_def limits_below_def)

text \<open>Under the invariant every test of a capability fails and leaves the process as it is.\<close>

lemma powerless_capable: "cap_env_ok E \<Longrightarrow> powerless c \<Longrightarrow> capable E cap c = (c, False)"
  by (simp add: capable_def cap_env_ok_def powerless_def)

lemma powerless_permit:
  "cap_env_ok E \<Longrightarrow> powerless c \<Longrightarrow> permit E asked b cap c = (c, asked \<longrightarrow> b)"
  by (simp add: permit_def powerless_capable)

lemma undump_if_mapped:
  assumes "mm c \<noteq> None"
  obtains m where "undump_if b c = Inr (c\<lparr>mm := Some m\<rparr>)"
proof -
  from assms obtain m where m: "mm c = Some m" by auto
  show thesis
  proof (cases b)
    case True
    with m that show thesis by (simp add: undump_if_def undump_def)
  next
    case False
    have "c = c\<lparr>mm := Some m\<rparr>" using m by simp
    with False that show thesis by (simp add: undump_if_def)
  qed
qed

text \<open>An outcome that keeps the confinement.\<close>

definition keeps :: "sys_abi \<Rightarrow> proc \<Rightarrow> fault + (proc \<times> 'r) \<Rightarrow> bool" where
  "keeps B c0 out \<longleftrightarrow> (\<exists>c r. out = Inr (c, r) \<and> confined B c0 c)"

lemma keeps_Inr [simp]: "keeps B c0 (Inr (c, r)) \<longleftrightarrow> confined B c0 c"
  by (simp add: keeps_def)

lemma keeps_undump:
  assumes "powerless c" "\<And>m. keeps B c0 (f (c\<lparr>mm := Some m\<rparr>))"
  shows "keeps B c0 (sbind (undump_if b c) f)"
  using undump_if_mapped [of c b] assms by (metis powerless_def sbind_simps(2))

text \<open>
  Assigning an identifier that belongs to the process, clearing the \<open>dumpable\<close> flag, and the
  adaptation of the capabilities keep the confinement.
\<close>

named_theorems confine

lemma confined_set_id [confine]:
  "confined B c0 c \<Longrightarrow> x \<in> uids c0 \<Longrightarrow> confined B c0 (c\<lparr>uid := x\<rparr>)"
  "confined B c0 c \<Longrightarrow> x \<in> uids c0 \<Longrightarrow> confined B c0 (c\<lparr>euid := x\<rparr>)"
  "confined B c0 c \<Longrightarrow> x \<in> uids c0 \<Longrightarrow> confined B c0 (c\<lparr>suid := x\<rparr>)"
  "confined B c0 c \<Longrightarrow> x \<in> insert (fsuid c0) (uids c0) \<Longrightarrow> confined B c0 (c\<lparr>fsuid := x\<rparr>)"
  "confined B c0 c \<Longrightarrow> x \<in> gids c0 \<Longrightarrow> confined B c0 (c\<lparr>gid := x\<rparr>)"
  "confined B c0 c \<Longrightarrow> x \<in> gids c0 \<Longrightarrow> confined B c0 (c\<lparr>egid := x\<rparr>)"
  "confined B c0 c \<Longrightarrow> x \<in> gids c0 \<Longrightarrow> confined B c0 (c\<lparr>sgid := x\<rparr>)"
  "confined B c0 c \<Longrightarrow> x \<in> insert (fsgid c0) (gids c0) \<Longrightarrow> confined B c0 (c\<lparr>fsgid := x\<rparr>)"
  by (simp_all add: confined_def own_ids_def powerless_def same_groups_def limits_below_def)

lemma confined_set_other [confine]:
  "confined B c0 c \<Longrightarrow> z \<noteq> None \<Longrightarrow> confined B c0 (c\<lparr>mm := z\<rparr>)"
  "confined B c0 c \<Longrightarrow> confined B c0 (c\<lparr>cap_effective := 0\<rparr>)"
  "confined B c0 c \<Longrightarrow> confined B c0 (c\<lparr>user := v\<rparr>)"
  "confined B c0 c \<Longrightarrow> confined B c0 (c\<lparr>processes := pr\<rparr>)"
  "confined B c0 c \<Longrightarrow> confined B c0 (c\<lparr>umask := w\<rparr>)"
  "confined B c0 c \<Longrightarrow> confined B c0 (c\<lparr>pdeath_signal := n\<rparr>)"
  "confined B c0 c \<Longrightarrow> confined B c0 (c\<lparr>keep_capabilities := k\<rparr>)"
  by (simp_all add: confined_def own_ids_def powerless_def same_groups_def limits_below_def)

lemma confined_id:
  assumes "confined B c0 c"
  shows "uid c \<in> uids c0" "euid c \<in> uids c0" "suid c \<in> uids c0" "fsuid c \<in> insert (fsuid c0) (uids c0)"
    "gid c \<in> gids c0" "egid c \<in> gids c0" "sgid c \<in> gids c0" "fsgid c \<in> insert (fsgid c0) (gids c0)"
    "cap_effective c = 0" "cap_permitted c = 0" "mm c \<noteq> None"
  using assms by (simp_all add: confined_def own_ids_def powerless_def)

lemma confined_shadow:
  "confined B c0 c \<Longrightarrow> confined B c0 (c\<lparr>fsuid := euid c\<rparr>)"
  "confined B c0 c \<Longrightarrow> confined B c0 (c\<lparr>fsgid := egid c\<rparr>)"
  using confined_id [of B c0 c] by (simp_all add: confined_set_id)

lemma confined_fixup [confine]:
  assumes "confined B c0 c"
  shows "confined B c0 (fixup E r e s c)"
proof -
  have "fixup E r e s c = c"
    using confined_id(9,10) [OF assms] by (simp add: fixup_def cap_emulate_setxuid_def)
  with assms show ?thesis by simp
qed

lemma confined_if [confine]:
  "(b \<Longrightarrow> confined B c0 c) \<Longrightarrow> (\<not> b \<Longrightarrow> confined B c0 d) \<Longrightarrow> confined B c0 (if b then c else d)"
  by simp

lemma keeps_if [confine]:
  "(b \<Longrightarrow> keeps B c0 x) \<Longrightarrow> (\<not> b \<Longrightarrow> keeps B c0 y) \<Longrightarrow> keeps B c0 (if b then x else y)"
  by simp

lemma set_user_if_confined:
  assumes "confined B c0 c" "b \<Longrightarrow> x \<in> uids c0" "set_user_if b mem x d c = (c', err)"
  shows "confined B c0 c'"
proof -
  have "confined B c0 (fst (set_user_if b mem x d c))"
    using assms(1,2) using confined_id(11) [OF assms(1)]
    by (auto simp: set_user_if_def set_user_def Let_def intro!: confine)
  with assms(3) show ?thesis by simp
qed

text \<open>The calls. In each, the tests of capabilities fail and the conditions leave only own identifiers.\<close>

lemma sys_setregid_keeps:
  assumes E: "cap_env_ok E" and c: "confined B c0 c"
  shows "keeps B c0 (sys_setregid E r e c)"
proof -
  note p = confined_powerless [OF c] and i = confined_id [OF c]
  show ?thesis
    using c i
    by (auto simp: sys_setregid_def powerless_permit [OF E p] powerless_capable [OF E p] Let_def set_user_if_def
        intro!: confine keeps_undump [OF p])
qed

lemma sys_setgid_keeps:
  assumes E: "cap_env_ok E" and c: "confined B c0 c"
  shows "keeps B c0 (sys_setgid E g c)"
proof -
  note p = confined_powerless [OF c] and i = confined_id [OF c]
  show ?thesis
    using c i
    by (auto simp: sys_setgid_def powerless_permit [OF E p] powerless_capable [OF E p] Let_def set_user_if_def
        intro!: confine keeps_undump [OF p])
qed

lemma sys_setresgid_keeps:
  assumes E: "cap_env_ok E" and c: "confined B c0 c"
  shows "keeps B c0 (sys_setresgid E r e s c)"
proof -
  note p = confined_powerless [OF c] and i = confined_id [OF c]
  let ?denied = "\<lambda>x. x \<noteq> -1 \<and> x \<noteq> gid c \<and> x \<noteq> egid c \<and> x \<noteq> sgid c"
  show ?thesis
  proof (cases "?denied r \<or> ?denied e \<or> ?denied s")
    case True
    then show ?thesis using c by (simp add: sys_setresgid_def powerless_capable [OF E p] Let_def)
  next
    case False
    then have m: "r \<noteq> -1 \<Longrightarrow> r \<in> gids c0" "e \<noteq> -1 \<Longrightarrow> e \<in> gids c0" "s \<noteq> -1 \<Longrightarrow> s \<in> gids c0"
      using i by auto
    show ?thesis
      unfolding sys_setresgid_def powerless_capable [OF E p] Let_def prod.case
    proof (rule keeps_if)
      show "keeps B c0 (Inr (c, - EPERM))" using c by simp
    qed (intro keeps_undump [OF p], unfold keeps_Inr, intro confined_shadow confine c; simp add: m)
  qed
qed

lemma sys_setfsgid_keeps:
  assumes E: "cap_env_ok E" and c: "confined B c0 c"
  shows "keeps B c0 (sys_setfsgid E g c)"
proof -
  note p = confined_powerless [OF c] and i = confined_id [OF c]
  show ?thesis
    using c i
    by (auto simp: sys_setfsgid_def powerless_permit [OF E p] powerless_capable [OF E p] Let_def set_user_if_def
        intro!: confine keeps_undump [OF p])
qed

lemma sys_setreuid_keeps:
  assumes E: "cap_env_ok E" and c: "confined B c0 c"
  shows "keeps B c0 (sys_setreuid E mem r e c)"
proof -
  note p = confined_powerless [OF c] and i = confined_id [OF c]
  let ?r = "if r \<noteq> -1 then r else uid c" and ?e = "if e \<noteq> -1 then e else euid c"
  obtain c3 err where s: "set_user_if (?r \<noteq> uid c) mem ?r (?e \<noteq> euid c) c = (c3, err)" by fastforce
  show ?thesis
  proof (cases "(r \<noteq> -1 \<longrightarrow> uid c = r \<or> euid c = r) \<and> (e \<noteq> -1 \<longrightarrow> uid c = e \<or> euid c = e \<or> suid c = e)")
    case True
    then have re: "?r \<in> uids c0" "?e \<in> uids c0" using i by auto
    have c3: "confined B c0 c3" by (rule set_user_if_confined [OF c re(1) s])
    show ?thesis
      unfolding sys_setreuid_def powerless_permit [OF E p] Let_def prod.case s
      using c c3 re True by (simp del: if_split_mem1) (intro confine keeps_undump confined_powerless conjI impI; auto intro!: confine)
  next
    case False
    then show ?thesis using c by (auto simp: sys_setreuid_def powerless_permit [OF E p] Let_def)
  qed
qed

lemma sys_setuid_keeps:
  assumes E: "cap_env_ok E" and c: "confined B c0 c"
  shows "keeps B c0 (sys_setuid E mem u c)"
proof -
  note p = confined_powerless [OF c] and i = confined_id [OF c]
  show ?thesis
    using c i
    by (auto simp: sys_setuid_def powerless_permit [OF E p] powerless_capable [OF E p] Let_def set_user_if_def
        intro!: confine keeps_undump [OF p])
qed

lemma sys_setresuid_keeps:
  assumes E: "cap_env_ok E" and c: "confined B c0 c"
  shows "keeps B c0 (sys_setresuid E mem r e s c)"
proof -
  note p = confined_powerless [OF c] and i = confined_id [OF c]
  let ?denied = "\<lambda>x. x \<noteq> -1 \<and> x \<noteq> uid c \<and> x \<noteq> euid c \<and> x \<noteq> suid c"
  obtain c3 err where s: "set_user_if (r \<noteq> -1 \<and> r \<noteq> uid c) mem r (e \<noteq> euid c) c = (c3, err)" by fastforce
  show ?thesis
  proof (cases "?denied r \<or> ?denied e \<or> ?denied s")
    case True
    then show ?thesis using c by (simp add: sys_setresuid_def powerless_capable [OF E p] Let_def)
  next
    case False
    then have m: "r \<noteq> -1 \<Longrightarrow> r \<in> uids c0" "e \<noteq> -1 \<Longrightarrow> e \<in> uids c0" "s \<noteq> -1 \<Longrightarrow> s \<in> uids c0"
      using i by auto
    have c3: "confined B c0 c3" using set_user_if_confined [OF c _ s] m by blast
    note p3 = confined_powerless [OF c3] and i3 = confined_id [OF c3]
    show ?thesis
      unfolding sys_setresuid_def powerless_capable [OF E p] Let_def prod.case s
    proof (intro keeps_if)
      show "keeps B c0 (Inr (c, - EPERM))" using c by simp
      show "keeps B c0 (Inr (c3, - EAGAIN))" using c3 by simp
    qed (intro keeps_undump [OF p3], unfold keeps_Inr, intro confined_shadow confine c3; simp add: m)
  qed
qed

lemma sys_setfsuid_keeps:
  assumes E: "cap_env_ok E" and c: "confined B c0 c"
  shows "keeps B c0 (sys_setfsuid E u c)"
proof -
  note p = confined_powerless [OF c] and i = confined_id [OF c]
  show ?thesis
    using c i
    by (auto simp: sys_setfsuid_def powerless_permit [OF E p] powerless_capable [OF E p] Let_def set_user_if_def
        intro!: confine keeps_undump [OF p])
qed

lemma sys_setgroups_keeps:
  assumes "cap_env_ok E" "confined B c0 c"
  shows "keeps B c0 (sys_setgroups E n gs c)"
  using assms by (simp add: sys_setgroups_def powerless_capable [OF _ confined_powerless])

lemma confined_rlim:
  assumes c: "confined B c0 c" and xs: "xs = rlim c"
    and l: "rlim_cur l \<le> rlim_max (xs ! i)" "rlim_max l \<le> rlim_max (xs ! i)"
  shows "confined B c0 (c\<lparr>rlim := xs[i := l]\<rparr>)"
proof -
  have b: "limits_below c0 c" using c by (simp add: confined_def)
  have "rlim_max (xs[i := l] ! j) \<le> rlim_max (rlim c0 ! j) \<and>
      rlim_cur (xs[i := l] ! j) \<le> max (rlim_cur (rlim c0 ! j)) (rlim_max (rlim c0 ! j))"
    if j: "j < length (rlim c0)" for j
  proof -
    have "rlim_max (xs ! j) \<le> rlim_max (rlim c0 ! j) \<and>
        rlim_cur (xs ! j) \<le> max (rlim_cur (rlim c0 ! j)) (rlim_max (rlim c0 ! j))"
      using b j xs by (auto simp: limits_below_def)
    then show ?thesis
      using l b j xs by (cases "i = j") (auto simp: limits_below_def le_max_iff_disj)
  qed
  then have "limits_below c0 (c\<lparr>rlim := xs[i := l]\<rparr>)"
    using b xs by (simp add: limits_below_def)
  with c xs show ?thesis by (simp add: confined_def own_ids_def powerless_def same_groups_def)
qed

lemma sys_setrlimit_keeps:
  assumes E: "cap_env_ok E" and c: "confined B c0 c"
  shows "keeps B c0 (sys_setrlimit E B r l c)"
proof -
  note p = confined_powerless [OF c]
  have n: "RLIM_NLIMITS B \<le> length (rlim c)" "mm c \<noteq> None"
    using c by (simp_all add: confined_def powerless_def)
  show ?thesis
  proof (cases l)
    case (U_Val x)
    then show ?thesis
      using c n by (auto simp: sys_setrlimit_def powerless_permit [OF E p] Let_def not_less
          intro!: confined_set_other confined_rlim)
  qed (use c in \<open>auto simp: sys_setrlimit_def\<close>)
qed

lemma sys_prctl_keeps:
  assumes c: "confined B c0 c"
  shows "keeps B c0 (sys_prctl B opt a w c)"
  using c confined_id(11) [OF c] by (auto simp: sys_prctl_def Let_def intro!: confine)

lemma sys_umask_keeps: "confined B c0 c \<Longrightarrow> confined B c0 (fst (sys_umask B m c))"
  by (simp add: sys_umask_def confine)

lemma keeps_step: "keeps B c0 out \<Longrightarrow> \<exists>c. map_sum id fst out = Inr c \<and> confined B c0 c"
  by (auto simp: keeps_def)

lemma proc_step_safe:
  assumes "cap_env_ok E" "confined B c0 c"
  shows "\<exists>c'. proc_step E B x c = Inr c' \<and> confined B c0 c'"
  using assms
  by (cases x) (auto intro!: keeps_step sys_setregid_keeps sys_setgid_keeps sys_setresgid_keeps
      sys_setfsgid_keeps sys_setreuid_keeps sys_setuid_keeps sys_setresuid_keeps sys_setfsuid_keeps
      sys_setgroups_keeps sys_setrlimit_keeps sys_prctl_keeps sys_umask_keeps)

text \<open>Calls in the environment \<open>E\<close> that meets its conditions; outside of them nothing is promised.\<close>

definition proc_inv :: "cap_env \<Rightarrow> sys_abi \<Rightarrow> proc \<Rightarrow> proc \<Rightarrow> bool" where
  "proc_inv E B c0 c \<longleftrightarrow> cap_env_ok E \<and> confined B c0 c"

interpretation pc: safe_machine "proc_step E B" "\<lambda>_ _. True" "proc_inv E B c0" for E B c0
  by unfold_locales (simp add: proc_inv_def proc_step_safe)

lemma confined_run:
  assumes "cap_env_ok E" "confined B c0 c"
  shows "\<exists>c'. run_ops (proc_step E B) calls c = Inr c' \<and> confined B c0 c'"
  using pc.run_safe_static [of E B c0 c calls] assms by (simp add: proc_inv_def)

end
