(* ===== verification/Sys_Confine_Props.thy ===== *)
theory Sys_Confine_Props
  imports Sys_Confine
begin

text \<open>
  HW2, the properties of the credential calls of \<^verbatim>\<open>HW2/kernel/sys.c\<close>: what a process without
  capabilities cannot do, how \<open>setuid\<close> gives up privileges for good, and the places where the code
  and its comments disagree or a failed call leaves a change behind.
\<close>

subsection \<open>A concrete environment and a root process\<close>

definition demo_cap :: cap_env where
  "demo_cap = \<lparr>cap_raised = bit, CAP_SETGID = 6, CAP_SETUID = 7, CAP_SYS_ADMIN = 21, CAP_SYS_BOOT = 22,
     CAP_SYS_RESOURCE = 24, CAP_FS_MASK = 31, NGROUPS = 32, secure_noroot = False,
     secure_no_setuid_fixup = False\<rparr>"

definition demo_abi :: sys_abi where
  "demo_abi = \<lparr>NEW_UTS_LEN = 64, RLIM_NLIMITS = 11, RLIMIT_NOFILE = 7, RLIMIT_RSS = 5,
     RLIM_INFINITY = 0x7FFFFFFF, NR_OPEN = 1048576, PAGE_SHIFT = 12, RUSAGE_SELF = 0,
     RUSAGE_CHILDREN = -1, S_IRWXUGO = 511, NSIG = 64, PR_SET_PDEATHSIG = 1, PR_GET_PDEATHSIG = 2,
     PR_GET_DUMPABLE = 3, PR_SET_DUMPABLE = 4, PR_GET_KEEPCAPS = 7, PR_SET_KEEPCAPS = 8\<rparr>"

definition demo_proc :: "u32 \<Rightarrow> u32 \<Rightarrow> proc" where
  "demo_proc u caps = \<lparr>superpriv = False, uid = u, euid = u, suid = u, fsuid = u,
     gid = 100, egid = 100, sgid = 100, fsgid = 100, ngroups = 1, groups = replicate 32 100,
     cap_effective = caps, cap_permitted = caps, keep_capabilities = False,
     user = u, processes = (\<lambda>_. 1), mm = Some \<lparr>dumpable = True, rlimit_rss = 0\<rparr>,
     rlim = replicate 11 \<lparr>rlim_cur = 1024, rlim_max = 2048\<rparr>, pdeath_signal = 0, umask = 18,
     utime = 0, stime = 0, cutime = 0, cstime = 0, min_flt = 0, maj_flt = 0, nswap = 0,
     cmin_flt = 0, cmaj_flt = 0, cnswap = 0\<rparr>"

lemma demo_cap_ok: "cap_env_ok demo_cap"
  by (simp add: cap_env_ok_def demo_cap_def)

subsection \<open>Confinement\<close>

text \<open>C27: A process whose effective and permitted capability sets are empty gains nothing by any
  sequence of the calls that change credentials and limits, whatever their arguments: no call
  faults, both sets stay empty, every user and group identifier is one that it had before, the
  supplementary groups are untouched, and no hard limit is higher than it was.\<close>

theorem powerless_process_stays_confined:
  assumes "cap_env_ok E" "cap_effective c = 0" "cap_permitted c = 0" "mm c \<noteq> None"
    "RLIM_NLIMITS B \<le> length (rlim c)"
  shows "\<exists>c'. run_ops (proc_step E B) calls c = Inr c' \<and>
    cap_effective c' = 0 \<and> cap_permitted c' = 0 \<and>
    {uid c', euid c', suid c'} \<subseteq> {uid c, euid c, suid c} \<and>
    fsuid c' \<in> {fsuid c, uid c, euid c, suid c} \<and>
    {gid c', egid c', sgid c'} \<subseteq> {gid c, egid c, sgid c} \<and>
    fsgid c' \<in> {fsgid c, gid c, egid c, sgid c} \<and>
    groups c' = groups c \<and> ngroups c' = ngroups c \<and>
    (\<forall>i<length (rlim c). rlim_max (rlim c' ! i) \<le> rlim_max (rlim c ! i))"
proof -
  have "confined B c c" using assms(2-5) by (intro confined_refl) (simp_all add: powerless_def)
  from confined_run [OF assms(1) this, of calls]
  obtain c' where r: "run_ops (proc_step E B) calls c = Inr c'" and c': "confined B c c'" by blast
  have "{uid c', euid c', suid c'} \<subseteq> uids c" "{gid c', egid c', sgid c'} \<subseteq> gids c"
    using confined_id(1-3,5-7) [OF c'] by simp_all
  moreover have "groups c' = groups c" "ngroups c' = ngroups c" "limits_below c c'"
    using c' by (simp_all add: confined_def same_groups_def)
  ultimately show ?thesis
    using r confined_id(4,8-10) [OF c'] unfolding uids_def gids_def limits_below_def by blast
qed

theorem powerless_process_stays_confined_witness:
  "\<exists>c'. run_ops (proc_step demo_cap demo_abi)
      [Call_setuid True 0, Call_setreuid True 0 0, Call_setrlimit 3 (U_Val \<lparr>rlim_cur = 9, rlim_max = 4096\<rparr>)]
      (demo_proc 1000 0) = Inr c' \<and> {uid c', euid c', suid c'} \<subseteq> {1000} \<and> cap_effective c' = 0"
  using powerless_process_stays_confined [OF demo_cap_ok, of "demo_proc 1000 0" demo_abi
      "[Call_setuid True 0, Call_setreuid True 0 0, Call_setrlimit 3 (U_Val \<lparr>rlim_cur = 9, rlim_max = 4096\<rparr>)]"]
  by (auto simp: demo_proc_def demo_abi_def)

subsection \<open>Giving up privileges\<close>

lemma set_user_success:
  "\<exists>c'. set_user_if b True u d c = (c', 0) \<and> uid c' = (if b then u else uid c) \<and>
     (mm c' = None \<longleftrightarrow> mm c = None) \<and> keep_capabilities c' = keep_capabilities c \<and> rlim c' = rlim c"
  by (cases b; cases d) (simp_all add: set_user_if_def set_user_def Let_def)

lemma permit_raised:
  assumes "cap_raised E (cap_effective c) cap"
  shows "permit E asked b cap c = (c\<lparr>superpriv := superpriv c \<or> asked \<and> \<not> b\<rparr>, True)"
proof (cases "asked \<and> \<not> b")
  case True
  with assms show ?thesis by (simp add: permit_def capable_def)
next
  case False
  then have e: "(superpriv c \<or> asked \<and> \<not> b) = superpriv c" by blast
  have "permit E asked b cap c = (c, True)" using False by (auto simp: permit_def)
  then show ?thesis unfolding e by simp
qed

lemma permit_not_asked: "permit E False b cap c = (c, True)"
  by (simp add: permit_def)

lemma setuid_capable:
  assumes "cap_raised E (cap_effective c) (CAP_SETUID E)" "mm c \<noteq> None" "u \<noteq> 0"
    "uid c = 0 \<or> euid c = 0 \<or> suid c = 0" "\<not> keep_capabilities c" "\<not> secure_no_setuid_fixup E"
  obtains c1 where "sys_setuid E True u c = Inr (c1, 0)" "uid c1 = u" "euid c1 = u" "suid c1 = u" "fsuid c1 = u"
    "cap_effective c1 = 0" "cap_permitted c1 = 0" "mm c1 \<noteq> None" "rlim c1 = rlim c"
proof -
  let ?c = "c\<lparr>superpriv := True\<rparr>"
  obtain d where s: "set_user_if (u \<noteq> uid c) True u (euid c \<noteq> u) ?c = (d, 0)"
    and d': "uid d = (if u \<noteq> uid c then u else uid ?c)" "mm d = None \<longleftrightarrow> mm ?c = None"
      "keep_capabilities d = keep_capabilities ?c" "rlim d = rlim ?c"
    using set_user_success [of "u \<noteq> uid c" u "euid c \<noteq> u" ?c]
    by (elim exE conjE) (rule that; assumption)
  then have d: "uid d = u" "mm d \<noteq> None" "keep_capabilities d = keep_capabilities c" "rlim d = rlim c"
    using assms(2) by simp_all
  obtain m where un: "undump_if (euid c \<noteq> u) d = Inr (d\<lparr>mm := Some m\<rparr>)"
    using undump_if_mapped [OF d(2)] .
  show thesis
  proof (rule that)
    show "sys_setuid E True u c = Inr (fixup E (uid c) (euid c) (suid c)
        (d\<lparr>mm := Some m, euid := u, fsuid := u, suid := u\<rparr>), 0)"
      using s un by (simp add: sys_setuid_def capable_def Let_def assms(1))
  qed (use assms(3-6) d in \<open>simp_all add: fixup_def cap_emulate_setxuid_def Let_def\<close>)
qed

text \<open>C28: A process with an identifier 0 and \<open>CAP_SETUID\<close> that calls \<open>setuid\<close> with another user, without
  having asked to keep its capabilities and on a machine with \<open>SECURE_NO_SETUID_FIXUP\<close> off, gives up its privileges for good: the call returns 0 with all
  four user identifiers changed and both capability sets empty, and no later sequence of calls changes
  any of that. When there is no memory for the \<open>user_struct\<close> of a different real user the call
  returns \<open>-EAGAIN\<close> instead, and the process keeps its identifiers and its capabilities.\<close>

theorem setuid_drops_for_good:
  assumes "cap_env_ok E" "cap_raised E (cap_effective c) (CAP_SETUID E)" "mm c \<noteq> None"
    "RLIM_NLIMITS B \<le> length (rlim c)" "u \<noteq> 0" "uid c = 0 \<or> euid c = 0 \<or> suid c = 0"
    "\<not> keep_capabilities c" "\<not> secure_no_setuid_fixup E"
  shows "(\<exists>c1. sys_setuid E True u c = Inr (c1, 0) \<and>
           (\<exists>c2. run_ops (proc_step E B) calls c1 = Inr c2 \<and>
              uid c2 = u \<and> euid c2 = u \<and> suid c2 = u \<and> fsuid c2 = u \<and>
              cap_effective c2 = 0 \<and> cap_permitted c2 = 0)) \<and>
         (u \<noteq> uid c \<longrightarrow> sys_setuid E False u c = Inr (c\<lparr>superpriv := True\<rparr>, - EAGAIN))"
proof -
  obtain c1 where c1: "sys_setuid E True u c = Inr (c1, 0)" "uid c1 = u" "euid c1 = u" "suid c1 = u" "fsuid c1 = u"
    "cap_effective c1 = 0" "cap_permitted c1 = 0" "mm c1 \<noteq> None" "rlim c1 = rlim c"
    using setuid_capable [OF assms(2,3,5-8)] by metis
  then have "confined B c1 c1" using assms(4) by (intro confined_refl) (simp_all add: powerless_def)
  from confined_run [OF assms(1) this, of calls]
  obtain c2 where r: "run_ops (proc_step E B) calls c1 = Inr c2" and c2: "confined B c1 c2" by blast
  have "uid c2 = u \<and> euid c2 = u \<and> suid c2 = u \<and> fsuid c2 = u"
    using confined_id(1-4) [OF c2] c1(2-5) by (simp add: uids_def)
  moreover have "u \<noteq> uid c \<longrightarrow> sys_setuid E False u c = Inr (c\<lparr>superpriv := True\<rparr>, - EAGAIN)"
    using assms(2) by (simp add: sys_setuid_def capable_def Let_def set_user_if_def set_user_def)
  ultimately show ?thesis using c1(1) r confined_id(9,10) [OF c2] by blast
qed

lemma demo_root_raised: "cap_raised demo_cap (cap_effective (demo_proc 0 (-1))) (CAP_SETUID demo_cap)"
  by (simp add: demo_cap_def demo_proc_def)

theorem setuid_drops_for_good_witness:
  "\<exists>c1 c2. sys_setuid demo_cap True 1000 (demo_proc 0 (-1)) = Inr (c1, 0) \<and>
     run_ops (proc_step demo_cap demo_abi) [Call_setuid True 0, Call_setresuid True 0 0 0] c1 = Inr c2 \<and>
     uid c2 = 1000 \<and> euid c2 = 1000 \<and> cap_effective c2 = 0"
  using setuid_drops_for_good [OF demo_cap_ok demo_root_raised, of demo_abi 1000
      "[Call_setuid True 0, Call_setresuid True 0 0 0]"]
  by (auto simp: demo_proc_def demo_abi_def demo_cap_def)

text \<open>
  A root process that only changes its effective user identifier loses its effective capabilities and
  gets them back, as far as they are permitted, by changing it again.
\<close>

theorem seteuid_roundtrip:
  assumes "uid c = 0" "euid c = 0" "cap_raised E (cap_effective c) (CAP_SETUID E)"
    "u \<noteq> 0" "u \<noteq> -1" "mm c \<noteq> None" "\<not> secure_no_setuid_fixup E" "cap_env_ok E"
  shows "\<exists>c1 c2. sys_setreuid E True (-1) u c = Inr (c1, 0) \<and> euid c1 = u \<and> cap_effective c1 = 0 \<and>
    sys_setreuid E True (-1) 0 c1 = Inr (c2, 0) \<and> uid c2 = 0 \<and> euid c2 = 0 \<and> fsuid c2 = 0 \<and>
    cap_effective c2 = cap_permitted c"
proof -
  obtain m where "mm c = Some m" using assms(6) by blast
  then obtain c1 where "sys_setreuid E True (-1) u c = Inr (c1, 0)" and c1: "uid c1 = 0" "euid c1 = u" "suid c1 = u"
    "cap_effective c1 = 0" "cap_permitted c1 = cap_permitted c" "mm c1 \<noteq> None"
    using assms(1,2,4,5,7)
    by (simp add: sys_setreuid_def permit_not_asked permit_raised [OF assms(3)] Let_def set_user_if_def
        undump_if_def undump_def fixup_def cap_emulate_setxuid_def)
  moreover obtain c2 where "sys_setreuid E True (-1) 0 c1 = Inr (c2, 0)" "uid c2 = 0" "euid c2 = 0"
    "fsuid c2 = 0" "cap_effective c2 = cap_permitted c"
    using assms(4,7) c1 by (auto simp: sys_setreuid_def permit_def Let_def set_user_if_def undump_if_def
        undump_def fixup_def cap_emulate_setxuid_def)
  ultimately show ?thesis by blast
qed

subsection \<open>Where the comments and the code disagree\<close>

text \<open>
  The comment on \<open>cap_emulate_setxuid\<close> says that a process that elects to keep its capabilities keeps
  both sets when it switches away from user 0. The second rule clears the effective set all the same.
\<close>

theorem keepcaps_loses_effective:
  assumes "euid c = 0" "u \<noteq> 0" "keep_capabilities c"
  shows "let c' = cap_emulate_setxuid r 0 s (c\<lparr>uid := u, euid := u, suid := u\<rparr>)
    in cap_permitted c' = cap_permitted c \<and> cap_effective c' = 0"
  using assms by (simp add: cap_emulate_setxuid_def Let_def)

text \<open>
  A \<open>setgroups\<close> that fails while it copies returns \<open>-EFAULT\<close> but has already overwritten the group list,
  whose old length stays in force: the process then is in whatever groups the copy left.
\<close>

theorem setgroups_fault_changes_groups:
  assumes "cap_raised E (cap_effective c) (CAP_SETGID E)" "groups_ok c" "n = ngroups c"
    "unat (of_int n :: u32) \<le> NGROUPS E" "length xs = nat n" "g \<noteq> fsgid c"
  shows "\<exists>c'. sys_setgroups E n (Copy_Failed xs) c = Inr (c', - EFAULT) \<and>
    in_group_p g c' = Inr (if g \<in> set xs then 1 else 0)"
proof -
  let ?c = "c\<lparr>superpriv := True, groups := xs @ drop (nat n) (groups c)\<rparr>"
  have "groups_ok ?c" using assms(2,3,5) by (auto simp: groups_ok_def)
  then have "in_group_p g ?c = Inr (if g \<in> set xs then 1 else 0)"
    using assms(3,5,6) supplemental_group_member_iff [of ?c g] by (simp add: in_group_p_def)
  moreover have "sys_setgroups E n (Copy_Failed xs) c = Inr (?c, - EFAULT)"
    using assms(1,4) by (simp add: sys_setgroups_def capable_def Let_def)
  ultimately show ?thesis by blast
qed

text \<open>A soft limit above the new hard limit is accepted from any process.\<close>

theorem setrlimit_soft_above_hard:
  assumes "unat r < RLIM_NLIMITS B" "unat r < length (rlim c)" "unat r \<noteq> RLIMIT_NOFILE B" "unat r \<noteq> RLIMIT_RSS B"
    "rlim_cur l \<le> rlim_max (rlim c ! unat r)" "rlim_max l < rlim_cur l"
  shows "sys_setrlimit E B r (U_Val l) c = Inr (c\<lparr>rlim := (rlim c)[unat r := l]\<rparr>, 0)"
  using assms by (auto simp: sys_setrlimit_def permit_def Let_def not_le)

end
