(* ===== verification/Sys_Notify.thy ===== *)
theory Sys_Notify
  imports Sys_Cred
begin

text \<open>
  HW2, the notifier chains of \<^verbatim>\<open>HW2/kernel/sys.c\<close> and their users \<open>reboot\<close> and ctrl-alt-del. A chain is
  a singly linked list of \<^verbatim>\<open>notifier_block\<close>s reached through a root pointer. The code walks it with
  a pointer to a pointer, which is \<open>At_Root\<close> or the \<open>next\<close> field of a block; blocks are named by
  numbers, and \<open>next\<close> fields are one map, so that a block registered twice shares its field and the
  chain may become cyclic. The loops are therefore partial functions. What a notifier function does is
  an argument: it returns a value and changes a state of its own, not the chain.
\<close>

subsection \<open>Chains in memory\<close>

type_synonym block = nat

record notifiers =
  root :: "block option"
  nextp :: "block \<Rightarrow> block option"
  priority :: "block \<Rightarrow> int"

datatype nptr = At_Root | At_Next block

fun load :: "nptr \<Rightarrow> notifiers \<Rightarrow> block option" where
  "load At_Root c = root c"
| "load (At_Next b) c = nextp c b"

fun store :: "nptr \<Rightarrow> block option \<Rightarrow> notifiers \<Rightarrow> notifiers" where
  "store At_Root v c = c\<lparr>root := v\<rparr>"
| "store (At_Next b) v c = c\<lparr>nextp := (nextp c)(b := v)\<rparr>"

partial_function (option) register_scan :: "notifiers \<Rightarrow> block \<Rightarrow> nptr \<Rightarrow> nptr option" where
  "register_scan c n list =
     (case load list c of
        None \<Rightarrow> Some list
      | Some b \<Rightarrow> if priority c n > priority c b then Some list else register_scan c n (At_Next b))"

definition notifier_chain_register :: "block \<Rightarrow> notifiers \<Rightarrow> (notifiers \<times> int) option" where
  "notifier_chain_register n c =
     (case register_scan c n At_Root of
        None \<Rightarrow> None
      | Some list \<Rightarrow> let c1 = store (At_Next n) (load list c) c in Some (store list (Some n) c1, 0))"

partial_function (option) notifier_unlink :: "block \<Rightarrow> nptr \<Rightarrow> notifiers \<Rightarrow> (notifiers \<times> int) option" where
  "notifier_unlink n nl c =
     (case load nl c of
        None \<Rightarrow> Some (c, - ENOENT)
      | Some b \<Rightarrow> if b = n then Some (store nl (nextp c n) c, 0) else notifier_unlink n (At_Next b) c)"

definition notifier_chain_unregister :: "block \<Rightarrow> notifiers \<Rightarrow> (notifiers \<times> int) option" where
  "notifier_chain_unregister n c = notifier_unlink n At_Root c"

text \<open>
  \<open>notifier_call b e\<close> is the call of the function of block \<open>b\<close> in the state \<open>e\<close>, with the two arguments
  that are passed on unmodified; \<open>stops\<close> tests \<^verbatim>\<open>NOTIFY_STOP_MASK\<close>.
\<close>

partial_function (option) call_loop ::
  "(block \<Rightarrow> 'e \<Rightarrow> 'e \<times> int) \<Rightarrow> (int \<Rightarrow> bool) \<Rightarrow> notifiers \<Rightarrow> block option \<Rightarrow> int \<Rightarrow> 'e \<Rightarrow> ('e \<times> int) option" where
  "call_loop notifier_call stops c nb ret e =
     (case nb of
        None \<Rightarrow> Some (e, ret)
      | Some b \<Rightarrow>
          if stops (snd (notifier_call b e)) then Some (notifier_call b e)
          else call_loop notifier_call stops c (nextp c b) (snd (notifier_call b e)) (fst (notifier_call b e)))"

definition notifier_call_chain ::
  "int \<Rightarrow> (block \<Rightarrow> 'e \<Rightarrow> 'e \<times> int) \<Rightarrow> (int \<Rightarrow> bool) \<Rightarrow> notifiers \<Rightarrow> 'e \<Rightarrow> ('e \<times> int) option" where
  "notifier_call_chain NOTIFY_DONE notifier_call stops c e =
     call_loop notifier_call stops c (root c) NOTIFY_DONE e"

subsection \<open>The abstract chain\<close>

text \<open>
  \<open>linked nx p xs\<close> says that following \<open>nx\<close> from \<open>p\<close> meets the blocks \<open>xs\<close> and then ends. On the list,
  registration is an insertion before the first block of lower priority, and a call of the chain is a
  fold that stops.
\<close>

fun linked :: "(block \<Rightarrow> block option) \<Rightarrow> block option \<Rightarrow> block list \<Rightarrow> bool" where
  "linked nx p [] = (p = None)"
| "linked nx p (b # bs) = (p = Some b \<and> linked nx (nx b) bs)"

definition chain_is :: "block list \<Rightarrow> notifiers \<Rightarrow> bool" where
  "chain_is xs c \<longleftrightarrow> linked (nextp c) (root c) xs"

fun insert_prio :: "(block \<Rightarrow> int) \<Rightarrow> block \<Rightarrow> block list \<Rightarrow> block list" where
  "insert_prio pr n [] = [n]"
| "insert_prio pr n (b # bs) = (if pr n > pr b then n # b # bs else b # insert_prio pr n bs)"

fun call_list :: "(block \<Rightarrow> 'e \<Rightarrow> 'e \<times> int) \<Rightarrow> (int \<Rightarrow> bool) \<Rightarrow> block list \<Rightarrow> int \<Rightarrow> 'e \<Rightarrow> 'e \<times> int" where
  "call_list f stops [] ret e = (e, ret)"
| "call_list f stops (b # bs) ret e =
     (if stops (snd (f b e)) then f b e else call_list f stops bs (snd (f b e)) (fst (f b e)))"

text \<open>The pointer through which the block behind \<open>ys\<close> is reached.\<close>

definition behind :: "nptr \<Rightarrow> block list \<Rightarrow> nptr" where
  "behind l ys = (if ys = [] then l else At_Next (last ys))"

lemma behind_simps [simp]:
  "behind l [] = l"
  "behind l (b # ys) = behind (At_Next b) ys"
  by (simp_all add: behind_def)

lemma linked_unique: "linked nx p xs \<Longrightarrow> linked nx p ys \<Longrightarrow> xs = ys"
proof (induction xs arbitrary: p ys)
  case Nil
  then show ?case by (cases ys) simp_all
next
  case (Cons x xs)
  then show ?case by (cases ys) auto
qed

lemma linked_suffix: "linked nx p (us @ b # vs) \<Longrightarrow> linked nx (nx b) vs"
  by (induction us arbitrary: p) auto

lemma linked_distinct: "linked nx p xs \<Longrightarrow> distinct xs"
proof (induction xs arbitrary: p)
  case (Cons x xs)
  have "x \<notin> set xs"
  proof
    assume "x \<in> set xs"
    then obtain us vs where xs: "xs = us @ x # vs" by (meson split_list)
    with Cons.prems linked_suffix [of nx "nx x" us x vs] have "linked nx (nx x) xs" "linked nx (nx x) vs" by auto
    then have "xs = vs" by (rule linked_unique)
    with xs show False by simp
  qed
  with Cons show ?case by auto
qed simp

lemma linked_upd_other: "b \<notin> set xs \<Longrightarrow> linked (nx(b := v)) p xs = linked nx p xs"
  by (induction xs arbitrary: p) auto

lemma linked_agree: "linked nx p xs \<Longrightarrow> \<forall>b\<in>set xs. ny b = nx b \<Longrightarrow> linked ny p xs"
  by (induction xs arbitrary: p) auto

lemma linked_insert:
  assumes "linked nx p (ys @ zs)" "n \<notin> set (ys @ zs)" "ys \<noteq> []"
  shows "linked (nx(n := nx (last ys), last ys := Some n)) p (ys @ n # zs)"
  using assms
proof (induction ys arbitrary: p)
  case (Cons y ys)
  show ?case
  proof (cases "ys = []")
    case True
    have "y \<notin> set zs" using linked_distinct [OF Cons.prems(1)] True by simp
    then show ?thesis using Cons.prems True by (auto elim!: linked_agree)
  next
    case False
    have "last ys \<noteq> y" "y \<noteq> n" using linked_distinct [OF Cons.prems(1)] Cons.prems(2) False by auto
    then show ?thesis using Cons False by auto
  qed
qed simp

lemma linked_bypass:
  assumes "linked nx p (ys @ n # zs)" "ys \<noteq> []"
  shows "linked (nx(last ys := nx n)) p (ys @ zs)"
  using assms
proof (induction ys arbitrary: p)
  case (Cons y ys)
  show ?case
  proof (cases "ys = []")
    case True
    have "y \<notin> set zs" using linked_distinct [OF Cons.prems(1)] True by simp
    then show ?thesis using Cons.prems True by (auto elim!: linked_agree)
  next
    case False
    have "last ys \<noteq> y" using linked_distinct [OF Cons.prems(1)] False by auto
    then show ?thesis using Cons False by auto
  qed
qed simp

subsection \<open>The loops follow the list\<close>

lemma register_scan_list:
  assumes "linked (nextp c) (load l c) xs"
  shows "\<exists>ys zs. xs = ys @ zs \<and> insert_prio (priority c) n xs = ys @ n # zs \<and>
    register_scan c n l = Some (behind l ys) \<and> linked (nextp c) (load (behind l ys) c) zs"
  using assms
proof (induction xs arbitrary: l)
  case Nil
  then show ?case by (subst register_scan.simps) simp
next
  case (Cons x xs)
  show ?case
  proof (cases "priority c n > priority c x")
    case True
    then have "register_scan c n l = Some l"
      using Cons.prems by (subst register_scan.simps) simp
    with True Cons.prems show ?thesis by (intro exI [of _ "[]"] exI [of _ "x # xs"]) simp
  next
    case False
    from Cons.IH [of "At_Next x"] Cons.prems obtain ys zs
      where "xs = ys @ zs" "insert_prio (priority c) n xs = ys @ n # zs"
        "register_scan c n (At_Next x) = Some (behind (At_Next x) ys)"
        "linked (nextp c) (load (behind (At_Next x) ys) c) zs" by auto
    moreover have "register_scan c n l = register_scan c n (At_Next x)"
      using False Cons.prems by (subst register_scan.simps) simp
    ultimately show ?thesis
      using False by (intro exI [of _ "x # ys"] exI [of _ zs]) simp
  qed
qed

lemma notifier_unlink_list:
  assumes "linked (nextp c) (load l c) xs"
  shows "n \<notin> set xs \<Longrightarrow> notifier_unlink n l c = Some (c, - ENOENT)"
    and "xs = ys @ n # zs \<Longrightarrow> notifier_unlink n l c = Some (store (behind l ys) (nextp c n) c, 0)"
proof -
  show "n \<notin> set xs \<Longrightarrow> notifier_unlink n l c = Some (c, - ENOENT)"
    using assms
  proof (induction xs arbitrary: l)
    case Nil
    then show ?case by (subst notifier_unlink.simps) simp
  next
    case (Cons x xs)
    then show ?case by (subst notifier_unlink.simps) auto
  qed
  show "xs = ys @ n # zs \<Longrightarrow> notifier_unlink n l c = Some (store (behind l ys) (nextp c n) c, 0)"
    using assms
  proof (induction ys arbitrary: l xs)
    case Nil
    then show ?case by (subst notifier_unlink.simps) simp
  next
    case (Cons y ys)
    then have "n \<noteq> y" using linked_distinct [OF Cons.prems(2)] by auto
    with Cons show ?case by (subst notifier_unlink.simps) auto
  qed
qed

lemma call_loop_list:
  "linked (nextp c) p xs \<Longrightarrow> call_loop f stops c p ret e = Some (call_list f stops xs ret e)"
proof (induction xs arbitrary: p ret e)
  case Nil
  then show ?case by (subst call_loop.simps) simp
next
  case (Cons x xs)
  then show ?case by (subst call_loop.simps) simp
qed

text \<open>A chain that never ends and never stops makes the call run for ever.\<close>

definition endless :: "block set \<Rightarrow> (block \<Rightarrow> 'e \<Rightarrow> 'e \<times> int) \<Rightarrow> (int \<Rightarrow> bool) \<Rightarrow> notifiers \<Rightarrow> bool" where
  "endless S f stops c \<longleftrightarrow>
     (\<forall>b\<in>S. nextp c b \<in> Some ` S \<and> (\<forall>e. \<not> stops (snd (f b e))))"

lemma call_loop_diverges:
  assumes "endless S f stops c" "p \<in> Some ` S"
  shows "call_loop f stops c p ret e = None"
proof (rule ccontr)
  assume "call_loop f stops c p ret e \<noteq> None"
  then obtain y where ret: "call_loop f stops c p ret e = Some y" by blast
  have "endless S f stops c \<longrightarrow> p \<notin> Some ` S"
  proof (rule call_loop.raw_induct [where P = "\<lambda>f stops c p ret e y. endless S f stops c \<longrightarrow> p \<notin> Some ` S", OF _ ret],
      intro impI notI)
    fix loop f stops c nb ret and e :: 'a and y
    assume IH: "\<And>f stops c nb ret e y. loop f stops c nb ret e = Some y \<Longrightarrow> endless S f stops c \<longrightarrow> nb \<notin> Some ` S"
      and eq: "(case nb of None \<Rightarrow> Some (e, ret)
        | Some b \<Rightarrow> if stops (snd (f b e)) then Some (f b e)
            else loop f stops c (nextp c b) (snd (f b e)) (fst (f b e))) = Some y"
      and E: "endless S f stops c" and "nb \<in> Some ` S"
    then obtain b where b: "nb = Some b" "b \<in> S" by blast
    with E have n: "nextp c b \<in> Some ` S" "\<not> stops (snd (f b e))" by (simp_all add: endless_def)
    with eq b have "loop f stops c (nextp c b) (snd (f b e)) (fst (f b e)) = Some y" by simp
    from IH [OF this] E n(1) show False by blast
  qed
  with assms show False by blast
qed

subsection \<open>The operations on chains\<close>

lemma register_chain:
  assumes "chain_is xs c" "n \<notin> set xs"
  obtains c' where "notifier_chain_register n c = Some (c', 0)" "chain_is (insert_prio (priority c) n xs) c'"
    "priority c' = priority c"
proof -
  have "linked (nextp c) (load At_Root c) xs" using assms(1) by (simp add: chain_is_def)
  from register_scan_list [OF this, of n] obtain ys zs
    where xs: "xs = ys @ zs" and ins: "insert_prio (priority c) n xs = ys @ n # zs"
      and scan: "register_scan c n At_Root = Some (behind At_Root ys)"
      and zs: "linked (nextp c) (load (behind At_Root ys) c) zs" by auto
  let ?l = "behind At_Root ys"
  let ?c = "store ?l (Some n) (store (At_Next n) (load ?l c) c)"
  have "chain_is (ys @ n # zs) ?c"
  proof (cases "ys = []")
    case True
    with zs assms(2) xs show ?thesis by (simp add: chain_is_def linked_upd_other)
  next
    case False
    with assms xs linked_insert [of "nextp c" "root c" ys zs n]
    show ?thesis by (simp add: chain_is_def behind_def)
  qed
  moreover have "priority ?c = priority c" by (simp add: behind_def)
  ultimately show thesis using that [of ?c] scan ins by (simp add: notifier_chain_register_def Let_def)
qed

lemma unregister_chain:
  assumes "chain_is xs c"
  obtains c' where "notifier_chain_unregister n c = Some (c', if n \<in> set xs then 0 else - ENOENT)"
    "chain_is (remove1 n xs) c'" "priority c' = priority c"
proof -
  have l: "linked (nextp c) (load At_Root c) xs" using assms by (simp add: chain_is_def)
  show thesis
  proof (cases "n \<in> set xs")
    case False
    with notifier_unlink_list(1) [OF l False] assms that [of c] show thesis
      by (simp add: notifier_chain_unregister_def remove1_idem)
  next
    case True
    then obtain ys zs where xs: "xs = ys @ n # zs" "n \<notin> set ys" by (meson split_list_first)
    let ?c = "store (behind At_Root ys) (nextp c n) c"
    have "chain_is (ys @ zs) ?c"
      using assms xs linked_bypass [of "nextp c" "root c" ys n zs]
      by (cases "ys = []") (auto simp: chain_is_def behind_def)
    moreover have "remove1 n xs = ys @ zs" using xs by (simp add: remove1_append)
    ultimately show thesis
      using that [of ?c] True notifier_unlink_list(2) [OF l xs(1)]
      by (simp add: notifier_chain_unregister_def behind_def)
  qed
qed

lemma call_chain:
  "chain_is xs c \<Longrightarrow> notifier_call_chain d f stops c e = Some (call_list f stops xs d e)"
  by (simp add: notifier_call_chain_def chain_is_def call_loop_list)

lemma insert_prio_set: "set (insert_prio pr n xs) = insert n (set xs)"
  by (induction xs) auto

lemma insert_prio_sorted:
  "sorted_wrt (\<lambda>a b. pr a \<ge> pr b) xs \<Longrightarrow> sorted_wrt (\<lambda>a b. pr a \<ge> pr b) (insert_prio pr n xs)"
  by (induction xs) (auto simp: insert_prio_set)

lemma remove1_insert_prio: "n \<notin> set xs \<Longrightarrow> remove1 n (insert_prio pr n xs) = xs"
  by (induction xs) auto

lemma register_scan_twice:
  assumes "linked (nextp c) (load l c) (ys @ n # zs)" "\<forall>b\<in>set ys. priority c n \<le> priority c b"
    "\<forall>b\<in>set zs. priority c n > priority c b"
  shows "register_scan c n l = Some (At_Next n)"
  using assms(1,2)
proof (induction ys arbitrary: l)
  case Nil
  have "register_scan c n (At_Next n) = Some (At_Next n)"
    using Nil assms(3) by (cases zs) (subst register_scan.simps, simp)+
  with Nil show ?case by (subst register_scan.simps) simp
next
  case (Cons y ys)
  then show ?case by (subst register_scan.simps) simp
qed

lemma linked_endless:
  assumes "linked nx p (ys @ n # zs)" "set (ys @ [n]) \<subseteq> S"
  shows "p \<in> Some ` S \<and> (\<forall>b\<in>set (ys @ [n]). (nx(n := Some n)) b \<in> Some ` S)"
  using assms by (induction ys arbitrary: p) auto

subsection \<open>Reboot and ctrl-alt-del\<close>

record reboot_abi =
  MAGIC1 :: u32
  MAGIC2 :: u32
  MAGIC2A :: u32
  MAGIC2B :: u32
  CMD_RESTART :: u32
  CMD_CAD_ON :: u32
  CMD_CAD_OFF :: u32
  CMD_HALT :: u32
  CMD_POWER_OFF :: u32
  CMD_RESTART2 :: u32
  SYS_RESTART :: int
  SYS_HALT :: int
  SYS_POWER_OFF :: int
  NOTIFY_DONE :: int
  notify_stop :: "int \<Rightarrow> bool"

text \<open>
  What the machine is told, in order, and the state of the system: the calling process, the reboot
  notifiers with their own state, the meaning of ctrl-alt-del and the depth of the kernel lock.
\<close>

datatype machine_event =
    Machine_Restart "string option"
  | Machine_Halt
  | Machine_Power_Off
  | Schedule_Cad
  | Kill_Cad int

record 'e system =
  caller :: proc
  reboot_notifier_list :: notifiers
  notified :: 'e
  C_A_D :: int
  cad_pid :: int
  kernel_lock :: int
  machine_log :: "machine_event list"

datatype 'e outcome = Returns "'e system" int | Exits "'e system"

type_synonym 'e notifier = "int \<Rightarrow> string option \<Rightarrow> block \<Rightarrow> 'e \<Rightarrow> 'e \<times> int"

definition register_reboot_notifier :: "block \<Rightarrow> 'e system \<Rightarrow> ('e system \<times> int) option" where
  "register_reboot_notifier nb st =
     map_option (\<lambda>(c, r). (st\<lparr>reboot_notifier_list := c\<rparr>, r)) (notifier_chain_register nb (reboot_notifier_list st))"

definition unregister_reboot_notifier :: "block \<Rightarrow> 'e system \<Rightarrow> ('e system \<times> int) option" where
  "unregister_reboot_notifier nb st =
     map_option (\<lambda>(c, r). (st\<lparr>reboot_notifier_list := c\<rparr>, r)) (notifier_chain_unregister nb (reboot_notifier_list st))"

definition notify_reboot :: "reboot_abi \<Rightarrow> 'e notifier \<Rightarrow> int \<Rightarrow> string option \<Rightarrow> 'e system \<Rightarrow> 'e system option" where
  "notify_reboot R f val v st =
     map_option (\<lambda>(e, _). st\<lparr>notified := e\<rparr>)
       (notifier_call_chain (NOTIFY_DONE R) (f val v) (notify_stop R) (reboot_notifier_list st) (notified st))"

definition tell_machine :: "machine_event \<Rightarrow> 'e system \<Rightarrow> 'e system" where
  "tell_machine x st = st\<lparr>machine_log := machine_log st @ [x]\<rparr>"

definition lock_kernel :: "'e system \<Rightarrow> 'e system" where "lock_kernel st = st\<lparr>kernel_lock := kernel_lock st + 1\<rparr>"
definition unlock_kernel :: "'e system \<Rightarrow> 'e system" where "unlock_kernel st = st\<lparr>kernel_lock := kernel_lock st - 1\<rparr>"

text \<open>The commands, with the kernel lock held; \<open>do_exit\<close> does not return.\<close>

definition reboot_command ::
  "reboot_abi \<Rightarrow> 'e notifier \<Rightarrow> u32 \<Rightarrow> string uptr \<Rightarrow> 'e system \<Rightarrow> 'e outcome option" where
  "reboot_command R f cmd arg st =
     (if cmd = CMD_RESTART R then
        map_option (\<lambda>s. Returns (unlock_kernel (tell_machine (Machine_Restart None) s)) 0)
          (notify_reboot R f (SYS_RESTART R) None st)
      else if cmd = CMD_CAD_ON R then Some (Returns (unlock_kernel (st\<lparr>C_A_D := 1\<rparr>)) 0)
      else if cmd = CMD_CAD_OFF R then Some (Returns (unlock_kernel (st\<lparr>C_A_D := 0\<rparr>)) 0)
      else if cmd = CMD_HALT R then
        map_option (\<lambda>s. Exits (tell_machine Machine_Halt s)) (notify_reboot R f (SYS_HALT R) None st)
      else if cmd = CMD_POWER_OFF R then
        map_option (\<lambda>s. Exits (tell_machine Machine_Power_Off s)) (notify_reboot R f (SYS_POWER_OFF R) None st)
      else if cmd = CMD_RESTART2 R then
        (case arg of
           U_Val s \<Rightarrow>
             (let buffer = take 255 s in
              map_option (\<lambda>s. Returns (unlock_kernel (tell_machine (Machine_Restart (Some buffer)) s)) 0)
                (notify_reboot R f (SYS_RESTART R) (Some buffer) st))
         | _ \<Rightarrow> Some (Returns (unlock_kernel st) (- EFAULT)))
      else Some (Returns (unlock_kernel st) (- EINVAL)))"

definition magic_ok :: "reboot_abi \<Rightarrow> u32 \<Rightarrow> u32 \<Rightarrow> bool" where
  "magic_ok R magic1 magic2 \<longleftrightarrow>
     \<not> (magic1 \<noteq> MAGIC1 R \<or> magic2 \<noteq> MAGIC2 R \<and> magic2 \<noteq> MAGIC2A R \<and> magic2 \<noteq> MAGIC2B R)"

definition sys_reboot ::
  "cap_env \<Rightarrow> reboot_abi \<Rightarrow> 'e notifier \<Rightarrow> u32 \<Rightarrow> u32 \<Rightarrow> u32 \<Rightarrow> string uptr \<Rightarrow> 'e system \<Rightarrow> 'e outcome option" where
  "sys_reboot E R f magic1 magic2 cmd arg st =
     (let (c, ok) = capable E (CAP_SYS_BOOT E) (caller st); st0 = st\<lparr>caller := c\<rparr> in
      if \<not> ok then Some (Returns st0 (- EPERM))
      else if \<not> magic_ok R magic1 magic2 then Some (Returns st0 (- EINVAL))
      else reboot_command R f cmd arg (lock_kernel st0))"

definition deferred_cad :: "reboot_abi \<Rightarrow> 'e notifier \<Rightarrow> 'e system \<Rightarrow> 'e system option" where
  "deferred_cad R f st =
     map_option (tell_machine (Machine_Restart None)) (notify_reboot R f (SYS_RESTART R) None st)"

definition ctrl_alt_del :: "'e system \<Rightarrow> 'e system" where
  "ctrl_alt_del st = tell_machine (if C_A_D st \<noteq> 0 then Schedule_Cad else Kill_Cad (cad_pid st)) st"

lemma notify_reboot_list:
  "chain_is xs (reboot_notifier_list st) \<Longrightarrow>
   notify_reboot R f val v st =
     Some (st\<lparr>notified := fst (call_list (f val v) (notify_stop R) xs (NOTIFY_DONE R) (notified st))\<rparr>)"
  by (simp add: notify_reboot_def call_chain split: prod.splits)

lemma sys_reboot_returns:
  assumes "chain_is xs (reboot_notifier_list st)"
  shows "\<exists>out. sys_reboot E R f m1 m2 cmd arg st = Some out \<and>
    (case out of Returns st' r \<Rightarrow> kernel_lock st' = kernel_lock st | Exits st' \<Rightarrow> kernel_lock st' = kernel_lock st + 1)"
proof -
  have "\<exists>out. reboot_command R f cmd arg (lock_kernel (st\<lparr>caller := c\<rparr>)) = Some out \<and>
    (case out of Returns st' r \<Rightarrow> kernel_lock st' = kernel_lock st | Exits st' \<Rightarrow> kernel_lock st' = kernel_lock st + 1)" for c
    using assms by (cases arg)
      (simp_all add: reboot_command_def lock_kernel_def unlock_kernel_def tell_machine_def notify_reboot_list Let_def)
  then show ?thesis by (simp add: sys_reboot_def Let_def split: prod.splits)
qed

end
