(* ===== verification/Sys_Notify_Props.thy ===== *)
theory Sys_Notify_Props
  imports Sys_Notify
begin

text \<open>
  HW2, the properties of the notifier chains and of \<open>reboot\<close> in \<^verbatim>\<open>HW2/kernel/sys.c\<close>: the pointer
  operations implement a list ordered by priority, a block registered twice makes the chain endless,
  and rebooting asks for the capability and the magic numbers before anything happens.
\<close>

text \<open>C29: The pointer operations on a notifier chain implement a list ordered by falling priority.
  Registering a block that is not in the chain returns 0 and inserts it before the first block of
  lower priority; the order is kept. Unregistering removes exactly the block, or returns \<open>-ENOENT\<close> and
  changes nothing in the chain when it is not there, so it undoes a registration. Calling
  the chain calls the blocks in this order until one asks to stop. All three return on every
  chain that ends.\<close>

theorem notifier_chain_refines:
  assumes "chain_is xs c"
  shows "(n \<notin> set xs \<longrightarrow> (\<exists>c'. notifier_chain_register n c = Some (c', 0) \<and>
      chain_is (insert_prio (priority c) n xs) c' \<and> priority c' = priority c \<and>
      remove1 n (insert_prio (priority c) n xs) = xs \<and>
      (sorted_wrt (\<lambda>a b. priority c a \<ge> priority c b) xs \<longrightarrow>
       sorted_wrt (\<lambda>a b. priority c a \<ge> priority c b) (insert_prio (priority c) n xs)))) \<and>
    (\<exists>c'. notifier_chain_unregister n c = Some (c', if n \<in> set xs then 0 else - ENOENT) \<and>
      chain_is (remove1 n xs) c' \<and> priority c' = priority c) \<and>
    notifier_call_chain d f stops c e = Some (call_list f stops xs d e)"
proof (intro conjI impI)
  assume n: "n \<notin> set xs"
  obtain c' where "notifier_chain_register n c = Some (c', 0)" "chain_is (insert_prio (priority c) n xs) c'"
    "priority c' = priority c"
    by (rule register_chain [OF assms n])
  then show "\<exists>c'. notifier_chain_register n c = Some (c', 0) \<and>
      chain_is (insert_prio (priority c) n xs) c' \<and> priority c' = priority c \<and>
      remove1 n (insert_prio (priority c) n xs) = xs \<and>
      (sorted_wrt (\<lambda>a b. priority c a \<ge> priority c b) xs \<longrightarrow>
       sorted_wrt (\<lambda>a b. priority c a \<ge> priority c b) (insert_prio (priority c) n xs))"
    using remove1_insert_prio [OF n] insert_prio_sorted [of "priority c" xs n] by simp
next
  show "\<exists>c'. notifier_chain_unregister n c = Some (c', if n \<in> set xs then 0 else - ENOENT) \<and>
      chain_is (remove1 n xs) c' \<and> priority c' = priority c"
    by (rule unregister_chain [OF assms, of n]) (intro exI conjI)
qed (rule call_chain [OF assms])

definition demo_chain :: notifiers where
  "demo_chain = \<lparr>root = Some 1, nextp = [1 \<mapsto> 2], priority = (\<lambda>b. if b = 1 then 10 else 5)\<rparr>"

lemma demo_chain_is: "chain_is [1, 2] demo_chain"
  by (simp add: chain_is_def demo_chain_def)

theorem notifier_chain_refines_witness:
  "\<exists>c'. notifier_chain_register 3 demo_chain = Some (c', 0) \<and> chain_is [1, 2, 3] c'"
  using notifier_chain_refines [OF demo_chain_is, where n = 3 and d = 0 and e = 0 and
      f = "\<lambda>b e. (e + b, 0)" and stops = "\<lambda>r. r = 1"] by (auto simp: demo_chain_def)

text \<open>Registering a block a second time, when every block behind it has lower priority, is not
  refused: the call returns 0 and leaves the block pointing at itself. From then on calling the chain
  never returns, if no function of the chain asks to stop.\<close>

theorem register_twice_hangs:
  assumes "chain_is (ys @ n # zs) c" "\<forall>b\<in>set ys. priority c n \<le> priority c b"
    "\<forall>b\<in>set zs. priority c n > priority c b" "\<forall>b e. \<not> stops (snd (f b e))"
  shows "\<exists>c'. notifier_chain_register n c = Some (c', 0) \<and> nextp c' n = Some n \<and>
    notifier_call_chain d f stops c' e = None"
proof -
  have l: "linked (nextp c) (load At_Root c) (ys @ n # zs)" using assms(1) by (simp add: chain_is_def)
  let ?c = "c\<lparr>nextp := (nextp c)(n := Some n)\<rparr>"
  have "notifier_chain_register n c = Some (?c, 0)"
    by (simp add: notifier_chain_register_def register_scan_twice [OF l assms(2,3)] Let_def)
  moreover have "endless (set (ys @ [n])) f stops ?c" "root c \<in> Some ` set (ys @ [n])"
    using linked_endless [OF l [unfolded load.simps] order_refl] assms(4) by (simp_all add: endless_def)
  then have "notifier_call_chain d f stops ?c e = None"
    by (simp add: notifier_call_chain_def call_loop_diverges)
  ultimately show ?thesis by simp
qed

theorem register_twice_hangs_witness:
  "\<exists>c'. notifier_chain_register 2 demo_chain = Some (c', 0) \<and>
     notifier_call_chain 0 (\<lambda>b e. (e + b, 0)) (\<lambda>r. r = 1) c' 0 = None"
  using register_twice_hangs [where ys = "[1]" and n = 2 and zs = "[]" and c = demo_chain
      and f = "\<lambda>b e. (e + b, 0)" and stops = "\<lambda>r. r = 1" and d = 0 and e = 0] demo_chain_is
  by (auto simp: demo_chain_def)

text \<open>
  A reboot asked for without the capability or without the magic numbers reaches neither the
  notifiers nor the machine; one that is granted runs all notifiers before the machine is told.
\<close>

theorem reboot_guarded:
  assumes "\<not> cap_raised E (cap_effective (caller st)) (CAP_SYS_BOOT E) \<or> \<not> magic_ok R m1 m2"
  shows "\<exists>st' r. sys_reboot E R f m1 m2 cmd arg st = Some (Returns st' r) \<and> r < 0 \<and>
    machine_log st' = machine_log st \<and> notified st' = notified st \<and> C_A_D st' = C_A_D st"
  using assms by (auto simp: sys_reboot_def capable_def Let_def)

theorem reboot_restarts:
  assumes "cap_raised E (cap_effective (caller st)) (CAP_SYS_BOOT E)" "magic_ok R m1 m2"
    "chain_is xs (reboot_notifier_list st)" "machine_log st = []"
  shows "\<exists>st'. sys_reboot E R f m1 m2 (CMD_RESTART R) arg st = Some (Returns st' 0) \<and>
    machine_log st' = [Machine_Restart None] \<and> kernel_lock st' = kernel_lock st \<and>
    notified st' = fst (call_list (f (SYS_RESTART R) None) (notify_stop R) xs (NOTIFY_DONE R) (notified st))"
  using assms by (simp add: sys_reboot_def capable_def reboot_command_def lock_kernel_def unlock_kernel_def
      tell_machine_def notify_reboot_list Let_def)

end
