(* ===== verification/Sys_Priority.thy ===== *)
theory Sys_Priority
  imports Sched_Props
begin

text \<open>
  HW2, \<^verbatim>\<open>setpriority\<close> and \<^verbatim>\<open>getpriority\<close> (\<^verbatim>\<open>HW2/kernel/sys.c\<close>, \<open>proc_sel\<close> to \<open>sys_getpriority\<close>), on the state of the
  scheduler. The list of all tasks, in the order of \<^verbatim>\<open>for_each_task\<close>, is an argument. HW2 made \<^verbatim>\<open>setpriority\<close>
  refuse SHORT tasks. The lemmas give the exact results and effects and relate the two calls.
\<close>

definition PRIO_PROCESS :: int where "PRIO_PROCESS = 0"
definition PRIO_PGRP :: int where "PRIO_PGRP = 1"
definition PRIO_USER :: int where "PRIO_USER = 2"

definition proc_sel :: "tid \<Rightarrow> int \<Rightarrow> int \<Rightarrow> sched \<Rightarrow> bool" where
  "proc_sel p which who s =
     (let t = tasks s p; c = tasks s (current s) in
      if tpid t = 0 then False
      else if which = PRIO_PROCESS then who = 0 \<and> p = current s \<or> tpid t = who
      else if which = PRIO_PGRP then pgrp t = (if who = 0 then pgrp c else who)
      else if which = PRIO_USER then (word_of_int (uid t) :: u32) = word_of_int (if who = 0 then uid c else who)
      else False)"

text \<open>One round of the loop: the new error and the new state.\<close>

definition setpriority_task :: "int \<Rightarrow> int \<Rightarrow> int \<Rightarrow> tid \<Rightarrow> int \<times> sched \<Rightarrow> int \<times> sched" where
  "setpriority_task which who niceval p = (\<lambda>(err, s).
     (let t = tasks s p; c = tasks s (current s) in
      if \<not> proc_sel p which who s then (err, s)
      else if uid t \<noteq> euid c \<and> uid t \<noteq> uid c \<and> \<not> capable_nice s then (- EPERM, s)
      else
        let err1 = (if err = - ESRCH then 0 else err) in
        if niceval < task_nice t \<and> \<not> capable_nice s then (- EACCES, s)
        else (if policy t = SCHED_SHORT then - EPERM else err1, set_user_nice p niceval s)))"

definition sys_setpriority :: "tid list \<Rightarrow> int \<Rightarrow> int \<Rightarrow> int \<Rightarrow> sched \<Rightarrow> int \<times> sched" where
  "sys_setpriority all which who niceval s =
     (if which > 2 \<or> which < 0 then (- EINVAL, s)
      else fold (setpriority_task which who (clamp_int (-20) 19 niceval)) all (- ESRCH, s))"

definition sys_getpriority :: "tid list \<Rightarrow> int \<Rightarrow> int \<Rightarrow> sched \<Rightarrow> int" where
  "sys_getpriority all which who s =
     (if which > 2 \<or> which < 0 then - EINVAL
      else fold (\<lambda>p retval.
        if \<not> proc_sel p which who s then retval
        else let niceval = 20 - task_nice (tasks s p) in if niceval > retval then niceval else retval) all (- ESRCH))"

subsection \<open>What renicing leaves alone\<close>

text \<open>Everything that selects and judges a task.\<close>

definition who_is :: "task \<Rightarrow> pid \<times> pid \<times> int \<times> int \<times> int \<times> bool" where
  "who_is t = (tpid t, pgrp t, uid t, euid t, policy t, cap_sys_nice t)"

lemma set_user_nice_keeps:
  "who_is (tasks (set_user_nice p n s) q) = who_is (tasks s q)" (is ?w)
  "current (set_user_nice p n s) = current s" (is ?c)
  "q \<noteq> p \<Longrightarrow> static_prio (tasks (set_user_nice p n s) q) = static_prio (tasks s q)" (is "_ \<Longrightarrow> ?s")
  "q \<noteq> p \<Longrightarrow> task_nice (tasks (set_user_nice p n s) q) = task_nice (tasks s q)" (is "_ \<Longrightarrow> ?t")
  "idle (rq (set_user_nice p n s)) = idle (rq s)" (is ?i)
proof -
  show ?w ?c ?i and s: "q \<noteq> p \<Longrightarrow> ?s"
    by (auto simp: set_user_nice_def Let_def who_is_def resched_task_def set_tsk_need_resched_def split: option.split)
  from s show "q \<noteq> p \<Longrightarrow> ?t" by (simp add: task_nice_def TASK_NICE_def)
qed

lemma set_user_nice_sets:
  assumes "policy (tasks s p) \<noteq> SCHED_SHORT" "-20 \<le> n" "n \<le> 19"
  shows "task_nice (tasks (set_user_nice p n s) p) = n"
  using assms
  by (auto simp: set_user_nice_def Let_def task_nice_def TASK_NICE_def NICE_TO_PRIO_def PRIO_TO_NICE_def
      resched_task_def set_tsk_need_resched_def split: option.split)

definition same_tasks :: "sched \<Rightarrow> sched \<Rightarrow> bool" where
  "same_tasks s s' \<longleftrightarrow> current s' = current s \<and> idle (rq s') = idle (rq s) \<and> (\<forall>q. who_is (tasks s' q) = who_is (tasks s q))"

lemma same_tasks_refl [simp]: "same_tasks s s" by (simp add: same_tasks_def)

lemma same_tasks_trans: "same_tasks s s' \<Longrightarrow> same_tasks s' s'' \<Longrightarrow> same_tasks s s''"
  by (simp add: same_tasks_def)

lemma same_tasksD:
  assumes "same_tasks s s'"
  shows "proc_sel p which who s' = proc_sel p which who s" "capable_nice s' = capable_nice s"
    "uid (tasks s' q) = uid (tasks s q)" "euid (tasks s' q) = euid (tasks s q)" "policy (tasks s' q) = policy (tasks s q)"
    "current s' = current s" "idle (rq s') = idle (rq s)"
  using assms by (simp_all add: same_tasks_def who_is_def proc_sel_def capable_nice_def Let_def)

lemma same_tasks_nice: "same_tasks s (set_user_nice p n s)"
  by (simp add: same_tasks_def set_user_nice_keeps)

text \<open>One round, on a task that is selected and on one that is not.\<close>

lemma setpriority_task_keeps:
  assumes "setpriority_task which who n p (e, s) = (e', s')"
  shows "same_tasks s s'"
    and "sched_wf A s \<Longrightarrow> p \<noteq> idle (rq s) \<Longrightarrow> sched_wf A s'"
    and "e' \<in> {e, 0, - EPERM, - EACCES}"
    and "e \<noteq> - ESRCH \<Longrightarrow> e \<noteq> 0 \<Longrightarrow> e' \<noteq> 0"
    and "q \<noteq> p \<Longrightarrow> task_nice (tasks s' q) = task_nice (tasks s q)"
    and "\<not> proc_sel p which who s \<Longrightarrow> s' = s \<and> e' = e"
    and "proc_sel p which who s \<Longrightarrow> e' = 0 \<Longrightarrow> -20 \<le> n \<Longrightarrow> n \<le> 19 \<Longrightarrow> task_nice (tasks s' p) = n"
    and "proc_sel p which who s \<Longrightarrow> e' \<noteq> - ESRCH"
    and "proc_sel p which who s \<Longrightarrow> e' = 0 \<Longrightarrow> policy (tasks s p) \<noteq> SCHED_SHORT"
  using assms
  by (auto simp: setpriority_task_def Let_def same_tasks_nice set_user_nice_wf set_user_nice_keeps set_user_nice_sets split: if_splits)

text \<open>The loop. If it ends without error, it met a task, and every task it met has the new value.\<close>

lemma setpriority_loop:
  assumes "fold (setpriority_task which who n) ps (e, s) = (e', s')"
  shows "same_tasks s s'"
    and "sched_wf A s \<Longrightarrow> idle (rq s) \<notin> set ps \<Longrightarrow> sched_wf A s'"
    and "e' \<in> {e, 0, - EPERM, - EACCES}"
    and "e \<noteq> - ESRCH \<Longrightarrow> e \<noteq> 0 \<Longrightarrow> e' \<noteq> 0"
    and "e' = 0 \<Longrightarrow> -20 \<le> n \<Longrightarrow> n \<le> 19 \<Longrightarrow>
      (\<forall>p. (p \<in> set ps \<and> proc_sel p which who s \<longrightarrow> task_nice (tasks s' p) = n \<and> policy (tasks s p) \<noteq> SCHED_SHORT) \<and>
        (p \<notin> set ps \<or> \<not> proc_sel p which who s \<longrightarrow> task_nice (tasks s' p) = task_nice (tasks s p)))"
    and "e = - ESRCH \<Longrightarrow> e' \<noteq> - ESRCH \<longleftrightarrow> (\<exists>p\<in>set ps. proc_sel p which who s)"
  using assms
proof (induction ps arbitrary: e s)
  case Nil
  { case 1 then show ?case by simp }
  { case 2 then show ?case by simp }
  { case 3 then show ?case by simp }
  { case 4 then show ?case by simp }
  { case 5 then show ?case by auto }
  { case 6 then show ?case by auto }
next
  case (Cons p ps)
  have step: "\<exists>e1 s1. setpriority_task which who n p (e, s) = (e1, s1) \<and>
      fold (setpriority_task which who n) ps (e1, s1) = (e', s')" 
    if "fold (setpriority_task which who n) (p # ps) (e, s) = (e', s')" for e s
    using that by (cases "setpriority_task which who n p (e, s)") auto
  { case 1 then obtain e1 s1 where a: "setpriority_task which who n p (e, s) = (e1, s1)"
        "fold (setpriority_task which who n) ps (e1, s1) = (e', s')" using step by blast
    show ?case by (rule same_tasks_trans [OF setpriority_task_keeps(1) [OF a(1)] Cons.IH(1) [OF a(2)]]) }
  { case 2 then obtain e1 s1 where a: "setpriority_task which who n p (e, s) = (e1, s1)"
        "fold (setpriority_task which who n) ps (e1, s1) = (e', s')" using step by blast
    have "sched_wf A s1" "idle (rq s1) = idle (rq s)"
      using setpriority_task_keeps(1,2) [OF a(1)] same_tasksD(7) 2 by (auto simp: eq_commute)
    then show ?case using Cons.IH(2) [OF _ _ a(2)] 2 by simp }
  { case 3 then obtain e1 s1 where a: "setpriority_task which who n p (e, s) = (e1, s1)"
        "fold (setpriority_task which who n) ps (e1, s1) = (e', s')" using step by blast
    show ?case using setpriority_task_keeps(3) [OF a(1)] Cons.IH(3) [OF a(2)] by blast }
  { case 4 then obtain e1 s1 where a: "setpriority_task which who n p (e, s) = (e1, s1)"
        "fold (setpriority_task which who n) ps (e1, s1) = (e', s')" using step by blast
    show ?case using setpriority_task_keeps(3,4) [OF a(1)] Cons.IH(4) [OF _ _ a(2)] 4 by auto }
  { case 5 then obtain e1 s1 where a: "setpriority_task which who n p (e, s) = (e1, s1)"
        "fold (setpriority_task which who n) ps (e1, s1) = (e', s')" using step by blast
    note k = setpriority_task_keeps [OF a(1)] and sel = same_tasksD(1) [OF setpriority_task_keeps(1) [OF a(1)]]
    note r = Cons.IH(5) [OF 5(1-3) a(2), rule_format]
    have e1: "e1 = 0 \<or> e1 = - ESRCH" using Cons.IH(4) [OF _ _ a(2)] 5(1) by auto
    show ?case
    proof (rule allI, rule conjI; rule impI)
      fix q
      { assume q: "q \<in> set (p # ps) \<and> proc_sel q which who s"
        show "task_nice (tasks s' q) = n \<and> policy (tasks s q) \<noteq> SCHED_SHORT"
        proof (cases "q \<in> set ps")
          case True
          then show ?thesis using r [of q] q by (simp add: sel same_tasksD(5) [OF k(1)])
        next
          case False
          then have "q = p" "task_nice (tasks s' p) = task_nice (tasks s1 p)" using r [of p] q by auto
          moreover have "e1 = 0" using k(8) e1 q \<open>q = p\<close> by blast
          ultimately show ?thesis using k(7,9) q 5(2,3) by simp
        qed }
      { assume q: "q \<notin> set (p # ps) \<or> \<not> proc_sel q which who s"
        have "task_nice (tasks s1 q) = task_nice (tasks s q)" using k(5,6) q by (cases "q = p") auto
        then show "task_nice (tasks s' q) = task_nice (tasks s q)" using r [of q] q by (auto simp: sel) }
    qed }
  { case 6 then obtain e1 s1 where a: "setpriority_task which who n p (e, s) = (e1, s1)"
        "fold (setpriority_task which who n) ps (e1, s1) = (e', s')" using step by blast
    note k = setpriority_task_keeps [OF a(1)] and sel = same_tasksD(1) [OF setpriority_task_keeps(1) [OF a(1)]]
    show ?case
    proof (cases "proc_sel p which who s")
      case True
      then have "e1 \<noteq> - ESRCH" by (rule k(8))
      then have "e' \<noteq> - ESRCH" using Cons.IH(3) [OF a(2)] by auto
      then show ?thesis using True by simp
    next
      case False
      then show ?thesis using k(6) Cons.IH(6) [OF _ a(2)] 6(1) by simp
    qed }
qed


text \<open>The second loop takes the maximum.\<close>

lemma Max_insert_max:
  assumes "finite M"
  shows "Max (insert (max a b) M) = Max (insert (a :: int) (insert b M))"
proof (cases "M = {}")
  case False
  then show ?thesis using assms by (simp add: max.assoc)
qed simp

lemma max_loop:
  "fold (\<lambda>p r. if \<not> P p then r else let v = f p in if v > r then v else r) ps r =
     Max (insert (r :: int) (f ` {p \<in> set ps. P p}))"
proof (induction ps arbitrary: r)
  case Nil
  then show ?case by simp
next
  case (Cons p ps)
  let ?M = "f ` {q \<in> set ps. P q}"
  have "{q \<in> set (p # ps). P q} = (if P p then insert p {q \<in> set ps. P q} else {q \<in> set ps. P q})" by auto
  moreover have "Max (insert (max r (f p)) ?M) = Max (insert r (insert (f p) ?M))" by (rule Max_insert_max) simp
  ultimately show ?case using Cons.IH by (auto simp: Let_def max_def)
qed

lemma getpriority_max:
  assumes "0 \<le> which" "which \<le> 2"
  shows "sys_getpriority all which who s = Max (insert (- ESRCH) ((\<lambda>p. 20 - task_nice (tasks s p)) ` {p \<in> set all. proc_sel p which who s}))"
  using assms max_loop [of "\<lambda>p. proc_sel p which who s" "\<lambda>p. 20 - task_nice (tasks s p)" all "- ESRCH"]
  by (simp add: sys_getpriority_def)

subsection \<open>Properties\<close>

text \<open>The verdict on one selected task, as the manual of the two calls has it and HW2 extends it: whose task it is,
  whether its value is to be improved without the right to, and whether it is a SHORT task.\<close>

definition verdict :: "int \<Rightarrow> sched \<Rightarrow> tid \<Rightarrow> int" where
  "verdict v s p =
     (let t = tasks s p; c = tasks s (current s) in
      if \<not> capable_nice s \<and> uid t \<notin> {uid c, euid c} then - EPERM
      else if \<not> capable_nice s \<and> v < task_nice t then - EACCES
      else if policy t = SCHED_SHORT then - EPERM else 0)"

lemma setpriority_task_verdict:
  assumes "proc_sel p which who s"
  shows "fst (setpriority_task which who v p (e, s)) = (if verdict v s p \<noteq> 0 then verdict v s p else if e = - ESRCH then 0 else e)"
    and "-20 \<le> v \<Longrightarrow> v \<le> 19 \<Longrightarrow> task_nice (tasks (snd (setpriority_task which who v p (e, s))) p) =
      (if verdict v s p = 0 then v else task_nice (tasks s p))"
proof -
  show "fst (setpriority_task which who v p (e, s)) = (if verdict v s p \<noteq> 0 then verdict v s p else if e = - ESRCH then 0 else e)"
    using assms by (auto simp: setpriority_task_def verdict_def Let_def)
  have "policy (tasks s p) = SCHED_SHORT \<Longrightarrow> set_user_nice p v s = s" by (simp add: set_user_nice_def Let_def)
  then show "-20 \<le> v \<Longrightarrow> v \<le> 19 \<Longrightarrow> task_nice (tasks (snd (setpriority_task which who v p (e, s))) p) =
      (if verdict v s p = 0 then v else task_nice (tasks s p))"
    using assms set_user_nice_sets [of s p v]
    by (cases "policy (tasks s p) = SCHED_SHORT") (auto simp: setpriority_task_def verdict_def Let_def)
qed

lemma verdict_same:
  assumes "same_tasks s s'" "task_nice (tasks s' q) = task_nice (tasks s q)"
  shows "verdict v s' q = verdict v s q"
  using assms same_tasksD(2-6) [OF assms(1)] by (simp add: verdict_def Let_def)

lemma setpriority_verdicts:
  assumes "fold (setpriority_task which who v) ps (e, s) = (e', s')" "distinct ps" "-20 \<le> v" "v \<le> 19"
  shows "e' = (let bad = filter (\<lambda>p. proc_sel p which who s \<and> verdict v s p \<noteq> 0) ps in
      if bad \<noteq> [] then verdict v s (last bad)
      else if e = - ESRCH \<and> (\<exists>p\<in>set ps. proc_sel p which who s) then 0 else e)"
    and "task_nice (tasks s' q) =
      (if q \<in> set ps \<and> proc_sel q which who s \<and> verdict v s q = 0 then v else task_nice (tasks s q))"
  using assms
proof (induction ps arbitrary: e s)
  case Nil
  { case 1 then show ?case by simp }
  { case 2 then show ?case by simp }
next
  case (Cons p ps)
  have step: "\<exists>e1 s1. setpriority_task which who v p (e, s) = (e1, s1) \<and>
      fold (setpriority_task which who v) ps (e1, s1) = (e', s')"
    if "fold (setpriority_task which who v) (p # ps) (e, s) = (e', s')" for e s
    using that by (cases "setpriority_task which who v p (e, s)") auto
  { case 1
    obtain e1 s1 where a: "setpriority_task which who v p (e, s) = (e1, s1)"
      "fold (setpriority_task which who v) ps (e1, s1) = (e', s')" using step [OF 1(1)] by blast
    note k = setpriority_task_keeps [OF a(1)]
    have j: "verdict v s1 q = verdict v s q" if "q \<in> set ps" for q
    proof -
      have "q \<noteq> p" using that 1(2) by auto
      then show ?thesis using verdict_same [OF k(1) k(5)] by blast
    qed
    have sel: "proc_sel q which who s1 = proc_sel q which who s" for q using same_tasksD(1) [OF k(1)] .
    have f: "filter (\<lambda>q. proc_sel q which who s1 \<and> verdict v s1 q \<noteq> 0) ps = filter (\<lambda>q. proc_sel q which who s \<and> verdict v s q \<noteq> 0) ps"
      by (rule filter_cong) (auto simp: j sel)
    have l: "verdict v s1 (last (filter (\<lambda>q. proc_sel q which who s \<and> verdict v s q \<noteq> 0) ps)) =
        verdict v s (last (filter (\<lambda>q. proc_sel q which who s \<and> verdict v s q \<noteq> 0) ps))"
      if "filter (\<lambda>q. proc_sel q which who s \<and> verdict v s q \<noteq> 0) ps \<noteq> []"
      using last_in_set [OF that] by (intro j) simp
    have e1: "e1 = (if proc_sel p which who s then if verdict v s p \<noteq> 0 then verdict v s p else if e = - ESRCH then 0 else e else e)"
      using setpriority_task_verdict(1) [of p which who s v e] k(6) a(1) by simp
    have n: "verdict v s p \<noteq> - ESRCH" by (simp add: verdict_def Let_def)
    let ?bad = "filter (\<lambda>q. proc_sel q which who s \<and> verdict v s q \<noteq> 0) ps"
    have i: "e' = (if ?bad \<noteq> [] then verdict v s1 (last ?bad)
        else if e1 = - ESRCH \<and> (\<exists>p\<in>set ps. proc_sel p which who s) then 0 else e1)"
      using Cons.IH(1) [OF a(2)] 1(2-4) unfolding sel f [unfolded sel] Let_def by simp
    have c: "filter (\<lambda>q. proc_sel q which who s \<and> verdict v s q \<noteq> 0) (p # ps) =
        (if proc_sel p which who s \<and> verdict v s p \<noteq> 0 then p # ?bad else ?bad)" by simp
    show ?case
    proof (cases "?bad = []")
      case True
      then have i': "e' = (if e1 = - ESRCH \<and> (\<exists>p\<in>set ps. proc_sel p which who s) then 0 else e1)" using i by simp
      show ?thesis
      proof (cases "proc_sel p which who s")
        case p: True
        then have "e1 \<noteq> - ESRCH" using e1 n by simp
        then show ?thesis unfolding c i' Let_def True using p e1 by simp
      next
        case False
        then show ?thesis unfolding c i' Let_def True using e1 by simp
      qed
    next
      case False
      then have "e' = verdict v s (last ?bad)" using i l by simp
      then show ?thesis unfolding c Let_def using False by simp
    qed }
  { case 2
    obtain e1 s1 where a: "setpriority_task which who v p (e, s) = (e1, s1)"
      "fold (setpriority_task which who v) ps (e1, s1) = (e', s')" using step [OF 2(1)] by blast
    note k = setpriority_task_keeps [OF a(1)]
    have r: "task_nice (tasks s' q) = (if q \<in> set ps \<and> proc_sel q which who s1 \<and> verdict v s1 q = 0 then v else task_nice (tasks s1 q))"
      using Cons.IH(2) [OF a(2)] 2 by simp
    have sel: "proc_sel q which who s1 = proc_sel q which who s" using same_tasksD(1) [OF k(1)] .
    show ?case
    proof (cases "q = p")
      case True
      then have "task_nice (tasks s' q) = task_nice (tasks s1 p)" using r 2(2) by simp
      then show ?thesis using True setpriority_task_verdict(2) [of p which who s v e] k(6) a(1) 2(3,4)
        by (cases "proc_sel p which who s") auto
    next
      case False
      then show ?thesis using r verdict_same [OF k(1) k(5)] k(5) [OF False] by (simp add: sel)
    qed }
qed

lemma nice_range:
  assumes "sched_wf A s" "idle (rq s) \<notin> set all" "p \<in> set all"
  shows "20 - task_nice (tasks s p) \<in> {1..40}"
proof -
  have "p \<noteq> idle (rq s)" using assms(2,3) by auto
  from queues_wfD(6) [OF sched_wfD(1) [OF assms(1)] this] show ?thesis
    by (simp add: task_wf_def task_nice_def TASK_NICE_def PRIO_TO_NICE_def)
qed

text \<open>C30: The exact outcome of the two calls in a well-formed state, with the list of all tasks, which has each task
  once and not the idle task. \<open>setpriority\<close> returns \<open>EINVAL\<close> for an unknown kind of target and \<open>ESRCH\<close> when the
  target selects no task; else the verdict on the last selected task whose verdict is an error (\<open>EPERM\<close> for a task
  of another user without \<open>CAP_SYS_NICE\<close>, else \<open>EACCES\<close> for a better value without it, else \<open>EPERM\<close> for a SHORT task),
  and 0 when there is none. Exactly the selected tasks with verdict 0 get the value, cut to the range -20 to 19; the
  others keep theirs, also when the call returns an error. \<open>getpriority\<close> returns the same two errors in the same
  cases, and else 20 less the least value among the selected tasks, which is from 1 to 40. The scheduler stays
  well-formed, and nobody's identity or policy changes.\<close>
theorem priority_calls_exact:
  assumes "sched_wf A s" and "idle (rq s) \<notin> set all" and "distinct all"
    and "sys_setpriority all which who n s = (r, s')"
    and "v = clamp_int (-20) 19 n" and "chosen = filter (\<lambda>p. proc_sel p which who s) all"
  shows "r = (if which \<notin> {0, 1, 2} then - EINVAL else if chosen = [] then - ESRCH
      else case rev (filter (\<lambda>p. verdict v s p \<noteq> 0) chosen) of [] \<Rightarrow> 0 | p # _ \<Rightarrow> verdict v s p) \<and>
    (\<forall>p. task_nice (tasks s' p) =
      (if which \<in> {0, 1, 2} \<and> p \<in> set chosen \<and> verdict v s p = 0 then v else task_nice (tasks s p))) \<and>
    sys_getpriority all which who s = (if which \<notin> {0, 1, 2} then - EINVAL else if chosen = [] then - ESRCH
      else Max ((\<lambda>p. 20 - task_nice (tasks s p)) ` set chosen)) \<and>
    (\<forall>p. p \<in> set all \<longrightarrow> 20 - task_nice (tasks s p) \<in> {1..40}) \<and>
    sched_wf A s' \<and> same_tasks s s'"
proof (cases "which \<in> {0, 1, 2}")
  case False
  then have "which > 2 \<or> which < 0" by auto
  then have "r = - EINVAL" "s' = s" "sys_getpriority all which who s = - EINVAL"
    using assms(4) by (auto simp: sys_setpriority_def sys_getpriority_def)
  then show ?thesis using False assms(1) nice_range [OF assms(1,2)] by auto
next
  case True
  then have w: "\<not> (which > 2 \<or> which < 0)" "0 \<le> which" "which \<le> 2" by auto
  have f: "fold (setpriority_task which who v) all (- ESRCH, s) = (r, s')"
    using assms(4,5) w(1) by (simp add: sys_setpriority_def)
  have v: "-20 \<le> v" "v \<le> 19" by (auto simp: assms(5) clamp_int_def)
  let ?bad = "filter (\<lambda>p. proc_sel p which who s \<and> verdict v s p \<noteq> 0) all"
  have b: "filter (\<lambda>p. verdict v s p \<noteq> 0) chosen = ?bad" by (simp add: assms(6) conj_commute)
  have c: "chosen = [] \<longleftrightarrow> \<not> (\<exists>p\<in>set all. proc_sel p which who s)" by (auto simp: assms(6) filter_empty_conv)
  have "r = (if chosen = [] then - ESRCH
      else case rev (filter (\<lambda>p. verdict v s p \<noteq> 0) chosen) of [] \<Rightarrow> 0 | p # _ \<Rightarrow> verdict v s p)"
  proof (cases "?bad = []")
    case True
    then show ?thesis using setpriority_verdicts(1) [OF f assms(3) v] c unfolding b Let_def True by simp
  next
    case False
    then have "chosen \<noteq> []" by (auto simp: c filter_empty_conv)
    moreover obtain ys y where "?bad = ys @ [y]" using False by (cases ?bad rule: rev_cases) simp
    ultimately show ?thesis using setpriority_verdicts(1) [OF f assms(3) v] unfolding b Let_def by simp
  qed
  moreover have "task_nice (tasks s' p) = (if p \<in> set chosen \<and> verdict v s p = 0 then v else task_nice (tasks s p))" for p
    using setpriority_verdicts(2) [OF f assms(3) v, of p] by (auto simp: assms(6))
  moreover have "sys_getpriority all which who s = (if chosen = [] then - ESRCH else Max ((\<lambda>p. 20 - task_nice (tasks s p)) ` set chosen))"
  proof -
    let ?M = "(\<lambda>p. 20 - task_nice (tasks s p)) ` set chosen"
    have g: "sys_getpriority all which who s = Max (insert (- ESRCH) ?M)"
      using getpriority_max [OF w(2,3), of all who s] by (simp add: assms(6))
    show ?thesis
    proof (cases "chosen = []")
      case False
      then have "?M \<noteq> {}" by simp
      then have "Max (insert (- ESRCH) ?M) = max (- ESRCH) (Max ?M)" by (intro Max_insert) simp_all
      moreover have "Max ?M \<in> ?M" using \<open>?M \<noteq> {}\<close> by (intro Max_in) simp_all
      then have "Max ?M \<in> {1..40}" using nice_range [OF assms(1,2)] assms(6) by auto
      ultimately show ?thesis unfolding g using False by simp
    qed (simp add: g)
  qed
  moreover have "sched_wf A s'" "same_tasks s s'" using setpriority_loop(1,2) [OF f] assms(1,2) by simp_all
  ultimately show ?thesis using True nice_range [OF assms(1,2)] by simp
qed

theorem priority_calls_exact_witness:
  "\<exists>s'. sys_setpriority [1, 2, 3, 4, 5] 0 3 7 demo_sched = (- EPERM, s') \<and> task_nice (tasks s' 3) = 0 \<and>
    sys_getpriority [1, 2, 3, 4, 5] 0 3 demo_sched = 20"
proof -
  obtain r s' where c: "sys_setpriority [1, 2, 3, 4, 5] 0 3 7 demo_sched = (r, s')" by fastforce
  have "idle (rq demo_sched) \<notin> set [1, 2, 3, 4, 5]" by simp
  note t = priority_calls_exact [OF demo_wf this _ c refl refl]
  have sel: "filter (\<lambda>p. proc_sel p 0 3 demo_sched) [1, 2, 3, 4, 5] = [3]"
    by (simp add: proc_sel_def PRIO_PROCESS_def demo_task_def Let_def)
  have v: "verdict (clamp_int (-20) 19 7) demo_sched 3 = - EPERM"
    by (simp add: verdict_def capable_nice_def demo_task_def short_task_def base_task_def Let_def clamp_int_def)
  have "task_nice (tasks demo_sched 3) = 0"
    by (simp add: task_nice_def TASK_NICE_def PRIO_TO_NICE_def demo_task_def short_task_def base_task_def)
  with t c show ?thesis unfolding sel by (simp add: v)
qed

text \<open>C31: What \<open>setpriority\<close> set, \<open>getpriority\<close> reads. When \<open>setpriority\<close> returns 0, every selected task has the
  value (cut to the range), no selected task is SHORT, no other task changed its value, and \<open>getpriority\<close> for the
  same target returns the value in its encoding.\<close>
theorem setpriority_read_back:
  assumes "sys_setpriority all which who n s = (0, s')"
  shows "let v = clamp_int (-20) 19 n in
    sys_getpriority all which who s' = 20 - v \<and>
    (\<forall>p. if p \<in> set all \<and> proc_sel p which who s then task_nice (tasks s' p) = v \<and> policy (tasks s' p) \<noteq> SCHED_SHORT
         else task_nice (tasks s' p) = task_nice (tasks s p))"
proof -
  let ?v = "clamp_int (-20) 19 n"
  have w: "0 \<le> which" "which \<le> 2" and f: "fold (setpriority_task which who ?v) all (- ESRCH, s) = (0, s')"
    using assms by (auto simp: sys_setpriority_def split: if_splits)
  have v: "-20 \<le> ?v" "?v \<le> 19" by (auto simp: clamp_int_def)
  note r = setpriority_loop(5) [OF f refl v, rule_format] and sel = same_tasksD(1) [OF setpriority_loop(1) [OF f]]
  have "{p \<in> set all. proc_sel p which who s} \<noteq> {}" using setpriority_loop(6) [OF f refl] by auto
  moreover have "task_nice (tasks s' p) = ?v" if "p \<in> {p \<in> set all. proc_sel p which who s}" for p using r that by blast
  ultimately have "(\<lambda>p. 20 - task_nice (tasks s' p)) ` {p \<in> set all. proc_sel p which who s'} = {20 - ?v}"
    unfolding sel by (auto simp: image_iff)
  then have "sys_getpriority all which who s' = 20 - ?v" using w v by (simp add: getpriority_max)
  then show ?thesis using r same_tasksD(5) [OF setpriority_loop(1) [OF f]] by (auto simp: Let_def)
qed

theorem setpriority_read_back_witness:
  "\<exists>s'. sys_setpriority [1, 2, 3, 4, 5] 0 1 30 demo_sched = (0, s') \<and> sys_getpriority [1, 2, 3, 4, 5] 0 1 s' = 1"
proof -
  let ?s = "set_user_nice 1 19 demo_sched"
  have sel0: "proc_sel p 0 1 demo_sched \<longleftrightarrow> p = 1" for p
    by (auto simp: proc_sel_def PRIO_PROCESS_def demo_task_def Let_def)
  note sel = sel0 sel0 [folded same_tasksD(1) [OF same_tasks_nice [of demo_sched 1 19]]]
  have "setpriority_task 0 1 19 1 (- ESRCH, demo_sched) = (0, ?s)"
    using sel(1) [of 1] by (simp add: setpriority_task_def Let_def capable_nice_def demo_task_def short_task_def base_task_def)
  moreover have "setpriority_task 0 1 19 p (0, ?s) = (0, ?s)" if "p \<noteq> 1" for p
    using sel(2) [of p] that by (simp add: setpriority_task_def Let_def)
  ultimately have "sys_setpriority [1, 2, 3, 4, 5] 0 1 30 demo_sched = (0, ?s)"
    by (simp add: sys_setpriority_def clamp_int_def)
  from setpriority_read_back [OF this] this show ?thesis by (auto simp: Let_def clamp_int_def)
qed

end
