(* ===== verification/Proc_Links.thy ===== *)
theory Proc_Links
  imports Pid_Hash "HOL-Library.Monad_Syntax"
begin

text \<open>
  The processes of the kernel and how they are linked (\<^verbatim>\<open>include/linux/sched.h\<close>, the same in \<^verbatim>\<open>HW1\<close> and
  \<^verbatim>\<open>HW2\<close>): the circular list of all tasks through \<open>next_task\<close> and \<open>prev_task\<close>, and the family, where a
  parent points at its youngest child and the children at their younger and older siblings. \<open>SET_LINKS\<close>
  and \<open>REMOVE_LINKS\<close> are the pointer assignments of the macros. \<open>linked_tasks\<close> relates the pointers to
  the list of tasks and, for every parent, the list of its children, youngest first; the lemmas say what
  the two macros do to these lists. Tasks are named by numbers, the idle task \<^verbatim>\<open>init_task\<close> by 0.
\<close>

type_synonym tid = nat

record ptask =
  ppid :: pid
  pgrp :: pid
  session :: pid
  tgid :: pid
  leader :: bool
  did_exec :: bool
  tty :: bool
  tty_old_pgrp :: pid
  pstate :: int
  exiting :: bool
  pflags :: u32
  exit_code :: int
  exit_signal :: int
  pdeath_signal :: int
  ptrace :: u32
  self_exec_id :: u32
  parent_exec_id :: u32
  cap_kill :: bool
  first_time_slice :: u32
  p_opptr :: tid
  p_pptr :: tid
  p_cptr :: "tid option"
  p_ysptr :: "tid option"
  p_osptr :: "tid option"
  next_task :: tid
  prev_task :: tid
  thread_next :: tid
  thread_prev :: tid
  tms_utime :: u32
  tms_stime :: u32
  tms_cutime :: u32
  tms_cstime :: u32
  min_flt :: u32
  maj_flt :: u32
  nswap :: u32
  cmin_flt :: u32
  cmaj_flt :: u32
  cnswap :: u32
  user_id :: u32

text \<open>\<open>exiting\<close> is the bit \<open>PF_EXITING\<close> of \<open>flags\<close>, \<open>pflags\<close> the others.\<close>

text \<open>What is asked of other files: a signal to a process or to a process group, the news of a death to the parent,
  and the wait of a task for a completion.\<close>

datatype signal_event = Send_Sig int tid | Kill_Pg pid int | Notify_Parent tid tid int | Wait_For tid nat

record kern =
  procs :: "tid \<Rightarrow> ptask"
  current :: tid
  child_reaper :: tid
  nr_threads :: int
  pidhash :: "nat \<Rightarrow> tid list"
  signals :: "signal_event list"
  user_processes :: "u32 \<Rightarrow> int"
  user_count :: "u32 \<Rightarrow> int"
  last_pid :: pid
  next_safe :: pid
  max_threads :: int
  total_forks :: u32

definition init_task :: tid where "init_task = 0"

definition upd :: "tid \<Rightarrow> (ptask \<Rightarrow> ptask) \<Rightarrow> kern \<Rightarrow> kern" where
  "upd p f k = k\<lparr>procs := (procs k)(p := f (procs k p))\<rparr>"

definition upd_opt :: "tid option \<Rightarrow> (ptask \<Rightarrow> ptask) \<Rightarrow> kern \<Rightarrow> kern" where
  "upd_opt q f k = (case q of None \<Rightarrow> k | Some p \<Rightarrow> upd p f k)"

lemma upd_procs: "procs (upd p f k) q = (if q = p then f (procs k p) else procs k q)"
  by (simp add: upd_def)

lemma upd_opt_procs: "procs (upd_opt r f k) q = (if r = Some q then f (procs k q) else procs k q)"
  by (cases r) (auto simp: upd_opt_def upd_procs)

lemma upd_fields [simp]:
  "current (upd p f k) = current k" "child_reaper (upd p f k) = child_reaper k"
  "nr_threads (upd p f k) = nr_threads k" "pidhash (upd p f k) = pidhash k" "signals (upd p f k) = signals k"
  "user_processes (upd p f k) = user_processes k" "user_processes (upd_opt r f k) = user_processes k"
  "current (upd_opt r f k) = current k" "child_reaper (upd_opt r f k) = child_reaper k"
  "nr_threads (upd_opt r f k) = nr_threads k" "pidhash (upd_opt r f k) = pidhash k" "signals (upd_opt r f k) = signals k"
  "user_count (upd p f k) = user_count k" "last_pid (upd p f k) = last_pid k" "next_safe (upd p f k) = next_safe k"
  "max_threads (upd p f k) = max_threads k" "total_forks (upd p f k) = total_forks k"
  "user_count (upd_opt r f k) = user_count k" "last_pid (upd_opt r f k) = last_pid k" "next_safe (upd_opt r f k) = next_safe k"
  "max_threads (upd_opt r f k) = max_threads k" "total_forks (upd_opt r f k) = total_forks k"
  by (simp_all add: upd_def upd_opt_def split: option.splits)

text \<open>Reading a field after an update: of another field, and of the same.\<close>

lemma upd_keep_field:
  "(\<And>t. F (f t) = F t) \<Longrightarrow> F (procs (upd p f k) q) = F (procs k q)"
  "(\<And>t. F (f t) = F t) \<Longrightarrow> F (procs (upd_opt r f k) q) = F (procs k q)"
  by (simp_all add: upd_def upd_opt_def split: option.splits)

lemmas upd_keep =
  upd_keep_field [where F = ppid]
  upd_keep_field [where F = pgrp]
  upd_keep_field [where F = session]
  upd_keep_field [where F = tgid]
  upd_keep_field [where F = leader]
  upd_keep_field [where F = did_exec]
  upd_keep_field [where F = pstate]
  upd_keep_field [where F = exiting]
  upd_keep_field [where F = exit_code]
  upd_keep_field [where F = exit_signal]
  upd_keep_field [where F = pdeath_signal]
  upd_keep_field [where F = p_opptr]
  upd_keep_field [where F = p_pptr]
  upd_keep_field [where F = p_cptr]
  upd_keep_field [where F = p_ysptr]
  upd_keep_field [where F = p_osptr]
  upd_keep_field [where F = next_task]
  upd_keep_field [where F = prev_task]
  upd_keep_field [where F = thread_next]
  upd_keep_field [where F = thread_prev]
  upd_keep_field [where F = tms_utime]
  upd_keep_field [where F = tms_stime]
  upd_keep_field [where F = tms_cutime]
  upd_keep_field [where F = tms_cstime]

lemma upd_set:
  "next_task (procs (upd p (\<lambda>t. t\<lparr>next_task := v0\<rparr>) k) q) = (if q = p then v0 else next_task (procs k q))"
  "next_task (procs (upd_opt r (\<lambda>t. t\<lparr>next_task := v0\<rparr>) k) q) = (if r = Some q then v0 else next_task (procs k q))"
  "prev_task (procs (upd p (\<lambda>t. t\<lparr>prev_task := v1\<rparr>) k) q) = (if q = p then v1 else prev_task (procs k q))"
  "prev_task (procs (upd_opt r (\<lambda>t. t\<lparr>prev_task := v1\<rparr>) k) q) = (if r = Some q then v1 else prev_task (procs k q))"
  "p_pptr (procs (upd p (\<lambda>t. t\<lparr>p_pptr := v2\<rparr>) k) q) = (if q = p then v2 else p_pptr (procs k q))"
  "p_pptr (procs (upd_opt r (\<lambda>t. t\<lparr>p_pptr := v2\<rparr>) k) q) = (if r = Some q then v2 else p_pptr (procs k q))"
  "p_opptr (procs (upd p (\<lambda>t. t\<lparr>p_opptr := v3\<rparr>) k) q) = (if q = p then v3 else p_opptr (procs k q))"
  "p_opptr (procs (upd_opt r (\<lambda>t. t\<lparr>p_opptr := v3\<rparr>) k) q) = (if r = Some q then v3 else p_opptr (procs k q))"
  "p_cptr (procs (upd p (\<lambda>t. t\<lparr>p_cptr := v4\<rparr>) k) q) = (if q = p then v4 else p_cptr (procs k q))"
  "p_cptr (procs (upd_opt r (\<lambda>t. t\<lparr>p_cptr := v4\<rparr>) k) q) = (if r = Some q then v4 else p_cptr (procs k q))"
  "p_ysptr (procs (upd p (\<lambda>t. t\<lparr>p_ysptr := v5\<rparr>) k) q) = (if q = p then v5 else p_ysptr (procs k q))"
  "p_ysptr (procs (upd_opt r (\<lambda>t. t\<lparr>p_ysptr := v5\<rparr>) k) q) = (if r = Some q then v5 else p_ysptr (procs k q))"
  "p_osptr (procs (upd p (\<lambda>t. t\<lparr>p_osptr := v6\<rparr>) k) q) = (if q = p then v6 else p_osptr (procs k q))"
  "p_osptr (procs (upd_opt r (\<lambda>t. t\<lparr>p_osptr := v6\<rparr>) k) q) = (if r = Some q then v6 else p_osptr (procs k q))"
  by (simp_all add: upd_procs upd_opt_procs)

text \<open>
  What names a task and its thread group, and what is global: no operation on links, states or signals
  changes it (\<open>same_table\<close>).
\<close>

definition own :: "ptask \<Rightarrow> (pid \<times> pid \<times> pid \<times> pid) \<times> bool \<times> bool \<times> tid \<times> tid" where
  "own t = ((ppid t, pgrp t, session t, tgid t), leader t, exiting t, thread_next t, thread_prev t)"

definition same_table :: "kern \<Rightarrow> kern \<Rightarrow> bool" where
  "same_table k k' \<longleftrightarrow> (\<forall>q. own (procs k' q) = own (procs k q)) \<and> current k' = current k \<and>
     child_reaper k' = child_reaper k \<and> pidhash k' = pidhash k \<and> nr_threads k' = nr_threads k \<and>
     last_pid k' = last_pid k \<and> next_safe k' = next_safe k"

lemma same_table_refl: "same_table k k" by (simp add: same_table_def)

lemma same_table_trans: "same_table k k' \<Longrightarrow> same_table k' k'' \<Longrightarrow> same_table k k''"
  by (simp add: same_table_def)

lemma same_table_upd:
  "(\<And>t. own (f t) = own t) \<Longrightarrow> same_table k (upd p f k)"
  "(\<And>t. own (f t) = own t) \<Longrightarrow> same_table k (upd_opt r f k)"
  by (simp_all add: same_table_def upd_keep_field [where F = own])

lemma same_tableD:
  assumes "same_table k k'"
  shows "ppid (procs k' q) = ppid (procs k q)" "pgrp (procs k' q) = pgrp (procs k q)"
    "session (procs k' q) = session (procs k q)" "tgid (procs k' q) = tgid (procs k q)"
    "leader (procs k' q) = leader (procs k q)" "exiting (procs k' q) = exiting (procs k q)"
    "thread_next (procs k' q) = thread_next (procs k q)" "thread_prev (procs k' q) = thread_prev (procs k q)"
    "current k' = current k" "child_reaper k' = child_reaper k" "pidhash k' = pidhash k"
    "nr_threads k' = nr_threads k" "last_pid k' = last_pid k" "next_safe k' = next_safe k"
  using assms by (auto simp: same_table_def own_def)

subsection \<open>The macros\<close>

definition REMOVE_LINKS :: "tid \<Rightarrow> kern \<Rightarrow> kern" where
  "REMOVE_LINKS p k =
     (let k1 = upd (next_task (procs k p)) (\<lambda>t. t\<lparr>prev_task := prev_task (procs k p)\<rparr>) k;
          k2 = upd (prev_task (procs k1 p)) (\<lambda>t. t\<lparr>next_task := next_task (procs k1 p)\<rparr>) k1;
          k3 = upd_opt (p_osptr (procs k2 p)) (\<lambda>t. t\<lparr>p_ysptr := p_ysptr (procs k2 p)\<rparr>) k2
      in case p_ysptr (procs k3 p) of
           Some y \<Rightarrow> upd y (\<lambda>t. t\<lparr>p_osptr := p_osptr (procs k3 p)\<rparr>) k3
         | None \<Rightarrow> upd (p_pptr (procs k3 p)) (\<lambda>t. t\<lparr>p_cptr := p_osptr (procs k3 p)\<rparr>) k3)"

definition SET_LINKS :: "tid \<Rightarrow> kern \<Rightarrow> kern" where
  "SET_LINKS p k =
     (let k1 = upd p (\<lambda>t. t\<lparr>next_task := init_task\<rparr>) k;
          k2 = upd p (\<lambda>t. t\<lparr>prev_task := prev_task (procs k1 init_task)\<rparr>) k1;
          k3 = upd (prev_task (procs k2 init_task)) (\<lambda>t. t\<lparr>next_task := p\<rparr>) k2;
          k4 = upd init_task (\<lambda>t. t\<lparr>prev_task := p\<rparr>) k3;
          k5 = upd p (\<lambda>t. t\<lparr>p_ysptr := None\<rparr>) k4;
          k6 = upd p (\<lambda>t. t\<lparr>p_osptr := p_cptr (procs k5 (p_pptr (procs k5 p)))\<rparr>) k5;
          k7 = upd_opt (p_osptr (procs k6 p)) (\<lambda>t. t\<lparr>p_ysptr := Some p\<rparr>) k6
      in upd (p_pptr (procs k7 p)) (\<lambda>t. t\<lparr>p_cptr := Some p\<rparr>) k7)"

lemma links_same_table: "same_table k (SET_LINKS p k)" "same_table k (REMOVE_LINKS p k)"
  by (auto simp: SET_LINKS_def REMOVE_LINKS_def Let_def own_def split: option.splits
      intro!: same_table_refl same_table_trans [OF _ same_table_upd(1)] same_table_trans [OF _ same_table_upd(2)])

text \<open>\<^verbatim>\<open>for_each_task\<close>: the tasks met from \<open>init_task\<close> along \<open>next_task\<close>, as a list the loop bodies fold over.\<close>

partial_function (option) ring_from :: "kern \<Rightarrow> tid \<Rightarrow> tid list option" where
  "ring_from k p =
     (if next_task (procs k p) = init_task then Some []
      else Option.bind (ring_from k (next_task (procs k p))) (\<lambda>xs. Some (next_task (procs k p) # xs)))"

definition for_each_task :: "kern \<Rightarrow> tid list option" where
  "for_each_task k = ring_from k init_task"

definition next_thread :: "kern \<Rightarrow> tid \<Rightarrow> tid" where "next_thread k p = thread_next (procs k p)"

subsection \<open>Lists of tasks and families\<close>

text \<open>\<open>path nx a xs b\<close>: from \<open>a\<close> the successor function meets \<open>xs\<close> and then \<open>b\<close>.\<close>

fun path :: "(tid \<Rightarrow> tid) \<Rightarrow> tid \<Rightarrow> tid list \<Rightarrow> tid \<Rightarrow> bool" where
  "path nx a [] b = (nx a = b)"
| "path nx a (x # xs) b = (nx a = x \<and> path nx x xs b)"

text \<open>\<open>sibs os ys q f xs\<close>: the sibling list \<open>xs\<close> starts at \<open>f\<close>, with the younger sibling \<open>q\<close> before it.\<close>

fun sibs :: "(tid \<Rightarrow> tid option) \<Rightarrow> (tid \<Rightarrow> tid option) \<Rightarrow> tid option \<Rightarrow> tid option \<Rightarrow> tid list \<Rightarrow> bool" where
  "sibs os ys q f [] = (f = None)"
| "sibs os ys q f (x # xs) = (f = Some x \<and> ys x = q \<and> sibs os ys (Some x) (os x) xs)"

abbreviation nxt :: "kern \<Rightarrow> tid \<Rightarrow> tid" where "nxt k \<equiv> \<lambda>p. next_task (procs k p)"
abbreviation prv :: "kern \<Rightarrow> tid \<Rightarrow> tid" where "prv k \<equiv> \<lambda>p. prev_task (procs k p)"
abbreviation older :: "kern \<Rightarrow> tid \<Rightarrow> tid option" where "older k \<equiv> \<lambda>p. p_osptr (procs k p)"
abbreviation younger :: "kern \<Rightarrow> tid \<Rightarrow> tid option" where "younger k \<equiv> \<lambda>p. p_ysptr (procs k p)"
abbreviation parent :: "kern \<Rightarrow> tid \<Rightarrow> tid" where "parent k \<equiv> \<lambda>p. p_pptr (procs k p)"

definition ring_is :: "tid list \<Rightarrow> kern \<Rightarrow> bool" where
  "ring_is xs k \<longleftrightarrow> distinct (init_task # xs) \<and> path (nxt k) init_task xs init_task \<and>
     path (prv k) init_task (rev xs) init_task"

definition children_are :: "(tid \<Rightarrow> tid list) \<Rightarrow> tid list \<Rightarrow> kern \<Rightarrow> bool" where
  "children_are ch xs k \<longleftrightarrow> (\<forall>p. distinct (ch p) \<and> sibs (older k) (younger k) None (p_cptr (procs k p)) (ch p)) \<and>
     (\<forall>p c. c \<in> set (ch p) \<longleftrightarrow> c \<in> set xs \<and> parent k c = p)"

definition linked_tasks :: "tid list \<Rightarrow> (tid \<Rightarrow> tid list) \<Rightarrow> kern \<Rightarrow> bool" where
  "linked_tasks xs ch k \<longleftrightarrow> ring_is xs k \<and> children_are ch xs k"

subsection \<open>Paths\<close>

lemma path_append: "path nx a (xs @ y # ys) b \<longleftrightarrow> path nx a xs y \<and> path nx y ys b"
  by (induction xs arbitrary: a) auto

lemma path_agree: "path nx a xs b \<Longrightarrow> (\<And>c. c \<in> set (a # xs) \<Longrightarrow> ny c = nx c) \<Longrightarrow> path ny a xs b"
  by (induction xs arbitrary: a) auto

lemma path_last: "path nx a xs b \<Longrightarrow> nx (last (a # xs)) = b"
  by (induction xs arbitrary: a) auto

text \<open>Redirecting the end of a path.\<close>

lemma path_end:
  assumes "path nx a xs b" "distinct (a # xs)"
  shows "path (nx(last (a # xs) := c)) a xs c"
  using assms
proof (induction xs arbitrary: a)
  case (Cons x xs)
  then have "last (x # xs) \<noteq> a" by (metis distinct.simps(2) last_in_set list.discI)
  with Cons show ?case by (simp split: if_splits)
qed simp

lemma ring_from_path:
  "path (nxt k) a xs init_task \<Longrightarrow> init_task \<notin> set xs \<Longrightarrow> ring_from k a = Some xs"
  by (induction xs arbitrary: a) (subst ring_from.simps, simp)+

lemma for_each_task_list: "ring_is xs k \<Longrightarrow> for_each_task k = Some xs"
  by (simp add: ring_is_def for_each_task_def ring_from_path)

lemma path_bypass:
  assumes "path nx a (us @ p # vs) b" "distinct (a # us @ p # vs)"
  shows "path (nx(last (a # us) := nx p)) a (us @ vs) b"
proof -
  from assms(1) have u: "path nx a us p" and v: "path nx p vs b" by (simp_all add: path_append)
  from u assms(2) have "path (nx(last (a # us) := nx p)) a us (nx p)" by (intro path_end) auto
  moreover have "last (a # us) \<notin> set vs" using assms(2) last_in_set [of "a # us"] by auto
  ultimately show ?thesis
    using v by (cases vs) (auto simp: path_append elim!: path_agree)
qed

lemma path_first: "path nx a xs b \<Longrightarrow> nx a = hd (xs @ [b])"
  by (cases xs) auto

lemma path_snoc:
  assumes "path nx a xs b" "distinct (a # xs)" "c \<notin> set (a # xs)"
  shows "path (nx(c := d, last (a # xs) := c)) a (xs @ [c]) d"
proof -
  have "path (nx(last (a # xs) := c)) a xs c" using assms(1,2) by (rule path_end)
  then have "path (nx(c := d, last (a # xs) := c)) a xs c"
    using assms(3) by (elim path_agree) auto
  moreover have "last (a # xs) \<noteq> c" using assms(3) last_in_set [of "a # xs"] by auto
  ultimately show ?thesis by (auto simp: path_append)
qed

lemma path_cons:
  assumes "path nx a xs b" "a \<notin> set xs" "c \<notin> set (a # xs)"
  shows "path (nx(c := nx a, a := c)) a (c # xs) b"
  using assms by (cases xs) (auto elim!: path_agree)

subsection \<open>Sibling lists\<close>

lemma sibs_agree:
  "sibs os ys q f xs \<Longrightarrow> (\<And>c. c \<in> set xs \<Longrightarrow> os' c = os c \<and> ys' c = ys c) \<Longrightarrow> sibs os' ys' q f xs"
  by (induction xs arbitrary: q f) auto

lemma sibs_neighbours:
  "sibs os ys q f (us @ p # vs) \<Longrightarrow>
   os p = (if vs = [] then None else Some (hd vs)) \<and> ys p = (if us = [] then q else Some (last us))"
proof (induction us arbitrary: q f)
  case Nil
  then show ?case by (cases vs) auto
qed auto

definition opt_upd :: "(tid \<Rightarrow> 'a) \<Rightarrow> tid option \<Rightarrow> 'a \<Rightarrow> tid \<Rightarrow> 'a" where
  "opt_upd f q v = (\<lambda>x. if q = Some x then v else f x)"

lemma sibs_remove:
  assumes "sibs os ys q f (us @ p # vs)" "distinct (us @ p # vs)" "\<And>y. q = Some y \<Longrightarrow> y \<notin> set (us @ p # vs)"
  shows "sibs (opt_upd os (ys p) (os p)) (opt_upd ys (os p) (ys p)) q (if us = [] then os p else f) (us @ vs)"
  using assms
proof (induction us arbitrary: q f)
  case Nil
  then show ?case by (cases vs) (auto simp: opt_upd_def elim!: sibs_agree)
next
  case (Cons u us)
  have n: "ys p = (if us = [] then Some u else Some (last us))"
    "os p = (if vs = [] then None else Some (hd vs))"
    using sibs_neighbours [of os ys q f "u # us" p vs] Cons.prems(1) by simp_all
  have IH: "sibs (opt_upd os (ys p) (os p)) (opt_upd ys (os p) (ys p)) (Some u)
      (if us = [] then os p else os u) (us @ vs)"
    using Cons.prems by (intro Cons.IH) auto
  have y: "opt_upd ys (os p) (ys p) u = q"
    using Cons.prems(1,2) n by (auto simp: opt_upd_def)
  have "opt_upd os (ys p) (os p) u = (if us = [] then os p else os u)"
    using Cons.prems(2) n last_in_set [of us] by (auto simp: opt_upd_def)
  with IH y Cons.prems(1) show ?case by simp
qed

lemma sibs_push:
  assumes "sibs os ys None f xs" "distinct xs" "p \<notin> set xs"
  shows "sibs (os(p := f)) (opt_upd (ys(p := None)) f (Some p)) None (Some p) (p # xs)"
proof (cases xs)
  case Nil
  with assms show ?thesis by (simp add: opt_upd_def)
next
  case (Cons x xs')
  with assms have "sibs os ys (Some x) (os x) xs'" by simp
  then have "sibs (os(p := f)) (opt_upd (ys(p := None)) f (Some p)) (Some x) (os x) xs'"
    using assms Cons by (elim sibs_agree) (auto simp: opt_upd_def)
  with assms Cons show ?thesis by (auto simp: opt_upd_def)
qed

subsection \<open>What the macros do to the lists\<close>

lemma ring_prev_last: "ring_is xs k \<Longrightarrow> prv k init_task = last (init_task # xs)"
  by (auto simp: ring_is_def dest!: path_first [of "prv k"] simp: hd_append hd_rev)

lemma ring_neighbours:
  assumes "ring_is (us @ p # vs) k"
  shows "prv k p = last (init_task # us)" "nxt k p = hd (vs @ [init_task])"
proof -
  have "path (prv k) p (rev us) init_task" "path (nxt k) p vs init_task"
    using assms by (simp_all add: ring_is_def path_append)
  then show "prv k p = last (init_task # us)" "nxt k p = hd (vs @ [init_task])"
    by (auto dest!: path_first simp: hd_append hd_rev)
qed

lemma SET_LINKS_fields:
  assumes "p \<noteq> init_task" "prv k init_task \<noteq> p"
  shows "next_task (procs (SET_LINKS p k) q) =
      (if q = prv k init_task then p else if q = p then init_task else nxt k q)"
    and "prev_task (procs (SET_LINKS p k) q) =
      (if q = init_task then p else if q = p then prv k init_task else prv k q)"
    and "p_pptr (procs (SET_LINKS p k) q) = parent k q"
    and "p_opptr (procs (SET_LINKS p k) q) = p_opptr (procs k q)"
    and "p_cptr (procs (SET_LINKS p k) q) = (if q = parent k p then Some p else p_cptr (procs k q))"
    and "p_osptr (procs (SET_LINKS p k) q) = (if q = p then p_cptr (procs k (parent k p)) else older k q)"
    and "p_ysptr (procs (SET_LINKS p k) q) =
      (if p_cptr (procs k (parent k p)) = Some q then Some p else if q = p then None else younger k q)"
  using assms by (simp_all add: SET_LINKS_def Let_def upd_keep upd_set)

lemma REMOVE_LINKS_fields:
  assumes "prv k p \<noteq> p" "nxt k p \<noteq> p" "older k p \<noteq> Some p"
  shows "next_task (procs (REMOVE_LINKS p k) q) = (if q = prv k p then nxt k p else nxt k q)"
    and "prev_task (procs (REMOVE_LINKS p k) q) = (if q = nxt k p then prv k p else prv k q)"
    and "p_pptr (procs (REMOVE_LINKS p k) q) = parent k q"
    and "p_opptr (procs (REMOVE_LINKS p k) q) = p_opptr (procs k q)"
    and "p_ysptr (procs (REMOVE_LINKS p k) q) = opt_upd (younger k) (older k p) (younger k p) q"
    and "p_osptr (procs (REMOVE_LINKS p k) q) = opt_upd (older k) (younger k p) (older k p) q"
    and "p_cptr (procs (REMOVE_LINKS p k) q) =
      (if younger k p = None \<and> q = parent k p then older k p else p_cptr (procs k q))"
  using assms by (auto simp: REMOVE_LINKS_def Let_def upd_keep upd_set opt_upd_def split: option.splits)

lemma SET_LINKS_ring:
  assumes "ring_is xs k" "p \<notin> set xs" "p \<noteq> init_task"
  shows "ring_is (xs @ [p]) (SET_LINKS p k)"
proof -
  note l = ring_prev_last [OF assms(1)]
  have pl: "prv k init_task \<noteq> p" unfolding l using assms(2,3) last_in_set [of "init_task # xs"] by auto
  have "nxt (SET_LINKS p k) = (nxt k)(p := init_task, last (init_task # xs) := p)"
    "prv (SET_LINKS p k) = (prv k)(p := prv k init_task, init_task := p)"
    using SET_LINKS_fields(1,2) [OF assms(3) pl] l by (simp_all add: fun_eq_iff)
  moreover have "path ((nxt k)(p := init_task, last (init_task # xs) := p)) init_task (xs @ [p]) init_task"
    using assms by (intro path_snoc) (auto simp: ring_is_def)
  moreover have "path ((prv k)(p := prv k init_task, init_task := p)) init_task (p # rev xs) init_task"
    using assms by (intro path_cons) (auto simp: ring_is_def)
  ultimately show ?thesis using assms by (simp add: ring_is_def)
qed

lemma REMOVE_LINKS_ring:
  assumes "ring_is xs k" "p \<in> set xs" "older k p \<noteq> Some p"
  shows "ring_is (remove1 p xs) (REMOVE_LINKS p k)"
proof -
  obtain us vs where xs: "xs = us @ p # vs" "p \<notin> set us" using split_list_first [OF assms(2)] by blast
  note n = ring_neighbours [OF assms(1) [unfolded xs(1)]]
  have d: "distinct (init_task # us @ p # vs)" using assms(1) xs(1) by (simp add: ring_is_def)
  have np: "nxt k p = last (init_task # rev vs)" using n(2) by (cases vs) auto
  have pp: "prv k p \<noteq> p" "nxt k p \<noteq> p"
    unfolding n(1) np using d last_in_set [of "init_task # us"] last_in_set [of "init_task # rev vs"] by auto
  have "nxt (REMOVE_LINKS p k) = (nxt k)(last (init_task # us) := nxt k p)"
    "prv (REMOVE_LINKS p k) = (prv k)(last (init_task # rev vs) := prv k p)"
    using REMOVE_LINKS_fields(1,2) [OF pp assms(3)] n(1) np by (simp_all add: fun_eq_iff)
  moreover have "path ((nxt k)(last (init_task # us) := nxt k p)) init_task (us @ vs) init_task"
    using assms(1) xs(1) d by (intro path_bypass) (auto simp: ring_is_def)
  moreover have "path ((prv k)(last (init_task # rev vs) := prv k p)) init_task (rev vs @ rev us) init_task"
    using assms(1) xs(1) d by (intro path_bypass) (auto simp: ring_is_def)
  moreover have "remove1 p xs = us @ vs" using xs by (simp add: remove1_append)
  ultimately show ?thesis using d by (auto simp: ring_is_def)
qed

lemma children_areD:
  assumes "children_are ch xs k"
  shows "distinct (ch p)" "sibs (older k) (younger k) None (p_cptr (procs k p)) (ch p)"
    "c \<in> set (ch p) \<longleftrightarrow> c \<in> set xs \<and> parent k c = p"
  using assms by (auto simp: children_are_def)

lemma sibs_first: "sibs os ys q f xs \<Longrightarrow> f = Some y \<Longrightarrow> y \<in> set xs"
  by (cases xs) auto

lemma SET_LINKS_children:
  assumes C: "children_are ch xs k" and R: "ring_is xs k" and p: "p \<notin> set xs" "p \<noteq> init_task"
  shows "children_are (ch(parent k p := p # ch (parent k p))) (xs @ [p]) (SET_LINKS p k)"
proof -
  let ?par = "parent k p" and ?k = "SET_LINKS p k"
  have pl: "prv k init_task \<noteq> p"
    unfolding ring_prev_last [OF R] using p last_in_set [of "init_task # xs"] by auto
  note f = SET_LINKS_fields [OF p(2) pl] and D = children_areD [OF C]
  have pn: "p \<notin> set (ch q)" for q using D(3) [of p q] p by blast
  have y: "younger ?k = opt_upd ((younger k)(p := None)) (p_cptr (procs k ?par)) (Some p)"
    and o: "older ?k = (older k)(p := p_cptr (procs k ?par))"
    by (simp_all add: fun_eq_iff opt_upd_def f)
  have "sibs (older ?k) (younger ?k) None (p_cptr (procs ?k q)) ((ch(?par := p # ch ?par)) q)" for q
  proof (cases "q = ?par")
    case True
    then show ?thesis
      unfolding y o using sibs_push [OF D(2) D(1) pn] by (simp add: f)
  next
    case False
    have "c \<noteq> p \<and> p_cptr (procs k ?par) \<noteq> Some c" if "c \<in> set (ch q)" for c
      using that pn [of q] D(3) [of c q] D(3) [of c ?par] sibs_first [OF D(2) [of ?par], of c] False by blast
    with False D(2) [of q] show ?thesis unfolding y o
      by (auto simp: f opt_upd_def elim!: sibs_agree)
  qed
  moreover have "distinct ((ch(?par := p # ch ?par)) q)" for q using D(1) pn by simp
  moreover have "c \<in> set ((ch(?par := p # ch ?par)) q) \<longleftrightarrow> c \<in> set (xs @ [p]) \<and> parent ?k c = q" for q c
    using D(3) [of c q] D(3) [of c ?par] p by (auto simp: f)
  ultimately show ?thesis by (simp add: children_are_def)
qed

lemma REMOVE_LINKS_children:
  assumes C: "children_are ch xs k" and R: "ring_is xs k" and p: "p \<in> set xs"
  shows "children_are (ch(parent k p := remove1 p (ch (parent k p)))) (remove1 p xs) (REMOVE_LINKS p k)"
    and "older k p \<noteq> Some p"
proof -
  let ?par = "parent k p" and ?k = "REMOVE_LINKS p k"
  note D = children_areD [OF C]
  have "p \<in> set (ch ?par)" using D(3) p by blast
  then obtain us vs where c: "ch ?par = us @ p # vs" "p \<notin> set us" by (meson split_list_first)
  have d: "distinct (us @ p # vs)" using D(1) [of ?par] c(1) by simp
  have S: "sibs (older k) (younger k) None (p_cptr (procs k ?par)) (us @ p # vs)"
    using D(2) [of ?par] c(1) by simp
  note n = sibs_neighbours [OF S]
  show o: "older k p \<noteq> Some p" using n d by (cases vs) auto
  obtain ws zs where xs: "xs = ws @ p # zs" using p by (meson split_list)
  note rn = ring_neighbours [OF R [unfolded xs]]
  have dx: "distinct (init_task # ws @ p # zs)" using R xs by (simp add: ring_is_def)
  have pp: "prv k p \<noteq> p" "nxt k p \<noteq> p"
    unfolding rn using dx last_in_set [of "init_task # ws"] hd_in_set [of "zs @ [init_task]"] by auto
  note f = REMOVE_LINKS_fields [OF pp o]
  have y: "younger ?k = opt_upd (younger k) (older k p) (younger k p)"
    and o': "older ?k = opt_upd (older k) (younger k p) (older k p)"
    by (simp_all add: fun_eq_iff f)
  have new: "remove1 p (ch ?par) = us @ vs" using c by (simp add: remove1_append)
  have "sibs (older ?k) (younger ?k) None (p_cptr (procs ?k q)) ((ch(?par := us @ vs)) q)" for q
  proof (cases "q = ?par")
    case True
    have "p_cptr (procs ?k ?par) = (if us = [] then older k p else p_cptr (procs k ?par))"
      using n by (simp add: f)
    with True show ?thesis unfolding y o' using sibs_remove [OF S d] by simp
  next
    case False
    have "older k p \<noteq> Some z \<and> younger k p \<noteq> Some z" if "z \<in> set (ch q)" for z
    proof -
      have "z \<notin> set (us @ p # vs)" using that D(3) [of z q] D(3) [of z ?par] False c(1) by simp
      then show ?thesis using n by (auto split: if_splits)
    qed
    with False D(2) [of q] show ?thesis unfolding y o'
      by (auto simp: f opt_upd_def elim!: sibs_agree)
  qed
  moreover have "distinct ((ch(?par := us @ vs)) q)" for q using D(1) d by simp
  moreover have "z \<in> set ((ch(?par := us @ vs)) q) \<longleftrightarrow> z \<in> set (remove1 p xs) \<and> parent ?k z = q" for q z
  proof -
    have "set (remove1 p xs) = set xs - {p}" using R by (simp add: ring_is_def)
    moreover have "set (us @ vs) = set (ch ?par) - {p}" using c(1) d by auto
    ultimately show ?thesis using D(3) [of z q] D(3) [of z ?par] by (auto simp: f)
  qed
  ultimately show "children_are (ch(?par := remove1 p (ch ?par))) (remove1 p xs) ?k"
    unfolding new children_are_def by blast
qed

theorem SET_LINKS_linked:
  assumes "linked_tasks xs ch k" "p \<notin> set xs" "p \<noteq> init_task"
  shows "linked_tasks (xs @ [p]) (ch(parent k p := p # ch (parent k p))) (SET_LINKS p k)"
  using assms SET_LINKS_ring SET_LINKS_children by (simp add: linked_tasks_def)

theorem REMOVE_LINKS_linked:
  assumes "linked_tasks xs ch k" "p \<in> set xs"
  shows "linked_tasks (remove1 p xs) (ch(parent k p := remove1 p (ch (parent k p)))) (REMOVE_LINKS p k)"
proof -
  have "ring_is xs k" "children_are ch xs k" using assms(1) by (simp_all add: linked_tasks_def)
  from REMOVE_LINKS_children [OF this(2,1) assms(2)] REMOVE_LINKS_ring [OF this(1) assms(2)]
  show ?thesis by (simp add: linked_tasks_def)
qed

text \<open>The relation reads only the links, and the parents of the linked tasks.\<close>

lemma linked_tasks_agree:
  assumes "linked_tasks xs ch k"
    "nxt k' = nxt k" "prv k' = prv k" "older k' = older k" "younger k' = younger k"
    "\<And>q. p_cptr (procs k' q) = p_cptr (procs k q)" "\<And>q. q \<in> set xs \<Longrightarrow> parent k' q = parent k q"
  shows "linked_tasks xs ch k'"
  using assms by (auto simp: linked_tasks_def ring_is_def children_are_def)

lemma linked_tasks_upd:
  assumes "linked_tasks xs ch k"
    "\<And>t. next_task (f t) = next_task t" "\<And>t. prev_task (f t) = prev_task t" "\<And>t. p_osptr (f t) = p_osptr t"
    "\<And>t. p_ysptr (f t) = p_ysptr t" "\<And>t. p_cptr (f t) = p_cptr t" "p \<in> set xs \<Longrightarrow> p_pptr (f (procs k p)) = parent k p"
  shows "linked_tasks xs ch (upd p f k)"
  using assms(1) by (rule linked_tasks_agree) (use assms(2-7) in \<open>auto simp: upd_procs fun_eq_iff\<close>)

text \<open>Giving a task a new parent, as \<open>reparent_to_init\<close> and \<open>wait4\<close> do.\<close>

lemma reparent_linked:
  assumes L: "linked_tasks xs ch k" and p: "p \<in> set xs" and f: "\<And>t. next_task (f t) = next_task t"
    "\<And>t. prev_task (f t) = prev_task t" "\<And>t. p_osptr (f t) = p_osptr t"
    "\<And>t. p_ysptr (f t) = p_ysptr t" "\<And>t. p_cptr (f t) = p_cptr t" "\<And>t. p_pptr (f t) = r"
  shows "linked_tasks (remove1 p xs @ [p])
    ((ch(parent k p := remove1 p (ch (parent k p))))(r := p # (ch(parent k p := remove1 p (ch (parent k p)))) r))
    (SET_LINKS p (upd p f (REMOVE_LINKS p k)))"
proof -
  have R: "ring_is xs k" using L by (simp add: linked_tasks_def)
  then have n: "p \<notin> set (remove1 p xs)" "p \<noteq> init_task" using p by (auto simp: ring_is_def)
  have "linked_tasks (remove1 p xs) (ch(parent k p := remove1 p (ch (parent k p)))) (upd p f (REMOVE_LINKS p k))"
    using REMOVE_LINKS_linked [OF L p] by (rule linked_tasks_upd) (use f n in auto)
  from SET_LINKS_linked [OF this n] show ?thesis by (simp add: upd_procs f)
qed

end
