(* ===== verification/Proc_Res.thy ===== *)
theory Proc_Res
  imports Proc_Links
begin

text \<open>
  HW1, what a process holds besides its place among the tasks: open files, root and working directory,
  signal handlers and address space, each an object with a count of the tasks that share it
  (\<^verbatim>\<open>HW1/kernel/fork.c\<close>, from \<open>dup_mmap\<close> to \<open>copy_sighand\<close>, and the second half of \<^verbatim>\<open>HW1/kernel/exit.c\<close>). The
  objects are named by numbers; \<open>tsk\<close> gives the pointers of each task, and the \<open>live\<close> sets say which objects
  are allocated. What lies in other files of the kernel is the record \<open>ext\<close>: the answers of the allocators
  and the functions that are called. References to files, directory entries and mounts are counted.
\<close>

unbundle bit_operations_syntax

subsection \<open>The objects\<close>

record files_struct =
  files_count :: int
  max_fds :: int
  max_fdset :: int
  next_fd :: int
  open_fds :: "u32 list"
  close_on_exec :: "u32 list"
  fds :: "nat option list"

record fs_struct =
  fs_count :: int
  fs_umask :: u32
  fs_root :: nat
  fs_rootmnt :: nat
  fs_pwd :: nat
  fs_pwdmnt :: nat
  fs_altroot :: "nat option"
  fs_altrootmnt :: "nat option"

record signal_struct =
  sig_count :: int
  sig_action :: "nat list"

record vm_area =
  vm_addr :: nat
  vm_start :: u32
  vm_end :: u32
  vm_dontcopy :: bool
  vm_account :: bool
  vm_denywrite :: bool
  vm_locked :: bool
  vm_file :: "nat option"

record mm_struct =
  mm_users :: int
  mm_count :: int
  mmap :: "vm_area list"
  map_count :: int
  locked_vm :: u32
  rss :: u32
  def_flags :: u32
  has_pgd :: bool
  mml_next :: nat
  mml_prev :: nat

record task_res =
  files :: "nat option"
  fs :: "nat option"
  sig :: "nat option"
  mm :: "nat option"
  active_mm :: "nat option"
  vfork_done :: "nat option"
  exec_domain :: nat
  binfmt_module :: "nat option"

record res =
  tsk :: "tid \<Rightarrow> task_res"
  files_tab :: "nat \<Rightarrow> files_struct"
  fs_tab :: "nat \<Rightarrow> fs_struct"
  sig_tab :: "nat \<Rightarrow> signal_struct"
  mm_tab :: "nat \<Rightarrow> mm_struct"
  live_files :: "nat set"
  live_fs :: "nat set"
  live_sig :: "nat set"
  live_mm :: "nat set"
  file_refs :: "nat \<Rightarrow> int"
  dentry_refs :: "nat \<Rightarrow> int"
  mnt_refs :: "nat \<Rightarrow> int"
  inode_writes :: "nat \<Rightarrow> int"
  shares :: "nat \<Rightarrow> nat list"
  accounted :: int
  mmlist_nr :: int
  domain_uses :: "nat \<Rightarrow> int"
  module_uses :: "nat \<Rightarrow> int"
  completed :: "nat list"

text \<open>
  The rest of the kernel. For the areas of an address space the answers are indexed by the place of the
  area in the list.
\<close>

record ext =
  new_files :: "nat option"
  new_fs :: "nat option"
  new_sig :: "nat option"
  new_mm :: "nat option"
  new_area :: "nat \<Rightarrow> nat option"
  pgd_alloc :: bool
  init_new_context :: int
  vm_enough_memory :: "nat \<Rightarrow> bool"
  copy_page_range :: "nat \<Rightarrow> int"
  inode_of :: "nat \<Rightarrow> nat"
  page_shift :: nat
  NR_OPEN_DEFAULT :: int
  FD_SETSIZE :: int
  expand_fdset :: "files_struct \<Rightarrow> int \<Rightarrow> files_struct \<times> int"
  expand_fd_array :: "files_struct \<Rightarrow> int \<Rightarrow> files_struct \<times> int"
  copy_namespace :: int
  copy_thread :: int
  exit_mmap :: "nat \<Rightarrow> res \<Rightarrow> res"
  exit_sighand :: "tid \<Rightarrow> res \<Rightarrow> res"
  exit_namespace :: "tid \<Rightarrow> res \<Rightarrow> res"

definition upd_tsk :: "tid \<Rightarrow> (task_res \<Rightarrow> task_res) \<Rightarrow> res \<Rightarrow> res" where
  "upd_tsk p f r = r\<lparr>tsk := (tsk r)(p := f (tsk r p))\<rparr>"

definition upd_files :: "nat \<Rightarrow> (files_struct \<Rightarrow> files_struct) \<Rightarrow> res \<Rightarrow> res" where
  "upd_files a f r = r\<lparr>files_tab := (files_tab r)(a := f (files_tab r a))\<rparr>"

definition upd_fs :: "nat \<Rightarrow> (fs_struct \<Rightarrow> fs_struct) \<Rightarrow> res \<Rightarrow> res" where
  "upd_fs a f r = r\<lparr>fs_tab := (fs_tab r)(a := f (fs_tab r a))\<rparr>"

definition upd_sig :: "nat \<Rightarrow> (signal_struct \<Rightarrow> signal_struct) \<Rightarrow> res \<Rightarrow> res" where
  "upd_sig a f r = r\<lparr>sig_tab := (sig_tab r)(a := f (sig_tab r a))\<rparr>"

definition upd_mm :: "nat \<Rightarrow> (mm_struct \<Rightarrow> mm_struct) \<Rightarrow> res \<Rightarrow> res" where
  "upd_mm a f r = r\<lparr>mm_tab := (mm_tab r)(a := f (mm_tab r a))\<rparr>"

definition add_ref :: "nat option \<Rightarrow> int \<Rightarrow> (nat \<Rightarrow> int) \<Rightarrow> nat \<Rightarrow> int" where
  "add_ref q d f = (case q of None \<Rightarrow> f | Some a \<Rightarrow> f(a := f a + d))"

subsection \<open>Open files\<close>

definition count_open_files :: "u32 list \<Rightarrow> int \<Rightarrow> int" where
  "count_open_files bits sz =
     (let js = dropWhile (\<lambda>j. j > 0 \<and> bits ! j = 0) (rev [0..<nat (sz div 32)])
      in (int (case js of [] \<Rightarrow> 0 | j # _ \<Rightarrow> j) + 1) * 32)"

text \<open>The bits of the first \<open>n\<close> descriptors, copied over another set; and the bits from \<open>n\<close> on cleared.\<close>

definition copy_bits :: "nat \<Rightarrow> u32 list \<Rightarrow> u32 list \<Rightarrow> u32 list" where
  "copy_bits n from to = take (n div 32) from @ drop (n div 32) to"

definition clear_bits :: "nat \<Rightarrow> nat \<Rightarrow> u32 list \<Rightarrow> u32 list" where
  "clear_bits start len bits = take start bits @ replicate len 0 @ drop (start + len) bits"

text \<open>The new descriptor table after the arrays are large enough.\<close>

definition fill_files :: "int \<Rightarrow> files_struct \<Rightarrow> files_struct \<Rightarrow> files_struct" where
  "fill_files n oldf newf =
     (let k = nat n; copied = take k (fds oldf);
          f1 = newf\<lparr>open_fds := copy_bits k (open_fds oldf) (open_fds newf),
                    close_on_exec := copy_bits k (close_on_exec oldf) (close_on_exec newf),
                    fds := copied @ replicate (nat (max_fds newf - n)) None\<rparr>
      in if max_fdset newf > n then
           f1\<lparr>open_fds := clear_bits (k div 32) (nat (max_fdset newf - n) div 32) (open_fds f1),
              close_on_exec := clear_bits (k div 32) (nat (max_fdset newf - n) div 32) (close_on_exec f1)\<rparr>
         else f1)"

definition get_files :: "nat option list \<Rightarrow> (nat \<Rightarrow> int) \<Rightarrow> nat \<Rightarrow> int" where
  "get_files qs = fold (\<lambda>q. add_ref q 1) qs"

definition empty_files :: "'a ext_scheme \<Rightarrow> files_struct" where
  "empty_files X =
     \<lparr>files_count = 1, max_fds = NR_OPEN_DEFAULT X, max_fdset = FD_SETSIZE X, next_fd = 0,
      open_fds = replicate (nat (FD_SETSIZE X) div 32) 0, close_on_exec = replicate (nat (FD_SETSIZE X) div 32) 0,
      fds = replicate (nat (NR_OPEN_DEFAULT X)) None\<rparr>"

text \<open>Making room in the new table: the sets first, then the array; the result is the table or an error.\<close>

definition grow_files :: "'a ext_scheme \<Rightarrow> files_struct \<Rightarrow> files_struct \<Rightarrow> int + (files_struct \<times> int)" where
  "grow_files X oldf newf =
     (let sz = max_fdset oldf;
          s = (if sz > FD_SETSIZE X then expand_fdset X (newf\<lparr>max_fdset := 0\<rparr>) (sz - 1) else (newf, 0)) in
      if snd s \<noteq> 0 then Inl (snd s)
      else
        let n = count_open_files (open_fds oldf) sz;
            a = (if n > NR_OPEN_DEFAULT X then expand_fd_array X ((fst s)\<lparr>max_fds := 0\<rparr>) (n - 1) else (fst s, 0)) in
        if snd a \<noteq> 0 then Inl (snd a) else Inr (fst a, n))"

definition copy_files :: "'a ext_scheme \<Rightarrow> u32 \<Rightarrow> tid \<Rightarrow> tid \<Rightarrow> res \<Rightarrow> res \<times> int" where
  "copy_files X flags cur p r =
     (case files (tsk r cur) of
        None \<Rightarrow> (r, 0)
      | Some oldf \<Rightarrow>
          if flags AND 0x400 \<noteq> 0 then (upd_files oldf (\<lambda>f. f\<lparr>files_count := files_count f + 1\<rparr>) r, 0)
          else
            let r1 = upd_tsk p (\<lambda>t. t\<lparr>files := None\<rparr>) r in
            case new_files X of
              None \<Rightarrow> (r1, - ENOMEM)
            | Some a \<Rightarrow>
                (case grow_files X (files_tab r oldf) (empty_files X) of
                   Inl e \<Rightarrow> (r1, e)
                 | Inr (newf, n) \<Rightarrow>
                     (upd_tsk p (\<lambda>t. t\<lparr>files := Some a\<rparr>)
                       (r1\<lparr>files_tab := (files_tab r1)(a := fill_files n (files_tab r oldf) newf),
                          live_files := insert a (live_files r1),
                          file_refs := get_files (take (nat n) (fds (files_tab r oldf))) (file_refs r1)\<rparr>), 0)))"

text \<open>The last user of a table closes its files, word by word of the set of open descriptors.\<close>

definition close_fd :: "nat \<Rightarrow> nat \<Rightarrow> res \<Rightarrow> res" where
  "close_fd a i r =
     (let f = files_tab r a in
      if i < length (fds f) then
        r\<lparr>files_tab := (files_tab r)(a := f\<lparr>fds := (fds f)[i := None]\<rparr>), file_refs := add_ref (fds f ! i) (-1) (file_refs r)\<rparr>
      else r)"

definition close_word :: "nat \<Rightarrow> nat \<Rightarrow> res \<Rightarrow> res" where
  "close_word a j r =
     fold (\<lambda>b r. close_fd a (32 * j + b) r) (filter (bit (open_fds (files_tab r a) ! j)) [0..<32]) r"

definition close_files :: "nat \<Rightarrow> res \<Rightarrow> res" where
  "close_files a r =
     (let f = files_tab r a in
      fold (close_word a)
        (takeWhile (\<lambda>j. 32 * int j < max_fdset f \<and> 32 * int j < max_fds f) [0..<length (open_fds f)]) r)"

definition put_files_struct :: "nat \<Rightarrow> res \<Rightarrow> res" where
  "put_files_struct a r =
     (let r1 = upd_files a (\<lambda>f. f\<lparr>files_count := files_count f - 1\<rparr>) r in
      if files_count (files_tab r1 a) = 0
      then (let r2 = close_files a r1 in r2\<lparr>live_files := live_files r2 - {a}\<rparr>) else r1)"

definition exit_files :: "tid \<Rightarrow> res \<Rightarrow> res" where
  "exit_files p r =
     (case files (tsk r p) of
        None \<Rightarrow> r
      | Some a \<Rightarrow> put_files_struct a (upd_tsk p (\<lambda>t. t\<lparr>files := None\<rparr>) r))"

subsection \<open>Root and working directory\<close>

definition copy_fs_struct :: "'a ext_scheme \<Rightarrow> nat \<Rightarrow> res \<Rightarrow> res \<times> nat option" where
  "copy_fs_struct X old r =
     (case new_fs X of
        None \<Rightarrow> (r, None)
      | Some a \<Rightarrow>
          let o' = fs_tab r old;
              f = o'\<lparr>fs_count := 1, fs_altrootmnt := (if fs_altroot o' \<noteq> None then fs_altrootmnt o' else None)\<rparr>
          in (r\<lparr>fs_tab := (fs_tab r)(a := f), live_fs := insert a (live_fs r),
                mnt_refs := add_ref (fs_altrootmnt f) 1 (add_ref (Some (fs_pwdmnt f)) 1 (add_ref (Some (fs_rootmnt f)) 1 (mnt_refs r))),
                dentry_refs := add_ref (fs_altroot f) 1 (add_ref (Some (fs_pwd f)) 1 (add_ref (Some (fs_root f)) 1 (dentry_refs r)))\<rparr>,
              Some a))"

definition copy_fs :: "'a ext_scheme \<Rightarrow> u32 \<Rightarrow> tid \<Rightarrow> tid \<Rightarrow> res \<Rightarrow> fault + (res \<times> int)" where
  "copy_fs X flags cur p r =
     (case fs (tsk r cur) of
        None \<Rightarrow> Inl Null_Deref
      | Some old \<Rightarrow>
          if flags AND 0x200 \<noteq> 0 then Inr (upd_fs old (\<lambda>f. f\<lparr>fs_count := fs_count f + 1\<rparr>) r, 0)
          else case copy_fs_struct X old r of
            (r1, a) \<Rightarrow> Inr (upd_tsk p (\<lambda>t. t\<lparr>fs := a\<rparr>) r1, if a = None then -1 else 0))"

definition put_fs_struct :: "nat \<Rightarrow> res \<Rightarrow> res" where
  "put_fs_struct a r =
     (let r1 = upd_fs a (\<lambda>f. f\<lparr>fs_count := fs_count f - 1\<rparr>) r; f = fs_tab r1 a in
      if fs_count f = 0 then
        r1\<lparr>live_fs := live_fs r1 - {a},
           dentry_refs := add_ref (fs_altroot f) (-1) (add_ref (Some (fs_pwd f)) (-1) (add_ref (Some (fs_root f)) (-1) (dentry_refs r1))),
           mnt_refs := add_ref (if fs_altroot f \<noteq> None then fs_altrootmnt f else None) (-1)
             (add_ref (Some (fs_pwdmnt f)) (-1) (add_ref (Some (fs_rootmnt f)) (-1) (mnt_refs r1)))\<rparr>
      else r1)"

definition exit_fs :: "tid \<Rightarrow> res \<Rightarrow> res" where
  "exit_fs p r =
     (case fs (tsk r p) of
        None \<Rightarrow> r
      | Some a \<Rightarrow> put_fs_struct a (upd_tsk p (\<lambda>t. t\<lparr>fs := None\<rparr>) r))"

subsection \<open>Signal handlers\<close>

definition copy_sighand :: "'a ext_scheme \<Rightarrow> u32 \<Rightarrow> tid \<Rightarrow> tid \<Rightarrow> res \<Rightarrow> fault + (res \<times> int)" where
  "copy_sighand X flags cur p r =
     (case sig (tsk r cur) of
        None \<Rightarrow> Inl Null_Deref
      | Some old \<Rightarrow>
          if flags AND 0x800 \<noteq> 0 then Inr (upd_sig old (\<lambda>s. s\<lparr>sig_count := sig_count s + 1\<rparr>) r, 0)
          else
            let r1 = upd_tsk p (\<lambda>t. t\<lparr>sig := new_sig X\<rparr>) r in
            case new_sig X of
              None \<Rightarrow> Inr (r1, -1)
            | Some a \<Rightarrow>
                Inr (r1\<lparr>sig_tab := (sig_tab r1)(a := \<lparr>sig_count = 1, sig_action = sig_action (sig_tab r old)\<rparr>),
                       live_sig := insert a (live_sig r1)\<rparr>, 0))"

subsection \<open>Address spaces\<close>

text \<open>\<open>list_add\<close> and \<open>list_del\<close> on the circular list of all address spaces; \<open>init_mm\<close> is 0.\<close>

definition init_mm :: nat where "init_mm = 0"

definition mmlist_add :: "nat \<Rightarrow> nat \<Rightarrow> res \<Rightarrow> res" where
  "mmlist_add new head r =
     (let nx = mml_next (mm_tab r head);
          r1 = upd_mm nx (\<lambda>m. m\<lparr>mml_prev := new\<rparr>) r;
          r2 = upd_mm new (\<lambda>m. m\<lparr>mml_next := nx\<rparr>) r1;
          r3 = upd_mm new (\<lambda>m. m\<lparr>mml_prev := head\<rparr>) r2
      in upd_mm head (\<lambda>m. m\<lparr>mml_next := new\<rparr>) r3)"

definition mmlist_del :: "nat \<Rightarrow> res \<Rightarrow> res" where
  "mmlist_del a r =
     (let nx = mml_next (mm_tab r a); pv = mml_prev (mm_tab r a);
          r1 = upd_mm nx (\<lambda>m. m\<lparr>mml_prev := pv\<rparr>) r
      in upd_mm pv (\<lambda>m. m\<lparr>mml_next := nx\<rparr>) r1)"

definition free_mm :: "nat \<Rightarrow> res \<Rightarrow> res" where
  "free_mm a r = r\<lparr>live_mm := live_mm r - {a}\<rparr>"

definition mm_init :: "'a ext_scheme \<Rightarrow> nat \<Rightarrow> res \<Rightarrow> res \<times> bool" where
  "mm_init X a r =
     (let r1 = upd_mm a (\<lambda>m. m\<lparr>mm_users := 1, mm_count := 1, has_pgd := pgd_alloc X, def_flags := 0\<rparr>) r
      in if pgd_alloc X then (r1, True) else (free_mm a r1, False))"

definition zero_mm :: mm_struct where
  "zero_mm = \<lparr>mm_users = 0, mm_count = 0, mmap = [], map_count = 0, locked_vm = 0, rss = 0, def_flags = 0,
     has_pgd = False, mml_next = 0, mml_prev = 0\<rparr>"

definition mm_alloc :: "'a ext_scheme \<Rightarrow> res \<Rightarrow> res \<times> nat option" where
  "mm_alloc X r =
     (case new_mm X of
        None \<Rightarrow> (r, None)
      | Some a \<Rightarrow>
          (case mm_init X a (r\<lparr>mm_tab := (mm_tab r)(a := zero_mm), live_mm := insert a (live_mm r)\<rparr>) of
             (r1, ok) \<Rightarrow> (r1, if ok then Some a else None)))"

definition mmdrop :: "nat \<Rightarrow> res \<Rightarrow> fault + res" where
  "mmdrop a r =
     (let r1 = upd_mm a (\<lambda>m. m\<lparr>mm_count := mm_count m - 1\<rparr>) r in
      if mm_count (mm_tab r1 a) = 0 then
        (if a = init_mm then Inl Kernel_Bug
         else Inr (free_mm a (upd_mm a (\<lambda>m. m\<lparr>has_pgd := False\<rparr>) r1)))
      else Inr r1)"

definition mmput :: "'a ext_scheme \<Rightarrow> nat \<Rightarrow> res \<Rightarrow> fault + res" where
  "mmput X a r =
     (let r1 = upd_mm a (\<lambda>m. m\<lparr>mm_users := mm_users m - 1\<rparr>) r in
      if mm_users (mm_tab r1 a) = 0 then
        (let r2 = mmlist_del a r1; r3 = r2\<lparr>mmlist_nr := mmlist_nr r2 - 1\<rparr>
         in mmdrop a (exit_mmap X a r3))
      else Inr r1)"

text \<open>\<open>mm_release\<close> tells the parent that waits for a \<open>vfork\<close>; it looks at the caller.\<close>

definition mm_release :: "tid \<Rightarrow> res \<Rightarrow> res" where
  "mm_release cur r =
     (case vfork_done (tsk r cur) of
        None \<Rightarrow> r
      | Some d \<Rightarrow> (let r1 = upd_tsk cur (\<lambda>t. t\<lparr>vfork_done := None\<rparr>) r in r1\<lparr>completed := completed r1 @ [d]\<rparr>))"

definition exit_mm :: "'a ext_scheme \<Rightarrow> tid \<Rightarrow> tid \<Rightarrow> res \<Rightarrow> fault + res" where
  "exit_mm X cur p r =
     (let r1 = mm_release cur r in
      case mm (tsk r p) of
        None \<Rightarrow> Inr r1
      | Some a \<Rightarrow>
          let r2 = upd_mm a (\<lambda>m. m\<lparr>mm_count := mm_count m + 1\<rparr>) r1 in
          if active_mm (tsk r2 p) \<noteq> Some a then Inl Kernel_Bug
          else mmput X a (upd_tsk p (\<lambda>t. t\<lparr>mm := None\<rparr>) r2))"

definition start_lazy_tlb :: "tid \<Rightarrow> res \<Rightarrow> fault + (res \<times> nat)" where
  "start_lazy_tlb cur r =
     (case mm (tsk r cur) of
        None \<Rightarrow> Inl Null_Deref
      | Some a \<Rightarrow> Inr (upd_mm a (\<lambda>m. m\<lparr>mm_count := mm_count m + 1\<rparr>) (upd_tsk cur (\<lambda>t. t\<lparr>mm := None\<rparr>) r), a))"

definition end_lazy_tlb :: "tid \<Rightarrow> nat \<Rightarrow> res \<Rightarrow> fault + res" where
  "end_lazy_tlb cur a r =
     (case active_mm (tsk r cur) of
        None \<Rightarrow> Inl Null_Deref
      | Some act \<Rightarrow>
          let r1 = upd_tsk cur (\<lambda>t. t\<lparr>mm := Some a\<rparr>) r;
              r2 = (if a \<noteq> act then upd_tsk cur (\<lambda>t. t\<lparr>active_mm := Some a\<rparr>) r1 else r1)
          in mmdrop act r2)"

subsection \<open>Copying an address space\<close>

text \<open>
  One area: the copy is not locked; a mapped file gets a reference, the denial of writes is repeated, and
  the copy comes just after the original in the list of the areas that share the file.
\<close>

fun insert_after :: "nat \<Rightarrow> nat \<Rightarrow> nat list \<Rightarrow> nat list" where
  "insert_after a x [] = []"
| "insert_after a x (y # ys) = (if y = a then y # x # ys else y # insert_after a x ys)"

definition share_file :: "'a ext_scheme \<Rightarrow> vm_area \<Rightarrow> vm_area \<Rightarrow> res \<Rightarrow> res" where
  "share_file X mpnt tmp r =
     (case vm_file tmp of
        None \<Rightarrow> r
      | Some f \<Rightarrow>
          let i = inode_of X f in
          r\<lparr>file_refs := add_ref (Some f) 1 (file_refs r),
            inode_writes := (if vm_denywrite tmp then add_ref (Some i) (-1) (inode_writes r) else inode_writes r),
            shares := (shares r)(i := insert_after (vm_addr mpnt) (vm_addr tmp) (shares r i))\<rparr>)"

definition area_pages :: "'a ext_scheme \<Rightarrow> vm_area \<Rightarrow> u32" where
  "area_pages X v = drop_bit (page_shift X) (vm_end v - vm_start v)"

definition fail_nomem :: "u32 \<Rightarrow> int \<Rightarrow> res \<Rightarrow> res \<times> int" where
  "fail_nomem charge retval r = (r\<lparr>accounted := accounted r - uint charge\<rparr>, retval)"

fun dup_areas :: "'a ext_scheme \<Rightarrow> nat \<Rightarrow> nat \<Rightarrow> u32 \<Rightarrow> vm_area list \<Rightarrow> res \<Rightarrow> res \<times> int" where
  "dup_areas X a i charge [] r = (r, 0)"
| "dup_areas X a i charge (mpnt # vs) r =
     (if vm_dontcopy mpnt then dup_areas X a (i + 1) charge vs r
      else if vm_account mpnt \<and> \<not> vm_enough_memory X i then fail_nomem charge (- ENOMEM) r
      else
        let len = (if vm_account mpnt then area_pages X mpnt else 0);
            r1 = r\<lparr>accounted := accounted r + uint len\<rparr> in
        case new_area X i of
          None \<Rightarrow> fail_nomem (charge + len) (- ENOMEM) r1
        | Some v \<Rightarrow>
            let tmp = mpnt\<lparr>vm_addr := v, vm_locked := False\<rparr>;
                r2 = share_file X mpnt tmp r1;
                r3 = upd_mm a (\<lambda>m. m\<lparr>mmap := mmap m @ [tmp], map_count := map_count m + 1\<rparr>) r2
            in if copy_page_range X i \<noteq> 0 then fail_nomem (charge + len) (copy_page_range X i) r3
               else dup_areas X a (i + 1) (charge + len) vs r3)"

definition dup_mmap :: "'a ext_scheme \<Rightarrow> nat \<Rightarrow> nat \<Rightarrow> res \<Rightarrow> res \<times> int" where
  "dup_mmap X old a r =
     (let r1 = upd_mm a (\<lambda>m. m\<lparr>locked_vm := 0, mmap := [], map_count := 0, rss := 0\<rparr>) r;
          r2 = mmlist_add a old r1;
          r3 = r2\<lparr>mmlist_nr := mmlist_nr r2 + 1\<rparr>
      in dup_areas X a 0 0 (mmap (mm_tab r3 old)) r3)"

definition copy_mm :: "'a ext_scheme \<Rightarrow> u32 \<Rightarrow> tid \<Rightarrow> tid \<Rightarrow> res \<Rightarrow> fault + (res \<times> int)" where
  "copy_mm X flags cur p r =
     (let r0 = upd_tsk p (\<lambda>t. t\<lparr>mm := None, active_mm := None\<rparr>) r in
      case mm (tsk r0 cur) of
        None \<Rightarrow> Inr (r0, 0)
      | Some old \<Rightarrow>
          if flags AND 0x100 \<noteq> 0 then
            Inr (upd_tsk p (\<lambda>t. t\<lparr>mm := Some old, active_mm := Some old\<rparr>)
                  (upd_mm old (\<lambda>m. m\<lparr>mm_users := mm_users m + 1\<rparr>) r0), 0)
          else case new_mm X of
            None \<Rightarrow> Inr (r0, - ENOMEM)
          | Some a \<Rightarrow>
              let r1 = r0\<lparr>mm_tab := (mm_tab r0)(a := mm_tab r0 old), live_mm := insert a (live_mm r0)\<rparr> in
              case mm_init X a r1 of
                (r2, False) \<Rightarrow> Inr (r2, - ENOMEM)
              | (r2, True) \<Rightarrow>
                  if init_new_context X \<noteq> 0 then map_sum id (\<lambda>r3. (r3, - ENOMEM)) (mmput X a r2)
                  else case dup_mmap X old a r2 of
                    (r3, e) \<Rightarrow>
                      if e \<noteq> 0 then map_sum id (\<lambda>r4. (r4, e)) (mmput X a r3)
                      else Inr (upd_tsk p (\<lambda>t. t\<lparr>mm := Some a, active_mm := Some a\<rparr>) r3, 0))"

end
