(* ===== verification/Proc_Share.thy ===== *)
theory Proc_Share
  imports Proc_Res
begin

text \<open>
  HW1, the counts of the objects that processes share. Open files, directories and signal handlers follow
  one scheme: an object is allocated by the first task that holds it, counts the tasks that hold it, and is
  freed when the last one lets it go. \<open>share\<close> is that scheme without the contents of the objects; the
  copying and leaving functions of \<^verbatim>\<open>Proc_Res\<close> implement it (\<open>files_of\<close>, \<open>fs_of\<close>, \<open>sig_of\<close> are the abstractions; \<open>mm_of\<close> is for \<open>Proc_Spaces\<close>).
  \<open>counted\<close> says that the counts are exact. The contract of an object with its leaving function is the
  locale \<open>shared_object\<close>.
\<close>

subsection \<open>The scheme\<close>

record share =
  holds :: "tid \<Rightarrow> nat option"
  uses :: "nat \<Rightarrow> int"
  alive :: "nat set"

definition holders :: "tid set \<Rightarrow> share \<Rightarrow> nat \<Rightarrow> tid set" where
  "holders S s a = {p \<in> S. holds s p = Some a}"

definition counted :: "tid set \<Rightarrow> share \<Rightarrow> bool" where
  "counted S s \<longleftrightarrow> finite S \<and>
     (\<forall>a\<in>alive s. uses s a = int (card (holders S s a)) \<and> 0 < uses s a) \<and>
     (\<forall>p\<in>S. \<forall>a. holds s p = Some a \<longrightarrow> a \<in> alive s)"

definition let_go :: "tid \<Rightarrow> share \<Rightarrow> share" where
  "let_go p s =
     (case holds s p of
        None \<Rightarrow> s
      | Some a \<Rightarrow> s\<lparr>holds := (holds s)(p := None), uses := (uses s)(a := uses s a - 1),
                    alive := (if uses s a = 1 then alive s - {a} else alive s)\<rparr>)"

definition join_share :: "tid \<Rightarrow> nat \<Rightarrow> share \<Rightarrow> share" where
  "join_share p a s = s\<lparr>holds := (holds s)(p := Some a), uses := (uses s)(a := uses s a + 1)\<rparr>"

definition own_new :: "tid \<Rightarrow> nat \<Rightarrow> share \<Rightarrow> share" where
  "own_new p a s = s\<lparr>holds := (holds s)(p := Some a), uses := (uses s)(a := 1), alive := insert a (alive s)\<rparr>"

text \<open>A child of \<open>cur\<close> shares its object, or gets a new one; without an object there is nothing to share.\<close>

definition cloned :: "tid \<Rightarrow> tid \<Rightarrow> share \<Rightarrow> share \<Rightarrow> bool" where
  "cloned cur p s s' \<longleftrightarrow>
     holds s cur = None \<and> s' = s\<lparr>holds := (holds s)(p := None)\<rparr> \<or>
     (\<exists>a. holds s cur = Some a \<and> s' = join_share p a s) \<or>
     (\<exists>a. a \<notin> alive s \<and> s' = own_new p a s)"

definition same_but :: "tid \<Rightarrow> share \<Rightarrow> share \<Rightarrow> bool" where
  "same_but p s s' \<longleftrightarrow> (\<forall>q. q \<noteq> p \<longrightarrow> holds s' q = holds s q) \<and> uses s' = uses s \<and> alive s' = alive s"

lemma countedD:
  assumes "counted S s"
  shows "finite S" "a \<in> alive s \<Longrightarrow> uses s a = int (card (holders S s a))" "a \<in> alive s \<Longrightarrow> 0 < uses s a"
    "p \<in> S \<Longrightarrow> holds s p = Some a \<Longrightarrow> a \<in> alive s"
  using assms by (auto simp: counted_def)

lemma countedI:
  assumes "finite S" "\<And>a. a \<in> alive s \<Longrightarrow> uses s a = int (card (holders S s a))" "\<And>a. a \<in> alive s \<Longrightarrow> 0 < uses s a"
    "\<And>p a. p \<in> S \<Longrightarrow> holds s p = Some a \<Longrightarrow> a \<in> alive s"
  shows "counted S s"
  using assms by (auto simp: counted_def)

lemma holders_same: "(\<And>q. q \<in> S \<Longrightarrow> holds s' q = holds s q) \<Longrightarrow> holders S s' a = holders S s a"
  by (auto simp: holders_def)

lemma finite_holders: "finite S \<Longrightarrow> finite (holders S s a)" by (simp add: holders_def)

lemma counted_same_but: "counted S s \<Longrightarrow> same_but p s s' \<Longrightarrow> p \<notin> S \<Longrightarrow> counted S s'"
proof -
  assume c: "counted S s" and b: "same_but p s s'" and p: "p \<notin> S"
  have h: "holds s' q = holds s q" if "q \<in> S" for q using b p that by (cases "q = p") (auto simp: same_but_def)
  then have "holders S s' a = holders S s a" for a by (rule holders_same)
  moreover have "uses s' = uses s" "alive s' = alive s" using b by (simp_all add: same_but_def)
  ultimately show ?thesis using countedD [OF c] h by (intro countedI) (auto simp: h)
qed

lemma counted_cloned:
  assumes c: "counted S s" and k: "cloned cur p s s'" and cur: "cur \<in> S" and p: "p \<notin> S"
  shows "counted (insert p S) s'"
proof -
  note D = countedD [OF c]
  have h: "holders (insert p S) s' b = (if holds s' p = Some b then insert p (holders S s b) else holders S s b)"
    if "\<And>q. q \<noteq> p \<Longrightarrow> holds s' q = holds s q" for b
  proof -
    have "holds s' q = holds s q" if "q \<in> S" for q using \<open>q \<in> S\<close> p \<open>\<And>q. q \<noteq> p \<Longrightarrow> _ q\<close> by metis
    then show ?thesis by (auto simp: holders_def)
  qed
  have n: "p \<notin> holders S s b" for b using p by (simp add: holders_def)
  consider "holds s cur = None" "s' = s\<lparr>holds := (holds s)(p := None)\<rparr>"
    | a where "holds s cur = Some a" "s' = join_share p a s" | a where "a \<notin> alive s" "s' = own_new p a s"
    using k by (auto simp: cloned_def)
  then show ?thesis
  proof cases
    case 1
    then show ?thesis using D h by (intro countedI) (auto split: if_splits)
  next
    case (2 a)
    have "a \<in> alive s" using D(4) cur 2(1) by blast
    then show ?thesis
      using D h 2 n finite_holders [OF D(1)] by (intro countedI) (auto simp: join_share_def split: if_splits)
  next
    case (3 a)
    have "holders S s a = {}" using D(4) 3(1) by (auto simp: holders_def)
    then show ?thesis
      using D h 3 n finite_holders [OF D(1)] by (intro countedI) (auto simp: own_new_def split: if_splits)
  qed
qed

text \<open>Letting go: the task may stay, without the object, or it may leave.\<close>

lemma counted_let_go:
  assumes c: "counted S s" and p: "p \<in> S"
  shows "counted S (let_go p s)"
proof (cases "holds s p")
  case None
  then show ?thesis using c by (simp add: let_go_def)
next
  case (Some a)
  note D = countedD [OF c]
  have a: "a \<in> alive s" using D(4) p Some by blast
  have h: "holders S (let_go p s) b = holders S s b - (if b = a then {p} else {})" for b
    using Some by (auto simp: holders_def let_go_def)
  have card: "p \<in> holders S s a" using p Some by (simp add: holders_def)
  have one: "uses s a = 1 \<Longrightarrow> holders S s a = {p}"
    using D(2) [OF a] card by (metis card_1_singletonE empty_iff insert_iff of_nat_1_eq_iff)
  have u: "uses s a = int (card (holders S s a))" using D(2) [OF a] .
  show ?thesis
  proof (rule countedI)
    fix b assume b: "b \<in> alive (let_go p s)"
    then have bs: "b \<in> alive s" "b = a \<Longrightarrow> uses s a \<noteq> 1" using Some by (auto simp: let_go_def split: if_splits)
    show "uses (let_go p s) b = int (card (holders S (let_go p s) b))"
      using D(2) [OF bs(1)] D(3) [OF a] card finite_holders [OF D(1)] u unfolding h
      by (auto simp: let_go_def Some)
    show "0 < uses (let_go p s) b"
      using D(3) [OF bs(1)] bs(2) by (auto simp: let_go_def Some)
  next
    fix q b assume q: "q \<in> S" "holds (let_go p s) q = Some b"
    then have "q \<noteq> p" "holds s q = Some b" using Some by (auto simp: let_go_def split: if_splits)
    moreover have "b = a \<Longrightarrow> uses s a = 1 \<Longrightarrow> q = p" using one q calculation by (auto simp: holders_def)
    ultimately show "b \<in> alive (let_go p s)" using D(4) q(1) Some by (auto simp: let_go_def)
  qed (rule D(1))
qed

lemma let_go_holds [simp]: "holds (let_go p s) = (holds s)(p := None)"
  by (auto simp: let_go_def fun_upd_idem split: option.split)

lemma counted_remove:
  assumes "counted (insert p S) s" "holds s p = None"
  shows "counted S s"
proof -
  have "holders (insert p S) s a = holders S s a" for a using assms(2) by (auto simp: holders_def)
  then show ?thesis using assms(1) by (auto simp: counted_def)
qed

lemma counted_undo:
  assumes "counted (insert p S) s"
  shows "counted S (let_go p s)"
  by (rule counted_remove [OF counted_let_go [OF assms]]) simp_all

subsection \<open>The contract of an object\<close>

locale shared_object =
  fixes abs :: "'s \<Rightarrow> share" and leave :: "tid \<Rightarrow> 's \<Rightarrow> 's"
  assumes leave_abs: "abs (leave p s) = let_go p (abs s)"
begin

lemma leave_counted: "counted S (abs s) \<Longrightarrow> p \<in> S \<Longrightarrow> counted S (abs (leave p s))"
  by (simp add: leave_abs counted_let_go)

lemma leave_undo: "counted (insert p S) (abs s) \<Longrightarrow> counted S (abs (leave p s))"
  by (simp add: leave_abs counted_undo)

lemma leave_none: "holds (abs (leave p s)) p = None"
  by (simp add: leave_abs)

end

subsection \<open>The objects of a process\<close>

definition files_of :: "res \<Rightarrow> share" where
  "files_of r = \<lparr>holds = \<lambda>p. files (tsk r p), uses = \<lambda>a. files_count (files_tab r a), alive = live_files r\<rparr>"

definition fs_of :: "res \<Rightarrow> share" where
  "fs_of r = \<lparr>holds = \<lambda>p. fs (tsk r p), uses = \<lambda>a. fs_count (fs_tab r a), alive = live_fs r\<rparr>"

definition sig_of :: "res \<Rightarrow> share" where
  "sig_of r = \<lparr>holds = \<lambda>p. sig (tsk r p), uses = \<lambda>a. sig_count (sig_tab r a), alive = live_sig r\<rparr>"

text \<open>An address space has two counts: of the tasks that run in it, and of the references to the structure.\<close>

record spaces =
  runs_in :: "tid \<Rightarrow> nat option"
  borrows :: "tid \<Rightarrow> nat option"
  users :: "nat \<Rightarrow> int"
  refs :: "nat \<Rightarrow> int"
  spaces_alive :: "nat set"

definition mm_of :: "res \<Rightarrow> spaces" where
  "mm_of r = \<lparr>runs_in = \<lambda>p. mm (tsk r p), borrows = \<lambda>p. active_mm (tsk r p),
     users = \<lambda>a. mm_users (mm_tab r a), refs = \<lambda>a. mm_count (mm_tab r a), spaces_alive = live_mm r\<rparr>"

lemmas of_defs = files_of_def fs_of_def sig_of_def mm_of_def

lemmas upd_res_defs = upd_tsk_def upd_files_def upd_fs_def upd_sig_def upd_mm_def

lemma of_sel [simp]:
  "holds (files_of r) p = files (tsk r p)" "uses (files_of r) a = files_count (files_tab r a)" "alive (files_of r) = live_files r"
  "holds (fs_of r) p = fs (tsk r p)" "uses (fs_of r) a = fs_count (fs_tab r a)" "alive (fs_of r) = live_fs r"
  "holds (sig_of r) p = sig (tsk r p)" "uses (sig_of r) a = sig_count (sig_tab r a)" "alive (sig_of r) = live_sig r"
  "runs_in (mm_of r) p = mm (tsk r p)" "borrows (mm_of r) p = active_mm (tsk r p)"
  "users (mm_of r) a = mm_users (mm_tab r a)" "refs (mm_of r) a = mm_count (mm_tab r a)" "spaces_alive (mm_of r) = live_mm r"
  by (simp_all add: of_defs)

lemma fold_keeps: "(\<And>x r. f (g x r) = f r) \<Longrightarrow> f (fold g xs r) = f r"
  by (induction xs arbitrary: r) simp_all

text \<open>Closing the files of a table changes the table's pointers and the references to files.\<close>

lemma close_fd_of: "files_of (close_fd a i r) = files_of r" "fs_of (close_fd a i r) = fs_of r"
  "sig_of (close_fd a i r) = sig_of r" "mm_of (close_fd a i r) = mm_of r"
  by (auto simp: close_fd_def of_defs Let_def fun_eq_iff)

lemma close_files_of: "files_of (close_files a r) = files_of r" "fs_of (close_files a r) = fs_of r"
  "sig_of (close_files a r) = sig_of r" "mm_of (close_files a r) = mm_of r"
  by (simp_all add: close_files_def close_word_def Let_def fold_keeps close_fd_of)

lemma put_files_of:
  "files_of (put_files_struct a r) = (files_of r)\<lparr>uses := (uses (files_of r))(a := files_count (files_tab r a) - 1),
     alive := (if files_count (files_tab r a) = 1 then live_files r - {a} else live_files r)\<rparr>"
  "fs_of (put_files_struct a r) = fs_of r" "sig_of (put_files_struct a r) = sig_of r" "mm_of (put_files_struct a r) = mm_of r"
proof -
  let ?r = "upd_files a (\<lambda>f. f\<lparr>files_count := files_count f - 1\<rparr>) r"
  have live: "files_of (r\<lparr>live_files := L\<rparr>) = (files_of r)\<lparr>alive := L\<rparr>" "fs_of (r\<lparr>live_files := L\<rparr>) = fs_of r"
    "sig_of (r\<lparr>live_files := L\<rparr>) = sig_of r" "mm_of (r\<lparr>live_files := L\<rparr>) = mm_of r" for r L by (simp_all add: of_defs)
  have "live_files (close_files a ?r) = alive (files_of (close_files a ?r))" by (simp add: of_defs)
  then have l: "live_files (close_files a ?r) = live_files r" by (simp add: close_files_of upd_files_def)
  have 1: "files_of ?r = (files_of r)\<lparr>uses := (uses (files_of r))(a := files_count (files_tab r a) - 1)\<rparr>"
    "fs_of ?r = fs_of r" "sig_of ?r = sig_of r" "mm_of ?r = mm_of r" by (auto simp: of_defs upd_files_def)
  show "files_of (put_files_struct a r) = (files_of r)\<lparr>uses := (uses (files_of r))(a := files_count (files_tab r a) - 1),
     alive := (if files_count (files_tab r a) = 1 then live_files r - {a} else live_files r)\<rparr>"
    "fs_of (put_files_struct a r) = fs_of r" "sig_of (put_files_struct a r) = sig_of r" "mm_of (put_files_struct a r) = mm_of r"
    by (simp_all add: put_files_struct_def Let_def live close_files_of 1 l) (auto simp: of_defs upd_files_def)
qed

lemma exit_files_of:
  "files_of (exit_files p r) = let_go p (files_of r)" "fs_of (exit_files p r) = fs_of r"
  "sig_of (exit_files p r) = sig_of r" "mm_of (exit_files p r) = mm_of r"
  by (simp_all add: exit_files_def put_files_of let_go_def split: option.split)
    (auto simp: of_defs upd_tsk_def fun_eq_iff)

interpretation fl: shared_object files_of exit_files
  by unfold_locales (rule exit_files_of)

lemma exit_fs_of:
  "fs_of (exit_fs p r) = let_go p (fs_of r)" "files_of (exit_fs p r) = files_of r"
  "sig_of (exit_fs p r) = sig_of r" "mm_of (exit_fs p r) = mm_of r"
  by (auto simp: exit_fs_def put_fs_struct_def let_go_def of_defs upd_res_defs Let_def fun_eq_iff split: option.split)

interpretation fsx: shared_object fs_of exit_fs
  by unfold_locales (rule exit_fs_of)

text \<open>
  \<^verbatim>\<open>exit_sighand\<close> and \<^verbatim>\<open>exit_namespace\<close> are in files that the repository does not have. The first keeps the
  contract of a shared object and touches nothing else; the second touches none of these objects.
\<close>

definition same_others :: "res \<Rightarrow> res \<Rightarrow> bool" where
  "same_others r r' \<longleftrightarrow> files_of r' = files_of r \<and> fs_of r' = fs_of r \<and> mm_of r' = mm_of r"

definition sighand_ok :: "'a ext_scheme \<Rightarrow> bool" where
  "sighand_ok X \<longleftrightarrow> shared_object sig_of (exit_sighand X) \<and> (\<forall>p r. same_others r (exit_sighand X p r))"

definition namespace_ok :: "'a ext_scheme \<Rightarrow> bool" where
  "namespace_ok X \<longleftrightarrow> (\<forall>p r. same_others r (exit_namespace X p r) \<and> sig_of (exit_namespace X p r) = sig_of r)"

lemma same_othersD: "same_others r r' \<Longrightarrow> files_of r' = files_of r" "same_others r r' \<Longrightarrow> fs_of r' = fs_of r"
  "same_others r r' \<Longrightarrow> mm_of r' = mm_of r"
  by (simp_all add: same_others_def)

lemma sighand_okD:
  assumes "sighand_ok X"
  shows "sig_of (exit_sighand X p r) = let_go p (sig_of r)" "files_of (exit_sighand X p r) = files_of r"
    "fs_of (exit_sighand X p r) = fs_of r" "mm_of (exit_sighand X p r) = mm_of r"
  using assms by (auto simp: sighand_ok_def shared_object_def same_others_def)

subsection \<open>The copies of a fork\<close>

text \<open>
  The child starts with the pointers of its parent. A new object is one that is not in use; the two functions
  that enlarge the arrays of a file table change only these.
\<close>

definition expand_ok :: "'a ext_scheme \<Rightarrow> bool" where
  "expand_ok X \<longleftrightarrow>
     (\<forall>f n. \<exists>m bs cs. fst (expand_fdset X f n) = f\<lparr>max_fdset := m, open_fds := bs, close_on_exec := cs\<rparr> \<and>
        (snd (expand_fdset X f n) = 0 \<longrightarrow> n < m \<and> length bs = nat m div 32 \<and> length cs = nat m div 32)) \<and>
     (\<forall>f n. \<exists>m ds. fst (expand_fd_array X f n) = f\<lparr>max_fds := m, fds := ds\<rparr> \<and>
        (snd (expand_fd_array X f n) = 0 \<longrightarrow> n < m \<and> length ds = nat m))"

lemma expand_okD:
  assumes "expand_ok X"
  shows "files_count (fst (expand_fdset X f n)) = files_count f" "files_count (fst (expand_fd_array X f n)) = files_count f"
proof -
  obtain m bs cs where "fst (expand_fdset X f n) = f\<lparr>max_fdset := m, open_fds := bs, close_on_exec := cs\<rparr>"
    using assms unfolding expand_ok_def by blast
  then show "files_count (fst (expand_fdset X f n)) = files_count f" by simp
  obtain m ds where "fst (expand_fd_array X f n) = f\<lparr>max_fds := m, fds := ds\<rparr>"
    using assms unfolding expand_ok_def by blast
  then show "files_count (fst (expand_fd_array X f n)) = files_count f" by simp
qed

lemma grow_files_count:
  "expand_ok X \<Longrightarrow> grow_files X oldf (empty_files X) = Inr (f, n) \<Longrightarrow> files_count (fill_files k oldf f) = 1"
  using expand_okD [of X]
  by (auto simp: grow_files_def Let_def fill_files_def empty_files_def split: if_splits)

lemma copy_files_of:
  assumes c: "copy_files X flags cur p r = (r', e)" and p: "files (tsk r p) = files (tsk r cur)" "p \<noteq> cur" and x: "expand_ok X"
    and new: "\<And>a. new_files X = Some a \<Longrightarrow> a \<notin> live_files r"
  shows "if e = 0 then cloned cur p (files_of r) (files_of r') else same_but p (files_of r) (files_of r')"
    and "fs_of r' = fs_of r" "sig_of r' = sig_of r" "mm_of r' = mm_of r"
proof (atomize (full), cases "files (tsk r cur)")
  case None
  then have "r' = r" "e = 0" using c by (simp_all add: copy_files_def)
  moreover have "files_of r = (files_of r)\<lparr>holds := (holds (files_of r))(p := None)\<rparr>" using None p by (simp add: of_defs fun_upd_idem fun_eq_iff)
  ultimately show "(if e = 0 then cloned cur p (files_of r) (files_of r') else same_but p (files_of r) (files_of r')) \<and>
      fs_of r' = fs_of r \<and> sig_of r' = sig_of r \<and> mm_of r' = mm_of r" using None by (simp add: cloned_def)
next
  case old: (Some oldf)
  have join_share: "cloned cur p (files_of r) (files_of r1)"
    if "files_of r1 = (files_of r)\<lparr>uses := (uses (files_of r))(oldf := files_count (files_tab r oldf) + 1)\<rparr>" for r1
  proof -
    have "files_of r1 = join_share p oldf (files_of r)" using that old p by (auto simp: join_share_def of_defs fun_eq_iff)
    then show ?thesis using old by (simp add: cloned_def)
  qed
  show "(if e = 0 then cloned cur p (files_of r) (files_of r') else same_but p (files_of r) (files_of r')) \<and>
      fs_of r' = fs_of r \<and> sig_of r' = sig_of r \<and> mm_of r' = mm_of r"
  proof (cases "flags AND 0x400 \<noteq> 0")
    case True
    then have "r' = upd_files oldf (\<lambda>f. f\<lparr>files_count := files_count f + 1\<rparr>) r" "e = 0"
      using c old by (auto simp: copy_files_def)
    then have "files_of r' = (files_of r)\<lparr>uses := (uses (files_of r))(oldf := files_count (files_tab r oldf) + 1)\<rparr>"
      "fs_of r' = fs_of r" "sig_of r' = sig_of r" "mm_of r' = mm_of r" "e = 0"
      by (auto simp: of_defs upd_files_def fun_eq_iff)
    then show ?thesis using join_share [of r'] by simp
  next
    case False
    let ?r1 = "upd_tsk p (\<lambda>t. t\<lparr>files := None\<rparr>) r"
    have fail: "same_but p (files_of r) (files_of ?r1) \<and> fs_of ?r1 = fs_of r \<and> sig_of ?r1 = sig_of r \<and> mm_of ?r1 = mm_of r"
      by (auto simp: same_but_def of_defs upd_tsk_def)
    show ?thesis
    proof (cases "\<exists>a f n. new_files X = Some a \<and> grow_files X (files_tab r oldf) (empty_files X) = Inr (f, n)")
      case True
      then obtain a f n where a: "new_files X = Some a" "grow_files X (files_tab r oldf) (empty_files X) = Inr (f, n)" by blast
      note one = grow_files_count [OF x a(2)]
      have r': "files_of r' = own_new p a (files_of r)" "fs_of r' = fs_of r" "sig_of r' = sig_of r" "mm_of r' = mm_of r" "e = 0"
        using c old False a one by (auto simp: copy_files_def own_new_def of_defs upd_tsk_def fun_eq_iff)
      moreover have "a \<notin> alive (files_of r)" using new a(1) by simp
      ultimately show ?thesis by (auto simp: cloned_def)
    next
      case no: False
      then have "r' = ?r1 \<and> e \<noteq> 0"
        using c old False x
        by (auto simp: copy_files_def grow_files_def Let_def split: option.splits sum.splits if_splits)
      then show ?thesis using fail by simp
    qed
  qed
qed

lemma copy_fs_of:
  assumes c: "copy_fs X flags cur p r = Inr (r', e)" and p: "fs (tsk r p) = fs (tsk r cur)"
    and new: "\<And>a. new_fs X = Some a \<Longrightarrow> a \<notin> live_fs r"
  shows "if e = 0 then cloned cur p (fs_of r) (fs_of r') else same_but p (fs_of r) (fs_of r')"
    and "files_of r' = files_of r" "sig_of r' = sig_of r" "mm_of r' = mm_of r"
proof -
  obtain old where old: "fs (tsk r cur) = Some old" using c by (cases "fs (tsk r cur)") (auto simp: copy_fs_def)
  have share: "flags AND 0x200 \<noteq> 0 \<Longrightarrow> e = 0 \<and> fs_of r' = join_share p old (fs_of r)"
    using c old p by (auto simp: copy_fs_def join_share_def of_defs upd_fs_def fun_eq_iff)
  have own: "flags AND 0x200 = 0 \<Longrightarrow> new_fs X = Some a \<Longrightarrow> e = 0 \<and> fs_of r' = own_new p a (fs_of r)" for a
    using c old by (auto simp: copy_fs_def copy_fs_struct_def own_new_def of_defs upd_tsk_def fun_eq_iff Let_def)
  have fail: "flags AND 0x200 = 0 \<Longrightarrow> new_fs X = None \<Longrightarrow> e \<noteq> 0 \<and> same_but p (fs_of r) (fs_of r')"
    using c old by (auto simp: copy_fs_def copy_fs_struct_def same_but_def of_defs upd_tsk_def)
  show "if e = 0 then cloned cur p (fs_of r) (fs_of r') else same_but p (fs_of r) (fs_of r')"
    using share own fail new old by (cases "flags AND 0x200 = 0"; cases "new_fs X") (auto simp: cloned_def)
  show "files_of r' = files_of r" "sig_of r' = sig_of r" "mm_of r' = mm_of r"
    using c old
    by (auto simp: copy_fs_def copy_fs_struct_def of_defs upd_res_defs fun_eq_iff Let_def split: if_splits option.splits)
qed

lemma copy_sighand_of:
  assumes c: "copy_sighand X flags cur p r = Inr (r', e)" and p: "sig (tsk r p) = sig (tsk r cur)"
    and new: "\<And>a. new_sig X = Some a \<Longrightarrow> a \<notin> live_sig r"
  shows "if e = 0 then cloned cur p (sig_of r) (sig_of r') else same_but p (sig_of r) (sig_of r')"
    and "files_of r' = files_of r" "fs_of r' = fs_of r" "mm_of r' = mm_of r"
proof -
  obtain old where old: "sig (tsk r cur) = Some old" using c by (cases "sig (tsk r cur)") (auto simp: copy_sighand_def)
  have share: "flags AND 0x800 \<noteq> 0 \<Longrightarrow> e = 0 \<and> sig_of r' = join_share p old (sig_of r)"
    using c old p by (auto simp: copy_sighand_def join_share_def of_defs upd_sig_def fun_eq_iff)
  have own: "flags AND 0x800 = 0 \<Longrightarrow> new_sig X = Some a \<Longrightarrow> e = 0 \<and> sig_of r' = own_new p a (sig_of r)" for a
    using c old by (auto simp: copy_sighand_def own_new_def of_defs upd_tsk_def fun_eq_iff Let_def)
  have fail: "flags AND 0x800 = 0 \<Longrightarrow> new_sig X = None \<Longrightarrow> e \<noteq> 0 \<and> same_but p (sig_of r) (sig_of r')"
    using c old by (auto simp: copy_sighand_def same_but_def of_defs upd_tsk_def)
  show "if e = 0 then cloned cur p (sig_of r) (sig_of r') else same_but p (sig_of r) (sig_of r')"
    using share own fail new old by (cases "flags AND 0x800 = 0"; cases "new_sig X") (auto simp: cloned_def)
  show "files_of r' = files_of r" "fs_of r' = fs_of r" "mm_of r' = mm_of r"
    using c old
    by (auto simp: copy_sighand_def of_defs upd_res_defs fun_eq_iff Let_def split: if_splits option.splits)
qed

end
