(* ===== verification/Proc_Spaces.thy ===== *)
theory Proc_Spaces
  imports Proc_Share
begin

text \<open>
  HW1, the counts of address spaces (\<open>mm_users\<close> and \<open>mm_count\<close>): \<open>spaces\<close> is what \<^verbatim>\<open>copy_mm\<close>, \<^verbatim>\<open>mmput\<close>, \<^verbatim>\<open>exit_mm\<close> and
  the switch between tasks do to them, without the areas. \<open>spaces_ok\<close> says that both counts are exact, where
  the running task without a space of its own borrows one; each operation is refined by one on \<open>spaces\<close> and
  keeps it.
\<close>

subsection \<open>Address spaces\<close>

text \<open>
  \<open>users\<close> counts the tasks that run in the space (\<open>init_mm\<close> starts with two); \<open>refs\<close> counts one for all
  users together, and one more while the running task has no space of its own and borrows this one.
\<close>

definition runners :: "tid set \<Rightarrow> spaces \<Rightarrow> nat \<Rightarrow> tid set" where
  "runners S m a = {p \<in> S. runs_in m p = Some a}"

definition lazy_on :: "tid \<Rightarrow> spaces \<Rightarrow> nat \<Rightarrow> bool" where
  "lazy_on cur m a \<longleftrightarrow> runs_in m cur = None \<and> borrows m cur = Some a"

definition spaces_ok :: "tid set \<Rightarrow> tid \<Rightarrow> spaces \<Rightarrow> bool" where
  "spaces_ok S cur m \<longleftrightarrow> finite S \<and> cur \<in> S \<and> init_mm \<in> spaces_alive m \<and>
     (\<forall>a\<in>spaces_alive m.
        users m a = int (card (runners S m a)) + (if a = init_mm then 2 else 0) \<and>
        refs m a = (if users m a = 0 then 0 else 1) + (if lazy_on cur m a then 1 else 0) \<and> 0 < refs m a) \<and>
     (\<forall>p\<in>S. \<forall>a. runs_in m p = Some a \<longrightarrow> a \<in> spaces_alive m \<and> borrows m p = Some a) \<and>
     (\<forall>p\<in>S. p \<noteq> cur \<longrightarrow> runs_in m p = None \<longrightarrow> borrows m p = None) \<and>
     (\<exists>a\<in>spaces_alive m. borrows m cur = Some a)"

text \<open>\<^verbatim>\<open>exit_mmap\<close> of the memory management gives back what the areas of the space hold; how it counts the
  accounted pages is left open.\<close>

definition release_area :: "'a ext_scheme \<Rightarrow> vm_area \<Rightarrow> res \<Rightarrow> res" where
  "release_area X v r =
     (case vm_file v of
        None \<Rightarrow> r
      | Some f \<Rightarrow>
          let i = inode_of X f in
          r\<lparr>file_refs := add_ref (Some f) (-1) (file_refs r),
            inode_writes := (if vm_denywrite v then add_ref (Some i) 1 (inode_writes r) else inode_writes r),
            shares := (shares r)(i := remove1 (vm_addr v) (shares r i))\<rparr>)"

definition mmap_ok :: "'a ext_scheme \<Rightarrow> bool" where
  "mmap_ok X \<longleftrightarrow> (\<forall>a r. \<exists>n m'.
     exit_mmap X a r = (fold (release_area X) (mmap (mm_tab r a)) r)\<lparr>mm_tab := (mm_tab r)(a := m'), accounted := n\<rparr> \<and>
     mm_users m' = mm_users (mm_tab r a) \<and> mm_count m' = mm_count (mm_tab r a) \<and>
     mml_next m' = mml_next (mm_tab r a) \<and> mml_prev m' = mml_prev (mm_tab r a))"

definition same_objects :: "res \<Rightarrow> res \<Rightarrow> bool" where
  "same_objects r r' \<longleftrightarrow> files_of r' = files_of r \<and> fs_of r' = fs_of r \<and> sig_of r' = sig_of r"

lemma same_objects_refl [simp]: "same_objects r r" by (simp add: same_objects_def)

lemma same_objects_trans: "same_objects r r' \<Longrightarrow> same_objects r' r'' \<Longrightarrow> same_objects r r''"
  by (simp add: same_objects_def)

lemma release_areas_keep:
  "same_objects r (fold (release_area X) vs r)" "mm_of (fold (release_area X) vs r) = mm_of r"
  "mm_tab (fold (release_area X) vs r) = mm_tab r"
proof -
  have "files_of (fold (release_area X) vs r) = files_of r" "fs_of (fold (release_area X) vs r) = fs_of r"
    "sig_of (fold (release_area X) vs r) = sig_of r"
    by (rule fold_keeps; auto simp: release_area_def of_defs Let_def split: option.split)+
  then show "same_objects r (fold (release_area X) vs r)" by (simp add: same_objects_def)
  show "mm_of (fold (release_area X) vs r) = mm_of r" "mm_tab (fold (release_area X) vs r) = mm_tab r"
    by (rule fold_keeps; auto simp: release_area_def of_defs Let_def split: option.split)+
qed

lemma exit_mmap_keeps:
  assumes "mmap_ok X"
  shows "same_objects r (exit_mmap X a r)" "mm_of (exit_mmap X a r) = mm_of r"
proof -
  let ?f = "fold (release_area X) (mmap (mm_tab r a)) r"
  obtain n m' where e: "exit_mmap X a r = ?f\<lparr>mm_tab := (mm_tab r)(a := m'), accounted := n\<rparr>"
    and m: "mm_users m' = mm_users (mm_tab r a)" "mm_count m' = mm_count (mm_tab r a)"
    using assms unfolding mmap_ok_def by meson
  show "same_objects r (exit_mmap X a r)"
    using release_areas_keep(1) [of r X "mmap (mm_tab r a)"] by (simp add: e same_objects_def of_defs)
  have "mm_of (exit_mmap X a r) = (mm_of ?f)\<lparr>users := \<lambda>b. mm_users (((mm_tab r)(a := m')) b),
      refs := \<lambda>b. mm_count (((mm_tab r)(a := m')) b)\<rparr>"
    by (simp add: e of_defs)
  also have "\<dots> = mm_of r" unfolding release_areas_keep using m by (auto simp: of_defs fun_eq_iff)
  finally show "mm_of (exit_mmap X a r) = mm_of r" .
qed

lemma mm_steps_keep:
  "same_objects r (upd_mm a f r)" "same_objects r (mmlist_add a b r)" "same_objects r (mmlist_del a r)"
  "same_objects r (r\<lparr>mmlist_nr := n\<rparr>)" "same_objects r (free_mm a r)" "same_objects r (mm_release cur r)"
  "mm_of (mmlist_add a b r) = mm_of r" "mm_of (mmlist_del a r) = mm_of r" "mm_of (r\<lparr>mmlist_nr := n\<rparr>) = mm_of r"
  "mm_of (mm_release cur r) = mm_of r"
  by (auto simp: same_objects_def of_defs upd_mm_def upd_tsk_def mmlist_add_def mmlist_del_def free_mm_def mm_release_def
      Let_def fun_eq_iff split: option.split)

definition drop_ref :: "nat \<Rightarrow> spaces \<Rightarrow> spaces" where
  "drop_ref a m = m\<lparr>refs := (refs m)(a := refs m a - 1),
     spaces_alive := (if refs m a = 1 then spaces_alive m - {a} else spaces_alive m)\<rparr>"

definition put_space :: "nat \<Rightarrow> spaces \<Rightarrow> spaces" where
  "put_space a m = (let m1 = m\<lparr>users := (users m)(a := users m a - 1)\<rparr> in if users m a = 1 then drop_ref a m1 else m1)"

lemma mmdrop_of:
  assumes "mm_count (mm_tab r a) \<noteq> 1 \<or> a \<noteq> init_mm"
  obtains r' where "mmdrop a r = Inr r'" "mm_of r' = drop_ref a (mm_of r)" "same_objects r r'"
proof -
  have "\<exists>r'. mmdrop a r = Inr r' \<and> mm_of r' = drop_ref a (mm_of r) \<and> same_objects r r'"
    using assms by (auto simp: mmdrop_def Let_def drop_ref_def same_objects_def of_defs free_mm_def upd_mm_def fun_eq_iff)
  with that show thesis by blast
qed

lemma mmput_of:
  assumes "mmap_ok X" "mm_users (mm_tab r a) \<noteq> 1 \<or> mm_count (mm_tab r a) \<noteq> 1 \<or> a \<noteq> init_mm"
  obtains r' where "mmput X a r = Inr r'" "mm_of r' = put_space a (mm_of r)" "same_objects r r'"
proof -
  let ?r1 = "upd_mm a (\<lambda>m. m\<lparr>mm_users := mm_users m - 1\<rparr>) r"
  have m1: "mm_of ?r1 = (mm_of r)\<lparr>users := (users (mm_of r))(a := mm_users (mm_tab r a) - 1)\<rparr>"
    by (auto simp: of_defs upd_mm_def fun_eq_iff)
  show thesis
  proof (cases "mm_users (mm_tab r a) = 1")
    case False
    then have "mmput X a r = Inr ?r1" by (simp add: mmput_def upd_mm_def)
    moreover have "mm_of ?r1 = put_space a (mm_of r)" using m1 False by (simp add: put_space_def)
    ultimately show thesis by (rule that) (rule mm_steps_keep)
  next
    case True
    define r2 where "r2 = mmlist_del a ?r1"
    define r3 where "r3 = exit_mmap X a (r2\<lparr>mmlist_nr := mmlist_nr r2 - 1\<rparr>)"
    have put: "mmput X a r = mmdrop a r3" using True by (simp add: mmput_def upd_mm_def r2_def r3_def Let_def)
    have m3: "mm_of r3 = (mm_of r)\<lparr>users := (users (mm_of r))(a := 0)\<rparr>"
      unfolding r3_def exit_mmap_keeps(2) [OF assms(1)] mm_steps_keep r2_def using m1 True by simp
    have "same_objects ?r1 r2" "same_objects r ?r1" unfolding r2_def by (rule mm_steps_keep)+
    moreover have "same_objects r2 r3" unfolding r3_def
      by (rule same_objects_trans [OF mm_steps_keep(4) exit_mmap_keeps(1) [OF assms(1)]])
    ultimately have s: "same_objects r r3" by (blast intro: same_objects_trans)
    have "refs (mm_of r3) a = mm_count (mm_tab r a)" unfolding m3 by simp
    then have "mm_count (mm_tab r3 a) = mm_count (mm_tab r a)" by simp
    then obtain r4 where r4: "mmdrop a r3 = Inr r4" "mm_of r4 = drop_ref a (mm_of r3)" "same_objects r3 r4"
      using mmdrop_of [of r3 a] assms(2) True by metis
    show thesis
      by (rule that [OF put [unfolded r4(1)] _ same_objects_trans [OF s r4(3)]])
        (simp add: r4(2) m3 put_space_def True)
  qed
qed

subsection \<open>Copying and leaving an address space\<close>

definition keeps :: "res \<Rightarrow> res \<Rightarrow> bool" where
  "keeps r r' \<longleftrightarrow> same_objects r r' \<and> mm_of r' = mm_of r"

lemma keeps_refl [simp]: "keeps r r" by (simp add: keeps_def)

lemma keeps_trans: "keeps r r' \<Longrightarrow> keeps r' r'' \<Longrightarrow> keeps r r''"
  by (auto simp: keeps_def intro: same_objects_trans)

lemma area_keeps:
  "keeps r (share_file X mpnt tmp r)" "keeps r (r\<lparr>accounted := n\<rparr>)" "keeps r (fst (fail_nomem charge e r))"
  "keeps r (upd_mm a (\<lambda>m. m\<lparr>mmap := mmap m @ [tmp], map_count := map_count m + 1\<rparr>) r)"
  by (auto simp: keeps_def same_objects_def of_defs share_file_def fail_nomem_def upd_mm_def Let_def fun_eq_iff split: option.split)

text \<open>One area that is copied, as one step.\<close>

definition area_step :: "'a ext_scheme \<Rightarrow> nat \<Rightarrow> vm_area \<Rightarrow> nat \<Rightarrow> res \<Rightarrow> res" where
  "area_step X a mpnt v r =
     (let len = (if vm_account mpnt then area_pages X mpnt else 0);
          tmp = mpnt\<lparr>vm_addr := v, vm_locked := False\<rparr>
      in upd_mm a (\<lambda>m. m\<lparr>mmap := mmap m @ [tmp], map_count := map_count m + 1\<rparr>)
           (share_file X mpnt tmp (r\<lparr>accounted := accounted r + uint len\<rparr>)))"

lemma area_step_keeps: "keeps r (area_step X a mpnt v r)"
  unfolding area_step_def Let_def by (rule keeps_trans [OF area_keeps(2) keeps_trans [OF area_keeps(1) area_keeps(4)]])

lemma dup_areas_Cons:
  "dup_areas X a i charge (mpnt # vs) r =
     (if vm_dontcopy mpnt then dup_areas X a (i + 1) charge vs r
      else if vm_account mpnt \<and> \<not> vm_enough_memory X i then fail_nomem charge (- ENOMEM) r
      else
        let len = (if vm_account mpnt then area_pages X mpnt else 0) in
        case new_area X i of
          None \<Rightarrow> fail_nomem (charge + len) (- ENOMEM) (r\<lparr>accounted := accounted r + uint len\<rparr>)
        | Some v \<Rightarrow>
            if copy_page_range X i \<noteq> 0 then fail_nomem (charge + len) (copy_page_range X i) (area_step X a mpnt v r)
            else dup_areas X a (i + 1) (charge + len) vs (area_step X a mpnt v r))"
  unfolding dup_areas.simps area_step_def Let_def by (rule refl)

lemma dup_areas_keeps: "keeps r (fst (dup_areas X a i charge vs r))"
proof (induction vs arbitrary: i charge r)
  case (Cons mpnt vs)
  have fail: "keeps r (fst (fail_nomem c e (r\<lparr>accounted := n\<rparr>)))" "keeps r (fst (fail_nomem c e (area_step X a mpnt v r)))" for c e n v
    by (rule keeps_trans [OF area_keeps(2) area_keeps(3)], rule keeps_trans [OF area_step_keeps area_keeps(3)])
  have rest: "keeps r (fst (dup_areas X a j c vs (area_step X a mpnt v r)))" for j c v
    by (rule keeps_trans [OF area_step_keeps Cons.IH])
  show ?case unfolding dup_areas_Cons Let_def
    using Cons.IH fail rest by (auto simp: area_keeps split: option.split)
qed simp

lemma dup_mmap_keeps: "keeps r (fst (dup_mmap X old a r))"
proof -
  define r1 where "r1 = upd_mm a (\<lambda>m. m\<lparr>locked_vm := 0, mmap := [], map_count := 0, rss := 0\<rparr>) r"
  define r2 where "r2 = mmlist_add a old r1"
  have "keeps r r1" by (auto simp: r1_def keeps_def same_objects_def of_defs upd_mm_def fun_eq_iff)
  moreover have "keeps r1 r2" by (simp add: r2_def keeps_def mm_steps_keep)
  moreover have "keeps r2 (r2\<lparr>mmlist_nr := mmlist_nr r2 + 1\<rparr>)" by (simp add: keeps_def mm_steps_keep)
  ultimately have "keeps r (r2\<lparr>mmlist_nr := mmlist_nr r2 + 1\<rparr>)" by (blast intro: keeps_trans)
  then show ?thesis
    unfolding dup_mmap_def Let_def r1_def [symmetric] r2_def [symmetric] by (rule keeps_trans) (rule dup_areas_keeps)
qed

text \<open>The three ways in which a child gets an address space.\<close>

definition no_space :: "tid \<Rightarrow> spaces \<Rightarrow> spaces" where
  "no_space p m = m\<lparr>runs_in := (runs_in m)(p := None), borrows := (borrows m)(p := None)\<rparr>"

definition enter_space :: "tid \<Rightarrow> nat \<Rightarrow> spaces \<Rightarrow> spaces" where
  "enter_space p a m = m\<lparr>runs_in := (runs_in m)(p := Some a), borrows := (borrows m)(p := Some a)\<rparr>"

definition share_space :: "tid \<Rightarrow> nat \<Rightarrow> spaces \<Rightarrow> spaces" where
  "share_space p a m = enter_space p a (m\<lparr>users := (users m)(a := users m a + 1)\<rparr>)"

definition new_space :: "nat \<Rightarrow> spaces \<Rightarrow> spaces" where
  "new_space a m = m\<lparr>users := (users m)(a := 1), refs := (refs m)(a := 1), spaces_alive := insert a (spaces_alive m)\<rparr>"

definition free_space :: "nat \<Rightarrow> spaces \<Rightarrow> spaces" where
  "free_space a m = m\<lparr>users := (users m)(a := 0), refs := (refs m)(a := 0), spaces_alive := spaces_alive m - {a}\<rparr>"

definition cloned_space :: "tid \<Rightarrow> tid \<Rightarrow> spaces \<Rightarrow> spaces \<Rightarrow> bool" where
  "cloned_space cur p m m' \<longleftrightarrow>
     runs_in m cur = None \<and> m' = no_space p m \<or>
     (\<exists>a. runs_in m cur = Some a \<and> m' = share_space p a m) \<or>
     (\<exists>a. runs_in m cur \<noteq> None \<and> a \<notin> spaces_alive m \<and> m' = enter_space p a (new_space a (no_space p m)))"

text \<open>After a failure the child has no space, and one that was allocated for it is gone.\<close>

definition failed_space :: "tid \<Rightarrow> spaces \<Rightarrow> spaces \<Rightarrow> bool" where
  "failed_space p m m' \<longleftrightarrow>
     runs_in m' = (runs_in m)(p := None) \<and> borrows m' = (borrows m)(p := None) \<and> spaces_alive m' = spaces_alive m \<and>
     (\<forall>a\<in>spaces_alive m. users m' a = users m a \<and> refs m' a = refs m a)"

lemma copy_mm_of:
  assumes c: "copy_mm X flags cur p r = Inr (r', e)" and X: "mmap_ok X" "init_new_context X = 0"
    and new: "\<And>a. new_mm X = Some a \<Longrightarrow> a \<notin> live_mm r" and i: "init_mm \<in> live_mm r" and p: "p \<noteq> cur"
  shows "if e = 0 then cloned_space cur p (mm_of r) (mm_of r') else failed_space p (mm_of r) (mm_of r')"
    and "same_objects r r'"
proof (atomize (full))
  let ?r0 = "upd_tsk p (\<lambda>t. t\<lparr>mm := None, active_mm := None\<rparr>) r"
  have m0: "mm_of ?r0 = no_space p (mm_of r)" by (auto simp: of_defs no_space_def upd_tsk_def fun_eq_iff)
  have s0: "same_objects r ?r0" by (auto simp: same_objects_def of_defs upd_tsk_def fun_eq_iff)
  have f0: "failed_space p (mm_of r) (mm_of ?r0)" by (simp add: m0 failed_space_def no_space_def)
  have cur: "mm (tsk ?r0 cur) = mm (tsk r cur)" using p by (simp add: upd_tsk_def)
  show "(if e = 0 then cloned_space cur p (mm_of r) (mm_of r') else failed_space p (mm_of r) (mm_of r')) \<and> same_objects r r'"
  proof (cases "mm (tsk r cur)")
    case None
    then have "r' = ?r0" "e = 0" using c cur by (simp_all add: copy_mm_def)
    then show ?thesis using None m0 s0 by (simp add: cloned_space_def)
  next
    case old: (Some old)
    consider "flags AND 0x100 \<noteq> 0" | "flags AND 0x100 = 0" "new_mm X = None" | a where "flags AND 0x100 = 0" "new_mm X = Some a"
      by fastforce
    then show ?thesis
    proof cases
      case 1
      then have "r' = upd_tsk p (\<lambda>t. t\<lparr>mm := Some old, active_mm := Some old\<rparr>) (upd_mm old (\<lambda>m. m\<lparr>mm_users := mm_users m + 1\<rparr>) ?r0)"
        "e = 0" using c cur old by (simp_all add: copy_mm_def)
      then have "mm_of r' = share_space p old (mm_of r)" "same_objects r r'" "e = 0"
        by (auto simp: of_defs share_space_def enter_space_def upd_tsk_def upd_mm_def same_objects_def fun_eq_iff)
      then show ?thesis using old by (simp add: cloned_space_def)
    next
      case 2
      then have "r' = ?r0" "e \<noteq> 0" using c cur old by (simp_all add: copy_mm_def)
      then show ?thesis using f0 s0 by simp
    next
      case (3 a)
      let ?r1 = "?r0\<lparr>mm_tab := (mm_tab ?r0)(a := mm_tab ?r0 old), live_mm := insert a (live_mm ?r0)\<rparr>"
      let ?r2 = "upd_mm a (\<lambda>m. m\<lparr>mm_users := 1, mm_count := 1, has_pgd := pgd_alloc X, def_flags := 0\<rparr>) ?r1"
      have a: "a \<notin> live_mm r" "a \<noteq> init_mm" using new 3(2) i by auto
      have m2: "mm_of ?r2 = new_space a (no_space p (mm_of r))"
        by (auto simp: of_defs no_space_def new_space_def upd_tsk_def upd_mm_def fun_eq_iff)
      have s2: "same_objects r ?r2" by (auto simp: same_objects_def of_defs upd_tsk_def upd_mm_def fun_eq_iff)
      obtain r3 e3 where d: "dup_mmap X old a ?r2 = (r3, e3)" by fastforce
      have "keeps ?r2 r3" using dup_mmap_keeps [of ?r2 X old a] d by simp
      then have m3: "mm_of r3 = new_space a (no_space p (mm_of r))" and s3: "same_objects r r3"
        using m2 s2 by (auto simp: keeps_def intro: same_objects_trans)
      show ?thesis
      proof (cases "pgd_alloc X")
        case False
        then have r': "r' = free_mm a ?r2" "e \<noteq> 0" using c cur old 3 by (simp_all add: copy_mm_def mm_init_def Let_def)
        have "mm_of r' = (new_space a (no_space p (mm_of r)))\<lparr>spaces_alive := live_mm r\<rparr>"
          unfolding r' m2 [symmetric] using a(1) by (auto simp: of_defs free_mm_def upd_mm_def upd_tsk_def)
        moreover have "same_objects r r'" unfolding r' by (rule same_objects_trans [OF s2 mm_steps_keep(5)])
        ultimately show ?thesis using r'(2) a(1) by (auto simp: failed_space_def new_space_def no_space_def)
      next
        case pgd: True
        have "users (mm_of r3) a = 1" "refs (mm_of r3) a = 1" unfolding m3 by (simp_all add: new_space_def)
        then have u: "mm_users (mm_tab r3 a) = 1" "mm_count (mm_tab r3 a) = 1" by simp_all
        have init: "mm_init X a ?r1 = (?r2, True)" using pgd by (simp add: mm_init_def)
        show ?thesis
        proof (cases "e3 = 0")
          case True
          then have r': "r' = upd_tsk p (\<lambda>t. t\<lparr>mm := Some a, active_mm := Some a\<rparr>) r3" "e = 0"
            using c cur old 3 init d X(2) by (simp_all add: copy_mm_def)
          have "mm_of r' = enter_space p a (mm_of r3)"
            unfolding r'(1) by (auto simp: of_defs enter_space_def upd_tsk_def fun_eq_iff)
          moreover have "same_objects r3 r'" unfolding r'(1) by (auto simp: same_objects_def of_defs upd_tsk_def fun_eq_iff)
          ultimately show ?thesis using r'(2) a(1) old s3 m3
            by (auto simp: cloned_space_def intro: same_objects_trans)
        next
          case False
          obtain r4 where r4: "mmput X a r3 = Inr r4" "mm_of r4 = put_space a (mm_of r3)" "same_objects r3 r4"
            using mmput_of [OF X(1), of r3 a] a(2) by metis
          then have r': "r' = r4" "e \<noteq> 0" using c cur old 3 init d X(2) False by (simp_all add: copy_mm_def)
          have "mm_of r' = free_space a (no_space p (mm_of r))"
            unfolding r'(1) r4(2) m3 using a(1)
            by (auto simp: put_space_def drop_ref_def new_space_def free_space_def no_space_def)
          then show ?thesis using r'(2) a(1) same_objects_trans [OF s3 r4(3)] r'(1)
            by (auto simp: failed_space_def free_space_def no_space_def)
        qed
      qed
    qed
  qed
qed

lemma spaces_okD:
  assumes "spaces_ok S cur m"
  shows "finite S" "cur \<in> S" "init_mm \<in> spaces_alive m"
    "a \<in> spaces_alive m \<Longrightarrow> users m a = int (card (runners S m a)) + (if a = init_mm then 2 else 0)"
    "a \<in> spaces_alive m \<Longrightarrow> refs m a = (if users m a = 0 then 0 else 1) + (if lazy_on cur m a then 1 else 0)"
    "a \<in> spaces_alive m \<Longrightarrow> 0 < refs m a"
    "p \<in> S \<Longrightarrow> runs_in m p = Some a \<Longrightarrow> a \<in> spaces_alive m" "p \<in> S \<Longrightarrow> runs_in m p = Some a \<Longrightarrow> borrows m p = Some a"
    "p \<in> S \<Longrightarrow> p \<noteq> cur \<Longrightarrow> runs_in m p = None \<Longrightarrow> borrows m p = None"
    "\<exists>a\<in>spaces_alive m. borrows m cur = Some a"
  using assms unfolding spaces_ok_def by blast+

lemma spaces_okI:
  assumes "finite S" "cur \<in> S" "init_mm \<in> spaces_alive m"
    "\<And>a. a \<in> spaces_alive m \<Longrightarrow> users m a = int (card (runners S m a)) + (if a = init_mm then 2 else 0)"
    "\<And>a. a \<in> spaces_alive m \<Longrightarrow> refs m a = (if users m a = 0 then 0 else 1) + (if lazy_on cur m a then 1 else 0)"
    "\<And>a. a \<in> spaces_alive m \<Longrightarrow> 0 < refs m a"
    "\<And>p a. p \<in> S \<Longrightarrow> runs_in m p = Some a \<Longrightarrow> a \<in> spaces_alive m \<and> borrows m p = Some a"
    "\<And>p. p \<in> S \<Longrightarrow> p \<noteq> cur \<Longrightarrow> runs_in m p = None \<Longrightarrow> borrows m p = None"
    "\<exists>a\<in>spaces_alive m. borrows m cur = Some a"
  shows "spaces_ok S cur m"
  using assms by (auto simp: spaces_ok_def)

lemma runners_other:
  assumes "\<And>q. q \<noteq> p \<Longrightarrow> runs_in m' q = runs_in m q" "p \<notin> S"
  shows "runners S m' a = runners S m a"
    "runners (insert p S) m' a = (if runs_in m' p = Some a then insert p (runners S m a) else runners S m a)"
proof -
  have "runs_in m' q = runs_in m q" if "q \<in> S" for q using that assms by (cases "q = p") auto
  then show "runners S m' a = runners S m a"
    "runners (insert p S) m' a = (if runs_in m' p = Some a then insert p (runners S m a) else runners S m a)"
    by (auto simp: runners_def)
qed

lemma card_runners_insert: "finite S \<Longrightarrow> p \<notin> S \<Longrightarrow> card (insert p (runners S m a)) = card (runners S m a) + 1"
  by (simp add: runners_def)

lemma spaces_ok_failed:
  assumes "spaces_ok S cur m" "failed_space p m m'" "p \<notin> S"
  shows "spaces_ok S cur m'"
proof -
  note D = spaces_okD [OF assms(1)]
  have p: "p \<noteq> cur" using D(2) assms(3) by blast
  have F: "runs_in m' = (runs_in m)(p := None)" "borrows m' = (borrows m)(p := None)" "spaces_alive m' = spaces_alive m"
    "\<And>a. a \<in> spaces_alive m \<Longrightarrow> users m' a = users m a \<and> refs m' a = refs m a"
    using assms(2) by (auto simp: failed_space_def)
  have R: "runners S m' a = runners S m a" for a by (rule runners_other(1) [OF _ assms(3)]) (simp add: F)
  have L: "lazy_on cur m' a = lazy_on cur m a" for a using p by (simp add: lazy_on_def F)
  show ?thesis using D p assms(3) by (intro spaces_okI) (auto simp: F R L)
qed

lemma spaces_ok_cloned:
  assumes "spaces_ok S cur m" "cloned_space cur p m m'" "p \<notin> S"
  shows "spaces_ok (insert p S) cur m'"
proof -
  note D = spaces_okD [OF assms(1)]
  have p: "p \<noteq> cur" using D(2) assms(3) by blast
  note c = card_runners_insert [OF D(1) assms(3), of m]
  have m': "\<And>q. q \<noteq> p \<Longrightarrow> runs_in m' q = runs_in m q" "\<And>q. q \<noteq> p \<Longrightarrow> borrows m' q = borrows m q"
    using assms(2) by (auto simp: cloned_space_def no_space_def share_space_def enter_space_def new_space_def)
  have mS: "runs_in m' q = runs_in m q" "borrows m' q = borrows m q" if "q \<in> S" for q
    using that assms(3) m' by (cases "q = p"; simp)+
  note R = runners_other(2) [OF m'(1) assms(3)]
  have L: "lazy_on cur m' a = lazy_on cur m a" for a using p by (simp add: lazy_on_def m')
  have cur: "borrows m' cur = borrows m cur" using p m' by simp
  consider "runs_in m cur = None" "m' = no_space p m"
    | a where "runs_in m cur = Some a" "m' = share_space p a m"
    | a where "runs_in m cur \<noteq> None" "a \<notin> spaces_alive m" "m' = enter_space p a (new_space a (no_space p m))"
    using assms(2) by (auto simp: cloned_space_def)
  then show ?thesis
  proof cases
    case 1
    have f: "runs_in m' p = None" "borrows m' p = None" "users m' = users m" "refs m' = refs m" "spaces_alive m' = spaces_alive m"
      by (simp_all add: 1 no_space_def)
    show ?thesis using D assms(3) by (intro spaces_okI) (auto simp: R L f cur mS)
  next
    case (2 a)
    have a: "a \<in> spaces_alive m" using D(7) D(2) 2(1) by blast
    have u: "users m a \<noteq> 0" "users m a + 1 \<noteq> 0" 
    proof -
      have "cur \<in> runners S m a" using D(2) 2(1) by (simp add: runners_def)
      then have "0 < card (runners S m a)" using D(1) by (auto simp: runners_def card_gt_0_iff)
      then show "users m a \<noteq> 0" "users m a + 1 \<noteq> 0" using D(4) [OF a] by auto
    qed
    have f: "runs_in m' p = Some a" "borrows m' p = Some a" "users m' = (users m)(a := users m a + 1)" "refs m' = refs m"
      "spaces_alive m' = spaces_alive m"
      by (simp_all add: 2 share_space_def enter_space_def)
    show ?thesis
    proof (rule spaces_okI)
      fix b assume b: "b \<in> spaces_alive m'"
      show "users m' b = int (card (runners (insert p S) m' b)) + (if b = init_mm then 2 else 0)"
        using D(4) [of b] b by (auto simp: R f c)
      show "refs m' b = (if users m' b = 0 then 0 else 1) + (if lazy_on cur m' b then 1 else 0)"
        using D(5) [of b] b u by (auto simp: f L)
      show "0 < refs m' b" using D(6) b by (simp add: f)
    next
      fix q b assume "q \<in> insert p S" "runs_in m' q = Some b"
      then show "b \<in> spaces_alive m' \<and> borrows m' q = Some b" using D(7,8) a f m' by (cases "q = p") auto
    next
      fix q assume "q \<in> insert p S" "q \<noteq> cur" "runs_in m' q = None"
      then show "borrows m' q = None" using D(9) f m' by (cases "q = p") auto
    qed (use D cur in \<open>auto simp: f\<close>)
  next
    case (3 a)
    have f: "runs_in m' p = Some a" "borrows m' p = Some a" "users m' = (users m)(a := 1)" "refs m' = (refs m)(a := 1)"
      "spaces_alive m' = insert a (spaces_alive m)"
      by (simp_all add: 3 new_space_def enter_space_def no_space_def)
    have none: "runners S m a = {}" using D(7) 3(2) by (auto simp: runners_def)
    have la: "\<not> lazy_on cur m a" using D(10) 3(2) by (auto simp: lazy_on_def)
    have ai: "a \<noteq> init_mm" using D(3) 3(2) by blast
    show ?thesis
    proof (rule spaces_okI)
      fix b assume b: "b \<in> spaces_alive m'"
      show "users m' b = int (card (runners (insert p S) m' b)) + (if b = init_mm then 2 else 0)"
        using D(4) [of b] b none ai by (auto simp: R f c)
      show "refs m' b = (if users m' b = 0 then 0 else 1) + (if lazy_on cur m' b then 1 else 0)"
        using D(5) [of b] b la by (auto simp: f L)
      show "0 < refs m' b" using D(6) b by (auto simp: f)
    next
      fix q b assume "q \<in> insert p S" "runs_in m' q = Some b"
      then show "b \<in> spaces_alive m' \<and> borrows m' q = Some b" using D(7,8) f m' by (cases "q = p") auto
    next
      fix q assume "q \<in> insert p S" "q \<noteq> cur" "runs_in m' q = None"
      then show "borrows m' q = None" using D(9) f m' by (cases "q = p") auto
    qed (use D cur in \<open>auto simp: f\<close>)
  qed
qed

text \<open>
  The running task gives up its space: it borrows it until it is switched away from, so the structure
  stays even when it had no other user.
\<close>

definition leave_space :: "tid \<Rightarrow> spaces \<Rightarrow> spaces" where
  "leave_space p m =
     (case runs_in m p of
        None \<Rightarrow> m
      | Some a \<Rightarrow> put_space a (m\<lparr>runs_in := (runs_in m)(p := None), refs := (refs m)(a := refs m a + 1)\<rparr>))"

lemma exit_mm_leaves:
  assumes X: "mmap_ok X" and own: "\<And>a. mm (tsk r p) = Some a \<Longrightarrow> active_mm (tsk r p) = Some a \<and> 0 < mm_count (mm_tab r a)"
  obtains r' where "exit_mm X cur p r = Inr r'" "mm_of r' = leave_space p (mm_of r)" "same_objects r r'"
proof (cases "mm (tsk r p)")
  case None
  then have "exit_mm X cur p r = Inr (mm_release cur r)" by (simp add: exit_mm_def Let_def)
  then show thesis by (rule that) (use None in \<open>simp_all add: leave_space_def mm_steps_keep\<close>)
next
  case (Some a)
  define r2 where "r2 = upd_mm a (\<lambda>m. m\<lparr>mm_count := mm_count m + 1\<rparr>) (mm_release cur r)"
  define r3 where "r3 = upd_tsk p (\<lambda>t. t\<lparr>mm := None\<rparr>) r2"
  have m1: "mm_of (mm_release cur r) = mm_of r" by (rule mm_steps_keep)
  then have t1: "mm (tsk (mm_release cur r) q) = mm (tsk r q)" "active_mm (tsk (mm_release cur r) q) = active_mm (tsk r q)"
    "mm_users (mm_tab (mm_release cur r) b) = mm_users (mm_tab r b)" "mm_count (mm_tab (mm_release cur r) b) = mm_count (mm_tab r b)"
    for q b by (metis of_sel(10-13))+
  have "active_mm (tsk r2 p) = Some a" using own [OF Some] t1 by (simp add: r2_def upd_mm_def)
  then have e: "exit_mm X cur p r = mmput X a r3"
    using Some by (simp add: exit_mm_def Let_def r2_def [symmetric] r3_def)
  have m3: "mm_of r3 = (mm_of r)\<lparr>runs_in := (runs_in (mm_of r))(p := None), refs := (refs (mm_of r))(a := refs (mm_of r) a + 1)\<rparr>"
    unfolding m1 [symmetric] by (auto simp: r3_def r2_def of_defs upd_mm_def upd_tsk_def fun_eq_iff)
  have s3: "same_objects r r3"
    unfolding r3_def r2_def
    by (rule same_objects_trans [OF mm_steps_keep(6) same_objects_trans [OF mm_steps_keep(1)]])
      (auto simp: same_objects_def of_defs upd_tsk_def fun_eq_iff)
  have "refs (mm_of r3) a = mm_count (mm_tab r a) + 1" unfolding m3 by simp
  then have "mm_count (mm_tab r3 a) \<noteq> 1" using own [OF Some] by simp
  then obtain r4 where r4: "mmput X a r3 = Inr r4" "mm_of r4 = put_space a (mm_of r3)" "same_objects r3 r4"
    using mmput_of [OF X, of r3 a] by metis
  show thesis
    by (rule that [OF e [unfolded r4(1)] _ same_objects_trans [OF s3 r4(3)]])
      (use Some in \<open>simp add: r4(2) m3 leave_space_def\<close>)
qed

lemma exit_mm_of:
  assumes X: "mmap_ok X" and ok: "spaces_ok S cur (mm_of r)"
  obtains r' where "exit_mm X cur cur r = Inr r'" "mm_of r' = leave_space cur (mm_of r)" "same_objects r r'"
proof (rule exit_mm_leaves [OF X, of r cur cur])
  note D = spaces_okD [OF ok]
  show "active_mm (tsk r cur) = Some a \<and> 0 < mm_count (mm_tab r a)" if "mm (tsk r cur) = Some a" for a
    using that D(2,6,7,8) by auto
qed

lemma spaces_ok_leave:
  assumes "spaces_ok S cur m"
  shows "spaces_ok S cur (leave_space cur m)"
proof (cases "runs_in m cur")
  case None
  then show ?thesis using assms by (simp add: leave_space_def)
next
  case (Some a)
  note D = spaces_okD [OF assms]
  let ?m = "leave_space cur m"
  have a: "a \<in> spaces_alive m" "borrows m cur = Some a" using D(2,7,8) Some by blast+
  have cin: "cur \<in> runners S m a" using D(2) Some by (simp add: runners_def)
  have fin: "finite (runners S m b)" for b using D(1) by (simp add: runners_def)
  have R: "runners S ?m b = runners S m b - (if b = a then {cur} else {})" for b
    using Some by (auto simp: runners_def leave_space_def put_space_def drop_ref_def Let_def)
  have pos: "0 < card (runners S m a)" using cin fin [of a] by (auto simp: card_gt_0_iff)
  then have u: "users m a \<ge> 1" using D(4) [OF a(1)] by auto
  have nl: "\<not> lazy_on cur m b" for b using Some by (simp add: lazy_on_def)
  have ra: "refs m a = 1" using D(5) [OF a(1)] u nl by simp
  have f: "runs_in ?m = (runs_in m)(cur := None)" "borrows ?m = borrows m" "users ?m = (users m)(a := users m a - 1)"
    "refs ?m = (refs m)(a := (if users m a = 1 then 1 else 2))" "spaces_alive ?m = spaces_alive m"
    using Some ra by (auto simp: leave_space_def put_space_def drop_ref_def Let_def)
  have L: "lazy_on cur ?m b \<longleftrightarrow> b = a" for b using a(2) by (auto simp: lazy_on_def f)
  show ?thesis
  proof (rule spaces_okI)
    fix b assume b: "b \<in> spaces_alive ?m"
    then have bm: "b \<in> spaces_alive m" by (simp add: f)
    have "card (runners S m a - {cur}) = card (runners S m a) - 1" "1 \<le> card (runners S m a)"
      using cin fin pos by simp_all
    then show "users ?m b = int (card (runners S ?m b)) + (if b = init_mm then 2 else 0)"
      using D(4) [OF bm] by (auto simp: f(3) R of_nat_diff)
    show "refs ?m b = (if users ?m b = 0 then 0 else 1) + (if lazy_on cur ?m b then 1 else 0)"
      using D(5) [OF bm] nl by (auto simp: f(3,4) L)
    show "0 < refs ?m b" using D(6) [OF bm] by (auto simp: f(4))
  next
    fix q b assume "q \<in> S" "runs_in ?m q = Some b"
    then show "b \<in> spaces_alive ?m \<and> borrows ?m q = Some b" using D(7,8) by (auto simp: f split: if_splits)
  next
    fix q assume "q \<in> S" "q \<noteq> cur" "runs_in ?m q = None"
    then show "borrows ?m q = None" using D(9) by (auto simp: f)
  qed (use D a in \<open>auto simp: f\<close>)
qed

subsection \<open>The switch to another task\<close>

text \<open>What \<^verbatim>\<open>context_switch\<close> does to the counts; the references of the task switched from end here.\<close>

definition switch_spaces :: "tid \<Rightarrow> tid \<Rightarrow> res \<Rightarrow> fault + res" where
  "switch_spaces prev next' r =
     (let oldmm = active_mm (tsk r prev) in
      sbind (if mm (tsk r next') \<noteq> None then Inr r
             else case oldmm of
               None \<Rightarrow> Inl Null_Deref
             | Some a \<Rightarrow> Inr (upd_mm a (\<lambda>m. m\<lparr>mm_count := mm_count m + 1\<rparr>) (upd_tsk next' (\<lambda>t. t\<lparr>active_mm := Some a\<rparr>) r)))
        (\<lambda>r1. if mm (tsk r1 prev) \<noteq> None then Inr r1
              else case oldmm of
                None \<Rightarrow> Inl Null_Deref
              | Some a \<Rightarrow> mmdrop a (upd_tsk prev (\<lambda>t. t\<lparr>active_mm := None\<rparr>) r1)))"

definition borrow_from :: "tid \<Rightarrow> nat \<Rightarrow> spaces \<Rightarrow> spaces" where
  "borrow_from q a m =
     (if runs_in m q \<noteq> None then m else m\<lparr>borrows := (borrows m)(q := Some a), refs := (refs m)(a := refs m a + 1)\<rparr>)"

definition switched :: "tid \<Rightarrow> tid \<Rightarrow> nat \<Rightarrow> spaces \<Rightarrow> spaces" where
  "switched prev q a m =
     (let m1 = borrow_from q a m in
      if runs_in m prev \<noteq> None then m1 else drop_ref a (m1\<lparr>borrows := (borrows m1)(prev := None)\<rparr>))"

lemma switch_spaces_of:
  assumes ok: "spaces_ok S cur (mm_of r)" and q: "q \<in> S" "q \<noteq> cur"
  obtains r' a where "switch_spaces cur q r = Inr r'" "mm_of r' = switched cur q a (mm_of r)" "same_objects r r'"
    "active_mm (tsk r cur) = Some a"
proof -
  note D = spaces_okD [OF ok]
  obtain a where a: "a \<in> live_mm r" "active_mm (tsk r cur) = Some a" using D(10) by auto
  define r1 where "r1 = (if mm (tsk r q) \<noteq> None then r
    else upd_mm a (\<lambda>m. m\<lparr>mm_count := mm_count m + 1\<rparr>) (upd_tsk q (\<lambda>t. t\<lparr>active_mm := Some a\<rparr>) r))"
  have m1: "mm_of r1 = borrow_from q a (mm_of r)"
    by (auto simp: r1_def borrow_from_def of_defs upd_mm_def upd_tsk_def fun_eq_iff)
  have s1: "same_objects r r1" by (auto simp: r1_def same_objects_def of_defs upd_mm_def upd_tsk_def fun_eq_iff)
  have cur1: "mm (tsk r1 cur) = mm (tsk r cur)" by (simp add: r1_def upd_mm_def upd_tsk_def)
  show thesis
  proof (cases "mm (tsk r cur)")
    case (Some b)
    then have "switch_spaces cur q r = Inr r1"
      using a(2) cur1 by (auto simp: switch_spaces_def r1_def Let_def)
    then show thesis by (rule that [OF _ _ s1 a(2)]) (use Some m1 in \<open>simp add: switched_def\<close>)
  next
    case None
    let ?r2 = "upd_tsk cur (\<lambda>t. t\<lparr>active_mm := None\<rparr>) r1"
    have m2: "mm_of ?r2 = (mm_of r1)\<lparr>borrows := (borrows (mm_of r1))(cur := None)\<rparr>"
      by (auto simp: of_defs upd_tsk_def fun_eq_iff)
    have s2: "same_objects r1 ?r2" by (auto simp: same_objects_def of_defs upd_tsk_def fun_eq_iff)
    have e: "switch_spaces cur q r = mmdrop a ?r2"
      using a(2) cur1 None by (auto simp: switch_spaces_def r1_def Let_def)
    have "lazy_on cur (mm_of r) a" using None a(2) by (simp add: lazy_on_def)
    then have "a = init_mm \<Longrightarrow> mm_count (mm_tab r a) \<ge> 2" using D(4,5) [of a] a(1) by simp
    moreover have "mm_count (mm_tab ?r2 a) = mm_count (mm_tab r1 a)" by (simp add: upd_tsk_def)
    moreover have "mm_count (mm_tab r1 a) \<ge> mm_count (mm_tab r a)" by (simp add: r1_def upd_mm_def upd_tsk_def)
    ultimately have "mm_count (mm_tab ?r2 a) \<noteq> 1 \<or> a \<noteq> init_mm" by linarith
    then obtain r3 where r3: "mmdrop a ?r2 = Inr r3" "mm_of r3 = drop_ref a (mm_of ?r2)" "same_objects ?r2 r3"
      by (rule mmdrop_of)
    show thesis
      by (rule that [OF e [unfolded r3(1)] _ same_objects_trans [OF s1 same_objects_trans [OF s2 r3(3)]] a(2)])
        (use None in \<open>simp add: r3(2) m2 m1 switched_def Let_def\<close>)
  qed
qed

lemma spaces_ok_switched:
  assumes ok: "spaces_ok S cur m" and q: "q \<in> S" "q \<noteq> cur" and b: "borrows m cur = Some a"
  shows "spaces_ok S q (switched cur q a m)"
proof -
  note D = spaces_okD [OF ok]
  let ?m = "switched cur q a m"
  have a: "a \<in> spaces_alive m" using D(10) b by auto
  have f: "runs_in ?m = runs_in m" "users ?m = users m"
    by (simp_all add: switched_def borrow_from_def drop_ref_def Let_def)
  have B: "borrows ?m = (\<lambda>p. if p = q \<and> runs_in m q = None then Some a else if p = cur \<and> runs_in m cur = None then None else borrows m p)"
    using q(2) by (auto simp: switched_def borrow_from_def drop_ref_def Let_def fun_eq_iff)
  have r: "refs ?m = (refs m)(a := refs m a + (if runs_in m q = None then 1 else 0) - (if runs_in m cur = None then 1 else 0))"
    by (auto simp: switched_def borrow_from_def drop_ref_def Let_def fun_eq_iff)
  have al: "spaces_alive ?m = (if runs_in m cur = None \<and> refs m a = 1 \<and> runs_in m q \<noteq> None then spaces_alive m - {a} else spaces_alive m)"
    using D(6) [OF a] by (auto simp: switched_def borrow_from_def drop_ref_def Let_def)
  have R: "runners S ?m c = runners S m c" for c by (simp add: runners_def f)
  have l0: "lazy_on cur m c \<longleftrightarrow> runs_in m cur = None \<and> c = a" for c using b by (auto simp: lazy_on_def)
  have l1: "lazy_on q ?m c \<longleftrightarrow> runs_in m q = None \<and> c = a" for c by (auto simp: lazy_on_def f B)
  have ua: "runs_in m cur = None \<Longrightarrow> refs m a = 1 \<Longrightarrow> users m a = 0" using D(5) [OF a] by (auto simp: l0 split: if_splits)
  have run: "runs_in m p = Some a \<Longrightarrow> p \<in> S \<Longrightarrow> users m a \<noteq> 0" for p
  proof -
    assume p: "runs_in m p = Some a" "p \<in> S"
    then have "p \<in> runners S m a" by (simp add: runners_def)
    then have "0 < card (runners S m a)" using D(1) by (auto simp: runners_def card_gt_0_iff)
    then show "users m a \<noteq> 0" using D(4) [OF a] by auto
  qed
  show ?thesis
  proof (rule spaces_okI)
    show "init_mm \<in> spaces_alive ?m"
      using D(3) D(4) [OF D(3)] ua by (auto simp: al split: if_splits)
  next
    fix c assume c: "c \<in> spaces_alive ?m"
    then have cm: "c \<in> spaces_alive m" by (simp add: al split: if_splits)
    show "users ?m c = int (card (runners S ?m c)) + (if c = init_mm then 2 else 0)"
      using D(4) [OF cm] by (simp add: f R)
    show e: "refs ?m c = (if users ?m c = 0 then 0 else 1) + (if lazy_on q ?m c then 1 else 0)"
      using D(5) [OF cm] by (auto simp: f r l0 l1)
    show "0 < refs ?m c"
      using D(6) [OF cm] c al by (auto simp: r split: if_splits)
  next
    fix p c assume p: "p \<in> S" "runs_in ?m p = Some c"
    then have pc: "runs_in m p = Some c" "c \<in> spaces_alive m" "borrows m p = Some c" using D(7,8) by (auto simp: f)
    then show "c \<in> spaces_alive ?m \<and> borrows ?m p = Some c" using run ua p by (auto simp: al B)
  next
    fix p assume "p \<in> S" "p \<noteq> q" "runs_in ?m p = None"
    then show "borrows ?m p = None" using D(9) by (cases "p = cur") (auto simp: f B)
  next
    show "\<exists>c\<in>spaces_alive ?m. borrows ?m q = Some c"
    proof (cases "runs_in m q")
      case None
      then show ?thesis using a by (auto simp: al B)
    next
      case (Some c)
      then have "c \<in> spaces_alive m" "borrows m q = Some c" using D(7,8) q(1) by auto
      then show ?thesis using Some run ua q by (auto simp: al B)
    qed
  qed (use D q in simp_all)
qed

end
