(* ===== verification/Proc_Exit.thy ===== *)
theory Proc_Exit
  imports Proc_Links
begin

text \<open>
  HW1, the end of a process (\<^verbatim>\<open>HW1/kernel/exit.c\<close>): what becomes of the children (\<open>forget_original_parent\<close>,
  \<open>exit_notify\<close>), orphaned process groups, \<open>release_task\<close> and \<open>wait4\<close>. The signals sent are a list of events;
  \<^verbatim>\<open>do_notify_parent\<close>, \<^verbatim>\<open>kill_pg\<close> and \<^verbatim>\<open>send_sig\<close> are not in the repository and only add to it. The numbers of
  the signal and wait headers are fields of \<open>exit_abi\<close>. Loops over pointers are partial functions.
\<close>

unbundle bit_operations_syntax

record exit_abi =
  SIGCHLD :: int
  SIGHUP :: int
  SIGCONT :: int
  WNOHANG :: u32
  WUNTRACED :: u32
  WNOTHREAD :: u32
  WCLONE :: u32
  WALL :: u32
  PT_PTRACED :: u32
  ERESTARTSYS :: int

abbreviation (input) ECHILD :: int where "ECHILD \<equiv> 10"

definition ST_ZOMBIE :: int where "ST_ZOMBIE = 4"
definition ST_STOPPED :: int where "ST_STOPPED = 8"
definition ST_RUNNING :: int where "ST_RUNNING = 0"
definition ST_INTERRUPTIBLE :: int where "ST_INTERRUPTIBLE = 1"

definition emit :: "signal_event list \<Rightarrow> kern \<Rightarrow> kern" where
  "emit es k = k\<lparr>signals := signals k @ es\<rparr>"

subsection \<open>Process groups\<close>

fun session_scan :: "kern \<Rightarrow> pid \<Rightarrow> int \<Rightarrow> tid list \<Rightarrow> int" where
  "session_scan k grp fallback [] = fallback"
| "session_scan k grp fallback (p # ps) =
     (let t = procs k p in
      if session t \<le> 0 then session_scan k grp fallback ps
      else if pgrp t = grp then session t
      else if ppid t = grp then session_scan k grp (session t) ps
      else session_scan k grp fallback ps)"

definition session_of_pgrp :: "pid \<Rightarrow> kern \<Rightarrow> int option" where
  "session_of_pgrp grp k = map_option (session_scan k grp (-1)) (for_each_task k)"

fun orphan_scan :: "kern \<Rightarrow> pid \<Rightarrow> tid option \<Rightarrow> tid list \<Rightarrow> bool" where
  "orphan_scan k grp ignored [] = True"
| "orphan_scan k grp ignored (p # ps) =
     (let t = procs k p; pa = procs k (p_pptr t) in
      if Some p = ignored \<or> pgrp t \<noteq> grp \<or> pstate t = ST_ZOMBIE \<or> ppid pa = 1 then orphan_scan k grp ignored ps
      else if pgrp pa \<noteq> grp \<and> session pa = session t then False
      else orphan_scan k grp ignored ps)"

definition will_become_orphaned_pgrp :: "pid \<Rightarrow> tid option \<Rightarrow> kern \<Rightarrow> bool option" where
  "will_become_orphaned_pgrp grp ignored k = map_option (orphan_scan k grp ignored) (for_each_task k)"

definition is_orphaned_pgrp :: "pid \<Rightarrow> kern \<Rightarrow> bool option" where
  "is_orphaned_pgrp grp k = will_become_orphaned_pgrp grp None k"

fun stopped_scan :: "kern \<Rightarrow> pid \<Rightarrow> tid list \<Rightarrow> bool" where
  "stopped_scan k grp [] = False"
| "stopped_scan k grp (p # ps) =
     (if pgrp (procs k p) \<noteq> grp then stopped_scan k grp ps
      else if pstate (procs k p) \<noteq> ST_STOPPED then stopped_scan k grp ps
      else True)"

definition has_stopped_jobs :: "pid \<Rightarrow> kern \<Rightarrow> bool option" where
  "has_stopped_jobs grp k = map_option (stopped_scan k grp) (for_each_task k)"

definition hup_and_cont :: "exit_abi \<Rightarrow> pid \<Rightarrow> kern \<Rightarrow> kern" where
  "hup_and_cont A grp k = emit [Kill_Pg grp (SIGHUP A), Kill_Pg grp (SIGCONT A)] k"

subsection \<open>Children of an exiting process\<close>

partial_function (option) find_reaper :: "kern \<Rightarrow> tid \<Rightarrow> tid \<Rightarrow> tid option" where
  "find_reaper k father reaper =
     (let r = next_thread k reaper in
      if \<not> exiting (procs k r) then Some r
      else if r \<noteq> father then find_reaper k father r else Some r)"

definition adopt :: "exit_abi \<Rightarrow> tid \<Rightarrow> tid \<Rightarrow> tid \<Rightarrow> kern \<Rightarrow> kern" where
  "adopt A father reaper p k =
     (if p_opptr (procs k p) = father then
        let k1 = upd p (\<lambda>t. t\<lparr>exit_signal := SIGCHLD A, self_exec_id := self_exec_id t + 1,
                     p_opptr := if p = reaper then child_reaper k else reaper, first_time_slice := 0\<rparr>) k
        in if pdeath_signal (procs k1 p) \<noteq> 0 then emit [Send_Sig (pdeath_signal (procs k1 p)) p] k1 else k1
      else k)"

definition forget_original_parent :: "exit_abi \<Rightarrow> tid \<Rightarrow> kern \<Rightarrow> kern option" where
  "forget_original_parent A father k =
     do {
       r \<leftarrow> find_reaper k father father;
       xs \<leftarrow> for_each_task k;
       Some (fold (adopt A father (if r = father then child_reaper k else r)) xs k)
     }"

definition notify_parent :: "tid \<Rightarrow> kern \<Rightarrow> kern" where
  "notify_parent p k = emit [Notify_Parent p (p_pptr (procs k p)) (exit_signal (procs k p))] k"

text \<open>The links are moved with \<open>cur\<close> at the head of its list of children \<open>p\<close>.\<close>

definition move_child :: "tid \<Rightarrow> tid \<Rightarrow> kern \<Rightarrow> kern" where
  "move_child cur p k =
     (let k1 = upd cur (\<lambda>t. t\<lparr>p_cptr := p_osptr (procs k p)\<rparr>) k;
          k2 = upd p (\<lambda>t. t\<lparr>p_ysptr := None\<rparr>) k1;
          k3 = upd p (\<lambda>t. t\<lparr>ptrace := 0\<rparr>) k2;
          k4 = upd p (\<lambda>t. t\<lparr>p_pptr := p_opptr (procs k3 p)\<rparr>) k3;
          k5 = upd p (\<lambda>t. t\<lparr>p_osptr := p_cptr (procs k4 (p_pptr (procs k4 p)))\<rparr>) k4;
          k6 = upd_opt (p_osptr (procs k5 p)) (\<lambda>t. t\<lparr>p_ysptr := Some p\<rparr>) k5
      in upd (p_pptr (procs k6 p)) (\<lambda>t. t\<lparr>p_cptr := Some p\<rparr>) k6)"

definition orphan_check :: "exit_abi \<Rightarrow> tid \<Rightarrow> tid \<Rightarrow> kern \<Rightarrow> kern option" where
  "orphan_check A cur p k =
     (let t = procs k p; c = procs k cur in
      if pgrp t \<noteq> pgrp c \<and> session t = session c then
        do {
          orph \<leftarrow> is_orphaned_pgrp (pgrp t) k;
          stopped \<leftarrow> has_stopped_jobs (pgrp t) k;
          Some (if orph \<and> stopped then hup_and_cont A (pgrp t) k else k)
        }
      else Some k)"

partial_function (option) reparent_loop :: "exit_abi \<Rightarrow> tid \<Rightarrow> kern \<Rightarrow> kern option" where
  "reparent_loop A cur k =
     (case p_cptr (procs k cur) of
        None \<Rightarrow> Some k
      | Some p \<Rightarrow>
          let k1 = move_child cur p k;
              k2 = (if pstate (procs k1 p) = ST_ZOMBIE then notify_parent p k1 else k1)
          in Option.bind (orphan_check A cur p k2) (reparent_loop A cur))"

definition own_orphan_check :: "exit_abi \<Rightarrow> tid \<Rightarrow> kern \<Rightarrow> kern option" where
  "own_orphan_check A cur k =
     (let t = procs k (p_pptr (procs k cur)); c = procs k cur in
      if pgrp t \<noteq> pgrp c \<and> session t = session c then
        do {
          orph \<leftarrow> will_become_orphaned_pgrp (pgrp c) (Some cur) k;
          stopped \<leftarrow> has_stopped_jobs (pgrp c) k;
          Some (if orph \<and> stopped then hup_and_cont A (pgrp c) k else k)
        }
      else Some k)"

definition fix_exit_signal :: "exit_abi \<Rightarrow> tid \<Rightarrow> kern \<Rightarrow> kern" where
  "fix_exit_signal A cur k =
     (let t = procs k (p_pptr (procs k cur)); c = procs k cur in
      if exit_signal c \<noteq> SIGCHLD A \<and>
         (parent_exec_id c \<noteq> self_exec_id t \<or> self_exec_id c \<noteq> parent_exec_id c) \<and> \<not> cap_kill c
      then upd cur (\<lambda>t. t\<lparr>exit_signal := SIGCHLD A\<rparr>) k else k)"

definition exit_notify :: "exit_abi \<Rightarrow> kern \<Rightarrow> kern option" where
  "exit_notify A k =
     (let cur = current k in
      do {
        k1 \<leftarrow> forget_original_parent A cur k;
        k2 \<leftarrow> own_orphan_check A cur k1;
        let k3 = fix_exit_signal A cur k2;
        let k4 = upd cur (\<lambda>t. t\<lparr>pstate := ST_ZOMBIE\<rparr>) k3;
        reparent_loop A cur (notify_parent cur k4)
      })"

subsection \<open>Releasing a process\<close>

definition list_del_thread :: "tid \<Rightarrow> kern \<Rightarrow> kern" where
  "list_del_thread p k =
     (let k1 = upd (thread_next (procs k p)) (\<lambda>t. t\<lparr>thread_prev := thread_prev (procs k p)\<rparr>) k
      in upd (thread_prev (procs k1 p)) (\<lambda>t. t\<lparr>thread_next := thread_next (procs k1 p)\<rparr>) k1)"

definition unhash_process :: "tid \<Rightarrow> kern \<Rightarrow> kern" where
  "unhash_process p k =
     (let k1 = k\<lparr>nr_threads := nr_threads k - 1\<rparr>;
          k2 = k1\<lparr>pidhash := unhash_pid (\<lambda>q. ppid (procs k1 q)) p (pidhash k1)\<rparr>
      in list_del_thread p (REMOVE_LINKS p k2))"

text \<open>The fault counts go to the caller; \<^verbatim>\<open>free_uid\<close> drops a reference of the user;
  \<^verbatim>\<open>BUG()\<close> for a process that releases itself is \<open>Kernel_Bug\<close>.\<close>

definition release_task :: "tid \<Rightarrow> kern \<Rightarrow> fault + kern" where
  "release_task p k =
     (if p = current k then Inl Kernel_Bug
      else let u = user_id (procs k p);
               k0 = k\<lparr>user_processes := (user_processes k)(u := user_processes k u - 1),
                      user_count := (user_count k)(u := user_count k u - 1)\<rparr>;
               k1 = unhash_process p k0; t = procs k1 p;
               k2 = upd (current k) (\<lambda>c. c\<lparr>cmin_flt := cmin_flt c + (min_flt t + cmin_flt t),
                      cmaj_flt := cmaj_flt c + (maj_flt t + cmaj_flt t),
                      cnswap := cnswap c + (nswap t + cnswap t)\<rparr>) k1
           in Inr (upd p (\<lambda>t. t\<lparr>ppid := 0\<rparr>) k2))"

definition reparent_to_init :: "exit_abi \<Rightarrow> kern \<Rightarrow> kern" where
  "reparent_to_init A k =
     (let c = current k;
          k1 = REMOVE_LINKS c k;
          k2 = upd c (\<lambda>t. t\<lparr>p_pptr := child_reaper k1, p_opptr := child_reaper k1\<rparr>) k1;
          k3 = SET_LINKS c k2
      in upd c (\<lambda>t. t\<lparr>exit_signal := SIGCHLD A, ptrace := 0\<rparr>) k3)"

end
