(* ===== verification/Sys_Session.thy ===== *)
theory Sys_Session
  imports Proc_Links
begin

text \<open>
  HW2, process groups and sessions (\<^verbatim>\<open>HW2/kernel/sys.c\<close>, \<open>sys_setpgid\<close> to \<open>sys_setsid\<close>), on the process table
  of \<^verbatim>\<open>Proc_Links\<close>. A call returns the new table and the value that the process gets; the loops over all
  tasks make it partial. The lemmas say what the calls change, and that they keep what job control rests on:
  a process group lies in one session, and a session leader leads its own group (\<open>job_ok\<close>).
\<close>

definition find_task :: "pid \<Rightarrow> kern \<Rightarrow> tid option" where
  "find_task pid k = find_task_by_pid (\<lambda>q. ppid (procs k q)) pid (pidhash k)"

text \<open>Who may be put into a group: a child in the session of the caller that did no \<open>exec\<close>, or the caller.\<close>

definition setpgid_allowed :: "tid \<Rightarrow> kern \<Rightarrow> int" where
  "setpgid_allowed p k =
     (let c = current k; t = procs k p in
      if p_pptr t = c \<or> p_opptr t = c then
        (if session t \<noteq> session (procs k c) then - EPERM
         else if did_exec t then - EACCES else 0)
      else if p \<noteq> c then - ESRCH else 0)"

definition sys_setpgid :: "pid \<Rightarrow> pid \<Rightarrow> kern \<Rightarrow> (kern \<times> int) option" where
  "sys_setpgid pid0 pgid0 k =
     (let c = procs k (current k);
          pid = (if pid0 = 0 then ppid c else pid0);
          pgid = (if pgid0 = 0 then pid else pgid0) in
      if pgid < 0 then Some (k, - EINVAL)
      else case find_task pid k of
        None \<Rightarrow> Some (k, - ESRCH)
      | Some p \<Rightarrow>
          let e = setpgid_allowed p k; join = upd p (\<lambda>t. t\<lparr>pgrp := pgid\<rparr>) k in
          if e \<noteq> 0 then Some (k, e)
          else if leader (procs k p) then Some (k, - EPERM)
          else if pgid \<noteq> pid then
            map_option (\<lambda>xs.
              if list_ex (\<lambda>q. pgrp (procs k q) = pgid \<and> session (procs k q) = session c) xs
              then (join, 0) else (k, - EPERM)) (for_each_task k)
          else Some (join, 0))"

definition sys_getpgid :: "pid \<Rightarrow> kern \<Rightarrow> int" where
  "sys_getpgid pid k =
     (if pid = 0 then pgrp (procs k (current k))
      else case find_task pid k of Some p \<Rightarrow> pgrp (procs k p) | None \<Rightarrow> - ESRCH)"

definition sys_getpgrp :: "kern \<Rightarrow> int" where
  "sys_getpgrp k = pgrp (procs k (current k))"

definition sys_getsid :: "pid \<Rightarrow> kern \<Rightarrow> int" where
  "sys_getsid pid k =
     (if pid = 0 then session (procs k (current k))
      else case find_task pid k of Some p \<Rightarrow> session (procs k p) | None \<Rightarrow> - ESRCH)"

definition sys_setsid :: "kern \<Rightarrow> (kern \<times> int) option" where
  "sys_setsid k =
     (let c = current k; pid = ppid (procs k c) in
      map_option (\<lambda>xs.
        if list_ex (\<lambda>q. pgrp (procs k q) = pid) xs then (k, - EPERM)
        else
          let k1 = upd c (\<lambda>t. t\<lparr>leader := True\<rparr>) k;
              k2 = upd c (\<lambda>t. t\<lparr>pgrp := ppid t\<rparr>) k1;
              k3 = upd c (\<lambda>t. t\<lparr>session := pgrp t\<rparr>) k2;
              k4 = upd c (\<lambda>t. t\<lparr>tty := False\<rparr>) k3;
              k5 = upd c (\<lambda>t. t\<lparr>tty_old_pgrp := 0\<rparr>) k4
          in (k5, pgrp (procs k5 c))) (for_each_task k))"

subsection \<open>What job control rests on\<close>

definition job_ok :: "tid set \<Rightarrow> kern \<Rightarrow> bool" where
  "job_ok S k \<longleftrightarrow>
     (\<forall>p\<in>S. \<forall>q\<in>S. pgrp (procs k p) = pgrp (procs k q) \<longrightarrow> session (procs k p) = session (procs k q)) \<and>
     (\<forall>p\<in>S. \<forall>q\<in>S. pgrp (procs k q) = ppid (procs k p) \<longrightarrow> session (procs k q) = session (procs k p)) \<and>
     (\<forall>p\<in>S. leader (procs k p) \<longrightarrow> session (procs k p) = ppid (procs k p) \<and> pgrp (procs k p) = ppid (procs k p))"

lemma job_okD:
  assumes "job_ok S k" "p \<in> S"
  shows "q \<in> S \<Longrightarrow> pgrp (procs k p) = pgrp (procs k q) \<Longrightarrow> session (procs k p) = session (procs k q)"
    and "q \<in> S \<Longrightarrow> pgrp (procs k q) = ppid (procs k p) \<Longrightarrow> session (procs k q) = session (procs k p)"
    and "leader (procs k p) \<Longrightarrow> session (procs k p) = ppid (procs k p)"
    and "leader (procs k p) \<Longrightarrow> pgrp (procs k p) = ppid (procs k p)"
  using assms unfolding job_ok_def by blast+

lemma job_okI:
  assumes "\<And>p q. p \<in> S \<Longrightarrow> q \<in> S \<Longrightarrow> pgrp (procs k p) = pgrp (procs k q) \<Longrightarrow> session (procs k p) = session (procs k q)"
    and "\<And>p q. p \<in> S \<Longrightarrow> q \<in> S \<Longrightarrow> pgrp (procs k q) = ppid (procs k p) \<Longrightarrow> session (procs k q) = session (procs k p)"
    and "\<And>p. p \<in> S \<Longrightarrow> leader (procs k p) \<Longrightarrow>
      session (procs k p) = ppid (procs k p) \<and> pgrp (procs k p) = ppid (procs k p)"
  shows "job_ok S k"
  unfolding job_ok_def using assms by blast

lemma job_ok_agree:
  assumes "job_ok S k" "S' \<subseteq> S" "\<And>q. q \<in> S' \<Longrightarrow> pgrp (procs k' q) = pgrp (procs k q)"
    "\<And>q. q \<in> S' \<Longrightarrow> session (procs k' q) = session (procs k q)"
    "\<And>q. q \<in> S' \<Longrightarrow> ppid (procs k' q) = ppid (procs k q)" "\<And>q. q \<in> S' \<Longrightarrow> leader (procs k' q) = leader (procs k q)"
  shows "job_ok S' k'"
proof (rule job_okI)
  note sub = subsetD [OF assms(2)]
  show "session (procs k' p) = session (procs k' q)" if "p \<in> S'" "q \<in> S'" "pgrp (procs k' p) = pgrp (procs k' q)" for p q
    using job_okD(1) [OF assms(1) sub [OF that(1)] sub [OF that(2)]] that by (simp add: assms(3,4))
  show "session (procs k' q) = session (procs k' p)" if "p \<in> S'" "q \<in> S'" "pgrp (procs k' q) = ppid (procs k' p)" for p q
    using job_okD(2) [OF assms(1) sub [OF that(1)] sub [OF that(2)]] that by (simp add: assms(3-5))
  show "session (procs k' p) = ppid (procs k' p) \<and> pgrp (procs k' p) = ppid (procs k' p)"
    if "p \<in> S'" "leader (procs k' p)" for p
    using job_okD(3,4) [OF assms(1) sub [OF that(1)]] that by (simp add: assms(3-6))
qed

text \<open>A task that moves to a group of its own session, or to a group that has its own pid.\<close>

lemma job_ok_move:
  assumes J: "job_ok S k" and p: "p \<in> S" "\<not> leader (procs k p)" and i: "inj_on (\<lambda>q. ppid (procs k q)) S"
    and g: "g = ppid (procs k p) \<or> (\<exists>q\<in>S. pgrp (procs k q) = g \<and> session (procs k q) = session (procs k p))"
  shows "job_ok S (upd p (\<lambda>t. t\<lparr>pgrp := g\<rparr>) k)"
proof -
  let ?k = "upd p (\<lambda>t. t\<lparr>pgrp := g\<rparr>) k"
  have a: "session (procs k q) = session (procs k p)" if q: "q \<in> S" "pgrp (procs k q) = g" for q
    using g
  proof
    assume "g = ppid (procs k p)"
    then show ?thesis using job_okD(2) [OF J p(1) q(1)] q(2) by simp
  next
    assume "\<exists>r\<in>S. pgrp (procs k r) = g \<and> session (procs k r) = session (procs k p)"
    then obtain r where "r \<in> S" "pgrp (procs k r) = g" "session (procs k r) = session (procs k p)" by blast
    then show ?thesis using job_okD(1) [OF J q(1), of r] q(2) by simp
  qed
  have b: "session (procs k q) = session (procs k p)" if q: "q \<in> S" "ppid (procs k q) = g" for q
    using g
  proof
    assume "g = ppid (procs k p)"
    then show ?thesis using inj_onD [OF i _ q(1) p(1)] q(2) by simp
  next
    assume "\<exists>r\<in>S. pgrp (procs k r) = g \<and> session (procs k r) = session (procs k p)"
    then obtain r where "r \<in> S" "pgrp (procs k r) = g" "session (procs k r) = session (procs k p)" by blast
    then show ?thesis using job_okD(2) [OF J q(1), of r] q(2) by simp
  qed
  show ?thesis
  proof (rule job_okI)
    show "session (procs ?k x) = session (procs ?k y)" if "x \<in> S" "y \<in> S" "pgrp (procs ?k x) = pgrp (procs ?k y)" for x y
      using that a [of x] a [of y] job_okD(1) [OF J that(1,2)] by (auto simp: upd_procs split: if_splits)
    show "session (procs ?k y) = session (procs ?k x)" if "x \<in> S" "y \<in> S" "pgrp (procs ?k y) = ppid (procs ?k x)" for x y
      using that b [of x] job_okD(2) [OF J that(1,2)] by (auto simp: upd_procs split: if_splits)
    show "session (procs ?k x) = ppid (procs ?k x) \<and> pgrp (procs ?k x) = ppid (procs ?k x)"
      if "x \<in> S" "leader (procs ?k x)" for x
      using that p(2) job_okD(3,4) [OF J that(1)] by (auto simp: upd_procs split: if_splits)
  qed
qed

lemma setpgid_allowed_session:
  "setpgid_allowed p k = 0 \<Longrightarrow> session (procs k p) = session (procs k (current k))"
  by (auto simp: setpgid_allowed_def Let_def split: if_splits)

lemma find_task_iff:
  "hash_holds (\<lambda>q. ppid (procs k q)) S (pidhash k) \<Longrightarrow> find_task x k = Some p \<longleftrightarrow> p \<in> S \<and> ppid (procs k p) = x"
  by (simp add: find_task_def find_task_by_pid_iff)

text \<open>What a call of \<open>setpgid\<close> does: nothing, or a move as above.\<close>

lemma sys_setpgid_cases:
  assumes "sys_setpgid pid pgid k = Some (k', r)" "ring_is xs k" "hash_holds (\<lambda>q. ppid (procs k q)) (set xs) (pidhash k)"
  obtains "k' = k" "r \<noteq> 0"
  | p g where "k' = upd p (\<lambda>t. t\<lparr>pgrp := g\<rparr>) k" "r = 0" "p \<in> set xs" "\<not> leader (procs k p)" "0 \<le> g"
      "p = current k \<or> p_pptr (procs k p) = current k \<or> p_opptr (procs k p) = current k"
      "session (procs k p) = session (procs k (current k))"
      "g = ppid (procs k p) \<or> (\<exists>q\<in>set xs. pgrp (procs k q) = g \<and> session (procs k q) = session (procs k p))"
proof -
  let ?pid = "if pid = 0 then ppid (procs k (current k)) else pid"
  let ?g = "if pgid = 0 then ?pid else pgid"
  consider "k' = k \<and> r \<noteq> 0" | p where "find_task ?pid k = Some p" "setpgid_allowed p k = 0" "\<not> leader (procs k p)"
      "0 \<le> ?g" "k' = upd p (\<lambda>t. t\<lparr>pgrp := ?g\<rparr>) k" "r = 0"
      "?g = ?pid \<or> (\<exists>q\<in>set xs. pgrp (procs k q) = ?g \<and> session (procs k q) = session (procs k (current k)))"
  proof (cases "?g < 0 \<or> find_task ?pid k = None \<or> (\<exists>p. find_task ?pid k = Some p \<and> (setpgid_allowed p k \<noteq> 0 \<or> leader (procs k p)))")
    case True
    then show ?thesis using assms(1) that(1) by (auto simp: sys_setpgid_def Let_def split: if_splits)
  next
    case False
    then obtain p where p: "find_task ?pid k = Some p" "setpgid_allowed p k = 0" "\<not> leader (procs k p)" "0 \<le> ?g"
      by (cases "find_task ?pid k") auto
    then show ?thesis
      using assms(1) for_each_task_list [OF assms(2)] that(1) that(2) [OF p]
      by (simp add: sys_setpgid_def list_ex_iff split: if_splits) (simp_all add: Let_def list_ex_iff split: if_splits)
  qed
  then show thesis
  proof cases
    case 1
    then show thesis using that(1) by blast
  next
    case (2 p)
    have "p \<in> set xs" "ppid (procs k p) = ?pid" using find_task_iff [OF assms(3)] 2(1) by blast+
    moreover have "p = current k \<or> p_pptr (procs k p) = current k \<or> p_opptr (procs k p) = current k"
      using 2(2) by (auto simp: setpgid_allowed_def Let_def split: if_splits)
    moreover note setpgid_allowed_session [OF 2(2)]
    ultimately show thesis using that(2) [OF 2(5,6) _ 2(3,4)] 2(7) by simp
  qed
qed

lemma sys_setsid_cases:
  assumes "sys_setsid k = Some (k', r)" "ring_is xs k"
  obtains "k' = k" "r = - EPERM" "\<exists>q\<in>set xs. pgrp (procs k q) = ppid (procs k (current k))"
  | f where "k' = upd (current k) f k" "r = ppid (procs k (current k))"
      "\<And>t. f t = t\<lparr>leader := True, pgrp := ppid t, session := ppid t, tty := False, tty_old_pgrp := 0\<rparr>"
      "\<forall>q\<in>set xs. pgrp (procs k q) \<noteq> ppid (procs k (current k))"
proof -
  define f :: "ptask \<Rightarrow> ptask" where
    "f = (\<lambda>t. t\<lparr>leader := True, pgrp := ppid t, session := ppid t, tty := False, tty_old_pgrp := 0\<rparr>)"
  show thesis
  proof (cases "\<exists>q\<in>set xs. pgrp (procs k q) = ppid (procs k (current k))")
    case True
    then show thesis using assms(1) for_each_task_list [OF assms(2)] that(1)
      by (auto simp: sys_setsid_def Let_def list_ex_iff)
  next
    case False
    then have "k' = upd (current k) f k" "r = ppid (procs k (current k))"
      using assms(1) for_each_task_list [OF assms(2)]
      by (auto simp: sys_setsid_def Let_def list_ex_iff upd_def f_def)
    with False show thesis using that(2) [of f] by (simp add: f_def)
  qed
qed

lemma job_ok_new_session:
  assumes J: "job_ok S k" and i: "inj_on (\<lambda>q. ppid (procs k q)) S" and c: "c \<in> S"
    and n: "\<forall>q\<in>S. pgrp (procs k q) \<noteq> ppid (procs k c)"
    and f: "\<And>t. f t = t\<lparr>leader := True, pgrp := ppid t, session := ppid t, tty := False, tty_old_pgrp := 0\<rparr>"
  shows "job_ok S (upd c f k)"
proof -
  have i': "p \<in> S \<Longrightarrow> ppid (procs k p) = ppid (procs k c) \<Longrightarrow> p = c" for p using inj_onD [OF i _ _ c] by simp
  show ?thesis
  proof (rule job_okI)
    show "session (procs (upd c f k) x) = session (procs (upd c f k) y)"
      if "x \<in> S" "y \<in> S" "pgrp (procs (upd c f k) x) = pgrp (procs (upd c f k) y)" for x y
      using that n job_okD(1) [OF J that(1,2)] by (auto simp: upd_procs f split: if_splits)
    show "session (procs (upd c f k) y) = session (procs (upd c f k) x)"
      if "x \<in> S" "y \<in> S" "pgrp (procs (upd c f k) y) = ppid (procs (upd c f k) x)" for x y
      using that n i' [of x] job_okD(2) [OF J that(1,2)] by (auto simp: upd_procs f split: if_splits)
    show "session (procs (upd c f k) x) = ppid (procs (upd c f k) x) \<and> pgrp (procs (upd c f k) x) = ppid (procs (upd c f k) x)"
      if "x \<in> S" "leader (procs (upd c f k) x)" for x
      using that job_okD(3,4) [OF J that(1)] by (auto simp: upd_procs f split: if_splits)
  qed
qed

end
