(* ===== verification/Fork_Pid.thy ===== *)
theory Fork_Pid
  imports Sys_Session
begin

text \<open>
  HW1, the choice of a process id (\<open>get_pid\<close> of \<^verbatim>\<open>HW1/kernel/fork.c\<close>; the file is the same in \<^verbatim>\<open>HW2\<close>). The static
  \<open>next_safe\<close> and the global \<open>last_pid\<close> are fields of the kernel state. The search restarts at every conflict,
  so it is a partial function; the lemmas show when it ends, that the id it returns is used by no task as
  pid, group, thread group or session, and that the cache \<open>next_safe\<close> stays right between calls.
\<close>

definition PID_MAX :: pid where "PID_MAX = 0x8000"

definition pid_wraps :: "pid \<Rightarrow> bool" where "pid_wraps x \<longleftrightarrow> x AND 0xffff8000 \<noteq> 0"

definition uses_id :: "ptask \<Rightarrow> pid \<Rightarrow> bool" where
  "uses_id t x \<longleftrightarrow> ppid t = x \<or> pgrp t = x \<or> tgid t = x \<or> session t = x"

definition lower_safe :: "pid \<Rightarrow> pid \<Rightarrow> pid \<Rightarrow> pid" where
  "lower_safe cand x safe = (if x > cand \<and> safe > x then x else safe)"

definition task_safe :: "pid \<Rightarrow> ptask \<Rightarrow> pid \<Rightarrow> pid" where
  "task_safe cand t safe =
     lower_safe cand (session t) (lower_safe cand (tgid t) (lower_safe cand (pgrp t) (lower_safe cand (ppid t) safe)))"

text \<open>The loop over the tasks: it stops at a conflict (\<open>True\<close>) or at the end of the list.\<close>

fun pid_scan :: "kern \<Rightarrow> pid \<Rightarrow> pid \<Rightarrow> tid list \<Rightarrow> bool \<times> pid" where
  "pid_scan k cand safe [] = (False, safe)"
| "pid_scan k cand safe (p # ps) =
     (let t = procs k p in
      if uses_id t cand then (True, safe)
      else pid_scan k cand (task_safe cand t safe) ps)"

text \<open>The next candidate after a conflict, with the new \<open>next_safe\<close>.\<close>

definition pid_next :: "pid \<Rightarrow> pid \<Rightarrow> pid \<times> pid" where
  "pid_next cand safe =
     (if cand + 1 \<ge> safe then (if pid_wraps (cand + 1) then 300 else cand + 1, PID_MAX) else (cand + 1, safe))"

text \<open>\<open>repeat\<close>: the result is \<open>last_pid\<close>, \<open>next_safe\<close> and whether there was an id.\<close>

partial_function (option) pid_search :: "kern \<Rightarrow> tid list \<Rightarrow> pid \<Rightarrow> pid \<Rightarrow> pid \<Rightarrow> (pid \<times> pid \<times> bool) option" where
  "pid_search k xs beginpid cand safe =
     (let r = pid_scan k cand safe xs in
      if \<not> fst r then Some (cand, snd r, True)
      else
        let n = pid_next cand (snd r) in
        if fst n = beginpid then Some (fst n, snd n, False) else pid_search k xs beginpid (fst n) (snd n))"

definition get_pid :: "bool \<Rightarrow> kern \<Rightarrow> (kern \<times> pid) option" where
  "get_pid clone_pid k =
     (if clone_pid then Some (k, ppid (procs k (current k)))
      else
        let beginpid = last_pid k; cand = last_pid k + 1 in
        if pid_wraps cand \<or> cand \<ge> next_safe k then
          do {
            xs \<leftarrow> for_each_task k;
            (l, s, found) \<leftarrow> pid_search k xs beginpid (if pid_wraps cand then 300 else cand) PID_MAX;
            Some (k\<lparr>last_pid := l, next_safe := s\<rparr>, if found then l else 0)
          }
        else Some (k\<lparr>last_pid := cand\<rparr>, cand))"

subsection \<open>When the id wraps\<close>

lemma pid_wraps_iff:
  assumes "0 \<le> x" "x \<le> PID_MAX"
  shows "pid_wraps x \<longleftrightarrow> x = PID_MAX"
proof (cases "x = PID_MAX")
  case True
  then show ?thesis by (simp add: pid_wraps_def PID_MAX_def)
next
  case False
  then have x: "take_bit 15 x = x" using assms by (simp add: take_bit_int_eq_self PID_MAX_def)
  have "x AND 0xffff8000 = x AND (mask 15 AND 0xffff8000)"
    by (subst x [symmetric]) (simp only: take_bit_eq_mask and.assoc)
  also have "mask 15 AND (0xffff8000 :: int) = 0" by (simp add: mask_eq_exp_minus_1)
  finally show ?thesis using False by (simp add: pid_wraps_def)
qed

subsection \<open>One scan\<close>

text \<open>No id of a task of \<open>S\<close> lies strictly between \<open>cand\<close> and \<open>safe\<close>.\<close>

definition gap_free :: "tid set \<Rightarrow> kern \<Rightarrow> pid \<Rightarrow> pid \<Rightarrow> bool" where
  "gap_free S k cand safe \<longleftrightarrow> (\<forall>p\<in>S. \<forall>x. cand < x \<and> x < safe \<longrightarrow> \<not> uses_id (procs k p) x)"

lemma lower_safe_le: "lower_safe cand x safe \<le> safe" "cand < safe \<Longrightarrow> cand < lower_safe cand x safe"
  by (simp_all add: lower_safe_def)

lemma task_safe_le: "task_safe cand t safe \<le> safe"
  unfolding task_safe_def by (meson lower_safe_le(1) order_trans)

lemma task_safe_gt: "cand < safe \<Longrightarrow> cand < task_safe cand t safe"
  unfolding task_safe_def by (intro lower_safe_le(2))

lemma lower_safe_below: "cand < y \<Longrightarrow> y < lower_safe cand x safe \<Longrightarrow> y \<noteq> x \<and> y < safe"
  by (auto simp: lower_safe_def split: if_splits)

lemma task_safe_below:
  assumes "cand < y" "y < task_safe cand t safe"
  shows "\<not> uses_id t y"
proof -
  note s = lower_safe_below [OF assms(1) assms(2) [unfolded task_safe_def]]
  note g = lower_safe_below [OF assms(1) conjunct2 [OF s]]
  note r = lower_safe_below [OF assms(1) conjunct2 [OF g]]
  note p = lower_safe_below [OF assms(1) conjunct2 [OF r]]
  show ?thesis using s g r p by (simp add: uses_id_def)
qed

lemma pid_scan_result:
  assumes "pid_scan k cand safe ps = (b, safe')"
  shows "safe' \<le> safe" and "cand < safe \<Longrightarrow> cand < safe'"
    and "b \<longleftrightarrow> (\<exists>p\<in>set ps. uses_id (procs k p) cand)"
    and "\<not> b \<Longrightarrow> gap_free (set ps) k cand safe'"
  using assms
proof (induction ps arbitrary: safe)
  case Nil
  { case 1 then show ?case by simp }
  { case 2 then show ?case by simp }
  { case 3 then show ?case by simp }
  { case 4 then show ?case by (simp add: gap_free_def) }
next
  case (Cons p ps)
  let ?t = "procs k p"
  { case 1 then show ?case
      by (auto simp: Let_def split: if_splits intro: order_trans [OF Cons.IH(1) task_safe_le]) }
  { case 2 then show ?case
      by (auto simp: Let_def split: if_splits intro: Cons.IH(2) task_safe_gt) }
  { case (3 safe)
    let ?s = "task_safe cand ?t safe"
    show ?case
    proof (cases "uses_id ?t cand")
      case True
      with 3 show ?thesis by (simp add: Let_def)
    next
      case False
      with 3 have "pid_scan k cand ?s ps = (b, safe')" by (simp add: Let_def)
      from Cons.IH(3) [OF this] False show ?thesis by simp
    qed }
  { case (4 safe)
    let ?s = "task_safe cand ?t safe"
    from 4 have r: "pid_scan k cand ?s ps = (b, safe')"
      by (auto simp: Let_def split: if_splits)
    have l: "safe' \<le> ?s" by (rule Cons.IH(1) [OF r])
    have "\<not> uses_id ?t x" if x: "cand < x" "x < safe'" for x
      by (rule task_safe_below [OF x(1), where safe = safe]) (use x(2) l in simp)
    then show ?case using Cons.IH(4) [OF 4(1) r] by (simp add: gap_free_def)
  }
qed

subsection \<open>The search\<close>

definition used_id :: "tid set \<Rightarrow> kern \<Rightarrow> pid \<Rightarrow> bool" where
  "used_id S k x \<longleftrightarrow> (\<exists>p\<in>S. uses_id (procs k p) x)"

definition succ_pid :: "pid \<Rightarrow> pid" where
  "succ_pid x = (if x + 1 = PID_MAX then 300 else x + 1)"

lemma pid_next_result:
  assumes "0 \<le> cand" "cand < safe" "safe \<le> PID_MAX"
  shows "fst (pid_next cand safe) = succ_pid cand" "succ_pid cand < snd (pid_next cand safe)"
    "snd (pid_next cand safe) \<le> PID_MAX" "0 < succ_pid cand" "300 \<le> cand \<Longrightarrow> 300 \<le> succ_pid cand"
  using assms pid_wraps_iff [of "cand + 1"] by (auto simp: pid_next_def succ_pid_def PID_MAX_def)

text \<open>If the search ends with an id, no task uses it, and no task uses an id up to the new \<open>next_safe\<close>.\<close>

lemma pid_search_fresh:
  assumes "pid_search k xs beginpid cand safe = Some (l, s, found)" "0 < cand" "cand < safe" "safe \<le> PID_MAX"
  shows "0 < l \<and> l < s \<and> s \<le> PID_MAX \<and> (found \<longrightarrow> \<not> used_id (set xs) k l \<and> gap_free (set xs) k l s)"
proof -
  have "0 < cand \<and> cand < safe \<and> safe \<le> PID_MAX \<longrightarrow>
      (case y of (l, s, found) \<Rightarrow>
        0 < l \<and> l < s \<and> s \<le> PID_MAX \<and> (found \<longrightarrow> \<not> used_id (set xs) k l \<and> gap_free (set xs) k l s))"
    if "pid_search k xs beginpid cand safe = Some y" for y
  proof (rule pid_search.raw_induct [where P = "\<lambda>k xs b cand safe y. 0 < cand \<and> cand < safe \<and> safe \<le> PID_MAX \<longrightarrow>
      (case y of (l, s, found) \<Rightarrow>
        0 < l \<and> l < s \<and> s \<le> PID_MAX \<and> (found \<longrightarrow> \<not> used_id (set xs) k l \<and> gap_free (set xs) k l s))", OF _ that])
    fix rec :: "kern \<Rightarrow> tid list \<Rightarrow> pid \<Rightarrow> pid \<Rightarrow> pid \<Rightarrow> (pid \<times> pid \<times> bool) option"
    fix k xs beginpid cand safe y
    assume IH: "\<And>k xs b cand safe y. rec k xs b cand safe = Some y \<Longrightarrow> 0 < cand \<and> cand < safe \<and> safe \<le> PID_MAX \<longrightarrow>
      (case y of (l, s, found) \<Rightarrow>
        0 < l \<and> l < s \<and> s \<le> PID_MAX \<and> (found \<longrightarrow> \<not> used_id (set xs) k l \<and> gap_free (set xs) k l s))"
      and ret: "(let r = pid_scan k cand safe xs in
        if \<not> fst r then Some (cand, snd r, True)
        else let n = pid_next cand (snd r) in
          if fst n = beginpid then Some (fst n, snd n, False) else rec k xs beginpid (fst n) (snd n)) = Some y"
    show "0 < cand \<and> cand < safe \<and> safe \<le> PID_MAX \<longrightarrow>
      (case y of (l, s, found) \<Rightarrow>
        0 < l \<and> l < s \<and> s \<le> PID_MAX \<and> (found \<longrightarrow> \<not> used_id (set xs) k l \<and> gap_free (set xs) k l s))"
    proof
      assume c: "0 < cand \<and> cand < safe \<and> safe \<le> PID_MAX"
      obtain b s1 where r: "pid_scan k cand safe xs = (b, s1)" by fastforce
      note sc = pid_scan_result [OF r]
      have s1: "cand < s1" "s1 \<le> PID_MAX" using sc(1,2) c by auto
      note n = pid_next_result [of cand s1] 
      show "case y of (l, s, found) \<Rightarrow>
        0 < l \<and> l < s \<and> s \<le> PID_MAX \<and> (found \<longrightarrow> \<not> used_id (set xs) k l \<and> gap_free (set xs) k l s)"
      proof (cases b)
        case False
        then show ?thesis using ret r c s1 sc(3,4) by (auto simp: used_id_def)
      next
        case True
        have m: "0 < succ_pid cand \<and> succ_pid cand < snd (pid_next cand s1) \<and> snd (pid_next cand s1) \<le> PID_MAX"
          "fst (pid_next cand s1) = succ_pid cand"
          using n c s1 by auto
        show ?thesis
        proof (cases "succ_pid cand = beginpid")
          case True
          then show ?thesis using ret r \<open>b\<close> m by auto
        next
          case False
          then have "rec k xs beginpid (succ_pid cand) (snd (pid_next cand s1)) = Some y"
            using ret r \<open>b\<close> m(2) by simp
          from IH [OF this] m(1) show ?thesis by simp
        qed
      qed
    qed
  qed
  with assms show ?thesis by blast
qed

text \<open>How many steps it is from a candidate to \<open>T\<close>, when the ids after the last one start at 300 again.\<close>

definition pid_dist :: "pid \<Rightarrow> pid \<Rightarrow> int" where
  "pid_dist T x = (if x \<le> T then T - x else PID_MAX - x + (T - 300))"

lemma pid_dist_succ:
  "x \<noteq> T \<Longrightarrow> 300 \<le> T \<Longrightarrow> T < PID_MAX \<Longrightarrow> x < PID_MAX \<Longrightarrow> pid_dist T (succ_pid x) = pid_dist T x - 1"
  by (auto simp: pid_dist_def succ_pid_def PID_MAX_def)

lemma pid_dist_pos: "x \<noteq> T \<Longrightarrow> 300 \<le> T \<Longrightarrow> x < PID_MAX \<Longrightarrow> 0 < pid_dist T x"
  by (auto simp: pid_dist_def)

lemma pid_dist_inj:
  "pid_dist T x = pid_dist T y \<Longrightarrow> 300 \<le> x \<Longrightarrow> 300 \<le> y \<Longrightarrow> x < PID_MAX \<Longrightarrow> y < PID_MAX \<Longrightarrow> x = y"
  by (auto simp: pid_dist_def split: if_splits)

lemma pid_search_returns:
  assumes "300 \<le> T" "T < PID_MAX" "(T = beginpid \<and> cand \<noteq> T) \<or> \<not> used_id (set xs) k T"
    "0 < cand" "cand < safe" "safe \<le> PID_MAX"
  shows "\<exists>l s found. pid_search k xs beginpid cand safe = Some (l, s, found) \<and>
    (beginpid < 300 \<and> beginpid < cand \<longrightarrow> found) \<and>
    (\<not> found \<and> T = beginpid \<and> 300 \<le> cand \<longrightarrow>
      (\<forall>x. 300 \<le> x \<and> x < PID_MAX \<and> x \<noteq> T \<and> pid_dist T x \<le> pid_dist T cand \<longrightarrow> used_id (set xs) k x))"
  using assms(3-6)
proof (induction "nat (pid_dist T cand)" arbitrary: cand safe rule: less_induct)
  case less
  obtain b s1 where r: "pid_scan k cand safe xs = (b, s1)" by fastforce
  note sc = pid_scan_result [OF r]
  have s1: "cand < s1" "s1 \<le> PID_MAX" using sc(1,2) less.prems by auto
  have m: "fst (pid_next cand s1) = succ_pid cand" "succ_pid cand < snd (pid_next cand s1)"
    "snd (pid_next cand s1) \<le> PID_MAX" "0 < succ_pid cand" "300 \<le> cand \<Longrightarrow> 300 \<le> succ_pid cand"
    using pid_next_result [of cand s1] less.prems s1 by auto
  show ?case
  proof (cases b)
    case False
    then show ?thesis using r by (subst pid_search.simps) auto
  next
    case True
    have u: "used_id (set xs) k cand" using sc(3) True by (simp add: used_id_def)
    then have cT: "cand \<noteq> T" using less.prems(1) by auto
    have cm: "cand < PID_MAX" using s1 by simp
    note d = pid_dist_succ [OF cT assms(1,2) cm] pid_dist_pos [OF cT assms(1) cm]
    have last: "used_id (set xs) k x"
      if "300 \<le> cand" "300 \<le> x" "x < PID_MAX" "x \<noteq> T" "pid_dist T x \<le> pid_dist T cand" "\<not> pid_dist T x \<le> pid_dist T (succ_pid cand)" for x
      using pid_dist_inj [of T x cand] that d(1) u cm by simp
    have succ: "beginpid < 300 \<Longrightarrow> beginpid < cand \<Longrightarrow> beginpid < succ_pid cand" by (simp add: succ_pid_def)
    show ?thesis
    proof (cases "succ_pid cand = beginpid")
      case True
      have "used_id (set xs) k x"
        if "T = beginpid" "300 \<le> cand" "300 \<le> x" "x < PID_MAX" "x \<noteq> T" "pid_dist T x \<le> pid_dist T cand" for x
      proof (rule last [OF that(2-6)])
        have "0 < pid_dist T x" using pid_dist_pos that(4,5) assms(1) by blast
        moreover have "pid_dist T (succ_pid cand) = 0" using True that(1) by (simp add: pid_dist_def)
        ultimately show "\<not> pid_dist T x \<le> pid_dist T (succ_pid cand)" by simp
      qed
      then show ?thesis using r \<open>b\<close> m(1) True succ by (subst pid_search.simps) auto
    next
      case False
      have "\<exists>l s found. pid_search k xs beginpid (succ_pid cand) (snd (pid_next cand s1)) = Some (l, s, found) \<and>
        (beginpid < 300 \<and> beginpid < succ_pid cand \<longrightarrow> found) \<and>
        (\<not> found \<and> T = beginpid \<and> 300 \<le> succ_pid cand \<longrightarrow>
          (\<forall>x. 300 \<le> x \<and> x < PID_MAX \<and> x \<noteq> T \<and> pid_dist T x \<le> pid_dist T (succ_pid cand) \<longrightarrow> used_id (set xs) k x))"
        using less.prems(1) False m d by (intro less.hyps) auto
      then show ?thesis
        using r \<open>b\<close> m(1,5) False last succ by (subst pid_search.simps) (simp, blast)
    qed
  qed
qed

subsection \<open>The call\<close>

text \<open>
  What the two variables mean between calls: \<open>last_pid\<close> is an id, and no task uses an id between it and
  \<open>next_safe\<close>.
\<close>

definition pids_cached :: "tid set \<Rightarrow> kern \<Rightarrow> bool" where
  "pids_cached S k \<longleftrightarrow> 0 \<le> last_pid k \<and> last_pid k < PID_MAX \<and> next_safe k \<le> PID_MAX \<and>
     gap_free S k (last_pid k) (next_safe k)"

lemma get_pid_globals:
  assumes "get_pid b k = Some (k', x)"
  shows "k' = k\<lparr>last_pid := last_pid k', next_safe := next_safe k'\<rparr>"
  using assms by (auto simp: get_pid_def Let_def split: if_splits bind_splits prod.splits)

lemma get_pid_result:
  assumes g: "get_pid False k = Some (k', x)" and R: "ring_is xs k" and C: "pids_cached (set xs) k"
  shows "x \<noteq> 0 \<Longrightarrow> 0 < x \<and> x < PID_MAX \<and> \<not> used_id (set xs) k x \<and> last_pid k' = x \<and> pids_cached (set xs) k'"
    and "x = 0 \<Longrightarrow> 0 < last_pid k' \<and> last_pid k' < PID_MAX \<and> next_safe k' \<le> PID_MAX"
proof -
  let ?n = "last_pid k + 1"
  have n: "0 < ?n" "?n \<le> PID_MAX" and s: "next_safe k \<le> PID_MAX" and gap: "gap_free (set xs) k (last_pid k) (next_safe k)"
    using C by (auto simp: pids_cached_def)
  have w: "pid_wraps ?n \<longleftrightarrow> ?n = PID_MAX" using n by (intro pid_wraps_iff) auto
  have all: "(x \<noteq> 0 \<longrightarrow> 0 < x \<and> x < PID_MAX \<and> \<not> used_id (set xs) k x \<and> last_pid k' = x \<and> pids_cached (set xs) k') \<and>
      (x = 0 \<longrightarrow> 0 < last_pid k' \<and> last_pid k' < PID_MAX \<and> next_safe k' \<le> PID_MAX)"
  proof (cases "pid_wraps ?n \<or> ?n \<ge> next_safe k")
    case True
    let ?c = "if pid_wraps ?n then 300 else ?n"
    obtain l t f where r: "pid_search k xs (last_pid k) ?c PID_MAX = Some (l, t, f)"
      and k': "k' = k\<lparr>last_pid := l, next_safe := t\<rparr>" "x = (if f then l else 0)"
      using g for_each_task_list [OF R] True
      by (cases "pid_search k xs (last_pid k) ?c PID_MAX") (auto simp: get_pid_def Let_def)
    have "0 < ?c" "?c < PID_MAX" using n w by (auto simp: PID_MAX_def)
    from pid_search_fresh [OF r this order_refl] k' show ?thesis
      by (auto simp: pids_cached_def gap_free_def)
  next
    case False
    then have k': "k' = k\<lparr>last_pid := ?n\<rparr>" "x = ?n" using g by (auto simp: get_pid_def Let_def)
    moreover have "\<not> used_id (set xs) k ?n" "gap_free (set xs) k ?n (next_safe k)"
      using gap False by (auto simp: gap_free_def used_id_def)
    ultimately show ?thesis using False n s w by (auto simp: pids_cached_def gap_free_def)
  qed
  show "x \<noteq> 0 \<Longrightarrow> 0 < x \<and> x < PID_MAX \<and> \<not> used_id (set xs) k x \<and> last_pid k' = x \<and> pids_cached (set xs) k'"
    and "x = 0 \<Longrightarrow> 0 < last_pid k' \<and> last_pid k' < PID_MAX \<and> next_safe k' \<le> PID_MAX"
    using all by blast+
qed

lemma get_pid_returns:
  assumes R: "ring_is xs k" and C: "pids_cached (set xs) k"
    and T: "300 \<le> T" "T < PID_MAX" "T = last_pid k \<or> \<not> used_id (set xs) k T"
  shows "\<exists>k' x. get_pid False k = Some (k', x) \<and> (x = 0 \<longrightarrow> 300 \<le> last_pid k \<and>
    (\<forall>y. 300 \<le> y \<and> y < PID_MAX \<and> y \<noteq> last_pid k \<longrightarrow> used_id (set xs) k y))"
proof -
  let ?n = "last_pid k + 1"
  let ?c = "if pid_wraps ?n then 300 else ?n"
  have n: "0 < ?n" "?n \<le> PID_MAX" using C by (auto simp: pids_cached_def)
  have w: "pid_wraps ?n \<longleftrightarrow> ?n = PID_MAX" using n by (intro pid_wraps_iff) auto
  have c: "0 < ?c" "?c < PID_MAX" "?c \<noteq> last_pid k" using n w by (auto simp: PID_MAX_def)
  show ?thesis
  proof (cases "pid_wraps ?n \<or> ?n \<ge> next_safe k")
    case True
    let ?S = "if 300 \<le> last_pid k then last_pid k else T"
    have S: "300 \<le> ?S" "?S < PID_MAX" "(?S = last_pid k \<and> ?c \<noteq> ?S) \<or> \<not> used_id (set xs) k ?S"
      using T c C by (auto simp: pids_cached_def)
    obtain l t f where r: "pid_search k xs (last_pid k) ?c PID_MAX = Some (l, t, f)"
      and v: "last_pid k < 300 \<and> last_pid k < ?c \<longrightarrow> f"
      and u: "\<not> f \<and> ?S = last_pid k \<and> 300 \<le> ?c \<longrightarrow>
        (\<forall>y. 300 \<le> y \<and> y < PID_MAX \<and> y \<noteq> ?S \<and> pid_dist ?S y \<le> pid_dist ?S ?c \<longrightarrow> used_id (set xs) k y)"
      using pid_search_returns [OF S c(1,2) order_refl] by blast
    have "pid_dist (last_pid k) y \<le> pid_dist (last_pid k) ?c"
      if "300 \<le> y" "y < PID_MAX" "y \<noteq> last_pid k" "300 \<le> last_pid k" for y
      using that n w by (auto simp: pid_dist_def)
    moreover have "300 \<le> last_pid k \<Longrightarrow> 300 \<le> ?c" by simp
    ultimately have "\<not> f \<Longrightarrow> 300 \<le> last_pid k \<Longrightarrow>
        \<forall>y. 300 \<le> y \<and> y < PID_MAX \<and> y \<noteq> last_pid k \<longrightarrow> used_id (set xs) k y"
      using u by auto
    moreover have "\<not> f \<Longrightarrow> 300 \<le> last_pid k" using v n w by (auto simp: PID_MAX_def split: if_splits)
    moreover have "f \<Longrightarrow> l \<noteq> 0" using pid_search_fresh [OF r c(1,2) order_refl] by simp
    ultimately show ?thesis
      using r True for_each_task_list [OF R] by (auto simp: get_pid_def Let_def)
  next
    case False
    then show ?thesis using n by (auto simp: get_pid_def Let_def)
  qed
qed

text \<open>With few enough tasks, four ids each, one of the ids from 300 on is free.\<close>

lemma free_id_exists:
  assumes "4 * length xs < 32467"
  obtains y where "300 \<le> y" "y < PID_MAX" "y \<noteq> z" "\<not> used_id (set xs) k y"
proof -
  let ?U = "\<Union>p\<in>set xs. {ppid (procs k p), pgrp (procs k p), tgid (procs k p), session (procs k p)}"
  have card4: "card {a, b, c, d} \<le> 4" for a b c d :: pid using card_length [of "[a, b, c, d]"] by simp
  have "card ?U \<le> (\<Sum>p\<in>set xs. card {ppid (procs k p), pgrp (procs k p), tgid (procs k p), session (procs k p)})"
    by (rule card_UN_le) simp
  also have "\<dots> \<le> (\<Sum>p\<in>set xs. 4)" by (rule sum_mono) (rule card4)
  also have "\<dots> \<le> 4 * length xs" using card_length [of xs] by simp
  finally have "card (insert z ?U) < 32468" using assms card_insert_le [of ?U z] by (simp add: card_insert_if)
  moreover have "card {300..<PID_MAX} = 32468" by (simp only: card_atLeastLessThan_int PID_MAX_def)
  moreover have "finite (insert z ?U)" by simp
  ultimately have "\<not> {300..<PID_MAX} \<subseteq> insert z ?U" using card_mono [of "insert z ?U" "{300..<PID_MAX}"] by linarith
  then obtain y where "y \<in> {300..<PID_MAX}" "y \<notin> insert z ?U" by blast
  then show thesis using that [of y] by (auto simp: used_id_def uses_id_def)
qed

end
