(* ===== verification/Proc_Fork.thy ===== *)
theory Proc_Fork
  imports Proc_Exit Proc_Res Fork_Pid
begin

text \<open>
  HW1, the creation of a process (\<open>do_fork\<close> of \<^verbatim>\<open>HW1/kernel/fork.c\<close>) and the end of one around \<open>exit_notify\<close>
  (\<open>do_exit\<close> and \<open>daemonize\<close> of \<^verbatim>\<open>HW1/kernel/exit.c\<close>). The state is the process table with the objects the
  processes hold. A call of \<open>do_fork\<close> ends with a state and the value it returns, or with a kernel bug; it is
  partial because of the search for a pid. The division of the time slice between caller and child is part of the
  scheduler's model (\<^verbatim>\<open>do_fork_sched\<close>); what the caller has of it at the check is an input here, as the check ends in a
  \<^verbatim>\<open>BUG\<close> when nothing is left. With \<open>CLONE_VFORK\<close> the call ends here with the caller asleep, waiting for the child; the
  value is the one it returns when it is woken. The restriction list that the child starts with is part of \<^verbatim>\<open>Restrict\<close>.
\<close>

record fstate =
  kn :: kern
  rs :: res

record fork_env = ext +
  new_task :: "tid option"
  rlim_nproc :: u32
  cap_admin :: bool
  cap_resource :: bool
  SIGSTOP :: int
  vfork_completion :: nat
  caller_slice :: u32

definition ST_UNINTERRUPTIBLE :: int where "ST_UNINTERRUPTIBLE = 2"
definition CLONE_VM :: u32 where "CLONE_VM = 0x100"
definition CLONE_FS :: u32 where "CLONE_FS = 0x200"
definition CLONE_PID :: u32 where "CLONE_PID = 0x1000"
definition CLONE_PTRACE :: u32 where "CLONE_PTRACE = 0x2000"
definition CLONE_VFORK :: u32 where "CLONE_VFORK = 0x4000"
definition CLONE_PARENT :: u32 where "CLONE_PARENT = 0x8000"
definition CLONE_THREAD :: u32 where "CLONE_THREAD = 0x10000"
definition CLONE_NEWNS :: u32 where "CLONE_NEWNS = 0x20000"
definition CSIGNAL :: u32 where "CSIGNAL = 0xff"
definition PF_SUPERPRIV :: u32 where "PF_SUPERPRIV = 0x100"
definition PF_FORKNOEXEC :: u32 where "PF_FORKNOEXEC = 0x40"
definition PF_USEDFPU :: u32 where "PF_USEDFPU = 0x100000"
definition PT_PTRACED_FLAG :: u32 where "PT_PTRACED_FLAG = 1"

definition copy_flags :: "u32 \<Rightarrow> ptask \<Rightarrow> ptask" where
  "copy_flags clone_flags p =
     p\<lparr>ptrace := (if clone_flags AND CLONE_PTRACE = 0 then 0 else ptrace p),
       pflags := (pflags p AND NOT (PF_SUPERPRIV OR PF_USEDFPU)) OR PF_FORKNOEXEC\<rparr>"

subsection \<open>The objects of the child\<close>

text \<open>The labels at the end of \<open>do_fork\<close>, each with what follows it.\<close>

definition cleanup_files :: "tid \<Rightarrow> res \<Rightarrow> res" where
  "cleanup_files p r = exit_files p r"

definition cleanup_fs :: "tid \<Rightarrow> res \<Rightarrow> res" where
  "cleanup_fs p r = cleanup_files p (exit_fs p r)"

definition cleanup_sighand :: "('a ext_scheme) \<Rightarrow> tid \<Rightarrow> res \<Rightarrow> res" where
  "cleanup_sighand X p r = cleanup_fs p (exit_sighand X p r)"

definition cleanup_mm :: "('a ext_scheme) \<Rightarrow> tid \<Rightarrow> tid \<Rightarrow> res \<Rightarrow> fault + res" where
  "cleanup_mm X cur p r = map_sum id (cleanup_sighand X p) (exit_mm X cur p r)"

definition cleanup_namespace :: "('a ext_scheme) \<Rightarrow> tid \<Rightarrow> tid \<Rightarrow> res \<Rightarrow> fault + res" where
  "cleanup_namespace X cur p r = cleanup_mm X cur p (exit_namespace X p r)"

definition failed :: "int \<Rightarrow> fault + res \<Rightarrow> fault + (res \<times> int)" where
  "failed e m = map_sum id (\<lambda>r. (r, e)) m"

definition copy_resources :: "('a ext_scheme) \<Rightarrow> u32 \<Rightarrow> tid \<Rightarrow> tid \<Rightarrow> res \<Rightarrow> fault + (res \<times> int)" where
  "copy_resources X flags cur p r =
     (case copy_files X flags cur p r of (r1, e1) \<Rightarrow>
      if e1 \<noteq> 0 then Inr (r1, - ENOMEM)
      else sbind (copy_fs X flags cur p r1) (\<lambda>(r2, e2).
        if e2 \<noteq> 0 then Inr (cleanup_files p r2, - ENOMEM)
        else sbind (copy_sighand X flags cur p r2) (\<lambda>(r3, e3).
          if e3 \<noteq> 0 then Inr (cleanup_fs p r3, - ENOMEM)
          else sbind (copy_mm X flags cur p r3) (\<lambda>(r4, e4).
            if e4 \<noteq> 0 then Inr (cleanup_sighand X p r4, - ENOMEM)
            else if copy_namespace X \<noteq> 0 then failed (- ENOMEM) (cleanup_mm X cur p r4)
            else if copy_thread X \<noteq> 0 then failed (copy_thread X) (cleanup_namespace X cur p r4)
            else Inr (r4, 0)))))"

definition use_modules :: "int \<Rightarrow> tid \<Rightarrow> res \<Rightarrow> res" where
  "use_modules d p r =
     r\<lparr>domain_uses := add_ref (Some (exec_domain (tsk r p))) d (domain_uses r),
       module_uses := add_ref (binfmt_module (tsk r p)) d (module_uses r)\<rparr>"

subsection \<open>The child among the tasks\<close>

definition count_user :: "u32 \<Rightarrow> int \<Rightarrow> kern \<Rightarrow> kern" where
  "count_user u d k =
     k\<lparr>user_processes := (user_processes k)(u := user_processes k u + d),
       user_count := (user_count k)(u := user_count k u + d)\<rparr>"

definition list_add_thread :: "tid \<Rightarrow> tid \<Rightarrow> kern \<Rightarrow> kern" where
  "list_add_thread p head k =
     (let nx = thread_next (procs k head);
          k1 = upd nx (\<lambda>t. t\<lparr>thread_prev := p\<rparr>) k;
          k2 = upd p (\<lambda>t. t\<lparr>thread_next := nx\<rparr>) k1;
          k3 = upd p (\<lambda>t. t\<lparr>thread_prev := head\<rparr>) k2
      in upd head (\<lambda>t. t\<lparr>thread_next := p\<rparr>) k3)"

text \<open>The fields of the child before it has a pid, after it, and when everything is copied.\<close>

definition fork_fields :: "u32 \<Rightarrow> ptask \<Rightarrow> ptask" where
  "fork_fields flags t = copy_flags flags (t\<lparr>did_exec := False, pstate := ST_UNINTERRUPTIBLE\<rparr>)"

definition fork_clear :: "ptask \<Rightarrow> ptask" where
  "fork_clear t =
     t\<lparr>p_cptr := None, leader := False, tty_old_pgrp := 0, tms_utime := 0, tms_stime := 0, tms_cutime := 0, tms_cstime := 0\<rparr>"

definition fork_faults :: "ptask \<Rightarrow> ptask" where
  "fork_faults t = t\<lparr>min_flt := 0, maj_flt := 0, cmin_flt := 0, cmaj_flt := 0, nswap := 0, cnswap := 0\<rparr>"

definition fork_ready :: "u32 \<Rightarrow> tid \<Rightarrow> ptask \<Rightarrow> ptask" where
  "fork_ready flags p t =
     t\<lparr>parent_exec_id := self_exec_id t, exit_signal := uint (flags AND CSIGNAL), pdeath_signal := 0,
       first_time_slice := 1, tgid := ppid t, thread_next := p, thread_prev := p\<rparr>"

definition fork_parents :: "u32 \<Rightarrow> tid \<Rightarrow> ptask \<Rightarrow> ptask \<Rightarrow> ptask" where
  "fork_parents flags cur c t =
     (if flags AND CLONE_PARENT = 0
      then t\<lparr>p_opptr := cur, p_pptr := (if ptrace t AND PT_PTRACED_FLAG = 0 then cur else p_pptr c)\<rparr>
      else t\<lparr>p_opptr := p_opptr c, p_pptr := p_pptr c\<rparr>)"

definition fork_publish :: "('a fork_env_scheme) \<Rightarrow> u32 \<Rightarrow> tid \<Rightarrow> kern \<Rightarrow> kern" where
  "fork_publish E flags p k =
     (let cur = current k;
          k1 = upd p (fork_ready flags p) k;
          k2 = upd p (fork_parents flags cur (procs k1 cur)) k1;
          k3 = (if flags AND CLONE_THREAD \<noteq> 0
                then list_add_thread p cur (upd p (\<lambda>t. t\<lparr>tgid := tgid (procs k2 cur)\<rparr>) k2) else k2);
          k4 = SET_LINKS p k3;
          k5 = k4\<lparr>pidhash := hash_pid (\<lambda>q. ppid (procs k4 q)) p (pidhash k4)\<rparr>;
          k6 = k5\<lparr>nr_threads := nr_threads k5 + 1\<rparr>;
          k7 = (if ptrace (procs k6 p) AND PT_PTRACED_FLAG \<noteq> 0 then emit [Send_Sig (SIGSTOP E) p] k6 else k6);
          k8 = upd p (\<lambda>t. t\<lparr>pstate := ST_RUNNING\<rparr>) k7
      in k8\<lparr>total_forks := total_forks k8 + 1\<rparr>)"

text \<open>\<^verbatim>\<open>wait_for_completion(&vfork)\<close>: the completion has just been initialised, and the child has not run yet.\<close>

definition wait_for_child :: "nat \<Rightarrow> kern \<Rightarrow> kern" where
  "wait_for_child c k = emit [Wait_For (current k) c] (upd (current k) (\<lambda>t. t\<lparr>pstate := ST_UNINTERRUPTIBLE\<rparr>) k)"

subsection \<open>The call\<close>

text \<open>A task structure that is given back is not read again; it points at no child.\<close>

definition free_task_struct :: "tid \<Rightarrow> kern \<Rightarrow> kern" where
  "free_task_struct p k = upd p (\<lambda>t. t\<lparr>p_cptr := None\<rparr>) k"

definition over_limit :: "('a fork_env_scheme) \<Rightarrow> kern \<Rightarrow> tid \<Rightarrow> bool" where
  "over_limit E k p \<longleftrightarrow>
     word_of_int (user_processes k (user_id (procs k p))) \<ge> rlim_nproc E \<and> \<not> cap_admin E \<and> \<not> cap_resource E"

text \<open>From \<open>get_exec_domain\<close> on, with the counts of the user already increased.\<close>

definition fork_counted :: "('a fork_env_scheme) \<Rightarrow> u32 \<Rightarrow> tid \<Rightarrow> fstate \<Rightarrow> (fault + (fstate \<times> int)) option" where
  "fork_counted E flags p s =
     (let cur = current (kn s); u = user_id (procs (kn s) p);
          r1 = use_modules 1 p (rs s);
          k1 = upd p (fork_fields flags) (kn s);
          undo = (\<lambda>k r. \<lparr>kn = free_task_struct p (count_user u (-1) k), rs = use_modules (-1) p r\<rparr>)
      in map_option (\<lambda>(k2, pid).
           let k3 = upd p (\<lambda>t. t\<lparr>ppid := pid\<rparr>) k2 in
           if pid = 0 \<and> ppid (procs k3 cur) \<noteq> 0 then Inr (undo k3 r1, - EAGAIN)
           else
             let k4 = upd p fork_clear k3;
                 r2 = upd_tsk p (\<lambda>t. t\<lparr>vfork_done :=
                        if flags AND CLONE_VFORK \<noteq> 0 then Some (vfork_completion E) else None\<rparr>) r1
             in sbind (copy_resources E flags cur p r2) (\<lambda>(r3, e).
                  let k5 = upd p fork_faults k4 in
                  if e \<noteq> 0 then Inr (undo k5 r3, e)
                  else if caller_slice E = 0 then Inl Kernel_Bug
                  else
                    let k6 = fork_publish E flags p k5;
                        k7 = (if flags AND CLONE_VFORK \<noteq> 0 then wait_for_child (vfork_completion E) k6 else k6)
                    in Inr (\<lparr>kn = k7, rs = r3\<rparr>, ppid (procs k5 p))))
           (get_pid (flags AND CLONE_PID \<noteq> 0) k1))"

definition do_fork :: "('a fork_env_scheme) \<Rightarrow> u32 \<Rightarrow> fstate \<Rightarrow> (fault + (fstate \<times> int)) option" where
  "do_fork E flags s =
     (let cur = current (kn s) in
      if flags AND (CLONE_NEWNS OR CLONE_FS) = CLONE_NEWNS OR CLONE_FS then Some (Inr (s, - EINVAL))
      else if flags AND CLONE_PID \<noteq> 0 \<and> ppid (procs (kn s) cur) \<noteq> 0 then Some (Inr (s, - EPERM))
      else case new_task E of
        None \<Rightarrow> Some (Inr (s, - ENOMEM))
      | Some p \<Rightarrow>
          let s1 = \<lparr>kn = upd p (\<lambda>_. procs (kn s) cur) (kn s), rs = upd_tsk p (\<lambda>_. tsk (rs s) cur) (rs s)\<rparr>;
              u = user_id (procs (kn s1) p) in
          if over_limit E (kn s1) p then Some (Inr (s1\<lparr>kn := free_task_struct p (kn s1)\<rparr>, - EAGAIN))
          else
            let k2 = count_user u 1 (kn s1) in
            if nr_threads k2 \<ge> max_threads k2 then Some (Inr (s1\<lparr>kn := free_task_struct p (count_user u (-1) k2)\<rparr>, - EAGAIN))
            else fork_counted E flags p (s1\<lparr>kn := k2\<rparr>))"

subsection \<open>The end of a process\<close>

text \<open>
  \<open>do_exit\<close> up to the call of \<^verbatim>\<open>schedule\<close>, which does not come back. Accounting, timers and semaphores of the
  process are not modelled; \<open>disassociate_ctty\<close> is a function of another file.
\<close>

definition do_exit ::
  "('a fork_env_scheme) \<Rightarrow> exit_abi \<Rightarrow> (kern \<Rightarrow> kern) \<Rightarrow> int \<Rightarrow> fstate \<Rightarrow> (fault + fstate) option" where
  "do_exit E A disassociate_ctty code s =
     (let cur = current (kn s) in
      if ppid (procs (kn s) cur) = 0 \<or> ppid (procs (kn s) cur) = 1 then Some (Inl Kernel_Bug)
      else
        let k1 = upd cur (\<lambda>t. t\<lparr>exiting := True\<rparr>) (kn s) in
        case exit_mm E cur cur (rs s) of
          Inl f \<Rightarrow> Some (Inl f)
        | Inr r1 \<Rightarrow>
            let r2 = exit_fs cur (exit_files cur r1);
                r3 = exit_sighand E cur (exit_namespace E cur r2);
                k2 = (if leader (procs k1 cur) then disassociate_ctty k1 else k1);
                r4 = use_modules (-1) cur r3;
                k3 = upd cur (\<lambda>t. t\<lparr>exit_code := code\<rparr>) k2
            in map_option (\<lambda>k4. Inr \<lparr>kn = k4, rs = r4\<rparr>) (exit_notify A k3))"

definition sys_exit ::
  "('a fork_env_scheme) \<Rightarrow> exit_abi \<Rightarrow> (kern \<Rightarrow> kern) \<Rightarrow> int \<Rightarrow> fstate \<Rightarrow> (fault + fstate) option" where
  "sys_exit E A disassociate_ctty error_code s =
     do_exit E A disassociate_ctty (push_bit 8 (error_code AND 0xff)) s"

definition daemonize :: "('a fork_env_scheme) \<Rightarrow> fstate \<Rightarrow> fault + fstate" where
  "daemonize E s =
     (let cur = current (kn s) in
      sbind (exit_mm E cur cur (rs s)) (\<lambda>r1.
        let k1 = upd cur (\<lambda>t. t\<lparr>session := 1, pgrp := 1, tty := False\<rparr>) (kn s);
            r2 = exit_fs cur r1 in
        case fs (tsk r2 init_task) of
          None \<Rightarrow> Inl Null_Deref
        | Some a \<Rightarrow>
            let r3 = upd_fs a (\<lambda>f. f\<lparr>fs_count := fs_count f + 1\<rparr>) (upd_tsk cur (\<lambda>t. t\<lparr>fs := Some a\<rparr>) r2);
                r4 = exit_files cur r3 in
            case files (tsk r4 init_task) of
              None \<Rightarrow> Inl Null_Deref
            | Some b \<Rightarrow>
                Inr \<lparr>kn = k1, rs = upd_files b (\<lambda>f. f\<lparr>files_count := files_count f + 1\<rparr>)
                       (upd_tsk cur (\<lambda>t. t\<lparr>files := Some b\<rparr>) r4)\<rparr>))"

end
