(* ===== verification/Proc_Exit_Inv.thy ===== *)
theory Proc_Exit_Inv
  imports Proc_Exit
begin

text \<open>
  HW1, the lemmas on \<^verbatim>\<open>HW1/kernel/exit.c\<close>: while the children of an exiting process are moved, its own
  list is only linked one way (\<open>moving_tasks\<close>), since the code does not reset the younger sibling of the next
  child; when it is empty, the links are complete again. \<open>forget_original_parent\<close> gives every child
  another original parent, which is why the loop ends.
\<close>

subsection \<open>The list of children that is being emptied\<close>

fun olist :: "(tid \<Rightarrow> tid option) \<Rightarrow> tid option \<Rightarrow> tid list \<Rightarrow> bool" where
  "olist os f [] = (f = None)"
| "olist os f (x # xs) = (f = Some x \<and> olist os (os x) xs)"

lemma sibs_olist: "sibs os ys q f xs \<Longrightarrow> olist os f xs"
  by (induction xs arbitrary: q f) auto

lemma olist_agree: "olist os f xs \<Longrightarrow> (\<And>c. c \<in> set xs \<Longrightarrow> os' c = os c) \<Longrightarrow> olist os' f xs"
  by (induction xs arbitrary: f) auto

definition moving_tasks :: "tid list \<Rightarrow> (tid \<Rightarrow> tid list) \<Rightarrow> tid \<Rightarrow> tid list \<Rightarrow> kern \<Rightarrow> bool" where
  "moving_tasks xs ch cur rest k \<longleftrightarrow> ring_is xs k \<and>
     distinct rest \<and> olist (older k) (p_cptr (procs k cur)) rest \<and>
     (\<forall>c. c \<in> set rest \<longleftrightarrow> c \<in> set xs \<and> parent k c = cur) \<and>
     (\<forall>q. q \<noteq> cur \<longrightarrow> distinct (ch q) \<and> sibs (older k) (younger k) None (p_cptr (procs k q)) (ch q)) \<and>
     (\<forall>q c. q \<noteq> cur \<longrightarrow> (c \<in> set (ch q) \<longleftrightarrow> c \<in> set xs \<and> parent k c = q))"

lemma linked_moving: "linked_tasks xs ch k \<Longrightarrow> moving_tasks xs ch cur (ch cur) k"
  by (simp add: linked_tasks_def moving_tasks_def children_are_def sibs_olist) (metis sibs_olist)

lemma moving_linked:
  assumes "moving_tasks xs ch cur [] k"
  shows "linked_tasks xs (ch(cur := [])) k"
  using assms by (simp add: linked_tasks_def moving_tasks_def children_are_def)

lemma moving_procs: "moving_tasks xs ch cur rest k \<Longrightarrow> procs k' = procs k \<Longrightarrow> moving_tasks xs ch cur rest k'"
  by (simp add: moving_tasks_def ring_is_def)

lemma move_child_fields:
  assumes "p \<noteq> cur" "p_opptr (procs k p) \<noteq> cur"
  shows "p_cptr (procs (move_child cur p k) q) = (if q = p_opptr (procs k p) then Some p
      else if q = cur then older k p else p_cptr (procs k q))"
    and "p_osptr (procs (move_child cur p k) q) =
      (if q = p then p_cptr (procs k (p_opptr (procs k p))) else older k q)"
    and "p_ysptr (procs (move_child cur p k) q) =
      (if p_cptr (procs k (p_opptr (procs k p))) = Some q then Some p else if q = p then None else younger k q)"
    and "p_pptr (procs (move_child cur p k) q) = (if q = p then p_opptr (procs k p) else parent k q)"
    and "next_task (procs (move_child cur p k) q) = nxt k q" "prev_task (procs (move_child cur p k) q) = prv k q"
  using assms by (simp_all add: move_child_def Let_def upd_keep upd_set)

lemma move_child_moving:
  assumes M: "moving_tasks xs ch cur (p # rest) k" and p: "p \<noteq> cur" and r: "p_opptr (procs k p) \<noteq> cur"
  shows "moving_tasks xs (ch(p_opptr (procs k p) := p # ch (p_opptr (procs k p)))) cur rest (move_child cur p k)"
proof -
  let ?r = "p_opptr (procs k p)" and ?k = "move_child cur p k"
  note f = move_child_fields [OF p r]
  from M have ring: "ring_is xs k" and dr: "distinct (p # rest)"
    and ol: "p_cptr (procs k cur) = Some p" "olist (older k) (older k p) rest"
    and mem: "\<And>c. c \<in> set (p # rest) \<longleftrightarrow> c \<in> set xs \<and> parent k c = cur"
    and S: "\<And>q. q \<noteq> cur \<Longrightarrow> distinct (ch q) \<and> sibs (older k) (younger k) None (p_cptr (procs k q)) (ch q)"
    and C: "\<And>q c. q \<noteq> cur \<Longrightarrow> c \<in> set (ch q) \<longleftrightarrow> c \<in> set xs \<and> parent k c = q"
    by (auto simp: moving_tasks_def)
  have px: "p \<in> set xs" "parent k p = cur" using mem [of p] by simp_all
  have pn: "p \<notin> set (ch q)" if "q \<noteq> cur" for q using C [OF that, of p] px that by simp
  have y: "younger ?k = opt_upd ((younger k)(p := None)) (p_cptr (procs k ?r)) (Some p)"
    and o: "older ?k = (older k)(p := p_cptr (procs k ?r))"
    by (simp_all add: fun_eq_iff opt_upd_def f)
  have "ring_is xs ?k" using ring by (simp add: ring_is_def f)
  moreover have "olist (older ?k) (p_cptr (procs ?k cur)) rest"
    unfolding o using ol(2) dr r by (auto simp: f elim!: olist_agree)
  moreover have "c \<in> set rest \<longleftrightarrow> c \<in> set xs \<and> parent ?k c = cur" for c
    using mem [of c] dr r by (auto simp: f)
  moreover have "distinct ((ch(?r := p # ch ?r)) q) \<and>
      sibs (older ?k) (younger ?k) None (p_cptr (procs ?k q)) ((ch(?r := p # ch ?r)) q)" if q: "q \<noteq> cur" for q
  proof (cases "q = ?r")
    case True
    then show ?thesis
      unfolding y o using sibs_push [of "older k" "younger k" "p_cptr (procs k ?r)" "ch ?r" p] S [OF r] pn [OF r]
      by (simp add: f)
  next
    case False
    have "c \<noteq> p \<and> p_cptr (procs k ?r) \<noteq> Some c" if c: "c \<in> set (ch q)" for c
    proof -
      have "c \<notin> set (ch ?r)" using c C [OF q, of c] C [OF r, of c] False by auto
      then show ?thesis
        using c pn [OF q] S [OF r] sibs_first [of "older k" "younger k" None "p_cptr (procs k ?r)" "ch ?r" c] by blast
    qed
    with False q S [OF q] show ?thesis unfolding y o
      by (auto simp: f opt_upd_def elim!: sibs_agree)
  qed
  moreover have "c \<in> set ((ch(?r := p # ch ?r)) q) \<longleftrightarrow> c \<in> set xs \<and> parent ?k c = q" if "q \<noteq> cur" for q c
    using C [OF that, of c] C [OF r, of c] px that by (auto simp: f)
  ultimately show ?thesis using dr by (simp add: moving_tasks_def)
qed

subsection \<open>What the exit leaves alone\<close>

text \<open>Everything but the links, the parents and the tracing flag.\<close>

definition same_own :: "kern \<Rightarrow> kern \<Rightarrow> bool" where
  "same_own k k' \<longleftrightarrow> (\<forall>q. p_opptr (procs k' q) = p_opptr (procs k q) \<and> pstate (procs k' q) = pstate (procs k q) \<and>
     ppid (procs k' q) = ppid (procs k q) \<and> pgrp (procs k' q) = pgrp (procs k q) \<and>
     session (procs k' q) = session (procs k q) \<and> exit_signal (procs k' q) = exit_signal (procs k q) \<and>
     exit_code (procs k' q) = exit_code (procs k q)) \<and>
   same_table k k'"

lemma same_own_refl: "same_own k k" by (simp add: same_own_def same_table_refl)

lemma same_own_trans: "same_own k k' \<Longrightarrow> same_own k' k'' \<Longrightarrow> same_own k k''"
  by (auto simp: same_own_def elim: same_table_trans)

lemma same_own_procs: "procs k' = procs k \<Longrightarrow> same_table k k' \<Longrightarrow> same_own k k'"
  by (simp add: same_own_def)

lemma emit_fields [simp]:
  "procs (emit es k) = procs k" "current (emit es k) = current k" "child_reaper (emit es k) = child_reaper k"
  "pidhash (emit es k) = pidhash k" "nr_threads (emit es k) = nr_threads k" "signals (emit es k) = signals k @ es"
  "last_pid (emit es k) = last_pid k" "next_safe (emit es k) = next_safe k"
  by (simp_all add: emit_def)

lemma emit_same_table [simp]: "same_table k (emit es k)"
  by (simp add: same_table_def)

lemma move_child_same_table: "same_table k (move_child cur p k)"
  by (auto simp: move_child_def Let_def own_def
      intro!: same_table_refl same_table_trans [OF _ same_table_upd(1)] same_table_trans [OF _ same_table_upd(2)])

lemma move_child_same: "same_own k (move_child cur p k)"
  using move_child_same_table [of k cur p] by (simp add: same_own_def move_child_def Let_def upd_keep)

lemma move_child_signals: "signals (move_child cur p k) = signals k"
  by (simp add: move_child_def Let_def)

lemma ring_from_procs: "procs k' = procs k \<Longrightarrow> ring_is xs k \<Longrightarrow> for_each_task k' = Some xs"
  by (rule for_each_task_list) (simp add: ring_is_def)

lemma orphan_check_result:
  assumes "ring_is xs k"
  shows "\<exists>es. orphan_check A cur p k = Some (emit es k)"
proof -
  have e: "emit [] k = k" by (simp add: emit_def)
  show ?thesis
    using for_each_task_list [OF assms] e
    by (auto simp: orphan_check_def is_orphaned_pgrp_def will_become_orphaned_pgrp_def has_stopped_jobs_def
        hup_and_cont_def Let_def intro: exI [of _ "[]"])
qed

lemma own_orphan_check_result:
  assumes "ring_is xs k"
  shows "\<exists>es. own_orphan_check A cur k = Some (emit es k)"
proof -
  have e: "emit [] k = k" by (simp add: emit_def)
  show ?thesis
    using for_each_task_list [OF assms] e
    by (auto simp: own_orphan_check_def will_become_orphaned_pgrp_def has_stopped_jobs_def
        hup_and_cont_def Let_def intro: exI [of _ "[]"])
qed

text \<open>One round of the loop: the child is moved, and signals are appended, its death first if it is dead.\<close>

lemma reparent_round:
  assumes "moving_tasks xs ch cur (p # rest) k" "p \<noteq> cur" "p_opptr (procs k p) \<noteq> cur"
  obtains k' es where "reparent_loop A cur k = reparent_loop A cur k'"
    "moving_tasks xs (ch(p_opptr (procs k p) := p # ch (p_opptr (procs k p)))) cur rest k'"
    "same_own k k'" "procs k' = procs (move_child cur p k)" "signals k' = signals k @ es"
    "pstate (procs k p) = ST_ZOMBIE \<Longrightarrow> Notify_Parent p (p_opptr (procs k p)) (exit_signal (procs k p)) \<in> set es"
proof -
  let ?m = "move_child cur p k"
  let ?n = "if pstate (procs ?m p) = ST_ZOMBIE then notify_parent p ?m else ?m"
  have M: "moving_tasks xs (ch(p_opptr (procs k p) := p # ch (p_opptr (procs k p)))) cur rest ?m"
    by (rule move_child_moving [OF assms])
  have n: "procs ?n = procs ?m" "same_table ?m ?n"
    by (simp_all add: notify_parent_def same_table_refl)
  have "ring_is xs ?n" using M n by (simp add: moving_tasks_def ring_is_def)
  then obtain es where oc: "orphan_check A cur p ?n = Some (emit es ?n)" using orphan_check_result by blast
  have c: "p_cptr (procs k cur) = Some p" using assms(1) by (simp add: moving_tasks_def)
  have same: "same_own k ?m" by (rule move_child_same)
  let ?e = "if pstate (procs k p) = ST_ZOMBIE
    then [Notify_Parent p (p_opptr (procs k p)) (exit_signal (procs k p))] else []"
  have "pstate (procs ?m p) = pstate (procs k p)" "exit_signal (procs ?m p) = exit_signal (procs k p)"
    "parent ?m p = p_opptr (procs k p)"
    using same move_child_fields(4) [OF assms(2,3), of p] by (simp_all add: same_own_def)
  then have ns: "signals ?n = signals k @ ?e"
    by (simp add: notify_parent_def move_child_signals)
  show thesis
  proof (rule that)
    show "reparent_loop A cur k = reparent_loop A cur (emit es ?n)"
      using c oc by (subst reparent_loop.simps) (simp only: Let_def option.case Option.bind.simps)
    show "moving_tasks xs (ch(p_opptr (procs k p) := p # ch (p_opptr (procs k p)))) cur rest (emit es ?n)"
      using M by (rule moving_procs) (simp only: emit_fields n)
    show "same_own k (emit es ?n)"
      by (rule same_own_trans [OF same same_own_procs])
        (simp_all only: emit_fields n(1) same_table_trans [OF n(2) emit_same_table])
    show "procs (emit es ?n) = procs ?m" by (simp only: emit_fields n)
    show "signals (emit es ?n) = signals k @ (?e @ es)" by (simp only: emit_fields ns append_assoc)
    show "Notify_Parent p (p_opptr (procs k p)) (exit_signal (procs k p)) \<in> set (?e @ es)"
      if "pstate (procs k p) = ST_ZOMBIE"
      using that by simp
  qed
qed

lemma reparent_loop_result:
  assumes "moving_tasks xs ch cur rest k" "cur \<notin> set rest" "\<forall>c\<in>set rest. p_opptr (procs k c) \<noteq> cur"
  shows "\<exists>k' ch' es. reparent_loop A cur k = Some k' \<and> linked_tasks xs ch' k' \<and> ch' cur = [] \<and>
    (\<forall>c. parent k' c = (if c \<in> set rest then p_opptr (procs k c) else parent k c)) \<and>
    same_own k k' \<and> signals k' = signals k @ es \<and>
    (\<forall>c\<in>set rest. pstate (procs k c) = ST_ZOMBIE \<longrightarrow>
       Notify_Parent c (p_opptr (procs k c)) (exit_signal (procs k c)) \<in> set es)"
  using assms
proof (induction rest arbitrary: ch k)
  case Nil
  have "p_cptr (procs k cur) = None" using Nil(1) by (simp add: moving_tasks_def)
  then have "reparent_loop A cur k = Some k" by (subst reparent_loop.simps) simp
  moreover obtain ch' where "linked_tasks xs ch' k" "ch' cur = []"
    by (rule that [OF moving_linked [OF Nil(1)]]) simp
  ultimately show ?case
    by (intro exI [of _ k] exI [of _ ch'] exI [of _ "[]"]) (simp add: same_own_refl)
next
  case (Cons p rest)
  have p: "p \<noteq> cur" "p_opptr (procs k p) \<noteq> cur" using Cons.prems by auto
  obtain k1 es1 where r: "reparent_loop A cur k = reparent_loop A cur k1"
    and M: "moving_tasks xs (ch(p_opptr (procs k p) := p # ch (p_opptr (procs k p)))) cur rest k1"
    and s: "same_own k k1" and pr: "procs k1 = procs (move_child cur p k)" and es: "signals k1 = signals k @ es1"
    and z: "pstate (procs k p) = ST_ZOMBIE \<Longrightarrow>
      Notify_Parent p (p_opptr (procs k p)) (exit_signal (procs k p)) \<in> set es1"
    by (rule reparent_round [OF Cons.prems(1) p, where A = A]) blast
  have f: "p_opptr (procs k1 c) = p_opptr (procs k c)" "pstate (procs k1 c) = pstate (procs k c)"
    "exit_signal (procs k1 c) = exit_signal (procs k c)" for c using s by (simp_all add: same_own_def)
  have pa: "parent k1 c = (if c = p then p_opptr (procs k p) else parent k c)" for c
    unfolding pr by (rule move_child_fields(4) [OF p])
  have d: "p \<notin> set rest" using Cons.prems(1) by (simp add: moving_tasks_def)
  have "\<forall>c\<in>set rest. p_opptr (procs k1 c) \<noteq> cur" "cur \<notin> set rest" using Cons.prems f by auto
  from Cons.IH [OF M this(2,1)] obtain k' ch' es2 where
    "reparent_loop A cur k1 = Some k'" "linked_tasks xs ch' k'" "ch' cur = []"
    and pa': "\<forall>c. parent k' c = (if c \<in> set rest then p_opptr (procs k1 c) else parent k1 c)"
    and s': "same_own k1 k'" and es': "signals k' = signals k1 @ es2"
    and z': "\<forall>c\<in>set rest. pstate (procs k1 c) = ST_ZOMBIE \<longrightarrow>
       Notify_Parent c (p_opptr (procs k1 c)) (exit_signal (procs k1 c)) \<in> set es2" by blast
  moreover have "parent k' c = (if c \<in> set (p # rest) then p_opptr (procs k c) else parent k c)" for c
    using pa' pa [of c] f d by (cases "c = p") simp_all
  moreover have "signals k' = signals k @ (es1 @ es2)" using es es' by simp
  moreover have "\<forall>c\<in>set (p # rest). pstate (procs k c) = ST_ZOMBIE \<longrightarrow>
       Notify_Parent c (p_opptr (procs k c)) (exit_signal (procs k c)) \<in> set (es1 @ es2)"
    using z z' f by simp
  ultimately show ?case using r same_own_trans [OF s s'] by metis
qed

subsection \<open>New original parents\<close>

text \<open>\<open>thread_group k p us\<close>: going round the thread group from \<open>p\<close> meets \<open>us\<close> and comes back to \<open>p\<close>.\<close>

definition thread_group :: "kern \<Rightarrow> tid \<Rightarrow> tid list \<Rightarrow> bool" where
  "thread_group k p us \<longleftrightarrow> p \<notin> set us \<and> path (\<lambda>q. thread_next (procs k q)) p us p"

definition heir :: "kern \<Rightarrow> tid list \<Rightarrow> tid" where
  "heir k us = (case find (\<lambda>p. \<not> exiting (procs k p)) us of None \<Rightarrow> child_reaper k | Some r \<Rightarrow> r)"

definition new_parent :: "kern \<Rightarrow> tid \<Rightarrow> tid list \<Rightarrow> tid \<Rightarrow> tid" where
  "new_parent k cur us p =
     (if p_opptr (procs k p) = cur then (if p = heir k us then child_reaper k else heir k us)
      else p_opptr (procs k p))"

lemma find_reaper_path:
  assumes "path (\<lambda>q. thread_next (procs k q)) r us father" "father \<notin> set us"
  shows "find_reaper k father r = Some (case find (\<lambda>p. \<not> exiting (procs k p)) us of None \<Rightarrow> father | Some q \<Rightarrow> q)"
  using assms
proof (induction us arbitrary: r)
  case Nil
  then show ?case by (subst find_reaper.simps) (simp add: next_thread_def)
next
  case (Cons u us)
  then show ?case by (subst find_reaper.simps) (auto simp: next_thread_def Let_def)
qed

lemma heir_not_self: "thread_group k p us \<Longrightarrow> child_reaper k \<noteq> p \<Longrightarrow> heir k us \<noteq> p"
  by (auto simp: heir_def thread_group_def find_Some_iff split: option.splits)

text \<open>Everything but the original parents and what the adopted children are told.\<close>

definition same_links :: "kern \<Rightarrow> kern \<Rightarrow> bool" where
  "same_links k k' \<longleftrightarrow> (\<forall>q. next_task (procs k' q) = nxt k q \<and> prev_task (procs k' q) = prv k q \<and>
     p_osptr (procs k' q) = older k q \<and> p_ysptr (procs k' q) = younger k q \<and>
     p_cptr (procs k' q) = p_cptr (procs k q) \<and> p_pptr (procs k' q) = parent k q \<and>
     pstate (procs k' q) = pstate (procs k q) \<and> ppid (procs k' q) = ppid (procs k q) \<and>
     pgrp (procs k' q) = pgrp (procs k q) \<and> session (procs k' q) = session (procs k q)) \<and>
   same_table k k'"

lemma same_links_trans: "same_links k k' \<Longrightarrow> same_links k' k'' \<Longrightarrow> same_links k k''"
  by (auto simp: same_links_def elim: same_table_trans)

lemma adopt_same_table: "same_table k (adopt A f r p k)"
  by (auto simp: adopt_def Let_def own_def same_table_refl
      intro!: same_table_upd(1) same_table_trans [OF same_table_upd(1) emit_same_table])

lemma same_links_linked: "linked_tasks xs ch k \<Longrightarrow> same_links k k' \<Longrightarrow> linked_tasks xs ch k'"
  by (erule linked_tasks_agree) (simp_all add: same_links_def fun_eq_iff)

lemma adopt_result:
  shows "same_links k (adopt A f r p k)"
    and "p_opptr (procs (adopt A f r p k) q) =
      (if q = p \<and> p_opptr (procs k p) = f then (if p = r then child_reaper k else r) else p_opptr (procs k q))"
    and "\<exists>es. signals (adopt A f r p k) = signals k @ es"
  using adopt_same_table [of k A f r p] by (simp_all add: adopt_def same_links_def Let_def upd_procs)

lemma fold_adopt:
  assumes "distinct ps" "r \<noteq> f" "child_reaper k \<noteq> f"
  shows "same_links k (fold (adopt A f r) ps k) \<and>
    (\<forall>q. p_opptr (procs (fold (adopt A f r) ps k) q) =
      (if q \<in> set ps \<and> p_opptr (procs k q) = f then (if q = r then child_reaper k else r) else p_opptr (procs k q)))"
  using assms
proof (induction ps arbitrary: k)
  case Nil
  then show ?case by (simp add: same_links_def same_table_refl)
next
  case (Cons p ps)
  note s = adopt_result(1) [of k A f r p] and o = adopt_result(2) [of A f r p k]
  have c: "child_reaper (adopt A f r p k) = child_reaper k" using s by (simp add: same_links_def same_tableD)
  have IH: "same_links (adopt A f r p k) (fold (adopt A f r) ps (adopt A f r p k)) \<and>
    (\<forall>q. p_opptr (procs (fold (adopt A f r) ps (adopt A f r p k)) q) =
      (if q \<in> set ps \<and> p_opptr (procs (adopt A f r p k) q) = f
       then (if q = r then child_reaper k else r) else p_opptr (procs (adopt A f r p k) q)))"
    using Cons.IH [of "adopt A f r p k"] Cons.prems c by simp
  have "p_opptr (procs (fold (adopt A f r) (p # ps) k) q) =
      (if q \<in> set (p # ps) \<and> p_opptr (procs k q) = f then (if q = r then child_reaper k else r) else p_opptr (procs k q))" for q
    using IH o [of q] Cons.prems by (cases "q = p") simp_all
  with IH same_links_trans [OF s] show ?case by simp
qed

lemma forget_original_parent_result:
  assumes L: "linked_tasks xs ch k" and T: "thread_group k f us" and c: "child_reaper k \<noteq> f"
  obtains k' where "forget_original_parent A f k = Some k'" "same_links k k'"
    "\<And>q. q \<in> set xs \<Longrightarrow> p_opptr (procs k' q) = new_parent k f us q"
proof -
  have R: "ring_is xs k" using L by (simp add: linked_tasks_def)
  then have d: "distinct xs" by (simp add: ring_is_def)
  have h: "heir k us \<noteq> f" by (rule heir_not_self [OF T c])
  have fr: "find_reaper k f f = Some (case find (\<lambda>p. \<not> exiting (procs k p)) us of None \<Rightarrow> f | Some q \<Rightarrow> q)"
    using T by (simp add: thread_group_def find_reaper_path)
  have "(if r = f then child_reaper k else r) = heir k us"
    if "r = (case find (\<lambda>p. \<not> exiting (procs k p)) us of None \<Rightarrow> f | Some q \<Rightarrow> q)" for r
  proof (cases "find (\<lambda>p. \<not> exiting (procs k p)) us")
    case None
    with that show ?thesis by (simp add: heir_def)
  next
    case (Some q)
    then have "q \<in> set us" by (auto simp: find_Some_iff)
    with Some that T show ?thesis by (auto simp: heir_def thread_group_def)
  qed
  then have "forget_original_parent A f k = Some (fold (adopt A f (heir k us)) xs k)"
    by (simp add: forget_original_parent_def fr for_each_task_list [OF R])
  then show thesis
    using that fold_adopt [OF d h c, of A] by (simp add: new_parent_def)
qed

subsection \<open>The whole exit\<close>

lemma same_links_emit: "same_links k (emit es k)"
  by (simp add: same_links_def)

lemma fix_exit_signal_result:
  "same_links k (fix_exit_signal A c k) \<and> (\<forall>q. p_opptr (procs (fix_exit_signal A c k) q) = p_opptr (procs k q)) \<and>
   signals (fix_exit_signal A c k) = signals k"
  by (auto simp: fix_exit_signal_def Let_def same_links_def upd_keep own_def same_table_refl intro!: same_table_upd(1))

text \<open>
  Up to the loop: the original parents are new, the process is a zombie, its parent has been told, and
  no link has changed.
\<close>

lemma exit_notify_prefix:
  assumes L: "linked_tasks xs ch k" and T: "thread_group k (current k) us" and c: "child_reaper k \<noteq> current k"
  obtains k' where "exit_notify A k = reparent_loop A (current k) k'" "linked_tasks xs ch k'"
    "\<And>q. q \<in> set xs \<Longrightarrow> p_opptr (procs k' q) = new_parent k (current k) us q"
    "\<And>q. parent k' q = parent k q" "pstate (procs k' (current k)) = ST_ZOMBIE"
    "\<And>q. q \<noteq> current k \<Longrightarrow> pstate (procs k' q) = pstate (procs k q)"
    "\<exists>sig. Notify_Parent (current k) (parent k (current k)) sig \<in> set (signals k')"
    "same_table k k'"
proof -
  let ?c = "current k"
  obtain k1 where k1: "forget_original_parent A ?c k = Some k1" and s1: "same_links k k1"
    and o1: "\<And>q. q \<in> set xs \<Longrightarrow> p_opptr (procs k1 q) = new_parent k ?c us q"
    using forget_original_parent_result [OF L T c] by metis
  have "ring_is xs k1" using same_links_linked [OF L s1] by (simp add: linked_tasks_def)
  then obtain es where k2: "own_orphan_check A ?c k1 = Some (emit es k1)" using own_orphan_check_result by blast
  let ?k3 = "fix_exit_signal A ?c (emit es k1)"
  let ?k4 = "upd ?c (\<lambda>t. t\<lparr>pstate := ST_ZOMBIE\<rparr>) ?k3"
  let ?k5 = "notify_parent ?c ?k4"
  note f = fix_exit_signal_result [of "emit es k1" A ?c]
  have s3: "same_links k ?k3"
    using same_links_trans [OF same_links_trans [OF s1 same_links_emit]] f by blast
  have L3: "linked_tasks xs ch ?k3" by (rule same_links_linked [OF L s3])
  have L4: "linked_tasks xs ch ?k4" using L3 by (rule linked_tasks_upd) simp_all
  have p5: "procs ?k5 = procs ?k4" by (simp add: notify_parent_def)
  show thesis
  proof (rule that [of ?k5])
    show "exit_notify A k = reparent_loop A ?c ?k5"
      by (simp add: exit_notify_def k1 k2 Let_def)
    show "linked_tasks xs ch ?k5" using L4 by (rule linked_tasks_agree) (simp_all add: p5)
    show "p_opptr (procs ?k5 q) = new_parent k ?c us q" if "q \<in> set xs" for q
      using o1 [OF that] f by (simp add: p5 upd_keep)
    show "parent ?k5 q = parent k q" for q
      using s3 by (simp_all add: p5 upd_keep same_links_def)
    show "pstate (procs ?k5 ?c) = ST_ZOMBIE" by (simp add: p5 upd_procs)
    show "pstate (procs ?k5 q) = pstate (procs k q)" if "q \<noteq> ?c" for q
      using that s3 by (simp add: p5 upd_procs same_links_def)
    show "\<exists>sig. Notify_Parent ?c (parent k ?c) sig \<in> set (signals ?k5)"
      using s3 by (auto simp: notify_parent_def upd_keep same_links_def)
    have "same_table k ?k4" using s3 by (auto simp: same_links_def own_def intro: same_table_trans [OF _ same_table_upd(1)])
    then show "same_table k ?k5" unfolding notify_parent_def by (rule same_table_trans [OF _ emit_same_table])
  qed
qed

lemma exit_notify_result:
  assumes "linked_tasks xs ch k" "thread_group k (current k) us" "child_reaper k \<noteq> current k"
    "parent k (current k) \<noteq> current k"
  shows "\<exists>k' ch'. exit_notify A k = Some k' \<and> same_table k k' \<and>
    (\<forall>q. q \<noteq> current k \<longrightarrow> pstate (procs k' q) = pstate (procs k q)) \<and> linked_tasks xs ch' k' \<and> ch' (current k) = [] \<and>
    pstate (procs k' (current k)) = ST_ZOMBIE \<and>
    (\<forall>c\<in>set xs. p_opptr (procs k' c) = new_parent k (current k) us c \<and> p_opptr (procs k' c) \<noteq> current k) \<and>
    (\<forall>c\<in>set xs. p_pptr (procs k' c) =
       (if p_pptr (procs k c) = current k then p_opptr (procs k' c) else p_pptr (procs k c))) \<and>
    (\<exists>sig. Notify_Parent (current k) (p_pptr (procs k (current k))) sig \<in> set (signals k')) \<and>
    (\<forall>c\<in>set (ch (current k)). pstate (procs k c) = ST_ZOMBIE \<longrightarrow>
       (\<exists>sig. Notify_Parent c (p_opptr (procs k' c)) sig \<in> set (signals k')))"
proof -
  let ?c = "current k"
  obtain k1 where e: "exit_notify A k = reparent_loop A ?c k1" and L1: "linked_tasks xs ch k1"
    and o1: "\<And>q. q \<in> set xs \<Longrightarrow> p_opptr (procs k1 q) = new_parent k ?c us q"
    and p1: "\<And>q. parent k1 q = parent k q" and z1: "pstate (procs k1 ?c) = ST_ZOMBIE"
    and s1: "\<And>q. q \<noteq> ?c \<Longrightarrow> pstate (procs k1 q) = pstate (procs k q)"
    and t1: "same_table k k1" and n1: "\<exists>sig. Notify_Parent ?c (parent k ?c) sig \<in> set (signals k1)"
    using exit_notify_prefix [OF assms(1-3), where A = A] by metis
  have kids: "c \<in> set (ch ?c) \<longleftrightarrow> c \<in> set xs \<and> parent k c = ?c" for c
    using assms(1) by (simp add: linked_tasks_def children_are_def)
  have new: "new_parent k ?c us q \<noteq> ?c" for q
    using assms(3) heir_not_self [OF assms(2,3)] by (simp add: new_parent_def)
  have no: "?c \<notin> set (ch ?c)" using kids assms(4) by simp
  have o: "\<forall>c\<in>set (ch ?c). p_opptr (procs k1 c) \<noteq> ?c" using o1 kids new by simp
  obtain k' ch' es where r: "reparent_loop A ?c k1 = Some k'" "linked_tasks xs ch' k'" "ch' ?c = []"
    and pa: "\<forall>c. parent k' c = (if c \<in> set (ch ?c) then p_opptr (procs k1 c) else parent k1 c)"
    and same: "same_own k1 k'" and es: "signals k' = signals k1 @ es"
    and z: "\<forall>c\<in>set (ch ?c). pstate (procs k1 c) = ST_ZOMBIE \<longrightarrow>
       Notify_Parent c (p_opptr (procs k1 c)) (exit_signal (procs k1 c)) \<in> set es"
    using reparent_loop_result [OF linked_moving [OF L1] no o, of A] by blast
  have same': "p_opptr (procs k' q) = p_opptr (procs k1 q)" "pstate (procs k' q) = pstate (procs k1 q)" for q
    using same by (simp_all add: same_own_def)
  show ?thesis
  proof (rule exI [of _ k'], rule exI [of _ ch'], intro conjI ballI allI impI)
    show "exit_notify A k = Some k'" using e r by simp
    show "same_table k k'" using t1 same by (auto simp: same_own_def elim: same_table_trans)
    show "pstate (procs k' q) = pstate (procs k q)" if "q \<noteq> ?c" for q using that s1 same' by simp
    show "\<exists>sig. Notify_Parent c (p_opptr (procs k' c)) sig \<in> set (signals k')"
      if "c \<in> set (ch ?c)" "pstate (procs k c) = ST_ZOMBIE" for c
      using that z s1 [of c] no es same' by auto
    show "\<exists>sig. Notify_Parent ?c (p_pptr (procs k ?c)) sig \<in> set (signals k')" using n1 es by auto
  qed (use r o1 new kids pa p1 z1 same' in auto)
qed

end
