(* ===== verification/Proc_Wait.thy ===== *)
theory Proc_Wait
  imports Proc_Exit_Inv
begin

text \<open>
  HW1, \<open>wait4\<close> and \<open>waitpid\<close> of \<^verbatim>\<open>HW1/kernel/exit.c\<close>. One round of \<open>wait4\<close> looks through the children of
  the caller, and of the other threads of its group, for one that is stopped or dead; then it returns,
  or the process sleeps and the round is repeated after \<^verbatim>\<open>schedule\<close>, which the result \<open>Wait_Sleep\<close> says.
  The two user pointers may be null or bad; the status that is written is part of the result. The entry
  on the wait queue, which the code adds and removes again, is not modelled here.
\<close>

datatype verdict = Not_Mine | Not_Yet | Take

definition wait_wants :: "kern \<Rightarrow> pid \<Rightarrow> tid \<Rightarrow> bool" where
  "wait_wants k pid p =
     (if pid > 0 then ppid (procs k p) = pid
      else if pid = 0 then pgrp (procs k p) = pgrp (procs k (current k))
      else if pid \<noteq> -1 then pgrp (procs k p) = - pid
      else True)"

definition wait_kind :: "exit_abi \<Rightarrow> u32 \<Rightarrow> kern \<Rightarrow> tid \<Rightarrow> bool" where
  "wait_kind A options k p \<longleftrightarrow>
     \<not> (((exit_signal (procs k p) \<noteq> SIGCHLD A) \<noteq> (options AND WCLONE A \<noteq> 0)) \<and> options AND WALL A = 0)"

definition wait_verdict :: "exit_abi \<Rightarrow> pid \<Rightarrow> u32 \<Rightarrow> kern \<Rightarrow> tid \<Rightarrow> verdict" where
  "wait_verdict A pid options k p =
     (let t = procs k p in
      if \<not> wait_wants k pid p \<or> \<not> wait_kind A options k p then Not_Mine
      else if pstate t = ST_STOPPED then
        (if exit_code t = 0 then Not_Yet
         else if options AND WUNTRACED A = 0 \<and> ptrace t AND PT_PTRACED A = 0 then Not_Yet
         else Take)
      else if pstate t = ST_ZOMBIE then Take
      else Not_Yet)"

partial_function (option) scan_children ::
  "(tid \<Rightarrow> verdict) \<Rightarrow> kern \<Rightarrow> tid option \<Rightarrow> bool \<Rightarrow> (tid option \<times> bool) option" where
  "scan_children v k p flag =
     (case p of
        None \<Rightarrow> Some (None, flag)
      | Some c \<Rightarrow>
          (case v c of
             Not_Mine \<Rightarrow> scan_children v k (p_osptr (procs k c)) flag
           | Not_Yet \<Rightarrow> scan_children v k (p_osptr (procs k c)) True
           | Take \<Rightarrow> Some (Some c, True)))"

partial_function (option) scan_threads ::
  "(tid \<Rightarrow> verdict) \<Rightarrow> bool \<Rightarrow> kern \<Rightarrow> tid \<Rightarrow> bool \<Rightarrow> (tid option \<times> bool) option" where
  "scan_threads v nothread k tsk flag =
     Option.bind (scan_children v k (p_cptr (procs k tsk)) flag) (\<lambda>r.
       case r of
         (Some c, f) \<Rightarrow> Some (Some c, f)
       | (None, f) \<Rightarrow>
           if nothread then Some (None, f)
           else if next_thread k tsk \<noteq> current k then scan_threads v nothread k (next_thread k tsk) f
           else Some (None, f))"

text \<open>The two results that go to user space: the usage, then the status.\<close>

definition put_results :: "unit uptr \<Rightarrow> unit uptr \<Rightarrow> int" where
  "put_results ru stat_addr =
     (if ru = U_Bad then - EFAULT else if stat_addr = U_Bad then - EFAULT else 0)"

definition status_of :: "unit uptr \<Rightarrow> unit uptr \<Rightarrow> int \<Rightarrow> int option" where
  "status_of ru stat_addr code = (if ru \<noteq> U_Bad \<and> stat_addr = U_Val () then Some code else None)"

definition wait_stopped :: "unit uptr \<Rightarrow> unit uptr \<Rightarrow> tid \<Rightarrow> kern \<Rightarrow> kern \<times> int \<times> int option" where
  "wait_stopped ru stat_addr p k =
     (let retval = put_results ru stat_addr;
          st = status_of ru stat_addr (push_bit 8 (exit_code (procs k p)) OR 0x7f) in
      if retval = 0 then (upd p (\<lambda>t. t\<lparr>exit_code := 0\<rparr>) k, ppid (procs k p), st)
      else (k, retval, st))"

definition reparent_traced :: "exit_abi \<Rightarrow> tid \<Rightarrow> kern \<Rightarrow> kern" where
  "reparent_traced A p k =
     (let k1 = REMOVE_LINKS p k;
          k2 = upd p (\<lambda>t. t\<lparr>p_pptr := p_opptr (procs k1 p)\<rparr>) k1;
          k3 = SET_LINKS p k2
      in emit [Notify_Parent p (p_pptr (procs k3 p)) (SIGCHLD A)] k3)"

definition count_times :: "tid \<Rightarrow> kern \<Rightarrow> kern" where
  "count_times p k =
     (let t = procs k p in
      upd (current k) (\<lambda>c. c\<lparr>tms_cutime := tms_cutime c + (tms_utime t + tms_cutime t),
        tms_cstime := tms_cstime c + (tms_stime t + tms_cstime t)\<rparr>) k)"

definition wait_zombie ::
  "exit_abi \<Rightarrow> unit uptr \<Rightarrow> unit uptr \<Rightarrow> tid \<Rightarrow> kern \<Rightarrow> fault + (kern \<times> int \<times> int option)" where
  "wait_zombie A ru stat_addr p k =
     (let k1 = count_times p k;
          retval = put_results ru stat_addr;
          st = status_of ru stat_addr (exit_code (procs k1 p)) in
      if retval \<noteq> 0 then Inr (k1, retval, st)
      else if p_opptr (procs k1 p) \<noteq> p_pptr (procs k1 p)
      then Inr (reparent_traced A p k1, ppid (procs k1 p), st)
      else map_sum id (\<lambda>k2. (k2, ppid (procs k1 p), st)) (release_task p k1))"

datatype wait_out = Wait_Done kern int "int option" | Wait_Sleep kern

definition wait_end :: "kern \<times> int \<times> int option \<Rightarrow> wait_out" where
  "wait_end r =
     (case r of (k, retval, st) \<Rightarrow> Wait_Done (upd (current k) (\<lambda>t. t\<lparr>pstate := ST_RUNNING\<rparr>) k) retval st)"

definition sys_wait4 ::
  "exit_abi \<Rightarrow> bool \<Rightarrow> pid \<Rightarrow> unit uptr \<Rightarrow> u32 \<Rightarrow> unit uptr \<Rightarrow> kern \<Rightarrow> (fault + wait_out) option" where
  "sys_wait4 A signal_pending pid stat_addr options ru k =
     (if options AND NOT (WNOHANG A OR WUNTRACED A OR WNOTHREAD A OR WCLONE A OR WALL A) \<noteq> 0
      then Some (Inr (Wait_Done k (- EINVAL) None))
      else let k0 = upd (current k) (\<lambda>t. t\<lparr>pstate := ST_INTERRUPTIBLE\<rparr>) k in
        map_option (\<lambda>(found, flag).
          case found of
            Some p \<Rightarrow>
              if pstate (procs k0 p) = ST_STOPPED then Inr (wait_end (wait_stopped ru stat_addr p k0))
              else map_sum id wait_end (wait_zombie A ru stat_addr p k0)
          | None \<Rightarrow>
              if flag then
                (if options AND WNOHANG A \<noteq> 0 then Inr (wait_end (k0, 0, None))
                 else if signal_pending then Inr (wait_end (k0, - ERESTARTSYS A, None))
                 else Inr (Wait_Sleep k0))
              else Inr (wait_end (k0, - ECHILD, None)))
          (scan_threads (wait_verdict A pid options k0) (options AND WNOTHREAD A \<noteq> 0) k0 (current k0) False))"

definition sys_waitpid ::
  "exit_abi \<Rightarrow> bool \<Rightarrow> pid \<Rightarrow> unit uptr \<Rightarrow> u32 \<Rightarrow> kern \<Rightarrow> (fault + wait_out) option" where
  "sys_waitpid A signal_pending pid stat_addr options k =
     sys_wait4 A signal_pending pid stat_addr options U_Null k"

subsection \<open>What the scan finds\<close>

lemma scan_children_list:
  assumes "olist (older k) f xs"
  shows "scan_children v k f flag =
    Some (case find (\<lambda>c. v c = Take) xs of Some c \<Rightarrow> (Some c, True)
          | None \<Rightarrow> (None, flag \<or> (\<exists>c\<in>set xs. v c = Not_Yet)))"
  using assms
proof (induction xs arbitrary: f flag)
  case Nil
  then show ?case by (subst scan_children.simps) simp
next
  case (Cons x xs)
  then show ?case
    by (subst scan_children.simps) (cases "v x"; simp add: Cons.IH split: option.splits)
qed

text \<open>The children of the caller and of its threads, in the order they are looked at.\<close>

lemma scan_threads_list:
  assumes "children_are ch xs k" "path (\<lambda>q. thread_next (procs k q)) tsk us (current k)" "current k \<notin> set us"
  shows "scan_threads v False k tsk flag =
    Some (case find (\<lambda>c. v c = Take) (concat (map ch (tsk # us))) of Some c \<Rightarrow> (Some c, True)
          | None \<Rightarrow> (None, flag \<or> (\<exists>c\<in>set (concat (map ch (tsk # us))). v c = Not_Yet)))"
  using assms(2,3)
proof (induction us arbitrary: tsk flag)
  case Nil
  note s = scan_children_list [OF sibs_olist [OF children_areD(2) [OF assms(1), of tsk]], of v flag]
  from Nil show ?case
    by (subst scan_threads.simps) (simp add: s next_thread_def split: option.splits)
next
  case (Cons u us)
  note s = scan_children_list [OF sibs_olist [OF children_areD(2) [OF assms(1), of tsk]], of v flag]
  have IH: "scan_threads v False k u f =
    Some (case find (\<lambda>c. v c = Take) (concat (map ch (u # us))) of Some c \<Rightarrow> (Some c, True)
          | None \<Rightarrow> (None, f \<or> (\<exists>c\<in>set (concat (map ch (u # us))). v c = Not_Yet)))" for f
    using Cons by simp
  have fa: "find P (as @ bs) = (case find P as of Some c \<Rightarrow> Some c | None \<Rightarrow> find P bs)" for P and as bs :: "tid list"
    by (induction as) auto
  from Cons.prems show ?case
    by (subst scan_threads.simps) (auto simp: s IH fa next_thread_def split: option.splits)
qed

end
