(* ===== verification/Proc_Props.thy ===== *)
theory Proc_Props
  imports Proc_Wait
begin

text \<open>
  HW1, the properties of the end of a process (\<^verbatim>\<open>HW1/kernel/exit.c\<close>): the exit hands every child to another
  parent and leaves the links intact; \<open>wait4\<close> finds a dead child and removes it from the lists of tasks, of
  children and of pids; and what goes wrong when the status cannot be written.
\<close>

subsection \<open>Removing a task\<close>

lemma hash_holds_agree: "hash_holds f S h \<Longrightarrow> (\<And>q. q \<in> S \<Longrightarrow> g q = f q) \<Longrightarrow> hash_holds g S h"
  by (auto simp: hash_holds_def inj_on_def)

lemma list_del_thread_fields:
  "procs (list_del_thread p k) q = (procs k q)
     \<lparr>thread_prev := thread_prev (procs (list_del_thread p k) q), thread_next := thread_next (procs (list_del_thread p k) q)\<rparr>"
  by (simp add: list_del_thread_def Let_def upd_procs)

lemma REMOVE_LINKS_own:
  "ppid (procs (REMOVE_LINKS p k) q) = ppid (procs k q)" "pstate (procs (REMOVE_LINKS p k) q) = pstate (procs k q)"
  "tms_cutime (procs (REMOVE_LINKS p k) q) = tms_cutime (procs k q)"
  "tms_cstime (procs (REMOVE_LINKS p k) q) = tms_cstime (procs k q)"
  by (simp_all add: REMOVE_LINKS_def Let_def upd_keep split: option.splits)

lemma REMOVE_LINKS_globals:
  "current (REMOVE_LINKS p k) = current k" "pidhash (REMOVE_LINKS p k) = pidhash k"
  "nr_threads (REMOVE_LINKS p k) = nr_threads k"
  by (simp_all add: REMOVE_LINKS_def Let_def split: option.splits)

lemma list_del_thread_globals:
  "current (list_del_thread p k) = current k" "pidhash (list_del_thread p k) = pidhash k"
  "nr_threads (list_del_thread p k) = nr_threads k"
  by (simp_all add: list_del_thread_def Let_def)

lemma list_del_thread_keep:
  "(\<And>t a b. F (t\<lparr>thread_prev := a, thread_next := b\<rparr>) = F t) \<Longrightarrow> F (procs (list_del_thread p k) q) = F (procs k q)"
  by (subst list_del_thread_fields) blast

lemma linked_list_del: "linked_tasks xs ch k \<Longrightarrow> linked_tasks xs ch (list_del_thread p k)"
  by (erule linked_tasks_agree)
    (simp_all add: fun_eq_iff list_del_thread_keep [where F = next_task] list_del_thread_keep [where F = prev_task]
      list_del_thread_keep [where F = p_osptr] list_del_thread_keep [where F = p_ysptr]
      list_del_thread_keep [where F = p_cptr] list_del_thread_keep [where F = p_pptr])

lemma linked_procs: "linked_tasks xs ch k \<Longrightarrow> procs k' = procs k \<Longrightarrow> linked_tasks xs ch k'"
  by (erule linked_tasks_agree) simp_all

lemma release_task_result:
  assumes L: "linked_tasks xs ch k" and H: "hash_holds (\<lambda>q. ppid (procs k q)) (set xs) (pidhash k)"
    and p: "p \<in> set xs" "p \<noteq> current k"
  obtains k' where "release_task p k = Inr k'"
    "linked_tasks (remove1 p xs) (ch(parent k p := remove1 p (ch (parent k p)))) k'"
    "hash_holds (\<lambda>q. ppid (procs k' q)) (set xs - {p}) (pidhash k')"
    "nr_threads k' = nr_threads k - 1" "current k' = current k"
    "tms_cutime (procs k' (current k)) = tms_cutime (procs k (current k))"
    "tms_cstime (procs k' (current k)) = tms_cstime (procs k (current k))"
    "\<And>q. q \<noteq> p \<Longrightarrow> ppid (procs k' q) = ppid (procs k q)"
proof -
  let ?u = "user_id (procs k p)"
  let ?k0 = "k\<lparr>user_processes := (user_processes k)(?u := user_processes k ?u - 1),
    user_count := (user_count k)(?u := user_count k ?u - 1),
    nr_threads := nr_threads k - 1, pidhash := unhash_pid (\<lambda>q. ppid (procs k q)) p (pidhash k)\<rparr>"
  let ?k1 = "list_del_thread p (REMOVE_LINKS p ?k0)"
  obtain f g where f: "release_task p k = Inr (upd p f (upd (current k) g ?k1))"
    and ff: "f = ppid_update (\<lambda>_. 0)"
    and gg: "\<And>t. next_task (g t) = next_task t" "\<And>t. prev_task (g t) = prev_task t" "\<And>t. p_osptr (g t) = p_osptr t"
      "\<And>t. p_ysptr (g t) = p_ysptr t" "\<And>t. p_cptr (g t) = p_cptr t" "\<And>t. p_pptr (g t) = p_pptr t"
      "\<And>t. ppid (g t) = ppid t" "\<And>t. tms_cutime (g t) = tms_cutime t" "\<And>t. tms_cstime (g t) = tms_cstime t"
    using p(2) that [OF _ refl] by (simp add: release_task_def unhash_process_def Let_def)
  let ?k2 = "upd p f (upd (current k) g ?k1)"
  have "linked_tasks xs ch ?k0" using L by (rule linked_procs) simp
  from linked_list_del [OF REMOVE_LINKS_linked [OF this p(1)]]
  have L1: "linked_tasks (remove1 p xs) (ch(parent k p := remove1 p (ch (parent k p)))) ?k1" by simp
  have "linked_tasks (remove1 p xs) (ch(parent k p := remove1 p (ch (parent k p)))) (upd (current k) g ?k1)"
    using L1 by (rule linked_tasks_upd) (simp_all add: gg)
  then have L2: "linked_tasks (remove1 p xs) (ch(parent k p := remove1 p (ch (parent k p)))) ?k2"
    by (rule linked_tasks_upd) (simp_all add: ff)
  have k1: "ppid (procs ?k1 q) = ppid (procs k q)" "tms_cutime (procs ?k1 q) = tms_cutime (procs k q)"
    "tms_cstime (procs ?k1 q) = tms_cstime (procs k q)" for q
    by (simp_all add: list_del_thread_keep [where F = ppid] list_del_thread_keep [where F = tms_cutime]
        list_del_thread_keep [where F = tms_cstime] REMOVE_LINKS_own)
  show thesis
  proof (rule that [OF f L2])
    show "hash_holds (\<lambda>q. ppid (procs ?k2 q)) (set xs - {p}) (pidhash ?k2)"
      by (rule hash_holds_agree [of "\<lambda>q. ppid (procs k q)"])
        (use unhash_pid_holds [OF H p(1)] in \<open>auto simp: list_del_thread_globals REMOVE_LINKS_globals upd_procs gg k1\<close>)
  qed (use p(2) in \<open>simp_all add: list_del_thread_globals REMOVE_LINKS_globals upd_procs gg k1 ff\<close>)
qed

subsection \<open>A small kernel\<close>

text \<open>
  The idle task 0, init 1, a shell 2 with the child 3, which has the child 4. The kernel is built by
  \<open>SET_LINKS\<close> and \<open>hash_pid\<close>; the caller and the state of task 3 are arguments.
\<close>

definition demo_abi :: exit_abi where
  "demo_abi = \<lparr>SIGCHLD = 17, SIGHUP = 1, SIGCONT = 18, WNOHANG = 1, WUNTRACED = 2, WNOTHREAD = 0x20000000,
     WCLONE = 0x80000000, WALL = 0x40000000, PT_PTRACED = 1, ERESTARTSYS = 512\<rparr>"

definition demo_task :: "tid \<Rightarrow> tid \<Rightarrow> int \<Rightarrow> ptask" where
  "demo_task p par st = \<lparr>ppid = int p, pgrp = int p, session = 1, tgid = int p, leader = False, did_exec = False, tty = False,
     tty_old_pgrp = 0, pstate = st, exiting = (p = 3), pflags = 0, exit_code = 0x100, exit_signal = 17, pdeath_signal = 0,
     ptrace = 0, self_exec_id = 0, parent_exec_id = 0, cap_kill = False, first_time_slice = 0,
     p_opptr = par, p_pptr = par, p_cptr = None, p_ysptr = None, p_osptr = None, next_task = 0, prev_task = 0,
     thread_next = p, thread_prev = p, tms_utime = 7, tms_stime = 0, tms_cutime = 0, tms_cstime = 0,
     min_flt = 0, maj_flt = 0, nswap = 0, cmin_flt = 0, cmaj_flt = 0, cnswap = 0, user_id = 0\<rparr>"

definition demo0 :: "tid \<Rightarrow> int \<Rightarrow> kern" where
  "demo0 cur st = \<lparr>procs = (\<lambda>q. demo_task q (q - 1) (if q = 3 then st else ST_RUNNING)), current = cur,
     child_reaper = 1, nr_threads = 4,
     pidhash = fold (hash_pid int) [1, 2, 3, 4] (\<lambda>_. []), signals = [], user_processes = (\<lambda>_. 4),
     user_count = (\<lambda>_. 4), last_pid = 4, next_safe = 0x8000, max_threads = 100, total_forks = 4\<rparr>"

definition demo :: "tid \<Rightarrow> int \<Rightarrow> kern" where
  "demo cur st = SET_LINKS 4 (SET_LINKS 3 (SET_LINKS 2 (SET_LINKS 1 (demo0 cur st))))"

lemma SET_LINKS_own [simp]:
  "ppid (procs (SET_LINKS p k) q) = ppid (procs k q)" "pgrp (procs (SET_LINKS p k) q) = pgrp (procs k q)"
  "pstate (procs (SET_LINKS p k) q) = pstate (procs k q)" "exit_code (procs (SET_LINKS p k) q) = exit_code (procs k q)"
  "exit_signal (procs (SET_LINKS p k) q) = exit_signal (procs k q)"
  "p_pptr (procs (SET_LINKS p k) q) = p_pptr (procs k q)" "p_opptr (procs (SET_LINKS p k) q) = p_opptr (procs k q)"
  "thread_next (procs (SET_LINKS p k) q) = thread_next (procs k q)" "exiting (procs (SET_LINKS p k) q) = exiting (procs k q)"
  "tms_utime (procs (SET_LINKS p k) q) = tms_utime (procs k q)" "tms_cutime (procs (SET_LINKS p k) q) = tms_cutime (procs k q)"
  "current (SET_LINKS p k) = current k" "child_reaper (SET_LINKS p k) = child_reaper k" "pidhash (SET_LINKS p k) = pidhash k"
  by (simp_all add: SET_LINKS_def Let_def upd_keep)

definition demo_children :: "tid \<Rightarrow> tid list" where
  "demo_children q = (if q < 4 then [q + 1] else [])"

lemma demo_linked: "linked_tasks [1, 2, 3, 4] demo_children (demo cur st)"
proof -
  have "linked_tasks [] (\<lambda>_. []) (demo0 cur st)"
    by (simp add: linked_tasks_def ring_is_def children_are_def demo0_def demo_task_def init_task_def)
  from SET_LINKS_linked [OF this, of 1]
  have "linked_tasks [1] ((\<lambda>_. [])(0 := [1])) (SET_LINKS 1 (demo0 cur st))"
    by (simp add: init_task_def demo0_def demo_task_def)
  from SET_LINKS_linked [OF this, of 2]
  have "linked_tasks [1, 2] ((\<lambda>_. [])(0 := [1], 1 := [2])) (SET_LINKS 2 (SET_LINKS 1 (demo0 cur st)))"
    by (simp add: init_task_def demo0_def demo_task_def)
  from SET_LINKS_linked [OF this, of 3]
  have "linked_tasks [1, 2, 3] ((\<lambda>_. [])(0 := [1], 1 := [2], 2 := [3]))
      (SET_LINKS 3 (SET_LINKS 2 (SET_LINKS 1 (demo0 cur st))))"
    by (simp add: init_task_def demo0_def demo_task_def)
  from SET_LINKS_linked [OF this, of 4]
  have "linked_tasks [1, 2, 3, 4] ((\<lambda>_. [])(0 := [1], 1 := [2], 2 := [3], 3 := [4])) (demo cur st)"
    by (simp add: init_task_def demo0_def demo_task_def demo_def)
  moreover have "(\<lambda>_. [])(0 := [1], 1 := [2], 2 := [3], 3 := [4]) = demo_children"
    by (auto simp: fun_eq_iff demo_children_def)
  ultimately show ?thesis by simp
qed

lemma demo_fields [simp]:
  "current (demo cur st) = cur" "child_reaper (demo cur st) = 1"
  "ppid (procs (demo cur st) q) = int q" "pgrp (procs (demo cur st) q) = int q"
  "pstate (procs (demo cur st) q) = (if q = 3 then st else ST_RUNNING)"
  "exit_code (procs (demo cur st) q) = 0x100" "exit_signal (procs (demo cur st) q) = 17"
  "p_pptr (procs (demo cur st) q) = q - 1" "p_opptr (procs (demo cur st) q) = q - 1"
  "thread_next (procs (demo cur st) q) = q" "exiting (procs (demo cur st) q) = (q = 3)"
  "tms_utime (procs (demo cur st) q) = 7" "tms_cutime (procs (demo cur st) q) = 0"
  by (simp_all add: demo_def demo0_def demo_task_def)

lemma demo_threads: "thread_group (demo cur st) cur []"
  by (simp add: thread_group_def)

lemma demo_hash: "hash_holds (\<lambda>q. ppid (procs (demo cur st) q)) (set [1, 2, 3, 4]) (pidhash (demo cur st))"
proof -
  have e: "hash_holds int {} (\<lambda>_. [])" by (simp add: hash_holds_def)
  have "hash_holds int {4, 3, 2, 1} (fold (hash_pid int) [1, 2, 3, 4] (\<lambda>_. []))"
    by (simp only: fold_simps id_apply) (intro hash_pid_holds e; simp)
  moreover have "{4, 3, 2, 1 :: tid} = set [1, 2, 3, 4]" by auto
  ultimately show ?thesis by (simp add: demo_def demo0_def demo_task_def)
qed

subsection \<open>Exit\<close>

text \<open>C32: A process that exits leaves nobody behind. From intact links, \<open>exit_notify\<close> returns; the links are
  intact again, with the same tasks and no child left to the process, which is now a zombie. Every
  task whose original parent was the process has the next living thread of the group as its
  original parent, or the child reaper if there is none (or if the task is that thread itself); every
  other task keeps its own. Every child is now the child of its original parent, and all other tasks keep
  their parent. The parent of the process has been told of its death, and so have the new parents of
  its dead children.\<close>

theorem exit_leaves_no_children:
  assumes "linked_tasks xs ch k" "thread_group k (current k) us" "child_reaper k \<noteq> current k"
    "parent k (current k) \<noteq> current k"
  shows "\<exists>k' ch'. exit_notify A k = Some k' \<and> linked_tasks xs ch' k' \<and> ch' (current k) = [] \<and>
    pstate (procs k' (current k)) = ST_ZOMBIE \<and>
    (\<forall>c\<in>set xs. p_opptr (procs k' c) = new_parent k (current k) us c \<and> p_opptr (procs k' c) \<noteq> current k) \<and>
    (\<forall>c\<in>set xs. p_pptr (procs k' c) =
       (if p_pptr (procs k c) = current k then p_opptr (procs k' c) else p_pptr (procs k c))) \<and>
    (\<exists>sig. Notify_Parent (current k) (p_pptr (procs k (current k))) sig \<in> set (signals k')) \<and>
    (\<forall>c\<in>set (ch (current k)). pstate (procs k c) = ST_ZOMBIE \<longrightarrow>
       (\<exists>sig. Notify_Parent c (p_opptr (procs k' c)) sig \<in> set (signals k')))"
  using exit_notify_result [OF assms, of A] by blast

theorem exit_leaves_no_children_witness:
  "\<exists>k' ch'. exit_notify demo_abi (demo 3 ST_RUNNING) = Some k' \<and> linked_tasks [1, 2, 3, 4] ch' k' \<and>
     ch' 3 = [] \<and> p_pptr (procs k' 4) = 1"
  using exit_leaves_no_children [OF demo_linked [of 3 ST_RUNNING], where A = demo_abi and us = "[]"] demo_threads [of 3]
  by (force simp: new_parent_def heir_def)

subsection \<open>Wait\<close>

definition wait_options_ok :: "exit_abi \<Rightarrow> u32 \<Rightarrow> bool" where
  "wait_options_ok A options \<longleftrightarrow>
     options AND NOT (WNOHANG A OR WUNTRACED A OR WNOTHREAD A OR WCLONE A OR WALL A) = 0 \<and>
     options AND WNOTHREAD A = 0"

text \<open>The children the caller may wait for: its own, then those of the other threads of its group.\<close>

definition wait_candidates :: "(tid \<Rightarrow> tid list) \<Rightarrow> tid \<Rightarrow> tid list \<Rightarrow> tid list" where
  "wait_candidates ch cur us = concat (map ch (cur # us))"

lemma verdict_sleeping:
  assumes "pstate (procs k (current k)) = ST_RUNNING"
  shows "wait_verdict A pid options (upd (current k) (\<lambda>t. t\<lparr>pstate := ST_INTERRUPTIBLE\<rparr>) k) = wait_verdict A pid options k"
  using assms
  by (auto simp: fun_eq_iff wait_verdict_def wait_wants_def wait_kind_def Let_def upd_procs
      ST_STOPPED_def ST_ZOMBIE_def ST_INTERRUPTIBLE_def ST_RUNNING_def)

lemma sys_wait4_scan:
  assumes L: "linked_tasks xs ch k" and T: "thread_group k (current k) us" and O: "wait_options_ok A options"
    and R: "pstate (procs k (current k)) = ST_RUNNING"
  defines "k0 \<equiv> upd (current k) (\<lambda>t. t\<lparr>pstate := ST_INTERRUPTIBLE\<rparr>) k"
  shows "scan_threads (wait_verdict A pid options k0) (options AND WNOTHREAD A \<noteq> 0) k0 (current k0) False =
    Some (case find (\<lambda>c. wait_verdict A pid options k c = Take) (wait_candidates ch (current k) us) of
        Some c \<Rightarrow> (Some c, True)
      | None \<Rightarrow> (None, \<exists>c\<in>set (wait_candidates ch (current k) us). wait_verdict A pid options k c = Not_Yet))"
    and "linked_tasks xs ch k0"
proof -
  show L0: "linked_tasks xs ch k0" unfolding k0_def using L by (rule linked_tasks_upd) simp_all
  have c0: "current k0 = current k" by (simp add: k0_def)
  have "path (\<lambda>q. thread_next (procs k0 q)) (current k0) us (current k0)"
    using T by (simp add: thread_group_def k0_def upd_keep)
  moreover have "current k0 \<notin> set us" using T by (simp add: thread_group_def c0)
  ultimately show "scan_threads (wait_verdict A pid options k0) (options AND WNOTHREAD A \<noteq> 0) k0 (current k0) False =
    Some (case find (\<lambda>c. wait_verdict A pid options k c = Take) (wait_candidates ch (current k) us) of
        Some c \<Rightarrow> (Some c, True)
      | None \<Rightarrow> (None, \<exists>c\<in>set (wait_candidates ch (current k) us). wait_verdict A pid options k c = Not_Yet))"
    using scan_threads_list [of ch xs k0 "current k0" us "wait_verdict A pid options k" False] L0 O
    by (simp only: linked_tasks_def wait_options_ok_def wait_candidates_def c0 simp_thms
        verdict_sleeping [OF R, of A pid options, folded k0_def])
qed

text \<open>The caller after the times of the child were added, back in the running state.\<close>

lemma count_times_own:
  assumes "p \<noteq> current k"
  shows "linked_tasks xs ch k \<Longrightarrow> linked_tasks xs ch (count_times p k)"
    and "procs (count_times p k) p = procs k p" "current (count_times p k) = current k"
    and "pidhash (count_times p k) = pidhash k" "nr_threads (count_times p k) = nr_threads k"
    and "ppid (procs (count_times p k) q) = ppid (procs k q)" "p_pptr (procs (count_times p k) q) = p_pptr (procs k q)"
    and "tms_cutime (procs (count_times p k) (current k)) =
      tms_cutime (procs k (current k)) + (tms_utime (procs k p) + tms_cutime (procs k p))"
proof -
  show "linked_tasks xs ch (count_times p k)" if "linked_tasks xs ch k"
    using that unfolding count_times_def Let_def by (rule linked_tasks_upd) simp_all
qed (use assms in \<open>simp_all add: count_times_def Let_def upd_procs\<close>)

text \<open>C33: \<open>wait4\<close> of a running process takes the first child, in the order of the lists, that it may take.
  If that child is a zombie that nobody traces, and the pointers for the usage and the status can be
  written, the call returns its pid and writes its exit code. The child is then in no list: not among the
  tasks, not among its parent's children, and its pid is unknown. All other links are intact, the caller
  has the processor time of the child and of its children added to that of its own children, and is
  running again.\<close>

theorem wait_reaps_dead_child:
  assumes "linked_tasks xs ch k" "hash_holds (\<lambda>q. ppid (procs k q)) (set xs) (pidhash k)"
    "thread_group k (current k) us" "wait_options_ok A options" "pstate (procs k (current k)) = ST_RUNNING"
    "find (\<lambda>c. wait_verdict A pid options k c = Take) (wait_candidates ch (current k) us) = Some z"
    "pstate (procs k z) = ST_ZOMBIE" "p_opptr (procs k z) = p_pptr (procs k z)" "ru \<noteq> U_Bad" "stat \<noteq> U_Bad"
  shows "\<exists>k'. sys_wait4 A sigs pid stat options ru k = Some (Inr (Wait_Done k' (ppid (procs k z))
        (if stat = U_Val () then Some (exit_code (procs k z)) else None))) \<and>
    linked_tasks (remove1 z xs) (ch(p_pptr (procs k z) := remove1 z (ch (p_pptr (procs k z))))) k' \<and>
    hash_holds (\<lambda>q. ppid (procs k' q)) (set xs - {z}) (pidhash k') \<and>
    find_task_by_pid (\<lambda>q. ppid (procs k' q)) (ppid (procs k z)) (pidhash k') = None \<and>
    nr_threads k' = nr_threads k - 1 \<and> pstate (procs k' (current k)) = ST_RUNNING \<and>
    tms_cutime (procs k' (current k)) =
      tms_cutime (procs k (current k)) + (tms_utime (procs k z) + tms_cutime (procs k z))"
proof -
  let ?c = "current k" and ?run = "\<lambda>t::ptask. t\<lparr>pstate := ST_RUNNING\<rparr>"
  let ?k0 = "upd ?c (\<lambda>t. t\<lparr>pstate := ST_INTERRUPTIBLE\<rparr>) k"
  let ?k1 = "count_times z ?k0"
  note scan = sys_wait4_scan [OF assms(1,3,4,5)]
  have zc: "z \<noteq> ?c" using assms(5,7) by (auto simp: ST_RUNNING_def ST_ZOMBIE_def)
  then have z0: "z \<noteq> current ?k0" "procs ?k0 z = procs k z" by (simp_all add: upd_procs)
  have "z \<in> set (wait_candidates ch ?c us)" using assms(6) by (auto simp: find_Some_iff)
  then have zx: "z \<in> set xs" using assms(1) by (auto simp: wait_candidates_def linked_tasks_def children_are_def)
  note t = count_times_own [OF z0(1)]
  have L1: "linked_tasks xs ch ?k1" using t(1) scan(2) by blast
  have H1: "hash_holds (\<lambda>q. ppid (procs ?k1 q)) (set xs) (pidhash ?k1)"
    using assms(2) by (simp add: t(4,6) upd_keep)
  obtain k2 where r: "release_task z ?k1 = Inr k2"
    and L2: "linked_tasks (remove1 z xs) (ch(parent ?k1 z := remove1 z (ch (parent ?k1 z)))) k2"
    and H2: "hash_holds (\<lambda>q. ppid (procs k2 q)) (set xs - {z}) (pidhash k2)"
    and g2: "nr_threads k2 = nr_threads ?k1 - 1" "current k2 = current ?k1"
      "tms_cutime (procs k2 (current ?k1)) = tms_cutime (procs ?k1 (current ?k1))"
    and pid2: "\<And>q. q \<noteq> z \<Longrightarrow> ppid (procs k2 q) = ppid (procs ?k1 q)"
    by (rule release_task_result [OF L1 H1 zx]) (use zc t(3) in auto)
  let ?k' = "upd ?c ?run k2"
  have "scan_threads (wait_verdict A pid options ?k0) (options AND WNOTHREAD A \<noteq> 0) ?k0 (current ?k0) False = Some (Some z, True)"
    using scan(1) assms(6) by simp
  moreover have "pstate (procs ?k0 z) \<noteq> ST_STOPPED" using assms(7) z0(2) by (simp add: ST_ZOMBIE_def ST_STOPPED_def)
  ultimately have "sys_wait4 A sigs pid stat options ru k = Some (Inr (Wait_Done ?k' (ppid (procs k z))
        (if stat = U_Val () then Some (exit_code (procs k z)) else None)))"
    using assms(4,8-10) r z0(2) g2(2)
    by (simp add: sys_wait4_def wait_options_ok_def wait_zombie_def put_results_def status_of_def wait_end_def
        t(2,3) Let_def)
  moreover have "linked_tasks (remove1 z xs) (ch(p_pptr (procs k z) := remove1 z (ch (p_pptr (procs k z))))) ?k'"
    using L2 z0(2) by (intro linked_tasks_upd) (simp_all add: t(2))
  moreover have H': "hash_holds (\<lambda>q. ppid (procs ?k' q)) (set xs - {z}) (pidhash ?k')"
    using H2 by (simp add: upd_keep)
  moreover have "find_task_by_pid (\<lambda>q. ppid (procs ?k' q)) (ppid (procs k z)) (pidhash ?k') = None"
  proof (rule ccontr)
    assume "find_task_by_pid (\<lambda>q. ppid (procs ?k' q)) (ppid (procs k z)) (pidhash ?k') \<noteq> None"
    then obtain q where q: "q \<in> set xs - {z}" "ppid (procs ?k' q) = ppid (procs k z)"
      using find_task_by_pid_iff [OF H'] by blast
    then have "ppid (procs k q) = ppid (procs k z)" using pid2 [of q] by (simp add: upd_keep t(6))
    with assms(2) q(1) zx show False by (auto simp: hash_holds_def inj_on_def)
  qed
  moreover have "nr_threads ?k' = nr_threads k - 1" "pstate (procs ?k' ?c) = ST_RUNNING"
    using g2(1) by (simp_all add: t(5) upd_procs)
  moreover have "tms_cutime (procs ?k' ?c) = tms_cutime (procs k ?c) + (tms_utime (procs k z) + tms_cutime (procs k z))"
    using g2(3) t(8) z0(2) by (simp add: upd_keep t(3))
  ultimately show ?thesis by blast
qed

lemma demo_takes:
  "find (\<lambda>c. wait_verdict demo_abi (-1) 0 (demo 2 ST_ZOMBIE) c = Take) (wait_candidates demo_children 2 []) = Some 3"
  by (simp add: wait_candidates_def demo_children_def wait_verdict_def wait_wants_def wait_kind_def demo_abi_def
      ST_ZOMBIE_def ST_STOPPED_def)

theorem wait_reaps_dead_child_witness:
  "\<exists>k'. sys_wait4 demo_abi False (-1) (U_Val ()) 0 U_Null (demo 2 ST_ZOMBIE) = Some (Inr (Wait_Done k' 3 (Some 0x100))) \<and>
     linked_tasks [1, 2, 4] (demo_children(2 := [])) k'"
  using wait_reaps_dead_child [OF demo_linked [of 2 ST_ZOMBIE] demo_hash [of 2 ST_ZOMBIE], where us = "[]"
      and A = demo_abi and options = 0 and z = 3 and pid = "-1" and ru = U_Null and stat = "U_Val ()" and sigs = False]
    demo_takes demo_threads [of 2]
  by (auto simp: wait_options_ok_def demo_children_def)

text \<open>A caller that may take the zombie \<open>z\<close>, and what a call that cannot write its results does to it.\<close>

definition zombie_waits ::
  "exit_abi \<Rightarrow> pid \<Rightarrow> u32 \<Rightarrow> tid list \<Rightarrow> (tid \<Rightarrow> tid list) \<Rightarrow> tid list \<Rightarrow> tid \<Rightarrow> kern \<Rightarrow> bool" where
  "zombie_waits A pid options xs ch us z k \<longleftrightarrow> linked_tasks xs ch k \<and> thread_group k (current k) us \<and>
     pstate (procs k (current k)) = ST_RUNNING \<and> pstate (procs k z) = ST_ZOMBIE \<and>
     find (\<lambda>c. wait_verdict A pid options k c = Take) (wait_candidates ch (current k) us) = Some z"

lemma verdict_agree:
  assumes "\<And>q. ppid (procs k' q) = ppid (procs k q)" "\<And>q. pgrp (procs k' q) = pgrp (procs k q)"
    "\<And>q. exit_signal (procs k' q) = exit_signal (procs k q)" "\<And>q. pstate (procs k' q) = pstate (procs k q)"
    "\<And>q. exit_code (procs k' q) = exit_code (procs k q)" "\<And>q. ptrace (procs k' q) = ptrace (procs k q)"
    "current k' = current k"
  shows "wait_verdict A pid options k' = wait_verdict A pid options k"
  by (simp add: fun_eq_iff wait_verdict_def wait_wants_def wait_kind_def assms Let_def)

lemma wait_fault_step:
  assumes W: "zombie_waits A pid options xs ch us z k" and O: "wait_options_ok A options"
    and bad: "ru = U_Bad \<or> stat = U_Bad"
  obtains k' where "sys_wait4 A sigs pid stat options ru k = Some (Inr (Wait_Done k' (- EFAULT) None))"
    "zombie_waits A pid options xs ch us z k'" "current k' = current k"
    "tms_cutime (procs k' (current k)) = tms_cutime (procs k (current k)) + (tms_utime (procs k z) + tms_cutime (procs k z))"
    "procs k' z = procs k z"
proof -
  let ?c = "current k"
  let ?k0 = "upd ?c (\<lambda>t. t\<lparr>pstate := ST_INTERRUPTIBLE\<rparr>) k"
  let ?k1 = "count_times z ?k0"
  let ?k' = "upd ?c (\<lambda>t. t\<lparr>pstate := ST_RUNNING\<rparr>) ?k1"
  from W have L: "linked_tasks xs ch k" and T: "thread_group k ?c us" and R: "pstate (procs k ?c) = ST_RUNNING"
    and Z: "pstate (procs k z) = ST_ZOMBIE"
    and F: "find (\<lambda>c. wait_verdict A pid options k c = Take) (wait_candidates ch ?c us) = Some z"
    by (simp_all add: zombie_waits_def)
  note scan = sys_wait4_scan [OF L T O R]
  have zc: "z \<noteq> ?c" using R Z by (auto simp: ST_RUNNING_def ST_ZOMBIE_def)
  then have z0: "z \<noteq> current ?k0" "procs ?k0 z = procs k z" by (simp_all add: upd_procs)
  note t = count_times_own [OF z0(1)]
  have "scan_threads (wait_verdict A pid options ?k0) (options AND WNOTHREAD A \<noteq> 0) ?k0 (current ?k0) False = Some (Some z, True)"
    using scan(1) F by simp
  moreover have "pstate (procs ?k0 z) \<noteq> ST_STOPPED" using Z z0(2) by (simp add: ST_ZOMBIE_def ST_STOPPED_def)
  ultimately have call: "sys_wait4 A sigs pid stat options ru k = Some (Inr (Wait_Done ?k' (- EFAULT) None))"
    using O bad z0(2)
    by (auto simp: sys_wait4_def wait_options_ok_def wait_zombie_def put_results_def status_of_def wait_end_def
        t(2,3) Let_def)
  have v: "wait_verdict A pid options ?k' = wait_verdict A pid options k"
    using R by (intro verdict_agree) (simp_all add: count_times_def Let_def upd_procs)
  have "linked_tasks xs ch ?k'" using t(1) scan(2) by (intro linked_tasks_upd) simp_all
  moreover have "thread_group ?k' ?c us" using T by (simp add: thread_group_def count_times_def Let_def upd_keep)
  ultimately have "zombie_waits A pid options xs ch us z ?k'"
    using F v Z zc z0(2) t(2,3) by (simp add: zombie_waits_def upd_procs)
  then show thesis using that [OF call] t(2,3,8) z0(2) zc by (simp add: upd_procs)
qed

text \<open>When the dead child's usage or status cannot be written, \<open>wait4\<close> returns \<open>-EFAULT\<close> and the child
  stays a zombie child, to be waited for again. But its processor time has already been added to that of
  the caller's children, and every further failing call adds it once more.\<close>

theorem wait_fault_counts_again:
  assumes "linked_tasks xs ch k" "thread_group k (current k) us" "wait_options_ok A options"
    "pstate (procs k (current k)) = ST_RUNNING"
    "find (\<lambda>c. wait_verdict A pid options k c = Take) (wait_candidates ch (current k) us) = Some z"
    "pstate (procs k z) = ST_ZOMBIE" "ru = U_Bad \<or> stat = U_Bad"
  shows "\<exists>k1 k2. sys_wait4 A sigs pid stat options ru k = Some (Inr (Wait_Done k1 (- EFAULT) None)) \<and>
    sys_wait4 A sigs pid stat options ru k1 = Some (Inr (Wait_Done k2 (- EFAULT) None)) \<and>
    linked_tasks xs ch k2 \<and> pstate (procs k2 z) = ST_ZOMBIE \<and>
    tms_cutime (procs k2 (current k)) =
      tms_cutime (procs k (current k)) + 2 * (tms_utime (procs k z) + tms_cutime (procs k z))"
proof -
  have W: "zombie_waits A pid options xs ch us z k" using assms(1,2,4-6) by (simp add: zombie_waits_def)
  obtain k1 where k1: "sys_wait4 A sigs pid stat options ru k = Some (Inr (Wait_Done k1 (- EFAULT) None))"
    "zombie_waits A pid options xs ch us z k1" "current k1 = current k"
    "tms_cutime (procs k1 (current k)) = tms_cutime (procs k (current k)) + (tms_utime (procs k z) + tms_cutime (procs k z))"
    "procs k1 z = procs k z"
    by (rule wait_fault_step [OF W assms(3,7)])
  obtain k2 where k2: "sys_wait4 A sigs pid stat options ru k1 = Some (Inr (Wait_Done k2 (- EFAULT) None))"
    "zombie_waits A pid options xs ch us z k2"
    "tms_cutime (procs k2 (current k1)) = tms_cutime (procs k1 (current k1)) + (tms_utime (procs k1 z) + tms_cutime (procs k1 z))"
    by (rule wait_fault_step [OF k1(2) assms(3,7)])
  have "tms_cutime (procs k2 (current k)) =
      tms_cutime (procs k (current k)) + 2 * (tms_utime (procs k z) + tms_cutime (procs k z))"
    using k1(3-5) k2(3) by simp
  then show ?thesis using k1(1) k2(1,2) by (auto simp: zombie_waits_def)
qed

theorem wait_fault_counts_again_witness:
  "\<exists>k1 k2. sys_wait4 demo_abi False (-1) U_Bad 0 U_Null (demo 2 ST_ZOMBIE) = Some (Inr (Wait_Done k1 (- EFAULT) None)) \<and>
     sys_wait4 demo_abi False (-1) U_Bad 0 U_Null k1 = Some (Inr (Wait_Done k2 (- EFAULT) None)) \<and>
     tms_cutime (procs k2 2) = 14"
  using wait_fault_counts_again [OF demo_linked [of 2 ST_ZOMBIE], where us = "[]" and A = demo_abi and options = 0
      and z = 3 and pid = "-1" and ru = U_Null and stat = U_Bad and sigs = False] demo_threads [of 2] demo_takes
  by (auto simp: wait_options_ok_def)

text \<open>
  Without a child to take, \<open>wait4\<close> says so: it returns \<open>-ECHILD\<close> when no child matches, and otherwise 0 with
  \<open>WNOHANG\<close>, is interrupted by a signal, or sleeps.
\<close>

theorem wait_without_dead_child:
  assumes "linked_tasks xs ch k" "thread_group k (current k) us" "wait_options_ok A options"
    "pstate (procs k (current k)) = ST_RUNNING"
    "\<forall>c\<in>set (wait_candidates ch (current k) us). wait_verdict A pid options k c \<noteq> Take"
  shows "\<exists>k'. sys_wait4 A sigs pid stat options ru k = Some (Inr (
      if \<forall>c\<in>set (wait_candidates ch (current k) us). wait_verdict A pid options k c = Not_Mine
      then Wait_Done k' (- ECHILD) None
      else if options AND WNOHANG A \<noteq> 0 then Wait_Done k' 0 None
      else if sigs then Wait_Done k' (- ERESTARTSYS A) None
      else Wait_Sleep k'))"
proof -
  have n: "find (\<lambda>c. wait_verdict A pid options k c = Take) (wait_candidates ch (current k) us) = None"
    using assms(5) by (auto simp: find_None_iff)
  obtain b where b: "scan_threads (wait_verdict A pid options (upd (current k) (\<lambda>t. t\<lparr>pstate := ST_INTERRUPTIBLE\<rparr>) k))
      (options AND WNOTHREAD A \<noteq> 0) (upd (current k) (\<lambda>t. t\<lparr>pstate := ST_INTERRUPTIBLE\<rparr>) k) (current k) False
      = Some (None, b)"
    and b': "b \<longleftrightarrow> (\<exists>c\<in>set (wait_candidates ch (current k) us). wait_verdict A pid options k c = Not_Yet)"
    using sys_wait4_scan(1) [OF assms(1-4), of pid] n by simp
  have e: "(\<forall>c\<in>set (wait_candidates ch (current k) us). wait_verdict A pid options k c = Not_Mine) \<longleftrightarrow> \<not> b"
    unfolding b' using assms(5) verdict.exhaust by (metis verdict.distinct(1))
  have o: "options AND NOT (WNOHANG A OR WUNTRACED A OR WNOTHREAD A OR WCLONE A OR WALL A) = 0"
    using assms(3) by (simp add: wait_options_ok_def)
  show ?thesis
    unfolding e sys_wait4_def o Let_def upd_fields b option.map by (simp add: wait_end_def)
qed

end
