(* ===== verification/Proc_Table.thy ===== *)
theory Proc_Table
  imports Proc_Fork Proc_Props
begin

text \<open>
  What the process table promises between system calls (\<open>table_ok\<close>): the links, the parents, the thread
  groups, the pid hash and the ids belong together. Each group of lemmas shows that one kind of change
  keeps it; \<^verbatim>\<open>Proc_Machine\<close> puts them together for every history of calls.
\<close>

definition live_task :: "tid set \<Rightarrow> kern \<Rightarrow> tid \<Rightarrow> bool" where
  "live_task S k q \<longleftrightarrow> q = init_task \<or> (q \<in> S \<and> pstate (procs k q) \<noteq> ST_ZOMBIE)"

definition parents_ok :: "tid set \<Rightarrow> kern \<Rightarrow> bool" where
  "parents_ok S k \<longleftrightarrow> (\<forall>p\<in>S. live_task S k (p_pptr (procs k p)) \<and> live_task S k (p_opptr (procs k p)) \<and>
     p_pptr (procs k p) \<noteq> p \<and> p_opptr (procs k p) \<noteq> p)"

definition threads_ok :: "tid set \<Rightarrow> kern \<Rightarrow> bool" where
  "threads_ok S k \<longleftrightarrow> (\<forall>p\<in>S. thread_next (procs k p) \<in> S \<and> thread_prev (procs k (thread_next (procs k p))) = p \<and>
     thread_prev (procs k p) \<in> S \<and> thread_next (procs k (thread_prev (procs k p))) = p)"

definition init_ok :: "tid set \<Rightarrow> kern \<Rightarrow> bool" where
  "init_ok S k \<longleftrightarrow> (let i = child_reaper k; t = procs k i in
     i \<in> S \<and> ppid t = 1 \<and> p_pptr t = init_task \<and> p_opptr t = init_task \<and> \<not> exiting t)"

definition names_ok :: "tid list \<Rightarrow> kern \<Rightarrow> bool" where
  "names_ok xs k \<longleftrightarrow> hash_holds (\<lambda>q. ppid (procs k q)) (set xs) (pidhash k) \<and> pids_cached (set xs) k \<and>
     job_ok (set xs) k \<and> (\<forall>p\<in>set xs. 0 < ppid (procs k p)) \<and> nr_threads k = int (length xs)"

definition table_ok :: "tid list \<Rightarrow> (tid \<Rightarrow> tid list) \<Rightarrow> kern \<Rightarrow> bool" where
  "table_ok xs ch k \<longleftrightarrow> linked_tasks xs ch k \<and> parents_ok (set xs) k \<and> threads_ok (set xs) k \<and> init_ok (set xs) k \<and>
     names_ok xs k \<and> current k \<in> set xs \<and> (\<forall>p\<in>set xs. pstate (procs k p) = ST_ZOMBIE \<longrightarrow> exiting (procs k p))"

lemma table_okD:
  assumes "table_ok xs ch k"
  shows "linked_tasks xs ch k" "ring_is xs k" "children_are ch xs k" "parents_ok (set xs) k" "threads_ok (set xs) k"
    "init_ok (set xs) k" "names_ok xs k" "current k \<in> set xs" "init_task \<notin> set xs" "distinct xs"
    "hash_holds (\<lambda>q. ppid (procs k q)) (set xs) (pidhash k)"
    "\<And>p. p \<in> set xs \<Longrightarrow> pstate (procs k p) = ST_ZOMBIE \<Longrightarrow> exiting (procs k p)"
  using assms by (auto simp: table_ok_def linked_tasks_def ring_is_def names_ok_def)

subsection \<open>Thread groups\<close>

lemma path_funpow: "i < n \<Longrightarrow> path f ((f ^^ i) p) (map (\<lambda>j. (f ^^ j) p) [Suc i..<n]) ((f ^^ n) p)"
proof (induction "n - Suc i" arbitrary: i)
  case 0
  then have "n = Suc i" by simp
  then show ?case by simp
next
  case (Suc d)
  then have "Suc i < n" by simp
  moreover from this have "[Suc i..<n] = Suc i # [Suc (Suc i)..<n]" by (rule upt_conv_Cons)
  ultimately show ?case using Suc.hyps(1) [of "Suc i"] Suc.hyps(2) by simp
qed

text \<open>Following \<open>thread_next\<close> from a task comes back to it, since every task has one predecessor.\<close>

lemma thread_group_exists:
  assumes T: "threads_ok S k" and fin: "finite S" and p: "p \<in> S"
  obtains us where "thread_group k p us" "set us \<subseteq> S"
proof -
  define f :: "tid \<Rightarrow> tid" where "f = (\<lambda>q. thread_next (procs k q))"
  define g :: "tid \<Rightarrow> tid" where "g = (\<lambda>q. thread_prev (procs k q))"
  have fS: "f q \<in> S" and gf: "g (f q) = q" if "q \<in> S" for q :: tid
    using T that by (auto simp: threads_ok_def f_def g_def)
  have S: "(f ^^ i) q \<in> S" if "q \<in> S" for i q using that by (induction i) (auto simp: fS)
  have cancel: "(f ^^ i) q = (f ^^ i) r \<Longrightarrow> q = r" if "q \<in> S" "r \<in> S" for i q r
  proof (induction i)
    case (Suc i)
    then have "g (f ((f ^^ i) q)) = g (f ((f ^^ i) r))" by simp
    then show ?case using Suc.IH gf S that by simp
  qed simp
  have "finite (range (\<lambda>i. (f ^^ i) p))"
    by (rule finite_subset [OF _ fin]) (use S [OF p] in auto)
  then have "\<not> inj (\<lambda>i. (f ^^ i) p)" using finite_imageD [of "\<lambda>i. (f ^^ i) p" UNIV] by auto
  then obtain i' j' where "i' \<noteq> j'" "(f ^^ i') p = (f ^^ j') p" by (auto simp: inj_def)
  then obtain i j where ij: "i < j" "(f ^^ i) p = (f ^^ j) p"
    by (cases "i' < j'") (auto intro: that [of i' j'] that [of j' i'])
  have "(f ^^ j) p = (f ^^ i) ((f ^^ (j - i)) p)"
    using ij(1) funpow_add [of i "j - i" f] by simp
  then have "(f ^^ (j - i)) p = p" by (intro cancel [of _ p i] S p) (simp add: ij(2))
  then have ex: "\<exists>n. 0 < n \<and> (f ^^ n) p = p" using ij(1) zero_less_diff by blast
  define n where "n = (LEAST n. 0 < n \<and> (f ^^ n) p = p)"
  have n: "0 < n" "(f ^^ n) p = p" using LeastI_ex [OF ex] by (simp_all add: n_def)
  have least: "0 < m \<Longrightarrow> m < n \<Longrightarrow> (f ^^ m) p \<noteq> p" for m using not_less_Least [of m] n_def by blast
  let ?us = "map (\<lambda>j. (f ^^ j) p) [Suc 0..<n]"
  have "path f p ?us p" using path_funpow [OF n(1), of f p] unfolding n(2) funpow_0 .
  moreover have "p \<notin> set ?us"
  proof
    assume "p \<in> set ?us"
    then obtain m where "Suc 0 \<le> m" "m < n" "p = (f ^^ m) p" by auto
    then show False using least [of m] by simp
  qed
  moreover have "set ?us \<subseteq> S" using S [OF p] by auto
  ultimately show thesis using that [of ?us] by (simp add: thread_group_def f_def)
qed

text \<open>Putting a task behind another one in its group, and taking it out.\<close>

lemma list_add_thread_fields:
  assumes "thread_next (procs k h) \<noteq> p" "p \<noteq> h"
  shows "thread_next (procs (list_add_thread p h k) q) =
      (if q = h then p else if q = p then thread_next (procs k h) else thread_next (procs k q))"
    and "thread_prev (procs (list_add_thread p h k) q) =
      (if q = p then h else if q = thread_next (procs k h) then p else thread_prev (procs k q))"
  using assms by (auto simp: list_add_thread_def Let_def upd_procs)

lemma list_add_thread_keep:
  "(\<And>t a b. F (t\<lparr>thread_prev := a\<rparr>) = F t) \<Longrightarrow> (\<And>t a b. F (t\<lparr>thread_next := a\<rparr>) = F t) \<Longrightarrow>
   F (procs (list_add_thread p h k) q) = F (procs k q)"
  by (simp add: list_add_thread_def Let_def upd_procs)

lemma threads_okD:
  assumes "threads_ok S k" "p \<in> S"
  shows "thread_next (procs k p) \<in> S" "thread_prev (procs k (thread_next (procs k p))) = p"
    "thread_prev (procs k p) \<in> S" "thread_next (procs k (thread_prev (procs k p))) = p"
  using assms by (simp_all add: threads_ok_def)

lemma threads_ok_inj:
  assumes T: "threads_ok S k" and q: "q \<in> S" and r: "r \<in> S"
  shows "thread_next (procs k q) = thread_next (procs k r) \<Longrightarrow> q = r"
    and "thread_prev (procs k q) = thread_prev (procs k r) \<Longrightarrow> q = r"
proof -
  show "q = r" if e: "thread_next (procs k q) = thread_next (procs k r)"
    using threads_okD(2) [OF T q] unfolding e threads_okD(2) [OF T r] by (rule sym)
  show "q = r" if e: "thread_prev (procs k q) = thread_prev (procs k r)"
    using threads_okD(4) [OF T q] unfolding e threads_okD(4) [OF T r] by (rule sym)
qed

lemma threads_ok_add:
  assumes T: "threads_ok S k" and h: "h \<in> S" and p: "p \<notin> S"
  shows "threads_ok (insert p S) (list_add_thread p h k)"
proof -
  note D = threads_okD [OF T]
  have n: "thread_next (procs k h) \<noteq> p" "p \<noteq> h" using D(1) [OF h] h p by auto
  note f = list_add_thread_fields [OF n]
  show ?thesis
    unfolding threads_ok_def
  proof
    fix q assume q: "q \<in> insert p S"
    show "thread_next (procs (list_add_thread p h k) q) \<in> insert p S \<and>
        thread_prev (procs (list_add_thread p h k) (thread_next (procs (list_add_thread p h k) q))) = q \<and>
        thread_prev (procs (list_add_thread p h k) q) \<in> insert p S \<and>
        thread_next (procs (list_add_thread p h k) (thread_prev (procs (list_add_thread p h k) q))) = q"
    proof (cases "q = p")
      case True
      then show ?thesis unfolding f using n h D(1) [OF h] by auto
    next
      case False
      then have S: "q \<in> S" using q by simp
      have nx: "thread_next (procs k q) \<noteq> p" "thread_prev (procs k q) \<noteq> p" using D(1,3) [OF S] p by auto
      have e: "thread_prev (procs k q) = h \<longleftrightarrow> q = thread_next (procs k h)"
        using D(2) [OF h] D(4) [OF S] by auto
      show ?thesis unfolding f using n h nx e D [OF S] threads_ok_inj(1) [OF T S h] False by auto
    qed
  qed
qed

lemma threads_ok_single:
  "threads_ok S k \<Longrightarrow> p \<notin> S \<Longrightarrow> thread_next (procs k p) = p \<Longrightarrow> thread_prev (procs k p) = p \<Longrightarrow> threads_ok (insert p S) k"
  by (auto simp: threads_ok_def)

lemma list_del_thread_next:
  assumes "thread_prev (procs k (thread_next (procs k p))) = p" "thread_next (procs k (thread_prev (procs k p))) = p"
  shows "thread_next (procs (list_del_thread p k) q) =
      (if q = thread_prev (procs k p) then thread_next (procs k p) else thread_next (procs k q))"
    and "thread_prev (procs (list_del_thread p k) q) =
      (if q = thread_next (procs k p) then thread_prev (procs k p) else thread_prev (procs k q))"
  using assms by (auto simp: list_del_thread_def Let_def upd_procs)

lemma threads_ok_del:
  assumes T: "threads_ok S k" and p: "p \<in> S"
  shows "threads_ok (S - {p}) (list_del_thread p k)"
proof -
  have n: "thread_prev (procs k (thread_next (procs k p))) = p" "thread_next (procs k (thread_prev (procs k p))) = p"
    using T p by (auto simp: threads_ok_def)
  note f = list_del_thread_next [OF n]
  have e: "thread_next (procs k q) = p \<longleftrightarrow> q = thread_prev (procs k p)" "thread_prev (procs k q) = p \<longleftrightarrow> q = thread_next (procs k p)"
    if "q \<in> S" for q using T that n p by (auto simp: threads_ok_def)
  have nS: "thread_next (procs k p) \<in> S" "thread_prev (procs k p) \<in> S" using T p by (auto simp: threads_ok_def)
  note inj = threads_ok_inj [OF T]
  show ?thesis
    unfolding threads_ok_def
  proof (intro ballI conjI)
    fix q assume "q \<in> S - {p}"
    then have q: "q \<in> S" "q \<noteq> p" by auto
    note t = T [unfolded threads_ok_def, rule_format, OF q(1)]
    show "thread_next (procs (list_del_thread p k) q) \<in> S - {p}" unfolding f
      using t nS e(1) [OF q(1)] inj(1) [OF q(1) p] e(1) [OF p] q n by auto
    show "thread_prev (procs (list_del_thread p k) q) \<in> S - {p}" unfolding f
      using t nS e(2) [OF q(1)] inj(2) [OF q(1) p] e(2) [OF p] q n by auto
    show "thread_prev (procs (list_del_thread p k) (thread_next (procs (list_del_thread p k) q))) = q" unfolding f
      using t n e(1) [OF q(1)] inj(1) [OF q(1) p] q by auto
    show "thread_next (procs (list_del_thread p k) (thread_prev (procs (list_del_thread p k) q))) = q" unfolding f
      using t n e(2) [OF q(1)] inj(2) [OF q(1) p] q by auto
  qed
qed

subsection \<open>Changes that keep the table\<close>

lemma ownD:
  assumes "own t = own t'"
  shows "ppid t = ppid t'" "pgrp t = pgrp t'" "session t = session t'" "tgid t = tgid t'" "leader t = leader t'"
    "exiting t = exiting t'" "thread_next t = thread_next t'" "thread_prev t = thread_prev t'"
  using assms by (simp_all add: own_def)

lemma pids_cached_agree:
  assumes "pids_cached S k" "S' \<subseteq> S" "\<And>q x. q \<in> S' \<Longrightarrow> uses_id (procs k' q) x \<longleftrightarrow> uses_id (procs k q) x"
    "last_pid k' = last_pid k" "next_safe k' = next_safe k"
  shows "pids_cached S' k'"
  using assms by (auto simp: pids_cached_def gap_free_def)

lemma table_ok_agree:
  assumes K: "table_ok xs ch k" and L: "linked_tasks xs ch k'"
    and o: "\<And>q. q \<in> set xs \<Longrightarrow> own (procs k' q) = own (procs k q)"
    and pa: "\<And>q. q \<in> set xs \<Longrightarrow> p_pptr (procs k' q) = p_pptr (procs k q)"
      "\<And>q. q \<in> set xs \<Longrightarrow> p_opptr (procs k' q) = p_opptr (procs k q)"
    and z: "\<And>q. q \<in> set xs \<Longrightarrow> pstate (procs k' q) = ST_ZOMBIE \<longleftrightarrow> pstate (procs k q) = ST_ZOMBIE"
    and g: "current k' \<in> set xs" "child_reaper k' = child_reaper k" "pidhash k' = pidhash k" "nr_threads k' = nr_threads k"
    and P: "pids_cached (set xs) k'"
  shows "table_ok xs ch k'"
proof -
  note D = table_okD [OF K] and f = ownD [OF o]
  have live: "live_task (set xs) k' q = live_task (set xs) k q" for q
    using z [of q] by (auto simp: live_task_def)
  have "parents_ok (set xs) k'" using D(4) by (simp add: parents_ok_def live pa)
  moreover have "threads_ok (set xs) k'" using D(5) by (simp add: threads_ok_def f)
  moreover have "init_ok (set xs) k'" using D(6) g(2) f pa by (simp add: init_ok_def Let_def)
  moreover have "hash_holds (\<lambda>q. ppid (procs k' q)) (set xs) (pidhash k')"
    unfolding g(3) using D(11) by (rule hash_holds_agree) (simp add: f)
  moreover have "job_ok (set xs) k'"
    using D(7) unfolding names_ok_def by (elim conjE) (erule job_ok_agree, simp_all add: f)
  ultimately show ?thesis
    using K L P g z f by (simp add: table_ok_def names_ok_def)
qed

lemma linked_tasks_names:
  assumes "linked_tasks xs ch k" "\<And>t. next_task (f t) = next_task t" "\<And>t. prev_task (f t) = prev_task t"
    "\<And>t. p_osptr (f t) = p_osptr t" "\<And>t. p_ysptr (f t) = p_ysptr t" "\<And>t. p_cptr (f t) = p_cptr t"
    "\<And>t. p_pptr (f t) = p_pptr t"
  shows "linked_tasks xs ch (upd p f k)"
  using assms by (auto intro: linked_tasks_upd)

text \<open>A change of the group, or a new session, of a task.\<close>

lemma table_ok_rename:
  assumes K: "table_ok xs ch k" and p: "p \<in> set xs" and J: "job_ok (set xs) (upd p f k)"
    and f: "\<And>t. next_task (f t) = next_task t" "\<And>t. prev_task (f t) = prev_task t" "\<And>t. p_osptr (f t) = p_osptr t"
      "\<And>t. p_ysptr (f t) = p_ysptr t" "\<And>t. p_cptr (f t) = p_cptr t" "\<And>t. p_pptr (f t) = p_pptr t"
      "\<And>t. p_opptr (f t) = p_opptr t" "\<And>t. pstate (f t) = pstate t" "\<And>t. exiting (f t) = exiting t"
      "\<And>t. ppid (f t) = ppid t" "\<And>t. thread_next (f t) = thread_next t" "\<And>t. thread_prev (f t) = thread_prev t"
    and u: "\<And>x. uses_id (f (procs k p)) x \<Longrightarrow> \<exists>q\<in>set xs. uses_id (procs k q) x"
  shows "table_ok xs ch (upd p f k)"
proof -
  note D = table_okD [OF K]
  note ke = upd_keep_field(1) [of p_pptr f, OF f(6)] upd_keep_field(1) [of p_opptr f, OF f(7)]
    upd_keep_field(1) [of pstate f, OF f(8)] upd_keep_field(1) [of exiting f, OF f(9)] upd_keep_field(1) [of ppid f, OF f(10)]
    upd_keep_field(1) [of thread_next f, OF f(11)] upd_keep_field(1) [of thread_prev f, OF f(12)]
  have "pids_cached (set xs) k" using D(7) by (simp add: names_ok_def)
  then have "pids_cached (set xs) (upd p f k)"
    using u by (auto simp: pids_cached_def gap_free_def upd_procs)
  then show ?thesis
    using K J D(1) by (auto simp: table_ok_def names_ok_def parents_ok_def live_task_def threads_ok_def init_ok_def
        Let_def ke intro!: linked_tasks_names f)
qed

lemma hash_inj: "hash_holds f S h \<Longrightarrow> inj_on f S"
  by (simp add: hash_holds_def)

lemma table_ok_setpgid:
  assumes K: "table_ok xs ch k" and r: "sys_setpgid pid pgid k = Some (k', r)"
  shows "table_ok xs ch k'"
proof -
  note D = table_okD [OF K]
  show ?thesis
  proof (rule sys_setpgid_cases [OF r D(2,11)])
    show "table_ok xs ch k'" if "k' = k" using K that by simp
  next
    fix p g
    assume a: "k' = upd p (\<lambda>t. t\<lparr>pgrp := g\<rparr>) k" "p \<in> set xs" "\<not> leader (procs k p)"
      "g = ppid (procs k p) \<or> (\<exists>q\<in>set xs. pgrp (procs k q) = g \<and> session (procs k q) = session (procs k p))"
    have "job_ok (set xs) k" using D(7) by (simp add: names_ok_def)
    then have "job_ok (set xs) k'" unfolding a(1) by (rule job_ok_move [OF _ a(2,3) hash_inj [OF D(11)] a(4)])
    then show "table_ok xs ch k'"
      unfolding a(1) using K a(2) by (intro table_ok_rename) (use a(2,4) in \<open>auto simp: uses_id_def\<close>)
  qed
qed

lemma table_ok_setsid:
  assumes K: "table_ok xs ch k" and r: "sys_setsid k = Some (k', r)"
  shows "table_ok xs ch k'"
proof -
  note D = table_okD [OF K]
  show ?thesis
  proof (rule sys_setsid_cases [OF r D(2)])
    show "table_ok xs ch k'" if "k' = k" using K that by simp
  next
    fix f
    assume a: "k' = upd (current k) f k" "\<forall>q\<in>set xs. pgrp (procs k q) \<noteq> ppid (procs k (current k))"
      and f: "\<And>t. f t = t\<lparr>leader := True, pgrp := ppid t, session := ppid t, tty := False, tty_old_pgrp := 0\<rparr>"
    have "job_ok (set xs) k" using D(7) by (simp add: names_ok_def)
    then have "job_ok (set xs) k'" unfolding a(1) by (rule job_ok_new_session [OF _ hash_inj [OF D(11)] D(8) a(2) f])
    then show "table_ok xs ch k'"
      unfolding a(1) using K D(8) by (intro table_ok_rename) (use D(8) in \<open>auto simp: uses_id_def f\<close>)
  qed
qed

text \<open>An exit: the children have new parents, which are alive.\<close>

lemma table_ok_exit_notify:
  assumes K: "table_ok xs ch k" and e: "exiting (procs k (current k))" and n: "ppid (procs k (current k)) \<noteq> 1"
    and r: "exit_notify A k = Some k'"
  shows "(\<exists>ch'. table_ok xs ch' k') \<and> current k' = current k \<and>
    (\<forall>q. pstate (procs k' q) = (if q = current k then ST_ZOMBIE else pstate (procs k q)))"
proof -
  let ?c = "current k" and ?i = "child_reaper k"
  note D = table_okD [OF K]
  have i: "?i \<in> set xs" "ppid (procs k ?i) = 1" "p_opptr (procs k ?i) = init_task" "p_pptr (procs k ?i) = init_task" "\<not> exiting (procs k ?i)"
    using D(6) by (simp_all add: init_ok_def Let_def)
  have ic: "?i \<noteq> ?c" using n i(2) by auto
  have c0: "?c \<noteq> init_task" using D(8,9) by auto
  obtain us where us: "thread_group k ?c us" "set us \<subseteq> set xs" by (rule thread_group_exists [OF D(5) _ D(8)]) simp
  have pc: "p_pptr (procs k ?c) \<noteq> ?c" using D(4,8) by (simp add: parents_ok_def)
  obtain ch' where same: "same_table k k'" and st: "\<And>q. q \<noteq> ?c \<Longrightarrow> pstate (procs k' q) = pstate (procs k q)"
    and L: "linked_tasks xs ch' k'" and zc: "pstate (procs k' ?c) = ST_ZOMBIE"
    and o: "\<And>q. q \<in> set xs \<Longrightarrow> p_opptr (procs k' q) = new_parent k ?c us q"
    and pp: "\<And>q. q \<in> set xs \<Longrightarrow> p_pptr (procs k' q) = (if p_pptr (procs k q) = ?c then p_opptr (procs k' q) else p_pptr (procs k q))"
    using exit_notify_result [OF D(1) us(1) ic pc, of A] r by auto
  note f = same_tableD [OF same]
  have h: "heir k us \<in> set xs" "\<not> exiting (procs k (heir k us))"
    using us(2) i by (auto simp: heir_def find_Some_iff split: option.splits)
  have hc: "heir k us \<noteq> ?c" using heir_not_self [OF us(1) ic] .
  have live: "live_task (set xs) k' q" if "live_task (set xs) k q" "q \<noteq> ?c" for q
    using that st [of q] by (auto simp: live_task_def)
  have lne: "live_task (set xs) k q" if "q \<in> set xs" "\<not> exiting (procs k q)" for q
    using D(12) [OF that(1)] that by (auto simp: live_task_def)
  have new: "live_task (set xs) k' (new_parent k ?c us q) \<and> new_parent k ?c us q \<noteq> q" if "q \<in> set xs" for q
  proof (cases "p_opptr (procs k q) = ?c")
    case True
    then have "q \<noteq> ?i" using i(3) c0 by auto
    then show ?thesis using True live [OF lne [OF h] hc] live [OF lne [OF i(1,5)] ic] by (auto simp: new_parent_def)
  next
    case False
    then show ?thesis using D(4) that live by (auto simp: new_parent_def parents_ok_def)
  qed
  have "parents_ok (set xs) k'"
    unfolding parents_ok_def
  proof
    fix q assume q: "q \<in> set xs"
    then have "live_task (set xs) k (p_pptr (procs k q))" "p_pptr (procs k q) \<noteq> q" using D(4) by (auto simp: parents_ok_def)
    then show "live_task (set xs) k' (p_pptr (procs k' q)) \<and> live_task (set xs) k' (p_opptr (procs k' q)) \<and>
        p_pptr (procs k' q) \<noteq> q \<and> p_opptr (procs k' q) \<noteq> q"
      using new [OF q] live by (simp add: o [OF q] pp [OF q])
  qed
  moreover have "init_ok (set xs) k'"
    using i ic c0 by (auto simp: init_ok_def Let_def f o [OF i(1)] pp [OF i(1)] new_parent_def)
  moreover have "threads_ok (set xs) k'" using D(5) by (simp add: threads_ok_def f)
  moreover have "names_ok xs k'"
  proof -
    have "job_ok (set xs) k'" using D(7) unfolding names_ok_def by (elim conjE) (erule job_ok_agree, simp_all add: f)
    moreover have "pids_cached (set xs) k'"
      using D(7) unfolding names_ok_def by (elim conjE) (erule pids_cached_agree, simp_all add: f uses_id_def)
    ultimately show ?thesis using D(7) by (simp add: names_ok_def f)
  qed
  moreover have "exiting (procs k' q)" if "q \<in> set xs" "pstate (procs k' q) = ST_ZOMBIE" for q
    using that e st [of q] D(12) by (cases "q = ?c") (simp_all add: f)
  ultimately have "table_ok xs ch' k'" using L D(8) by (simp add: table_ok_def f)
  then show ?thesis using st zc by (auto simp: f)
qed

text \<open>What only writes the globals that the table does not speak of.\<close>

lemma table_ok_globals:
  assumes "table_ok xs ch k" "procs k' = procs k" "same_table k k'"
  shows "table_ok xs ch k'"
  using assms(1)
proof (rule table_ok_agree)
  note D = table_okD [OF assms(1)] and f = same_tableD [OF assms(3)]
  show "linked_tasks xs ch k'" by (rule linked_procs [OF D(1) assms(2)])
  show "pids_cached (set xs) k'"
    using D(7) unfolding names_ok_def by (elim conjE) (erule pids_cached_agree, simp_all add: assms(2) f)
  show "current k' \<in> set xs" using D(8) by (simp add: f)
qed (simp_all add: assms(2) same_tableD [OF assms(3)])

lemma table_ok_emit: "table_ok xs ch k \<Longrightarrow> table_ok xs ch (emit es k)"
  by (erule table_ok_globals) simp_all

subsection \<open>Reaping\<close>

lemma threads_ok_agree:
  "threads_ok S k \<Longrightarrow> (\<And>q. q \<in> S \<Longrightarrow> thread_next (procs k' q) = thread_next (procs k q)) \<Longrightarrow>
   (\<And>q. q \<in> S \<Longrightarrow> thread_prev (procs k' q) = thread_prev (procs k q)) \<Longrightarrow> threads_ok S k'"
  by (simp add: threads_ok_def)

lemma list_del_thread_fields_keep:
  "ppid (procs (list_del_thread p k) q) = ppid (procs k q)" "pgrp (procs (list_del_thread p k) q) = pgrp (procs k q)"
  "session (procs (list_del_thread p k) q) = session (procs k q)" "tgid (procs (list_del_thread p k) q) = tgid (procs k q)"
  "leader (procs (list_del_thread p k) q) = leader (procs k q)" "exiting (procs (list_del_thread p k) q) = exiting (procs k q)"
  "pstate (procs (list_del_thread p k) q) = pstate (procs k q)" "p_pptr (procs (list_del_thread p k) q) = p_pptr (procs k q)"
  "p_opptr (procs (list_del_thread p k) q) = p_opptr (procs k q)"
  by (simp_all add: list_del_thread_def Let_def upd_keep upd_keep_field [where F = exiting])

lemma REMOVE_LINKS_keep:
  "pstate (procs (REMOVE_LINKS p k) q) = pstate (procs k q)" "p_pptr (procs (REMOVE_LINKS p k) q) = p_pptr (procs k q)"
  "p_opptr (procs (REMOVE_LINKS p k) q) = p_opptr (procs k q)"
  by (simp_all add: REMOVE_LINKS_def Let_def upd_keep split: option.splits)

lemmas REMOVE_LINKS_ids = same_tableD [OF links_same_table(2)]
lemmas SET_LINKS_ids = same_tableD [OF links_same_table(1)]

definition removed :: "tid \<Rightarrow> kern \<Rightarrow> kern" where
  "removed p k = list_del_thread p (REMOVE_LINKS p k)"

lemma removed_fields:
  "ppid (procs (removed p k) q) = ppid (procs k q)" "pgrp (procs (removed p k) q) = pgrp (procs k q)"
  "session (procs (removed p k) q) = session (procs k q)" "tgid (procs (removed p k) q) = tgid (procs k q)"
  "leader (procs (removed p k) q) = leader (procs k q)" "exiting (procs (removed p k) q) = exiting (procs k q)"
  "pstate (procs (removed p k) q) = pstate (procs k q)" "p_pptr (procs (removed p k) q) = p_pptr (procs k q)"
  "p_opptr (procs (removed p k) q) = p_opptr (procs k q)"
  by (simp_all add: removed_def list_del_thread_fields_keep REMOVE_LINKS_keep REMOVE_LINKS_ids)

lemma removed_threads:
  assumes "threads_ok S k" "p \<in> S"
  shows "threads_ok (S - {p}) (removed p k)"
  unfolding removed_def using assms(1) by (intro threads_ok_del assms(2)) (simp add: threads_ok_def REMOVE_LINKS_ids)

text \<open>What \<open>release_task\<close> leaves of the other tasks.\<close>

lemma release_task_fields:
  assumes "release_task p k = Inr k'"
  shows "q \<noteq> p \<Longrightarrow> ppid (procs k' q) = ppid (procs k q)" "pgrp (procs k' q) = pgrp (procs k q)"
    "session (procs k' q) = session (procs k q)" "tgid (procs k' q) = tgid (procs k q)"
    "leader (procs k' q) = leader (procs k q)" "exiting (procs k' q) = exiting (procs k q)"
    "pstate (procs k' q) = pstate (procs k q)" "p_pptr (procs k' q) = p_pptr (procs k q)"
    "p_opptr (procs k' q) = p_opptr (procs k q)" "child_reaper k' = child_reaper k"
    "last_pid k' = last_pid k" "next_safe k' = next_safe k"
    "threads_ok S k \<Longrightarrow> p \<in> S \<Longrightarrow> threads_ok (S - {p}) k'"
proof -
  obtain f g k0 where k': "k' = upd p f (upd (current k) g (removed p k0))" and k0: "procs k0 = procs k"
    "child_reaper k0 = child_reaper k" "last_pid k0 = last_pid k" "next_safe k0 = next_safe k"
    and f: "f = ppid_update (\<lambda>_. 0)"
    and g: "\<And>t. ppid (g t) = ppid t" "\<And>t. pgrp (g t) = pgrp t" "\<And>t. session (g t) = session t" "\<And>t. tgid (g t) = tgid t"
      "\<And>t. leader (g t) = leader t" "\<And>t. exiting (g t) = exiting t" "\<And>t. pstate (g t) = pstate t"
      "\<And>t. p_pptr (g t) = p_pptr t" "\<And>t. p_opptr (g t) = p_opptr t" "\<And>t. thread_next (g t) = thread_next t"
      "\<And>t. thread_prev (g t) = thread_prev t"
  proof -
    let ?u = "user_id (procs k p)"
    let ?k0 = "k\<lparr>user_processes := (user_processes k)(?u := user_processes k ?u - 1),
      user_count := (user_count k)(?u := user_count k ?u - 1), nr_threads := nr_threads k - 1,
      pidhash := unhash_pid (\<lambda>q. ppid (procs k q)) p (pidhash k)\<rparr>"
    let ?t = "procs (removed p ?k0) p"
    show thesis
      by (rule that [of "ppid_update (\<lambda>_. 0)" "\<lambda>c. c\<lparr>cmin_flt := cmin_flt c + (min_flt ?t + cmin_flt ?t),
          cmaj_flt := cmaj_flt c + (maj_flt ?t + cmaj_flt ?t), cnswap := cnswap c + (nswap ?t + cnswap ?t)\<rparr>" ?k0])
        (use assms in \<open>auto simp: release_task_def unhash_process_def removed_def Let_def split: if_splits\<close>)
  qed
  note r = removed_fields [of p k0]
  show "q \<noteq> p \<Longrightarrow> ppid (procs k' q) = ppid (procs k q)" "pgrp (procs k' q) = pgrp (procs k q)"
    "session (procs k' q) = session (procs k q)" "tgid (procs k' q) = tgid (procs k q)"
    "leader (procs k' q) = leader (procs k q)" "exiting (procs k' q) = exiting (procs k q)"
    "pstate (procs k' q) = pstate (procs k q)" "p_pptr (procs k' q) = p_pptr (procs k q)"
    "p_opptr (procs k' q) = p_opptr (procs k q)"
    by (simp_all add: k' upd_procs f g r k0(1))
  show "child_reaper k' = child_reaper k" "last_pid k' = last_pid k" "next_safe k' = next_safe k"
    by (simp_all add: k' removed_def REMOVE_LINKS_ids k0 list_del_thread_def Let_def)
  show "threads_ok (S - {p}) k'" if T: "threads_ok S k" "p \<in> S"
  proof -
    have "threads_ok S k0" using T(1) by (simp add: threads_ok_def k0)
    from removed_threads [OF this T(2)] show ?thesis
      by (rule threads_ok_agree) (simp_all add: k' upd_procs f g)
  qed
qed

lemma table_ok_release:
  assumes K: "table_ok xs ch k" and z: "z \<in> set xs" "pstate (procs k z) = ST_ZOMBIE" "z \<noteq> current k"
    and r: "release_task z k = Inr k'"
  shows "\<exists>ch'. table_ok (remove1 z xs) ch' k'"
proof -
  note D = table_okD [OF K] and f = release_task_fields [OF r]
  have S: "set (remove1 z xs) = set xs - {z}" using D(10) by simp
  have i: "child_reaper k \<noteq> z" "child_reaper k \<in> set xs"
    using D(6) D(12) [OF z(1,2)] by (auto simp: init_ok_def Let_def)
  obtain ch' where L: "linked_tasks (remove1 z xs) ch' k'" and H: "hash_holds (\<lambda>q. ppid (procs k' q)) (set xs - {z}) (pidhash k')"
    and g: "nr_threads k' = nr_threads k - 1" "current k' = current k"
    by (rule release_task_result [OF D(1,11) z(1,3)]) (use r in auto)
  have live: "live_task (set xs - {z}) k' q" if "live_task (set xs) k q" for q
    using that z(2) by (auto simp: live_task_def f)
  have "parents_ok (set xs - {z}) k'" using D(4) live by (simp add: parents_ok_def f)
  moreover have "init_ok (set xs - {z}) k'" using D(6) i by (simp add: init_ok_def Let_def f)
  moreover have "threads_ok (set xs - {z}) k'" by (rule f(13) [OF D(5) z(1)])
  moreover have "names_ok (remove1 z xs) k'"
  proof -
    have "job_ok (set xs - {z}) k'"
      using D(7) unfolding names_ok_def by (elim conjE) (erule job_ok_agree, auto simp: f)
    moreover have "pids_cached (set xs - {z}) k'"
      using D(7) unfolding names_ok_def by (elim conjE) (erule pids_cached_agree, auto simp: f uses_id_def)
    moreover have "length xs = Suc (length (remove1 z xs))"
      using length_pos_if_in_set [OF z(1)] z(1) by (simp add: length_remove1)
    ultimately show ?thesis using D(7) H g(1) unfolding names_ok_def S by (simp add: f)
  qed
  ultimately have "table_ok (remove1 z xs) ch' k'"
    using L g(2) z(3) D(8,12) unfolding table_ok_def S by (simp add: f)
  then show ?thesis by blast
qed

lemma table_ok_reparent:
  assumes K: "table_ok xs ch k" and z: "z \<in> set xs"
  shows "\<exists>xs' ch'. table_ok xs' ch' (reparent_traced A z k) \<and> set xs' = set xs"
proof -
  let ?f = "\<lambda>t::ptask. t\<lparr>p_pptr := p_opptr (procs k z)\<rparr>" and ?xs = "remove1 z xs @ [z]"
  define k2 where "k2 = SET_LINKS z (upd z ?f (REMOVE_LINKS z k))"
  note D = table_okD [OF K]
  have S: "set ?xs = set xs" using D(10) z by auto
  obtain ch' where L: "linked_tasks ?xs ch' k2"
    by (rule that [unfolded k2_def, OF reparent_linked [OF D(1) z, where f = ?f and r = "p_opptr (procs k z)"]]) simp_all
  have same: "same_table k k2"
    unfolding k2_def by (rule same_table_trans [OF same_table_trans [OF links_same_table(2) same_table_upd(1)] links_same_table(1)])
      (simp add: own_def)
  have keep: "pstate (procs k2 q) = pstate (procs k q)" "p_opptr (procs k2 q) = p_opptr (procs k q)"
    "p_pptr (procs k2 q) = (if q = z then p_opptr (procs k z) else p_pptr (procs k q))" for q
    unfolding k2_def by (simp_all add: upd_procs REMOVE_LINKS_keep)
  have live: "live_task (set xs) k2 q = live_task (set xs) k q" for q by (simp add: live_task_def keep)
  note f = same_tableD [OF same]
  have e: "reparent_traced A z k = emit [Notify_Parent z (p_pptr (procs k2 z)) (SIGCHLD A)] k2"
    by (simp add: reparent_traced_def Let_def REMOVE_LINKS_keep k2_def)
  have "table_ok ?xs ch' k2"
  proof -
    have "parents_ok (set xs) k2" using D(4) z by (simp add: parents_ok_def live keep)
    moreover have "threads_ok (set xs) k2" using D(5) by (simp add: threads_ok_def f)
    moreover have "init_ok (set xs) k2" using D(6) by (auto simp: init_ok_def Let_def f keep)
    moreover have "job_ok (set xs) k2"
      using D(7) unfolding names_ok_def by (elim conjE) (erule job_ok_agree, simp_all add: f)
    moreover have "pids_cached (set xs) k2"
      using D(7) unfolding names_ok_def by (elim conjE) (erule pids_cached_agree, simp_all add: f uses_id_def)
    moreover have "length ?xs = length xs" using z by (simp add: length_remove1) (metis Suc_pred length_pos_if_in_set)
    ultimately show ?thesis
      using D(7,8,12) L unfolding table_ok_def names_ok_def S by (simp add: f keep)
  qed
  then have "table_ok ?xs ch' (reparent_traced A z k)" unfolding e by (rule table_ok_emit)
  then show ?thesis using S by blast
qed

text \<open>\<open>wait4\<close>: a child that the scan takes is one of the linked tasks, and it is stopped or dead.\<close>

lemma scan_threads_take:
  assumes "scan_threads v nothread k th flag = Some (Some c, b)" "children_are ch xs k"
  shows "v c = Take \<and> c \<in> set xs"
proof -
  have "\<forall>ch xs c b. children_are ch xs k \<and> y = (Some c, b) \<longrightarrow> v c = Take \<and> c \<in> set xs"
    if "scan_threads v nothread k th flag = Some y" for y
  proof (rule scan_threads.raw_induct [where P = "\<lambda>v nothread k th flag y.
      \<forall>ch xs c b. children_are ch xs k \<and> y = (Some c, b) \<longrightarrow> v c = Take \<and> c \<in> set xs", OF _ that])
    fix rec :: "(tid \<Rightarrow> verdict) \<Rightarrow> bool \<Rightarrow> kern \<Rightarrow> tid \<Rightarrow> bool \<Rightarrow> (tid option \<times> bool) option"
    fix v nothread k th flag y
    assume IH: "\<And>v nothread k th flag y. rec v nothread k th flag = Some y \<Longrightarrow>
        \<forall>ch xs c b. children_are ch xs k \<and> y = (Some c, b) \<longrightarrow> v c = Take \<and> c \<in> set xs"
      and ret: "Option.bind (scan_children v k (p_cptr (procs k th)) flag) (\<lambda>r. case r of
         (Some c, f) \<Rightarrow> Some (Some c, f)
       | (None, f) \<Rightarrow> if nothread then Some (None, f)
           else if next_thread k th \<noteq> current k then rec v nothread k (next_thread k th) f
           else Some (None, f)) = Some y"
    show "\<forall>ch xs c b. children_are ch xs k \<and> y = (Some c, b) \<longrightarrow> v c = Take \<and> c \<in> set xs"
    proof (intro allI impI)
      fix ch xs c b
      assume a: "children_are ch xs k \<and> y = (Some c, b)"
      then have C: "children_are ch xs k" by simp
      note s = scan_children_list [OF sibs_olist [OF children_areD(2) [OF C, of th]], of v flag]
      show "v c = Take \<and> c \<in> set xs"
      proof (cases "find (\<lambda>c. v c = Take) (ch th)")
        case None
        then show ?thesis using ret a IH by (auto simp: s split: if_splits)
      next
        case (Some c')
        then have "c' = c" using ret a by (simp add: s)
        moreover have "v c' = Take \<and> c' \<in> set (ch th)" using Some by (auto simp: find_Some_iff)
        ultimately show ?thesis using children_areD(3) [OF C] by blast
      qed
    qed
  qed
  with assms show ?thesis by blast
qed

lemma table_ok_pstate:
  assumes "table_ok xs ch k" "pstate (procs k p) \<noteq> ST_ZOMBIE" "s \<noteq> ST_ZOMBIE"
  shows "table_ok xs ch (upd p (\<lambda>t. t\<lparr>pstate := s\<rparr>) k)"
  using assms(1)
proof (rule table_ok_agree)
  note D = table_okD [OF assms(1)]
  show "linked_tasks xs ch (upd p (\<lambda>t. t\<lparr>pstate := s\<rparr>) k)" using D(1) by (rule linked_tasks_names) simp_all
  show "pids_cached (set xs) (upd p (\<lambda>t. t\<lparr>pstate := s\<rparr>) k)"
    using D(7) unfolding names_ok_def by (elim conjE) (erule pids_cached_agree, simp_all add: upd_keep uses_id_def)
qed (use assms table_okD(8) [OF assms(1)] in \<open>auto simp: upd_procs own_def\<close>)

text \<open>Counters, exit codes and the like of a task.\<close>

lemma table_ok_other:
  assumes "table_ok xs ch k"
    "\<And>t. next_task (f t) = next_task t" "\<And>t. prev_task (f t) = prev_task t" "\<And>t. p_osptr (f t) = p_osptr t"
    "\<And>t. p_ysptr (f t) = p_ysptr t" "\<And>t. p_cptr (f t) = p_cptr t" "\<And>t. p_pptr (f t) = p_pptr t"
    "\<And>t. p_opptr (f t) = p_opptr t" "\<And>t. pstate (f t) = pstate t" "\<And>t. own (f t) = own t"
  shows "table_ok xs ch (upd p f k)"
  using assms(1)
proof (rule table_ok_agree)
  note D = table_okD [OF assms(1)]
  show "linked_tasks xs ch (upd p f k)" using D(1) by (rule linked_tasks_names) (simp_all add: assms)
  show "pids_cached (set xs) (upd p f k)"
    using D(7) unfolding names_ok_def
    by (elim conjE) (erule pids_cached_agree, simp_all add: uses_id_def upd_procs ownD [OF assms(10)])
qed (use assms(7-10) table_okD(8) [OF assms(1)] in \<open>auto simp: upd_procs\<close>)

lemma count_times_other:
  "\<exists>f. count_times p k = upd (current k) f k \<and> (\<forall>t. next_task (f t) = next_task t \<and> prev_task (f t) = prev_task t \<and>
     p_osptr (f t) = p_osptr t \<and> p_ysptr (f t) = p_ysptr t \<and> p_cptr (f t) = p_cptr t \<and> p_pptr (f t) = p_pptr t \<and>
     p_opptr (f t) = p_opptr t \<and> pstate (f t) = pstate t \<and> own (f t) = own t)"
  unfolding count_times_def Let_def by (rule exI, rule conjI, rule refl) (simp add: own_def)

lemma table_ok_count_times:
  assumes "table_ok xs ch k"
  shows "table_ok xs ch (count_times p k)" "pstate (procs (count_times p k) q) = pstate (procs k q)"
    "current (count_times p k) = current k"
proof -
  obtain f where f: "count_times p k = upd (current k) f k" and k: "\<forall>t. next_task (f t) = next_task t \<and>
     prev_task (f t) = prev_task t \<and> p_osptr (f t) = p_osptr t \<and> p_ysptr (f t) = p_ysptr t \<and> p_cptr (f t) = p_cptr t \<and>
     p_pptr (f t) = p_pptr t \<and> p_opptr (f t) = p_opptr t \<and> pstate (f t) = pstate t \<and> own (f t) = own t"
    using count_times_other by blast
  show "table_ok xs ch (count_times p k)" unfolding f using assms by (rule table_ok_other) (use k in auto)
  show "pstate (procs (count_times p k) q) = pstate (procs k q)" "current (count_times p k) = current k"
    using k by (simp_all add: f upd_procs)
qed

definition wait_state :: "wait_out \<Rightarrow> kern" where
  "wait_state out = (case out of Wait_Done k r st \<Rightarrow> k | Wait_Sleep k \<Rightarrow> k)"

lemma verdict_take: "wait_verdict A pid options k p = Take \<Longrightarrow> pstate (procs k p) = ST_STOPPED \<or> pstate (procs k p) = ST_ZOMBIE"
  by (auto simp: wait_verdict_def Let_def split: if_splits)

text \<open>What a call of \<open>wait4\<close> leaves: dead tasks may be gone, nobody else died, and no dead task came back.\<close>

definition reaped :: "tid list \<Rightarrow> kern \<Rightarrow> tid list \<Rightarrow> kern \<Rightarrow> bool" where
  "reaped xs k xs' k' \<longleftrightarrow> set xs' \<subseteq> set xs \<and>
     (\<forall>z. z \<in> set xs \<and> z \<notin> set xs' \<longrightarrow> pstate (procs k z) = ST_ZOMBIE \<and> z \<noteq> current k) \<and> current k' = current k \<and>
     (\<forall>q. pstate (procs k' q) = ST_ZOMBIE \<longleftrightarrow> pstate (procs k q) = ST_ZOMBIE)"

lemma reaped_same: "set xs' = set xs \<Longrightarrow> current k' = current k \<Longrightarrow>
    (\<And>q. pstate (procs k' q) = ST_ZOMBIE \<longleftrightarrow> pstate (procs k q) = ST_ZOMBIE) \<Longrightarrow> reaped xs k xs' k'"
  by (simp add: reaped_def)

lemma reaped_trans:
  assumes "reaped xs k xs1 k1" "set xs2 = set xs1" "current k2 = current k1"
    "\<And>q. pstate (procs k2 q) = ST_ZOMBIE \<longleftrightarrow> pstate (procs k1 q) = ST_ZOMBIE"
  shows "reaped xs k xs2 k2"
  using assms by (simp add: reaped_def)

lemma wait_zombie_table:
  assumes K: "table_ok xs ch k" and z: "z \<in> set xs" "pstate (procs k z) = ST_ZOMBIE" "z \<noteq> current k"
    and r: "wait_zombie A ru stat z k = Inr (k', x, st)"
  shows "(\<exists>xs' ch'. table_ok xs' ch' k' \<and> reaped xs k xs' k') \<and> current k' = current k \<and>
    pstate (procs k' (current k)) = pstate (procs k (current k))"
proof -
  let ?k1 = "count_times z k"
  note c = table_ok_count_times [OF K, of z]
  have L: "k' = reparent_traced A z ?k1 \<Longrightarrow> current k' = current k \<and> pstate (procs k' q) = pstate (procs k q)" for q
    using c(2,3) by (auto simp: reparent_traced_def Let_def upd_procs REMOVE_LINKS_keep REMOVE_LINKS_ids)
  consider "k' = ?k1" | "k' = reparent_traced A z ?k1" | "release_task z ?k1 = Inr k'"
    using r by (cases "release_task z ?k1") (auto simp: wait_zombie_def Let_def split: if_splits)
  then show ?thesis
  proof cases
    case 1
    then show ?thesis using c reaped_same [OF refl] by metis
  next
    case 2
    obtain xs' ch' where "table_ok xs' ch' k'" "set xs' = set xs" using table_ok_reparent [OF c(1) z(1), of A] 2 by metis
    then show ?thesis using L [OF 2] reaped_same by metis
  next
    case 3
    have z1: "pstate (procs ?k1 z) = ST_ZOMBIE" "z \<noteq> current ?k1" using z c(2,3) by simp_all
    note D = table_okD [OF c(1)]
    have "current k' = current ?k1" by (rule release_task_result [OF D(1,11) z(1) z1(2)]) (use 3 in auto)
    moreover have "set (remove1 z xs) = set xs - {z}" using D(10) by simp
    ultimately have "reaped xs k (remove1 z xs) k'"
      using z release_task_fields(7) [OF 3] c(2,3) by (auto simp: reaped_def)
    then show ?thesis
      using table_ok_release [OF c(1) z(1) z1 3] release_task_fields(7) [OF 3] c(2) by (auto simp: reaped_def)
  qed
qed

lemma table_ok_wait:
  assumes K: "table_ok xs ch k" and run: "pstate (procs k (current k)) = ST_RUNNING"
    and r: "sys_wait4 A sigs pid stat options ru k = Some (Inr out)"
  shows "\<exists>xs' ch'. table_ok xs' ch' (wait_state out) \<and> reaped xs k xs' (wait_state out)"
proof -
  let ?c = "current k"
  define k0 where "k0 = upd ?c (\<lambda>t. t\<lparr>pstate := ST_INTERRUPTIBLE\<rparr>) k"
  have K0: "table_ok xs ch k0" "current k0 = ?c" "pstate (procs k0 ?c) = ST_INTERRUPTIBLE"
    using table_ok_pstate [OF K, of ?c ST_INTERRUPTIBLE] run
    by (simp_all add: k0_def upd_procs ST_RUNNING_def ST_ZOMBIE_def ST_INTERRUPTIBLE_def)
  have Z: "pstate (procs k0 q) = ST_ZOMBIE \<longleftrightarrow> pstate (procs k q) = ST_ZOMBIE" for q
    using run by (simp add: k0_def upd_procs ST_INTERRUPTIBLE_def ST_RUNNING_def ST_ZOMBIE_def)
  have R0: "reaped xs k xs' k'" if "reaped xs k0 xs' k'" for xs' k'
    using that Z K0(2) by (simp add: reaped_def)
  have fin: "\<exists>xs' ch'. table_ok xs' ch' (wait_state (wait_end (k', x, st))) \<and> reaped xs k xs' (wait_state (wait_end (k', x, st)))"
    if w: "\<exists>xs' ch'. table_ok xs' ch' k' \<and> reaped xs k0 xs' k'" "current k' = ?c" "pstate (procs k' ?c) = ST_INTERRUPTIBLE" for k' x st
  proof -
    let ?k = "upd ?c (\<lambda>t. t\<lparr>pstate := ST_RUNNING\<rparr>) k'"
    obtain xs' ch' where t: "table_ok xs' ch' k'" "reaped xs k0 xs' k'" using w(1) by blast
    have "table_ok xs' ch' ?k"
      by (rule table_ok_pstate [OF t(1)]) (simp_all add: w(3) ST_INTERRUPTIBLE_def ST_ZOMBIE_def ST_RUNNING_def)
    moreover have "reaped xs k xs' ?k"
      by (rule reaped_trans [OF R0 [OF t(2)] refl])
        (simp_all add: upd_procs w(3) ST_INTERRUPTIBLE_def ST_ZOMBIE_def ST_RUNNING_def)
    ultimately show ?thesis using w(2) by (auto simp: wait_end_def wait_state_def)
  qed
  have stopped: "\<exists>xs' ch'. table_ok xs' ch' (wait_state (wait_end (wait_stopped ru stat p k0))) \<and>
      reaped xs k xs' (wait_state (wait_end (wait_stopped ru stat p k0)))" for p
  proof -
    obtain k' x st where w: "wait_stopped ru stat p k0 = (k', x, st)" by (metis prod_cases3)
    have "k' = k0 \<or> k' = upd p (\<lambda>t. t\<lparr>exit_code := 0\<rparr>) k0" using w by (auto simp: wait_stopped_def Let_def split: if_splits)
    moreover have "table_ok xs ch (upd p (\<lambda>t. t\<lparr>exit_code := 0\<rparr>) k0)" by (rule table_ok_other [OF K0(1)]) (simp_all add: own_def)
    moreover have "reaped xs k0 xs k0" "reaped xs k0 xs (upd p (\<lambda>t. t\<lparr>exit_code := 0\<rparr>) k0)"
      by (rule reaped_same; simp add: upd_keep)+
    ultimately show ?thesis unfolding w using K0 by (intro fin) (auto simp: upd_keep)
  qed
  show ?thesis
  proof (cases "options AND NOT (WNOHANG A OR WUNTRACED A OR WNOTHREAD A OR WCLONE A OR WALL A) \<noteq> 0")
    case True
    then have "wait_state out = k" using r by (auto simp: sys_wait4_def wait_state_def)
    then show ?thesis using K reaped_same [of xs xs k k] by auto
  next
    case False
    let ?sc = "scan_threads (wait_verdict A pid options k0) (options AND WNOTHREAD A \<noteq> 0) k0 ?c False"
    have "sys_wait4 A sigs pid stat options ru k = map_option (\<lambda>(found, flag). case found of
          Some p \<Rightarrow> if pstate (procs k0 p) = ST_STOPPED then Inr (wait_end (wait_stopped ru stat p k0))
              else map_sum id wait_end (wait_zombie A ru stat p k0)
        | None \<Rightarrow> if flag then
                (if options AND WNOHANG A \<noteq> 0 then Inr (wait_end (k0, 0, None))
                 else if sigs then Inr (wait_end (k0, - ERESTARTSYS A, None)) else Inr (Wait_Sleep k0))
              else Inr (wait_end (k0, - ECHILD, None))) ?sc"
      unfolding sys_wait4_def Let_def k0_def [symmetric] K0(2) by (simp only: False if_False)
    note e = this [unfolded r]
    then obtain found flag where sc: "?sc = Some (found, flag)" by (cases ?sc) auto
    note e = e [unfolded sc option.map prod.case option.inject]
    show ?thesis
    proof (cases found)
      case None
      then have "(\<exists>x. out = wait_end (k0, x, None)) \<or> out = Wait_Sleep k0" using e by (auto split: if_splits)
      then show ?thesis
      proof
        assume "\<exists>x. out = wait_end (k0, x, None)"
        then show ?thesis using fin [OF _ K0(2,3)] K0(1) reaped_same [of xs xs k0 k0] by blast
      next
        assume "out = Wait_Sleep k0"
        then have "wait_state out = k0" by (simp add: wait_state_def)
        then show ?thesis using K0(1) R0 [OF reaped_same [of xs xs k0 k0]] by auto
      qed
    next
      case (Some z)
      note t = scan_threads_take [OF sc [unfolded Some] table_okD(3) [OF K0(1)]]
      show ?thesis
      proof (cases "pstate (procs k0 z) = ST_STOPPED")
        case True
        then have "out = wait_end (wait_stopped ru stat z k0)"
          using e Some by simp
        then show ?thesis using stopped by simp
      next
        case False
        then have z: "pstate (procs k0 z) = ST_ZOMBIE" using verdict_take t by blast
        then have zc: "z \<noteq> current k0" using K0 by (auto simp: ST_INTERRUPTIBLE_def ST_ZOMBIE_def)
        obtain w where w: "wait_zombie A ru stat z k0 = Inr w" "out = wait_end w"
          using e Some False by (cases "wait_zombie A ru stat z k0") auto
        obtain k' x st where ww: "w = (k', x, st)" by (metis prod_cases3)
        from wait_zombie_table [OF K0(1) conjunct2 [OF t] z zc w(1) [unfolded ww]] show ?thesis
          unfolding w(2) ww using K0(2,3) by (intro fin) simp_all
      qed
    qed
  qed
qed

end
