(* ===== verification/Proc_Table_Fork.thy ===== *)
theory Proc_Table_Fork
  imports Proc_Table
begin

text \<open>
  HW1, the process table after \<open>do_fork\<close>: a call that succeeds adds one task, with a pid that nothing used,
  behind its parent; one that fails leaves the table as it was.
\<close>

lemma ring_is_agree_on:
  assumes "ring_is xs k" "\<And>q. q \<in> insert init_task (set xs) \<Longrightarrow> next_task (procs k' q) = nxt k q"
    "\<And>q. q \<in> insert init_task (set xs) \<Longrightarrow> prev_task (procs k' q) = prv k q"
  shows "ring_is xs k'"
  using assms by (auto simp: ring_is_def elim!: path_agree)

lemma linked_tasks_agree_on:
  assumes L: "linked_tasks xs ch k"
    and q: "\<And>q. q \<in> insert init_task (set xs) \<Longrightarrow> next_task (procs k' q) = nxt k q"
      "\<And>q. q \<in> insert init_task (set xs) \<Longrightarrow> prev_task (procs k' q) = prv k q"
      "\<And>q. q \<in> set xs \<Longrightarrow> p_osptr (procs k' q) = older k q" "\<And>q. q \<in> set xs \<Longrightarrow> p_ysptr (procs k' q) = younger k q"
      "\<And>q. q \<in> set xs \<Longrightarrow> p_pptr (procs k' q) = parent k q" "\<And>q. p_cptr (procs k' q) = p_cptr (procs k q)"
  shows "linked_tasks xs ch k'"
proof -
  have R: "ring_is xs k" and C: "children_are ch xs k" using L by (simp_all add: linked_tasks_def)
  have "ring_is xs k'" using R q(1,2) by (rule ring_is_agree_on)
  moreover have "children_are ch xs k'"
    unfolding children_are_def
  proof (intro conjI allI)
    fix p
    note D = children_areD [OF C]
    show "distinct (ch p)" by (rule D(1))
    show "sibs (older k') (younger k') None (p_cptr (procs k' p)) (ch p)"
      unfolding q(6) using D(2) [of p] by (rule sibs_agree) (use D(3) [of _ p] q(3,4) in auto)
    show "c \<in> set (ch p) \<longleftrightarrow> c \<in> set xs \<and> parent k' c = p" for c using D(3) [of c p] q(5) by auto
  qed
  ultimately show ?thesis by (simp add: linked_tasks_def)
qed

lemma no_children:
  assumes K: "table_ok xs ch k" and p: "p \<notin> set xs" "p \<noteq> init_task"
  shows "ch p = []" "p_cptr (procs k p) = None"
proof -
  note D = table_okD [OF K] and C = children_areD [OF table_okD(3) [OF K]]
  have "c \<notin> set (ch p)" for c
    using C(3) [of c p] D(4) p by (auto simp: parents_ok_def live_task_def)
  then show "ch p = []" by (cases "ch p") auto
  with C(2) [of p] show "p_cptr (procs k p) = None" by simp
qed

lemma table_ok_new_task:
  assumes K: "table_ok xs ch k" and p: "p \<notin> set xs" "p \<noteq> init_task"
    and same: "\<And>q. q \<noteq> p \<Longrightarrow> procs k' q = procs k q" and c: "p_cptr (procs k' p) = None"
    and g: "current k' = current k" "child_reaper k' = child_reaper k" "pidhash k' = pidhash k" "nr_threads k' = nr_threads k"
    and P: "pids_cached (set xs) k'"
  shows "table_ok xs ch k'"
  using K
proof (rule table_ok_agree)
  note D = table_okD [OF K]
  have s: "q \<in> set xs \<Longrightarrow> procs k' q = procs k q" for q by (rule same) (use p in auto)
  show "linked_tasks xs ch k'"
    using D(1) by (rule linked_tasks_agree_on) (use s same p c no_children(2) [OF K p] in auto, metis)
  show "own (procs k' q) = own (procs k q)" "p_pptr (procs k' q) = p_pptr (procs k q)" "p_opptr (procs k' q) = p_opptr (procs k q)"
    "(pstate (procs k' q) = ST_ZOMBIE) = (pstate (procs k q) = ST_ZOMBIE)" if "q \<in> set xs" for q
    by (simp_all add: s [OF that])
  show "current k' \<in> set xs" using D(8) g by simp
qed (use g P in simp_all)

lemma job_ok_fork:
  assumes J: "job_ok S k" and c: "c \<in> S" and p: "pgrp (procs k p) = pgrp (procs k c)" "session (procs k p) = session (procs k c)"
    "\<not> leader (procs k p)" and n: "\<not> used_id S k (ppid (procs k p))"
  shows "job_ok (insert p S) k"
proof (rule job_okI)
  have u: "q \<in> S \<Longrightarrow> pgrp (procs k q) \<noteq> ppid (procs k p)" for q using n by (auto simp: used_id_def uses_id_def)
  have e: "q \<in> S \<Longrightarrow> pgrp (procs k q) = pgrp (procs k c) \<Longrightarrow> session (procs k q) = session (procs k c)" for q
    by (rule job_okD(1) [OF J _ c])
  show "session (procs k x) = session (procs k y)"
    if a: "x \<in> insert p S" "y \<in> insert p S" "pgrp (procs k x) = pgrp (procs k y)" for x y
  proof (cases "x = p")
    case True
    then show ?thesis using a e [of y] p by (cases "y = p") simp_all
  next
    case False
    then show ?thesis using a e [of x] p job_okD(1) [OF J, of x y] by (cases "y = p") simp_all
  qed
  show "session (procs k y) = session (procs k x)"
    if a: "x \<in> insert p S" "y \<in> insert p S" "pgrp (procs k y) = ppid (procs k x)" for x y
  proof (cases "x = p")
    case True
    then show ?thesis using a u [of y] u [OF c] p(1) by (cases "y = p") simp_all
  next
    case False
    then show ?thesis using a p job_okD(2) [OF J, of x c] c job_okD(2) [OF J, of x y] by (cases "y = p") simp_all
  qed
  show "session (procs k x) = ppid (procs k x) \<and> pgrp (procs k x) = ppid (procs k x)"
    if "x \<in> insert p S" "leader (procs k x)" for x
    using that job_okD(3,4) [OF J, of x] p(3) by auto
qed

subsection \<open>The child becomes visible\<close>

text \<open>The child and its thread group, before it is linked.\<close>

definition fork_linkless :: "u32 \<Rightarrow> tid \<Rightarrow> kern \<Rightarrow> kern" where
  "fork_linkless flags p k =
     (let cur = current k;
          k1 = upd p (fork_ready flags p) k;
          k2 = upd p (fork_parents flags cur (procs k1 cur)) k1
      in if flags AND CLONE_THREAD \<noteq> 0
         then list_add_thread p cur (upd p (\<lambda>t. t\<lparr>tgid := tgid (procs k2 cur)\<rparr>) k2) else k2)"

lemma fork_publish_linkless:
  obtains k5 es where "k5 = SET_LINKS p (fork_linkless flags p k)"
    "fork_publish E flags p k = upd p (\<lambda>t. t\<lparr>pstate := ST_RUNNING\<rparr>) (emit es (k5\<lparr>pidhash :=
       hash_pid (\<lambda>q. ppid (procs k5 q)) p (pidhash k5), nr_threads := nr_threads k5 + 1\<rparr>))
       \<lparr>total_forks := total_forks k + 1\<rparr>"
proof -
  let ?k5 = "SET_LINKS p (fork_linkless flags p k)"
  have e: "emit [] k' = k'" for k' by (simp add: emit_def)
  have t: "total_forks ?k5 = total_forks k"
    by (simp add: fork_linkless_def SET_LINKS_def list_add_thread_def Let_def)
  show thesis
    by (rule that [of ?k5 "if ptrace (procs ?k5 p) AND PT_PTRACED_FLAG \<noteq> 0 then [Send_Sig (SIGSTOP E) p] else []"])
      (use t e in \<open>simp_all add: fork_publish_def fork_linkless_def Let_def emit_def\<close>)
qed

lemma SET_LINKS_max: "max_threads (SET_LINKS p k) = max_threads k" "max_threads (REMOVE_LINKS p k) = max_threads k"
  by (simp_all add: SET_LINKS_def REMOVE_LINKS_def Let_def split: option.split)

lemma fork_linkless_globals:
  "max_threads (fork_linkless flags p k) = max_threads k"
  "current (fork_linkless flags p k) = current k" "child_reaper (fork_linkless flags p k) = child_reaper k"
  "pidhash (fork_linkless flags p k) = pidhash k" "nr_threads (fork_linkless flags p k) = nr_threads k"
  "last_pid (fork_linkless flags p k) = last_pid k" "next_safe (fork_linkless flags p k) = next_safe k"
  by (simp_all add: fork_linkless_def list_add_thread_def Let_def)

lemma fork_linkless_keep:
  assumes "\<And>t a. F (t\<lparr>thread_prev := a\<rparr>) = F t" "\<And>t a. F (t\<lparr>thread_next := a\<rparr>) = F t"
  shows "q \<noteq> p \<Longrightarrow> F (procs (fork_linkless flags p k) q) = F (procs k q)"
  using assms by (simp add: fork_linkless_def list_add_thread_def Let_def upd_procs)

lemmas fork_linkless_other =
  fork_linkless_keep [where F = ppid, simplified] fork_linkless_keep [where F = pgrp, simplified]
  fork_linkless_keep [where F = session, simplified] fork_linkless_keep [where F = tgid, simplified]
  fork_linkless_keep [where F = leader, simplified] fork_linkless_keep [where F = exiting, simplified]
  fork_linkless_keep [where F = pstate, simplified] fork_linkless_keep [where F = p_pptr, simplified]
  fork_linkless_keep [where F = p_opptr, simplified] fork_linkless_keep [where F = p_cptr, simplified]
  fork_linkless_keep [where F = p_osptr, simplified] fork_linkless_keep [where F = p_ysptr, simplified]
  fork_linkless_keep [where F = next_task, simplified] fork_linkless_keep [where F = prev_task, simplified]

lemma fork_linkless_child:
  assumes "p \<noteq> current k"
  shows "ppid (procs (fork_linkless flags p k) p) = ppid (procs k p)"
    "pgrp (procs (fork_linkless flags p k) p) = pgrp (procs k p)"
    "session (procs (fork_linkless flags p k) p) = session (procs k p)"
    "leader (procs (fork_linkless flags p k) p) = leader (procs k p)"
    "p_cptr (procs (fork_linkless flags p k) p) = p_cptr (procs k p)"
    "tgid (procs (fork_linkless flags p k) p) = ppid (procs k p) \<or>
     tgid (procs (fork_linkless flags p k) p) = tgid (procs k (current k))"
    "p_opptr (procs (fork_linkless flags p k) p) \<in> {current k, p_opptr (procs k (current k))}"
    "p_pptr (procs (fork_linkless flags p k) p) \<in> {current k, p_pptr (procs k (current k))}"
  using assms by (auto simp: fork_linkless_def list_add_thread_def Let_def upd_procs fork_ready_def fork_parents_def)

lemma fork_linkless_threads:
  assumes T: "threads_ok S k" and c: "current k \<in> S" and p: "p \<notin> S"
  shows "threads_ok (insert p S) (fork_linkless flags p k)"
proof -
  define k2 where "k2 = upd p (fork_parents flags (current k) (procs k (current k))) (upd p (fork_ready flags p) k)"
  have pc: "p \<noteq> current k" using c p by auto
  have n: "q \<noteq> p \<Longrightarrow> procs k2 q = procs k q" for q by (simp add: k2_def upd_procs)
  have "q \<in> S \<Longrightarrow> procs k2 q = procs k q" for q by (rule n) (use p in auto)
  then have T2: "threads_ok S k2" using T by (simp add: threads_ok_def)
  have s: "thread_next (procs k2 p) = p" "thread_prev (procs k2 p) = p"
    by (simp_all add: k2_def upd_procs fork_ready_def fork_parents_def)
  have e: "fork_linkless flags p k =
      (if flags AND CLONE_THREAD \<noteq> 0 then list_add_thread p (current k) (upd p (\<lambda>t. t\<lparr>tgid := tgid (procs k2 (current k))\<rparr>) k2) else k2)"
    using pc by (simp add: fork_linkless_def k2_def Let_def upd_procs)
  have "threads_ok S (upd p (\<lambda>t. t\<lparr>tgid := tgid (procs k2 (current k))\<rparr>) k2)"
    using T2 by (rule threads_ok_agree) (simp_all add: upd_procs)
  from threads_ok_add [OF this c p] threads_ok_single [OF T2 p s] show ?thesis unfolding e by simp
qed

lemma fork_publish_child:
  assumes "p \<noteq> current k"
  shows "ppid (procs (fork_publish E flags p k) p) = ppid (procs k p)"
    "p_opptr (procs (fork_publish E flags p k) p) = (if flags AND CLONE_PARENT = 0 then current k else p_opptr (procs k (current k)))"
    "p_pptr (procs (fork_publish E flags p k) p) =
      (if flags AND CLONE_PARENT = 0 \<and> ptrace (procs k p) AND PT_PTRACED_FLAG = 0 then current k else p_pptr (procs k (current k)))"
    "pstate (procs (fork_publish E flags p k) (current k)) = pstate (procs k (current k))"
    "current (fork_publish E flags p k) = current k" "max_threads (fork_publish E flags p k) = max_threads k"
proof -
  obtain k5 es where k5: "k5 = SET_LINKS p (fork_linkless flags p k)" and e: "fork_publish E flags p k =
      upd p (\<lambda>t. t\<lparr>pstate := ST_RUNNING\<rparr>) (emit es (k5\<lparr>pidhash := hash_pid (\<lambda>q. ppid (procs k5 q)) p (pidhash k5),
        nr_threads := nr_threads k5 + 1\<rparr>))\<lparr>total_forks := total_forks k + 1\<rparr>"
    by (rule fork_publish_linkless)
  show "ppid (procs (fork_publish E flags p k) p) = ppid (procs k p)"
    unfolding e k5 by (simp add: upd_procs fork_linkless_child(1) [OF assms])
  show "p_opptr (procs (fork_publish E flags p k) p) = (if flags AND CLONE_PARENT = 0 then current k else p_opptr (procs k (current k)))"
    unfolding e k5 using assms
    by (simp add: upd_procs fork_linkless_def list_add_thread_def Let_def fork_ready_def fork_parents_def)
  show "p_pptr (procs (fork_publish E flags p k) p) =
      (if flags AND CLONE_PARENT = 0 \<and> ptrace (procs k p) AND PT_PTRACED_FLAG = 0 then current k else p_pptr (procs k (current k)))"
    unfolding e k5 using assms
    by (simp add: upd_procs fork_linkless_def list_add_thread_def Let_def fork_ready_def fork_parents_def)
  show "pstate (procs (fork_publish E flags p k) (current k)) = pstate (procs k (current k))"
    unfolding e k5 using assms by (simp add: upd_procs SET_LINKS_ids fork_linkless_other(7))
  show "current (fork_publish E flags p k) = current k" "max_threads (fork_publish E flags p k) = max_threads k"
    unfolding e k5 by (simp_all add: SET_LINKS_ids fork_linkless_globals SET_LINKS_max emit_def)
qed

lemma table_ok_fork_publish:
  assumes K: "table_ok xs ch k" and run: "pstate (procs k (current k)) \<noteq> ST_ZOMBIE"
    and p: "p \<notin> set xs" "p \<noteq> init_task"
    and same: "\<And>q. q \<noteq> p \<Longrightarrow> procs kp q = procs k q"
    and g: "current kp = current k" "child_reaper kp = child_reaper k" "pidhash kp = pidhash k" "nr_threads kp = nr_threads k"
    and P: "pids_cached (set xs) kp" "last_pid kp = ppid (procs kp p)" "\<not> used_id (set xs) k (ppid (procs kp p))"
      "0 < ppid (procs kp p)"
    and c: "pgrp (procs kp p) = pgrp (procs k (current k))" "session (procs kp p) = session (procs k (current k))"
      "\<not> leader (procs kp p)" "p_cptr (procs kp p) = None"
  shows "\<exists>ch'. table_ok (xs @ [p]) ch' (fork_publish E flags p kp)"
proof -
  let ?c = "current k" and ?S = "set xs"
  note D = table_okD [OF K]
  have Kp: "table_ok xs ch kp" by (rule table_ok_new_task [OF K p same c(4) g P(1)])
  note Dp = table_okD [OF Kp]
  have pc: "p \<noteq> current kp" using D(8) p g by auto
  have sS: "q \<in> ?S \<Longrightarrow> procs kp q = procs k q" for q by (rule same) (use p in auto)
  have run': "pstate (procs kp ?c) \<noteq> ST_ZOMBIE" using run sS [OF D(8)] by simp
  define k3 where "k3 = fork_linkless flags p kp"
  obtain k5 es where k5: "k5 = SET_LINKS p k3" and fin: "fork_publish E flags p kp =
      upd p (\<lambda>t. t\<lparr>pstate := ST_RUNNING\<rparr>) (emit es (k5\<lparr>pidhash := hash_pid (\<lambda>q. ppid (procs k5 q)) p (pidhash k5),
        nr_threads := nr_threads k5 + 1\<rparr>))\<lparr>total_forks := total_forks kp + 1\<rparr>"
    using fork_publish_linkless [of p flags kp E] unfolding k3_def by metis
  note o3 = fork_linkless_other [of _ p flags kp, folded k3_def] and c3 = fork_linkless_child [OF pc, of flags, folded k3_def]
    and g3 = fork_linkless_globals [of flags p kp, folded k3_def]
  have L3: "linked_tasks xs ch k3"
    using Dp(1) by (rule linked_tasks_agree_on) (use o3 p c(4) c3(5) no_children(2) [OF Kp p] in \<open>metis insert_iff\<close>)+
  have L5: "linked_tasks (xs @ [p]) (ch(parent k3 p := p # ch (parent k3 p))) k5"
    unfolding k5 by (rule SET_LINKS_linked [OF L3 p])
  define k' where "k' = fork_publish E flags p kp"
  note i5 = SET_LINKS_ids [of p k3, folded k5]
  have f: "ppid (procs k' q) = ppid (procs k3 q)" "pgrp (procs k' q) = pgrp (procs k3 q)"
    "session (procs k' q) = session (procs k3 q)" "tgid (procs k' q) = tgid (procs k3 q)"
    "leader (procs k' q) = leader (procs k3 q)" "exiting (procs k' q) = exiting (procs k3 q)"
    "thread_next (procs k' q) = thread_next (procs k3 q)" "thread_prev (procs k' q) = thread_prev (procs k3 q)"
    "p_pptr (procs k' q) = p_pptr (procs k3 q)" "p_opptr (procs k' q) = p_opptr (procs k3 q)"
    "pstate (procs k' q) = (if q = p then ST_RUNNING else pstate (procs k3 q))" for q
    unfolding k'_def fin by (simp_all add: upd_procs i5, simp_all add: k5)
  have gg: "current k' = ?c" "child_reaper k' = child_reaper k" "nr_threads k' = nr_threads k + 1"
    "last_pid k' = last_pid kp" "next_safe k' = next_safe kp" "pidhash k' = hash_pid (\<lambda>q. ppid (procs k3 q)) p (pidhash k)"
    unfolding k'_def fin by (simp_all add: i5 g3 g fun_eq_iff)
  have L: "linked_tasks (xs @ [p]) (ch(parent k3 p := p # ch (parent k3 p))) k'"
    unfolding k'_def fin using L5 by (rule linked_tasks_agree) (simp_all add: upd_keep fun_eq_iff)
  have S': "set (xs @ [p]) = insert p ?S" by simp
  have live: "live_task (insert p ?S) k' q" if "live_task ?S kp q" for q
    using that o3(7) [of q] p by (auto simp: live_task_def f)
  have lc: "live_task ?S kp ?c" using D(8) run' by (simp add: live_task_def)
  have pa: "live_task ?S kp (p_pptr (procs kp q)) \<and> live_task ?S kp (p_opptr (procs kp q)) \<and>
      p_pptr (procs kp q) \<noteq> q \<and> p_opptr (procs kp q) \<noteq> q" if "q \<in> ?S" for q
    using Dp(4) that by (simp add: parents_ok_def)
  have lp: "live_task ?S kp q \<Longrightarrow> q \<noteq> p" for q using p by (auto simp: live_task_def)
  have "parents_ok (insert p ?S) k'"
    unfolding parents_ok_def
  proof
    fix q assume "q \<in> insert p ?S"
    then show "live_task (insert p ?S) k' (p_pptr (procs k' q)) \<and> live_task (insert p ?S) k' (p_opptr (procs k' q)) \<and>
        p_pptr (procs k' q) \<noteq> q \<and> p_opptr (procs k' q) \<noteq> q"
    proof
      assume q: "q = p"
      have "live_task ?S kp (p_pptr (procs k3 p))" "live_task ?S kp (p_opptr (procs k3 p))"
        using c3(7,8) lc pa [OF D(8)] g(1) by auto
      then show ?thesis unfolding q f using live lp by blast
    next
      assume q: "q \<in> ?S"
      then have "q \<noteq> p" using p by auto
      then show ?thesis unfolding f o3(8,9) [OF \<open>q \<noteq> p\<close>] using live pa [OF q] by blast
    qed
  qed
  moreover have "threads_ok (insert p ?S) k'"
    using fork_linkless_threads [OF Dp(5,8) p(1), of flags] unfolding k3_def [symmetric] by (simp add: threads_ok_def f)
  moreover have "init_ok (insert p ?S) k'"
  proof -
    have i: "child_reaper k \<in> ?S" "child_reaper k \<noteq> p" using Dp(6) p g by (auto simp: init_ok_def Let_def)
    then show ?thesis using Dp(6) g by (simp add: init_ok_def Let_def f gg o3)
  qed
  moreover have "names_ok (xs @ [p]) k'"
  proof -
    have id: "ppid (procs k3 p) = ppid (procs kp p)" by (rule c3(1))
    have u: "uses_id (procs k3 q) x \<longleftrightarrow> uses_id (procs k q) x" if "q \<in> ?S" for q x
    proof -
      have "q \<noteq> p" using that p by auto
      then show ?thesis using o3 [of q] same [of q] by (simp add: uses_id_def)
    qed
    have nu: "\<not> used_id ?S k3 (ppid (procs k3 p))" using P(3) u by (simp add: used_id_def id)
    have "hash_holds (\<lambda>q. ppid (procs k3 q)) ?S (pidhash k)"
      using D(11) by (rule hash_holds_agree) (use o3(1) same p in metis)
    then have "hash_holds (\<lambda>q. ppid (procs k3 q)) (insert p ?S) (pidhash k')"
      unfolding gg by (rule hash_pid_holds) (use nu in \<open>auto simp: used_id_def uses_id_def\<close>)
    moreover have "job_ok (insert p ?S) k3"
    proof (rule job_ok_fork [OF _ D(8) _ _ _ nu])
      have "q \<in> ?S \<Longrightarrow> q \<noteq> p" for q using p by auto
      then show "job_ok ?S k3" using Dp(7) unfolding names_ok_def by (elim conjE) (erule job_ok_agree, simp_all add: o3)
      have "?c \<noteq> p" using pc g by simp
      then show "pgrp (procs k3 p) = pgrp (procs k3 ?c)" "session (procs k3 p) = session (procs k3 ?c)" "\<not> leader (procs k3 p)"
        using c c3 o3(2,3) [of ?c] same [of ?c] by simp_all
    qed
    then have "job_ok (insert p ?S) k'" by (rule job_ok_agree) (simp_all add: f)
    moreover have "pids_cached (insert p ?S) k'"
    proof -
      have gap: "\<not> uses_id (procs k q) x" if "q \<in> ?S" "last_pid kp < x" "x < next_safe kp" for q x
        using P(1) that sS by (auto simp: pids_cached_def gap_free_def)
      have uk: "uses_id (procs k' q) x \<longleftrightarrow> uses_id (procs k3 q) x" for q x by (simp add: uses_id_def f)
      have i: "ppid (procs k3 p) = last_pid kp" "pgrp (procs k3 p) = pgrp (procs k ?c)" "session (procs k3 p) = session (procs k ?c)"
        "tgid (procs k3 p) = last_pid kp \<or> tgid (procs k3 p) = tgid (procs k ?c)"
        using c(1,2) c3(1-3,6) P(2) g(1) sS [OF D(8)] by simp_all
      have "\<not> uses_id (procs k3 p) x" if x: "last_pid kp < x" "x < next_safe kp" for x
        using gap [OF D(8) x] i x(1) unfolding uses_id_def by linarith
      then have "gap_free (insert p ?S) k' (last_pid kp) (next_safe kp)"
        using gap u uk by (auto simp: gap_free_def)
      then show ?thesis using P(1) by (simp add: pids_cached_def gg)
    qed
    moreover have "0 < ppid (procs k' q)" if "q \<in> insert p ?S" for q
      using that P(4) Dp(7) o3(1) [of q] by (cases "q = p") (auto simp: f id names_ok_def)
    moreover have "nr_threads k = int (length xs)" using D(7) by (simp add: names_ok_def)
    ultimately show ?thesis unfolding names_ok_def S' by (simp add: f gg)
  qed
  moreover have "pstate (procs k' q) = ST_ZOMBIE \<longrightarrow> exiting (procs k' q)" if "q \<in> insert p ?S" for q
    using that Dp(12) o3 [of q] by (cases "q = p") (simp_all add: f ST_RUNNING_def ST_ZOMBIE_def)
  ultimately have "table_ok (xs @ [p]) (ch(parent k3 p := p # ch (parent k3 p))) k'"
    unfolding table_ok_def S' using L D(8) by (simp add: gg)
  then show ?thesis unfolding k'_def by blast
qed

subsection \<open>The call\<close>

text \<open>
  A call of \<open>do_fork\<close> that returns either leaves the process table to the other tasks as it was, with the
  next id not before, or makes the child one of the tasks. It is assumed that the new structure is not
  in use and that there are few enough tasks for a free pid.
\<close>

definition new_task_ok :: "('a fork_env_scheme) \<Rightarrow> tid list \<Rightarrow> bool" where
  "new_task_ok E xs \<longleftrightarrow> (\<forall>p. new_task E = Some p \<longrightarrow> p \<notin> set xs \<and> p \<noteq> init_task)"

lemma get_pid_few:
  assumes "ring_is xs k" "pids_cached (set xs) k" "4 * length xs < 32467" "get_pid False k = Some (k', x)"
  shows "x \<noteq> 0"
proof
  assume x: "x = 0"
  obtain y where y: "300 \<le> y" "y < PID_MAX" "y \<noteq> last_pid k" "\<not> used_id (set xs) k y"
    by (rule free_id_exists [OF assms(3), of "last_pid k" k])
  have "300 \<le> last_pid k \<and> (\<forall>y. 300 \<le> y \<and> y < PID_MAX \<and> y \<noteq> last_pid k \<longrightarrow> used_id (set xs) k y)"
    using get_pid_returns [OF assms(1,2) y(1,2)] y(4) assms(4) x by auto
  then show False using y by blast
qed

lemma copy_resources_error: "copy_resources X flags cur p r = Inr (r', e) \<Longrightarrow> e = 0 \<or> e = - ENOMEM \<or> e = copy_thread X"
  by (auto simp: copy_resources_def failed_def sbind_def map_sum_def split: prod.splits sum.splits if_splits)

text \<open>Why a call of \<open>do_fork\<close> is refused before anything is copied, 0 when it is not.\<close>

definition fork_refusal :: "('a fork_env_scheme) \<Rightarrow> u32 \<Rightarrow> kern \<Rightarrow> int" where
  "fork_refusal E flags k =
     (if flags AND (CLONE_NEWNS OR CLONE_FS) = CLONE_NEWNS OR CLONE_FS then - EINVAL
      else if flags AND CLONE_PID \<noteq> 0 then - EPERM
      else if new_task E = None then - ENOMEM
      else if over_limit E k (current k) \<or> nr_threads k \<ge> max_threads k then - EAGAIN
      else 0)"

text \<open>What is true of the child \<open>p\<close> of a fork: its pid is new, its parents are those that the flags ask for, and the
  caller waits for it after a \<^verbatim>\<open>vfork\<close>.\<close>

definition new_child :: "('a fork_env_scheme) \<Rightarrow> u32 \<Rightarrow> tid list \<Rightarrow> kern \<Rightarrow> tid \<Rightarrow> kern \<Rightarrow> int \<Rightarrow> bool" where
  "new_child E flags xs k p k' ret \<longleftrightarrow>
     (let c = current k; traced = (flags AND CLONE_PTRACE \<noteq> 0 \<and> ptrace (procs k c) AND PT_PTRACED_FLAG \<noteq> 0) in
      (\<exists>ch'. table_ok (xs @ [p]) ch' k') \<and> p \<notin> set xs \<and>
      0 < ret \<and> ret < PID_MAX \<and> \<not> used_id (set xs) k ret \<and> ppid (procs k' p) = ret \<and>
      p_opptr (procs k' p) = (if flags AND CLONE_PARENT = 0 then c else p_opptr (procs k c)) \<and>
      p_pptr (procs k' p) = (if flags AND CLONE_PARENT = 0 \<and> \<not> traced then c else p_pptr (procs k c)) \<and>
      (if flags AND CLONE_VFORK = 0 then pstate (procs k' c) = pstate (procs k c)
       else pstate (procs k' c) = ST_UNINTERRUPTIBLE \<and> last (signals k') = Wait_For c (vfork_completion E)))"

lemma wait_for_child_fields:
  "current (wait_for_child c k) = current k" "max_threads (wait_for_child c k) = max_threads k"
  "nr_threads (wait_for_child c k) = nr_threads k"
  "pstate (procs (wait_for_child c k) q) = (if q = current k then ST_UNINTERRUPTIBLE else pstate (procs k q))"
  "ppid (procs (wait_for_child c k) q) = ppid (procs k q)" "p_opptr (procs (wait_for_child c k) q) = p_opptr (procs k q)"
  "p_pptr (procs (wait_for_child c k) q) = p_pptr (procs k q)"
  "last (signals (wait_for_child c k)) = Wait_For (current k) c"
  by (simp_all add: wait_for_child_def emit_def upd_procs)

lemma table_ok_wait_child:
  assumes K: "table_ok xs ch k" and run: "pstate (procs k (current k)) \<noteq> ST_ZOMBIE"
  shows "table_ok xs ch (wait_for_child c k)"
proof -
  have "table_ok xs ch (upd (current k) (\<lambda>t. t\<lparr>pstate := ST_UNINTERRUPTIBLE\<rparr>) k)"
    by (rule table_ok_pstate [OF K run]) (simp add: ST_UNINTERRUPTIBLE_def ST_ZOMBIE_def)
  then show ?thesis unfolding wait_for_child_def by (rule table_ok_emit)
qed

lemma fork_counted_table:
  assumes K: "table_ok xs ch k" and run: "pstate (procs k (current k)) \<noteq> ST_ZOMBIE" and few: "4 * length xs < 32467"
    and p: "p \<notin> set xs" "p \<noteq> init_task" and CP: "flags AND CLONE_PID = 0"
    and s: "\<And>q. q \<noteq> p \<Longrightarrow> procs (kn s) q = procs k q" "procs (kn s) p = procs k (current k)"
      "current (kn s) = current k" "child_reaper (kn s) = child_reaper k" "pidhash (kn s) = pidhash k"
      "nr_threads (kn s) = nr_threads k" "last_pid (kn s) = last_pid k" "next_safe (kn s) = next_safe k"
    and r: "fork_counted E flags p s = Some (Inr (s', ret))"
  shows "new_child E flags xs k p (kn s') ret \<or>
    (table_ok xs ch (kn s') \<and> (ret = - ENOMEM \<or> (ret = copy_thread E \<and> ret \<noteq> 0)))"
proof -
  let ?k1 = "upd p (fork_fields flags) (kn s)" and ?S = "set xs" and ?c = "current k"
  note D = table_okD [OF K]
  have sS: "q \<in> ?S \<Longrightarrow> procs (kn s) q = procs k q" for q by (rule s(1)) (use p in auto)
  have R: "ring_is xs ?k1"
    using D(2) by (rule ring_is_agree_on) (use s(1) p in \<open>auto simp: upd_procs\<close>)
  have same1: "q \<noteq> p \<Longrightarrow> procs ?k1 q = procs k q" for q by (simp add: upd_procs s(1))
  have u1: "uses_id (procs ?k1 q) x \<longleftrightarrow> uses_id (procs k q) x" if "q \<in> ?S" for q x
    using same1 [of q] that p by (cases "q = p") auto
  have "pids_cached ?S k" using D(7) by (simp add: names_ok_def)
  then have C: "pids_cached ?S ?k1" by (rule pids_cached_agree) (simp_all add: u1 s)
  obtain k2 x where gp: "get_pid False ?k1 = Some (k2, x)" using r CP by (auto simp: fork_counted_def Let_def)
  have x0: "x \<noteq> 0" by (rule get_pid_few [OF R C few gp])
  note x = get_pid_result(1) [OF gp R C x0] and k2 = get_pid_globals [OF gp]
  have xn: "\<not> used_id ?S k x" using x u1 by (simp add: used_id_def)
  define k5 where "k5 = upd p fork_faults (upd p fork_clear (upd p (\<lambda>t. t\<lparr>ppid := x\<rparr>) k2))"
  have pr2: "procs k2 = procs ?k1" by (subst k2) simp
  have g2: "current k2 = ?c" "child_reaper k2 = child_reaper k" "pidhash k2 = pidhash k" "nr_threads k2 = nr_threads k"
    using arg_cong [OF k2, of current] arg_cong [OF k2, of child_reaper] arg_cong [OF k2, of pidhash] arg_cong [OF k2, of nr_threads]
    by (simp_all add: s)
  have n5: "q \<noteq> p \<Longrightarrow> procs k5 q = procs k q" for q by (simp add: k5_def upd_procs pr2 same1 [unfolded upd_procs] s(1))
  have g5: "current k5 = ?c" "child_reaper k5 = child_reaper k" "pidhash k5 = pidhash k" "nr_threads k5 = nr_threads k"
    "last_pid k5 = last_pid k2" "next_safe k5 = next_safe k2" by (simp_all add: k5_def g2)
  have P5: "pids_cached ?S k5"
    by (rule pids_cached_agree [OF conjunct2 [OF conjunct2 [OF conjunct2 [OF conjunct2 [OF x]]]]])
      (use n5 same1 p in \<open>auto simp: pr2 k5_def uses_id_def upd_procs\<close>)
  have f5: "ppid (procs k5 p) = x" "pgrp (procs k5 p) = pgrp (procs k ?c)" "session (procs k5 p) = session (procs k ?c)"
    "\<not> leader (procs k5 p)" "p_cptr (procs k5 p) = None"
    "ptrace (procs k5 p) = (if flags AND CLONE_PTRACE = 0 then 0 else ptrace (procs k ?c))"
    by (simp_all add: k5_def upd_procs fork_faults_def fork_clear_def pr2 fork_fields_def copy_flags_def s(2))
  define u where "u = user_id (procs (kn s) p)"
  let ?r2 = "upd_tsk p (\<lambda>t. t\<lparr>vfork_done := if flags AND CLONE_VFORK \<noteq> 0 then Some (vfork_completion E) else None\<rparr>) (use_modules 1 p (rs s))"
  obtain r3 e where cr: "copy_resources E flags (current (kn s)) p ?r2 = Inr (r3, e)"
    and out: "(e \<noteq> 0 \<and> kn s' = free_task_struct p (count_user u (-1) k5) \<and> ret = e) \<or>
      (e = 0 \<and> kn s' = (if flags AND CLONE_VFORK \<noteq> 0 then wait_for_child (vfork_completion E) (fork_publish E flags p k5)
        else fork_publish E flags p k5) \<and> ret = ppid (procs k5 p))"
    using r x0 CP by (cases "copy_resources E flags (current (kn s)) p ?r2")
      (auto simp: fork_counted_def Let_def gp k5_def u_def split: if_splits)
  from out show ?thesis
  proof
    assume a: "e \<noteq> 0 \<and> kn s' = free_task_struct p (count_user u (-1) k5) \<and> ret = e"
    define kf where "kf = free_task_struct p (count_user u (-1) k5)"
    have f: "procs kf q = (if q = p then (procs k5 p)\<lparr>p_cptr := None\<rparr> else procs k5 q)" for q
      by (simp add: kf_def free_task_struct_def count_user_def upd_procs)
    have g: "current kf = current k5" "child_reaper kf = child_reaper k5" "pidhash kf = pidhash k5" "nr_threads kf = nr_threads k5"
      "last_pid kf = last_pid k5" "next_safe kf = next_safe k5" by (simp_all add: kf_def free_task_struct_def count_user_def)
    have "pids_cached ?S kf" using P5 by (rule pids_cached_agree) (simp_all add: f g uses_id_def)
    then have "table_ok xs ch kf"
      by (intro table_ok_new_task [OF K p]) (simp_all add: f g n5 g5)
    then have "table_ok xs ch (kn s')" using a by (simp add: kf_def)
    moreover have "ret = - ENOMEM \<or> (ret = copy_thread E \<and> ret \<noteq> 0)" using a copy_resources_error [OF cr] by auto
    ultimately show ?thesis by blast
  next
    define k6 where "k6 = fork_publish E flags p k5"
    assume a: "e = 0 \<and> kn s' = (if flags AND CLONE_VFORK \<noteq> 0 then wait_for_child (vfork_completion E) (fork_publish E flags p k5)
        else fork_publish E flags p k5) \<and> ret = ppid (procs k5 p)"
    then have s': "kn s' = (if flags AND CLONE_VFORK \<noteq> 0 then wait_for_child (vfork_completion E) k6 else k6)" by (simp add: k6_def)
    obtain ch' where K6: "table_ok (xs @ [p]) ch' k6"
      using table_ok_fork_publish [OF K run p n5 g5(1-4) P5, of E flags] x xn f5 g5 by (auto simp: k6_def)
    have pc: "p \<noteq> current k5" using D(8) p g5(1) by auto
    have c5: "procs k5 ?c = procs k ?c" by (rule n5) (use pc g5(1) in simp)
    note c6 = fork_publish_child [OF pc, of E flags, folded k6_def, unfolded g5(1) c5]
    have "table_ok (xs @ [p]) ch' (kn s')"
      using K6 table_ok_wait_child [OF K6, of "vfork_completion E"] c6(4,5) run by (simp add: s')
    moreover have "p \<noteq> ?c" using pc g5(1) by simp
    moreover have "ret = x" using a f5(1) by simp
    moreover have "ppid (procs (kn s') p) = x" "p_opptr (procs (kn s') p) = p_opptr (procs k6 p)"
      "p_pptr (procs (kn s') p) = p_pptr (procs k6 p)" by (simp_all add: s' wait_for_child_fields c6(1) f5(1))
    moreover have "if flags AND CLONE_VFORK = 0 then pstate (procs (kn s') ?c) = pstate (procs k ?c)
       else pstate (procs (kn s') ?c) = ST_UNINTERRUPTIBLE \<and> last (signals (kn s')) = Wait_For ?c (vfork_completion E)"
      by (simp add: s' wait_for_child_fields c6(4,5))
    moreover have "0 < x" "x < PID_MAX" using x by simp_all
    ultimately have "new_child E flags xs k p (kn s') ret"
      using xn p(1) unfolding new_child_def Let_def c6(2,3) f5(6) by auto
    then show ?thesis by blast
  qed
qed

lemma do_fork_outcome:
  assumes K: "table_ok xs ch (kn s)" and run: "pstate (procs (kn s) (current (kn s))) \<noteq> ST_ZOMBIE"
    and few: "max_threads (kn s) \<le> 8117" and new: "new_task_ok E xs" and r: "do_fork E flags s = Some (Inr (s', ret))"
  shows "if fork_refusal E flags (kn s) \<noteq> 0 then ret = fork_refusal E flags (kn s) \<and> table_ok xs ch (kn s')
    else (\<exists>p. new_task E = Some p \<and> new_child E flags xs (kn s) p (kn s') ret) \<or>
      (table_ok xs ch (kn s') \<and> (ret = - ENOMEM \<or> (ret = copy_thread E \<and> ret \<noteq> 0)))"
proof -
  let ?k = "kn s" and ?c = "current (kn s)"
  note D = table_okD [OF K]
  have pid: "ppid (procs ?k ?c) \<noteq> 0" using D(7,8) by (auto simp: names_ok_def)
  show ?thesis
  proof (cases "flags AND (CLONE_NEWNS OR CLONE_FS) = CLONE_NEWNS OR CLONE_FS \<or> flags AND CLONE_PID \<noteq> 0 \<or> new_task E = None")
    case True
    then have "s' = s \<and> ret = fork_refusal E flags ?k \<and> ret \<noteq> 0"
      using r pid by (auto simp: do_fork_def fork_refusal_def Let_def split: if_splits)
    then show ?thesis using K by simp
  next
    case False
    then obtain p where p: "new_task E = Some p" by auto
    then have np: "p \<notin> set xs" "p \<noteq> init_task" using new by (auto simp: new_task_ok_def)
    define s1 where "s1 = \<lparr>kn = upd p (\<lambda>_. procs ?k ?c) ?k, rs = upd_tsk p (\<lambda>_. tsk (rs s) ?c) (rs s)\<rparr>"
    define u where "u = user_id (procs (kn s1) p)"
    have d: "do_fork E flags s = (if over_limit E (kn s1) p then Some (Inr (s1\<lparr>kn := free_task_struct p (kn s1)\<rparr>, - EAGAIN))
      else if nr_threads (count_user u 1 (kn s1)) \<ge> max_threads (count_user u 1 (kn s1))
        then Some (Inr (s1\<lparr>kn := free_task_struct p (count_user u (-1) (count_user u 1 (kn s1)))\<rparr>, - EAGAIN))
      else fork_counted E flags p (s1\<lparr>kn := count_user u 1 (kn s1)\<rparr>))"
      using False p by (simp add: do_fork_def s1_def u_def Let_def)
    have failed: "table_ok xs ch kf" if f: "kf = free_task_struct p k1" "procs k1 = procs (kn s1)" "current k1 = ?c"
      "child_reaper k1 = child_reaper ?k" "pidhash k1 = pidhash ?k" "nr_threads k1 = nr_threads ?k" "last_pid k1 = last_pid ?k"
      "next_safe k1 = next_safe ?k" for kf k1
    proof (rule table_ok_new_task [OF K np])
      have n: "q \<noteq> p \<Longrightarrow> procs kf q = procs ?k q" for q by (simp add: f free_task_struct_def upd_procs s1_def)
      then show "q \<noteq> p \<Longrightarrow> procs kf q = procs ?k q" for q .
      have "q \<in> set xs \<Longrightarrow> procs kf q = procs ?k q" for q by (rule n) (use np in auto)
      then show "pids_cached (set xs) kf"
        using D(7) unfolding names_ok_def
        by (elim conjE) (erule pids_cached_agree, simp_all add: f free_task_struct_def)
    qed (simp_all add: f free_task_struct_def upd_procs)
    have over: "over_limit E (kn s1) p \<longleftrightarrow> over_limit E ?k ?c" by (simp add: over_limit_def s1_def upd_procs)
    have most: "nr_threads (count_user u 1 (kn s1)) \<ge> max_threads (count_user u 1 (kn s1)) \<longleftrightarrow> nr_threads ?k \<ge> max_threads ?k"
      by (simp add: s1_def count_user_def)
    have refused: "fork_refusal E flags ?k = (if over_limit E ?k ?c \<or> nr_threads ?k \<ge> max_threads ?k then - EAGAIN else 0)"
      using False by (auto simp: fork_refusal_def)
    consider "kn s' = free_task_struct p (kn s1)" "ret = - EAGAIN" "over_limit E ?k ?c"
      | "kn s' = free_task_struct p (count_user u (-1) (count_user u 1 (kn s1)))" "ret = - EAGAIN" "nr_threads ?k \<ge> max_threads ?k"
      | "\<not> over_limit E ?k ?c" "\<not> nr_threads ?k \<ge> max_threads ?k" "fork_counted E flags p (s1\<lparr>kn := count_user u 1 (kn s1)\<rparr>) = Some (Inr (s', ret))"
      using r unfolding d over most by (auto split: if_splits)
    then show ?thesis
    proof cases
      case 1
      have "table_ok xs ch (kn s')" using 1(1) by (rule failed) (simp_all add: s1_def)
      then show ?thesis using 1(2,3) by (simp add: refused)
    next
      case 2
      have "table_ok xs ch (kn s')" using 2(1) by (rule failed) (simp_all add: s1_def count_user_def)
      then show ?thesis using 2(2,3) by (simp add: refused)
    next
      case 3
      have "flags AND CLONE_PID = 0" using False by simp
      moreover have "nr_threads ?k < max_threads ?k" using 3(2) by simp
      then have "int (length xs) < 8117" using few D(7) by (simp add: names_ok_def)
      then have "4 * length xs < 32467" by simp
      ultimately have "new_child E flags xs ?k p (kn s') ret \<or> (table_ok xs ch (kn s') \<and> (ret = - ENOMEM \<or> (ret = copy_thread E \<and> ret \<noteq> 0)))"
        by (intro fork_counted_table [OF K run _ np _ _ _ _ _ _ _ _ _ 3(3)]) (simp_all add: s1_def count_user_def upd_procs)
      then show ?thesis using p 3(1,2) by (auto simp: refused)
    qed
  qed
qed

lemma do_fork_table:
  assumes "table_ok xs ch (kn s)" "pstate (procs (kn s) (current (kn s))) \<noteq> ST_ZOMBIE"
    "max_threads (kn s) \<le> 8117" "new_task_ok E xs" "do_fork E flags s = Some (Inr (s', ret))"
  shows "(\<exists>p. new_task E = Some p \<and> new_child E flags xs (kn s) p (kn s') ret) \<or> table_ok xs ch (kn s')"
  using do_fork_outcome [OF assms] by (auto split: if_splits)

end
