(* ===== verification/Proc_Limit.thy ===== *)
theory Proc_Limit
  imports Proc_Table_Fork
begin

text \<open>
  HW1, \<^verbatim>\<open>max_threads\<close>: it is set when the kernel starts, and no call on the process table changes it. While
  it is at most 8117 there is a free id whenever \<open>do_fork\<close> asks for one, because a fork is refused when there are
  \<^verbatim>\<open>max_threads\<close> tasks and each of the others uses at most four ids.
\<close>

definition pid_room :: "kern \<Rightarrow> bool" where
  "pid_room k \<longleftrightarrow> max_threads k \<le> 8117"

lemma max_emit [simp]: "max_threads (emit es k) = max_threads k"
  by (simp add: emit_def)

lemma max_upd_opt [simp]: "max_threads (upd_opt p f k) = max_threads k"
  by (cases p) simp_all

lemma max_adopt: "max_threads (fold (adopt A father reaper) xs k) = max_threads k"
  by (induction xs arbitrary: k) (simp_all add: adopt_def Let_def)

lemma max_move_child [simp]: "max_threads (move_child c p k) = max_threads k"
  by (simp add: move_child_def Let_def)

lemma max_orphan_check: "orphan_check A c p k = Some k' \<Longrightarrow> max_threads k' = max_threads k"
  by (auto simp: orphan_check_def Let_def hup_and_cont_def bind_eq_Some_conv split: if_splits)

lemma max_own_orphan_check: "own_orphan_check A c k = Some k' \<Longrightarrow> max_threads k' = max_threads k"
  by (auto simp: own_orphan_check_def Let_def hup_and_cont_def bind_eq_Some_conv split: if_splits)

lemma max_reparent_loop:
  assumes "reparent_loop A c k = Some k'"
  shows "max_threads k' = max_threads k"
proof (rule reparent_loop.raw_induct [where P = "\<lambda>A c k k'. max_threads k' = max_threads k", OF _ assms])
  fix loop A c k k'
  assume IH: "\<And>A c k k'. loop A c k = Some k' \<Longrightarrow> max_threads k' = max_threads k"
    and r: "(case p_cptr (procs k c) of None \<Rightarrow> Some k
      | Some p \<Rightarrow> let k1 = move_child c p k; k2 = (if pstate (procs k1 p) = ST_ZOMBIE then notify_parent p k1 else k1)
          in Option.bind (orphan_check A c p k2) (loop A c)) = Some k'"
  show "max_threads k' = max_threads k"
    using r IH by (auto simp: Let_def bind_eq_Some_conv notify_parent_def dest!: max_orphan_check split: option.splits if_splits)
qed

lemma max_exit_notify:
  assumes "exit_notify A k = Some k'"
  shows "max_threads k' = max_threads k"
proof -
  obtain k1 k2 where k: "forget_original_parent A (current k) k = Some k1" "own_orphan_check A (current k) k1 = Some k2"
    "reparent_loop A (current k) (notify_parent (current k)
       (upd (current k) (\<lambda>t. t\<lparr>pstate := ST_ZOMBIE\<rparr>) (fix_exit_signal A (current k) k2))) = Some k'"
    using assms by (auto simp: exit_notify_def Let_def bind_eq_Some_conv)
  have "max_threads k1 = max_threads k" using k(1) by (auto simp: forget_original_parent_def bind_eq_Some_conv max_adopt)
  then show ?thesis
    using max_reparent_loop [OF k(3)] max_own_orphan_check [OF k(2)]
    by (simp add: notify_parent_def fix_exit_signal_def Let_def)
qed

lemma max_count_times [simp]: "max_threads (count_times p k) = max_threads k"
  by (simp add: count_times_def Let_def)

lemma max_release_task: "release_task p k = Inr k' \<Longrightarrow> max_threads k' = max_threads k"
  by (auto simp: release_task_def unhash_process_def list_del_thread_def SET_LINKS_max Let_def split: if_splits)

lemma max_wait_zombie: "wait_zombie A ru st p k = Inr (k', r) \<Longrightarrow> max_threads k' = max_threads k"
  by (auto simp: wait_zombie_def reparent_traced_def SET_LINKS_max Let_def map_sum_def dest!: max_release_task
      split: if_splits sum.splits)

lemma wait_state_simps [simp]: "wait_state (Wait_Done k r st) = k" "wait_state (Wait_Sleep k) = k"
  by (simp_all add: wait_state_def)

lemma max_wait_end: "max_threads (wait_state (wait_end r)) = max_threads (fst r)"
  by (simp add: wait_end_def split: prod.split)

lemma max_wait4:
  assumes "sys_wait4 A sigs pid stat options ru k = Some (Inr out)"
  shows "max_threads (wait_state out) = max_threads k"
  using assms
  by (auto simp: sys_wait4_def Let_def wait_stopped_def max_wait_end map_sum_def dest!: max_wait_zombie
      split: if_splits prod.splits option.splits sum.splits)

lemma max_setpgid: "sys_setpgid pid pgid k = Some (k', r) \<Longrightarrow> max_threads k' = max_threads k"
  by (auto simp: sys_setpgid_def Let_def split: if_splits option.splits)

lemma max_setsid: "sys_setsid k = Some (k', r) \<Longrightarrow> max_threads k' = max_threads k"
  by (auto simp: sys_setsid_def Let_def split: if_splits)

lemma max_fork_publish: "max_threads (fork_publish E flags p k) = max_threads k"
proof -
  obtain k5 es where "k5 = SET_LINKS p (fork_linkless flags p k)" "fork_publish E flags p k =
      upd p (\<lambda>t. t\<lparr>pstate := ST_RUNNING\<rparr>) (emit es (k5\<lparr>pidhash := hash_pid (\<lambda>q. ppid (procs k5 q)) p (pidhash k5),
        nr_threads := nr_threads k5 + 1\<rparr>))\<lparr>total_forks := total_forks k + 1\<rparr>"
    by (rule fork_publish_linkless)
  then show ?thesis by (simp add: SET_LINKS_max fork_linkless_globals)
qed

lemma max_get_pid: "get_pid b k = Some (k', x) \<Longrightarrow> max_threads k' = max_threads k"
  by (drule get_pid_globals, erule ssubst) simp

lemma max_fork_counted: "fork_counted E flags p s = Some (Inr (s', ret)) \<Longrightarrow> max_threads (kn s') = max_threads (kn s)"
  by (auto simp: fork_counted_def Let_def sbind_def free_task_struct_def count_user_def max_fork_publish
      wait_for_child_fields dest!: max_get_pid split: if_splits sum.splits)

lemma max_fork: "do_fork E flags s = Some (Inr (s', ret)) \<Longrightarrow> max_threads (kn s') = max_threads (kn s)"
  by (auto simp: do_fork_def Let_def free_task_struct_def count_user_def dest!: max_fork_counted
      split: if_splits option.splits)

end
