(* ===== verification/Proc_Machine.thy ===== *)
theory Proc_Machine
  imports Proc_Limit
begin

text \<open>
  The process table over every history of system calls: \<open>fork\<close>, \<open>setpgid\<close>, \<open>setsid\<close>, \<open>exit\<close> and \<open>wait4\<close> of
  the running process, and the switch to another one (\<open>table_step\<close>). \<open>table_ok\<close> is an invariant of the machine;
  from it follow that pids are unique, that a process group never spans two sessions, and that a parent is a
  process that still runs.
\<close>

subsection \<open>The end of a process\<close>

lemma table_ok_exiting:
  assumes K: "table_ok xs ch k" and n: "ppid (procs k p) \<noteq> 1"
  shows "table_ok xs ch (upd p (\<lambda>t. t\<lparr>exiting := True\<rparr>) k)"
proof -
  let ?f = "\<lambda>t::ptask. t\<lparr>exiting := True\<rparr>"
  define k' where "k' = upd p ?f k"
  note D = table_okD [OF K]
  have L: "linked_tasks xs ch k'" unfolding k'_def using D(1) by (rule linked_tasks_names) simp_all
  have f: "ppid (procs k' q) = ppid (procs k q)" "pgrp (procs k' q) = pgrp (procs k q)" "session (procs k' q) = session (procs k q)"
    "tgid (procs k' q) = tgid (procs k q)" "leader (procs k' q) = leader (procs k q)" "pstate (procs k' q) = pstate (procs k q)"
    "p_pptr (procs k' q) = p_pptr (procs k q)" "p_opptr (procs k' q) = p_opptr (procs k q)"
    "thread_next (procs k' q) = thread_next (procs k q)" "thread_prev (procs k' q) = thread_prev (procs k q)"
    "exiting (procs k' q) \<longleftrightarrow> q = p \<or> exiting (procs k q)" for q by (simp_all add: k'_def upd_procs)
  have g: "current k' = current k" "child_reaper k' = child_reaper k" "pidhash k' = pidhash k" "nr_threads k' = nr_threads k"
    "last_pid k' = last_pid k" "next_safe k' = next_safe k" by (simp_all add: k'_def)
  have "job_ok (set xs) k'" using D(7) unfolding names_ok_def by (elim conjE) (erule job_ok_agree, simp_all add: f)
  moreover have "pids_cached (set xs) k'"
    using D(7) unfolding names_ok_def by (elim conjE) (erule pids_cached_agree, simp_all add: f g uses_id_def)
  ultimately have "table_ok xs ch k'"
    using K L n by (auto simp: table_ok_def names_ok_def parents_ok_def live_task_def threads_ok_def init_ok_def Let_def f g)
  then show ?thesis by (simp add: k'_def)
qed

text \<open>What \<^verbatim>\<open>disassociate_ctty\<close> may do: change the terminals of tasks and send signals.\<close>

definition ctty_ok :: "(kern \<Rightarrow> kern) \<Rightarrow> bool" where
  "ctty_ok h \<longleftrightarrow> (\<forall>k. \<exists>T es. h k = emit es (k\<lparr>procs := (\<lambda>q. (procs k q)\<lparr>tty := fst (T q), tty_old_pgrp := snd (T q)\<rparr>)\<rparr>))"

lemma table_ok_ctty:
  assumes K: "table_ok xs ch k" and h: "ctty_ok h"
  shows "table_ok xs ch (h k)" "current (h k) = current k" "own (procs (h k) q) = own (procs k q)"
    "pstate (procs (h k) q) = pstate (procs k q)" "max_threads (h k) = max_threads k"
proof -
  obtain T es where e: "h k = emit es (k\<lparr>procs := (\<lambda>q. (procs k q)\<lparr>tty := fst (T q), tty_old_pgrp := snd (T q)\<rparr>)\<rparr>)"
    using h unfolding ctty_ok_def by blast
  note D = table_okD [OF K]
  show "current (h k) = current k" "own (procs (h k) q) = own (procs k q)" "pstate (procs (h k) q) = pstate (procs k q)"
    "max_threads (h k) = max_threads k" for q by (simp_all add: e own_def)
  have "linked_tasks xs ch (h k)" using D(1) by (rule linked_tasks_agree) (simp_all add: e fun_eq_iff)
  moreover have "pids_cached (set xs) (h k)"
    using D(7) unfolding names_ok_def by (elim conjE) (erule pids_cached_agree, simp_all add: e uses_id_def)
  ultimately show "table_ok xs ch (h k)"
    using D(8) by (intro table_ok_agree [OF K]) (simp_all add: e own_def)
qed

lemma do_exit_table:
  assumes K: "table_ok xs ch (kn s)" and h: "ctty_ok ctty" and r: "do_exit E A ctty code s = Some (Inr s')"
  shows "(\<exists>ch'. table_ok xs ch' (kn s')) \<and> current (kn s') = current (kn s) \<and>
    max_threads (kn s') = max_threads (kn s) \<and>
    (\<forall>q. pstate (procs (kn s') q) = (if q = current (kn s) then ST_ZOMBIE else pstate (procs (kn s) q)))"
proof -
  let ?c = "current (kn s)"
  define k1 where "k1 = upd ?c (\<lambda>t. t\<lparr>exiting := True\<rparr>) (kn s)"
  define k2 where "k2 = (if leader (procs k1 ?c) then ctty k1 else k1)"
  define k3 where "k3 = upd ?c (\<lambda>t. t\<lparr>exit_code := code\<rparr>) k2"
  have n: "ppid (procs (kn s) ?c) \<noteq> 1" and e: "exit_notify A k3 = Some (kn s')"
    using r by (auto simp: do_exit_def Let_def k1_def k2_def k3_def split: if_splits sum.splits)
  have K1: "table_ok xs ch k1" unfolding k1_def by (rule table_ok_exiting [OF K n])
  have c1: "current k1 = ?c" "exiting (procs k1 ?c)" "ppid (procs k1 ?c) \<noteq> 1" using n by (simp_all add: k1_def upd_procs)
  have K2: "table_ok xs ch k2" "current k2 = ?c" "own (procs k2 ?c) = own (procs k1 ?c)"
    using K1 table_ok_ctty [OF K1 h] c1 by (simp_all add: k2_def)
  have K3: "table_ok xs ch k3" unfolding k3_def by (rule table_ok_other [OF K2(1)]) (simp_all add: own_def)
  have "current k3 = ?c" "exiting (procs k3 ?c)" "ppid (procs k3 ?c) \<noteq> 1"
    using ownD [OF K2(3)] c1 K2(2) by (simp_all add: k3_def upd_procs)
  moreover have "pstate (procs k3 q) = pstate (procs (kn s) q)" for q
    using table_ok_ctty(4) [OF K1 h] by (simp add: k3_def k2_def k1_def upd_procs)
  moreover have "max_threads k3 = max_threads (kn s)"
    using table_ok_ctty(5) [OF K1 h] by (simp add: k3_def k2_def k1_def)
  ultimately show ?thesis using table_ok_exit_notify [OF K3 _ _ e] max_exit_notify [OF e] by simp
qed

subsection \<open>The machine\<close>

definition running :: "fstate \<Rightarrow> bool" where
  "running s \<longleftrightarrow> pstate (procs (kn s) (current (kn s))) = ST_RUNNING"

text \<open>
  A fork needs a structure that is not in use; \<^verbatim>\<open>disassociate_ctty\<close> does what \<open>ctty_ok\<close> says. A switch goes to any task on the list that is not dead, and makes
  it run: this covers every wake-up and every choice of the scheduler among these tasks. The idle task 0 is
  not on the list; it makes none of the calls, and is not switched to here.
\<close>

inductive table_step :: "exit_abi \<Rightarrow> fstate \<Rightarrow> fstate \<Rightarrow> bool" for A where
  S_fork: "running s \<Longrightarrow> do_fork (E :: fork_env) flags s = Some (Inr (s', r)) \<Longrightarrow> for_each_task (kn s) = Some xs \<Longrightarrow> new_task_ok E xs \<Longrightarrow> table_step A s s'"
| S_setpgid: "running s \<Longrightarrow> sys_setpgid pid pgid (kn s) = Some (k', r) \<Longrightarrow> table_step A s (s\<lparr>kn := k'\<rparr>)"
| S_setsid: "running s \<Longrightarrow> sys_setsid (kn s) = Some (k', r) \<Longrightarrow> table_step A s (s\<lparr>kn := k'\<rparr>)"
| S_exit: "running s \<Longrightarrow> ctty_ok ctty \<Longrightarrow> do_exit (E :: fork_env) A ctty code s = Some (Inr s') \<Longrightarrow> table_step A s s'"
| S_wait: "running s \<Longrightarrow> sys_wait4 A sigs pid stat options ru (kn s) = Some (Inr out) \<Longrightarrow>
     table_step A s (s\<lparr>kn := wait_state out\<rparr>)"
| S_switch: "for_each_task (kn s) = Some xs \<Longrightarrow> p \<in> set xs \<Longrightarrow> pstate (procs (kn s) p) \<noteq> ST_ZOMBIE \<Longrightarrow>
     table_step A s (s\<lparr>kn := (upd p (\<lambda>t. t\<lparr>pstate := ST_RUNNING\<rparr>) (kn s))\<lparr>current := p\<rparr>\<rparr>)"

definition table_inv :: "kern \<Rightarrow> bool" where
  "table_inv k \<longleftrightarrow> pid_room k \<and> (\<exists>xs ch. table_ok xs ch k)"

lemma table_ok_current:
  assumes "table_ok xs ch k" "p \<in> set xs"
  shows "table_ok xs ch (k\<lparr>current := p\<rparr>)"
proof (rule table_ok_agree [OF assms(1)])
  note D = table_okD [OF assms(1)]
  show "linked_tasks xs ch (k\<lparr>current := p\<rparr>)" by (rule linked_procs [OF D(1)]) simp
  show "pids_cached (set xs) (k\<lparr>current := p\<rparr>)"
    using D(7) unfolding names_ok_def by (elim conjE) (erule pids_cached_agree, simp_all)
qed (use assms(2) in simp_all)

lemma table_step_inv:
  assumes "table_step A s s'" "table_inv (kn s)"
  shows "table_inv (kn s')"
proof -
  obtain xs ch where K: "table_ok xs ch (kn s)" and room: "pid_room (kn s)" using assms(2) unfolding table_inv_def by blast
  note D = table_okD [OF K] and each = for_each_task_list [OF table_okD(2) [OF K]]
  have inv: "table_inv k'" if "table_ok xs' ch' k'" "max_threads k' = max_threads (kn s)" for xs' ch' k'
    using that room by (auto simp: table_inv_def pid_room_def)
  from assms(1) show ?thesis
  proof cases
    case (S_fork E flags r xs')
    have "pstate (procs (kn s) (current (kn s))) \<noteq> ST_ZOMBIE" using S_fork(1) by (simp add: running_def ST_RUNNING_def ST_ZOMBIE_def)
    moreover have "new_task_ok E xs" using S_fork(3,4) each by simp
    ultimately have "\<exists>xs' ch'. table_ok xs' ch' (kn s')"
      using do_fork_table [OF K _ _ _ S_fork(2)] room unfolding new_child_def pid_room_def Let_def by blast
    then show ?thesis using inv max_fork [OF S_fork(2)] by blast
  next
    case (S_setpgid pid pgid k' r)
    then show ?thesis using table_ok_setpgid [OF K S_setpgid(3)] inv max_setpgid [OF S_setpgid(3)] by auto
  next
    case (S_setsid k' r)
    then show ?thesis using table_ok_setsid [OF K S_setsid(3)] inv max_setsid [OF S_setsid(3)] by auto
  next
    case (S_exit ctty E code)
    then show ?thesis using do_exit_table [OF K S_exit(2,3)] inv by blast
  next
    case (S_wait sigs pid stat options ru out)
    then show ?thesis using table_ok_wait [OF K _ S_wait(3)] inv max_wait4 [OF S_wait(3)] by (auto simp: running_def)
  next
    case (S_switch xs' p)
    have "p \<in> set xs" using S_switch(2,3) each by simp
    let ?k = "upd p (\<lambda>t. t\<lparr>pstate := ST_RUNNING\<rparr>) (kn s)"
    have K': "table_ok xs ch ?k" by (rule table_ok_pstate [OF K S_switch(4)]) (simp add: ST_RUNNING_def ST_ZOMBIE_def)
    have "table_ok xs ch (?k\<lparr>current := p\<rparr>)" by (rule table_ok_current [OF K' \<open>p \<in> set xs\<close>])
    from inv [OF this] show ?thesis unfolding S_switch(1) by simp
  qed
qed

interpretation pt: invariant_relation "table_step A" "\<lambda>s. table_inv (kn s)" for A
  by unfold_locales (rule table_step_inv)

subsection \<open>A fork always returns\<close>

lemma do_fork_returns:
  assumes K: "table_ok xs ch (kn s)" and new: "new_task_ok E xs"
    and room: "pid_room (kn s)"
  shows "do_fork E flags s \<noteq> None"
proof -
  let ?k = "kn s" and ?c = "current (kn s)"
  note D = table_okD [OF K]
  have few: "4 * length xs < 32467" if "nr_threads ?k < max_threads ?k"
  proof -
    have "int (length xs) < 8117" using that room D(7) by (simp add: names_ok_def pid_room_def)
    then show ?thesis by simp
  qed
  have pid: "ppid (procs ?k ?c) \<noteq> 0" using D(7,8) by (auto simp: names_ok_def)
  have gp: "get_pid b (upd p (fork_fields flags) k1) \<noteq> None"
    if "p \<notin> set xs" "p \<noteq> init_task" "\<And>q. q \<noteq> p \<Longrightarrow> procs k1 q = procs ?k q" "last_pid k1 = last_pid ?k"
      "next_safe k1 = next_safe ?k" "nr_threads ?k < max_threads ?k" for b p k1
  proof (cases b)
    case True
    then show ?thesis by (simp add: get_pid_def)
  next
    case False
    let ?k1 = "upd p (fork_fields flags) k1"
    have q: "q \<noteq> p \<Longrightarrow> procs ?k1 q = procs ?k q" for q by (simp add: upd_procs that(3))
    have n: "q \<in> insert init_task (set xs) \<Longrightarrow> procs ?k1 q = procs ?k q" for q by (rule q) (use that(1,2) in auto)
    have R: "ring_is xs ?k1" using D(2) by (rule ring_is_agree_on) (simp_all add: n del: insert_iff)
    have u: "uses_id (procs ?k1 q) x \<longleftrightarrow> uses_id (procs ?k q) x" if "q \<in> set xs" for q x
      using q [of q] that \<open>p \<notin> set xs\<close> by (cases "q = p") auto
    have "pids_cached (set xs) ?k" using D(7) by (simp add: names_ok_def)
    then have C: "pids_cached (set xs) ?k1" by (rule pids_cached_agree) (simp_all add: u that(4,5))
    note free = few [OF that(6)]
    obtain y where y: "300 \<le> y" "y < PID_MAX" "\<not> used_id (set xs) ?k1 y"
      by (rule free_id_exists [OF free, of 0 ?k1])
    from get_pid_returns [OF R C y(1,2)] y(3) False show ?thesis by auto
  qed
  show ?thesis
    using new pid gp [of _ "count_user u 1 (upd p (\<lambda>_. procs ?k ?c) ?k)" for p u]
    by (auto simp: do_fork_def fork_counted_def new_task_ok_def Let_def count_user_def upd_procs split: option.splits)
qed

subsection \<open>A table to start from\<close>

lemma demo_more:
  "session (procs (demo cur st) q) = 1" "tgid (procs (demo cur st) q) = int q" "\<not> leader (procs (demo cur st) q)"
  "thread_prev (procs (demo cur st) q) = q" "nr_threads (demo cur st) = 4" "last_pid (demo cur st) = 4"
  "next_safe (demo cur st) = 0x8000"
  by (simp_all add: demo_def demo0_def demo_task_def SET_LINKS_ids)

lemma SET_LINKS_did_exec: "did_exec (procs (SET_LINKS p k) q) = did_exec (procs k q)"
  by (simp add: SET_LINKS_def Let_def upd_keep)

lemma demo_table:
  assumes "cur \<in> set [1, 2, 3, 4]" "st \<noteq> ST_ZOMBIE"
  shows "table_ok [1, 2, 3, 4] demo_children (demo cur st)"
proof -
  let ?S = "set [1, 2, 3, 4 :: tid]" and ?k = "demo cur st"
  have S: "?S = {1, 2, 3, 4}" by simp
  have r: "q \<in> ?S \<Longrightarrow> 1 \<le> q \<and> q \<le> 4" for q by auto
  have "job_ok ?S ?k" by (rule job_okI) (simp_all add: demo_more)
  moreover have "pids_cached ?S ?k"
    using r by (force simp: pids_cached_def gap_free_def uses_id_def demo_more PID_MAX_def)
  moreover have "\<forall>p\<in>?S. 0 < ppid (procs ?k p)" by simp
  ultimately have "names_ok [1, 2, 3, 4] ?k"
    using demo_hash [of cur st] by (simp only: names_ok_def demo_more) simp
  moreover have "threads_ok ?S ?k" by (simp add: threads_ok_def demo_more)
  moreover have "init_ok ?S ?k" by (simp add: init_ok_def demo_more init_task_def)
  moreover have "parents_ok ?S ?k"
    using assms(2) by (simp add: parents_ok_def live_task_def init_task_def ST_RUNNING_def ST_ZOMBIE_def)
  ultimately show ?thesis using assms demo_linked [of cur st]
    unfolding table_ok_def by (simp add: ST_RUNNING_def ST_ZOMBIE_def)
qed

subsection \<open>Properties\<close>

text \<open>C36: The process table survives every history of \<open>fork\<close>, \<open>exit\<close>, \<open>wait4\<close>, \<open>setpgid\<close>, \<open>setsid\<close> and switches
  between the tasks on the list, in which each call returns. From a table in order, in a kernel whose \<^verbatim>\<open>max_threads\<close> is at
  most 8117, every reachable table is in order: the list of all tasks and the
  lists of children are linked both ways, each parent and original parent is a process that is not dead,
  thread groups are rings, the pid hash holds exactly the tasks under distinct positive pids, and no id
  between \<open>last_pid\<close> and \<open>next_safe\<close> is in use.\<close>
theorem process_table_safe:
  assumes "(table_step A)\<^sup>*\<^sup>* s s'" and "table_ok xs ch (kn s)" and "max_threads (kn s) \<le> 8117"
  shows "\<exists>xs' ch'. table_ok xs' ch' (kn s')"
proof -
  have "table_inv (kn s)" using assms(2,3) unfolding table_inv_def pid_room_def by blast
  from pt.run_inv [OF assms(1) this] show ?thesis by (simp add: table_inv_def)
qed

definition demo_task_res :: task_res where
  "demo_task_res = \<lparr>files = Some 1, fs = Some 1, sig = Some 1, mm = Some 1, active_mm = Some 1, vfork_done = None,
     exec_domain = 0, binfmt_module = None\<rparr>"

definition demo_mm :: "int \<Rightarrow> mm_struct" where
  "demo_mm n = \<lparr>mm_users = n, mm_count = 1, mmap = [], map_count = 0, locked_vm = 0, rss = 0, def_flags = 0,
     has_pgd = True, mml_next = 0, mml_prev = 0\<rparr>"

text \<open>All four processes share the objects 1.\<close>

definition demo_res :: res where
  "demo_res = \<lparr>tsk = (\<lambda>_. demo_task_res),
     files_tab = (\<lambda>_. \<lparr>files_count = 4, max_fds = 32, max_fdset = 32, next_fd = 0, open_fds = [1], close_on_exec = [0],
       fds = Some 7 # replicate 31 None\<rparr>),
     fs_tab = (\<lambda>_. \<lparr>fs_count = 4, fs_umask = 0x12, fs_root = 0, fs_rootmnt = 0, fs_pwd = 1, fs_pwdmnt = 0,
       fs_altroot = None, fs_altrootmnt = None\<rparr>),
     sig_tab = (\<lambda>_. \<lparr>sig_count = 4, sig_action = []\<rparr>), mm_tab = (\<lambda>_. demo_mm 4),
     live_files = {1}, live_fs = {1}, live_sig = {1}, live_mm = {0, 1}, file_refs = (\<lambda>_. 1), dentry_refs = (\<lambda>_. 1),
     mnt_refs = (\<lambda>_. 1), inode_writes = (\<lambda>_. 0), shares = (\<lambda>_. []), accounted = 0, mmlist_nr = 2,
     domain_uses = (\<lambda>_. 4), module_uses = (\<lambda>_. 0), completed = []\<rparr>"

definition demo_state :: fstate where
  "demo_state = \<lparr>kn = demo 2 ST_RUNNING, rs = demo_res\<rparr>"

lemma SET_LINKS_more:
  "user_id (procs (SET_LINKS p k) q) = user_id (procs k q)" "user_processes (SET_LINKS p k) = user_processes k"
  "max_threads (SET_LINKS p k) = max_threads k"
  by (simp_all add: SET_LINKS_def Let_def upd_keep_field [where F = user_id])

lemma demo_limits:
  "user_id (procs (demo cur st) q) = 0" "user_processes (demo cur st) 0 = 4" "max_threads (demo cur st) = 100"
  by (simp_all add: demo_def demo0_def demo_task_def SET_LINKS_more)

lemma demo_room: "max_threads (kn demo_state) \<le> 8117"
  by (simp add: demo_state_def demo_limits)

text \<open>Process 2 starts a session, then process 4 runs and makes a group of its own.\<close>

lemma demo_find: "find_task (int p) (demo 2 ST_RUNNING) = Some p" if "p \<in> set [1, 2, 3, 4]"
  using find_task_iff [OF demo_hash, of "int p" 2 ST_RUNNING p] that by simp

lemma demo_history:
  obtains k' where "(table_step demo_abi)\<^sup>*\<^sup>* demo_state (demo_state\<lparr>kn := k'\<rparr>)" "pgrp (procs k' 3) = 2" "current k' = 4"
proof -
  let ?k = "demo 2 ST_RUNNING"
  let ?k1 = "upd 3 (\<lambda>t. t\<lparr>pgrp := 2\<rparr>) ?k"
  let ?k2 = "upd 4 (\<lambda>t. t\<lparr>pstate := ST_RUNNING\<rparr>) ?k1\<lparr>current := 4\<rparr>"
  have R: "ring_is [1, 2, 3, 4] ?k" by (rule table_okD(2) [OF demo_table]) (simp_all add: ST_RUNNING_def ST_ZOMBIE_def)
  have f: "find_task 3 ?k = Some 3" using demo_find [of 3] by simp
  have sp: "setpgid_allowed 3 ?k = 0"
    by (simp add: setpgid_allowed_def Let_def demo_more) (simp add: demo_def demo0_def demo_task_def SET_LINKS_did_exec)
  have "sys_setpgid 3 2 ?k = Some (?k1, 0)"
    using f sp for_each_task_list [OF R] by (simp add: sys_setpgid_def Let_def demo_more)
  then have 1: "table_step demo_abi demo_state (demo_state\<lparr>kn := ?k1\<rparr>)"
    using S_setpgid [of demo_state 3 2 ?k1 0 demo_abi] by (simp add: running_def demo_state_def ST_RUNNING_def)
  have "ring_is [1, 2, 3, 4] ?k1" using R by (simp add: ring_is_def upd_keep)
  then have "for_each_task ?k1 = Some [1, 2, 3, 4]" by (rule for_each_task_list)
  then have 2: "table_step demo_abi (demo_state\<lparr>kn := ?k1\<rparr>) (demo_state\<lparr>kn := ?k2\<rparr>)"
    using S_switch [of "demo_state\<lparr>kn := ?k1\<rparr>" "[1, 2, 3, 4]" 4 demo_abi]
    by (simp add: upd_keep ST_RUNNING_def ST_ZOMBIE_def)
  from 1 2 show thesis by (intro that [of ?k2]) (auto simp: upd_procs)
qed

theorem process_table_safe_witness:
  "\<exists>k' xs' ch'. (table_step demo_abi)\<^sup>*\<^sup>* demo_state (demo_state\<lparr>kn := k'\<rparr>) \<and> pgrp (procs k' 3) = 2 \<and> table_ok xs' ch' k'"
proof -
  obtain k' where k': "(table_step demo_abi)\<^sup>*\<^sup>* demo_state (demo_state\<lparr>kn := k'\<rparr>)" "pgrp (procs k' 3) = 2"
    by (rule demo_history)
  have "table_ok [1, 2, 3, 4] demo_children (kn demo_state)"
    using demo_table [of 2 ST_RUNNING] by (simp add: demo_state_def ST_RUNNING_def ST_ZOMBIE_def)
  from process_table_safe [OF k'(1) this demo_room] k' show ?thesis by auto
qed

text \<open>C37: Job control holds together over every such history (\<^verbatim>\<open>max_threads\<close> at most 8117, switches between the tasks
  on the list): two processes in one group are in one session, a
  session has at most one leader, pids are unique, and a lookup of the pid of a process finds it. The group
  that \<open>setpgid\<close> names, the new group of \<open>setsid\<close> and the fresh pid of \<open>fork\<close> are what makes it so.\<close>
theorem groups_stay_in_session:
  assumes "(table_step A)\<^sup>*\<^sup>* s s'" and "table_ok xs ch (kn s)" and "max_threads (kn s) \<le> 8117"
  shows "\<exists>xs'. for_each_task (kn s') = Some xs' \<and>
    (\<forall>p\<in>set xs'. find_task (ppid (procs (kn s') p)) (kn s') = Some p \<and>
      (\<forall>q\<in>set xs'.
        (pgrp (procs (kn s') p) = pgrp (procs (kn s') q) \<longrightarrow> session (procs (kn s') p) = session (procs (kn s') q)) \<and>
        (leader (procs (kn s') p) \<and> leader (procs (kn s') q) \<and> session (procs (kn s') p) = session (procs (kn s') q) \<longrightarrow> p = q) \<and>
        (ppid (procs (kn s') p) = ppid (procs (kn s') q) \<longrightarrow> p = q)))"
proof -
  have "table_inv (kn s)" using assms(2,3) unfolding table_inv_def pid_room_def by blast
  from pt.run_inv [OF assms(1) this] obtain xs' ch' where K: "table_ok xs' ch' (kn s')" by (auto simp: table_inv_def)
  note D = table_okD [OF K]
  have J: "job_ok (set xs') (kn s')" using D(7) by (simp add: names_ok_def)
  have i: "p = q" if "p \<in> set xs'" "q \<in> set xs'" "ppid (procs (kn s') p) = ppid (procs (kn s') q)" for p q
    using inj_onD [OF hash_inj [OF D(11)] that(3,1,2)] .
  have l: "p = q" if "p \<in> set xs'" "q \<in> set xs'" "leader (procs (kn s') p)" "leader (procs (kn s') q)"
    "session (procs (kn s') p) = session (procs (kn s') q)" for p q
    using i [OF that(1,2)] job_okD(3) [OF J that(1,3)] job_okD(3) [OF J that(2,4)] that(5) by simp
  show ?thesis
  proof (rule exI [of _ xs'], intro conjI ballI impI)
    show "for_each_task (kn s') = Some xs'" by (rule for_each_task_list [OF D(2)])
    show "find_task (ppid (procs (kn s') p)) (kn s') = Some p" if "p \<in> set xs'" for p
      using find_task_iff [OF D(11)] that by simp
    show "session (procs (kn s') p) = session (procs (kn s') q)"
      if "p \<in> set xs'" "q \<in> set xs'" "pgrp (procs (kn s') p) = pgrp (procs (kn s') q)" for p q
      using job_okD(1) [OF J that] .
  qed (use i l in blast)+
qed

theorem groups_stay_in_session_witness:
  "\<exists>k' xs'. (table_step demo_abi)\<^sup>*\<^sup>* demo_state (demo_state\<lparr>kn := k'\<rparr>) \<and> pgrp (procs k' 3) = 2 \<and>
    for_each_task k' = Some xs' \<and> (\<forall>p\<in>set xs'. find_task (ppid (procs k' p)) k' = Some p)"
proof -
  obtain k' where k': "(table_step demo_abi)\<^sup>*\<^sup>* demo_state (demo_state\<lparr>kn := k'\<rparr>)" "pgrp (procs k' 3) = 2"
    by (rule demo_history)
  have "table_ok [1, 2, 3, 4] demo_children (kn demo_state)"
    using demo_table [of 2 ST_RUNNING] by (simp add: demo_state_def ST_RUNNING_def ST_ZOMBIE_def)
  from groups_stay_in_session [OF k'(1) this demo_room] k' show ?thesis by auto
qed

definition demo_env :: "tid option \<Rightarrow> int \<Rightarrow> fork_env" where
  "demo_env p err = \<lparr>new_files = Some 2, new_fs = Some 2, new_sig = Some 2, new_mm = Some 2, new_area = (\<lambda>_. None), pgd_alloc = True,
     init_new_context = 0, vm_enough_memory = (\<lambda>_. True), copy_page_range = (\<lambda>_. 0), inode_of = id, page_shift = 12,
     NR_OPEN_DEFAULT = 32, FD_SETSIZE = 32, expand_fdset = (\<lambda>f n. (f, -12)), expand_fd_array = (\<lambda>f n. (f, -12)),
     copy_namespace = 0, copy_thread = err, exit_mmap = (\<lambda>a r. upd_mm a (\<lambda>m. m\<lparr>mmap := []\<rparr>) r),
     exit_sighand = (\<lambda>p r. r), exit_namespace = (\<lambda>p r. r), new_task = p, rlim_nproc = 100, cap_admin = False,
     cap_resource = False, SIGSTOP = 19, vfork_completion = 9, caller_slice = 80\<rparr>"

lemma demo_env_fields [simp]:
  "new_task (demo_env p err) = p" "rlim_nproc (demo_env p err) = 100" "copy_namespace (demo_env p err) = 0"
  "copy_thread (demo_env p err) = err" "caller_slice (demo_env p err) = 80"
  by (simp_all add: demo_env_def)

lemma copy_resources_shared:
  assumes "files (tsk r cur) = Some a" "fs (tsk r cur) = Some b" "sig (tsk r cur) = Some c" "mm (tsk r cur) = Some d"
    "flags AND 0x400 \<noteq> 0" "flags AND 0x200 \<noteq> 0" "flags AND 0x800 \<noteq> 0" "flags AND 0x100 \<noteq> 0" "p \<noteq> cur"
    "copy_namespace X = 0" "copy_thread X = 0"
  obtains r' where "copy_resources X flags cur p r = Inr (r', 0)"
  by (rule that [of "upd_tsk p (\<lambda>t. t\<lparr>mm := Some d, active_mm := Some d\<rparr>)
      (upd_mm d (\<lambda>m. m\<lparr>mm_users := mm_users m + 1\<rparr>) (upd_tsk p (\<lambda>t. t\<lparr>mm := None, active_mm := None\<rparr>)
        (upd_sig c (\<lambda>s. s\<lparr>sig_count := sig_count s + 1\<rparr>) (upd_fs b (\<lambda>f. f\<lparr>fs_count := fs_count f + 1\<rparr>)
          (upd_files a (\<lambda>f. f\<lparr>files_count := files_count f + 1\<rparr>) r)))))"])
    (use assms in \<open>simp add: copy_resources_def copy_files_def copy_fs_def copy_sighand_def copy_mm_def Let_def
       upd_tsk_def upd_mm_def upd_sig_def upd_fs_def upd_files_def\<close>)

lemma demo_get_pid: "last_pid k = 4 \<Longrightarrow> next_safe k = 0x8000 \<Longrightarrow> get_pid False k = Some (k\<lparr>last_pid := 5\<rparr>, 5)"
  by (simp add: get_pid_def Let_def pid_wraps_def)

text \<open>A fork that shares everything, by process 2 of the table above.\<close>

lemma fork_shared:
  assumes "new_task E = Some 5" "rlim_nproc E = 100" "copy_namespace E = 0" "copy_thread E = 0" "caller_slice E \<noteq> 0"
    and "tsk r = (\<lambda>_. demo_task_res)"
  shows "\<exists>s'. do_fork E 0xf11 \<lparr>kn = demo 2 ST_RUNNING, rs = r\<rparr> = Some (Inr (s', 5))"
proof -
  let ?r = "upd_tsk 5 (\<lambda>t. t\<lparr>vfork_done := None\<rparr>) (use_modules 1 5 (upd_tsk 5 (\<lambda>_. demo_task_res) r))"
  obtain r' where r: "copy_resources E 0xf11 2 5 ?r = Inr (r', 0)"
    by (rule copy_resources_shared [of ?r 2 1 1 1 1 "0xf11" 5 E])
      (simp_all add: upd_tsk_def use_modules_def demo_task_res_def assms)
  have c: "(0xf11 :: u32) AND CLONE_VFORK = 0" "(0xf11 :: u32) AND CLONE_PID = 0"
    "(0xf11 :: u32) AND (CLONE_NEWNS OR CLONE_FS) \<noteq> CLONE_NEWNS OR CLONE_FS"
    by (simp_all add: CLONE_VFORK_def CLONE_PID_def CLONE_NEWNS_def CLONE_FS_def)
  show ?thesis
    using r c
    by (simp add: do_fork_def fork_counted_def Let_def demo_more demo_limits over_limit_def upd_procs
        count_user_def demo_get_pid fork_faults_def fork_clear_def assms)
qed

lemma demo_fork: "\<exists>s'. do_fork (demo_env (Some 5) 0) 0xf11 demo_state = Some (Inr (s', 5))"
  unfolding demo_state_def by (rule fork_shared) (simp_all add: demo_res_def)

end
