(* ===== verification/Proc_Objects.thy ===== *)
theory Proc_Objects
  imports Proc_Spaces Proc_Machine
begin

text \<open>
  HW1, the objects of all processes across a \<open>fork\<close>: every count is the number of tasks that hold the object
  (\<open>objects_ok\<close>), before and after, whether the fork succeeds or one of its copies fails and the others are
  undone. A failure after the address space was copied is excluded here (\<open>no_late_failure\<close>) and treated in
  \<^theory_text>\<open>Proc_Fork_Fails\<close>.
\<close>

definition env_ok :: "'a ext_scheme \<Rightarrow> bool" where
  "env_ok X \<longleftrightarrow> sighand_ok X \<and> namespace_ok X \<and> mmap_ok X \<and> expand_ok X"

definition no_late_failure :: "'a ext_scheme \<Rightarrow> bool" where
  "no_late_failure X \<longleftrightarrow> copy_namespace X = 0 \<and> copy_thread X = 0 \<and> init_new_context X = 0"

definition fresh_in :: "'a ext_scheme \<Rightarrow> res \<Rightarrow> bool" where
  "fresh_in X r \<longleftrightarrow> (\<forall>a. (new_files X = Some a \<longrightarrow> a \<notin> live_files r) \<and> (new_fs X = Some a \<longrightarrow> a \<notin> live_fs r) \<and>
     (new_sig X = Some a \<longrightarrow> a \<notin> live_sig r) \<and> (new_mm X = Some a \<longrightarrow> a \<notin> live_mm r))"

definition objects_ok :: "tid set \<Rightarrow> tid \<Rightarrow> res \<Rightarrow> bool" where
  "objects_ok S cur r \<longleftrightarrow>
     counted S (files_of r) \<and> counted S (fs_of r) \<and> counted S (sig_of r) \<and> spaces_ok S cur (mm_of r)"

lemma objects_okD:
  assumes "objects_ok S cur r"
  shows "counted S (files_of r)" "counted S (fs_of r)" "counted S (sig_of r)" "spaces_ok S cur (mm_of r)"
  using assms by (simp_all add: objects_ok_def)

text \<open>What a task holds.\<close>

definition held :: "res \<Rightarrow> tid \<Rightarrow> nat option \<times> nat option \<times> nat option \<times> nat option" where
  "held r p = (files (tsk r p), fs (tsk r p), sig (tsk r p), mm (tsk r p))"

lemma held_of: "held r p = (holds (files_of r) p, holds (fs_of r) p, holds (sig_of r) p, runs_in (mm_of r) p)"
  by (simp add: held_def)

lemma cloned_holds:
  assumes "cloned cur p s s'"
  shows "q \<noteq> p \<Longrightarrow> holds s' q = holds s q" "holds s cur \<noteq> None \<Longrightarrow> holds s' p \<noteq> None" "q \<noteq> p \<or> holds s' q = holds s' p"
  using assms by (auto simp: cloned_def join_share_def own_new_def)

lemma cloned_space_holds: "cloned_space cur p m m' \<Longrightarrow> q \<noteq> p \<Longrightarrow> runs_in m' q = runs_in m q"
  by (auto simp: cloned_space_def no_space_def share_space_def enter_space_def new_space_def)

lemma failed_space_holds: "failed_space p m m' \<Longrightarrow> q \<noteq> p \<Longrightarrow> runs_in m' q = runs_in m q"
  by (simp add: failed_space_def)

lemma same_but_holds: "same_but p s s' \<Longrightarrow> q \<noteq> p \<Longrightarrow> holds s' q = holds s q"
  by (simp add: same_but_def)

subsection \<open>The copies of a fork\<close>

lemma copy_mm_returns:
  assumes X: "mmap_ok X" "init_new_context X = 0" and new: "\<And>a. new_mm X = Some a \<Longrightarrow> a \<notin> live_mm r"
    and i: "init_mm \<in> live_mm r"
  obtains r' e where "copy_mm X flags cur p r = Inr (r', e)"
proof -
  have "\<exists>r'. mmput X a s = Inr r'" if "new_mm X = Some a" for a s
    using mmput_of [OF X(1), of s a] new [OF that] i by metis
  then obtain g where "mmput X a s = Inr (g a s)" if "new_mm X = Some a" for a s by metis
  then have "\<exists>r' e. copy_mm X flags cur p r = Inr (r', e)"
    using X(2) by (auto simp: copy_mm_def Let_def mm_init_def split: option.split prod.split)
  with that show thesis by blast
qed

lemma copy_fs_returns:
  assumes "fs (tsk r cur) \<noteq> None"
  obtains r' e where "copy_fs X flags cur p r = Inr (r', e)"
  using assms that by (cases "copy_fs X flags cur p r") (auto simp: copy_fs_def split: option.splits if_splits prod.splits)

lemma copy_sighand_returns:
  assumes "sig (tsk r cur) \<noteq> None"
  obtains r' e where "copy_sighand X flags cur p r = Inr (r', e)"
  using assms that by (cases "copy_sighand X flags cur p r") (auto simp: copy_sighand_def Let_def split: option.splits if_splits)

text \<open>What a failed fork leaves: the counts as they were, and every other task with its objects.\<close>

definition undone :: "tid set \<Rightarrow> tid \<Rightarrow> tid \<Rightarrow> res \<Rightarrow> res \<Rightarrow> bool" where
  "undone S cur p r r' \<longleftrightarrow> objects_ok S cur r' \<and> (\<forall>q. q \<noteq> p \<longrightarrow> held r' q = held r q)"

lemma cleanup_of:
  assumes "sighand_ok X"
  shows "files_of (cleanup_files p r) = let_go p (files_of r)" "fs_of (cleanup_files p r) = fs_of r"
    "sig_of (cleanup_files p r) = sig_of r" "mm_of (cleanup_files p r) = mm_of r"
    "files_of (cleanup_fs p r) = let_go p (files_of r)" "fs_of (cleanup_fs p r) = let_go p (fs_of r)"
    "sig_of (cleanup_fs p r) = sig_of r" "mm_of (cleanup_fs p r) = mm_of r"
    "files_of (cleanup_sighand X p r) = let_go p (files_of r)" "fs_of (cleanup_sighand X p r) = let_go p (fs_of r)"
    "sig_of (cleanup_sighand X p r) = let_go p (sig_of r)" "mm_of (cleanup_sighand X p r) = mm_of r"
  by (simp_all add: cleanup_files_def cleanup_fs_def cleanup_sighand_def exit_files_of exit_fs_of sighand_okD [OF assms])

text \<open>The first three copies. After them the child is a holder, or everything is undone.\<close>

definition copied_three :: "tid set \<Rightarrow> tid \<Rightarrow> tid \<Rightarrow> res \<Rightarrow> res \<Rightarrow> bool" where
  "copied_three S cur p r r' \<longleftrightarrow> counted (insert p S) (files_of r') \<and> counted (insert p S) (fs_of r') \<and>
     counted (insert p S) (sig_of r') \<and> mm_of r' = mm_of r \<and> (\<forall>q. q \<noteq> p \<longrightarrow> held r' q = held r q) \<and>
     fs (tsk r' p) \<noteq> None \<and> sig (tsk r' p) \<noteq> None"

definition copy_three :: "'a ext_scheme \<Rightarrow> u32 \<Rightarrow> tid \<Rightarrow> tid \<Rightarrow> res \<Rightarrow> (res \<Rightarrow> fault + (res \<times> int)) \<Rightarrow> fault + (res \<times> int)" where
  "copy_three X flags cur p r f =
     (case copy_files X flags cur p r of (r1, e1) \<Rightarrow>
      if e1 \<noteq> 0 then Inr (r1, - ENOMEM)
      else sbind (copy_fs X flags cur p r1) (\<lambda>(r2, e2).
        if e2 \<noteq> 0 then Inr (cleanup_files p r2, - ENOMEM)
        else sbind (copy_sighand X flags cur p r2) (\<lambda>(r3, e3).
          if e3 \<noteq> 0 then Inr (cleanup_fs p r3, - ENOMEM) else f r3)))"

lemma copy_three_cases:
  assumes X: "env_ok X" "fresh_in X r" and ok: "objects_ok S cur r" and p: "p \<notin> S"
    and same: "held r p = held r cur" and hold: "fs (tsk r cur) \<noteq> None" "sig (tsk r cur) \<noteq> None"
  obtains (failed) r' where "copy_three X flags cur p r f = Inr (r', - ENOMEM)" "undone S cur p r r'"
  | (copied) r3 where "copy_three X flags cur p r f = f r3" "copied_three S cur p r r3"
proof -
  note D = objects_okD [OF ok]
  have cur: "cur \<in> S" using spaces_okD(2) [OF D(4)] .
  have pc: "p \<noteq> cur" using cur p by blast
  have eq: "files (tsk r p) = files (tsk r cur)" "fs (tsk r p) = fs (tsk r cur)" "sig (tsk r p) = sig (tsk r cur)"
    using same by (simp_all add: held_def)
  have X': "sighand_ok X" "expand_ok X" using X(1) by (simp_all add: env_ok_def)
  have new: "new_files X = Some a \<Longrightarrow> a \<notin> live_files r" "new_fs X = Some a \<Longrightarrow> a \<notin> live_fs r"
    "new_sig X = Some a \<Longrightarrow> a \<notin> live_sig r" for a
    using X(2) by (auto simp: fresh_in_def)
  obtain r1 e1 where 1: "copy_files X flags cur p r = (r1, e1)" by fastforce
  note c1 = copy_files_of [OF 1 eq(1) pc X'(2) new(1)]
  have t1: "fs (tsk r1 q) = fs (tsk r q)" "sig (tsk r1 q) = sig (tsk r q)" "live_fs r1 = live_fs r" "live_sig r1 = live_sig r" for q
    using c1(2,3) by (metis of_sel)+
  show thesis
  proof (cases "e1 = 0")
    case False
    then have k: "same_but p (files_of r) (files_of r1)" using c1(1) by simp
    have "undone S cur p r r1"
      using D c1(2-4) counted_same_but [OF D(1) k p] same_but_holds [OF k] by (simp add: undone_def objects_ok_def held_of)
    then show thesis using failed 1 False by (simp add: copy_three_def)
  next
    case e1: True
    then have k1: "cloned cur p (files_of r) (files_of r1)" using c1(1) by simp
    note S1 = counted_cloned [OF D(1) k1 cur p] and H1 = cloned_holds(1) [OF k1]
    obtain r2 e2 where 2: "copy_fs X flags cur p r1 = Inr (r2, e2)"
      using copy_fs_returns [of r1 cur X flags p] hold(1) t1(1) by auto
    note c2 = copy_fs_of [OF 2, unfolded t1, OF eq(2) new(2)]
    have t2: "sig (tsk r2 q) = sig (tsk r q)" "live_sig r2 = live_sig r" for q
      using c1(3) c2(3) by (metis of_sel)+
    show thesis
    proof (cases "e2 = 0")
      case False
      then have k: "same_but p (fs_of r) (fs_of r2)" using c1(2) c2(1) by simp
      have "undone S cur p r (cleanup_files p r2)"
        using D counted_undo [OF S1] counted_same_but [OF D(2) k p] same_but_holds [OF k] H1
        by (simp add: undone_def objects_ok_def held_of cleanup_of [OF X'(1)] c1(3,4) c2(2-4))
      then show thesis using failed 1 2 e1 False by (simp add: copy_three_def)
    next
      case e2: True
      then have k2: "cloned cur p (fs_of r) (fs_of r2)" using c1(2) c2(1) by simp
      note S2 = counted_cloned [OF D(2) k2 cur p] and H2 = cloned_holds(1) [OF k2]
      obtain r3 e3 where 3: "copy_sighand X flags cur p r2 = Inr (r3, e3)"
        using copy_sighand_returns [of r2 cur X flags p] hold(2) t2(1) by auto
      note c3 = copy_sighand_of [OF 3, unfolded t2, OF eq(3) new(3)]
      have s2: "sig_of r2 = sig_of r" using c1(3) c2(3) by simp
      show thesis
      proof (cases "e3 = 0")
        case False
        then have k: "same_but p (sig_of r) (sig_of r3)" using c3(1) s2 by simp
        have "undone S cur p r (cleanup_fs p r3)"
          using D counted_undo [OF S1] counted_undo [OF S2] counted_same_but [OF D(3) k p] same_but_holds [OF k] H1 H2
          by (simp add: undone_def objects_ok_def held_of cleanup_of [OF X'(1)] c1(4) c2(2,4) c3(2-4))
        then show thesis using failed 1 2 3 e1 e2 False by (simp add: copy_three_def)
      next
        case e3: True
        then have k3: "cloned cur p (sig_of r) (sig_of r3)" using c3(1) s2 by simp
        have "fs (tsk r3 p) \<noteq> None" "sig (tsk r3 p) \<noteq> None"
          using cloned_holds(2) [OF k2] cloned_holds(2) [OF k3] hold c3(3) by (metis of_sel(4,7))+
        then have "copied_three S cur p r r3"
          using S1 S2 counted_cloned [OF D(3) k3 cur p] H1 H2 cloned_holds(1) [OF k3]
          by (simp add: copied_three_def held_of c1(4) c2(2,4) c3(2-4))
        then show thesis using copied 1 2 3 e1 e2 e3 by (simp add: copy_three_def)
      qed
    qed
  qed
qed

lemma copy_resources_ok:
  assumes X: "env_ok X" "no_late_failure X" "fresh_in X r" and ok: "objects_ok S cur r" and p: "p \<notin> S"
    and copied: "held r p = held r cur" and hold: "fs (tsk r cur) \<noteq> None" "sig (tsk r cur) \<noteq> None"
  shows "\<exists>r' e. copy_resources X flags cur p r = Inr (r', e) \<and> (\<forall>q. q \<noteq> p \<longrightarrow> held r' q = held r q) \<and>
    (if e = 0 then objects_ok (insert p S) cur r' \<and> fs (tsk r' p) \<noteq> None \<and> sig (tsk r' p) \<noteq> None
     else objects_ok S cur r')"
proof -
  let ?f = "\<lambda>r3. sbind (copy_mm X flags cur p r3) (\<lambda>(r4, e4).
            if e4 \<noteq> 0 then Inr (cleanup_sighand X p r4, - ENOMEM)
            else if copy_namespace X \<noteq> 0 then failed (- ENOMEM) (cleanup_mm X cur p r4)
            else if copy_thread X \<noteq> 0 then failed (copy_thread X) (cleanup_namespace X cur p r4)
            else Inr (r4, 0))"
  have eq: "copy_resources X flags cur p r = copy_three X flags cur p r ?f"
    by (simp add: copy_resources_def copy_three_def)
  note D = objects_okD [OF ok]
  have X': "sighand_ok X" "mmap_ok X" "copy_namespace X = 0" "copy_thread X = 0" "init_new_context X = 0"
    using X(1,2) by (simp_all add: env_ok_def no_late_failure_def)
  show ?thesis
  proof (rule copy_three_cases [OF X(1,3) ok p copied hold, of flags ?f])
    fix r' assume "copy_three X flags cur p r ?f = Inr (r', - ENOMEM)" "undone S cur p r r'"
    then show ?thesis by (auto simp: eq undone_def)
  next
    fix r3 assume c: "copy_three X flags cur p r ?f = ?f r3" "copied_three S cur p r r3"
    have m3: "mm_of r3 = mm_of r" using c(2) by (simp add: copied_three_def)
    then have l: "live_mm r3 = live_mm r" by (metis of_sel(14))
    have new: "new_mm X = Some a \<Longrightarrow> a \<notin> live_mm r3" for a using X(3) l by (simp add: fresh_in_def)
    have i: "init_mm \<in> live_mm r3" using spaces_okD(3) [OF D(4)] l by simp
    have pc: "p \<noteq> cur" using spaces_okD(2) [OF D(4)] p by blast
    obtain r4 e4 where 4: "copy_mm X flags cur p r3 = Inr (r4, e4)" by (rule copy_mm_returns [OF X'(2,5) new i])
    note c4 = copy_mm_of [OF 4 X'(2,5) new i pc, unfolded m3 same_objects_def]
    show ?thesis
    proof (cases "e4 = 0")
      case True
      have "copy_resources X flags cur p r = Inr (r4, 0)" using True 4 X' by (simp add: eq c(1))
      moreover have "spaces_ok (insert p S) cur (mm_of r4)" using spaces_ok_cloned [OF D(4) _ p] c4(1) True by simp
      moreover have "held r4 q = held r3 q" if "q \<noteq> p" for q
        using c4 True cloned_space_holds [OF _ that, of cur "mm_of r" "mm_of r4"] by (simp add: held_of m3)
      moreover have "fs (tsk r4 q) = fs (tsk r3 q)" "sig (tsk r4 q) = sig (tsk r3 q)" for q
        using c4(2) by (metis of_sel(4,7))+
      ultimately show ?thesis using c(2) c4(2) by (auto simp: copied_three_def objects_ok_def)
    next
      case False
      have "copy_resources X flags cur p r = Inr (cleanup_sighand X p r4, - ENOMEM)" using False 4 by (simp add: eq c(1))
      moreover have "spaces_ok S cur (mm_of r4)" using spaces_ok_failed [OF D(4) _ p] c4(1) False by simp
      moreover have "held (cleanup_sighand X p r4) q = held r q" if "q \<noteq> p" for q
        using c(2) c4 False that failed_space_holds [OF _ that, of "mm_of r" "mm_of r4"]
        by (simp add: held_of cleanup_of [OF X'(1)] copied_three_def)
      ultimately show ?thesis
        using c(2) c4(2) by (auto simp: copied_three_def objects_ok_def cleanup_of [OF X'(1)] counted_undo)
    qed
  qed
qed

subsection \<open>The whole call\<close>

text \<open>Objects that no task of \<open>S\<close> points at may be pointed at by anyone else.\<close>

lemma objects_ok_outside:
  assumes ok: "objects_ok S cur r" and same: "\<And>q. q \<in> S \<Longrightarrow> held r' q = held r q \<and> active_mm (tsk r' q) = active_mm (tsk r q)"
    and tabs: "files_tab r' = files_tab r" "fs_tab r' = fs_tab r" "sig_tab r' = sig_tab r" "mm_tab r' = mm_tab r"
      "live_files r' = live_files r" "live_fs r' = live_fs r" "live_sig r' = live_sig r" "live_mm r' = live_mm r"
  shows "objects_ok S cur r'"
proof -
  note D = objects_okD [OF ok]
  have c: "counted S (g r')"
    if "counted S (g r)" "\<And>q. q \<in> S \<Longrightarrow> holds (g r') q = holds (g r) q" "uses (g r') = uses (g r)" "alive (g r') = alive (g r)"
    for g :: "res \<Rightarrow> share"
  proof -
    have "holders S (g r') a = holders S (g r) a" for a by (rule holders_same) (rule that(2))
    then show ?thesis using countedD [OF that(1)] that(2-4) by (intro countedI) auto
  qed
  have "counted S (files_of r')" "counted S (fs_of r')" "counted S (sig_of r')"
    by (rule c [of files_of, OF D(1)] c [of fs_of, OF D(2)] c [of sig_of, OF D(3)]; use same in \<open>simp add: held_def fun_eq_iff tabs\<close>)+
  moreover have "spaces_ok S cur (mm_of r')"
  proof -
    note M = spaces_okD [OF D(4)]
    have s: "mm (tsk r' q) = mm (tsk r q)" "active_mm (tsk r' q) = active_mm (tsk r q)" if "q \<in> S" for q
      using same [OF that] by (simp_all add: held_def)
    have "runners S (mm_of r') a = runners S (mm_of r) a" for a using s by (auto simp: runners_def)
    moreover have "lazy_on cur (mm_of r') a = lazy_on cur (mm_of r) a" for a using s M(2) by (simp add: lazy_on_def)
    ultimately show ?thesis using M s by (intro spaces_okI) (simp_all add: tabs)
  qed
  ultimately show ?thesis by (simp add: objects_ok_def)
qed

text \<open>What a call of \<open>fork\<close> does to objects and states of the tasks: all others keep them (but the caller may wait),
  and the child has its own or does not exist.\<close>

definition forked :: "tid set \<Rightarrow> tid \<Rightarrow> fstate \<Rightarrow> fstate \<Rightarrow> bool" where
  "forked S p s s' \<longleftrightarrow>
     current (kn s') = current (kn s) \<and>
     (\<forall>q. q \<noteq> p \<longrightarrow> (pstate (procs (kn s') q) = pstate (procs (kn s) q) \<or>
         q = current (kn s) \<and> pstate (procs (kn s') q) = ST_UNINTERRUPTIBLE) \<and> held (rs s') q = held (rs s) q) \<and>
     (if nr_threads (kn s') = nr_threads (kn s) then objects_ok S (current (kn s)) (rs s')
      else nr_threads (kn s') = nr_threads (kn s) + 1 \<and> objects_ok (insert p S) (current (kn s)) (rs s') \<and>
        fs (tsk (rs s') p) \<noteq> None \<and> sig (tsk (rs s') p) \<noteq> None \<and> pstate (procs (kn s') p) = ST_RUNNING)"

lemma fork_publish_effect:
  "current (fork_publish E flags p k) = current k" "nr_threads (fork_publish E flags p k) = nr_threads k + 1"
  "pstate (procs (fork_publish E flags p k) q) = (if q = p then ST_RUNNING else pstate (procs k q))"
proof -
  obtain k5 es where k5: "k5 = SET_LINKS p (fork_linkless flags p k)" and f: "fork_publish E flags p k =
      upd p (\<lambda>t. t\<lparr>pstate := ST_RUNNING\<rparr>) (emit es (k5\<lparr>pidhash :=
       hash_pid (\<lambda>q. ppid (procs k5 q)) p (pidhash k5), nr_threads := nr_threads k5 + 1\<rparr>))
       \<lparr>total_forks := total_forks k + 1\<rparr>" by (rule fork_publish_linkless)
  show "current (fork_publish E flags p k) = current k" "nr_threads (fork_publish E flags p k) = nr_threads k + 1"
    "pstate (procs (fork_publish E flags p k) q) = (if q = p then ST_RUNNING else pstate (procs k q))"
    unfolding f by (auto simp: k5 upd_procs SET_LINKS_ids fork_linkless_globals fork_linkless_other(7))
qed

lemma fork_counted_objects:
  fixes E :: "'a fork_env_scheme"
  assumes X: "env_ok E" "no_late_failure E" "fresh_in E (rs s)" and ok: "objects_ok S (current (kn s)) (rs s)" and p: "p \<notin> S"
    and copied: "held (rs s) p = held (rs s) (current (kn s))"
    and hold: "fs (tsk (rs s) (current (kn s))) \<noteq> None" "sig (tsk (rs s) (current (kn s))) \<noteq> None"
    and r: "fork_counted E flags p s = Some out"
  shows "(out = Inl Kernel_Bug \<and> caller_slice E = 0) \<or> (\<exists>s' ret. out = Inr (s', ret) \<and> forked S p s s')"
proof -
  let ?c = "current (kn s)"
  have pc: "p \<noteq> ?c" using spaces_okD(2) [OF objects_okD(4) [OF ok]] p by blast
  define r1 where "r1 = use_modules 1 p (rs s)"
  define r2 where "r2 = upd_tsk p (\<lambda>t. t\<lparr>vfork_done :=
      if flags AND CLONE_VFORK \<noteq> 0 then Some (vfork_completion E) else None\<rparr>) r1"
  define k1 where "k1 = upd p (fork_fields flags) (kn s)"
  define u where "u = user_id (procs (kn s) p)"
  define undo where "undo = (\<lambda>k r. \<lparr>kn = free_task_struct p (count_user u (-1) k), rs = use_modules (-1) p r\<rparr>)"
  obtain k2 pid where gp: "get_pid (flags AND CLONE_PID \<noteq> 0) k1 = Some (k2, pid)"
    using r by (auto simp: fork_counted_def Let_def k1_def)
  define k3 where "k3 = upd p (\<lambda>t. t\<lparr>ppid := pid\<rparr>) k2"
  define k5 where "k5 = upd p fork_faults (upd p fork_clear k3)"
  have g2: "procs k2 = procs k1" "current k2 = ?c" "nr_threads k2 = nr_threads (kn s)"
    using arg_cong [OF get_pid_globals [OF gp], of procs] arg_cong [OF get_pid_globals [OF gp], of current]
      arg_cong [OF get_pid_globals [OF gp], of nr_threads] by (simp_all add: k1_def)
  have keep: "q \<noteq> p \<Longrightarrow> procs k3 q = procs (kn s) q" "q \<noteq> p \<Longrightarrow> procs k5 q = procs (kn s) q"
    "current k3 = ?c" "current k5 = ?c" "nr_threads k3 = nr_threads (kn s)" "nr_threads k5 = nr_threads (kn s)" for q
    by (simp_all add: k3_def k5_def k1_def upd_procs g2)
  have same: "held (use_modules d q r) = held r" "objects_ok T c (use_modules d q r) = objects_ok T c r" for d q r T c
    by (auto simp: fun_eq_iff held_def use_modules_def objects_ok_def of_defs)
  have h2: "held r2 = held (rs s)" "fs (tsk r2 ?c) \<noteq> None" "sig (tsk r2 ?c) \<noteq> None"
    using hold pc by (auto simp: fun_eq_iff held_def r2_def r1_def use_modules_def upd_tsk_def)
  have ok2: "objects_ok S ?c r2"
    by (rule objects_ok_outside [OF ok]) (use h2 p in \<open>auto simp: r2_def r1_def use_modules_def upd_tsk_def\<close>)
  have f2: "fresh_in E r2" using X(3) by (simp add: fresh_in_def r2_def r1_def use_modules_def upd_tsk_def)
  obtain r3 e where c: "copy_resources E flags ?c p r2 = Inr (r3, e)" "\<And>q. q \<noteq> p \<Longrightarrow> held r3 q = held r2 q"
    "if e = 0 then objects_ok (insert p S) ?c r3 \<and> fs (tsk r3 p) \<noteq> None \<and> sig (tsk r3 p) \<noteq> None else objects_ok S ?c r3"
    using copy_resources_ok [OF X(1,2) f2 ok2 p _ h2(2,3), of flags] copied h2(1) by auto
  define published where "published = (if flags AND CLONE_VFORK \<noteq> 0
      then wait_for_child (vfork_completion E) (fork_publish E flags p k5) else fork_publish E flags p k5)"
  have failed: "forked S p s (undo k r)"
    if "\<And>q. q \<noteq> p \<Longrightarrow> procs k q = procs (kn s) q" "current k = ?c" "nr_threads k = nr_threads (kn s)" "objects_ok S ?c r"
      "\<And>q. q \<noteq> p \<Longrightarrow> held r q = held (rs s) q" for k r
    using that by (simp add: forked_def undo_def same free_task_struct_def count_user_def upd_procs)
  have "out = (if pid = 0 \<and> ppid (procs k3 ?c) \<noteq> 0 then Inr (undo k3 r1, - EAGAIN)
      else if e \<noteq> 0 then Inr (undo k5 r3, e) else if caller_slice E = 0 then Inl Kernel_Bug
      else Inr (\<lparr>kn = published, rs = r3\<rparr>, ppid (procs k5 p)))"
    using r gp c(1) by (auto simp: fork_counted_def Let_def r1_def r2_def k1_def k3_def k5_def u_def undo_def published_def)
  moreover have "forked S p s (undo k3 r1)" by (rule failed) (use keep ok in \<open>simp_all add: r1_def same\<close>)
  moreover have "forked S p s (undo k5 r3)" if "e \<noteq> 0" by (rule failed) (use keep c that h2 in simp_all)
  moreover have "forked S p s \<lparr>kn = published, rs = r3\<rparr>" if "e = 0"
  proof -
    have g: "current published = ?c" "nr_threads published = nr_threads (kn s) + 1" "pstate (procs published p) = ST_RUNNING"
      using keep pc by (simp_all add: published_def fork_publish_effect wait_for_child_fields)
    have "pstate (procs published q) = pstate (procs (kn s) q) \<or> q = ?c \<and> pstate (procs published q) = ST_UNINTERRUPTIBLE"
      if "q \<noteq> p" for q using keep that by (simp add: published_def fork_publish_effect wait_for_child_fields)
    then show ?thesis using c that h2 g by (simp add: forked_def)
  qed
  ultimately show ?thesis by (cases "e = 0") auto
qed

lemma do_fork_objects:
  fixes E :: "'a fork_env_scheme"
  assumes X: "env_ok E" "no_late_failure E" "fresh_in E (rs s)" and ok: "objects_ok S (current (kn s)) (rs s)"
    and new: "\<And>p. new_task E = Some p \<Longrightarrow> p \<notin> S"
    and hold: "fs (tsk (rs s) (current (kn s))) \<noteq> None" "sig (tsk (rs s) (current (kn s))) \<noteq> None"
    and r: "do_fork E flags s = Some out"
  shows "(out = Inl Kernel_Bug \<and> caller_slice E = 0) \<or>
    (\<exists>s' ret. out = Inr (s', ret) \<and> (s' = s \<or> (\<exists>p. new_task E = Some p \<and> forked S p s s')))"
proof (cases "flags AND (CLONE_NEWNS OR CLONE_FS) = CLONE_NEWNS OR CLONE_FS \<or>
    (flags AND CLONE_PID \<noteq> 0 \<and> ppid (procs (kn s) (current (kn s))) \<noteq> 0) \<or> new_task E = None")
  case True
  then show ?thesis using r by (auto simp: do_fork_def Let_def split: if_splits)
next
  case False
  let ?c = "current (kn s)"
  obtain p where p: "new_task E = Some p" using False by auto
  have nf: "\<not> flags AND (CLONE_NEWNS OR CLONE_FS) = CLONE_NEWNS OR CLONE_FS"
    "\<not> (flags AND CLONE_PID \<noteq> 0 \<and> ppid (procs (kn s) ?c) \<noteq> 0)" using False by blast+
  have pc: "p \<noteq> ?c" using spaces_okD(2) [OF objects_okD(4) [OF ok]] new [OF p] by blast
  define s1 where "s1 = \<lparr>kn = upd p (\<lambda>_. procs (kn s) ?c) (kn s), rs = upd_tsk p (\<lambda>_. tsk (rs s) ?c) (rs s)\<rparr>"
  define u where "u = user_id (procs (kn s1) p)"
  define s2 where "s2 = s1\<lparr>kn := count_user u 1 (kn s1)\<rparr>"
  have t: "held (rs s1) q = (if q = p then held (rs s) ?c else held (rs s) q)" for q by (simp add: s1_def held_def upd_tsk_def)
  have ps: "q \<noteq> p \<Longrightarrow> procs (kn s1) q = procs (kn s) q" for q by (simp add: s1_def upd_procs)
  have ok1: "objects_ok S ?c (rs s1)"
    by (rule objects_ok_outside [OF ok]) (use new [OF p] in \<open>auto simp: s1_def held_def upd_tsk_def\<close>)
  have d: "do_fork E flags s = (if over_limit E (kn s1) p then Some (Inr (s1\<lparr>kn := free_task_struct p (kn s1)\<rparr>, - EAGAIN))
      else if nr_threads (kn s2) \<ge> max_threads (kn s2)
        then Some (Inr (s1\<lparr>kn := free_task_struct p (count_user u (-1) (kn s2))\<rparr>, - EAGAIN))
      else fork_counted E flags p s2)"
    unfolding do_fork_def Let_def if_not_P [OF nf(1)] if_not_P [OF nf(2)] p option.case by (simp add: s1_def s2_def u_def)
  have early: "forked S p s (s1\<lparr>kn := free_task_struct p k\<rparr>)"
    if "procs k = procs (kn s1)" "current k = ?c" "nr_threads k = nr_threads (kn s)" for k
    using that ok1 t ps by (simp add: forked_def free_task_struct_def upd_procs)
  have k: "procs (kn s2) = procs (kn s1)" "current (kn s2) = ?c" "nr_threads (kn s2) = nr_threads (kn s)" "rs s2 = rs s1"
    by (simp_all add: s2_def s1_def count_user_def)
  have cur: "tsk (rs s2) ?c = tsk (rs s) ?c" using pc by (simp add: k s1_def upd_tsk_def)
  have fork: "(o' = Inl Kernel_Bug \<and> caller_slice E = 0) \<or> (\<exists>s' ret. o' = Inr (s', ret) \<and> forked S p s s')" if o: "fork_counted E flags p s2 = Some o'" for o'
  proof -
    have "(o' = Inl Kernel_Bug \<and> caller_slice E = 0) \<or> (\<exists>s' ret. o' = Inr (s', ret) \<and> forked S p s2 s')"
    proof (rule fork_counted_objects [OF X(1,2) _ _ new [OF p] _ _ _ o])
      show "fresh_in E (rs s2)" using X(3) by (simp add: k s1_def fresh_in_def upd_tsk_def)
      show "objects_ok S (current (kn s2)) (rs s2)" using ok1 by (simp add: k)
      show "held (rs s2) p = held (rs s2) (current (kn s2))" using pc by (simp add: k t)
      show "fs (tsk (rs s2) (current (kn s2))) \<noteq> None" "sig (tsk (rs s2) (current (kn s2))) \<noteq> None"
        using hold cur by (simp_all add: k(2))
    qed
    moreover have "forked S p s2 s' \<Longrightarrow> forked S p s s'" for s'
      unfolding forked_def k using t ps by simp
    ultimately show ?thesis by blast
  qed
  show ?thesis
    using r early [of "kn s1"] early [of "count_user u (-1) (kn s2)"] fork p
    unfolding d by (auto simp: s1_def s2_def count_user_def split: if_splits)
qed

end
