(* ===== verification/Proc_Lifecycle.thy ===== *)
theory Proc_Lifecycle
  imports Proc_Objects
begin

text \<open>
  HW1, the life of processes with all that they hold: \<open>fork\<close>, \<open>exit\<close>, \<open>wait4\<close>, the group and session calls
  and the switch of the processor (\<open>lifecycle_step\<close>), on the process table and the shared objects together.
  \<open>life_inv\<close> joins the order of the table with the exactness of the counts; it is an invariant while the
  code outside the repository keeps its contract and no copy fails late, and in its states no operation runs into a
  fault. The last property says what a fork returns.
\<close>

subsection \<open>The end of a process\<close>

lemma leave_space_runs [simp]: "runs_in (leave_space p m) = (runs_in m)(p := None)"
  by (auto simp: leave_space_def put_space_def drop_ref_def Let_def fun_upd_idem split: option.split)

text \<open>The part of \<open>do_exit\<close> that gives up the objects.\<close>

definition drop_all :: "'a ext_scheme \<Rightarrow> tid \<Rightarrow> res \<Rightarrow> fault + res" where
  "drop_all X c r =
     map_sum id (\<lambda>r1. use_modules (-1) c (exit_sighand X c (exit_namespace X c (exit_fs c (exit_files c r1))))) (exit_mm X c c r)"

lemma use_modules_of:
  "files_of (use_modules d p r) = files_of r" "fs_of (use_modules d p r) = fs_of r" "sig_of (use_modules d p r) = sig_of r"
  "mm_of (use_modules d p r) = mm_of r"
  by (simp_all add: of_defs use_modules_def)

lemma namespace_okD:
  assumes "namespace_ok X"
  shows "files_of (exit_namespace X p r) = files_of r" "fs_of (exit_namespace X p r) = fs_of r"
    "sig_of (exit_namespace X p r) = sig_of r" "mm_of (exit_namespace X p r) = mm_of r"
  using assms by (simp_all add: namespace_ok_def same_others_def)

lemma drop_all_ok:
  assumes X: "env_ok X" and ok: "objects_ok S c r"
  shows "\<exists>r'. drop_all X c r = Inr r' \<and> objects_ok S c r' \<and> held r' c = (None, None, None, None) \<and>
    (\<forall>q. q \<noteq> c \<longrightarrow> held r' q = held r q)"
proof -
  have X': "sighand_ok X" "namespace_ok X" "mmap_ok X" using X by (simp_all add: env_ok_def)
  note D = objects_okD [OF ok]
  have c: "c \<in> S" using spaces_okD(2) [OF D(4)] .
  obtain r1 where r1: "exit_mm X c c r = Inr r1" "mm_of r1 = leave_space c (mm_of r)" "same_objects r r1"
    by (rule exit_mm_of [OF X'(3) D(4)])
  define r' where "r' = use_modules (-1) c (exit_sighand X c (exit_namespace X c (exit_fs c (exit_files c r1))))"
  note simps = use_modules_of sighand_okD [OF X'(1)] namespace_okD [OF X'(2)] exit_fs_of exit_files_of
  have o: "files_of r' = let_go c (files_of r)" "fs_of r' = let_go c (fs_of r)" "sig_of r' = let_go c (sig_of r)"
    "mm_of r' = leave_space c (mm_of r)"
    using r1(2,3) by (simp_all add: r'_def simps same_objects_def)
  have "objects_ok S c r'"
    using counted_let_go [OF D(1) c] counted_let_go [OF D(2) c] counted_let_go [OF D(3) c] spaces_ok_leave [OF D(4)]
    by (simp add: objects_ok_def o)
  moreover have "held r' q = (if q = c then (None, None, None, None) else held r q)" for q
    by (simp add: held_of o)
  ultimately show ?thesis using r1(1) by (auto simp: drop_all_def r'_def)
qed

lemma do_exit_drop:
  "do_exit E A ctty code s = Some out \<Longrightarrow> \<not> (ppid (procs (kn s) (current (kn s))) \<in> {0, 1}) \<Longrightarrow>
     (case drop_all E (current (kn s)) (rs s) of Inl f \<Rightarrow> out = Inl f | Inr r \<Rightarrow> \<exists>s'. out = Inr s' \<and> rs s' = r)"
  by (auto simp: do_exit_def drop_all_def Let_def split: sum.splits option.splits)

subsection \<open>Becoming a kernel thread\<close>

lemma join_share_sel [simp]: "holds (join_share p a s) = (holds s)(p := Some a)" "uses (join_share p a s) = (uses s)(a := uses s a + 1)"
  "alive (join_share p a s) = alive s"
  by (simp_all add: join_share_def)

lemma counted_join:
  assumes c: "counted S s" and p: "p \<in> S" "holds s p = None" and q: "q \<in> S" "holds s q = Some a"
  shows "counted S (join_share p a s)"
proof -
  note D = countedD [OF c]
  have a: "a \<in> alive s" using D(4) q by blast
  have h: "holders S (join_share p a s) b = (if b = a then insert p (holders S s b) else holders S s b)" for b
    using p by (auto simp: holders_def)
  have n: "p \<notin> holders S s b" for b using p(2) by (simp add: holders_def)
  show ?thesis
    using D a p finite_holders [OF D(1)] n by (intro countedI) (auto simp: h split: if_splits)
qed

lemma daemonize_ok:
  fixes E :: "'a fork_env_scheme"
  assumes X: "env_ok E" and ok: "objects_ok S (current (kn s)) (rs s)"
    and i: "init_task \<in> S" "init_task \<noteq> current (kn s)" "fs (tsk (rs s) init_task) \<noteq> None" "files (tsk (rs s) init_task) \<noteq> None"
  shows "\<exists>s'. daemonize E s = Inr s' \<and> objects_ok S (current (kn s)) (rs s') \<and>
    files (tsk (rs s') (current (kn s))) = files (tsk (rs s) init_task) \<and>
    fs (tsk (rs s') (current (kn s))) = fs (tsk (rs s) init_task) \<and> mm (tsk (rs s') (current (kn s))) = None \<and>
    sig (tsk (rs s') (current (kn s))) = sig (tsk (rs s) (current (kn s))) \<and>
    (\<forall>q. q \<noteq> current (kn s) \<longrightarrow> held (rs s') q = held (rs s) q)"
proof -
  let ?c = "current (kn s)" and ?r = "rs s"
  note D = objects_okD [OF ok]
  have c: "?c \<in> S" using spaces_okD(2) [OF D(4)] .
  have M: "mmap_ok E" using X by (simp add: env_ok_def)
  obtain r1 where r1: "exit_mm E ?c ?c ?r = Inr r1" "mm_of r1 = leave_space ?c (mm_of ?r)" "same_objects ?r r1"
    by (rule exit_mm_of [OF M D(4)])
  obtain a b where ab: "fs (tsk ?r init_task) = Some a" "files (tsk ?r init_task) = Some b" using i by auto
  define r2 where "r2 = exit_fs ?c r1"
  define r3 where "r3 = upd_fs a (\<lambda>f. f\<lparr>fs_count := fs_count f + 1\<rparr>) (upd_tsk ?c (\<lambda>t. t\<lparr>fs := Some a\<rparr>) r2)"
  define r4 where "r4 = exit_files ?c r3"
  define r5 where "r5 = upd_files b (\<lambda>f. f\<lparr>files_count := files_count f + 1\<rparr>) (upd_tsk ?c (\<lambda>t. t\<lparr>files := Some b\<rparr>) r4)"
  have o2: "files_of r2 = files_of ?r" "fs_of r2 = let_go ?c (fs_of ?r)" "sig_of r2 = sig_of ?r" "mm_of r2 = leave_space ?c (mm_of ?r)"
    using r1(2,3) by (simp_all add: r2_def exit_fs_of same_objects_def)
  have "fs_of r3 = join_share ?c a (fs_of r2)" "files_of r3 = files_of r2" "sig_of r3 = sig_of r2" "mm_of r3 = mm_of r2"
    by (auto simp: r3_def of_defs join_share_def upd_fs_def upd_tsk_def fun_eq_iff)
  then have o4: "fs_of r4 = join_share ?c a (let_go ?c (fs_of ?r))" "files_of r4 = let_go ?c (files_of ?r)" "sig_of r4 = sig_of ?r"
    "mm_of r4 = leave_space ?c (mm_of ?r)"
    by (simp_all add: r4_def exit_files_of o2)
  have "files_of r5 = join_share ?c b (files_of r4)" "fs_of r5 = fs_of r4" "sig_of r5 = sig_of r4" "mm_of r5 = mm_of r4"
    by (auto simp: r5_def of_defs join_share_def upd_files_def upd_tsk_def fun_eq_iff)
  then have o5: "fs_of r5 = join_share ?c a (let_go ?c (fs_of ?r))" "files_of r5 = join_share ?c b (let_go ?c (files_of ?r))"
    "sig_of r5 = sig_of ?r" "mm_of r5 = leave_space ?c (mm_of ?r)" by (simp_all add: o4)
  have "holds (fs_of r2) init_task = Some a" "holds (files_of r4) init_task = Some b" using ab i(2) by (simp_all only: o2 o4, simp_all)
  then have p: "fs (tsk r2 init_task) = Some a" "files (tsk r4 init_task) = Some b" by simp_all
  have "daemonize E s = Inr \<lparr>kn = upd ?c (\<lambda>t. t\<lparr>session := 1, pgrp := 1, tty := False\<rparr>) (kn s), rs = r5\<rparr>"
    using r1(1) p by (simp add: daemonize_def Let_def r2_def [symmetric] r3_def [symmetric] r4_def [symmetric] r5_def)
  moreover have "counted S (fs_of r5)"
    unfolding o5 by (rule counted_join [OF counted_let_go [OF D(2) c] c _ i(1)]) (use ab i(2) in simp_all)
  moreover have "counted S (files_of r5)"
    unfolding o5 by (rule counted_join [OF counted_let_go [OF D(1) c] c _ i(1)]) (use ab i(2) in simp_all)
  moreover have "files (tsk r5 q) = (if q = ?c then Some b else files (tsk ?r q))"
    "fs (tsk r5 q) = (if q = ?c then Some a else fs (tsk ?r q))" "sig (tsk r5 q) = sig (tsk ?r q)"
    "mm (tsk r5 q) = (if q = ?c then None else mm (tsk ?r q))" for q
    using fun_cong [OF arg_cong [OF o5(2), of holds]] fun_cong [OF arg_cong [OF o5(1), of holds]]
      fun_cong [OF arg_cong [OF o5(3), of holds]] fun_cong [OF arg_cong [OF o5(4), of runs_in]] by simp_all
  ultimately show ?thesis using D(3) spaces_ok_leave [OF D(4)] ab by (simp add: objects_ok_def o5(3,4) held_def)
qed

subsection \<open>The machine\<close>

definition holds_nothing :: "res \<Rightarrow> tid \<Rightarrow> bool" where
  "holds_nothing r p \<longleftrightarrow> held r p = (None, None, None, None)"

definition tasks_of :: "tid list \<Rightarrow> tid set" where
  "tasks_of xs = insert init_task (set xs)"

text \<open>A dead task holds nothing; every other one has a directory and signal handlers.\<close>

definition all_hold :: "tid list \<Rightarrow> fstate \<Rightarrow> bool" where
  "all_hold xs s \<longleftrightarrow>
     (\<forall>p\<in>set xs. if pstate (procs (kn s) p) = ST_ZOMBIE then holds_nothing (rs s) p
        else fs (tsk (rs s) p) \<noteq> None \<and> sig (tsk (rs s) p) \<noteq> None) \<and>
     fs (tsk (rs s) init_task) \<noteq> None \<and> files (tsk (rs s) init_task) \<noteq> None"

definition life_ok :: "tid list \<Rightarrow> (tid \<Rightarrow> tid list) \<Rightarrow> fstate \<Rightarrow> bool" where
  "life_ok xs ch s \<longleftrightarrow> table_ok xs ch (kn s) \<and> objects_ok (tasks_of xs) (current (kn s)) (rs s) \<and> all_hold xs s"

definition life_inv :: "fstate \<Rightarrow> bool" where
  "life_inv s \<longleftrightarrow> pid_room (kn s) \<and> (\<exists>xs ch. life_ok xs ch s)"

text \<open>\<open>Env\<close> says which behaviours of the code outside the repository are looked at; the allocators hand out what is
  not in use. As in \<open>table_step\<close>, the idle task is not switched to.\<close>

inductive lifecycle_step :: "(fork_env \<Rightarrow> bool) \<Rightarrow> exit_abi \<Rightarrow> fstate \<Rightarrow> fstate \<Rightarrow> bool" for Env A where
  L_fork: "running s \<Longrightarrow> Env E \<Longrightarrow> do_fork E flags s = Some (Inr (s', r)) \<Longrightarrow>
     for_each_task (kn s) = Some xs \<Longrightarrow> new_task_ok E xs \<Longrightarrow> fresh_in E (rs s) \<Longrightarrow> lifecycle_step Env A s s'"
| L_setpgid: "running s \<Longrightarrow> sys_setpgid pid pgid (kn s) = Some (k', r) \<Longrightarrow> lifecycle_step Env A s (s\<lparr>kn := k'\<rparr>)"
| L_setsid: "running s \<Longrightarrow> sys_setsid (kn s) = Some (k', r) \<Longrightarrow> lifecycle_step Env A s (s\<lparr>kn := k'\<rparr>)"
| L_exit: "running s \<Longrightarrow> ctty_ok ctty \<Longrightarrow> Env E \<Longrightarrow> do_exit E A ctty code s = Some (Inr s') \<Longrightarrow> lifecycle_step Env A s s'"
| L_wait: "running s \<Longrightarrow> sys_wait4 A sigs pid stat options ru (kn s) = Some (Inr out) \<Longrightarrow>
     lifecycle_step Env A s (s\<lparr>kn := wait_state out\<rparr>)"
| L_switch: "for_each_task (kn s) = Some xs \<Longrightarrow> p \<in> set xs \<Longrightarrow> pstate (procs (kn s) p) \<noteq> ST_ZOMBIE \<Longrightarrow> p \<noteq> current (kn s) \<Longrightarrow>
     switch_spaces (current (kn s)) p (rs s) = Inr r' \<Longrightarrow>
     lifecycle_step Env A s \<lparr>kn = (upd p (\<lambda>t. t\<lparr>pstate := ST_RUNNING\<rparr>) (kn s))\<lparr>current := p\<rparr>, rs = r'\<rparr>"

lemma lifecycle_step_mono:
  assumes "lifecycle_step Env A s s'" "\<And>E. Env E \<Longrightarrow> Env' E"
  shows "lifecycle_step Env' A s s'"
  using assms(1)
proof cases
  case (L_fork E flags r xs)
  then show ?thesis using assms(2) by (blast intro: lifecycle_step.L_fork)
next
  case (L_exit ctty E code)
  then show ?thesis using assms(2) by (blast intro: lifecycle_step.L_exit)
qed (auto intro: lifecycle_step.intros)

lemma life_okD:
  assumes "life_ok xs ch s"
  shows "table_ok xs ch (kn s)" "objects_ok (tasks_of xs) (current (kn s)) (rs s)" "all_hold xs s"
  using assms by (simp_all add: life_ok_def)

lemma runningD: "running s \<Longrightarrow> pstate (procs (kn s) (current (kn s))) \<noteq> ST_ZOMBIE"
  by (simp add: running_def ST_RUNNING_def ST_ZOMBIE_def)

lemma running_holds:
  assumes "life_ok xs ch s" "running s"
  shows "fs (tsk (rs s) (current (kn s))) \<noteq> None" "sig (tsk (rs s) (current (kn s))) \<noteq> None"
  using life_okD [OF assms(1)] table_okD(8) [of xs ch "kn s"] runningD [OF assms(2)] by (auto simp: all_hold_def)

text \<open>Steps that only change the table, and no state of a task except between states of the living.\<close>

lemma all_hold_table:
  assumes "all_hold xs s" "set xs' \<subseteq> set xs" "\<And>q. pstate (procs k' q) = ST_ZOMBIE \<longleftrightarrow> pstate (procs (kn s) q) = ST_ZOMBIE"
  shows "all_hold xs' (s\<lparr>kn := k'\<rparr>)"
  using assms(1) subsetD [OF assms(2)] assms(3) unfolding all_hold_def by (simp add: Ball_def)

lemma life_ok_table:
  assumes "life_ok xs ch s" "table_ok xs ch' k'" "current k' = current (kn s)"
    "\<And>q. pstate (procs k' q) = ST_ZOMBIE \<longleftrightarrow> pstate (procs (kn s) q) = ST_ZOMBIE"
  shows "life_ok xs ch' (s\<lparr>kn := k'\<rparr>)"
  using assms(2) life_okD(2,3) [OF assms(1)] all_hold_table [of xs s xs k'] assms(3,4) by (simp add: life_ok_def)

lemma objects_ok_remove:
  assumes ok: "objects_ok S cur r" and sub: "S' \<subseteq> S" "cur \<in> S'" and none: "\<And>z. z \<in> S \<Longrightarrow> z \<notin> S' \<Longrightarrow> holds_nothing r z"
  shows "objects_ok S' cur r"
proof -
  note D = objects_okD [OF ok]
  have c: "counted S' g" if "counted S g" "\<And>z. z \<in> S \<Longrightarrow> z \<notin> S' \<Longrightarrow> holds g z = None" for g
  proof -
    have "holders S' g a = holders S g a" for a using that(2) sub by (fastforce simp: holders_def)
    then show ?thesis using countedD [OF that(1)] sub finite_subset by (intro countedI) auto
  qed
  have n: "holds (files_of r) z = None" "holds (fs_of r) z = None" "holds (sig_of r) z = None" "runs_in (mm_of r) z = None"
    if "z \<in> S" "z \<notin> S'" for z using none [OF that] by (simp_all add: holds_nothing_def held_def)
  have "spaces_ok S' cur (mm_of r)"
  proof -
    note M = spaces_okD [OF D(4)]
    have R: "runners S' (mm_of r) a = runners S (mm_of r) a" for a using n(4) sub by (fastforce simp: runners_def)
    show ?thesis
      by (rule spaces_okI) (use M sub finite_subset [OF sub(1) M(1)] in \<open>auto simp: R simp del: of_sel\<close>)
  qed
  then show ?thesis using c [OF D(1)] c [OF D(2)] c [OF D(3)] n by (simp add: objects_ok_def)
qed

lemma life_fork:
  fixes E :: fork_env
  assumes L: "life_ok xs ch s" and run: "running s" and room: "pid_room (kn s)" and new: "new_task_ok E xs"
    and X: "env_ok E" "no_late_failure E" "fresh_in E (rs s)" and r: "do_fork E flags s = Some (Inr (s', ret))"
  shows "life_inv s'"
proof -
  note D = life_okD [OF L]
  have n: "new_task E = Some p \<Longrightarrow> p \<notin> tasks_of xs" for p using new by (auto simp: new_task_ok_def tasks_of_def)
  have few: "max_threads (kn s) \<le> 8117" using room by (simp add: pid_room_def)
  have room': "pid_room (kn s')" using room max_fork [OF r] by (simp add: pid_room_def)
  from do_fork_objects [OF X D(2) n running_holds [OF L run] r]
  consider "s' = s" | p where "new_task E = Some p" "forked (tasks_of xs) p s s'" by auto
  then show ?thesis
  proof cases
    case 1
    then show ?thesis using L room by (auto simp: life_inv_def)
  next
    case (2 p)
    have p: "p \<notin> set xs" "p \<noteq> init_task" using n [OF 2(1)] by (auto simp: tasks_of_def)
    note f = 2(2) [unfolded forked_def]
    have hold: "pstate (procs (kn s') q) = ST_ZOMBIE \<longleftrightarrow> pstate (procs (kn s) q) = ST_ZOMBIE" "held (rs s') q = held (rs s) q"
      if "q \<in> tasks_of xs" for q
    proof -
      have q: "q \<noteq> p" using that p by (auto simp: tasks_of_def)
      then show "held (rs s') q = held (rs s) q" using f by blast
      have "pstate (procs (kn s') q) = pstate (procs (kn s) q) \<or>
        q = current (kn s) \<and> pstate (procs (kn s') q) = ST_UNINTERRUPTIBLE" using f q by blast
      then show "pstate (procs (kn s') q) = ST_ZOMBIE \<longleftrightarrow> pstate (procs (kn s) q) = ST_ZOMBIE"
        using run by (auto simp: running_def ST_RUNNING_def ST_ZOMBIE_def ST_UNINTERRUPTIBLE_def)
    qed
    then have h: "fs (tsk (rs s') q) = fs (tsk (rs s) q)" "files (tsk (rs s') q) = files (tsk (rs s) q)"
      "sig (tsk (rs s') q) = sig (tsk (rs s) q)" "holds_nothing (rs s') q = holds_nothing (rs s) q"
      if "q \<in> tasks_of xs" for q using hold(2) [OF that] by (simp_all add: held_def holds_nothing_def)
    have old: "all_hold xs s'"
      using D(3) hold(1) h by (auto simp: all_hold_def tasks_of_def)
    have len: "nr_threads (kn s) = int (length xs)" using table_okD(7) [OF D(1)] by (simp add: names_ok_def)
    from do_fork_table [OF D(1) runningD [OF run] few new r] 2(1)
    consider (child) ch' where "table_ok (xs @ [p]) ch' (kn s')" | (none) "table_ok xs ch (kn s')"
      by (auto simp: new_child_def Let_def)
    then show ?thesis
    proof cases
      case child
      then have "nr_threads (kn s') = int (length xs) + 1" using table_okD(7) [OF child] by (simp add: names_ok_def)
      then have "objects_ok (insert p (tasks_of xs)) (current (kn s)) (rs s')" "fs (tsk (rs s') p) \<noteq> None"
        "sig (tsk (rs s') p) \<noteq> None" "pstate (procs (kn s') p) = ST_RUNNING" using f len by auto
      moreover have "insert p (tasks_of xs) = tasks_of (xs @ [p])" by (auto simp: tasks_of_def)
      ultimately have "life_ok (xs @ [p]) ch' s'"
        using child old f by (auto simp: life_ok_def all_hold_def ST_RUNNING_def ST_ZOMBIE_def)
      then show ?thesis using room' unfolding life_inv_def by blast
    next
      case none
      then have "nr_threads (kn s') = nr_threads (kn s)" using table_okD(7) [OF none] len by (simp add: names_ok_def)
      then have "life_ok xs ch s'" using none old f by (simp add: life_ok_def)
      then show ?thesis using room' unfolding life_inv_def by blast
    qed
  qed
qed

text \<open>A fork by a process that still has a time slice comes to an end without a fault.\<close>

lemma life_fork_returns:
  fixes E :: fork_env
  assumes L: "life_ok xs ch s" and run: "running s" and room: "pid_room (kn s)" and X: "env_ok E" "no_late_failure E"
    and c: "caller_slice E \<noteq> 0" and f: "fresh_in E (rs s)" and new: "new_task_ok E xs"
  obtains s' ret where "do_fork E flags s = Some (Inr (s', ret))"
proof -
  note D = life_okD [OF L]
  obtain out where out: "do_fork E flags s = Some out" using do_fork_returns [OF D(1) new room] by blast
  have n: "q \<notin> tasks_of xs" if "new_task E = Some q" for q using new that by (auto simp: new_task_ok_def tasks_of_def)
  from do_fork_objects [OF X f D(2) n running_holds [OF L run] out] c out that show thesis by blast
qed

lemma life_exit:
  assumes L: "life_ok xs ch s" and room: "pid_room (kn s)" and X: "env_ok E" and h: "ctty_ok ctty" and r: "do_exit E A ctty code s = Some (Inr s')"
  shows "life_inv s'"
proof -
  let ?c = "current (kn s)"
  note D = life_okD [OF L]
  from do_exit_table [OF D(1) h r] obtain ch' where t: "table_ok xs ch' (kn s')" "current (kn s') = ?c"
    "\<And>q. pstate (procs (kn s') q) = (if q = ?c then ST_ZOMBIE else pstate (procs (kn s) q))" "pid_room (kn s')" using room by (auto simp: pid_room_def)
  have "\<not> ppid (procs (kn s) ?c) \<in> {0, 1}" using r by (auto simp: do_exit_def Let_def split: if_splits)
  from do_exit_drop [OF r this] drop_all_ok [OF X D(2)]
  have o: "objects_ok (tasks_of xs) ?c (rs s')" "holds_nothing (rs s') ?c" "\<And>q. q \<noteq> ?c \<Longrightarrow> held (rs s') q = held (rs s) q"
    by (auto simp: holds_nothing_def split: sum.splits)
  have q: "fs (tsk (rs s') q) = fs (tsk (rs s) q)" "files (tsk (rs s') q) = files (tsk (rs s) q)"
      "sig (tsk (rs s') q) = sig (tsk (rs s) q)" "holds_nothing (rs s') q = holds_nothing (rs s) q" if "q \<noteq> ?c" for q
    using o(3) [OF that] by (simp_all add: held_def holds_nothing_def)
  have "?c \<noteq> init_task" using table_okD(8,9) [OF D(1)] by auto
  then have "all_hold xs s'" using D(3) o(2) q by (auto simp: all_hold_def t(3))
  then have "life_ok xs ch' s'" using t o(1) by (simp add: life_ok_def)
  then show ?thesis using t(4) unfolding life_inv_def by blast
qed

lemma life_switch:
  assumes L: "life_ok xs ch s" and room: "pid_room (kn s)" and p: "p \<in> set xs" "pstate (procs (kn s) p) \<noteq> ST_ZOMBIE" "p \<noteq> current (kn s)"
    and r: "switch_spaces (current (kn s)) p (rs s) = Inr r'"
  shows "life_inv \<lparr>kn = (upd p (\<lambda>t. t\<lparr>pstate := ST_RUNNING\<rparr>) (kn s))\<lparr>current := p\<rparr>, rs = r'\<rparr>"
proof -
  let ?k = "upd p (\<lambda>t. t\<lparr>pstate := ST_RUNNING\<rparr>) (kn s)"
  note D = life_okD [OF L] and O = objects_okD [OF life_okD(2) [OF L]]
  have ps: "p \<in> tasks_of xs" using p(1) by (simp add: tasks_of_def)
  obtain r'' a where w: "switch_spaces (current (kn s)) p (rs s) = Inr r''" "mm_of r'' = switched (current (kn s)) p a (mm_of (rs s))"
    "same_objects (rs s) r''" "active_mm (tsk (rs s) (current (kn s))) = Some a"
    by (rule switch_spaces_of [OF O(4) ps p(3)])
  then have w: "mm_of r' = switched (current (kn s)) p a (mm_of (rs s))" "same_objects (rs s) r'"
    "active_mm (tsk (rs s) (current (kn s))) = Some a" using r by simp_all
  have "spaces_ok (tasks_of xs) p (mm_of r')" unfolding w by (rule spaces_ok_switched [OF O(4) ps p(3)]) (use w(3) in simp)
  then have o: "objects_ok (tasks_of xs) p r'" using O(1-3) w(2) by (simp add: objects_ok_def same_objects_def)
  have h: "held r' q = held (rs s) q" for q
    using w(2) by (simp add: held_of w(1) same_objects_def) (simp add: switched_def borrow_from_def drop_ref_def Let_def)
  have f: "fs (tsk r' q) = fs (tsk (rs s) q)" "files (tsk r' q) = files (tsk (rs s) q)"
      "sig (tsk r' q) = sig (tsk (rs s) q)" "holds_nothing r' q = holds_nothing (rs s) q" for q
    using h [of q] by (simp_all add: held_def holds_nothing_def)
  have "table_ok xs ch ?k" by (rule table_ok_pstate [OF D(1) p(2)]) (simp add: ST_RUNNING_def ST_ZOMBIE_def)
  then have "table_ok xs ch (?k\<lparr>current := p\<rparr>)" by (rule table_ok_current) (rule p(1))
  then have "life_ok xs ch \<lparr>kn = ?k\<lparr>current := p\<rparr>, rs = r'\<rparr>"
    using o D(3) p(2) by (auto simp: life_ok_def all_hold_def f upd_procs ST_RUNNING_def ST_ZOMBIE_def)
  moreover have "pid_room (?k\<lparr>current := p\<rparr>)" using room by (simp add: pid_room_def)
  ultimately show ?thesis unfolding life_inv_def by auto
qed

text \<open>The table of a dead task's parent is rebuilt; the objects of the living stay.\<close>

lemma life_wait:
  assumes L: "life_ok xs ch s" and room: "pid_room (kn s)" and run: "running s" and r: "sys_wait4 A sigs pid stat options ru (kn s) = Some (Inr out)"
  shows "life_inv (s\<lparr>kn := wait_state out\<rparr>)"
proof -
  let ?k = "wait_state out"
  note D = life_okD [OF L]
  obtain xs' ch' where t: "table_ok xs' ch' ?k" and w: "reaped xs (kn s) xs' ?k"
    using table_ok_wait [OF D(1) _ r] run by (auto simp: running_def)
  have w: "set xs' \<subseteq> set xs" "z \<in> set xs \<Longrightarrow> z \<notin> set xs' \<Longrightarrow> pstate (procs (kn s) z) = ST_ZOMBIE"
    "current ?k = current (kn s)" "pstate (procs ?k q) = ST_ZOMBIE \<longleftrightarrow> pstate (procs (kn s) q) = ST_ZOMBIE" for z q
    using w by (auto simp: reaped_def)
  have "objects_ok (tasks_of xs') (current (kn s)) (rs s)"
  proof (rule objects_ok_remove [OF D(2)])
    show "tasks_of xs' \<subseteq> tasks_of xs" using w(1) by (auto simp: tasks_of_def)
    show "current (kn s) \<in> tasks_of xs'" using table_okD(8) [OF t] w(3) by (simp add: tasks_of_def)
    show "holds_nothing (rs s) z" if "z \<in> tasks_of xs" "z \<notin> tasks_of xs'" for z
      using that w(2) [of z] D(3) by (auto simp: tasks_of_def all_hold_def)
  qed
  moreover have "all_hold xs' (s\<lparr>kn := ?k\<rparr>)" by (rule all_hold_table [OF D(3) w(1,4)])
  ultimately have "life_ok xs' ch' (s\<lparr>kn := ?k\<rparr>)" using t w(3) by (simp add: life_ok_def)
  moreover have "pid_room ?k" using room max_wait4 [OF r] by (simp add: pid_room_def)
  ultimately show ?thesis unfolding life_inv_def by auto
qed

lemma setpgid_states:
  "sys_setpgid pid pgid k = Some (k', r) \<Longrightarrow> current k' = current k \<and> (\<forall>q. pstate (procs k' q) = pstate (procs k q))"
  by (auto simp: sys_setpgid_def Let_def upd_keep split: if_splits option.splits)

lemma setsid_states:
  "sys_setsid k = Some (k', r) \<Longrightarrow> current k' = current k \<and> (\<forall>q. pstate (procs k' q) = pstate (procs k q))"
  by (auto simp: sys_setsid_def Let_def upd_keep split: if_splits option.splits)

definition good_env :: "fork_env \<Rightarrow> bool" where
  "good_env E \<longleftrightarrow> env_ok E \<and> no_late_failure E"

lemma lifecycle_step_inv:
  assumes "lifecycle_step good_env A s s'" "life_inv s"
  shows "life_inv s'"
proof -
  obtain xs ch where L: "life_ok xs ch s" and room: "pid_room (kn s)" using assms(2) unfolding life_inv_def by blast
  note D = life_okD [OF L] and each = for_each_task_list [OF table_okD(2) [OF life_okD(1) [OF L]]]
  have tab: "life_inv (s\<lparr>kn := k'\<rparr>)"
    if "table_ok xs ch' k'" "current k' = current (kn s) \<and> (\<forall>q. pstate (procs k' q) = pstate (procs (kn s) q))"
      "max_threads k' = max_threads (kn s)" for k' ch'
    using life_ok_table [OF L that(1)] that(2,3) room unfolding life_inv_def pid_room_def by auto
  from assms(1) show ?thesis
  proof cases
    case (L_fork E flags r xs')
    have "new_task_ok E xs" using L_fork(4,5) each by simp
    then show ?thesis
      using L_fork(2) unfolding good_env_def by (intro life_fork [OF L L_fork(1) room _ _ _ L_fork(6,3)]) simp_all
  next
    case (L_setpgid pid pgid k' r)
    then show ?thesis
      using tab [OF table_ok_setpgid [OF D(1) L_setpgid(3)] setpgid_states [OF L_setpgid(3)] max_setpgid [OF L_setpgid(3)]] by simp
  next
    case (L_setsid k' r)
    then show ?thesis
      using tab [OF table_ok_setsid [OF D(1) L_setsid(3)] setsid_states [OF L_setsid(3)] max_setsid [OF L_setsid(3)]] by simp
  next
    case (L_exit ctty E code)
    then show ?thesis unfolding good_env_def by (intro life_exit [OF L room _ L_exit(2,4)]) simp
  next
    case (L_wait sigs pid stat options ru out)
    then show ?thesis using life_wait [OF L room L_wait(2,3)] by simp
  next
    case (L_switch xs' p r')
    have "p \<in> set xs" using L_switch(2,3) each by simp
    then show ?thesis unfolding L_switch(1) by (rule life_switch [OF L room _ L_switch(4-6)])
  qed
qed

interpretation lf: invariant_relation "lifecycle_step good_env A" life_inv for A
  by unfold_locales (rule lifecycle_step_inv)

lemma exit_notify_returns:
  assumes K: "table_ok xs ch k" and n: "ppid (procs k (current k)) \<noteq> 1"
  shows "exit_notify A k \<noteq> None"
proof -
  note D = table_okD [OF K]
  obtain us where us: "thread_group k (current k) us" by (rule thread_group_exists [OF D(5) _ D(8)]) simp
  have "child_reaper k \<noteq> current k" using n D(6) by (auto simp: init_ok_def Let_def)
  moreover have "parent k (current k) \<noteq> current k" using D(4,8) by (simp add: parents_ok_def)
  ultimately show ?thesis using exit_notify_result [OF D(1) us, of A] by auto
qed

lemma do_exit_returns:
  assumes L: "life_ok xs ch s" and X: "env_ok E" and h: "ctty_ok ctty" and n: "ppid (procs (kn s) (current (kn s))) \<noteq> 1"
  shows "\<exists>s'. do_exit E A ctty code s = Some (Inr s')"
proof -
  let ?c = "current (kn s)"
  note D = life_okD [OF L] and T = table_okD [OF life_okD(1) [OF L]]
  define k1 where "k1 = upd ?c (\<lambda>t. t\<lparr>exiting := True\<rparr>) (kn s)"
  define k2 where "k2 = (if leader (procs k1 ?c) then ctty k1 else k1)"
  define k3 where "k3 = upd ?c (\<lambda>t. t\<lparr>exit_code := code\<rparr>) k2"
  have n0: "ppid (procs (kn s) ?c) \<noteq> 0" using T(7,8) by (auto simp: names_ok_def)
  have K1: "table_ok xs ch k1" unfolding k1_def by (rule table_ok_exiting [OF D(1) n])
  have K2: "table_ok xs ch k2" "current k2 = ?c" "own (procs k2 ?c) = own (procs k1 ?c)"
    using K1 table_ok_ctty [OF K1 h] by (simp_all add: k2_def) (simp_all add: k1_def)
  have K3: "table_ok xs ch k3" unfolding k3_def by (rule table_ok_other [OF K2(1)]) (simp_all add: own_def)
  have "ppid (procs k3 (current k3)) \<noteq> 1" using ownD [OF K2(3)] n K2(2) by (simp add: k3_def k1_def upd_procs)
  then have "exit_notify A k3 \<noteq> None" by (rule exit_notify_returns [OF K3])
  moreover have "\<exists>r. drop_all E ?c (rs s) = Inr r" using drop_all_ok [OF X D(2)] by blast
  then have "\<exists>r. exit_mm E ?c ?c (rs s) = Inr r"
    by (cases "exit_mm E ?c ?c (rs s)") (auto simp: drop_all_def)
  ultimately show ?thesis using n n0 by (auto simp: do_exit_def Let_def k1_def k2_def k3_def)
qed

subsection \<open>Processes to start from\<close>

text \<open>The four processes and \<open>init_task\<close> share the objects 1; \<open>init_mm\<close> is the space 0.\<close>

definition life_res :: res where
  "life_res = demo_res\<lparr>
     files_tab := (\<lambda>a. (files_tab demo_res a)\<lparr>files_count := 5\<rparr>), fs_tab := (\<lambda>a. (fs_tab demo_res a)\<lparr>fs_count := 5\<rparr>),
     sig_tab := (\<lambda>a. (sig_tab demo_res a)\<lparr>sig_count := 5\<rparr>), mm_tab := (\<lambda>a. if a = init_mm then demo_mm 2 else demo_mm 5)\<rparr>"

definition life_state :: fstate where
  "life_state = \<lparr>kn = demo 2 ST_RUNNING, rs = life_res\<rparr>"

definition life_env :: "tid option \<Rightarrow> fork_env" where
  "life_env p = (demo_env p 0)\<lparr>
     exit_mmap := (\<lambda>a r. (fold (release_area (demo_env p 0)) (mmap (mm_tab r a)) r)
       \<lparr>mm_tab := (mm_tab r)(a := (mm_tab r a)\<lparr>mmap := []\<rparr>), accounted := 0\<rparr>),
     exit_sighand := (\<lambda>p r. case sig (tsk r p) of None \<Rightarrow> r
       | Some a \<Rightarrow> (upd_sig a (\<lambda>s. s\<lparr>sig_count := sig_count s - 1\<rparr>) (upd_tsk p (\<lambda>t. t\<lparr>sig := None\<rparr>) r))
           \<lparr>live_sig := (if sig_count (sig_tab r a) = 1 then live_sig r - {a} else live_sig r)\<rparr>)\<rparr>"

lemma life_env_fields [simp]:
  "caller_slice (life_env p) = 80" "new_task (life_env p) = p" "rlim_nproc (life_env p) = 100" "copy_namespace (life_env p) = 0" "copy_thread (life_env p) = 0"
  "init_new_context (life_env p) = 0" "exit_namespace (life_env p) = (\<lambda>p r. r)"
  "expand_fdset (life_env p) = (\<lambda>f n. (f, -12))" "expand_fd_array (life_env p) = (\<lambda>f n. (f, -12))"
  "new_files (life_env p) = Some 2" "new_fs (life_env p) = Some 2" "new_sig (life_env p) = Some 2" "new_mm (life_env p) = Some 2"
  by (simp_all add: life_env_def demo_env_def)

lemma life_env_ok: "env_ok (life_env p)" "no_late_failure (life_env p)" "fresh_in (life_env p) life_res"
proof -
  have "sighand_ok (life_env p)"
    unfolding sighand_ok_def shared_object_def same_others_def
    by (auto simp: life_env_def let_go_def of_defs upd_res_defs fun_eq_iff split: option.split)
  moreover have "namespace_ok (life_env p)" by (simp add: namespace_ok_def same_others_def)
  moreover have i: "inode_of (life_env p) = inode_of (demo_env p 0)" by (simp add: life_env_def)
  have "release_area (life_env p) = release_area (demo_env p 0)" unfolding release_area_def i by (rule refl)
  then have "mmap_ok (life_env p)" unfolding mmap_ok_def
    by (auto simp: life_env_def intro!: exI [of _ 0] exI [of _ "(mm_tab r a)\<lparr>mmap := []\<rparr>" for r a])
  moreover have "\<exists>m bs cs. f = f\<lparr>max_fdset := m, open_fds := bs, close_on_exec := cs\<rparr>"
    "\<exists>m ds. f = f\<lparr>max_fds := m, fds := ds\<rparr>" for f :: files_struct by (cases f, simp)+
  then have "expand_ok (life_env p)" by (simp add: expand_ok_def)
  ultimately show "env_ok (life_env p)" by (simp add: env_ok_def)
qed (simp_all add: no_late_failure_def fresh_in_def life_res_def demo_res_def)

lemma life_demo: "life_ok [1, 2, 3, 4] demo_children life_state"
proof -
  let ?S = "tasks_of [1, 2, 3, 4]"
  have S: "?S = {0, 1, 2, 3, 4}" by (auto simp: tasks_of_def init_task_def)
  have t: "tsk life_res p = demo_task_res" for p by (simp add: life_res_def demo_res_def)
  have c: "finite ?S" "card ?S = 5" "2 \<in> ?S" unfolding S by simp_all
  have h: "holders ?S (files_of life_res) 1 = ?S" "holders ?S (fs_of life_res) 1 = ?S" "holders ?S (sig_of life_res) 1 = ?S"
    "runners ?S (mm_of life_res) 1 = ?S" "runners ?S (mm_of life_res) init_mm = {}"
    by (auto simp: holders_def runners_def t demo_task_res_def init_mm_def)
  have l: "live_files life_res = {1}" "live_fs life_res = {1}" "live_sig life_res = {1}" "live_mm life_res = {init_mm, 1}"
    "files_count (files_tab life_res a) = 5" "fs_count (fs_tab life_res a) = 5" "sig_count (sig_tab life_res a) = 5"
    "mm_users (mm_tab life_res a) = (if a = init_mm then 2 else 5)" "mm_count (mm_tab life_res a) = 1" for a
    by (simp_all add: life_res_def demo_res_def demo_mm_def init_mm_def)
  have "counted ?S (files_of life_res)" "counted ?S (fs_of life_res)" "counted ?S (sig_of life_res)"
    unfolding counted_def using h(1-3) c l by (simp_all add: t demo_task_res_def)
  moreover have "spaces_ok ?S 2 (mm_of life_res)"
    unfolding spaces_ok_def using h(4,5) c l by (simp add: t demo_task_res_def lazy_on_def init_mm_def)
  moreover have "table_ok [1, 2, 3, 4] demo_children (kn life_state)"
    using demo_table [of 2 ST_RUNNING] by (simp add: life_state_def ST_RUNNING_def ST_ZOMBIE_def)
  ultimately show ?thesis
    by (simp add: life_ok_def objects_ok_def life_state_def all_hold_def t demo_task_res_def ST_RUNNING_def ST_ZOMBIE_def)
qed

subsection \<open>Properties\<close>

text \<open>Exactly the objects that a task points at are there, each with the number of its holders as count.\<close>

definition exact_count :: "tid set \<Rightarrow> (tid \<Rightarrow> nat option) \<Rightarrow> (nat \<Rightarrow> int) \<Rightarrow> nat set \<Rightarrow> bool" where
  "exact_count S h n there \<longleftrightarrow>
     (\<forall>a. a \<in> there \<longleftrightarrow> (\<exists>p\<in>S. h p = Some a)) \<and> (\<forall>a\<in>there. n a = int (card {p \<in> S. h p = Some a}))"

lemma counted_exact:
  assumes "counted S s"
  shows "exact_count S (holds s) (uses s) (alive s)"
proof -
  note D = countedD [OF assms]
  have "\<exists>p\<in>S. holds s p = Some a" if "a \<in> alive s" for a
  proof (rule ccontr)
    assume "\<not> ?thesis"
    then have "holders S s a = {}" by (auto simp: holders_def)
    then show False using D(2,3) [OF that] by simp
  qed
  then show ?thesis using D by (auto simp: exact_count_def holders_def)
qed

text \<open>The address spaces: the first count is of the tasks that run in the space (\<open>init_mm\<close> has two users of its own),
  and a space without any is there only while the running kernel thread borrows it.\<close>

definition exact_spaces :: "tid set \<Rightarrow> tid \<Rightarrow> res \<Rightarrow> bool" where
  "exact_spaces S cur r \<longleftrightarrow>
     (\<forall>a\<in>live_mm r. mm_users (mm_tab r a) = int (card {p \<in> S. mm (tsk r p) = Some a}) + (if a = init_mm then 2 else 0) \<and>
        (a = init_mm \<or> (\<exists>p\<in>S. mm (tsk r p) = Some a) \<or> active_mm (tsk r cur) = Some a)) \<and>
     (\<forall>p\<in>S. \<forall>a. mm (tsk r p) = Some a \<longrightarrow> a \<in> live_mm r \<and> active_mm (tsk r p) = Some a)"

lemma spaces_exact:
  assumes "spaces_ok S cur (mm_of r)"
  shows "exact_spaces S cur r"
proof -
  note M = spaces_okD [OF assms]
  have "active_mm (tsk r cur) = Some a" if a: "a \<in> live_mm r" "a \<noteq> init_mm" "\<And>p. p \<in> S \<Longrightarrow> mm (tsk r p) \<noteq> Some a" for a
  proof -
    have "runners S (mm_of r) a = {}" using a(3) by (auto simp: runners_def)
    then have "users (mm_of r) a = 0" using M(4) [of a] a(1,2) by simp
    then have "lazy_on cur (mm_of r) a" using M(5,6) [of a] a(1) by (auto split: if_splits)
    then show ?thesis by (simp add: lazy_on_def)
  qed
  then show ?thesis using M(4,7,8) unfolding exact_spaces_def runners_def by (fastforce simp: runners_def)
qed

text \<open>C34: No object of a process is used after it is freed, freed twice or lost, as long as no late copy of a fork fails.
  Let \<^verbatim>\<open>max_threads\<close> be at most 8117, and let the code outside the repository keep its contract and never fail after the
  address space of a child was copied (\<open>copy_thread\<close>, \<open>copy_namespace\<close>, \<open>init_new_context\<close> return 0; see \<open>failed_fork_leaks_memory\<close> for
  what happens otherwise). From processes in order, after any sequence of forks, exits, waits, group calls and
  switches between the tasks on the list: a table of files, a directory or a set of signal handlers is there exactly when
  a task points at it, and its count is the number of those tasks; an address space is there when a task runs in it or
  the running kernel thread borrows it, with the number of its users; and the list of all tasks is intact.\<close>
theorem process_objects_safe:
  assumes "(lifecycle_step Env A)\<^sup>*\<^sup>* s s'" and "life_ok xs ch s" and "max_threads (kn s) \<le> 8117"
    and "\<And>E. Env E \<Longrightarrow> env_ok E" and "\<And>E. Env E \<Longrightarrow> copy_thread E = 0 \<and> copy_namespace E = 0 \<and> init_new_context E = 0"
  shows "\<exists>xs'. for_each_task (kn s') = Some xs' \<and> current (kn s') \<in> set xs' \<and>
    exact_count (tasks_of xs') (\<lambda>p. files (tsk (rs s') p)) (\<lambda>a. files_count (files_tab (rs s') a)) (live_files (rs s')) \<and>
    exact_count (tasks_of xs') (\<lambda>p. fs (tsk (rs s') p)) (\<lambda>a. fs_count (fs_tab (rs s') a)) (live_fs (rs s')) \<and>
    exact_count (tasks_of xs') (\<lambda>p. sig (tsk (rs s') p)) (\<lambda>a. sig_count (sig_tab (rs s') a)) (live_sig (rs s')) \<and>
    exact_spaces (tasks_of xs') (current (kn s')) (rs s')"
proof -
  have "life_inv s" using assms(2,3) unfolding life_inv_def pid_room_def by blast
  moreover have "lifecycle_step Env A \<le> lifecycle_step good_env A"
    by (intro predicate2I) (erule lifecycle_step_mono, use assms(4,5) in \<open>simp add: good_env_def no_late_failure_def\<close>)
  then have "(lifecycle_step good_env A)\<^sup>*\<^sup>* s s'" using assms(1) by (rule rev_predicate2D [OF _ rtranclp_mono, rotated])
  ultimately obtain xs' ch' where L: "life_ok xs' ch' s'" using lf.run_inv [of A s s'] by (auto simp: life_inv_def)
  note T = table_okD [OF life_okD(1) [OF L]] and O = objects_okD [OF life_okD(2) [OF L]]
  show ?thesis
    using for_each_task_list [OF T(2)] T(8) counted_exact [OF O(1)] counted_exact [OF O(2)] counted_exact [OF O(3)] spaces_exact [OF O(4)]
    unfolding of_defs by simp
qed

lemma life_room: "max_threads (kn life_state) \<le> 8117"
  by (simp add: life_state_def demo_limits)

theorem process_objects_safe_witness:
  "\<exists>s' xs'. do_fork (life_env (Some 5)) 0xf11 life_state = Some (Inr (s', 5)) \<and> for_each_task (kn s') = Some xs' \<and>
    exact_count (tasks_of xs') (\<lambda>p. files (tsk (rs s') p)) (\<lambda>a. files_count (files_tab (rs s') a)) (live_files (rs s')) \<and>
    exact_spaces (tasks_of xs') (current (kn s')) (rs s')"
proof -
  let ?Env = "\<lambda>E. E = life_env (Some 5)"
  have f: "for_each_task (kn life_state) = Some [1, 2, 3, 4]"
    by (rule for_each_task_list, rule table_okD(2) [OF life_okD(1) [OF life_demo]])
  obtain s' where s': "do_fork (life_env (Some 5)) 0xf11 life_state = Some (Inr (s', 5))"
    using fork_shared [of "life_env (Some 5)" life_res] by (auto simp: life_state_def life_res_def demo_res_def)
  have "lifecycle_step ?Env demo_abi life_state s'"
    by (rule L_fork [OF _ _ s' f]) (use life_env_ok in \<open>simp_all add: life_state_def running_def demo_more new_task_ok_def init_task_def\<close>)
  then have h: "(lifecycle_step ?Env demo_abi)\<^sup>*\<^sup>* life_state s'" by blast
  have "env_ok E" "copy_thread E = 0 \<and> copy_namespace E = 0 \<and> init_new_context E = 0" if "?Env E" for E
    using that life_env_ok by simp_all
  from process_objects_safe [OF h life_demo life_room this] s' show ?thesis by blast
qed

text \<open>What a kernel thread needs to join session 1: it leads no session and no other task is in a group named after it,
  and whoever has group or pid 1 is in session 1.\<close>

definition daemon_fits :: "tid list \<Rightarrow> kern \<Rightarrow> bool" where
  "daemon_fits xs k \<longleftrightarrow> \<not> leader (procs k (current k)) \<and>
     (\<forall>q\<in>set xs. q \<noteq> current k \<longrightarrow> pgrp (procs k q) \<noteq> ppid (procs k (current k)) \<and>
       (pgrp (procs k q) = 1 \<or> ppid (procs k q) = 1 \<longrightarrow> session (procs k q) = 1))"

lemma table_ok_daemon:
  assumes K: "table_ok xs ch k" and d: "daemon_fits xs k"
  shows "table_ok xs ch (upd (current k) (\<lambda>t. t\<lparr>session := 1, pgrp := 1, tty := False\<rparr>) k)"
proof (rule table_ok_rename [OF K])
  let ?c = "current k" and ?k = "upd (current k) (\<lambda>t. t\<lparr>session := 1, pgrp := 1, tty := False\<rparr>) k"
  note D = table_okD [OF K]
  show "?c \<in> set xs" by (rule D(8))
  have J: "job_ok (set xs) k" using D(7) by (simp add: names_ok_def)
  have f: "\<not> leader (procs k ?c)" and g: "q \<in> set xs \<Longrightarrow> q \<noteq> ?c \<Longrightarrow> pgrp (procs k q) \<noteq> ppid (procs k ?c)"
    and o: "q \<in> set xs \<Longrightarrow> q \<noteq> ?c \<Longrightarrow> pgrp (procs k q) = 1 \<or> ppid (procs k q) = 1 \<Longrightarrow> session (procs k q) = 1" for q
    using d unfolding daemon_fits_def by blast+
  have s: "procs ?k q = (if q = ?c then (procs k q)\<lparr>session := 1, pgrp := 1, tty := False\<rparr> else procs k q)" for q
    by (simp add: upd_procs)
  show "job_ok (set xs) ?k"
  proof (rule job_okI)
    show "session (procs ?k x) = session (procs ?k y)"
      if "x \<in> set xs" "y \<in> set xs" "pgrp (procs ?k x) = pgrp (procs ?k y)" for x y
      using that o [of x] o [of y] job_okD(1) [OF J that(1,2)] unfolding s by (cases "x = ?c"; cases "y = ?c") simp_all
    show "session (procs ?k y) = session (procs ?k x)"
      if "x \<in> set xs" "y \<in> set xs" "pgrp (procs ?k y) = ppid (procs ?k x)" for x y
      using that o [of x] g [of y] job_okD(2) [OF J that(1,2)] unfolding s by (cases "x = ?c"; cases "y = ?c") simp_all
    show "session (procs ?k x) = ppid (procs ?k x) \<and> pgrp (procs ?k x) = ppid (procs ?k x)"
      if "x \<in> set xs" "leader (procs ?k x)" for x
      using that f job_okD(3,4) [OF J that(1)] unfolding s by (cases "x = ?c") simp_all
  qed
  have i: "child_reaper k \<in> set xs" "ppid (procs k (child_reaper k)) = 1" using D(6) by (simp_all add: init_ok_def Let_def)
  show "\<exists>q\<in>set xs. uses_id (procs k q) x" if "uses_id ((procs k ?c)\<lparr>session := 1, pgrp := 1, tty := False\<rparr>) x" for x
  proof (cases "x = 1")
    case True
    then show ?thesis using i by (auto simp: uses_id_def)
  next
    case False
    then have "uses_id (procs k ?c) x" using that by (auto simp: uses_id_def)
    then show ?thesis using D(8) by blast
  qed
qed simp_all

lemma life_daemon:
  fixes E :: fork_env
  assumes L: "life_ok xs ch s" and room: "pid_room (kn s)" and run: "running s" and X: "env_ok E" and d: "daemon_fits xs (kn s)"
  shows "\<exists>s'. daemonize E s = Inr s' \<and> life_inv s'"
proof -
  let ?c = "current (kn s)"
  note D = life_okD [OF L] and T = table_okD [OF life_okD(1) [OF L]]
  have i: "init_task \<in> tasks_of xs" "init_task \<noteq> ?c" "fs (tsk (rs s) init_task) \<noteq> None" "files (tsk (rs s) init_task) \<noteq> None"
    using D(3) T(8,9) by (auto simp: tasks_of_def all_hold_def)
  obtain s' where s': "daemonize E s = Inr s'" "objects_ok (tasks_of xs) ?c (rs s')"
    "fs (tsk (rs s') ?c) = fs (tsk (rs s) init_task)" "\<And>q. q \<noteq> ?c \<Longrightarrow> held (rs s') q = held (rs s) q"
    "sig (tsk (rs s') ?c) = sig (tsk (rs s) ?c)"
    using daemonize_ok [OF X D(2) i] by blast
  have k: "kn s' = upd ?c (\<lambda>t. t\<lparr>session := 1, pgrp := 1, tty := False\<rparr>) (kn s)"
    using s'(1) by (auto simp: daemonize_def Let_def sbind_def split: sum.splits option.splits)
  have h: "fs (tsk (rs s') q) = fs (tsk (rs s) q)" "files (tsk (rs s') q) = files (tsk (rs s) q)"
      "sig (tsk (rs s') q) = sig (tsk (rs s) q)" "holds_nothing (rs s') q = holds_nothing (rs s) q" if "q \<noteq> ?c" for q
    using s'(4) [OF that] by (simp_all add: held_def holds_nothing_def)
  have st: "pstate (procs (kn s') q) = pstate (procs (kn s) q)" for q by (simp add: k upd_procs)
  have "all_hold xs s'"
    using D(3) h i s'(3,5) running_holds [OF L run] runningD [OF run] unfolding all_hold_def st by (metis (no_types, lifting))
  moreover have "table_ok xs ch (kn s')" unfolding k by (rule table_ok_daemon [OF D(1) d])
  ultimately have "life_ok xs ch s'" using s'(2) by (simp add: life_ok_def k)
  moreover have "pid_room (kn s')" using room by (simp add: k pid_room_def)
  ultimately show ?thesis using s'(1) unfolding life_inv_def by blast
qed

text \<open>C35: A process in order never makes the kernel fault, in these calls and while these conditions hold: \<^verbatim>\<open>max_threads\<close> is
  at most 8117, the code outside the repository keeps its contract, no copy of a fork fails after that of the address space,
  and the time slice of the caller is not used up (\<open>do_fork\<close> stops with \<^verbatim>\<open>BUG\<close> when it is). Then \<open>fork\<close>, \<open>exit\<close> of a process other
  than \<open>init\<close> and a switch to any living task of the list all return (with \<open>CLONE_VFORK\<close> up to the point where the caller sleeps
  until the child lets it go), without a null pointer, a \<open>BUG\<close> or an endless list, and leave processes in order. \<open>daemonize\<close>
  returns too, the task has the directory and the files of \<open>init_task\<close> and no address space, and the counts of all
  objects are right; the processes are in order after it when session 1 and group 1 are free for the task (\<open>daemon_fits\<close>).\<close>
theorem process_calls_never_fault:
  assumes "life_ok xs ch s" and "running s" and "max_threads (kn s) \<le> 8117" and "env_ok E"
    and "copy_thread E = 0 \<and> copy_namespace E = 0 \<and> init_new_context E = 0" and "caller_slice E \<noteq> 0" and "fresh_in E (rs s)"
    and "new_task_ok E xs" and "ctty_ok ctty" and "ppid (procs (kn s) (current (kn s))) \<noteq> 1"
    and "p \<in> set xs" and "p \<noteq> current (kn s)" and "pstate (procs (kn s) p) \<noteq> ST_ZOMBIE"
  shows "(\<exists>s' ret. do_fork (E :: fork_env) flags s = Some (Inr (s', ret)) \<and> life_inv s') \<and>
    (\<exists>s'. do_exit E A ctty code s = Some (Inr s') \<and> life_inv s') \<and>
    (\<exists>r'. switch_spaces (current (kn s)) p (rs s) = Inr r' \<and>
      life_inv \<lparr>kn = (upd p (\<lambda>t. t\<lparr>pstate := ST_RUNNING\<rparr>) (kn s))\<lparr>current := p\<rparr>, rs = r'\<rparr>) \<and>
    (\<exists>s'. daemonize E s = Inr s' \<and> objects_ok (tasks_of xs) (current (kn s)) (rs s') \<and>
      fs (tsk (rs s') (current (kn s))) = fs (tsk (rs s) init_task) \<and>
      files (tsk (rs s') (current (kn s))) = files (tsk (rs s) init_task) \<and> mm (tsk (rs s') (current (kn s))) = None \<and>
      (daemon_fits xs (kn s) \<longrightarrow> life_inv s'))"
proof (intro conjI)
  note L = assms(1) and D = life_okD [OF assms(1)] and T = table_okD [OF life_okD(1) [OF assms(1)]]
  have room: "pid_room (kn s)" using assms(3) by (simp add: pid_room_def)
  have late: "no_late_failure E" using assms(5) by (simp add: no_late_failure_def)
  obtain s' ret where "do_fork E flags s = Some (Inr (s', ret))"
    by (rule life_fork_returns [OF L assms(2) room assms(4) late assms(6-8)])
  with life_fork [OF L assms(2) room assms(8,4) late assms(7)]
  show "\<exists>s' ret. do_fork E flags s = Some (Inr (s', ret)) \<and> life_inv s'" by blast
  show "\<exists>s'. do_exit E A ctty code s = Some (Inr s') \<and> life_inv s'"
    using do_exit_returns [OF L assms(4,9,10)] life_exit [OF L room assms(4,9)] by blast
  obtain r' where "switch_spaces (current (kn s)) p (rs s) = Inr r'"
    by (rule switch_spaces_of [OF objects_okD(4) [OF D(2)] _ assms(12)]) (use assms(11) in \<open>simp_all add: tasks_of_def\<close>)
  with life_switch [OF L room assms(11,13,12)]
  show "\<exists>r'. switch_spaces (current (kn s)) p (rs s) = Inr r' \<and>
      life_inv \<lparr>kn = (upd p (\<lambda>t. t\<lparr>pstate := ST_RUNNING\<rparr>) (kn s))\<lparr>current := p\<rparr>, rs = r'\<rparr>" by blast
  have i: "init_task \<in> tasks_of xs" "init_task \<noteq> current (kn s)" "fs (tsk (rs s) init_task) \<noteq> None" "files (tsk (rs s) init_task) \<noteq> None"
    using D(3) T(8,9) by (auto simp: tasks_of_def all_hold_def)
  have "daemonize E s = Inr s' \<Longrightarrow> daemon_fits xs (kn s) \<Longrightarrow> life_inv s'" for s'
    using life_daemon [OF L room assms(2,4)] by auto
  with daemonize_ok [OF assms(4) D(2) i]
  show "\<exists>s'. daemonize E s = Inr s' \<and> objects_ok (tasks_of xs) (current (kn s)) (rs s') \<and>
      fs (tsk (rs s') (current (kn s))) = fs (tsk (rs s) init_task) \<and>
      files (tsk (rs s') (current (kn s))) = files (tsk (rs s) init_task) \<and> mm (tsk (rs s') (current (kn s))) = None \<and>
      (daemon_fits xs (kn s) \<longrightarrow> life_inv s')" by blast
qed

theorem process_calls_never_fault_witness:
  "(\<exists>s' ret. do_fork (life_env (Some 5)) 0x11 life_state = Some (Inr (s', ret)) \<and> life_inv s') \<and>
    (\<exists>s'. do_exit (life_env (Some 5)) demo_abi id 0 life_state = Some (Inr s') \<and> life_inv s')"
proof -
  have "id k = emit [] (k\<lparr>procs := (\<lambda>q. (procs k q)\<lparr>tty := fst (tty (procs k q), tty_old_pgrp (procs k q)),
      tty_old_pgrp := snd (tty (procs k q), tty_old_pgrp (procs k q))\<rparr>)\<rparr>)" for k by (simp add: emit_def)
  then have "ctty_ok id" unfolding ctty_ok_def
    by (intro allI exI [of _ "\<lambda>q. (tty (procs k q), tty_old_pgrp (procs k q))" for k] exI [of _ "[]"])
  moreover have "running life_state" "new_task_ok (life_env (Some 5)) [1, 2, 3, 4]"
    "fresh_in (life_env (Some 5)) (rs life_state)" "ppid (procs (kn life_state) (current (kn life_state))) \<noteq> 1"
    "1 \<noteq> current (kn life_state)" "pstate (procs (kn life_state) 1) \<noteq> ST_ZOMBIE"
    using life_env_ok(3) [of "Some 5"] by (simp_all add: life_state_def running_def demo_more new_task_ok_def init_task_def ST_RUNNING_def ST_ZOMBIE_def)
  ultimately show ?thesis
    using process_calls_never_fault [OF life_demo _ life_room life_env_ok(1), of "Some 5" id 1 "0x11" demo_abi 0]
    by simp
qed



end
