(* ===== verification/Proc_Fork_Fails.thy ===== *)
theory Proc_Fork_Fails
  imports Proc_Lifecycle
begin

text \<open>
  HW1, what a fork that fails late leaves behind: a copy of the threads that fails after the address space was
  copied. The counts of files, directories and signal handlers come back to what they were, the
  address space of the child does not.
\<close>

lemma map_sum_Inr: "map_sum f g x = Inr y \<longleftrightarrow> (\<exists>z. x = Inr z \<and> y = g z)"
  by (cases x) auto

lemma copy_mm_new:
  assumes "copy_mm X flags cur p r = Inr (r', 0)" "flags AND 0x100 = 0" "mm (tsk r cur) = Some m" "p \<noteq> cur"
  shows "\<exists>a. new_mm X = Some a \<and> mm (tsk r' p) = Some a"
  using assms by (auto simp: copy_mm_def Let_def upd_tsk_def map_sum_Inr split: option.splits prod.splits bool.splits if_splits)

text \<open>The child of a fork without \<open>CLONE_VM\<close> runs in a new space of its own.\<close>

lemma copied_space:
  assumes c: "copy_mm X flags cur p r = Inr (r', 0)" and X: "mmap_ok X" "init_new_context X = 0"
    and new: "\<And>a. new_mm X = Some a \<Longrightarrow> a \<notin> live_mm r" and i: "init_mm \<in> live_mm r" and p: "p \<noteq> cur"
    and vm: "flags AND 0x100 = 0" and m: "mm (tsk r cur) = Some m" "m \<in> live_mm r"
  obtains a where "new_mm X = Some a" "a \<notin> live_mm r" "mm_of r' = enter_space p a (new_space a (no_space p (mm_of r)))"
    "mm (tsk r' p) = Some a" "active_mm (tsk r' p) = Some a" "mm_count (mm_tab r' a) = 1"
proof -
  obtain a where a: "new_mm X = Some a" "mm (tsk r' p) = Some a" using copy_mm_new [OF c vm m(1) p] by blast
  have fresh: "a \<notin> live_mm r" by (rule new [OF a(1)])
  have pa: "runs_in (mm_of r') p = Some a" using a(2) by simp
  have "cloned_space cur p (mm_of r) (mm_of r')" using copy_mm_of(1) [OF c X new i p] by simp
  then consider "mm_of r' = share_space p m (mm_of r)" | b where "mm_of r' = enter_space p b (new_space b (no_space p (mm_of r)))"
    using m(1) by (auto simp: cloned_space_def)
  then have e: "mm_of r' = enter_space p a (new_space a (no_space p (mm_of r)))"
  proof cases
    case 1
    have "runs_in (mm_of r') p = Some m" unfolding 1 by (simp add: share_space_def enter_space_def)
    then show ?thesis using pa m(2) fresh by simp
  next
    case (2 b)
    have "runs_in (mm_of r') p = Some b" unfolding 2 by (simp add: enter_space_def)
    then show ?thesis using 2 pa by simp
  qed
  have "borrows (mm_of r') p = Some a" "refs (mm_of r') a = 1" unfolding e by (simp_all add: enter_space_def new_space_def)
  then have "active_mm (tsk r' p) = Some a" "mm_count (mm_tab r' a) = 1" by simp_all
  then show thesis by (rule that [OF a(1) fresh e a(2)])
qed

text \<open>The late failure, once the four objects are copied.\<close>

lemma cleanup_namespace_of:
  assumes X: "env_ok X" and own: "\<And>a. mm (tsk r p) = Some a \<Longrightarrow> active_mm (tsk r p) = Some a \<and> 0 < mm_count (mm_tab r a)"
  obtains r' where "cleanup_namespace X cur p r = Inr r'" "mm_of r' = leave_space p (mm_of r)"
    "files_of r' = let_go p (files_of r)" "fs_of r' = let_go p (fs_of r)" "sig_of r' = let_go p (sig_of r)"
proof -
  have X': "sighand_ok X" "namespace_ok X" "mmap_ok X" using X by (simp_all add: env_ok_def)
  note n = namespace_okD [OF X'(2), of p r]
  let ?r = "exit_namespace X p r"
  have "mm (tsk ?r p) = mm (tsk r p)" "active_mm (tsk ?r p) = active_mm (tsk r p)" "mm_count (mm_tab ?r a) = mm_count (mm_tab r a)" for a
    using n(4) by (metis of_sel(10-13))+
  then obtain r1 where "exit_mm X cur p ?r = Inr r1" "mm_of r1 = leave_space p (mm_of ?r)" "same_objects ?r r1"
    using exit_mm_leaves [OF X'(3), of ?r p cur] own by metis
  then show thesis
    by (intro that [of "cleanup_sighand X p r1"])
      (simp_all add: cleanup_namespace_def cleanup_mm_def cleanup_of [OF X'(1)] same_objects_def n)
qed

lemma leave_new_space:
  assumes "m' = enter_space p a (new_space a m)"
  shows "users (leave_space p m') a = 0" "refs (leave_space p m') a = 1" "a \<in> spaces_alive (leave_space p m')"
    "q \<noteq> p \<Longrightarrow> runs_in (leave_space p m') q = runs_in m q" "q \<noteq> p \<Longrightarrow> borrows (leave_space p m') q = borrows m q"
  by (simp_all add: assms leave_space_def put_space_def drop_ref_def enter_space_def new_space_def Let_def)

lemma not_dead:
  assumes "spaces_ok S cur m" "q \<in> S" "a \<notin> spaces_alive m"
  shows "runs_in m q \<noteq> Some a" "borrows m q \<noteq> Some a"
proof -
  note M = spaces_okD [OF assms(1)]
  show r: "runs_in m q \<noteq> Some a" using M(7) [OF assms(2)] assms(3) by blast
  show "borrows m q \<noteq> Some a" using M(8,9) [OF assms(2)] M(7) [OF assms(2)] M(10) assms(3) by (cases "q = cur"; cases "runs_in m q") auto
qed

text \<open>C40: A fork that fails late leaks the memory of the child. When the copy of the threads fails after the address
  space was copied, the counts of files, directory and signal handlers are the number of their holders again, but
  the new address space stays: it has no user, its count is still 1, and no task runs in it or borrows it, so nothing
  will ever free it.\<close>
theorem failed_fork_leaks_memory:
  assumes "env_ok X" and "fresh_in X r" and "objects_ok S cur r" and "p \<notin> S" and "held r p = held r cur"
    and "fs (tsk r cur) \<noteq> None" and "sig (tsk r cur) \<noteq> None" and "mm (tsk r cur) = Some m"
    and "flags AND CLONE_VM = 0" and "init_new_context X = 0" and "copy_namespace X = 0" and "copy_thread X \<notin> {0, - ENOMEM}"
    and "copy_resources X flags cur p r = Inr (r', copy_thread X)"
  shows "counted S (files_of r') \<and> counted S (fs_of r') \<and> counted S (sig_of r') \<and>
    (\<exists>a. new_mm X = Some a \<and> a \<notin> live_mm r \<and> a \<in> live_mm r' \<and> mm_users (mm_tab r' a) = 0 \<and> mm_count (mm_tab r' a) = 1 \<and>
      (\<forall>q\<in>S. mm (tsk r' q) \<noteq> Some a \<and> active_mm (tsk r' q) \<noteq> Some a))"
proof -
  let ?f = "\<lambda>r3. sbind (copy_mm X flags cur p r3) (\<lambda>(r4, e4).
            if e4 \<noteq> 0 then Inr (cleanup_sighand X p r4, - ENOMEM)
            else if copy_namespace X \<noteq> 0 then failed (- ENOMEM) (cleanup_mm X cur p r4)
            else if copy_thread X \<noteq> 0 then failed (copy_thread X) (cleanup_namespace X cur p r4)
            else Inr (r4, 0))"
  have eq: "copy_resources X flags cur p r = copy_three X flags cur p r ?f"
    by (simp add: copy_resources_def copy_three_def)
  note D = objects_okD [OF assms(3)] and M = spaces_okD [OF objects_okD(4) [OF assms(3)]]
  have X': "mmap_ok X" and vm: "flags AND 0x100 = 0" using assms(1,9) by (simp_all add: env_ok_def CLONE_VM_def)
  have pc: "p \<noteq> cur" using M(2) assms(4) by blast
  show ?thesis
  proof (rule copy_three_cases [OF assms(1-7), of flags ?f])
    fix r1 assume "copy_three X flags cur p r ?f = Inr (r1, - ENOMEM)"
    then show ?thesis using assms(12,13) by (simp add: eq)
  next
    fix r3 assume c: "copy_three X flags cur p r ?f = ?f r3" "copied_three S cur p r r3"
    have m3: "mm_of r3 = mm_of r" using c(2) by (simp add: copied_three_def)
    then have t3: "live_mm r3 = live_mm r" "mm (tsk r3 cur) = Some m" using assms(8) by (metis of_sel(10,14))+
    have new: "new_mm X = Some a \<Longrightarrow> a \<notin> live_mm r3" for a using assms(2) t3 by (simp add: fresh_in_def)
    have i: "init_mm \<in> live_mm r3" using M(3) t3 by simp
    obtain r4 e4 where 4: "copy_mm X flags cur p r3 = Inr (r4, e4)" by (rule copy_mm_returns [OF X' assms(10) new i])
    have e4: "e4 = 0" using assms(12,13) 4 by (auto simp: eq c(1) split: if_splits)
    note c4 = copy_mm_of(2) [OF 4 X' assms(10) new i pc, unfolded same_objects_def]
    have ml: "m \<in> live_mm r3" using M(7) [OF M(2), of m] assms(8) t3(1) by simp
    obtain a where a: "new_mm X = Some a" "a \<notin> live_mm r" "mm_of r4 = enter_space p a (new_space a (no_space p (mm_of r)))"
      "mm (tsk r4 p) = Some a" "active_mm (tsk r4 p) = Some a" "mm_count (mm_tab r4 a) = 1"
      by (rule copied_space [OF 4 [unfolded e4] X' assms(10) new i pc vm t3(2) ml, unfolded m3 t3(1)])
    note l = leave_new_space [OF a(3)] and fresh = a(2)
    obtain r5 where r5: "cleanup_namespace X cur p r4 = Inr r5" "mm_of r5 = leave_space p (mm_of r4)"
      "files_of r5 = let_go p (files_of r4)" "fs_of r5 = let_go p (fs_of r4)" "sig_of r5 = let_go p (sig_of r4)"
      by (rule cleanup_namespace_of [OF assms(1), of r4 p cur]) (use a(4-6) in auto)
    have r': "r' = r5" using assms(11,12,13) 4 e4 r5(1) by (simp add: eq c(1) failed_def)
    have "counted S (files_of r')" "counted S (fs_of r')" "counted S (sig_of r')"
      using c(2) c4 by (simp_all add: r' r5 copied_three_def counted_undo)
    moreover have "users (mm_of r') a = 0" "refs (mm_of r') a = 1" "a \<in> spaces_alive (mm_of r')" unfolding r' r5(2) by (rule l)+
    moreover have "runs_in (mm_of r') q \<noteq> Some a \<and> borrows (mm_of r') q \<noteq> Some a" if q: "q \<in> S" for q
    proof -
      have qp: "q \<noteq> p" using q assms(4) by blast
      show ?thesis using not_dead [OF D(4) q] fresh unfolding r' r5(2) l(4,5) [OF qp] using qp by (simp add: no_space_def)
    qed
    ultimately show ?thesis using a(1) fresh by auto
  qed
qed

text \<open>Process 2 of four forks into structure 5: files, directory and handlers are shared, the address space is copied.\<close>

definition late_env :: fork_env where
  "late_env = (life_env None)\<lparr>copy_thread := -1\<rparr>"

lemma late_env_ok: "env_ok late_env" "fresh_in late_env life_res"
proof -
  have i: "inode_of late_env = inode_of (life_env None)" by (simp add: late_env_def)
  have "release_area late_env = release_area (life_env None)" unfolding release_area_def i by (rule refl)
  then show "env_ok late_env" "fresh_in late_env life_res"
    using life_env_ok [of None]
    by (simp_all add: env_ok_def sighand_ok_def namespace_ok_def mmap_ok_def expand_ok_def fresh_in_def) (simp_all add: late_env_def)
qed

lemma copy_mm_empty:
  assumes "mm (tsk r cur) = Some m" "new_mm X = Some a" "a \<noteq> m" "mmap (mm_tab r m) = []" "pgd_alloc X" "init_new_context X = 0"
    "flags AND 0x100 = 0" "p \<noteq> cur"
  shows "\<exists>r'. copy_mm X flags cur p r = Inr (r', 0)"
proof -
  have "snd (dup_mmap X m a r1) = 0" if "mmap (mm_tab r1 m) = []" for r1
  proof -
    let ?r2 = "mmlist_add a m (upd_mm a (\<lambda>m. m\<lparr>locked_vm := 0, mmap := [], map_count := 0, rss := 0\<rparr>) r1)"
    have "mmap (mm_tab ?r2 m) = []" using that assms(3) by (simp add: mmlist_add_def upd_mm_def Let_def)
    then show ?thesis by (simp add: dup_mmap_def Let_def)
  qed
  then have d: "\<exists>r3. dup_mmap X m a r1 = (r3, 0)" if "mmap (mm_tab r1 m) = []" for r1 using that by (metis prod.collapse)
  define r2 where "r2 = fst (mm_init X a ((upd_tsk p (\<lambda>t. t\<lparr>mm := None, active_mm := None\<rparr>) r)
      \<lparr>mm_tab := (mm_tab r)(a := mm_tab r m), live_mm := insert a (live_mm r)\<rparr>))"
  have "mmap (mm_tab r2 m) = []" using assms(3-5) by (simp add: r2_def mm_init_def upd_mm_def)
  then obtain r3 where "dup_mmap X m a r2 = (r3, 0)" using d by blast
  then show ?thesis using assms by (auto simp: copy_mm_def Let_def upd_tsk_def mm_init_def r2_def)
qed

lemma late_failure: "\<exists>r'. copy_resources late_env 0xe11 2 5 life_res = Inr (r', -1)"
proof -
  let ?r1 = "upd_files 1 (\<lambda>f. f\<lparr>files_count := files_count f + 1\<rparr>) life_res"
  let ?r2 = "upd_fs 1 (\<lambda>f. f\<lparr>fs_count := fs_count f + 1\<rparr>) ?r1"
  define r3 where "r3 = upd_sig 1 (\<lambda>s. s\<lparr>sig_count := sig_count s + 1\<rparr>) ?r2"
  have t: "tsk life_res q = demo_task_res" for q by (simp add: life_res_def demo_res_def)
  have 3: "copy_files late_env 0xe11 2 5 life_res = (?r1, 0)" "copy_fs late_env 0xe11 2 5 ?r1 = Inr (?r2, 0)"
    "copy_sighand late_env 0xe11 2 5 ?r2 = Inr (r3, 0)"
    by (simp_all add: r3_def copy_files_def copy_fs_def copy_sighand_def t upd_res_defs demo_task_res_def)
  have X: "mmap_ok late_env" "init_new_context late_env = 0" "new_mm late_env = Some 2" "pgd_alloc late_env"
    using late_env_ok(1) by (simp_all add: env_ok_def) (simp_all add: late_env_def life_env_def demo_env_def)
  have l: "live_mm r3 = {0, 1}" "tsk r3 = tsk life_res" "mmap (mm_tab r3 1) = []"
    by (simp_all add: r3_def upd_res_defs life_res_def demo_res_def demo_mm_def init_mm_def)
  have "\<exists>r4. copy_mm late_env 0xe11 2 5 r3 = Inr (r4, 0)"
    by (rule copy_mm_empty [where m = 1 and a = 2]) (use X l in \<open>simp_all add: t demo_task_res_def\<close>)
  then obtain r4 where c4: "copy_mm late_env 0xe11 2 5 r3 = Inr (r4, 0)" by blast
  obtain a where a: "mm (tsk r4 5) = Some a" "active_mm (tsk r4 5) = Some a" "mm_count (mm_tab r4 a) = 1"
    by (rule copied_space [OF c4 X(1,2), of 1]) (use X(3) l in \<open>auto simp: init_mm_def t demo_task_res_def\<close>)
  obtain r5 where "cleanup_namespace late_env 2 5 r4 = Inr r5" by (rule cleanup_namespace_of [OF late_env_ok(1), of r4 5 2]) (use a in auto)
  moreover have "copy_namespace late_env = 0" "copy_thread late_env = -1" by (simp_all add: late_env_def)
  ultimately show ?thesis using 3 c4 by (simp add: copy_resources_def failed_def)
qed

theorem failed_fork_leaks_memory_witness:
  "\<exists>r'. copy_resources late_env 0xe11 2 5 life_res = Inr (r', -1) \<and> 2 \<notin> live_mm life_res \<and> 2 \<in> live_mm r' \<and>
    mm_users (mm_tab r' 2) = 0 \<and> mm_count (mm_tab r' 2) = 1 \<and> (\<forall>q\<in>tasks_of [1, 2, 3, 4]. mm (tsk r' q) \<noteq> Some 2)"
proof -
  obtain r' where r': "copy_resources late_env 0xe11 2 5 life_res = Inr (r', -1)" using late_failure by blast
  have t: "tsk life_res q = demo_task_res" for q by (simp add: life_res_def demo_res_def)
  have X: "new_mm late_env = Some 2" "copy_namespace late_env = 0" "copy_thread late_env = -1" "init_new_context late_env = 0"
    by (simp_all add: late_env_def)
  have ok: "objects_ok (tasks_of [1, 2, 3, 4]) 2 life_res" using life_okD(2) [OF life_demo] by (simp add: life_state_def)
  show ?thesis
    using failed_fork_leaks_memory [OF late_env_ok ok, of 5 1 "0xe11" r'] r' X
    by (simp add: held_def t demo_task_res_def CLONE_VM_def tasks_of_def init_task_def)
qed

end
