(* ===== verification/Fork_Pid_Props.thy ===== *)
theory Fork_Pid_Props
  imports Fork_Pid
begin

text \<open>
  HW1, \<open>get_pid\<close> (\<^verbatim>\<open>HW1/kernel/fork.c\<close>) with few and with many processes: there is an id as long as the tasks are
  few, and once all ids were used up the next call gives one out without looking.
\<close>

text \<open>C39: While there are fewer than 8117 tasks, \<open>get_pid\<close> ends, and the id it returns is positive, less than
  \<open>PID_MAX\<close>, and used by no task as pid, process group, thread group or session; and what it caches for the
  next call is right: no task uses an id between \<open>last_pid\<close> and \<open>next_safe\<close>.\<close>
theorem get_pid_finds_free_id:
  assumes "ring_is xs k" and "pids_cached (set xs) k" and "length xs < 8117"
  shows "\<exists>k' x. get_pid False k = Some (k', x) \<and> 0 < x \<and> x < PID_MAX \<and>
    (\<forall>p\<in>set xs. \<not> uses_id (procs k p) x) \<and> pids_cached (set xs) k'"
proof -
  have few: "4 * length xs < 32467" using assms(3) by simp
  obtain y where y: "300 \<le> y" "y < PID_MAX" "y \<noteq> last_pid k" "\<not> used_id (set xs) k y"
    by (rule free_id_exists [OF few])
  obtain k' x where g: "get_pid False k = Some (k', x)" and full: "x = 0 \<longrightarrow> 300 \<le> last_pid k \<and>
      (\<forall>y. 300 \<le> y \<and> y < PID_MAX \<and> y \<noteq> last_pid k \<longrightarrow> used_id (set xs) k y)"
    using get_pid_returns [OF assms(1,2) y(1,2)] y(4) by blast
  have "x \<noteq> 0" using full y by blast
  from get_pid_result(1) [OF g assms(1,2) this] g show ?thesis by (auto simp: used_id_def)
qed

text \<open>A ring of \<open>n\<close> tasks after the idle task, all with the ids \<open>f\<close>.\<close>

definition id_task :: "pid \<Rightarrow> tid \<Rightarrow> tid \<Rightarrow> ptask" where
  "id_task x nx pv = \<lparr>ppid = x, pgrp = x, session = x, tgid = x, leader = False, did_exec = False, tty = False,
     tty_old_pgrp = 0, pstate = 0, exiting = False, pflags = 0, exit_code = 0, exit_signal = 17, pdeath_signal = 0,
     ptrace = 0, self_exec_id = 0, parent_exec_id = 0, cap_kill = False, first_time_slice = 0,
     p_opptr = 0, p_pptr = 0, p_cptr = None, p_ysptr = None, p_osptr = None, next_task = nx, prev_task = pv,
     thread_next = 0, thread_prev = 0, tms_utime = 0, tms_stime = 0, tms_cutime = 0, tms_cstime = 0,
     min_flt = 0, maj_flt = 0, nswap = 0, cmin_flt = 0, cmaj_flt = 0, cnswap = 0, user_id = 0\<rparr>"

definition ring_kern :: "(tid \<Rightarrow> pid) \<Rightarrow> nat \<Rightarrow> pid \<Rightarrow> pid \<Rightarrow> kern" where
  "ring_kern f n lst safe = \<lparr>procs = (\<lambda>q. id_task (f q) (if q = n then 0 else q + 1) (if q = 0 then n else q - 1)),
     current = 1, child_reaper = 1, nr_threads = int n, pidhash = (\<lambda>_. []), signals = [], user_processes = (\<lambda>_. 0),
     user_count = (\<lambda>_. 0), last_pid = lst, next_safe = safe, max_threads = 40000, total_forks = 0\<rparr>"

lemma path_up: "a \<le> n \<Longrightarrow> path (\<lambda>q. if q = n then 0 else q + 1) a [a + 1..<n + 1] 0"
proof (induction "n - a" arbitrary: a)
  case (Suc d)
  then have "a + 1 \<le> n" "a \<noteq> n" by simp_all
  moreover from this have "[a + 1..<n + 1] = (a + 1) # [a + 2..<n + 1]" by (simp add: upt_conv_Cons)
  ultimately show ?case using Suc.hyps(1) [of "a + 1"] Suc.hyps(2) by simp
qed simp

lemma path_down: "a \<le> n \<Longrightarrow> path (\<lambda>q. if q = 0 then n else q - 1) (Suc a) (rev [1..<Suc a]) 0"
  by (induction a) simp_all

lemma ring_kern_ring:
  assumes "0 < n"
  shows "ring_is [1..<n + 1] (ring_kern f n lst safe)"
proof -
  have "path (\<lambda>q. if q = n then 0 else q + 1) 0 [0 + 1..<n + 1] 0" by (rule path_up) simp
  moreover have "path (\<lambda>q. if q = 0 then n else q - 1) 0 (rev [1..<n + 1]) 0"
    using path_down [of "n - 1" n] assms by (cases n) auto
  ultimately show ?thesis
    by (simp add: ring_is_def ring_kern_def id_task_def init_task_def)
qed

theorem get_pid_finds_free_id_witness:
  "\<exists>k' x. get_pid False (ring_kern (\<lambda>q. int q + 6) 3 0x7fff 0x8000) = Some (k', x) \<and> 0 < x \<and>
     (\<forall>p\<in>{1, 2, 3}. \<not> uses_id (procs (ring_kern (\<lambda>q. int q + 6) 3 0x7fff 0x8000) p) x)"
proof -
  let ?k = "ring_kern (\<lambda>q. int q + 6) 3 0x7fff 0x8000"
  have "pids_cached (set [1..<3 + 1]) ?k" by (auto simp: pids_cached_def gap_free_def ring_kern_def PID_MAX_def uses_id_def id_task_def)
  from get_pid_finds_free_id [OF ring_kern_ring this] have
    "\<exists>k' x. get_pid False ?k = Some (k', x) \<and> 0 < x \<and> x < PID_MAX \<and> (\<forall>p\<in>set [1..<3 + 1]. \<not> uses_id (procs ?k p) x)"
    by auto
  moreover have "set [1..<3 + 1 :: nat] = {1, 2, 3}" by auto
  ultimately show ?thesis by auto
qed

subsection \<open>All ids in use\<close>

text \<open>The tasks are in the order of their ids, as they are when they were created one after the other.\<close>

definition ids_in_order :: "tid list \<Rightarrow> kern \<Rightarrow> bool" where
  "ids_in_order xs k \<longleftrightarrow> (\<forall>l. 300 \<le> l \<and> l < PID_MAX \<longrightarrow> (\<exists>us p vs. xs = us @ p # vs \<and> uses_id (procs k p) l \<and>
     (\<forall>q\<in>set us. \<forall>x. uses_id (procs k q) x \<longrightarrow> x < l)))"

lemma task_safe_low: "(\<And>x. uses_id t x \<Longrightarrow> x < l) \<Longrightarrow> task_safe l t safe = safe"
proof -
  assume a: "\<And>x. uses_id t x \<Longrightarrow> x < l"
  have "ppid t < l" "pgrp t < l" "tgid t < l" "session t < l" by (auto intro: a simp: uses_id_def)
  then show ?thesis by (simp add: task_safe_def lower_safe_def)
qed

lemma pid_scan_hit:
  assumes "uses_id (procs k p) l" "\<forall>q\<in>set us. \<forall>x. uses_id (procs k q) x \<longrightarrow> x < l"
  shows "pid_scan k l safe (us @ p # vs) = (True, safe)"
  using assms(2)
proof (induction us)
  case Nil
  then show ?case using assms(1) by simp
next
  case (Cons q us)
  then have "\<not> uses_id (procs k q) l" by auto
  moreover have "task_safe l (procs k q) safe = safe" using Cons.prems by (intro task_safe_low) auto
  ultimately show ?case using Cons by simp
qed

lemma pid_search_full:
  assumes "ids_in_order xs k" "300 \<le> b" "b < PID_MAX" "300 \<le> cand" "cand < PID_MAX" "cand \<noteq> b"
  shows "pid_search k xs b cand PID_MAX = Some (b, PID_MAX, False)"
  using assms(4-6)
proof (induction "nat (pid_dist b cand)" arbitrary: cand rule: less_induct)
  case less
  obtain us p vs where xs: "xs = us @ p # vs" "uses_id (procs k p) cand" "\<forall>q\<in>set us. \<forall>x. uses_id (procs k q) x \<longrightarrow> x < cand"
    using assms(1) less.prems unfolding ids_in_order_def by blast
  have sc: "pid_scan k cand PID_MAX xs = (True, PID_MAX)" unfolding xs(1) by (rule pid_scan_hit [OF xs(2,3)])
  have n: "pid_next cand PID_MAX = (succ_pid cand, PID_MAX)" "300 \<le> succ_pid cand" "succ_pid cand < PID_MAX"
    using less.prems pid_wraps_iff [of "cand + 1"] by (auto simp: pid_next_def succ_pid_def PID_MAX_def)
  note d = pid_dist_succ [OF less.prems(3) assms(2,3) less.prems(2)] pid_dist_pos [OF less.prems(3) assms(2) less.prems(2)]
  show ?case
  proof (cases "succ_pid cand = b")
    case True
    then show ?thesis using sc n by (subst pid_search.simps) simp
  next
    case False
    then have "pid_search k xs b (succ_pid cand) PID_MAX = Some (b, PID_MAX, False)"
      using n d by (intro less.hyps) auto
    then show ?thesis using sc n False by (subst pid_search.simps) simp
  qed
qed

text \<open>When every id is in use, \<open>get_pid\<close> fails once and then gives out an id that is in use. With the tasks
  in the order of their ids, the call after which no id was found returns 0, but leaves \<open>next_safe\<close> at
  \<open>PID_MAX\<close>; the next call takes that to mean that all ids above \<open>last_pid\<close> are free and returns the next one
  without looking at the tasks.\<close>
theorem get_pid_repeats_id:
  assumes "ring_is xs k" and "ids_in_order xs k" and "300 \<le> last_pid k" and "last_pid k + 1 < PID_MAX"
    and "next_safe k \<le> last_pid k + 1"
  shows "\<exists>k1 k2. get_pid False k = Some (k1, 0) \<and> get_pid False k1 = Some (k2, last_pid k + 1) \<and>
    (\<exists>p\<in>set xs. uses_id (procs k1 p) (last_pid k + 1))"
proof -
  let ?b = "last_pid k" and ?n = "last_pid k + 1"
  have w: "\<not> pid_wraps ?n" using assms(3,4) pid_wraps_iff [of ?n] by simp
  have s: "pid_search k xs ?b ?n PID_MAX = Some (?b, PID_MAX, False)"
    by (rule pid_search_full [OF assms(2)]) (use assms in auto)
  have 1: "get_pid False k = Some (k\<lparr>last_pid := ?b, next_safe := PID_MAX\<rparr>, 0)"
    using w s assms(5) for_each_task_list [OF assms(1)] by (simp add: get_pid_def Let_def)
  have 2: "get_pid False (k\<lparr>last_pid := ?b, next_safe := PID_MAX\<rparr>) = Some (k\<lparr>last_pid := ?n, next_safe := PID_MAX\<rparr>, ?n)"
    using w assms(4) by (simp add: get_pid_def Let_def)
  obtain us p vs where "xs = us @ p # vs" "uses_id (procs k p) ?n"
    using assms(2) [unfolded ids_in_order_def, rule_format, of ?n] assms(3,4) by auto
  then have "\<exists>p\<in>set xs. uses_id (procs k p) ?n" by auto
  then show ?thesis using 1 2 by auto
qed

theorem get_pid_repeats_id_witness:
  "\<exists>k1 k2. get_pid False (ring_kern (\<lambda>q. int q + 299) 32468 1000 0) = Some (k1, 0) \<and>
     get_pid False k1 = Some (k2, 1001) \<and> (\<exists>p\<in>set [1..<32469]. uses_id (procs k1 p) 1001)"
proof -
  let ?k = "ring_kern (\<lambda>q. int q + 299) 32468 1000 0" and ?xs = "[1..<32468 + 1] :: nat list"
  have u: "uses_id (procs ?k q) x \<longleftrightarrow> x = int q + 299" for q x
    by (auto simp: ring_kern_def id_task_def uses_id_def)
  have "ids_in_order ?xs ?k"
    unfolding ids_in_order_def
  proof (intro allI impI)
    fix l :: pid assume l: "300 \<le> l \<and> l < PID_MAX"
    define q where "q = nat (l - 299)"
    have q: "int q + 299 = l" "1 \<le> q" "q < 32468 + 1" using l by (auto simp: q_def PID_MAX_def)
    then have "?xs = [1..<q] @ q # [q + 1..<32468 + 1]"
      using upt_conv_Cons [of q "32468 + 1"] upt_add_eq_append [of 1 q "32468 + 1 - q"] by simp
    moreover have "uses_id (procs ?k q) l" using q(1) by (simp add: u)
    moreover have "\<forall>p\<in>set [1..<q]. \<forall>x. uses_id (procs ?k p) x \<longrightarrow> x < l" using q(1) by (auto simp: u)
    ultimately show "\<exists>us p vs. ?xs = us @ p # vs \<and> uses_id (procs ?k p) l \<and>
        (\<forall>q\<in>set us. \<forall>x. uses_id (procs ?k q) x \<longrightarrow> x < l)" by blast
  qed
  from get_pid_repeats_id [OF ring_kern_ring this] show ?thesis
    by (simp add: ring_kern_def PID_MAX_def)
qed

end
