(* ===== verification/Spec2Isabelle.thy ===== *)
theory Spec2Isabelle
  imports Restrict Sched_Props Sched_Smp_Pick Sched_Locks Sched_Latency Sched_Show Life_Show Malloc_2_Props Pc_Queue_Props Semaphores Life_Game_Props Sys_Confine_Props Sys_Notify_Props Sys_Priority Proc_Fork_Fails Fork_Pid_Props
begin

text \<open>
  A verification library for the assignments of an operating-systems course: four programs in C and
  C++ that do not call each other. Each is modelled as shallow embeddings, one theory per component,
  with the definitions in the order of the code; a theory opens with what it holds.

  \<^bold>\<open>HW1\<close>, restriction of system calls in a Linux 2.4.18 kernel. \<^theory_text>\<open>Restrict\<close> models
  \<^verbatim>\<open>HW1/arch/i386/kernel/hw1_syscalls.c\<close> (\<^verbatim>\<open>sc_restrict\<close>, \<^verbatim>\<open>set_proc_restriction\<close>, \<^verbatim>\<open>get_process_log\<close>),
  \<^verbatim>\<open>HW1/kernel/restrict.c\<close> (\<^verbatim>\<open>syscall_check\<close>), the untraced path of \<^verbatim>\<open>system_call\<close> in \<^verbatim>\<open>entry.S\<close> and what
  \<^verbatim>\<open>fork.c\<close> and \<^verbatim>\<open>exit.c\<close> do to the restriction fields of a task. Kernel memory is a pointer with its
  contents, so use after free, double free and overruns are values. The log of a process refines an
  abstract history through the contract \<open>event_log\<close>; all operations together keep the invariant of
  the contract \<open>safe_machine\<close>, for runs without the three faults of the code that the theory shows
  (a failed allocation, the log of a failed one, a log copied past its end).

  The processes of that kernel (\<^verbatim>\<open>HW1/kernel/fork.c\<close>, \<^verbatim>\<open>HW1/kernel/exit.c\<close>, \<^verbatim>\<open>HW1/include/linux/sched.h\<close>) are
  a table of tasks linked by pointers. \<^theory_text>\<open>Proc_Links\<close> has the tasks, the circular list of all of them and
  the lists of children; \<^theory_text>\<open>Proc_Exit\<close> and \<^theory_text>\<open>Proc_Exit_Inv\<close> model \<^verbatim>\<open>exit_notify\<close> and prove that it ends and
  keeps the links, \<^theory_text>\<open>Proc_Wait\<close> models \<^verbatim>\<open>sys_wait4\<close>, \<^theory_text>\<open>Proc_Props\<close> holds the properties of these two.
  \<^theory_text>\<open>Fork_Pid\<close> and \<^theory_text>\<open>Fork_Pid_Props\<close> treat the choice of a pid; \<^theory_text>\<open>Proc_Res\<close> the files, directories,
  signal handlers and memory of a process, with their share counts, with the allocators as parameters; and \<^theory_text>\<open>Proc_Fork\<close>
  \<^verbatim>\<open>do_fork\<close> with every label of its error path, \<^verbatim>\<open>do_exit\<close> and \<^verbatim>\<open>daemonize\<close>. \<^theory_text>\<open>Proc_Table\<close> states what
  a table in order is (\<open>table_ok\<close>), \<^theory_text>\<open>Proc_Table_Fork\<close> shows that a fork keeps it, \<^theory_text>\<open>Proc_Limit\<close> that the limit on
  tasks never changes, and \<^theory_text>\<open>Proc_Machine\<close> runs any history of fork, exit, wait, group and session calls and
  switches between the tasks on the list (the contract \<open>invariant_relation\<close>).
  \<^theory_text>\<open>Proc_Share\<close> and \<^theory_text>\<open>Proc_Spaces\<close> abstract the share counts of those objects, the contract \<open>shared_object\<close>
  for what a task gives up, and the address spaces, with the part of \<^verbatim>\<open>context_switch\<close> that borrows them;
  \<^theory_text>\<open>Proc_Objects\<close> carries the counts through a fork, and \<^theory_text>\<open>Proc_Lifecycle\<close> runs tasks and objects together: as
  long as no copy fails after that of an address space, the counts are exact, nothing freed is held, and a fork
  returns what it promises. \<^theory_text>\<open>Proc_Fork_Fails\<close> shows the failure that breaks this, a fork that fails late. A call
  with \<open>CLONE_VFORK\<close> ends in the model where the caller begins to wait for the child.

  \<^bold>\<open>HW2\<close>, a scheduling class SCHED_SHORT in the O(1) scheduler. \<^theory_text>\<open>Sched_Data\<close> has the tasks, the
  priority arrays and the run queue, with the contract \<open>placement_queue\<close> of \<^verbatim>\<open>enqueue_task\<close> and
  \<^verbatim>\<open>dequeue_task\<close>; \<^theory_text>\<open>Sched_Core\<close> time slices, wake-up, tick and \<^verbatim>\<open>schedule\<close> of \<^verbatim>\<open>HW2/kernel/sched.c\<close>;
  \<^theory_text>\<open>Sched_Policy\<close> its system calls; \<^theory_text>\<open>Wait_Queue\<close> sleeping and waking; \<^theory_text>\<open>Pid_Hash\<close> the process table of
  \<^verbatim>\<open>include/linux/sched.h\<close> with the contract \<open>pid_table\<close>. \<^theory_text>\<open>Sched_Inv\<close> and \<^theory_text>\<open>Sched_Pick\<close> prove the invariant
  \<open>sched_wf\<close> and what \<^verbatim>\<open>schedule\<close> picks; \<^theory_text>\<open>Sched_Machine\<close> boots the scheduler, adds the scheduling part
  of \<^verbatim>\<open>do_fork\<close> and runs any sequence of operations; \<^theory_text>\<open>Sched_Props\<close> holds the properties. These are
  about one processor. \<^theory_text>\<open>Sched_Smp\<close> has a run queue for each of several processors and models what
  \<^verbatim>\<open>sched.c\<close> adds for them, \<^verbatim>\<open>load_balance\<close>, \<^verbatim>\<open>set_cpus_allowed\<close> and the loop of \<^verbatim>\<open>migration_thread\<close>;
  an operation on one queue is the operation of \<^theory_text>\<open>Sched_Core\<close> on the view of its processor. \<^theory_text>\<open>Sched_Smp_Inv\<close>
  has the invariant \<open>smp_wf\<close> and the search for tasks to pull, \<^theory_text>\<open>Sched_Smp_Props\<close> the properties of
  balancing, \<^theory_text>\<open>Sched_Smp_Migrate\<close> those of migration, \<^theory_text>\<open>Sched_Smp_Pick\<close> the choice of \<^verbatim>\<open>schedule\<close> with
  balancing. \<^theory_text>\<open>Sched_Locks\<close> reduces the functions to their spin locks, runs them on any number of processors in
  every interleaving and shows that they end and never deadlock; the places where a queue is changed are marked
  by hand, the reads that the code makes without a lock are not. \<^theory_text>\<open>Sched_Latency\<close> models
  the copies in chunks, \<^theory_text>\<open>Sched_Show\<close> the printing of a set of signals.
  \<^verbatim>\<open>HW2/kernel/sys.c\<close> is modelled beside it: \<^theory_text>\<open>Sys_Cred\<close> the credentials of a process,
  \<^theory_text>\<open>Sys_Misc\<close> names, limits, usage and \<^verbatim>\<open>prctl\<close>, \<^theory_text>\<open>Sys_Confine\<close> what a sequence of such calls can change,
  and \<^theory_text>\<open>Sys_Confine_Props\<close> the properties; \<^theory_text>\<open>Sys_Notify\<close> and \<^theory_text>\<open>Sys_Notify_Props\<close> the notifier chains, as
  pointers and as a list, with \<^verbatim>\<open>reboot\<close>; \<^theory_text>\<open>Sys_Priority\<close> \<^verbatim>\<open>setpriority\<close> and \<^verbatim>\<open>getpriority\<close> on the state of the
  scheduler; \<^theory_text>\<open>Sys_Session\<close> process groups and sessions, on the process table
  of HW1.

  \<^bold>\<open>HW3\<close>, a parallel Game of Life. \<^theory_text>\<open>Life_Text\<close> (\<^verbatim>\<open>utils.cpp\<close>), \<^theory_text>\<open>Life_Board\<close> (\<^verbatim>\<open>Job.cpp\<close>, the computation of
  \<^verbatim>\<open>Life_Thread.cpp\<close>, the board of \<^verbatim>\<open>Game.cpp\<close>), \<^theory_text>\<open>Life_Step\<close> (one generation against a reference
  definition of the game), \<^theory_text>\<open>Life_Game\<close>, \<^theory_text>\<open>Life_Game_Inv\<close> and \<^theory_text>\<open>Life_Game_Props\<close> (main thread and workers in
  every interleaving), \<^theory_text>\<open>Pc_Queue\<close>, \<^theory_text>\<open>Pc_Queue_Inv\<close> and \<^theory_text>\<open>Pc_Queue_Props\<close> (\<^verbatim>\<open>PCQueue.hpp\<close>, one step per
  statement, any number of threads, spurious wake-ups), \<^theory_text>\<open>Semaphores\<close> (\<^verbatim>\<open>Semaphore.cpp\<close>, with the overflow of its
  counter as a step). The busy wait of the main thread is a step that changes nothing, so runs in which
  only that step repeats are the only infinite ones. The threads are
  inductive step relations; invariants are proved by rule induction over
  reachable states. \<^theory_text>\<open>Life_Show\<close> has what \<^verbatim>\<open>print_board\<close> writes. The game
  uses the queue with atomic operations, which the refinement in \<^theory_text>\<open>Pc_Queue_Props\<close> justifies.

  \<^bold>\<open>HW4\<close>, three memory allocators on \<^verbatim>\<open>sbrk\<close>. \<^theory_text>\<open>Heap_Data\<close> has the headers in memory and the counters,
  \<^theory_text>\<open>Heap_Blocks\<close> the abstract list of blocks, \<^theory_text>\<open>Heap_Client\<close> the contract \<open>allocator\<close> between an allocator
  and the program that uses it. \<^theory_text>\<open>Malloc_3\<close> models \<^verbatim>\<open>malloc_3.cpp\<close> (splitting, merging, extension of the
  last block), \<^theory_text>\<open>Malloc_3_Steps\<close>, \<^theory_text>\<open>Malloc_3_Refine\<close> and \<^theory_text>\<open>Malloc_3_Realloc\<close> relate each helper and each
  operation to the list of blocks, \<^theory_text>\<open>Malloc_3_Client\<close> gives the contract, \<^theory_text>\<open>Malloc_3_Props\<close> the
  properties (a run of a program goes on until it ends or the kernel refuses memory, where the code faults); \<^theory_text>\<open>Malloc_2\<close>, \<^theory_text>\<open>Malloc_2_Client\<close> and \<^theory_text>\<open>Malloc_2_Props\<close> do the same for \<^verbatim>\<open>malloc_2.cpp\<close> and
  \<^verbatim>\<open>malloc_1.cpp\<close>.

  \<^bold>\<open>Interfaces.\<close> \<open>safe_machine\<close> (theory \<^theory_text>\<open>Prelude\<close>) is the contract of a component whose operations keep an
  invariant and never fault; it is interpreted on the restriction calls, the scheduler, the calls of
  \<^verbatim>\<open>sys.c\<close> and, through \<open>allocator\<close>, both allocators, and gives each of them its statement on whole runs.
  \<open>placement_queue\<close>, \<open>pid_table\<close>, \<open>event_log\<close>, \<open>shared_object\<close> and \<open>allocator\<close> are the contracts between
  components.

  \<^bold>\<open>Bounds.\<close> Integers have the width of i386 (\<open>u32\<close>); an \<^verbatim>\<open>int\<close> of the code is an \<open>int\<close> where the code checks its range
  or the value is bounded by something in memory (the index of a task, a pid, a reference count), and elsewhere the
  bound is written out: the counter of a semaphore overflows at \<open>INT_MAX\<close>, a log has fewer than 2^31 entries, a
  pid is looked for among fewer than 8117 tasks (\<^verbatim>\<open>max_threads\<close>), which leaves one free. No loop is cut off by fuel: a loop the code does not bound (the search of an allocator through
  its list, the retry of \<^verbatim>\<open>schedule\<close>) is a partial function in the option monad, with \<open>None\<close> for a loop
  that never ends, and that it ends is proved; every other loop is a total function.

  \<^bold>\<open>Parameters.\<close> What the source takes from elsewhere is an argument: \<^verbatim>\<open>kmalloc\<close> and \<^verbatim>\<open>sbrk\<close> (which requests
  are granted), the tick rate and the bit search of the architecture, the capability header, the
  numbers of headers that are not in the repository, and what a copy from user space leaves behind.
  Hypotheses about them are predicates such as \<open>arch_ok\<close>, \<open>smp_arch_ok\<close>, \<open>ffs_ok\<close>, \<open>cap_env_ok\<close> and \<open>env_ok\<close> (what \<^verbatim>\<open>exit_mmap\<close>,
  \<^verbatim>\<open>exit_sighand\<close>, \<^verbatim>\<open>exit_namespace\<close> and the growth of a file table may change), each shown to hold for a
  concrete instance.

  \<^bold>\<open>Not modelled.\<close> Of \<^verbatim>\<open>sched.c\<close> on several processors the start of the migration threads and the wake-up on another
  processor (in the model of balancing a function runs with its locks held and is one step; where it lets go of
  them, what the other processors do is an argument; the locks themselves are in \<^theory_text>\<open>Sched_Locks\<close>, without
  the reader lock of the task list); its debugging output (\<^verbatim>\<open>show_task\<close>, \<^verbatim>\<open>show_state\<close>); the rest of \<^verbatim>\<open>entry.S\<close>; of
  \<^verbatim>\<open>fork.c\<close> and \<^verbatim>\<open>exit.c\<close> the red-black tree and the page tables of an address space, namespaces,
  accounting, timers and semaphores; functions that only print; the programs under \<^verbatim>\<open>src/Tests\<close>, the
  makefiles and the archives. Locks are not modelled where the kernel
  runs on one processor.
\<close>

end
